(* ===== verification/Prelude.thy ===== *)
theory Prelude
  imports Main "HOL-Library.Word"
begin

text \<open>
  Shared vocabulary of the development: the machine types of the C++ sources, byte constants,
  the collections of rewrite rules the component theories extend, and the generic facts on
  arrays (lists updated by index) and machine words that several components use.

  Conventions. A \<^verbatim>\<open>uint64_t\<close>, \<^verbatim>\<open>uint32_t\<close>, \<^verbatim>\<open>uint16_t\<close> or \<^verbatim>\<open>uint8_t\<close> is a word of that width;
  a \<^verbatim>\<open>char\<close> read from a stream is represented by its byte, the cast between the two being a
  bijection on which none of the comparisons in the sources depends. A \<^verbatim>\<open>size_t\<close> that indexes a
  fixed array is a \<open>nat\<close>. A fixed array is a list whose length is the array's length; an array
  element is written with \<open>xs[i := v]\<close>, and every component proves its indices in range.
\<close>

type_synonym byte = "8 word"
type_synonym u16 = "16 word"
type_synonym u32 = "32 word"
type_synonym u64 = "64 word"

named_theorems ring_simps \<open>list view of ring buffers\<close>
named_theorems sched_simps \<open>list view of the schedulers' task arrays\<close>
named_theorems reader_simps \<open>protocol-reader state after an operation\<close>
named_theorems loop_simps \<open>callback slots of the event loop after an operation\<close>

section \<open>Byte constants\<close>

abbreviation chr_lf :: byte where "chr_lf \<equiv> 10"
abbreviation chr_cr :: byte where "chr_cr \<equiv> 13"
abbreviation chr_tab :: byte where "chr_tab \<equiv> 9"
abbreviation chr_space :: byte where "chr_space \<equiv> 32"
abbreviation chr_quote :: byte where "chr_quote \<equiv> 34"
abbreviation chr_plus :: byte where "chr_plus \<equiv> 43"
abbreviation chr_minus :: byte where "chr_minus \<equiv> 45"
abbreviation chr_dot :: byte where "chr_dot \<equiv> 46"
abbreviation chr_0 :: byte where "chr_0 \<equiv> 48"
abbreviation chr_1 :: byte where "chr_1 \<equiv> 49"
abbreviation chr_9 :: byte where "chr_9 \<equiv> 57"
abbreviation chr_E :: byte where "chr_E \<equiv> 69"
abbreviation chr_lbracket :: byte where "chr_lbracket \<equiv> 91"
abbreviation chr_backslash :: byte where "chr_backslash \<equiv> 92"
abbreviation chr_rbracket :: byte where "chr_rbracket \<equiv> 93"
abbreviation chr_e :: byte where "chr_e \<equiv> 101"
abbreviation chr_f :: byte where "chr_f \<equiv> 102"
abbreviation chr_n :: byte where "chr_n \<equiv> 110"
abbreviation chr_t :: byte where "chr_t \<equiv> 116"
abbreviation chr_lbrace :: byte where "chr_lbrace \<equiv> 123"
abbreviation chr_rbrace :: byte where "chr_rbrace \<equiv> 125"

text \<open>The bytes of a string literal.\<close>

definition bytes_of :: "string \<Rightarrow> byte list" where
  "bytes_of s = map of_char s"

lemma length_bytes_of [simp]: "length (bytes_of s) = length s"
  by (simp add: bytes_of_def)

section \<open>Arrays as lists\<close>

lemma take_Suc_update [simp]:
  "n < length xs \<Longrightarrow> take (Suc n) (xs[n := x]) = take n xs @ [x]"
  by (simp add: take_Suc_conv_app_nth)

lemma last_take_nth: "0 < n \<Longrightarrow> n \<le> length xs \<Longrightarrow> last (take n xs) = xs ! (n - 1)"
  by (cases n) (simp_all add: take_Suc_conv_app_nth)

lemma take_pred_butlast: "n \<le> length xs \<Longrightarrow> take (n - Suc 0) xs = butlast (take n xs)"
  by (simp add: butlast_take)

lemma nth_take_in_range: "i < n \<Longrightarrow> xs ! i = take n xs ! i"
  by simp

text \<open>
  The shifting loop \<^verbatim>\<open>for (i = index + 1; i < n; ++i) items[i - 1] = items[i];\<close> with which both
  \<^verbatim>\<open>FixedVector::erase\<close> and the cooperative scheduler close a gap in an array.
\<close>

function shift_down :: "'a list \<Rightarrow> nat \<Rightarrow> nat \<Rightarrow> 'a list" where
  "shift_down xs i n = (if i < n then shift_down (xs[i - 1 := xs ! i]) (Suc i) n else xs)"
  by pat_completeness auto
termination
  by (relation "measure (\<lambda>(xs, i, n). n - i)") auto

declare shift_down.simps [simp del]

lemma length_shift_down [simp]: "length (shift_down xs i n) = length xs"
proof (induction xs i n rule: shift_down.induct)
  case (1 xs i n)
  then show ?case by (simp add: shift_down.simps [of xs i n])
qed

lemma shift_down_eq:
  assumes "0 < i" "i \<le> n" "n \<le> length xs"
  shows "shift_down xs i n = take (i - 1) xs @ drop i (take n xs) @ drop (n - 1) xs"
  using assms
proof (induction xs i n rule: shift_down.induct)
  case (1 xs i n)
  show ?case
  proof (cases "i < n")
    case True
    let ?ys = "xs[i - 1 := xs ! i]"
    from "1.prems" True have IH: "shift_down ?ys (Suc i) n =
        take i ?ys @ drop (Suc i) (take n ?ys) @ drop (n - 1) ?ys"
      using "1.IH" by simp
    from "1.prems" True have head: "take i ?ys = take (i - 1) xs @ [xs ! i]"
      using take_Suc_update [of "i - 1" xs "xs ! i"] by simp
    from "1.prems" True have mid: "drop (Suc i) (take n ?ys) = drop (Suc i) (take n xs)"
      by (simp add: take_update_swap)
    from "1.prems" True have tail: "drop (n - 1) ?ys = drop (n - 1) xs"
      by simp
    from "1.prems" True have "drop i (take n xs) = xs ! i # drop (Suc i) (take n xs)"
      by (simp add: Cons_nth_drop_Suc [symmetric])
    with IH head mid tail True show ?thesis
      by (simp add: shift_down.simps [of xs i n])
  next
    case False
    with "1.prems" have "i = n" by simp
    with "1.prems" show ?thesis
      by (simp add: shift_down.simps [of xs n n])
  qed
qed

lemma take_shift_down:
  assumes "i < n" "n \<le> length xs"
  shows "take (n - Suc 0) (shift_down xs (Suc i) n) = take i xs @ drop (Suc i) (take n xs)"
  using assms by (simp add: shift_down_eq)

section \<open>Machine words\<close>

lemma unat_add_no_wrap:
  fixes a b :: "'a::len word"
  shows "unat a + unat b < 2 ^ LENGTH('a) \<Longrightarrow> unat (a + b) = unat a + unat b"
  by (simp add: unat_word_ariths)

text \<open>The cast \<^verbatim>\<open>static_cast<int>(n)\<close> of a \<^verbatim>\<open>size_t\<close> to a 32-bit \<^verbatim>\<open>int\<close>.\<close>

definition int_of_size :: "nat \<Rightarrow> int" where
  "int_of_size n = sint (word_of_nat n :: 32 word)"

lemma int_of_size_small: "n < 2 ^ 31 \<Longrightarrow> int_of_size n = int n"
  by (simp add: int_of_size_def signed_of_nat signed_take_bit_int_eq_self)

end
