(* ===== verification/Fixed_Vector.thy ===== *)
theory Fixed_Vector
  imports Prelude
begin

text \<open>
  Model of \<^verbatim>\<open>src/async_event_loop/fixed_vector.hpp\<close>: a vector over a fixed array. The template
  parameter \<open>Capacity\<close> is the length of \<open>fv_items\<close>. The abstract value of a vector is the prefix
  of the array in use; every operation is shown to be the list operation on that prefix.
\<close>

record 'a fixed_vector =
  fv_items :: "'a list"
  fv_size :: nat

definition fv_init :: "'a list \<Rightarrow> 'a fixed_vector" where
  "fv_init items = \<lparr>fv_items = items, fv_size = 0\<rparr>"

definition fv_capacity :: "'a fixed_vector \<Rightarrow> nat" where
  "fv_capacity v = length (fv_items v)"

definition fv_push_back :: "'a \<Rightarrow> 'a fixed_vector \<Rightarrow> bool \<times> 'a fixed_vector" where
  "fv_push_back x v =
     (if fv_size v \<ge> fv_capacity v then (False, v)
      else (True, v\<lparr>fv_items := (fv_items v)[fv_size v := x], fv_size := fv_size v + 1\<rparr>))"

definition fv_erase :: "nat \<Rightarrow> 'a fixed_vector \<Rightarrow> bool \<times> 'a fixed_vector" where
  "fv_erase index v =
     (if index \<ge> fv_size v then (False, v)
      else (True, v\<lparr>fv_items := shift_down (fv_items v) (index + 1) (fv_size v),
                    fv_size := fv_size v - 1\<rparr>))"

definition fv_pop_back :: "'a fixed_vector \<Rightarrow> bool \<times> 'a fixed_vector" where
  "fv_pop_back v =
     (if fv_size v = 0 then (False, v) else (True, v\<lparr>fv_size := fv_size v - 1\<rparr>))"

definition fv_clear :: "'a fixed_vector \<Rightarrow> 'a fixed_vector" where
  "fv_clear v = v\<lparr>fv_size := 0\<rparr>"

definition fv_empty :: "'a fixed_vector \<Rightarrow> bool" where
  "fv_empty v \<longleftrightarrow> fv_size v = 0"

definition fv_full :: "'a fixed_vector \<Rightarrow> bool" where
  "fv_full v \<longleftrightarrow> fv_size v \<ge> fv_capacity v"

text \<open>\<^verbatim>\<open>operator[]\<close> asserts its index; a failed assertion is \<open>None\<close>.\<close>

definition fv_at :: "'a fixed_vector \<Rightarrow> nat \<Rightarrow> 'a option" where
  "fv_at v index = (if index < fv_size v then Some (fv_items v ! index) else None)"

section \<open>Invariant and list view\<close>

definition fv_inv :: "'a fixed_vector \<Rightarrow> bool" where
  "fv_inv v \<longleftrightarrow> fv_size v \<le> length (fv_items v)"

definition fv_list :: "'a fixed_vector \<Rightarrow> 'a list" where
  "fv_list v = take (fv_size v) (fv_items v)"

lemma fv_inv_init: "fv_inv (fv_init items)"
  by (simp add: fv_inv_def fv_init_def)

lemma fv_push_back_spec:
  assumes "fv_inv v" "fv_push_back x v = (ok, v')"
  shows "fv_inv v' \<and> fv_capacity v' = fv_capacity v \<and>
         (if length (fv_list v) < fv_capacity v
          then ok \<and> fv_list v' = fv_list v @ [x] else \<not> ok \<and> v' = v)"
  using assms
  by (auto simp: fv_push_back_def fv_inv_def fv_list_def fv_capacity_def split: if_splits)

lemma fv_erase_spec:
  assumes "fv_inv v" "fv_erase i v = (ok, v')"
  shows "fv_inv v' \<and> fv_capacity v' = fv_capacity v \<and>
         (if i < length (fv_list v)
          then ok \<and> fv_list v' = take i (fv_list v) @ drop (Suc i) (fv_list v)
          else \<not> ok \<and> v' = v)"
  using assms
  by (auto simp: fv_erase_def fv_inv_def fv_list_def fv_capacity_def take_shift_down min_def
      split: if_splits)

lemma fv_pop_back_spec:
  assumes "fv_inv v" "fv_pop_back v = (ok, v')"
  shows "fv_inv v' \<and> ok = (fv_list v \<noteq> []) \<and> fv_list v' = butlast (fv_list v)"
  using assms
  by (auto simp: fv_pop_back_def fv_inv_def fv_list_def take_pred_butlast split: if_splits)

section \<open>Refinement of lists\<close>

datatype 'a fv_op = Push_Back 'a | Erase nat | Pop_Back | Clear

fun fv_step :: "'a fv_op \<Rightarrow> 'a fixed_vector \<Rightarrow> bool \<times> 'a fixed_vector" where
  "fv_step (Push_Back x) v = fv_push_back x v"
| "fv_step (Erase i) v = fv_erase i v"
| "fv_step Pop_Back v = fv_pop_back v"
| "fv_step Clear v = (True, fv_clear v)"

text \<open>The operation on a list of at most \<open>n\<close> elements.\<close>

fun list_step :: "nat \<Rightarrow> 'a fv_op \<Rightarrow> 'a list \<Rightarrow> bool \<times> 'a list" where
  "list_step n (Push_Back x) xs = (if length xs < n then (True, xs @ [x]) else (False, xs))"
| "list_step n (Erase i) xs = (if i < length xs then (True, take i xs @ drop (Suc i) xs) else (False, xs))"
| "list_step n Pop_Back xs = (xs \<noteq> [], butlast xs)"
| "list_step n Clear xs = (True, [])"

text \<open>
  Every operation of a fixed vector is the list operation on the elements in use, with the
  result it reports, keeps the size within the array, and element access is list access.
\<close>

theorem fixed_vector_refines_list:
  assumes "fv_inv v" "fv_step p v = (ok, v')"
  shows "list_step (fv_capacity v) p (fv_list v) = (ok, fv_list v') \<and> fv_inv v'
    \<and> fv_at v' i = (if i < length (fv_list v') then Some (fv_list v' ! i) else None)"
proof -
  have inv: "fv_inv v' \<and> list_step (fv_capacity v) p (fv_list v) = (ok, fv_list v')"
  proof (cases p)
    case (Push_Back x)
    with assms(2) have "fv_push_back x v = (ok, v')" by simp
    from fv_push_back_spec [OF assms(1) this] Push_Back show ?thesis by (auto split: if_splits)
  next
    case (Erase j)
    with assms(2) have "fv_erase j v = (ok, v')" by simp
    from fv_erase_spec [OF assms(1) this] Erase show ?thesis by (auto split: if_splits)
  next
    case Pop_Back
    with fv_pop_back_spec [OF assms(1)] assms(2) show ?thesis by simp
  next
    case Clear
    with assms show ?thesis by (auto simp: fv_clear_def fv_list_def fv_inv_def)
  qed
  then show ?thesis by (auto simp: fv_at_def fv_list_def fv_inv_def)
qed

lemma fixed_vector_refines_list_witness:
  "case fv_step (Erase 0) \<lparr>fv_items = [7, 8, 9 :: nat], fv_size = 2\<rparr> of
     (ok, v') \<Rightarrow> ok \<and> fv_list v' = [8] \<and> fv_at v' 0 = Some 8"
proof -
  let ?v = "\<lparr>fv_items = [7, 8, 9 :: nat], fv_size = 2\<rparr>"
  obtain ok v' where s: "fv_step (Erase 0) ?v = (ok, v')" by (cases "fv_step (Erase 0) ?v")
  have "fv_inv ?v" by (simp add: fv_inv_def)
  moreover have "list_step (fv_capacity ?v) (Erase 0) (fv_list ?v) = (True, [8])"
    by (simp add: fv_list_def)
  ultimately have "ok" "fv_list v' = [8]" "fv_at v' 0 = Some ([8] ! 0)"
    using fixed_vector_refines_list [of ?v "Erase 0" ok v' 0] s by auto
  with s show ?thesis by simp
qed

end
