(* ===== verification/Ring_Buffer.thy ===== *)
theory Ring_Buffer
  imports Prelude
begin

text \<open>
  The fixed ring buffers of \<^verbatim>\<open>src/async_event_loop/memory_stream.hpp\<close> (\<open>MemoryByteStream\<close>) and
  \<^verbatim>\<open>src/async_event_loop/memory_pin_event_source.hpp\<close> (\<open>MemoryPinEventSource\<close>). Both classes
  keep \<open>head_\<close>, \<open>tail_\<close> and \<open>count_\<close> over an array of \<open>Capacity\<close> elements and move one element
  with the same three statements, so one record serves both; \<open>Capacity\<close> is the array's length.
  The abstract value is the queue of pending elements, oldest first.
\<close>

record 'a ring =
  rb_buffer :: "'a list"
  rb_head :: nat
  rb_tail :: nat
  rb_count :: nat

definition ring_capacity :: "'a ring \<Rightarrow> nat" where
  "ring_capacity r = length (rb_buffer r)"

definition ring_init :: "'a list \<Rightarrow> 'a ring" where
  "ring_init buf = \<lparr>rb_buffer = buf, rb_head = 0, rb_tail = 0, rb_count = 0\<rparr>"

definition ring_clear :: "'a ring \<Rightarrow> 'a ring" where
  "ring_clear r = r\<lparr>rb_head := 0, rb_tail := 0, rb_count := 0\<rparr>"

text \<open>One element out at the head, one element in at the tail; the callers guard them.\<close>

definition ring_get :: "'a ring \<Rightarrow> 'a \<times> 'a ring" where
  "ring_get r = (rb_buffer r ! rb_head r,
     r\<lparr>rb_head := (rb_head r + 1) mod ring_capacity r, rb_count := rb_count r - 1\<rparr>)"

definition ring_put :: "'a \<Rightarrow> 'a ring \<Rightarrow> 'a ring" where
  "ring_put x r = r\<lparr>rb_buffer := (rb_buffer r)[rb_tail r := x],
     rb_tail := (rb_tail r + 1) mod ring_capacity r, rb_count := rb_count r + 1\<rparr>"

section \<open>Invariant and queue view\<close>

definition ring_inv :: "'a ring \<Rightarrow> bool" where
  "ring_inv r \<longleftrightarrow> rb_count r \<le> ring_capacity r
     \<and> rb_tail r = (rb_head r + rb_count r) mod ring_capacity r
     \<and> (rb_head r < ring_capacity r \<or> rb_head r = 0)"

definition ring_list :: "'a ring \<Rightarrow> 'a list" where
  "ring_list r = map (\<lambda>k. rb_buffer r ! ((rb_head r + k) mod ring_capacity r)) [0..<rb_count r]"

lemma length_ring_list [simp]: "length (ring_list r) = rb_count r"
  by (simp add: ring_list_def)

lemma ring_list_empty [simp]:
  "ring_list r = [] \<longleftrightarrow> rb_count r = 0" "[] = ring_list r \<longleftrightarrow> rb_count r = 0"
  by (auto simp: ring_list_def)

lemma ring_init_inv [simp, intro]: "ring_inv (ring_init buf)"
  by (simp add: ring_inv_def ring_init_def ring_capacity_def)

lemma ring_init_list [simp]: "ring_list (ring_init buf) = []"
  by (simp add: ring_init_def)

lemma ring_clear_inv: "ring_inv (ring_clear r) \<and> ring_list (ring_clear r) = []"
  by (simp add: ring_inv_def ring_clear_def ring_capacity_def ring_list_def)

text \<open>The two indices never leave the array while there is something to move.\<close>

lemma ring_indices_in_range:
  assumes "ring_inv r"
  shows "0 < rb_count r \<Longrightarrow> rb_head r < ring_capacity r"
    and "rb_count r < ring_capacity r \<Longrightarrow> rb_tail r < ring_capacity r"
  using assms by (auto simp: ring_inv_def)

lemma ring_capacity_get [simp]: "ring_capacity (snd (ring_get r)) = ring_capacity r"
  by (simp add: ring_get_def ring_capacity_def)

lemma ring_capacity_put [simp]: "ring_capacity (ring_put x r) = ring_capacity r"
  by (simp add: ring_put_def ring_capacity_def)

lemma upt_0_Suc_map: "[0..<Suc n] = 0 # map Suc [0..<n]"
  by (simp add: upt_conv_Cons map_Suc_upt del: upt_Suc)

lemma ring_get_spec:
  assumes "ring_inv r" "0 < rb_count r"
  shows "ring_inv (snd (ring_get r))"
    and "ring_list r = fst (ring_get r) # ring_list (snd (ring_get r))"
proof -
  from assms have lt: "rb_head r < ring_capacity r"
    by (rule ring_indices_in_range)
  then have pos: "0 < ring_capacity r" by simp
  obtain n where n: "rb_count r = Suc n"
    using assms(2) by (cases "rb_count r") auto
  show "ring_inv (snd (ring_get r))"
    using assms lt n mod_less_divisor [of "ring_capacity r" "Suc (rb_head r)", OF pos]
    by (auto simp: ring_inv_def ring_get_def ring_capacity_def mod_simps)
  show "ring_list r = fst (ring_get r) # ring_list (snd (ring_get r))"
    using lt n
    by (simp add: ring_list_def ring_get_def ring_capacity_def upt_0_Suc_map mod_simps
          del: upt_Suc)
qed

lemma ring_slots_distinct:
  fixes h k c m :: nat
  assumes "k < c" "c < m"
  shows "(h + k) mod m \<noteq> (h + c) mod m"
proof
  assume "(h + k) mod m = (h + c) mod m"
  then have "m dvd (h + c) - (h + k)"
    using assms by (metis add_le_cancel_left less_imp_le mod_eq_dvd_iff_nat)
  with assms show False
    by (auto dest: dvd_imp_le)
qed

lemma ring_put_spec:
  assumes "ring_inv r" "rb_count r < ring_capacity r"
  shows "ring_inv (ring_put x r)" and "ring_list (ring_put x r) = ring_list r @ [x]"
proof -
  let ?m = "ring_capacity r" and ?h = "rb_head r" and ?c = "rb_count r"
  have pos: "0 < ?m" using assms(2) by simp
  have tail: "rb_tail r = (?h + ?c) mod ?m" and tlt: "rb_tail r < length (rb_buffer r)"
    using assms mod_less_divisor [of ?m "?h + ?c", OF pos] by (auto simp: ring_inv_def ring_capacity_def)
  show "ring_inv (ring_put x r)"
    using assms by (auto simp: ring_inv_def ring_put_def ring_capacity_def mod_simps)
  have "\<And>k. k < ?c \<Longrightarrow> (?h + ?c) mod ?m \<noteq> (?h + k) mod ?m"
    using assms(2) by (metis ring_slots_distinct)
  with tlt tail show "ring_list (ring_put x r) = ring_list r @ [x]"
    by (simp add: ring_list_def ring_put_def ring_capacity_def)
qed

lemmas ring_list_get [ring_simps] = ring_get_spec
lemmas ring_list_put [ring_simps] = ring_put_spec

section \<open>The loops of \<open>MemoryByteStream::read\<close> and \<open>write\<close>\<close>

fun ring_read_loop :: "nat \<Rightarrow> 'a ring \<Rightarrow> 'a list \<times> 'a ring" where
  "ring_read_loop 0 r = ([], r)"
| "ring_read_loop (Suc room) r =
     (if rb_count r > 0
      then let (x, r1) = ring_get r; (xs, r2) = ring_read_loop room r1 in (x # xs, r2)
      else ([], r))"

fun ring_write_loop :: "'a list \<Rightarrow> 'a ring \<Rightarrow> nat \<times> 'a ring" where
  "ring_write_loop [] r = (0, r)"
| "ring_write_loop (x # xs) r =
     (if rb_count r < ring_capacity r
      then let (n, r') = ring_write_loop xs (ring_put x r) in (n + 1, r')
      else (0, r))"

lemma ring_read_loop_spec:
  assumes "ring_inv r" "ring_read_loop room r = (xs, r')"
  shows "ring_inv r' \<and> ring_capacity r' = ring_capacity r
       \<and> xs = take room (ring_list r) \<and> ring_list r' = drop room (ring_list r)"
  using assms
proof (induction room r arbitrary: xs r' rule: ring_read_loop.induct)
  case (1 r)
  then show ?case by simp
next
  case (2 room r)
  show ?case
  proof (cases "rb_count r > 0")
    case True
    obtain x r1 where g: "ring_get r = (x, r1)" by fastforce
    obtain ys r2 where l: "ring_read_loop room r1 = (ys, r2)" by fastforce
    from "2.prems" True g l have res: "xs = x # ys" "r' = r2" by auto
    from ring_get_spec [OF "2.prems"(1) True] g
    have "ring_inv r1" "ring_list r = x # ring_list r1" by simp_all
    moreover have "ring_capacity r1 = ring_capacity r"
      using ring_capacity_get [of r] g by simp
    ultimately show ?thesis
      using "2.IH" [OF True g [symmetric] refl _ l] res by simp
  next
    case False
    with "2.prems" show ?thesis by simp
  qed
qed

lemma ring_write_loop_spec:
  assumes "ring_inv r" "ring_write_loop xs r = (n, r')"
  shows "ring_inv r' \<and> ring_capacity r' = ring_capacity r
       \<and> n = min (length xs) (ring_capacity r - rb_count r)
       \<and> ring_list r' = ring_list r @ take n xs"
  using assms
proof (induction xs r arbitrary: n r' rule: ring_write_loop.induct)
  case (1 r)
  then show ?case by simp
next
  case (2 x xs r)
  show ?case
  proof (cases "rb_count r < ring_capacity r")
    case True
    obtain m r1 where l: "ring_write_loop xs (ring_put x r) = (m, r1)" by fastforce
    from "2.prems" True l have res: "n = Suc m" "r' = r1" by auto
    have cnt: "rb_count (ring_put x r) = Suc (rb_count r)"
      by (simp add: ring_put_def)
    from "2.IH" [OF True ring_put_spec(1) [OF "2.prems"(1) True] l]
    show ?thesis
      using res True cnt ring_put_spec(2) [OF "2.prems"(1) True, of x] by auto
  next
    case False
    with "2.prems" show ?thesis by simp
  qed
qed

text \<open>A full ring, as filled from its beginning.\<close>

definition ring_full :: "'a list \<Rightarrow> 'a ring" where
  "ring_full xs = \<lparr>rb_buffer = xs, rb_head = 0, rb_tail = 0, rb_count = length xs\<rparr>"

lemma ring_full_view [simp]: "ring_inv (ring_full xs)" "ring_list (ring_full xs) = xs"
  "rb_count (ring_full xs) = length xs"
  by (auto simp: ring_full_def ring_inv_def ring_list_def ring_capacity_def intro!: nth_equalityI)

end
