(* ===== verification/Byte_Stream.thy ===== *)
theory Byte_Stream
  imports Ring_Buffer
begin

text \<open>
  The byte-stream interface of \<^verbatim>\<open>src/async_event_loop/event_loop.hpp\<close> (\<open>IByteStream\<close>), the
  in-memory stream of \<^verbatim>\<open>memory_stream.hpp\<close> that implements it, and the read loop the protocol
  readers share. A stream is a record of the operations a reader calls, over the state \<open>'w\<close> of
  everything outside the reader; the callback a reader invokes acts on the same state, so it may
  write to or close the stream it is called for.
\<close>

record 'w byte_stream =
  bs_readable :: "'w \<Rightarrow> bool"
  bs_read :: "nat \<Rightarrow> 'w \<Rightarrow> int \<times> byte list \<times> 'w"

text \<open>
  \<^verbatim>\<open>while (stream_.readable()) { n = stream_.read(&byte, 1); if (n <= 0) break; ... }\<close>. The body
  after the break is the parameter \<open>step\<close>. A stream that stays readable and keeps delivering
  makes the loop run for ever, which is the value \<open>None\<close>.
\<close>

partial_function (option) poll_loop ::
  "'w byte_stream \<Rightarrow> (byte \<Rightarrow> 'r \<times> 'w \<Rightarrow> 'r \<times> 'w) \<Rightarrow> 'r \<times> 'w \<Rightarrow> ('r \<times> 'w) option" where
  "poll_loop st step rw =
     (case rw of (r, w) \<Rightarrow>
        if bs_readable st w
        then (case bs_read st 1 w of (n, bytes, w') \<Rightarrow>
                if n \<le> 0 then Some (r, w')
                else poll_loop st step (step (case bytes of [] \<Rightarrow> 0 | b # _ \<Rightarrow> b) (r, w')))
        else Some (r, w))"

declare poll_loop.simps [code]

text \<open>What every read and every step of a reader keeps holds when the loop returns.\<close>

lemma poll_loop_keeps:
  fixes st :: "'w byte_stream" and P :: "'r \<times> 'w \<Rightarrow> bool"
  assumes "poll_loop st step rw = Some rw'" "P rw"
    "\<And>r w n bytes w1. P (r, w) \<Longrightarrow> bs_read st 1 w = (n, bytes, w1) \<Longrightarrow> P (r, w1)"
    "\<And>b r w. P (r, w) \<Longrightarrow> P (step b (r, w))"
  shows "P rw'"
proof -
  let ?H = "\<lambda>(st :: 'w byte_stream) (step :: byte \<Rightarrow> 'r \<times> 'w \<Rightarrow> 'r \<times> 'w).
      (\<forall>r w n bytes w1. P (r, w) \<longrightarrow> bs_read st 1 w = (n, bytes, w1) \<longrightarrow> P (r, w1)) \<and> (\<forall>b r w. P (r, w) \<longrightarrow> P (step b (r, w)))"
  let ?Q = "\<lambda>st step rw rw'. P rw \<longrightarrow> ?H st step \<longrightarrow> P rw'"
  have "?Q st step rw rw'"
  proof (rule poll_loop.raw_induct [where P = ?Q, OF _ assms(1)])
    fix loop :: "'w byte_stream \<Rightarrow> (byte \<Rightarrow> 'r \<times> 'w \<Rightarrow> 'r \<times> 'w) \<Rightarrow> 'r \<times> 'w \<Rightarrow> ('r \<times> 'w) option"
      and st step rw rw'
    assume IH: "\<And>st step rw rw'. loop st step rw = Some rw' \<Longrightarrow> ?Q st step rw rw'"
      and eq: "(case rw of (r, w) \<Rightarrow>
        if bs_readable st w
        then (case bs_read st 1 w of (n, bytes, w') \<Rightarrow>
                if n \<le> 0 then Some (r, w')
                else loop st step (step (case bytes of [] \<Rightarrow> 0 | b # _ \<Rightarrow> b) (r, w')))
        else Some (r, w)) = Some rw'"
    show "?Q st step rw rw'"
    proof (intro impI)
      assume P: "P rw" and H: "?H st step"
      obtain r w where rw: "rw = (r, w)" by fastforce
      obtain n bytes w1 where rd: "bs_read st 1 w = (n, bytes, w1)" by (metis prod_cases3)
      have P1: "P (r, w1)" using H P rw rd by blast
      show "P rw'"
      proof (cases "bs_readable st w \<and> \<not> n \<le> 0")
        case True
        with eq rw rd have "loop st step (step (case bytes of [] \<Rightarrow> 0 | b # _ \<Rightarrow> b) (r, w1)) = Some rw'"
          by simp
        from IH [OF this] H P1 show ?thesis by blast
      next
        case False
        with eq rw rd P P1 show ?thesis by (auto split: if_splits)
      qed
    qed
  qed
  with assms(2-4) show ?thesis by blast
qed

lemma poll_loop_invariant:
  assumes "poll_loop st step rw = Some rw'" "P (fst rw)" "\<And>b r w. P r \<Longrightarrow> P (fst (step b (r, w)))"
  shows "P (fst rw')"
  using poll_loop_keeps [OF assms(1), of "\<lambda>rw. P (fst rw)"] assms(2,3) by simp

section \<open>The contract of a finite stream\<close>

text \<open>
  What a reader relies on: a stream holds a finite \<open>content\<close>, is readable exactly while that is
  not empty, and a one-byte read takes its first byte and changes nothing else. \<open>rest\<close> is the
  part of the outside state that reading leaves alone.
\<close>

locale byte_source =
  fixes st :: "'w byte_stream"
    and content :: "'w \<Rightarrow> byte list"
    and rest :: "'w \<Rightarrow> 'o"
    and winv :: "'w \<Rightarrow> bool"
  assumes readable_iff: "winv w \<Longrightarrow> bs_readable st w \<longleftrightarrow> content w \<noteq> []"
    and read_one: "winv w \<Longrightarrow> content w = b # bs \<Longrightarrow>
      \<exists>w'. bs_read st 1 w = (1, [b], w') \<and> content w' = bs \<and> rest w' = rest w \<and> winv w'"
begin

lemma poll_loop_Nil: "winv w \<Longrightarrow> content w = [] \<Longrightarrow> poll_loop st step (r, w) = Some (r, w)"
  by (simp add: poll_loop.simps readable_iff)

lemma poll_loop_Cons:
  assumes "winv w" "content w = b # bs"
  obtains w' where "content w' = bs" "rest w' = rest w" "winv w'"
    "poll_loop st step (r, w) = poll_loop st step (step b (r, w'))"
proof -
  from read_one [OF assms] obtain w' where
    "bs_read st 1 w = (1, [b], w')" "content w' = bs" "rest w' = rest w" "winv w'"
    by blast
  with assms show thesis
    by (intro that [of w']) (simp_all add: poll_loop.simps [of st step "(r, w)"] readable_iff)
qed

text \<open>
  The loop drains the stream and returns, and what it does to the reader and to the rest of the
  state is the fold of the reader's step over the bytes that were pending, provided the step
  (the callback it invokes) leaves the stream's content alone.
\<close>

lemma poll_loop_fold:
  assumes "winv w"
    and sim: "\<And>b r w r' w'. winv w \<Longrightarrow> step b (r, w) = (r', w') \<Longrightarrow>
      winv w' \<and> content w' = content w \<and> (r', rest w') = astep b (r, rest w)"
  shows "\<exists>r' w'. poll_loop st step (r, w) = Some (r', w') \<and> winv w' \<and> content w' = []
      \<and> (r', rest w') = fold astep (content w) (r, rest w)"
  using assms(1)
proof (induction "content w" arbitrary: r w)
  case Nil
  then show ?case by (simp add: poll_loop_Nil)
next
  case (Cons b bs)
  obtain w1 where w1: "content w1 = bs" "rest w1 = rest w" "winv w1"
    and eq: "poll_loop st step (r, w) = poll_loop st step (step b (r, w1))"
    using poll_loop_Cons [OF Cons.prems Cons.hyps(2) [symmetric]] by metis
  obtain r2 w2 where st: "step b (r, w1) = (r2, w2)" by fastforce
  from sim [OF w1(3) st] w1 have w2: "winv w2" "bs = content w2"
    and a: "astep b (r, rest w) = (r2, rest w2)" by simp_all
  from Cons.hyps(1) [OF w2(2,1), of r2] show ?case
    by (simp add: eq st Cons.hyps(2) [symmetric] a flip: w2(2))
qed

end

section \<open>\<open>MemoryByteStream\<close>\<close>

type_synonym memory_stream = "byte ring"

definition ms_readable :: "memory_stream \<Rightarrow> bool" where
  "ms_readable s \<longleftrightarrow> rb_count s > 0"

definition ms_writable :: "memory_stream \<Rightarrow> bool" where
  "ms_writable s \<longleftrightarrow> rb_count s < ring_capacity s"

definition ms_available_for_write :: "memory_stream \<Rightarrow> nat" where
  "ms_available_for_write s = ring_capacity s - rb_count s"

text \<open>The destination is a null pointer or an array of \<open>max_len\<close> bytes; the bytes stored are returned.\<close>

definition ms_read :: "bool \<Rightarrow> nat \<Rightarrow> memory_stream \<Rightarrow> int \<times> byte list \<times> memory_stream" where
  "ms_read dst_null max_len s =
     (if dst_null \<or> max_len = 0 then (0, [], s)
      else let (bytes, s') = ring_read_loop max_len s
           in (int_of_size (length bytes), bytes, s'))"

definition ms_write :: "byte list option \<Rightarrow> memory_stream \<Rightarrow> int \<times> memory_stream" where
  "ms_write src s =
     (case src of None \<Rightarrow> (0, s)
      | Some bytes \<Rightarrow>
          if bytes = [] then (0, s)
          else let (n, s') = ring_write_loop bytes s in (int_of_size n, s'))"

text \<open>A memory stream beside an arbitrary other state \<open>'o\<close>, as a byte stream.\<close>

definition mem_stream :: "(memory_stream \<times> 'o) byte_stream" where
  "mem_stream = \<lparr>bs_readable = (\<lambda>(s, x). ms_readable s),
     bs_read = (\<lambda>n (s, x). case ms_read False n s of (k, bytes, s') \<Rightarrow> (k, bytes, (s', x)))\<rparr>"

definition mem_content :: "memory_stream \<times> 'o \<Rightarrow> byte list" where
  "mem_content w = ring_list (fst w)"

definition mem_inv :: "memory_stream \<times> 'o \<Rightarrow> bool" where
  "mem_inv w \<longleftrightarrow> ring_inv (fst w)"

lemma ms_read_spec:
  assumes "ring_inv s" "ms_read False n s = (k, bytes, s')"
  shows "ring_inv s' \<and> ring_capacity s' = ring_capacity s \<and> k = int_of_size (length bytes)
       \<and> bytes = take n (ring_list s) \<and> ring_list s' = drop n (ring_list s)"
proof (cases "n = 0")
  case True
  with assms show ?thesis by (simp add: ms_read_def int_of_size_def)
next
  case False
  with assms obtain xs where "ring_read_loop n s = (xs, s')" "xs = bytes"
      "k = int_of_size (length bytes)"
    by (auto simp: ms_read_def split: prod.splits)
  with ring_read_loop_spec [OF assms(1)] show ?thesis by blast
qed

lemma ms_write_spec:
  assumes "ring_inv s" "ms_write (Some bytes) s = (k, s')"
  defines "n \<equiv> min (length bytes) (ms_available_for_write s)"
  shows "ring_inv s' \<and> ring_capacity s' = ring_capacity s \<and> k = int_of_size n
       \<and> ring_list s' = ring_list s @ take n bytes"
proof (cases "bytes = []")
  case True
  with assms show ?thesis by (simp add: ms_write_def int_of_size_def)
next
  case False
  with assms(2) obtain m where "ring_write_loop bytes s = (m, s')" "k = int_of_size m"
    by (auto simp: ms_write_def split: prod.splits)
  with ring_write_loop_spec [OF assms(1)] show ?thesis
    by (auto simp: n_def ms_available_for_write_def)
qed

interpretation mem: byte_source mem_stream mem_content snd mem_inv
proof (unfold_locales, goal_cases)
  case (1 w)
  then show ?case
    by (simp add: mem_stream_def mem_content_def ms_readable_def split_beta)
next
  case (2 w b bs)
  obtain s x where w: "w = (s, x)" by fastforce
  obtain k bytes s' where r: "ms_read False 1 s = (k, bytes, s')" by (metis prod_cases3)
  from ms_read_spec [OF _ r] 2 w have
    "ring_inv s'" "bytes = [b]" "ring_list s' = bs" "k = 1"
    by (simp_all add: mem_inv_def mem_content_def int_of_size_def)
  with r w show ?case
    by (intro exI [of _ "(s', x)"]) (simp add: mem_stream_def mem_content_def mem_inv_def)
qed

section \<open>Queue behaviour\<close>

text \<open>
  A history of a memory stream: calls to \<open>write\<close>, \<open>read\<close> and nothing else. \<open>ms_run\<close> collects the
  bytes the writes reported as accepted and the bytes the reads delivered.
\<close>

datatype stream_op = Write "byte list" | Read nat

fun ms_run :: "stream_op list \<Rightarrow> memory_stream \<Rightarrow> byte list \<times> byte list \<times> memory_stream" where
  "ms_run [] s = ([], [], s)"
| "ms_run (Write bytes # ops) s =
     (let (k, s1) = ms_write (Some bytes) s; (ins, outs, s2) = ms_run ops s1
      in (take (nat k) bytes @ ins, outs, s2))"
| "ms_run (Read n # ops) s =
     (let (k, bytes, s1) = ms_read False n s; (ins, outs, s2) = ms_run ops s1
      in (ins, bytes @ outs, s2))"

lemma ms_run_queue:
  assumes "ring_inv s" "ring_capacity s < 2 ^ 31" "ms_run ops s = (ins, outs, s')"
  shows "ring_inv s' \<and> ring_capacity s' = ring_capacity s \<and> ring_list s @ ins = outs @ ring_list s'"
  using assms
proof (induction ops s arbitrary: ins outs s' rule: ms_run.induct)
  case (1 s)
  then show ?case by simp
next
  case (2 bytes ops s)
  obtain k s1 where w: "ms_write (Some bytes) s = (k, s1)" by fastforce
  obtain ins1 outs1 s2 where r: "ms_run ops s1 = (ins1, outs1, s2)" by (metis prod_cases3)
  note sp = ms_write_spec [OF "2.prems"(1) w]
  let ?n = "min (length bytes) (ms_available_for_write s)"
  have "?n < 2 ^ 31" using "2.prems"(2) by (simp add: ms_available_for_write_def)
  with sp have "nat k = ?n" by (simp add: int_of_size_small)
  with "2.IH" [OF w [symmetric] refl _ _ r] sp "2.prems" w r show ?case by auto
next
  case (3 n ops s)
  obtain k bytes s1 where w: "ms_read False n s = (k, bytes, s1)" by (metis prod_cases3)
  obtain ins1 outs1 s2 where r: "ms_run ops s1 = (ins1, outs1, s2)" by (metis prod_cases3)
  note sp = ms_read_spec [OF "3.prems"(1) w]
  from sp have q: "ring_list s = bytes @ ring_list s1" "ring_inv s1" "ring_capacity s1 = ring_capacity s"
    by simp_all
  from "3.prems"(3) w r have "ins = ins1" "outs = bytes @ outs1" "s' = s2" by auto
  with "3.IH" [OF w [symmetric] refl refl _ _ r] q "3.prems"(2) show ?case by simp
qed

text \<open>
  A memory stream is a bounded queue of bytes: over any history of writes and reads of any
  sizes, what the reads delivered followed by what is still stored is what was stored before
  followed by what the writes reported as accepted; no byte is lost, duplicated or reordered.
\<close>

theorem memory_stream_fifo:
  assumes "ring_inv s" "ring_capacity s < 2 ^ 31" "ms_run ops s = (ins, outs, s')"
  shows "ring_list s @ ins = outs @ ring_list s'"
  using ms_run_queue [OF assms] by simp

lemma memory_stream_fifo_witness:
  "case ms_run [Write [1, 2, 3], Read 2, Write [4, 5, 6], Read 9] (ring_init [0, 0, 0, 0]) of
     (ins, outs, s') \<Rightarrow> ins = outs @ ring_list s' \<and> outs = [1, 2, 3, 4, 5, 6]"
proof -
  let ?ops = "[Write [1, 2, 3], Read 2, Write [4, 5, 6], Read 9]" and ?s = "ring_init [0, 0, 0, 0 :: byte]"
  obtain ins outs s' where r: "ms_run ?ops ?s = (ins, outs, s')" by (metis prod_cases3)
  have c: "ring_capacity ?s < 2 ^ 31" by (simp add: ring_capacity_def ring_init_def)
  have "fst (snd (ms_run ?ops ?s)) = [1, 2, 3, 4, 5, 6]" by code_simp
  with memory_stream_fifo [OF ring_init_inv c r] r show ?thesis by simp
qed

end
