(* ===== verification/Pin_Events.thy ===== *)
theory Pin_Events
  imports Ring_Buffer
begin

text \<open>
  The pin types of \<^verbatim>\<open>src/async_event_loop/pin_io.hpp\<close> and the queue of pin events of
  \<^verbatim>\<open>memory_pin_event_source.hpp\<close>.
\<close>

datatype digital_pin_mode = Input | InputPullup | Output

datatype pin_event_type = RisingEdge | FallingEdge | Change | HighLevel | LowLevel

text \<open>The enumeration is a \<^verbatim>\<open>uint8_t\<close>; its order is that of the enumerators' values.\<close>

primrec pin_event_code :: "pin_event_type \<Rightarrow> nat" where
  "pin_event_code RisingEdge = 0"
| "pin_event_code FallingEdge = 1"
| "pin_event_code Change = 2"
| "pin_event_code HighLevel = 3"
| "pin_event_code LowLevel = 4"

lemma pin_event_code_inject: "pin_event_code a = pin_event_code b \<Longrightarrow> a = b"
  by (cases a; cases b) simp_all

instantiation pin_event_type :: linorder
begin

definition less_eq_pin_event_type :: "pin_event_type \<Rightarrow> pin_event_type \<Rightarrow> bool" where
  "less_eq_pin_event_type a b \<longleftrightarrow> pin_event_code a \<le> pin_event_code b"

definition less_pin_event_type :: "pin_event_type \<Rightarrow> pin_event_type \<Rightarrow> bool" where
  "less_pin_event_type a b \<longleftrightarrow> pin_event_code a < pin_event_code b"

instance
  by standard
    (auto simp: less_eq_pin_event_type_def less_pin_event_type_def intro: pin_event_code_inject)

end

record pin_event =
  pe_type :: pin_event_type
  pe_timestamp_us :: u64
  pe_source_id :: u32
  pe_sequence :: u32
  pe_level :: bool

definition pin_event_default :: pin_event where
  "pin_event_default =
     \<lparr>pe_type = Change, pe_timestamp_us = 0, pe_source_id = 0, pe_sequence = 0, pe_level = False\<rparr>"

section \<open>\<open>MemoryPinEventSource\<close>\<close>

type_synonym memory_pin_source = "pin_event ring"

definition mp_push :: "pin_event \<Rightarrow> memory_pin_source \<Rightarrow> bool \<times> memory_pin_source" where
  "mp_push ev s = (if rb_count s \<ge> ring_capacity s then (False, s) else (True, ring_put ev s))"

definition mp_read_event :: "memory_pin_source \<Rightarrow> pin_event option \<times> memory_pin_source" where
  "mp_read_event s =
     (if rb_count s = 0 then (None, s) else (case ring_get s of (ev, s') \<Rightarrow> (Some ev, s')))"

definition mp_full :: "memory_pin_source \<Rightarrow> bool" where
  "mp_full s \<longleftrightarrow> rb_count s = ring_capacity s"

definition mp_available_for_write :: "memory_pin_source \<Rightarrow> nat" where
  "mp_available_for_write s = ring_capacity s - rb_count s"

lemma mp_push_spec:
  assumes "ring_inv s" "mp_push ev s = (ok, s')"
  shows "ring_inv s' \<and> ring_capacity s' = ring_capacity s \<and> ok = (\<not> mp_full s)
       \<and> ring_list s' = (if ok then ring_list s @ [ev] else ring_list s)"
  using assms
  by (auto simp: mp_push_def mp_full_def ring_simps split: if_splits) (simp add: ring_inv_def)

lemma mp_read_event_spec:
  assumes "ring_inv s" "mp_read_event s = (e, s')"
  shows "ring_inv s' \<and> ring_capacity s' = ring_capacity s
       \<and> (case e of None \<Rightarrow> ring_list s = [] \<and> s' = s | Some ev \<Rightarrow> ring_list s = ev # ring_list s')"
proof (cases "rb_count s = 0")
  case True
  with assms show ?thesis by (auto simp: mp_read_event_def)
next
  case False
  with assms(2) have "e = Some (fst (ring_get s))" "s' = snd (ring_get s)"
    by (auto simp: mp_read_event_def split: prod.splits)
  with ring_get_spec [OF assms(1)] False show ?thesis by simp
qed

text \<open>
  A history of a pin event source: events pushed by the producer and reads by the consumer, with
  the events accepted and the events read.
\<close>

datatype pin_op = Push pin_event | Read_Event

fun mp_run :: "pin_op list \<Rightarrow> memory_pin_source \<Rightarrow> pin_event list \<times> pin_event list \<times> memory_pin_source" where
  "mp_run [] s = ([], [], s)"
| "mp_run (Push ev # ops) s =
     (let (ok, s1) = mp_push ev s; (ins, outs, s2) = mp_run ops s1
      in ((if ok then [ev] else []) @ ins, outs, s2))"
| "mp_run (Read_Event # ops) s =
     (let (e, s1) = mp_read_event s; (ins, outs, s2) = mp_run ops s1
      in (ins, (case e of None \<Rightarrow> [] | Some ev \<Rightarrow> [ev]) @ outs, s2))"

lemma mp_run_queue:
  assumes "ring_inv s" "mp_run ops s = (ins, outs, s')"
  shows "ring_inv s' \<and> ring_capacity s' = ring_capacity s \<and> ring_list s @ ins = outs @ ring_list s'"
  using assms
proof (induction ops s arbitrary: ins outs s' rule: mp_run.induct)
  case (1 s)
  then show ?case by simp
next
  case (2 ev ops s)
  obtain ok s1 where w: "mp_push ev s = (ok, s1)" by fastforce
  obtain ins1 outs1 s2 where r: "mp_run ops s1 = (ins1, outs1, s2)" by (metis prod_cases3)
  note sp = mp_push_spec [OF "2.prems"(1) w]
  with "2.IH" [OF w [symmetric] refl _ r] "2.prems" w r show ?case by (auto split: if_splits)
next
  case (3 ops s)
  obtain e s1 where w: "mp_read_event s = (e, s1)" by fastforce
  obtain ins1 outs1 s2 where r: "mp_run ops s1 = (ins1, outs1, s2)" by (metis prod_cases3)
  note sp = mp_read_event_spec [OF "3.prems"(1) w]
  with "3.IH" [OF w [symmetric] refl _ r] "3.prems" w r show ?case by (auto split: option.splits)
qed

text \<open>
  A memory pin event source is a bounded queue of events: the events read so far followed by
  the ones pending are the ones pending before followed by the ones the pushes accepted.
\<close>

theorem pin_source_fifo:
  assumes "ring_inv s" "mp_run ops s = (ins, outs, s')"
  shows "ring_list s @ ins = outs @ ring_list s'"
  using mp_run_queue [OF assms] by simp

lemma pin_source_fifo_witness:
  "let a = pin_event_default; b = a\<lparr>pe_level := True\<rparr>; c = a\<lparr>pe_sequence := 1\<rparr>
   in case mp_run [Push a, Push b, Push c, Read_Event, Push c, Read_Event, Read_Event, Read_Event]
      (ring_init [pin_event_default, pin_event_default]) of
     (ins, outs, s') \<Rightarrow> ins = outs @ ring_list s' \<and> ins = [a, b, c]"
proof -
  let ?a = pin_event_default and ?b = "pin_event_default\<lparr>pe_level := True\<rparr>"
    and ?c = "pin_event_default\<lparr>pe_sequence := 1\<rparr>"
  let ?ops = "[Push ?a, Push ?b, Push ?c, Read_Event, Push ?c, Read_Event, Read_Event, Read_Event]"
  let ?s = "ring_init [pin_event_default, pin_event_default]"
  obtain ins outs s' where r: "mp_run ?ops ?s = (ins, outs, s')" by (metis prod_cases3)
  have "fst (mp_run ?ops ?s) = [?a, ?b, ?c]"
    by (simp add: mp_push_def mp_read_event_def ring_put_def ring_get_def ring_init_def
        ring_capacity_def Let_def)
  with pin_source_fifo [OF ring_init_inv r] r show ?thesis by (simp add: Let_def)
qed

end
