(* ===== verification/Timers.thy ===== *)
theory Timers
  imports Prelude
begin

text \<open>
  The time helpers: \<open>Micros32Extender\<close> (\<^verbatim>\<open>src/async_event_loop/micros32_extender.hpp\<close>) and the
  \<open>PeriodicTimer\<close> and \<open>OneShotTimer\<close> of \<^verbatim>\<open>src/async_event_loop/scheduler.hpp\<close>. All times are
  64-bit words that wrap, as the C++ arithmetic does.
\<close>

section \<open>\<open>Micros32Extender\<close>\<close>

record micros_extender =
  me_extended :: u64
  me_last_raw :: u32
  me_initialized :: bool

definition me_init :: micros_extender where
  "me_init = \<lparr>me_extended = 0, me_last_raw = 0, me_initialized = False\<rparr>"

definition me_update :: "u32 \<Rightarrow> micros_extender \<Rightarrow> u64 \<times> micros_extender" where
  "me_update raw m =
     (if \<not> me_initialized m
      then (ucast raw, m\<lparr>me_initialized := True, me_last_raw := raw, me_extended := ucast raw\<rparr>)
      else let delta = raw - me_last_raw m;
               ext = me_extended m + ucast delta
           in (ext, m\<lparr>me_extended := ext, me_last_raw := raw\<rparr>))"

definition me_reset :: "u32 \<Rightarrow> micros_extender \<Rightarrow> micros_extender" where
  "me_reset raw m = m\<lparr>me_initialized := True, me_last_raw := raw, me_extended := ucast raw\<rparr>"

fun me_run :: "u32 list \<Rightarrow> micros_extender \<Rightarrow> u64 list" where
  "me_run [] m = []"
| "me_run (raw # raws) m = (case me_update raw m of (ext, m') \<Rightarrow> ext # me_run raws m')"

text \<open>
  True times \<open>ts\<close> (unbounded), sampled in order with less than one rollover between samples.
\<close>

fun sampled_often :: "nat list \<Rightarrow> bool" where
  "sampled_often (t # u # ts) \<longleftrightarrow> t \<le> u \<and> u - t < 2 ^ 32 \<and> sampled_often (u # ts)"
| "sampled_often _ \<longleftrightarrow> True"

lemma ucast_delta:
  assumes "t \<le> u" "u - t < 2 ^ 32"
  shows "(ucast (word_of_nat u - word_of_nat t :: u32) :: u64) = word_of_nat (u - t)"
proof -
  have "(word_of_nat u - word_of_nat t :: u32) = word_of_nat (u - t)"
    using assms(1) by (simp add: of_nat_diff)
  then show ?thesis
    using assms(2) by (simp add: unsigned_of_nat take_bit_nat_eq_self)
qed

lemma me_run_tracks:
  assumes "sampled_often (t # ts)" "me_initialized m"
    "me_last_raw m = word_of_nat t" "me_extended m = word_of_nat t"
  shows "me_run (map word_of_nat ts) m = map word_of_nat ts"
  using assms
proof (induction ts arbitrary: t m)
  case Nil
  then show ?case by simp
next
  case (Cons u ts)
  let ?m = "m\<lparr>me_extended := word_of_nat u, me_last_raw := word_of_nat u\<rparr>"
  have "(word_of_nat t :: u64) + word_of_nat (u - t) = word_of_nat u"
    using Cons.prems(1) by (simp add: of_nat_diff)
  then have "me_update (word_of_nat u) m = (word_of_nat u, ?m)"
    using Cons.prems by (simp add: me_update_def ucast_delta Let_def)
  with Cons.IH [of u ?m] Cons.prems show ?case by simp
qed

section \<open>The catch-up loop of periodic deadlines\<close>

text \<open>
  \<^verbatim>\<open>do { next_due += period; } while (now >= next_due);\<close> in wrapping arithmetic. A run of the
  loop that never ends is \<open>None\<close>.
\<close>

partial_function (option) advance_due :: "u64 \<Rightarrow> u64 \<Rightarrow> u64 \<Rightarrow> u64 option" where
  "advance_due now period due =
     (let due' = due + period
      in if now \<ge> due' then advance_due now period due' else Some due')"

declare advance_due.simps [code]

text \<open>Whatever the loop returns lies in the future, so at the last instant it cannot return.\<close>

lemma advance_due_future:
  assumes "advance_due now period due = Some d"
  shows "now < d"
proof (rule advance_due.raw_induct [where P = "\<lambda>now period due d. now < d", OF _ assms])
  fix f :: "u64 \<Rightarrow> u64 \<Rightarrow> u64 \<Rightarrow> u64 option" and now period due d
  assume IH: "\<And>now period due d. f now period due = Some d \<Longrightarrow> now < d"
    and eq: "(let due' = due + period in if now \<ge> due' then f now period due' else Some due') = Some d"
  show "now < d"
    using IH [of now period "due + period" d] eq by (auto simp: Let_def split: if_splits)
qed

lemma advance_due_stuck: "advance_due (- 1) period due = None"
proof (cases "advance_due (- 1) period due")
  case (Some d)
  then have less: "- 1 < d" by (rule advance_due_future)
  have "\<not> - 1 < d" by simp
  with less show ?thesis by contradiction
qed

lemma div_Suc_step:
  fixes n d p :: nat
  assumes "0 < p" "d + p \<le> n"
  shows "Suc ((n - (d + p)) div p) = (n - d) div p"
proof -
  have "(n - d) div p = ((n - (d + p)) + p) div p"
    using assms(2) by (intro arg_cong [of _ _ "\<lambda>x. x div p"]) linarith
  then show ?thesis using assms(1) by (simp only: div_add_self2)
qed

lemma advance_due_eq:
  assumes "0 < period" "due \<le> now" "unat now + unat period < 2 ^ 64"
  shows "\<exists>d. advance_due now period due = Some d \<and>
     unat d = unat due + Suc ((unat now - unat due) div unat period) * unat period"
  using assms(2)
proof (induction "unat now - unat due" arbitrary: due rule: less_induct)
  case less
  let ?d = "due + period"
  have ud: "unat ?d = unat due + unat period"
    using less.prems assms(3) by (intro unat_add_no_wrap) (simp add: word_le_nat_alt)
  have p: "0 < unat period" using assms(1) by (simp add: word_less_nat_alt)
  show ?case
  proof (cases "?d \<le> now")
    case True
    then have le: "unat due + unat period \<le> unat now"
      using ud by (simp add: word_le_nat_alt)
    with p ud have "unat now - unat ?d < unat now - unat due" by linarith
    from less.hyps [OF this True] obtain d where d: "advance_due now period ?d = Some d"
      and e: "unat d = unat ?d + Suc ((unat now - unat ?d) div unat period) * unat period"
      by blast
    from e ud div_Suc_step [OF p le] have
      "unat d = unat due + unat period + ((unat now - unat due) div unat period) * unat period"
      by simp
    with d True show ?thesis by (simp add: advance_due.simps [of now period due])
  next
    case False
    then have "unat now - unat due < unat period"
      using ud less.prems by (simp add: word_le_nat_alt)
    with False ud show ?thesis by (simp add: advance_due.simps [of now period due])
  qed
qed

section \<open>\<open>PeriodicTimer\<close>\<close>

record periodic_timer =
  pt_period_us :: u64
  pt_next_due_us :: u64
  pt_armed :: bool

definition pt_init :: "u64 \<Rightarrow> periodic_timer" where
  "pt_init period = \<lparr>pt_period_us = period, pt_next_due_us = 0, pt_armed = False\<rparr>"

definition pt_set_period_us :: "u64 \<Rightarrow> periodic_timer \<Rightarrow> periodic_timer" where
  "pt_set_period_us period t = t\<lparr>pt_period_us := period\<rparr>"

definition pt_reset :: "u64 \<Rightarrow> periodic_timer \<Rightarrow> periodic_timer" where
  "pt_reset now t = t\<lparr>pt_next_due_us := now, pt_armed := True\<rparr>"

definition pt_ready :: "u64 \<Rightarrow> periodic_timer \<Rightarrow> (bool \<times> periodic_timer) option" where
  "pt_ready now t0 =
     (let t = (if pt_armed t0 then t0 else pt_reset now t0)
      in if pt_period_us t = 0 \<or> now < pt_next_due_us t then Some (False, t)
         else map_option (\<lambda>d. (True, t\<lparr>pt_next_due_us := d\<rparr>))
                (advance_due now (pt_period_us t) (pt_next_due_us t)))"

fun pt_run :: "u64 list \<Rightarrow> periodic_timer \<Rightarrow> bool list option" where
  "pt_run [] t = Some []"
| "pt_run (now # nows) t =
     (case pt_ready now t of None \<Rightarrow> None
      | Some (b, t') \<Rightarrow> map_option ((#) b) (pt_run nows t'))"

text \<open>
  The specification of a drift-free timer armed at \<open>start\<close>: periods are numbered from \<open>start\<close>,
  and a poll reports ready exactly when it falls into a period that has not been reported yet
  (\<open>k\<close> is the number of the first such period); missed periods are not made up.
\<close>

fun fires :: "nat \<Rightarrow> nat \<Rightarrow> nat \<Rightarrow> nat list \<Rightarrow> bool list" where
  "fires start period k [] = []"
| "fires start period k (t # ts) =
     (let i = (t - start) div period
      in if k \<le> i then True # fires start period (Suc i) ts
         else False # fires start period k ts)"

lemma pt_run_armed:
  assumes "pt_armed t" "0 < pt_period_us t"
    "\<forall>now \<in> set nows. unat now + unat (pt_period_us t) < 2 ^ 64 \<and> start \<le> unat now"
    "unat (pt_next_due_us t) = start + k * unat (pt_period_us t)"
  shows "pt_run nows t = Some (fires start (unat (pt_period_us t)) k (map unat nows))"
  using assms
proof (induction nows arbitrary: t k)
  case Nil
  then show ?case by simp
next
  case (Cons now nows)
  let ?p = "unat (pt_period_us t)"
  have p: "0 < ?p" using Cons.prems(2) by (simp add: word_less_nat_alt)
  have due: "pt_next_due_us t \<le> now \<longleftrightarrow> k \<le> (unat now - start) div ?p"
    using Cons.prems(3,4) p
    by (simp add: word_le_nat_alt less_eq_div_iff_mult_less_eq le_diff_conv2 add.commute)
  show ?case
  proof (cases "pt_next_due_us t \<le> now")
    case False
    then have "now < pt_next_due_us t" by simp
    with Cons.prems(1) have "pt_ready now t = Some (False, t)"
      by (simp add: pt_ready_def)
    with Cons.IH [of t k] Cons.prems False due show ?thesis by simp
  next
    case True
    let ?i = "(unat now - start) div ?p"
    obtain d where d: "advance_due now (pt_period_us t) (pt_next_due_us t) = Some d"
      and e: "unat d = unat (pt_next_due_us t)
                + Suc ((unat now - unat (pt_next_due_us t)) div ?p) * ?p"
      using advance_due_eq [OF Cons.prems(2) True] Cons.prems(3) by auto
    have "unat now - start = (unat now - unat (pt_next_due_us t)) + k * ?p"
      using True Cons.prems(3,4) by (simp add: word_le_nat_alt)
    then have "?i = (unat now - unat (pt_next_due_us t)) div ?p + k"
      using p by simp
    with e Cons.prems(4) have nd: "unat d = start + Suc ?i * ?p"
      by (simp add: algebra_simps)
    from True Cons.prems(2) have "\<not> (pt_period_us t = 0 \<or> now < pt_next_due_us t)"
      by (auto simp: not_less)
    with d Cons.prems(1) have "pt_ready now t = Some (True, t\<lparr>pt_next_due_us := d\<rparr>)"
      by (simp add: pt_ready_def)
    with Cons.IH [of "t\<lparr>pt_next_due_us := d\<rparr>" "Suc ?i"] Cons.prems nd True due
    show ?thesis by (simp add: Let_def)
  qed
qed

section \<open>\<open>OneShotTimer\<close>\<close>

record one_shot_timer =
  ot_due_us :: u64
  ot_armed :: bool
  ot_fired :: bool

definition ot_init :: one_shot_timer where
  "ot_init = \<lparr>ot_due_us = 0, ot_armed = False, ot_fired = False\<rparr>"

definition ot_arm :: "u64 \<Rightarrow> one_shot_timer \<Rightarrow> one_shot_timer" where
  "ot_arm due t = t\<lparr>ot_due_us := due, ot_armed := True, ot_fired := False\<rparr>"

definition ot_disarm :: "one_shot_timer \<Rightarrow> one_shot_timer" where
  "ot_disarm t = t\<lparr>ot_armed := False\<rparr>"

definition ot_ready :: "u64 \<Rightarrow> one_shot_timer \<Rightarrow> bool \<times> one_shot_timer" where
  "ot_ready now t =
     (if \<not> ot_armed t \<or> ot_fired t \<or> now < ot_due_us t then (False, t)
      else (True, t\<lparr>ot_fired := True, ot_armed := False\<rparr>))"

fun ot_run :: "u64 list \<Rightarrow> one_shot_timer \<Rightarrow> bool list" where
  "ot_run [] t = []"
| "ot_run (now # nows) t = (case ot_ready now t of (b, t') \<Rightarrow> b # ot_run nows t')"

lemma ot_run_idle: "\<not> ot_armed t \<Longrightarrow> ot_run nows t = replicate (length nows) False"
  by (induction nows) (simp_all add: ot_ready_def)

lemma ot_run_armed:
  "ot_run nows (ot_arm due t) =
     (let early = takeWhile (\<lambda>now. now < due) nows;
          late = dropWhile (\<lambda>now. now < due) nows
      in replicate (length early) False
         @ (if late = [] then [] else True # replicate (length late - 1) False))"
proof (induction nows)
  case Nil
  then show ?case by simp
next
  case (Cons now nows)
  show ?case
  proof (cases "now < due")
    case True
    then have "ot_ready now (ot_arm due t) = (False, ot_arm due t)"
      by (simp add: ot_ready_def ot_arm_def)
    with True Cons.IH show ?thesis by (simp add: Let_def)
  next
    case False
    then show ?thesis by (simp add: ot_ready_def ot_arm_def ot_run_idle)
  qed
qed

section \<open>Properties\<close>

lemma me_update_first:
  assumes "t < 2 ^ 32"
  shows "me_update (word_of_nat t) me_init =
    (word_of_nat t, me_init\<lparr>me_initialized := True, me_last_raw := word_of_nat t, me_extended := word_of_nat t\<rparr>)"
  using assms by (simp add: me_update_def me_init_def unsigned_of_nat take_bit_nat_eq_self)

text \<open>
  Sampled at least once per rollover of the 32-bit counter, the extender returns at every sample
  the true time modulo 2^64, however often the counter rolled over.
\<close>

theorem extender_tracks_time:
  assumes "sampled_often (t # ts)" "t < 2 ^ 32"
  shows "me_run (map word_of_nat (t # ts)) me_init = map word_of_nat (t # ts)"
  using me_run_tracks [OF assms(1)] me_update_first [OF assms(2)] by simp

lemma extender_tracks_time_witness:
  "me_run [5, 4294967290, 3, 4000000000] me_init = [5, 4294967290, 4294967299, 8294967296]"
proof -
  have "sampled_often [5, 4294967290, 4294967299, 8294967296]" by simp
  from extender_tracks_time [OF this] have
    "me_run (map word_of_nat [5, 4294967290, 4294967299, 8294967296]) me_init
      = map word_of_nat [5, 4294967290, 4294967299, 8294967296]" by simp
  moreover have "map word_of_nat [5, 4294967290, 4294967299, 8294967296] = [5, 4294967290, 3, 4000000000 :: u32]"
    by simp
  moreover have "map word_of_nat [5, 4294967290, 4294967299, 8294967296]
      = [5, 4294967290, 4294967299, 8294967296 :: u64]" by simp
  ultimately show ?thesis by (simp only:)
qed

text \<open>
  A periodic timer is armed by its first poll and from then on reports ready exactly once for
  every period, counted from that first poll, in which it is polled at all: late polls shift no
  later deadline, and periods that passed without a poll are not made up for. Every poll returns.
\<close>

theorem periodic_timer_drift_free:
  assumes "0 < period" "\<forall>now \<in> set nows. unat now + unat period < 2 ^ 64 \<and> unat start \<le> unat now"
    "unat start + unat period < 2 ^ 64"
  shows "pt_run (start # nows) (pt_init period)
    = Some (fires (unat start) (unat period) 0 (map unat (start # nows)))"
proof -
  have eq: "pt_run (start # nows) (pt_init period) = pt_run (start # nows) (pt_reset start (pt_init period))"
    by (simp add: pt_ready_def pt_init_def pt_reset_def)
  have "\<forall>now \<in> set (start # nows).
      unat now + unat (pt_period_us (pt_reset start (pt_init period))) < 2 ^ 64 \<and> unat start \<le> unat now"
    using assms(2,3) by (simp add: pt_reset_def pt_init_def)
  from pt_run_armed [OF _ _ this, of 0] assms(1) show ?thesis
    unfolding eq by (simp add: pt_reset_def pt_init_def)
qed

lemma periodic_timer_drift_free_witness:
  "pt_run [100, 105, 119, 120, 151, 159, 160] (pt_init 10)
     = Some [True, False, True, True, True, False, True]"
proof -
  have "\<forall>now \<in> set [105, 119, 120, 151, 159, 160 :: u64]. unat now + unat (10 :: u64) < 2 ^ 64 \<and> unat (100 :: u64) \<le> unat now"
    by simp
  from periodic_timer_drift_free [OF _ this] show ?thesis by (simp add: Let_def)
qed

text \<open>
  A poll of a periodic timer returns whenever the time is at least one period away from the end
  of the 64-bit clock, and the deadline it leaves, if it reported ready, lies in the future and at
  most one period away.
\<close>

theorem periodic_poll_returns:
  assumes "unat now + unat (pt_period_us t) < 2 ^ 64"
  shows "\<exists>b t'. pt_ready now t = Some (b, t') \<and> pt_armed t' \<and> pt_period_us t' = pt_period_us t
    \<and> (b \<longrightarrow> now < pt_next_due_us t' \<and> unat (pt_next_due_us t') \<le> unat now + unat (pt_period_us t))"
proof (cases "pt_period_us t = 0 \<or> now < pt_next_due_us (if pt_armed t then t else pt_reset now t)")
  case True
  then show ?thesis by (auto simp: pt_ready_def pt_reset_def Let_def)
next
  case False
  let ?t = "if pt_armed t then t else pt_reset now t"
  from False have p: "pt_period_us ?t = pt_period_us t" "0 < pt_period_us t" "pt_next_due_us ?t \<le> now"
    by (auto simp: pt_reset_def word_neq_0_conv)
  from advance_due_eq [OF p(2,3) assms] obtain d where
    d: "advance_due now (pt_period_us t) (pt_next_due_us ?t) = Some d"
    and e: "unat d = unat (pt_next_due_us ?t)
      + Suc ((unat now - unat (pt_next_due_us ?t)) div unat (pt_period_us t)) * unat (pt_period_us t)" by blast
  have "(unat now - unat (pt_next_due_us ?t)) div unat (pt_period_us t) * unat (pt_period_us t)
      \<le> unat now - unat (pt_next_due_us ?t)" by (rule div_times_less_eq_dividend)
  moreover have "unat (pt_next_due_us ?t) \<le> unat now" using p(3) by (simp add: word_le_nat_alt)
  ultimately have "unat d \<le> unat now + unat (pt_period_us t)" unfolding e mult_Suc by linarith
  with d False p(1) advance_due_future [OF d] show ?thesis
    by (auto simp: pt_ready_def pt_reset_def Let_def)
qed

lemma periodic_poll_returns_witness:
  "\<exists>b t'. pt_ready 57 (pt_reset 20 (pt_init 10)) = Some (b, t') \<and> pt_armed t'"
  using periodic_poll_returns [of 57 "pt_reset 20 (pt_init 10)"]
  by (auto simp: pt_reset_def pt_init_def)

text \<open>
  At the last instant of the 64-bit clock a poll of a periodic timer that is due never returns:
  the deadline wraps around and no deadline lies beyond that instant.
\<close>

theorem periodic_poll_diverges_at_wrap:
  assumes "0 < pt_period_us t"
  shows "pt_ready (- 1) t = None"
proof -
  have "\<not> - 1 < d" for d :: u64 by simp
  moreover have "pt_period_us t \<noteq> 0" using assms by auto
  ultimately show ?thesis by (simp add: pt_ready_def Let_def advance_due_stuck pt_reset_def)
qed

lemma periodic_poll_diverges_at_wrap_witness: "pt_ready (- 1) (pt_init 10) = None"
  by (rule periodic_poll_diverges_at_wrap) (simp add: pt_init_def)

text \<open>
  A one-shot timer armed for a deadline reports ready exactly once, at the first poll that is
  not before the deadline, and never again.
\<close>

theorem one_shot_fires_once:
  "ot_run nows (ot_arm due t) =
     (let early = takeWhile (\<lambda>now. now < due) nows;
          late = dropWhile (\<lambda>now. now < due) nows
      in replicate (length early) False
         @ (if late = [] then [] else True # replicate (length late - 1) False))"
  by (rule ot_run_armed)

end
