(* ===== verification/Protocol_Common.thy ===== *)
theory Protocol_Common
  imports Byte_Stream
begin

text \<open>
  What the protocol readers of \<^verbatim>\<open>src/async_event_loop/protocol_reader.hpp\<close> share: the counters
  (32-bit, wrapping) and the in-place callback holder \<open>ProtocolCallbackStorage\<close>.
\<close>

record protocol_stats =
  ps_messages :: u32
  ps_bytes :: u32
  ps_overflows :: u32
  ps_protocol_errors :: u32

definition stats_init :: protocol_stats where
  "stats_init = \<lparr>ps_messages = 0, ps_bytes = 0, ps_overflows = 0, ps_protocol_errors = 0\<rparr>"

text \<open>
  \<open>invoke_\<close> and \<open>destroy_\<close> are set and reset together with the object they act on, so the
  stored callable is one optional value; \<open>cbs_destroyed\<close> records the destructor calls.
\<close>

record 'f callback_storage =
  cbs_callable :: "'f option"
  cbs_active :: bool
  cbs_destroyed :: "'f list"

definition cbs_init :: "'f callback_storage" where
  "cbs_init = \<lparr>cbs_callable = None, cbs_active = False, cbs_destroyed = []\<rparr>"

definition cbs_clear :: "'f callback_storage \<Rightarrow> 'f callback_storage" where
  "cbs_clear s =
     (let s1 = (case (cbs_active s, cbs_callable s) of
                  (True, Some f) \<Rightarrow> s\<lparr>cbs_destroyed := cbs_destroyed s @ [f]\<rparr>
                | _ \<Rightarrow> s)
      in s1\<lparr>cbs_active := False, cbs_callable := None\<rparr>)"

definition cbs_set :: "'f \<Rightarrow> 'f callback_storage \<Rightarrow> bool \<times> 'f callback_storage" where
  "cbs_set f s = (True, (cbs_clear s)\<lparr>cbs_callable := Some f, cbs_active := True\<rparr>)"

definition cbs_invoke ::
  "('v \<Rightarrow> 'w \<Rightarrow> 'w) callback_storage \<Rightarrow> 'v \<Rightarrow> 'w \<Rightarrow> 'w" where
  "cbs_invoke s view w =
     (case (cbs_active s, cbs_callable s) of (True, Some f) \<Rightarrow> f view w | _ \<Rightarrow> w)"

definition cbs_inv :: "'f callback_storage \<Rightarrow> bool" where
  "cbs_inv s \<longleftrightarrow> cbs_active s = (cbs_callable s \<noteq> None)"

lemma cbs_set_spec:
  assumes "cbs_inv s"
  shows "cbs_inv (snd (cbs_set f s))"
    and "cbs_invoke (snd (cbs_set g t)) = g"
    and "cbs_destroyed (snd (cbs_set f s)) =
      cbs_destroyed s @ (case cbs_callable s of None \<Rightarrow> [] | Some h \<Rightarrow> [h])"
  using assms
  by (auto simp: cbs_inv_def cbs_set_def cbs_clear_def cbs_invoke_def Let_def fun_eq_iff
      split: option.splits bool.splits)

lemma cbs_clear_spec:
  assumes "cbs_inv s"
  shows "cbs_inv (cbs_clear s) \<and> cbs_invoke (cbs_clear t) v w = w"
  by (simp add: cbs_inv_def cbs_clear_def cbs_invoke_def Let_def)

text \<open>
  The loop body of every reader counts the byte, lets the reader consume it, and hands the view
  of a completed message to the callback.
\<close>

definition deliver :: "('v \<Rightarrow> 'w \<Rightarrow> 'w) \<Rightarrow> 'v list \<Rightarrow> 'w \<Rightarrow> 'w" where
  "deliver cb views w = fold cb views w"

lemma deliver_simps [simp]:
  "deliver cb [] w = w"
  "deliver cb (v # vs) w = deliver cb vs (cb v w)"
  "deliver cb (us @ vs) w = deliver cb vs (deliver cb us w)"
  by (simp_all add: deliver_def)

text \<open>
  Running a reader over a list of bytes: the messages completed, in order. \<open>consume\<close> returns the
  new reader and the views it passes to the callback.
\<close>

fun feed :: "(byte \<Rightarrow> 'r \<Rightarrow> 'r \<times> 'v list) \<Rightarrow> byte list \<Rightarrow> 'r \<Rightarrow> 'r \<times> 'v list" where
  "feed consume [] r = (r, [])"
| "feed consume (b # bs) r =
     (let (r1, vs) = consume b r; (r2, vs') = feed consume bs r1 in (r2, vs @ vs'))"

lemma feed_append:
  "feed consume (xs @ ys) r =
     (let (r1, us) = feed consume xs r; (r2, vs) = feed consume ys r1 in (r2, us @ vs))"
  by (induction xs arbitrary: r) (simp_all add: split_beta)

lemma feed_append_eq:
  assumes "feed consume xs r = (r1, us)" "feed consume ys r1 = (r2, vs)"
  shows "feed consume (xs @ ys) r = (r2, us @ vs)"
  using assms by (simp add: feed_append)

lemma feed_single: "feed consume [b] r = consume b r"
  by (cases "consume b r") simp

definition reader_step ::
  "(byte \<Rightarrow> 'r \<Rightarrow> 'r \<times> 'v list) \<Rightarrow> ('v \<Rightarrow> 'w \<Rightarrow> 'w) \<Rightarrow> byte \<Rightarrow> 'r \<times> 'w \<Rightarrow> 'r \<times> 'w" where
  "reader_step consume cb b rw =
     (case rw of (r, w) \<Rightarrow> case consume b r of (r', vs) \<Rightarrow> (r', deliver cb vs w))"

lemma fold_reader_step:
  "feed consume bs r = (r', vs) \<Longrightarrow> fold (reader_step consume cb) bs (r, w) = (r', deliver cb vs w)"
proof (induction bs arbitrary: r w r' vs)
  case Nil
  then show ?case by simp
next
  case (Cons b bs)
  obtain r1 us where c: "consume b r = (r1, us)" by fastforce
  obtain r2 ws where f: "feed consume bs r1 = (r2, ws)" by fastforce
  from Cons.prems c f have "r' = r2" "vs = us @ ws" by auto
  with Cons.IH [OF f] c show ?case by (simp add: reader_step_def)
qed

text \<open>
  A reader polled on a finite stream, with a callback that leaves the stream alone: it returns,
  having consumed all pending bytes and delivered the messages they complete, in order.
\<close>

context byte_source
begin

lemma deliver_keeps:
  assumes "winv w" "\<And>v w. winv w \<Longrightarrow> winv (cb v w) \<and> content (cb v w) = content w
      \<and> rest (cb v w) = f v (rest w)"
  shows "winv (deliver cb vs w) \<and> content (deliver cb vs w) = content w
      \<and> rest (deliver cb vs w) = deliver f vs (rest w)"
  using assms(1) by (induction vs arbitrary: w) (simp_all add: assms(2))

lemma poll_reader:
  assumes w: "winv w"
    and cb: "\<And>v w. winv w \<Longrightarrow> winv (cb v w) \<and> content (cb v w) = content w
      \<and> rest (cb v w) = f v (rest w)"
    and feed: "feed consume (content w) r = (r', vs)"
  shows "\<exists>w'. poll_loop st (reader_step consume cb) (r, w) = Some (r', w') \<and> winv w'
      \<and> content w' = [] \<and> rest w' = deliver f vs (rest w)"
proof -
  have "\<exists>r2 w2. poll_loop st (reader_step consume cb) (r, w) = Some (r2, w2) \<and> winv w2
      \<and> content w2 = [] \<and> (r2, rest w2) = fold (reader_step consume f) (content w) (r, rest w)"
    by (rule poll_loop_fold [OF w])
      (auto simp: reader_step_def deliver_keeps [where f = f, OF _ cb] split: prod.splits)
  with fold_reader_step [OF feed, of f "rest w"] show ?thesis by auto
qed

end

text \<open>
  The instance the readers are used with in memory: the reader is polled on a memory stream, and
  the application's callback acts on the application's own state.
\<close>

definition app_callback ::
  "('v \<Rightarrow> 'o \<Rightarrow> 'o) \<Rightarrow> 'v \<Rightarrow> memory_stream \<times> 'o \<Rightarrow> memory_stream \<times> 'o" where
  "app_callback f v w = (fst w, f v (snd w))"

lemma mem_poll_reader:
  assumes "ring_inv s" "feed consume (ring_list s) r = (r', vs)"
  shows "\<exists>s'. poll_loop mem_stream (reader_step consume (app_callback f)) (r, (s, x))
      = Some (r', (s', deliver f vs x)) \<and> ring_inv s' \<and> ring_list s' = []"
proof -
  have "mem_inv (s, x)" using assms(1) by (simp add: mem_inv_def)
  from mem.poll_reader [OF this, of "app_callback f" f consume r r' vs] assms(2) show ?thesis
    by (auto simp: app_callback_def mem_inv_def mem_content_def)
qed

end
