(* ===== verification/Line_Reader.thy ===== *)
theory Line_Reader
  imports Protocol_Common
begin

text \<open>
  \<open>LineProtocolReader\<close> of \<^verbatim>\<open>src/async_event_loop/protocol_reader.hpp\<close>: delimiter-separated lines
  collected in a fixed buffer, with the two overflow policies. The template parameter
  \<open>BufferSize\<close> is the length of \<open>lr_buffer\<close>.
\<close>

record line_options =
  lo_delimiter :: byte
  lo_strip_cr :: bool
  lo_drop_overflow :: bool

definition line_options_default :: line_options where
  "line_options_default = \<lparr>lo_delimiter = chr_lf, lo_strip_cr = True, lo_drop_overflow = True\<rparr>"

record line_reader =
  lr_buffer :: "byte list"
  lr_size :: nat
  lr_stats :: protocol_stats

definition line_init :: "nat \<Rightarrow> line_reader" where
  "line_init buffer_size =
     \<lparr>lr_buffer = replicate buffer_size 0, lr_size = 0, lr_stats = stats_init\<rparr>"

definition line_emit :: "line_options \<Rightarrow> line_reader \<Rightarrow> line_reader \<times> byte list" where
  "line_emit opts r =
     (let len = (if lo_strip_cr opts \<and> lr_size r > 0 \<and> lr_buffer r ! (lr_size r - 1) = chr_cr
                 then lr_size r - 1 else lr_size r)
      in (r\<lparr>lr_stats := (lr_stats r)\<lparr>ps_messages := ps_messages (lr_stats r) + 1\<rparr>, lr_size := 0\<rparr>,
          take len (lr_buffer r)))"

definition line_consume :: "line_options \<Rightarrow> byte \<Rightarrow> line_reader \<Rightarrow> line_reader \<times> byte list list" where
  "line_consume opts c r =
     (if c = lo_delimiter opts then (case line_emit opts r of (r', view) \<Rightarrow> (r', [view]))
      else if lr_size r \<ge> length (lr_buffer r)
      then (r\<lparr>lr_stats := (lr_stats r)\<lparr>ps_overflows := ps_overflows (lr_stats r) + 1\<rparr>,
              lr_size := (if lo_drop_overflow opts then 0 else lr_size r)\<rparr>, [])
      else (r\<lparr>lr_buffer := (lr_buffer r)[lr_size r := c], lr_size := lr_size r + 1\<rparr>, []))"

text \<open>One iteration of the loop in \<open>poll\<close>: \<open>++stats_.bytes; consume(byte)\<close>.\<close>

definition line_byte :: "line_options \<Rightarrow> byte \<Rightarrow> line_reader \<Rightarrow> line_reader \<times> byte list list" where
  "line_byte opts c r =
     line_consume opts c (r\<lparr>lr_stats := (lr_stats r)\<lparr>ps_bytes := ps_bytes (lr_stats r) + 1\<rparr>\<rparr>)"

definition line_poll ::
  "'w byte_stream \<Rightarrow> line_options \<Rightarrow> (byte list \<Rightarrow> 'w \<Rightarrow> 'w) \<Rightarrow> line_reader \<times> 'w
     \<Rightarrow> (line_reader \<times> 'w) option" where
  "line_poll st opts cb = poll_loop st (reader_step (line_byte opts) cb)"

section \<open>Invariant and list view\<close>

definition line_inv :: "line_reader \<Rightarrow> bool" where
  "line_inv r \<longleftrightarrow> lr_size r \<le> length (lr_buffer r)"

definition line_pending :: "line_reader \<Rightarrow> byte list" where
  "line_pending r = take (lr_size r) (lr_buffer r)"

abbreviation line_capacity :: "line_reader \<Rightarrow> nat" where
  "line_capacity r \<equiv> length (lr_buffer r)"

definition strip_cr :: "bool \<Rightarrow> byte list \<Rightarrow> byte list" where
  "strip_cr on l = (if on \<and> l \<noteq> [] \<and> last l = chr_cr then butlast l else l)"

lemma line_inv_init [simp, intro]: "line_inv (line_init n)"
  by (simp add: line_inv_def line_init_def)

lemma line_pending_init [simp]: "line_pending (line_init n) = []"
  by (simp add: line_pending_def line_init_def)

lemma line_capacity_init [simp]: "line_capacity (line_init n) = n"
  by (simp add: line_init_def)

lemma length_line_pending: "line_inv r \<Longrightarrow> length (line_pending r) = lr_size r"
  by (simp add: line_inv_def line_pending_def)

lemma line_emit_view:
  "line_inv r \<Longrightarrow> snd (line_emit opts r) = strip_cr (lo_strip_cr opts) (line_pending r)"
  by (auto simp: line_emit_def strip_cr_def line_pending_def line_inv_def Let_def last_take_nth
      take_pred_butlast)

text \<open>The three branches of \<open>consume\<close> on the list view.\<close>

lemma line_byte_delimiter [reader_simps]:
  assumes "line_inv r"
  shows "line_byte opts (lo_delimiter opts) r =
    (r\<lparr>lr_stats := (lr_stats r)\<lparr>ps_bytes := ps_bytes (lr_stats r) + 1,
                                ps_messages := ps_messages (lr_stats r) + 1\<rparr>, lr_size := 0\<rparr>,
     [strip_cr (lo_strip_cr opts) (line_pending r)])"
  using line_emit_view [of "r\<lparr>lr_stats := (lr_stats r)\<lparr>ps_bytes := ps_bytes (lr_stats r) + 1\<rparr>\<rparr>" opts]
    assms
  by (simp add: line_byte_def line_consume_def line_emit_def Let_def line_inv_def line_pending_def)

lemma line_byte_room [reader_simps]:
  assumes "line_inv r" "c \<noteq> lo_delimiter opts" "lr_size r < line_capacity r"
  shows "\<exists>r'. line_byte opts c r = (r', []) \<and> line_inv r' \<and> line_capacity r' = line_capacity r
    \<and> line_pending r' = line_pending r @ [c]
    \<and> lr_stats r' = (lr_stats r)\<lparr>ps_bytes := ps_bytes (lr_stats r) + 1\<rparr>"
  using assms
  by (simp add: line_byte_def line_consume_def line_inv_def line_pending_def)

lemma line_byte_full [reader_simps]:
  assumes "line_inv r" "c \<noteq> lo_delimiter opts" "lr_size r = line_capacity r"
  shows "\<exists>r'. line_byte opts c r = (r', []) \<and> line_inv r' \<and> line_capacity r' = line_capacity r
    \<and> line_pending r' = (if lo_drop_overflow opts then [] else line_pending r)
    \<and> lr_stats r' = (lr_stats r)\<lparr>ps_bytes := ps_bytes (lr_stats r) + 1,
                                 ps_overflows := ps_overflows (lr_stats r) + 1\<rparr>"
  using assms
  by (simp add: line_byte_def line_consume_def line_inv_def line_pending_def)

section \<open>What a line becomes\<close>

text \<open>
  The bytes of a line (without its delimiter) that are left in a buffer of \<open>n\<close> bytes when the
  delimiter arrives, and the number of overflows counted on the way. Under the dropping policy
  every byte that finds the buffer full is discarded together with the buffer, so the line is cut
  into groups of \<open>n + 1\<close> bytes and only the bytes after the last full group survive.
\<close>

definition line_kept :: "bool \<Rightarrow> nat \<Rightarrow> byte list \<Rightarrow> byte list" where
  "line_kept drop_overflow n l =
     (if drop_overflow then drop (length l div (n + 1) * (n + 1)) l else take n l)"

definition line_lost :: "bool \<Rightarrow> nat \<Rightarrow> byte list \<Rightarrow> nat" where
  "line_lost drop_overflow n l = (if drop_overflow then length l div (n + 1) else length l - n)"

lemma line_kept_short: "length l \<le> n \<Longrightarrow> line_kept d n l = l \<and> line_lost d n l = 0"
  by (simp add: line_kept_def line_lost_def)

lemma length_line_kept:
  "length (line_kept d n l) = (if d then length l mod (n + 1) else min n (length l))"
  by (simp add: line_kept_def minus_div_mult_eq_mod min.commute del: mult_Suc_right)

lemma line_kept_snoc:
  "line_kept d n (l @ [c]) =
     (if length (line_kept d n l) < n then line_kept d n l @ [c]
      else if d then [] else line_kept d n l)"
proof (cases d)
  case True
  let ?k = "length l" and ?m = "n + 1"
  show ?thesis
  proof (cases "?k mod ?m = n")
    case True
    then have "Suc ?k div ?m = Suc (?k div ?m)"
      by (simp add: div_Suc mod_Suc)
    moreover have "Suc (?k div ?m) * ?m = Suc ?k"
      using True div_mult_mod_eq [of ?k ?m] by simp
    ultimately show ?thesis
      using True \<open>d\<close> by (simp add: line_kept_def minus_div_mult_eq_mod del: mult_Suc_right)
  next
    case False
    have lt: "?k mod ?m < n"
      using False mod_less_divisor [of ?m ?k] by linarith
    then have "Suc ?k div ?m = ?k div ?m"
      by (simp add: div_Suc mod_Suc)
    moreover have "?k div ?m * ?m \<le> ?k"
      by (rule div_times_less_eq_dividend)
    ultimately show ?thesis
      using lt \<open>d\<close> by (simp add: line_kept_def minus_div_mult_eq_mod del: mult_Suc_right)
  qed
next
  case False
  then show ?thesis
    by (cases "length l < n") (auto simp: line_kept_def)
qed

lemma line_lost_snoc:
  "line_lost d n (l @ [c]) =
     (if length (line_kept d n l) < n then line_lost d n l else Suc (line_lost d n l))"
proof (cases d)
  case True
  have "length l mod (n + 1) < n \<or> length l mod (n + 1) = n"
    using mod_less_divisor [of "n + 1" "length l"] by linarith
  with True show ?thesis
    by (auto simp: line_lost_def length_line_kept div_Suc mod_Suc)
next
  case False
  then show ?thesis by (auto simp: line_lost_def length_line_kept)
qed

definition count_bytes :: "nat \<Rightarrow> nat \<Rightarrow> nat \<Rightarrow> protocol_stats \<Rightarrow> protocol_stats" where
  "count_bytes bytes messages overflows s =
     s\<lparr>ps_bytes := ps_bytes s + word_of_nat bytes, ps_messages := ps_messages s + word_of_nat messages,
       ps_overflows := ps_overflows s + word_of_nat overflows\<rparr>"

lemma line_feed_open:
  assumes "line_inv r" "line_pending r = []" "lo_delimiter opts \<notin> set l"
  shows "\<exists>r'. feed (line_byte opts) l r = (r', []) \<and> line_inv r' \<and> line_capacity r' = line_capacity r
    \<and> line_pending r' = line_kept (lo_drop_overflow opts) (line_capacity r) l
    \<and> lr_stats r' = count_bytes (length l) 0
         (line_lost (lo_drop_overflow opts) (line_capacity r) l) (lr_stats r)"
  using assms(3)
proof (induction l rule: rev_induct)
  case Nil
  with assms show ?case by (simp add: line_kept_def line_lost_def count_bytes_def)
next
  case (snoc c l)
  let ?d = "lo_drop_overflow opts" and ?n = "line_capacity r"
  from snoc obtain r1 where f: "feed (line_byte opts) l r = (r1, [])" and i: "line_inv r1"
    and n: "line_capacity r1 = ?n" and p: "line_pending r1 = line_kept ?d ?n l"
    and s: "lr_stats r1 = count_bytes (length l) 0 (line_lost ?d ?n l) (lr_stats r)"
    and c: "c \<noteq> lo_delimiter opts" by auto
  have sz: "lr_size r1 = length (line_kept ?d ?n l)"
    using length_line_pending [OF i] p by simp
  show ?case
  proof (cases "lr_size r1 < line_capacity r1")
    case True
    from line_byte_room [OF i c True] obtain r2 where
      "line_byte opts c r1 = (r2, [])" "line_inv r2" "line_capacity r2 = ?n"
      "line_pending r2 = line_kept ?d ?n l @ [c]"
      "lr_stats r2 = (lr_stats r1)\<lparr>ps_bytes := ps_bytes (lr_stats r1) + 1\<rparr>"
      using n p by auto
    with f s True sz n show ?thesis
      by (simp add: feed_append line_kept_snoc line_lost_snoc count_bytes_def algebra_simps)
  next
    case False
    then have "lr_size r1 = line_capacity r1" using i by (simp add: line_inv_def)
    from line_byte_full [OF i c this] obtain r2 where
      "line_byte opts c r1 = (r2, [])" "line_inv r2" "line_capacity r2 = ?n"
      "line_pending r2 = (if ?d then [] else line_kept ?d ?n l)"
      "lr_stats r2 = (lr_stats r1)\<lparr>ps_bytes := ps_bytes (lr_stats r1) + 1,
                                 ps_overflows := ps_overflows (lr_stats r1) + 1\<rparr>"
      using n p by auto
    with f s False sz n show ?thesis
      by (simp add: feed_append line_kept_snoc line_lost_snoc count_bytes_def algebra_simps)
  qed
qed

lemma line_feed_line:
  assumes "line_inv r" "line_pending r = []" "lo_delimiter opts \<notin> set l"
  shows "\<exists>r'. feed (line_byte opts) (l @ [lo_delimiter opts]) r =
      (r', [strip_cr (lo_strip_cr opts) (line_kept (lo_drop_overflow opts) (line_capacity r) l)])
    \<and> line_inv r' \<and> line_capacity r' = line_capacity r \<and> line_pending r' = []
    \<and> lr_stats r' = count_bytes (length l + 1) 1
         (line_lost (lo_drop_overflow opts) (line_capacity r) l) (lr_stats r)"
proof -
  from line_feed_open [OF assms] obtain r1 where
    "feed (line_byte opts) l r = (r1, [])" "line_inv r1" "line_capacity r1 = line_capacity r"
    "line_pending r1 = line_kept (lo_drop_overflow opts) (line_capacity r) l"
    "lr_stats r1 = count_bytes (length l) 0
         (line_lost (lo_drop_overflow opts) (line_capacity r) l) (lr_stats r)" by blast
  then show ?thesis
    by (simp add: feed_append line_byte_delimiter line_inv_def line_pending_def count_bytes_def
        algebra_simps)
qed

text \<open>A byte sequence is a list of delimited lines and an unfinished one.\<close>

definition join_lines :: "byte \<Rightarrow> byte list list \<Rightarrow> byte list \<Rightarrow> byte list" where
  "join_lines d ls rest = concat (map (\<lambda>l. l @ [d]) ls) @ rest"

lemma join_lines_simps [simp]:
  "join_lines d [] rest = rest"
  "join_lines d (l # ls) rest = (l @ [d]) @ join_lines d ls rest"
  by (simp_all add: join_lines_def)

definition emitted_line :: "line_options \<Rightarrow> nat \<Rightarrow> byte list \<Rightarrow> byte list" where
  "emitted_line opts n l = strip_cr (lo_strip_cr opts) (line_kept (lo_drop_overflow opts) n l)"

lemma line_feed_lines:
  assumes "line_inv r" "line_pending r = []"
    "\<forall>l \<in> set ls. lo_delimiter opts \<notin> set l" "lo_delimiter opts \<notin> set rest"
  shows "\<exists>r'. feed (line_byte opts) (join_lines (lo_delimiter opts) ls rest) r =
      (r', map (emitted_line opts (line_capacity r)) ls)
    \<and> line_inv r' \<and> line_capacity r' = line_capacity r
    \<and> line_pending r' = line_kept (lo_drop_overflow opts) (line_capacity r) rest
    \<and> lr_stats r' = count_bytes (length (join_lines (lo_delimiter opts) ls rest)) (length ls)
         (sum_list (map (line_lost (lo_drop_overflow opts) (line_capacity r)) (ls @ [rest])))
         (lr_stats r)"
  using assms
proof (induction ls arbitrary: r)
  case Nil
  then show ?case using line_feed_open [of r opts rest] by simp
next
  case (Cons l ls)
  let ?d = "lo_drop_overflow opts" and ?n = "line_capacity r"
  from line_feed_line [of r opts l] Cons.prems obtain r1 where
    f: "feed (line_byte opts) (l @ [lo_delimiter opts]) r = (r1, [emitted_line opts ?n l])"
    and i: "line_inv r1" "line_pending r1 = []" and n: "line_capacity r1 = ?n"
    and s: "lr_stats r1 = count_bytes (length l + 1) 1 (line_lost ?d ?n l) (lr_stats r)"
    by (auto simp: emitted_line_def)
  from Cons.IH [OF i] Cons.prems(3,4) n obtain r2 where
    g: "feed (line_byte opts) (join_lines (lo_delimiter opts) ls rest) r1 =
      (r2, map (emitted_line opts ?n) ls)"
    and r2: "line_inv r2" "line_capacity r2 = ?n" "line_pending r2 = line_kept ?d ?n rest"
      "lr_stats r2 = count_bytes (length (join_lines (lo_delimiter opts) ls rest)) (length ls)
         (sum_list (map (line_lost ?d ?n) (ls @ [rest]))) (lr_stats r1)" by auto
  from feed_append_eq [OF f g] r2 s show ?case
    by (simp add: count_bytes_def algebra_simps)
qed

text \<open>Bytes that fit are appended to whatever is pending, and the delimiter emits all of it.\<close>

lemma line_feed_more:
  assumes "line_inv r" "lo_delimiter opts \<notin> set l" "length (line_pending r @ l) \<le> line_capacity r"
  shows "\<exists>r'. feed (line_byte opts) l r = (r', []) \<and> line_inv r' \<and> line_capacity r' = line_capacity r
    \<and> line_pending r' = line_pending r @ l"
  using assms
proof (induction l arbitrary: r)
  case Nil
  then show ?case by simp
next
  case (Cons c l)
  from Cons.prems have "c \<noteq> lo_delimiter opts" "lr_size r < line_capacity r"
    by (auto simp: length_line_pending)
  from line_byte_room [OF Cons.prems(1) this] obtain r1 where
    s: "line_byte opts c r = (r1, [])" "line_inv r1" "line_capacity r1 = line_capacity r"
    "line_pending r1 = line_pending r @ [c]" by blast
  with Cons.IH [of r1] Cons.prems(2,3) obtain r2 where
    "feed (line_byte opts) l r1 = (r2, [])" "line_inv r2" "line_capacity r2 = line_capacity r"
    "line_pending r2 = line_pending r @ c # l" by auto
  with s(1) show ?case by simp
qed

lemma line_feed_finish:
  assumes "line_inv r" "lo_delimiter opts \<notin> set l" "length (line_pending r @ l) \<le> line_capacity r"
  shows "\<exists>r'. feed (line_byte opts) (l @ [lo_delimiter opts]) r =
      (r', [strip_cr (lo_strip_cr opts) (line_pending r @ l)])
    \<and> line_inv r' \<and> line_capacity r' = line_capacity r \<and> line_pending r' = []"
proof -
  from line_feed_more [OF assms] obtain r1 where
    "feed (line_byte opts) l r = (r1, [])" "line_inv r1" "line_capacity r1 = line_capacity r"
    "line_pending r1 = line_pending r @ l" by blast
  then show ?thesis
    by (simp add: feed_append line_byte_delimiter line_inv_def) (simp add: line_pending_def)
qed

text \<open>
  How the bytes are cut into pieces does not matter: the lines delivered are the lines of what was
  pending followed by what arrives.
\<close>

lemma join_lines_split:
  assumes "d \<notin> set p" "p @ xs = join_lines d (l # ls) rest"
  obtains l' where "l = p @ l'" "xs = (l' @ [d]) @ join_lines d ls rest"
proof -
  from assms(2) have "p @ xs = l @ (d # join_lines d ls rest)" by simp
  then consider us where "p @ us = l" "xs = us @ d # join_lines d ls rest"
    | us where "p = l @ us" "us @ xs = d # join_lines d ls rest"
    by (auto simp: append_eq_append_conv2)
  then show thesis
  proof cases
    case (1 us)
    then show ?thesis by (intro that [of us]) simp_all
  next
    case (2 us)
    with assms(1) have "us = []" by (cases us) auto
    with 2 show ?thesis by (intro that [of "[]"]) simp_all
  qed
qed

lemma line_feed_resume:
  assumes "line_inv r" "lo_delimiter opts \<notin> set (line_pending r)"
    "line_pending r @ bs = join_lines (lo_delimiter opts) ls rest"
    "\<forall>l \<in> set (rest # ls). lo_delimiter opts \<notin> set l \<and> length l \<le> line_capacity r"
  shows "\<exists>r'. feed (line_byte opts) bs r = (r', map (strip_cr (lo_strip_cr opts)) ls)
    \<and> line_inv r' \<and> line_capacity r' = line_capacity r \<and> line_pending r' = rest"
proof (cases ls)
  case Nil
  with assms(3) have r: "rest = line_pending r @ bs" by simp
  with line_feed_more [OF assms(1), of opts bs] assms(4) Nil show ?thesis by auto
next
  case (Cons l ls')
  from join_lines_split [OF assms(2) assms(3) [unfolded Cons]] obtain l' where
    l: "l = line_pending r @ l'" "bs = (l' @ [lo_delimiter opts]) @ join_lines (lo_delimiter opts) ls' rest" .
  from assms(4) Cons l(1) have short: "lo_delimiter opts \<notin> set l'"
    "length (line_pending r @ l') \<le> line_capacity r" by auto
  from line_feed_finish [OF assms(1) short] obtain r1 where
    f: "feed (line_byte opts) (l' @ [lo_delimiter opts]) r = (r1, [strip_cr (lo_strip_cr opts) l])"
    "line_inv r1" "line_capacity r1 = line_capacity r" "line_pending r1 = []" using l(1) by blast
  from line_feed_lines [OF f(2,4), of ls' opts rest] assms(4) Cons f(3) obtain r2 where
    g: "feed (line_byte opts) (join_lines (lo_delimiter opts) ls' rest) r1 =
        (r2, map (emitted_line opts (line_capacity r)) ls')"
    "line_inv r2" "line_capacity r2 = line_capacity r"
    "line_pending r2 = line_kept (lo_drop_overflow opts) (line_capacity r) rest" by auto
  have e: "map (emitted_line opts (line_capacity r)) ls' = map (strip_cr (lo_strip_cr opts)) ls'"
    using assms(4) Cons by (auto simp: emitted_line_def line_kept_short)
  have "line_pending r2 = rest" using g(4) assms(4) by (simp add: line_kept_short)
  with feed_append_eq [OF f(1) g(1)] g(2,3) e l(2) Cons show ?thesis by auto
qed

end
