(* ===== verification/Frame_Readers.thy ===== *)
theory Frame_Readers
  imports Protocol_Common
begin

text \<open>
  The two binary readers of \<^verbatim>\<open>src/async_event_loop/protocol_reader.hpp\<close>:
  \<open>FixedFrameProtocolReader\<close> and \<open>HeaderPayloadProtocolReader\<close>. In both, \<open>BufferSize\<close> is the
  length of the buffer list.
\<close>

section \<open>\<open>FixedFrameProtocolReader\<close>\<close>

record frame_reader =
  fr_buffer :: "byte list"
  fr_size :: nat
  fr_stats :: protocol_stats

definition fixed_init :: "nat \<Rightarrow> frame_reader" where
  "fixed_init buffer_size =
     \<lparr>fr_buffer = replicate buffer_size 0, fr_size = 0, fr_stats = stats_init\<rparr>"

definition fixed_byte :: "nat \<Rightarrow> byte \<Rightarrow> frame_reader \<Rightarrow> frame_reader \<times> byte list list" where
  "fixed_byte frame_size b r =
     (let r1 = r\<lparr>fr_stats := (fr_stats r)\<lparr>ps_bytes := ps_bytes (fr_stats r) + 1\<rparr>,
                 fr_buffer := (fr_buffer r)[fr_size r := b], fr_size := fr_size r + 1\<rparr>
      in if fr_size r1 = frame_size
         then (r1\<lparr>fr_stats := (fr_stats r1)\<lparr>ps_messages := ps_messages (fr_stats r1) + 1\<rparr>,
                  fr_size := 0\<rparr>, [take (fr_size r1) (fr_buffer r1)])
         else (r1, []))"

definition fixed_poll ::
  "'w byte_stream \<Rightarrow> nat \<Rightarrow> (byte list \<Rightarrow> 'w \<Rightarrow> 'w) \<Rightarrow> frame_reader \<times> 'w
     \<Rightarrow> (frame_reader \<times> 'w) option" where
  "fixed_poll st frame_size cb rw =
     (case rw of (r, w) \<Rightarrow>
        if frame_size = 0 \<or> frame_size > length (fr_buffer r)
        then Some (r\<lparr>fr_stats := (fr_stats r)
               \<lparr>ps_protocol_errors := ps_protocol_errors (fr_stats r) + 1\<rparr>\<rparr>, w)
        else poll_loop st (reader_step (fixed_byte frame_size) cb) (r, w))"

definition fixed_inv :: "nat \<Rightarrow> frame_reader \<Rightarrow> bool" where
  "fixed_inv frame_size r \<longleftrightarrow> fr_size r < frame_size \<and> frame_size \<le> length (fr_buffer r)"

definition fixed_pending :: "frame_reader \<Rightarrow> byte list" where
  "fixed_pending r = take (fr_size r) (fr_buffer r)"

lemma fixed_byte_spec:
  assumes "fixed_inv n r" "fixed_byte n b r = (r', vs)"
  shows "fixed_inv n r' \<and>
    (if Suc (fr_size r) = n then vs = [fixed_pending r @ [b]] \<and> fixed_pending r' = []
     else vs = [] \<and> fixed_pending r' = fixed_pending r @ [b] \<and> fr_size r' = Suc (fr_size r))"
  using assms
  by (auto simp: fixed_byte_def fixed_inv_def fixed_pending_def Let_def split: if_splits)

text \<open>Pending bytes and fresh bytes are cut into frames of \<open>n\<close>; what is left over stays pending.\<close>

fun chunks :: "nat \<Rightarrow> nat \<Rightarrow> byte list \<Rightarrow> byte list list" where
  "chunks 0 n bs = []"
| "chunks (Suc k) n bs = take n bs # chunks k n (drop n bs)"

lemma chunks_append: "length a = n \<Longrightarrow> chunks (Suc k) n (a @ bs) = a # chunks k n bs"
  by simp

lemma drop_chunk: "length a = n \<Longrightarrow> drop (Suc k * n) (a @ bs) = drop (k * n) bs"
  by simp

lemma fixed_feed:
  assumes "fixed_inv n r" "feed (fixed_byte n) bs r = (r', vs)"
  shows "fixed_inv n r' \<and> vs = chunks (length (fixed_pending r @ bs) div n) n (fixed_pending r @ bs)
    \<and> fixed_pending r' = drop (length (fixed_pending r @ bs) div n * n) (fixed_pending r @ bs)"
  using assms
proof (induction bs arbitrary: r vs)
  case Nil
  then have "length (fixed_pending r) < n"
    by (simp add: fixed_inv_def fixed_pending_def)
  with Nil show ?case by simp
next
  case (Cons b bs)
  obtain r1 us where b: "fixed_byte n b r = (r1, us)" by fastforce
  obtain ws where f: "feed (fixed_byte n) bs r1 = (r', ws)" and vs: "vs = us @ ws"
    using Cons.prems(2) b by (auto split: prod.splits)
  note spec = fixed_byte_spec [OF Cons.prems(1) b]
  from Cons.IH [OF _ f] spec have IH: "fixed_inv n r'"
    "ws = chunks (length (fixed_pending r1 @ bs) div n) n (fixed_pending r1 @ bs)"
    "fixed_pending r' = drop (length (fixed_pending r1 @ bs) div n * n) (fixed_pending r1 @ bs)"
    by auto
  have sz: "length (fixed_pending r) = fr_size r" "0 < n"
    using Cons.prems(1) by (auto simp: fixed_inv_def fixed_pending_def)
  show ?case
  proof (cases "Suc (fr_size r) = n")
    case True
    with spec have p: "us = [fixed_pending r @ [b]]" "fixed_pending r1 = []" by auto
    have len: "length (fixed_pending r @ [b]) = n" using sz True by simp
    have q: "length (fixed_pending r @ b # bs) div n = Suc (length bs div n)"
    proof -
      have e: "length (fixed_pending r @ b # bs) = n + length bs" using sz True by simp
      show ?thesis unfolding e using sz(2) div_add_self1 [of n "length bs"] by simp
    qed
    have split: "fixed_pending r @ b # bs = (fixed_pending r @ [b]) @ bs" by simp
    have d: "drop (Suc (length bs div n) * n) (fixed_pending r @ b # bs) = drop (length bs div n * n) bs"
      unfolding split by (rule drop_chunk [OF len])
    have "chunks (Suc (length bs div n)) n (fixed_pending r @ b # bs)
        = (fixed_pending r @ [b]) # chunks (length bs div n) n bs"
      unfolding split by (rule chunks_append [OF len])
    with IH p q d vs show ?thesis by simp
  next
    case False
    with spec IH vs show ?thesis by simp
  qed
qed

section \<open>\<open>HeaderPayloadProtocolReader\<close>\<close>

text \<open>
  The function pointer of the options is null or a function of the header's bytes (user code, a
  parameter of the model).
\<close>

record hp_options =
  ho_header_size :: nat
  ho_max_payload_size :: nat
  ho_payload_size :: "(byte list \<Rightarrow> nat) option"

record hp_reader =
  hr_buffer :: "byte list"
  hr_size :: nat
  hr_expected_size :: nat
  hr_have_expected_size :: bool
  hr_stats :: protocol_stats

definition hp_init :: "nat \<Rightarrow> hp_reader" where
  "hp_init buffer_size =
     \<lparr>hr_buffer = replicate buffer_size 0, hr_size = 0, hr_expected_size = 0,
      hr_have_expected_size = False, hr_stats = stats_init\<rparr>"

definition hp_valid_options :: "nat \<Rightarrow> hp_options \<Rightarrow> bool" where
  "hp_valid_options buffer_size opts \<longleftrightarrow>
     ho_header_size opts \<noteq> 0 \<and> ho_payload_size opts \<noteq> None \<and>
     ho_header_size opts \<le> buffer_size \<and> ho_max_payload_size opts \<le> buffer_size \<and>
     ho_header_size opts + ho_max_payload_size opts \<le> buffer_size"

definition hp_reset :: "hp_reader \<Rightarrow> hp_reader" where
  "hp_reset r = r\<lparr>hr_size := 0, hr_expected_size := 0, hr_have_expected_size := False\<rparr>"

definition hp_error :: "hp_reader \<Rightarrow> hp_reader" where
  "hp_error r = r\<lparr>hr_stats := (hr_stats r)
     \<lparr>ps_protocol_errors := ps_protocol_errors (hr_stats r) + 1\<rparr>\<rparr>"

definition hp_append :: "byte \<Rightarrow> hp_reader \<Rightarrow> bool \<times> hp_reader" where
  "hp_append b r =
     (if hr_size r \<ge> length (hr_buffer r)
      then (False, hp_reset (r\<lparr>hr_stats := (hr_stats r)
              \<lparr>ps_overflows := ps_overflows (hr_stats r) + 1\<rparr>\<rparr>))
      else (True, r\<lparr>hr_buffer := (hr_buffer r)[hr_size r := b], hr_size := hr_size r + 1\<rparr>))"

text \<open>\<^verbatim>\<open>for (i = 0; i < remaining; ++i) buffer_[i] = buffer_[expected_size_ + i];\<close>\<close>

definition move_front :: "nat \<Rightarrow> nat \<Rightarrow> byte list \<Rightarrow> byte list" where
  "move_front from n buf = fold (\<lambda>i b. b[i := b ! (from + i)]) [0..<n] buf"

text \<open>
  \<open>try_emit\<close> calls itself when a whole header is left behind the emitted frame; every call takes a
  nonempty frame off the buffer, so its size bounds the depth. The first argument is that bound.
\<close>

fun hp_try_emit :: "nat \<Rightarrow> hp_options \<Rightarrow> hp_reader \<Rightarrow> hp_reader \<times> byte list list" where
  "hp_try_emit 0 opts r = (r, [])"
| "hp_try_emit (Suc fuel) opts r =
     (if hr_size r < ho_header_size opts then (r, [])
      else let payload = (case ho_payload_size opts of None \<Rightarrow> 0
                          | Some f \<Rightarrow> f (take (ho_header_size opts) (hr_buffer r)))
      in if \<not> hr_have_expected_size r \<and>
            (payload > ho_max_payload_size opts \<or>
             ho_header_size opts + payload > length (hr_buffer r))
         then (hp_reset (hp_error r), [])
         else let r1 = (if hr_have_expected_size r then r
                        else r\<lparr>hr_expected_size := ho_header_size opts + payload,
                               hr_have_expected_size := True\<rparr>)
         in if hr_size r1 \<ge> hr_expected_size r1
            then let view = take (hr_expected_size r1) (hr_buffer r1);
                     remaining = hr_size r1 - hr_expected_size r1;
                     r2 = r1\<lparr>hr_stats := (hr_stats r1)
                               \<lparr>ps_messages := ps_messages (hr_stats r1) + 1\<rparr>,
                             hr_buffer := move_front (hr_expected_size r1) remaining (hr_buffer r1),
                             hr_size := remaining, hr_expected_size := 0,
                             hr_have_expected_size := False\<rparr>
                 in if hr_size r2 \<ge> ho_header_size opts
                    then (case hp_try_emit fuel opts r2 of (r3, views) \<Rightarrow> (r3, view # views))
                    else (r2, [view])
            else (r1, []))"

definition hp_byte :: "hp_options \<Rightarrow> byte \<Rightarrow> hp_reader \<Rightarrow> hp_reader \<times> byte list list" where
  "hp_byte opts b r =
     (case hp_append b (r\<lparr>hr_stats := (hr_stats r)\<lparr>ps_bytes := ps_bytes (hr_stats r) + 1\<rparr>\<rparr>) of
        (ok, r1) \<Rightarrow> if ok then hp_try_emit (Suc (hr_size r1)) opts r1 else (r1, []))"

definition hp_poll ::
  "'w byte_stream \<Rightarrow> hp_options \<Rightarrow> (byte list \<Rightarrow> 'w \<Rightarrow> 'w) \<Rightarrow> hp_reader \<times> 'w
     \<Rightarrow> (hp_reader \<times> 'w) option" where
  "hp_poll st opts cb rw =
     (case rw of (r, w) \<Rightarrow>
        if \<not> hp_valid_options (length (hr_buffer r)) opts then Some (hp_error r, w)
        else poll_loop st (reader_step (hp_byte opts) cb) (r, w))"

subsection \<open>Fuel\<close>

text \<open>
  Any fuel above the buffered size gives the same result, so the bound passed by \<open>hp_byte\<close> never
  cuts the recursion short. What is needed is that an expected size, once computed, is not zero.
\<close>

definition hp_expected_ok :: "hp_options \<Rightarrow> hp_reader \<Rightarrow> bool" where
  "hp_expected_ok opts r \<longleftrightarrow>
     (hr_have_expected_size r \<longrightarrow> ho_header_size opts \<le> hr_expected_size r)"

lemma hp_try_emit_fuel:
  assumes "0 < ho_header_size opts" "hp_expected_ok opts r" "hr_size r < m" "hr_size r < n"
  shows "hp_try_emit m opts r = hp_try_emit n opts r"
  using assms(2-)
proof (induction m arbitrary: n r)
  case 0
  then show ?case by simp
next
  case (Suc m)
  then obtain k where n: "n = Suc k" by (cases n) auto
  have IH: "\<And>r'. \<not> hr_have_expected_size r' \<Longrightarrow> hr_size r' < hr_size r \<Longrightarrow>
      hp_try_emit m opts r' = hp_try_emit k opts r'"
    using Suc.IH [of _ k] Suc.prems n by (simp add: hp_expected_ok_def)
  show ?case
    unfolding n hp_try_emit.simps Let_def
    using Suc.prems assms(1)
    by (intro if_cong refl) (auto simp: IH hp_expected_ok_def split: option.splits)
qed

subsection \<open>Invariant\<close>

text \<open>Between two bytes the reader is short of a header, or short of an expected frame that fits.\<close>

definition hp_inv :: "hp_options \<Rightarrow> hp_reader \<Rightarrow> bool" where
  "hp_inv opts r \<longleftrightarrow>
     (if hr_have_expected_size r
      then ho_header_size opts \<le> hr_size r \<and> hr_size r < hr_expected_size r
           \<and> hr_expected_size r \<le> length (hr_buffer r)
      else hr_size r < ho_header_size opts)"

definition hp_pending :: "hp_reader \<Rightarrow> byte list" where
  "hp_pending r = take (hr_size r) (hr_buffer r)"

lemma hp_inv_init: "0 < ho_header_size opts \<Longrightarrow> hp_inv opts (hp_init n)"
  by (simp add: hp_inv_def hp_init_def)

lemma hp_inv_room:
  "hp_inv opts r \<Longrightarrow> ho_header_size opts \<le> length (hr_buffer r) \<Longrightarrow> hr_size r < length (hr_buffer r)"
  by (auto simp: hp_inv_def split: if_splits)

text \<open>The payload length the options compute for a header, when it is acceptable.\<close>

definition hp_frame_size :: "hp_options \<Rightarrow> byte list \<Rightarrow> nat option" where
  "hp_frame_size opts bytes =
     (case ho_payload_size opts of None \<Rightarrow> None
      | Some f \<Rightarrow> let payload = f (take (ho_header_size opts) bytes)
          in if payload > ho_max_payload_size opts then None
             else Some (ho_header_size opts + payload))"

definition hp_counted :: "u32 \<Rightarrow> u32 \<Rightarrow> hp_reader \<Rightarrow> protocol_stats" where
  "hp_counted messages errors r = (hr_stats r)\<lparr>ps_bytes := ps_bytes (hr_stats r) + 1,
     ps_messages := ps_messages (hr_stats r) + messages,
     ps_protocol_errors := ps_protocol_errors (hr_stats r) + errors\<rparr>"

text \<open>One byte, on the list view: the four things that can happen.\<close>

lemma hp_byte_spec:
  assumes valid: "hp_valid_options (length (hr_buffer r)) opts"
    and inv: "hp_inv opts r" and hb: "hp_byte opts b r = (r', vs)"
    and exp: "hr_have_expected_size r \<longrightarrow> hp_frame_size opts (hp_pending r) = Some (hr_expected_size r)"
  defines "p \<equiv> hp_pending r @ [b]"
  shows "length (hr_buffer r') = length (hr_buffer r) \<and> hp_inv opts r' \<and>
    (hr_have_expected_size r' \<longrightarrow> hp_frame_size opts (hp_pending r') = Some (hr_expected_size r')) \<and>
    (if length p < ho_header_size opts
     then vs = [] \<and> hp_pending r' = p \<and> hr_stats r' = hp_counted 0 0 r
     else case hp_frame_size opts p of
       None \<Rightarrow> vs = [] \<and> hp_pending r' = [] \<and> hr_stats r' = hp_counted 0 1 r
     | Some n \<Rightarrow> if length p = n
         then vs = [p] \<and> hp_pending r' = [] \<and> hr_stats r' = hp_counted 1 0 r
         else vs = [] \<and> hp_pending r' = p \<and> hr_stats r' = hp_counted 0 0 r)"
proof -
  let ?h = "ho_header_size opts"
  let ?r1 = "r\<lparr>hr_stats := (hr_stats r)\<lparr>ps_bytes := ps_bytes (hr_stats r) + 1\<rparr>,
    hr_buffer := (hr_buffer r)[hr_size r := b], hr_size := Suc (hr_size r)\<rparr>"
  from valid obtain f where f: "ho_payload_size opts = Some f" and h: "0 < ?h"
    and hB: "?h \<le> length (hr_buffer r)"
    and mB: "?h + ho_max_payload_size opts \<le> length (hr_buffer r)"
    by (auto simp: hp_valid_options_def)
  have room: "hr_size r < length (hr_buffer r)" using hp_inv_room [OF inv hB] .
  then have p: "p = take (Suc (hr_size r)) ((hr_buffer r)[hr_size r := b])" and lp: "length p = Suc (hr_size r)"
    by (simp_all add: p_def hp_pending_def)
  have head: "?h \<le> Suc (hr_size r) \<Longrightarrow> take ?h ((hr_buffer r)[hr_size r := b]) = take ?h p"
    by (simp add: p min_def)
  have step: "(r', vs) = hp_try_emit (Suc (Suc (hr_size r))) opts ?r1"
    using hb room by (simp add: hp_byte_def hp_append_def del: hp_try_emit.simps)
  have same: "hr_have_expected_size r \<Longrightarrow> hp_frame_size opts p = Some (hr_expected_size r)"
    using exp inv f by (auto simp: p_def hp_frame_size_def hp_inv_def hp_pending_def min_def)
  consider (short) "Suc (hr_size r) < ?h" | (known) "\<not> Suc (hr_size r) < ?h" "hr_have_expected_size r"
    | (fresh) "Suc (hr_size r) = ?h" "\<not> hr_have_expected_size r"
  proof -
    from inv have "hr_have_expected_size r \<Longrightarrow> \<not> Suc (hr_size r) < ?h"
      and "\<not> hr_have_expected_size r \<Longrightarrow> Suc (hr_size r) < ?h \<or> Suc (hr_size r) = ?h"
      by (auto simp: hp_inv_def)
    then show thesis using that by blast
  qed
  then show ?thesis
  proof cases
    case short
    then have "\<not> hr_have_expected_size r" using inv by (auto simp: hp_inv_def)
    with short step p lp show ?thesis
      by (simp add: hp_inv_def hp_pending_def hp_counted_def)
  next
    case known
    then have le: "Suc (hr_size r) \<le> hr_expected_size r" "hr_expected_size r \<le> length (hr_buffer r)"
      using inv by (auto simp: hp_inv_def)
    from known step p lp same le h f show ?thesis
      by (cases "Suc (hr_size r) = hr_expected_size r")
        (auto simp: hp_inv_def hp_pending_def hp_counted_def move_front_def Let_def)
  next
    case fresh
    let ?q = "f (take ?h p)"
    have B: "?q \<le> ho_max_payload_size opts \<Longrightarrow> \<not> ?h + ?q > length (hr_buffer r)"
      using mB by simp
    show ?thesis
    proof (cases "?q > ho_max_payload_size opts")
      case True
      with fresh step f have "r' = hp_reset (hp_error ?r1) \<and> vs = []"
        by (simp add: head)
      with True fresh lp f h show ?thesis
        by (simp add: hp_frame_size_def hp_inv_def hp_pending_def hp_counted_def
            hp_reset_def hp_error_def)
    next
      case False
      then have fs: "hp_frame_size opts p = Some (?h + ?q)" by (simp add: hp_frame_size_def f Let_def)
      show ?thesis
      proof (cases "?q = 0")
        case True
        with fresh False B fs step lp f h show ?thesis
          by (simp add: head Let_def hp_inv_def hp_pending_def hp_counted_def move_front_def)
      next
        case q: False
        with fresh False B fs step lp f h hB show ?thesis
          by (simp add: head Let_def hp_inv_def hp_pending_def hp_counted_def)
      qed
    qed
  qed
qed

subsection \<open>Streams of frames\<close>

text \<open>A frame is a header and the payload its own bytes announce, within the options' limit.\<close>

definition hp_frame :: "hp_options \<Rightarrow> byte list \<Rightarrow> bool" where
  "hp_frame opts f \<longleftrightarrow> hp_frame_size opts f = Some (length f)"

text \<open>The reader's state between bytes, as far as the options and pending bytes determine it.\<close>

definition hp_ready :: "hp_options \<Rightarrow> hp_reader \<Rightarrow> bool" where
  "hp_ready opts r \<longleftrightarrow> hp_valid_options (length (hr_buffer r)) opts \<and> hp_inv opts r \<and>
     (hr_have_expected_size r \<longrightarrow> hp_frame_size opts (hp_pending r) = Some (hr_expected_size r))"

lemma hp_frame_size_prefix:
  "ho_header_size opts \<le> length p \<Longrightarrow> hp_frame_size opts (p @ q) = hp_frame_size opts p"
  by (simp add: hp_frame_size_def split: option.split)

lemma hp_frame_header: "hp_frame opts f \<Longrightarrow> ho_header_size opts \<le> length f"
  by (auto simp: hp_frame_def hp_frame_size_def Let_def split: option.splits if_splits)

lemma hp_ready_pending_length: "hp_ready opts r \<Longrightarrow> length (hp_pending r) = hr_size r"
  using hp_inv_room [of opts r]
  by (auto simp: hp_ready_def hp_pending_def hp_valid_options_def)

lemma hp_ready_byte:
  assumes "hp_ready opts r" "hp_byte opts b r = (r', vs)"
  shows "hp_ready opts r'"
  using assms hp_byte_spec [of r opts b r' vs] by (auto simp: hp_ready_def)

lemma hp_feed_prefix:
  assumes r: "hp_ready opts r" "hp_pending r = []"
    and frame: "hp_frame opts (p @ q)" "q \<noteq> []"
  shows "\<exists>r'. feed (hp_byte opts) p r = (r', []) \<and> hp_ready opts r' \<and> hp_pending r' = p
    \<and> length (hr_buffer r') = length (hr_buffer r)"
  using frame
proof (induction p arbitrary: q rule: rev_induct)
  case Nil
  with r show ?case by simp
next
  case (snoc b p)
  from snoc.IH [of "b # q"] snoc.prems obtain r1 where
    f: "feed (hp_byte opts) p r = (r1, [])" and r1: "hp_ready opts r1" "hp_pending r1 = p"
    "length (hr_buffer r1) = length (hr_buffer r)" by auto
  obtain r2 vs where b: "hp_byte opts b r1 = (r2, vs)" by fastforce
  have "ho_header_size opts \<le> length (p @ [b]) \<Longrightarrow>
      hp_frame_size opts (p @ [b]) = Some (length (p @ [b]) + length q)"
    using snoc.prems(1) hp_frame_size_prefix [of opts "p @ [b]" q] by (simp add: hp_frame_def)
  with hp_byte_spec [OF _ _ b] r1 snoc.prems(2)
  have "vs = [] \<and> hp_pending r2 = p @ [b] \<and> length (hr_buffer r2) = length (hr_buffer r)"
    by (auto simp: hp_ready_def split: if_splits)
  with hp_ready_byte [OF r1(1) b] feed_append_eq [OF f, of "[b]"] b show ?case
    by simp
qed

lemma hp_feed_frame:
  assumes r: "hp_ready opts r" "hp_pending r = []" and frame: "hp_frame opts f"
  shows "\<exists>r'. feed (hp_byte opts) f r = (r', [f]) \<and> hp_ready opts r' \<and> hp_pending r' = []
    \<and> length (hr_buffer r') = length (hr_buffer r)"
proof -
  have "0 < ho_header_size opts" using r by (simp add: hp_ready_def hp_valid_options_def)
  then obtain p b where f: "f = p @ [b]"
    using hp_frame_header [OF frame] by (cases f rule: rev_cases) auto
  from hp_feed_prefix [OF r, of p "[b]"] frame f obtain r1 where
    g: "feed (hp_byte opts) p r = (r1, [])" and r1: "hp_ready opts r1" "hp_pending r1 = p"
    "length (hr_buffer r1) = length (hr_buffer r)" by auto
  obtain r2 vs where b: "hp_byte opts b r1 = (r2, vs)" by fastforce
  from hp_byte_spec [OF _ _ b] r1 frame f hp_frame_header [OF frame]
  have "vs = [f] \<and> hp_pending r2 = [] \<and> length (hr_buffer r2) = length (hr_buffer r)"
    by (auto simp: hp_ready_def hp_frame_def)
  with hp_ready_byte [OF r1(1) b] feed_append_eq [OF g, of "[b]"] b f show ?thesis
    by simp
qed

lemma hp_feed_frames:
  assumes "hp_ready opts r" "hp_pending r = []" "\<forall>f \<in> set fs. hp_frame opts f"
    "hp_frame opts (p @ q)" "q \<noteq> []"
  shows "\<exists>r'. feed (hp_byte opts) (concat fs @ p) r = (r', fs) \<and> hp_ready opts r'
    \<and> hp_pending r' = p"
  using assms
proof (induction fs arbitrary: r)
  case Nil
  then show ?case using hp_feed_prefix [of opts r p q] by auto
next
  case (Cons f fs)
  from hp_feed_frame [of opts r f] Cons.prems obtain r1 where
    f: "feed (hp_byte opts) f r = (r1, [f])" and r1: "hp_ready opts r1" "hp_pending r1 = []" by auto
  from Cons.IH [OF r1] Cons.prems obtain r2 where
    g: "feed (hp_byte opts) (concat fs @ p) r1 = (r2, fs)" "hp_ready opts r2" "hp_pending r2 = p"
    by auto
  from feed_append_eq [OF f g(1)] g show ?case by simp
qed

text \<open>No reachable state lets a byte overflow the buffer, so the overflow counter never moves.\<close>

lemma hp_feed_no_overflow:
  assumes "hp_ready opts r" "feed (hp_byte opts) bs r = (r', vs)"
  shows "hp_ready opts r' \<and> ps_overflows (hr_stats r') = ps_overflows (hr_stats r)
    \<and> length (hr_buffer r') = length (hr_buffer r)
    \<and> (\<forall>v \<in> set vs. hp_frame opts v \<and> length v \<le> length (hr_buffer r))"
  using assms
proof (induction bs arbitrary: r vs)
  case Nil
  then show ?case by simp
next
  case (Cons b bs)
  obtain r1 us where b: "hp_byte opts b r = (r1, us)" by fastforce
  obtain ws where f: "feed (hp_byte opts) bs r1 = (r', ws)" and vs: "vs = us @ ws"
    using Cons.prems(2) b by (auto split: prod.splits)
  from Cons.prems(1) have room: "Suc (hr_size r) \<le> length (hr_buffer r)"
    using hp_inv_room [of opts r] by (auto simp: hp_ready_def hp_valid_options_def)
  from hp_byte_spec [OF _ _ b] Cons.prems(1)
  have "ps_overflows (hr_stats r1) = ps_overflows (hr_stats r)
    \<and> length (hr_buffer r1) = length (hr_buffer r)
    \<and> (us = [] \<or> us = [hp_pending r @ [b]] \<and> hp_frame opts (hp_pending r @ [b]))"
    by (auto simp: hp_ready_def hp_frame_def hp_counted_def split: if_splits option.splits)
  with Cons.IH [OF hp_ready_byte [OF Cons.prems(1) b] f] vs room
    hp_ready_pending_length [OF Cons.prems(1)]
  show ?case by auto
qed

end
