(* ===== verification/Json_Number.thy ===== *)
theory Json_Number
  imports Protocol_Common
begin

text \<open>
  The byte classes and the number check of \<open>JsonProtocolReader\<close>
  (\<^verbatim>\<open>src/async_event_loop/protocol_reader.hpp\<close>), and the number grammar of JSON the check is
  compared with.
\<close>

definition is_ws :: "byte \<Rightarrow> bool" where
  "is_ws c \<longleftrightarrow> c = chr_space \<or> c = chr_tab \<or> c = chr_cr \<or> c = chr_lf"

definition is_digit :: "byte \<Rightarrow> bool" where
  "is_digit c \<longleftrightarrow> c \<ge> chr_0 \<and> c \<le> chr_9"

definition is_nonzero_digit :: "byte \<Rightarrow> bool" where
  "is_nonzero_digit c \<longleftrightarrow> c \<ge> chr_1 \<and> c \<le> chr_9"

definition is_number_byte :: "byte \<Rightarrow> bool" where
  "is_number_byte c \<longleftrightarrow>
     is_digit c \<or> c = chr_minus \<or> c = chr_plus \<or> c = chr_dot \<or> c = chr_e \<or> c = chr_E"

text \<open>\<^verbatim>\<open>while (i < len && is_digit(text[i])) ++i;\<close>\<close>

function skip_digits :: "byte list \<Rightarrow> nat \<Rightarrow> nat" where
  "skip_digits tx i =
     (if i < length tx \<and> is_digit (tx ! i) then skip_digits tx (Suc i) else i)"
  by pat_completeness auto
termination
  by (relation "measure (\<lambda>(tx, i). length tx - i)") auto

declare skip_digits.simps [simp del]

text \<open>The check, in its three stages: integer part, fraction, exponent.\<close>

definition valid_exponent :: "byte list \<Rightarrow> nat \<Rightarrow> bool" where
  "valid_exponent tx i =
     (let len = length tx in
      if i < len \<and> (tx ! i = chr_e \<or> tx ! i = chr_E)
      then let j = i + 1;
               k = (if j < len \<and> (tx ! j = chr_plus \<or> tx ! j = chr_minus) then j + 1 else j)
           in if k = len \<or> \<not> is_digit (tx ! k) then False
              else skip_digits tx k = len
      else i = len)"

definition valid_fraction :: "byte list \<Rightarrow> nat \<Rightarrow> bool" where
  "valid_fraction tx i =
     (let len = length tx in
      if i < len \<and> tx ! i = chr_dot
      then if i + 1 = len \<or> \<not> is_digit (tx ! (i + 1)) then False
           else valid_exponent tx (skip_digits tx (i + 1))
      else valid_exponent tx i)"

definition valid_number :: "byte list \<Rightarrow> bool" where
  "valid_number tx =
     (let len = length tx in
      if len = 0 then False
      else if tx ! 0 = chr_minus \<and> 1 = len then False
      else let i = (if tx ! 0 = chr_minus then 1 else 0)
           in if tx ! i = chr_0 then valid_fraction tx (i + 1)
              else if is_nonzero_digit (tx ! i) then valid_fraction tx (skip_digits tx i)
              else False)"

section \<open>The number grammar\<close>

definition digits :: "byte list \<Rightarrow> bool" where
  "digits ds \<longleftrightarrow> ds \<noteq> [] \<and> (\<forall>d \<in> set ds. is_digit d)"

definition json_int :: "byte list \<Rightarrow> bool" where
  "json_int t \<longleftrightarrow> t = [chr_0] \<or>
     (\<exists>d ds. t = d # ds \<and> is_nonzero_digit d \<and> (\<forall>x \<in> set ds. is_digit x))"

definition json_frac :: "byte list \<Rightarrow> bool" where
  "json_frac t \<longleftrightarrow> t = [] \<or> (\<exists>ds. t = chr_dot # ds \<and> digits ds)"

definition json_exp :: "byte list \<Rightarrow> bool" where
  "json_exp t \<longleftrightarrow> t = [] \<or>
     (\<exists>e sg ds. t = e # sg @ ds \<and> (e = chr_e \<or> e = chr_E) \<and>
        (sg = [] \<or> sg = [chr_plus] \<or> sg = [chr_minus]) \<and> digits ds)"

definition json_number :: "byte list \<Rightarrow> bool" where
  "json_number t \<longleftrightarrow> (\<exists>sg n f e. t = sg @ n @ f @ e \<and> (sg = [] \<or> sg = [chr_minus]) \<and>
     json_int n \<and> json_frac f \<and> json_exp e)"

section \<open>The check on suffixes\<close>

lemma digit_facts [simp]:
  "\<not> is_digit chr_dot" "\<not> is_digit chr_e" "\<not> is_digit chr_E" "\<not> is_digit chr_plus"
  "\<not> is_digit chr_minus" "is_digit chr_0" "\<not> is_nonzero_digit chr_0"
  "\<not> is_nonzero_digit chr_minus"
  by (simp_all add: is_digit_def is_nonzero_digit_def)

lemma nonzero_digit: "is_nonzero_digit c \<Longrightarrow> is_digit c"
  unfolding is_nonzero_digit_def is_digit_def
  using order_trans [of chr_0 chr_1 c] by simp

lemma skip_digits_eq:
  "skip_digits tx i = i + length (takeWhile is_digit (drop i tx))"
proof (induction tx i rule: skip_digits.induct)
  case (1 tx i)
  show ?case
  proof (cases "i < length tx")
    case True
    with "1.IH" show ?thesis
      by (simp add: skip_digits.simps [of tx i] Cons_nth_drop_Suc [symmetric, of i])
  next
    case False
    then show ?thesis by (simp add: skip_digits.simps [of tx i])
  qed
qed

lemma skip_digits_append:
  "drop i tx = u \<Longrightarrow> i \<le> length tx \<Longrightarrow>
   drop (skip_digits tx i) tx = dropWhile is_digit u"
  by (auto simp: skip_digits_eq dropWhile_eq_drop add.commute)

lemma skip_digits_le: "i \<le> length tx \<Longrightarrow> skip_digits tx i \<le> length tx"
  using length_takeWhile_le [of is_digit "drop i tx"] by (simp add: skip_digits_eq)

text \<open>The same check by recursion on the remaining bytes.\<close>

definition exp_tail :: "byte list \<Rightarrow> bool" where
  "exp_tail u \<longleftrightarrow> (case u of [] \<Rightarrow> True
     | c # v \<Rightarrow> (c = chr_e \<or> c = chr_E) \<and>
         (let v' = (case v of s # q \<Rightarrow> if s = chr_plus \<or> s = chr_minus then q else v | [] \<Rightarrow> [])
          in v' \<noteq> [] \<and> (\<forall>d \<in> set v'. is_digit d)))"

definition frac_tail :: "byte list \<Rightarrow> bool" where
  "frac_tail u \<longleftrightarrow> (case u of [] \<Rightarrow> True
     | c # v \<Rightarrow> if c = chr_dot then v \<noteq> [] \<and> is_digit (hd v) \<and> exp_tail (dropWhile is_digit v)
                else exp_tail u)"

lemma skip_to_end:
  assumes "i \<le> length tx"
  shows "skip_digits tx i = length tx \<longleftrightarrow> (\<forall>d \<in> set (drop i tx). is_digit d)"
proof -
  have "skip_digits tx i = length tx \<longleftrightarrow> dropWhile is_digit (drop i tx) = []"
    using skip_digits_append [OF refl assms] skip_digits_le [OF assms]
    by (metis drop_eq_Nil le_antisym order_refl)
  then show ?thesis by (simp add: dropWhile_eq_Nil_conv)
qed

lemma nth_drop_Cons: "drop i tx = c # v \<Longrightarrow> i < length tx \<and> tx ! i = c \<and> drop (Suc i) tx = v"
  by (metis drop_Suc drop_eq_Nil hd_drop_conv_nth list.distinct(1) list.sel(1,3) not_le tl_drop)

lemma valid_exponent_tail:
  assumes "i \<le> length tx"
  shows "valid_exponent tx i \<longleftrightarrow> exp_tail (drop i tx)"
proof (cases "drop i tx")
  case Nil
  with assms show ?thesis by (simp add: valid_exponent_def exp_tail_def)
next
  case (Cons c v)
  note i = nth_drop_Cons [OF Cons]
  show ?thesis
  proof (cases v)
    case Nil
    with i have "Suc i = length tx" by simp
    with i Cons Nil show ?thesis by (simp add: valid_exponent_def exp_tail_def Let_def)
  next
    case (Cons s q)
    with i have j: "Suc i < length tx" "tx ! Suc i = s" "drop (Suc (Suc i)) tx = q"
      using nth_drop_Cons [of "Suc i" tx s q] by auto
    have q: "Suc (Suc i) = length tx \<longleftrightarrow> q = []"
      "q \<noteq> [] \<Longrightarrow> tx ! Suc (Suc i) = hd q"
      using j by (auto simp: hd_drop_conv_nth)
    have d: "drop (Suc i) tx = s # q" using i Cons by simp
    show ?thesis
      using i j q d Cons \<open>drop i tx = c # v\<close>
        skip_to_end [of "Suc i" tx] skip_to_end [of "Suc (Suc i)" tx]
      by (cases q) (auto simp: valid_exponent_def exp_tail_def Let_def)
  qed
qed

lemma valid_fraction_tail:
  assumes "i \<le> length tx"
  shows "valid_fraction tx i \<longleftrightarrow> frac_tail (drop i tx)"
proof (cases "drop i tx")
  case Nil
  with assms show ?thesis
    by (simp add: valid_fraction_def frac_tail_def valid_exponent_tail exp_tail_def)
next
  case (Cons c v)
  note i = nth_drop_Cons [OF Cons]
  then have "Suc i \<le> length tx" by simp
  note sk = skip_digits_append [OF _ this, of v] valid_exponent_tail [OF skip_digits_le [OF this]]
  have "Suc i = length tx \<longleftrightarrow> v = []" "v \<noteq> [] \<Longrightarrow> tx ! Suc i = hd v"
    using i by (auto simp: hd_drop_conv_nth)
  with i Cons sk assms show ?thesis
    by (auto simp: valid_fraction_def frac_tail_def valid_exponent_tail Let_def)
qed

lemma valid_number_tail:
  "valid_number tx \<longleftrightarrow>
     (let u = (case tx of c # v \<Rightarrow> if c = chr_minus then v else tx | [] \<Rightarrow> [])
      in case u of [] \<Rightarrow> False
         | d # v \<Rightarrow> if d = chr_0 then frac_tail v
                    else is_nonzero_digit d \<and> frac_tail (dropWhile is_digit v))"
proof (cases tx)
  case Nil
  then show ?thesis by (simp add: valid_number_def)
next
  case (Cons c v)
  have dig: "i \<le> length tx \<Longrightarrow> drop i tx = d # w \<Longrightarrow> is_nonzero_digit d \<Longrightarrow>
      valid_fraction tx (skip_digits tx i) \<longleftrightarrow> frac_tail (dropWhile is_digit w)" for i d w
    using valid_fraction_tail [OF skip_digits_le] skip_digits_append [OF _, of i tx "d # w"]
    by (simp add: nonzero_digit)
  show ?thesis
  proof (cases "c = chr_minus")
    case True
    then show ?thesis
      using Cons dig [of 1] valid_fraction_tail [of 2 tx]
      by (cases v) (auto simp: valid_number_def Let_def numeral_2_eq_2)
  next
    case False
    then show ?thesis
      using Cons dig [of 0] valid_fraction_tail [of 1 tx]
      by (auto simp: valid_number_def Let_def)
  qed
qed

section \<open>The check is the grammar\<close>

lemma exp_tail_iff: "exp_tail u \<longleftrightarrow> json_exp u"
proof
  assume e: "exp_tail u"
  show "json_exp u"
  proof (cases u)
    case Nil
    then show ?thesis by (simp add: json_exp_def)
  next
    case (Cons c v)
    show ?thesis
    proof (cases "v \<noteq> [] \<and> (hd v = chr_plus \<or> hd v = chr_minus)")
      case True
      then obtain s q where "v = s # q" "s = chr_plus \<or> s = chr_minus" by (cases v) auto
      with e Cons show ?thesis
        unfolding json_exp_def digits_def
        by (intro disjI2 exI [of _ c] exI [of _ "[s]"] exI [of _ q])
          (auto simp: exp_tail_def Let_def)
    next
      case False
      with e Cons show ?thesis
        unfolding json_exp_def digits_def
        by (intro disjI2 exI [of _ c] exI [of _ "[]"] exI [of _ v])
          (auto simp: exp_tail_def Let_def split: list.splits)
    qed
  qed
next
  assume "json_exp u"
  then show "exp_tail u"
    by (auto simp: json_exp_def exp_tail_def digits_def Let_def split: list.splits)
qed

lemma digits_split:
  "ds \<noteq> [] \<and> (\<forall>d \<in> set ds. is_digit d) \<and> (r = [] \<or> \<not> is_digit (hd r)) \<Longrightarrow>
   dropWhile is_digit (ds @ r) = r"
  by (cases r) (auto simp: dropWhile_append)

lemma exp_head: "json_exp e \<Longrightarrow> e = [] \<or> \<not> is_digit (hd e) \<and> hd e \<noteq> chr_dot"
  by (auto simp: json_exp_def)

lemma frac_tail_iff: "frac_tail u \<longleftrightarrow> (\<exists>f e. u = f @ e \<and> json_frac f \<and> json_exp e)"
proof
  assume f: "frac_tail u"
  show "\<exists>f e. u = f @ e \<and> json_frac f \<and> json_exp e"
  proof (cases "u \<noteq> [] \<and> hd u = chr_dot")
    case True
    then obtain v where u: "u = chr_dot # v" by (cases u) auto
    let ?ds = "takeWhile is_digit v" and ?e = "dropWhile is_digit v"
    from f u have "v \<noteq> []" "is_digit (hd v)" "json_exp ?e"
      by (auto simp: frac_tail_def exp_tail_iff)
    then have "digits ?ds" by (cases v) (auto simp: digits_def dest: set_takeWhileD)
    with u \<open>json_exp ?e\<close> show ?thesis
      by (intro exI [of _ "chr_dot # ?ds"] exI [of _ ?e]) (simp add: json_frac_def)
  next
    case False
    with f have "json_exp u" by (cases u) (auto simp: frac_tail_def json_exp_def exp_tail_iff)
    then show ?thesis by (intro exI [of _ "[]"] exI [of _ u]) (simp add: json_frac_def)
  qed
next
  assume "\<exists>f e. u = f @ e \<and> json_frac f \<and> json_exp e"
  then obtain f e where u: "u = f @ e" and f: "json_frac f" and e: "json_exp e" by blast
  show "frac_tail u"
  proof (cases f)
    case Nil
    with u e exp_head [OF e] show ?thesis
      by (cases e) (auto simp: frac_tail_def exp_tail_iff)
  next
    case (Cons c ds)
    with f have c: "c = chr_dot" "digits ds" by (auto simp: json_frac_def)
    with digits_split [of ds e] exp_head [OF e] have "dropWhile is_digit (ds @ e) = e"
      by (auto simp: digits_def)
    with u Cons c e show ?thesis
      by (cases ds) (auto simp: frac_tail_def digits_def exp_tail_iff)
  qed
qed

lemma frac_head:
  "json_frac f \<Longrightarrow> json_exp e \<Longrightarrow> f @ e = [] \<or> \<not> is_digit (hd (f @ e))"
  using exp_head [of e] by (auto simp: json_frac_def)

lemma unsigned_iff:
  "(case u of [] \<Rightarrow> False
     | d # v \<Rightarrow> if d = chr_0 then frac_tail v
                else is_nonzero_digit d \<and> frac_tail (dropWhile is_digit v))
   \<longleftrightarrow> (\<exists>n f e. u = n @ f @ e \<and> json_int n \<and> json_frac f \<and> json_exp e)" (is "?L = ?R")
proof
  assume L: ?L
  then obtain d v where u: "u = d # v" by (cases u) auto
  show ?R
  proof (cases "d = chr_0")
    case True
    with L u obtain f e where "v = f @ e" "json_frac f" "json_exp e"
      by (auto simp: frac_tail_iff)
    with u True show ?thesis
      by (intro exI [of _ "[chr_0]"] exI [of _ f] exI [of _ e]) (simp add: json_int_def)
  next
    case False
    with L u obtain f e where d: "is_nonzero_digit d" and
      v: "dropWhile is_digit v = f @ e" "json_frac f" "json_exp e"
      by (auto simp: frac_tail_iff)
    have "u = (d # takeWhile is_digit v) @ f @ e" 
      unfolding v(1) [symmetric] by (simp add: u)
    moreover have "json_int (d # takeWhile is_digit v)"
      using d by (auto simp: json_int_def dest: set_takeWhileD)
    ultimately show ?thesis using v(2,3) by blast
  qed
next
  assume ?R
  then obtain n f e where u: "u = n @ f @ e" and n: "json_int n" and f: "json_frac f"
    and e: "json_exp e" by blast
  have tail: "frac_tail (f @ e)" using f e by (auto simp: frac_tail_iff)
  from n consider "n = [chr_0]" | d ds where "n = d # ds" "is_nonzero_digit d" "\<forall>x \<in> set ds. is_digit x"
    by (auto simp: json_int_def)
  then show ?L
  proof cases
    case 1
    with u tail show ?thesis by simp
  next
    case (2 d ds)
    then have "d \<noteq> chr_0" by auto
    moreover have "dropWhile is_digit (ds @ f @ e) = f @ e"
      using 2(3) frac_head [OF f e] by (cases "f @ e") (auto simp: dropWhile_append)
    ultimately show ?thesis using u 2 tail by simp
  qed
qed

lemma json_int_head: "json_int n \<Longrightarrow> n \<noteq> [] \<and> hd n \<noteq> chr_minus"
  by (auto simp: json_int_def)

lemma json_number_signed:
  "json_number t \<longleftrightarrow> (\<exists>n f e. (case t of c # v \<Rightarrow> if c = chr_minus then v else t | [] \<Rightarrow> [])
     = n @ f @ e \<and> json_int n \<and> json_frac f \<and> json_exp e)"
proof (cases t)
  case Nil
  then show ?thesis using json_int_head by (auto simp: json_number_def)
next
  case (Cons c v)
  show ?thesis
  proof (cases "c = chr_minus")
    case True
    have "json_number (chr_minus # v) \<longleftrightarrow>
        (\<exists>n f e. v = n @ f @ e \<and> json_int n \<and> json_frac f \<and> json_exp e)" (is "?L \<longleftrightarrow> ?R")
    proof
      assume ?L
      then obtain sg n f e where t: "chr_minus # v = sg @ n @ f @ e" "sg = [] \<or> sg = [chr_minus]"
        "json_int n" "json_frac f" "json_exp e"
        by (auto simp: json_number_def)
      moreover have "sg \<noteq> []"
        using t(1) json_int_head [OF t(3)] by (cases n) auto
      ultimately show ?R by auto
    next
      assume ?R
      then show ?L unfolding json_number_def by (metis append_Cons append_Nil)
    qed
    with Cons True show ?thesis by simp
  next
    case False
    have "json_number t \<longleftrightarrow> (\<exists>n f e. t = n @ f @ e \<and> json_int n \<and> json_frac f \<and> json_exp e)"
    proof
      assume "json_number t"
      then obtain sg n f e where t: "t = sg @ n @ f @ e" "sg = [] \<or> sg = [chr_minus]"
        and p: "json_int n" "json_frac f" "json_exp e"
        by (auto simp: json_number_def)
      from t Cons False have "t = n @ f @ e" by auto
      with p show "\<exists>n f e. t = n @ f @ e \<and> json_int n \<and> json_frac f \<and> json_exp e" by blast
    next
      assume "\<exists>n f e. t = n @ f @ e \<and> json_int n \<and> json_frac f \<and> json_exp e"
      then show "json_number t" unfolding json_number_def by (metis append_Nil)
    qed
    with Cons False show ?thesis by simp
  qed
qed

lemma valid_number_grammar: "valid_number t \<longleftrightarrow> json_number t"
  unfolding valid_number_tail Let_def unsigned_iff json_number_signed ..

end
