(* ===== verification/Json_Reader.thy ===== *)
theory Json_Reader
  imports Json_Number
begin

text \<open>
  \<open>JsonProtocolReader\<close> of \<^verbatim>\<open>src/async_event_loop/protocol_reader.hpp\<close>: frames complete JSON values
  in a fixed buffer without parsing them into a document. The template parameter \<open>BufferSize\<close> is
  the length of \<open>js_buffer\<close> and of \<open>js_stack\<close>. An operation returns the views it hands to the
  callback along with the new reader.
\<close>

datatype json_state = Idle | Container | StringValue | NumberValue | LiteralValue

record json_reader =
  js_skip_ws :: bool
  js_buffer :: "byte list"
  js_stack :: "byte list"
  js_size :: nat
  js_depth :: nat
  js_in_string :: bool
  js_escape :: bool
  js_literal :: "byte list option"
  js_literal_pos :: nat
  js_state :: json_state
  js_stats :: protocol_stats

definition json_init :: "bool \<Rightarrow> nat \<Rightarrow> json_reader" where
  "json_init skip_ws buffer_size =
     \<lparr>js_skip_ws = skip_ws, js_buffer = replicate buffer_size 0, js_stack = replicate buffer_size 0,
      js_size = 0, js_depth = 0, js_in_string = False, js_escape = False, js_literal = None,
      js_literal_pos = 0, js_state = Idle, js_stats = stats_init\<rparr>"

definition json_reset :: "json_reader \<Rightarrow> json_reader" where
  "json_reset r = r\<lparr>js_state := Idle, js_size := 0, js_depth := 0, js_in_string := False,
     js_escape := False, js_literal := None, js_literal_pos := 0\<rparr>"

definition json_overflow :: "json_reader \<Rightarrow> json_reader" where
  "json_overflow r =
     json_reset (r\<lparr>js_stats := (js_stats r)\<lparr>ps_overflows := ps_overflows (js_stats r) + 1\<rparr>\<rparr>)"

definition json_error :: "json_reader \<Rightarrow> json_reader" where
  "json_error r =
     json_reset (r\<lparr>js_stats := (js_stats r)\<lparr>ps_protocol_errors := ps_protocol_errors (js_stats r) + 1\<rparr>\<rparr>)"

definition json_append :: "byte \<Rightarrow> json_reader \<Rightarrow> bool \<times> json_reader" where
  "json_append c r =
     (if js_size r \<ge> length (js_buffer r) then (False, json_overflow r)
      else (True, r\<lparr>js_buffer := (js_buffer r)[js_size r := c], js_size := js_size r + 1\<rparr>))"

definition json_push :: "byte \<Rightarrow> json_reader \<Rightarrow> bool \<times> json_reader" where
  "json_push c r =
     (if js_depth r \<ge> length (js_stack r) then (False, json_overflow r)
      else (True, r\<lparr>js_stack := (js_stack r)[js_depth r := c], js_depth := js_depth r + 1\<rparr>))"

definition json_pop :: "byte \<Rightarrow> json_reader \<Rightarrow> bool \<times> json_reader" where
  "json_pop c r =
     (if js_depth r = 0 then (False, json_error r)
      else let opening = js_stack r ! (js_depth r - 1)
           in if (opening = chr_lbrace \<and> c \<noteq> chr_rbrace) \<or> (opening = chr_lbracket \<and> c \<noteq> chr_rbracket)
              then (False, json_error r)
              else (True, r\<lparr>js_depth := js_depth r - 1\<rparr>))"

definition json_emit :: "json_reader \<Rightarrow> json_reader \<times> byte list list" where
  "json_emit r =
     (json_reset (r\<lparr>js_stats := (js_stats r)\<lparr>ps_messages := ps_messages (js_stats r) + 1\<rparr>\<rparr>),
      [take (js_size r) (js_buffer r)])"

text \<open>A literal is a C string: reading at its length gives the terminating zero byte.\<close>

definition c_char :: "byte list \<Rightarrow> nat \<Rightarrow> byte" where
  "c_char lit i = (if i < length lit then lit ! i else 0)"

definition json_consume_literal :: "byte \<Rightarrow> json_reader \<Rightarrow> json_reader \<times> byte list list" where
  "json_consume_literal c r =
     (case js_literal r of
        None \<Rightarrow> (json_error r, [])
      | Some lit \<Rightarrow>
          if c_char lit (js_literal_pos r) = 0 \<or> c_char lit (js_literal_pos r) \<noteq> c
          then (json_error r, [])
          else case json_append c r of
                 (False, r1) \<Rightarrow> (r1, [])
               | (True, r1) \<Rightarrow>
                   let r2 = r1\<lparr>js_literal_pos := js_literal_pos r1 + 1\<rparr>
                   in if c_char lit (js_literal_pos r2) = 0 then json_emit r2 else (r2, []))"

definition json_start_literal :: "byte list \<Rightarrow> byte \<Rightarrow> json_reader \<Rightarrow> json_reader \<times> byte list list" where
  "json_start_literal lit c r =
     json_consume_literal c (r\<lparr>js_literal := Some lit, js_literal_pos := 0, js_state := LiteralValue\<rparr>)"

definition lit_true :: "byte list" where "lit_true = [116, 114, 117, 101]"
definition lit_false :: "byte list" where "lit_false = [102, 97, 108, 115, 101]"
definition lit_null :: "byte list" where "lit_null = [110, 117, 108, 108]"

definition json_consume_idle :: "byte \<Rightarrow> json_reader \<Rightarrow> json_reader \<times> byte list list" where
  "json_consume_idle c r =
     (if js_skip_ws r \<and> is_ws c then (r, [])
      else if c = chr_lbrace \<or> c = chr_lbracket then
        (case json_append c r of
           (False, r1) \<Rightarrow> (r1, [])
         | (True, r1) \<Rightarrow>
             (case json_push c r1 of
                (False, r2) \<Rightarrow> (r2, [])
              | (True, r2) \<Rightarrow>
                  (r2\<lparr>js_state := Container, js_in_string := False, js_escape := False\<rparr>, [])))
      else if c = chr_quote then
        (case json_append c r of
           (False, r1) \<Rightarrow> (r1, [])
         | (True, r1) \<Rightarrow> (r1\<lparr>js_state := StringValue, js_escape := False\<rparr>, []))
      else if c = chr_minus \<or> is_digit c then
        (case json_append c r of
           (False, r1) \<Rightarrow> (r1, [])
         | (True, r1) \<Rightarrow> (r1\<lparr>js_state := NumberValue\<rparr>, []))
      else if c = chr_t then json_start_literal lit_true c r
      else if c = chr_f then json_start_literal lit_false c r
      else if c = chr_n then json_start_literal lit_null c r
      else (json_error r, []))"

definition json_consume_container :: "byte \<Rightarrow> json_reader \<Rightarrow> json_reader \<times> byte list list" where
  "json_consume_container c r =
     (case json_append c r of
        (False, r1) \<Rightarrow> (r1, [])
      | (True, r1) \<Rightarrow>
          if js_in_string r1 then
            (if js_escape r1 then (r1\<lparr>js_escape := False\<rparr>, [])
             else if c = chr_backslash then (r1\<lparr>js_escape := True\<rparr>, [])
             else if c = chr_quote then (r1\<lparr>js_in_string := False\<rparr>, [])
             else (r1, []))
          else if c = chr_quote then (r1\<lparr>js_in_string := True\<rparr>, [])
          else if c = chr_lbrace \<or> c = chr_lbracket then (snd (json_push c r1), [])
          else if c = chr_rbrace \<or> c = chr_rbracket then
            (case json_pop c r1 of
               (False, r2) \<Rightarrow> (r2, [])
             | (True, r2) \<Rightarrow> if js_depth r2 = 0 then json_emit r2 else (r2, []))
          else (r1, []))"

definition json_consume_string :: "byte \<Rightarrow> json_reader \<Rightarrow> json_reader \<times> byte list list" where
  "json_consume_string c r =
     (case json_append c r of
        (False, r1) \<Rightarrow> (r1, [])
      | (True, r1) \<Rightarrow>
          if js_escape r1 then (r1\<lparr>js_escape := False\<rparr>, [])
          else if c = chr_backslash then (r1\<lparr>js_escape := True\<rparr>, [])
          else if c = chr_quote then json_emit r1
          else (r1, []))"

text \<open>The part of \<open>consume_number_value\<close> before it passes the byte on: what ends the number.\<close>

definition json_finish_number :: "json_reader \<Rightarrow> json_reader \<times> byte list list" where
  "json_finish_number r =
     (if valid_number (take (js_size r) (js_buffer r)) then json_emit r else (json_error r, []))"

lemma json_state_after [simp]:
  "js_state (json_reset r) = Idle" "js_state (json_error r) = Idle"
  "js_state (json_overflow r) = Idle" "js_state (fst (json_emit r)) = Idle"
  "js_state (fst (json_finish_number r)) = Idle"
  by (simp_all add: json_reset_def json_error_def json_overflow_def json_emit_def
      json_finish_number_def)

text \<open>
  \<open>consume\<close>: the byte that ends a number is consumed again, by the state the reader is then in.
\<close>

function json_consume :: "byte \<Rightarrow> json_reader \<Rightarrow> json_reader \<times> byte list list" where
  "json_consume c r =
     (case js_state r of
        Idle \<Rightarrow> json_consume_idle c r
      | Container \<Rightarrow> json_consume_container c r
      | StringValue \<Rightarrow> json_consume_string c r
      | NumberValue \<Rightarrow>
          if is_number_byte c then (snd (json_append c r), [])
          else let (r1, vs) = json_finish_number r; (r2, vs') = json_consume c r1 in (r2, vs @ vs')
      | LiteralValue \<Rightarrow> json_consume_literal c r)"
  by pat_completeness auto
termination
proof (relation "measure (\<lambda>(c, r). if js_state r = NumberValue then 1 else 0)", goal_cases)
  case 1
  then show ?case by simp
next
  case (2 c r x xa y)
  then have "js_state xa = Idle" by (metis fst_conv json_state_after(5))
  with 2 show ?case by simp
qed

declare json_consume.simps [simp del]

lemma json_consume_state:
  "js_state r = Idle \<Longrightarrow> json_consume c r = json_consume_idle c r"
  "js_state r = Container \<Longrightarrow> json_consume c r = json_consume_container c r"
  "js_state r = StringValue \<Longrightarrow> json_consume c r = json_consume_string c r"
  "js_state r = LiteralValue \<Longrightarrow> json_consume c r = json_consume_literal c r"
  "js_state r = NumberValue \<Longrightarrow> is_number_byte c \<Longrightarrow> json_consume c r = (snd (json_append c r), [])"
  "js_state r = NumberValue \<Longrightarrow> \<not> is_number_byte c \<Longrightarrow> json_consume c r =
     (case json_finish_number r of (r1, vs) \<Rightarrow>
        case json_consume_idle c r1 of (r2, vs') \<Rightarrow> (r2, vs @ vs'))"
proof -
  have idle: "js_state r = Idle \<Longrightarrow> json_consume c r = json_consume_idle c r" for r
    by (simp add: json_consume.simps [of c r])
  show "js_state r = Idle \<Longrightarrow> json_consume c r = json_consume_idle c r" by (rule idle)
  show "js_state r = NumberValue \<Longrightarrow> \<not> is_number_byte c \<Longrightarrow> json_consume c r =
     (case json_finish_number r of (r1, vs) \<Rightarrow>
        case json_consume_idle c r1 of (r2, vs') \<Rightarrow> (r2, vs @ vs'))"
    using idle [of "fst (json_finish_number r)"]
    by (simp add: json_consume.simps [of c r] split_beta)
qed (simp_all add: json_consume.simps [of c r])

text \<open>One iteration of the loop in \<open>poll\<close>: \<open>++stats_.bytes; consume(byte)\<close>.\<close>

definition json_byte :: "byte \<Rightarrow> json_reader \<Rightarrow> json_reader \<times> byte list list" where
  "json_byte c r = json_consume c (r\<lparr>js_stats := (js_stats r)\<lparr>ps_bytes := ps_bytes (js_stats r) + 1\<rparr>\<rparr>)"

definition json_poll ::
  "'w byte_stream \<Rightarrow> (byte list \<Rightarrow> 'w \<Rightarrow> 'w) \<Rightarrow> json_reader \<times> 'w \<Rightarrow> (json_reader \<times> 'w) option" where
  "json_poll st cb = poll_loop st (reader_step json_byte cb)"

end
