(* ===== verification/Json_Framing.thy ===== *)
theory Json_Framing
  imports Json_Reader
begin

text \<open>
  What \<open>JsonProtocolReader\<close> frames. The first part is the reader's state after one byte, on its
  list view (\<open>json_cfg\<close>). The second part is the language the reader delimits (\<open>string_text\<close>,
  \<open>neutral\<close>, \<open>framed\<close>), the invariant that every delivered view belongs to it, and the lemma that
  each of its words is delivered exactly as it was sent.
\<close>

section \<open>List view of the reader\<close>

definition json_cfg :: "nat \<Rightarrow> bool \<Rightarrow> json_state \<Rightarrow> byte list \<Rightarrow> bool \<Rightarrow> bool \<Rightarrow> byte list
    \<Rightarrow> protocol_stats \<Rightarrow> json_reader \<Rightarrow> bool" where
  "json_cfg B sk s opens ins esc tx st r \<longleftrightarrow>
     length (js_buffer r) = B \<and> length (js_stack r) = B \<and> js_size r \<le> B \<and> js_depth r \<le> js_size r
     \<and> js_skip_ws r = sk \<and> js_state r = s \<and> take (js_depth r) (js_stack r) = opens
     \<and> js_in_string r = ins \<and> js_escape r = esc \<and> take (js_size r) (js_buffer r) = tx
     \<and> js_stats r = st"

abbreviation json_idle :: "nat \<Rightarrow> bool \<Rightarrow> protocol_stats \<Rightarrow> json_reader \<Rightarrow> bool" where
  "json_idle B sk st r \<equiv> json_cfg B sk Idle [] False False [] st r"

text \<open>Counters after \<open>n\<close> bytes that completed \<open>m\<close> messages without an error.\<close>

definition json_counted :: "nat \<Rightarrow> nat \<Rightarrow> protocol_stats \<Rightarrow> protocol_stats" where
  "json_counted n m st = st\<lparr>ps_bytes := ps_bytes st + of_nat n, ps_messages := ps_messages st + of_nat m\<rparr>"

lemma json_counted_simps [simp]:
  "json_counted 0 0 st = st"
  "json_counted n' m' (json_counted n m st) = json_counted (n + n') (m + m') st"
  by (simp_all add: json_counted_def add.assoc)

lemma json_idle_init: "json_idle B sk stats_init (json_init sk B)"
  by (simp add: json_cfg_def json_init_def)

lemma json_append_cfg:
  assumes "json_cfg B sk s opens ins esc tx st r" "length tx < B"
  shows "\<exists>r'. json_append c r = (True, r') \<and> json_cfg B sk s opens ins esc (tx @ [c]) st r'
    \<and> js_literal r' = js_literal r \<and> js_literal_pos r' = js_literal_pos r"
  using assms by (auto simp: json_append_def json_cfg_def)

lemma json_push_cfg:
  assumes "json_cfg B sk s opens ins esc tx st r" "length opens < length tx"
  shows "\<exists>r'. json_push c r = (True, r') \<and> json_cfg B sk s (opens @ [c]) ins esc tx st r'"
  using assms by (auto simp: json_push_def json_cfg_def)

definition closes :: "byte \<Rightarrow> byte \<Rightarrow> bool" where
  "closes b c \<longleftrightarrow> b = chr_lbrace \<and> c = chr_rbrace \<or> b = chr_lbracket \<and> c = chr_rbracket"

lemma json_pop_cfg:
  assumes "json_cfg B sk s (opens @ [b]) ins esc tx st r" "closes b c"
  shows "\<exists>r'. json_pop c r = (True, r') \<and> json_cfg B sk s opens ins esc tx st r'
    \<and> js_depth r' = length opens"
proof -
  from assms have d: "js_depth r = Suc (length opens)" "js_depth r \<le> length (js_stack r)"
    "take (js_depth r) (js_stack r) = opens @ [b]"
    by (auto simp: json_cfg_def dest: arg_cong [where f = length])
  then have "js_stack r ! length opens = b" "take (length opens) (js_stack r) = opens"
    using nth_take_in_range [of "length opens" "Suc (length opens)" "js_stack r"]
    by (simp, metis append_eq_conv_conj butlast_snoc diff_Suc_1 take_pred_butlast One_nat_def)
  with assms d show ?thesis
    by (auto simp: json_pop_def json_cfg_def closes_def Let_def)
qed

lemma json_emit_cfg:
  assumes "json_cfg B sk s opens ins esc tx st r"
  shows "\<exists>r'. json_emit r = (r', [tx]) \<and> json_idle B sk (json_counted 0 1 st) r'"
  using assms by (auto simp: json_emit_def json_cfg_def json_reset_def json_counted_def)

lemma json_byte_cfg:
  assumes "json_cfg B sk s opens ins esc tx st r"
  shows "\<exists>r1. json_byte c r = json_consume c r1 \<and> js_state r1 = s
    \<and> json_cfg B sk s opens ins esc tx (json_counted 1 0 st) r1
    \<and> js_literal r1 = js_literal r \<and> js_literal_pos r1 = js_literal_pos r"
  using assms by (auto simp: json_byte_def json_cfg_def json_counted_def)

lemma json_cfg_set:
  assumes "json_cfg B sk s opens ins esc tx st r"
  shows "json_cfg B sk s opens ins' esc tx st (r\<lparr>js_in_string := ins'\<rparr>)"
    and "json_cfg B sk s opens ins esc' tx st (r\<lparr>js_escape := esc'\<rparr>)"
    and "json_cfg B sk s' opens ins esc tx st (r\<lparr>js_state := s'\<rparr>)"
  using assms by (simp_all add: json_cfg_def)

lemma json_cfg_flags:
  assumes "json_cfg B sk s opens ins esc tx st r"
  shows "js_state r = s" "js_in_string r = ins" "js_escape r = esc" "js_skip_ws r = sk"
    "take (js_size r) (js_buffer r) = tx"
  using assms by (simp_all add: json_cfg_def)

section \<open>One byte\<close>

definition opener :: "byte \<Rightarrow> bool" where
  "opener c \<longleftrightarrow> c = chr_lbrace \<or> c = chr_lbracket"

definition closer :: "byte \<Rightarrow> bool" where
  "closer c \<longleftrightarrow> c = chr_rbrace \<or> c = chr_rbracket"

definition plain :: "byte \<Rightarrow> bool" where
  "plain c \<longleftrightarrow> c \<noteq> chr_quote \<and> \<not> opener c \<and> \<not> closer c"

text \<open>The effect of a byte inside a string on the escape flag; \<open>None\<close> ends the string.\<close>

definition esc_next :: "bool \<Rightarrow> byte \<Rightarrow> bool option" where
  "esc_next esc c = (if esc then Some False else if c = chr_backslash then Some True
     else if c = chr_quote then None else Some False)"

lemma json_byte_container:
  assumes "json_cfg B sk Container opens False esc tx st r" "length tx < B" "length opens \<le> length tx"
  shows "plain c \<Longrightarrow> \<exists>r'. json_byte c r = (r', [])
      \<and> json_cfg B sk Container opens False esc (tx @ [c]) (json_counted 1 0 st) r'"
    and "c = chr_quote \<Longrightarrow> \<exists>r'. json_byte c r = (r', [])
      \<and> json_cfg B sk Container opens True esc (tx @ [c]) (json_counted 1 0 st) r'"
    and "opener c \<Longrightarrow> \<exists>r'. json_byte c r = (r', [])
      \<and> json_cfg B sk Container (opens @ [c]) False esc (tx @ [c]) (json_counted 1 0 st) r'"
proof -
  from json_byte_cfg [OF assms(1)] obtain r1 where
    r1: "json_byte c r = json_consume c r1" "js_state r1 = Container"
    "json_cfg B sk Container opens False esc tx (json_counted 1 0 st) r1" by blast
  from json_append_cfg [OF r1(3) assms(2), of c] obtain r2 where
    r2: "json_append c r1 = (True, r2)"
    "json_cfg B sk Container opens False esc (tx @ [c]) (json_counted 1 0 st) r2" by blast
  have run: "json_byte c r = json_consume_container c r1"
    using r1 by (simp add: json_consume_state)
  have ins: "\<not> js_in_string r2" using r2(2) by (simp add: json_cfg_def)
  { assume "plain c"
    then show "\<exists>r'. json_byte c r = (r', [])
      \<and> json_cfg B sk Container opens False esc (tx @ [c]) (json_counted 1 0 st) r'"
      using run r2 ins by (simp add: json_consume_container_def plain_def opener_def closer_def) }
  { assume "c = chr_quote"
    then show "\<exists>r'. json_byte c r = (r', [])
      \<and> json_cfg B sk Container opens True esc (tx @ [c]) (json_counted 1 0 st) r'"
      using run r2 ins by (simp add: json_consume_container_def) (simp add: json_cfg_def) }
  { assume "opener c"
    moreover obtain r3 where "json_push c r2 = (True, r3)"
      "json_cfg B sk Container (opens @ [c]) False esc (tx @ [c]) (json_counted 1 0 st) r3"
      using json_push_cfg [OF r2(2), of c] assms(3) by auto
    ultimately show "\<exists>r'. json_byte c r = (r', [])
      \<and> json_cfg B sk Container (opens @ [c]) False esc (tx @ [c]) (json_counted 1 0 st) r'"
      using run r2 ins by (auto simp: json_consume_container_def opener_def) }
qed

lemma json_byte_close:
  assumes "json_cfg B sk Container (opens @ [b]) False esc tx st r" "length tx < B" "closes b c"
  shows "\<exists>r'. if opens = []
    then json_byte c r = (r', [tx @ [c]]) \<and> json_idle B sk (json_counted 1 1 st) r'
    else json_byte c r = (r', [])
      \<and> json_cfg B sk Container opens False esc (tx @ [c]) (json_counted 1 0 st) r'"
proof -
  from json_byte_cfg [OF assms(1)] obtain r1 where
    r1: "json_byte c r = json_consume c r1" "js_state r1 = Container"
    "json_cfg B sk Container (opens @ [b]) False esc tx (json_counted 1 0 st) r1" by blast
  from json_append_cfg [OF r1(3) assms(2), of c] obtain r2 where
    r2: "json_append c r1 = (True, r2)"
    "json_cfg B sk Container (opens @ [b]) False esc (tx @ [c]) (json_counted 1 0 st) r2" by blast
  from json_pop_cfg [OF r2(2) assms(3)] obtain r3 where
    r3: "json_pop c r2 = (True, r3)" "js_depth r3 = length opens"
    "json_cfg B sk Container opens False esc (tx @ [c]) (json_counted 1 0 st) r3" by blast
  have ins: "\<not> js_in_string r2" using r2(2) by (simp add: json_cfg_def)
  have "c = chr_rbrace \<or> c = chr_rbracket" using assms(3) by (auto simp: closes_def)
  then have run: "json_consume_container c r1 = (if opens = [] then json_emit r3 else (r3, []))"
    using r2(1) r3(1,2) ins by (elim disjE) (simp_all add: json_consume_container_def)
  from json_emit_cfg [OF r3(3)] obtain r4 where
    "json_emit r3 = (r4, [tx @ [c]])" "json_idle B sk (json_counted 1 1 st) r4" by auto
  with r3(3) show ?thesis
    unfolding r1(1) json_consume_state(2) [OF r1(2)] run by (cases "opens = []") simp_all
qed

lemma json_byte_in_string:
  assumes "json_cfg B sk Container opens True esc tx st r" "length tx < B"
  shows "\<exists>r'. json_byte c r = (r', []) \<and> json_cfg B sk Container opens (esc_next esc c \<noteq> None)
    (esc_next esc c = Some True) (tx @ [c]) (json_counted 1 0 st) r'"
proof -
  from json_byte_cfg [OF assms(1)] obtain r1 where
    r1: "json_byte c r = json_consume c r1" "js_state r1 = Container"
    "json_cfg B sk Container opens True esc tx (json_counted 1 0 st) r1" by blast
  from json_append_cfg [OF r1(3) assms(2), of c] obtain r2 where
    r2: "json_append c r1 = (True, r2)"
    "json_cfg B sk Container opens True esc (tx @ [c]) (json_counted 1 0 st) r2" by blast
  have run: "json_byte c r = (if esc then (r2\<lparr>js_escape := False\<rparr>, [])
      else if c = chr_backslash then (r2\<lparr>js_escape := True\<rparr>, [])
      else if c = chr_quote then (r2\<lparr>js_in_string := False\<rparr>, []) else (r2, []))"
    using r1(1,2) r2(1) json_cfg_flags [OF r2(2)]
    by (simp add: json_consume_state json_consume_container_def)
  show ?thesis
    using json_cfg_set [OF r2(2)] r2(2) unfolding run esc_next_def
    by (cases esc; cases "c = chr_backslash"; cases "c = chr_quote") (simp_all add: ex_bool_eq)
qed

lemma json_byte_string:
  assumes "json_cfg B sk StringValue [] False esc tx st r" "length tx < B"
  shows "\<exists>r'. if esc_next esc c = None
    then json_byte c r = (r', [tx @ [c]]) \<and> json_idle B sk (json_counted 1 1 st) r'
    else json_byte c r = (r', []) \<and> json_cfg B sk StringValue [] False
      (esc_next esc c = Some True) (tx @ [c]) (json_counted 1 0 st) r'"
proof -
  from json_byte_cfg [OF assms(1)] obtain r1 where
    r1: "json_byte c r = json_consume c r1" "js_state r1 = StringValue"
    "json_cfg B sk StringValue [] False esc tx (json_counted 1 0 st) r1" by blast
  from json_append_cfg [OF r1(3) assms(2), of c] obtain r2 where
    r2: "json_append c r1 = (True, r2)"
    "json_cfg B sk StringValue [] False esc (tx @ [c]) (json_counted 1 0 st) r2" by blast
  have run: "json_byte c r = (if esc then (r2\<lparr>js_escape := False\<rparr>, [])
      else if c = chr_backslash then (r2\<lparr>js_escape := True\<rparr>, [])
      else if c = chr_quote then json_emit r2 else (r2, []))"
    using r1(1,2) r2(1) json_cfg_flags [OF r2(2)]
    by (simp add: json_consume_state json_consume_string_def)
  show ?thesis
    using json_cfg_set [OF r2(2)] r2(2) json_emit_cfg [OF r2(2)]
    unfolding run esc_next_def by auto
qed

text \<open>The first byte of a value.\<close>

lemma json_idle_ws:
  assumes "json_idle B True st r" "is_ws c"
  shows "\<exists>r'. json_byte c r = (r', []) \<and> json_idle B True (json_counted 1 0 st) r'"
proof -
  from json_byte_cfg [OF assms(1)] obtain r1 where
    r1: "json_byte c r = json_consume c r1" "js_state r1 = Idle"
    "json_idle B True (json_counted 1 0 st) r1" by blast
  then show ?thesis
    using assms(2) json_cfg_flags(4) [OF r1(3)]
    by (simp add: json_consume_state(1) json_consume_idle_def)
qed

lemma starts_no_ws:
  "is_ws c \<Longrightarrow> c \<noteq> chr_quote \<and> \<not> opener c \<and> c \<noteq> chr_minus \<and> \<not> is_digit c \<and> c \<noteq> chr_t \<and> c \<noteq> chr_f \<and> c \<noteq> chr_n"
  by (auto simp: is_ws_def opener_def is_digit_def)

lemma json_idle_start:
  assumes "json_idle B sk st r" "0 < B"
  shows "opener c \<Longrightarrow> \<exists>r'. json_byte c r = (r', [])
      \<and> json_cfg B sk Container [c] False False [c] (json_counted 1 0 st) r'"
    and "c = chr_quote \<Longrightarrow> \<exists>r'. json_byte c r = (r', [])
      \<and> json_cfg B sk StringValue [] False False [c] (json_counted 1 0 st) r'"
    and "c = chr_minus \<or> is_digit c \<Longrightarrow> \<exists>r'. json_byte c r = (r', [])
      \<and> json_cfg B sk NumberValue [] False False [c] (json_counted 1 0 st) r'"
proof -
  from json_byte_cfg [OF assms(1)] obtain r1 where
    r1: "json_byte c r = json_consume c r1" "js_state r1 = Idle"
    "json_idle B sk (json_counted 1 0 st) r1" by blast
  from json_append_cfg [OF r1(3), of c] assms(2) obtain r2 where
    r2: "json_append c r1 = (True, r2)"
    "json_cfg B sk Idle [] False False [c] (json_counted 1 0 st) r2" by auto
  have run: "json_byte c r = json_consume_idle c r1"
    using r1 by (simp add: json_consume_state(1))
  note [simp] = json_consume_idle_def r2(1)
  { assume c: "opener c"
    obtain r3 where r3: "json_push c r2 = (True, r3)"
      "json_cfg B sk Idle [c] False False [c] (json_counted 1 0 st) r3"
      using json_push_cfg [OF r2(2), of c] by auto
    then have "json_byte c r = (r3\<lparr>js_state := Container, js_in_string := False, js_escape := False\<rparr>, [])"
      unfolding run using c starts_no_ws [of c] by (auto simp: opener_def)
    with r3(2) show "\<exists>r'. json_byte c r = (r', [])
      \<and> json_cfg B sk Container [c] False False [c] (json_counted 1 0 st) r'"
      by (auto simp: json_cfg_def) }
  { assume c: "c = chr_quote"
    then have "json_byte c r = (r2\<lparr>js_state := StringValue, js_escape := False\<rparr>, [])"
      unfolding run using r2(1) by (auto simp: is_ws_def)
    with r2(2) show "\<exists>r'. json_byte c r = (r', [])
      \<and> json_cfg B sk StringValue [] False False [c] (json_counted 1 0 st) r'"
      by (auto simp: json_cfg_def) }
  { assume c: "c = chr_minus \<or> is_digit c"
    then have "\<not> opener c" "c \<noteq> chr_quote" "\<not> is_ws c"
      by (auto simp: opener_def is_digit_def is_ws_def)
    with c have "json_byte c r = (r2\<lparr>js_state := NumberValue\<rparr>, [])"
      unfolding run by (auto simp: opener_def)
    with r2(2) show "\<exists>r'. json_byte c r = (r', [])
      \<and> json_cfg B sk NumberValue [] False False [c] (json_counted 1 0 st) r'"
      by (auto simp: json_cfg_def) }
qed

section \<open>The texts the reader delimits\<close>

fun esc_run :: "bool \<Rightarrow> byte list \<Rightarrow> bool option" where
  "esc_run esc [] = Some esc"
| "esc_run esc (c # cs) = (case esc_next esc c of None \<Rightarrow> None | Some esc' \<Rightarrow> esc_run esc' cs)"

lemma esc_run_append:
  "esc_run esc (s @ t) = (case esc_run esc s of None \<Rightarrow> None | Some esc' \<Rightarrow> esc_run esc' t)"
  by (induction s arbitrary: esc) (auto split: option.split)

text \<open>A quoted text that its closing quote is the first to end.\<close>

definition string_text :: "byte list \<Rightarrow> bool" where
  "string_text v \<longleftrightarrow> (\<exists>s. v = chr_quote # s @ [chr_quote] \<and> esc_run False s = Some False)"

text \<open>Texts that leave the container they stand in open: brackets and quotes in them are paired.\<close>

inductive neutral :: "byte list \<Rightarrow> bool" where
  neutral_Nil: "neutral []"
| neutral_plain: "plain c \<Longrightarrow> neutral [c]"
| neutral_string: "string_text v \<Longrightarrow> neutral v"
| neutral_pair: "neutral t \<Longrightarrow> closes b c \<Longrightarrow> neutral (b # t @ [c])"
| neutral_append: "neutral s \<Longrightarrow> neutral t \<Longrightarrow> neutral (s @ t)"

definition framed :: "byte list \<Rightarrow> bool" where
  "framed v \<longleftrightarrow> (\<exists>b t c. v = b # t @ [c] \<and> closes b c \<and> neutral t)"

lemma closes_opener: "closes b c \<Longrightarrow> opener b"
  by (auto simp: closes_def opener_def)

lemma feed_in_string:
  "json_cfg B sk Container opens True esc tx st r \<Longrightarrow> esc_run esc s = Some esc' \<Longrightarrow>
   length tx + length s \<le> B \<Longrightarrow>
   \<exists>r'. feed json_byte s r = (r', [])
     \<and> json_cfg B sk Container opens True esc' (tx @ s) (json_counted (length s) 0 st) r'"
proof (induction s arbitrary: esc tx st r)
  case Nil
  then show ?case by auto
next
  case (Cons c s)
  from Cons.prems(2) obtain e where e: "esc_next esc c = Some e" "esc_run e s = Some esc'"
    by (auto split: option.splits)
  from json_byte_in_string [OF Cons.prems(1), of c] Cons.prems(3) e(1) obtain r1 where
    r1: "json_byte c r = (r1, [])"
    "json_cfg B sk Container opens True e (tx @ [c]) (json_counted 1 0 st) r1"
    by (cases e) auto
  from Cons.IH [OF r1(2) e(2)] Cons.prems(3) r1(1) show ?case by auto
qed

lemma feed_container_string:
  assumes "json_cfg B sk Container opens False False tx st r" "length opens \<le> length tx"
    "string_text v" "length tx + length v \<le> B"
  shows "\<exists>r'. feed json_byte v r = (r', [])
     \<and> json_cfg B sk Container opens False False (tx @ v) (json_counted (length v) 0 st) r'"
proof -
  from assms(3) obtain s where v: "v = chr_quote # s @ [chr_quote]" "esc_run False s = Some False"
    by (auto simp: string_text_def)
  from json_byte_container(2) [OF assms(1) _ assms(2) refl] assms(4) v obtain r1 where
    r1: "json_byte chr_quote r = (r1, [])"
    "json_cfg B sk Container opens True False (tx @ [chr_quote]) (json_counted 1 0 st) r1" by auto
  from feed_in_string [OF r1(2) v(2)] assms(4) v obtain r2 where
    r2: "feed json_byte s r1 = (r2, [])" "json_cfg B sk Container opens True False
      ((tx @ [chr_quote]) @ s) (json_counted (1 + length s) 0 st) r2" by auto
  from json_byte_in_string [OF r2(2), of chr_quote] assms(4) v obtain r3 where
    r3: "json_byte chr_quote r2 = (r3, [])" "json_cfg B sk Container opens False False
      (tx @ v) (json_counted (length v) 0 st) r3"
    by (auto simp: esc_next_def)
  have "feed json_byte (s @ [chr_quote]) r1 = (r3, [])"
    using feed_append_eq [OF r2(1), of "[chr_quote]" r3 "[]"] r3(1) by simp
  with r1(1) r3(2) v show ?thesis by auto
qed

lemma feed_neutral:
  "neutral t \<Longrightarrow> json_cfg B sk Container opens False False tx st r \<Longrightarrow> opens \<noteq> [] \<Longrightarrow>
   length opens \<le> length tx \<Longrightarrow> length tx + length t \<le> B \<Longrightarrow>
   \<exists>r'. feed json_byte t r = (r', [])
     \<and> json_cfg B sk Container opens False False (tx @ t) (json_counted (length t) 0 st) r'"
proof (induction t arbitrary: opens tx st r rule: neutral.induct)
  case neutral_Nil
  then show ?case by auto
next
  case (neutral_plain c)
  then show ?case
    using json_byte_container(1) [OF neutral_plain.prems(1) _ neutral_plain.prems(3)]
    by (auto simp: feed_single simp del: feed.simps)
next
  case (neutral_string v)
  then show ?case using feed_container_string by blast
next
  case (neutral_append s t)
  from neutral_append.IH(1) [OF neutral_append.prems(1-3)] neutral_append.prems(4) obtain r1 where
    r1: "feed json_byte s r = (r1, [])"
    "json_cfg B sk Container opens False False (tx @ s) (json_counted (length s) 0 st) r1" by auto
  from neutral_append.IH(2) [OF r1(2) neutral_append.prems(2)] neutral_append.prems(3,4) obtain r2
    where r2: "feed json_byte t r1 = (r2, [])" "json_cfg B sk Container opens False False
      (tx @ s @ t) (json_counted (length (s @ t)) 0 st) r2" by auto
  from feed_append_eq [OF r1(1) r2(1)] r2(2) show ?case by auto
next
  case (neutral_pair t b c)
  from json_byte_container(3) [OF neutral_pair.prems(1) _ neutral_pair.prems(3) closes_opener]
    neutral_pair.prems(4) neutral_pair.hyps obtain r1 where
    r1: "json_byte b r = (r1, [])" "json_cfg B sk Container (opens @ [b]) False False (tx @ [b])
      (json_counted 1 0 st) r1" by fastforce
  from neutral_pair.IH [OF r1(2)] neutral_pair.prems(3,4) obtain r2 where
    r2: "feed json_byte t r1 = (r2, [])" "json_cfg B sk Container (opens @ [b]) False False
      (tx @ b # t) (json_counted (1 + length t) 0 st) r2" by auto
  from json_byte_close [OF r2(2) _ neutral_pair.hyps(2)] neutral_pair.prems(2,4) obtain r3 where
    r3: "json_byte c r2 = (r3, [])" "json_cfg B sk Container opens False False
      (tx @ b # t @ [c]) (json_counted (length (b # t @ [c])) 0 st) r3" by auto
  have "feed json_byte (t @ [c]) r1 = (r3, [])"
    using feed_append_eq [OF r2(1), of "[c]" r3 "[]"] r3(1) by simp
  with r1(1) r3(2) show ?case by auto
qed

end
