(* ===== verification/Json_Values.thy ===== *)
theory Json_Values
  imports Json_Framing
begin

text \<open>
  What \<open>JsonProtocolReader\<close> delivers for JSON: the grammar of JSON values, the proof that a value
  sent to an idle reader is delivered unchanged (a number once the byte after it is seen), for
  sequences of values separated by white space.
\<close>

section \<open>Values the reader delimits by themselves\<close>

definition json_literals :: "byte list set" where
  "json_literals = {lit_true, lit_false, lit_null}"

text \<open>The texts the reader delivers.\<close>

definition json_text :: "byte list \<Rightarrow> bool" where
  "json_text v \<longleftrightarrow> framed v \<or> string_text v \<or> v \<in> json_literals \<or> json_number v"

lemma feed_framed:
  assumes "json_idle B sk st r" "framed v" "length v \<le> B"
  shows "\<exists>r'. feed json_byte v r = (r', [v]) \<and> json_idle B sk (json_counted (length v) 1 st) r'"
proof -
  from assms(2) obtain b t c where v: "v = b # t @ [c]" "closes b c" "neutral t"
    by (auto simp: framed_def)
  with assms(3) have "0 < B" by auto
  from json_idle_start(1) [OF assms(1) this closes_opener [OF v(2)]] obtain r1 where
    r1: "json_byte b r = (r1, [])"
    "json_cfg B sk Container [b] False False [b] (json_counted 1 0 st) r1" by blast
  from feed_neutral [OF v(3) r1(2)] assms(3) v(1) obtain r2 where
    r2: "feed json_byte t r1 = (r2, [])" "json_cfg B sk Container ([] @ [b]) False False (b # t)
      (json_counted (1 + length t) 0 st) r2" by auto
  from json_byte_close [OF r2(2) _ v(2)] assms(3) v(1) obtain r3 where
    r3: "json_byte c r2 = (r3, [v])" "json_idle B sk (json_counted (length v) 1 st) r3" by auto
  have "feed json_byte (t @ [c]) r1 = (r3, [v])"
    using feed_append_eq [OF r2(1), of "[c]" r3 "[v]"] r3(1) by simp
  with r1(1) r3(2) v(1) show ?thesis by auto
qed

lemma feed_string_body:
  "json_cfg B sk StringValue [] False esc tx st r \<Longrightarrow> esc_run esc s = Some esc' \<Longrightarrow>
   length tx + length s \<le> B \<Longrightarrow>
   \<exists>r'. feed json_byte s r = (r', [])
     \<and> json_cfg B sk StringValue [] False esc' (tx @ s) (json_counted (length s) 0 st) r'"
proof (induction s arbitrary: esc tx st r)
  case Nil
  then show ?case by auto
next
  case (Cons c s)
  from Cons.prems(2) obtain e where e: "esc_next esc c = Some e" "esc_run e s = Some esc'"
    by (auto split: option.splits)
  from json_byte_string [OF Cons.prems(1), of c] Cons.prems(3) e(1) obtain r1 where
    r1: "json_byte c r = (r1, [])"
    "json_cfg B sk StringValue [] False e (tx @ [c]) (json_counted 1 0 st) r1"
    by (cases e) auto
  from Cons.IH [OF r1(2) e(2)] Cons.prems(3) r1(1) show ?case by auto
qed

lemma feed_string_text:
  assumes "json_idle B sk st r" "string_text v" "length v \<le> B"
  shows "\<exists>r'. feed json_byte v r = (r', [v]) \<and> json_idle B sk (json_counted (length v) 1 st) r'"
proof -
  from assms(2) obtain s where v: "v = chr_quote # s @ [chr_quote]" "esc_run False s = Some False"
    by (auto simp: string_text_def)
  with assms(3) have "0 < B" by auto
  from json_idle_start(2) [OF assms(1) this refl] obtain r1 where
    r1: "json_byte chr_quote r = (r1, [])"
    "json_cfg B sk StringValue [] False False [chr_quote] (json_counted 1 0 st) r1" by blast
  from feed_string_body [OF r1(2) v(2)] assms(3) v(1) obtain r2 where
    r2: "feed json_byte s r1 = (r2, [])" "json_cfg B sk StringValue [] False False (chr_quote # s)
      (json_counted (1 + length s) 0 st) r2" by auto
  from json_byte_string [OF r2(2), of chr_quote] assms(3) v(1) obtain r3 where
    r3: "json_byte chr_quote r2 = (r3, [v])" "json_idle B sk (json_counted (length v) 1 st) r3"
    by (auto simp: esc_next_def)
  have "feed json_byte (s @ [chr_quote]) r1 = (r3, [v])"
    using feed_append_eq [OF r2(1), of "[chr_quote]" r3 "[v]"] r3(1) by simp
  with r1(1) r3(2) v(1) show ?thesis by auto
qed

section \<open>Literals\<close>

definition json_lit :: "nat \<Rightarrow> bool \<Rightarrow> byte list \<Rightarrow> nat \<Rightarrow> json_state \<Rightarrow> protocol_stats \<Rightarrow> json_reader \<Rightarrow> bool" where
  "json_lit B sk lit n s st r \<longleftrightarrow> json_cfg B sk s [] False False (take n lit) st r
     \<and> js_literal r = Some lit \<and> js_literal_pos r = n"

lemma json_consume_literal_next:
  assumes "json_lit B sk lit n s st r" "n < length lit" "0 \<notin> set lit" "length lit \<le> B"
  shows "\<exists>r'. if Suc n = length lit
    then json_consume_literal (lit ! n) r = (r', [lit]) \<and> json_idle B sk (json_counted 0 1 st) r'
    else json_consume_literal (lit ! n) r = (r', []) \<and> json_lit B sk lit (Suc n) s st r'"
proof -
  have z: "lit ! n \<noteq> 0" "Suc n < length lit \<Longrightarrow> lit ! Suc n \<noteq> 0"
    using assms(2,3) by (metis nth_mem)+
  from assms(1,2,4) json_append_cfg [of B sk s "[]" False False "take n lit" st r "lit ! n"]
  obtain r1 where r1: "json_append (lit ! n) r = (True, r1)"
    "json_cfg B sk s [] False False (take (Suc n) lit) st r1"
    "js_literal r1 = Some lit" "js_literal_pos r1 = n"
    by (auto simp: json_lit_def take_Suc_conv_app_nth)
  let ?r2 = "r1\<lparr>js_literal_pos := Suc n\<rparr>"
  have cfg: "json_cfg B sk s [] False False (take (Suc n) lit) st ?r2"
    using r1(2) by (simp add: json_cfg_def)
  have run: "json_consume_literal (lit ! n) r =
      (if Suc n = length lit then json_emit ?r2 else (?r2, []))"
    using assms(1,2) r1 z by (auto simp: json_consume_literal_def json_lit_def c_char_def Let_def)
  show ?thesis
  proof (cases "Suc n = length lit")
    case True
    with json_emit_cfg [OF cfg] run show ?thesis by auto
  next
    case False
    with cfg run r1(3) show ?thesis by (auto simp: json_lit_def)
  qed
qed

lemma json_byte_literal:
  assumes "json_lit B sk lit n LiteralValue st r" "n < length lit" "0 \<notin> set lit" "length lit \<le> B"
  shows "\<exists>r'. if Suc n = length lit
    then json_byte (lit ! n) r = (r', [lit]) \<and> json_idle B sk (json_counted 1 1 st) r'
    else json_byte (lit ! n) r = (r', []) \<and> json_lit B sk lit (Suc n) LiteralValue (json_counted 1 0 st) r'"
proof -
  from assms(1) json_byte_cfg [of B sk LiteralValue "[]" False False "take n lit" st r "lit ! n"]
  obtain r1 where r1: "json_byte (lit ! n) r = json_consume (lit ! n) r1" "js_state r1 = LiteralValue"
    "json_lit B sk lit n LiteralValue (json_counted 1 0 st) r1"
    by (auto simp: json_lit_def)
  show ?thesis
    using json_consume_literal_next [OF r1(3) assms(2-4)]
    by (cases "Suc n = length lit") (simp_all add: r1(1) json_consume_state(4) [OF r1(2)])
qed

lemma feed_literal_rest:
  "json_lit B sk lit n LiteralValue st r \<Longrightarrow> n < length lit \<Longrightarrow> 0 \<notin> set lit \<Longrightarrow> length lit \<le> B \<Longrightarrow>
   \<exists>r'. feed json_byte (drop n lit) r = (r', [lit])
     \<and> json_idle B sk (json_counted (length lit - n) 1 st) r'"
proof (induction "length lit - n" arbitrary: n st r)
  case 0
  then show ?case by simp
next
  case (Suc k)
  from json_byte_literal [OF Suc.prems] obtain r1 where r1: "if Suc n = length lit
    then json_byte (lit ! n) r = (r1, [lit]) \<and> json_idle B sk (json_counted 1 1 st) r1
    else json_byte (lit ! n) r = (r1, []) \<and> json_lit B sk lit (Suc n) LiteralValue (json_counted 1 0 st) r1"
    by blast
  have d: "drop n lit = lit ! n # drop (Suc n) lit"
    using Suc.prems(2) by (simp add: Cons_nth_drop_Suc)
  show ?case
  proof (cases "Suc n = length lit")
    case True
    then have "length lit - n = 1" by simp
    with r1 d True show ?thesis by auto
  next
    case False
    with Suc.prems(2) have "Suc n < length lit" by simp
    moreover from r1 False have l1: "json_byte (lit ! n) r = (r1, [])"
      "json_lit B sk lit (Suc n) LiteralValue (json_counted 1 0 st) r1" by simp_all
    moreover have "k = length lit - Suc n" using Suc.hyps(2) by simp
    ultimately obtain r2 where
      "feed json_byte (drop (Suc n) lit) r1 = (r2, [lit])"
      "json_idle B sk (json_counted (length lit - Suc n) 1 (json_counted 1 0 st)) r2"
      using Suc.hyps(1) [OF _ l1(2)] Suc.prems(3,4) by blast
    with l1(1) d \<open>Suc n < length lit\<close> show ?thesis by (auto simp: Suc_diff_Suc)
  qed
qed

lemma json_literals_facts:
  assumes "lit \<in> json_literals"
  shows "0 \<notin> set lit" "1 < length lit"
    "lit ! 0 = chr_t \<and> lit = lit_true \<or> lit ! 0 = chr_f \<and> lit = lit_false \<or> lit ! 0 = chr_n \<and> lit = lit_null"
  using assms by (auto simp: json_literals_def lit_true_def lit_false_def lit_null_def)

lemma feed_literal:
  assumes "json_idle B sk st r" "lit \<in> json_literals" "length lit \<le> B"
  shows "\<exists>r'. feed json_byte lit r = (r', [lit]) \<and> json_idle B sk (json_counted (length lit) 1 st) r'"
proof -
  note lit = json_literals_facts [OF assms(2)]
  from json_byte_cfg [OF assms(1)] obtain r1 where
    r1: "json_byte (lit ! 0) r = json_consume (lit ! 0) r1" "js_state r1 = Idle"
    "json_idle B sk (json_counted 1 0 st) r1" by blast
  let ?r2 = "r1\<lparr>js_literal := Some lit, js_literal_pos := 0, js_state := LiteralValue\<rparr>"
  have "json_lit B sk lit 0 LiteralValue (json_counted 1 0 st) ?r2"
    using r1(3) by (simp add: json_lit_def json_cfg_def)
  moreover have "0 < length lit" "Suc 0 \<noteq> length lit" using lit(2) by auto
  ultimately obtain r3 where
    r3: "json_consume_literal (lit ! 0) ?r2 = (r3, [])"
    "json_lit B sk lit 1 LiteralValue (json_counted 1 0 st) r3"
    using json_consume_literal_next [OF _ _ lit(1) assms(3)] by fastforce
  have "json_consume_idle (lit ! 0) r1 = json_consume_literal (lit ! 0) ?r2"
    using lit(3) by (auto simp: json_consume_idle_def json_start_literal_def is_ws_def is_digit_def)
  with r1(1) r3(1) have first: "json_byte (lit ! 0) r = (r3, [])"
    by (simp add: json_consume_state(1) [OF r1(2)])
  have len: "Suc (length lit - Suc 0) = length lit" using lit(2) by simp
  from feed_literal_rest [OF r3(2) lit(2,1) assms(3)] obtain r4 where
    "feed json_byte (drop 1 lit) r3 = (r4, [lit])"
    "json_idle B sk (json_counted (length lit) 1 st) r4"
    by (auto simp: len)
  moreover have "lit = lit ! 0 # drop 1 lit" using lit(2) by (cases lit) auto
  ultimately show ?thesis using first by (metis (no_types, lifting) append_Nil feed.simps(2) case_prod_conv)
qed

section \<open>Numbers\<close>

lemma json_byte_number:
  assumes "json_cfg B sk NumberValue [] False False tx st r" "length tx < B" "is_number_byte c"
  shows "\<exists>r'. json_byte c r = (r', [])
    \<and> json_cfg B sk NumberValue [] False False (tx @ [c]) (json_counted 1 0 st) r'"
proof -
  from json_byte_cfg [OF assms(1)] obtain r1 where
    r1: "json_byte c r = json_consume c r1" "js_state r1 = NumberValue"
    "json_cfg B sk NumberValue [] False False tx (json_counted 1 0 st) r1" by blast
  from json_append_cfg [OF r1(3) assms(2), of c] show ?thesis
    by (auto simp: r1(1) json_consume_state(5) [OF r1(2) assms(3)])
qed

lemma feed_number_bytes:
  "json_cfg B sk NumberValue [] False False tx st r \<Longrightarrow> \<forall>c \<in> set s. is_number_byte c \<Longrightarrow>
   length tx + length s \<le> B \<Longrightarrow>
   \<exists>r'. feed json_byte s r = (r', [])
     \<and> json_cfg B sk NumberValue [] False False (tx @ s) (json_counted (length s) 0 st) r'"
proof (induction s arbitrary: tx st r)
  case Nil
  then show ?case by auto
next
  case (Cons c s)
  from json_byte_number [OF Cons.prems(1), of c] Cons.prems(2,3) obtain r1 where
    r1: "json_byte c r = (r1, [])"
    "json_cfg B sk NumberValue [] False False (tx @ [c]) (json_counted 1 0 st) r1" by auto
  from Cons.IH [OF r1(2)] Cons.prems(2,3) r1(1) show ?case by auto
qed

lemma json_number_bytes:
  assumes "json_number v"
  shows "\<forall>c \<in> set v. is_number_byte c" "\<exists>c s. v = c # s \<and> (c = chr_minus \<or> is_digit c)"
  using assms
  by (auto simp: json_number_def json_int_def json_frac_def json_exp_def digits_def is_number_byte_def
      nonzero_digit)

lemma feed_number:
  assumes "json_idle B sk st r" "json_number v" "length v \<le> B"
  shows "\<exists>r'. feed json_byte v r = (r', [])
    \<and> json_cfg B sk NumberValue [] False False v (json_counted (length v) 0 st) r'"
proof -
  from json_number_bytes [OF assms(2)] obtain c s where
    v: "v = c # s" "c = chr_minus \<or> is_digit c" "\<forall>c \<in> set s. is_number_byte c" by auto
  with assms(3) have "0 < B" by auto
  from json_idle_start(3) [OF assms(1) this v(2)] obtain r1 where
    r1: "json_byte c r = (r1, [])"
    "json_cfg B sk NumberValue [] False False [c] (json_counted 1 0 st) r1" by blast
  from feed_number_bytes [OF r1(2) v(3)] assms(3) v(1) r1(1) show ?thesis by auto
qed

text \<open>The byte after a number delivers it and is then consumed as the first byte of what follows.\<close>

lemma json_number_end:
  assumes "json_cfg B sk NumberValue [] False False v st r" "json_number v" "\<not> is_number_byte c"
  shows "\<exists>r1. json_idle B sk (json_counted 1 1 st) r1
    \<and> json_byte c r = (case json_consume_idle c r1 of (r2, vs) \<Rightarrow> (r2, v # vs))"
proof -
  from json_byte_cfg [OF assms(1)] obtain r1 where
    r1: "json_byte c r = json_consume c r1" "js_state r1 = NumberValue"
    "json_cfg B sk NumberValue [] False False v (json_counted 1 0 st) r1" by blast
  have "json_finish_number r1 = json_emit r1"
    using assms(2) json_cfg_flags(5) [OF r1(3)]
    by (simp add: json_finish_number_def valid_number_grammar)
  with json_emit_cfg [OF r1(3)] show ?thesis
    by (auto simp: r1(1) json_consume_state(6) [OF r1(2) assms(3)])
qed

lemma json_number_end_ws:
  assumes "json_cfg B True NumberValue [] False False v st r" "json_number v" "is_ws c"
  shows "\<exists>r'. json_byte c r = (r', [v]) \<and> json_idle B True (json_counted 1 1 st) r'"
proof -
  have "\<not> is_number_byte c"
    using assms(3) by (auto simp: is_ws_def is_number_byte_def is_digit_def)
  from json_number_end [OF assms(1,2) this] obtain r1 where r1: "json_idle B True (json_counted 1 1 st) r1"
    "json_byte c r = (case json_consume_idle c r1 of (r2, vs) \<Rightarrow> (r2, v # vs))" by blast
  moreover have "json_consume_idle c r1 = (r1, [])"
    using assms(3) json_cfg_flags(4) [OF r1(1)] by (simp add: json_consume_idle_def)
  ultimately show ?thesis by auto
qed

section \<open>A value followed by white space\<close>

definition ws_text :: "byte list \<Rightarrow> bool" where
  "ws_text w \<longleftrightarrow> (\<forall>c \<in> set w. is_ws c)"

lemma feed_ws:
  "json_idle B True st r \<Longrightarrow> ws_text w \<Longrightarrow>
   \<exists>r'. feed json_byte w r = (r', []) \<and> json_idle B True (json_counted (length w) 0 st) r'"
proof (induction w arbitrary: st r)
  case Nil
  then show ?case by auto
next
  case (Cons c w)
  then have c: "is_ws c" "ws_text w" by (simp_all add: ws_text_def)
  from json_idle_ws [OF Cons.prems(1) c(1)] obtain r1 where
    r1: "json_byte c r = (r1, [])" "json_idle B True (json_counted 1 0 st) r1" by blast
  from Cons.IH [OF r1(2) c(2)] r1(1) show ?case by auto
qed

lemma feed_text_ws:
  assumes "json_idle B True st r" "json_text v" "length v \<le> B" "ws_text w" "json_number v \<Longrightarrow> w \<noteq> []"
  shows "\<exists>r'. feed json_byte (v @ w) r = (r', [v])
    \<and> json_idle B True (json_counted (length (v @ w)) 1 st) r'"
proof (cases "json_number v")
  case True
  with assms(5) obtain c w' where w: "w = c # w'" by (cases w) auto
  with assms(4) have ws: "is_ws c" "ws_text w'" by (simp_all add: ws_text_def)
  from feed_number [OF assms(1) True assms(3)] obtain r1 where
    r1: "feed json_byte v r = (r1, [])"
    "json_cfg B True NumberValue [] False False v (json_counted (length v) 0 st) r1" by blast
  from json_number_end_ws [OF r1(2) True ws(1)] obtain r2 where
    r2: "json_byte c r1 = (r2, [v])" "json_idle B True (json_counted (length v + 1) 1 st) r2" by auto
  from feed_ws [OF r2(2) ws(2)] obtain r3 where
    r3: "feed json_byte w' r2 = (r3, [])"
    "json_idle B True (json_counted (length (v @ w)) 1 st) r3" using w by auto
  have "feed json_byte w r1 = (r3, [v])" using r2(1) r3(1) w by simp
  from feed_append_eq [OF r1(1) this] r3(2) show ?thesis by auto
next
  case False
  with assms(2) consider "framed v" | "string_text v" | "v \<in> json_literals"
    by (auto simp: json_text_def)
  then obtain r1 where
    r1: "feed json_byte v r = (r1, [v])" "json_idle B True (json_counted (length v) 1 st) r1"
    by cases (use feed_framed [OF assms(1) _ assms(3)] feed_string_text [OF assms(1) _ assms(3)]
        feed_literal [OF assms(1) _ assms(3)] in blast)+
  from feed_ws [OF r1(2) assms(4)] obtain r2 where
    r2: "feed json_byte w r1 = (r2, [])" "json_idle B True (json_counted (length (v @ w)) 1 st) r2" by auto
  from feed_append_eq [OF r1(1) r2(1)] r2(2) show ?thesis by auto
qed

text \<open>A message sequence: values, each with the white space sent after it.\<close>

definition json_stream :: "(byte list \<times> byte list) list \<Rightarrow> byte list" where
  "json_stream items = concat (map (\<lambda>(v, w). v @ w) items)"

definition json_item :: "nat \<Rightarrow> byte list \<times> byte list \<Rightarrow> bool" where
  "json_item B i \<longleftrightarrow> (case i of (v, w) \<Rightarrow>
     json_text v \<and> length v \<le> B \<and> ws_text w \<and> (json_number v \<longrightarrow> w \<noteq> []))"

lemma feed_json_stream:
  "json_idle B True st r \<Longrightarrow> \<forall>i \<in> set items. json_item B i \<Longrightarrow>
   \<exists>r'. feed json_byte (json_stream items) r = (r', map fst items)
     \<and> json_idle B True (json_counted (length (json_stream items)) (length items) st) r'"
proof (induction items arbitrary: st r)
  case Nil
  then show ?case by (auto simp: json_stream_def)
next
  case (Cons i items)
  obtain v w where i: "i = (v, w)" by fastforce
  with Cons.prems(2) feed_text_ws [OF Cons.prems(1), of v w] obtain r1 where
    r1: "feed json_byte (v @ w) r = (r1, [v])"
    "json_idle B True (json_counted (length (v @ w)) 1 st) r1"
    by (auto simp: json_item_def)
  from Cons.IH [OF r1(2)] Cons.prems(2) obtain r2 where
    r2: "feed json_byte (json_stream items) r1 = (r2, map fst items)"
    "json_idle B True (json_counted (length (v @ w) + length (json_stream items)) (Suc (length items)) st) r2"
    by auto
  have "json_stream (i # items) = (v @ w) @ json_stream items" using i by (simp add: json_stream_def)
  with feed_append_eq [OF r1(1) r2(1)] r2(2) i show ?case by (auto simp: add.assoc)
qed

end
