(* ===== verification/Json_Grammar.thy ===== *)
theory Json_Grammar
  imports Json_Values
begin

text \<open>
  The grammar of JSON (RFC 8259) on bytes, and that its values are among the texts
  \<open>JsonProtocolReader\<close> delimits.
\<close>

definition is_hex :: "byte \<Rightarrow> bool" where
  "is_hex c \<longleftrightarrow> is_digit c \<or> (65 \<le> c \<and> c \<le> 70) \<or> (97 \<le> c \<and> c \<le> 102)"

text \<open>The characters that may follow a backslash: quote, backslash, slash, b, f, n, r, t.\<close>

definition escape_chars :: "byte list" where
  "escape_chars = [chr_quote, chr_backslash, 47, 98, chr_f, chr_n, 114, chr_t]"

inductive json_chars :: "byte list \<Rightarrow> bool" where
  chars_Nil: "json_chars []"
| chars_plain: "32 \<le> c \<Longrightarrow> c \<noteq> chr_quote \<Longrightarrow> c \<noteq> chr_backslash \<Longrightarrow> json_chars s \<Longrightarrow> json_chars (c # s)"
| chars_escape: "c \<in> set escape_chars \<Longrightarrow> json_chars s \<Longrightarrow> json_chars (chr_backslash # c # s)"
| chars_unicode: "is_hex a \<Longrightarrow> is_hex b \<Longrightarrow> is_hex c \<Longrightarrow> is_hex d \<Longrightarrow> json_chars s \<Longrightarrow>
    json_chars (chr_backslash # 117 # a # b # c # d # s)"

definition json_string :: "byte list \<Rightarrow> bool" where
  "json_string v \<longleftrightarrow> (\<exists>s. v = chr_quote # s @ [chr_quote] \<and> json_chars s)"

abbreviation chr_comma :: byte where "chr_comma \<equiv> 44"
abbreviation chr_colon :: byte where "chr_colon \<equiv> 58"

inductive json_value :: "byte list \<Rightarrow> bool"
  and json_elements :: "byte list \<Rightarrow> bool"
  and json_members :: "byte list \<Rightarrow> bool" where
  value_string: "json_string v \<Longrightarrow> json_value v"
| value_number: "json_number v \<Longrightarrow> json_value v"
| value_literal: "v \<in> json_literals \<Longrightarrow> json_value v"
| value_array_empty: "ws_text w \<Longrightarrow> json_value (chr_lbracket # w @ [chr_rbracket])"
| value_array: "json_elements es \<Longrightarrow> json_value (chr_lbracket # es @ [chr_rbracket])"
| value_object_empty: "ws_text w \<Longrightarrow> json_value (chr_lbrace # w @ [chr_rbrace])"
| value_object: "json_members ms \<Longrightarrow> json_value (chr_lbrace # ms @ [chr_rbrace])"
| elements_one: "ws_text a \<Longrightarrow> json_value v \<Longrightarrow> ws_text b \<Longrightarrow> json_elements (a @ v @ b)"
| elements_more: "ws_text a \<Longrightarrow> json_value v \<Longrightarrow> ws_text b \<Longrightarrow> json_elements es \<Longrightarrow>
    json_elements (a @ v @ b @ [chr_comma] @ es)"
| members_one: "ws_text a \<Longrightarrow> json_string k \<Longrightarrow> ws_text b \<Longrightarrow> ws_text c \<Longrightarrow> json_value v \<Longrightarrow>
    ws_text d \<Longrightarrow> json_members (a @ k @ b @ [chr_colon] @ c @ v @ d)"
| members_more: "ws_text a \<Longrightarrow> json_string k \<Longrightarrow> ws_text b \<Longrightarrow> ws_text c \<Longrightarrow> json_value v \<Longrightarrow>
    ws_text d \<Longrightarrow> json_members ms \<Longrightarrow>
    json_members (a @ k @ b @ [chr_colon] @ c @ v @ d @ [chr_comma] @ ms)"

section \<open>Values of the grammar are delimited\<close>

lemma neutral_plains: "\<forall>c \<in> set w. plain c \<Longrightarrow> neutral w"
proof (induction w)
  case Nil
  show ?case by (rule neutral_Nil)
next
  case (Cons c w)
  then have "neutral ([c] @ w)" by (intro neutral_append neutral_plain) simp_all
  then show ?case by simp
qed

lemma ws_neutral: "ws_text w \<Longrightarrow> neutral w"
  by (rule neutral_plains) (auto simp: ws_text_def is_ws_def plain_def opener_def closer_def)

lemma number_neutral: "json_number v \<Longrightarrow> neutral v"
  by (rule neutral_plains)
    (use json_number_bytes(1) in \<open>fastforce simp: is_number_byte_def is_digit_def plain_def opener_def closer_def\<close>)

lemma literal_neutral: "v \<in> json_literals \<Longrightarrow> neutral v"
  by (rule neutral_plains)
    (auto simp: json_literals_def lit_true_def lit_false_def lit_null_def plain_def opener_def closer_def)

lemma is_hex_plain: "is_hex c \<Longrightarrow> c \<noteq> chr_quote \<and> c \<noteq> chr_backslash"
  by (auto simp: is_hex_def is_digit_def)

lemma json_chars_run: "json_chars s \<Longrightarrow> esc_run False s = Some False"
  by (induction rule: json_chars.induct) (auto simp: esc_next_def dest!: is_hex_plain)

lemma json_string_text: "json_string v \<Longrightarrow> string_text v"
  by (auto simp: json_string_def string_text_def json_chars_run)

lemma string_neutral: "json_string v \<Longrightarrow> neutral v"
  by (intro neutral_string json_string_text)

lemma separator_neutral: "neutral [chr_comma]" "neutral [chr_colon]"
  by (rule neutral_plains, simp add: plain_def opener_def closer_def)+

lemma closes_pairs: "closes chr_lbracket chr_rbracket" "closes chr_lbrace chr_rbrace"
  by (simp_all add: closes_def)

lemma neutral_closed:
  "neutral t \<Longrightarrow> neutral (chr_lbracket # t @ [chr_rbracket])"
  "neutral t \<Longrightarrow> neutral (chr_lbrace # t @ [chr_rbrace])"
  by (rule neutral_pair, assumption, rule closes_pairs)+

lemma grammar_neutral:
  "json_value v \<Longrightarrow> neutral v"
  "json_elements es \<Longrightarrow> neutral es"
  "json_members ms \<Longrightarrow> neutral ms"
  by (induction rule: json_value_json_elements_json_members.inducts)
    (simp_all only: string_neutral number_neutral literal_neutral ws_neutral separator_neutral
      neutral_closed neutral_append)

lemma json_value_text:
  assumes "json_value v"
  shows "json_text v"
  using assms
proof cases
  case value_string
  then show ?thesis by (simp add: json_text_def json_string_text)
next
  case (value_array_empty w)
  then show ?thesis
    using closes_pairs(1) ws_neutral unfolding json_text_def framed_def by blast
next
  case (value_array es)
  then show ?thesis
    using closes_pairs(1) grammar_neutral(2) unfolding json_text_def framed_def by blast
next
  case (value_object_empty w)
  then show ?thesis
    using closes_pairs(2) ws_neutral unfolding json_text_def framed_def by blast
next
  case (value_object ms)
  then show ?thesis
    using closes_pairs(2) grammar_neutral(3) unfolding json_text_def framed_def by blast
qed (simp_all add: json_text_def)

end
