(* ===== verification/Json_Soundness.thy ===== *)
theory Json_Soundness
  imports Json_Values
begin

text \<open>
  The invariant of \<open>JsonProtocolReader\<close>. Between two bytes the buffer holds the beginning of a
  text the reader delimits: for a container, the opening brackets of the text that are still open
  are exactly the reader's stack. It follows that every delivered view is such a text, that it is
  not longer than the buffer, and that the overflow branch of \<open>push_container\<close>, the underflow
  branch of \<open>pop_container\<close> and the null-literal branch cannot be reached.
\<close>

text \<open>\<open>open_text opens t\<close>: \<open>t\<close> starts with a bracket and leaves the brackets \<open>opens\<close> open.\<close>

inductive open_text :: "byte list \<Rightarrow> byte list \<Rightarrow> bool" where
  open_first: "opener b \<Longrightarrow> open_text [b] [b]"
| open_neutral: "open_text os t \<Longrightarrow> neutral n \<Longrightarrow> open_text os (t @ n)"
| open_more: "open_text os t \<Longrightarrow> opener b \<Longrightarrow> open_text (os @ [b]) (t @ [b])"

lemma open_text_facts:
  "open_text os t \<Longrightarrow> os \<noteq> [] \<and> t \<noteq> [] \<and> length os \<le> length t \<and> (\<forall>b \<in> set os. opener b)"
  by (induction rule: open_text.induct) auto

text \<open>The text since the innermost open bracket is neutral.\<close>

lemma open_text_last:
  "open_text os t \<Longrightarrow> \<exists>t' n. t = t' @ last os # n \<and> neutral n
     \<and> (butlast os = [] \<and> t' = [] \<or> open_text (butlast os) t')"
proof (induction rule: open_text.induct)
  case (open_first b)
  then show ?case using neutral_Nil by auto
next
  case (open_neutral os t n)
  then obtain t' m where "t = t' @ last os # m" "neutral m"
    "butlast os = [] \<and> t' = [] \<or> open_text (butlast os) t'" by blast
  with open_neutral.hyps(2) show ?case
    by (intro exI [of _ t'] exI [of _ "m @ n"]) (simp add: neutral_append)
next
  case (open_more os t b)
  then show ?case using neutral_Nil by (intro exI [of _ t] exI [of _ "[]"]) auto
qed

lemma open_text_close:
  assumes "open_text (os @ [b]) t" "closes b c"
  shows "if os = [] then framed (t @ [c]) else open_text os (t @ [c])"
proof -
  from open_text_last [OF assms(1)] obtain t' n where
    t: "t = t' @ b # n" "neutral n" "os = [] \<and> t' = [] \<or> open_text os t'" by auto
  show ?thesis
  proof (cases "os = []")
    case True
    with t open_text_facts [of "[]" t'] assms(2) show ?thesis by (auto simp: framed_def)
  next
    case False
    with t have "open_text os t'" by simp
    from open_text.open_neutral [OF this neutral_pair [OF t(2) assms(2)]] False t(1) show ?thesis by simp
  qed
qed

section \<open>The invariant\<close>

definition json_state_ok ::
  "json_state \<Rightarrow> byte list \<Rightarrow> bool \<Rightarrow> bool \<Rightarrow> byte list \<Rightarrow> byte list option \<Rightarrow> nat \<Rightarrow> bool" where
  "json_state_ok s opens ins esc tx lit pos \<longleftrightarrow>
     (case s of
        Idle \<Rightarrow> opens = [] \<and> \<not> ins \<and> \<not> esc \<and> tx = []
      | Container \<Rightarrow>
          if ins then \<exists>t s. tx = t @ chr_quote # s \<and> open_text opens t \<and> esc_run False s = Some esc
          else \<not> esc \<and> open_text opens tx
      | StringValue \<Rightarrow> opens = [] \<and> \<not> ins \<and> (\<exists>s. tx = chr_quote # s \<and> esc_run False s = Some esc)
      | NumberValue \<Rightarrow> opens = [] \<and> \<not> ins \<and> \<not> esc \<and> tx \<noteq> []
      | LiteralValue \<Rightarrow> opens = [] \<and> \<not> ins \<and> \<not> esc \<and>
          (\<exists>l \<in> json_literals. lit = Some l \<and> 0 < pos \<and> pos < length l \<and> tx = take pos l))"

definition json_inv :: "nat \<Rightarrow> json_reader \<Rightarrow> bool" where
  "json_inv B r \<longleftrightarrow> (\<exists>opens ins esc tx.
     json_cfg B (js_skip_ws r) (js_state r) opens ins esc tx (js_stats r) r
     \<and> json_state_ok (js_state r) opens ins esc tx (js_literal r) (js_literal_pos r))"

definition json_good :: "nat \<Rightarrow> json_reader \<times> byte list list \<Rightarrow> bool" where
  "json_good B p \<longleftrightarrow> (case p of (r, vs) \<Rightarrow> json_inv B r \<and> (\<forall>v \<in> set vs. json_text v \<and> v \<noteq> [] \<and> length v \<le> B))"

lemma json_invI:
  assumes "json_cfg B sk s opens ins esc tx st r"
    "json_state_ok s opens ins esc tx (js_literal r) (js_literal_pos r)"
  shows "json_inv B r"
  using assms json_cfg_flags [OF assms(1)]
  unfolding json_inv_def by (intro exI conjI) (simp_all add: json_cfg_def)

lemma json_idle_inv: "json_idle B sk st r \<Longrightarrow> json_inv B r"
  by (erule json_invI) (simp add: json_state_ok_def)

lemma json_text_nonempty: "json_text v \<Longrightarrow> v \<noteq> []"
  by (auto simp: json_text_def framed_def string_text_def json_literals_def lit_true_def lit_false_def
      lit_null_def dest: json_number_bytes(2))

lemma json_good_view:
  "json_idle B sk st r \<Longrightarrow> json_text v \<Longrightarrow> length v \<le> B \<Longrightarrow> json_good B (r, [v])"
  by (simp add: json_good_def json_idle_inv json_text_nonempty)

lemma json_good_Nil: "json_inv B r \<Longrightarrow> json_good B (r, [])"
  by (simp add: json_good_def)

lemma json_error_inv:
  assumes "json_cfg B sk s opens ins esc tx st r"
  shows "json_inv B (json_error r)" "json_inv B (json_overflow r)"
  using assms
  by (auto intro!: json_idle_inv [of B sk] simp: json_error_def json_overflow_def json_reset_def json_cfg_def)

lemma json_cfg_length: "json_cfg B sk s opens ins esc tx st r \<Longrightarrow> length tx \<le> B"
  by (auto simp: json_cfg_def)

lemma json_append_full:
  assumes "json_cfg B sk s opens ins esc tx st r" "length tx = B"
  shows "json_append c r = (False, json_overflow r)"
proof -
  have "js_size r \<le> length (js_buffer r)" "take (js_size r) (js_buffer r) = tx"
    "length (js_buffer r) = B"
    using assms(1) by (simp_all add: json_cfg_def)
  with assms(2) have "js_size r = length (js_buffer r)" by (metis length_take min_absorb2)
  then show ?thesis by (simp add: json_append_def)
qed

lemma json_byte_overflow:
  assumes "json_cfg B sk s opens ins esc tx st r" "length tx = B" "s = Container \<or> s = StringValue"
  shows "json_good B (json_byte c r)"
proof -
  from json_byte_cfg [OF assms(1)] obtain r1 where
    r1: "json_byte c r = json_consume c r1" "js_state r1 = s"
    "json_cfg B sk s opens ins esc tx (json_counted 1 0 st) r1" by blast
  from assms(3) r1(2) json_append_full [OF r1(3) assms(2), of c]
  have "json_consume c r1 = (json_overflow r1, [])"
    by (elim disjE)
      (simp_all add: json_consume_state json_consume_container_def json_consume_string_def)
  with r1(1) json_error_inv(2) [OF r1(3)] show ?thesis by (simp add: json_good_Nil)
qed

lemma json_mismatch:
  assumes "json_cfg B sk Container (opens @ [b]) False esc tx st r" "length tx < B" "opener b"
    "closer c" "\<not> closes b c"
  shows "json_good B (json_byte c r)"
proof -
  from json_byte_cfg [OF assms(1)] obtain r1 where
    r1: "json_byte c r = json_consume c r1" "js_state r1 = Container"
    "json_cfg B sk Container (opens @ [b]) False esc tx (json_counted 1 0 st) r1" by blast
  from json_append_cfg [OF r1(3) assms(2), of c] obtain r2 where
    r2: "json_append c r1 = (True, r2)"
    "json_cfg B sk Container (opens @ [b]) False esc (tx @ [c]) (json_counted 1 0 st) r2" by blast
  from r2(2) have d: "js_depth r2 = Suc (length opens)" "take (js_depth r2) (js_stack r2) = opens @ [b]"
    by (auto simp: json_cfg_def dest: arg_cong [where f = length])
  then have "js_stack r2 ! length opens = b"
    using nth_take_in_range [of "length opens" "Suc (length opens)" "js_stack r2"] by simp
  with d(1) assms(3,5) have pop: "json_pop c r2 = (False, json_error r2)"
    by (auto simp: json_pop_def closes_def opener_def Let_def)
  have ins: "\<not> js_in_string r2" using json_cfg_flags(2) [OF r2(2)] by simp
  from assms(4) have "c = chr_rbrace \<or> c = chr_rbracket" by (auto simp: closer_def)
  then have "json_consume_container c r1 = (json_error r2, [])"
    using r2(1) pop ins by (elim disjE) (simp_all add: json_consume_container_def)
  with r1(1) json_consume_state(2) [OF r1(2)] json_error_inv(1) [OF r2(2)] show ?thesis
    by (simp add: json_good_Nil)
qed

lemma json_in_string_inv:
  assumes "json_cfg B sk Container opens True esc tx st r"
    "tx = t @ chr_quote # s" "open_text opens t" "esc_run False s = Some esc"
  shows "json_inv B r"
  using assms by (intro json_invI [OF assms(1)]) (auto simp: json_state_ok_def)

lemma byte_kind:
  obtains "plain c" | "c = chr_quote" | "opener c" | "closer c"
  by (auto simp: plain_def)

lemma json_container_good:
  assumes cfg: "json_cfg B sk Container opens False False tx st r" and "open_text opens tx"
  shows "json_good B (json_byte c r)"
proof (cases "length tx < B")
  case False
  with cfg have "length tx = B" by (auto simp: json_cfg_def)
  from json_byte_overflow [OF cfg this] show ?thesis by simp
next
  case room: True
  note o = open_text_facts [OF assms(2)]
  note step = json_byte_container [OF cfg room, of c]
  show ?thesis
  proof (cases c rule: byte_kind)
    case 1
    with step(1) o obtain r' where "json_byte c r = (r', [])"
      "json_cfg B sk Container opens False False (tx @ [c]) (json_counted 1 0 st) r'" by blast
    then show ?thesis
      using open_text.open_neutral [OF assms(2) neutral_plain [OF 1]]
      by (auto intro!: json_good_Nil json_invI simp: json_state_ok_def)
  next
    case 2
    with step(2) o obtain r' where "json_byte c r = (r', [])"
      "json_cfg B sk Container opens True False (tx @ [c]) (json_counted 1 0 st) r'" by blast
    then show ?thesis
      using json_in_string_inv [of B sk opens False _ _ r' tx "[]"] 2 assms(2)
      by (simp add: json_good_Nil)
  next
    case 3
    with step(3) o obtain r' where "json_byte c r = (r', [])"
      "json_cfg B sk Container (opens @ [c]) False False (tx @ [c]) (json_counted 1 0 st) r'" by blast
    then show ?thesis
      using open_text.open_more [OF assms(2) 3]
      by (auto intro!: json_good_Nil json_invI simp: json_state_ok_def)
  next
    case 4
    obtain os b where os: "opens = os @ [b]" using o by (cases opens rule: rev_cases) auto
    show ?thesis
    proof (cases "closes b c")
      case False
      with json_mismatch [OF cfg [unfolded os] room _ 4] o os show ?thesis by auto
    next
      case True
      note t = open_text_close [OF assms(2) [unfolded os] True]
      from json_byte_close [OF cfg [unfolded os] room True] obtain r' where r': "if os = []
        then json_byte c r = (r', [tx @ [c]]) \<and> json_idle B sk (json_counted 1 1 st) r'
        else json_byte c r = (r', [])
          \<and> json_cfg B sk Container os False False (tx @ [c]) (json_counted 1 0 st) r'" by blast
      show ?thesis
      proof (cases "os = []")
        case True
        with r' t room show ?thesis by (auto intro!: json_good_view simp: json_text_def)
      next
        case False
        with r' t show ?thesis by (auto intro!: json_good_Nil json_invI simp: json_state_ok_def)
      qed
    qed
  qed
qed

lemma esc_run_snoc:
  assumes "esc_run False s = Some esc"
  shows "esc_next esc c = Some e \<Longrightarrow> esc_run False (s @ [c]) = Some e"
    and "esc_next esc c = None \<Longrightarrow> c = chr_quote \<and> \<not> esc"
  using assms by (auto simp: esc_run_append esc_next_def split: if_splits)

lemma json_in_string_good:
  assumes cfg: "json_cfg B sk Container opens True esc tx st r"
    and tx: "tx = t @ chr_quote # s" "open_text opens t" "esc_run False s = Some esc"
  shows "json_good B (json_byte c r)"
proof (cases "length tx < B")
  case False
  with cfg have "length tx = B" by (auto simp: json_cfg_def)
  from json_byte_overflow [OF cfg this] show ?thesis by simp
next
  case True
  from json_byte_in_string [OF cfg this, of c] obtain r' where r': "json_byte c r = (r', [])"
    "json_cfg B sk Container opens (esc_next esc c \<noteq> None) (esc_next esc c = Some True) (tx @ [c])
      (json_counted 1 0 st) r'" by blast
  show ?thesis
  proof (cases "esc_next esc c")
    case None
    with esc_run_snoc(2) [OF tx(3) None] tx have "string_text (chr_quote # s @ [c])"
      by (simp add: string_text_def)
    from open_text.open_neutral [OF tx(2) neutral_string [OF this]] tx(1)
    have "open_text opens (tx @ [c])" by simp
    with r' None show ?thesis by (auto intro!: json_good_Nil json_invI simp: json_state_ok_def)
  next
    case (Some e)
    have "tx @ [c] = t @ chr_quote # (s @ [c])" using tx(1) by simp
    moreover have "esc_run False (s @ [c]) = Some (esc_next esc c = Some True)"
      using esc_run_snoc(1) [OF tx(3) Some] Some by simp
    ultimately show ?thesis
      using r' Some json_in_string_inv [OF _ _ tx(2)] by (simp add: json_good_Nil)
  qed
qed

lemma json_string_good:
  assumes cfg: "json_cfg B sk StringValue [] False esc tx st r"
    and tx: "tx = chr_quote # s" "esc_run False s = Some esc"
  shows "json_good B (json_byte c r)"
proof (cases "length tx < B")
  case False
  with cfg have "length tx = B" by (auto simp: json_cfg_def)
  from json_byte_overflow [OF cfg this] show ?thesis by simp
next
  case True
  from json_byte_string [OF cfg this, of c] obtain r' where r': "if esc_next esc c = None
    then json_byte c r = (r', [tx @ [c]]) \<and> json_idle B sk (json_counted 1 1 st) r'
    else json_byte c r = (r', []) \<and> json_cfg B sk StringValue [] False
      (esc_next esc c = Some True) (tx @ [c]) (json_counted 1 0 st) r'" by blast
  show ?thesis
  proof (cases "esc_next esc c")
    case None
    with esc_run_snoc(2) [OF tx(2) None] tx have "string_text (tx @ [c])"
      by (simp add: string_text_def)
    with r' None True show ?thesis by (auto intro!: json_good_view simp: json_text_def)
  next
    case (Some e)
    have "esc_run False (s @ [c]) = Some (esc_next esc c = Some True)"
      using esc_run_snoc(1) [OF tx(2) Some] Some by simp
    with r' Some tx(1) show ?thesis
      by (auto intro!: json_good_Nil json_invI simp: json_state_ok_def)
  qed
qed

lemma json_start_literal_good:
  assumes cfg: "json_idle B sk st r" and l: "l \<in> json_literals" "l ! 0 = c"
  shows "json_good B (json_start_literal l c r)"
proof -
  let ?r1 = "r\<lparr>js_literal := Some l, js_literal_pos := 0, js_state := LiteralValue\<rparr>"
  note f = json_literals_facts [OF l(1)]
  have cfg1: "json_cfg B sk LiteralValue [] False False [] st ?r1"
    using cfg by (simp add: json_cfg_def)
  have nz: "c \<noteq> 0" "l ! 1 \<noteq> 0" using f(1,2) l(2) by (metis nth_mem less_trans zero_less_one)+
  show ?thesis
  proof (cases "B = 0")
    case True
    then have "json_append c ?r1 = (False, json_overflow ?r1)"
      using json_append_full [OF cfg1] by simp
    with nz(1) l(2) f(2) have "json_start_literal l c r = (json_overflow ?r1, [])"
      by (auto simp: json_start_literal_def json_consume_literal_def c_char_def)
    with json_error_inv(2) [OF cfg1] show ?thesis by (simp add: json_good_Nil)
  next
    case False
    with json_append_cfg [OF cfg1, of c] obtain r2 where
      r2: "json_append c ?r1 = (True, r2)" "json_cfg B sk LiteralValue [] False False [c] st r2"
      "js_literal r2 = Some l" "js_literal_pos r2 = 0" by auto
    have "json_start_literal l c r = (r2\<lparr>js_literal_pos := 1\<rparr>, [])"
      using nz l(2) f(2) r2 by (auto simp: json_start_literal_def json_consume_literal_def c_char_def)
    moreover have "json_cfg B sk LiteralValue [] False False [c] st (r2\<lparr>js_literal_pos := 1\<rparr>)"
      using r2(2) by (simp add: json_cfg_def)
    moreover have "[c] = take 1 l" using f(2) l(2) by (cases l) auto
    ultimately show ?thesis
      using r2(3) f(2) l(1) by (auto intro!: json_good_Nil json_invI simp: json_state_ok_def)
  qed
qed

lemma json_idle_good:
  assumes cfg: "json_idle B sk st r"
  shows "json_good B (json_consume_idle c r)"
proof -
  have lits: "lit_true \<in> json_literals" "lit_false \<in> json_literals" "lit_null \<in> json_literals"
    "lit_true ! 0 = chr_t" "lit_false ! 0 = chr_f" "lit_null ! 0 = chr_n"
    by (simp_all add: json_literals_def lit_true_def lit_false_def lit_null_def)
  note facts = json_error_inv [OF cfg] json_good_Nil json_idle_inv [OF cfg]
    json_start_literal_good [OF cfg lits(1,4)] json_start_literal_good [OF cfg lits(2,5)]
    json_start_literal_good [OF cfg lits(3,6)]
  show ?thesis
  proof (cases "B = 0")
    case True
    then have "json_append c r = (False, json_overflow r)" using json_append_full [OF cfg] by simp
    then show ?thesis using facts by (auto simp: json_consume_idle_def)
  next
    case False
    then have B: "0 < B" by simp
    from json_append_cfg [OF cfg, of c] B obtain r2 where
      r2: "json_append c r = (True, r2)" "json_cfg B sk Idle [] False False [c] st r2" by auto
    from json_push_cfg [OF r2(2), of c] obtain r3 where
      r3: "json_push c r2 = (True, r3)" "json_cfg B sk Idle [c] False False [c] st r3" by auto
    have "opener c \<Longrightarrow> json_inv B (r3\<lparr>js_state := Container, js_in_string := False, js_escape := False\<rparr>)"
      using r3(2) open_text.open_first
      by (intro json_invI [of B sk Container "[c]" False False "[c]" st])
        (auto simp: json_cfg_def json_state_ok_def)
    moreover have "json_inv B (r2\<lparr>js_state := StringValue, js_escape := False\<rparr>)" if "c = chr_quote"
      using r2(2) that
      by (intro json_invI [of B sk StringValue "[]" False False "[c]" st])
        (auto simp: json_cfg_def json_state_ok_def)
    moreover have "json_inv B (r2\<lparr>js_state := NumberValue\<rparr>)"
      using r2(2)
      by (intro json_invI [of B sk NumberValue "[]" False False "[c]" st])
        (auto simp: json_cfg_def json_state_ok_def)
    ultimately show ?thesis using facts r2(1) r3(1)
      by (auto simp: json_consume_idle_def opener_def)
  qed
qed

lemma json_literal_good:
  assumes cfg: "json_cfg B sk LiteralValue [] False False (take n l) st r"
    and l: "l \<in> json_literals" "js_literal r = Some l" "js_literal_pos r = n" "0 < n" "n < length l"
  shows "json_good B (json_consume_literal c r)"
proof -
  note f = json_literals_facts [OF l(1)]
  have nz: "l ! n \<noteq> 0" using f(1) l(5) by (metis nth_mem)
  have len: "length (take n l) = n" using l(5) by simp
  have nB: "n \<le> B" using json_cfg_length [OF cfg] len by simp
  show ?thesis
  proof (cases "c = l ! n")
    case False
    then have "json_consume_literal c r = (json_error r, [])"
      using l by (auto simp: json_consume_literal_def c_char_def)
    with json_error_inv(1) [OF cfg] show ?thesis by (simp add: json_good_Nil)
  next
    case c: True
    show ?thesis
    proof (cases "n < B")
      case False
      with nB len json_append_full [OF cfg, of c] have "json_append c r = (False, json_overflow r)" by simp
      with c l nz have "json_consume_literal c r = (json_overflow r, [])"
        by (simp add: json_consume_literal_def c_char_def)
      with json_error_inv(2) [OF cfg] show ?thesis by (simp add: json_good_Nil)
    next
      case True
      from json_append_cfg [OF cfg, of c] True len obtain r2 where
        r2: "json_append c r = (True, r2)"
        "json_cfg B sk LiteralValue [] False False (take (Suc n) l) st r2"
        "js_literal r2 = Some l" "js_literal_pos r2 = n"
        using l c by (auto simp: take_Suc_conv_app_nth)
      let ?r3 = "r2\<lparr>js_literal_pos := Suc n\<rparr>"
      have cfg3: "json_cfg B sk LiteralValue [] False False (take (Suc n) l) st ?r3"
        using r2(2) by (simp add: json_cfg_def)
      have run: "json_consume_literal c r = (if Suc n = length l then json_emit ?r3 else (?r3, []))"
        using c l nz r2 f(1) by (auto simp: json_consume_literal_def c_char_def Let_def)
          (metis less_antisym not_less_eq nth_mem)
      show ?thesis
      proof (cases "Suc n = length l")
        case True
        with json_emit_cfg [OF cfg3] run l(1) \<open>n < B\<close> show ?thesis
          by (auto intro!: json_good_view simp: json_text_def)
      next
        case False
        with run cfg3 r2(3) l(1,5) show ?thesis
          by (auto intro!: json_good_Nil json_invI simp: json_state_ok_def)
      qed
    qed
  qed
qed

lemma json_number_good:
  assumes cfg: "json_cfg B sk NumberValue [] False False tx st r" and "tx \<noteq> []"
  shows "json_good B (json_consume c r)"
proof (cases "is_number_byte c")
  case True
  note run = json_consume_state(5) [OF json_cfg_flags(1) [OF cfg] True]
  show ?thesis
  proof (cases "length tx < B")
    case True
    from json_append_cfg [OF cfg True, of c] obtain r2 where r2: "json_append c r = (True, r2)"
      "json_cfg B sk NumberValue [] False False (tx @ [c]) st r2" by blast
    then show ?thesis unfolding run
      by (auto intro!: json_good_Nil json_invI simp: json_state_ok_def)
  next
    case False
    with cfg have "length tx = B" by (auto simp: json_cfg_def)
    from json_append_full [OF cfg this] json_error_inv(2) [OF cfg] show ?thesis
      unfolding run by (simp add: json_good_Nil)
  qed
next
  case False
  note run = json_consume_state(6) [OF json_cfg_flags(1) [OF cfg] False]
  show ?thesis
  proof (cases "valid_number tx")
    case True
    from json_emit_cfg [OF cfg] obtain r1 where r1: "json_emit r = (r1, [tx])"
      "json_idle B sk (json_counted 0 1 st) r1" by blast
    with True have fin: "json_finish_number r = (r1, [tx])"
      using json_cfg_flags(5) [OF cfg] by (simp add: json_finish_number_def)
    have "length tx \<le> B" using cfg by (auto simp: json_cfg_def)
    with True assms(2) json_idle_good [OF r1(2), of c] show ?thesis
      unfolding run fin by (auto simp: json_good_def json_text_def valid_number_grammar split: prod.splits)
  next
    case False
    then have fin: "json_finish_number r = (json_error r, [])"
      using json_cfg_flags(5) [OF cfg] by (simp add: json_finish_number_def)
    have "json_idle B sk (js_stats (json_error r)) (json_error r)"
      using cfg by (auto simp: json_error_def json_reset_def json_cfg_def)
    from json_idle_good [OF this, of c] show ?thesis unfolding run fin
      by (simp split: prod.splits)
  qed
qed

lemma json_byte_good:
  assumes "json_inv B r"
  shows "json_good B (json_byte c r)"
proof -
  let ?sk = "js_skip_ws r"
  from assms obtain opens ins esc tx where
    cfg: "json_cfg B ?sk (js_state r) opens ins esc tx (js_stats r) r"
    and ok: "json_state_ok (js_state r) opens ins esc tx (js_literal r) (js_literal_pos r)"
    by (auto simp: json_inv_def)
  from json_byte_cfg [OF cfg] obtain r1 where
    r1: "json_byte c r = json_consume c r1" "js_state r1 = js_state r"
    "json_cfg B ?sk (js_state r) opens ins esc tx (json_counted 1 0 (js_stats r)) r1"
    "js_literal r1 = js_literal r" "js_literal_pos r1 = js_literal_pos r" by blast
  show ?thesis
  proof (cases "js_state r")
    case Idle
    with ok r1 json_idle_good show ?thesis by (simp add: json_state_ok_def json_consume_state(1))
  next
    case Container
    show ?thesis
    proof (cases ins)
      case True
      with ok Container obtain t s where "tx = t @ chr_quote # s" "open_text opens t"
        "esc_run False s = Some esc" by (auto simp: json_state_ok_def)
      with cfg Container True json_in_string_good show ?thesis by simp
    next
      case False
      with ok cfg Container json_container_good show ?thesis by (simp add: json_state_ok_def)
    qed
  next
    case StringValue
    with ok obtain s where "opens = []" "\<not> ins" "tx = chr_quote # s" "esc_run False s = Some esc"
      by (auto simp: json_state_ok_def)
    with cfg StringValue json_string_good show ?thesis by simp
  next
    case NumberValue
    with ok r1 json_number_good show ?thesis by (simp add: json_state_ok_def)
  next
    case LiteralValue
    with ok obtain l where "opens = []" "\<not> ins" "\<not> esc" "l \<in> json_literals" "js_literal r = Some l"
      "0 < js_literal_pos r" "js_literal_pos r < length l" "tx = take (js_literal_pos r) l"
      by (auto simp: json_state_ok_def)
    with r1 LiteralValue json_literal_good [of B ?sk "js_literal_pos r" l _ r1 c] show ?thesis
      by (simp add: json_consume_state(4))
  qed
qed

lemma json_feed_good: "json_inv B r \<Longrightarrow> json_good B (feed json_byte bs r)"
proof (induction bs arbitrary: r)
  case Nil
  then show ?case by (simp add: json_good_Nil)
next
  case (Cons c bs)
  obtain r1 us where b: "json_byte c r = (r1, us)" by fastforce
  with json_byte_good [OF Cons.prems, of c] have good: "json_good B (r1, us)" by simp
  then have "json_good B (feed json_byte bs r1)" by (intro Cons.IH) (simp add: json_good_def)
  with good b show ?case by (auto simp: json_good_def split: prod.splits)
qed

end
