(* ===== verification/Callback_Task.thy ===== *)
theory Callback_Task
  imports Prelude
begin

text \<open>
  \<open>CallbackTask\<close> of \<^verbatim>\<open>src/async_event_loop/scheduler.hpp\<close>: one callable in static storage, whose
  destruction is deferred while it is being executed. The storage and the function pointers
  \<open>invoke_\<close> and \<open>destroy_\<close> are set and reset together and are one optional value here;
  \<open>ct_destroyed\<close> records the destructor calls. \<open>poll\<close> is split at the call of the callable,
  because the callable may itself operate on the task.
\<close>

record 'f callback_task =
  ct_callable :: "'f option"
  ct_active :: bool
  ct_enabled :: bool
  ct_invoking :: bool
  ct_clear_requested :: bool
  ct_destroyed :: "'f list"

definition ct_init :: "'f callback_task" where
  "ct_init = \<lparr>ct_callable = None, ct_active = False, ct_enabled = False, ct_invoking = False,
     ct_clear_requested = False, ct_destroyed = []\<rparr>"

definition ct_destroy_now :: "'f callback_task \<Rightarrow> 'f callback_task" where
  "ct_destroy_now t =
     (let t1 = (case ct_callable t of
                  Some f \<Rightarrow> if ct_active t \<or> ct_clear_requested t
                            then t\<lparr>ct_destroyed := ct_destroyed t @ [f]\<rparr> else t
                | None \<Rightarrow> t)
      in t1\<lparr>ct_active := False, ct_enabled := False, ct_clear_requested := False, ct_callable := None\<rparr>)"

definition ct_clear :: "'f callback_task \<Rightarrow> 'f callback_task" where
  "ct_clear t =
     (if ct_invoking t then t\<lparr>ct_active := False, ct_enabled := False, ct_clear_requested := True\<rparr>
      else ct_destroy_now t)"

definition ct_set :: "'f \<Rightarrow> 'f callback_task \<Rightarrow> bool \<times> 'f callback_task" where
  "ct_set f t =
     (let t1 = ct_clear t
      in if ct_invoking t1 then (False, t1)
         else (True, t1\<lparr>ct_callable := Some f, ct_active := True, ct_enabled := True,
                       ct_clear_requested := False\<rparr>))"

definition ct_set_enabled :: "bool \<Rightarrow> 'f callback_task \<Rightarrow> 'f callback_task" where
  "ct_set_enabled on t = (if ct_active t then t\<lparr>ct_enabled := on\<rparr> else t)"

definition ct_poll_begin :: "'f callback_task \<Rightarrow> ('f \<times> 'f callback_task) option" where
  "ct_poll_begin t =
     (case ct_callable t of
        Some f \<Rightarrow> if ct_active t \<and> ct_enabled t then Some (f, t\<lparr>ct_invoking := True\<rparr>) else None
      | None \<Rightarrow> None)"

definition ct_poll_end :: "'f callback_task \<Rightarrow> 'f callback_task" where
  "ct_poll_end t =
     (let t1 = t\<lparr>ct_invoking := False\<rparr>
      in if ct_clear_requested t1 then ct_destroy_now t1 else t1)"

section \<open>Invariant\<close>

text \<open>A callable is stored exactly while the task is active or waits for a deferred destruction.\<close>

definition ct_inv :: "'f callback_task \<Rightarrow> bool" where
  "ct_inv t \<longleftrightarrow> (ct_callable t \<noteq> None \<longleftrightarrow> ct_active t \<or> ct_clear_requested t)
     \<and> (ct_enabled t \<longrightarrow> ct_active t)
     \<and> (ct_clear_requested t \<longrightarrow> ct_invoking t \<and> \<not> ct_active t)
     \<and> (ct_invoking t \<longrightarrow> ct_callable t \<noteq> None)"

lemmas ct_defs = ct_init_def ct_destroy_now_def ct_clear_def ct_set_def ct_set_enabled_def
  ct_poll_begin_def ct_poll_end_def ct_inv_def Let_def

lemma ct_inv_init [simp]: "ct_inv ct_init"
  by (simp add: ct_defs)

lemma ct_inv_clear: "ct_inv t \<Longrightarrow> ct_inv (ct_clear t)"
  by (auto simp: ct_defs split: option.splits)

lemma ct_inv_set: "ct_inv t \<Longrightarrow> ct_inv (snd (ct_set f t))"
  by (auto simp: ct_defs split: option.splits)

lemma ct_inv_set_enabled: "ct_inv t \<Longrightarrow> ct_inv (ct_set_enabled on t)"
  by (auto simp: ct_defs)

lemma ct_inv_poll_begin: "ct_inv t \<Longrightarrow> ct_poll_begin t = Some (f, t') \<Longrightarrow> ct_inv t'"
  by (auto simp: ct_defs split: option.splits if_splits)

lemma ct_inv_poll_end: "ct_inv t \<Longrightarrow> ct_inv (ct_poll_end t)"
  by (auto simp: ct_defs split: option.splits)

lemma ct_clear_simps [loop_simps]:
  "\<not> ct_active (ct_clear t)"
  "\<not> ct_enabled (ct_clear t)"
  "ct_invoking (ct_clear t) = ct_invoking t"
  by (auto simp: ct_defs split: option.splits)

lemma ct_set_simps [loop_simps]:
  "fst (ct_set f t) \<longleftrightarrow> \<not> ct_invoking t"
  "ct_active (snd (ct_set f t)) \<longleftrightarrow> \<not> ct_invoking t"
  "ct_invoking (snd (ct_set f t)) = ct_invoking t"
  "\<not> ct_invoking t \<Longrightarrow> ct_enabled (snd (ct_set f t)) \<and> ct_callable (snd (ct_set f t)) = Some f"
  by (auto simp: ct_defs split: option.splits)

lemma ct_set_enabled_simps [loop_simps]:
  "ct_active (ct_set_enabled on t) = ct_active t"
  "ct_invoking (ct_set_enabled on t) = ct_invoking t"
  "ct_callable (ct_set_enabled on t) = ct_callable t"
  "ct_active t \<Longrightarrow> ct_enabled (ct_set_enabled on t) = on"
  by (auto simp: ct_defs)

lemma ct_poll_end_simps [loop_simps]:
  "\<not> ct_invoking (ct_poll_end t)"
  "ct_inv t \<Longrightarrow> ct_active (ct_poll_end t) = ct_active t"
  by (auto simp: ct_defs split: option.splits)

section \<open>Lifetime of the stored callables\<close>

datatype 'f ct_op = Op_Set 'f | Op_Clear | Op_Enable bool | Op_Poll_Begin | Op_Poll_End

text \<open>
  One operation; the second component records the callable it stored, if it stored one. A poll that
  finds nothing to invoke leaves the task alone.
\<close>

fun ct_step :: "'f ct_op \<Rightarrow> 'f callback_task \<Rightarrow> 'f callback_task \<times> 'f list" where
  "ct_step (Op_Set f) t = (case ct_set f t of (ok, t') \<Rightarrow> (t', if ok then [f] else []))"
| "ct_step Op_Clear t = (ct_clear t, [])"
| "ct_step (Op_Enable on) t = (ct_set_enabled on t, [])"
| "ct_step Op_Poll_Begin t =
     (case ct_poll_begin t of None \<Rightarrow> (t, []) | Some (f, t') \<Rightarrow> (t', []))"
| "ct_step Op_Poll_End t = (ct_poll_end t, [])"

fun ct_run :: "'f ct_op list \<Rightarrow> 'f callback_task \<Rightarrow> 'f callback_task \<times> 'f list" where
  "ct_run [] t = (t, [])"
| "ct_run (p # ps) t =
     (let (t1, fs) = ct_step p t; (t2, gs) = ct_run ps t1 in (t2, fs @ gs))"

definition ct_stored :: "'f callback_task \<Rightarrow> 'f list" where
  "ct_stored t = (case ct_callable t of None \<Rightarrow> [] | Some f \<Rightarrow> [f])"

lemma ct_step_account:
  assumes "ct_inv t" "ct_step p t = (t', fs)"
  shows "ct_inv t' \<and> ct_destroyed t' @ ct_stored t' = ct_destroyed t @ ct_stored t @ fs"
  using assms
  by (cases p) (auto simp: ct_defs ct_stored_def split: option.splits if_splits)

text \<open>
  Nothing is destroyed twice, lost or destroyed out of order: the callables destroyed so far and
  the one still stored are exactly the callables ever stored, in that order.
\<close>

lemma ct_run_account:
  "ct_inv t \<Longrightarrow> ct_run ps t = (t', fs) \<Longrightarrow>
   ct_inv t' \<and> ct_destroyed t' @ ct_stored t' = ct_destroyed t @ ct_stored t @ fs"
proof (induction ps arbitrary: t t' fs)
  case Nil
  then show ?case by simp
next
  case (Cons p ps)
  obtain t1 us where s: "ct_step p t = (t1, us)" by fastforce
  obtain t2 vs where r: "ct_run ps t1 = (t2, vs)" by fastforce
  note a = ct_step_account [OF Cons.prems(1) s]
  with Cons.IH [OF _ r] Cons.prems(2) s r show ?case by auto
qed

text \<open>While the callable runs, no operation it performs on its own task destroys or replaces it.\<close>

definition ct_callback_op :: "'f ct_op \<Rightarrow> bool" where
  "ct_callback_op p \<longleftrightarrow> p \<noteq> Op_Poll_End"

lemma ct_step_invoking:
  assumes "ct_inv t" "ct_invoking t" "ct_callback_op p" "ct_step p t = (t', fs)"
  shows "ct_inv t' \<and> ct_invoking t' \<and> ct_callable t' = ct_callable t
    \<and> ct_destroyed t' = ct_destroyed t \<and> fs = []"
  using assms
  by (cases p) (auto simp: ct_defs ct_callback_op_def split: option.splits if_splits)

lemma ct_run_invoking:
  "ct_inv t \<Longrightarrow> ct_invoking t \<Longrightarrow> \<forall>p \<in> set ps. ct_callback_op p \<Longrightarrow> ct_run ps t = (t', fs) \<Longrightarrow>
   ct_inv t' \<and> ct_invoking t' \<and> ct_callable t' = ct_callable t \<and> ct_destroyed t' = ct_destroyed t"
proof (induction ps arbitrary: t t' fs)
  case Nil
  then show ?case by simp
next
  case (Cons p ps)
  obtain t1 us where s: "ct_step p t = (t1, us)" by fastforce
  obtain t2 vs where r: "ct_run ps t1 = (t2, vs)" by fastforce
  from Cons.prems(3) have p: "ct_callback_op p" "\<forall>p \<in> set ps. ct_callback_op p" by simp_all
  note a = ct_step_invoking [OF Cons.prems(1,2) p(1) s]
  with Cons.IH [OF _ _ p(2) r] Cons.prems(4) s r show ?case by auto
qed

text \<open>
  Over any sequence of operations on a callback task, including those its own callable performs
  while it runs, every callable that was ever stored is destroyed exactly once or still stored,
  in the order they were stored.
\<close>

theorem callables_destroyed_once:
  "case ct_run ps ct_init of (t, stored) \<Rightarrow> ct_destroyed t @ ct_stored t = stored"
  using ct_run_account [OF ct_inv_init, of ps] by (auto simp: ct_init_def ct_stored_def split: prod.splits)

end
