(* ===== verification/Arduino_Loop.thy ===== *)
theory Arduino_Loop
  imports Timers
begin

text \<open>
  \<open>ArduinoLoopImpl\<close> of \<^verbatim>\<open>src/async_event_loop_arduino/arduino_loop.hpp\<close>: the cooperative scheduler. A
  task is identified by a number (its address in the source). The state of a run is the scheduler
  together with an arbitrary other state \<open>'w\<close>, because the polled tasks may call the scheduler.
  The template parameter \<open>MaxTasks\<close> is the length of \<open>al_tasks\<close>. \<open>clock_\<close> is the parameter \<open>clk\<close>:
  a reading of \<open>micros()\<close> may change the clock's own state.
\<close>

record task_slot =
  ts_task :: "nat option"
  ts_period_us :: u64
  ts_next_due_us :: u64
  ts_periodic :: bool
  ts_active :: bool

definition ts_default :: task_slot where
  "ts_default = \<lparr>ts_task = None, ts_period_us = 0, ts_next_due_us = 0, ts_periodic = False,
     ts_active = False\<rparr>"

record arduino_loop =
  al_tasks :: "task_slot list"
  al_count :: nat
  al_exit_requested :: bool
  al_running :: bool

definition al_init :: "nat \<Rightarrow> arduino_loop" where
  "al_init max_tasks = \<lparr>al_tasks = replicate max_tasks ts_default, al_count = 0,
     al_exit_requested = False, al_running = False\<rparr>"

definition ts_live :: "task_slot \<Rightarrow> bool" where
  "ts_live s \<longleftrightarrow> ts_active s \<and> ts_task s \<noteq> None"

definition al_erase :: "nat \<Rightarrow> arduino_loop \<Rightarrow> arduino_loop" where
  "al_erase index l =
     (if index \<ge> al_count l then l
      else let ts = shift_down (al_tasks l) (index + 1) (al_count l); n = al_count l - 1
           in l\<lparr>al_tasks := ts[n := ts_default], al_count := n\<rparr>)"

lemma al_count_erase: "i < al_count l \<Longrightarrow> al_count (al_erase i l) = al_count l - 1"
  by (simp add: al_erase_def Let_def)

function al_compact_from :: "nat \<Rightarrow> arduino_loop \<Rightarrow> arduino_loop" where
  "al_compact_from i l =
     (if i < al_count l
      then if \<not> ts_live (al_tasks l ! i) then al_compact_from i (al_erase i l)
           else al_compact_from (Suc i) l
      else l)"
  by pat_completeness auto
termination
  by (relation "measure (\<lambda>(i, l). al_count l - i)") (auto simp: al_count_erase)

declare al_compact_from.simps [simp del]

definition al_compact_inactive :: "arduino_loop \<Rightarrow> arduino_loop" where
  "al_compact_inactive l = al_compact_from 0 l"

definition al_push :: "task_slot \<Rightarrow> arduino_loop \<Rightarrow> arduino_loop" where
  "al_push s l = l\<lparr>al_tasks := (al_tasks l)[al_count l := s], al_count := al_count l + 1\<rparr>"

text \<open>\<open>now\<close> is the value of \<open>clock_.micros()\<close>, which is read last.\<close>

definition al_add_periodic :: "nat \<Rightarrow> u64 \<Rightarrow> u64 \<Rightarrow> arduino_loop \<Rightarrow> bool \<times> arduino_loop" where
  "al_add_periodic task period now l0 =
     (let l = al_compact_inactive l0
      in if period = 0 \<or> al_count l \<ge> length (al_tasks l) then (False, l)
         else (True, al_push \<lparr>ts_task = Some task, ts_period_us = period, ts_next_due_us = now,
                              ts_periodic = True, ts_active = True\<rparr> l))"

definition al_add_one_shot :: "nat \<Rightarrow> u64 \<Rightarrow> arduino_loop \<Rightarrow> bool \<times> arduino_loop" where
  "al_add_one_shot task due l0 =
     (let l = al_compact_inactive l0
      in if al_count l \<ge> length (al_tasks l) then (False, l)
         else (True, al_push \<lparr>ts_task = Some task, ts_period_us = 0, ts_next_due_us = due,
                              ts_periodic = False, ts_active = True\<rparr> l))"

fun al_remove_loop :: "nat \<Rightarrow> nat \<Rightarrow> nat \<Rightarrow> task_slot list \<Rightarrow> bool \<times> task_slot list" where
  "al_remove_loop task 0 i ts = (False, ts)"
| "al_remove_loop task (Suc k) i ts =
     (if ts_task (ts ! i) = Some task
      then (True, snd (al_remove_loop task k (Suc i) (ts[i := (ts ! i)\<lparr>ts_task := None, ts_active := False\<rparr>])))
      else al_remove_loop task k (Suc i) ts)"

definition al_remove :: "nat \<Rightarrow> arduino_loop \<Rightarrow> bool \<times> arduino_loop" where
  "al_remove task l =
     (let (removed, ts) = al_remove_loop task (al_count l) 0 (al_tasks l);
          l1 = l\<lparr>al_tasks := ts\<rparr>
      in (removed, if al_running l1 then l1 else al_compact_inactive l1))"

text \<open>
  The loop of \<open>run_once\<close>. \<open>slot\<close> is a reference into \<open>tasks_\<close>, so it is read again after the poll.
  \<open>None\<close> stands for a poll, or a catch-up loop, that does not return.
\<close>

type_synonym 'w al_poll = "nat \<Rightarrow> u64 \<Rightarrow> arduino_loop \<times> 'w \<Rightarrow> (arduino_loop \<times> 'w) option"

definition al_due :: "u64 \<Rightarrow> task_slot \<Rightarrow> bool" where
  "al_due now s \<longleftrightarrow> ts_live s \<and> \<not> now < ts_next_due_us s"

definition al_after_poll :: "u64 \<Rightarrow> nat \<Rightarrow> arduino_loop \<Rightarrow> arduino_loop option" where
  "al_after_poll now i l =
     (let s = al_tasks l ! i
      in if \<not> ts_live s then Some l
         else if ts_periodic s then
           (case advance_due now (ts_period_us s) (ts_next_due_us s) of
              None \<Rightarrow> None
            | Some due \<Rightarrow> Some (l\<lparr>al_tasks := (al_tasks l)[i := s\<lparr>ts_next_due_us := due\<rparr>]\<rparr>))
         else Some (l\<lparr>al_tasks := (al_tasks l)[i := s\<lparr>ts_active := False, ts_task := None\<rparr>]\<rparr>))"

partial_function (option) al_run_loop ::
  "'w al_poll \<Rightarrow> u64 \<Rightarrow> nat \<Rightarrow> arduino_loop \<times> 'w \<Rightarrow> (arduino_loop \<times> 'w) option" where
  "al_run_loop poll now i lw =
     (if i < al_count (fst lw)
      then let s = al_tasks (fst lw) ! i
           in if \<not> al_due now s then al_run_loop poll now (Suc i) lw
              else (case poll (the (ts_task s)) now lw of
                      None \<Rightarrow> None
                    | Some lw1 \<Rightarrow>
                        (case al_after_poll now i (fst lw1) of
                           None \<Rightarrow> None
                         | Some l2 \<Rightarrow> al_run_loop poll now (Suc i) (l2, snd lw1)))
      else Some lw)"

declare al_run_loop.simps [code]

definition al_run_once ::
  "('w \<Rightarrow> u64 \<times> 'w) \<Rightarrow> 'w al_poll \<Rightarrow> arduino_loop \<times> 'w \<Rightarrow> (arduino_loop \<times> 'w) option" where
  "al_run_once clk poll lw =
     (let l1 = (al_compact_inactive (fst lw))\<lparr>al_running := True\<rparr>;
          (now, w1) = clk (snd lw)
      in case al_run_loop poll now 0 (l1, w1) of
           None \<Rightarrow> None
         | Some (l2, w2) \<Rightarrow> Some (al_compact_inactive (l2\<lparr>al_running := False\<rparr>), w2))"

partial_function (option) al_run_forever ::
  "('w \<Rightarrow> u64 \<times> 'w) \<Rightarrow> 'w al_poll \<Rightarrow> arduino_loop \<times> 'w \<Rightarrow> (arduino_loop \<times> 'w) option" where
  "al_run_forever clk poll lw =
     (if al_exit_requested (fst lw) then Some lw
      else (case al_run_once clk poll lw of
              None \<Rightarrow> None
            | Some lw1 \<Rightarrow> al_run_forever clk poll lw1))"

declare al_run_forever.simps [code]

definition al_request_exit :: "arduino_loop \<Rightarrow> arduino_loop" where
  "al_request_exit l = l\<lparr>al_exit_requested := True\<rparr>"

section \<open>List view\<close>

definition al_inv :: "arduino_loop \<Rightarrow> bool" where
  "al_inv l \<longleftrightarrow> al_count l \<le> length (al_tasks l)"

definition al_list :: "arduino_loop \<Rightarrow> task_slot list" where
  "al_list l = take (al_count l) (al_tasks l)"

abbreviation al_capacity :: "arduino_loop \<Rightarrow> nat" where
  "al_capacity l \<equiv> length (al_tasks l)"

lemma al_inv_init [simp]: "al_inv (al_init n)" "al_list (al_init n) = []" "al_capacity (al_init n) = n"
  by (simp_all add: al_inv_def al_init_def al_list_def)

lemma length_al_list [sched_simps]: "al_inv l \<Longrightarrow> length (al_list l) = al_count l"
  by (simp add: al_inv_def al_list_def)

lemma nth_al_list [sched_simps]: "i < al_count l \<Longrightarrow> al_list l ! i = al_tasks l ! i"
  by (simp add: al_list_def)

text \<open>What an operation keeps besides the task list.\<close>

definition al_frame :: "arduino_loop \<Rightarrow> arduino_loop \<Rightarrow> bool" where
  "al_frame l l' \<longleftrightarrow> al_inv l' \<and> al_capacity l' = al_capacity l \<and> al_running l' = al_running l
     \<and> al_exit_requested l' = al_exit_requested l"

lemma al_frame_trans: "al_frame l l' \<Longrightarrow> al_frame l' l'' \<Longrightarrow> al_frame l l''"
  by (simp add: al_frame_def)

lemma al_erase_spec:
  assumes "al_inv l" "i < al_count l"
  shows "al_frame l (al_erase i l) \<and> al_list (al_erase i l) = take i (al_list l) @ drop (Suc i) (al_list l)"
  using assms take_shift_down [of i "al_count l" "al_tasks l"]
  by (simp add: al_frame_def al_inv_def al_erase_def al_list_def Let_def drop_take min_def)

lemma al_compact_from_spec:
  "al_inv l \<Longrightarrow> i \<le> al_count l \<Longrightarrow>
   al_frame l (al_compact_from i l)
   \<and> al_list (al_compact_from i l) = take i (al_list l) @ filter ts_live (drop i (al_list l))"
proof (induction i l rule: al_compact_from.induct)
  case (1 i l)
  note unroll = al_compact_from.simps [of i l]
  show ?case
  proof (cases "i < al_count l")
    case False
    then have "al_compact_from i l = l" by (simp add: unroll)
    with "1.prems" False show ?thesis by (simp add: al_frame_def al_list_def)
  next
    case True
    then have d: "drop i (al_list l) = al_tasks l ! i # drop (Suc i) (al_list l)"
      using "1.prems"(1) by (simp add: Cons_nth_drop_Suc [symmetric] sched_simps)
    show ?thesis
    proof (cases "ts_live (al_tasks l ! i)")
      case live: True
      with "1.IH"(2) [OF True] True "1.prems"(1) d show ?thesis
        by (simp add: unroll take_Suc_conv_app_nth sched_simps)
    next
      case False
      let ?l = "al_erase i l"
      note e = al_erase_spec [OF "1.prems"(1) True]
      have "al_frame ?l (al_compact_from i ?l) \<and> al_list (al_compact_from i ?l)
          = take i (al_list ?l) @ filter ts_live (drop i (al_list ?l))"
        using e True by (intro "1.IH"(1) [OF True False]) (simp_all add: al_frame_def al_count_erase)
      moreover have "take i (al_list ?l) = take i (al_list l)" "drop i (al_list ?l) = drop (Suc i) (al_list l)"
        using e True "1.prems"(1) by (simp_all add: sched_simps)
      ultimately show ?thesis using e True False d
          al_frame_trans [of l ?l "al_compact_from i ?l"] by (simp add: unroll)
    qed
  qed
qed

lemma al_compact_spec:
  "al_inv l \<Longrightarrow> al_frame l (al_compact_inactive l)
     \<and> al_list (al_compact_inactive l) = filter ts_live (al_list l)"
  using al_compact_from_spec [of l 0] by (simp add: al_compact_inactive_def)

lemma al_push_spec:
  assumes "al_inv l" "al_count l < al_capacity l"
  shows "al_frame l (al_push s l) \<and> al_list (al_push s l) = al_list l @ [s]"
  using assms by (simp add: al_push_def al_frame_def al_inv_def al_list_def)

section \<open>Registration\<close>

definition periodic_slot :: "nat \<Rightarrow> u64 \<Rightarrow> u64 \<Rightarrow> task_slot" where
  "periodic_slot task period now = \<lparr>ts_task = Some task, ts_period_us = period, ts_next_due_us = now,
     ts_periodic = True, ts_active = True\<rparr>"

definition one_shot_slot :: "nat \<Rightarrow> u64 \<Rightarrow> task_slot" where
  "one_shot_slot task due = \<lparr>ts_task = Some task, ts_period_us = 0, ts_next_due_us = due,
     ts_periodic = False, ts_active = True\<rparr>"

abbreviation al_live :: "arduino_loop \<Rightarrow> task_slot list" where
  "al_live l \<equiv> filter ts_live (al_list l)"

lemma al_add_spec:
  assumes "al_inv l"
  shows "al_add_periodic task period now l = (ok, l') \<Longrightarrow> al_frame l l'
      \<and> (ok \<longleftrightarrow> period \<noteq> 0 \<and> length (al_live l) < al_capacity l)
      \<and> al_list l' = al_live l @ (if ok then [periodic_slot task period now] else [])"
    and "al_add_one_shot task due l = (ok, l') \<Longrightarrow> al_frame l l'
      \<and> (ok \<longleftrightarrow> length (al_live l) < al_capacity l)
      \<and> al_list l' = al_live l @ (if ok then [one_shot_slot task due] else [])"
proof -
  let ?c = "al_compact_inactive l"
  note c = al_compact_spec [OF assms]
  then have inv: "al_inv ?c" and cap: "al_capacity ?c = al_capacity l"
    and n: "al_count ?c = length (al_live l)"
    using length_al_list [of ?c] by (simp_all add: al_frame_def)
  note push = al_push_spec [OF inv]
  show "al_add_periodic task period now l = (ok, l') \<Longrightarrow> al_frame l l'
      \<and> (ok \<longleftrightarrow> period \<noteq> 0 \<and> length (al_live l) < al_capacity l)
      \<and> al_list l' = al_live l @ (if ok then [periodic_slot task period now] else [])"
    using c push cap n al_frame_trans [of l ?c]
    by (auto simp: al_add_periodic_def periodic_slot_def Let_def split: if_splits)
  show "al_add_one_shot task due l = (ok, l') \<Longrightarrow> al_frame l l'
      \<and> (ok \<longleftrightarrow> length (al_live l) < al_capacity l)
      \<and> al_list l' = al_live l @ (if ok then [one_shot_slot task due] else [])"
    using c push cap n al_frame_trans [of l ?c]
    by (auto simp: al_add_one_shot_def one_shot_slot_def Let_def split: if_splits)
qed

definition ts_kill :: "nat \<Rightarrow> task_slot \<Rightarrow> task_slot" where
  "ts_kill task s = (if ts_task s = Some task then s\<lparr>ts_task := None, ts_active := False\<rparr> else s)"

lemma al_remove_loop_spec:
  "i + k \<le> length ts \<Longrightarrow> al_remove_loop task k i ts =
     (\<exists>s \<in> set (take k (drop i ts)). ts_task s = Some task,
      take i ts @ map (ts_kill task) (take k (drop i ts)) @ drop (i + k) ts)"
proof (induction k arbitrary: i ts)
  case 0
  then show ?case by simp
next
  case (Suc k)
  then have i: "i < length ts" and d: "drop i ts = ts ! i # drop (Suc i) ts"
    by (simp_all add: Cons_nth_drop_Suc)
  let ?s = "ts_kill task (ts ! i)"
  have u: "take (Suc i) (ts[i := ?s]) = take i ts @ [?s]" "drop (Suc i) (ts[i := ?s]) = drop (Suc i) ts"
    "drop (Suc i + k) (ts[i := ?s]) = drop (Suc i + k) ts"
    using i by simp_all
  show ?case
  proof (cases "ts_task (ts ! i) = Some task")
    case True
    with Suc.IH [of "Suc i" "ts[i := ?s]"] Suc.prems d u show ?thesis
      by (simp add: ts_kill_def)
  next
    case False
    with Suc.IH [of "Suc i" ts] Suc.prems d i show ?thesis
      by (simp add: ts_kill_def take_Suc_conv_app_nth)
  qed
qed

lemma al_remove_spec:
  assumes "al_inv l" "al_remove task l = (removed, l')"
  shows "al_frame l l' \<and> (removed \<longleftrightarrow> (\<exists>s \<in> set (al_list l). ts_task s = Some task))
    \<and> al_list l' = (let killed = map (ts_kill task) (al_list l)
                   in if al_running l then killed else filter ts_live killed)"
proof -
  let ?ts = "map (ts_kill task) (al_list l) @ drop (al_count l) (al_tasks l)"
  let ?l = "l\<lparr>al_tasks := ?ts\<rparr>"
  have run: "al_remove_loop task (al_count l) 0 (al_tasks l) =
      (\<exists>s \<in> set (al_list l). ts_task s = Some task, ?ts)"
    using al_remove_loop_spec [of 0 "al_count l" "al_tasks l" task] assms(1)
    by (simp add: al_list_def al_inv_def)
  have f: "al_frame l ?l" and li: "al_list ?l = map (ts_kill task) (al_list l)"
    using assms(1) by (simp_all add: al_frame_def al_inv_def al_list_def)
  from f have "al_inv ?l" by (simp add: al_frame_def)
  note c = al_compact_spec [OF this]
  from assms(2) run f li c al_frame_trans [OF f] show ?thesis
    by (auto simp: al_remove_def Let_def split: if_splits)
qed

section \<open>What is registered\<close>

definition slots_tasks :: "task_slot list \<Rightarrow> nat set" where
  "slots_tasks ss = {t. \<exists>s \<in> set ss. ts_task s = Some t}"

text \<open>A slot that names a task is active, and conversely.\<close>

definition slots_ok :: "task_slot list \<Rightarrow> bool" where
  "slots_ok ss \<longleftrightarrow> (\<forall>s \<in> set ss. ts_active s \<longleftrightarrow> ts_task s \<noteq> None)"

lemma slots_tasks_simps [sched_simps]:
  "slots_tasks [] = {}"
  "slots_tasks (as @ bs) = slots_tasks as \<union> slots_tasks bs"
  "slots_tasks [periodic_slot task period now] = {task}"
  "slots_tasks [one_shot_slot task due] = {task}"
  "slots_tasks (map (ts_kill task) ss) = slots_tasks ss - {task}"
  by (auto simp: slots_tasks_def periodic_slot_def one_shot_slot_def ts_kill_def split: if_splits)

lemma slots_ok_simps [sched_simps]:
  "slots_ok []"
  "slots_ok (as @ bs) \<longleftrightarrow> slots_ok as \<and> slots_ok bs"
  "slots_ok [periodic_slot task period now]"
  "slots_ok [one_shot_slot task due]"
  "slots_ok ss \<Longrightarrow> slots_ok (map (ts_kill task) ss)"
  "slots_ok ss \<Longrightarrow> slots_ok (filter P ss)"
  by (auto simp: slots_ok_def periodic_slot_def one_shot_slot_def ts_kill_def)

lemma slots_tasks_live [sched_simps]: "slots_ok ss \<Longrightarrow> slots_tasks (filter ts_live ss) = slots_tasks ss"
  by (auto simp: slots_tasks_def slots_ok_def ts_live_def)

definition al_registered :: "arduino_loop \<Rightarrow> nat set" where
  "al_registered l = slots_tasks (al_list l)"

definition al_ok :: "arduino_loop \<Rightarrow> bool" where
  "al_ok l \<longleftrightarrow> al_inv l \<and> slots_ok (al_list l)"

lemma al_ok_append:
  assumes "al_ok l" "al_frame l l'" "al_list l' = al_live l @ (if ok then [s] else [])"
    "slots_ok [s]" "slots_tasks [s] = {task}"
  shows "al_ok l' \<and> al_registered l' = (if ok then insert task (al_registered l) else al_registered l)"
proof (cases ok)
  case True
  with assms show ?thesis by (auto simp: al_ok_def al_frame_def al_registered_def sched_simps)
next
  case False
  with assms show ?thesis by (simp add: al_ok_def al_frame_def al_registered_def sched_simps)
qed

lemma al_add_registered:
  assumes "al_ok l"
  shows "al_add_periodic task period now l = (ok, l') \<Longrightarrow>
      al_ok l' \<and> al_registered l' = (if ok then insert task (al_registered l) else al_registered l)"
    and "al_add_one_shot task due l = (ok, l') \<Longrightarrow>
      al_ok l' \<and> al_registered l' = (if ok then insert task (al_registered l) else al_registered l)"
proof -
  from assms have inv: "al_inv l" by (simp add: al_ok_def)
  { assume a: "al_add_periodic task period now l = (ok, l')"
    from al_add_spec(1) [OF inv a] have f: "al_frame l l'" by (elim conjE)
    from al_add_spec(1) [OF inv a] show "al_ok l' \<and>
        al_registered l' = (if ok then insert task (al_registered l) else al_registered l)"
      by (elim conjE) (rule al_ok_append [OF assms f _ slots_ok_simps(3) slots_tasks_simps(3)]) }
  { assume a: "al_add_one_shot task due l = (ok, l')"
    from al_add_spec(2) [OF inv a] have f: "al_frame l l'" by (elim conjE)
    from al_add_spec(2) [OF inv a] show "al_ok l' \<and>
        al_registered l' = (if ok then insert task (al_registered l) else al_registered l)"
      by (elim conjE) (rule al_ok_append [OF assms f _ slots_ok_simps(4) slots_tasks_simps(4)]) }
qed

lemma al_remove_registered:
  assumes "al_ok l" "al_remove task l = (removed, l')"
  shows "al_ok l' \<and> (removed \<longleftrightarrow> task \<in> al_registered l) \<and> al_registered l' = al_registered l - {task}"
proof -
  from assms(1) have inv: "al_inv l" and ok: "slots_ok (al_list l)" by (simp_all add: al_ok_def)
  note r = al_remove_spec [OF inv assms(2)]
  have "removed \<longleftrightarrow> task \<in> al_registered l"
    using r by (simp add: al_registered_def slots_tasks_def)
  with r ok show ?thesis
    by (simp add: al_ok_def al_frame_def al_registered_def sched_simps Let_def)
qed

end
