(* ===== verification/Arduino_Run.thy ===== *)
theory Arduino_Run
  imports Arduino_Loop
begin

text \<open>
  What \<open>ArduinoLoopImpl::run_once\<close> does: the exact effect when the polled tasks leave the scheduler
  alone, that it returns whatever the tasks register or remove, and what happens when a task
  registers another one after removing itself.
\<close>

section \<open>Tasks that do not touch the scheduler\<close>

definition ts_visited :: "u64 \<Rightarrow> task_slot \<Rightarrow> task_slot" where
  "ts_visited now s =
     (if \<not> al_due now s then s
      else if ts_periodic s
           then s\<lparr>ts_next_due_us := the (advance_due now (ts_period_us s) (ts_next_due_us s))\<rparr>
           else s\<lparr>ts_active := False, ts_task := None\<rparr>)"

definition ts_returns :: "u64 \<Rightarrow> task_slot \<Rightarrow> bool" where
  "ts_returns now s \<longleftrightarrow>
     (ts_periodic s \<longrightarrow> 0 < ts_period_us s \<and> unat now + unat (ts_period_us s) < 2 ^ 64)"

lemma al_due_returns:
  assumes "al_due now s" "ts_returns now s" "ts_periodic s"
  shows "\<exists>d. advance_due now (ts_period_us s) (ts_next_due_us s) = Some d \<and>
     unat d = unat (ts_next_due_us s)
       + Suc ((unat now - unat (ts_next_due_us s)) div unat (ts_period_us s)) * unat (ts_period_us s)"
  using assms by (intro advance_due_eq) (simp_all add: al_due_def ts_returns_def not_less)

lemma al_after_poll_due:
  assumes "al_due now (al_tasks l ! i)" "ts_returns now (al_tasks l ! i)"
  shows "al_after_poll now i l =
    Some (l\<lparr>al_tasks := (al_tasks l)[i := ts_visited now (al_tasks l ! i)]\<rparr>)"
proof -
  have "ts_live (al_tasks l ! i)" using assms(1) by (simp add: al_due_def)
  with assms al_due_returns [OF assms] show ?thesis
    by (cases "ts_periodic (al_tasks l ! i)") (auto simp: al_after_poll_def ts_visited_def Let_def)
qed

definition quiet_on :: "('w \<Rightarrow> bool) \<Rightarrow> nat set \<Rightarrow> u64 \<Rightarrow> (nat \<Rightarrow> 'w \<Rightarrow> 'w) \<Rightarrow> 'w al_poll \<Rightarrow> bool" where
  "quiet_on P ts now eff poll \<longleftrightarrow>
     (\<forall>t \<in> ts. \<forall>l w. P w \<longrightarrow> poll t now (l, w) = Some (l, eff t w) \<and> P (eff t w))"

definition quiet :: "(nat \<Rightarrow> 'w \<Rightarrow> 'w) \<Rightarrow> 'w al_poll \<Rightarrow> bool" where
  "quiet eff poll \<longleftrightarrow> (\<forall>t now l w. poll t now (l, w) = Some (l, eff t w))"

lemma quiet_on_UNIV: "quiet eff poll \<Longrightarrow> quiet_on (\<lambda>w. True) UNIV now eff poll"
  by (simp add: quiet_def quiet_on_def)

text \<open>A slot the iteration may visit: its catch-up ends, and if it is due its task is one of \<open>ts\<close>.\<close>

abbreviation ts_fine :: "nat set \<Rightarrow> u64 \<Rightarrow> task_slot \<Rightarrow> bool" where
  "ts_fine ts now s \<equiv> ts_returns now s \<and> (al_due now s \<longrightarrow> the (ts_task s) \<in> ts)"

lemma al_run_loop_quiet:
  assumes "quiet_on P ts now eff poll" "al_inv l" "i \<le> al_count l"
    "\<forall>s \<in> set (drop i (al_list l)). ts_fine ts now s" "P w"
  shows "al_run_loop poll now i (l, w) =
    Some (l\<lparr>al_tasks := take i (al_tasks l) @ map (ts_visited now) (drop i (al_list l))
              @ drop (al_count l) (al_tasks l)\<rparr>,
          fold (\<lambda>s. eff (the (ts_task s))) (filter (al_due now) (drop i (al_list l))) w)"
  using assms(2-5)
proof (induction "al_count l - i" arbitrary: i l w)
  case 0
  then have "i = al_count l" by simp
  with 0 show ?case by (simp add: al_run_loop.simps al_list_def)
next
  case (Suc k)
  let ?s = "al_tasks l ! i"
  have i: "i < al_count l" "i < length (al_tasks l)" using Suc.hyps(2) Suc.prems(1) by (auto simp: al_inv_def)
  have d: "drop i (al_list l) = ?s # drop (Suc i) (al_list l)"
    using i Suc.prems(1) by (simp add: Cons_nth_drop_Suc [symmetric] sched_simps)
  have t: "take (Suc i) (al_tasks l) = take i (al_tasks l) @ [?s]"
    using i by (simp add: take_Suc_conv_app_nth)
  have ret: "ts_returns now ?s" "\<forall>s \<in> set (drop (Suc i) (al_list l)). ts_fine ts now s"
    using Suc.prems(3) d by simp_all
  have k: "k = al_count l - Suc i" "Suc i \<le> al_count l" using Suc.hyps(2) i by simp_all
  show ?case
  proof (cases "al_due now ?s")
    case False
    with Suc.hyps(1) [OF k(1) Suc.prems(1) k(2) ret(2) Suc.prems(4)] i(1) d t show ?thesis
      by (simp add: al_run_loop.simps [of poll now i] ts_visited_def)
  next
    case True
    let ?l = "l\<lparr>al_tasks := (al_tasks l)[i := ts_visited now ?s]\<rparr>"
    have l: "al_inv ?l" "al_count ?l = al_count l" "drop (Suc i) (al_list ?l) = drop (Suc i) (al_list l)"
      "take (Suc i) (al_tasks ?l) = take i (al_tasks l) @ [ts_visited now ?s]"
      "drop (al_count l) (al_tasks ?l) = drop (al_count l) (al_tasks l)"
      using Suc.prems(1) i by (simp_all add: al_inv_def al_list_def drop_take)
    have q: "poll (the (ts_task ?s)) now (l, w) = Some (l, eff (the (ts_task ?s)) w)" "P (eff (the (ts_task ?s)) w)"
      using assms(1) Suc.prems(3,4) True d by (simp_all add: quiet_on_def)
    then have "al_run_loop poll now i (l, w) = al_run_loop poll now (Suc i) (?l, eff (the (ts_task ?s)) w)"
      using i(1) True al_after_poll_due [OF True ret(1)]
      by (simp add: al_run_loop.simps [of poll now i] Let_def)
    with Suc.hyps(1) [of ?l "Suc i" "eff (the (ts_task ?s)) w"] k l ret(2) True d q(2) show ?thesis
      by simp
  qed
qed

lemma ts_visited_live:
  "filter ts_live (map (ts_visited now) ss) =
     map (ts_visited now) (filter (\<lambda>s. ts_live s \<and> (al_due now s \<longrightarrow> ts_periodic s)) ss)"
  by (induction ss) (auto simp: ts_visited_def ts_live_def al_due_def)

lemma al_run_once_quiet:
  assumes "quiet_on P ts now eff poll" "al_inv l" "\<forall>s \<in> set (al_live l). ts_fine ts now s" "clk w = (now, w1)" "P w1"
  shows "\<exists>l'. al_run_once clk poll (l, w) =
      Some (l', fold (\<lambda>s. eff (the (ts_task s))) (filter (al_due now) (al_live l)) w1)
    \<and> al_inv l' \<and> al_capacity l' = al_capacity l \<and> \<not> al_running l'
    \<and> al_list l' = map (ts_visited now) (filter (\<lambda>s. al_due now s \<longrightarrow> ts_periodic s) (al_live l))"
proof -
  let ?l1 = "(al_compact_inactive l)\<lparr>al_running := True\<rparr>"
  note c = al_compact_spec [OF assms(2)]
  have l1: "al_inv ?l1" "al_list ?l1 = al_live l" "al_capacity ?l1 = al_capacity l"
    using c by (simp_all add: al_frame_def al_inv_def al_list_def)
  define l2 where "l2 = ?l1\<lparr>al_tasks := map (ts_visited now) (al_live l) @ drop (al_count ?l1) (al_tasks ?l1)\<rparr>"
  have run: "al_run_loop poll now 0 (?l1, w1) =
      Some (l2, fold (\<lambda>s. eff (the (ts_task s))) (filter (al_due now) (al_live l)) w1)"
    using al_run_loop_quiet [OF assms(1) l1(1), of 0 w1] assms(3,5) l1(2) by (simp add: l2_def)
  let ?l3 = "l2\<lparr>al_running := False\<rparr>"
  have n: "al_count ?l1 = length (al_live l)" using length_al_list [OF l1(1)] l1(2) by simp
  have l3: "al_inv ?l3" "al_list ?l3 = map (ts_visited now) (al_live l)" "al_capacity ?l3 = al_capacity l"
    using l1 n by (simp_all add: l2_def al_inv_def al_list_def)
  from al_compact_spec [OF l3(1)] l3 have
    "al_inv (al_compact_inactive ?l3) \<and> al_capacity (al_compact_inactive ?l3) = al_capacity l
      \<and> \<not> al_running (al_compact_inactive ?l3)
      \<and> al_list (al_compact_inactive ?l3)
        = map (ts_visited now) (filter (\<lambda>s. al_due now s \<longrightarrow> ts_periodic s) (al_live l))"
    by (simp add: al_frame_def ts_visited_live conj_commute del: filter_filter)
      (rule arg_cong [of _ _ "map _"], rule filter_cong, auto)
  with run assms(4) show ?thesis by (simp add: al_run_once_def Let_def)
qed

section \<open>The iteration returns\<close>

text \<open>From any due time the catch-up loop ends, if one period can be added to the present time.\<close>

lemma advance_due_total:
  assumes "0 < period" "unat now + unat period < 2 ^ 64"
  shows "\<exists>d. advance_due now period due = Some d"
proof (cases "due \<le> now")
  case True
  from advance_due_eq [OF assms(1) True assms(2)] show ?thesis by blast
next
  case False
  show ?thesis
  proof (cases "due + period \<le> now")
    case True
    from advance_due_eq [OF assms(1) True assms(2)] show ?thesis
      by (auto simp: advance_due.simps [of now period due] Let_def True)
  next
    case False
    then show ?thesis by (auto simp: advance_due.simps [of now period due] Let_def)
  qed
qed

text \<open>
  The sanity of the whole array, including the entries beyond \<open>al_count\<close>: a callback may shrink the
  list below the index of the slot being processed.
\<close>

definition slot_sane :: "u64 \<Rightarrow> task_slot \<Rightarrow> bool" where
  "slot_sane now s \<longleftrightarrow> (ts_live s \<longrightarrow> ts_returns now s)"

definition al_sane :: "u64 \<Rightarrow> nat \<Rightarrow> arduino_loop \<Rightarrow> bool" where
  "al_sane now n l \<longleftrightarrow> al_inv l \<and> al_capacity l = n \<and> (\<forall>s \<in> set (al_tasks l). slot_sane now s)"

lemma slot_sane_default [simp]: "slot_sane now ts_default"
  by (simp add: slot_sane_def ts_live_def ts_default_def)

lemma set_update_sane:
  "\<forall>s \<in> set xs. P s \<Longrightarrow> P x \<Longrightarrow> \<forall>s \<in> set (xs[i := x]). P s"
  using set_update_subset_insert [of xs i x] by blast

lemma shift_down_all:
  "0 < i \<Longrightarrow> n \<le> length xs \<Longrightarrow> \<forall>s \<in> set xs. P s \<Longrightarrow> \<forall>s \<in> set (shift_down xs i n). P s"
proof (induction xs i n rule: shift_down.induct)
  case (1 xs i n)
  show ?case
  proof (cases "i < n")
    case True
    with "1.prems" have "\<forall>s \<in> set (xs[i - 1 := xs ! i]). P s" by (intro set_update_sane) simp_all
    with "1.IH" [OF True] "1.prems" True show ?thesis by (simp add: shift_down.simps [of xs i n])
  next
    case False
    with "1.prems" show ?thesis by (simp add: shift_down.simps [of xs i n])
  qed
qed

lemma al_sane_update:
  "al_sane now n l \<Longrightarrow> slot_sane now s \<Longrightarrow> al_sane now n (l\<lparr>al_tasks := (al_tasks l)[i := s]\<rparr>)"
  using set_update_sane [of "al_tasks l" "slot_sane now" s i] by (simp add: al_sane_def al_inv_def)

lemma al_sane_erase:
  assumes "al_sane now n l"
  shows "al_sane now n (al_erase i l)"
proof (cases "i < al_count l")
  case True
  with assms have "\<forall>s \<in> set (shift_down (al_tasks l) (i + 1) (al_count l)). slot_sane now s"
    by (intro shift_down_all) (simp_all add: al_sane_def al_inv_def)
  then have "\<forall>s \<in> set ((shift_down (al_tasks l) (i + 1) (al_count l))[al_count l - 1 := ts_default]). slot_sane now s"
    by (rule set_update_sane) simp
  with True assms show ?thesis by (auto simp: al_sane_def al_erase_def al_inv_def Let_def)
next
  case False
  with assms show ?thesis by (simp add: al_erase_def)
qed

lemma al_sane_compact:
  "al_sane now n l \<Longrightarrow> al_sane now n (al_compact_inactive l)"
proof -
  have "al_sane now n l \<Longrightarrow> al_sane now n (al_compact_from i l)" for i
  proof (induction i l rule: al_compact_from.induct)
    case (1 i l)
    then show ?case using al_sane_erase [of now n l i] by (simp add: al_compact_from.simps [of i l])
  qed
  then show "al_sane now n l \<Longrightarrow> al_sane now n (al_compact_inactive l)"
    by (simp add: al_compact_inactive_def)
qed

lemma al_sane_push:
  assumes "al_sane now n l" "al_count l < n" "slot_sane now s"
  shows "al_sane now n (al_push s l)"
  using assms set_update_sane [of "al_tasks l" "slot_sane now" s "al_count l"]
  by (simp add: al_push_def al_sane_def al_inv_def)

lemma al_remove_loop_sane:
  "\<forall>s \<in> set ts. slot_sane now s \<Longrightarrow> length (snd (al_remove_loop task k i ts)) = length ts
     \<and> (\<forall>s \<in> set (snd (al_remove_loop task k i ts)). slot_sane now s)"
proof (induction k arbitrary: i ts)
  case 0
  then show ?case by simp
next
  case (Suc k)
  let ?ts = "ts[i := (ts ! i)\<lparr>ts_task := None, ts_active := False\<rparr>]"
  have "\<forall>s \<in> set ?ts. slot_sane now s"
    by (rule set_update_sane [OF Suc.prems]) (simp add: slot_sane_def ts_live_def)
  from Suc.IH [OF this] Suc.IH [OF Suc.prems] show ?case by simp
qed

text \<open>Every operation of the scheduler keeps the array sane, if the periods it is given can be.\<close>

lemma al_sane_operations:
  assumes "al_sane now n l"
  shows "unat now + unat period < 2 ^ 64 \<Longrightarrow> al_sane now n (snd (al_add_periodic task period t l))"
    and "al_sane now n (snd (al_add_one_shot task due l))"
    and "al_sane now n (snd (al_remove task l))"
proof -
  note c = al_sane_compact [OF assms]
  then have cap: "al_capacity (al_compact_inactive l) = n" by (simp add: al_sane_def)
  show "unat now + unat period < 2 ^ 64 \<Longrightarrow> al_sane now n (snd (al_add_periodic task period t l))"
    using c cap al_sane_push [OF c, of "periodic_slot task period t"]
    by (simp add: al_add_periodic_def Let_def slot_sane_def ts_returns_def word_neq_0_conv
        periodic_slot_def not_le)
  show "al_sane now n (snd (al_add_one_shot task due l))"
    using c cap al_sane_push [OF c, of "one_shot_slot task due"]
    by (simp add: al_add_one_shot_def Let_def slot_sane_def ts_returns_def one_shot_slot_def not_le)
  have "al_sane now n (l\<lparr>al_tasks := snd (al_remove_loop task (al_count l) 0 (al_tasks l))\<rparr>)"
    using assms al_remove_loop_sane [of "al_tasks l" now task "al_count l" 0]
    by (simp add: al_sane_def al_inv_def)
  then show "al_sane now n (snd (al_remove task l))"
    using al_sane_compact by (simp add: al_remove_def Let_def split_beta)
qed

lemma al_after_poll_sane:
  assumes "al_sane now n l" "i < n"
  shows "\<exists>l'. al_after_poll now i l = Some l' \<and> al_sane now n l'"
proof -
  let ?s = "al_tasks l ! i"
  have s: "slot_sane now ?s" using assms by (simp add: al_sane_def)
  show ?thesis
  proof (cases "ts_live ?s \<and> ts_periodic ?s")
    case False
    have "slot_sane now (?s\<lparr>ts_active := False, ts_task := None\<rparr>)" by (simp add: slot_sane_def ts_live_def)
    with al_sane_update [OF assms(1)] False assms(1) show ?thesis
      by (auto simp: al_after_poll_def Let_def)
  next
    case True
    with s have ret: "0 < ts_period_us ?s" "unat now + unat (ts_period_us ?s) < 2 ^ 64"
      by (simp_all add: slot_sane_def ts_returns_def)
    then obtain d where "advance_due now (ts_period_us ?s) (ts_next_due_us ?s) = Some d"
      using advance_due_total by blast
    moreover have "slot_sane now (?s\<lparr>ts_next_due_us := d\<rparr>)" for d
      using s by (simp add: slot_sane_def ts_live_def ts_returns_def)
    ultimately show ?thesis using al_sane_update [OF assms(1)] True
      by (auto simp: al_after_poll_def Let_def)
  qed
qed

text \<open>Polls that return and do only what the scheduler's operations do to it.\<close>

definition polls_return :: "u64 \<Rightarrow> nat \<Rightarrow> 'w al_poll \<Rightarrow> bool" where
  "polls_return now n poll \<longleftrightarrow> (\<forall>t l w. al_sane now n l \<longrightarrow>
     (\<exists>l' w'. poll t now (l, w) = Some (l', w') \<and> al_sane now n l'))"

lemma al_run_loop_returns:
  assumes "polls_return now n poll" "al_sane now n l"
  shows "\<exists>l' w'. al_run_loop poll now i (l, w) = Some (l', w') \<and> al_sane now n l'"
  using assms(2)
proof (induction "n - i" arbitrary: i l w rule: less_induct)
  case less
  show ?case
  proof (cases "i < al_count l")
    case False
    with less.prems show ?thesis by (simp add: al_run_loop.simps)
  next
    case True
    with less.prems have i: "i < n" "n - Suc i < n - i" by (auto simp: al_sane_def al_inv_def)
    let ?s = "al_tasks l ! i"
    show ?thesis
    proof (cases "al_due now ?s")
      case False
      with True less.hyps [OF i(2) less.prems] show ?thesis
        by (simp add: al_run_loop.simps [of poll now i])
    next
      case due: True
      from assms(1) less.prems obtain l1 w1 where
        p: "poll (the (ts_task ?s)) now (l, w) = Some (l1, w1)" "al_sane now n l1"
        unfolding polls_return_def by blast
      from al_after_poll_sane [OF p(2) i(1)] obtain l2 where
        a: "al_after_poll now i l1 = Some l2" "al_sane now n l2" by blast
      from less.hyps [OF i(2) a(2), of w1] True due p(1) a(1) show ?thesis
        by (simp add: al_run_loop.simps [of poll now i] Let_def)
    qed
  qed
qed

lemma al_sane_running: "al_sane now n (l\<lparr>al_running := b\<rparr>) = al_sane now n l"
  by (simp add: al_sane_def al_inv_def)

lemma al_run_once_returns:
  assumes "clk w = (now, w1)" "polls_return now n poll" "al_sane now n l"
  shows "\<exists>l' w'. al_run_once clk poll (l, w) = Some (l', w') \<and> al_sane now n l'"
proof -
  let ?l1 = "(al_compact_inactive l)\<lparr>al_running := True\<rparr>"
  have "al_sane now n ?l1" using al_sane_compact [OF assms(3)] by (simp add: al_sane_running)
  from al_run_loop_returns [OF assms(2) this, of 0 w1] obtain l2 w2 where
    "al_run_loop poll now 0 (?l1, w1) = Some (l2, w2)" "al_sane now n l2" by blast
  with assms(1) al_sane_compact [of now n "l2\<lparr>al_running := False\<rparr>"] show ?thesis
    by (simp add: al_run_once_def al_sane_running Let_def)
qed

section \<open>Registering from a task that removed itself\<close>

text \<open>
  A task \<open>a\<close> that removes itself and registers \<open>c\<close> while it is polled. \<open>add_periodic\<close> compacts the
  array although \<open>run_once\<close> is iterating over it.
\<close>

definition swap_poll :: "nat \<Rightarrow> nat \<Rightarrow> u64 \<Rightarrow> nat list al_poll" where
  "swap_poll a c period t now lw =
     (let l = fst lw
      in Some (if t = a then snd (al_add_periodic c period now (snd (al_remove a l))) else l,
               snd lw @ [t]))"

lemma al_after_poll_one_shot:
  assumes "i < al_count l" "al_inv l" "ts_live (al_list l ! i)" "\<not> ts_periodic (al_list l ! i)"
  shows "\<exists>l'. al_after_poll now i l = Some l' \<and> al_frame l l' \<and> al_count l' = al_count l
    \<and> al_list l' = (al_list l)[i := (al_list l ! i)\<lparr>ts_active := False, ts_task := None\<rparr>]"
  using assms
  by (simp add: al_after_poll_def sched_simps al_frame_def al_inv_def al_list_def Let_def
      take_update_swap)

lemma al_after_poll_periodic:
  assumes "i < al_count l" "al_inv l" "ts_live (al_list l ! i)" "ts_periodic (al_list l ! i)"
    "advance_due now (ts_period_us (al_list l ! i)) (ts_next_due_us (al_list l ! i)) = Some d"
  shows "\<exists>l'. al_after_poll now i l = Some l' \<and> al_frame l l' \<and> al_count l' = al_count l
    \<and> al_list l' = (al_list l)[i := (al_list l ! i)\<lparr>ts_next_due_us := d\<rparr>]"
  using assms
  by (simp add: al_after_poll_def sched_simps al_frame_def al_inv_def al_list_def Let_def
      take_update_swap)

lemma ts_live_slots [sched_simps]:
  "ts_live (periodic_slot t p n)" "ts_live (one_shot_slot t d)"
  "\<not> ts_live (s\<lparr>ts_active := False, ts_task := None\<rparr>)" "\<not> ts_live (s\<lparr>ts_task := None, ts_active := False\<rparr>)"
  "ts_live (s\<lparr>ts_next_due_us := d\<rparr>) = ts_live s"
  by (simp_all add: ts_live_def periodic_slot_def one_shot_slot_def)

lemma al_due_slots [sched_simps]:
  "al_due now (periodic_slot t p d) \<longleftrightarrow> d \<le> now" "al_due now (one_shot_slot t d) \<longleftrightarrow> d \<le> now"
  by (auto simp: al_due_def ts_live_def periodic_slot_def one_shot_slot_def)

lemma slot_selectors [sched_simps]:
  "ts_task (periodic_slot t p n) = Some t" "ts_task (one_shot_slot t d) = Some t"
  "ts_periodic (periodic_slot t p n)" "\<not> ts_periodic (one_shot_slot t d)"
  "ts_period_us (periodic_slot t p n) = p" "ts_next_due_us (periodic_slot t p n) = n"
  by (simp_all add: periodic_slot_def one_shot_slot_def)

lemma swap_poll_state:
  assumes "al_inv l" "2 \<le> al_capacity l" "al_running l" "0 < period" "a \<noteq> b"
    "al_list l = [periodic_slot a pa da, one_shot_slot b db]"
  shows "\<exists>l'. swap_poll a c period a now (l, log) = Some (l', log @ [a]) \<and> al_frame l l'
    \<and> al_list l' = [one_shot_slot b db, periodic_slot c period now]"
proof -
  obtain rm l1 where r: "al_remove a l = (rm, l1)" by fastforce
  from al_remove_spec [OF assms(1) r] assms(3,5,6) have l1: "al_frame l l1"
    "al_list l1 = [(periodic_slot a pa da)\<lparr>ts_task := None, ts_active := False\<rparr>, one_shot_slot b db]"
    by (simp_all add: ts_kill_def sched_simps)
  then have inv: "al_inv l1" and cap: "al_capacity l1 = al_capacity l" by (simp_all add: al_frame_def)
  have live: "al_live l1 = [one_shot_slot b db]" by (simp add: l1(2) sched_simps)
  obtain ok l2 where a: "al_add_periodic c period now l1 = (ok, l2)" by fastforce
  from al_add_spec(1) [OF inv a] live cap assms(2,4) have l2: "al_frame l1 l2"
    "al_list l2 = [one_shot_slot b db, periodic_slot c period now]" by auto
  from r a l2 al_frame_trans [OF l1(1) l2(1)] show ?thesis
    by (simp add: swap_poll_def Let_def)
qed

lemma al_run_loop_swap:
  assumes "al_inv l" "2 \<le> al_capacity l" "al_running l" "0 < period" "a \<noteq> b" "c \<noteq> a"
    "unat now + unat period < 2 ^ 64" "da \<le> now"
    "al_list l = [periodic_slot a pa da, one_shot_slot b db]"
  shows "\<exists>l' d. al_run_loop (swap_poll a c period) now 0 (l, log) = Some (l', log @ [a, c])
    \<and> al_inv l' \<and> al_live l' = [periodic_slot c period d]"
proof -
  from swap_poll_state [OF assms(1-5,9)] obtain l1 where
    p1: "swap_poll a c period a now (l, log) = Some (l1, log @ [a])" and f1: "al_frame l l1"
    and li1: "al_list l1 = [one_shot_slot b db, periodic_slot c period now]" by blast
  then have inv1: "al_inv l1" by (simp add: al_frame_def)
  have n: "al_count l = 2" "al_count l1 = 2"
    using length_al_list [OF assms(1)] length_al_list [OF inv1] assms(9) li1 by simp_all
  have s0: "al_tasks l ! 0 = periodic_slot a pa da" using nth_al_list [of 0 l] n assms(9) by simp
  obtain l2 where a2: "al_after_poll now 0 l1 = Some l2" and f2: "al_frame l1 l2" "al_count l2 = 2"
    and li2: "al_list l2 = [(one_shot_slot b db)\<lparr>ts_active := False, ts_task := None\<rparr>, periodic_slot c period now]"
    using al_after_poll_one_shot [of 0 l1 now] n inv1 li1 by (auto simp: sched_simps)
  have inv2: "al_inv l2" using f2 by (simp add: al_frame_def)
  have s1: "al_tasks l2 ! 1 = periodic_slot c period now" using nth_al_list [of 1 l2] f2(2) li2 by simp
  have p2: "swap_poll a c period c now (l2, log @ [a]) = Some (l2, log @ [a, c])"
    using assms(6) by (simp add: swap_poll_def)
  obtain d where d: "advance_due now period now = Some d" using advance_due_total [OF assms(4,7)] by blast
  obtain l3 where a3: "al_after_poll now 1 l2 = Some l3" and f3: "al_frame l2 l3" "al_count l3 = 2"
    and li3: "al_list l3 = [(one_shot_slot b db)\<lparr>ts_active := False, ts_task := None\<rparr>,
      (periodic_slot c period now)\<lparr>ts_next_due_us := d\<rparr>]"
    using al_after_poll_periodic [of 1 l2 now d] f2(2) inv2 li2 d by (auto simp: sched_simps)
  have "al_run_loop (swap_poll a c period) now 2 (l3, log @ [a, c]) = Some (l3, log @ [a, c])"
    using f3(2) by (simp add: al_run_loop.simps)
  then have "al_run_loop (swap_poll a c period) now 1 (l2, log @ [a]) = Some (l3, log @ [a, c])"
    using f2(2) s1 p2 a3
    by (simp add: al_run_loop.simps [of _ now 1] al_run_loop.simps [of _ now "Suc 0"] sched_simps Let_def numeral_2_eq_2)
  then have "al_run_loop (swap_poll a c period) now 0 (l, log) = Some (l3, log @ [a, c])"
    using n(1) s0 p1 a2 assms(8) by (simp add: al_run_loop.simps [of _ now 0] sched_simps Let_def)
  moreover have "al_live l3 = [periodic_slot c period d]"
    by (simp add: li3 sched_simps) (simp add: periodic_slot_def)
  ultimately show ?thesis using f3(1) by (auto simp: al_frame_def)
qed

text \<open>
  C5: a cooperative iteration whose tasks leave the scheduler alone polls exactly the due tasks, in
  registration order, each once with the time read at its beginning; one-shots that were due are
  gone afterwards, a due periodic task moves by whole periods to the first deadline after that time,
  and nothing else changes.
\<close>

theorem run_once_polls_due_tasks:
  assumes "quiet eff poll" "al_inv l" "\<forall>s \<in> set (al_live l). ts_returns now s" "clk w = (now, w1)"
  shows "\<exists>l'. al_run_once clk poll (l, w) =
      Some (l', fold (\<lambda>s. eff (the (ts_task s))) (filter (al_due now) (al_live l)) w1)
    \<and> al_list l' = map (ts_visited now) (filter (\<lambda>s. al_due now s \<longrightarrow> ts_periodic s) (al_live l))
    \<and> list_all (\<lambda>s. al_due now s \<and> ts_periodic s \<longrightarrow> unat (ts_next_due_us (ts_visited now s)) =
        unat (ts_next_due_us s)
          + Suc ((unat now - unat (ts_next_due_us s)) div unat (ts_period_us s)) * unat (ts_period_us s))
        (al_live l)"
proof -
  have "unat (ts_next_due_us (ts_visited now s)) = unat (ts_next_due_us s)
      + Suc ((unat now - unat (ts_next_due_us s)) div unat (ts_period_us s)) * unat (ts_period_us s)"
    if "s \<in> set (al_live l)" "al_due now s" "ts_periodic s" for s
    using al_due_returns [OF that(2) _ that(3)] assms(3) that by (auto simp: ts_visited_def)
  with al_run_once_quiet [where clk = clk and w = w, OF quiet_on_UNIV [OF assms(1)] assms(2) _ assms(4)] assms(3)
  show ?thesis by (auto simp: list_all_iff)
qed

definition demo_loop :: arduino_loop where
  "demo_loop = snd (al_add_one_shot 9 25 (snd (al_add_periodic 4 10 5 (al_init 3))))"

lemma demo_loop_list: "al_inv demo_loop" "al_list demo_loop = [periodic_slot 4 10 5, one_shot_slot 9 25]"
  "al_capacity demo_loop = 3"
proof -
  obtain ok1 l1 where 1: "al_add_periodic 4 10 5 (al_init 3) = (ok1, l1)" by fastforce
  from al_add_spec(1) [OF al_inv_init(1) 1] have l1: "al_inv l1" "al_list l1 = [periodic_slot 4 10 5]" "al_capacity l1 = 3"
    by (auto simp: al_frame_def)
  obtain ok2 l2 where 2: "al_add_one_shot 9 25 l1 = (ok2, l2)" by fastforce
  from al_add_spec(2) [OF l1(1) 2] l1 have "al_inv l2" "al_list l2 = [periodic_slot 4 10 5, one_shot_slot 9 25]"
    "al_capacity l2 = 3"
    by (auto simp: al_frame_def sched_simps)
  then show "al_inv demo_loop" "al_list demo_loop = [periodic_slot 4 10 5, one_shot_slot 9 25]"
    "al_capacity demo_loop = 3"
    by (simp_all add: demo_loop_def 1 2)
qed

lemma run_once_polls_due_tasks_witness:
  "\<exists>l'. al_run_once (\<lambda>w. (27, w)) (\<lambda>t now (l, log). Some (l, log @ [t])) (demo_loop, []) = Some (l', [4, 9])
    \<and> map ts_next_due_us (al_list l') = [35]"
proof -
  have q: "quiet (\<lambda>t log. log @ [t]) (\<lambda>t now (l, log). Some (l, log @ [t]))" by (simp add: quiet_def)
  have r: "\<forall>s \<in> set (al_live demo_loop). ts_returns 27 s"
    by (simp add: demo_loop_list ts_returns_def sched_simps)
  have live: "al_live demo_loop = [periodic_slot 4 10 5, one_shot_slot 9 25]"
    by (simp add: demo_loop_list sched_simps)
  from run_once_polls_due_tasks [OF q demo_loop_list(1) r, of "\<lambda>w. (27, w)" "[]" "[]"]
  obtain l' where l': "al_run_once (\<lambda>w. (27, w)) (\<lambda>t now (l, log). Some (l, log @ [t])) (demo_loop, [])
      = Some (l', [4, 9])" "al_list l' = [ts_visited 27 (periodic_slot 4 10 5)]"
    "unat (ts_next_due_us (ts_visited 27 (periodic_slot 4 10 5))) = unat (35 :: u64)"
    by (auto simp: live sched_simps)
  then show ?thesis by (auto simp: word_unat_eq_iff)
qed

text \<open>
  C6: an iteration of the cooperative scheduler returns, whatever its tasks register or remove while
  they are polled, as long as they return and no period is so long that the clock could wrap in it.
\<close>

theorem run_once_returns:
  assumes "clk w = (now, w1)" "polls_return now n poll" "al_sane now n l"
  shows "\<exists>l' w'. al_run_once clk poll (l, w) = Some (l', w') \<and> al_sane now n l'"
  using assms by (rule al_run_once_returns)

lemma run_once_returns_witness:
  "\<exists>l' w'. al_run_once (\<lambda>w. (27, w)) (\<lambda>t now (l, w). Some (snd (al_add_one_shot 7 0 (snd (al_remove t l))), w))
      (demo_loop, ()) = Some (l', w')"
proof -
  have "polls_return 27 3 (\<lambda>t now (l, w). Some (snd (al_add_one_shot 7 0 (snd (al_remove t l))), w :: unit))"
    by (auto simp: polls_return_def intro!: al_sane_operations(2) al_sane_operations(3))
  moreover have "al_sane 27 3 demo_loop"
    unfolding demo_loop_def
    by (intro al_sane_operations) (simp_all add: al_sane_def al_init_def al_inv_def)
  ultimately show ?thesis using run_once_returns [of "\<lambda>w. (27, w)" "()" 27 "()" 3] by blast
qed

text \<open>
  C36: what registering from a callback does to another task. Task \<open>a\<close> is due, removes itself and
  registers the periodic task \<open>c\<close>; the one-shot \<open>b\<close> is registered after \<open>a\<close>. Then \<open>b\<close> is not polled in
  this iteration, even if it is due, and is no longer registered when it ends: it never runs.
  (\<open>add_periodic\<close> compacts the array under the running loop, whose reference to the slot of \<open>a\<close> then
  denotes the slot of \<open>b\<close>, which the loop retires as if it had been polled.)
\<close>

theorem lost_one_shot:
  assumes "al_inv l" "2 \<le> al_capacity l" "al_list l = [periodic_slot a pa da, one_shot_slot b db]"
    "da \<le> now" "a \<noteq> b" "c \<noteq> a" "c \<noteq> b" "0 < period" "unat now + unat period < 2 ^ 64"
  shows "\<exists>l'. al_run_once (\<lambda>log. (now, log)) (swap_poll a c period) (l, []) = Some (l', [a, c])
    \<and> al_registered l' = {c}"
proof -
  let ?l1 = "(al_compact_inactive l)\<lparr>al_running := True\<rparr>"
  have l1: "al_inv ?l1" "al_list ?l1 = [periodic_slot a pa da, one_shot_slot b db]" "2 \<le> al_capacity ?l1"
    using al_compact_spec [OF assms(1)] assms(2,3)
    by (auto simp: al_frame_def al_inv_def al_list_def sched_simps)
  from al_run_loop_swap [OF l1(1,3) _ assms(8,5,6,9,4) l1(2), of "[]"] obtain l2 d where
    run: "al_run_loop (swap_poll a c period) now 0 (?l1, []) = Some (l2, [a, c])"
    "al_inv l2" "al_live l2 = [periodic_slot c period d]" by auto
  have "al_inv (l2\<lparr>al_running := False\<rparr>)" "al_list (l2\<lparr>al_running := False\<rparr>) = al_list l2"
    using run(2) by (simp_all add: al_inv_def al_list_def)
  with al_compact_spec [of "l2\<lparr>al_running := False\<rparr>"] run(3)
  have "al_registered (al_compact_inactive (l2\<lparr>al_running := False\<rparr>)) = {c}"
    by (simp add: al_registered_def sched_simps)
  with run(1) show ?thesis by (simp add: al_run_once_def Let_def)
qed

lemma lost_one_shot_witness:
  "\<exists>l'. al_run_once (\<lambda>log. (27, log)) (swap_poll 4 6 10) (demo_loop, []) = Some (l', [4, 6])
    \<and> al_registered l' = {6}"
  by (rule lost_one_shot [OF demo_loop_list(1) _ demo_loop_list(2)]) (simp_all add: demo_loop_list)

end
