(* ===== verification/Scheduler.thy ===== *)
theory Scheduler
  imports Arduino_Loop
begin

text \<open>
  \<open>IScheduler\<close> of \<^verbatim>\<open>src/async_event_loop/scheduler.hpp\<close>, as far as \<open>EventLoop\<close> relies on it: the
  registration operations over a scheduler state \<open>'s\<close>, and the laws a backend promises. A task is
  a number; the reading of the backend's clock is an argument. The operation on file descriptors
  exists on Linux only.
\<close>

record 's sched_ops =
  so_add_periodic :: "nat \<Rightarrow> u64 \<Rightarrow> u64 \<Rightarrow> 's \<Rightarrow> bool \<times> 's"
  so_add_one_shot :: "nat \<Rightarrow> u64 \<Rightarrow> u64 \<Rightarrow> 's \<Rightarrow> bool \<times> 's"
  so_remove :: "nat \<Rightarrow> 's \<Rightarrow> bool \<times> 's"
  so_add_fd :: "(int \<Rightarrow> nat \<Rightarrow> 's \<Rightarrow> bool \<times> 's) option"

text \<open>
  The contract: an operation that adds a task reports whether it is now registered and leaves the
  other registrations alone; \<open>remove\<close> reports whether the task was registered and unregisters it.
\<close>

locale scheduler =
  fixes ops :: "'s sched_ops"
    and sinv :: "'s \<Rightarrow> bool"
    and registered :: "'s \<Rightarrow> nat set"
  assumes add_periodic: "sinv s \<Longrightarrow> so_add_periodic ops t period now s = (ok, s') \<Longrightarrow>
      sinv s' \<and> registered s' = (if ok then insert t (registered s) else registered s)"
    and add_one_shot: "sinv s \<Longrightarrow> so_add_one_shot ops t due now s = (ok, s') \<Longrightarrow>
      sinv s' \<and> registered s' = (if ok then insert t (registered s) else registered s)"
    and remove: "sinv s \<Longrightarrow> so_remove ops t s = (ok, s') \<Longrightarrow>
      sinv s' \<and> (ok \<longleftrightarrow> t \<in> registered s) \<and> registered s' = registered s - {t}"
    and add_fd: "sinv s \<Longrightarrow> so_add_fd ops = Some add \<Longrightarrow> add fd t s = (ok, s') \<Longrightarrow>
      sinv s' \<and> registered s' = (if ok then insert t (registered s) else registered s)"
begin

text \<open>A task that is not registered cannot be removed, and removing it changes no registration.\<close>

lemma remove_unregistered:
  assumes "sinv s" "t \<notin> registered s" "so_remove ops t s = (ok, s')"
  shows "\<not> ok \<and> sinv s' \<and> registered s' = registered s"
  using remove [OF assms(1,3)] assms(2) by auto

lemma add_then_remove:
  assumes "sinv s" "t \<notin> registered s" "so_add_periodic ops t period now s = (True, s1)"
    "so_remove ops t s1 = (ok, s2)"
  shows "ok \<and> sinv s2 \<and> registered s2 = registered s"
  using add_periodic [OF assms(1,3)] remove [OF _ assms(4)] assms(2) by auto

end

definition al_ops :: "arduino_loop sched_ops" where
  "al_ops = \<lparr>so_add_periodic = al_add_periodic, so_add_one_shot = (\<lambda>task due now. al_add_one_shot task due),
     so_remove = al_remove, so_add_fd = None\<rparr>"

interpretation arduino: scheduler al_ops al_ok al_registered
proof (unfold_locales, goal_cases)
  case (1 s t period now ok s')
  then have "al_add_periodic t period now s = (ok, s')" by (simp add: al_ops_def)
  from al_add_registered(1) [OF 1(1) this] show ?case .
next
  case (2 s t due now ok s')
  then have "al_add_one_shot t due s = (ok, s')" by (simp add: al_ops_def)
  from al_add_registered(2) [OF 2(1) this] show ?case .
next
  case (3 s t ok s')
  then have "al_remove t s = (ok, s')" by (simp add: al_ops_def)
  from al_remove_registered [OF 3(1) this] show ?case .
next
  case (4 s add fd t ok s')
  then show ?case by (simp add: al_ops_def)
qed

end
