(* ===== verification/Event_Loop.thy ===== *)
theory Event_Loop
  imports Scheduler Callback_Task Pin_Events
begin

text \<open>
  \<open>EventLoop\<close> of \<^verbatim>\<open>src/async_event_loop/event_loop.hpp\<close>: fixed callback slots named by handles with
  a generation. The template parameter \<open>MaxCallbacks\<close> is the length of \<open>el_tasks\<close>; the callback task of
  slot \<open>i\<close> is known to the scheduler as task \<open>i\<close>. The state of a program is the scheduler, the
  slots and an arbitrary world \<open>'w\<close> (streams, pin sources, the clock, the application's data).
  The application's callables are values of a type \<open>'p\<close>, and what they do is a parameter.
\<close>

record event_handle =
  eh_slot :: u16
  eh_generation :: u16

definition invalid_slot :: u16 where
  "invalid_slot = 0xffff"

definition eh_none :: event_handle where
  "eh_none = \<lparr>eh_slot = invalid_slot, eh_generation = 0\<rparr>"

definition eh_assigned :: "event_handle \<Rightarrow> bool" where
  "eh_assigned h \<longleftrightarrow> eh_slot h \<noteq> invalid_slot"

abbreviation eh_index :: "event_handle \<Rightarrow> nat" where
  "eh_index h \<equiv> unat (eh_slot h)"

text \<open>
  The callables the loop stores: the application's own, the \<open>OneShotCallback\<close> that wraps one, and the
  closures of \<open>on_bytes_ready\<close> and \<open>on_pin_event\<close> over a stream or pin source (a number).
\<close>

datatype 'p el_callable =
    Plain 'p
  | One_Shot event_handle 'p
  | Bytes_Ready nat 'p
  | Pin_Events nat 'p

record 'p event_loop =
  el_tasks :: "'p el_callable callback_task list"
  el_generations :: "u16 list"
  el_used :: "bool list"

type_synonym ('p, 's, 'w) el_state = "'s \<times> 'p event_loop \<times> 'w"

text \<open>
  What is outside the loop: the scheduler backend, the clock, streams and pin sources (their
  descriptors, readiness and events), and the effect of the application's callables. A callable
  that does not return is \<open>None\<close>.
\<close>

record ('p, 's, 'w) el_env =
  en_ops :: "'s sched_ops"
  en_micros :: "'w \<Rightarrow> u64"
  en_readable :: "nat \<Rightarrow> 'w \<Rightarrow> bool"
  en_stream_fd :: "nat \<Rightarrow> 'w \<Rightarrow> int"
  en_source_fd :: "nat \<Rightarrow> 'w \<Rightarrow> int"
  en_read_event :: "nat \<Rightarrow> 'w \<Rightarrow> (pin_event option \<times> 'w) option"
  en_run :: "'p \<Rightarrow> ('p, 's, 'w) el_state \<Rightarrow> ('p, 's, 'w) el_state option"
  en_run_pin :: "'p \<Rightarrow> pin_event \<Rightarrow> ('p, 's, 'w) el_state \<Rightarrow> ('p, 's, 'w) el_state option"
  en_external :: "nat \<Rightarrow> u64 \<Rightarrow> ('p, 's, 'w) el_state \<Rightarrow> ('p, 's, 'w) el_state option"

definition el_init :: "nat \<Rightarrow> 'p event_loop" where
  "el_init n = \<lparr>el_tasks = replicate n ct_init, el_generations = replicate n 0,
     el_used = replicate n False\<rparr>"

section \<open>Slots and handles\<close>

definition el_valid :: "event_handle \<Rightarrow> 'p event_loop \<Rightarrow> bool" where
  "el_valid h l \<longleftrightarrow> eh_assigned h \<and> eh_index h < length (el_tasks l) \<and> el_used l ! eh_index h
     \<and> ct_active (el_tasks l ! eh_index h) \<and> el_generations l ! eh_index h = eh_generation h"

definition el_set_task :: "nat \<Rightarrow> 'p el_callable callback_task \<Rightarrow> 'p event_loop \<Rightarrow> 'p event_loop" where
  "el_set_task i t l = l\<lparr>el_tasks := (el_tasks l)[i := t]\<rparr>"

definition el_enable :: "event_handle \<Rightarrow> 'p event_loop \<Rightarrow> bool \<times> 'p event_loop" where
  "el_enable h l =
     (if \<not> el_valid h l then (False, l)
      else (True, el_set_task (eh_index h) (ct_set_enabled True (el_tasks l ! eh_index h)) l))"

definition el_disable :: "event_handle \<Rightarrow> 'p event_loop \<Rightarrow> bool \<times> 'p event_loop" where
  "el_disable h l =
     (if \<not> el_valid h l then (False, l)
      else (True, el_set_task (eh_index h) (ct_set_enabled False (el_tasks l ! eh_index h)) l))"

definition el_free_slot :: "nat \<Rightarrow> 'p event_loop \<Rightarrow> 'p event_loop" where
  "el_free_slot i l =
     (el_set_task i (ct_clear (el_tasks l ! i)) l)
       \<lparr>el_used := (el_used l)[i := False],
        el_generations := (el_generations l)[i := el_generations l ! i + 1]\<rparr>"

definition el_release_registered :: "event_handle \<Rightarrow> 'p event_loop \<Rightarrow> 'p event_loop" where
  "el_release_registered h l =
     (if \<not> eh_assigned h \<or> eh_index h \<ge> length (el_tasks l) then l
      else if \<not> el_used l ! eh_index h \<or> el_generations l ! eh_index h \<noteq> eh_generation h then l
      else el_free_slot (eh_index h) l)"

definition el_release_unregistered :: "event_handle \<Rightarrow> 'p event_loop \<Rightarrow> 'p event_loop" where
  "el_release_unregistered h l =
     (if \<not> eh_assigned h \<or> eh_index h \<ge> length (el_tasks l) then l
      else el_free_slot (eh_index h) l)"

definition el_complete_one_shot :: "event_handle \<Rightarrow> 'p event_loop \<Rightarrow> 'p event_loop" where
  "el_complete_one_shot h l = el_release_registered h l"

definition el_remove ::
  "('p, 's, 'w) el_env \<Rightarrow> event_handle \<Rightarrow> ('p, 's, 'w) el_state \<Rightarrow> bool \<times> ('p, 's, 'w) el_state" where
  "el_remove env h st =
     (case st of (s, l, w) \<Rightarrow>
        if \<not> el_valid h l then (False, st)
        else (case so_remove (en_ops env) (eh_index h) s of
                (False, s') \<Rightarrow> (False, (s', l, w))
              | (True, s') \<Rightarrow> (True, (s', el_release_registered h l, w))))"

text \<open>The search for a slot: \<^verbatim>\<open>for (i = 0; i < MaxCallbacks; ++i) if (!callback_used_[i])\<close>.\<close>

fun first_unused :: "bool list \<Rightarrow> nat option" where
  "first_unused [] = None"
| "first_unused (u # us) = (if \<not> u then Some 0 else map_option Suc (first_unused us))"

definition el_allocate :: "(event_handle \<Rightarrow> 'p el_callable) \<Rightarrow> 'p event_loop \<Rightarrow> event_handle \<times> 'p event_loop" where
  "el_allocate callable l =
     (case first_unused (el_used l) of
        None \<Rightarrow> (eh_none, l)
      | Some i \<Rightarrow>
          let h = \<lparr>eh_slot = word_of_nat i, eh_generation = el_generations l ! i\<rparr>
          in case ct_set (callable h) (el_tasks l ! i) of
               (False, t) \<Rightarrow> (eh_none, el_set_task i t l)
             | (True, t) \<Rightarrow> (h, (el_set_task i t l)\<lparr>el_used := (el_used l)[i := True]\<rparr>))"

section \<open>Registration\<close>

definition el_add_periodic ::
  "('p, 's, 'w) el_env \<Rightarrow> nat \<Rightarrow> u64 \<Rightarrow> ('p, 's, 'w) el_state \<Rightarrow> bool \<times> ('p, 's, 'w) el_state" where
  "el_add_periodic env task period st =
     (case st of (s, l, w) \<Rightarrow>
        case so_add_periodic (en_ops env) task period (en_micros env w) s of (ok, s') \<Rightarrow> (ok, (s', l, w)))"

definition el_add_one_shot ::
  "('p, 's, 'w) el_env \<Rightarrow> nat \<Rightarrow> u64 \<Rightarrow> ('p, 's, 'w) el_state \<Rightarrow> bool \<times> ('p, 's, 'w) el_state" where
  "el_add_one_shot env task due st =
     (case st of (s, l, w) \<Rightarrow>
        case so_add_one_shot (en_ops env) task due (en_micros env w) s of (ok, s') \<Rightarrow> (ok, (s', l, w)))"

text \<open>
  The common shape of the registering operations: allocate a slot, register its task with the
  scheduler, and give the slot back when the scheduler refuses.
\<close>

definition el_register ::
  "(event_handle \<Rightarrow> 'p el_callable) \<Rightarrow> (nat \<Rightarrow> ('p, 's, 'w) el_state \<Rightarrow> bool \<times> ('p, 's, 'w) el_state)
     \<Rightarrow> ('p, 's, 'w) el_state \<Rightarrow> event_handle \<times> ('p, 's, 'w) el_state" where
  "el_register callable add st =
     (case st of (s, l, w) \<Rightarrow>
        case el_allocate callable l of (h, l1) \<Rightarrow>
          if \<not> eh_assigned h then (eh_none, (s, l1, w))
          else (case add (eh_index h) (s, l1, w) of
                  (False, (s2, l2, w2)) \<Rightarrow> (eh_none, (s2, el_release_unregistered h l2, w2))
                | (True, st2) \<Rightarrow> (h, st2)))"

definition el_on_repeat_us ::
  "('p, 's, 'w) el_env \<Rightarrow> u64 \<Rightarrow> 'p \<Rightarrow> ('p, 's, 'w) el_state \<Rightarrow> event_handle \<times> ('p, 's, 'w) el_state" where
  "el_on_repeat_us env period p = el_register (\<lambda>h. Plain p) (\<lambda>i. el_add_periodic env i period)"

definition due_after :: "u64 \<Rightarrow> u64 \<Rightarrow> u64" where
  "due_after now delay = (if delay > - 1 - now then - 1 else now + delay)"

definition el_on_delay_us ::
  "('p, 's, 'w) el_env \<Rightarrow> u64 \<Rightarrow> 'p \<Rightarrow> ('p, 's, 'w) el_state \<Rightarrow> event_handle \<times> ('p, 's, 'w) el_state" where
  "el_on_delay_us env delay p =
     el_register (\<lambda>h. One_Shot h p)
       (\<lambda>i st. case st of (s, l, w) \<Rightarrow> el_add_one_shot env i (due_after (en_micros env w) delay) st)"

definition el_on_repeat ::
  "('p, 's, 'w) el_env \<Rightarrow> u32 \<Rightarrow> 'p \<Rightarrow> ('p, 's, 'w) el_state \<Rightarrow> event_handle \<times> ('p, 's, 'w) el_state" where
  "el_on_repeat env interval_ms p = el_on_repeat_us env (ucast interval_ms * 1000) p"

definition el_on_delay ::
  "('p, 's, 'w) el_env \<Rightarrow> u32 \<Rightarrow> 'p \<Rightarrow> ('p, 's, 'w) el_state \<Rightarrow> event_handle \<times> ('p, 's, 'w) el_state" where
  "el_on_delay env delay_ms p = el_on_delay_us env (ucast delay_ms * 1000) p"

definition default_readiness_poll_us :: u64 where
  "default_readiness_poll_us = 1000"

definition el_readiness_or_poll ::
  "('p, 's, 'w) el_env \<Rightarrow> int \<Rightarrow> nat \<Rightarrow> u64 \<Rightarrow> ('p, 's, 'w) el_state \<Rightarrow> bool \<times> ('p, 's, 'w) el_state" where
  "el_readiness_or_poll env fd task poll_us st =
     (let period = (if poll_us = 0 then default_readiness_poll_us else poll_us)
      in case so_add_fd (en_ops env) of
           Some add \<Rightarrow>
             if fd \<ge> 0 then (case st of (s, lw) \<Rightarrow> case add fd task s of (ok, s') \<Rightarrow> (ok, (s', lw)))
             else el_add_periodic env task period st
         | None \<Rightarrow> el_add_periodic env task period st)"

definition el_on_bytes_ready ::
  "('p, 's, 'w) el_env \<Rightarrow> nat \<Rightarrow> 'p \<Rightarrow> u64 \<Rightarrow> ('p, 's, 'w) el_state \<Rightarrow> event_handle \<times> ('p, 's, 'w) el_state" where
  "el_on_bytes_ready env stream p poll_us =
     el_register (\<lambda>h. Bytes_Ready stream p)
       (\<lambda>i st. case st of (s, l, w) \<Rightarrow> el_readiness_or_poll env (en_stream_fd env stream w) i poll_us st)"

definition el_on_pin_event ::
  "('p, 's, 'w) el_env \<Rightarrow> nat \<Rightarrow> 'p \<Rightarrow> u64 \<Rightarrow> ('p, 's, 'w) el_state \<Rightarrow> event_handle \<times> ('p, 's, 'w) el_state" where
  "el_on_pin_event env source p poll_us =
     el_register (\<lambda>h. Pin_Events source p)
       (\<lambda>i st. case st of (s, l, w) \<Rightarrow> el_readiness_or_poll env (en_source_fd env source w) i poll_us st)"

section \<open>Polling a slot\<close>

text \<open>\<^verbatim>\<open>while (source.read_event(event)) callable(event);\<close> A source that blocks in \<open>read_event\<close> does not return.\<close>

partial_function (option) el_drain_pins ::
  "('p, 's, 'w) el_env \<Rightarrow> nat \<Rightarrow> 'p \<Rightarrow> ('p, 's, 'w) el_state \<Rightarrow> ('p, 's, 'w) el_state option" where
  "el_drain_pins env source p st =
     (case st of (s, l, w) \<Rightarrow>
        case en_read_event env source w of
          None \<Rightarrow> None
        | Some (None, w') \<Rightarrow> Some (s, l, w')
        | Some (Some ev, w') \<Rightarrow>
            (case en_run_pin env p ev (s, l, w') of
               None \<Rightarrow> None
             | Some st' \<Rightarrow> el_drain_pins env source p st'))"

declare el_drain_pins.simps [code]

definition el_invoke ::
  "('p, 's, 'w) el_env \<Rightarrow> 'p el_callable \<Rightarrow> ('p, 's, 'w) el_state \<Rightarrow> ('p, 's, 'w) el_state option" where
  "el_invoke env c st =
     (case c of
        Plain p \<Rightarrow> en_run env p st
      | One_Shot h p \<Rightarrow>
          map_option (\<lambda>(s, l, w). (s, el_complete_one_shot h l, w)) (en_run env p st)
      | Bytes_Ready stream p \<Rightarrow>
          (case st of (s, l, w) \<Rightarrow> if en_readable env stream w then en_run env p st else Some st)
      | Pin_Events source p \<Rightarrow> el_drain_pins env source p st)"

definition el_poll ::
  "('p, 's, 'w) el_env \<Rightarrow> nat \<Rightarrow> u64 \<Rightarrow> ('p, 's, 'w) el_state \<Rightarrow> ('p, 's, 'w) el_state option" where
  "el_poll env task now st =
     (case st of (s, l, w) \<Rightarrow>
        if task \<ge> length (el_tasks l) then en_external env task now st
        else (case ct_poll_begin (el_tasks l ! task) of
                None \<Rightarrow> Some st
              | Some (c, t) \<Rightarrow>
                  map_option (\<lambda>(s', l', w'). (s', el_set_task task (ct_poll_end (el_tasks l' ! task)) l', w'))
                    (el_invoke env c (s, el_set_task task t l, w))))"

text \<open>\<open>tick()\<close> and \<open>run_once()\<close> on the cooperative backend.\<close>

definition el_run_once ::
  "('p, arduino_loop, 'w) el_env \<Rightarrow> ('p, arduino_loop, 'w) el_state \<Rightarrow> ('p, arduino_loop, 'w) el_state option" where
  "el_run_once env = al_run_once (\<lambda>(l, w). (en_micros env w, (l, w))) (el_poll env)"

end
