(* ===== verification/Event_Loop_Inv.thy ===== *)
theory Event_Loop_Inv
  imports Event_Loop Arduino_Run
begin

text \<open>
  The invariant of \<open>EventLoop\<close>: a slot is marked used exactly while its callback task is active, and
  every task is well formed. It is kept by every call a program can make, by the execution of any
  callback that makes such calls, and by the iterations of the cooperative backend. The lemmas about
  a program's calls are proved for every scheduler that meets the contract.
\<close>

section \<open>Slots\<close>

definition slots_wf :: "nat \<Rightarrow> 'p event_loop \<Rightarrow> bool" where
  "slots_wf n l \<longleftrightarrow> n \<le> 0xfffe \<and> length (el_tasks l) = n \<and> length (el_generations l) = n
     \<and> length (el_used l) = n
     \<and> (\<forall>i < n. ct_inv (el_tasks l ! i) \<and> (el_used l ! i \<longleftrightarrow> ct_active (el_tasks l ! i)))"

lemma slots_wf_init: "n \<le> 0xfffe \<Longrightarrow> slots_wf n (el_init n)"
  by (simp add: slots_wf_def el_init_def) (simp add: ct_init_def)

text \<open>Replacing the task of a slot together with its mark.\<close>

lemma slots_wf_update:
  assumes "slots_wf n l" "ct_inv t" "u = ct_active t" "length gs = n"
  shows "slots_wf n (l\<lparr>el_tasks := (el_tasks l)[i := t], el_used := (el_used l)[i := u],
      el_generations := gs\<rparr>)"
proof -
  have "ct_inv ((el_tasks l)[i := t] ! j) \<and> ((el_used l)[i := u] ! j \<longleftrightarrow> ct_active ((el_tasks l)[i := t] ! j))"
    if "j < n" for j
    using assms that by (cases "j = i") (simp_all add: slots_wf_def)
  with assms(1,4) show ?thesis by (simp add: slots_wf_def)
qed

lemma slots_wf_set_task:
  assumes "slots_wf n l" "i < n" "ct_inv t" "ct_active t = ct_active (el_tasks l ! i)"
  shows "slots_wf n (el_set_task i t l)"
proof -
  have "ct_inv ((el_tasks l)[i := t] ! j) \<and> (el_used l ! j \<longleftrightarrow> ct_active ((el_tasks l)[i := t] ! j))"
    if "j < n" for j
    using assms that by (cases "j = i") (simp_all add: slots_wf_def)
  with assms(1) show ?thesis by (simp add: slots_wf_def el_set_task_def)
qed

lemma slots_wf_nth: "slots_wf n l \<Longrightarrow> i < n \<Longrightarrow> ct_inv (el_tasks l ! i) \<and> (el_used l ! i \<longleftrightarrow> ct_active (el_tasks l ! i))"
  by (simp add: slots_wf_def)

lemma slots_wf_enable:
  assumes "slots_wf n l"
  shows "slots_wf n (snd (el_enable h l))" "slots_wf n (snd (el_disable h l))"
proof -
  have "slots_wf n (el_set_task (eh_index h) (ct_set_enabled on (el_tasks l ! eh_index h)) l)"
    if "el_valid h l" for on
    using that assms slots_wf_nth [OF assms, of "eh_index h"]
    by (intro slots_wf_set_task ct_inv_set_enabled) (simp_all add: el_valid_def slots_wf_def loop_simps)
  with assms show "slots_wf n (snd (el_enable h l))" "slots_wf n (snd (el_disable h l))"
    by (simp_all add: el_enable_def el_disable_def)
qed

lemma slots_wf_free_slot:
  assumes "slots_wf n l" "i < n"
  shows "slots_wf n (el_free_slot i l)"
proof -
  let ?gs = "(el_generations l)[i := el_generations l ! i + 1]"
  have "ct_inv (ct_clear (el_tasks l ! i))" "False = ct_active (ct_clear (el_tasks l ! i))" "length ?gs = n"
    using assms slots_wf_nth [OF assms] by (simp_all add: ct_inv_clear loop_simps slots_wf_def)
  from slots_wf_update [OF assms(1) this, of i] show ?thesis
    by (simp add: el_free_slot_def el_set_task_def)
qed

lemma slots_wf_release:
  assumes "slots_wf n l"
  shows "slots_wf n (el_release_registered h l)" "slots_wf n (el_release_unregistered h l)"
  using assms slots_wf_free_slot [OF assms, of "eh_index h"]
  by (auto simp: el_release_registered_def el_release_unregistered_def slots_wf_def)

lemma first_unused_spec:
  "first_unused us = Some i \<longleftrightarrow> i < length us \<and> \<not> us ! i \<and> (\<forall>j < i. us ! j)"
proof (induction us arbitrary: i)
  case Nil
  then show ?case by simp
next
  case (Cons u us)
  show ?case
  proof (cases u)
    case True
    then show ?thesis by (cases i) (auto simp: Cons.IH less_Suc_eq_0_disj)
  next
    case False
    then show ?thesis by (cases i) auto
  qed
qed

lemma first_unused_None: "first_unused us = None \<longleftrightarrow> (\<forall>j < length us. us ! j)"
proof (induction us)
  case (Cons u us)
  then show ?case by (auto simp: less_Suc_eq_0_disj)
qed simp

lemma slot_handle:
  assumes "i < n" "n \<le> 0xfffe"
  shows "unat (word_of_nat i :: u16) = i" "word_of_nat i \<noteq> invalid_slot"
proof -
  show u: "unat (word_of_nat i :: u16) = i"
    using assms by (simp add: unat_of_nat take_bit_nat_eq_self)
  show "word_of_nat i \<noteq> invalid_slot"
  proof
    assume "word_of_nat i = invalid_slot"
    then have "unat (word_of_nat i :: u16) = unat invalid_slot" by simp
    with u assms show False by (simp add: invalid_slot_def)
  qed
qed

lemma eh_none_unassigned [simp]: "\<not> eh_assigned eh_none"
  by (simp add: eh_assigned_def eh_none_def)

text \<open>
  Allocation: it succeeds exactly if the lowest unused slot exists and its task is not executing,
  and then stores the callable there; otherwise no slot changes its mark.
\<close>

lemma el_allocate_spec:
  assumes "slots_wf n l" "el_allocate c l = (h, l')"
  shows "slots_wf n l'" "el_generations l' = el_generations l"
    and "eh_assigned h \<Longrightarrow> \<exists>i < n. first_unused (el_used l) = Some i \<and> \<not> ct_invoking (el_tasks l ! i)
      \<and> eh_index h = i \<and> eh_generation h = el_generations l ! i
      \<and> el_used l' = (el_used l)[i := True]
      \<and> el_tasks l' = (el_tasks l)[i := snd (ct_set (c h) (el_tasks l ! i))]"
    and "\<not> eh_assigned h \<Longrightarrow> h = eh_none \<and> el_used l' = el_used l
      \<and> (\<forall>i. first_unused (el_used l) = Some i \<longrightarrow> ct_invoking (el_tasks l ! i))"
proof -
  have "slots_wf n l' \<and> el_generations l' = el_generations l \<and> (if eh_assigned h
     then \<exists>i < n. first_unused (el_used l) = Some i \<and> \<not> ct_invoking (el_tasks l ! i)
      \<and> eh_index h = i \<and> eh_generation h = el_generations l ! i
      \<and> el_used l' = (el_used l)[i := True]
      \<and> el_tasks l' = (el_tasks l)[i := snd (ct_set (c h) (el_tasks l ! i))]
     else h = eh_none \<and> el_used l' = el_used l
      \<and> (\<forall>i. first_unused (el_used l) = Some i \<longrightarrow> ct_invoking (el_tasks l ! i)))"
  proof (cases "first_unused (el_used l)")
    case None
    with assms show ?thesis by (auto simp: el_allocate_def)
  next
    case (Some i)
    then have i: "i < n" "\<not> el_used l ! i" using assms(1) by (simp_all add: first_unused_spec slots_wf_def)
    let ?h = "\<lparr>eh_slot = word_of_nat i, eh_generation = el_generations l ! i\<rparr>"
    obtain ok t where t: "ct_set (c ?h) (el_tasks l ! i) = (ok, t)" by fastforce
    have inv: "ct_inv t" using ct_inv_set [of "el_tasks l ! i" "c ?h"] slots_wf_nth [OF assms(1) i(1)] t by simp
    have ok: "ok \<longleftrightarrow> \<not> ct_invoking (el_tasks l ! i)" "ct_active t \<longleftrightarrow> ok"
      using ct_set_simps(1,2) [of "c ?h" "el_tasks l ! i"] t by simp_all
    have n: "n \<le> 0xfffe" "length (el_generations l) = n" "length (el_used l) = n" using assms(1) by (simp_all add: slots_wf_def)
    have h: "eh_assigned ?h" "eh_index ?h = i" using slot_handle [OF i(1) n(1)] by (simp_all add: eh_assigned_def)
    show ?thesis
    proof (cases ok)
      case True
      with Some t have e: "h = ?h" "l' = (el_set_task i t l)\<lparr>el_used := (el_used l)[i := True]\<rparr>"
        using assms(2) by (simp_all add: el_allocate_def Let_def)
      have "slots_wf n l'"
        using slots_wf_update [OF assms(1) inv _ n(2), of True i] True ok(2)
        by (simp add: e(2) el_set_task_def)
      with e h i(1) t True ok(1) Some show ?thesis by (simp add: el_set_task_def)
    next
      case False
      with Some t have e: "h = eh_none" "l' = el_set_task i t l"
        using assms(2) by (simp_all add: el_allocate_def Let_def)
      have "slots_wf n l'" unfolding e(2)
        using slots_wf_set_task [OF assms(1) i(1) inv] ok(2) False i(2) slots_wf_nth [OF assms(1) i(1)] by simp
      with e Some False ok(1) show ?thesis by (simp add: el_set_task_def)
    qed
  qed
  then show "slots_wf n l'" "el_generations l' = el_generations l"
    "eh_assigned h \<Longrightarrow> \<exists>i < n. first_unused (el_used l) = Some i \<and> \<not> ct_invoking (el_tasks l ! i)
      \<and> eh_index h = i \<and> eh_generation h = el_generations l ! i
      \<and> el_used l' = (el_used l)[i := True]
      \<and> el_tasks l' = (el_tasks l)[i := snd (ct_set (c h) (el_tasks l ! i))]"
    "\<not> eh_assigned h \<Longrightarrow> h = eh_none \<and> el_used l' = el_used l
      \<and> (\<forall>i. first_unused (el_used l) = Some i \<longrightarrow> ct_invoking (el_tasks l ! i))"
    by auto
qed

end
