(* ===== verification/Event_Loop_Steps.thy ===== *)
theory Event_Loop_Steps
  imports Event_Loop_Inv
begin

text \<open>
  The calls by which a program registers, removes, enables and disables callbacks of an \<open>EventLoop\<close> and tasks of its
  scheduler, as a step relation, and what every such call, and so every sequence of them, keeps. Running the loop
  (\<open>tick\<close>, \<open>run_once\<close>, \<open>run_forever\<close>) is not one of these calls, and what they keep, running the loop in a callback
  does not: see \<open>nested_tick_destroys_executing\<close> in \<open>Event_Loop_Arduino\<close>. (\<open>request_exit\<close> sets a flag nothing here reads.)
\<close>

inductive el_api :: "('p, 's, 'w) el_env \<Rightarrow> nat \<Rightarrow> ('p, 's, 'w) el_state \<Rightarrow> ('p, 's, 'w) el_state \<Rightarrow> bool"
  for env :: "('p, 's, 'w) el_env" and n :: nat where
  api_world: "el_api env n (s, l, w) (s, l, w')"
| api_enable: "el_enable h l = (ok, l') \<Longrightarrow> el_api env n (s, l, w) (s, l', w)"
| api_disable: "el_disable h l = (ok, l') \<Longrightarrow> el_api env n (s, l, w) (s, l', w)"
| api_remove: "el_remove env h st = (ok, st') \<Longrightarrow> el_api env n st st'"
| api_repeat: "el_on_repeat_us env period p st = (h, st') \<Longrightarrow> el_api env n st st'"
| api_delay: "el_on_delay_us env delay p st = (h, st') \<Longrightarrow> el_api env n st st'"
| api_bytes: "el_on_bytes_ready env stream p poll_us st = (h, st') \<Longrightarrow> el_api env n st st'"
| api_pins: "el_on_pin_event env source p poll_us st = (h, st') \<Longrightarrow> el_api env n st st'"
| api_periodic: "n \<le> t \<Longrightarrow> el_add_periodic env t period st = (ok, st') \<Longrightarrow> el_api env n st st'"
| api_one_shot: "n \<le> t \<Longrightarrow> el_add_one_shot env t due st = (ok, st') \<Longrightarrow> el_api env n st st'"

text \<open>
  What a call keeps of a slot: its generation moves by at most one; while its callable executes it
  is neither destroyed nor replaced; and a used slot the scheduler does not know stays like that.
\<close>

definition slot_kept :: "nat \<Rightarrow> nat set \<times> 'p event_loop \<Rightarrow> nat set \<times> 'p event_loop \<Rightarrow> bool" where
  "slot_kept i a b \<longleftrightarrow> (case (a, b) of ((reg, l), (reg', l')) \<Rightarrow>
     (el_generations l' ! i = el_generations l ! i \<or> el_generations l' ! i = el_generations l ! i + 1)
     \<and> (ct_invoking (el_tasks l ! i) \<longrightarrow> ct_invoking (el_tasks l' ! i)
          \<and> ct_callable (el_tasks l' ! i) = ct_callable (el_tasks l ! i)
          \<and> ct_destroyed (el_tasks l' ! i) = ct_destroyed (el_tasks l ! i))
     \<and> (el_used l ! i \<and> i \<notin> reg \<longrightarrow> el_used l' ! i \<and> i \<notin> reg'
          \<and> el_generations l' ! i = el_generations l ! i))"

lemma slot_kept_refl [simp]: "slot_kept i (reg, l) (reg', l)" if "i \<notin> reg \<Longrightarrow> i \<notin> reg'"
  using that by (simp add: slot_kept_def)

lemma ct_op_keeps:
  assumes "ct_invoking t" "ct_inv t"
  shows "ct_invoking (ct_clear t) \<and> ct_callable (ct_clear t) = ct_callable t \<and> ct_destroyed (ct_clear t) = ct_destroyed t"
    "ct_invoking (ct_set_enabled on t) \<and> ct_callable (ct_set_enabled on t) = ct_callable t
      \<and> ct_destroyed (ct_set_enabled on t) = ct_destroyed t"
    "ct_invoking (snd (ct_set f t)) \<and> ct_callable (snd (ct_set f t)) = ct_callable t
      \<and> ct_destroyed (snd (ct_set f t)) = ct_destroyed t"
  using assms by (auto simp: ct_defs)

lemma enable_kept:
  assumes "slots_wf n l" "i < n"
  shows "slot_kept i (reg, l) (reg, snd (el_enable h l))" "slot_kept i (reg, l) (reg, snd (el_disable h l))"
  using assms slots_wf_nth [OF assms] ct_op_keeps(2) [of "el_tasks l ! i"]
  by (cases "i = eh_index h";
      auto simp: slot_kept_def el_enable_def el_disable_def el_set_task_def slots_wf_def)+

lemma free_slot_kept:
  assumes "slots_wf n l" "i < n" "j < n" "el_used l ! j \<Longrightarrow> j \<in> reg" "i \<notin> reg \<Longrightarrow> i \<notin> reg'"
  shows "slot_kept i (reg, l) (reg', el_free_slot j l)"
  using assms slots_wf_nth [OF assms(1,2)] ct_op_keeps(1) [of "el_tasks l ! i"]
  by (cases "i = j") (auto simp: slot_kept_def el_free_slot_def el_set_task_def slots_wf_def)

definition el_wf :: "('s \<Rightarrow> bool) \<Rightarrow> nat \<Rightarrow> ('p, 's, 'w) el_state \<Rightarrow> bool" where
  "el_wf sinv n st \<longleftrightarrow> (case st of (s, l, w) \<Rightarrow> sinv s \<and> slots_wf n l)"

definition el_kept :: "('s \<Rightarrow> nat set) \<Rightarrow> nat \<Rightarrow> ('p, 's, 'w) el_state \<Rightarrow> ('p, 's, 'w) el_state \<Rightarrow> bool" where
  "el_kept registered n st st' \<longleftrightarrow> (case (st, st') of ((s, l, w), (s', l', w')) \<Rightarrow>
     \<forall>i < n. slot_kept i (registered s, l) (registered s', l'))"

text \<open>A registration the loop asks the scheduler for: it touches neither the slots nor the world.\<close>

definition good_add ::
  "('s \<Rightarrow> bool) \<Rightarrow> ('s \<Rightarrow> nat set) \<Rightarrow> (nat \<Rightarrow> ('p, 's, 'w) el_state \<Rightarrow> bool \<times> ('p, 's, 'w) el_state) \<Rightarrow> bool" where
  "good_add sinv registered add \<longleftrightarrow> (\<forall>t s l w ok s' l' w'. sinv s \<longrightarrow> add t (s, l, w) = (ok, (s', l', w')) \<longrightarrow>
     l' = l \<and> w' = w \<and> sinv s' \<and> registered s' = (if ok then insert t (registered s) else registered s))"

context scheduler
begin

lemma good_add_periodic:
  "en_ops env = ops \<Longrightarrow> good_add sinv registered (\<lambda>i. el_add_periodic env i period)"
  using add_periodic unfolding good_add_def el_add_periodic_def by (auto split: prod.splits)

lemma good_add_one_shot:
  "en_ops env = ops \<Longrightarrow> good_add sinv registered (\<lambda>i. el_add_one_shot env i due)"
  using add_one_shot unfolding good_add_def el_add_one_shot_def by (auto split: prod.splits)

lemma good_add_delay:
  "en_ops env = ops \<Longrightarrow> good_add sinv registered
     (\<lambda>i st. case st of (s, l, w) \<Rightarrow> el_add_one_shot env i (due_after (en_micros env w) delay) st)"
  using good_add_one_shot unfolding good_add_def by (metis case_prod_conv)

lemma good_add_readiness:
  assumes "en_ops env = ops"
  shows "good_add sinv registered (\<lambda>i st. case st of (s, l, w) \<Rightarrow> el_readiness_or_poll env (fd w) i poll_us st)"
proof (cases "so_add_fd ops")
  case None
  then show ?thesis using good_add_periodic [OF assms] assms
    by (auto simp: good_add_def el_readiness_or_poll_def Let_def)
next
  case (Some add)
  show ?thesis unfolding good_add_def
  proof (intro allI impI, goal_cases)
    case (1 t s l w ok s' l' w')
    note s = 1(1) and e = 1(2)
    show ?case
    proof (cases "0 \<le> fd w")
      case True
      with e Some assms have "add (fd w) t s = (ok, s')" "l' = l" "w' = w"
        by (auto simp: el_readiness_or_poll_def Let_def split: prod.splits)
      with add_fd [OF s Some] show ?thesis by auto
    next
      case False
      with e Some assms have "el_add_periodic env t (if poll_us = 0 then default_readiness_poll_us else poll_us) (s, l, w)
          = (ok, s', l', w')"
        by (simp add: el_readiness_or_poll_def Let_def)
      with good_add_periodic [OF assms] s show ?thesis unfolding good_add_def by blast
    qed
  qed
qed

text \<open>
  The registering operations. They succeed exactly if a slot can be allocated and the scheduler
  accepts the task; then the lowest unused slot holds the callable and is registered. If the
  scheduler refuses, the slot is free again under a new generation.
\<close>

lemma el_register_spec:
  assumes inv: "sinv s" and wf: "slots_wf n l" and add: "good_add sinv registered add"
    and run: "el_register c add (s, l, w) = (h, (s', l', w'))"
  shows "slots_wf n l' \<and> sinv s' \<and> w' = w
    \<and> (\<forall>i < n. slot_kept i (registered s, l) (registered s', l'))
    \<and> (if eh_assigned h
       then \<exists>i < n. first_unused (el_used l) = Some i \<and> eh_index h = i \<and> eh_generation h = el_generations l ! i
         \<and> el_generations l' = el_generations l \<and> el_used l' = (el_used l)[i := True]
         \<and> el_tasks l' = (el_tasks l)[i := snd (ct_set (c h) (el_tasks l ! i))]
         \<and> \<not> ct_invoking (el_tasks l ! i) \<and> registered s' = insert i (registered s)
       else h = eh_none \<and> registered s' = registered s \<and> el_used l' = el_used l)"
proof -
  obtain h1 l1 where a: "el_allocate c l = (h1, l1)" by fastforce
  note spec = el_allocate_spec [OF wf a]
  have len: "length (el_used l) = n" "length (el_tasks l) = n" "length (el_generations l) = n"
    using wf by (simp_all add: slots_wf_def)
  show ?thesis
  proof (cases "eh_assigned h1")
    case False
    with run a have e: "h = eh_none" "s' = s" "l' = l1" "w' = w" by (simp_all add: el_register_def)
    have "slot_kept i (registered s, l) (registered s, l1)" if "i < n" for i
    proof (cases "first_unused (el_used l)")
      case None
      with a have "l1 = l" by (simp add: el_allocate_def)
      then show ?thesis by simp
    next
      case (Some j)
      with spec(4) [OF False] have "ct_invoking (el_tasks l ! j)" by simp
      let ?h = "\<lparr>eh_slot = word_of_nat j, eh_generation = el_generations l ! j\<rparr>"
      obtain ok t where t: "ct_set (c ?h) (el_tasks l ! j) = (ok, t)" by fastforce
      with \<open>ct_invoking (el_tasks l ! j)\<close> ct_set_simps(1) [of "c ?h" "el_tasks l ! j"] have "\<not> ok" by simp
      with Some a t have "l1 = el_set_task j (snd (ct_set (c ?h) (el_tasks l ! j))) l"
        by (simp add: el_allocate_def Let_def)
      with that len slots_wf_nth [OF wf that] ct_op_keeps(3) [of "el_tasks l ! i"] show ?thesis
        by (cases "i = j") (auto simp: slot_kept_def el_set_task_def)
    qed
    with e spec(1,4) False inv show ?thesis by simp
  next
    case True
    from spec(3) [OF True] obtain i where i: "i < n" "first_unused (el_used l) = Some i"
      "\<not> ct_invoking (el_tasks l ! i)" "eh_index h1 = i" "eh_generation h1 = el_generations l ! i"
      "el_used l1 = (el_used l)[i := True]"
      "el_tasks l1 = (el_tasks l)[i := snd (ct_set (c h1) (el_tasks l ! i))]" by blast
    have unused: "\<not> el_used l ! i" using i(2) by (simp add: first_unused_spec)
    obtain ok s2 l2 w2 where r: "add i (s, l1, w) = (ok, (s2, l2, w2))" by (metis prod_cases4)
    with add inv have s2: "l2 = l1" "w2 = w" "sinv s2"
      "registered s2 = (if ok then insert i (registered s) else registered s)"
      unfolding good_add_def by blast+
    have kept1: "slot_kept j (registered s, l) (registered s2, l1)" if "j < n" for j
      using that i len unused spec(2) s2(4) by (cases "j = i") (auto simp: slot_kept_def)
    show ?thesis
    proof (cases ok)
      case True
      with run a r \<open>eh_assigned h1\<close> i(4) s2(1,2) have "h = h1" "s' = s2" "l' = l1" "w' = w"
        by (simp_all add: el_register_def)
      with i spec(1,2) s2 kept1 True \<open>eh_assigned h1\<close> show ?thesis by auto
    next
      case False
      with run a r \<open>eh_assigned h1\<close> i(4) s2(1,2)
      have e: "h = eh_none" "s' = s2" "l' = el_release_unregistered h1 l1" "w' = w"
        by (simp_all add: el_register_def)
      have l': "l' = el_free_slot i l1"
        using e(3) \<open>eh_assigned h1\<close> i(1,4,7) len by (simp add: el_release_unregistered_def)
      have "el_used l' = el_used l"
        using unused i(6) by (simp add: l' el_free_slot_def list_update_same_conv el_set_task_def)
          (metis list_update_id)
      moreover have "slot_kept j (registered s, l) (registered s2, l')" if "j < n" for j
        using that i len unused spec(2) s2(4) False
        by (cases "j = i") (auto simp: slot_kept_def l' el_free_slot_def el_set_task_def)
      moreover have "slots_wf n l'" unfolding l' using slots_wf_free_slot [OF spec(1) i(1)] .
      ultimately show ?thesis using e s2 False by simp
    qed
  qed
qed

lemma el_register_wf:
  assumes "el_wf sinv n st" "good_add sinv registered add" "el_register c add st = (h, st')"
  shows "el_wf sinv n st' \<and> el_kept registered n st st'"
proof -
  obtain s l w where st: "st = (s, l, w)" by (metis prod_cases3)
  obtain s' l' w' where st': "st' = (s', l', w')" by (metis prod_cases3)
  have "sinv s" "slots_wf n l" using assms(1) by (simp_all add: el_wf_def st)
  from el_register_spec [OF this assms(2) assms(3) [unfolded st st']] show ?thesis
    by (simp add: el_wf_def el_kept_def st st')
qed

lemma el_remove_spec:
  assumes env: "en_ops env = ops" and inv: "sinv s" and wf: "slots_wf n l"
    and run: "el_remove env h (s, l, w) = (ok, (s', l', w'))"
  shows "slots_wf n l' \<and> sinv s' \<and> w' = w
    \<and> (\<forall>i < n. slot_kept i (registered s, l) (registered s', l'))
    \<and> (ok \<longleftrightarrow> el_valid h l \<and> eh_index h \<in> registered s)
    \<and> (if ok then l' = el_free_slot (eh_index h) l \<and> registered s' = registered s - {eh_index h}
       else l' = l \<and> registered s' = registered s)"
proof (cases "el_valid h l")
  case False
  with run have "\<not> ok" "s' = s" "l' = l" "w' = w" by (simp_all add: el_remove_def)
  with False inv wf show ?thesis by simp
next
  case True
  then have h: "eh_assigned h" "eh_index h < n" "el_used l ! eh_index h"
    "el_generations l ! eh_index h = eh_generation h"
    using wf by (simp_all add: el_valid_def slots_wf_def)
  obtain r s1 where r: "so_remove ops (eh_index h) s = (r, s1)" by fastforce
  note rm = remove [OF inv r]
  show ?thesis
  proof (cases r)
    case False
    with run r True env have "\<not> ok" "s' = s1" "l' = l" "w' = w" by (simp_all add: el_remove_def)
    with False True rm wf show ?thesis by auto
  next
    case r: True
    with run \<open>so_remove ops (eh_index h) s = (r, s1)\<close> True env
    have e: "ok" "s' = s1" "l' = el_release_registered h l" "w' = w" by (simp_all add: el_remove_def)
    have l': "l' = el_free_slot (eh_index h) l"
      using h e(3) wf by (simp add: el_release_registered_def slots_wf_def)
    have "slot_kept i (registered s, l) (registered s', l')" if "i < n" for i
      unfolding l' using rm r e(2) by (intro free_slot_kept [OF wf that h(2)]) auto
    with e r rm True l' slots_wf_free_slot [OF wf h(2)] show ?thesis by simp
  qed
qed

lemma el_api_wf:
  assumes "en_ops env = ops" "el_api env n st st'" "el_wf sinv n st"
  shows "el_wf sinv n st' \<and> el_kept registered n st st'"
  using assms(2)
proof cases
  case (api_world s l w w')
  with assms(3) show ?thesis by (simp add: el_wf_def el_kept_def)
next
  case (api_enable h l ok l' s w)
  with assms(3) slots_wf_enable(1) [of n l h] enable_kept(1) [of n l _ "registered s" h] show ?thesis
    by (simp add: el_wf_def el_kept_def)
next
  case (api_disable h l ok l' s w)
  with assms(3) slots_wf_enable(2) [of n l h] enable_kept(2) [of n l _ "registered s" h] show ?thesis
    by (simp add: el_wf_def el_kept_def)
next
  case (api_remove h ok)
  obtain s l w s' l' w' where st: "st = (s, l, w)" "st' = (s', l', w')" by (metis prod_cases3)
  with el_remove_spec [OF assms(1), of s n l h w ok s' l' w'] api_remove assms(3) show ?thesis
    by (simp add: el_wf_def el_kept_def)
next
  case (api_repeat period p h)
  then show ?thesis
    using el_register_wf [OF assms(3) good_add_periodic [OF assms(1)]] by (simp add: el_on_repeat_us_def)
next
  case (api_delay delay p h)
  then show ?thesis
    using el_register_wf [OF assms(3) good_add_delay [OF assms(1)]] by (simp add: el_on_delay_us_def)
next
  case (api_bytes stream p poll_us h)
  then show ?thesis
    using el_register_wf [OF assms(3) good_add_readiness [OF assms(1)]] by (simp add: el_on_bytes_ready_def)
next
  case (api_pins source p poll_us h)
  then show ?thesis
    using el_register_wf [OF assms(3) good_add_readiness [OF assms(1)]] by (simp add: el_on_pin_event_def)
next
  case (api_periodic t period ok)
  obtain s l w s' l' w' where st: "st = (s, l, w)" "st' = (s', l', w')" by (metis prod_cases3)
  from assms(3) st have wf: "sinv s" "slots_wf n l" by (simp_all add: el_wf_def)
  with good_add_periodic [OF assms(1), of period] api_periodic st
  have "l' = l" "sinv s'" "registered s' = (if ok then insert t (registered s) else registered s)"
    unfolding good_add_def by blast+
  with wf st api_periodic(1) show ?thesis by (auto simp: el_wf_def el_kept_def)
next
  case (api_one_shot t due ok)
  obtain s l w s' l' w' where st: "st = (s, l, w)" "st' = (s', l', w')" by (metis prod_cases3)
  from assms(3) st have wf: "sinv s" "slots_wf n l" by (simp_all add: el_wf_def)
  with good_add_one_shot [OF assms(1), of due] api_one_shot st
  have "l' = l" "sinv s'" "registered s' = (if ok then insert t (registered s) else registered s)"
    unfolding good_add_def by blast+
  with wf st api_one_shot(1) show ?thesis by (auto simp: el_wf_def el_kept_def)
qed

end

end
