(* ===== verification/Event_Loop_Exec.thy ===== *)
theory Event_Loop_Exec
  imports Event_Loop_Steps
begin

text \<open>
  Whole executions of an \<open>EventLoop\<close>: sequences of calls, of the loop's own steps around a callback,
  and of scheduler-internal steps. Polling a slot and iterating the cooperative backend are such
  sequences, if the application's callables are.
\<close>

inductive el_step ::
  "('s \<Rightarrow> bool) \<Rightarrow> ('p, 's, 'w) el_env \<Rightarrow> nat \<Rightarrow> ('p, 's, 'w) el_state \<Rightarrow> ('p, 's, 'w) el_state \<Rightarrow> bool"
  for sinv :: "'s \<Rightarrow> bool" and env :: "('p, 's, 'w) el_env" and n :: nat where
  step_api: "el_api env n st st' \<Longrightarrow> el_step sinv env n st st'"
| step_begin: "i < n \<Longrightarrow> ct_poll_begin (el_tasks l ! i) = Some (c, t) \<Longrightarrow>
    el_step sinv env n (s, l, w) (s, el_set_task i t l, w)"
| step_end: "i < n \<Longrightarrow> el_step sinv env n (s, l, w) (s, el_set_task i (ct_poll_end (el_tasks l ! i)) l, w)"
| step_complete: "el_step sinv env n (s, l, w) (s, el_complete_one_shot h l, w)"
| step_sched: "sinv s' \<Longrightarrow> el_step sinv env n (s, l, w) (s', l, w)"

inductive_simps el_api_world_simp: "el_api env n (s, l, w) (s, l, w')"

abbreviation el_steps ::
  "('s \<Rightarrow> bool) \<Rightarrow> ('p, 's, 'w) el_env \<Rightarrow> nat \<Rightarrow> ('p, 's, 'w) el_state \<Rightarrow> ('p, 's, 'w) el_state \<Rightarrow> bool" where
  "el_steps sinv env n \<equiv> (el_step sinv env n)\<^sup>*\<^sup>*"

lemma world_steps: "el_steps sinv env n (s, l, w) (s, l, w')"
  by (intro r_into_rtranclp step_api api_world)

definition gen_step :: "nat \<Rightarrow> ('p, 's, 'w) el_state \<Rightarrow> ('p, 's, 'w) el_state \<Rightarrow> bool" where
  "gen_step n st st' \<longleftrightarrow> (case (st, st') of ((s, l, w), (s', l', w')) \<Rightarrow> \<forall>i < n.
     el_generations l' ! i = el_generations l ! i \<or> el_generations l' ! i = el_generations l ! i + 1)"

context scheduler
begin

lemma el_kept_gen: "el_kept registered n st st' \<Longrightarrow> gen_step n st st'"
  by (auto simp: el_kept_def gen_step_def slot_kept_def)

lemma el_step_wf:
  assumes "en_ops env = ops" "el_step sinv env n st st'" "el_wf sinv n st"
  shows "el_wf sinv n st' \<and> gen_step n st st'"
  using assms(2)
proof cases
  case step_api
  with el_api_wf [OF assms(1) _ assms(3)] el_kept_gen show ?thesis by blast
next
  case (step_begin i l c t s w)
  then have wf: "slots_wf n l" using assms(3) by (simp add: el_wf_def)
  note i = slots_wf_nth [OF wf step_begin(3)]
  have "ct_inv t" using ct_inv_poll_begin [OF _ step_begin(4)] i by simp
  moreover have "ct_active t = ct_active (el_tasks l ! i)"
    using step_begin(4) by (auto simp: ct_poll_begin_def split: option.splits if_splits)
  ultimately have "slots_wf n (el_set_task i t l)" by (rule slots_wf_set_task [OF wf step_begin(3)])
  with step_begin assms(3) show ?thesis by (simp add: el_wf_def gen_step_def el_set_task_def)
next
  case (step_end i s l w)
  then have wf: "slots_wf n l" using assms(3) by (simp add: el_wf_def)
  note i = slots_wf_nth [OF wf step_end(3)]
  have "slots_wf n (el_set_task i (ct_poll_end (el_tasks l ! i)) l)"
    using i by (intro slots_wf_set_task [OF wf step_end(3)] ct_inv_poll_end) (simp_all add: loop_simps)
  with step_end assms(3) show ?thesis by (simp add: el_wf_def gen_step_def el_set_task_def)
next
  case (step_complete s l w h)
  then have wf: "slots_wf n l" using assms(3) by (simp add: el_wf_def)
  have "el_generations (el_release_registered h l) ! i = el_generations l ! i
      \<or> el_generations (el_release_registered h l) ! i = el_generations l ! i + 1" if "i < n" for i
    using that wf by (cases "i = eh_index h")
      (auto simp: el_release_registered_def el_free_slot_def el_set_task_def slots_wf_def)
  with step_complete assms(3) slots_wf_release(1) [OF wf, of h] show ?thesis
    by (simp add: el_wf_def gen_step_def el_complete_one_shot_def)
next
  case (step_sched s' s l w)
  with assms(3) show ?thesis by (simp add: el_wf_def gen_step_def)
qed

lemma el_steps_wf:
  assumes "en_ops env = ops" "el_steps sinv env n st st'" "el_wf sinv n st"
  shows "el_wf sinv n st'"
  using assms(2,3) by (induction rule: rtranclp_induct) (auto dest: el_step_wf [OF assms(1)])

text \<open>In \<open>m\<close> steps a generation moves by at most \<open>m\<close>.\<close>

lemma el_steps_generation:
  assumes "en_ops env = ops" "el_wf sinv n (s, l, w)" "i < n"
  shows "(el_step sinv env n ^^ m) (s, l, w) (s', l', w') \<Longrightarrow>
    el_wf sinv n (s', l', w') \<and> (\<exists>k \<le> m. el_generations l' ! i = el_generations l ! i + of_nat k)"
proof (induction m arbitrary: s' l' w')
  case 0
  with assms(2) show ?case by auto
next
  case (Suc m)
  then obtain s1 l1 w1 where st: "(el_step sinv env n ^^ m) (s, l, w) (s1, l1, w1)"
    "el_step sinv env n (s1, l1, w1) (s', l', w')" by (metis prod_cases3 relpowp_Suc_E)
  from Suc.IH [OF st(1)] obtain k where k: "el_wf sinv n (s1, l1, w1)" "k \<le> m"
    "el_generations l1 ! i = el_generations l ! i + of_nat k" by blast
  from el_step_wf [OF assms(1) st(2) k(1)] assms(3)
  have "el_wf sinv n (s', l', w')" "el_generations l' ! i = el_generations l1 ! i
      \<or> el_generations l' ! i = el_generations l1 ! i + 1" by (auto simp: gen_step_def)
  with k(2,3) show ?case
    by (elim disjE) (force intro: exI [of _ k], force intro!: exI [of _ "Suc k"])
qed

text \<open>After a slot has been released, its old handle stays invalid for the next 65534 steps.\<close>

lemma stale_handle_invalid:
  assumes "en_ops env = ops" "el_wf sinv n (s, l, w)" "eh_index h < n"
    "el_generations l ! eh_index h = eh_generation h + 1"
    "(el_step sinv env n ^^ m) (s, l, w) (s', l', w')" "m < 2 ^ 16 - 1"
  shows "\<not> el_valid h l'"
proof
  assume "el_valid h l'"
  then have g: "el_generations l' ! eh_index h = eh_generation h" by (simp add: el_valid_def)
  from el_steps_generation [OF assms(1-3,5)] obtain k where k: "k \<le> m"
    "el_generations l' ! eh_index h = el_generations l ! eh_index h + of_nat k" by blast
  with g assms(4) have "(of_nat (Suc k) :: u16) = 0" by (simp add: algebra_simps)
  moreover have "unat (of_nat (Suc k) :: u16) = Suc k"
    using k(1) assms(6) by (simp add: unat_of_nat take_bit_nat_eq_self del: of_nat_Suc)
  ultimately show False by simp
qed

text \<open>What a sequence of calls keeps of an executing callable, and of a leaked slot.\<close>

lemma el_calls_keep:
  assumes "en_ops env = ops" "(el_api env n)\<^sup>*\<^sup>* st st'" "el_wf sinv n st" "st = (s, l, w)" "st' = (s', l', w')" "i < n"
  shows "el_wf sinv n st'
    \<and> (ct_invoking (el_tasks l ! i) \<longrightarrow> ct_invoking (el_tasks l' ! i)
         \<and> ct_callable (el_tasks l' ! i) = ct_callable (el_tasks l ! i)
         \<and> ct_destroyed (el_tasks l' ! i) = ct_destroyed (el_tasks l ! i))
    \<and> (el_used l ! i \<and> i \<notin> registered s \<longrightarrow> el_used l' ! i \<and> i \<notin> registered s'
         \<and> el_generations l' ! i = el_generations l ! i)"
  using assms(2,5)
proof (induction arbitrary: s' l' w' rule: rtranclp_induct)
  case base
  with assms(3,4) show ?case by simp
next
  case (step st1 st2)
  obtain s1 l1 w1 where st1: "st1 = (s1, l1, w1)" by (metis prod_cases3)
  note IH = step.IH [OF st1]
  from el_api_wf [OF assms(1) step.hyps(2)] IH have
    "el_wf sinv n st2" "slot_kept i (registered s1, l1) (registered s', l')"
    using assms(6) by (simp_all add: el_kept_def st1 step.prems)
  with IH show ?case by (auto simp: slot_kept_def)
qed

end

section \<open>Polling and iterating are executions\<close>

definition programs_step :: "('s \<Rightarrow> bool) \<Rightarrow> nat \<Rightarrow> ('p, 's, 'w) el_env \<Rightarrow> bool" where
  "programs_step sinv n env \<longleftrightarrow>
     (\<forall>p st st'. en_run env p st = Some st' \<longrightarrow> el_steps sinv env n st st') \<and>
     (\<forall>p ev st st'. en_run_pin env p ev st = Some st' \<longrightarrow> el_steps sinv env n st st') \<and>
     (\<forall>t now st st'. en_external env t now st = Some st' \<longrightarrow> el_steps sinv env n st st')"

lemma el_drain_pins_steps:
  fixes env :: "('p, 's, 'w) el_env"
  assumes "programs_step sinv n env" "el_drain_pins env source p st = Some st'"
  shows "el_steps sinv env n st st'"
proof (rule el_drain_pins.raw_induct [where P = "\<lambda>e sr q a b. e = env \<longrightarrow> el_steps sinv env n a b", THEN mp, OF _ assms(2) refl])
  fix f :: "('p, 's, 'w) el_env \<Rightarrow> nat \<Rightarrow> 'p \<Rightarrow> ('p, 's, 'w) el_state \<Rightarrow> ('p, 's, 'w) el_state option"
    and e sr q a b
  assume IH: "\<And>e sr q a b. f e sr q a = Some b \<Longrightarrow> e = env \<longrightarrow> el_steps sinv env n a b"
    and run: "(case a of (s, l, w) \<Rightarrow> case en_read_event e sr w of
          None \<Rightarrow> None
        | Some (None, w') \<Rightarrow> Some (s, l, w')
        | Some (Some ev, w') \<Rightarrow> (case en_run_pin e q ev (s, l, w') of None \<Rightarrow> None | Some st' \<Rightarrow> f e sr q st')) = Some b"
  obtain s l w where a: "a = (s, l, w)" by (metis prod_cases3)
  from run a obtain ev w' where r: "en_read_event e sr w = Some (ev, w')" by (auto split: option.splits)
  show "e = env \<longrightarrow> el_steps sinv env n a b"
  proof (cases ev)
    case None
    with run a r have "b = (s, l, w')" by simp
    then show ?thesis by (simp add: a world_steps)
  next
    case (Some v)
    with run a r obtain st1 where st1: "en_run_pin e q v (s, l, w') = Some st1" "f e sr q st1 = Some b"
      by (auto split: option.splits)
    have "e = env \<Longrightarrow> el_steps sinv env n (s, l, w') st1"
      using assms(1) st1(1) unfolding programs_step_def by blast
    with IH [OF st1(2)] world_steps [of sinv env n s l w w'] show ?thesis
      unfolding a by (meson rtranclp_trans)
  qed
qed

lemma el_invoke_steps:
  assumes "programs_step sinv n env" "el_invoke env c st = Some st'"
  shows "el_steps sinv env n st st'"
proof (cases c)
  case (Plain p)
  with assms(2) have "en_run env p st = Some st'" by (simp add: el_invoke_def)
  with assms(1) show ?thesis unfolding programs_step_def by blast
next
  case (One_Shot h p)
  with assms(2) obtain s l w where r: "en_run env p st = Some (s, l, w)" "st' = (s, el_complete_one_shot h l, w)"
    by (auto simp: el_invoke_def)
  with assms(1) have "el_steps sinv env n st (s, l, w)" unfolding programs_step_def by blast
  with r(2) step_complete [of sinv env n s l w h] show ?thesis by (simp add: rtranclp.rtrancl_into_rtrancl)
next
  case (Bytes_Ready stream p)
  with assms(2) have "en_run env p st = Some st' \<or> st' = st"
    by (auto simp: el_invoke_def split: prod.splits if_splits)
  with assms(1) show ?thesis unfolding programs_step_def by blast
next
  case (Pin_Events source p)
  with assms el_drain_pins_steps show ?thesis by (simp add: el_invoke_def)
qed

lemma el_poll_steps:
  assumes "programs_step sinv n env" "length (el_tasks l) = n" "el_poll env task now (s, l, w) = Some st'"
  shows "el_steps sinv env n (s, l, w) st'"
proof (cases "task \<ge> length (el_tasks l)")
  case True
  with assms(3) have "en_external env task now (s, l, w) = Some st'" by (simp add: el_poll_def)
  with assms(1) show ?thesis unfolding programs_step_def by blast
next
  case False
  then have i: "task < n" using assms(2) by simp
  show ?thesis
  proof (cases "ct_poll_begin (el_tasks l ! task)")
    case None
    with False assms(3) show ?thesis by (simp add: el_poll_def)
  next
    case (Some a)
    obtain c t where a: "a = (c, t)" by fastforce
    with Some False assms(3) obtain s1 l1 w1 where
      r: "el_invoke env c (s, el_set_task task t l, w) = Some (s1, l1, w1)"
      "st' = (s1, el_set_task task (ct_poll_end (el_tasks l1 ! task)) l1, w1)"
      by (auto simp: el_poll_def)
    have "el_step sinv env n (s, l, w) (s, el_set_task task t l, w)"
      using Some a by (intro el_step.step_begin [OF i]) simp
    also note el_invoke_steps [OF assms(1) r(1)]
    also have "el_step sinv env n (s1, l1, w1) st'" unfolding r(2) by (rule step_end [OF i])
    finally show ?thesis by simp
  qed
qed

section \<open>Which callables execute\<close>

text \<open>
  Callbacks that only make calls, and do not run the loop themselves; the slots whose callable executes. No such
  call changes these, and a poll ends the execution it began: so between iterations nothing executes, and every
  destruction that was deferred has been done.
\<close>

definition calls_only :: "nat \<Rightarrow> ('p, 's, 'w) el_env \<Rightarrow> bool" where
  "calls_only n env \<longleftrightarrow>
     (\<forall>p st st'. en_run env p st = Some st' \<longrightarrow> (el_api env n)\<^sup>*\<^sup>* st st') \<and>
     (\<forall>p ev st st'. en_run_pin env p ev st = Some st' \<longrightarrow> (el_api env n)\<^sup>*\<^sup>* st st') \<and>
     (\<forall>t now st st'. en_external env t now st = Some st' \<longrightarrow> (el_api env n)\<^sup>*\<^sup>* st st')"

definition executing :: "('p, 's, 'w) el_state \<Rightarrow> bool list" where
  "executing st = (case st of (s, l, w) \<Rightarrow> map ct_invoking (el_tasks l))"

lemma calls_only_step: "calls_only n env \<Longrightarrow> programs_step sinv n env"
proof -
  have "(el_api env n)\<^sup>*\<^sup>* st st' \<Longrightarrow> el_steps sinv env n st st'" for st st'
    by (erule rtranclp_mono [THEN predicate2D, rotated]) (auto intro: step_api)
  then show "calls_only n env \<Longrightarrow> programs_step sinv n env"
    unfolding calls_only_def programs_step_def by blast
qed

lemma map_invoking_same:
  "ct_invoking t = ct_invoking (ts ! i) \<Longrightarrow> map ct_invoking (ts[i := t]) = map ct_invoking ts"
  by (cases "i < length ts") (simp_all add: map_update list_update_same_conv list_update_beyond)

lemma slots_invoking:
  "map ct_invoking (el_tasks (snd (el_enable h l))) = map ct_invoking (el_tasks l)"
  "map ct_invoking (el_tasks (snd (el_disable h l))) = map ct_invoking (el_tasks l)"
  "map ct_invoking (el_tasks (el_free_slot i l)) = map ct_invoking (el_tasks l)"
  "map ct_invoking (el_tasks (el_release_registered h l)) = map ct_invoking (el_tasks l)"
  "map ct_invoking (el_tasks (el_release_unregistered h l)) = map ct_invoking (el_tasks l)"
  "map ct_invoking (el_tasks (snd (el_allocate c l))) = map ct_invoking (el_tasks l)"
proof -
  show free: "map ct_invoking (el_tasks (el_free_slot i l)) = map ct_invoking (el_tasks l)" for i
    by (simp add: el_free_slot_def el_set_task_def map_invoking_same loop_simps)
  show "map ct_invoking (el_tasks (snd (el_enable h l))) = map ct_invoking (el_tasks l)"
    "map ct_invoking (el_tasks (snd (el_disable h l))) = map ct_invoking (el_tasks l)"
    by (simp_all add: el_enable_def el_disable_def el_set_task_def map_invoking_same loop_simps)
  show "map ct_invoking (el_tasks (el_release_registered h l)) = map ct_invoking (el_tasks l)"
    "map ct_invoking (el_tasks (el_release_unregistered h l)) = map ct_invoking (el_tasks l)"
    by (simp_all add: el_release_registered_def el_release_unregistered_def free)
  show "map ct_invoking (el_tasks (snd (el_allocate c l))) = map ct_invoking (el_tasks l)"
  proof (cases "first_unused (el_used l)")
    case (Some i)
    let ?h = "\<lparr>eh_slot = word_of_nat i, eh_generation = el_generations l ! i\<rparr>"
    obtain ok t where t: "ct_set (c ?h) (el_tasks l ! i) = (ok, t)" by fastforce
    with ct_set_simps(3) [of "c ?h" "el_tasks l ! i"] have "ct_invoking t = ct_invoking (el_tasks l ! i)" by simp
    with Some t show ?thesis
      by (cases ok) (simp_all add: el_allocate_def Let_def el_set_task_def map_invoking_same)
  qed (simp add: el_allocate_def)
qed

lemma el_register_executing:
  assumes "\<And>i s l w ok s' l' w'. add i (s, l, w) = (ok, s', l', w') \<Longrightarrow> l' = l"
    "el_register c add st = (h, st')"
  shows "executing st' = executing st"
proof -
  obtain s l w where st: "st = (s, l, w)" by (metis prod_cases3)
  obtain h1 l1 where a: "el_allocate c l = (h1, l1)" by fastforce
  obtain ok s2 l2 w2 where r: "add (eh_index h1) (s, l1, w) = (ok, s2, l2, w2)" by (metis prod_cases4)
  from assms(1) [OF r] have "l2 = l1" .
  moreover have "map ct_invoking (el_tasks l1) = map ct_invoking (el_tasks l)"
    using slots_invoking(6) [of c l] a by simp
  ultimately show ?thesis using assms(2) a r
    by (auto simp: st el_register_def executing_def slots_invoking split: if_splits bool.splits)
qed

lemma el_adds_slots:
  "el_add_periodic env i period (s, l, w) = (ok, s', l', w') \<Longrightarrow> l' = l"
  "el_add_one_shot env i due (s, l, w) = (ok, s', l', w') \<Longrightarrow> l' = l"
  "el_readiness_or_poll env fd i poll_us (s, l, w) = (ok, s', l', w') \<Longrightarrow> l' = l"
  by (auto simp: el_add_periodic_def el_add_one_shot_def el_readiness_or_poll_def Let_def
      split: prod.splits option.splits if_splits)

lemma el_api_executing: "el_api env n st st' \<Longrightarrow> executing st' = executing st"
proof (induction rule: el_api.induct)
  case (api_enable h l ok l' s w)
  then show ?case using slots_invoking(1) [of h l] by (simp add: executing_def)
next
  case (api_disable h l ok l' s w)
  then show ?case using slots_invoking(2) [of h l] by (simp add: executing_def)
next
  case (api_remove h st ok st')
  then show ?case
    by (auto simp: el_remove_def executing_def slots_invoking split: prod.splits if_splits bool.splits)
next
  case (api_repeat period p st h st')
  then show ?case
    unfolding el_on_repeat_us_def by (rule el_register_executing [rotated]) (rule el_adds_slots(1))
next
  case (api_delay delay p st h st')
  then show ?case
    unfolding el_on_delay_us_def by (rule el_register_executing [rotated]) (simp add: el_adds_slots(2))
next
  case (api_bytes stream p poll_us st h st')
  then show ?case
    unfolding el_on_bytes_ready_def by (rule el_register_executing [rotated]) (simp add: el_adds_slots(3))
next
  case (api_pins source p poll_us st h st')
  then show ?case
    unfolding el_on_pin_event_def by (rule el_register_executing [rotated]) (simp add: el_adds_slots(3))
next
  case (api_periodic t period st ok st')
  then show ?case using el_adds_slots(1) [of env t period]
    by (auto simp: executing_def split: prod.splits) (metis prod_cases3)
next
  case (api_one_shot t due st ok st')
  then show ?case using el_adds_slots(2) [of env t due]
    by (auto simp: executing_def split: prod.splits) (metis prod_cases3)
qed (simp add: executing_def)

lemma el_calls_executing: "(el_api env n)\<^sup>*\<^sup>* st st' \<Longrightarrow> executing st' = executing st"
  by (induction rule: rtranclp_induct) (simp_all add: el_api_executing)

lemma el_drain_pins_executing:
  fixes env :: "('p, 's, 'w) el_env"
  assumes "calls_only n env" "el_drain_pins env source p st = Some st'"
  shows "executing st' = executing st"
proof (rule el_drain_pins.raw_induct [where P = "\<lambda>e sr q a b. e = env \<longrightarrow> executing b = executing a", THEN mp, OF _ assms(2) refl])
  fix f :: "('p, 's, 'w) el_env \<Rightarrow> nat \<Rightarrow> 'p \<Rightarrow> ('p, 's, 'w) el_state \<Rightarrow> ('p, 's, 'w) el_state option"
    and e sr q a b
  assume IH: "\<And>e sr q a b. f e sr q a = Some b \<Longrightarrow> e = env \<longrightarrow> executing b = executing a"
    and run: "(case a of (s, l, w) \<Rightarrow> case en_read_event e sr w of
          None \<Rightarrow> None
        | Some (None, w') \<Rightarrow> Some (s, l, w')
        | Some (Some ev, w') \<Rightarrow> (case en_run_pin e q ev (s, l, w') of None \<Rightarrow> None | Some st' \<Rightarrow> f e sr q st')) = Some b"
  obtain s l w where a: "a = (s, l, w)" by (metis prod_cases3)
  from run a obtain ev w' where r: "en_read_event e sr w = Some (ev, w')" by (auto split: option.splits)
  show "e = env \<longrightarrow> executing b = executing a"
  proof (cases ev)
    case None
    with run a r have "b = (s, l, w')" by simp
    then show ?thesis by (simp add: a executing_def)
  next
    case (Some v)
    with run a r obtain st1 where st1: "en_run_pin e q v (s, l, w') = Some st1" "f e sr q st1 = Some b"
      by (auto split: option.splits)
    have "executing st1 = executing a" if "e = env"
    proof -
      have "(el_api env n)\<^sup>*\<^sup>* (s, l, w') st1" using assms(1) st1(1) that unfolding calls_only_def by blast
      from el_calls_executing [OF this] show ?thesis by (simp add: a executing_def)
    qed
    with IH [OF st1(2)] show ?thesis by simp
  qed
qed

lemma el_invoke_executing:
  assumes "calls_only n env" "el_invoke env c st = Some st'"
  shows "executing st' = executing st"
proof -
  have run: "executing st1 = executing st" if "en_run env p st = Some st1" for p st1
    using assms(1) that el_calls_executing unfolding calls_only_def by blast
  show ?thesis
  proof (cases c)
    case (One_Shot h p)
    with assms(2) obtain s l w where r: "en_run env p st = Some (s, l, w)" "st' = (s, el_complete_one_shot h l, w)"
      by (auto simp: el_invoke_def)
    with run [OF r(1)] show ?thesis by (simp add: executing_def el_complete_one_shot_def slots_invoking)
  next
    case (Pin_Events source p)
    with assms el_drain_pins_executing show ?thesis by (simp add: el_invoke_def)
  qed (use assms(2) run in \<open>auto simp: el_invoke_def split: prod.splits if_splits\<close>)
qed

text \<open>A poll leaves its own slot not executing, and the others as they were.\<close>

lemma el_poll_executing:
  assumes "calls_only n env" "True \<notin> set (executing st)" "el_poll env task now st = Some st'"
  shows "executing st' = executing st"
proof -
  obtain s l w where st: "st = (s, l, w)" by (metis prod_cases3)
  show ?thesis
  proof (cases "task \<ge> length (el_tasks l)")
    case True
    with assms(3) have "en_external env task now st = Some st'" by (simp add: st el_poll_def)
    with assms(1) el_calls_executing show ?thesis unfolding calls_only_def by blast
  next
    case False
    show ?thesis
    proof (cases "ct_poll_begin (el_tasks l ! task)")
      case None
      with False assms(3) show ?thesis by (simp add: st el_poll_def)
    next
      case (Some a)
      obtain c t where a: "a = (c, t)" by fastforce
      with Some False assms(3) obtain s1 l1 w1 where
        r: "el_invoke env c (s, el_set_task task t l, w) = Some (s1, l1, w1)"
        "st' = (s1, el_set_task task (ct_poll_end (el_tasks l1 ! task)) l1, w1)"
        by (auto simp: st el_poll_def)
      from el_invoke_executing [OF assms(1) r(1)]
      have e: "map ct_invoking (el_tasks l1) = (map ct_invoking (el_tasks l))[task := ct_invoking t]"
        by (simp add: executing_def el_set_task_def map_update)
      have "\<not> ct_invoking (el_tasks l ! task)" using assms(2) False by (auto simp: st executing_def image_iff)
      then have off: "(map ct_invoking (el_tasks l))[task := False] = map ct_invoking (el_tasks l)"
        using False by (simp add: list_update_same_conv)
      have "map ct_invoking ((el_tasks l1)[task := ct_poll_end (el_tasks l1 ! task)])
          = (map ct_invoking (el_tasks l1))[task := False]"
        by (simp add: map_update loop_simps)
      also have "\<dots> = map ct_invoking (el_tasks l)" unfolding e using off by simp
      finally show ?thesis by (simp add: r(2) st executing_def el_set_task_def)
    qed
  qed
qed

end
