(* ===== verification/Event_Loop_Arduino.thy ===== *)
theory Event_Loop_Arduino
  imports Event_Loop_Exec
begin









section \<open>Running the loop in a callback\<close>


section \<open>A one-shot that is disabled when it is due\<close>

lemma el_poll_disabled:
  assumes "i < length (el_tasks l)" "\<not> ct_enabled (el_tasks l ! i)"
  shows "el_poll env i now (s, l, w) = Some (s, l, w)"
  using assms by (simp add: el_poll_def ct_poll_begin_def split: option.split)

lemma el_run_once_disabled:
  assumes "al_inv s" "al_list s = [one_shot_slot i due]" "due \<le> en_micros env w"
    "i < length (el_tasks l)" "\<not> ct_enabled (el_tasks l ! i)"
  shows "\<exists>s'. el_run_once env (s, l, w) = Some (s', l, w) \<and> al_ok s' \<and> al_registered s' = {}"
proof -
  let ?s1 = "(al_compact_inactive s)\<lparr>al_running := True\<rparr>"
  have s1: "al_inv ?s1" "al_list ?s1 = [one_shot_slot i due]"
    using al_compact_spec [OF assms(1)] assms(2)
    by (auto simp: al_frame_def al_inv_def al_list_def sched_simps)
  have n: "al_count ?s1 = 1" using length_al_list [OF s1(1)] s1(2) by simp
  have t: "al_tasks ?s1 ! 0 = one_shot_slot i due" using nth_al_list [of 0 ?s1] n s1(2) by simp
  obtain s2 where s2: "al_after_poll (en_micros env w) 0 ?s1 = Some s2" "al_frame ?s1 s2" "al_count s2 = 1"
    "al_list s2 = [(one_shot_slot i due)\<lparr>ts_active := False, ts_task := None\<rparr>]"
    using al_after_poll_one_shot [of 0 ?s1 "en_micros env w"] n s1 by (auto simp: sched_simps)
  have "al_run_loop (el_poll env) (en_micros env w) 1 (s2, l, w) = Some (s2, l, w)"
    using s2(3) by (simp add: al_run_loop.simps)
  then have run: "al_run_loop (el_poll env) (en_micros env w) 0 (?s1, l, w) = Some (s2, l, w)"
    using n t s2(1) el_poll_disabled [OF assms(4,5), of env "en_micros env w" ?s1 w] assms(3)
    by (simp add: al_run_loop.simps [of _ _ 0] Let_def sched_simps)
  let ?s3 = "s2\<lparr>al_running := False\<rparr>"
  have s3: "al_inv ?s3" "al_list ?s3 = al_list s2" using s2(2) by (simp_all add: al_frame_def al_inv_def al_list_def)
  from al_compact_spec [OF s3(1)] s3(2) s2(4)
  have "al_inv (al_compact_inactive ?s3)" "al_list (al_compact_inactive ?s3) = []"
    by (simp_all add: al_frame_def sched_simps)
  with run show ?thesis
    by (simp add: el_run_once_def al_run_once_def Let_def al_ok_def al_registered_def sched_simps)
qed

lemma unat_due_after: "unat (due_after now delay) = min (2 ^ 64 - 1) (unat now + unat delay)"
proof -
  have m: "unat (- 1 :: u64) = 2 ^ 64 - 1" by (simp add: unsigned_minus_1_eq_mask mask_eq_exp_minus_1)
  have s: "unat (- 1 - now) = 2 ^ 64 - 1 - unat now"
    using m by (simp add: unat_sub del: word_n1_ge)
  have le: "unat now \<le> 2 ^ 64 - 1" using unsigned_less [of now, where ?'a = nat] by simp
  show ?thesis
  proof (cases "delay > - 1 - now")
    case True
    then have "2 ^ 64 - 1 - unat now < unat delay" using s by (simp add: word_less_nat_alt)
    with True m show ?thesis by (simp add: due_after_def)
  next
    case False
    then have "unat delay \<le> 2 ^ 64 - 1 - unat now" using s by (simp add: word_less_nat_alt not_less)
    with le have "unat now + unat delay < 2 ^ 64" by simp
    with False show ?thesis by (simp add: due_after_def unat_add_no_wrap)
  qed
qed

lemma al_ops_sel [simp]:
  "so_add_periodic al_ops = al_add_periodic" "so_add_one_shot al_ops = (\<lambda>task due now. al_add_one_shot task due)"
  "so_remove al_ops = al_remove" "so_add_fd al_ops = None"
  by (simp_all add: al_ops_def)

lemma el_init_slot:
  "0 < n \<Longrightarrow> first_unused (el_used (el_init n)) = Some 0"
  "i < n \<Longrightarrow> el_tasks (el_init n) ! i = ct_init"
  by (cases n) (simp_all add: el_init_def)

text \<open>When registering a repeated call succeeds.\<close>

lemma el_on_repeat_us_succeeds:
  assumes "en_ops env = al_ops" "el_wf al_ok n (s, l, w)" "first_unused (el_used l) = Some i"
    "\<not> ct_invoking (el_tasks l ! i)" "period \<noteq> 0" "length (al_live s) < al_capacity s"
    "el_on_repeat_us env period p (s, l, w) = (h, st')"
  shows "eh_assigned h"
proof -
  from assms(2) have s: "al_inv s" and wf: "slots_wf n l" by (simp_all add: el_wf_def al_ok_def)
  obtain h1 l1 where a: "el_allocate (\<lambda>h. Plain p) l = (h1, l1)" by fastforce
  from el_allocate_spec(4) [OF wf a] assms(3,4) have h1: "eh_assigned h1" by blast
  obtain ok s2 where add: "al_add_periodic (eh_index h1) period (en_micros env w) s = (ok, s2)" by fastforce
  from al_add_spec(1) [OF s add] assms(5,6) have ok by simp
  with assms(1,7) a h1 add show ?thesis by (simp add: el_on_repeat_us_def el_register_def el_add_periodic_def)
qed

section \<open>Properties\<close>


text \<open>Environments for examples: programs do nothing, or program \<open>p\<close> registers program \<open>p + 1\<close>.\<close>

definition idle_env :: "(nat, arduino_loop, u64) el_env" where
  "idle_env = \<lparr>en_ops = al_ops, en_micros = (\<lambda>w. w), en_readable = (\<lambda>k w. True), en_stream_fd = (\<lambda>k w. -1),
     en_source_fd = (\<lambda>k w. -1), en_read_event = (\<lambda>k w. Some (None, w)), en_run = (\<lambda>p. Some),
     en_run_pin = (\<lambda>p ev. Some), en_external = (\<lambda>t now. Some)\<rparr>"

definition demo_env :: "(nat, arduino_loop, u64) el_env" where
  "demo_env = idle_env\<lparr>en_run := (\<lambda>p st. Some (snd (el_on_repeat_us idle_env 10 (p + 1) st)))\<rparr>"

lemma demo_ops: "en_ops demo_env = al_ops" "en_micros demo_env w = w"
  by (simp_all add: demo_env_def idle_env_def)

lemma demo_wf: "el_wf al_ok 4 (al_init 4, el_init 4, w)"
  using slots_wf_init [of 4] by (simp add: el_wf_def al_ok_def sched_simps)

definition demo_state :: "(nat, arduino_loop, u64) el_state" where
  "demo_state = snd (el_on_repeat_us demo_env 10 0 (al_init 4, el_init 4, 7))"

lemma demo_state_wf: "el_wf al_ok 4 demo_state"
proof -
  have "el_api demo_env 4 (al_init 4, el_init 4, 7) demo_state"
    by (rule api_repeat [of _ 10 0 _ "fst (el_on_repeat_us demo_env 10 0 (al_init 4, el_init 4, 7))"])
      (simp add: demo_state_def)
  from arduino.el_api_wf [OF demo_ops(1) this demo_wf] show ?thesis by simp
qed




text \<open>
  Registering a repeated call returns a valid handle whose slot the scheduler knows, and removing
  it with that handle succeeds, invalidates the handle, frees the slot and unregisters it.
\<close>

theorem repeat_then_remove:
  assumes "en_ops env = al_ops" "el_wf al_ok n (s, l, w)"
    "el_on_repeat_us env period p (s, l, w) = (h, (s1, l1, w1))" "eh_assigned h"
  shows "el_valid h l1 \<and> al_registered s1 = insert (eh_index h) (al_registered s)
    \<and> (\<exists>s2 l2. el_remove env h (s1, l1, w1) = (True, (s2, l2, w1)) \<and> \<not> el_valid h l2
        \<and> el_used l2 = el_used l \<and> al_registered s2 = al_registered s - {eh_index h})"
proof -
  from assms(2) have s: "al_ok s" and wf: "slots_wf n l" by (simp_all add: el_wf_def)
  from arduino.el_register_spec [OF s wf arduino.good_add_periodic [OF assms(1)] assms(3) [unfolded el_on_repeat_us_def]]
    assms(4) obtain i where i: "i < n" "first_unused (el_used l) = Some i" "eh_index h = i"
      "eh_generation h = el_generations l ! i" "el_generations l1 = el_generations l"
      "el_used l1 = (el_used l)[i := True]" "\<not> ct_invoking (el_tasks l ! i)"
      "el_tasks l1 = (el_tasks l)[i := snd (ct_set (Plain p) (el_tasks l ! i))]"
      "al_registered s1 = insert i (al_registered s)"
    and wf1: "slots_wf n l1" "al_ok s1" by auto
  have len: "length (el_tasks l) = n" "length (el_used l) = n" "length (el_generations l) = n"
    using wf by (simp_all add: slots_wf_def)
  have valid: "el_valid h l1"
    using i len assms(4) by (simp add: el_valid_def ct_set_simps)
  obtain ok s2 l2 w2 where r: "el_remove env h (s1, l1, w1) = (ok, (s2, l2, w2))" by (metis prod_cases4)
  from arduino.el_remove_spec [OF assms(1) wf1(2,1) r] valid i(3,9) have
    ok: "ok" "l2 = el_free_slot i l1" "al_registered s2 = al_registered s1 - {i}" "w2 = w1" by auto
  have unused: "\<not> el_used l ! i" using i(2) by (simp add: first_unused_spec)
  then have "el_used l2 = el_used l"
    using i(1,6) len by (simp add: ok(2) el_free_slot_def el_set_task_def) (metis list_update_id)
  moreover have "\<not> el_valid h l2"
    using i(1,3,6) len by (simp add: el_valid_def ok(2) el_free_slot_def el_set_task_def)
  ultimately show ?thesis using valid i(3,9) r ok by auto
qed

lemma repeat_then_remove_witness:
  "case el_on_repeat_us demo_env 10 0 (al_init 4, el_init 4, 7) of (h, st) \<Rightarrow> eh_assigned h \<and> fst (el_remove demo_env h st)"
proof -
  obtain h s1 l1 w1 where r: "el_on_repeat_us demo_env 10 0 (al_init 4, el_init 4, 7) = (h, (s1, l1, w1))"
    by (metis prod_cases4)
  have "eh_assigned h"
    by (rule el_on_repeat_us_succeeds [where i = 0, OF demo_ops(1) demo_wf _ _ _ _ r])
      (simp_all add: el_init_slot ct_init_def)
  with repeat_then_remove [OF demo_ops(1) demo_wf r] r show ?thesis by auto
qed

text \<open>
  C3: after a callback has been removed, its handle stays invalid during every execution of fewer
  than 65535 steps, even if the slot is reused in it: the generation in the handle protects the new
  callback of the slot from the old handle.
\<close>

theorem removed_handle_stays_invalid:
  assumes "en_ops env = al_ops" "el_wf al_ok n st" "el_remove env h st = (True, st1)"
    "(el_step al_ok env n ^^ m) st1 st2" "m < 2 ^ 16 - 1"
  shows "\<not> el_valid h (fst (snd st2)) \<and> fst (el_remove env h st2) = False"
proof -
  obtain s l w where st: "st = (s, l, w)" by (metis prod_cases3)
  obtain s1 l1 w1 where st1: "st1 = (s1, l1, w1)" by (metis prod_cases3)
  obtain s2 l2 w2 where st2: "st2 = (s2, l2, w2)" by (metis prod_cases3)
  from assms(2) st have wf: "al_ok s" "slots_wf n l" by (simp_all add: el_wf_def)
  note r = arduino.el_remove_spec [OF assms(1) wf assms(3) [unfolded st st1]]
  then have v: "el_valid h l" and l1: "l1 = el_free_slot (eh_index h) l" by auto
  then have i: "eh_index h < n" and g: "el_generations l1 ! eh_index h = eh_generation h + 1"
    using wf(2) by (simp_all add: el_valid_def el_free_slot_def slots_wf_def el_set_task_def)
  from r have "el_wf al_ok n (s1, l1, w1)" by (auto simp: el_wf_def simp del: split_paired_All)
  from arduino.stale_handle_invalid [OF assms(1) this i g assms(4) [unfolded st1 st2] assms(5)]
  show ?thesis by (simp add: st2 el_remove_def)
qed

lemma removed_handle_stays_invalid_witness:
  "\<not> el_valid \<lparr>eh_slot = 0, eh_generation = 0\<rparr>
     (fst (snd (snd (el_on_repeat_us demo_env 10 5 (snd (el_remove demo_env \<lparr>eh_slot = 0, eh_generation = 0\<rparr> demo_state))))))"
proof -
  let ?h = "\<lparr>eh_slot = 0, eh_generation = 0\<rparr>" and ?st1 = "snd (el_remove demo_env \<lparr>eh_slot = 0, eh_generation = 0\<rparr> demo_state)"
  let ?st2 = "snd (el_on_repeat_us demo_env 10 5 ?st1)"
  have "fst (el_remove demo_env ?h demo_state)" unfolding demo_state_def by code_simp
  then have r: "el_remove demo_env ?h demo_state = (True, ?st1)" by (simp add: prod_eq_iff)
  have "el_step al_ok demo_env 4 ?st1 ?st2"
    by (rule step_api, rule api_repeat [of _ 10 5 _ "fst (el_on_repeat_us demo_env 10 5 ?st1)"]) simp
  then have "(el_step al_ok demo_env 4 ^^ 1) ?st1 ?st2" by (simp only: relpowp_1)
  from removed_handle_stays_invalid [OF demo_ops(1) demo_state_wf r this] show ?thesis by simp
qed

text \<open>
  C2: while a callback executes, no sequence of registrations, removals, enablings and disablings it makes, of
  itself and of others, destroys or replaces the callable that is executing. (Running the loop is not among these
  calls: see \<open>nested_tick_destroys_executing\<close>.)
\<close>

theorem executing_callable_survives:
  assumes "en_ops env = al_ops" "el_wf al_ok n (s, l, w)" "(el_api env n)\<^sup>*\<^sup>* (s, l, w) (s', l', w')"
    "i < n" "ct_invoking (el_tasks l ! i)"
  shows "ct_invoking (el_tasks l' ! i) \<and> ct_callable (el_tasks l' ! i) = ct_callable (el_tasks l ! i)
    \<and> ct_destroyed (el_tasks l' ! i) = ct_destroyed (el_tasks l ! i)"
  using arduino.el_calls_keep [OF assms(1,3,2) refl refl assms(4)] assms(5) by simp

lemma executing_callable_survives_witness:
  "let l = fst (snd demo_state);
       st1 = (fst demo_state, el_set_task 0 (snd (the (ct_poll_begin (el_tasks l ! 0)))) l, 7);
       st2 = snd (el_remove demo_env \<lparr>eh_slot = 0, eh_generation = 0\<rparr> st1)
   in ct_callable (el_tasks (fst (snd st2)) ! 0) = Some (Plain 0) \<and> ct_destroyed (el_tasks (fst (snd st2)) ! 0) = []"
proof -
  let ?l = "fst (snd demo_state)" and ?h = "\<lparr>eh_slot = 0, eh_generation = 0\<rparr>"
  let ?t = "snd (the (ct_poll_begin (el_tasks ?l ! 0)))"
  let ?l1 = "el_set_task 0 ?t ?l"
  let ?st1 = "(fst demo_state, ?l1, 7 :: u64)"
  have run: "ct_poll_begin (el_tasks ?l ! 0) \<noteq> None" "ct_invoking (el_tasks ?l1 ! 0)"
    "ct_callable (el_tasks ?l1 ! 0) = Some (Plain 0)" "ct_destroyed (el_tasks ?l1 ! 0) = []"
    "snd (snd demo_state) = 7"
    unfolding demo_state_def by code_simp+
  then obtain c t where "ct_poll_begin (el_tasks ?l ! 0) = Some (c, t)" by auto
  then have "el_step al_ok demo_env 4 (fst demo_state, ?l, 7) ?st1" by (intro step_begin) simp_all
  moreover have "demo_state = (fst demo_state, ?l, 7)" using run(5) by (simp add: prod_eq_iff)
  ultimately have wf: "el_wf al_ok 4 ?st1"
    using arduino.el_step_wf [OF demo_ops(1) _ demo_state_wf] by metis
  obtain ok s2 l2 w2 where r: "el_remove demo_env ?h ?st1 = (ok, (s2, l2, w2))" by (metis prod_cases4)
  have "(el_api demo_env 4)\<^sup>*\<^sup>* ?st1 (s2, l2, w2)" by (intro r_into_rtranclp api_remove [OF r])
  from executing_callable_survives [OF demo_ops(1) wf this, of 0] run r show ?thesis by (simp add: Let_def)
qed



text \<open>
  A delayed call is handed to the scheduler as a one-shot due at the present time plus the delay,
  saturated at the largest time instead of wrapping.
\<close>

theorem delay_schedules_saturated_deadline:
  assumes "en_ops env = al_ops" "el_wf al_ok n (s, l, w)"
    "el_on_delay_us env delay p (s, l, w) = (h, (s1, l1, w1))" "eh_assigned h"
  shows "\<exists>due. al_list s1 = al_live s @ [one_shot_slot (eh_index h) due]
    \<and> unat due = min (2 ^ 64 - 1) (unat (en_micros env w) + unat delay)"
proof -
  let ?now = "en_micros env w"
  let ?due = "due_after ?now delay"
  from assms(2) have s: "al_inv s" by (simp add: el_wf_def al_ok_def)
  obtain h1 l2 where a: "el_allocate (\<lambda>h. One_Shot h p) l = (h1, l2)" by fastforce
  obtain ok s2 where add: "al_add_one_shot (eh_index h1) ?due s = (ok, s2)" by fastforce
  have h: "h = h1" "ok" "s1 = s2"
    using assms(1,3,4) a add
    by (auto simp: el_on_delay_us_def el_register_def el_add_one_shot_def split: if_splits bool.splits)
  from al_add_spec(2) [OF s add] h have "al_list s1 = al_live s @ [one_shot_slot (eh_index h) ?due]" by simp
  moreover have "unat ?due = min (2 ^ 64 - 1) (unat ?now + unat delay)" by (rule unat_due_after)
  ultimately show ?thesis by blast
qed

lemma delay_schedules_saturated_deadline_witness:
  "\<exists>due. al_list (fst (snd (el_on_delay_us demo_env 5 3 (al_init 4, el_init 4, - 2)))) = [one_shot_slot 0 due]
     \<and> unat due = 2 ^ 64 - 1"
proof -
  obtain h s1 l1 w1 where r: "el_on_delay_us demo_env 5 3 (al_init 4, el_init 4, - 2) = (h, (s1, l1, w1))"
    by (metis prod_cases4)
  have "fst (el_on_delay_us demo_env 5 3 (al_init 4, el_init 4, - 2)) = \<lparr>eh_slot = 0, eh_generation = 0\<rparr>"
    by code_simp
  with r have h: "h = \<lparr>eh_slot = 0, eh_generation = 0\<rparr>" by simp
  then have "eh_assigned h" by (simp add: eh_assigned_def invalid_slot_def)
  from delay_schedules_saturated_deadline [OF demo_ops(1) demo_wf r this] r h show ?thesis
    by (simp add: demo_ops unsigned_minus_1_eq_mask)
qed

text \<open>
  A delayed call that is disabled when its time comes leaks its slot. The iteration retires the
  one-shot without calling it; its handle stays valid, but from then on, whatever calls are made, the
  scheduler does not know the slot, \<open>remove\<close> refuses the handle, and the slot is never free again.
\<close>

theorem disabled_one_shot_leaks:
  assumes "en_ops env = al_ops" "el_wf al_ok n (s, l, w)" "al_list s = [one_shot_slot (eh_index h) due]"
    "due \<le> en_micros env w" "el_valid h l" "\<not> ct_enabled (el_tasks l ! eh_index h)"
  shows "\<exists>s'. el_run_once env (s, l, w) = Some (s', l, w)
    \<and> (\<forall>s2 l2 w2. (el_api env n)\<^sup>*\<^sup>* (s', l, w) (s2, l2, w2) \<longrightarrow>
         el_valid h l2 \<and> eh_index h \<notin> al_registered s2 \<and> \<not> fst (el_remove env h (s2, l2, w2)))"
proof -
  from assms(2) have wf: "al_inv s" "slots_wf n l" by (simp_all add: el_wf_def al_ok_def)
  have i: "eh_index h < n" "eh_index h < length (el_tasks l)" "el_used l ! eh_index h"
    using assms(5) wf(2) by (simp_all add: el_valid_def slots_wf_def)
  from el_run_once_disabled [OF wf(1) assms(3,4) i(2) assms(6)] obtain s' where
    s': "el_run_once env (s, l, w) = Some (s', l, w)" "al_ok s'" "al_registered s' = {}" by blast
  have wf': "el_wf al_ok n (s', l, w)" using s'(2) wf(2) by (simp add: el_wf_def)
  have "el_valid h l2 \<and> eh_index h \<notin> al_registered s2 \<and> \<not> fst (el_remove env h (s2, l2, w2))"
    if "(el_api env n)\<^sup>*\<^sup>* (s', l, w) (s2, l2, w2)" for s2 l2 w2
  proof -
    from arduino.el_calls_keep [OF assms(1) that wf' refl refl i(1)] s'(3) i(3)
    have k: "el_wf al_ok n (s2, l2, w2)" "el_used l2 ! eh_index h" "eh_index h \<notin> al_registered s2"
      "el_generations l2 ! eh_index h = el_generations l ! eh_index h" by auto
    from k(1) have wf2: "al_ok s2" "slots_wf n l2" by (simp_all add: el_wf_def)
    have "el_valid h l2"
      using k assms(5) i(1) slots_wf_nth [OF wf2(2) i(1)] wf2(2) by (simp add: el_valid_def slots_wf_def)
    moreover obtain ok st3 where "el_remove env h (s2, l2, w2) = (ok, st3)"
      by (cases "el_remove env h (s2, l2, w2)")
    moreover obtain s3 l3 w3 where "st3 = (s3, l3, w3)" by (metis prod_cases3)
    ultimately show ?thesis
      using arduino.el_remove_spec [OF assms(1) wf2, of h w2 ok s3 l3 w3] k(3) by simp
  qed
  with s'(1) show ?thesis by blast
qed

definition delayed_state :: "(nat, arduino_loop, u64) el_state" where
  "delayed_state = (case el_on_delay_us demo_env 5 3 (al_init 4, el_init 4, 7) of
     (h, (s, l, w)) \<Rightarrow> (s, snd (el_disable h l), 20))"

lemma disabled_one_shot_leaks_witness:
  "\<exists>s'. el_run_once demo_env delayed_state = Some (s', fst (snd delayed_state), 20)
    \<and> el_valid \<lparr>eh_slot = 0, eh_generation = 0\<rparr> (fst (snd delayed_state))
    \<and> \<not> fst (el_remove demo_env \<lparr>eh_slot = 0, eh_generation = 0\<rparr> (s', fst (snd delayed_state), 20))"
proof -
  let ?h = "\<lparr>eh_slot = 0, eh_generation = 0\<rparr>"
  obtain s l w where st: "delayed_state = (s, l, w)" by (metis prod_cases3)
  have e: "snd (snd delayed_state) = 20"
    "al_list (fst delayed_state) = [one_shot_slot 0 12]"
    "el_valid ?h (fst (snd delayed_state))" "\<not> ct_enabled (el_tasks (fst (snd delayed_state)) ! 0)"
    unfolding delayed_state_def by code_simp+
  have l: "al_list s = [one_shot_slot (eh_index ?h) 12]"
    using e(2) unfolding st by simp
  obtain h st1 where r: "el_on_delay_us demo_env 5 3 (al_init 4, el_init 4, 7) = (h, st1)"
    by (cases "el_on_delay_us demo_env 5 3 (al_init 4, el_init 4, 7)")
  have "el_wf al_ok 4 st1"
    using arduino.el_api_wf [OF demo_ops(1) api_delay [OF r] demo_wf] by simp
  moreover obtain s1 l1 w1 where st1: "st1 = (s1, l1, w1)" by (metis prod_cases3)
  ultimately have "el_wf al_ok 4 (s, l, w)"
    using st slots_wf_enable(2) [of 4 l1 h] by (auto simp: delayed_state_def r el_wf_def)
  note wf = this
  have f: "w = 20" "el_valid ?h l" "\<not> ct_enabled (el_tasks l ! eh_index ?h)"
    using e(1,3,4) unfolding st by simp_all
  have "(12 :: u64) \<le> en_micros demo_env w" by (simp add: demo_ops f(1))
  from disabled_one_shot_leaks [OF demo_ops(1) wf l this f(2,3)] obtain s' where
    s': "el_run_once demo_env (s, l, w) = Some (s', l, w)"
    "\<forall>s2 l2 w2. (el_api demo_env 4)\<^sup>*\<^sup>* (s', l, w) (s2, l2, w2) \<longrightarrow>
       el_valid ?h l2 \<and> eh_index ?h \<notin> al_registered s2 \<and> \<not> fst (el_remove demo_env ?h (s2, l2, w2))" by blast
  from s'(2) have "el_valid ?h l \<and> \<not> fst (el_remove demo_env ?h (s', l, w))" by blast
  with s'(1) show ?thesis unfolding st f(1) by auto
qed

text \<open>
  A callback that removes itself cannot register anything if its own slot is the lowest free one:
  the registration fails although other slots are free, because the slot chosen is the one whose
  callable is still executing.
\<close>

theorem self_removed_cannot_register:
  assumes "en_ops env = al_ops" "el_wf al_ok n (s, l, w)" "el_remove env h (s, l, w) = (True, (s1, l1, w1))"
    "ct_invoking (el_tasks l ! eh_index h)" "\<forall>j < eh_index h. el_used l ! j"
  shows "fst (el_on_repeat_us env period p (s1, l1, w1)) = eh_none
    \<and> fst (el_on_delay_us env delay p (s1, l1, w1)) = eh_none"
proof -
  from assms(2) have wf: "al_ok s" "slots_wf n l" by (simp_all add: el_wf_def)
  note r = arduino.el_remove_spec [OF assms(1) wf assms(3)]
  let ?i = "eh_index h"
  from r have v: "el_valid h l" and l1: "l1 = el_free_slot ?i l" and wf1: "slots_wf n l1" by auto
  then have i: "?i < n" using wf(2) by (simp add: el_valid_def slots_wf_def)
  have len: "length (el_used l) = n" "length (el_tasks l) = n" using wf(2) by (simp_all add: slots_wf_def)
  have "first_unused (el_used l1) = Some ?i"
    using i len assms(5) by (simp add: first_unused_spec l1 el_free_slot_def el_set_task_def)
  moreover have "ct_invoking (el_tasks l1 ! ?i)"
    using i len assms(4) by (simp add: l1 el_free_slot_def el_set_task_def ct_clear_simps)
  ultimately have "fst (el_allocate c l1) = eh_none" for c
    using el_allocate_spec(3,4) [OF wf1, of c "fst (el_allocate c l1)" "snd (el_allocate c l1)"] by auto
  then show ?thesis
    by (simp add: el_on_repeat_us_def el_on_delay_us_def el_register_def split_beta)
qed

lemma self_removed_cannot_register_witness:
  "let l = fst (snd demo_state);
       st1 = (fst demo_state, el_set_task 0 (snd (the (ct_poll_begin (el_tasks l ! 0)))) l, 7);
       st2 = snd (el_remove demo_env \<lparr>eh_slot = 0, eh_generation = 0\<rparr> st1)
   in fst (el_on_repeat_us demo_env 10 1 st2) = eh_none \<and> first_unused (tl (el_used (fst (snd st2)))) = Some 0"
proof -
  let ?l = "fst (snd demo_state)" and ?h = "\<lparr>eh_slot = 0, eh_generation = 0\<rparr>"
  let ?l1 = "el_set_task 0 (snd (the (ct_poll_begin (el_tasks ?l ! 0)))) ?l"
  let ?st1 = "(fst demo_state, ?l1, 7 :: u64)"
  have run: "ct_poll_begin (el_tasks ?l ! 0) \<noteq> None" "ct_invoking (el_tasks ?l1 ! 0)"
    "snd (snd demo_state) = 7" "fst (el_remove demo_env ?h ?st1)"
    "first_unused (tl (el_used (fst (snd (snd (el_remove demo_env ?h ?st1)))))) = Some 0"
    unfolding demo_state_def by code_simp+
  then obtain c t where "ct_poll_begin (el_tasks ?l ! 0) = Some (c, t)" by auto
  then have "el_step al_ok demo_env 4 (fst demo_state, ?l, 7) ?st1" by (intro step_begin) simp_all
  moreover have "demo_state = (fst demo_state, ?l, 7)" using run(3) by (simp add: prod_eq_iff)
  ultimately have wf: "el_wf al_ok 4 ?st1"
    using arduino.el_step_wf [OF demo_ops(1) _ demo_state_wf] by metis
  obtain ok s2 l2 w2 where r: "el_remove demo_env ?h ?st1 = (ok, (s2, l2, w2))" by (metis prod_cases4)
  with run(4) have ok: "el_remove demo_env ?h ?st1 = (True, (s2, l2, w2))" by simp
  from self_removed_cannot_register [OF demo_ops(1) wf ok, of 10 1] run r show ?thesis
    by (simp add: Let_def)
qed

end
