(* ===== verification/Libevent_Loop.thy ===== *)
theory Libevent_Loop
  imports Scheduler "HOL-Library.Monad_Syntax"
begin

text \<open>
  \<open>LinuxLibeventLoop\<close> of \<^verbatim>\<open>src/async_event_loop_linux/libevent_loop.hpp\<close>: the scheduler on top of
  libevent. The library is a record of operations on its own state \<open>'b\<close> (\<open>event_base\<close>); an event is
  named by a number. A task is a number, as for the cooperative scheduler. The heap-allocated items
  are list elements; an item is found by its event, which is unique while the item exists.
\<close>

datatype event_kind = Timer | Readable int | Writable int

record timeval =
  tv_sec :: u64
  tv_usec :: u64

record 'b libevent_ops =
  lv_new :: "event_kind \<Rightarrow> 'b \<Rightarrow> nat option \<times> 'b"
  lv_add :: "nat \<Rightarrow> timeval option \<Rightarrow> 'b \<Rightarrow> int \<times> 'b"
  lv_free :: "nat \<Rightarrow> 'b \<Rightarrow> 'b"
  lv_break :: "'b \<Rightarrow> 'b"

text \<open>\<open>next_due_us\<close> is passed by reference; its new value is the first component.\<close>

definition periodic_timer_next_delay_us :: "u64 \<Rightarrow> u64 \<Rightarrow> u64 \<Rightarrow> u64 \<times> u64" where
  "periodic_timer_next_delay_us next_due period now =
     (let overdue = (if now > next_due then now - next_due else 0)
      in (next_due + period, if period > overdue then period - overdue else 0))"

definition timeval_from_us :: "u64 \<Rightarrow> timeval" where
  "timeval_from_us us = \<lparr>tv_sec = us div 1000000, tv_usec = us mod 1000000\<rparr>"

record timer_event =
  te_task :: "nat option"
  te_ev :: nat
  te_period_us :: u64
  te_next_due_us :: u64
  te_periodic :: bool
  te_removed :: bool

record fd_event =
  fe_task :: "nat option"
  fe_ev :: nat
  fe_fd :: int
  fe_removed :: bool

record 'b libevent_loop =
  ll_base :: "'b option"
  ll_periodic :: "timer_event list"
  ll_one_shot :: "timer_event list"
  ll_fds :: "fd_event list"
  ll_depth :: nat

definition ll_init :: "'b option \<Rightarrow> 'b libevent_loop" where
  "ll_init base = \<lparr>ll_base = base, ll_periodic = [], ll_one_shot = [], ll_fds = [], ll_depth = 0\<rparr>"

definition ll_valid :: "'b libevent_loop \<Rightarrow> bool" where
  "ll_valid l \<longleftrightarrow> ll_base l \<noteq> None"

definition ll_free_event :: "'b libevent_ops \<Rightarrow> nat \<Rightarrow> 'b libevent_loop \<Rightarrow> 'b libevent_loop" where
  "ll_free_event lv ev l = l\<lparr>ll_base := map_option (lv_free lv ev) (ll_base l)\<rparr>"

text \<open>The loops that erase removed items and free their events.\<close>

fun compact_timer_events :: "'b libevent_ops \<Rightarrow> timer_event list \<Rightarrow> 'b libevent_loop \<Rightarrow> timer_event list \<times> 'b libevent_loop" where
  "compact_timer_events lv [] l = ([], l)"
| "compact_timer_events lv (e # es) l =
     (if te_removed e then compact_timer_events lv es (ll_free_event lv (te_ev e) l)
      else (case compact_timer_events lv es l of (es', l') \<Rightarrow> (e # es', l')))"

fun compact_fd_events :: "'b libevent_ops \<Rightarrow> fd_event list \<Rightarrow> 'b libevent_loop \<Rightarrow> fd_event list \<times> 'b libevent_loop" where
  "compact_fd_events lv [] l = ([], l)"
| "compact_fd_events lv (e # es) l =
     (if fe_removed e then compact_fd_events lv es (ll_free_event lv (fe_ev e) l)
      else (case compact_fd_events lv es l of (es', l') \<Rightarrow> (e # es', l')))"

definition ll_compact :: "'b libevent_ops \<Rightarrow> 'b libevent_loop \<Rightarrow> 'b libevent_loop" where
  "ll_compact lv l =
     (if ll_depth l \<noteq> 0 then l
      else let (ps, l1) = compact_timer_events lv (ll_periodic l) l;
               l2 = l1\<lparr>ll_periodic := ps\<rparr>;
               (os, l3) = compact_timer_events lv (ll_one_shot l2) l2;
               l4 = l3\<lparr>ll_one_shot := os\<rparr>;
               (fs, l5) = compact_fd_events lv (ll_fds l4) l4
           in l5\<lparr>ll_fds := fs\<rparr>)"

text \<open>\<open>evtimer_new\<close> or \<open>event_new\<close> followed by \<open>event_add\<close>; a failure to add frees the event again.\<close>

definition ll_arm ::
  "'b libevent_ops \<Rightarrow> event_kind \<Rightarrow> timeval option \<Rightarrow> 'b libevent_loop \<Rightarrow> nat option \<times> 'b libevent_loop" where
  "ll_arm lv kind tv l =
     (case ll_base l of
        None \<Rightarrow> (None, l)
      | Some b \<Rightarrow>
          (case lv_new lv kind b of
             (None, b1) \<Rightarrow> (None, l\<lparr>ll_base := Some b1\<rparr>)
           | (Some ev, b1) \<Rightarrow>
               (case lv_add lv ev tv b1 of (rc, b2) \<Rightarrow>
                  if rc \<noteq> 0 then (None, ll_free_event lv ev (l\<lparr>ll_base := Some b2\<rparr>))
                  else (Some ev, l\<lparr>ll_base := Some b2\<rparr>))))"

definition ll_add_periodic ::
  "'b libevent_ops \<Rightarrow> nat \<Rightarrow> u64 \<Rightarrow> u64 \<Rightarrow> 'b libevent_loop \<Rightarrow> bool \<times> 'b libevent_loop" where
  "ll_add_periodic lv task period now l0 =
     (let l = ll_compact lv l0
      in if \<not> ll_valid l \<or> period = 0 then (False, l)
         else (case ll_arm lv Timer (Some (timeval_from_us period)) l of
                 (None, l1) \<Rightarrow> (False, l1)
               | (Some ev, l1) \<Rightarrow>
                   (True, l1\<lparr>ll_periodic := ll_periodic l1 @
                      [\<lparr>te_task = Some task, te_ev = ev, te_period_us = period, te_next_due_us = now + period,
                        te_periodic = True, te_removed = False\<rparr>]\<rparr>)))"

definition ll_add_one_shot ::
  "'b libevent_ops \<Rightarrow> nat \<Rightarrow> u64 \<Rightarrow> u64 \<Rightarrow> 'b libevent_loop \<Rightarrow> bool \<times> 'b libevent_loop" where
  "ll_add_one_shot lv task due now l0 =
     (let l = ll_compact lv l0
      in if \<not> ll_valid l then (False, l)
         else let delta = (if due > now then due - now else 0)
              in case ll_arm lv Timer (Some (timeval_from_us delta)) l of
                   (None, l1) \<Rightarrow> (False, l1)
                 | (Some ev, l1) \<Rightarrow>
                     (True, l1\<lparr>ll_one_shot := ll_one_shot l1 @
                        [\<lparr>te_task = Some task, te_ev = ev, te_period_us = 0, te_next_due_us = due,
                          te_periodic = False, te_removed = False\<rparr>]\<rparr>))"

definition ll_add_fd ::
  "'b libevent_ops \<Rightarrow> int \<Rightarrow> event_kind \<Rightarrow> nat \<Rightarrow> 'b libevent_loop \<Rightarrow> bool \<times> 'b libevent_loop" where
  "ll_add_fd lv fd kind task l =
     (if \<not> ll_valid l \<or> fd < 0 then (False, l)
      else (case ll_arm lv kind None l of
              (None, l1) \<Rightarrow> (False, l1)
            | (Some ev, l1) \<Rightarrow>
                (True, l1\<lparr>ll_fds := ll_fds l1 @
                   [\<lparr>fe_task = Some task, fe_ev = ev, fe_fd = fd, fe_removed = False\<rparr>]\<rparr>)))"

definition ll_add_readable_fd ::
  "'b libevent_ops \<Rightarrow> int \<Rightarrow> nat \<Rightarrow> 'b libevent_loop \<Rightarrow> bool \<times> 'b libevent_loop" where
  "ll_add_readable_fd lv fd task l = ll_add_fd lv fd (Readable fd) task (ll_compact lv l)"

definition ll_add_writable_fd ::
  "'b libevent_ops \<Rightarrow> int \<Rightarrow> nat \<Rightarrow> 'b libevent_loop \<Rightarrow> bool \<times> 'b libevent_loop" where
  "ll_add_writable_fd lv fd task l = ll_add_fd lv fd (Writable fd) task (ll_compact lv l)"

definition te_kill :: "timer_event \<Rightarrow> timer_event" where
  "te_kill e = e\<lparr>te_removed := True, te_task := None\<rparr>"

definition fe_kill :: "fd_event \<Rightarrow> fd_event" where
  "fe_kill e = e\<lparr>fe_removed := True, fe_task := None\<rparr>"

fun mark_timer_events_removed :: "nat \<Rightarrow> timer_event list \<Rightarrow> bool \<times> timer_event list" where
  "mark_timer_events_removed task [] = (False, [])"
| "mark_timer_events_removed task (e # es) =
     (case mark_timer_events_removed task es of (removed, es') \<Rightarrow>
        if te_task e = Some task then (True, te_kill e # es') else (removed, e # es'))"

fun mark_fd_events_removed :: "(fd_event \<Rightarrow> bool) \<Rightarrow> fd_event list \<Rightarrow> bool \<times> fd_event list" where
  "mark_fd_events_removed P [] = (False, [])"
| "mark_fd_events_removed P (e # es) =
     (case mark_fd_events_removed P es of (removed, es') \<Rightarrow>
        if P e then (True, fe_kill e # es') else (removed, e # es'))"

definition ll_remove :: "'b libevent_ops \<Rightarrow> nat \<Rightarrow> 'b libevent_loop \<Rightarrow> bool \<times> 'b libevent_loop" where
  "ll_remove lv task l =
     (let (r1, ps) = mark_timer_events_removed task (ll_periodic l);
          (r2, os) = mark_timer_events_removed task (ll_one_shot l);
          (r3, fs) = mark_fd_events_removed (\<lambda>e. fe_task e = Some task) (ll_fds l)
      in (r1 \<or> r2 \<or> r3, ll_compact lv (l\<lparr>ll_periodic := ps, ll_one_shot := os, ll_fds := fs\<rparr>)))"

definition ll_remove_fd :: "'b libevent_ops \<Rightarrow> int \<Rightarrow> nat \<Rightarrow> 'b libevent_loop \<Rightarrow> bool \<times> 'b libevent_loop" where
  "ll_remove_fd lv fd task l =
     (let (r, fs) = mark_fd_events_removed (\<lambda>e. fe_fd e = fd \<and> fe_task e = Some task) (ll_fds l)
      in (r, ll_compact lv (l\<lparr>ll_fds := fs\<rparr>)))"

section \<open>Callbacks\<close>

text \<open>
  What libevent calls. The polled task acts on the loop and on the outside state \<open>'w\<close>; \<open>clk\<close> reads the
  clock. A poll that does not return is \<open>None\<close>, and so is a failed assertion.
\<close>

type_synonym ('b, 'w) ll_poll = "nat \<Rightarrow> u64 \<Rightarrow> 'b libevent_loop \<times> 'w \<Rightarrow> ('b libevent_loop \<times> 'w) option"

definition ll_enter :: "'b libevent_loop \<Rightarrow> 'b libevent_loop" where
  "ll_enter l = l\<lparr>ll_depth := ll_depth l + 1\<rparr>"

definition ll_leave :: "'b libevent_loop \<Rightarrow> 'b libevent_loop option" where
  "ll_leave l = (if ll_depth l > 0 then Some (l\<lparr>ll_depth := ll_depth l - 1\<rparr>) else None)"

definition ll_call ::
  "('w \<Rightarrow> u64) \<Rightarrow> ('b, 'w) ll_poll \<Rightarrow> nat \<Rightarrow> 'b libevent_loop \<times> 'w \<Rightarrow> ('b libevent_loop \<times> 'w) option" where
  "ll_call clk poll task lw =
     (case lw of (l, w) \<Rightarrow> do {
        (l1, w1) \<leftarrow> poll task (clk w) (ll_enter l, w);
        l2 \<leftarrow> ll_leave l1;
        Some (l2, w1)
      })"

definition ll_timer :: "nat \<Rightarrow> 'b libevent_loop \<Rightarrow> timer_event option" where
  "ll_timer ev l = find (\<lambda>e. te_ev e = ev) (ll_periodic l @ ll_one_shot l)"

definition ll_update_timer :: "nat \<Rightarrow> (timer_event \<Rightarrow> timer_event) \<Rightarrow> 'b libevent_loop \<Rightarrow> 'b libevent_loop" where
  "ll_update_timer ev f l =
     (let g = map (\<lambda>e. if te_ev e = ev then f e else e)
      in l\<lparr>ll_periodic := g (ll_periodic l), ll_one_shot := g (ll_one_shot l)\<rparr>)"

definition ll_rearm :: "'b libevent_ops \<Rightarrow> nat \<Rightarrow> u64 \<Rightarrow> 'b libevent_loop \<Rightarrow> 'b libevent_loop" where
  "ll_rearm lv ev delay l =
     l\<lparr>ll_base := map_option (\<lambda>b. snd (lv_add lv ev (Some (timeval_from_us delay)) b)) (ll_base l)\<rparr>"

definition ll_after_timer :: "'b libevent_ops \<Rightarrow> nat \<Rightarrow> u64 \<Rightarrow> 'b libevent_loop \<Rightarrow> 'b libevent_loop" where
  "ll_after_timer lv ev now l =
     (case ll_timer ev l of
        None \<Rightarrow> l
      | Some item \<Rightarrow>
          if \<not> te_removed item \<and> te_periodic item
          then (case periodic_timer_next_delay_us (te_next_due_us item) (te_period_us item) now of
                  (due, delay) \<Rightarrow>
                    ll_rearm lv ev delay (ll_update_timer ev (\<lambda>e. e\<lparr>te_next_due_us := due\<rparr>) l))
          else if \<not> te_periodic item then ll_update_timer ev te_kill l
          else l)"

definition ll_timer_callback ::
  "'b libevent_ops \<Rightarrow> ('w \<Rightarrow> u64) \<Rightarrow> ('b, 'w) ll_poll \<Rightarrow> nat \<Rightarrow> 'b libevent_loop \<times> 'w \<Rightarrow> ('b libevent_loop \<times> 'w) option" where
  "ll_timer_callback lv clk poll ev lw =
     (case ll_timer ev (fst lw) of
        None \<Rightarrow> Some lw
      | Some item \<Rightarrow>
          (case te_task item of
             None \<Rightarrow> Some lw
           | Some task \<Rightarrow>
               if te_removed item then Some lw
               else do {
                 (l1, w1) \<leftarrow> ll_call clk poll task lw;
                 Some (ll_compact lv (ll_after_timer lv ev (clk w1) l1), w1)
               }))"

definition ll_fd_callback ::
  "'b libevent_ops \<Rightarrow> ('w \<Rightarrow> u64) \<Rightarrow> ('b, 'w) ll_poll \<Rightarrow> nat \<Rightarrow> 'b libevent_loop \<times> 'w \<Rightarrow> ('b libevent_loop \<times> 'w) option" where
  "ll_fd_callback lv clk poll ev lw =
     (case find (\<lambda>e. fe_ev e = ev) (ll_fds (fst lw)) of
        None \<Rightarrow> Some lw
      | Some item \<Rightarrow>
          (case fe_task item of
             None \<Rightarrow> Some lw
           | Some task \<Rightarrow>
               if fe_removed item then Some lw
               else do {
                 (l1, w1) \<leftarrow> ll_call clk poll task lw;
                 Some (ll_compact lv l1, w1)
               }))"

text \<open>
  \<open>run_once\<close>: libevent makes the callbacks of the events that are active, in an order of its own
  choice, which is the argument \<open>events\<close> (a timer or a file-descriptor event each).
\<close>

datatype fired = Fired_Timer nat | Fired_Fd nat

fun ll_dispatch ::
  "'b libevent_ops \<Rightarrow> ('w \<Rightarrow> u64) \<Rightarrow> ('b, 'w) ll_poll \<Rightarrow> fired list \<Rightarrow> 'b libevent_loop \<times> 'w \<Rightarrow> ('b libevent_loop \<times> 'w) option" where
  "ll_dispatch lv clk poll [] lw = Some lw"
| "ll_dispatch lv clk poll (Fired_Timer ev # evs) lw =
     do { lw1 \<leftarrow> ll_timer_callback lv clk poll ev lw; ll_dispatch lv clk poll evs lw1 }"
| "ll_dispatch lv clk poll (Fired_Fd ev # evs) lw =
     do { lw1 \<leftarrow> ll_fd_callback lv clk poll ev lw; ll_dispatch lv clk poll evs lw1 }"

definition ll_run_once ::
  "'b libevent_ops \<Rightarrow> ('w \<Rightarrow> u64) \<Rightarrow> ('b, 'w) ll_poll \<Rightarrow> fired list \<Rightarrow> 'b libevent_loop \<times> 'w \<Rightarrow> ('b libevent_loop \<times> 'w) option" where
  "ll_run_once lv clk poll events lw =
     (if \<not> ll_valid (fst lw) then Some lw
      else do { (l1, w1) \<leftarrow> ll_dispatch lv clk poll events lw; Some (ll_compact lv l1, w1) })"

text \<open>\<open>run_forever\<close>: the same, with the callbacks libevent makes until it is told to stop.\<close>

definition ll_run_forever ::
  "'b libevent_ops \<Rightarrow> ('w \<Rightarrow> u64) \<Rightarrow> ('b, 'w) ll_poll \<Rightarrow> fired list \<Rightarrow> 'b libevent_loop \<times> 'w \<Rightarrow> ('b libevent_loop \<times> 'w) option" where
  "ll_run_forever lv clk poll events lw = ll_run_once lv clk poll events lw"

definition ll_request_exit :: "'b libevent_ops \<Rightarrow> 'b libevent_loop \<Rightarrow> 'b libevent_loop" where
  "ll_request_exit lv l = l\<lparr>ll_base := map_option (lv_break lv) (ll_base l)\<rparr>"

definition free_events :: "'b libevent_ops \<Rightarrow> nat list \<Rightarrow> 'b libevent_loop \<Rightarrow> 'b libevent_loop" where
  "free_events lv evs l = fold (ll_free_event lv) evs l"

definition ll_destroy :: "'b libevent_ops \<Rightarrow> 'b libevent_loop \<Rightarrow> 'b libevent_loop" where
  "ll_destroy lv l =
     (let l1 = (free_events lv (map te_ev (ll_periodic l)) l)\<lparr>ll_periodic := []\<rparr>;
          l2 = (free_events lv (map te_ev (ll_one_shot l1)) l1)\<lparr>ll_one_shot := []\<rparr>;
          l3 = (free_events lv (map fe_ev (ll_fds l2)) l2)\<lparr>ll_fds := []\<rparr>
      in l3\<lparr>ll_base := None\<rparr>)"


section \<open>Invariant and registrations\<close>

text \<open>An item is marked removed exactly when it has lost its task.\<close>

definition ll_ok :: "'b libevent_loop \<Rightarrow> bool" where
  "ll_ok l \<longleftrightarrow> (\<forall>e \<in> set (ll_periodic l @ ll_one_shot l). te_removed e \<longleftrightarrow> te_task e = None)
     \<and> (\<forall>e \<in> set (ll_fds l). fe_removed e \<longleftrightarrow> fe_task e = None)"

definition ll_registered :: "'b libevent_loop \<Rightarrow> nat set" where
  "ll_registered l = {t. (\<exists>e \<in> set (ll_periodic l @ ll_one_shot l). te_task e = Some t)
     \<or> (\<exists>e \<in> set (ll_fds l). fe_task e = Some t)}"

definition ll_ops :: "'b libevent_ops \<Rightarrow> 'b libevent_loop sched_ops" where
  "ll_ops lv = \<lparr>so_add_periodic = ll_add_periodic lv, so_add_one_shot = ll_add_one_shot lv,
     so_remove = ll_remove lv, so_add_fd = Some (ll_add_readable_fd lv)\<rparr>"

text \<open>Only the library's state differs.\<close>

definition base_step :: "'b libevent_loop \<Rightarrow> 'b libevent_loop \<Rightarrow> bool" where
  "base_step l l' \<longleftrightarrow> (\<exists>b. l' = l\<lparr>ll_base := b\<rparr> \<and> (b = None \<longleftrightarrow> ll_base l = None))"

lemma base_stepD:
  assumes "base_step l l'"
  shows "ll_periodic l' = ll_periodic l" "ll_one_shot l' = ll_one_shot l" "ll_fds l' = ll_fds l"
    "ll_depth l' = ll_depth l" "ll_valid l' = ll_valid l"
  using assms by (auto simp: base_step_def ll_valid_def)

lemma base_step_ok: "base_step l l' \<Longrightarrow> ll_ok l' = ll_ok l \<and> ll_registered l' = ll_registered l"
  by (auto simp: ll_ok_def ll_registered_def base_stepD)

lemma base_step_refl [simp, intro]: "base_step l l"
  by (auto simp: base_step_def intro: exI [of _ "ll_base l"])

lemma base_step_trans: "base_step l1 l2 \<Longrightarrow> base_step l2 l3 \<Longrightarrow> base_step l1 l3"
  by (auto simp: base_step_def)

lemma ll_free_step: "base_step l (ll_free_event lv ev l)"
  by (auto simp: base_step_def ll_free_event_def)

lemma compact_timer_spec:
  "compact_timer_events lv es l = (es', l') \<Longrightarrow> es' = filter (\<lambda>e. \<not> te_removed e) es \<and> base_step l l'"
proof (induction lv es l arbitrary: es' l' rule: compact_timer_events.induct)
  case (2 lv e es l)
  show ?case
  proof (cases "te_removed e")
    case True
    with 2(1) [OF True] 2(3) have "es' = filter (\<lambda>e. \<not> te_removed e) es" "base_step (ll_free_event lv (te_ev e) l) l'"
      by simp_all
    with True show ?thesis using base_step_trans [OF ll_free_step] by simp
  next
    case False
    with 2(2) [OF False] 2(3) show ?thesis by (auto split: prod.splits)
  qed
qed simp

lemma compact_fd_spec:
  "compact_fd_events lv es l = (es', l') \<Longrightarrow> es' = filter (\<lambda>e. \<not> fe_removed e) es \<and> base_step l l'"
proof (induction lv es l arbitrary: es' l' rule: compact_fd_events.induct)
  case (2 lv e es l)
  show ?case
  proof (cases "fe_removed e")
    case True
    with 2(1) [OF True] 2(3) have "es' = filter (\<lambda>e. \<not> fe_removed e) es" "base_step (ll_free_event lv (fe_ev e) l) l'"
      by simp_all
    with True show ?thesis using base_step_trans [OF ll_free_step] by simp
  next
    case False
    with 2(2) [OF False] 2(3) show ?thesis by (auto split: prod.splits)
  qed
qed simp

lemma ll_compact_spec:
  "ll_periodic (ll_compact lv l) = (if ll_depth l = 0 then filter (\<lambda>e. \<not> te_removed e) (ll_periodic l) else ll_periodic l)"
  "ll_one_shot (ll_compact lv l) = (if ll_depth l = 0 then filter (\<lambda>e. \<not> te_removed e) (ll_one_shot l) else ll_one_shot l)"
  "ll_fds (ll_compact lv l) = (if ll_depth l = 0 then filter (\<lambda>e. \<not> fe_removed e) (ll_fds l) else ll_fds l)"
  "ll_depth (ll_compact lv l) = ll_depth l" "ll_valid (ll_compact lv l) = ll_valid l"
proof -
  obtain ps l1 where c1: "compact_timer_events lv (ll_periodic l) l = (ps, l1)" by fastforce
  let ?l2 = "l1\<lparr>ll_periodic := ps\<rparr>"
  obtain os l3 where c2: "compact_timer_events lv (ll_one_shot ?l2) ?l2 = (os, l3)" by fastforce
  let ?l4 = "l3\<lparr>ll_one_shot := os\<rparr>"
  obtain fs l5 where c3: "compact_fd_events lv (ll_fds ?l4) ?l4 = (fs, l5)" by fastforce
  note s1 = compact_timer_spec [OF c1] and s2 = compact_timer_spec [OF c2] and s3 = compact_fd_spec [OF c3]
  have eq: "ll_compact lv l = (if ll_depth l \<noteq> 0 then l else l5\<lparr>ll_fds := fs\<rparr>)"
    using c1 c2 c3 by (simp add: ll_compact_def Let_def)
  note d = base_stepD [OF conjunct2 [OF s1]] base_stepD [OF conjunct2 [OF s2]] base_stepD [OF conjunct2 [OF s3]]
  show "ll_periodic (ll_compact lv l) = (if ll_depth l = 0 then filter (\<lambda>e. \<not> te_removed e) (ll_periodic l) else ll_periodic l)"
    "ll_one_shot (ll_compact lv l) = (if ll_depth l = 0 then filter (\<lambda>e. \<not> te_removed e) (ll_one_shot l) else ll_one_shot l)"
    "ll_fds (ll_compact lv l) = (if ll_depth l = 0 then filter (\<lambda>e. \<not> fe_removed e) (ll_fds l) else ll_fds l)"
    "ll_depth (ll_compact lv l) = ll_depth l" "ll_valid (ll_compact lv l) = ll_valid l"
    using s1 s2 s3 d unfolding eq by (simp_all add: ll_valid_def)
qed

lemma ll_compact_ok: "ll_ok l \<Longrightarrow> ll_ok (ll_compact lv l) \<and> ll_registered (ll_compact lv l) = ll_registered l"
  by (auto simp: ll_ok_def ll_registered_def ll_compact_spec)

lemma ll_arm_spec: "ll_arm lv kind tv l = (ev, l') \<Longrightarrow> base_step l l'"
  by (auto simp: ll_arm_def ll_free_event_def base_step_def split: option.splits prod.splits if_splits)

lemma mark_timer_spec:
  "mark_timer_events_removed task es = (r, es') \<Longrightarrow>
   es' = map (\<lambda>e. if te_task e = Some task then te_kill e else e) es \<and> (r \<longleftrightarrow> (\<exists>e \<in> set es. te_task e = Some task))"
  by (induction es arbitrary: r es') (auto split: prod.splits if_splits)

lemma mark_fd_spec:
  "mark_fd_events_removed P es = (r, es') \<Longrightarrow>
   es' = map (\<lambda>e. if P e then fe_kill e else e) es \<and> (r \<longleftrightarrow> (\<exists>e \<in> set es. P e))"
  by (induction es arbitrary: r es') (auto split: prod.splits if_splits)

lemma ll_append_periodic:
  "ll_ok l \<Longrightarrow> te_task e = Some t \<Longrightarrow> \<not> te_removed e \<Longrightarrow>
   ll_ok (l\<lparr>ll_periodic := ll_periodic l @ [e]\<rparr>) \<and> ll_registered (l\<lparr>ll_periodic := ll_periodic l @ [e]\<rparr>) = insert t (ll_registered l)"
  by (auto simp: ll_ok_def ll_registered_def)

lemma ll_append_one_shot:
  "ll_ok l \<Longrightarrow> te_task e = Some t \<Longrightarrow> \<not> te_removed e \<Longrightarrow>
   ll_ok (l\<lparr>ll_one_shot := ll_one_shot l @ [e]\<rparr>) \<and> ll_registered (l\<lparr>ll_one_shot := ll_one_shot l @ [e]\<rparr>) = insert t (ll_registered l)"
  by (auto simp: ll_ok_def ll_registered_def)

lemma ll_append_fd:
  "ll_ok l \<Longrightarrow> fe_task e = Some t \<Longrightarrow> \<not> fe_removed e \<Longrightarrow>
   ll_ok (l\<lparr>ll_fds := ll_fds l @ [e]\<rparr>) \<and> ll_registered (l\<lparr>ll_fds := ll_fds l @ [e]\<rparr>) = insert t (ll_registered l)"
  by (auto simp: ll_ok_def ll_registered_def)

lemma ll_add_periodic_ok:
  assumes "ll_ok l" "ll_add_periodic lv t period now l = (ok, l')"
  shows "ll_ok l' \<and> ll_registered l' = (if ok then insert t (ll_registered l) else ll_registered l)"
proof (cases "\<not> ll_valid (ll_compact lv l) \<or> period = 0")
  case True
  with assms(2) ll_compact_ok [OF assms(1), of lv] show ?thesis by (simp add: ll_add_periodic_def)
next
  case False
  obtain ev l1 where a: "ll_arm lv Timer (Some (timeval_from_us period)) (ll_compact lv l) = (ev, l1)" by fastforce
  note c = base_step_ok [OF ll_arm_spec [OF a]] ll_compact_ok [OF assms(1), of lv]
  show ?thesis
  proof (cases ev)
    case None
    with False a assms(2) c show ?thesis by (simp add: ll_add_periodic_def)
  next
    case (Some e)
    with False a assms(2) c ll_append_periodic [of l1 _ t] show ?thesis by (simp add: ll_add_periodic_def) auto
  qed
qed

lemma ll_add_one_shot_ok:
  assumes "ll_ok l" "ll_add_one_shot lv t due now l = (ok, l')"
  shows "ll_ok l' \<and> ll_registered l' = (if ok then insert t (ll_registered l) else ll_registered l)"
proof (cases "ll_valid (ll_compact lv l)")
  case False
  with assms(2) ll_compact_ok [OF assms(1), of lv] show ?thesis by (simp add: ll_add_one_shot_def)
next
  case True
  define delta where "delta = (if due > now then due - now else 0)"
  obtain ev l1 where a: "ll_arm lv Timer (Some (timeval_from_us delta)) (ll_compact lv l) = (ev, l1)" by fastforce
  note c = base_step_ok [OF ll_arm_spec [OF a]] ll_compact_ok [OF assms(1), of lv]
  note eq = assms(2) [unfolded ll_add_one_shot_def Let_def, folded delta_def]
  show ?thesis
  proof (cases ev)
    case None
    with True a eq c show ?thesis by simp
  next
    case (Some e)
    with True a eq c ll_append_one_shot [of l1 _ t] show ?thesis by simp auto
  qed
qed

lemma ll_add_fd_ok:
  assumes "ll_ok l" "ll_add_fd lv fd kind t l = (ok, l')"
  shows "ll_ok l' \<and> ll_registered l' = (if ok then insert t (ll_registered l) else ll_registered l)"
proof (cases "\<not> ll_valid l \<or> fd < 0")
  case True
  with assms show ?thesis by (simp add: ll_add_fd_def)
next
  case False
  obtain ev l1 where a: "ll_arm lv kind None l = (ev, l1)" by fastforce
  note c = base_step_ok [OF ll_arm_spec [OF a]]
  show ?thesis
  proof (cases ev)
    case None
    with False a assms c show ?thesis by (simp add: ll_add_fd_def)
  next
    case (Some e)
    with False a assms c ll_append_fd [of l1 _ t] show ?thesis by (simp add: ll_add_fd_def) auto
  qed
qed

lemma ll_remove_ok:
  assumes "ll_ok l" "ll_remove lv t l = (ok, l')"
  shows "ll_ok l' \<and> (ok \<longleftrightarrow> t \<in> ll_registered l) \<and> ll_registered l' = ll_registered l - {t}"
proof -
  obtain r1 ps where m1: "mark_timer_events_removed t (ll_periodic l) = (r1, ps)" by fastforce
  obtain r2 os where m2: "mark_timer_events_removed t (ll_one_shot l) = (r2, os)" by fastforce
  obtain r3 fs where m3: "mark_fd_events_removed (\<lambda>e. fe_task e = Some t) (ll_fds l) = (r3, fs)" by fastforce
  let ?l1 = "l\<lparr>ll_periodic := ps, ll_one_shot := os, ll_fds := fs\<rparr>"
  note s = mark_timer_spec [OF m1] mark_timer_spec [OF m2] mark_fd_spec [OF m3]
  have l': "ok = (r1 \<or> r2 \<or> r3)" "l' = ll_compact lv ?l1"
    using assms(2) m1 m2 m3 by (auto simp: ll_remove_def)
  have "ll_ok ?l1" using assms(1) s by (auto simp: ll_ok_def te_kill_def fe_kill_def)
  moreover have "ll_registered ?l1 = ll_registered l - {t}"
    using s by (auto simp: ll_registered_def te_kill_def fe_kill_def split: if_splits)
  moreover have "ok \<longleftrightarrow> t \<in> ll_registered l" using s l'(1) by (auto simp: ll_registered_def)
  ultimately show ?thesis using ll_compact_ok l'(2) by metis
qed

interpretation linux: scheduler "ll_ops lv" ll_ok ll_registered
  for lv :: "'b libevent_ops"
proof (unfold_locales, goal_cases)
  case (1 s t period now ok s')
  then have "ll_add_periodic lv t period now s = (ok, s')" by (simp add: ll_ops_def)
  from ll_add_periodic_ok [OF 1(1) this] show ?case .
next
  case (2 s t due now ok s')
  then have "ll_add_one_shot lv t due now s = (ok, s')" by (simp add: ll_ops_def)
  from ll_add_one_shot_ok [OF 2(1) this] show ?case .
next
  case (3 s t ok s')
  then have "ll_remove lv t s = (ok, s')" by (simp add: ll_ops_def)
  from ll_remove_ok [OF 3(1) this] show ?case .
next
  case (4 s add fd t ok s')
  then have "ll_add_fd lv fd (Readable fd) t (ll_compact lv s) = (ok, s')"
    by (auto simp: ll_ops_def ll_add_readable_fd_def)
  from ll_add_fd_ok [OF _ this] ll_compact_ok [OF 4(1)] show ?case by metis
qed

end
