(* ===== verification/Event_Loop_Linux.thy ===== *)
theory Event_Loop_Linux
  imports Event_Loop_Exec Libevent_Loop "HOL-Library.Sublist"
begin

text \<open>
  \<open>EventLoop\<close> on the libevent scheduler: an iteration is an execution in the sense of
  \<open>Event_Loop_Exec\<close>; no call made during a callback frees an item; and a periodic timer keeps its phase.
\<close>

section \<open>Iterations are executions\<close>

lemmas linux_api_wf = scheduler.el_api_wf [OF linux.scheduler_axioms]
  and linux_steps_wf = scheduler.el_steps_wf [OF linux.scheduler_axioms]

lemma ll_ok_frame:
  "ll_ok (ll_enter l) = ll_ok l" "ll_leave l = Some l' \<Longrightarrow> ll_ok l' = ll_ok l"
  "ll_ok (ll_rearm lv ev d l) = ll_ok l"
  by (auto simp: ll_ok_def ll_enter_def ll_leave_def ll_rearm_def split: if_splits)

lemma ll_ok_update_timer:
  assumes "ll_ok l" "\<And>e. (te_removed e \<longleftrightarrow> te_task e = None) \<Longrightarrow> te_removed (f e) \<longleftrightarrow> te_task (f e) = None"
  shows "ll_ok (ll_update_timer ev f l)"
  using assms by (auto simp: ll_ok_def ll_update_timer_def Let_def)

lemma ll_ok_after_timer: "ll_ok l \<Longrightarrow> ll_ok (ll_after_timer lv ev now l)"
  by (auto simp: ll_after_timer_def ll_ok_frame te_kill_def split: option.splits prod.splits
      intro!: ll_ok_update_timer)

lemma ll_call_steps:
  fixes env :: "('p, 'b libevent_loop, 'w) el_env"
  assumes env: "en_ops env = ll_ops lv" and prog: "programs_step ll_ok n env" and wf: "el_wf ll_ok n st"
    and run: "ll_call (\<lambda>(l, w). en_micros env w) (el_poll env) task st = Some st'"
  shows "el_steps ll_ok env n st st' \<and> el_wf ll_ok n st'"
proof -
  obtain s l w where st: "st = (s, l, w)" by (metis prod_cases3)
  from run st obtain s1 l1 w1 s2 where
    p: "el_poll env task (en_micros env w) (ll_enter s, l, w) = Some (s1, l1, w1)"
    and lv: "ll_leave s1 = Some s2" and st': "st' = (s2, l1, w1)"
    by (auto simp: ll_call_def split: Option.bind_splits)
  from wf st have e: "ll_ok (ll_enter s)" "length (el_tasks l) = n" "el_wf ll_ok n (ll_enter s, l, w)"
    by (simp_all add: el_wf_def ll_ok_frame slots_wf_def)
  have s0: "el_step ll_ok env n st (ll_enter s, l, w)" unfolding st using e(1) by (rule step_sched)
  note s1 = el_poll_steps [OF prog e(2) p]
  from linux_steps_wf [OF env s1 e(3)] have w1: "el_wf ll_ok n (s1, l1, w1)" .
  then have ok: "ll_ok s2" using ll_ok_frame(2) [OF lv] by (simp add: el_wf_def)
  have s2: "el_step ll_ok env n (s1, l1, w1) st'" unfolding st' using ok by (rule step_sched)
  from w1 ok have "el_wf ll_ok n st'" by (simp add: el_wf_def st')
  with s0 s1 s2 show ?thesis by (meson rtranclp.rtrancl_into_rtrancl converse_rtranclp_into_rtranclp)
qed

lemma sched_steps:
  assumes "el_wf sinv n (s, l, w)" "sinv s'"
  shows "el_steps sinv env n (s, l, w) (s', l, w) \<and> el_wf sinv n (s', l, w)"
  using assms step_sched [of sinv s' env n s l w] by (auto simp: el_wf_def)

lemma ll_callback_steps:
  fixes env :: "('p, 'b libevent_loop, 'w) el_env"
  assumes env: "en_ops env = ll_ops lv" and prog: "programs_step ll_ok n env" and wf: "el_wf ll_ok n st"
  shows "ll_timer_callback lv (\<lambda>(l, w). en_micros env w) (el_poll env) ev st = Some st' \<Longrightarrow>
      el_steps ll_ok env n st st' \<and> el_wf ll_ok n st'" (is "?T \<Longrightarrow> ?C")
    "ll_fd_callback lv (\<lambda>(l, w). en_micros env w) (el_poll env) ev st = Some st' \<Longrightarrow>
      el_steps ll_ok env n st st' \<and> el_wf ll_ok n st'" (is "?F \<Longrightarrow> ?C")
proof -
  have fin: "?C" if c: "ll_call (\<lambda>(l, w). en_micros env w) (el_poll env) task st = Some (s1, lw1)"
    and f: "\<And>s. ll_ok s \<Longrightarrow> ll_ok (f s)" and st': "st' = (f s1, lw1)" for task s1 lw1 f
  proof -
    obtain l1 w1 where lw: "lw1 = (l1, w1)" by fastforce
    note a = ll_call_steps [OF env prog wf c]
    from a have "ll_ok (f s1)" using f by (simp add: el_wf_def lw)
    with a sched_steps [of ll_ok n s1 l1 w1 "f s1" env] show ?thesis
      unfolding st' lw by (meson rtranclp_trans)
  qed
  show ?C if ?T
  proof -
    from that consider "st' = st" | task s1 lw1 where
      "ll_call (\<lambda>(l, w). en_micros env w) (el_poll env) task st = Some (s1, lw1)"
      "st' = (ll_compact lv (ll_after_timer lv ev (case lw1 of (l, w) \<Rightarrow> en_micros env w) s1), lw1)"
      by (auto simp: ll_timer_callback_def split: option.splits if_splits Option.bind_splits)
    then show ?thesis
    proof cases
      case 1
      with wf show ?thesis by simp
    next
      case 2
      show ?thesis using fin [where f = "\<lambda>s. ll_compact lv (ll_after_timer lv ev (case lw1 of (l, w) \<Rightarrow> en_micros env w) s)",
          OF 2(1) _ 2(2)] ll_ok_after_timer ll_compact_ok by blast
    qed
  qed
  show ?C if ?F
  proof -
    from that consider "st' = st" | task s1 lw1 where
      "ll_call (\<lambda>(l, w). en_micros env w) (el_poll env) task st = Some (s1, lw1)"
      "st' = (ll_compact lv s1, lw1)"
      by (auto simp: ll_fd_callback_def split: option.splits if_splits Option.bind_splits)
    then show ?thesis
    proof cases
      case 1
      with wf show ?thesis by simp
    next
      case 2
      show ?thesis using fin [where f = "ll_compact lv", OF 2(1) _ 2(2)] ll_compact_ok by blast
    qed
  qed
qed

lemma ll_dispatch_steps:
  fixes env :: "('p, 'b libevent_loop, 'w) el_env"
  assumes "en_ops env = ll_ops lv" "programs_step ll_ok n env"
  shows "el_wf ll_ok n st \<Longrightarrow> ll_dispatch lv (\<lambda>(l, w). en_micros env w) (el_poll env) events st = Some st' \<Longrightarrow>
    el_steps ll_ok env n st st' \<and> el_wf ll_ok n st'"
proof (induction events arbitrary: st)
  case (Cons e events)
  from Cons.prems(2) obtain st1 where st1: "ll_dispatch lv (\<lambda>(l, w). en_micros env w) (el_poll env) events st1 = Some st'"
    "el_steps ll_ok env n st st1 \<and> el_wf ll_ok n st1"
    using ll_callback_steps [OF assms Cons.prems(1)]
    by (cases e) (auto split: Option.bind_splits)
  from Cons.IH [OF _ st1(1)] st1(2) show ?case by (meson rtranclp_trans)
qed simp

text \<open>The whole iteration, on the states of \<open>EventLoop\<close>.\<close>

definition el_linux_run_once ::
  "'b libevent_ops \<Rightarrow> ('p, 'b libevent_loop, 'w) el_env \<Rightarrow> fired list \<Rightarrow>
   ('p, 'b libevent_loop, 'w) el_state \<Rightarrow> ('p, 'b libevent_loop, 'w) el_state option" where
  "el_linux_run_once lv env events = ll_run_once lv (\<lambda>(l, w). en_micros env w) (el_poll env) events"

text \<open>
  C18: one iteration of the event loop on the libevent scheduler, whatever events libevent reports and
  in whatever order, keeps the slots and the scheduler well formed, if the application's callbacks
  only act on the loop by its operations; the iteration is a sequence of such steps. No assumption
  is made on libevent: its operations may fail.
\<close>

theorem linux_iteration_invariant:
  fixes env :: "('p, 'b libevent_loop, 'w) el_env"
  assumes "en_ops env = ll_ops lv" "programs_step ll_ok n env" "el_wf ll_ok n st"
    "el_linux_run_once lv env events st = Some st'"
  shows "el_wf ll_ok n st' \<and> el_steps ll_ok env n st st'"
proof (cases "ll_valid (fst st)")
  case False
  with assms(3,4) show ?thesis by (simp add: el_linux_run_once_def ll_run_once_def)
next
  case True
  with assms(4) obtain s1 l1 w1 where
    r: "ll_dispatch lv (\<lambda>(l, w). en_micros env w) (el_poll env) events st = Some (s1, l1, w1)"
    and st': "st' = (ll_compact lv s1, l1, w1)"
    by (auto simp: el_linux_run_once_def ll_run_once_def split: Option.bind_splits)
  note d = ll_dispatch_steps [OF assms(1-3) r]
  from d have "ll_ok (ll_compact lv s1)" using ll_compact_ok by (auto simp: el_wf_def)
  with d sched_steps [of ll_ok n s1 l1 w1 "ll_compact lv s1" env] show ?thesis
    unfolding st' by (meson rtranclp_trans)
qed

section \<open>Items during a callback\<close>

text \<open>The calls a callback can make on the scheduler.\<close>

inductive ll_step :: "'b libevent_ops \<Rightarrow> 'b libevent_loop \<Rightarrow> 'b libevent_loop \<Rightarrow> bool"
  for lv :: "'b libevent_ops" where
  step_periodic: "ll_add_periodic lv t period now l = (ok, l') \<Longrightarrow> ll_step lv l l'"
| step_one_shot: "ll_add_one_shot lv t due now l = (ok, l') \<Longrightarrow> ll_step lv l l'"
| step_readable: "ll_add_readable_fd lv fd t l = (ok, l') \<Longrightarrow> ll_step lv l l'"
| step_writable: "ll_add_writable_fd lv fd t l = (ok, l') \<Longrightarrow> ll_step lv l l'"
| step_remove: "ll_remove lv t l = (ok, l') \<Longrightarrow> ll_step lv l l'"
| step_remove_fd: "ll_remove_fd lv fd t l = (ok, l') \<Longrightarrow> ll_step lv l l'"
| step_exit: "ll_step lv l (ll_request_exit lv l)"

text \<open>What of an item never changes while it exists, and the items that exist, by their place.\<close>

definition te_sig :: "timer_event \<Rightarrow> nat \<times> u64 \<times> bool" where
  "te_sig e = (te_ev e, te_period_us e, te_periodic e)"

definition fe_sig :: "fd_event \<Rightarrow> nat \<times> int" where
  "fe_sig e = (fe_ev e, fe_fd e)"

definition items_kept :: "'b libevent_loop \<Rightarrow> 'b libevent_loop \<Rightarrow> bool" where
  "items_kept l l' \<longleftrightarrow> ll_depth l' = ll_depth l
     \<and> prefix (map te_sig (ll_periodic l)) (map te_sig (ll_periodic l'))
     \<and> prefix (map te_sig (ll_one_shot l)) (map te_sig (ll_one_shot l'))
     \<and> prefix (map fe_sig (ll_fds l)) (map fe_sig (ll_fds l'))"

lemma items_kept_trans: "items_kept l1 l2 \<Longrightarrow> items_kept l2 l3 \<Longrightarrow> items_kept l1 l3"
  by (auto simp: items_kept_def intro: prefix_order.trans)

lemma items_kept_base: "base_step l l' \<Longrightarrow> items_kept l l'"
  by (simp add: items_kept_def base_stepD)

lemma items_kept_append:
  "items_kept l (l\<lparr>ll_periodic := ll_periodic l @ es\<rparr>)" "items_kept l (l\<lparr>ll_one_shot := ll_one_shot l @ es\<rparr>)"
  "items_kept l (l\<lparr>ll_fds := ll_fds l @ fs\<rparr>)"
  by (simp_all add: items_kept_def)

lemma ll_compact_busy: "ll_depth l > 0 \<Longrightarrow> ll_compact lv l = l"
  by (simp add: ll_compact_def)

lemma te_sig_kill [simp]: "te_sig (te_kill e) = te_sig e" "fe_sig (fe_kill f) = fe_sig f"
  by (simp_all add: te_sig_def te_kill_def fe_sig_def fe_kill_def)

lemma mark_sigs:
  "mark_timer_events_removed task es = (r, es') \<Longrightarrow> map te_sig es' = map te_sig es"
  "mark_fd_events_removed P fs = (r, fs') \<Longrightarrow> map fe_sig fs' = map fe_sig fs"
  by (drule mark_timer_spec mark_fd_spec; auto)+

lemma ll_add_fd_kept:
  assumes "ll_add_fd lv fd kind t l = (ok, l')"
  shows "items_kept l l'"
proof -
  obtain ev l1 where a: "ll_arm lv kind None l = (ev, l1)" by fastforce
  note k = items_kept_base [OF ll_arm_spec [OF a]]
  have "items_kept l l" by (rule items_kept_base) simp
  with assms a k items_kept_trans [OF k items_kept_append(3)] show ?thesis
    by (auto simp: ll_add_fd_def split: if_splits option.splits)
qed

lemma ll_step_kept:
  assumes "ll_step lv l l'" "ll_depth l > 0"
  shows "items_kept l l'"
proof -
  note c = ll_compact_busy [OF assms(2), of lv]
  have refl: "items_kept l l" by (rule items_kept_base) simp
  from assms(1) show ?thesis
  proof cases
    case (step_periodic t period now ok)
    obtain ev l1 where a: "ll_arm lv Timer (Some (timeval_from_us period)) l = (ev, l1)" by fastforce
    note k = items_kept_base [OF ll_arm_spec [OF a]]
    from step_periodic a c refl k items_kept_trans [OF k items_kept_append(1)] show ?thesis
      by (auto simp: ll_add_periodic_def split: if_splits option.splits)
  next
    case (step_one_shot t due now ok)
    define delta where "delta = (if due > now then due - now else 0)"
    obtain ev l1 where a: "ll_arm lv Timer (Some (timeval_from_us delta)) l = (ev, l1)" by fastforce
    note k = items_kept_base [OF ll_arm_spec [OF a]]
    note eq = step_one_shot [unfolded ll_add_one_shot_def Let_def, folded delta_def]
    from eq a c refl k items_kept_trans [OF k items_kept_append(2)] show ?thesis
      by (cases "ll_valid l"; cases ev) auto
  next
    case (step_readable fd t ok)
    with c ll_add_fd_kept show ?thesis by (simp add: ll_add_readable_fd_def)
  next
    case (step_writable fd t ok)
    with c ll_add_fd_kept show ?thesis by (simp add: ll_add_writable_fd_def)
  next
    case (step_remove t ok)
    with assms(2) show ?thesis
      by (auto simp: ll_remove_def items_kept_def ll_compact_busy mark_sigs split: prod.splits)
  next
    case (step_remove_fd fd t ok)
    with assms(2) show ?thesis
      by (auto simp: ll_remove_fd_def items_kept_def ll_compact_busy mark_sigs split: prod.splits)
  next
    case step_exit
    then show ?thesis by (simp add: ll_request_exit_def items_kept_def)
  qed
qed

text \<open>
  While a callback runs, no sequence of calls on the libevent scheduler (registrations, removals of
  any task, its own included, requests to exit) erases an item: the items that existed before are still
  there, in the same places, with the same event, period and descriptor, so that what libevent or a
  callback further out holds a pointer to stays alive.
\<close>

theorem callback_keeps_items:
  assumes "(ll_step lv)\<^sup>*\<^sup>* (ll_enter l) l'"
  shows "items_kept (ll_enter l) l'"
  using assms
proof (induction rule: rtranclp_induct)
  case base
  then show ?case by (simp add: items_kept_def)
next
  case (step l1 l2)
  then have "ll_depth l1 > 0" by (simp add: items_kept_def ll_enter_def)
  with items_kept_trans [OF step.IH ll_step_kept [OF step.hyps(2)]] show ?case .
qed

section \<open>The phase of a periodic timer\<close>

lemma timer_update_find:
  assumes "ll_timer ev l = Some item" "\<And>e. te_ev (f e) = te_ev e"
  shows "ll_timer ev (ll_update_timer ev f l) = Some (f item)"
proof -
  let ?g = "\<lambda>e. if te_ev e = ev then f e else e"
  have "find (\<lambda>e. te_ev e = ev) (map ?g es) = map_option f (find (\<lambda>e. te_ev e = ev) es)" for es
    using assms(2) by (induction es) auto
  from this [of "ll_periodic l @ ll_one_shot l"] assms(1) show ?thesis
    by (simp add: ll_timer_def ll_update_timer_def Let_def)
qed

lemma find_filter: "find P xs = Some x \<Longrightarrow> Q x \<Longrightarrow> find P (filter Q xs) = Some x"
  by (induction xs) (auto split: if_splits)

lemma ll_timer_compact:
  assumes "ll_timer ev l = Some item" "\<not> te_removed item"
  shows "ll_timer ev (ll_compact lv l) = Some item"
  using assms find_filter [of _ "ll_periodic l @ ll_one_shot l" item "\<lambda>e. \<not> te_removed e"]
  by (simp add: ll_timer_def ll_compact_spec)

text \<open>The delay counts from the time of the callback to the next multiple of the period.\<close>

lemma next_delay_exact:
  assumes "periodic_timer_next_delay_us due period now = (due', delay)" "due \<le> now"
    "unat due + unat period < 2 ^ 64" "unat now + unat period < 2 ^ 64"
  shows "unat due' = unat due + unat period \<and> unat now + unat delay = max (unat now) (unat due')"
proof -
  define overdue where "overdue = (if now > due then now - due else 0)"
  have od: "unat overdue = unat now - unat due"
    using assms(2) by (auto simp: overdue_def unat_sub word_le_less_eq)
  have e: "due' = due + period" "delay = (if period > overdue then period - overdue else 0)"
    using assms(1) by (auto simp: periodic_timer_next_delay_us_def overdue_def Let_def)
  have d: "unat due' = unat due + unat period" using e(1) assms(3) by (simp add: unat_plus_simple [THEN iffD1] no_olen_add_nat)
  have "unat delay = unat period - unat overdue"
    using e(2) by (auto simp: unat_sub word_less_nat_alt word_le_nat_alt)
  with d od assms(2) show ?thesis by (simp add: word_le_nat_alt)
qed

lemma ll_timer_frame [simp]:
  "ll_timer ev (ll_enter l) = ll_timer ev l" "ll_timer ev (ll_rearm lv ev2 d l) = ll_timer ev l"
  by (simp_all add: ll_timer_def ll_enter_def ll_rearm_def)

lemma ll_leave_enter [simp]: "ll_leave (ll_enter l) = Some l"
  by (simp add: ll_leave_def ll_enter_def)

lemma ll_timer_callback_periodic:
  assumes "ll_timer ev l = Some item" "te_task item = Some t" "\<not> te_removed item" "te_periodic item"
    "poll t (clk w) (ll_enter l, w) = Some (ll_enter l, w1)"
  shows "\<exists>l'. ll_timer_callback lv clk poll ev (l, w) = Some (l', w1)
    \<and> ll_timer ev l' = Some (item\<lparr>te_next_due_us := te_next_due_us item + te_period_us item\<rparr>)"
proof -
  obtain due delay where d: "periodic_timer_next_delay_us (te_next_due_us item) (te_period_us item) (clk w1) = (due, delay)"
    by fastforce
  then have due: "due = te_next_due_us item + te_period_us item"
    by (simp add: periodic_timer_next_delay_us_def Let_def)
  let ?l1 = "ll_rearm lv ev delay (ll_update_timer ev (\<lambda>e. e\<lparr>te_next_due_us := due\<rparr>) l)"
  have "ll_timer_callback lv clk poll ev (l, w) = Some (ll_compact lv ?l1, w1)"
    using assms d by (simp add: ll_timer_callback_def ll_call_def ll_after_timer_def)
  moreover have "ll_timer ev ?l1 = Some (item\<lparr>te_next_due_us := due\<rparr>)"
    using timer_update_find [OF assms(1)] by simp
  ultimately show ?thesis using ll_timer_compact [of ev ?l1] assms(3) due by simp
qed

text \<open>
  A periodic timer of the libevent scheduler keeps its phase: when libevent has made its callback
  \<open>k\<close> times, its next deadline is the first one plus \<open>k\<close> periods, however late each of the callbacks
  was made; and a callback that was made \<open>late\<close> microseconds after a deadline rearms the timer for what
  is left of the period, at once if nothing is. (A timer of the cooperative scheduler skips the periods
  it has missed instead.)
\<close>

theorem linux_timer_keeps_phase:
  assumes "ll_timer ev l = Some item" "te_task item = Some t" "\<not> te_removed item" "te_periodic item"
    "\<And>now l w. \<exists>w'. poll t now (l, w) = Some (l, w')"
  shows "(\<exists>l' w'. ll_dispatch lv clk poll (replicate k (Fired_Timer ev)) (l, w) = Some (l', w')
      \<and> ll_timer ev l' = Some (item\<lparr>te_next_due_us := te_next_due_us item + of_nat k * te_period_us item\<rparr>))
    \<and> (\<forall>due now late. unat now = unat due + late \<and> unat now + unat (te_period_us item) < 2 ^ 64 \<longrightarrow>
        (case periodic_timer_next_delay_us due (te_period_us item) now of (due', delay) \<Rightarrow>
          unat due' = unat due + unat (te_period_us item) \<and> unat delay = unat (te_period_us item) - late))"
proof
  show "\<exists>l' w'. ll_dispatch lv clk poll (replicate k (Fired_Timer ev)) (l, w) = Some (l', w')
      \<and> ll_timer ev l' = Some (item\<lparr>te_next_due_us := te_next_due_us item + of_nat k * te_period_us item\<rparr>)"
    using assms(1-4)
  proof (induction k arbitrary: l w item)
    case (Suc k)
    obtain w1 where w1: "poll t (clk w) (ll_enter l, w) = Some (ll_enter l, w1)" using assms(5) by blast
    from ll_timer_callback_periodic [OF Suc.prems, of poll clk w w1 lv, OF w1] obtain l1 where
      l1: "ll_timer_callback lv clk poll ev (l, w) = Some (l1, w1)"
      "ll_timer ev l1 = Some (item\<lparr>te_next_due_us := te_next_due_us item + te_period_us item\<rparr>)" by blast
    from Suc.IH [OF l1(2), of w1] Suc.prems l1(1) show ?case by (simp add: algebra_simps)
  qed simp
next
  show "\<forall>due now late. unat now = unat due + late \<and> unat now + unat (te_period_us item) < 2 ^ 64 \<longrightarrow>
        (case periodic_timer_next_delay_us due (te_period_us item) now of (due', delay) \<Rightarrow>
          unat due' = unat due + unat (te_period_us item) \<and> unat delay = unat (te_period_us item) - late)"
  proof (intro allI impI)
    fix due now :: u64 and late
    assume a: "unat now = unat due + late \<and> unat now + unat (te_period_us item) < 2 ^ 64"
    obtain due' delay where e: "periodic_timer_next_delay_us due (te_period_us item) now = (due', delay)" by fastforce
    have "due \<le> now" using a by (simp add: word_le_nat_alt)
    from next_delay_exact [OF e this] a e
    show "case periodic_timer_next_delay_us due (te_period_us item) now of (due', delay) \<Rightarrow>
          unat due' = unat due + unat (te_period_us item) \<and> unat delay = unat (te_period_us item) - late"
      by auto
  qed
qed

section \<open>Examples\<close>

text \<open>A libevent whose operations succeed: it counts the events created and logs what was added.\<close>

definition demo_libevent :: "(nat \<times> (nat \<times> timeval option) list) libevent_ops" where
  "demo_libevent = \<lparr>lv_new = (\<lambda>k (n, log). (Some n, (n + 1, log))),
     lv_add = (\<lambda>ev tv (n, log). (0, (n, log @ [(ev, tv)]))), lv_free = (\<lambda>ev b. b), lv_break = (\<lambda>b. b)\<rparr>"

text \<open>Program \<open>p\<close> registers program \<open>p + 1\<close>, and a poll of a task outside the loop does nothing.\<close>

definition linux_idle_env :: "(nat, (nat \<times> (nat \<times> timeval option) list) libevent_loop, u64) el_env" where
  "linux_idle_env = \<lparr>en_ops = ll_ops demo_libevent, en_micros = (\<lambda>w. w), en_readable = (\<lambda>k w. True),
     en_stream_fd = (\<lambda>k w. -1), en_source_fd = (\<lambda>k w. -1), en_read_event = (\<lambda>k w. Some (None, w)), en_run = (\<lambda>p. Some),
     en_run_pin = (\<lambda>p ev. Some), en_external = (\<lambda>t now. Some)\<rparr>"

definition linux_env :: "(nat, (nat \<times> (nat \<times> timeval option) list) libevent_loop, u64) el_env" where
  "linux_env = linux_idle_env\<lparr>en_run := (\<lambda>p st. Some (snd (el_on_repeat_us linux_idle_env 10 (p + 1) st)))\<rparr>"

lemma linux_repeat: "el_on_repeat_us linux_env period p = el_on_repeat_us linux_idle_env period p"
proof -
  have "el_add_periodic linux_env = el_add_periodic linux_idle_env"
    by (simp add: fun_eq_iff el_add_periodic_def linux_env_def)
  then show ?thesis by (simp add: el_on_repeat_us_def)
qed

lemma linux_programs: "programs_step ll_ok n linux_env"
proof -
  have "el_steps ll_ok linux_env n st (snd (el_on_repeat_us linux_env 10 p st))" for p st
    by (intro r_into_rtranclp step_api) (rule api_repeat [of _ _ _ _ "fst (el_on_repeat_us linux_env 10 p st)"], simp)
  moreover have "en_run linux_env p st = Some (snd (el_on_repeat_us linux_env 10 (p + 1) st))" for p st
    by (simp add: linux_repeat) (simp add: linux_env_def)
  moreover have "en_run_pin linux_env p ev st = Some st" "en_external linux_env t now st = Some st" for p ev st t now
    by (simp_all add: linux_env_def linux_idle_env_def)
  ultimately show ?thesis unfolding programs_step_def by auto
qed

definition linux_state :: "(nat, (nat \<times> (nat \<times> timeval option) list) libevent_loop, u64) el_state" where
  "linux_state = snd (el_on_repeat_us linux_env 10 0 (ll_init (Some (0, [])), el_init 4, 7))"

lemma linux_state_wf: "el_wf ll_ok 4 linux_state"
proof -
  have ops: "en_ops linux_env = ll_ops demo_libevent" by (simp add: linux_env_def linux_idle_env_def)
  have "el_api linux_env 4 (ll_init (Some (0, [])), el_init 4, 7) linux_state"
    by (rule api_repeat [of _ 10 0 _ "fst (el_on_repeat_us linux_env 10 0 (ll_init (Some (0, [])), el_init 4, 7))"])
      (simp add: linux_state_def)
  moreover have "el_wf ll_ok 4 (ll_init (Some (0, [])) :: (nat \<times> (nat \<times> timeval option) list) libevent_loop, el_init 4, 7 :: u64)"
    using slots_wf_init [of 4] by (simp add: el_wf_def ll_ok_def ll_init_def)
  ultimately show ?thesis using linux_api_wf [OF ops] by blast
qed

lemma linux_iteration_invariant_witness:
  "case el_linux_run_once demo_libevent linux_env [Fired_Timer 0] linux_state of None \<Rightarrow> False | Some st' \<Rightarrow> el_wf ll_ok 4 st'"
proof -
  have "\<not> Option.is_none (el_linux_run_once demo_libevent linux_env [Fired_Timer 0] linux_state)"
    unfolding linux_state_def by code_simp
  then obtain st' where st': "el_linux_run_once demo_libevent linux_env [Fired_Timer 0] linux_state = Some st'"
    by (auto simp: Option.is_none_def)
  have "en_ops linux_env = ll_ops demo_libevent" by (simp add: linux_env_def linux_idle_env_def)
  from linux_iteration_invariant [OF this linux_programs linux_state_wf st'] st' show ?thesis by simp
qed

lemma callback_keeps_items_witness:
  "items_kept (ll_enter (fst linux_state)) (snd (ll_remove demo_libevent 0 (ll_enter (fst linux_state))))"
  by (rule callback_keeps_items [where lv = demo_libevent], rule r_into_rtranclp,
      rule step_remove [where t = 0 and ok = "fst (ll_remove demo_libevent 0 (ll_enter (fst linux_state)))"]) simp

definition demo_timer :: timer_event where
  "demo_timer = \<lparr>te_task = Some 5, te_ev = 0, te_period_us = 10, te_next_due_us = 17, te_periodic = True, te_removed = False\<rparr>"

lemma linux_timer_keeps_phase_witness:
  "\<exists>l' w'. ll_dispatch demo_libevent (\<lambda>w. w) (\<lambda>t now (l, w). Some (l, w + 25)) (replicate 3 (Fired_Timer 0))
      ((ll_init (Some (0, [])))\<lparr>ll_periodic := [demo_timer]\<rparr>, 30 :: u64) = Some (l', w')
    \<and> ll_timer 0 l' = Some (demo_timer\<lparr>te_next_due_us := 47\<rparr>)"
  using linux_timer_keeps_phase [of 0 "(ll_init (Some (0, [])))\<lparr>ll_periodic := [demo_timer]\<rparr>" demo_timer 5
      "\<lambda>t now (l, w). Some (l, w + 25)" demo_libevent "\<lambda>w. w" 3 30]
  by (simp add: ll_timer_def ll_init_def demo_timer_def)

end
