(* ===== verification/Tcp.thy ===== *)
theory Tcp
  imports Byte_Stream
begin

text \<open>
  The portable TCP layer of \<^verbatim>\<open>src/async_event_loop/tcp.hpp\<close>: the connection interface, the
  backpressure monitor, the registry of connections and the byte stream over a connection. A
  connection is named by a number (its address); the network and everything else outside is a
  state \<open>'w\<close>, and what a backend implements of \<open>ITcpConnection\<close> is a record of operations on it.
\<close>

record tcp_peer_info =
  peer_host :: string
  peer_port :: u16

record 'w tcp_ops =
  tc_valid :: "nat \<Rightarrow> 'w \<Rightarrow> bool"
  tc_close :: "nat \<Rightarrow> 'w \<Rightarrow> 'w"
  tc_input_size :: "nat \<Rightarrow> 'w \<Rightarrow> nat"
  tc_output_size :: "nat \<Rightarrow> 'w \<Rightarrow> nat"
  tc_read :: "nat \<Rightarrow> nat \<Rightarrow> 'w \<Rightarrow> int \<times> byte list \<times> 'w"
  tc_write :: "nat \<Rightarrow> byte list \<Rightarrow> 'w \<Rightarrow> int \<times> 'w"

definition tc_readable :: "'w tcp_ops \<Rightarrow> nat \<Rightarrow> 'w \<Rightarrow> bool" where
  "tc_readable ops c w \<longleftrightarrow> tc_valid ops c w \<and> tc_input_size ops c w > 0"

definition tc_writable :: "'w tcp_ops \<Rightarrow> nat \<Rightarrow> 'w \<Rightarrow> bool" where
  "tc_writable ops c w \<longleftrightarrow> tc_valid ops c w"

section \<open>\<open>TcpBackpressureMonitor\<close>\<close>

record bp_options =
  bo_enabled :: bool
  bo_high_water_bytes :: nat
  bo_low_water_bytes :: nat
  bo_max_over_high_polls :: u32
  bo_close_on_limit :: bool

definition bp_disabled :: bp_options where
  "bp_disabled = \<lparr>bo_enabled = False, bo_high_water_bytes = 32768, bo_low_water_bytes = 8192,
     bo_max_over_high_polls = 3, bo_close_on_limit = True\<rparr>"

definition bp_server_default :: bp_options where
  "bp_server_default = bp_disabled\<lparr>bo_enabled := True\<rparr>"

definition bp_embedded_default :: bp_options where
  "bp_embedded_default = bp_disabled\<lparr>bo_enabled := True, bo_high_water_bytes := 768,
     bo_low_water_bytes := 256, bo_max_over_high_polls := 2\<rparr>"

record bp_info =
  bi_pending_bytes :: nat
  bi_high_water_bytes :: nat
  bi_low_water_bytes :: nat
  bi_over_high_polls :: u32
  bi_close_on_limit :: bool

record bp_monitor =
  bm_options :: bp_options
  bm_over_high_polls :: u32
  bm_reported :: bool

definition bm_init :: "bp_options \<Rightarrow> bp_monitor" where
  "bm_init opts = \<lparr>bm_options = opts, bm_over_high_polls = 0, bm_reported = False\<rparr>"

definition bm_reset :: "bp_monitor \<Rightarrow> bp_monitor" where
  "bm_reset m = m\<lparr>bm_over_high_polls := 0, bm_reported := False\<rparr>"

definition bm_configure :: "bp_options \<Rightarrow> bp_monitor \<Rightarrow> bp_monitor" where
  "bm_configure opts m = bm_reset (m\<lparr>bm_options := opts\<rparr>)"

definition bm_fill_info :: "'w tcp_ops \<Rightarrow> nat \<Rightarrow> 'w \<Rightarrow> bp_monitor \<Rightarrow> bp_info" where
  "bm_fill_info ops c w m =
     \<lparr>bi_pending_bytes = (if tc_valid ops c w then tc_output_size ops c w else 0),
      bi_high_water_bytes = bo_high_water_bytes (bm_options m),
      bi_low_water_bytes = bo_low_water_bytes (bm_options m),
      bi_over_high_polls = bm_over_high_polls m,
      bi_close_on_limit = bo_close_on_limit (bm_options m)\<rparr>"

definition bm_trigger :: "bp_options \<Rightarrow> u32" where
  "bm_trigger opts = (if bo_max_over_high_polls opts = 0 then 1 else bo_max_over_high_polls opts)"

definition bm_count :: "nat \<Rightarrow> bp_monitor \<Rightarrow> bp_monitor" where
  "bm_count pending m =
     (if pending > bo_high_water_bytes (bm_options m)
      then (if bm_over_high_polls m < - 1
            then m\<lparr>bm_over_high_polls := bm_over_high_polls m + 1\<rparr> else m)
      else if pending \<le> bo_low_water_bytes (bm_options m)
      then m\<lparr>bm_over_high_polls := 0, bm_reported := False\<rparr>
      else m)"

definition bm_check :: "'w tcp_ops \<Rightarrow> nat \<Rightarrow> 'w \<Rightarrow> bp_monitor \<Rightarrow> bool \<times> bp_info \<times> bp_monitor" where
  "bm_check ops c w m =
     (if \<not> bo_enabled (bm_options m) \<or> \<not> tc_valid ops c w
      then (False, bm_fill_info ops c w m, m)
      else let m1 = bm_count (tc_output_size ops c w) m;
               info = bm_fill_info ops c w m1
           in if bm_over_high_polls m1 \<ge> bm_trigger (bm_options m) \<and> \<not> bm_reported m1
              then (True, info, m1\<lparr>bm_reported := True\<rparr>)
              else (False, info, m1))"

text \<open>The monitor polled over a history of network states.\<close>

fun bm_run :: "'w tcp_ops \<Rightarrow> nat \<Rightarrow> 'w list \<Rightarrow> bp_monitor \<Rightarrow> bool list" where
  "bm_run ops c [] m = []"
| "bm_run ops c (w # ws) m = (case bm_check ops c w m of (b, info, m') \<Rightarrow> b # bm_run ops c ws m')"

text \<open>
  What it promises. Since the queue was last drained to the low-water mark, \<open>n\<close> polls found it
  above the high-water mark; the monitor reports at the poll with which \<open>n\<close> reaches the limit,
  and not again before the queue has been drained. Polls between the marks count for nothing, and
  they do not reset the count.
\<close>

fun bp_reports :: "nat \<Rightarrow> nat \<Rightarrow> nat \<Rightarrow> nat \<Rightarrow> nat list \<Rightarrow> bool list" where
  "bp_reports high low limit n [] = []"
| "bp_reports high low limit n (q # qs) =
     (let n' = (if q > high then Suc n else if q \<le> low then 0 else n)
      in (q > high \<and> n' = limit) # bp_reports high low limit n' qs)"

lemma bm_trigger_pos: "0 < unat (bm_trigger opts)"
  by (auto simp: bm_trigger_def unat_gt_0)

lemma bm_run_reports:
  assumes "\<forall>w \<in> set ws. tc_valid ops c w" "bo_enabled (bm_options m)"
    "unat (bm_over_high_polls m) = min n (2 ^ 32 - 1)"
    "bm_reported m \<longleftrightarrow> unat (bm_trigger (bm_options m)) \<le> n"
  shows "bm_run ops c ws m = bp_reports (bo_high_water_bytes (bm_options m))
    (bo_low_water_bytes (bm_options m)) (unat (bm_trigger (bm_options m))) n
    (map (tc_output_size ops c) ws)"
  using assms
proof (induction ws arbitrary: m n)
  case Nil
  then show ?case by simp
next
  case (Cons w ws)
  let ?o = "bm_options m" and ?q = "tc_output_size ops c w"
  let ?t = "unat (bm_trigger ?o)"
  let ?n = "if ?q > bo_high_water_bytes ?o then Suc n
    else if ?q \<le> bo_low_water_bytes ?o then 0 else n"
  obtain b info m' where chk: "bm_check ops c w m = (b, info, m')" by (metis prod_cases3)
  have lt: "?t < 2 ^ 32" using unsigned_less [of "bm_trigger ?o"] by simp
  have t0: "0 < ?t" by (rule bm_trigger_pos)
  have max: "unat (- 1 :: u32) = 2 ^ 32 - 1"
    by (simp add: unsigned_minus_1_eq_mask mask_eq_exp_minus_1)
  have cnt: "unat (bm_over_high_polls (bm_count ?q m)) = min ?n (2 ^ 32 - 1)"
    "bm_options (bm_count ?q m) = ?o"
    "bm_reported (bm_count ?q m) \<longleftrightarrow> bm_reported m \<and> (?q > bo_high_water_bytes ?o \<or> ?q > bo_low_water_bytes ?o)"
    using Cons.prems(3)
    by (auto simp: bm_count_def word_less_nat_alt unat_add_no_wrap max)
  have b: "b \<longleftrightarrow> ?t \<le> min ?n (2 ^ 32 - 1) \<and> \<not> bm_reported (bm_count ?q m)"
    and m': "bm_options m' = ?o" "bm_over_high_polls m' = bm_over_high_polls (bm_count ?q m)"
      "bm_reported m' \<longleftrightarrow> bm_reported (bm_count ?q m) \<or> b"
    using chk Cons.prems(1,2) cnt(1,2)
    by (auto simp: bm_check_def Let_def word_le_nat_alt split: if_splits)
  have rep: "b \<longleftrightarrow> ?q > bo_high_water_bytes ?o \<and> ?n = ?t"
    using b cnt(3) Cons.prems(4) lt t0 by (auto split: if_splits)
  have "bm_reported m' \<longleftrightarrow> ?t \<le> ?n"
    using m'(3) b cnt(3) Cons.prems(4) lt t0 by (auto split: if_splits)
  with Cons.IH [of m' ?n] Cons.prems(1,2) m' cnt(1) chk rep show ?case
    by (simp add: Let_def)
qed

text \<open>
  C14: the backpressure monitor reports a connection exactly when the number of polls that found its
  output queue above the high-water mark, since the queue was last at or below the low-water mark,
  reaches the configured limit (a limit of zero is one): once, and again only after the queue was drained.
\<close>

theorem backpressure_reports:
  assumes "\<forall>w \<in> set ws. tc_valid ops c w" "bo_enabled opts"
  shows "bm_run ops c ws (bm_init opts) = bp_reports (bo_high_water_bytes opts) (bo_low_water_bytes opts)
    (unat (bm_trigger opts)) 0 (map (tc_output_size ops c) ws)"
  using bm_run_reports [OF assms(1), of "bm_init opts" 0] assms(2) bm_trigger_pos [of opts]
  by (simp add: bm_init_def)

text \<open>A network that consists of the number of bytes queued on every connection.\<close>

definition queue_ops :: "(nat \<Rightarrow> nat) tcp_ops" where
  "queue_ops = \<lparr>tc_valid = (\<lambda>c w. True), tc_close = (\<lambda>c w. w(c := 0)), tc_input_size = (\<lambda>c w. 0),
     tc_output_size = (\<lambda>c w. w c), tc_read = (\<lambda>c n w. (0, [], w)),
     tc_write = (\<lambda>c bytes w. (int_of_size (length bytes), w(c := w c + length bytes)))\<rparr>"

lemma backpressure_reports_witness:
  "bm_run queue_ops 7 (map (\<lambda>n c. n) [900, 500, 800, 900, 300, 100, 769, 770]) (bm_init bp_embedded_default)
     = [False, False, True, False, False, False, False, True]"
proof -
  let ?ws = "map (\<lambda>n c. n) [900, 500, 800, 900, 300, 100, 769, 770]"
  have "\<forall>w \<in> set ?ws. tc_valid queue_ops 7 w" "bo_enabled bp_embedded_default"
    by (simp_all add: queue_ops_def bp_embedded_default_def)
  from backpressure_reports [OF this] show ?thesis
    by (simp add: queue_ops_def bp_embedded_default_def bp_disabled_def bm_trigger_def Let_def)
qed

section \<open>\<open>TcpConnectionRegistry\<close>\<close>

text \<open>
  The array of connection pointers (\<open>None\<close> is the null pointer) and the number of those in use;
  \<open>MaxConnections\<close> is the length of the array.
\<close>

record tcp_registry =
  tr_connections :: "nat option list"
  tr_count :: nat

definition tr_init :: "nat \<Rightarrow> tcp_registry" where
  "tr_init n = \<lparr>tr_connections = replicate n None, tr_count = 0\<rparr>"

abbreviation tr_capacity :: "tcp_registry \<Rightarrow> nat" where
  "tr_capacity r \<equiv> length (tr_connections r)"

fun scan_for :: "'a \<Rightarrow> 'a list \<Rightarrow> nat \<Rightarrow> int" where
  "scan_for x [] i = - 1"
| "scan_for x (y # ys) i = (if y = x then int i else scan_for x ys (Suc i))"

definition tr_index_of :: "nat \<Rightarrow> tcp_registry \<Rightarrow> int" where
  "tr_index_of c r = scan_for (Some c) (tr_connections r) 0"

definition tr_contains :: "nat \<Rightarrow> tcp_registry \<Rightarrow> bool" where
  "tr_contains c r \<longleftrightarrow> tr_index_of c r \<ge> 0"

definition tr_add :: "nat \<Rightarrow> tcp_registry \<Rightarrow> bool \<times> tcp_registry" where
  "tr_add c r =
     (if tr_index_of c r \<ge> 0 then (True, r)
      else let i = scan_for None (tr_connections r) 0
           in if i \<ge> 0
              then (True, r\<lparr>tr_connections := (tr_connections r)[nat i := Some c], tr_count := tr_count r + 1\<rparr>)
              else (False, r))"

definition tr_remove :: "nat \<Rightarrow> tcp_registry \<Rightarrow> bool \<times> tcp_registry" where
  "tr_remove c r =
     (let i = tr_index_of c r
      in if i < 0 then (False, r)
         else (True, r\<lparr>tr_connections := (tr_connections r)[nat i := None],
                       tr_count := (if tr_count r > 0 then tr_count r - 1 else tr_count r)\<rparr>))"

definition tr_clear :: "tcp_registry \<Rightarrow> tcp_registry" where
  "tr_clear r = r\<lparr>tr_connections := replicate (tr_capacity r) None, tr_count := 0\<rparr>"

definition tr_prune_slot :: "'w tcp_ops \<Rightarrow> 'w \<Rightarrow> nat \<Rightarrow> tcp_registry \<Rightarrow> tcp_registry" where
  "tr_prune_slot ops w i r =
     (case tr_connections r ! i of
        Some c \<Rightarrow>
          if \<not> tc_valid ops c w
          then r\<lparr>tr_connections := (tr_connections r)[i := None],
                 tr_count := (if tr_count r > 0 then tr_count r - 1 else tr_count r)\<rparr>
          else r
      | None \<Rightarrow> r)"

definition tr_prune_invalid :: "'w tcp_ops \<Rightarrow> 'w \<Rightarrow> tcp_registry \<Rightarrow> tcp_registry" where
  "tr_prune_invalid ops w r = fold (tr_prune_slot ops w) [0..<tr_capacity r] r"

definition tr_empty :: "tcp_registry \<Rightarrow> bool" where
  "tr_empty r \<longleftrightarrow> tr_count r = 0"

definition tr_full :: "tcp_registry \<Rightarrow> bool" where
  "tr_full r \<longleftrightarrow> tr_count r \<ge> tr_capacity r"

definition tr_at :: "nat \<Rightarrow> tcp_registry \<Rightarrow> nat option" where
  "tr_at i r = (if i < tr_capacity r then tr_connections r ! i else None)"

text \<open>
  \<open>for_each\<close>: the callback acts on the network, so a connection is looked at, and its validity
  tested, only when its slot is reached.
\<close>

fun tr_for_each_from :: "'w tcp_ops \<Rightarrow> (nat \<Rightarrow> 'w \<Rightarrow> 'w) \<Rightarrow> nat option list \<Rightarrow> 'w \<Rightarrow> 'w" where
  "tr_for_each_from ops callback [] w = w"
| "tr_for_each_from ops callback (None # slots) w = tr_for_each_from ops callback slots w"
| "tr_for_each_from ops callback (Some c # slots) w =
     tr_for_each_from ops callback slots (if tc_valid ops c w then callback c w else w)"

definition tr_for_each :: "'w tcp_ops \<Rightarrow> (nat \<Rightarrow> 'w \<Rightarrow> 'w) \<Rightarrow> tcp_registry \<Rightarrow> 'w \<Rightarrow> 'w" where
  "tr_for_each ops callback r w = tr_for_each_from ops callback (tr_connections r) w"

text \<open>The registered connections in the order of their slots, and the invariant.\<close>

definition occupied :: "'a option list \<Rightarrow> 'a list" where
  "occupied slots = map the (filter (\<lambda>s. s \<noteq> None) slots)"

definition tr_list :: "tcp_registry \<Rightarrow> nat list" where
  "tr_list r = occupied (tr_connections r)"

definition tr_inv :: "tcp_registry \<Rightarrow> bool" where
  "tr_inv r \<longleftrightarrow> tr_count r = length (tr_list r) \<and> distinct (tr_list r)"

lemma occupied_simps [simp]:
  "occupied [] = []" "occupied (None # xs) = occupied xs" "occupied (Some x # xs) = x # occupied xs"
  "occupied (xs @ ys) = occupied xs @ occupied ys" "occupied (replicate n None) = []"
  by (simp_all add: occupied_def)

lemma occupied_set: "set (occupied xs) = {x. Some x \<in> set xs}"
proof (induction xs)
  case (Cons y ys)
  then show ?case by (cases y) auto
qed simp

lemma occupied_length: "length (occupied xs) \<le> length xs"
  by (simp add: occupied_def)

lemma occupied_full: "length (occupied xs) = length xs \<longleftrightarrow> None \<notin> set xs"
proof (induction xs)
  case (Cons x xs)
  with occupied_length [of xs] show ?case by (cases x) auto
qed simp

lemma occupied_update:
  assumes "i < length xs"
  shows "occupied (xs[i := y]) = occupied (take i xs) @ occupied [y] @ occupied (drop (Suc i) xs)"
    "occupied xs = occupied (take i xs) @ occupied [xs ! i] @ occupied (drop (Suc i) xs)"
proof -
  show "occupied (xs[i := y]) = occupied (take i xs) @ occupied [y] @ occupied (drop (Suc i) xs)"
    using assms by (simp add: upd_conv_take_nth_drop flip: occupied_simps(4))
  from id_take_nth_drop [OF assms] show
    "occupied xs = occupied (take i xs) @ occupied [xs ! i] @ occupied (drop (Suc i) xs)"
    by (metis append_Cons append_Nil occupied_simps(4))
qed

lemma scan_for_spec:
  "scan_for x xs i = - 1 \<and> x \<notin> set xs
   \<or> (\<exists>k < length xs. scan_for x xs i = int (i + k) \<and> xs ! k = x \<and> x \<notin> set (take k xs))"
proof (induction xs arbitrary: i)
  case (Cons y ys)
  show ?case
  proof (cases "y = x")
    case False
    from Cons.IH [of "Suc i"] show ?thesis
    proof
      assume "\<exists>k < length ys. scan_for x ys (Suc i) = int (Suc i + k) \<and> ys ! k = x \<and> x \<notin> set (take k ys)"
      then obtain k where "k < length ys" "scan_for x ys (Suc i) = int (Suc i + k)" "ys ! k = x"
        "x \<notin> set (take k ys)" by blast
      with False show ?thesis by (intro disjI2 exI [of _ "Suc k"]) auto
    qed (use False in simp)
  qed auto
qed simp

lemma scan_for_sign: "scan_for x xs 0 \<ge> 0 \<longleftrightarrow> x \<in> set xs"
  using scan_for_spec [of x xs 0] by (auto dest: nth_mem)

lemma scan_for_found:
  "x \<in> set xs \<Longrightarrow> nat (scan_for x xs 0) < length xs \<and> xs ! nat (scan_for x xs 0) = x"
  using scan_for_spec [of x xs 0] by auto

lemma tr_contains_iff: "tr_contains c r \<longleftrightarrow> c \<in> set (tr_list r)"
  by (simp add: tr_contains_def tr_index_of_def scan_for_sign tr_list_def occupied_set)
lemma tr_inv_init: "tr_inv (tr_init n)"
  by (simp add: tr_inv_def tr_init_def tr_list_def)

lemma tr_add_spec:
  assumes "tr_inv r" "tr_add c r = (ok, r')"
  shows "tr_inv r'" "tr_capacity r' = tr_capacity r"
    "ok \<longleftrightarrow> c \<in> set (tr_list r) \<or> length (tr_list r) < tr_capacity r"
    "set (tr_list r') = (if ok then insert c (set (tr_list r)) else set (tr_list r))"
proof -
  let ?i = "nat (scan_for None (tr_connections r) 0)"
  have room: "None \<in> set (tr_connections r) \<longleftrightarrow> length (tr_list r) < tr_capacity r"
    using occupied_full [of "tr_connections r"] occupied_length [of "tr_connections r"]
    by (auto simp: tr_list_def)
  consider (known) "c \<in> set (tr_list r)" "ok" "r' = r"
    | (new) "c \<notin> set (tr_list r)" "None \<in> set (tr_connections r)" "ok"
      "r' = r\<lparr>tr_connections := (tr_connections r)[?i := Some c], tr_count := tr_count r + 1\<rparr>"
    | (none) "c \<notin> set (tr_list r)" "None \<notin> set (tr_connections r)" "\<not> ok" "r' = r"
    using assms(2) tr_contains_iff [of c r]
    by (auto simp: tr_add_def tr_contains_def Let_def scan_for_sign split: if_splits)
  then have "tr_inv r' \<and> tr_capacity r' = tr_capacity r
    \<and> (ok \<longleftrightarrow> c \<in> set (tr_list r) \<or> length (tr_list r) < tr_capacity r)
    \<and> set (tr_list r') = (if ok then insert c (set (tr_list r)) else set (tr_list r))"
  proof cases
    case new
    note f = scan_for_found [OF new(2)]
    from f have "occupied ((tr_connections r)[?i := Some c]) =
        occupied (take ?i (tr_connections r)) @ c # occupied (drop (Suc ?i) (tr_connections r))"
      "tr_list r = occupied (take ?i (tr_connections r)) @ occupied (drop (Suc ?i) (tr_connections r))"
      using occupied_update [of ?i "tr_connections r"] by (simp_all add: tr_list_def)
    with new assms(1) room show ?thesis by (auto simp: tr_inv_def tr_list_def)
  qed (use assms(1) room in auto)
  then show "tr_inv r'" "tr_capacity r' = tr_capacity r"
    "ok \<longleftrightarrow> c \<in> set (tr_list r) \<or> length (tr_list r) < tr_capacity r"
    "set (tr_list r') = (if ok then insert c (set (tr_list r)) else set (tr_list r))" by simp_all
qed

lemma tr_vacate_spec:
  assumes "tr_inv r" "i < tr_capacity r" "tr_connections r ! i = Some c"
    "r' = r\<lparr>tr_connections := (tr_connections r)[i := None],
            tr_count := (if tr_count r > 0 then tr_count r - 1 else tr_count r)\<rparr>"
  shows "tr_inv r' \<and> tr_capacity r' = tr_capacity r \<and> tr_list r' = remove1 c (tr_list r)"
proof -
  have "tr_list r' = occupied (take i (tr_connections r)) @ occupied (drop (Suc i) (tr_connections r))"
    "tr_list r = occupied (take i (tr_connections r)) @ c # occupied (drop (Suc i) (tr_connections r))"
    using occupied_update [OF assms(2)] assms(3,4) by (simp_all add: tr_list_def)
  with assms(1,4) show ?thesis by (auto simp: tr_inv_def remove1_append)
qed

lemma tr_remove_spec:
  assumes "tr_inv r" "tr_remove c r = (ok, r')"
  shows "tr_inv r' \<and> tr_capacity r' = tr_capacity r \<and> ok = (c \<in> set (tr_list r))
    \<and> set (tr_list r') = set (tr_list r) - {c}"
proof (cases "c \<in> set (tr_list r)")
  case True
  let ?i = "nat (tr_index_of c r)"
  from True have s: "Some c \<in> set (tr_connections r)" by (simp add: tr_list_def occupied_set)
  then have f: "\<not> tr_index_of c r < 0" "?i < tr_capacity r" "tr_connections r ! ?i = Some c"
    using scan_for_sign [of "Some c" "tr_connections r"] scan_for_found [OF s]
    by (simp_all add: tr_index_of_def)
  with assms(2) have "ok" "r' = r\<lparr>tr_connections := (tr_connections r)[?i := None],
      tr_count := (if tr_count r > 0 then tr_count r - 1 else tr_count r)\<rparr>"
    by (auto simp: tr_remove_def Let_def)
  with tr_vacate_spec [OF assms(1) f(2,3)] True assms(1) show ?thesis
    by (auto simp: tr_inv_def)
next
  case False
  with assms tr_contains_iff [of c r] show ?thesis
    by (auto simp: tr_remove_def tr_contains_def Let_def)
qed

lemma tr_prune_upto:
  assumes "tr_inv r" "n \<le> tr_capacity r" "r' = fold (tr_prune_slot ops w) [0..<n] r"
  shows "tr_inv r' \<and> tr_capacity r' = tr_capacity r
    \<and> drop n (tr_connections r') = drop n (tr_connections r)
    \<and> occupied (take n (tr_connections r')) = filter (\<lambda>c. tc_valid ops c w) (occupied (take n (tr_connections r)))"
  using assms(2) unfolding assms(3)
proof (induction n)
  case 0
  with assms(1) show ?case by simp
next
  case (Suc n)
  let ?r = "fold (tr_prune_slot ops w) [0..<n] r"
  let ?v = "\<lambda>c. tc_valid ops c w"
  from Suc have IH: "tr_inv ?r" "tr_capacity ?r = tr_capacity r"
    "drop n (tr_connections ?r) = drop n (tr_connections r)"
    "occupied (take n (tr_connections ?r)) = filter ?v (occupied (take n (tr_connections r)))" by auto
  from Suc.prems IH(2,3) have nth: "tr_connections ?r ! n = tr_connections r ! n"
    and tl: "drop (Suc n) (tr_connections ?r) = drop (Suc n) (tr_connections r)"
    by (metis Suc_le_eq hd_drop_conv_nth, metis drop_Suc tl_drop)
  from Suc.prems IH(2) have n: "n < tr_capacity ?r" "n < tr_capacity r" by simp_all
  have step: "fold (tr_prune_slot ops w) [0..<Suc n] r = tr_prune_slot ops w n ?r" by simp
  have head: "occupied (take (Suc n) (tr_connections r)) =
      occupied (take n (tr_connections r)) @ occupied [tr_connections r ! n]"
    using n(2) by (simp add: take_Suc_conv_app_nth)
  show ?case
  proof (cases "\<exists>c. tr_connections r ! n = Some c \<and> \<not> ?v c")
    case True
    then obtain c where c: "tr_connections r ! n = Some c" "\<not> ?v c" by blast
    let ?q = "?r\<lparr>tr_connections := (tr_connections ?r)[n := None],
      tr_count := (if tr_count ?r > 0 then tr_count ?r - 1 else tr_count ?r)\<rparr>"
    have q: "tr_prune_slot ops w n ?r = ?q" using c nth by (simp add: tr_prune_slot_def)
    have "tr_inv ?q" using tr_vacate_spec [OF IH(1) n(1) _ refl] c nth by simp
    moreover have "occupied (take (Suc n) (tr_connections ?q)) = occupied (take n (tr_connections ?r))"
      using n(1) by simp
    ultimately show ?thesis unfolding step q using head c IH(2,4) tl n(2) by simp
  next
    case False
    with nth have q: "tr_prune_slot ops w n ?r = ?r"
      by (auto simp: tr_prune_slot_def split: option.splits)
    have "occupied (take (Suc n) (tr_connections ?r)) =
        occupied (take n (tr_connections ?r)) @ occupied [tr_connections r ! n]"
      using n(1) nth by (simp add: take_Suc_conv_app_nth)
    with False show ?thesis unfolding step q using head IH tl
      by (cases "tr_connections r ! n") auto
  qed
qed

lemma tr_prune_spec:
  assumes "tr_inv r"
  shows "tr_inv (tr_prune_invalid ops w r)"
    "tr_list (tr_prune_invalid ops w r) = filter (\<lambda>c. tc_valid ops c w) (tr_list r)"
    "tr_capacity (tr_prune_invalid ops w r) = tr_capacity r"
  using tr_prune_upto [OF assms order_refl refl, of ops w]
    take_all [of "tr_connections (tr_prune_invalid ops w r)" "tr_capacity r"]
  by (auto simp: tr_prune_invalid_def tr_list_def)

lemma tr_for_each_eq:
  "tr_for_each ops callback r w =
    fold (\<lambda>c w. if tc_valid ops c w then callback c w else w) (tr_list r) w"
proof -
  have "tr_for_each_from ops callback slots w =
      fold (\<lambda>c w. if tc_valid ops c w then callback c w else w) (occupied slots) w" for slots
    by (induction ops callback slots w rule: tr_for_each_from.induct) auto
  then show ?thesis by (simp add: tr_for_each_def tr_list_def)
qed

datatype 'w registry_op = Add nat | Remove nat | Prune_Invalid 'w | Clear_All

fun tr_step :: "'w tcp_ops \<Rightarrow> 'w registry_op \<Rightarrow> tcp_registry \<Rightarrow> bool \<times> tcp_registry" where
  "tr_step ops (Add c) r = tr_add c r"
| "tr_step ops (Remove c) r = tr_remove c r"
| "tr_step ops (Prune_Invalid w) r = (True, tr_prune_invalid ops w r)"
| "tr_step ops Clear_All r = (True, tr_clear r)"

text \<open>The operations on a set of at most \<open>n\<close> connections.\<close>

fun set_step :: "'w tcp_ops \<Rightarrow> nat \<Rightarrow> 'w registry_op \<Rightarrow> nat set \<Rightarrow> bool \<times> nat set" where
  "set_step ops n (Add c) S = (if c \<in> S \<or> card S < n then (True, insert c S) else (False, S))"
| "set_step ops n (Remove c) S = (c \<in> S, S - {c})"
| "set_step ops n (Prune_Invalid w) S = (True, {c \<in> S. tc_valid ops c w})"
| "set_step ops n Clear_All S = (True, {})"

lemma tr_card: "tr_inv r \<Longrightarrow> card (set (tr_list r)) = tr_count r"
  by (simp add: tr_inv_def distinct_card)

text \<open>
  C13: the connection registry is a set of at most \<open>MaxConnections\<close> connections: every operation is the
  operation on the set, with the same result; the count is its size, however often a connection was
  added; and the registry is full exactly when no new connection can be added.
\<close>

theorem registry_refines_set:
  assumes "tr_inv r" "tr_step ops p r = (ok, r')"
  shows "set_step ops (tr_capacity r) p (set (tr_list r)) = (ok, set (tr_list r')) \<and> tr_inv r'
    \<and> tr_capacity r' = tr_capacity r \<and> tr_count r' = card (set (tr_list r'))
    \<and> (tr_full r' \<longleftrightarrow> (\<forall>c. tr_contains c r' \<or> \<not> fst (tr_add c r')))"
proof -
  have main: "set_step ops (tr_capacity r) p (set (tr_list r)) = (ok, set (tr_list r')) \<and> tr_inv r'
    \<and> tr_capacity r' = tr_capacity r"
  proof (cases p)
    case (Add c)
    with assms(2) have "tr_add c r = (ok, r')" by simp
    from tr_add_spec [OF assms(1) this] Add tr_card [OF assms(1)] assms(1) show ?thesis
      by (auto simp: tr_inv_def)
  next
    case (Remove c)
    with assms(2) have "tr_remove c r = (ok, r')" by simp
    from tr_remove_spec [OF assms(1) this] Remove show ?thesis by simp
  next
    case (Prune_Invalid w)
    with assms(2) tr_prune_spec [OF assms(1), of ops w] show ?thesis by auto
  next
    case Clear_All
    with assms(2) show ?thesis by (auto simp: tr_clear_def tr_inv_def tr_list_def)
  qed
  have inv: "tr_inv r'" using main by blast
  obtain c where c: "c \<notin> set (tr_list r')" using ex_new_if_finite [OF infinite_UNIV_nat] by blast
  have add: "fst (tr_add d r') \<longleftrightarrow> d \<in> set (tr_list r') \<or> length (tr_list r') < tr_capacity r'" for d
    using tr_add_spec(3) [OF inv] by (metis prod.collapse)
  have "tr_full r' \<longleftrightarrow> (\<forall>c. tr_contains c r' \<or> \<not> fst (tr_add c r'))"
    using c inv by (auto simp: add tr_contains_iff tr_full_def tr_inv_def)
  with main tr_card [OF inv] show ?thesis by simp
qed

lemma registry_refines_set_witness:
  "case tr_step queue_ops (Add 9) (snd (tr_add 5 (tr_init 1))) of (ok, r') \<Rightarrow>
     \<not> ok \<and> set (tr_list r') = {5} \<and> tr_full r'"
proof -
  let ?r = "snd (tr_add 5 (tr_init 1))"
  have r: "tr_inv ?r" "tr_capacity ?r = 1" "set (tr_list ?r) = {5}"
    by (simp_all add: tr_add_def tr_init_def tr_index_of_def tr_inv_def tr_list_def Let_def)
  obtain ok r' where s: "tr_step queue_ops (Add 9) ?r = (ok, r')" by (cases "tr_step queue_ops (Add 9) ?r")
  note ref = registry_refines_set [OF r(1) s]
  with r(2,3) have set: "\<not> ok" "set (tr_list r') = {5}" "tr_capacity r' = 1" by auto
  moreover have "tr_count r' = 1" using ref unfolding set(2) by simp
  ultimately show ?thesis using s by (simp add: tr_full_def)
qed

section \<open>\<open>TcpConnectionByteStream\<close>\<close>

text \<open>A stream over the connection it is bound to; unbound it is neither readable nor writable.\<close>

definition cs_readable :: "'w tcp_ops \<Rightarrow> nat option \<Rightarrow> 'w \<Rightarrow> bool" where
  "cs_readable ops connection w \<longleftrightarrow> (case connection of None \<Rightarrow> False | Some c \<Rightarrow> tc_readable ops c w)"

definition cs_writable :: "'w tcp_ops \<Rightarrow> nat option \<Rightarrow> 'w \<Rightarrow> bool" where
  "cs_writable ops connection w \<longleftrightarrow> (case connection of None \<Rightarrow> False | Some c \<Rightarrow> tc_writable ops c w)"

definition cs_valid :: "'w tcp_ops \<Rightarrow> nat option \<Rightarrow> 'w \<Rightarrow> bool" where
  "cs_valid ops connection w \<longleftrightarrow> (case connection of None \<Rightarrow> False | Some c \<Rightarrow> tc_valid ops c w)"

definition cs_read :: "'w tcp_ops \<Rightarrow> nat option \<Rightarrow> nat \<Rightarrow> 'w \<Rightarrow> int \<times> byte list \<times> 'w" where
  "cs_read ops connection n w = (case connection of None \<Rightarrow> (0, [], w) | Some c \<Rightarrow> tc_read ops c n w)"

definition cs_write :: "'w tcp_ops \<Rightarrow> nat option \<Rightarrow> byte list \<Rightarrow> 'w \<Rightarrow> int \<times> 'w" where
  "cs_write ops connection bytes w = (case connection of None \<Rightarrow> (0, w) | Some c \<Rightarrow> tc_write ops c bytes w)"

definition connection_stream :: "'w tcp_ops \<Rightarrow> nat option \<Rightarrow> 'w byte_stream" where
  "connection_stream ops connection =
     \<lparr>bs_readable = cs_readable ops connection, bs_read = cs_read ops connection\<rparr>"

section \<open>The handlers a TCP server and a TCP client call\<close>

text \<open>
  \<open>ITcpServerHandler\<close> and \<open>ITcpClientHandler\<close> over the whole state \<open>'s\<close> of a program. A callback may
  use the connection, the server and everything else; one that does not return is \<open>None\<close>.
\<close>

record 's tcp_server_handler =
  sh_on_accept :: "nat \<Rightarrow> tcp_peer_info \<Rightarrow> 's \<Rightarrow> 's option"
  sh_on_data :: "nat \<Rightarrow> 's \<Rightarrow> 's option"
  sh_on_write_ready :: "nat \<Rightarrow> 's \<Rightarrow> 's option"
  sh_on_close :: "nat \<Rightarrow> 's \<Rightarrow> 's option"
  sh_on_error :: "nat \<Rightarrow> int \<Rightarrow> 's \<Rightarrow> 's option"
  sh_on_listener_error :: "int \<Rightarrow> 's \<Rightarrow> 's option"

definition server_handler_default :: "'s tcp_server_handler" where
  "server_handler_default =
     \<lparr>sh_on_accept = (\<lambda>c peer s. Some s), sh_on_data = (\<lambda>c s. Some s), sh_on_write_ready = (\<lambda>c s. Some s),
      sh_on_close = (\<lambda>c s. Some s), sh_on_error = (\<lambda>c code s. Some s), sh_on_listener_error = (\<lambda>code s. Some s)\<rparr>"

record 's tcp_client_handler =
  kh_on_connect :: "tcp_peer_info \<Rightarrow> 's \<Rightarrow> 's option"
  kh_on_data :: "'s \<Rightarrow> 's option"
  kh_on_write_ready :: "'s \<Rightarrow> 's option"
  kh_on_close :: "'s \<Rightarrow> 's option"
  kh_on_error :: "int \<Rightarrow> 's \<Rightarrow> 's option"

definition client_handler_default :: "'s tcp_client_handler" where
  "client_handler_default =
     \<lparr>kh_on_connect = (\<lambda>peer s. Some s), kh_on_data = Some, kh_on_write_ready = Some, kh_on_close = Some,
      kh_on_error = (\<lambda>code s. Some s)\<rparr>"

end
