(* ===== verification/Tcp_Line.thy ===== *)
theory Tcp_Line
  imports Tcp Line_Reader
begin

text \<open>
  The line protocol over TCP of \<^verbatim>\<open>src/async_event_loop/tcp_line_protocol.hpp\<close>: the write helpers,
  the server-side handler with one slot (stream, backpressure monitor, line reader) per connection,
  and the client-side handler. The application's handler is a record of callbacks on the outside
  state; it may read from, write to and close connections, and it does not call back into the
  handler that calls it.
\<close>

section \<open>Helpers\<close>

text \<open>A C string is the bytes before the first zero; a null pointer is \<open>None\<close>.\<close>

definition c_string :: "byte list \<Rightarrow> byte list" where
  "c_string bytes = takeWhile (\<lambda>b. b \<noteq> 0) bytes"

definition line_equals :: "byte list \<Rightarrow> byte list option \<Rightarrow> bool" where
  "line_equals line text_opt =
     (case text_opt of
        None \<Rightarrow> length line = 0
      | Some t \<Rightarrow> length line = length (c_string t) \<and> line = take (length (c_string t)) t)"

text \<open>The array \<open>dst\<close> after \<open>line_to_cstr\<close>; its length is \<open>Capacity\<close>.\<close>

definition line_to_cstr :: "byte list \<Rightarrow> byte list \<Rightarrow> byte list" where
  "line_to_cstr line dst =
     (if length dst = 0 then dst
      else let n = (if length line \<ge> length dst then length dst - 1 else length line)
           in (take n line @ drop n dst)[n := 0])"

lemma line_to_cstr_string:
  assumes "0 < length dst" "0 \<notin> set line"
  shows "length (line_to_cstr line dst) = length dst"
    and "c_string (line_to_cstr line dst) = take (length dst - 1) line"
proof -
  let ?n = "if length line \<ge> length dst then length dst - 1 else length line"
  have n: "?n < length dst" "?n \<le> length line" "take ?n line = take (length dst - 1) line"
    using assms(1) by (auto simp: take_all)
  then show "length (line_to_cstr line dst) = length dst"
    using assms(1) by (cases dst) (auto simp: line_to_cstr_def Let_def min_def)
  have "(take ?n line @ drop ?n dst)[?n := 0] = take ?n line @ 0 # drop (Suc ?n) dst"
    using n(1,2) by (simp add: list_update_append Cons_nth_drop_Suc [symmetric])
  moreover have "\<forall>b \<in> set (take ?n line). b \<noteq> 0"
    using assms(2) by (metis in_set_takeD)
  ultimately show "c_string (line_to_cstr line dst) = take (length dst - 1) line"
    using assms(1) n(3) by (simp add: line_to_cstr_def c_string_def Let_def takeWhile_append2)
qed

definition tcp_write_text :: "'w tcp_ops \<Rightarrow> nat \<Rightarrow> byte list option \<Rightarrow> 'w \<Rightarrow> int \<times> 'w" where
  "tcp_write_text ops c text_opt w =
     (case text_opt of None \<Rightarrow> (0, w) | Some t \<Rightarrow> tc_write ops c (c_string t) w)"

definition tcp_write_newline :: "'w tcp_ops \<Rightarrow> nat \<Rightarrow> 'w \<Rightarrow> int \<times> 'w" where
  "tcp_write_newline ops c w = tc_write ops c [chr_lf] w"

text \<open>The two overloads of \<open>tcp_write_line\<close>: on a \<open>LineView\<close> and on a C string.\<close>

definition tcp_write_line :: "'w tcp_ops \<Rightarrow> nat \<Rightarrow> byte list \<Rightarrow> 'w \<Rightarrow> bool \<times> 'w" where
  "tcp_write_line ops c line w =
     (let (body, w1) = (if length line = 0 then (0, w) else tc_write ops c line w)
      in if body < 0 \<or> body \<noteq> int (length line) then (False, w1)
         else let (n, w2) = tcp_write_newline ops c w1 in (n = 1, w2))"

definition tcp_write_line_text :: "'w tcp_ops \<Rightarrow> nat \<Rightarrow> byte list option \<Rightarrow> 'w \<Rightarrow> bool \<times> 'w" where
  "tcp_write_line_text ops c text_opt w =
     (let (body, w1) = tcp_write_text ops c text_opt w
      in if body < 0 then (False, w1)
         else let (n, w2) = tcp_write_newline ops c w1 in (n = 1, w2))"

section \<open>The server-side handler\<close>

record 'w line_handler =
  lh_on_accept :: "nat \<Rightarrow> tcp_peer_info \<Rightarrow> 'w \<Rightarrow> 'w"
  lh_on_line :: "nat \<Rightarrow> byte list \<Rightarrow> 'w \<Rightarrow> 'w"
  lh_on_close :: "nat \<Rightarrow> 'w \<Rightarrow> 'w"
  lh_on_error :: "nat \<Rightarrow> int \<Rightarrow> 'w \<Rightarrow> 'w"
  lh_on_listener_error :: "int \<Rightarrow> 'w \<Rightarrow> 'w"
  lh_on_too_many_connections :: "nat \<Rightarrow> 'w \<Rightarrow> 'w"
  lh_on_backpressure :: "nat \<Rightarrow> bp_info \<Rightarrow> 'w \<Rightarrow> 'w"

text \<open>The callbacks an application does not override; \<open>on_line\<close> has no default.\<close>

definition line_handler_default :: "'w tcp_ops \<Rightarrow> (nat \<Rightarrow> byte list \<Rightarrow> 'w \<Rightarrow> 'w) \<Rightarrow> 'w line_handler" where
  "line_handler_default ops on_line =
     \<lparr>lh_on_accept = (\<lambda>c peer w. w), lh_on_line = on_line, lh_on_close = (\<lambda>c w. w),
      lh_on_error = (\<lambda>c code w. w), lh_on_listener_error = (\<lambda>code w. w),
      lh_on_too_many_connections = (\<lambda>c w. tc_close ops c w), lh_on_backpressure = (\<lambda>c info w. w)\<rparr>"

record line_slot =
  sl_connection :: "nat option"
  sl_backpressure :: bp_monitor
  sl_reader :: line_reader

record line_server =
  ls_backpressure :: bp_options
  ls_slots :: "line_slot list"

definition ls_init :: "nat \<Rightarrow> nat \<Rightarrow> bp_options \<Rightarrow> line_server" where
  "ls_init buffer_size max_connections opts =
     \<lparr>ls_backpressure = opts,
      ls_slots = replicate max_connections
        \<lparr>sl_connection = None, sl_backpressure = bm_configure opts (bm_init bp_disabled),
         sl_reader = line_init buffer_size\<rparr>\<rparr>"

definition ls_set_slot :: "nat \<Rightarrow> line_slot \<Rightarrow> line_server \<Rightarrow> line_server" where
  "ls_set_slot i sl s = s\<lparr>ls_slots := (ls_slots s)[i := sl]\<rparr>"

fun first_slot :: "('a \<Rightarrow> bool) \<Rightarrow> 'a list \<Rightarrow> nat option" where
  "first_slot P [] = None"
| "first_slot P (x # xs) = (if P x then Some 0 else map_option Suc (first_slot P xs))"

definition ls_find :: "nat \<Rightarrow> line_server \<Rightarrow> nat option" where
  "ls_find c s = first_slot (\<lambda>sl. sl_connection sl = Some c) (ls_slots s)"

definition ls_acquire :: "nat \<Rightarrow> line_server \<Rightarrow> nat option \<times> line_server" where
  "ls_acquire c s =
     (case ls_find c s of
        Some i \<Rightarrow> (Some i, s)
      | None \<Rightarrow>
          (case first_slot (\<lambda>sl. sl_connection sl = None) (ls_slots s) of
             Some i \<Rightarrow>
               let sl = ls_slots s ! i
               in (Some i, ls_set_slot i
                     (sl\<lparr>sl_connection := Some c, sl_backpressure := bm_reset (sl_backpressure sl)\<rparr>) s)
           | None \<Rightarrow> (None, s)))"

definition sl_vacate :: "line_slot \<Rightarrow> line_slot" where
  "sl_vacate sl = sl\<lparr>sl_backpressure := bm_reset (sl_backpressure sl), sl_connection := None\<rparr>"

definition ls_release :: "nat \<Rightarrow> line_server \<Rightarrow> line_server" where
  "ls_release c s =
     (case ls_find c s of None \<Rightarrow> s | Some i \<Rightarrow> ls_set_slot i (sl_vacate (ls_slots s ! i)) s)"

text \<open>\<open>handle_line\<close>: what a slot's line reader calls with a completed line.\<close>

definition handle_line ::
  "'w tcp_ops \<Rightarrow> (nat \<Rightarrow> byte list \<Rightarrow> 'w \<Rightarrow> 'w) \<Rightarrow> nat option \<Rightarrow> byte list \<Rightarrow> 'w \<Rightarrow> 'w" where
  "handle_line ops on_line connection line w =
     (case connection of
        None \<Rightarrow> w
      | Some c \<Rightarrow> if tc_valid ops c w then on_line c line w else w)"

definition ls_check_backpressure ::
  "'w tcp_ops \<Rightarrow> 'w line_handler \<Rightarrow> nat \<Rightarrow> line_server \<times> 'w \<Rightarrow> line_server \<times> 'w" where
  "ls_check_backpressure ops h i sw =
     (case sw of (s, w) \<Rightarrow>
        let sl = ls_slots s ! i
        in case sl_connection sl of
             None \<Rightarrow> (s, w)
           | Some c \<Rightarrow>
               if \<not> tc_valid ops c w then (s, w)
               else case bm_check ops c w (sl_backpressure sl) of (fires, info, m) \<Rightarrow>
                 let sl1 = sl\<lparr>sl_backpressure := m\<rparr>
                 in if \<not> fires then (ls_set_slot i sl1 s, w)
                    else let w1 = lh_on_backpressure h c info w;
                             w2 = (if bo_close_on_limit (ls_backpressure s) \<and> tc_valid ops c w1
                                   then tc_close ops c w1 else w1)
                         in (ls_set_slot i (if \<not> tc_valid ops c w2 then sl_vacate sl1 else sl1) s, w2))"

definition ls_check_all_backpressure ::
  "'w tcp_ops \<Rightarrow> 'w line_handler \<Rightarrow> line_server \<times> 'w \<Rightarrow> line_server \<times> 'w" where
  "ls_check_all_backpressure ops h sw =
     fold (ls_check_backpressure ops h) [0..<length (ls_slots (fst sw))] sw"

definition ls_poll_slot ::
  "'w tcp_ops \<Rightarrow> 'w line_handler \<Rightarrow> nat \<Rightarrow> line_server \<times> 'w \<Rightarrow> (line_server \<times> 'w) option" where
  "ls_poll_slot ops h i sw =
     (case sw of (s, w) \<Rightarrow>
        let sl = ls_slots s ! i
        in map_option (\<lambda>(r, w'). (ls_set_slot i (sl\<lparr>sl_reader := r\<rparr>) s, w'))
             (line_poll (connection_stream ops (sl_connection sl)) line_options_default
                (handle_line ops (lh_on_line h) (sl_connection sl)) (sl_reader sl, w)))"

definition ls_on_accept ::
  "'w tcp_ops \<Rightarrow> 'w line_handler \<Rightarrow> nat \<Rightarrow> tcp_peer_info \<Rightarrow> line_server \<times> 'w \<Rightarrow> line_server \<times> 'w" where
  "ls_on_accept ops h c peer sw =
     (case sw of (s, w) \<Rightarrow>
        case ls_acquire c s of
          (None, s1) \<Rightarrow> (s1, lh_on_too_many_connections h c w)
        | (Some i, s1) \<Rightarrow>
            let sl = ls_slots s1 ! i
            in (ls_set_slot i (sl\<lparr>sl_backpressure := bm_reset (sl_backpressure sl)\<rparr>) s1,
                lh_on_accept h c peer w))"

definition ls_on_data ::
  "'w tcp_ops \<Rightarrow> 'w line_handler \<Rightarrow> nat \<Rightarrow> line_server \<times> 'w \<Rightarrow> (line_server \<times> 'w) option" where
  "ls_on_data ops h c sw =
     (case sw of (s, w) \<Rightarrow>
        case ls_acquire c s of
          (None, s1) \<Rightarrow> Some (s1, lh_on_too_many_connections h c w)
        | (Some i, s1) \<Rightarrow>
            map_option (ls_check_all_backpressure ops h) (ls_poll_slot ops h i (s1, w)))"

definition ls_on_write_ready ::
  "'w tcp_ops \<Rightarrow> 'w line_handler \<Rightarrow> nat \<Rightarrow> line_server \<times> 'w \<Rightarrow> line_server \<times> 'w" where
  "ls_on_write_ready ops h c sw =
     (case ls_find c (fst sw) of None \<Rightarrow> sw | Some i \<Rightarrow> ls_check_backpressure ops h i sw)"

definition ls_on_close :: "'w line_handler \<Rightarrow> nat \<Rightarrow> line_server \<times> 'w \<Rightarrow> line_server \<times> 'w" where
  "ls_on_close h c sw = (case sw of (s, w) \<Rightarrow> (ls_release c s, lh_on_close h c w))"

definition ls_on_error :: "'w line_handler \<Rightarrow> nat \<Rightarrow> int \<Rightarrow> line_server \<times> 'w \<Rightarrow> line_server \<times> 'w" where
  "ls_on_error h c code sw = (case sw of (s, w) \<Rightarrow> (ls_release c s, lh_on_error h c code w))"

definition ls_on_listener_error :: "'w line_handler \<Rightarrow> int \<Rightarrow> line_server \<times> 'w \<Rightarrow> line_server \<times> 'w" where
  "ls_on_listener_error h code sw = (case sw of (s, w) \<Rightarrow> (s, lh_on_listener_error h code w))"

definition ls_active_connections :: "line_server \<Rightarrow> nat" where
  "ls_active_connections s = length (filter (\<lambda>sl. sl_connection sl \<noteq> None) (ls_slots s))"

section \<open>The client-side handler\<close>

record 'w line_client_handler =
  ch_on_connect :: "nat \<Rightarrow> tcp_peer_info \<Rightarrow> 'w \<Rightarrow> 'w"
  ch_on_line :: "nat \<Rightarrow> byte list \<Rightarrow> 'w \<Rightarrow> 'w"
  ch_on_close :: "nat \<Rightarrow> 'w \<Rightarrow> 'w"
  ch_on_error :: "int \<Rightarrow> 'w \<Rightarrow> 'w"

record line_client =
  lc_connection :: "nat option"
  lc_reader :: line_reader

definition lc_init :: "nat \<Rightarrow> line_client" where
  "lc_init buffer_size = \<lparr>lc_connection = None, lc_reader = line_init buffer_size\<rparr>"

definition lc_on_connect ::
  "'w line_client_handler \<Rightarrow> nat \<Rightarrow> tcp_peer_info \<Rightarrow> line_client \<times> 'w \<Rightarrow> line_client \<times> 'w" where
  "lc_on_connect h c peer sw =
     (case sw of (s, w) \<Rightarrow> (s\<lparr>lc_connection := Some c\<rparr>, ch_on_connect h c peer w))"

definition lc_on_data ::
  "'w tcp_ops \<Rightarrow> 'w line_client_handler \<Rightarrow> nat \<Rightarrow> line_client \<times> 'w \<Rightarrow> (line_client \<times> 'w) option" where
  "lc_on_data ops h c sw =
     (case sw of (s, w) \<Rightarrow>
        map_option (\<lambda>(r, w'). (s\<lparr>lc_reader := r\<rparr>, w'))
          (line_poll (connection_stream ops (lc_connection s)) line_options_default
             (handle_line ops (ch_on_line h) (lc_connection s)) (lc_reader s, w)))"

definition lc_on_close :: "'w line_client_handler \<Rightarrow> nat \<Rightarrow> line_client \<times> 'w \<Rightarrow> line_client \<times> 'w" where
  "lc_on_close h c sw = (case sw of (s, w) \<Rightarrow> (s\<lparr>lc_connection := None\<rparr>, ch_on_close h c w))"

definition lc_on_error :: "'w line_client_handler \<Rightarrow> int \<Rightarrow> line_client \<times> 'w \<Rightarrow> line_client \<times> 'w" where
  "lc_on_error h code sw = (case sw of (s, w) \<Rightarrow> (s\<lparr>lc_connection := None\<rparr>, ch_on_error h code w))"


section \<open>Slots\<close>

lemma first_slot_None: "first_slot P xs = None \<longleftrightarrow> (\<forall>i < length xs. \<not> P (xs ! i))"
  by (induction xs) (auto simp: All_less_Suc2)

lemma first_slot_Some:
  "first_slot P xs = Some i \<longleftrightarrow> i < length xs \<and> P (xs ! i) \<and> (\<forall>j < i. \<not> P (xs ! j))"
proof (induction xs arbitrary: i)
  case (Cons x xs)
  then show ?case by (cases i) (auto simp: nth_Cons' less_Suc_eq_0_disj)
qed simp

text \<open>The connections bound to slots, and the invariant of the handler.\<close>

definition ls_bound :: "line_server \<Rightarrow> nat set" where
  "ls_bound s = set (occupied (map sl_connection (ls_slots s)))"

definition slot_ok :: "nat \<Rightarrow> bp_options \<Rightarrow> line_slot \<Rightarrow> bool" where
  "slot_ok n opts sl \<longleftrightarrow> line_inv (sl_reader sl) \<and> line_capacity (sl_reader sl) = n
     \<and> bm_options (sl_backpressure sl) = opts"

definition ls_inv :: "nat \<Rightarrow> line_server \<Rightarrow> bool" where
  "ls_inv n s \<longleftrightarrow> distinct (occupied (map sl_connection (ls_slots s)))
     \<and> (\<forall>sl \<in> set (ls_slots s). slot_ok n (ls_backpressure s) sl)"

lemma bm_reset_simps [simp]:
  "bm_options (bm_reset m) = bm_options m" "bm_over_high_polls (bm_reset m) = 0"
  "\<not> bm_reported (bm_reset m)"
  by (simp_all add: bm_reset_def)

lemma bm_check_options: "bm_check ops c w m = (b, info, m') \<Longrightarrow> bm_options m' = bm_options m"
  by (auto simp: bm_check_def bm_count_def Let_def split: if_splits)

lemma bm_check_disabled:
  "\<not> bo_enabled (bm_options m) \<Longrightarrow> \<exists>info. bm_check ops c w m = (False, info, m)"
  by (simp add: bm_check_def)

lemma ls_inv_init: "ls_inv n (ls_init n k opts) \<and> ls_bound (ls_init n k opts) = {}"
  by (auto simp: ls_inv_def ls_bound_def ls_init_def slot_ok_def bm_configure_def)

lemma ls_set_slot_simps [simp]:
  "length (ls_slots (ls_set_slot i sl s)) = length (ls_slots s)"
  "ls_backpressure (ls_set_slot i sl s) = ls_backpressure s"
  "i < length (ls_slots s) \<Longrightarrow> ls_slots (ls_set_slot i sl s) ! i = sl"
  "j \<noteq> i \<Longrightarrow> ls_slots (ls_set_slot i sl s) ! j = ls_slots s ! j"
  by (simp_all add: ls_set_slot_def)

lemma ls_bound_iff: "c \<in> ls_bound s \<longleftrightarrow> (\<exists>i < length (ls_slots s). sl_connection (ls_slots s ! i) = Some c)"
proof -
  have "c \<in> ls_bound s \<longleftrightarrow> Some c \<in> set (map sl_connection (ls_slots s))"
    by (simp only: ls_bound_def occupied_set mem_Collect_eq)
  then show ?thesis by (simp only: in_set_conv_nth length_map) (auto simp: nth_map)
qed

text \<open>Every change of a slot is one of these: its connection stays, is new, or goes.\<close>

lemma ls_set_slot_spec:
  assumes "ls_inv n s" "i < length (ls_slots s)" "slot_ok n (ls_backpressure s) sl"
  shows "sl_connection sl = sl_connection (ls_slots s ! i) \<Longrightarrow>
      ls_inv n (ls_set_slot i sl s) \<and> ls_bound (ls_set_slot i sl s) = ls_bound s"
    and "sl_connection (ls_slots s ! i) = None \<Longrightarrow> sl_connection sl = Some c \<Longrightarrow> c \<notin> ls_bound s \<Longrightarrow>
      ls_inv n (ls_set_slot i sl s) \<and> ls_bound (ls_set_slot i sl s) = insert c (ls_bound s)"
    and "sl_connection (ls_slots s ! i) = Some c \<Longrightarrow> sl_connection sl = None \<Longrightarrow>
      ls_inv n (ls_set_slot i sl s) \<and> ls_bound (ls_set_slot i sl s) = ls_bound s - {c}"
proof -
  let ?cs = "map sl_connection (ls_slots s)"
  have i: "i < length ?cs" using assms(2) by simp
  have ok: "\<forall>x \<in> set ((ls_slots s)[i := sl]). slot_ok n (ls_backpressure s) x"
    using assms by (auto simp: ls_inv_def dest!: set_update_subset_insert [THEN subsetD])
  have upd: "map sl_connection (ls_slots (ls_set_slot i sl s)) = ?cs[i := sl_connection sl]"
    by (simp add: ls_set_slot_def map_update)
  note occ = occupied_update(1) [OF i, of "sl_connection sl"] occupied_update(2) [OF i]
  have inv: "ls_inv n (ls_set_slot i sl s) \<longleftrightarrow> distinct (occupied (?cs[i := sl_connection sl]))"
    using ok by (simp add: ls_inv_def upd) (simp add: ls_set_slot_def)
  have d: "distinct (occupied ?cs)" using assms(1) by (simp add: ls_inv_def)
  show "ls_inv n (ls_set_slot i sl s) \<and> ls_bound (ls_set_slot i sl s) = ls_bound s"
    if "sl_connection sl = sl_connection (ls_slots s ! i)"
    using that assms(2) d unfolding inv ls_bound_def upd by (simp flip: map_update)
  show "ls_inv n (ls_set_slot i sl s) \<and> ls_bound (ls_set_slot i sl s) = insert c (ls_bound s)"
    if "sl_connection (ls_slots s ! i) = None" "sl_connection sl = Some c" "c \<notin> ls_bound s"
    using that assms(2) d unfolding inv ls_bound_def upd occ by auto
  show "ls_inv n (ls_set_slot i sl s) \<and> ls_bound (ls_set_slot i sl s) = ls_bound s - {c}"
    if "sl_connection (ls_slots s ! i) = Some c" "sl_connection sl = None"
    using that assms(2) d unfolding inv ls_bound_def upd occ by auto
qed


section \<open>The operations on slots\<close>

lemma slot_ok_nth: "ls_inv n s \<Longrightarrow> i < length (ls_slots s) \<Longrightarrow> slot_ok n (ls_backpressure s) (ls_slots s ! i)"
  by (simp add: ls_inv_def)

lemma ls_find_spec:
  "ls_find c s = None \<longleftrightarrow> c \<notin> ls_bound s"
  "ls_find c s = Some i \<Longrightarrow> i < length (ls_slots s) \<and> sl_connection (ls_slots s ! i) = Some c"
proof -
  show "ls_find c s = None \<longleftrightarrow> c \<notin> ls_bound s"
    by (auto simp: ls_find_def first_slot_None ls_bound_iff)
  show "ls_find c s = Some i \<Longrightarrow> i < length (ls_slots s) \<and> sl_connection (ls_slots s ! i) = Some c"
    by (simp add: ls_find_def first_slot_Some)
qed

lemma ls_acquire_spec:
  assumes "ls_inv n s" "ls_acquire c s = (slot, s')"
  shows "ls_inv n s' \<and> length (ls_slots s') = length (ls_slots s) \<and> ls_backpressure s' = ls_backpressure s
    \<and> (case slot of
         None \<Rightarrow> s' = s \<and> c \<notin> ls_bound s \<and> (\<forall>i < length (ls_slots s). sl_connection (ls_slots s ! i) \<noteq> None)
       | Some i \<Rightarrow> i < length (ls_slots s) \<and> sl_connection (ls_slots s' ! i) = Some c
           \<and> sl_reader (ls_slots s' ! i) = sl_reader (ls_slots s ! i)
           \<and> ls_bound s' = insert c (ls_bound s) \<and> (\<forall>j. j \<noteq> i \<longrightarrow> ls_slots s' ! j = ls_slots s ! j))"
proof (cases "ls_find c s")
  case (Some i)
  with assms ls_find_spec(2) [OF Some] ls_find_spec(1) [of c s] show ?thesis
    by (auto simp: ls_acquire_def)
next
  case None
  then have c: "c \<notin> ls_bound s" by (simp add: ls_find_spec(1))
  show ?thesis
  proof (cases "first_slot (\<lambda>sl. sl_connection sl = None) (ls_slots s)")
    case None
    with assms \<open>ls_find c s = None\<close> c show ?thesis
      by (auto simp: ls_acquire_def first_slot_None)
  next
    case (Some i)
    then have i: "i < length (ls_slots s)" "sl_connection (ls_slots s ! i) = None"
      by (simp_all add: first_slot_Some)
    let ?sl = "(ls_slots s ! i)\<lparr>sl_connection := Some c,
      sl_backpressure := bm_reset (sl_backpressure (ls_slots s ! i))\<rparr>"
    have "slot_ok n (ls_backpressure s) ?sl"
      using slot_ok_nth [OF assms(1) i(1)] by (simp add: slot_ok_def)
    from ls_set_slot_spec(2) [OF assms(1) i(1) this i(2) _ c]
    have "ls_inv n (ls_set_slot i ?sl s)" "ls_bound (ls_set_slot i ?sl s) = insert c (ls_bound s)" by simp_all
    moreover from assms(2) \<open>ls_find c s = None\<close> Some have "slot = Some i" "s' = ls_set_slot i ?sl s"
      by (simp_all add: ls_acquire_def Let_def)
    ultimately show ?thesis using i by simp
  qed
qed

lemma ls_vacate_spec:
  assumes "ls_inv n s" "i < length (ls_slots s)" "sl_connection (ls_slots s ! i) = Some c"
    "slot_ok n (ls_backpressure s) sl"
  shows "ls_inv n (ls_set_slot i (sl_vacate sl) s) \<and> ls_bound (ls_set_slot i (sl_vacate sl) s) = ls_bound s - {c}"
  using ls_set_slot_spec(3) [OF assms(1,2), of "sl_vacate sl" c] assms(3,4)
  by (simp add: sl_vacate_def slot_ok_def)

lemma ls_release_spec:
  assumes "ls_inv n s"
  shows "ls_inv n (ls_release c s) \<and> ls_bound (ls_release c s) = ls_bound s - {c}
    \<and> length (ls_slots (ls_release c s)) = length (ls_slots s)
    \<and> ls_backpressure (ls_release c s) = ls_backpressure s
    \<and> map sl_reader (ls_slots (ls_release c s)) = map sl_reader (ls_slots s)"
proof (cases "ls_find c s")
  case None
  with assms ls_find_spec(1) [of c s] show ?thesis by (simp add: ls_release_def)
next
  case (Some i)
  note i = ls_find_spec(2) [OF this]
  have "map sl_reader (ls_slots (ls_set_slot i (sl_vacate (ls_slots s ! i)) s)) = map sl_reader (ls_slots s)"
    using i by (simp add: ls_set_slot_def map_update sl_vacate_def) (metis list_update_id map_update nth_map)
  with ls_vacate_spec [OF assms _ _ slot_ok_nth [OF assms], of i c i] i Some show ?thesis
    by (simp add: ls_release_def)
qed

lemma ls_check_backpressure_spec:
  assumes "ls_inv n s" "i < length (ls_slots s)" "ls_check_backpressure ops h i (s, w) = (s', w')"
  shows "ls_inv n s' \<and> length (ls_slots s') = length (ls_slots s) \<and> ls_backpressure s' = ls_backpressure s
    \<and> (ls_bound s' = ls_bound s \<or> (\<exists>c. sl_connection (ls_slots s ! i) = Some c
          \<and> ls_bound s' = ls_bound s - {c} \<and> \<not> tc_valid ops c w'))
    \<and> (\<not> bo_enabled (ls_backpressure s) \<longrightarrow> s' = s \<and> w' = w)"
proof -
  let ?sl = "ls_slots s ! i"
  note ok = slot_ok_nth [OF assms(1,2)]
  consider (idle) "s' = s" "w' = w"
    | (live) c where "sl_connection ?sl = Some c" "tc_valid ops c w"
    using assms(3) by (auto simp: ls_check_backpressure_def Let_def split: option.splits if_splits)
  then show ?thesis
  proof cases
    case idle
    with assms(1) show ?thesis by simp
  next
    case live
    obtain fires info m where chk: "bm_check ops c w (sl_backpressure ?sl) = (fires, info, m)"
      by (metis prod_cases3)
    let ?sl1 = "?sl\<lparr>sl_backpressure := m\<rparr>"
    have ok1: "slot_ok n (ls_backpressure s) ?sl1"
      using ok bm_check_options [OF chk] by (simp add: slot_ok_def)
    have keep: "ls_inv n (ls_set_slot i ?sl1 s) \<and> ls_bound (ls_set_slot i ?sl1 s) = ls_bound s"
      using ls_set_slot_spec(1) [OF assms(1,2) ok1] by simp
    note go = ls_vacate_spec [OF assms(1,2) live(1) ok1]
    have off: "\<not> fires \<and> ls_set_slot i ?sl1 s = s" if "\<not> bo_enabled (ls_backpressure s)"
      using that bm_check_disabled [of "sl_backpressure ?sl" ops c w] chk ok
      by (auto simp: slot_ok_def ls_set_slot_def)
    show ?thesis
      using assms(3) live chk keep go off
      by (auto simp: ls_check_backpressure_def Let_def split: if_splits)
  qed
qed

lemma ls_check_fold_spec:
  assumes "ls_inv n s" "fold (ls_check_backpressure ops h) is (s, w) = (s', w')"
    "\<forall>i \<in> set is. i < length (ls_slots s)"
  shows "ls_inv n s' \<and> length (ls_slots s') = length (ls_slots s) \<and> ls_backpressure s' = ls_backpressure s
    \<and> ls_bound s' \<subseteq> ls_bound s \<and> (\<not> bo_enabled (ls_backpressure s) \<longrightarrow> s' = s \<and> w' = w)"
  using assms
proof (induction "is" arbitrary: s w)
  case Nil
  then show ?case by simp
next
  case (Cons i "is")
  obtain s1 w1 where c: "ls_check_backpressure ops h i (s, w) = (s1, w1)" by fastforce
  from Cons.prems(3) have i: "i < length (ls_slots s)" by simp
  note one = ls_check_backpressure_spec [OF Cons.prems(1) i c]
  from Cons.IH [of s1 w1] one Cons.prems(2,3) c show ?case by auto
qed

lemma ls_check_all_spec:
  assumes "ls_inv n s" "ls_check_all_backpressure ops h (s, w) = (s', w')"
  shows "ls_inv n s' \<and> length (ls_slots s') = length (ls_slots s) \<and> ls_backpressure s' = ls_backpressure s
    \<and> ls_bound s' \<subseteq> ls_bound s \<and> (\<not> bo_enabled (ls_backpressure s) \<longrightarrow> s' = s \<and> w' = w)"
  using assms by (intro ls_check_fold_spec) (auto simp: ls_check_all_backpressure_def)

lemma line_byte_inv:
  assumes "line_inv r"
  shows "line_inv (fst (line_byte opts c r)) \<and> line_capacity (fst (line_byte opts c r)) = line_capacity r"
proof -
  consider "c = lo_delimiter opts" | "c \<noteq> lo_delimiter opts" "lr_size r < line_capacity r"
    | "c \<noteq> lo_delimiter opts" "lr_size r = line_capacity r"
    using assms by (auto simp: line_inv_def le_less)
  then show ?thesis
  proof cases
    case 1
    with assms line_byte_delimiter [OF assms, of opts] show ?thesis by (simp add: line_inv_def)
  next
    case 2
    from line_byte_room [OF assms this] show ?thesis by auto
  next
    case 3
    from line_byte_full [OF assms this] show ?thesis by auto
  qed
qed

lemma line_poll_inv:
  assumes "line_poll st opts cb (r, w) = Some (r', w')" "line_inv r"
  shows "line_inv r' \<and> line_capacity r' = line_capacity r"
proof -
  let ?P = "\<lambda>q. line_inv q \<and> line_capacity q = line_capacity r"
  have "?P (fst (r', w'))"
  proof (rule poll_loop_invariant [of st "reader_step (line_byte opts) cb" "(r, w)"])
    show "poll_loop st (reader_step (line_byte opts) cb) (r, w) = Some (r', w')"
      using assms(1) by (simp add: line_poll_def)
  next
    fix b q x assume "?P q"
    then show "?P (fst (reader_step (line_byte opts) cb b (q, x)))"
      using line_byte_inv [of q opts b] by (simp add: reader_step_def split_beta)
  qed (use assms(2) in simp)
  then show ?thesis by simp
qed

lemma ls_poll_slot_spec:
  assumes "ls_inv n s" "i < length (ls_slots s)" "ls_poll_slot ops h i (s, w) = Some (s', w')"
  shows "ls_inv n s' \<and> length (ls_slots s') = length (ls_slots s) \<and> ls_backpressure s' = ls_backpressure s
    \<and> ls_bound s' = ls_bound s"
proof -
  let ?sl = "ls_slots s ! i"
  from assms(3) obtain r where p: "line_poll (connection_stream ops (sl_connection ?sl)) line_options_default
      (handle_line ops (lh_on_line h) (sl_connection ?sl)) (sl_reader ?sl, w) = Some (r, w')"
    and s': "s' = ls_set_slot i (?sl\<lparr>sl_reader := r\<rparr>) s"
    by (auto simp: ls_poll_slot_def Let_def)
  have "slot_ok n (ls_backpressure s) (?sl\<lparr>sl_reader := r\<rparr>)"
    using slot_ok_nth [OF assms(1,2)] line_poll_inv [OF p] by (simp add: slot_ok_def)
  from ls_set_slot_spec(1) [OF assms(1,2) this] show ?thesis by (simp add: s')
qed

section \<open>Events\<close>

text \<open>What a TCP server calls on its handler, as one operation per event.\<close>

datatype tcp_event =
    Ev_Accept nat tcp_peer_info | Ev_Data nat | Ev_Write_Ready nat | Ev_Close nat | Ev_Error nat int
  | Ev_Listener_Error int

fun ls_event :: "'w tcp_ops \<Rightarrow> 'w line_handler \<Rightarrow> tcp_event \<Rightarrow> line_server \<times> 'w \<Rightarrow> (line_server \<times> 'w) option" where
  "ls_event ops h (Ev_Accept c peer) sw = Some (ls_on_accept ops h c peer sw)"
| "ls_event ops h (Ev_Data c) sw = ls_on_data ops h c sw"
| "ls_event ops h (Ev_Write_Ready c) sw = Some (ls_on_write_ready ops h c sw)"
| "ls_event ops h (Ev_Close c) sw = Some (ls_on_close h c sw)"
| "ls_event ops h (Ev_Error c code) sw = Some (ls_on_error h c code sw)"
| "ls_event ops h (Ev_Listener_Error code) sw = Some (ls_on_listener_error h code sw)"

fun ls_events ::
  "'w tcp_ops \<Rightarrow> 'w line_handler \<Rightarrow> tcp_event list \<Rightarrow> line_server \<times> 'w \<Rightarrow> (line_server \<times> 'w) option" where
  "ls_events ops h [] sw = Some sw"
| "ls_events ops h (ev # evs) sw =
     (case ls_event ops h ev sw of None \<Rightarrow> None | Some sw' \<Rightarrow> ls_events ops h evs sw')"

text \<open>The connections an event adds to those known, and those it takes away.\<close>

fun ev_opens :: "tcp_event \<Rightarrow> nat set" where
  "ev_opens (Ev_Accept c peer) = {c}"
| "ev_opens (Ev_Data c) = {c}"
| "ev_opens _ = {}"

fun ev_closes :: "tcp_event \<Rightarrow> nat set" where
  "ev_closes (Ev_Close c) = {c}"
| "ev_closes (Ev_Error c code) = {c}"
| "ev_closes _ = {}"

lemma ls_accept_spec:
  assumes "ls_inv n s" "ls_on_accept ops h c peer (s, w) = (s', w')"
  shows "ls_inv n s' \<and> length (ls_slots s') = length (ls_slots s) \<and> ls_backpressure s' = ls_backpressure s
    \<and> ls_bound s \<subseteq> ls_bound s' \<and> ls_bound s' \<subseteq> insert c (ls_bound s)"
proof -
  obtain slot s1 where a: "ls_acquire c s = (slot, s1)" by fastforce
  note sp = ls_acquire_spec [OF assms(1) a]
  show ?thesis
  proof (cases slot)
    case None
    with sp assms(2) a show ?thesis by (auto simp: ls_on_accept_def)
  next
    case (Some i)
    let ?sl = "(ls_slots s1 ! i)\<lparr>sl_backpressure := bm_reset (sl_backpressure (ls_slots s1 ! i))\<rparr>"
    from sp Some have inv: "ls_inv n s1" and i: "i < length (ls_slots s1)" by simp_all
    have "slot_ok n (ls_backpressure s1) ?sl"
      using slot_ok_nth [OF inv i] by (simp add: slot_ok_def)
    from ls_set_slot_spec(1) [OF inv i this] sp assms(2) a Some show ?thesis
      by (auto simp: ls_on_accept_def Let_def)
  qed
qed

lemma ls_data_spec:
  assumes "ls_inv n s" "ls_on_data ops h c (s, w) = Some (s', w')"
  shows "ls_inv n s' \<and> length (ls_slots s') = length (ls_slots s) \<and> ls_backpressure s' = ls_backpressure s
    \<and> ls_bound s' \<subseteq> insert c (ls_bound s)
    \<and> (\<not> bo_enabled (ls_backpressure s) \<longrightarrow> ls_bound s \<subseteq> ls_bound s')"
proof -
  obtain slot s1 where a: "ls_acquire c s = (slot, s1)" by fastforce
  note sp = ls_acquire_spec [OF assms(1) a]
  show ?thesis
  proof (cases slot)
    case None
    with sp assms(2) a show ?thesis by (auto simp: ls_on_data_def)
  next
    case (Some i)
    with assms(2) a obtain sw2 where p: "ls_poll_slot ops h i (s1, w) = Some sw2"
      and k: "ls_check_all_backpressure ops h sw2 = (s', w')"
      by (auto simp: ls_on_data_def)
    obtain s2 w2 where sw2: "sw2 = (s2, w2)" by fastforce
    from sp Some have inv: "ls_inv n s1" and i: "i < length (ls_slots s1)" by simp_all
    note q = ls_poll_slot_spec [OF inv i p [unfolded sw2]]
    with ls_check_all_spec [OF _ k [unfolded sw2]] sp Some show ?thesis by auto
  qed
qed

lemma ls_write_ready_spec:
  assumes "ls_inv n s" "ls_on_write_ready ops h c (s, w) = (s', w')"
  shows "ls_inv n s' \<and> length (ls_slots s') = length (ls_slots s) \<and> ls_backpressure s' = ls_backpressure s
    \<and> ls_bound s' \<subseteq> ls_bound s \<and> (\<not> bo_enabled (ls_backpressure s) \<longrightarrow> s' = s \<and> w' = w)"
proof (cases "ls_find c s")
  case None
  with assms show ?thesis by (simp add: ls_on_write_ready_def)
next
  case (Some i)
  with assms(2) have "ls_check_backpressure ops h i (s, w) = (s', w')"
    by (simp add: ls_on_write_ready_def)
  from ls_check_backpressure_spec [OF assms(1) _ this] ls_find_spec(2) [OF Some] show ?thesis by auto
qed

lemma ls_event_spec:
  assumes "ls_inv n s" "ls_event ops h ev (s, w) = Some (s', w')"
  shows "ls_inv n s' \<and> length (ls_slots s') = length (ls_slots s) \<and> ls_backpressure s' = ls_backpressure s
    \<and> ls_bound s' \<subseteq> ls_bound s \<union> ev_opens ev - ev_closes ev
    \<and> (\<not> bo_enabled (ls_backpressure s) \<longrightarrow> ls_bound s - ev_closes ev \<subseteq> ls_bound s')"
proof (cases ev)
  case (Ev_Accept c peer)
  with ls_accept_spec [OF assms(1), of ops h c peer w s' w'] assms(2) show ?thesis by auto
next
  case (Ev_Data c)
  with ls_data_spec [OF assms(1), of ops h c w s' w'] assms(2) show ?thesis by auto
next
  case (Ev_Write_Ready c)
  with ls_write_ready_spec [OF assms(1), of ops h c w s' w'] assms(2) show ?thesis by auto
next
  case (Ev_Close c)
  with ls_release_spec [OF assms(1), of c] assms(2) show ?thesis by (auto simp: ls_on_close_def)
next
  case (Ev_Error c code)
  with ls_release_spec [OF assms(1), of c] assms(2) show ?thesis by (auto simp: ls_on_error_def)
next
  case (Ev_Listener_Error code)
  with assms show ?thesis by (auto simp: ls_on_listener_error_def)
qed

lemma ls_active_card:
  assumes "ls_inv n s"
  shows "ls_active_connections s = card (ls_bound s)"
proof -
  have "length (occupied (map sl_connection (ls_slots s))) = ls_active_connections s"
    by (simp add: occupied_def ls_active_connections_def filter_map comp_def)
  with assms show ?thesis by (simp add: ls_bound_def ls_inv_def distinct_card)
qed

lemma ls_bound_unique:
  assumes "ls_inv n s" "sl_connection (ls_slots s ! i) = Some c" "sl_connection (ls_slots s ! j) = Some c"
    "i < length (ls_slots s)" "j < length (ls_slots s)"
  shows "i = j"
proof (rule ccontr)
  assume "i \<noteq> j"
  let ?cs = "map sl_connection (ls_slots s)"
  have "occupied ?cs = occupied (take i ?cs) @ c # occupied (drop (Suc i) ?cs)"
    using occupied_update(2) [of i ?cs] assms(2,4) by simp
  then have "Some c \<notin> set (take i ?cs)" "Some c \<notin> set (drop (Suc i) ?cs)"
    using assms(1) by (auto simp: ls_inv_def occupied_set)
  moreover have "?cs ! j = Some c" using assms(3,5) by simp
  moreover have "j < i \<Longrightarrow> ?cs ! j \<in> set (take i ?cs)"
    using assms(4) by (metis in_set_conv_nth length_map length_take min_less_iff_conj nth_take order_less_trans)
  moreover have "i < j \<Longrightarrow> ?cs ! j \<in> set (drop (Suc i) ?cs)"
    using assms(5) nth_mem [of "j - Suc i" "drop (Suc i) ?cs"] by simp
  ultimately show False using \<open>i \<noteq> j\<close> by (metis nat_neq_iff)
qed

section \<open>Lines over connections\<close>

text \<open>
  A connection as the handlers rely on it: as long as it is valid its input is a finite byte source,
  and the application's \<open>on_line\<close> neither invalidates it nor touches its input; what the
  application makes of a line is \<open>f\<close> on its own state.
\<close>

definition serves ::
  "'w tcp_ops \<Rightarrow> (nat \<Rightarrow> byte list \<Rightarrow> 'w \<Rightarrow> 'w) \<Rightarrow> nat \<Rightarrow> ('w \<Rightarrow> byte list) \<Rightarrow> ('w \<Rightarrow> 'o) \<Rightarrow> ('w \<Rightarrow> bool)
     \<Rightarrow> (byte list \<Rightarrow> 'o \<Rightarrow> 'o) \<Rightarrow> bool" where
  "serves ops on_line c inbox rest winv f \<longleftrightarrow>
     byte_source (connection_stream ops (Some c)) inbox rest winv
     \<and> (\<forall>w. winv w \<longrightarrow> tc_valid ops c w)
     \<and> (\<forall>v w. winv w \<longrightarrow> winv (on_line c v w) \<and> inbox (on_line c v w) = inbox w
          \<and> rest (on_line c v w) = f v (rest w))"

lemma serves_poll:
  assumes "serves ops on_line c inbox rest winv f" "winv w"
    "feed (line_byte opts) (inbox w) r = (r', vs)"
  shows "\<exists>w'. line_poll (connection_stream ops (Some c)) opts (handle_line ops on_line (Some c)) (r, w)
      = Some (r', w') \<and> winv w' \<and> inbox w' = [] \<and> rest w' = deliver f vs (rest w)"
proof -
  from assms(1) have src: "byte_source (connection_stream ops (Some c)) inbox rest winv"
    and cb: "\<And>v w. winv w \<Longrightarrow> winv (handle_line ops on_line (Some c) v w)
      \<and> inbox (handle_line ops on_line (Some c) v w) = inbox w
      \<and> rest (handle_line ops on_line (Some c) v w) = f v (rest w)"
    by (simp_all add: serves_def handle_line_def)
  from byte_source.poll_reader [OF src assms(2) cb assms(3)] show ?thesis by (simp add: line_poll_def)
qed

lemma ls_data_serves:
  assumes "serves ops (lh_on_line h) c inbox rest winv f" "winv w" "ls_inv n s"
    "\<not> bo_enabled (ls_backpressure s)" "ls_acquire c s = (Some i, s1)"
    "feed (line_byte line_options_default) (inbox w) (sl_reader (ls_slots s ! i)) = (r', vs)"
  shows "\<exists>s' w'. ls_on_data ops h c (s, w) = Some (s', w') \<and> winv w' \<and> inbox w' = []
    \<and> rest w' = deliver f vs (rest w) \<and> sl_reader (ls_slots s' ! i) = r'
    \<and> (\<forall>j. j \<noteq> i \<longrightarrow> ls_slots s' ! j = ls_slots s ! j)"
proof -
  from ls_acquire_spec [OF assms(3,5)] have a: "ls_inv n s1" "i < length (ls_slots s1)"
    "ls_backpressure s1 = ls_backpressure s" "sl_connection (ls_slots s1 ! i) = Some c"
    "sl_reader (ls_slots s1 ! i) = sl_reader (ls_slots s ! i)"
    "\<forall>j. j \<noteq> i \<longrightarrow> ls_slots s1 ! j = ls_slots s ! j" by auto
  from serves_poll [OF assms(1,2,6)] obtain w' where
    p: "line_poll (connection_stream ops (Some c)) line_options_default
      (handle_line ops (lh_on_line h) (Some c)) (sl_reader (ls_slots s ! i), w) = Some (r', w')"
    and w': "winv w'" "inbox w' = []" "rest w' = deliver f vs (rest w)" by blast
  let ?s2 = "ls_set_slot i ((ls_slots s1 ! i)\<lparr>sl_reader := r'\<rparr>) s1"
  have poll: "ls_poll_slot ops h i (s1, w) = Some (?s2, w')"
    using p a(4,5) by (simp add: ls_poll_slot_def Let_def)
  obtain s3 w3 where k: "ls_check_all_backpressure ops h (?s2, w') = (s3, w3)" by fastforce
  have "ls_inv n ?s2" using ls_poll_slot_spec [OF a(1,2) poll] by simp
  from ls_check_all_spec [OF this k] assms(4) a(3) have "s3 = ?s2" "w3 = w'" by simp_all
  with poll k assms(5) w' a show ?thesis by (simp add: ls_on_data_def)
qed

text \<open>
  The line handler delivers to the application, for a connection it knows, exactly the lines of
  what was pending on it followed by what it received, in order and without carriage returns,
  however the network cut the stream into pieces; the unfinished line stays pending and the other
  connections' slots are untouched. (Lines that fit the buffer; backpressure not enabled.)
\<close>

lemma ls_data_delivers:
  assumes "serves ops (lh_on_line h) c inbox rest winv f" "winv w" "ls_inv n s"
    "\<not> bo_enabled (ls_backpressure s)" "ls_find c s = Some i"
    "line_pending (sl_reader (ls_slots s ! i)) @ inbox w = join_lines chr_lf ls lastl"
    "chr_lf \<notin> set (line_pending (sl_reader (ls_slots s ! i)))"
    "\<forall>l \<in> set (lastl # ls). chr_lf \<notin> set l \<and> length l \<le> n"
  shows "\<exists>s' w'. ls_on_data ops h c (s, w) = Some (s', w') \<and> winv w' \<and> inbox w' = []
    \<and> rest w' = deliver f (map (strip_cr True) ls) (rest w)
    \<and> line_pending (sl_reader (ls_slots s' ! i)) = lastl
    \<and> (\<forall>j. j \<noteq> i \<longrightarrow> ls_slots s' ! j = ls_slots s ! j)"
proof -
  let ?r = "sl_reader (ls_slots s ! i)" and ?o = line_options_default
  from ls_find_spec(2) [OF assms(5)] slot_ok_nth [OF assms(3)] have r: "line_inv ?r" "line_capacity ?r = n"
    by (auto simp: slot_ok_def)
  have o: "lo_delimiter ?o = chr_lf" "lo_strip_cr ?o" by (simp_all add: line_options_default_def)
  from line_feed_resume [OF r(1), of ?o "inbox w" ls lastl] assms(6-8) r(2) o obtain r' where
    "feed (line_byte ?o) (inbox w) ?r = (r', map (strip_cr True) ls)" "line_pending r' = lastl" by auto
  moreover have "ls_acquire c s = (Some i, s)" using assms(5) by (simp add: ls_acquire_def)
  ultimately show ?thesis using ls_data_serves [OF assms(1-4), of i s r'] by blast
qed

text \<open>
  A network of connections with finite input, for concrete runs: the pending input of every
  connection, the connections closed, and the application's log of lines.
\<close>

record net =
  net_input :: "nat \<Rightarrow> byte list"
  net_closed :: "nat list"
  net_log :: "(nat \<times> byte list) list"

definition net_ops :: "net tcp_ops" where
  "net_ops = \<lparr>tc_valid = (\<lambda>c w. c \<notin> set (net_closed w)),
     tc_close = (\<lambda>c w. w\<lparr>net_closed := c # net_closed w\<rparr>),
     tc_input_size = (\<lambda>c w. length (net_input w c)), tc_output_size = (\<lambda>c w. 0),
     tc_read = (\<lambda>c n w. (int (length (take n (net_input w c))), take n (net_input w c),
        w\<lparr>net_input := (net_input w)(c := drop n (net_input w c))\<rparr>)),
     tc_write = (\<lambda>c bytes w. (int (length bytes), w))\<rparr>"

definition log_handler :: "net line_handler" where
  "log_handler = line_handler_default net_ops (\<lambda>c line w. w\<lparr>net_log := net_log w @ [(c, line)]\<rparr>)"

lemma net_serves:
  "serves net_ops (lh_on_line log_handler) c (\<lambda>w. net_input w c) net_log
     (\<lambda>w. c \<notin> set (net_closed w)) (\<lambda>line log. log @ [(c, line)])"
  unfolding serves_def
proof (intro conjI)
  show "byte_source (connection_stream net_ops (Some c)) (\<lambda>w. net_input w c) net_log (\<lambda>w. c \<notin> set (net_closed w))"
    by unfold_locales
      (auto simp: connection_stream_def cs_readable_def cs_read_def tc_readable_def net_ops_def)
qed (auto simp: net_ops_def log_handler_def line_handler_default_def)

definition demo_peer :: tcp_peer_info where
  "demo_peer = \<lparr>peer_host = ''127.0.0.1'', peer_port = 4000\<rparr>"

definition demo_net :: "(nat \<Rightarrow> byte list) \<Rightarrow> net" where
  "demo_net input = \<lparr>net_input = input, net_closed = [], net_log = []\<rparr>"

text \<open>A server of one slot, with connection 1 bound and \<open>ab\<close> received from it.\<close>

definition demo_server :: line_server where
  "demo_server = \<lparr>ls_backpressure = bp_disabled, ls_slots =
     [\<lparr>sl_connection = Some 1, sl_backpressure = bm_init bp_disabled,
       sl_reader = \<lparr>lr_buffer = [97, 98, 0, 0], lr_size = 2, lr_stats = stats_init\<rparr>\<rparr>]\<rparr>"

lemma demo_server_inv:
  "ls_inv 4 demo_server" "\<not> bo_enabled (ls_backpressure demo_server)" "ls_find 1 demo_server = Some 0"
  "ls_bound demo_server = {1}" "line_pending (sl_reader (ls_slots demo_server ! 0)) = [97, 98]"
  by (simp_all add: demo_server_def ls_inv_def slot_ok_def line_inv_def bm_init_def bp_disabled_def
      ls_find_def ls_bound_def line_pending_def)

text \<open>
  C35: a slot that is released keeps the partial line of its connection. When a connection ends in
  the middle of a line and the next one takes its slot, the first line the application receives
  from the new connection starts with the bytes of the old one.
\<close>

theorem slot_reuse_leaks_partial_line:
  assumes "serves ops (lh_on_line h) c2 inbox rest winv f" "ls_inv n s"
    "\<not> bo_enabled (ls_backpressure s)" "ls_find c1 s = Some i"
    "\<forall>j < i. sl_connection (ls_slots s ! j) \<noteq> None" "c2 \<notin> ls_bound s"
    "w1 = lh_on_accept h c2 peer (lh_on_close h c1 w)" "winv w1" "inbox w1 = l @ [chr_lf]"
    "chr_lf \<notin> set l" "length (line_pending (sl_reader (ls_slots s ! i)) @ l) \<le> n"
  shows "\<exists>s' w'. ls_events ops h [Ev_Close c1, Ev_Accept c2 peer, Ev_Data c2] (s, w) = Some (s', w')
    \<and> rest w' = f (strip_cr True (line_pending (sl_reader (ls_slots s ! i)) @ l)) (rest w1)"
proof -
  let ?r = "sl_reader (ls_slots s ! i)" and ?o = line_options_default
  note i = ls_find_spec(2) [OF assms(4)]
  let ?s1 = "ls_release c1 s"
  have s1: "?s1 = ls_set_slot i (sl_vacate (ls_slots s ! i)) s"
    using assms(4) by (simp add: ls_release_def)
  note rel = ls_release_spec [OF assms(2), of c1]
  have "first_slot (\<lambda>sl. sl_connection sl = None) (ls_slots ?s1) = Some i"
    using i assms(5) by (simp add: s1 first_slot_Some sl_vacate_def)
  moreover have "ls_find c2 ?s1 = None" using assms(6) rel by (simp add: ls_find_spec(1))
  ultimately have acq: "fst (ls_acquire c2 ?s1) = Some i" by (simp add: ls_acquire_def Let_def)
  then obtain s2 where a2: "ls_acquire c2 ?s1 = (Some i, s2)" by (cases "ls_acquire c2 ?s1") simp
  obtain s3 w3 where acc: "ls_on_accept ops h c2 peer (?s1, lh_on_close h c1 w) = (s3, w3)" by fastforce
  from ls_acquire_spec [OF conjunct1 [OF rel] a2] have q: "i < length (ls_slots s2)"
    "sl_connection (ls_slots s2 ! i) = Some c2" "sl_reader (ls_slots s2 ! i) = ?r"
    using i by (auto simp: s1 sl_vacate_def)
  from ls_accept_spec [OF conjunct1 [OF rel] acc] rel have s3: "ls_inv n s3" "\<not> bo_enabled (ls_backpressure s3)"
    using assms(3) by auto
  have r3: "w3 = w1" "sl_connection (ls_slots s3 ! i) = Some c2" "sl_reader (ls_slots s3 ! i) = ?r"
    "i < length (ls_slots s3)"
    using acc a2 q assms(7) by (auto simp: ls_on_accept_def Let_def)
  then obtain k where k: "ls_find c2 s3 = Some k" "ls_acquire c2 s3 = (Some k, s3)"
    using ls_find_spec(1) [of c2 s3] by (auto simp: ls_acquire_def ls_bound_iff)
  have "k = i"
    using ls_bound_unique [OF s3(1)] ls_find_spec(2) [OF k(1)] r3(2,4) by blast
  have r: "line_inv ?r" "line_capacity ?r = n"
    using slot_ok_nth [OF assms(2), of i] i by (simp_all add: slot_ok_def)
  have o: "lo_delimiter ?o = chr_lf" "lo_strip_cr ?o" by (simp_all add: line_options_default_def)
  from line_feed_finish [OF r(1), of ?o l] assms(9-11) r(2) o obtain r' where
    "feed (line_byte ?o) (inbox w1) (sl_reader (ls_slots s3 ! i)) = (r', [strip_cr True (line_pending ?r @ l)])"
    by (auto simp: r3(3))
  from ls_data_serves [OF assms(1,8) s3 k(2) [unfolded \<open>k = i\<close>] this] acc r3(1) show ?thesis
    by (auto simp: ls_on_close_def)
qed

lemma slot_reuse_leaks_partial_line_witness:
  "\<exists>s' w'. ls_events net_ops log_handler [Ev_Close 1, Ev_Accept 2 demo_peer, Ev_Data 2]
      (demo_server, demo_net (\<lambda>c. [99, chr_lf])) = Some (s', w') \<and> net_log w' = [(2, [97, 98, 99])]"
proof -
  let ?w = "demo_net (\<lambda>c. [99, chr_lf])"
  let ?w1 = "lh_on_accept log_handler 2 demo_peer (lh_on_close log_handler 1 ?w)"
  have w1: "?w1 = ?w" by (simp add: log_handler_def line_handler_default_def)
  have h: "\<forall>j < 0. sl_connection (ls_slots demo_server ! j) \<noteq> None" "2 \<notin> ls_bound demo_server"
    "2 \<notin> set (net_closed ?w1)" "net_input ?w1 2 = [99] @ [chr_lf]" "chr_lf \<notin> set [99]"
    "length (line_pending (sl_reader (ls_slots demo_server ! 0)) @ [99]) \<le> 4"
    unfolding w1 by (simp_all add: demo_server_inv(4,5) demo_net_def)
  from slot_reuse_leaks_partial_line [OF net_serves demo_server_inv(1-3) h(1,2) refl h(3-6)]
  obtain s' w' where
    "ls_events net_ops log_handler [Ev_Close 1, Ev_Accept 2 demo_peer, Ev_Data 2] (demo_server, ?w) = Some (s', w')"
    "net_log w' = net_log ?w1 @ [(2, strip_cr True ([97, 98] @ [99]))]"
    unfolding demo_server_inv(5) by blast
  then show ?thesis unfolding w1 by (simp add: demo_net_def strip_cr_def)
qed

section \<open>The slot table\<close>

lemma ls_bound_le:
  assumes "ls_inv n s"
  shows "card (ls_bound s) \<le> length (ls_slots s)"
proof -
  have "ls_active_connections s \<le> length (ls_slots s)" by (simp add: ls_active_connections_def)
  then show ?thesis by (simp add: ls_active_card [OF assms])
qed

text \<open>
  C12: through every event the slots hold pairwise different connections, never more than there are
  slots, and \<open>active_connections\<close> is their number; an event binds no other connection than its own,
  and a closed or failed connection is bound no longer, whatever the callbacks do.
\<close>

theorem line_server_slots:
  assumes "ls_inv n s" "ls_event ops h ev (s, w) = Some (s', w')"
  shows "ls_inv n s' \<and> ls_active_connections s' = card (ls_bound s') \<and> card (ls_bound s') \<le> length (ls_slots s)
    \<and> ls_bound s' \<subseteq> ls_bound s \<union> ev_opens ev - ev_closes ev"
proof -
  note e = ls_event_spec [OF assms]
  with ls_bound_le [of n s'] ls_active_card [of n s'] show ?thesis by auto
qed

lemma line_server_slots_witness:
  "case ls_event net_ops log_handler (Ev_Close 1) (demo_server, demo_net (\<lambda>c. [])) of
     Some (s', w') \<Rightarrow> ls_active_connections s' = 0 | None \<Rightarrow> False"
proof -
  obtain s' w' where e: "ls_event net_ops log_handler (Ev_Close 1) (demo_server, demo_net (\<lambda>c. [])) = Some (s', w')"
    by (cases "ls_on_close log_handler 1 (demo_server, demo_net (\<lambda>c. []))") simp
  from line_server_slots [OF demo_server_inv(1) e] e show ?thesis
    by (simp add: demo_server_inv(4))
qed

lemma ls_events_keep:
  assumes "ls_inv n s" "\<not> bo_enabled (ls_backpressure s)" "ls_events ops h evs (s, w) = Some (s', w')"
    "\<forall>ev \<in> set evs. ev_closes ev = {}"
  shows "ls_inv n s' \<and> \<not> bo_enabled (ls_backpressure s') \<and> length (ls_slots s') = length (ls_slots s)
    \<and> ls_bound s \<subseteq> ls_bound s'"
  using assms
proof (induction evs arbitrary: s w)
  case Nil
  then show ?case by simp
next
  case (Cons ev evs)
  from Cons.prems(3) obtain s1 w1 where e: "ls_event ops h ev (s, w) = Some (s1, w1)"
    and r: "ls_events ops h evs (s1, w1) = Some (s', w')"
    by (auto split: option.splits)
  note one = ls_event_spec [OF Cons.prems(1) e]
  from Cons.IH [of s1 w1] one r Cons.prems(2,4) show ?case by auto
qed

text \<open>
  A connection the application itself closes is never released: without backpressure, only the
  events \<open>on_close\<close> and \<open>on_error\<close> free a slot, and no event looks at whether a bound connection is
  still valid. When the slots are used up by such connections, a new connection is turned away.
\<close>

theorem closed_connections_keep_slots:
  assumes "ls_inv n s" "\<not> bo_enabled (ls_backpressure s)" "card (ls_bound s) = length (ls_slots s)"
    "ls_events ops h evs (s, w) = Some (s', w')" "\<forall>ev \<in> set evs. ev_closes ev = {}" "c \<notin> ls_bound s"
  shows "ls_bound s' = ls_bound s
    \<and> ls_on_accept ops h c peer (s', w') = (s', lh_on_too_many_connections h c w')"
proof -
  from ls_events_keep [OF assms(1,2,4,5)] have k: "ls_inv n s'" "length (ls_slots s') = length (ls_slots s)"
    "ls_bound s \<subseteq> ls_bound s'" by auto
  have full: "card (ls_bound s') \<le> length (ls_slots s')"
    by (rule ls_bound_le [OF k(1)])
  have fin: "finite (ls_bound s')" by (simp add: ls_bound_def)
  have same: "ls_bound s' = ls_bound s"
    using card_seteq [OF fin k(3)] full assms(3) k(2) by simp
  obtain slot s2 where a: "ls_acquire c s' = (slot, s2)" by fastforce
  note sp = ls_acquire_spec [OF k(1) a]
  have "slot = None"
  proof (rule ccontr)
    assume "slot \<noteq> None"
    with sp have "ls_bound s2 = insert c (ls_bound s)" "length (ls_slots s2) = length (ls_slots s)" "ls_inv n s2"
      using same k(2) by auto
    then have "card (insert c (ls_bound s)) \<le> length (ls_slots s)"
      using ls_bound_le [of n s2] by simp
    with assms(3,6) fin same show False by simp
  qed
  with sp a have "ls_acquire c s' = (None, s')" by auto
  with same show ?thesis by (simp add: ls_on_accept_def)
qed

text \<open>An application that closes a connection on its first line, as a \<open>quit\<close> command does.\<close>

definition quit_handler :: "net line_handler" where
  "quit_handler = line_handler_default net_ops (\<lambda>c line w. tc_close net_ops c w)"

lemma closed_connections_keep_slots_witness:
  "\<exists>s' w'. ls_events net_ops quit_handler [Ev_Data 1] (demo_server, demo_net (\<lambda>c. [99, chr_lf])) = Some (s', w')
    \<and> \<not> tc_valid net_ops 1 w' \<and> ls_bound s' = {1} \<and> fst (ls_on_accept net_ops quit_handler 2 demo_peer (s', w')) = s'"
proof -
  let ?run = "ls_events net_ops quit_handler [Ev_Data 1] (demo_server, demo_net (\<lambda>c. [99, chr_lf]))"
  let ?sl = "ls_slots demo_server ! 0"
  obtain r' w' where p: "line_poll (connection_stream net_ops (Some 1)) line_options_default
      (handle_line net_ops (lh_on_line quit_handler) (Some 1)) (sl_reader ?sl, demo_net (\<lambda>c. [99, chr_lf])) = Some (r', w')"
    and v: "\<not> tc_valid net_ops 1 w'"
    by (simp add: line_poll_def poll_loop.simps connection_stream_def cs_readable_def cs_read_def tc_readable_def
        net_ops_def demo_net_def reader_step_def line_byte_def line_consume_def line_emit_def
        demo_server_def line_options_default_def handle_line_def quit_handler_def line_handler_default_def
        stats_init_def Let_def)
  let ?s1 = "ls_set_slot 0 (?sl\<lparr>sl_reader := r'\<rparr>) demo_server"
  have sl: "sl_connection ?sl = Some 1" by (simp add: demo_server_def)
  have poll: "ls_poll_slot net_ops quit_handler 0 (demo_server, demo_net (\<lambda>c. [99, chr_lf])) = Some (?s1, w')"
    unfolding ls_poll_slot_def prod.case Let_def sl p by simp
  have "ls_acquire 1 demo_server = (Some 0, demo_server)"
    unfolding ls_acquire_def demo_server_inv(3) by simp
  moreover obtain s' w2 where k: "ls_check_all_backpressure net_ops quit_handler (?s1, w') = (s', w2)"
    by fastforce
  ultimately have e2: "?run = Some (s', w2)"
    using poll by (simp add: ls_on_data_def)
  have "0 < length (ls_slots demo_server)" by (simp add: demo_server_def)
  from ls_poll_slot_spec [OF demo_server_inv(1) this poll] have "ls_inv 4 ?s1" by simp
  from ls_check_all_spec [OF this k] e2 have e: "?run = Some (s', w')"
    by (simp add: demo_server_inv(2))
  have "card (ls_bound demo_server) = length (ls_slots demo_server)" "\<forall>ev \<in> set [Ev_Data 1]. ev_closes ev = {}"
    "2 \<notin> ls_bound demo_server"
    by (simp_all add: demo_server_inv(4)) (simp add: demo_server_def)
  from closed_connections_keep_slots [OF demo_server_inv(1,2) this(1) e this(2,3)] e v show ?thesis
    by (auto simp: demo_server_inv(4))
qed

text \<open>
  When the backpressure monitor of a slot fires, the application is told once, and if the limit
  closes connections the connection is closed afterwards, unless the application closed it, and its
  slot is free again.
\<close>

theorem backpressure_closes_connection:
  assumes "ls_inv n s" "i < length (ls_slots s)" "sl_connection (ls_slots s ! i) = Some c"
    "bm_check ops c w (sl_backpressure (ls_slots s ! i)) = (True, info, m)"
    "bo_close_on_limit (ls_backpressure s)" "\<forall>w. \<not> tc_valid ops c (tc_close ops c w)"
    "w1 = lh_on_backpressure h c info w"
  shows "\<exists>s' w'. ls_check_backpressure ops h i (s, w) = (s', w')
    \<and> w' = (if tc_valid ops c w1 then tc_close ops c w1 else w1)
    \<and> \<not> tc_valid ops c w' \<and> c \<notin> ls_bound s' \<and> ls_bound s' = ls_bound s - {c}"
proof -
  let ?sl = "ls_slots s ! i"
  from assms(4) have v: "tc_valid ops c w" by (auto simp: bm_check_def Let_def split: if_splits)
  have "slot_ok n (ls_backpressure s) (?sl\<lparr>sl_backpressure := m\<rparr>)"
    using slot_ok_nth [OF assms(1,2)] bm_check_options [OF assms(4)] by (simp add: slot_ok_def)
  from ls_vacate_spec [OF assms(1-3) this] v assms(3-7) show ?thesis
    by (simp add: ls_check_backpressure_def Let_def)
qed

lemma backpressure_closes_connection_witness:
  "let ops = net_ops\<lparr>tc_output_size := \<lambda>c w. 7\<rparr>; opts = bp_server_default\<lparr>bo_high_water_bytes := 5, bo_low_water_bytes := 2, bo_max_over_high_polls := 1\<rparr>;
       s = \<lparr>ls_backpressure = opts, ls_slots = [\<lparr>sl_connection = Some 3, sl_backpressure = bm_init opts,
              sl_reader = line_init 8\<rparr>]\<rparr>
   in ls_bound (fst (ls_check_backpressure ops log_handler 0 (s, demo_net (\<lambda>c. [])))) = {}"
proof -
  let ?ops = "net_ops\<lparr>tc_output_size := \<lambda>c w. 7\<rparr>" and ?opts = "bp_server_default\<lparr>bo_high_water_bytes := 5, bo_low_water_bytes := 2, bo_max_over_high_polls := 1\<rparr>"
  let ?s = "\<lparr>ls_backpressure = ?opts, ls_slots = [\<lparr>sl_connection = Some 3, sl_backpressure = bm_init ?opts,
              sl_reader = line_init 8\<rparr>]\<rparr>"
  let ?w = "demo_net (\<lambda>c. [])"
  obtain b info m where chk: "bm_check ?ops 3 ?w (sl_backpressure (ls_slots ?s ! 0)) = (b, info, m)"
    by (metis prod_cases3)
  have "(0 :: u32) < - 1" by (simp add: word_less_nat_alt unsigned_minus_1_eq_mask mask_eq_exp_minus_1)
  then have "fst (bm_check ?ops 3 ?w (sl_backpressure (ls_slots ?s ! 0)))"
    by (simp add: bm_check_def bm_count_def bm_init_def bm_trigger_def bp_server_default_def
        bp_disabled_def net_ops_def demo_net_def Let_def)
  with chk have b: "b" by simp
  have "ls_inv 8 ?s" "0 < length (ls_slots ?s)" "sl_connection (ls_slots ?s ! 0) = Some 3"
    "bo_close_on_limit (ls_backpressure ?s)" "\<forall>w. \<not> tc_valid ?ops 3 (tc_close ?ops 3 w)"
    by (simp_all add: ls_inv_def slot_ok_def bm_init_def bp_server_default_def bp_disabled_def net_ops_def)
  note h = this
  have fires: "bm_check ?ops 3 ?w (sl_backpressure (ls_slots ?s ! 0)) = (True, info, m)"
    using chk b by simp
  from backpressure_closes_connection [OF h(1-3) fires h(4,5) refl, of log_handler]
  obtain s' w' where "ls_check_backpressure ?ops log_handler 0 (?s, ?w) = (s', w')"
    "ls_bound s' = ls_bound ?s - {3}" by blast
  moreover have "ls_bound ?s = {3}" by (simp add: ls_bound_def)
  ultimately show ?thesis by (simp add: Let_def)
qed

section \<open>Writing lines\<close>

text \<open>
  \<open>tcp_write_line\<close> on a line reports success only if the connection accepted the whole line and the
  newline, given a connection that accepts a prefix of what it is offered and returns its length.
\<close>

theorem write_line_complete:
  assumes "\<forall>bytes w k w'. tc_write ops c bytes w = (k, w') \<longrightarrow> sent w' = sent w @ take (nat k) bytes"
    "tcp_write_line ops c line w = (True, w')"
  shows "sent w' = sent w @ line @ [chr_lf]"
proof -
  obtain k w1 where b: "(if length line = 0 then (0, w) else tc_write ops c line w) = (k, w1)" by fastforce
  obtain n w2 where nl: "tc_write ops c [chr_lf] w1 = (n, w2)" by fastforce
  from assms(2) b nl have ok: "k = int (length line)" "n = 1" "w' = w2"
    by (auto simp: tcp_write_line_def tcp_write_newline_def Let_def split: if_splits)
  have "sent w1 = sent w @ line" using assms(1) b ok(1) by (auto split: if_splits)
  moreover have "sent w2 = sent w1 @ [chr_lf]" using assms(1) nl ok(2) by auto
  ultimately show ?thesis using ok(3) by simp
qed

text \<open>A connection whose send buffer takes ten bytes in all; the state is what was sent.\<close>

definition pipe_ops :: "byte list tcp_ops" where
  "pipe_ops = \<lparr>tc_valid = (\<lambda>c w. True), tc_close = (\<lambda>c w. w), tc_input_size = (\<lambda>c w. 0),
     tc_output_size = (\<lambda>c w. length w), tc_read = (\<lambda>c n w. (0, [], w)),
     tc_write = (\<lambda>c bytes w. let n = min (length bytes) (10 - length w)
        in (int n, w @ take n bytes))\<rparr>"

lemma pipe_write: "\<forall>bytes w k w'. tc_write pipe_ops c bytes w = (k, w') \<longrightarrow> w' = w @ take (nat k) bytes"
  by (auto simp: pipe_ops_def Let_def)

lemma write_line_complete_witness:
  "snd (tcp_write_line pipe_ops 1 [104, 105] []) = [104, 105, chr_lf]"
proof -
  obtain ok w' where r: "tcp_write_line pipe_ops 1 [104, 105] [] = (ok, w')" by fastforce
  have "fst (tcp_write_line pipe_ops 1 [104, 105] [])" by code_simp
  with r have "tcp_write_line pipe_ops 1 [104, 105] [] = (True, w')" by simp
  from write_line_complete [where sent = "\<lambda>w. w", OF pipe_write this] r show ?thesis by simp
qed

text \<open>
  The overload of \<open>tcp_write_line\<close> on C strings does not check how much of the text was accepted:
  after a short write of the text that leaves room for the newline, it reports success although
  the line that was sent is cut off.
\<close>

theorem write_text_line_truncates:
  assumes "\<forall>bytes w k w'. tc_write ops c bytes w = (k, w') \<longrightarrow> sent w' = sent w @ take (nat k) bytes"
    "tc_write ops c (c_string t) w = (k, w1)" "0 \<le> k" "k < int (length (c_string t))"
    "tc_write ops c [chr_lf] w1 = (1, w2)"
  shows "tcp_write_line_text ops c (Some t) w = (True, w2)
    \<and> sent w2 = sent w @ take (nat k) (c_string t) @ [chr_lf] \<and> sent w2 \<noteq> sent w @ c_string t @ [chr_lf]"
proof -
  have "sent w1 = sent w @ take (nat k) (c_string t)" "sent w2 = sent w1 @ [chr_lf]"
    using assms(1,2,5) by auto
  moreover have "length (take (nat k) (c_string t)) < length (c_string t)" using assms(3,4) by simp
  ultimately show ?thesis using assms(2,3,5)
    by (auto simp: tcp_write_line_text_def tcp_write_text_def tcp_write_newline_def Let_def)
qed

text \<open>A send buffer with one byte free that is drained of one byte whenever it is full.\<close>

definition drain_ops :: "(byte list \<times> nat) tcp_ops" where
  "drain_ops = \<lparr>tc_valid = (\<lambda>c w. True), tc_close = (\<lambda>c w. w), tc_input_size = (\<lambda>c w. 0),
     tc_output_size = (\<lambda>c w. 0), tc_read = (\<lambda>c n w. (0, [], w)),
     tc_write = (\<lambda>c bytes (sent, room). let n = min (length bytes) room
        in (int n, (sent @ take n bytes, max 1 (room - n))))\<rparr>"

lemma write_text_line_truncates_witness:
  "tcp_write_line_text drain_ops 1 (Some [104, 105, 0]) ([], 1) = (True, ([104, chr_lf], 1))"
proof -
  have h: "\<forall>bytes w k w'. tc_write drain_ops 1 bytes w = (k, w') \<longrightarrow> fst w' = fst w @ take (nat k) bytes"
    by (auto simp: drain_ops_def Let_def)
  have "tc_write drain_ops 1 (c_string [104, 105, 0]) ([], 1) = (1, ([104], 1))"
    "tc_write drain_ops 1 [chr_lf] ([104], 1) = (1, ([104, chr_lf], 1))"
    "(1 :: int) < int (length (c_string [104, 105, 0]))"
    by (simp_all add: drain_ops_def c_string_def)
  from write_text_line_truncates [where sent = fst, OF h this(1) _ this(3,2)] show ?thesis by simp
qed

section \<open>The client across connections\<close>

text \<open>
  The client handler, too, keeps a partial line across connections: after a connection that ended
  in the middle of a line, the first line received on the next one starts with the old bytes.
\<close>

theorem client_reconnect_leaks_partial_line:
  assumes "serves ops (ch_on_line h) c2 inbox rest winv f" "line_inv (lc_reader s)"
    "w1 = ch_on_connect h c2 peer (ch_on_close h c1 w)" "winv w1" "inbox w1 = l @ [chr_lf]"
    "chr_lf \<notin> set l" "length (line_pending (lc_reader s) @ l) \<le> line_capacity (lc_reader s)"
  shows "\<exists>s' w'. lc_on_data ops h c2 (lc_on_connect h c2 peer (lc_on_close h c1 (s, w))) = Some (s', w')
    \<and> rest w' = f (strip_cr True (line_pending (lc_reader s) @ l)) (rest w1)"
proof -
  let ?o = line_options_default
  have o: "lo_delimiter ?o = chr_lf" "lo_strip_cr ?o" by (simp_all add: line_options_default_def)
  from line_feed_finish [OF assms(2), of ?o l] assms(5-7) o obtain r' where
    "feed (line_byte ?o) (inbox w1) (lc_reader s) = (r', [strip_cr True (line_pending (lc_reader s) @ l)])"
    by auto
  from serves_poll [OF assms(1,4) this] assms(3) show ?thesis
    by (auto simp: lc_on_data_def lc_on_connect_def lc_on_close_def)
qed

definition log_client :: "net line_client_handler" where
  "log_client = \<lparr>ch_on_connect = (\<lambda>c peer w. w), ch_on_line = lh_on_line log_handler,
     ch_on_close = (\<lambda>c w. w), ch_on_error = (\<lambda>code w. w)\<rparr>"

lemma client_reconnect_leaks_partial_line_witness:
  "\<exists>s' w'. lc_on_data net_ops log_client 2 (lc_on_connect log_client 2 demo_peer (lc_on_close log_client 1
      (\<lparr>lc_connection = Some 1, lc_reader = sl_reader (ls_slots demo_server ! 0)\<rparr>, demo_net (\<lambda>c. [99, chr_lf]))))
    = Some (s', w') \<and> net_log w' = [(2, [97, 98, 99])]"
proof -
  let ?w = "demo_net (\<lambda>c. [99, chr_lf])" and ?r = "sl_reader (ls_slots demo_server ! 0)"
  let ?s = "\<lparr>lc_connection = Some 1, lc_reader = ?r\<rparr>"
  have srv: "serves net_ops (ch_on_line log_client) 2 (\<lambda>w. net_input w 2) net_log
     (\<lambda>w. 2 \<notin> set (net_closed w)) (\<lambda>line log. log @ [(2, line)])"
    using net_serves by (simp add: log_client_def)
  have h: "line_inv (lc_reader ?s)" "2 \<notin> set (net_closed ?w)" "net_input ?w 2 = [99] @ [chr_lf]"
    "chr_lf \<notin> set [99]" "length (line_pending (lc_reader ?s) @ [99]) \<le> line_capacity (lc_reader ?s)"
    by (simp_all add: demo_server_inv(5) demo_net_def) (simp_all add: demo_server_def line_inv_def)
  have w1: "?w = ch_on_connect log_client 2 demo_peer (ch_on_close log_client 1 ?w)"
    by (simp add: log_client_def)
  from client_reconnect_leaks_partial_line [OF srv h(1) w1 h(2-5)] obtain s' w' where
    "lc_on_data net_ops log_client 2 (lc_on_connect log_client 2 demo_peer (lc_on_close log_client 1 (?s, ?w))) = Some (s', w')"
    "net_log w' = net_log ?w @ [(2, strip_cr True (line_pending ?r @ [99]))]" by auto
  then show ?thesis by (simp add: demo_server_inv(5)) (simp add: demo_net_def strip_cr_def)
qed

end
