(* ===== verification/Wifi_Tcp.thy ===== *)
theory Wifi_Tcp
  imports Tcp Scheduler Line_Reader "HOL-Library.Monad_Syntax"
begin

text \<open>
  TCP over an Arduino WiFi stack: \<^verbatim>\<open>src/async_event_loop_arduino/arduino_wifi_tcp.hpp\<close>. The library
  classes \<open>WiFiClient\<close> and \<open>WiFiServer\<close> are not part of the sources: they are a record of operations
  on the outside state \<open>'w\<close>. A \<open>WiFiClient\<close> is a handle (copying it shares the socket), represented
  by a number; \<open>wc_default\<close> is a default-constructed one. \<open>wc_esp\<close> tells whether the build is for an
  ESP32 or ESP8266.
\<close>

record 'w wifi_ops =
  wc_esp :: bool
  wc_default :: nat
  wc_bool :: "nat \<Rightarrow> 'w \<Rightarrow> bool"
  wc_connected :: "nat \<Rightarrow> 'w \<Rightarrow> bool"
  wc_available :: "nat \<Rightarrow> 'w \<Rightarrow> int"
  wc_read :: "nat \<Rightarrow> 'w \<Rightarrow> int \<times> 'w"
  wc_peek :: "nat \<Rightarrow> 'w \<Rightarrow> int"
  wc_write :: "nat \<Rightarrow> byte list \<Rightarrow> 'w \<Rightarrow> nat \<times> 'w"
  wc_available_for_write :: "nat \<Rightarrow> 'w \<Rightarrow> int"
  wc_stop :: "nat \<Rightarrow> 'w \<Rightarrow> 'w"
  wc_remote_ip :: "nat \<Rightarrow> 'w \<Rightarrow> byte list"
  wc_connect :: "string \<Rightarrow> u16 \<Rightarrow> 'w \<Rightarrow> bool \<times> nat \<times> 'w"
  ws_begin :: "u16 \<Rightarrow> 'w \<Rightarrow> 'w"
  ws_available :: "'w \<Rightarrow> nat \<times> 'w"
  ws_stop :: "'w \<Rightarrow> 'w"

text \<open>\<open>snprintf\<close> of an unsigned number, and of an address in dotted notation.\<close>

fun decimal :: "nat \<Rightarrow> string" where
  "decimal n = (if n < 10 then [char_of (48 + n)] else decimal (n div 10) @ [char_of (48 + n mod 10)])"

declare decimal.simps [simp del]

definition dotted :: "byte list \<Rightarrow> string" where
  "dotted ip = decimal (unat (ip ! 0)) @ ''.'' @ decimal (unat (ip ! 1)) @ ''.''
     @ decimal (unat (ip ! 2)) @ ''.'' @ decimal (unat (ip ! 3))"

definition peer_default :: tcp_peer_info where
  "peer_default = \<lparr>peer_host = [], peer_port = 0\<rparr>"

section \<open>\<open>ArduinoWiFiTcpConnection\<close>\<close>

text \<open>\<open>tx_capacity\<close> is the length of \<open>wt_tx\<close> (1024 bytes in the source), \<open>sizeof(line_)\<close> that of \<open>wt_line\<close> (256).\<close>

record wifi_connection =
  wt_client :: nat
  wt_active :: bool
  wt_peer :: tcp_peer_info
  wt_line :: "byte list"
  wt_line_size :: nat
  wt_tx :: "byte list"
  wt_tx_head :: nat
  wt_tx_size :: nat

definition wt_init :: "'w wifi_ops \<Rightarrow> wifi_connection" where
  "wt_init ops = \<lparr>wt_client = wc_default ops, wt_active = False, wt_peer = peer_default,
     wt_line = replicate 256 0, wt_line_size = 0, wt_tx = replicate 1024 0, wt_tx_head = 0, wt_tx_size = 0\<rparr>"

definition wt_valid :: "'w wifi_ops \<Rightarrow> wifi_connection \<Rightarrow> 'w \<Rightarrow> bool" where
  "wt_valid ops c w \<longleftrightarrow> wt_active c \<and> wc_bool ops (wt_client c) w"

definition wt_closed_by_peer :: "'w wifi_ops \<Rightarrow> wifi_connection \<Rightarrow> 'w \<Rightarrow> bool" where
  "wt_closed_by_peer ops c w \<longleftrightarrow>
     wt_active c \<and> \<not> wc_connected ops (wt_client c) w \<and> wc_available ops (wt_client c) w = 0"

definition wt_close :: "'w wifi_ops \<Rightarrow> wifi_connection \<times> 'w \<Rightarrow> wifi_connection \<times> 'w" where
  "wt_close ops cw =
     (case cw of (c, w) \<Rightarrow>
        (c\<lparr>wt_active := False, wt_line_size := 0, wt_tx_head := 0, wt_tx_size := 0\<rparr>,
         if wt_active c then wc_stop ops (wt_client c) w else w))"

definition wt_update_peer :: "'w wifi_ops \<Rightarrow> 'w \<Rightarrow> wifi_connection \<Rightarrow> wifi_connection" where
  "wt_update_peer ops w c =
     c\<lparr>wt_peer := peer_default\<lparr>peer_host := dotted (wc_remote_ip ops (wt_client c) w)\<rparr>\<rparr>"

definition wt_attach :: "'w wifi_ops \<Rightarrow> nat \<Rightarrow> wifi_connection \<times> 'w \<Rightarrow> bool \<times> wifi_connection \<times> 'w" where
  "wt_attach ops client cw =
     (case wt_close ops cw of (c, w) \<Rightarrow>
        let c1 = wt_update_peer ops w
                   (c\<lparr>wt_client := client, wt_active := True, wt_tx_head := 0, wt_tx_size := 0\<rparr>)
        in (wt_valid ops c1 w, c1, w))"

text \<open>The cast \<^verbatim>\<open>static_cast<size_t>(client_.available())\<close>, on a platform with a 32-bit \<^verbatim>\<open>size_t\<close>.\<close>

definition wt_input_size :: "'w wifi_ops \<Rightarrow> wifi_connection \<Rightarrow> 'w \<Rightarrow> nat" where
  "wt_input_size ops c w =
     (if wt_active c then unat (word_of_int (wc_available ops (wt_client c) w) :: u32) else 0)"

definition wt_output_size :: "wifi_connection \<Rightarrow> nat" where
  "wt_output_size c = wt_tx_size c"

fun wt_read_loop :: "'w wifi_ops \<Rightarrow> nat \<Rightarrow> nat \<Rightarrow> 'w \<Rightarrow> byte list \<times> 'w" where
  "wt_read_loop ops client 0 w = ([], w)"
| "wt_read_loop ops client (Suc k) w =
     (if wc_available ops client w > 0
      then (case wc_read ops client w of (b, w1) \<Rightarrow>
              if b < 0 then ([], w1)
              else (case wt_read_loop ops client k w1 of (bs, w2) \<Rightarrow> (word_of_int b # bs, w2)))
      else ([], w))"

definition wt_read :: "'w wifi_ops \<Rightarrow> bool \<Rightarrow> nat \<Rightarrow> wifi_connection \<Rightarrow> 'w \<Rightarrow> int \<times> byte list \<times> 'w" where
  "wt_read ops dst_null max_len c w =
     (if \<not> wt_active c \<or> dst_null \<or> max_len = 0 then (0, [], w)
      else (case wt_read_loop ops (wt_client c) max_len w of (bs, w1) \<Rightarrow> (int_of_size (length bs), bs, w1)))"

subsection \<open>The transmit buffer\<close>

abbreviation tx_capacity :: "wifi_connection \<Rightarrow> nat" where
  "tx_capacity c \<equiv> length (wt_tx c)"

definition tx_tail :: "wifi_connection \<Rightarrow> nat" where
  "tx_tail c = (wt_tx_head c + wt_tx_size c) mod tx_capacity c"

definition tx_free :: "wifi_connection \<Rightarrow> nat" where
  "tx_free c = tx_capacity c - wt_tx_size c"

definition contiguous_output_size :: "wifi_connection \<Rightarrow> nat" where
  "contiguous_output_size c =
     (if wt_tx_size c = 0 then 0
      else let until_end = tx_capacity c - wt_tx_head c
           in if wt_tx_size c < until_end then wt_tx_size c else until_end)"

text \<open>\<^verbatim>\<open>memcpy(dst + at, bytes, n)\<close>\<close>

definition blit :: "nat \<Rightarrow> 'a list \<Rightarrow> 'a list \<Rightarrow> 'a list" where
  "blit at bytes dst = take at dst @ bytes @ drop (at + length bytes) dst"

function push_output_loop :: "byte list \<Rightarrow> nat \<Rightarrow> wifi_connection \<Rightarrow> nat \<times> wifi_connection" where
  "push_output_loop src pushed c =
     (if pushed < length src \<and> tx_free c > 0
      then let tail = tx_tail c;
               n = min (length src - pushed) (min (tx_capacity c - tail) (tx_free c))
           in push_output_loop src (pushed + n)
                (c\<lparr>wt_tx := blit tail (take n (drop pushed src)) (wt_tx c), wt_tx_size := wt_tx_size c + n\<rparr>)
      else (pushed, c))"
  by pat_completeness auto
termination
proof (relation "measure (\<lambda>(src, pushed, c). length src - pushed)", goal_cases)
  case (2 src pushed c tail n)
  then have "0 < tx_capacity c" unfolding tx_free_def by linarith
  then have "tx_tail c < tx_capacity c" by (simp add: tx_tail_def)
  with 2(1) have "0 < n" unfolding 2(2,3) by simp
  with 2(1) have "length src - (pushed + n) < length src - pushed" by linarith
  then show ?case by simp
qed simp

declare push_output_loop.simps [simp del]

definition push_output :: "byte list \<Rightarrow> wifi_connection \<Rightarrow> nat \<times> wifi_connection" where
  "push_output src c = push_output_loop src 0 c"

definition pop_output :: "nat \<Rightarrow> wifi_connection \<Rightarrow> wifi_connection" where
  "pop_output n c =
     (let len = min n (wt_tx_size c); size = wt_tx_size c - len
      in c\<lparr>wt_tx_head := (if size = 0 then 0 else (wt_tx_head c + len) mod tx_capacity c), wt_tx_size := size\<rparr>)"

definition tx_flush_chunk :: nat where
  "tx_flush_chunk = 64"

text \<open>
  The number of bytes offered to the client in one round: \<open>None\<close> when the round ends the loop.
\<close>

definition flush_chunk :: "'w wifi_ops \<Rightarrow> wifi_connection \<Rightarrow> 'w \<Rightarrow> nat option" where
  "flush_chunk ops c w =
     (let n = contiguous_output_size c
      in if n = 0 then None
         else if wc_esp ops
         then (let writable = wc_available_for_write ops (wt_client c) w
               in if writable \<le> 0 then None else Some (min n (nat writable)))
         else Some (min n tx_flush_chunk))"

function flush_loop :: "'w wifi_ops \<Rightarrow> nat \<Rightarrow> wifi_connection \<times> 'w \<Rightarrow> nat \<times> wifi_connection \<times> 'w" where
  "flush_loop ops flushed (c, w) =
     (if wt_tx_size c > 0 \<and> wc_connected ops (wt_client c) w
      then (case flush_chunk ops c w of
              None \<Rightarrow> (flushed, c, w)
            | Some n \<Rightarrow>
                (let (written, w1) = wc_write ops (wt_client c) (take n (drop (wt_tx_head c) (wt_tx c))) w
                 in if written = 0 then (flushed, c, w1)
                    else if written < n then (flushed + written, pop_output written c, w1)
                    else flush_loop ops (flushed + written) (pop_output written c, w1)))
      else (flushed, c, w))"
  by pat_completeness auto
termination
  by (relation "measure (\<lambda>(ops, flushed, c, w). wt_tx_size c)") (auto simp: pop_output_def Let_def)

declare flush_loop.simps [simp del]

definition flush_output :: "'w wifi_ops \<Rightarrow> wifi_connection \<times> 'w \<Rightarrow> nat \<times> wifi_connection \<times> 'w" where
  "flush_output ops cw =
     (case cw of (c, w) \<Rightarrow>
        if \<not> wt_active c \<or> wt_tx_size c = 0 then (0, c, w) else flush_loop ops 0 (c, w))"

definition wt_write ::
  "'w wifi_ops \<Rightarrow> byte list option \<Rightarrow> wifi_connection \<times> 'w \<Rightarrow> int \<times> wifi_connection \<times> 'w" where
  "wt_write ops src cw =
     (case (src, cw) of
        (Some bytes, (c, w)) \<Rightarrow>
          if \<not> wt_active c \<or> bytes = [] then (0, c, w)
          else (case flush_output ops (c, w) of (flushed, c1, w1) \<Rightarrow>
                  case push_output bytes c1 of (n, c2) \<Rightarrow> (int_of_size n, c2, w1))
      | (None, (c, w)) \<Rightarrow> (0, c, w))"

definition wt_peek :: "'w wifi_ops \<Rightarrow> bool \<Rightarrow> nat \<Rightarrow> wifi_connection \<Rightarrow> 'w \<Rightarrow> byte option" where
  "wt_peek ops dst_null len c w =
     (if \<not> wt_active c \<or> dst_null \<or> len = 0 \<or> wc_available ops (wt_client c) w < int_of_size len then None
      else if len \<noteq> 1 then None
      else let b = wc_peek ops (wt_client c) w in if b < 0 then None else Some (word_of_int b))"

definition wt_read_exact ::
  "'w wifi_ops \<Rightarrow> bool \<Rightarrow> nat \<Rightarrow> wifi_connection \<Rightarrow> 'w \<Rightarrow> bool \<times> byte list \<times> 'w" where
  "wt_read_exact ops dst_null len c w =
     (if dst_null \<or> wt_input_size ops c w < len then (False, [], w)
      else (case wt_read ops dst_null len c w of (n, bs, w1) \<Rightarrow> (n = int_of_size len, bs, w1)))"

subsection \<open>Reading lines\<close>

text \<open>
  The line assembled in \<open>line_\<close>: a byte either completes it, giving the text copied to the caller's
  buffer (without the terminating zero), or is stored; a byte that finds the buffer full empties it.
\<close>

definition line_text :: "bool \<Rightarrow> nat \<Rightarrow> byte list \<Rightarrow> byte list" where
  "line_text strip max_len line =
     (let len = (if strip \<and> length line > 0 \<and> last line = chr_cr then length line - 1 else length line)
      in take (if len < max_len - 1 then len else max_len - 1) line)"

definition store_line_byte :: "byte \<Rightarrow> wifi_connection \<Rightarrow> wifi_connection" where
  "store_line_byte b c =
     (if wt_line_size c < length (wt_line c)
      then c\<lparr>wt_line := (wt_line c)[wt_line_size c := b], wt_line_size := wt_line_size c + 1\<rparr>
      else c\<lparr>wt_line_size := 0\<rparr>)"

text \<open>The client keeps delivering bytes while \<open>available()\<close> is positive, which may be for ever.\<close>

partial_function (option) wt_read_line_loop ::
  "'w wifi_ops \<Rightarrow> nat \<Rightarrow> bool \<Rightarrow> wifi_connection \<times> 'w \<Rightarrow> (byte list option \<times> wifi_connection \<times> 'w) option" where
  "wt_read_line_loop ops max_len strip cw =
     (case cw of (c, w) \<Rightarrow>
        if wc_available ops (wt_client c) w > 0
        then (case wc_read ops (wt_client c) w of (b, w1) \<Rightarrow>
                if b < 0 then Some (None, c, w1)
                else if b = 10
                then Some (Some (line_text strip max_len (take (wt_line_size c) (wt_line c))),
                           c\<lparr>wt_line_size := 0\<rparr>, w1)
                else wt_read_line_loop ops max_len strip (store_line_byte (word_of_int b) c, w1))
        else Some (None, c, w))"

declare wt_read_line_loop.simps [code]

definition wt_read_line ::
  "'w wifi_ops \<Rightarrow> bool \<Rightarrow> nat \<Rightarrow> bool \<Rightarrow> wifi_connection \<times> 'w
     \<Rightarrow> (byte list option \<times> wifi_connection \<times> 'w) option" where
  "wt_read_line ops dst_null max_len strip cw =
     (if dst_null \<or> max_len = 0 then Some (None, cw) else wt_read_line_loop ops max_len strip cw)"


section \<open>The transmit queue\<close>

definition tx_list :: "wifi_connection \<Rightarrow> byte list" where
  "tx_list c = map (\<lambda>k. wt_tx c ! ((wt_tx_head c + k) mod tx_capacity c)) [0..<wt_tx_size c]"

definition tx_inv :: "wifi_connection \<Rightarrow> bool" where
  "tx_inv c \<longleftrightarrow> wt_tx_size c \<le> tx_capacity c \<and> (wt_tx_head c < tx_capacity c \<or> wt_tx_head c = 0)"

lemma length_tx_list [simp]: "length (tx_list c) = wt_tx_size c"
  by (simp add: tx_list_def)

lemma nth_blit:
  "at + length bytes \<le> length dst \<Longrightarrow> i < length dst \<Longrightarrow>
   blit at bytes dst ! i = (if at \<le> i \<and> i < at + length bytes then bytes ! (i - at) else dst ! i)"
  by (auto simp: blit_def nth_append)

lemma length_blit [simp]: "at + length bytes \<le> length dst \<Longrightarrow> length (blit at bytes dst) = length dst"
  by (simp add: blit_def)

lemma mod_below_twice: "(x :: nat) < 2 * n \<Longrightarrow> x mod n = (if x < n then x else x - n)"
  by (auto simp: mod_if)

text \<open>One block of \<open>push_output\<close>, which fits between the tail and the end of the array.\<close>

lemma push_block:
  assumes "tx_inv c" "length bs \<le> tx_free c" "length bs \<le> tx_capacity c - tx_tail c" "0 < tx_capacity c"
    "c' = c\<lparr>wt_tx := blit (tx_tail c) bs (wt_tx c), wt_tx_size := wt_tx_size c + length bs\<rparr>"
  shows "tx_inv c' \<and> tx_list c' = tx_list c @ bs"
proof -
  let ?n = "tx_capacity c" and ?h = "wt_tx_head c" and ?s = "wt_tx_size c"
  have tail: "tx_tail c < ?n" using assms(4) by (simp add: tx_tail_def)
  have fit: "tx_tail c + length bs \<le> ?n" using assms(3) tail by simp
  have h: "?h < ?n" "?s + length bs \<le> ?n" using assms(1,2,4) by (auto simp: tx_inv_def tx_free_def)
  have "tx_list c' = tx_list c @ bs"
  proof (rule nth_equalityI)
    show "length (tx_list c') = length (tx_list c @ bs)" by (simp add: assms(5))
  next
    fix k assume "k < length (tx_list c')"
    then have k: "k < ?s + length bs" by (simp add: assms(5))
    have at: "(?h + k) mod ?n < ?n" using assms(4) by simp
    have hit: "tx_tail c \<le> (?h + k) mod ?n \<and> (?h + k) mod ?n < tx_tail c + length bs \<longleftrightarrow> ?s \<le> k"
      "?s \<le> k \<Longrightarrow> (?h + k) mod ?n - tx_tail c = k - ?s"
      using k h fit by (auto simp: tx_tail_def mod_below_twice split: if_splits)
    have "tx_list c' ! k = blit (tx_tail c) bs (wt_tx c) ! ((?h + k) mod ?n)"
      using k fit by (simp add: tx_list_def assms(5))
    also have "\<dots> = (if ?s \<le> k then bs ! (k - ?s) else wt_tx c ! ((?h + k) mod ?n))"
      using nth_blit [OF fit at] hit by simp
    also have "\<dots> = (tx_list c @ bs) ! k"
      using k by (simp add: nth_append tx_list_def)
    finally show "tx_list c' ! k = (tx_list c @ bs) ! k" .
  qed
  then show ?thesis using h fit by (simp add: tx_inv_def assms(5))
qed

lemma take_drop_split: "k \<le> m \<Longrightarrow> take m (drop p xs) = take k (drop p xs) @ take (m - k) (drop (p + k) xs)"
  by (metis add.commute drop_drop le_add_diff_inverse take_add)

lemma push_output_loop_spec:
  assumes "tx_inv c" "push_output_loop src pushed c = (n, c')" "pushed \<le> length src"
  shows "tx_inv c' \<and> n = min (length src) (pushed + tx_free c)
    \<and> tx_list c' = tx_list c @ take (n - pushed) (drop pushed src)
    \<and> wt_active c' = wt_active c \<and> wt_client c' = wt_client c \<and> tx_capacity c' = tx_capacity c"
  using assms
proof (induction src pushed c arbitrary: n c' rule: push_output_loop.induct)
  case (1 src pushed c)
  show ?case
  proof (cases "pushed < length src \<and> tx_free c > 0")
    case False
    with "1.prems" show ?thesis by (auto simp: push_output_loop.simps [of src pushed c])
  next
    case True
    define m where "m = min (length src - pushed) (min (tx_capacity c - tx_tail c) (tx_free c))"
    define bs where "bs = take m (drop pushed src)"
    define c1 where "c1 = c\<lparr>wt_tx := blit (tx_tail c) bs (wt_tx c), wt_tx_size := wt_tx_size c + m\<rparr>"
    have cap: "0 < tx_capacity c" using True unfolding tx_free_def by linarith
    have tail: "tx_tail c < tx_capacity c" using cap by (simp add: tx_tail_def)
    have m: "m \<le> length src - pushed" "m \<le> tx_capacity c - tx_tail c" "m \<le> tx_free c"
      by (simp_all add: m_def)
    then have len: "length bs = m" by (simp add: bs_def)
    have fits: "length bs \<le> tx_free c" "length bs \<le> tx_capacity c - tx_tail c"
      using m len by simp_all
    have blk: "tx_inv c1" "tx_list c1 = tx_list c @ bs"
      using push_block [OF "1.prems"(1) fits cap, of c1] by (simp_all add: c1_def len)
    have "tx_tail c + length bs \<le> tx_capacity c" using len m(2) tail by linarith
    then have cap1: "tx_capacity c1 = tx_capacity c" by (simp add: c1_def)
    have keep: "wt_active c1 = wt_active c" "wt_client c1 = wt_client c" "wt_tx_size c1 = wt_tx_size c + m"
      by (simp_all add: c1_def)
    have free: "tx_free c1 = tx_free c - m" using cap1 keep(3) by (simp add: tx_free_def)
    have rec: "push_output_loop src (pushed + m) c1 = (n, c')"
      using "1.prems"(2) True
      by (simp add: push_output_loop.simps [of src pushed c] Let_def c1_def bs_def m_def)
    have le: "pushed + m \<le> length src" using True m(1) by linarith
    have IH: "tx_inv c'" "n = min (length src) (pushed + m + tx_free c1)"
      "tx_list c' = tx_list c1 @ take (n - (pushed + m)) (drop (pushed + m) src)"
      "wt_active c' = wt_active c1" "wt_client c' = wt_client c1" "tx_capacity c' = tx_capacity c1"
      using "1.IH" [OF True refl refl, folded m_def, folded bs_def, folded c1_def, OF blk(1) rec le] by blast+
    have n: "n = min (length src) (pushed + tx_free c)" using IH(2) m(3) unfolding free by linarith
    have "m \<le> n - pushed" unfolding n using le m(3) by linarith
    from take_drop_split [OF this, of pushed src]
    have "take (n - pushed) (drop pushed src) = bs @ take (n - (pushed + m)) (drop (pushed + m) src)"
      by (simp add: bs_def)
    then have "tx_list c' = tx_list c @ take (n - pushed) (drop pushed src)"
      using IH(3) blk(2) by simp
    with IH(1,4-6) n cap1 keep show ?thesis by metis
  qed
qed

lemma push_output_spec:
  assumes "tx_inv c" "push_output src c = (n, c')"
  shows "tx_inv c' \<and> n = min (length src) (tx_free c) \<and> tx_list c' = tx_list c @ take n src
    \<and> wt_active c' = wt_active c \<and> wt_client c' = wt_client c \<and> tx_capacity c' = tx_capacity c"
  using push_output_loop_spec [OF assms(1), of src 0] assms(2) by (simp add: push_output_def)

lemma pop_output_spec:
  assumes "tx_inv c"
  shows "tx_inv (pop_output n c)" "tx_list (pop_output n c) = drop n (tx_list c)"
proof -
  let ?m = "min n (wt_tx_size c)"
  show "tx_inv (pop_output n c)"
    using assms by (auto simp: tx_inv_def pop_output_def Let_def intro!: mod_less_divisor)
  have "((wt_tx_head c + ?m) mod tx_capacity c + k) mod tx_capacity c = (wt_tx_head c + (?m + k)) mod tx_capacity c" for k
    by (simp add: mod_add_left_eq add.assoc)
  then show "tx_list (pop_output n c) = drop n (tx_list c)"
    by (intro nth_equalityI) (auto simp: tx_list_def pop_output_def Let_def min_def)
qed

text \<open>The bytes offered to the client in one round are the first bytes of the queue.\<close>

lemma contiguous_prefix:
  assumes "tx_inv c" "n \<le> contiguous_output_size c"
  shows "take n (drop (wt_tx_head c) (wt_tx c)) = take n (tx_list c)"
proof (rule nth_equalityI)
  have le: "n \<le> wt_tx_size c" "n \<le> tx_capacity c - wt_tx_head c"
    using assms(2) by (auto simp: contiguous_output_size_def Let_def split: if_splits)
  show "length (take n (drop (wt_tx_head c) (wt_tx c))) = length (take n (tx_list c))"
    using le by simp
  fix k assume "k < length (take n (drop (wt_tx_head c) (wt_tx c)))"
  then have "k < n" "wt_tx_head c + k < tx_capacity c" using le by auto
  then show "take n (drop (wt_tx_head c) (wt_tx c)) ! k = take n (tx_list c) ! k"
    using le by (simp add: tx_list_def)
qed

section \<open>Flushing\<close>

text \<open>
  What the code relies on of \<open>WiFiClient::write\<close>: it takes a prefix of what it is offered, on the
  client's own socket, and returns its length. \<open>sent\<close> is what a socket has taken so far.
\<close>

definition client_writes :: "'w wifi_ops \<Rightarrow> (nat \<Rightarrow> 'w \<Rightarrow> byte list) \<Rightarrow> bool" where
  "client_writes ops sent \<longleftrightarrow> (\<forall>c bytes w k w'. wc_write ops c bytes w = (k, w') \<longrightarrow>
     k \<le> length bytes \<and> sent c w' = sent c w @ take k bytes)"

lemma flush_chunk_le: "flush_chunk ops c w = Some n \<Longrightarrow> n \<le> contiguous_output_size c"
  by (auto simp: flush_chunk_def Let_def split: if_splits)

lemma contiguous_le: "contiguous_output_size c \<le> wt_tx_size c"
  by (simp add: contiguous_output_size_def Let_def)

lemma pop_output_simps [simp]:
  "wt_active (pop_output n c) = wt_active c" "wt_client (pop_output n c) = wt_client c"
  "wt_tx (pop_output n c) = wt_tx c" "wt_tx_size (pop_output n c) = wt_tx_size c - n"
  by (auto simp: pop_output_def Let_def)

lemma flush_round:
  assumes "client_writes ops sent" "tx_inv c" "flush_chunk ops c w = Some n"
    "wc_write ops (wt_client c) (take n (drop (wt_tx_head c) (wt_tx c))) w = (k, w1)"
  shows "k \<le> n" "k \<le> wt_tx_size c" "sent (wt_client c) w1 = sent (wt_client c) w @ take k (tx_list c)"
proof -
  note n = flush_chunk_le [OF assms(3)]
  have pre: "take n (drop (wt_tx_head c) (wt_tx c)) = take n (tx_list c)"
    by (rule contiguous_prefix [OF assms(2) n])
  have w: "k \<le> length (take n (tx_list c))"
    "sent (wt_client c) w1 = sent (wt_client c) w @ take k (take n (tx_list c))"
    using assms(1,4) unfolding client_writes_def pre by blast+
  then show k: "k \<le> n" "k \<le> wt_tx_size c" by simp_all
  show "sent (wt_client c) w1 = sent (wt_client c) w @ take k (tx_list c)"
    using w(2) k(1) by (simp add: min_absorb1)
qed

text \<open>A flush moves a prefix of the queue to the socket.\<close>

definition flushed_to ::
  "(nat \<Rightarrow> 'w \<Rightarrow> byte list) \<Rightarrow> wifi_connection \<Rightarrow> 'w \<Rightarrow> nat \<Rightarrow> wifi_connection \<Rightarrow> 'w \<Rightarrow> bool" where
  "flushed_to sent c w j c' w' \<longleftrightarrow> tx_inv c' \<and> j \<le> wt_tx_size c
     \<and> sent (wt_client c) w' = sent (wt_client c) w @ take j (tx_list c) \<and> tx_list c' = drop j (tx_list c)
     \<and> wt_active c' = wt_active c \<and> wt_client c' = wt_client c \<and> wt_tx c' = wt_tx c"

lemma flushed_to_refl: "tx_inv c \<Longrightarrow> flushed_to sent c w 0 c w"
  by (simp add: flushed_to_def)

lemma flushed_to_trans:
  assumes "flushed_to sent c w i c1 w1" "flushed_to sent c1 w1 j c2 w2"
  shows "flushed_to sent c w (i + j) c2 w2"
proof -
  have "wt_tx_size c1 = wt_tx_size c - i" using assms(1) by (metis flushed_to_def length_drop length_tx_list)
  moreover from this assms have "i + j \<le> wt_tx_size c" by (auto simp: flushed_to_def)
  ultimately show ?thesis using assms by (simp add: flushed_to_def take_add add.commute)
qed

lemma flush_loop_spec:
  assumes "client_writes ops sent" "tx_inv c" "flush_loop ops flushed (c, w) = (f, c', w')"
  shows "\<exists>j. flushed_to sent c w j c' w' \<and> f = flushed + j"
  using assms(2,3)
proof (induction "wt_tx_size c" arbitrary: c w flushed rule: less_induct)
  case less
  show ?case
  proof (cases "wt_tx_size c > 0 \<and> wc_connected ops (wt_client c) w \<and> flush_chunk ops c w \<noteq> None")
    case False
    with less.prems flushed_to_refl [OF less.prems(1)] show ?thesis
      by (auto simp: flush_loop.simps [of ops flushed c w] split: if_splits)
  next
    case True
    then obtain n where n: "flush_chunk ops c w = Some n" by blast
    obtain k w1 where wr: "wc_write ops (wt_client c) (take n (drop (wt_tx_head c) (wt_tx c))) w = (k, w1)"
      by fastforce
    note r = flush_round [OF assms(1) less.prems(1) n wr]
    have step: "flushed_to sent c w k (pop_output k c) w1"
      using r pop_output_spec [OF less.prems(1)] by (simp add: flushed_to_def)
    have eq: "flush_loop ops flushed (c, w) = (if k = 0 then (flushed, c, w1)
        else if k < n then (flushed + k, pop_output k c, w1)
        else flush_loop ops (flushed + k) (pop_output k c, w1))"
      using True n wr by (subst flush_loop.simps) simp
    consider "k = 0" "f = flushed" "c' = c" "w' = w1"
      | "k \<noteq> 0" "f = flushed + k" "c' = pop_output k c" "w' = w1"
      | "k \<noteq> 0" "flush_loop ops (flushed + k) (pop_output k c, w1) = (f, c', w')"
      using less.prems(2) unfolding eq
      by (cases "k = 0"; cases "k < n") (simp_all only: simp_thms if_True if_False prod.inject)
    then show ?thesis
    proof cases
      case 1
      with r(3) less.prems(1) show ?thesis by (intro exI [of _ 0]) (simp add: flushed_to_def)
    next
      case 2
      with step show ?thesis by blast
    next
      case 3
      from 3(1) r(2) have "wt_tx_size (pop_output k c) < wt_tx_size c" by simp
      moreover have "tx_inv (pop_output k c)" by (rule pop_output_spec(1) [OF less.prems(1)])
      ultimately obtain j where "flushed_to sent (pop_output k c) w1 j c' w'" "f = flushed + k + j"
        using less.hyps 3(2) by blast
      with flushed_to_trans [OF step] show ?thesis by (intro exI [of _ "k + j"]) simp
    qed
  qed
qed

lemma flush_output_spec:
  assumes "client_writes ops sent" "tx_inv c" "flush_output ops (c, w) = (f, c', w')"
  shows "flushed_to sent c w f c' w'"
  using flush_loop_spec [OF assms(1,2), of 0 w f c' w'] flushed_to_refl [OF assms(2)] assms(3)
  by (auto simp: flush_output_def split: if_splits)

text \<open>A history of one connection's output: writes, and the server's flushes.\<close>

datatype tx_op = Tx_Write "byte list" | Tx_Flush

fun tx_run :: "'w wifi_ops \<Rightarrow> tx_op list \<Rightarrow> wifi_connection \<times> 'w \<Rightarrow> byte list \<times> wifi_connection \<times> 'w" where
  "tx_run ops [] cw = ([], cw)"
| "tx_run ops (Tx_Write bytes # ps) cw =
     (case wt_write ops (Some bytes) cw of (k, cw1) \<Rightarrow>
        case tx_run ops ps cw1 of (acc, cw2) \<Rightarrow> (take (nat k) bytes @ acc, cw2))"
| "tx_run ops (Tx_Flush # ps) cw =
     (case flush_output ops cw of (f, cw1) \<Rightarrow> tx_run ops ps cw1)"

lemma wt_write_spec:
  assumes "client_writes ops sent" "tx_inv c" "tx_capacity c < 2 ^ 31"
    "wt_write ops (Some bytes) (c, w) = (k, c', w')"
  shows "tx_inv c' \<and> sent (wt_client c) w' @ tx_list c' = sent (wt_client c) w @ tx_list c @ take (nat k) bytes
    \<and> wt_active c' = wt_active c \<and> wt_client c' = wt_client c \<and> tx_capacity c' = tx_capacity c
    \<and> 0 \<le> k \<and> nat k \<le> length bytes"
proof (cases "\<not> wt_active c \<or> bytes = []")
  case True
  with assms(2,4) show ?thesis by (auto simp: wt_write_def)
next
  case False
  obtain f c1 w1 where fl: "flush_output ops (c, w) = (f, c1, w1)" by (metis prod_cases3)
  obtain n c2 where pu: "push_output bytes c1 = (n, c2)" by fastforce
  note f = flush_output_spec [OF assms(1,2) fl]
  from f have inv: "tx_inv c1" "tx_capacity c1 = tx_capacity c" by (simp_all add: flushed_to_def)
  note q = push_output_spec [OF inv(1) pu]
  have r: "k = int_of_size n" "c' = c2" "w' = w1"
    using assms(4) False fl pu by (auto simp: wt_write_def)
  have "n \<le> tx_capacity c" using inv(2) q by (simp add: tx_free_def)
  with assms(3) have "int_of_size n = int n" by (simp add: int_of_size_small)
  with f q r show ?thesis by (simp add: flushed_to_def)
qed

lemma tx_run_spec:
  assumes "client_writes ops sent"
  shows "tx_inv c \<Longrightarrow> tx_capacity c < 2 ^ 31 \<Longrightarrow> tx_run ops ps (c, w) = (acc, c', w') \<Longrightarrow>
    tx_inv c' \<and> sent (wt_client c) w' @ tx_list c' = sent (wt_client c) w @ tx_list c @ acc"
proof (induction ps arbitrary: c w acc c' w')
  case Nil
  then show ?case by simp
next
  case (Cons p ps)
  show ?case
  proof (cases p)
    case (Tx_Write bytes)
    obtain k c1 w1 where w: "wt_write ops (Some bytes) (c, w) = (k, c1, w1)" by (metis prod_cases3)
    obtain acc1 c2 w2 where r: "tx_run ops ps (c1, w1) = (acc1, c2, w2)" by (metis prod_cases3)
    note s = wt_write_spec [OF assms Cons.prems(1,2) w]
    with Cons.IH [OF _ _ r] Cons.prems w r Tx_Write show ?thesis by auto
  next
    case Tx_Flush
    obtain f c1 w1 where w: "flush_output ops (c, w) = (f, c1, w1)" by (metis prod_cases3)
    from flush_output_spec [OF assms Cons.prems(1) w] have s: "tx_inv c1" "tx_capacity c1 = tx_capacity c"
      "sent (wt_client c) w1 @ tx_list c1 = sent (wt_client c) w @ tx_list c" "wt_client c1 = wt_client c"
      by (simp_all add: flushed_to_def)
    with Cons.IH [of c1 w1 acc c' w'] Cons.prems w Tx_Flush show ?thesis by simp
  qed
qed

text \<open>
  C19: the output of a WiFi connection is a queue: over any history of writes and flushes, whatever
  the socket takes in each round, the bytes the socket has taken followed by the bytes in the ring
  are those before followed by the bytes the writes reported as accepted.
\<close>

theorem wifi_output_fifo:
  assumes "client_writes ops sent" "tx_inv c" "tx_capacity c < 2 ^ 31" "tx_run ops ps (c, w) = (acc, c', w')"
  shows "sent (wt_client c) w' @ tx_list c' = sent (wt_client c) w @ tx_list c @ acc"
  using tx_run_spec [OF assms] by blast

text \<open>A socket that takes up to three bytes per call; the outside state is what each socket took.\<close>

definition slow_wifi :: "(nat \<Rightarrow> byte list) wifi_ops" where
  "slow_wifi = \<lparr>wc_esp = False, wc_default = 0, wc_bool = (\<lambda>c w. c \<noteq> 0), wc_connected = (\<lambda>c w. c \<noteq> 0),
     wc_available = (\<lambda>c w. 0), wc_read = (\<lambda>c w. (- 1, w)), wc_peek = (\<lambda>c w. - 1),
     wc_write = (\<lambda>c bytes w. let k = min 3 (length bytes) in (k, w(c := w c @ take k bytes))),
     wc_available_for_write = (\<lambda>c w. 3), wc_stop = (\<lambda>c w. w), wc_remote_ip = (\<lambda>c w. [192, 168, 0, 7]),
     wc_connect = (\<lambda>host port w. (True, 1, w)), ws_begin = (\<lambda>port w. w), ws_available = (\<lambda>w. (0, w)),
     ws_stop = (\<lambda>w. w)\<rparr>"

lemma slow_wifi_writes: "client_writes slow_wifi (\<lambda>c w. w c)"
  by (auto simp: client_writes_def slow_wifi_def Let_def)

definition demo_wifi :: wifi_connection where
  "demo_wifi = (wt_init slow_wifi)\<lparr>wt_client := 1, wt_active := True, wt_tx := [0, 0, 0, 0, 0]\<rparr>"

lemma demo_wifi_inv: "tx_inv demo_wifi" "tx_capacity demo_wifi < 2 ^ 31" "tx_list demo_wifi = []" "wt_client demo_wifi = 1"
  by (simp_all add: demo_wifi_def tx_inv_def wt_init_def tx_list_def)

lemma wifi_output_fifo_witness:
  "case tx_run slow_wifi [Tx_Write [1, 2, 3, 4], Tx_Write [5, 6, 7], Tx_Flush] (demo_wifi, \<lambda>c. []) of
     (acc, c', w') \<Rightarrow> w' 1 @ tx_list c' = acc"
proof -
  let ?ps = "[Tx_Write [1, 2, 3, 4], Tx_Write [5, 6, 7], Tx_Flush]"
  obtain acc c' w' where r: "tx_run slow_wifi ?ps (demo_wifi, \<lambda>c. []) = (acc, c', w')" by (metis prod_cases3)
  from wifi_output_fifo [OF slow_wifi_writes demo_wifi_inv(1,2) r] r show ?thesis
    by (simp add: demo_wifi_inv(3,4))
qed

text \<open>
  Bytes written to a WiFi connection that is then closed are never sent: \<open>write\<close> flushes only what
  was queued before it, and \<open>close\<close> empties the queue, so a reply written just before \<open>close\<close> is lost
  although \<open>write\<close> reported it as accepted.
\<close>

theorem wifi_close_discards_output:
  assumes "client_writes ops sent" "tx_inv c"
    "wt_write ops (Some bytes) (c, w) = (k, c1, w1)" "wt_close ops (c1, w1) = (c2, w2)"
    "\<forall>w. sent (wt_client c) (wc_stop ops (wt_client c) w) = sent (wt_client c) w"
  shows "(\<exists>j \<le> wt_tx_size c. sent (wt_client c) w2 = sent (wt_client c) w @ take j (tx_list c)) \<and> tx_list c2 = []"
proof -
  have close: "tx_list c2 = []" using assms(4) by (auto simp: wt_close_def tx_list_def)
  have "\<exists>j \<le> wt_tx_size c. sent (wt_client c) w1 = sent (wt_client c) w @ take j (tx_list c) \<and> wt_client c1 = wt_client c"
  proof (cases "\<not> wt_active c \<or> bytes = []")
    case True
    with assms(3) show ?thesis by (auto simp: wt_write_def)
  next
    case False
    obtain f cf wf where fl: "flush_output ops (c, w) = (f, cf, wf)" by (metis prod_cases3)
    obtain n cp where pu: "push_output bytes cf = (n, cp)" by fastforce
    note f = flush_output_spec [OF assms(1,2) fl]
    from f have "tx_inv cf" by (simp add: flushed_to_def)
    note q = push_output_spec [OF this pu]
    have r: "c1 = cp" "w1 = wf" using assms(3) False fl pu by (auto simp: wt_write_def)
    from f q r show ?thesis by (intro exI [of _ f]) (simp add: flushed_to_def)
  qed
  with close assms(4,5) show ?thesis by (auto simp: wt_close_def)
qed

lemma wifi_close_discards_output_witness:
  "(snd (wt_close slow_wifi (snd (wt_write slow_wifi (Some [98, 121, 101]) (demo_wifi, \<lambda>c. []))))) 1 = []"
proof -
  obtain k c1 w1 where w: "wt_write slow_wifi (Some [98, 121, 101]) (demo_wifi, \<lambda>c. []) = (k, c1, w1)"
    by (metis prod_cases3)
  obtain c2 w2 where c: "wt_close slow_wifi (c1, w1) = (c2, w2)" by fastforce
  have "\<forall>w. wc_stop slow_wifi (wt_client demo_wifi) w (wt_client demo_wifi) = w (wt_client demo_wifi)"
    by (simp add: slow_wifi_def)
  from wifi_close_discards_output [OF slow_wifi_writes demo_wifi_inv(1) w c this] w c show ?thesis
    by (simp add: demo_wifi_inv(3,4))
qed

end
