(* ===== verification/Wifi_Server.thy ===== *)
theory Wifi_Server
  imports Wifi_Tcp
begin

text \<open>
  \<open>ArduinoWiFiTcpServer\<close> and \<open>ArduinoWiFiTcpClient\<close> of
  \<^verbatim>\<open>src/async_event_loop_arduino/arduino_wifi_tcp.hpp\<close>. The state of a program is the server (or client)
  and the outside state \<open>'w\<close>; a connection is named by its slot. A callback is handed the whole state:
  it may write to, read from and close connections, and close the server. A call through a null
  \<open>handler_\<close> has no defined effect, which is \<open>None\<close>, like a callback that does not return.
\<close>

section \<open>The server\<close>

record wifi_server =
  sv_max_connections :: nat
  sv_server :: bool
  sv_handler :: bool
  sv_bound_port :: u16
  sv_active :: bool
  sv_registered :: bool
  sv_connections :: "wifi_connection list"

definition max_slots :: nat where
  "max_slots = 4"

text \<open>The constructor registers the server with the scheduler as the periodic task \<open>task\<close>.\<close>

definition sv_create ::
  "'w wifi_ops \<Rightarrow> 's sched_ops \<Rightarrow> nat \<Rightarrow> nat \<Rightarrow> u64 \<Rightarrow> 's \<Rightarrow> wifi_server \<times> 's" where
  "sv_create ops sched task max_connections now s =
     (case so_add_periodic sched task 1000 now s of (ok, s') \<Rightarrow>
        (\<lparr>sv_max_connections = (if max_connections > max_slots then max_slots else max_connections),
          sv_server = False, sv_handler = False, sv_bound_port = 0, sv_active = False, sv_registered = ok,
          sv_connections = replicate max_slots (wt_init ops)\<rparr>, s'))"

definition sv_set_connection :: "nat \<Rightarrow> wifi_connection \<Rightarrow> wifi_server \<Rightarrow> wifi_server" where
  "sv_set_connection i c s = s\<lparr>sv_connections := (sv_connections s)[i := c]\<rparr>"

text \<open>An operation of the connection in slot \<open>i\<close>, on the server's state.\<close>

definition sv_close_connection :: "'w wifi_ops \<Rightarrow> nat \<Rightarrow> wifi_server \<times> 'w \<Rightarrow> wifi_server \<times> 'w" where
  "sv_close_connection ops i sw =
     (case sw of (s, w) \<Rightarrow> case wt_close ops (sv_connections s ! i, w) of (c, w1) \<Rightarrow> (sv_set_connection i c s, w1))"

definition sv_connection_valid :: "'w wifi_ops \<Rightarrow> nat \<Rightarrow> wifi_server \<times> 'w \<Rightarrow> bool" where
  "sv_connection_valid ops i sw = wt_valid ops (sv_connections (fst sw) ! i) (snd sw)"

definition sv_close :: "'w wifi_ops \<Rightarrow> wifi_server \<times> 'w \<Rightarrow> wifi_server \<times> 'w" where
  "sv_close ops sw =
     (let (s, w) = fold (\<lambda>i sw. if sv_connection_valid ops i sw then sv_close_connection ops i sw else sw)
                     [0..<max_slots] sw
      in (s\<lparr>sv_server := False, sv_active := False, sv_handler := False, sv_bound_port := 0\<rparr>,
          if sv_server s then ws_stop ops w else w))"

definition sv_destroy ::
  "'w wifi_ops \<Rightarrow> 's sched_ops \<Rightarrow> nat \<Rightarrow> 's \<Rightarrow> wifi_server \<times> 'w \<Rightarrow> 's \<times> wifi_server \<times> 'w" where
  "sv_destroy ops sched task s sw =
     (case sw of (sv, w) \<Rightarrow>
        if sv_registered sv then (snd (so_remove sched task s), sv_close ops (sv\<lparr>sv_registered := False\<rparr>, w))
        else (s, sv_close ops sw))"

definition sv_listen :: "'w wifi_ops \<Rightarrow> u16 \<Rightarrow> wifi_server \<times> 'w \<Rightarrow> bool \<times> wifi_server \<times> 'w" where
  "sv_listen ops port sw =
     (case sv_close ops sw of (s, w) \<Rightarrow>
        if port = 0 then (False, s, w)
        else (True, s\<lparr>sv_server := True, sv_handler := True, sv_bound_port := port, sv_active := True\<rparr>,
              ws_begin ops port w))"

definition sv_valid :: "wifi_server \<Rightarrow> bool" where
  "sv_valid s \<longleftrightarrow> sv_active s \<and> sv_server s"

definition sv_connection_count :: "'w wifi_ops \<Rightarrow> wifi_server \<times> 'w \<Rightarrow> nat" where
  "sv_connection_count ops sw = length (filter (\<lambda>i. sv_connection_valid ops i sw) [0..<max_slots])"

text \<open>A call through \<open>handler_\<close>.\<close>

definition sv_call :: "(wifi_server \<times> 'w \<Rightarrow> (wifi_server \<times> 'w) option) \<Rightarrow> wifi_server \<times> 'w \<Rightarrow> (wifi_server \<times> 'w) option" where
  "sv_call f sw = (if sv_handler (fst sw) then f sw else None)"

fun sv_first_free :: "'w wifi_ops \<Rightarrow> nat list \<Rightarrow> wifi_server \<times> 'w \<Rightarrow> nat option" where
  "sv_first_free ops [] sw = None"
| "sv_first_free ops (i # is) sw =
     (if \<not> sv_connection_valid ops i sw then Some i else sv_first_free ops is sw)"

definition sv_accept ::
  "'w wifi_ops \<Rightarrow> (wifi_server \<times> 'w) tcp_server_handler \<Rightarrow> wifi_server \<times> 'w \<Rightarrow> (wifi_server \<times> 'w) option" where
  "sv_accept ops h sw =
     (case sw of (s, w) \<Rightarrow>
        case ws_available ops w of (client, w1) \<Rightarrow>
          if \<not> wc_bool ops client w1 then Some (s, w1)
          else (case sv_first_free ops [0..<sv_max_connections s] (s, w1) of
                  None \<Rightarrow> Some (s, wc_stop ops client w1)
                | Some i \<Rightarrow>
                    (case wt_attach ops client (sv_connections s ! i, w1) of (ok, c, w2) \<Rightarrow>
                       sv_call (sh_on_accept h i (wt_peer c)) (sv_set_connection i c s, w2))))"

text \<open>The body of the loop in \<open>poll_connections\<close>, in the order of its statements.\<close>

definition sv_flush :: "'w wifi_ops \<Rightarrow> nat \<Rightarrow> wifi_server \<times> 'w \<Rightarrow> nat \<times> wifi_server \<times> 'w" where
  "sv_flush ops i sw =
     (case sw of (s, w) \<Rightarrow>
        case flush_output ops (sv_connections s ! i, w) of (n, c, w1) \<Rightarrow> (n, sv_set_connection i c s, w1))"

definition sv_poll_connection ::
  "'w wifi_ops \<Rightarrow> (wifi_server \<times> 'w) tcp_server_handler \<Rightarrow> nat \<Rightarrow> wifi_server \<times> 'w \<Rightarrow> (wifi_server \<times> 'w) option" where
  "sv_poll_connection ops h i sw =
     (if \<not> sv_connection_valid ops i sw then Some sw
      else do {
        let (n, sw1) = sv_flush ops i sw;
        sw2 \<leftarrow> if n > 0 then sv_call (sh_on_write_ready h i) sw1 else Some sw1;
        sw3 \<leftarrow> if wt_input_size ops (sv_connections (fst sw2) ! i) (snd sw2) > 0
               then sv_call (sh_on_data h i) sw2 else Some sw2;
        if wt_closed_by_peer ops (sv_connections (fst sw3) ! i) (snd sw3)
        then do { sw4 \<leftarrow> sv_call (sh_on_close h i) sw3; Some (sv_close_connection ops i sw4) }
        else Some sw3
      })"

fun sv_poll_connections ::
  "'w wifi_ops \<Rightarrow> (wifi_server \<times> 'w) tcp_server_handler \<Rightarrow> nat list \<Rightarrow> wifi_server \<times> 'w \<Rightarrow> (wifi_server \<times> 'w) option" where
  "sv_poll_connections ops h [] sw = Some sw"
| "sv_poll_connections ops h (i # is) sw =
     do { sw1 \<leftarrow> sv_poll_connection ops h i sw; sv_poll_connections ops h is sw1 }"

definition sv_poll ::
  "'w wifi_ops \<Rightarrow> (wifi_server \<times> 'w) tcp_server_handler \<Rightarrow> wifi_server \<times> 'w \<Rightarrow> (wifi_server \<times> 'w) option" where
  "sv_poll ops h sw =
     (if \<not> sv_valid (fst sw) \<or> \<not> sv_handler (fst sw) then Some sw
      else do { sw1 \<leftarrow> sv_accept ops h sw; sv_poll_connections ops h [0..<sv_max_connections (fst sw1)] sw1 })"

section \<open>The client\<close>

record wifi_client =
  cl_handler :: bool
  cl_registered :: bool
  cl_connection :: wifi_connection

definition cl_create :: "'w wifi_ops \<Rightarrow> 's sched_ops \<Rightarrow> nat \<Rightarrow> u64 \<Rightarrow> 's \<Rightarrow> wifi_client \<times> 's" where
  "cl_create ops sched task now s =
     (case so_add_periodic sched task 1000 now s of (ok, s') \<Rightarrow>
        (\<lparr>cl_handler = False, cl_registered = ok, cl_connection = wt_init ops\<rparr>, s'))"

definition cl_close :: "'w wifi_ops \<Rightarrow> wifi_client \<times> 'w \<Rightarrow> wifi_client \<times> 'w" where
  "cl_close ops sw =
     (case sw of (s, w) \<Rightarrow> case wt_close ops (cl_connection s, w) of (c, w1) \<Rightarrow>
        (s\<lparr>cl_connection := c, cl_handler := False\<rparr>, w1))"

definition cl_destroy ::
  "'w wifi_ops \<Rightarrow> 's sched_ops \<Rightarrow> nat \<Rightarrow> 's \<Rightarrow> wifi_client \<times> 'w \<Rightarrow> 's \<times> wifi_client \<times> 'w" where
  "cl_destroy ops sched task s sw =
     (case sw of (cl, w) \<Rightarrow>
        if cl_registered cl then (snd (so_remove sched task s), cl_close ops (cl\<lparr>cl_registered := False\<rparr>, w))
        else (s, cl_close ops sw))"

definition cl_connect ::
  "'w wifi_ops \<Rightarrow> (wifi_client \<times> 'w) tcp_client_handler \<Rightarrow> string option \<Rightarrow> u16 \<Rightarrow> wifi_client \<times> 'w
     \<Rightarrow> (bool \<times> wifi_client \<times> 'w) option" where
  "cl_connect ops h host port sw =
     (case cl_close ops sw of (s, w) \<Rightarrow>
        if host = None \<or> port = 0 then do { sw1 \<leftarrow> kh_on_error h (- 1) (s, w); Some (False, sw1) }
        else (case wc_connect ops (the host) port w of (ok, client, w1) \<Rightarrow>
                if \<not> ok then do { sw1 \<leftarrow> kh_on_error h (- 1) (s, w1); Some (False, sw1) }
                else (case wt_attach ops client (cl_connection s, w1) of (valid, c, w2) \<Rightarrow>
                        do { sw1 \<leftarrow> kh_on_connect h (wt_peer c) (s\<lparr>cl_connection := c, cl_handler := True\<rparr>, w2);
                             Some (True, sw1) })))"

definition cl_valid :: "'w wifi_ops \<Rightarrow> wifi_client \<times> 'w \<Rightarrow> bool" where
  "cl_valid ops sw = wt_valid ops (cl_connection (fst sw)) (snd sw)"

definition cl_call :: "(wifi_client \<times> 'w \<Rightarrow> (wifi_client \<times> 'w) option) \<Rightarrow> wifi_client \<times> 'w \<Rightarrow> (wifi_client \<times> 'w) option" where
  "cl_call f sw = (if cl_handler (fst sw) then f sw else None)"

definition cl_poll ::
  "'w wifi_ops \<Rightarrow> (wifi_client \<times> 'w) tcp_client_handler \<Rightarrow> wifi_client \<times> 'w \<Rightarrow> (wifi_client \<times> 'w) option" where
  "cl_poll ops h sw =
     (if \<not> cl_handler (fst sw) \<or> \<not> cl_valid ops sw then Some sw
      else do {
        let (n, c, w1) = flush_output ops (cl_connection (fst sw), snd sw);
        let sw1 = ((fst sw)\<lparr>cl_connection := c\<rparr>, w1);
        sw2 \<leftarrow> if n > 0 then cl_call (kh_on_write_ready h) sw1 else Some sw1;
        sw3 \<leftarrow> if wt_input_size ops (cl_connection (fst sw2)) (snd sw2) > 0
               then cl_call (kh_on_data h) sw2 else Some sw2;
        if wt_closed_by_peer ops (cl_connection (fst sw3)) (snd sw3)
        then do {
          sw4 \<leftarrow> cl_call (kh_on_close h) sw3;
          (case wt_close ops (cl_connection (fst sw4), snd sw4) of (c4, w4) \<Rightarrow>
             Some ((fst sw4)\<lparr>cl_connection := c4, cl_handler := False\<rparr>, w4))
        }
        else Some sw3
      })"

section \<open>Properties\<close>

text \<open>
  A server that has no handler any more must have no active connection: otherwise a poll in progress
  could call it. Closing the server establishes this if every active connection is valid, because
  \<open>close\<close> passes over a connection whose client has become false.
\<close>

definition sv_sane :: "wifi_server \<Rightarrow> bool" where
  "sv_sane s \<longleftrightarrow> length (sv_connections s) = max_slots \<and> sv_max_connections s \<le> max_slots
     \<and> (sv_handler s \<or> (\<forall>c \<in> set (sv_connections s). \<not> wt_active c))"

definition callback_sane :: "(wifi_server \<times> 'w \<Rightarrow> (wifi_server \<times> 'w) option) \<Rightarrow> bool" where
  "callback_sane f \<longleftrightarrow> (\<forall>sw. sv_sane (fst sw) \<longrightarrow> (\<exists>sw'. f sw = Some sw' \<and> sv_sane (fst sw')))"

definition handler_sane :: "(wifi_server \<times> 'w) tcp_server_handler \<Rightarrow> bool" where
  "handler_sane h \<longleftrightarrow> (\<forall>i peer. callback_sane (sh_on_accept h i peer) \<and> callback_sane (sh_on_data h i)
     \<and> callback_sane (sh_on_write_ready h i) \<and> callback_sane (sh_on_close h i))"

lemma wt_close_simps:
  "fst (wt_close ops (c, w)) = c\<lparr>wt_active := False, wt_line_size := 0, wt_tx_head := 0, wt_tx_size := 0\<rparr>"
  by (simp add: wt_close_def)

lemma pop_output_active [simp]: "wt_active (pop_output n c) = wt_active c"
  by (simp add: pop_output_def Let_def)

lemma flush_loop_active: "wt_active (fst (snd (flush_loop ops n cw))) = wt_active (fst cw)"
proof (induction ops n cw rule: flush_loop.induct)
  case (1 ops n c w)
  show ?case
    by (subst flush_loop.simps) (auto simp: Let_def 1 split: option.splits prod.splits)
qed

lemma flush_output_active: "flush_output ops (c, w) = (n, c', w') \<Longrightarrow> wt_active c' = wt_active c"
  using flush_loop_active [of ops 0 "(c, w)"] by (auto simp: flush_output_def split: if_splits)

lemma sv_sane_set:
  assumes "sv_sane s" "wt_active c \<Longrightarrow> sv_handler s"
  shows "sv_sane (sv_set_connection i c s)"
  using assms set_update_subset_insert [of "sv_connections s" i c] by (auto simp: sv_sane_def sv_set_connection_def)

lemma sv_call_sane:
  assumes "callback_sane f" "sv_sane (fst sw)" "sv_handler (fst sw)"
  shows "\<exists>sw'. sv_call f sw = Some sw' \<and> sv_sane (fst sw')"
proof -
  from assms(1,2) have "\<exists>sw'. f sw = Some sw' \<and> sv_sane (fst sw')" unfolding callback_sane_def by blast
  with assms(3) show ?thesis by (simp add: sv_call_def)
qed

lemma sv_active_handler:
  assumes "sv_sane s" "i < max_slots" "wt_active (sv_connections s ! i)"
  shows "sv_handler s"
  using assms by (auto simp: sv_sane_def)

lemma sv_close_connection_sane:
  assumes "sv_sane (fst sw)"
  shows "sv_sane (fst (sv_close_connection ops i sw))"
proof -
  obtain s w where sw: "sw = (s, w)" by fastforce
  obtain c w1 where c: "wt_close ops (sv_connections s ! i, w) = (c, w1)" by fastforce
  then have "\<not> wt_active c" using wt_close_simps [of ops "sv_connections s ! i" w] by simp
  with assms c sv_sane_set [of s c i] show ?thesis by (simp add: sv_close_connection_def sw)
qed

lemma sv_poll_connection_sane:
  assumes "sv_sane (fst sw)" "i < max_slots" "handler_sane h"
  shows "\<exists>sw'. sv_poll_connection ops h i sw = Some sw' \<and> sv_sane (fst sw')"
proof (cases "sv_connection_valid ops i sw")
  case False
  with assms(1) show ?thesis by (simp add: sv_poll_connection_def)
next
  case True
  obtain s w where sw: "sw = (s, w)" by fastforce
  obtain n c w1 where f: "flush_output ops (sv_connections s ! i, w) = (n, c, w1)" by (metis prod_cases3)
  let ?sw1 = "(sv_set_connection i c s, w1)"
  have act: "wt_active (sv_connections s ! i)" using True by (simp add: sv_connection_valid_def wt_valid_def sw)
  have hd: "sv_handler s" using sv_active_handler [OF _ assms(2) act] assms(1) by (simp add: sw)
  then have s1: "sv_sane (fst ?sw1)" "sv_handler (fst ?sw1)"
    using sv_sane_set [of s c i] assms(1) by (simp_all add: sw sv_set_connection_def)
  obtain sw2 where sw2: "(if n > 0 then sv_call (sh_on_write_ready h i) ?sw1 else Some ?sw1) = Some sw2" "sv_sane (fst sw2)"
    using sv_call_sane [of "sh_on_write_ready h i" ?sw1] s1 assms(3) by (cases "n > 0") (auto simp: handler_sane_def)
  let ?in = "wt_input_size ops (sv_connections (fst sw2) ! i) (snd sw2) > 0"
  obtain sw3 where sw3: "(if ?in then sv_call (sh_on_data h i) sw2 else Some sw2) = Some sw3" "sv_sane (fst sw3)"
  proof (cases ?in)
    case in0: True
    then have "wt_active (sv_connections (fst sw2) ! i)" by (simp add: wt_input_size_def split: if_splits)
    from sv_active_handler [OF sw2(2) assms(2) this] sv_call_sane [of "sh_on_data h i" sw2] sw2(2) assms(3) in0 that
    show ?thesis by (auto simp: handler_sane_def)
  qed (use sw2(2) that in simp)
  let ?closed = "wt_closed_by_peer ops (sv_connections (fst sw3) ! i) (snd sw3)"
  have run: "sv_poll_connection ops h i sw = (if ?closed
      then do { sw4 \<leftarrow> sv_call (sh_on_close h i) sw3; Some (sv_close_connection ops i sw4) } else Some sw3)"
    using True f sw2(1) sw3(1) by (simp add: sv_poll_connection_def sv_flush_def sw Let_def)
  show ?thesis
  proof (cases ?closed)
    case True
    then have "wt_active (sv_connections (fst sw3) ! i)" by (simp add: wt_closed_by_peer_def)
    from sv_active_handler [OF sw3(2) assms(2) this] sv_call_sane [of "sh_on_close h i" sw3] sw3(2) assms(3)
    obtain sw4 where "sv_call (sh_on_close h i) sw3 = Some sw4" "sv_sane (fst sw4)" by (auto simp: handler_sane_def)
    with True run sv_close_connection_sane [of sw4 ops i] show ?thesis by simp
  next
    case False
    with run sw3(2) show ?thesis by simp
  qed
qed

lemma sv_poll_connections_sane:
  assumes "handler_sane h"
  shows "sv_sane (fst sw) \<Longrightarrow> \<forall>i \<in> set is. i < max_slots \<Longrightarrow>
    \<exists>sw'. sv_poll_connections ops h is sw = Some sw' \<and> sv_sane (fst sw')"
proof (induction "is" arbitrary: sw)
  case (Cons i "is")
  with sv_poll_connection_sane [of sw i h ops] assms obtain sw1 where
    "sv_poll_connection ops h i sw = Some sw1" "sv_sane (fst sw1)" by auto
  with Cons.IH [of sw1] Cons.prems show ?case by simp
qed simp

lemma sv_accept_sane:
  assumes "sv_sane (fst sw)" "sv_handler (fst sw)" "handler_sane h"
  shows "\<exists>sw'. sv_accept ops h sw = Some sw' \<and> sv_sane (fst sw')"
proof -
  obtain s w where sw: "sw = (s, w)" by fastforce
  obtain client w1 where a: "ws_available ops w = (client, w1)" by fastforce
  show ?thesis
  proof (cases "wc_bool ops client w1 \<and> sv_first_free ops [0..<sv_max_connections s] (s, w1) \<noteq> None")
    case False
    with assms(1) a show ?thesis by (auto simp: sv_accept_def sw)
  next
    case True
    then obtain i where i: "sv_first_free ops [0..<sv_max_connections s] (s, w1) = Some i" by auto
    obtain ok c w2 where c: "wt_attach ops client (sv_connections s ! i, w1) = (ok, c, w2)" by (metis prod_cases3)
    have "sv_sane (sv_set_connection i c s)" using sv_sane_set [of s c i] assms(1,2) by (simp add: sw)
    with sv_call_sane [of "sh_on_accept h i (wt_peer c)" "(sv_set_connection i c s, w2)"] assms(2,3)
    obtain sw' where "sv_call (sh_on_accept h i (wt_peer c)) (sv_set_connection i c s, w2) = Some sw'" "sv_sane (fst sw')"
      by (auto simp: handler_sane_def sw sv_set_connection_def)
    with True a i c show ?thesis by (simp add: sv_accept_def sw)
  qed
qed

text \<open>
  C22: a poll of the WiFi server returns, and never calls a handler that is not there, if the handler's
  callbacks return and keep the rule that a server without handler has no active connection; the poll
  keeps the rule, too. (The callbacks may close the server, as long as this closes every active
  connection.)
\<close>

theorem wifi_server_poll_returns:
  assumes "sv_sane (fst sw)" "handler_sane h"
  shows "\<exists>sw'. sv_poll ops h sw = Some sw' \<and> sv_sane (fst sw')"
proof (cases "\<not> sv_valid (fst sw) \<or> \<not> sv_handler (fst sw)")
  case True
  with assms(1) show ?thesis by (auto simp: sv_poll_def)
next
  case False
  with sv_accept_sane [OF assms(1) _ assms(2)] obtain sw1 where
    sw1: "sv_accept ops h sw = Some sw1" "sv_sane (fst sw1)" by blast
  then have "\<forall>i \<in> set [0..<sv_max_connections (fst sw1)]. i < max_slots" by (auto simp: sv_sane_def)
  with sv_poll_connections_sane [OF assms(2) sw1(2) this, of ops] False sw1(1) show ?thesis
    by (simp add: sv_poll_def)
qed

text \<open>
  C38: on WiFi libraries whose client is false once it is disconnected and drained, a connection that is already
  disconnected, with nothing left to read, when the poll comes is not reported: it is not valid, so the poll
  of the server or of the client passes over it without calling the handler and changes nothing, and
  the server hands its object to the next client that connects. (If data are still to be read when the
  poll comes, the connection is valid; then \<open>on_data\<close> may drain it, and the same poll reports the close.)
\<close>

theorem wifi_lost_connection_unreported:
  assumes "\<And>c w. wc_bool ops c w \<Longrightarrow> wc_connected ops c w \<or> wc_available ops c w \<noteq> 0"
    "wt_closed_by_peer ops (sv_connections s ! i) w" "wt_closed_by_peer ops (cl_connection k) w"
    "i < sv_max_connections s" "\<forall>j < i. sv_connection_valid ops j (s, w)" "ws_available ops w = (client, w)" "wc_bool ops client w"
  shows "sv_poll_connection ops h i (s, w) = Some (s, w) \<and> cl_poll ops g (k, w) = Some (k, w)
    \<and> sv_accept ops h (s, w) = (case wt_attach ops client (sv_connections s ! i, w) of (ok, c, w2) \<Rightarrow>
        sv_call (sh_on_accept h i (wt_peer c)) (sv_set_connection i c s, w2))"
proof -
  have inv: "\<not> wt_valid ops c w" if "wt_closed_by_peer ops c w" for c
    using that assms(1) by (auto simp: wt_closed_by_peer_def wt_valid_def)
  then have i: "\<not> sv_connection_valid ops i (s, w)" using assms(2) by (simp add: sv_connection_valid_def)
  have free: "sv_first_free ops [j..<sv_max_connections s] (s, w) = Some i" if "j \<le> i" for j
    using that
  proof (induction "i - j" arbitrary: j)
    case 0
    with assms(4) i show ?case by (simp add: upt_conv_Cons)
  next
    case (Suc m)
    then have "sv_first_free ops [Suc j..<sv_max_connections s] (s, w) = Some i" by simp
    with Suc.hyps(2) Suc.prems assms(4,5) show ?case by (simp add: upt_conv_Cons)
  qed
  show ?thesis
    using i inv [OF assms(3)] free [of 0] assms(6,7)
    by (simp add: sv_poll_connection_def cl_poll_def cl_valid_def sv_accept_def)
qed

subsection \<open>Examples\<close>

definition quiet_wifi :: "unit wifi_ops" where
  "quiet_wifi = \<lparr>wc_esp = True, wc_default = 0, wc_bool = (\<lambda>c w. c = 1), wc_connected = (\<lambda>c w. c = 1),
     wc_available = (\<lambda>c w. 0), wc_read = (\<lambda>c w. (- 1, w)), wc_peek = (\<lambda>c w. - 1), wc_write = (\<lambda>c bytes w. (0, w)),
     wc_available_for_write = (\<lambda>c w. 0), wc_stop = (\<lambda>c w. w), wc_remote_ip = (\<lambda>c w. [0, 0, 0, 0]),
     wc_connect = (\<lambda>host port w. (True, 1, w)), ws_begin = (\<lambda>port w. w), ws_available = (\<lambda>w. (1, w)), ws_stop = (\<lambda>w. w)\<rparr>"

definition lost_connection :: wifi_connection where
  "lost_connection = (wt_init quiet_wifi)\<lparr>wt_active := True\<rparr>"

definition listening :: wifi_server where
  "listening = \<lparr>sv_max_connections = 4, sv_server = True, sv_handler = True, sv_bound_port = 80, sv_active = True,
     sv_registered = True, sv_connections = lost_connection # replicate 3 (wt_init quiet_wifi)\<rparr>"

lemma wifi_server_poll_returns_witness:
  "\<exists>sw'. sv_poll quiet_wifi server_handler_default (listening, ()) = Some sw' \<and> sv_sane (fst sw')"
  by (rule wifi_server_poll_returns)
    (simp_all add: listening_def sv_sane_def max_slots_def handler_sane_def callback_sane_def server_handler_default_def)

lemma wifi_lost_connection_unreported_witness:
  "sv_poll_connection quiet_wifi server_handler_default 0 (listening, ()) = Some (listening, ())"
  by (rule conjunct1 [OF wifi_lost_connection_unreported [where client = 1 and g = client_handler_default and
        k = "\<lparr>cl_handler = True, cl_registered = True, cl_connection = lost_connection\<rparr>"]])
    (simp_all add: listening_def lost_connection_def quiet_wifi_def wt_init_def wt_closed_by_peer_def)

end
