(* ===== verification/Linux_Tcp_Server.thy ===== *)
theory Linux_Tcp_Server
  imports Tcp Libevent_Loop Wifi_Tcp
begin

text \<open>
  \<open>LinuxTcpServer\<close> and \<open>LinuxTcpConnection\<close> of
  \<^verbatim>\<open>src/async_event_loop_linux/linux_tcp_server.hpp\<close>, over libevent's bufferevents and listeners, which
  are a record of operations on the outside state \<open>'w\<close>; a bufferevent and a listener are named by
  numbers. The connections are owned by the server; one is named by a number (its address) that is
  never used again. Touching a connection that has been destroyed has no defined effect, which is
  \<open>None\<close>, like a callback that does not return. All connections of a server share its handler:
  \<open>close\<close> destroys them before \<open>listen\<close> takes another.
\<close>

record 'w bev_ops =
  be_socket_new :: "int \<Rightarrow> 'w \<Rightarrow> nat option \<times> 'w"
  be_enable :: "nat \<Rightarrow> 'w \<Rightarrow> 'w"
  be_free :: "nat \<Rightarrow> 'w \<Rightarrow> 'w"
  be_input_length :: "nat \<Rightarrow> 'w \<Rightarrow> nat"
  be_output_length :: "nat \<Rightarrow> 'w \<Rightarrow> nat"
  be_remove :: "nat \<Rightarrow> nat \<Rightarrow> 'w \<Rightarrow> int \<times> byte list \<times> 'w"
  be_write :: "nat \<Rightarrow> byte list \<Rightarrow> 'w \<Rightarrow> int \<times> 'w"
  be_copyout :: "nat \<Rightarrow> nat \<Rightarrow> 'w \<Rightarrow> int \<times> byte list"
  be_readln :: "nat \<Rightarrow> 'w \<Rightarrow> byte list option \<times> 'w"
  be_set_timeouts :: "nat \<Rightarrow> timeval option \<Rightarrow> timeval option \<Rightarrow> 'w \<Rightarrow> 'w"
  be_set_watermarks :: "nat \<Rightarrow> nat \<Rightarrow> nat \<Rightarrow> nat \<Rightarrow> nat \<Rightarrow> 'w \<Rightarrow> 'w"
  so_close_socket :: "int \<Rightarrow> 'w \<Rightarrow> 'w"
  so_pton :: "string \<Rightarrow> u32 option"
  so_ntop :: "u32 \<Rightarrow> string"
  so_error :: "'w \<Rightarrow> int"
  li_new_bind :: "bool \<Rightarrow> bool \<Rightarrow> int \<Rightarrow> u32 \<Rightarrow> u16 \<Rightarrow> 'w \<Rightarrow> nat option \<times> 'w"
  li_free :: "nat \<Rightarrow> 'w \<Rightarrow> 'w"
  li_socket_port :: "nat \<Rightarrow> 'w \<Rightarrow> u16 option"

text \<open>The events libevent reports on a bufferevent, as far as they are looked at.\<close>

record bev_events =
  ev_timeout :: bool
  ev_error :: bool
  ev_eof :: bool

definition etimedout :: int where
  "etimedout = 110"

record tcp_listen_options =
  lo_host :: "string option"
  lo_port :: u16
  lo_backlog :: int
  lo_reuse_address :: bool
  lo_close_on_free :: bool

definition listen_default :: tcp_listen_options where
  "listen_default = \<lparr>lo_host = Some ''127.0.0.1'', lo_port = 0, lo_backlog = - 1, lo_reuse_address = True,
     lo_close_on_free = True\<rparr>"

record tcp_timeout_options =
  to_read_ms :: u32
  to_write_ms :: u32

record tcp_watermark_options =
  wo_read_low :: nat
  wo_read_high :: nat
  wo_write_low :: nat
  wo_write_high :: nat

section \<open>\<open>LinuxTcpConnection\<close>\<close>

record linux_connection =
  lx_id :: nat
  lx_owner :: bool
  lx_bev :: "nat option"
  lx_peer :: tcp_peer_info
  lx_remove_requested :: bool

text \<open>The constructor; \<open>addr\<close> is the peer's address when it is an IPv4 one.\<close>

definition lx_create ::
  "'w bev_ops \<Rightarrow> nat \<Rightarrow> int \<Rightarrow> (u32 \<times> u16) option \<Rightarrow> 'w \<Rightarrow> linux_connection \<times> 'w" where
  "lx_create ops i fd addr w =
     (let c = \<lparr>lx_id = i, lx_owner = True, lx_bev = None, lx_peer = peer_default, lx_remove_requested = False\<rparr>
      in case be_socket_new ops fd w of
           (None, w1) \<Rightarrow> (c\<lparr>lx_remove_requested := True\<rparr>, so_close_socket ops fd w1)
         | (Some b, w1) \<Rightarrow>
             (c\<lparr>lx_bev := Some b,
                lx_peer := (case addr of None \<Rightarrow> peer_default
                            | Some (ip, port) \<Rightarrow> \<lparr>peer_host = so_ntop ops ip, peer_port = port\<rparr>)\<rparr>,
              be_enable ops b w1))"

definition lx_valid :: "linux_connection \<Rightarrow> bool" where
  "lx_valid c \<longleftrightarrow> lx_bev c \<noteq> None"

definition lx_detach :: "linux_connection \<Rightarrow> linux_connection" where
  "lx_detach c = c\<lparr>lx_owner := False\<rparr>"

definition lx_close_bev :: "'w bev_ops \<Rightarrow> linux_connection \<times> 'w \<Rightarrow> linux_connection \<times> 'w" where
  "lx_close_bev ops cw =
     (case cw of (c, w) \<Rightarrow>
        (case lx_bev c of None \<Rightarrow> (c, w) | Some b \<Rightarrow> (c\<lparr>lx_bev := None\<rparr>, be_free ops b w)))"

definition lx_close :: "'w bev_ops \<Rightarrow> linux_connection \<times> 'w \<Rightarrow> linux_connection \<times> 'w" where
  "lx_close ops cw = (case lx_close_bev ops cw of (c, w) \<Rightarrow> (c\<lparr>lx_remove_requested := True\<rparr>, w))"

text \<open>The destructor.\<close>

definition lx_destroy :: "'w bev_ops \<Rightarrow> linux_connection \<Rightarrow> 'w \<Rightarrow> 'w" where
  "lx_destroy ops c w = snd (lx_close_bev ops (c, w))"

definition lx_input_size :: "'w bev_ops \<Rightarrow> linux_connection \<Rightarrow> 'w \<Rightarrow> nat" where
  "lx_input_size ops c w = (case lx_bev c of None \<Rightarrow> 0 | Some b \<Rightarrow> be_input_length ops b w)"

definition lx_output_size :: "'w bev_ops \<Rightarrow> linux_connection \<Rightarrow> 'w \<Rightarrow> nat" where
  "lx_output_size ops c w = (case lx_bev c of None \<Rightarrow> 0 | Some b \<Rightarrow> be_output_length ops b w)"

definition lx_read :: "'w bev_ops \<Rightarrow> bool \<Rightarrow> nat \<Rightarrow> linux_connection \<Rightarrow> 'w \<Rightarrow> int \<times> byte list \<times> 'w" where
  "lx_read ops dst_null max_len c w =
     (case lx_bev c of
        None \<Rightarrow> (0, [], w)
      | Some b \<Rightarrow> if dst_null \<or> max_len = 0 then (0, [], w) else be_remove ops b max_len w)"

definition lx_write :: "'w bev_ops \<Rightarrow> byte list option \<Rightarrow> linux_connection \<Rightarrow> 'w \<Rightarrow> int \<times> 'w" where
  "lx_write ops src c w =
     (case (lx_bev c, src) of
        (Some b, Some bytes) \<Rightarrow>
          if bytes = [] then (0, w)
          else (case be_write ops b bytes w of (rc, w1) \<Rightarrow> (if rc = 0 then int_of_size (length bytes) else - 1, w1))
      | _ \<Rightarrow> (0, w))"

definition lx_peek :: "'w bev_ops \<Rightarrow> bool \<Rightarrow> nat \<Rightarrow> linux_connection \<Rightarrow> 'w \<Rightarrow> byte list option" where
  "lx_peek ops dst_null len c w =
     (case lx_bev c of
        None \<Rightarrow> None
      | Some b \<Rightarrow>
          if dst_null \<or> lx_input_size ops c w < len then None
          else (case be_copyout ops b len w of (n, bytes) \<Rightarrow> if n = int len then Some bytes else None))"

definition lx_read_exact ::
  "'w bev_ops \<Rightarrow> bool \<Rightarrow> nat \<Rightarrow> linux_connection \<Rightarrow> 'w \<Rightarrow> bool \<times> byte list \<times> 'w" where
  "lx_read_exact ops dst_null len c w =
     (case lx_bev c of
        None \<Rightarrow> (False, [], w)
      | Some b \<Rightarrow>
          if dst_null \<or> lx_input_size ops c w < len then (False, [], w)
          else (case be_remove ops b len w of (n, bytes, w1) \<Rightarrow> (n = int_of_size len, bytes, w1)))"

definition lx_read_line ::
  "'w bev_ops \<Rightarrow> bool \<Rightarrow> nat \<Rightarrow> bool \<Rightarrow> linux_connection \<Rightarrow> 'w \<Rightarrow> byte list option \<times> 'w" where
  "lx_read_line ops dst_null max_len strip c w =
     (case lx_bev c of
        None \<Rightarrow> (None, w)
      | Some b \<Rightarrow>
          if dst_null \<or> max_len = 0 then (None, w)
          else (case be_readln ops b w of
                  (None, w1) \<Rightarrow> (None, w1)
                | (Some line, w1) \<Rightarrow> (Some (line_text strip max_len line), w1)))"

definition timeval_from_ms :: "u32 \<Rightarrow> timeval option" where
  "timeval_from_ms ms =
     (if ms \<noteq> 0 then Some \<lparr>tv_sec = ucast (ms div 1000), tv_usec = ucast ((ms mod 1000) * 1000)\<rparr> else None)"

definition lx_set_timeouts :: "'w bev_ops \<Rightarrow> tcp_timeout_options \<Rightarrow> linux_connection \<Rightarrow> 'w \<Rightarrow> bool \<times> 'w" where
  "lx_set_timeouts ops opts c w =
     (case lx_bev c of
        None \<Rightarrow> (False, w)
      | Some b \<Rightarrow>
          (True, be_set_timeouts ops b (timeval_from_ms (to_read_ms opts)) (timeval_from_ms (to_write_ms opts)) w))"

definition lx_set_watermarks :: "'w bev_ops \<Rightarrow> tcp_watermark_options \<Rightarrow> linux_connection \<Rightarrow> 'w \<Rightarrow> bool \<times> 'w" where
  "lx_set_watermarks ops opts c w =
     (case lx_bev c of
        None \<Rightarrow> (False, w)
      | Some b \<Rightarrow>
          (True, be_set_watermarks ops b (wo_read_low opts) (wo_read_high opts) (wo_write_low opts) (wo_write_high opts) w))"

section \<open>\<open>LinuxTcpServer\<close>\<close>

record linux_server =
  lt_max_connections :: nat
  lt_listener :: "nat option"
  lt_handler :: bool
  lt_bound_port :: u16
  lt_connections :: "linux_connection list"
  lt_next_id :: nat

definition lt_init :: "nat \<Rightarrow> linux_server" where
  "lt_init n = \<lparr>lt_max_connections = n, lt_listener = None, lt_handler = False, lt_bound_port = 0,
     lt_connections = [], lt_next_id = 0\<rparr>"

definition lt_valid :: "linux_server \<Rightarrow> bool" where
  "lt_valid s \<longleftrightarrow> lt_listener s \<noteq> None"

definition lt_connection_count :: "linux_server \<Rightarrow> nat" where
  "lt_connection_count s = length (filter lx_valid (lt_connections s))"

text \<open>Every connection is detached first, then all are destroyed.\<close>

definition lt_close :: "'w bev_ops \<Rightarrow> linux_server \<times> 'w \<Rightarrow> linux_server \<times> 'w" where
  "lt_close ops sw =
     (case sw of (s, w) \<Rightarrow>
        let w1 = fold (lx_destroy ops) (map lx_detach (lt_connections s)) w;
            w2 = (case lt_listener s of None \<Rightarrow> w1 | Some l \<Rightarrow> li_free ops l w1)
        in (s\<lparr>lt_connections := [], lt_listener := None, lt_handler := False, lt_bound_port := 0\<rparr>, w2))"

definition lt_update_bound_port :: "'w bev_ops \<Rightarrow> 'w \<Rightarrow> linux_server \<Rightarrow> linux_server" where
  "lt_update_bound_port ops w s =
     s\<lparr>lt_bound_port := (case lt_listener s of
          None \<Rightarrow> 0
        | Some l \<Rightarrow> (case li_socket_port ops l w of None \<Rightarrow> 0 | Some port \<Rightarrow> port))\<rparr>"

definition lt_listen :: "'w bev_ops \<Rightarrow> tcp_listen_options \<Rightarrow> linux_server \<times> 'w \<Rightarrow> bool \<times> linux_server \<times> 'w" where
  "lt_listen ops opts sw =
     (case lt_close ops sw of (s, w) \<Rightarrow>
        let addr = (case lo_host opts of
                      None \<Rightarrow> Some 0
                    | Some host \<Rightarrow> if host = ''0.0.0.0'' then Some 0 else so_pton ops host)
        in case addr of
             None \<Rightarrow> (False, s, w)
           | Some ip \<Rightarrow>
               (case li_new_bind ops (lo_close_on_free opts) (lo_reuse_address opts) (lo_backlog opts) ip (lo_port opts) w of
                  (None, w1) \<Rightarrow> (False, s, w1)
                | (Some l, w1) \<Rightarrow>
                    (True, lt_update_bound_port ops w1 (s\<lparr>lt_listener := Some l, lt_handler := True\<rparr>), w1)))"

fun sweep_list :: "'w bev_ops \<Rightarrow> linux_connection list \<Rightarrow> 'w \<Rightarrow> linux_connection list \<times> 'w" where
  "sweep_list ops [] w = ([], w)"
| "sweep_list ops (c # cs) w =
     (if lx_remove_requested c then sweep_list ops cs (lx_destroy ops (lx_detach c) w)
      else (case sweep_list ops cs w of (cs', w') \<Rightarrow> (c # cs', w')))"

definition lt_sweep_closed :: "'w bev_ops \<Rightarrow> linux_server \<times> 'w \<Rightarrow> linux_server \<times> 'w" where
  "lt_sweep_closed ops sw =
     (case sw of (s, w) \<Rightarrow> case sweep_list ops (lt_connections s) w of (cs, w1) \<Rightarrow> (s\<lparr>lt_connections := cs\<rparr>, w1))"

text \<open>Access to a connection through a pointer.\<close>

definition lt_find :: "nat \<Rightarrow> linux_server \<Rightarrow> linux_connection option" where
  "lt_find i s = find (\<lambda>c. lx_id c = i) (lt_connections s)"

definition lt_set :: "linux_connection \<Rightarrow> linux_server \<Rightarrow> linux_server" where
  "lt_set c s = s\<lparr>lt_connections := map (\<lambda>d. if lx_id d = lx_id c then c else d) (lt_connections s)\<rparr>"

definition lt_close_connection :: "'w bev_ops \<Rightarrow> nat \<Rightarrow> linux_server \<times> 'w \<Rightarrow> (linux_server \<times> 'w) option" where
  "lt_close_connection ops i sw =
     (case sw of (s, w) \<Rightarrow>
        (case lt_find i s of
           None \<Rightarrow> None
         | Some c \<Rightarrow> (case lx_close ops (c, w) of (c1, w1) \<Rightarrow> Some (lt_set c1 s, w1))))"

definition lt_remove :: "'w bev_ops \<Rightarrow> nat option \<Rightarrow> linux_server \<times> 'w \<Rightarrow> (linux_server \<times> 'w) option" where
  "lt_remove ops connection sw =
     (case connection of
        None \<Rightarrow> Some sw
      | Some i \<Rightarrow> map_option (lt_sweep_closed ops) (lt_close_connection ops i sw))"

section \<open>Callbacks\<close>

definition lt_accept_callback ::
  "'w bev_ops \<Rightarrow> (linux_server \<times> 'w) tcp_server_handler \<Rightarrow> int \<Rightarrow> (u32 \<times> u16) option
     \<Rightarrow> linux_server \<times> 'w \<Rightarrow> (linux_server \<times> 'w) option" where
  "lt_accept_callback ops h fd addr sw =
     (case sw of (s, w) \<Rightarrow>
        if \<not> lt_handler s then Some (s, so_close_socket ops fd w)
        else (case lt_sweep_closed ops (s, w) of (s1, w1) \<Rightarrow>
          if lt_connection_count s1 \<ge> lt_max_connections s1 then Some (s1, so_close_socket ops fd w1)
          else (case lx_create ops (lt_next_id s1) fd addr w1 of (c, w2) \<Rightarrow>
            let s2 = s1\<lparr>lt_next_id := lt_next_id s1 + 1\<rparr>
            in if \<not> lx_valid c then Some (s2, lx_destroy ops c w2)
               else map_option (lt_sweep_closed ops)
                      (sh_on_accept h (lx_id c) (lx_peer c) (s2\<lparr>lt_connections := lt_connections s2 @ [c]\<rparr>, w2)))))"

definition lt_listener_error_callback ::
  "'w bev_ops \<Rightarrow> (linux_server \<times> 'w) tcp_server_handler \<Rightarrow> linux_server \<times> 'w \<Rightarrow> (linux_server \<times> 'w) option" where
  "lt_listener_error_callback ops h sw =
     (if \<not> lt_handler (fst sw) then Some sw else sh_on_listener_error h (so_error ops (snd sw)) sw)"

text \<open>
  A callback of the bufferevent of connection \<open>i\<close>: \<open>f\<close> is what it does with the connection, and the
  owner as it was at the beginning sweeps afterwards.
\<close>

definition lt_bev_callback ::
  "'w bev_ops \<Rightarrow> (linux_connection \<Rightarrow> linux_server \<times> 'w \<Rightarrow> (linux_server \<times> 'w) option) \<Rightarrow> nat
     \<Rightarrow> linux_server \<times> 'w \<Rightarrow> (linux_server \<times> 'w) option" where
  "lt_bev_callback ops f i sw =
     (case lt_find i (fst sw) of
        None \<Rightarrow> None
      | Some c \<Rightarrow> map_option (\<lambda>sw1. if lx_owner c then lt_sweep_closed ops sw1 else sw1) (f c sw))"

definition lt_read_callback ::
  "'w bev_ops \<Rightarrow> (linux_server \<times> 'w) tcp_server_handler \<Rightarrow> nat \<Rightarrow> linux_server \<times> 'w \<Rightarrow> (linux_server \<times> 'w) option" where
  "lt_read_callback ops h i = lt_bev_callback ops (\<lambda>c sw. if lx_valid c then sh_on_data h i sw else Some sw) i"

definition lt_write_callback ::
  "'w bev_ops \<Rightarrow> (linux_server \<times> 'w) tcp_server_handler \<Rightarrow> nat \<Rightarrow> linux_server \<times> 'w \<Rightarrow> (linux_server \<times> 'w) option" where
  "lt_write_callback ops h i = lt_bev_callback ops (\<lambda>c sw. if lx_valid c then sh_on_write_ready h i sw else Some sw) i"

definition lt_notify_event ::
  "'w bev_ops \<Rightarrow> (linux_server \<times> 'w) tcp_server_handler \<Rightarrow> bev_events \<Rightarrow> nat
     \<Rightarrow> linux_server \<times> 'w \<Rightarrow> (linux_server \<times> 'w) option" where
  "lt_notify_event ops h events i sw =
     (if ev_timeout events then do { sw1 \<leftarrow> sh_on_error h i etimedout sw; lt_close_connection ops i sw1 }
      else if ev_error events then do { sw1 \<leftarrow> sh_on_error h i (so_error ops (snd sw)) sw; lt_close_connection ops i sw1 }
      else if ev_eof events then do { sw1 \<leftarrow> sh_on_close h i sw; lt_close_connection ops i sw1 }
      else Some sw)"

definition lt_event_callback ::
  "'w bev_ops \<Rightarrow> (linux_server \<times> 'w) tcp_server_handler \<Rightarrow> bev_events \<Rightarrow> nat
     \<Rightarrow> linux_server \<times> 'w \<Rightarrow> (linux_server \<times> 'w) option" where
  "lt_event_callback ops h events i = lt_bev_callback ops (\<lambda>c. lt_notify_event ops h events i) i"

section \<open>Invariant\<close>

definition lt_inv :: "linux_server \<Rightarrow> bool" where
  "lt_inv s \<longleftrightarrow> distinct (map lx_id (lt_connections s))
     \<and> (\<forall>c \<in> set (lt_connections s). lx_id c < lt_next_id s \<and> lx_owner c \<and> (lx_remove_requested c \<longleftrightarrow> \<not> lx_valid c))
     \<and> lt_connection_count s \<le> lt_max_connections s
     \<and> (lt_handler s \<longleftrightarrow> lt_valid s) \<and> (\<not> lt_handler s \<longrightarrow> lt_connections s = [])"

lemma lt_inv_init: "lt_inv (lt_init n)"
  by (simp add: lt_inv_def lt_init_def lt_connection_count_def lt_valid_def)

lemma lx_close_simps:
  "fst (lx_close ops (c, w)) = c\<lparr>lx_bev := None, lx_remove_requested := True\<rparr>"
  by (cases c) (simp add: lx_close_def lx_close_bev_def split: option.split)

lemma lx_create_simps:
  assumes "lx_create ops i fd addr w = (c, w')"
  shows "lx_id c = i" "lx_owner c" "lx_remove_requested c \<longleftrightarrow> \<not> lx_valid c"
  using assms by (auto simp: lx_create_def Let_def lx_valid_def split: prod.splits option.splits)

lemma sweep_list_spec: "fst (sweep_list ops cs w) = filter (\<lambda>c. \<not> lx_remove_requested c) cs"
  by (induction ops cs w rule: sweep_list.induct) (auto split: prod.splits)

lemma lt_sweep_spec:
  "fst (lt_sweep_closed ops (s, w)) = s\<lparr>lt_connections := filter (\<lambda>c. \<not> lx_remove_requested c) (lt_connections s)\<rparr>"
  using sweep_list_spec [of ops "lt_connections s" w] by (auto simp: lt_sweep_closed_def split: prod.splits)

lemma lt_close_spec:
  "fst (lt_close ops (s, w)) = s\<lparr>lt_connections := [], lt_listener := None, lt_handler := False, lt_bound_port := 0\<rparr>"
  by (simp add: lt_close_def Let_def)

lemma lt_inv_sweep: "lt_inv s \<Longrightarrow> lt_inv (fst (lt_sweep_closed ops (s, w)))"
proof -
  assume s: "lt_inv s"
  let ?P = "\<lambda>c. \<not> lx_remove_requested c"
  have "filter lx_valid (filter ?P (lt_connections s)) = filter lx_valid (lt_connections s)"
    using s by (auto simp: lt_inv_def intro!: filter_cong)
  moreover have "distinct (map lx_id (filter ?P (lt_connections s)))"
    using s by (simp add: lt_inv_def distinct_map_filter)
  ultimately show ?thesis
    using s by (auto simp: lt_sweep_spec lt_inv_def lt_connection_count_def lt_valid_def)
qed

lemma swept_count:
  assumes "lt_inv s" "s' = fst (lt_sweep_closed ops (s, w))"
  shows "lt_connections s' = filter lx_valid (lt_connections s)" "lt_connection_count s' = length (lt_connections s')"
proof -
  show e: "lt_connections s' = filter lx_valid (lt_connections s)"
    using assms by (auto simp: lt_sweep_spec lt_inv_def intro!: filter_cong)
  show "lt_connection_count s' = length (lt_connections s')" by (simp add: lt_connection_count_def e)
qed

lemma lt_inv_close: "lt_inv s \<Longrightarrow> lt_inv (fst (lt_close ops (s, w)))"
  by (simp add: lt_close_spec lt_inv_def lt_connection_count_def lt_valid_def)

lemma lt_inv_listen:
  assumes "lt_inv s" "lt_listen ops opts (s, w) = (ok, s', w')"
  shows "lt_inv s' \<and> lt_max_connections s' = lt_max_connections s"
proof -
  obtain s1 w1 where c: "lt_close ops (s, w) = (s1, w1)" by fastforce
  then have s1: "s1 = s\<lparr>lt_connections := [], lt_listener := None, lt_handler := False, lt_bound_port := 0\<rparr>"
    using lt_close_spec [of ops s w] by simp
  have "lt_inv s1" using lt_inv_close [OF assms(1), of ops w] c by simp
  moreover have "s' = s1 \<or> (\<exists>l p. s' = s1\<lparr>lt_listener := Some l, lt_handler := True, lt_bound_port := p\<rparr>)"
    using assms(2) c by (auto simp: lt_listen_def lt_update_bound_port_def Let_def split: option.splits prod.splits if_splits)
  ultimately show ?thesis
    using s1 by (auto simp: lt_inv_def lt_valid_def lt_connection_count_def)
qed

lemma lt_find_Some: "lt_find i s = Some c \<Longrightarrow> c \<in> set (lt_connections s) \<and> lx_id c = i"
  by (auto simp: lt_find_def find_Some_iff)

lemma lt_find_None: "lt_find i s = None \<longleftrightarrow> (\<forall>c \<in> set (lt_connections s). lx_id c \<noteq> i)"
  by (auto simp: lt_find_def find_None_iff)

lemma filter_map_count:
  assumes "\<And>c. c \<in> set cs \<Longrightarrow> P (f c) \<Longrightarrow> P c"
  shows "length (filter P (map f cs)) \<le> length (filter P cs)"
  using assms by (induction cs) auto

lemma lt_inv_close_connection:
  assumes "lt_inv s" "lt_close_connection ops i (s, w) = Some (s', w')"
  shows "lt_inv s' \<and> lt_max_connections s' = lt_max_connections s"
proof -
  from assms(2) obtain c where c: "lt_find i s = Some c" "s' = lt_set (fst (lx_close ops (c, w))) s"
    by (auto simp: lt_close_connection_def split: option.splits prod.splits)
  note f = lt_find_Some [OF c(1)]
  let ?c = "c\<lparr>lx_bev := None, lx_remove_requested := True\<rparr>"
  let ?f = "\<lambda>d. if lx_id d = i then ?c else d"
  have s': "s' = s\<lparr>lt_connections := map ?f (lt_connections s)\<rparr>"
    using c(2) f by (simp add: lt_set_def lx_close_simps)
  have ids: "map lx_id (map ?f (lt_connections s)) = map lx_id (lt_connections s)" using f by auto
  have "length (filter lx_valid (map ?f (lt_connections s))) \<le> length (filter lx_valid (lt_connections s))"
    by (rule filter_map_count) (simp add: lx_valid_def split: if_splits)
  then have "lt_connection_count s' \<le> lt_connection_count s" by (simp add: lt_connection_count_def s')
  moreover have "distinct (map (lx_id \<circ> ?f) (lt_connections s))"
    using assms(1) ids unfolding lt_inv_def map_map by metis
  ultimately show ?thesis
    using assms(1) f by (auto simp: lt_inv_def s' lx_valid_def lt_valid_def)
qed

lemma lt_inv_remove:
  assumes "lt_inv s" "lt_remove ops i (s, w) = Some (s', w')"
  shows "lt_inv s' \<and> lt_max_connections s' = lt_max_connections s"
proof (cases i)
  case None
  with assms show ?thesis by (simp add: lt_remove_def)
next
  case (Some j)
  with assms(2) obtain s1 w1 where r: "lt_close_connection ops j (s, w) = Some (s1, w1)"
    "(s', w') = lt_sweep_closed ops (s1, w1)" by (auto simp: lt_remove_def)
  with lt_inv_close_connection [OF assms(1) r(1)] lt_inv_sweep [of s1 ops w1] lt_sweep_spec [of ops s1 w1]
  show ?thesis by (metis fst_conv linux_server.select_convs(1) linux_server.surjective linux_server.update_convs(5))
qed

text \<open>What a program may do with a server and its connections.\<close>

inductive lt_api :: "'w bev_ops \<Rightarrow> linux_server \<times> 'w \<Rightarrow> linux_server \<times> 'w \<Rightarrow> bool"
  for ops :: "'w bev_ops" where
  api_world: "lt_api ops (s, w) (s, w')"
| api_close_connection: "lt_close_connection ops i sw = Some sw' \<Longrightarrow> lt_api ops sw sw'"
| api_remove: "lt_remove ops i sw = Some sw' \<Longrightarrow> lt_api ops sw sw'"
| api_close: "lt_api ops sw (lt_close ops sw)"
| api_listen: "lt_listen ops opts sw = (ok, sw') \<Longrightarrow> lt_api ops sw sw'"

lemma lt_api_inv:
  assumes "(lt_api ops)\<^sup>*\<^sup>* sw sw'" "lt_inv (fst sw)"
  shows "lt_inv (fst sw')"
  using assms
proof (induction rule: rtranclp_induct)
  case (step sw1 sw2)
  from step.IH step.prems have i: "lt_inv (fst sw1)" by simp
  from step.hyps(2) show ?case
  proof cases
    case (api_world s w w')
    with i show ?thesis by simp
  next
    case (api_close_connection j)
    with i show ?thesis by (metis lt_inv_close_connection prod.collapse)
  next
    case (api_remove j)
    with i show ?thesis by (metis lt_inv_remove prod.collapse)
  next
    case api_close
    with i show ?thesis by (metis lt_inv_close prod.collapse)
  next
    case (api_listen opts ok)
    with i show ?thesis by (metis lt_inv_listen prod.collapse)
  qed
qed simp

definition handler_acts :: "'w bev_ops \<Rightarrow> (linux_server \<times> 'w) tcp_server_handler \<Rightarrow> bool" where
  "handler_acts ops h \<longleftrightarrow> (\<forall>i peer code sw sw'.
     (sh_on_accept h i peer sw = Some sw' \<or> sh_on_data h i sw = Some sw' \<or> sh_on_write_ready h i sw = Some sw'
       \<or> sh_on_close h i sw = Some sw' \<or> sh_on_error h i code sw = Some sw' \<or> sh_on_listener_error h code sw = Some sw')
     \<longrightarrow> (lt_api ops)\<^sup>*\<^sup>* sw sw')"

text \<open>What libevent does with a server: the callbacks, in any order.\<close>

datatype server_event =
    Accepted int "(u32 \<times> u16) option"
  | Read_Ready nat
  | Write_Ready nat
  | Reported bev_events nat
  | Listener_Error

fun lt_event ::
  "'w bev_ops \<Rightarrow> (linux_server \<times> 'w) tcp_server_handler \<Rightarrow> server_event \<Rightarrow> linux_server \<times> 'w \<Rightarrow> (linux_server \<times> 'w) option" where
  "lt_event ops h (Accepted fd addr) = lt_accept_callback ops h fd addr"
| "lt_event ops h (Read_Ready i) = lt_read_callback ops h i"
| "lt_event ops h (Write_Ready i) = lt_write_callback ops h i"
| "lt_event ops h (Reported events i) = lt_event_callback ops h events i"
| "lt_event ops h Listener_Error = lt_listener_error_callback ops h"

fun lt_events ::
  "'w bev_ops \<Rightarrow> (linux_server \<times> 'w) tcp_server_handler \<Rightarrow> server_event list \<Rightarrow> linux_server \<times> 'w \<Rightarrow> (linux_server \<times> 'w) option" where
  "lt_events ops h [] sw = Some sw"
| "lt_events ops h (e # es) sw = do { sw1 \<leftarrow> lt_event ops h e sw; lt_events ops h es sw1 }"

lemma lt_bev_callback_inv:
  assumes "lt_inv (fst sw)" "lt_bev_callback ops f i sw = Some sw'"
    "\<And>c sw sw'. f c sw = Some sw' \<Longrightarrow> lt_inv (fst sw) \<Longrightarrow> lt_inv (fst sw')"
  shows "lt_inv (fst sw')"
proof -
  from assms(2) obtain c sw1 where c: "f c sw = Some sw1"
    "sw' = (if lx_owner c then lt_sweep_closed ops sw1 else sw1)"
    by (auto simp: lt_bev_callback_def split: option.splits)
  from assms(3) [OF c(1) assms(1)] have "lt_inv (fst sw1)" .
  with lt_inv_sweep [of "fst sw1" ops "snd sw1"] c(2) show ?thesis by auto
qed

lemma lt_accept_cases:
  assumes "lt_accept_callback ops h fd addr (s, w) = Some sw'" "s1 = fst (lt_sweep_closed ops (s, w))"
  shows "(\<exists>w1. \<not> lt_handler s \<and> sw' = (s, w1))
    \<or> (\<exists>w1. sw' = (s1, w1) \<and> lt_connection_count s1 \<ge> lt_max_connections s1)
    \<or> (\<exists>w1. sw' = (s1\<lparr>lt_next_id := lt_next_id s1 + 1\<rparr>, w1))
    \<or> (\<exists>w1 c w2 sw2. lt_handler s \<and> lt_connection_count s1 < lt_max_connections s1
        \<and> lx_create ops (lt_next_id s1) fd addr w1 = (c, w2) \<and> lx_valid c
        \<and> sh_on_accept h (lx_id c) (lx_peer c)
            (s1\<lparr>lt_next_id := lt_next_id s1 + 1, lt_connections := lt_connections s1 @ [c]\<rparr>, w2) = Some sw2
        \<and> sw' = lt_sweep_closed ops sw2)"
proof -
  obtain w1 where sw: "lt_sweep_closed ops (s, w) = (s1, w1)" using assms(2) by (metis prod.collapse)
  obtain c w2 where c: "lx_create ops (lt_next_id s1) fd addr w1 = (c, w2)" by fastforce
  consider "\<not> lt_handler s" | "lt_handler s" "lt_connection_count s1 \<ge> lt_max_connections s1"
    | "lt_handler s" "lt_connection_count s1 < lt_max_connections s1" "\<not> lx_valid c"
    | "lt_handler s" "lt_connection_count s1 < lt_max_connections s1" "lx_valid c" by linarith
  then show ?thesis
  proof cases
    case 4
    with assms(1) sw c obtain sw2 where
      "sh_on_accept h (lx_id c) (lx_peer c)
         (s1\<lparr>lt_next_id := lt_next_id s1 + 1, lt_connections := lt_connections s1 @ [c]\<rparr>, w2) = Some sw2"
      "sw' = lt_sweep_closed ops sw2" by (auto simp: lt_accept_callback_def Let_def)
    with 4 c show ?thesis by blast
  qed (use assms(1) sw c in \<open>auto simp: lt_accept_callback_def Let_def\<close>)
qed

lemma lt_inv_accepted:
  assumes "lt_inv s" "s1 = fst (lt_sweep_closed ops (s, w))" "lt_connection_count s1 < lt_max_connections s1"
    "lx_create ops (lt_next_id s1) fd addr w1 = (c, w2)" "lx_valid c" "lt_handler s"
  shows "lt_inv (s1\<lparr>lt_next_id := lt_next_id s1 + 1, lt_connections := lt_connections s1 @ [c]\<rparr>)"
proof -
  have i: "lt_inv s1" using lt_inv_sweep [OF assms(1)] assms(2) by simp
  have "lt_handler s1" using assms(2,6) lt_sweep_spec [of ops s w] by simp
  with i assms(3,5) lx_create_simps [OF assms(4)] show ?thesis
    by (auto simp: lt_inv_def lt_connection_count_def lt_valid_def less_Suc_eq)
qed

lemma lt_accept_inv:
  assumes "lt_inv s" "handler_acts ops h" "lt_accept_callback ops h fd addr (s, w) = Some sw'"
  shows "lt_inv (fst sw')"
proof -
  define s1 where "s1 = fst (lt_sweep_closed ops (s, w))"
  have i: "lt_inv s1" unfolding s1_def by (rule lt_inv_sweep [OF assms(1)])
  from lt_accept_cases [OF assms(3) s1_def] consider
    "fst sw' = s \<or> fst sw' = s1 \<or> fst sw' = s1\<lparr>lt_next_id := lt_next_id s1 + 1\<rparr>"
    | c w1 w2 sw2 where "lt_handler s" "lt_connection_count s1 < lt_max_connections s1"
      "lx_create ops (lt_next_id s1) fd addr w1 = (c, w2)" "lx_valid c"
      "sh_on_accept h (lx_id c) (lx_peer c)
         (s1\<lparr>lt_next_id := lt_next_id s1 + 1, lt_connections := lt_connections s1 @ [c]\<rparr>, w2) = Some sw2"
      "sw' = lt_sweep_closed ops sw2" by fastforce
  then show ?thesis
  proof cases
    case 1
    have "lt_inv (s1\<lparr>lt_next_id := lt_next_id s1 + 1\<rparr>)"
      using i by (auto simp: lt_inv_def lt_connection_count_def lt_valid_def less_Suc_eq)
    with 1 i assms(1) show ?thesis by auto
  next
    case 2
    note a = lt_inv_accepted [OF assms(1) s1_def 2(2-4) 2(1)]
    from 2(5) assms(2) have "(lt_api ops)\<^sup>*\<^sup>*
        (s1\<lparr>lt_next_id := lt_next_id s1 + 1, lt_connections := lt_connections s1 @ [c]\<rparr>, w2) sw2"
      unfolding handler_acts_def by blast
    from lt_api_inv [OF this] a have "lt_inv (fst sw2)" by simp
    with lt_inv_sweep [of "fst sw2" ops "snd sw2"] 2(6) show ?thesis by simp
  qed
qed

lemma lt_event_inv:
  assumes "lt_inv (fst sw)" "handler_acts ops h" "lt_event ops h e sw = Some sw'"
  shows "lt_inv (fst sw')"
proof -
  have acts: "lt_inv (fst b)" if "(lt_api ops)\<^sup>*\<^sup>* a b" "lt_inv (fst a)" for a b using lt_api_inv that .
  have closed: "lt_inv (fst b)" if "lt_close_connection ops i a = Some b" "lt_inv (fst a)" for a b i
    using api_close_connection [OF that(1)] by (intro acts [OF _ that(2)]) (rule r_into_rtranclp)
  show ?thesis
  proof (cases e)
    case (Accepted fd addr)
    with assms lt_accept_inv [of "fst sw" ops h fd addr "snd sw"] show ?thesis by simp
  next
    case (Read_Ready i)
    with assms(3) have "lt_bev_callback ops (\<lambda>c sw. if lx_valid c then sh_on_data h i sw else Some sw) i sw = Some sw'"
      by (simp add: lt_read_callback_def)
    from lt_bev_callback_inv [OF assms(1) this] show ?thesis
      using assms(2) acts unfolding handler_acts_def by (metis option.inject)
  next
    case (Write_Ready i)
    with assms(3) have "lt_bev_callback ops (\<lambda>c sw. if lx_valid c then sh_on_write_ready h i sw else Some sw) i sw = Some sw'"
      by (simp add: lt_write_callback_def)
    from lt_bev_callback_inv [OF assms(1) this] show ?thesis
      using assms(2) acts unfolding handler_acts_def by (metis option.inject)
  next
    case (Reported events i)
    with assms(3) have r: "lt_bev_callback ops (\<lambda>c. lt_notify_event ops h events i) i sw = Some sw'"
      by (simp add: lt_event_callback_def)
    show ?thesis
    proof (rule lt_bev_callback_inv [OF assms(1) r])
      fix a b :: "linux_server \<times> 'a"
      assume n: "lt_notify_event ops h events i a = Some b" and a: "lt_inv (fst a)"
      from n consider "b = a" | a1 code where "sh_on_error h i code a = Some a1" "lt_close_connection ops i a1 = Some b"
        | a1 where "sh_on_close h i a = Some a1" "lt_close_connection ops i a1 = Some b"
        by (auto simp: lt_notify_event_def split: if_splits Option.bind_splits)
      then show "lt_inv (fst b)"
      proof cases
        case 1
        with a show ?thesis by simp
      next
        case 2
        with assms(2) have "(lt_api ops)\<^sup>*\<^sup>* a a1" unfolding handler_acts_def by blast
        from closed [OF 2(2) acts [OF this a]] show ?thesis .
      next
        case 3
        with assms(2) have "(lt_api ops)\<^sup>*\<^sup>* a a1" unfolding handler_acts_def by blast
        from closed [OF 3(2) acts [OF this a]] show ?thesis .
      qed
    qed
  next
    case Listener_Error
    with assms(3) have "sw' = sw \<or> sh_on_listener_error h (so_error ops (snd sw)) sw = Some sw'"
      by (auto simp: lt_listener_error_callback_def split: if_splits)
    with assms(1,2) acts show ?thesis unfolding handler_acts_def by blast
  qed
qed

section \<open>Properties\<close>

text \<open>
  C20: whatever libevent reports to a server, in any order, and whatever the handler does in its callbacks
  with the server and its connections, the server keeps its invariant: there are never more open
  connections than the maximum, no two connections are the same, a connection that is closed is marked
  for removal and vice versa, every connection knows its owner, and a server that does not listen has
  neither handler nor connections.
\<close>

theorem linux_server_invariant:
  assumes "lt_inv (fst sw)" "handler_acts ops h" "lt_events ops h events sw = Some sw'"
  shows "lt_inv (fst sw')"
  using assms(1,3)
proof (induction events arbitrary: sw)
  case (Cons e es)
  from Cons.prems(2) obtain sw1 where sw1: "lt_event ops h e sw = Some sw1" "lt_events ops h es sw1 = Some sw'"
    by (auto split: Option.bind_splits)
  from Cons.IH [OF lt_event_inv [OF Cons.prems(1) assms(2) sw1(1)] sw1(2)] show ?case .
qed simp

text \<open>
  An incoming connection is taken over exactly if the server listens, has fewer open connections than
  the maximum and libevent can make a bufferevent of the socket. Then the handler is told of a new
  connection, which owns the socket, is open and is the last of the server's connections, all the others
  being open. Otherwise the socket is closed, the handler is not called and the open connections stay
  as they were.
\<close>

theorem linux_accept:
  assumes "lt_inv s" "sw1 = (if lt_handler s then lt_sweep_closed ops (s, w) else (s, w))"
  shows "(if lt_handler s \<and> lt_connection_count s < lt_max_connections s \<and> fst (be_socket_new ops fd (snd sw1)) \<noteq> None
    then (\<exists>s2 c w2. lt_accept_callback ops h fd addr (s, w)
             = map_option (lt_sweep_closed ops) (sh_on_accept h (lx_id c) (lx_peer c) (s2, w2))
           \<and> lt_connections s2 = filter lx_valid (lt_connections s) @ [c]
           \<and> lx_bev c = fst (be_socket_new ops fd (snd sw1)) \<and> lt_find (lx_id c) s = None \<and> lt_inv s2)
    else (\<exists>s2 w2. lt_accept_callback ops h fd addr (s, w) = Some (s2, so_close_socket ops fd w2)
           \<and> filter lx_valid (lt_connections s2) = filter lx_valid (lt_connections s)))"
proof (cases "lt_handler s")
  case False
  then show ?thesis by (auto simp: lt_accept_callback_def)
next
  case True
  obtain s1 w1 where sw: "lt_sweep_closed ops (s, w) = (s1, w1)" by fastforce
  then have s1: "s1 = fst (lt_sweep_closed ops (s, w))" by simp
  note i1 = lt_inv_sweep [OF assms(1), of ops w, folded s1]
  note sc = swept_count [OF assms(1) s1]
  have e: "lt_handler s1" "lt_max_connections s1 = lt_max_connections s" "lt_next_id s1 = lt_next_id s"
    using True lt_sweep_spec [of ops s w] s1 by simp_all
  have count: "lt_connection_count s1 = lt_connection_count s" using sc by (simp add: lt_connection_count_def)
  have w1: "snd sw1 = w1" using True sw assms(2) by simp
  obtain b w2 where b: "be_socket_new ops fd w1 = (b, w2)" by fastforce
  show ?thesis
  proof (cases "lt_connection_count s < lt_max_connections s")
    case False
    with True sw count e have "lt_accept_callback ops h fd addr (s, w) = Some (s1, so_close_socket ops fd w1)"
      by (simp add: lt_accept_callback_def)
    with False sc show ?thesis by (auto simp: lt_connection_count_def)
  next
    case less: True
    obtain c w3 where c: "lx_create ops (lt_next_id s1) fd addr w1 = (c, w3)" by fastforce
    note cs = lx_create_simps [OF c]
    show ?thesis
    proof (cases b)
      case None
      with c b have "w3 = so_close_socket ops fd w2" "lx_bev c = None" by (auto simp: lx_create_def)
      then have "lt_accept_callback ops h fd addr (s, w) =
          Some (s1\<lparr>lt_next_id := lt_next_id s1 + 1\<rparr>, so_close_socket ops fd w2)"
        using True less sw count e c by (simp add: lt_accept_callback_def lx_valid_def lx_destroy_def lx_close_bev_def)
      with None b w1 sc show ?thesis by auto
    next
      case (Some ev)
      with c b have bev: "lx_bev c = Some ev" by (auto simp: lx_create_def)
      let ?s2 = "s1\<lparr>lt_next_id := lt_next_id s1 + 1, lt_connections := lt_connections s1 @ [c]\<rparr>"
      have "lt_accept_callback ops h fd addr (s, w)
          = map_option (lt_sweep_closed ops) (sh_on_accept h (lx_id c) (lx_peer c) (?s2, w3))"
        using True less sw count e c bev by (simp add: lt_accept_callback_def lx_valid_def Let_def)
      moreover have "lt_inv ?s2"
        using lt_inv_accepted [OF assms(1) s1 _ c _ True] less count e bev by (simp add: lx_valid_def)
      moreover have "lt_find (lx_id c) s = None"
        using assms(1) cs(1) e by (auto simp: lt_find_None lt_inv_def)
      ultimately show ?thesis using True less Some b w1 sc bev by fastforce
    qed
  qed
qed

lemma lt_remove_gone:
  assumes "lt_find i s = Some c"
  shows "\<exists>s' w'. lt_remove ops (Some i) (s, w) = Some (s', w') \<and> lt_find i s' = None"
proof -
  obtain c1 w1 where c1: "lx_close ops (c, w) = (c1, w1)" by fastforce
  then have r: "lx_remove_requested c1" "lx_id c1 = i"
    using lx_close_simps [of ops c w] lt_find_Some [OF assms] by simp_all
  obtain s' w' where s': "lt_sweep_closed ops (lt_set c1 s, w1) = (s', w')" by fastforce
  have "lt_find i s' = None"
    using s' lt_sweep_spec [of ops "lt_set c1 s" w1] r by (auto simp: lt_find_None lt_set_def)
  with assms c1 s' show ?thesis by (auto simp: lt_remove_def lt_close_connection_def)
qed

lemma lt_close_gone: "\<exists>s' w'. lt_close ops (s, w) = (s', w') \<and> lt_find i s' = None"
  using lt_close_spec [of ops s w] by (cases "lt_close ops (s, w)") (auto simp: lt_find_def)

text \<open>
  C37: a handler that removes the connection it is told about (with the server's own \<open>remove\<close>), or that
  closes the server, may do so when data arrives, but not when the connection is reported closed, timed
  out or failed: then the callback goes on to close a connection object that has been destroyed.
\<close>

theorem remove_in_on_close_use_after_free:
  assumes "lt_find i s = Some c" "lx_valid c"
    "destroy = (lt_remove ops (Some i)) \<or> destroy = (\<lambda>sw. Some (lt_close ops sw))"
    "h = server_handler_default\<lparr>sh_on_data := (\<lambda>j. destroy), sh_on_close := (\<lambda>j. destroy), sh_on_error := (\<lambda>j code. destroy)\<rparr>"
    "ev_timeout events \<or> ev_error events \<or> ev_eof events"
  shows "lt_event_callback ops h events i (s, w) = None
    \<and> (\<exists>s' w'. lt_read_callback ops h i (s, w) = Some (s', w') \<and> lt_find i s' = None)"
proof -
  from lt_remove_gone [OF assms(1)] lt_close_gone assms(3) obtain s1 w1 where
    d: "destroy (s, w) = Some (s1, w1)" "lt_find i s1 = None" by metis
  have "lt_notify_event ops h events i (s, w) = None"
    using assms(4,5) d by (auto simp: lt_notify_event_def lt_close_connection_def server_handler_default_def)
  with assms(1) have "lt_event_callback ops h events i (s, w) = None"
    by (simp add: lt_event_callback_def lt_bev_callback_def)
  moreover
  have "lt_find i (fst (lt_sweep_closed ops (s1, w1))) = None"
    using d(2) by (auto simp: lt_find_None lt_sweep_spec)
  with assms(1,2,4) d(1)
  have "\<exists>s' w'. lt_read_callback ops h i (s, w) = Some (s', w') \<and> lt_find i s' = None"
    by (cases "lx_owner c"; cases "lt_sweep_closed ops (s1, w1)")
      (auto simp: lt_read_callback_def lt_bev_callback_def server_handler_default_def d(2))
  ultimately show ?thesis by simp
qed

subsection \<open>Examples\<close>

text \<open>A libevent that makes a bufferevent of every socket, and records the sockets that were closed.\<close>

definition demo_bev :: "int list bev_ops" where
  "demo_bev = \<lparr>be_socket_new = (\<lambda>fd w. (Some (nat fd), w)), be_enable = (\<lambda>b w. w), be_free = (\<lambda>b w. int b # w),
     be_input_length = (\<lambda>b w. 0), be_output_length = (\<lambda>b w. 0), be_remove = (\<lambda>b n w. (0, [], w)),
     be_write = (\<lambda>b bytes w. (0, w)), be_copyout = (\<lambda>b n w. (0, [])), be_readln = (\<lambda>b w. (None, w)),
     be_set_timeouts = (\<lambda>b r wr w. w), be_set_watermarks = (\<lambda>b rl rh wl wh w. w),
     so_close_socket = (\<lambda>fd w. fd # w), so_pton = (\<lambda>host. Some 0), so_ntop = (\<lambda>ip. []), so_error = (\<lambda>w. 104),
     li_new_bind = (\<lambda>cof reuse backlog ip port w. (Some 0, w)), li_free = (\<lambda>l w. w), li_socket_port = (\<lambda>l w. Some 2000)\<rparr>"

definition demo_listening :: linux_server where
  "demo_listening = (lt_init 1)\<lparr>lt_listener := Some 0, lt_handler := True, lt_bound_port := 2000\<rparr>"

definition demo_serving :: linux_server where
  "demo_serving = demo_listening\<lparr>lt_next_id := 1, lt_connections :=
     [\<lparr>lx_id = 0, lx_owner = True, lx_bev = Some 5, lx_peer = peer_default, lx_remove_requested = False\<rparr>]\<rparr>"

text \<open>A handler that closes a connection when data arrives.\<close>

definition closing_handler :: "(linux_server \<times> int list) tcp_server_handler" where
  "closing_handler = server_handler_default\<lparr>sh_on_data := lt_close_connection demo_bev\<rparr>"

lemma closing_handler_acts: "handler_acts demo_bev closing_handler"
  unfolding handler_acts_def closing_handler_def server_handler_default_def
  by (auto intro: r_into_rtranclp api_close_connection)

lemma linux_server_invariant_witness:
  "case lt_events demo_bev closing_handler
       [Accepted 5 None, Accepted 6 None, Read_Ready 0, Accepted 7 None, Reported \<lparr>ev_timeout = False, ev_error = False, ev_eof = True\<rparr> 1]
       (demo_listening, []) of None \<Rightarrow> False | Some (s', w') \<Rightarrow> lt_inv s' \<and> w' = [7, 5, 6]"
proof -
  let ?es = "[Accepted 5 None, Accepted 6 None, Read_Ready 0, Accepted 7 None,
    Reported \<lparr>ev_timeout = False, ev_error = False, ev_eof = True\<rparr> 1]"
  have "case lt_events demo_bev closing_handler ?es (demo_listening, []) of None \<Rightarrow> False | Some (s', w') \<Rightarrow> w' = [7, 5, 6]"
    by code_simp
  then obtain s' w' where r: "lt_events demo_bev closing_handler ?es (demo_listening, []) = Some (s', w')" "w' = [7, 5, 6]"
    by (auto split: option.splits)
  have "lt_inv (fst (demo_listening, [] :: int list))"
    by (simp add: demo_listening_def lt_init_def lt_inv_def lt_connection_count_def lt_valid_def)
  from linux_server_invariant [OF this closing_handler_acts r(1)] r show ?thesis by simp
qed

lemma demo_serving_inv: "lt_inv demo_serving"
  by (simp add: demo_serving_def demo_listening_def lt_init_def lt_inv_def lt_connection_count_def lt_valid_def lx_valid_def)

lemma linux_accept_witness:
  "\<exists>s2 w2. lt_accept_callback demo_bev closing_handler 6 None (demo_serving, []) = Some (s2, 6 # w2)
     \<and> filter lx_valid (lt_connections s2) = filter lx_valid (lt_connections demo_serving)"
  using linux_accept [OF demo_serving_inv refl, of demo_bev 6 "[]" closing_handler None]
  by (simp add: demo_serving_def demo_listening_def lt_init_def lt_connection_count_def lx_valid_def demo_bev_def)

lemma remove_in_on_close_use_after_free_witness:
  "lt_event_callback demo_bev (server_handler_default\<lparr>sh_on_data := (\<lambda>j. lt_remove demo_bev (Some 0)),
       sh_on_close := (\<lambda>j. lt_remove demo_bev (Some 0)), sh_on_error := (\<lambda>j code. lt_remove demo_bev (Some 0))\<rparr>)
     \<lparr>ev_timeout = False, ev_error = False, ev_eof = True\<rparr> 0 (demo_serving, []) = None"
  by (rule conjunct1 [OF remove_in_on_close_use_after_free [where c = "hd (lt_connections demo_serving)",
          OF _ _ disjI1 [OF refl] refl]])
    (simp_all add: demo_serving_def lt_find_def lx_valid_def)

end
