(* ===== verification/Linux_Tcp_Client.thy ===== *)
theory Linux_Tcp_Client
  imports Tcp Libevent_Loop Wifi_Tcp
begin

text \<open>
  \<open>LinuxTcpClientConnection\<close> and \<open>LinuxTcpClient\<close> of
  \<^verbatim>\<open>src/async_event_loop_linux/linux_tcp_client.hpp\<close>: a client with a non-blocking connect, on the
  libevent scheduler of \<open>Libevent_Loop\<close>. The socket calls of the operating system are a record of
  operations on the outside state \<open>'w\<close>. The state of a program is the client, the scheduler and the
  outside state; the client is the scheduler's task \<open>task\<close>. All its connections report to one handler.
  A callback that does not return is \<open>None\<close>.
\<close>

record addr_info =
  ai_id :: nat
  ai_ipv4 :: "(u32 \<times> u16) option"

record ('b, 'w) sock_ops =
  sk_getaddrinfo :: "string \<Rightarrow> string \<Rightarrow> 'w \<Rightarrow> addr_info list option \<times> 'w"
  sk_socket :: "nat \<Rightarrow> 'w \<Rightarrow> int \<times> 'w"
  sk_getfl :: "int \<Rightarrow> 'w \<Rightarrow> int \<times> 'w"
  sk_setfl_nonblock :: "int \<Rightarrow> int \<Rightarrow> 'w \<Rightarrow> int \<times> 'w"
  sk_connect :: "int \<Rightarrow> nat \<Rightarrow> 'w \<Rightarrow> int \<times> 'w"
  sk_errno :: "'w \<Rightarrow> int"
  sk_loop_errno :: "'b libevent_loop \<Rightarrow> 'w \<Rightarrow> int"
  sk_close :: "int \<Rightarrow> 'w \<Rightarrow> 'w"
  sk_recv_peek :: "int \<Rightarrow> nat \<Rightarrow> 'w \<Rightarrow> int \<times> byte list \<times> 'w"
  sk_read :: "int \<Rightarrow> nat \<Rightarrow> 'w \<Rightarrow> int \<times> byte list \<times> 'w"
  sk_send :: "int \<Rightarrow> byte list \<Rightarrow> 'w \<Rightarrow> int \<times> 'w"
  sk_fionread :: "int \<Rightarrow> 'w \<Rightarrow> int \<times> int"
  sk_so_error :: "int \<Rightarrow> 'w \<Rightarrow> int \<times> int \<times> 'w"
  sk_ntop :: "u32 \<Rightarrow> string"

text \<open>The error numbers the code names.\<close>

definition einval :: int where
  "einval = 22"

definition again_errors :: "int list" where
  "again_errors = [11, 11, 4]"

definition progress_errors :: "int list" where
  "progress_errors = [115, 114, 11]"

section \<open>\<open>LinuxTcpClientConnection\<close>\<close>

record client_connection =
  cc_fd :: int
  cc_peer :: tcp_peer_info
  cc_line :: "byte list"
  cc_line_size :: nat

definition cc_init :: client_connection where
  "cc_init = \<lparr>cc_fd = - 1, cc_peer = peer_default, cc_line = replicate 256 0, cc_line_size = 0\<rparr>"

definition cc_valid :: "client_connection \<Rightarrow> bool" where
  "cc_valid c \<longleftrightarrow> cc_fd c \<ge> 0"

definition cc_close :: "('b, 'w) sock_ops \<Rightarrow> client_connection \<times> 'w \<Rightarrow> client_connection \<times> 'w" where
  "cc_close ops cw =
     (case cw of (c, w) \<Rightarrow>
        if cc_fd c \<ge> 0 then (c\<lparr>cc_fd := - 1, cc_line_size := 0\<rparr>, sk_close ops (cc_fd c) w)
        else (c\<lparr>cc_line_size := 0\<rparr>, w))"

definition set_nonblocking_fd :: "('b, 'w) sock_ops \<Rightarrow> int \<Rightarrow> 'w \<Rightarrow> bool \<times> 'w" where
  "set_nonblocking_fd ops fd w =
     (if fd < 0 then (False, w)
      else (case sk_getfl ops fd w of (flags, w1) \<Rightarrow>
              if flags < 0 then (False, w1)
              else (case sk_setfl_nonblock ops fd flags w1 of (rc, w2) \<Rightarrow> (rc = 0, w2))))"

definition cc_attach ::
  "('b, 'w) sock_ops \<Rightarrow> int \<Rightarrow> tcp_peer_info \<Rightarrow> client_connection \<times> 'w \<Rightarrow> bool \<times> client_connection \<times> 'w" where
  "cc_attach ops fd peer cw =
     (case cc_close ops cw of (c, w) \<Rightarrow>
        case set_nonblocking_fd ops fd w of (ok, w1) \<Rightarrow> (fd \<ge> 0, c\<lparr>cc_fd := fd, cc_peer := peer\<rparr>, w1))"

definition cc_input_size :: "('b, 'w) sock_ops \<Rightarrow> client_connection \<Rightarrow> 'w \<Rightarrow> nat" where
  "cc_input_size ops c w =
     (if cc_fd c < 0 then 0
      else (case sk_fionread ops (cc_fd c) w of (rc, bytes) \<Rightarrow> if rc = 0 \<and> bytes > 0 then nat bytes else 0))"

definition cc_output_size :: "client_connection \<Rightarrow> nat" where
  "cc_output_size c = 0"

text \<open>The result of \<open>read\<close> and \<open>send\<close>, and what is reported for a failure.\<close>

definition io_result :: "('b, 'w) sock_ops \<Rightarrow> int \<Rightarrow> 'w \<Rightarrow> int" where
  "io_result ops n w = (if n < 0 then if sk_errno ops w \<in> set again_errors then 0 else - 1 else n)"

definition cc_read ::
  "('b, 'w) sock_ops \<Rightarrow> bool \<Rightarrow> nat \<Rightarrow> client_connection \<Rightarrow> 'w \<Rightarrow> int \<times> byte list \<times> 'w" where
  "cc_read ops dst_null max_len c w =
     (if cc_fd c < 0 \<or> dst_null \<or> max_len = 0 then (0, [], w)
      else (case sk_read ops (cc_fd c) max_len w of (n, bytes, w1) \<Rightarrow> (io_result ops n w1, bytes, w1)))"

definition cc_write :: "('b, 'w) sock_ops \<Rightarrow> byte list option \<Rightarrow> client_connection \<Rightarrow> 'w \<Rightarrow> int \<times> 'w" where
  "cc_write ops src c w =
     (case src of
        None \<Rightarrow> (0, w)
      | Some bytes \<Rightarrow>
          if cc_fd c < 0 \<or> bytes = [] then (0, w)
          else (case sk_send ops (cc_fd c) bytes w of (n, w1) \<Rightarrow> (io_result ops n w1, w1)))"

definition cc_peek :: "('b, 'w) sock_ops \<Rightarrow> bool \<Rightarrow> nat \<Rightarrow> client_connection \<Rightarrow> 'w \<Rightarrow> byte list option \<times> 'w" where
  "cc_peek ops dst_null len c w =
     (if cc_fd c < 0 \<or> dst_null \<or> len = 0 then (None, w)
      else (case sk_recv_peek ops (cc_fd c) len w of (n, bytes, w1) \<Rightarrow> (if n = int len then Some bytes else None, w1)))"

definition cc_read_exact ::
  "('b, 'w) sock_ops \<Rightarrow> bool \<Rightarrow> nat \<Rightarrow> client_connection \<Rightarrow> 'w \<Rightarrow> bool \<times> byte list \<times> 'w" where
  "cc_read_exact ops dst_null len c w =
     (if dst_null \<or> cc_input_size ops c w < len then (False, [], w)
      else (case cc_read ops dst_null len c w of (n, bytes, w1) \<Rightarrow> (n = int_of_size len, bytes, w1)))"

definition cc_store_byte :: "byte \<Rightarrow> client_connection \<Rightarrow> client_connection" where
  "cc_store_byte b c =
     (if cc_line_size c < length (cc_line c)
      then c\<lparr>cc_line := (cc_line c)[cc_line_size c := b], cc_line_size := cc_line_size c + 1\<rparr>
      else c\<lparr>cc_line_size := 0\<rparr>)"

text \<open>It reads byte by byte until a line is complete or nothing can be read, which may be never.\<close>

partial_function (option) cc_read_line_loop ::
  "('b, 'w) sock_ops \<Rightarrow> nat \<Rightarrow> bool \<Rightarrow> client_connection \<times> 'w
     \<Rightarrow> (byte list option \<times> client_connection \<times> 'w) option" where
  "cc_read_line_loop ops max_len strip cw =
     (case cw of (c, w) \<Rightarrow>
        case cc_read ops False 1 c w of (n, bytes, w1) \<Rightarrow>
          if n \<le> 0 then Some (None, c, w1)
          else let b = hd (bytes @ [0]) in
            if b = chr_lf
            then Some (Some (line_text strip max_len (take (cc_line_size c) (cc_line c))), c\<lparr>cc_line_size := 0\<rparr>, w1)
            else cc_read_line_loop ops max_len strip (cc_store_byte b c, w1))"

declare cc_read_line_loop.simps [code]

definition cc_read_line ::
  "('b, 'w) sock_ops \<Rightarrow> bool \<Rightarrow> nat \<Rightarrow> bool \<Rightarrow> client_connection \<times> 'w
     \<Rightarrow> (byte list option \<times> client_connection \<times> 'w) option" where
  "cc_read_line ops dst_null max_len strip cw =
     (if dst_null \<or> max_len = 0 then Some (None, cw) else cc_read_line_loop ops max_len strip cw)"

section \<open>\<open>LinuxTcpClient\<close>\<close>

datatype client_state = Idle | Connecting | Connected

record linux_client =
  lk_handler :: bool
  lk_connection :: client_connection
  lk_pending_peer :: tcp_peer_info
  lk_pending_fd :: int
  lk_registered_fd :: int
  lk_state :: client_state

type_synonym ('b, 'w) lk_prog = "linux_client \<times> 'b libevent_loop \<times> 'w"

definition lk_init :: linux_client where
  "lk_init = \<lparr>lk_handler = False, lk_connection = cc_init, lk_pending_peer = peer_default, lk_pending_fd = - 1,
     lk_registered_fd = - 1, lk_state = Idle\<rparr>"

definition lk_valid :: "linux_client \<Rightarrow> bool" where
  "lk_valid k \<longleftrightarrow> lk_state k \<noteq> Idle \<or> cc_valid (lk_connection k)"

definition lk_connected :: "linux_client \<Rightarrow> bool" where
  "lk_connected k \<longleftrightarrow> lk_state k = Connected \<and> cc_valid (lk_connection k)"

definition lk_connecting :: "linux_client \<Rightarrow> bool" where
  "lk_connecting k \<longleftrightarrow> lk_state k = Connecting \<and> lk_pending_fd k \<ge> 0"

definition lk_unregister_fd :: "'b libevent_ops \<Rightarrow> nat \<Rightarrow> ('b, 'w) lk_prog \<Rightarrow> ('b, 'w) lk_prog" where
  "lk_unregister_fd lv task st =
     (case st of (k, l, w) \<Rightarrow>
        if lk_registered_fd k \<ge> 0
        then (k\<lparr>lk_registered_fd := - 1\<rparr>, snd (ll_remove_fd lv (lk_registered_fd k) task l), w)
        else (k, l, w))"

text \<open>\<open>connection_.close()\<close>, also when the application makes it through \<open>connection()\<close>.\<close>

definition lk_close_connection :: "('b, 'w) sock_ops \<Rightarrow> ('b, 'w) lk_prog \<Rightarrow> ('b, 'w) lk_prog" where
  "lk_close_connection ops st =
     (case st of (k, l, w) \<Rightarrow> case cc_close ops (lk_connection k, w) of (c, w1) \<Rightarrow> (k\<lparr>lk_connection := c\<rparr>, l, w1))"

definition lk_close ::
  "('b, 'w) sock_ops \<Rightarrow> 'b libevent_ops \<Rightarrow> nat \<Rightarrow> ('b, 'w) lk_prog \<Rightarrow> ('b, 'w) lk_prog" where
  "lk_close ops lv task st =
     (let (k, l, w) = lk_unregister_fd lv task st;
          (k1, w1) = (if lk_pending_fd k \<ge> 0 then (k\<lparr>lk_pending_fd := - 1\<rparr>, sk_close ops (lk_pending_fd k) w) else (k, w));
          (k2, l2, w2) = lk_close_connection ops (k1, l, w1)
      in (k2\<lparr>lk_handler := False, lk_state := Idle\<rparr>, l2, w2))"

definition fill_peer :: "('b, 'w) sock_ops \<Rightarrow> addr_info \<Rightarrow> string \<Rightarrow> u16 \<Rightarrow> tcp_peer_info" where
  "fill_peer ops ai host port =
     (case ai_ipv4 ai of
        Some (ip, port) \<Rightarrow> \<lparr>peer_host = sk_ntop ops ip, peer_port = port\<rparr>
      | None \<Rightarrow> \<lparr>peer_host = take 63 host, peer_port = port\<rparr>)"

definition lk_activate ::
  "('b, 'w) sock_ops \<Rightarrow> 'b libevent_ops \<Rightarrow> nat \<Rightarrow> ('b, 'w) lk_prog tcp_client_handler \<Rightarrow> int \<Rightarrow> tcp_peer_info
     \<Rightarrow> ('b, 'w) lk_prog \<Rightarrow> (bool \<times> ('b, 'w) lk_prog) option" where
  "lk_activate ops lv task h fd peer st =
     (case st of (k, l, w) \<Rightarrow>
        case cc_attach ops fd peer (lk_connection k, w) of (_, c, w1) \<Rightarrow>
          let k1 = k\<lparr>lk_connection := c, lk_state := Connected\<rparr>
          in case ll_add_readable_fd lv (cc_fd c) task l of
               (False, l1) \<Rightarrow>
                 let err = (if sk_loop_errno ops l1 w1 \<noteq> 0 then sk_loop_errno ops l1 w1 else einval);
                     (k2, l2, w2) = lk_close_connection ops (k1, l1, w1);
                     st2 = (k2\<lparr>lk_state := Idle, lk_handler := False\<rparr>, l2, w2)
                 in if lk_handler k2 then do { st3 \<leftarrow> kh_on_error h err st2; Some (False, st3) }
                    else Some (False, st2)
             | (True, l1) \<Rightarrow>
                 let st2 = (k1\<lparr>lk_registered_fd := cc_fd c\<rparr>, l1, w1)
                 in if lk_handler k1 then do { st3 \<leftarrow> kh_on_connect h (cc_peer c) st2; Some (True, st3) }
                    else Some (True, st2))"

text \<open>
  The loop over the addresses: \<open>None\<close> as the next step means that all have been tried.
\<close>

fun lk_try ::
  "('b, 'w) sock_ops \<Rightarrow> 'b libevent_ops \<Rightarrow> nat \<Rightarrow> ('b, 'w) lk_prog tcp_client_handler \<Rightarrow> string \<Rightarrow> u16
     \<Rightarrow> addr_info list \<Rightarrow> int \<Rightarrow> ('b, 'w) lk_prog \<Rightarrow> (bool \<times> ('b, 'w) lk_prog) option" where
  "lk_try ops lv task h host port [] last_error st =
     do { st1 \<leftarrow> kh_on_error h last_error st; Some (False, st1) }"
| "lk_try ops lv task h host port (ai # ais) last_error st =
     (case st of (k, l, w) \<Rightarrow>
        case sk_socket ops (ai_id ai) w of (fd, w1) \<Rightarrow>
          if fd < 0 then lk_try ops lv task h host port ais (sk_errno ops w1) (k, l, w1)
          else (case set_nonblocking_fd ops fd w1 of (ok, w2) \<Rightarrow>
            if \<not> ok
            then lk_try ops lv task h host port ais (if sk_errno ops w2 \<noteq> 0 then sk_errno ops w2 else einval)
                   (k, l, sk_close ops fd w2)
            else (case sk_connect ops fd (ai_id ai) w2 of (rc, w3) \<Rightarrow>
              if rc = 0
              then lk_activate ops lv task h fd (fill_peer ops ai host port) (k\<lparr>lk_handler := True\<rparr>, l, w3)
              else if sk_errno ops w3 \<in> set progress_errors
              then (let k1 = k\<lparr>lk_handler := True, lk_pending_fd := fd, lk_pending_peer := fill_peer ops ai host port,
                               lk_state := Connecting\<rparr>
                    in case ll_add_writable_fd lv fd task l of
                         (False, l1) \<Rightarrow>
                           (let err = (if sk_loop_errno ops l1 w3 \<noteq> 0 then sk_loop_errno ops l1 w3 else einval)
                            in do { st2 \<leftarrow> kh_on_error h err (lk_close ops lv task (k1, l1, w3)); Some (False, st2) })
                       | (True, l1) \<Rightarrow> Some (True, (k1\<lparr>lk_registered_fd := fd\<rparr>, l1, w3)))
              else lk_try ops lv task h host port ais (sk_errno ops w3) (k, l, sk_close ops fd w3))))"

definition lk_connect ::
  "('b, 'w) sock_ops \<Rightarrow> 'b libevent_ops \<Rightarrow> nat \<Rightarrow> ('b, 'w) lk_prog tcp_client_handler \<Rightarrow> string option \<Rightarrow> u16
     \<Rightarrow> ('b, 'w) lk_prog \<Rightarrow> (bool \<times> ('b, 'w) lk_prog) option" where
  "lk_connect ops lv task h host port st =
     (case lk_close ops lv task st of (k, l, w) \<Rightarrow>
        case host of
          None \<Rightarrow> do { st1 \<leftarrow> kh_on_error h einval (k, l, w); Some (False, st1) }
        | Some name \<Rightarrow>
            if port = 0 then do { st1 \<leftarrow> kh_on_error h einval (k, l, w); Some (False, st1) }
            else (case sk_getaddrinfo ops name (decimal (unat port)) w of
                    (Some (ai # ais), w1) \<Rightarrow> lk_try ops lv task h name port (ai # ais) einval (k, l, w1)
                  | (_, w1) \<Rightarrow> do { st1 \<leftarrow> kh_on_error h einval (k, l, w1); Some (False, st1) }))"

definition lk_complete_connect ::
  "('b, 'w) sock_ops \<Rightarrow> 'b libevent_ops \<Rightarrow> nat \<Rightarrow> ('b, 'w) lk_prog tcp_client_handler
     \<Rightarrow> ('b, 'w) lk_prog \<Rightarrow> ('b, 'w) lk_prog option" where
  "lk_complete_connect ops lv task h st =
     (case st of (k, l, w) \<Rightarrow>
        if \<not> lk_handler k \<or> lk_pending_fd k < 0 then Some (lk_close ops lv task st)
        else (case sk_so_error ops (lk_pending_fd k) w of (rc, so_err, w1) \<Rightarrow>
          let err = (if rc \<noteq> 0 then if sk_errno ops w1 \<noteq> 0 then sk_errno ops w1 else einval else so_err)
          in if err \<noteq> 0
             then do { st1 \<leftarrow> kh_on_error h err (k, l, w1); Some (lk_close ops lv task st1) }
             else (case lk_unregister_fd lv task (k, l, w1) of (k1, l1, w2) \<Rightarrow>
                     map_option snd (lk_activate ops lv task h (lk_pending_fd k) (lk_pending_peer k)
                       (k1\<lparr>lk_pending_fd := - 1\<rparr>, l1, w2)))))"

definition lk_poll ::
  "('b, 'w) sock_ops \<Rightarrow> 'b libevent_ops \<Rightarrow> nat \<Rightarrow> ('b, 'w) lk_prog tcp_client_handler
     \<Rightarrow> ('b, 'w) lk_prog \<Rightarrow> ('b, 'w) lk_prog option" where
  "lk_poll ops lv task h st =
     (case st of (k, l, w) \<Rightarrow>
        if lk_state k = Connecting then lk_complete_connect ops lv task h st
        else if lk_state k \<noteq> Connected \<or> \<not> lk_handler k \<or> \<not> cc_valid (lk_connection k) then Some st
        else (case sk_recv_peek ops (cc_fd (lk_connection k)) 1 w of (n, _, w1) \<Rightarrow>
          if n > 0 then kh_on_data h (k, l, w1)
          else if n = 0 then do { st1 \<leftarrow> kh_on_close h (k, l, w1); Some (lk_close ops lv task st1) }
          else if sk_errno ops w1 \<in> set again_errors then Some (k, l, w1)
          else do { st1 \<leftarrow> kh_on_error h (sk_errno ops w1) (k, l, w1); Some (lk_close ops lv task st1) }))"

section \<open>Invariant\<close>

text \<open>
  The descriptors the client holds, what it has registered, and what its states mean. \<open>opn\<close> gives the
  sockets that have been opened for the client and not been closed.
\<close>

definition fds_held :: "linux_client \<Rightarrow> int set" where
  "fds_held k = {fd. 0 \<le> fd \<and> (fd = lk_pending_fd k \<or> fd = cc_fd (lk_connection k))}"

definition refs_ok :: "nat \<Rightarrow> int \<Rightarrow> 'b libevent_loop \<Rightarrow> bool" where
  "refs_ok task r l \<longleftrightarrow> (\<forall>e \<in> set (ll_fds l). fe_task e = Some task \<longrightarrow> fe_fd e = r \<and> 0 \<le> r)
     \<and> (\<forall>e \<in> set (ll_periodic l @ ll_one_shot l). te_task e \<noteq> Some task)"

definition lk_weak :: "nat \<Rightarrow> ('w \<Rightarrow> int set) \<Rightarrow> ('b, 'w) lk_prog \<Rightarrow> bool" where
  "lk_weak task opn st \<longleftrightarrow> (case st of (k, l, w) \<Rightarrow>
     ll_ok l \<and> refs_ok task (lk_registered_fd k) l \<and> opn w = fds_held k)"

definition state_ok :: "linux_client \<Rightarrow> bool" where
  "state_ok k \<longleftrightarrow> (case lk_state k of
     Idle \<Rightarrow> \<not> lk_handler k \<and> lk_pending_fd k < 0 \<and> lk_registered_fd k < 0 \<and> cc_fd (lk_connection k) < 0
   | Connecting \<Rightarrow> lk_handler k \<and> lk_pending_fd k \<ge> 0 \<and> lk_registered_fd k = lk_pending_fd k \<and> cc_fd (lk_connection k) < 0
   | Connected \<Rightarrow> lk_handler k \<and> lk_pending_fd k < 0 \<and> lk_registered_fd k \<ge> 0
       \<and> (cc_fd (lk_connection k) = lk_registered_fd k \<or> cc_fd (lk_connection k) < 0))"

definition lk_inv :: "nat \<Rightarrow> ('w \<Rightarrow> int set) \<Rightarrow> ('b, 'w) lk_prog \<Rightarrow> bool" where
  "lk_inv task opn st \<longleftrightarrow> lk_weak task opn st \<and> state_ok (fst st)"

text \<open>What the operating system does to the set of open sockets.\<close>

definition sockets_ok :: "('b, 'w) sock_ops \<Rightarrow> ('w \<Rightarrow> int set) \<Rightarrow> bool" where
  "sockets_ok ops opn \<longleftrightarrow>
     (\<forall>ai w fd w'. sk_socket ops ai w = (fd, w') \<longrightarrow>
        (if fd < 0 then opn w' = opn w else fd \<notin> opn w \<and> opn w' = insert fd (opn w)))
     \<and> (\<forall>fd w. opn (sk_close ops fd w) = opn w - {fd})
     \<and> (\<forall>host port w. opn (snd (sk_getaddrinfo ops host port w)) = opn w)
     \<and> (\<forall>fd w. opn (snd (sk_getfl ops fd w)) = opn w)
     \<and> (\<forall>fd flags w. opn (snd (sk_setfl_nonblock ops fd flags w)) = opn w)
     \<and> (\<forall>fd ai w. opn (snd (sk_connect ops fd ai w)) = opn w)
     \<and> (\<forall>fd w. opn (snd (snd (sk_so_error ops fd w))) = opn w)
     \<and> (\<forall>fd n w. opn (snd (snd (sk_recv_peek ops fd n w))) = opn w)"

text \<open>A handler whose callbacks keep a property of the program's state, if they return.\<close>

definition client_handler_keeps :: "('s \<Rightarrow> bool) \<Rightarrow> 's tcp_client_handler \<Rightarrow> bool" where
  "client_handler_keeps I h \<longleftrightarrow> (\<forall>st st' peer code. I st \<longrightarrow>
     (kh_on_connect h peer st = Some st' \<or> kh_on_data h st = Some st' \<or> kh_on_write_ready h st = Some st'
       \<or> kh_on_close h st = Some st' \<or> kh_on_error h code st = Some st') \<longrightarrow> I st')"

lemma sockets_okD:
  assumes "sockets_ok ops opn"
  shows "sk_socket ops ai w = (fd, w') \<Longrightarrow> if fd < 0 then opn w' = opn w else fd \<notin> opn w \<and> opn w' = insert fd (opn w)"
    "opn (sk_close ops fd w) = opn w - {fd}"
    "sk_getaddrinfo ops host port w = (r1, w') \<Longrightarrow> opn w' = opn w"
    "sk_connect ops fd a w = (rc, w') \<Longrightarrow> opn w' = opn w"
    "sk_so_error ops fd w = (rc, e, w') \<Longrightarrow> opn w' = opn w"
    "sk_recv_peek ops fd n w = (rc, bs, w') \<Longrightarrow> opn w' = opn w"
  using assms unfolding sockets_ok_def by (metis snd_conv)+

lemma set_nonblocking_opn:
  assumes "sockets_ok ops opn" "set_nonblocking_fd ops fd w = (ok, w')"
  shows "opn w' = opn w"
proof -
  obtain flags w1 where f: "sk_getfl ops fd w = (flags, w1)" by fastforce
  obtain rc w2 where s: "sk_setfl_nonblock ops fd flags w1 = (rc, w2)" by fastforce
  have "opn w1 = opn w" "opn w2 = opn w1" using assms(1) f s unfolding sockets_ok_def by (metis snd_conv)+
  with assms(2) f s show ?thesis by (auto simp: set_nonblocking_fd_def split: if_splits)
qed

subsection \<open>The scheduler's items of the client\<close>

lemma refs_ok_registered: "refs_ok task r l \<Longrightarrow> r < 0 \<Longrightarrow> task \<notin> ll_registered l"
  by (auto simp: refs_ok_def ll_registered_def)

lemma refs_ok_compact: "refs_ok task r l \<Longrightarrow> refs_ok task r (ll_compact lv l)"
  by (auto simp: refs_ok_def ll_compact_spec)

lemma ll_remove_fd_refs:
  assumes "ll_ok l" "refs_ok task r l"
  shows "ll_ok (snd (ll_remove_fd lv r task l)) \<and> refs_ok task (- 1) (snd (ll_remove_fd lv r task l))"
proof -
  obtain b fs where m: "mark_fd_events_removed (\<lambda>e. fe_fd e = r \<and> fe_task e = Some task) (ll_fds l) = (b, fs)" by fastforce
  note s = mark_fd_spec [OF m]
  let ?l = "l\<lparr>ll_fds := fs\<rparr>"
  have "ll_ok ?l" using assms(1) s by (auto simp: ll_ok_def fe_kill_def)
  moreover have "refs_ok task (- 1) ?l" using assms(2) s by (auto simp: refs_ok_def fe_kill_def)
  ultimately show ?thesis
    using m ll_compact_ok [of ?l lv] refs_ok_compact [of task "- 1" ?l lv] by (simp add: ll_remove_fd_def)
qed

lemma ll_add_fd_refs:
  assumes "ll_ok l" "refs_ok task (- 1) l" "ll_add_fd lv fd kind task l = (ok, l')"
  shows "ll_ok l' \<and> refs_ok task (if ok then fd else - 1) l' \<and> (ok \<longrightarrow> fd \<ge> 0)"
proof -
  obtain ev l1 where a: "ll_arm lv kind None l = (ev, l1)" by fastforce
  note b = base_stepD [OF ll_arm_spec [OF a]]
  have r1: "refs_ok task (- 1) l1" using assms(2) b by (simp add: refs_ok_def)
  have "ll_ok l'" using ll_add_fd_ok [OF assms(1,3)] by simp
  moreover consider "l' = l" "\<not> ok" | "l' = l1" "\<not> ok"
    | e where "ok" "fd \<ge> 0" "l' = l1\<lparr>ll_fds := ll_fds l1 @ [e]\<rparr>" "fe_fd e = fd"
    using assms(3) a by (cases "\<not> ll_valid l \<or> fd < 0"; cases ev) (auto simp: ll_add_fd_def)
  then have "refs_ok task (if ok then fd else - 1) l' \<and> (ok \<longrightarrow> fd \<ge> 0)"
  proof cases
    case 1
    with assms(2) show ?thesis by simp
  next
    case 2
    with r1 show ?thesis by simp
  next
    case (3 e)
    with r1 show ?thesis by (auto simp: refs_ok_def)
  qed
  ultimately show ?thesis by blast
qed

lemma ll_add_fd_refs_client:
  assumes "ll_ok l" "refs_ok task (- 1) l"
  shows "ll_add_readable_fd lv fd task l = (ok, l') \<Longrightarrow> ll_ok l' \<and> refs_ok task (if ok then fd else - 1) l' \<and> (ok \<longrightarrow> fd \<ge> 0)"
    "ll_add_writable_fd lv fd task l = (ok, l') \<Longrightarrow> ll_ok l' \<and> refs_ok task (if ok then fd else - 1) l' \<and> (ok \<longrightarrow> fd \<ge> 0)"
  using assms ll_add_fd_refs [of "ll_compact lv l" task lv fd] ll_compact_ok [of l lv] refs_ok_compact
  unfolding ll_add_readable_fd_def ll_add_writable_fd_def by blast+

lemma refs_ok_neg: "r < 0 \<Longrightarrow> refs_ok task r l = refs_ok task (- 1) l"
  by (auto simp: refs_ok_def)

subsection \<open>The operations\<close>

lemma lk_unregister_refs:
  assumes "ll_ok l" "refs_ok task (lk_registered_fd k) l" "lk_unregister_fd lv task (k, l, w) = (k', l', w')"
  shows "ll_ok l' \<and> refs_ok task (- 1) l' \<and> w' = w \<and> lk_registered_fd k' < 0
    \<and> k' = k\<lparr>lk_registered_fd := lk_registered_fd k'\<rparr>"
proof (cases "lk_registered_fd k \<ge> 0")
  case True
  with assms(3) have "k' = k\<lparr>lk_registered_fd := - 1\<rparr>" "l' = snd (ll_remove_fd lv (lk_registered_fd k) task l)" "w' = w"
    by (simp_all add: lk_unregister_fd_def)
  with ll_remove_fd_refs [OF assms(1,2), of lv] show ?thesis by simp
next
  case False
  with assms(3) have "k' = k" "l' = l" "w' = w" by (simp_all add: lk_unregister_fd_def)
  with False assms(1,2) refs_ok_neg [of "lk_registered_fd k" task l] show ?thesis by simp
qed

lemma cc_close_spec:
  assumes "sockets_ok ops opn" "cc_close ops (c, w) = (c', w')"
  shows "cc_fd c' < 0" "opn w' = (if 0 \<le> cc_fd c then opn w - {cc_fd c} else opn w)"
proof -
  have "cc_fd c' < 0 \<and> opn w' = (if 0 \<le> cc_fd c then opn w - {cc_fd c} else opn w)"
  proof (cases "0 \<le> cc_fd c")
    case True
    with assms(2) have "c' = c\<lparr>cc_fd := - 1, cc_line_size := 0\<rparr>" "w' = sk_close ops (cc_fd c) w"
      by (simp_all add: cc_close_def)
    with True sockets_okD(2) [OF assms(1), of "cc_fd c" w] show ?thesis by simp
  next
    case False
    with assms(2) have "c' = c\<lparr>cc_line_size := 0\<rparr>" "w' = w" by (simp_all add: cc_close_def)
    with False show ?thesis by simp
  qed
  then show "cc_fd c' < 0" "opn w' = (if 0 \<le> cc_fd c then opn w - {cc_fd c} else opn w)" by simp_all
qed

lemma fds_held_eq:
  "fds_held k = (if 0 \<le> lk_pending_fd k then {lk_pending_fd k} else {}) \<union>
     (if 0 \<le> cc_fd (lk_connection k) then {cc_fd (lk_connection k)} else {})"
  by (auto simp: fds_held_def)

lemma lk_close_inv:
  assumes "sockets_ok ops opn" "lk_weak task opn (k, l, w)" "lk_close ops lv task (k, l, w) = (k', l', w')"
  shows "lk_inv task opn (k', l', w') \<and> lk_state k' = Idle \<and> task \<notin> ll_registered l' \<and> opn w' = {}"
proof -
  from assms(2) have weak: "ll_ok l" "refs_ok task (lk_registered_fd k) l" "opn w = fds_held k"
    by (simp_all add: lk_weak_def)
  obtain k1 l1 w1 where u: "lk_unregister_fd lv task (k, l, w) = (k1, l1, w1)" by (metis prod_cases3)
  note s = lk_unregister_refs [OF weak(1,2) u]
  then have k1: "lk_registered_fd k1 < 0" "lk_pending_fd k1 = lk_pending_fd k" "lk_connection k1 = lk_connection k" "w1 = w"
    by (metis linux_client.select_convs linux_client.surjective linux_client.update_convs)+
  define kw where "kw = (if lk_pending_fd k1 \<ge> 0 then (k1\<lparr>lk_pending_fd := - 1\<rparr>, sk_close ops (lk_pending_fd k1) w1) else (k1, w1))"
  obtain k2 w2 where kw': "kw = (k2, w2)" by fastforce
  have k2: "lk_pending_fd k2 < 0 \<and> lk_registered_fd k2 = lk_registered_fd k1 \<and> lk_connection k2 = lk_connection k
    \<and> opn w2 = (if 0 \<le> lk_pending_fd k then opn w - {lk_pending_fd k} else opn w)"
  proof (cases "lk_pending_fd k1 \<ge> 0")
    case True
    with kw' have "k2 = k1\<lparr>lk_pending_fd := - 1\<rparr>" "w2 = sk_close ops (lk_pending_fd k1) w1" by (simp_all add: kw_def)
    with True k1 sockets_okD(2) [OF assms(1), of "lk_pending_fd k" w] show ?thesis by simp
  next
    case False
    with kw' have "k2 = k1" "w2 = w1" by (simp_all add: kw_def)
    with False k1 show ?thesis by simp
  qed
  obtain c w3 where c: "cc_close ops (lk_connection k2, w2) = (c, w3)" by fastforce
  note cs = cc_close_spec [OF assms(1) c]
  have e: "k' = k2\<lparr>lk_connection := c, lk_handler := False, lk_state := Idle\<rparr>" "l' = l1" "w' = w3"
    using assms(3) u kw' c by (simp_all add: lk_close_def Let_def lk_close_connection_def flip: kw_def)
  have "opn w3 = {}" using cs k2 weak(3) by (auto simp: fds_held_eq split: if_splits)
  moreover have "fds_held k' = {}" using k2 cs by (simp add: fds_held_eq e(1))
  moreover have "refs_ok task (lk_registered_fd k1) l1" using s k1(1) refs_ok_neg by blast
  moreover have "task \<notin> ll_registered l1" using refs_ok_registered [OF calculation(3) k1(1)] .
  ultimately show ?thesis
    using s k1(1) k2 cs by (simp add: lk_inv_def lk_weak_def state_ok_def e)
qed

lemma lk_inv_weak: "lk_inv task opn st \<Longrightarrow> lk_weak task opn st"
  by (simp add: lk_inv_def)

lemma handler_keepsD:
  assumes "client_handler_keeps I h" "I st"
  shows "kh_on_connect h peer st = Some st' \<Longrightarrow> I st'" "kh_on_data h st = Some st' \<Longrightarrow> I st'"
    "kh_on_close h st = Some st' \<Longrightarrow> I st'" "kh_on_error h code st = Some st' \<Longrightarrow> I st'"
  using assms unfolding client_handler_keeps_def by blast+

lemma lk_activate_inv:
  assumes sock: "sockets_ok ops opn" and keeps: "client_handler_keeps (lk_inv task opn) h"
    and pre: "ll_ok l" "refs_ok task (- 1) l" "opn w = {fd}" "fd \<ge> 0" "lk_handler k" "cc_fd (lk_connection k) < 0"
      "lk_pending_fd k < 0" "lk_registered_fd k < 0"
    and run: "lk_activate ops lv task h fd peer (k, l, w) = Some (ok, st')"
  shows "lk_inv task opn st'"
proof -
  obtain ok1 c w1 where a: "cc_attach ops fd peer (lk_connection k, w) = (ok1, c, w1)" by (metis prod_cases3)
  obtain c0 w0 where c0: "cc_close ops (lk_connection k, w) = (c0, w0)" by fastforce
  obtain nb wn where nb: "set_nonblocking_fd ops fd w0 = (nb, wn)" by fastforce
  have "c = c0\<lparr>cc_fd := fd, cc_peer := peer\<rparr>" "w1 = wn" using a c0 nb by (simp_all add: cc_attach_def)
  then have c: "cc_fd c = fd" "opn w1 = {fd}"
    using cc_close_spec [OF sock c0] set_nonblocking_opn [OF sock nb] pre(3,6) by simp_all
  obtain ok2 l1 where l1: "ll_add_readable_fd lv (cc_fd c) task l = (ok2, l1)" by fastforce
  note refs = ll_add_fd_refs_client(1) [OF pre(1,2) l1]
  let ?k1 = "k\<lparr>lk_connection := c, lk_state := Connected\<rparr>"
  show ?thesis
  proof (cases ok2)
    case True
    let ?k2 = "?k1\<lparr>lk_registered_fd := cc_fd c\<rparr>"
    have "lk_inv task opn (?k2, l1, w1)"
      using True refs pre c by (simp add: lk_inv_def lk_weak_def state_ok_def fds_held_eq)
    moreover have "kh_on_connect h (cc_peer c) (?k2, l1, w1) = Some st'"
      using run a l1 True pre(5) by (simp add: lk_activate_def Let_def split: Option.bind_splits)
    ultimately show ?thesis using handler_keepsD(1) [OF keeps] by blast
  next
    case False
    obtain c2 w2 where c2: "cc_close ops (c, w1) = (c2, w2)" by fastforce
    note cs = cc_close_spec [OF sock c2]
    let ?k2 = "?k1\<lparr>lk_connection := c2, lk_state := Idle, lk_handler := False\<rparr>"
    have "lk_inv task opn (?k2, l1, w2)"
      using False refs refs_ok_neg [OF pre(8), of task l1] pre c cs
      by (simp add: lk_inv_def lk_weak_def state_ok_def fds_held_eq)
    moreover have "\<exists>err. kh_on_error h err (?k2, l1, w2) = Some st'"
      using run a l1 False pre(5) c2
      by (simp add: lk_activate_def lk_close_connection_def Let_def split: Option.bind_splits) blast
    ultimately show ?thesis using handler_keepsD(4) [OF keeps] by blast
  qed
qed

lemma lk_try_inv:
  assumes sock: "sockets_ok ops opn" and keeps: "client_handler_keeps (lk_inv task opn) h"
  shows "lk_inv task opn (k, l, w) \<Longrightarrow> lk_state k = Idle \<Longrightarrow>
    lk_try ops lv task h host port ais last_error (k, l, w) = Some (ok, st') \<Longrightarrow> lk_inv task opn st'"
proof (induction ais arbitrary: last_error w)
  case Nil
  then have "kh_on_error h last_error (k, l, w) = Some st'" by (simp split: Option.bind_splits)
  with handler_keepsD(4) [OF keeps Nil.prems(1)] show ?case by blast
next
  case (Cons ai ais)
  from Cons.prems(1,2) have inv: "ll_ok l" "refs_ok task (lk_registered_fd k) l" "opn w = {}" "\<not> lk_handler k"
    "lk_pending_fd k < 0" "lk_registered_fd k < 0" "cc_fd (lk_connection k) < 0"
    by (simp_all add: lk_inv_def lk_weak_def state_ok_def fds_held_eq)
  then have refs: "refs_ok task (- 1) l" using refs_ok_neg by blast
  have again: "lk_inv task opn (k, l, w')" if "opn w' = {}" for w'
    using Cons.prems(1) inv(3) that by (simp add: lk_inv_def lk_weak_def)
  note IH = Cons.IH [OF again Cons.prems(2)]
  note run = Cons.prems(3) [unfolded lk_try.simps prod.case]
  obtain fd w1 where fd: "sk_socket ops (ai_id ai) w = (fd, w1)" by fastforce
  note o1 = sockets_okD(1) [OF sock fd]
  show ?case
  proof (cases "fd < 0")
    case True
    with run fd o1 inv(3) IH [of w1] show ?thesis by simp
  next
    case fd0: False
    with o1 inv(3) have o1': "opn w1 = {fd}" by simp
    obtain nb w2 where nb: "set_nonblocking_fd ops fd w1 = (nb, w2)" by fastforce
    note o2 = set_nonblocking_opn [OF sock nb] o1'
    show ?thesis
    proof (cases nb)
      case False
      with run fd fd0 nb o2 IH [of "sk_close ops fd w2"] sockets_okD(2) [OF sock, of fd w2] show ?thesis by simp
    next
      case nb1: True
      obtain rc w3 where rc: "sk_connect ops fd (ai_id ai) w2 = (rc, w3)" by fastforce
      have o3: "opn w3 = {fd}" using sockets_okD(4) [OF sock rc] o2 by simp
      note run = run [unfolded fd prod.case if_not_P [OF fd0] nb, unfolded rc prod.case]
      consider "rc = 0" | "rc \<noteq> 0" "sk_errno ops w3 \<in> set progress_errors" | "rc \<noteq> 0" "sk_errno ops w3 \<notin> set progress_errors"
        by blast
      then show ?thesis
      proof cases
        case 1
        with run nb1 have "lk_activate ops lv task h fd (fill_peer ops ai host port) (k\<lparr>lk_handler := True\<rparr>, l, w3) = Some (ok, st')"
          by simp
        from lk_activate_inv [OF sock keeps inv(1) refs o3 _ _ _ _ _ this] fd0 inv show ?thesis by simp
      next
        case 2
        define k1 where "k1 = k\<lparr>lk_handler := True, lk_pending_fd := fd, lk_pending_peer := fill_peer ops ai host port,
          lk_state := Connecting\<rparr>"
        obtain ok1 l1 where l1: "ll_add_writable_fd lv fd task l = (ok1, l1)" by fastforce
        note a = ll_add_fd_refs_client(2) [OF inv(1) refs l1]
        note run = run [unfolded l1 Let_def, folded k1_def]
        have held: "fds_held k1 = {fd}" "lk_registered_fd k1 = lk_registered_fd k"
          using fd0 inv by (simp_all add: fds_held_eq k1_def)
        show ?thesis
        proof (cases ok1)
          case True
          with run 2 nb1 have "st' = (k1\<lparr>lk_registered_fd := fd\<rparr>, l1, w3)" by simp
          with a True o3 fd0 inv show ?thesis
            by (simp add: lk_inv_def lk_weak_def state_ok_def k1_def fds_held_eq)
        next
          case False
          from a False refs_ok_neg [OF inv(6), of task l1] held(2) o3 held(1) have "lk_weak task opn (k1, l1, w3)"
            by (simp add: lk_weak_def)
          then have "lk_inv task opn (lk_close ops lv task (k1, l1, w3))"
            using lk_close_inv [OF sock] by (metis prod_cases3)
          moreover from run 2 nb1 False obtain err where "kh_on_error h err (lk_close ops lv task (k1, l1, w3)) = Some st'"
            by (simp split: Option.bind_splits)
          ultimately show ?thesis using handler_keepsD(4) [OF keeps] by blast
        qed
      next
        case 3
        with run nb1 o3 IH [of "sk_close ops fd w3"] sockets_okD(2) [OF sock, of fd w3] show ?thesis by simp
      qed
    qed
  qed
qed

lemma lk_connect_inv:
  assumes sock: "sockets_ok ops opn" and keeps: "client_handler_keeps (lk_inv task opn) h"
    and inv: "lk_inv task opn st" and run: "lk_connect ops lv task h host port st = Some (ok, st')"
  shows "lk_inv task opn st'"
proof -
  obtain k0 l0 w0 where st: "st = (k0, l0, w0)" by (metis prod_cases3)
  obtain k l w where c: "lk_close ops lv task st = (k, l, w)" by (metis prod_cases3)
  note closed = lk_close_inv [OF sock lk_inv_weak [OF inv [unfolded st]] c [unfolded st]]
  have err: "lk_inv task opn st'" if "kh_on_error h e (k, l, w') = Some st'" "opn w' = opn w" for e w'
  proof -
    from closed that(2) have "lk_inv task opn (k, l, w')" by (simp add: lk_inv_def lk_weak_def)
    from handler_keepsD(4) [OF keeps this that(1)] show ?thesis .
  qed
  show ?thesis
  proof (cases "host = None \<or> port = 0")
    case True
    with run c have "kh_on_error h einval (k, l, w) = Some st'"
      by (auto simp: lk_connect_def split: option.splits Option.bind_splits)
    with err show ?thesis by blast
  next
    case False
    then obtain name where name: "host = Some name" "port \<noteq> 0" by auto
    obtain res w1 where g: "sk_getaddrinfo ops name (decimal (unat port)) w = (res, w1)" by fastforce
    note o1 = sockets_okD(3) [OF sock g]
    show ?thesis
    proof (cases "res = None \<or> res = Some []")
      case True
      with run c name g have "kh_on_error h einval (k, l, w1) = Some st'"
        by (auto simp: lk_connect_def split: Option.bind_splits)
      with err o1 show ?thesis by blast
    next
      case False
      then obtain ai ais where "res = Some (ai # ais)" by (cases res) (auto simp: neq_Nil_conv)
      with run c name g have "lk_try ops lv task h name port (ai # ais) einval (k, l, w1) = Some (ok, st')"
        by (simp add: lk_connect_def)
      moreover have "lk_inv task opn (k, l, w1)" using closed o1 by (simp add: lk_inv_def lk_weak_def)
      ultimately show ?thesis using lk_try_inv [OF sock keeps] closed by blast
    qed
  qed
qed

text \<open>A callback followed by \<open>close()\<close>.\<close>

lemma callback_close_inv:
  assumes sock: "sockets_ok ops opn" and keeps: "client_handler_keeps (lk_inv task opn) h"
    and inv: "lk_inv task opn (k, l, w)"
    and run: "kh_on_close h (k, l, w) = Some st1 \<or> kh_on_error h e (k, l, w) = Some st1"
  shows "lk_inv task opn (lk_close ops lv task st1) \<and> lk_state (fst (lk_close ops lv task st1)) = Idle"
proof -
  have "lk_inv task opn st1" using run handler_keepsD [OF keeps inv] by blast
  with lk_close_inv [OF sock lk_inv_weak, of task] show ?thesis by (metis fst_conv prod_cases3)
qed

lemma lk_complete_connect_inv:
  assumes sock: "sockets_ok ops opn" and keeps: "client_handler_keeps (lk_inv task opn) h"
    and inv: "lk_inv task opn (k, l, w)" "lk_state k = Connecting"
    and run: "lk_complete_connect ops lv task h (k, l, w) = Some st'"
  shows "lk_inv task opn st'"
proof -
  from inv have k: "lk_handler k" "lk_pending_fd k \<ge> 0" "lk_registered_fd k = lk_pending_fd k"
    "cc_fd (lk_connection k) < 0" "ll_ok l" "refs_ok task (lk_registered_fd k) l" "opn w = {lk_pending_fd k}"
    by (auto simp: lk_inv_def lk_weak_def state_ok_def fds_held_eq)
  obtain rc so w1 where so: "sk_so_error ops (lk_pending_fd k) w = (rc, so, w1)" by (metis prod_cases3)
  note o1 = sockets_okD(5) [OF sock so]
  define err where "err = (if rc \<noteq> 0 then if sk_errno ops w1 \<noteq> 0 then sk_errno ops w1 else einval else so)"
  note run = run [unfolded lk_complete_connect_def prod.case so Let_def, folded err_def]
  have inv1: "lk_inv task opn (k, l, w1)" using inv(1) o1 by (simp add: lk_inv_def lk_weak_def)
  show ?thesis
  proof (cases "err = 0")
    case False
    with run k obtain st1 where "kh_on_error h err (k, l, w1) = Some st1" "st' = lk_close ops lv task st1"
      by (simp split: Option.bind_splits)
    with callback_close_inv [OF sock keeps inv1] show ?thesis by blast
  next
    case True
    obtain k1 l1 w2 where u: "lk_unregister_fd lv task (k, l, w1) = (k1, l1, w2)" by (metis prod_cases3)
    note s = lk_unregister_refs [OF k(5,6) u]
    from s have k1: "lk_pending_fd k1 = lk_pending_fd k" "lk_connection k1 = lk_connection k" "lk_handler k1 = lk_handler k"
      by (metis linux_client.select_convs linux_client.surjective linux_client.update_convs)+
    from run True k u obtain ok where
      "lk_activate ops lv task h (lk_pending_fd k) (lk_pending_peer k) (k1\<lparr>lk_pending_fd := - 1\<rparr>, l1, w2) = Some (ok, st')"
      by auto
    from lk_activate_inv [OF sock keeps _ _ _ _ _ _ _ _ this] s k k1 o1 show ?thesis by simp
  qed
qed

lemma lk_poll_inv:
  assumes sock: "sockets_ok ops opn" and keeps: "client_handler_keeps (lk_inv task opn) h"
    and inv: "lk_inv task opn (k, l, w)" and run: "lk_poll ops lv task h (k, l, w) = Some st'"
  shows "lk_inv task opn st'"
proof (cases "lk_state k = Connecting")
  case True
  with run lk_complete_connect_inv [OF sock keeps inv] show ?thesis by (simp add: lk_poll_def)
next
  case c: False
  show ?thesis
  proof (cases "lk_state k \<noteq> Connected \<or> \<not> lk_handler k \<or> \<not> cc_valid (lk_connection k)")
    case True
    with c run inv show ?thesis by (auto simp: lk_poll_def)
  next
    case False
    obtain n bs w1 where n: "sk_recv_peek ops (cc_fd (lk_connection k)) 1 w = (n, bs, w1)" by (metis prod_cases3)
    have inv1: "lk_inv task opn (k, l, w1)"
      using inv sockets_okD(6) [OF sock n] by (simp add: lk_inv_def lk_weak_def)
    note run = run [unfolded lk_poll_def prod.case n if_not_P [OF c] if_not_P [OF False]]
    consider "n > 0" | "n = 0" | "n < 0" "sk_errno ops w1 \<in> set again_errors" | "n < 0" "sk_errno ops w1 \<notin> set again_errors"
      by linarith
    then show ?thesis
    proof cases
      case 1
      with run have "kh_on_data h (k, l, w1) = Some st'" by simp
      with handler_keepsD(2) [OF keeps inv1] show ?thesis by blast
    next
      case 2
      with run obtain st1 where "kh_on_close h (k, l, w1) = Some st1" "st' = lk_close ops lv task st1"
        by (simp add: bind_eq_Some_conv) blast
      with callback_close_inv [OF sock keeps inv1] show ?thesis by blast
    next
      case 3
      with run inv1 show ?thesis by simp
    next
      case 4
      with run obtain st1 where "kh_on_error h (sk_errno ops w1) (k, l, w1) = Some st1" "st' = lk_close ops lv task st1"
        by (simp add: bind_eq_Some_conv) blast
      with callback_close_inv [OF sock keeps inv1] show ?thesis by blast
    qed
  qed
qed

section \<open>Properties\<close>

text \<open>
  C21: the client never loses a socket and never leaves itself registered. Whatever the outcome of the
  system calls, after a \<open>connect\<close> and after a poll the open sockets are exactly those the client holds,
  the only registration of the client with the scheduler is that of the descriptor it remembers, and
  its fields are what its state demands (idle: nothing held, registered or reported to; connecting:
  one socket, registered; connected: registered, the connection on that socket or closed). After
  \<open>close()\<close>, which the destructor calls, no socket is open and the scheduler has no reference to the client.
\<close>

theorem linux_client_no_leaks:
  assumes "sockets_ok ops opn" "client_handler_keeps (lk_inv task opn) h" "lk_inv task opn (k, l, w)"
  shows "(\<forall>ok st'. lk_connect ops lv task h host port (k, l, w) = Some (ok, st') \<longrightarrow> lk_inv task opn st')
    \<and> (\<forall>st'. lk_poll ops lv task h (k, l, w) = Some st' \<longrightarrow> lk_inv task opn st')
    \<and> (\<forall>k' l' w'. lk_close ops lv task (k, l, w) = (k', l', w') \<longrightarrow>
        lk_inv task opn (k', l', w') \<and> opn w' = {} \<and> task \<notin> ll_registered l')"
  using lk_connect_inv [OF assms] lk_poll_inv [OF assms] lk_close_inv [OF assms(1) lk_inv_weak [OF assms(3)]]
  by blast

text \<open>
  A client that reconnects in \<open>on_close\<close> is disconnected again: when the peer has closed the
  connection, the poll that reports it ends with an idle client without socket, handler or
  registration, whatever the callback did, a successful \<open>connect\<close> included.
\<close>

theorem linux_reconnect_in_on_close_undone:
  assumes "sockets_ok ops opn" "client_handler_keeps (lk_inv task opn) h" "lk_inv task opn (k, l, w)"
    "lk_connected k" "sk_recv_peek ops (cc_fd (lk_connection k)) 1 w = (0, bytes, w1)"
    "kh_on_close h (k, l, w1) = Some st1"
  shows "\<exists>k' l' w'. lk_poll ops lv task h (k, l, w) = Some (k', l', w') \<and> \<not> lk_valid k' \<and> \<not> lk_handler k'
    \<and> opn w' = {} \<and> task \<notin> ll_registered l'"
proof -
  from assms(3,4) have k: "lk_state k = Connected" "lk_handler k" "cc_valid (lk_connection k)"
    by (auto simp: lk_connected_def lk_inv_def state_ok_def)
  have "lk_inv task opn (k, l, w1)"
    using assms(3) sockets_okD(6) [OF assms(1,5)] by (simp add: lk_inv_def lk_weak_def)
  from handler_keepsD(3) [OF assms(2) this assms(6)] have inv1: "lk_inv task opn st1" .
  obtain k1 l1 w2 where st1: "st1 = (k1, l1, w2)" by (metis prod_cases3)
  obtain k' l' w' where c: "lk_close ops lv task st1 = (k', l', w')" by (metis prod_cases3)
  have "lk_poll ops lv task h (k, l, w) = Some (k', l', w')"
    using k assms(5,6) c by (simp add: lk_poll_def)
  moreover have "lk_inv task opn (k', l', w') \<and> lk_state k' = Idle \<and> task \<notin> ll_registered l' \<and> opn w' = {}"
    using lk_close_inv [OF assms(1) lk_inv_weak [OF inv1 [unfolded st1]] c [unfolded st1]] .
  ultimately show ?thesis by (auto simp: lk_inv_def state_ok_def lk_valid_def cc_valid_def)
qed

subsection \<open>Examples\<close>

text \<open>
  Sockets numbered in turn, each connected at once and closed by the peer; a libevent whose operations
  succeed; and a handler that reconnects when the connection is closed.
\<close>

definition demo_sockets :: "(nat, nat \<times> int list) sock_ops" where
  "demo_sockets = \<lparr>sk_getaddrinfo = (\<lambda>host port w. (Some [\<lparr>ai_id = 0, ai_ipv4 = None\<rparr>], w)),
     sk_socket = (\<lambda>ai (n, os). (int n, (n + 1, int n # os))), sk_getfl = (\<lambda>fd w. (0, w)),
     sk_setfl_nonblock = (\<lambda>fd flags w. (0, w)), sk_connect = (\<lambda>fd ai w. (0, w)), sk_errno = (\<lambda>w. 0),
     sk_loop_errno = (\<lambda>l w. 0), sk_close = (\<lambda>fd (n, os). (n, removeAll fd os)),
     sk_recv_peek = (\<lambda>fd n w. (0, [], w)), sk_read = (\<lambda>fd n w. (0, [], w)), sk_send = (\<lambda>fd bytes w. (0, w)),
     sk_fionread = (\<lambda>fd w. (0, 0)), sk_so_error = (\<lambda>fd w. (0, 0, w)), sk_ntop = (\<lambda>ip. [])\<rparr>"

definition demo_open :: "nat \<times> int list \<Rightarrow> int set" where
  "demo_open w = {fd \<in> set (snd w). fd < int (fst w)}"

lemma demo_sockets_ok: "sockets_ok demo_sockets demo_open"
  by (auto simp: sockets_ok_def demo_sockets_def demo_open_def)

definition plain_libevent :: "nat libevent_ops" where
  "plain_libevent = \<lparr>lv_new = (\<lambda>k n. (Some n, n + 1)), lv_add = (\<lambda>ev tv n. (0, n)), lv_free = (\<lambda>ev n. n), lv_break = (\<lambda>n. n)\<rparr>"

abbreviation demo_connect ::
  "(nat, nat \<times> int list) lk_prog tcp_client_handler \<Rightarrow> (nat, nat \<times> int list) lk_prog
     \<Rightarrow> (bool \<times> (nat, nat \<times> int list) lk_prog) option" where
  "demo_connect h \<equiv> lk_connect demo_sockets plain_libevent 7 h (Some ''host'') 80"

definition reconnecting :: "(nat, nat \<times> int list) lk_prog tcp_client_handler" where
  "reconnecting = client_handler_default\<lparr>kh_on_close := (\<lambda>st. map_option snd (demo_connect client_handler_default st))\<rparr>"

lemma default_keeps: "client_handler_keeps I client_handler_default"
  by (auto simp: client_handler_keeps_def client_handler_default_def)

lemma reconnecting_keeps: "client_handler_keeps (lk_inv 7 demo_open) reconnecting"
proof -
  have "lk_inv 7 demo_open st'" if "lk_inv 7 demo_open st" "map_option snd (demo_connect client_handler_default st) = Some st'" for st st'
  proof -
    from that(2) obtain ok where "demo_connect client_handler_default st = Some (ok, st')" by auto
    from lk_connect_inv [OF demo_sockets_ok default_keeps that(1) this] show ?thesis .
  qed
  then show ?thesis by (auto simp: client_handler_keeps_def reconnecting_def client_handler_default_def)
qed

abbreviation demo_idle :: "(nat, nat \<times> int list) lk_prog" where
  "demo_idle \<equiv> (lk_init, ll_init (Some 0), (0, []))"

lemma demo_idle_inv: "lk_inv 7 demo_open demo_idle"
  by (simp add: lk_inv_def lk_weak_def state_ok_def fds_held_eq lk_init_def cc_init_def ll_init_def ll_ok_def refs_ok_def demo_open_def)

definition demo_connected :: "(nat, nat \<times> int list) lk_prog" where
  "demo_connected = snd (the (demo_connect reconnecting demo_idle))"

lemma demo_connected_facts:
  "demo_connect reconnecting demo_idle = Some (True, demo_connected)" "lk_connected (fst demo_connected)"
  "snd (snd demo_connected) = (1, [0])"
proof -
  have "(case demo_connect reconnecting demo_idle of None \<Rightarrow> False
      | Some (ok, (k, l, w)) \<Rightarrow> ok \<and> lk_connected k \<and> w = (1, [0]))" by code_simp
  then show "demo_connect reconnecting demo_idle = Some (True, demo_connected)" "lk_connected (fst demo_connected)"
    "snd (snd demo_connected) = (1, [0])"
    unfolding demo_connected_def by (auto split: option.splits)
qed

lemma linux_client_no_leaks_witness: "lk_inv 7 demo_open demo_connected"
  using linux_client_no_leaks [OF demo_sockets_ok reconnecting_keeps demo_idle_inv] demo_connected_facts(1) by blast

lemma demo_connected_inv: "lk_inv 7 demo_open demo_connected"
  using lk_connect_inv [OF demo_sockets_ok reconnecting_keeps demo_idle_inv demo_connected_facts(1)] .

lemma linux_reconnect_in_on_close_undone_witness:
  "\<exists>k' l' w'. lk_poll demo_sockets plain_libevent 7 reconnecting demo_connected = Some (k', l', w') \<and> \<not> lk_valid k'"
proof -
  obtain k l w where st: "demo_connected = (k, l, w)" by (metis prod_cases3)
  have recv: "sk_recv_peek demo_sockets (cc_fd (lk_connection k)) 1 w = (0, [], w)" by (simp add: demo_sockets_def)
  have "case kh_on_close reconnecting demo_connected of None \<Rightarrow> False | Some (k1, _) \<Rightarrow> lk_connected k1"
    unfolding demo_connected_def by code_simp
  then obtain st1 where "kh_on_close reconnecting (k, l, w) = Some st1" by (auto simp: st split: option.splits)
  from linux_reconnect_in_on_close_undone [OF demo_sockets_ok reconnecting_keeps demo_connected_inv [unfolded st] _ recv this,
      of plain_libevent] demo_connected_facts(2) show ?thesis by (auto simp: st)
qed

end
