(* ===== verification/Linux_Line_Server.thy ===== *)
theory Linux_Line_Server
  imports Tcp_Line Linux_Tcp_Server
begin

text \<open>
  The line handler on the Linux server: \<open>TcpLineServerHandler\<close>
  (\<^verbatim>\<open>src/async_event_loop/tcp_line_protocol.hpp\<close>) as the handler of a \<open>LinuxTcpServer\<close>
  (\<^verbatim>\<open>src/async_event_loop_linux/linux_tcp_server.hpp\<close>). The handler holds pointers to the connections,
  which the server owns and destroys. What a use of a destroyed connection does is the parameter
  \<open>dead\<close>: the theorems show when the composition does not depend on it, and when it does.
\<close>

section \<open>The composition\<close>

text \<open>\<open>LinuxTcpConnection\<close> as an \<open>ITcpConnection\<close>: the calls go to the object the pointer leads to.\<close>

definition linux_tcp :: "'x bev_ops \<Rightarrow> (linux_server \<times> 'x) tcp_ops \<Rightarrow> (linux_server \<times> 'x) tcp_ops" where
  "linux_tcp ops dead =
     \<lparr>tc_valid = (\<lambda>i sx. case lt_find i (fst sx) of None \<Rightarrow> tc_valid dead i sx | Some c \<Rightarrow> lx_valid c),
      tc_close = (\<lambda>i sx. case lt_close_connection ops i sx of None \<Rightarrow> tc_close dead i sx | Some sx1 \<Rightarrow> sx1),
      tc_input_size = (\<lambda>i sx. case lt_find i (fst sx) of None \<Rightarrow> tc_input_size dead i sx
        | Some c \<Rightarrow> lx_input_size ops c (snd sx)),
      tc_output_size = (\<lambda>i sx. case lt_find i (fst sx) of None \<Rightarrow> tc_output_size dead i sx
        | Some c \<Rightarrow> lx_output_size ops c (snd sx)),
      tc_read = (\<lambda>i n sx. case lt_find i (fst sx) of None \<Rightarrow> tc_read dead i n sx
        | Some c \<Rightarrow> (case lx_read ops False n c (snd sx) of (k, bytes, x1) \<Rightarrow> (k, bytes, (fst sx, x1)))),
      tc_write = (\<lambda>i bytes sx. case lt_find i (fst sx) of None \<Rightarrow> tc_write dead i bytes sx
        | Some c \<Rightarrow> (case lx_write ops (Some bytes) c (snd sx) of (k, x1) \<Rightarrow> (k, (fst sx, x1))))\<rparr>"

text \<open>The state of the program is the server, the handler, and everything else.\<close>

definition on_lines ::
  "(line_server \<times> 's \<times> 'x \<Rightarrow> (line_server \<times> 's \<times> 'x) option) \<Rightarrow> 's \<times> line_server \<times> 'x \<Rightarrow> ('s \<times> line_server \<times> 'x) option" where
  "on_lines f st = (case st of (s, ls, x) \<Rightarrow> map_option (\<lambda>(ls1, s1, x1). (s1, ls1, x1)) (f (ls, (s, x))))"

definition line_server_handler ::
  "('s \<times> 'x) tcp_ops \<Rightarrow> ('s \<times> 'x) line_handler \<Rightarrow> ('s \<times> line_server \<times> 'x) tcp_server_handler" where
  "line_server_handler tcp h =
     \<lparr>sh_on_accept = (\<lambda>c peer. on_lines (ls_event tcp h (Ev_Accept c peer))),
      sh_on_data = (\<lambda>c. on_lines (ls_event tcp h (Ev_Data c))),
      sh_on_write_ready = (\<lambda>c. on_lines (ls_event tcp h (Ev_Write_Ready c))),
      sh_on_close = (\<lambda>c. on_lines (ls_event tcp h (Ev_Close c))),
      sh_on_error = (\<lambda>c code. on_lines (ls_event tcp h (Ev_Error c code))),
      sh_on_listener_error = (\<lambda>code. on_lines (ls_event tcp h (Ev_Listener_Error code)))\<rparr>"

text \<open>libevent does not touch the handler.\<close>

definition lift_bev :: "'x bev_ops \<Rightarrow> ('h \<times> 'x) bev_ops" where
  "lift_bev ops =
     \<lparr>be_socket_new = (\<lambda>fd (h, x). apsnd (Pair h) (be_socket_new ops fd x)),
      be_enable = (\<lambda>b. apsnd (be_enable ops b)), be_free = (\<lambda>b. apsnd (be_free ops b)),
      be_input_length = (\<lambda>b w. be_input_length ops b (snd w)), be_output_length = (\<lambda>b w. be_output_length ops b (snd w)),
      be_remove = (\<lambda>b n (h, x). apsnd (apsnd (Pair h)) (be_remove ops b n x)),
      be_write = (\<lambda>b bytes (h, x). apsnd (Pair h) (be_write ops b bytes x)),
      be_copyout = (\<lambda>b n w. be_copyout ops b n (snd w)),
      be_readln = (\<lambda>b (h, x). apsnd (Pair h) (be_readln ops b x)),
      be_set_timeouts = (\<lambda>b r w. apsnd (be_set_timeouts ops b r w)),
      be_set_watermarks = (\<lambda>b rl rh wl wh. apsnd (be_set_watermarks ops b rl rh wl wh)),
      so_close_socket = (\<lambda>fd. apsnd (so_close_socket ops fd)), so_pton = so_pton ops, so_ntop = so_ntop ops,
      so_error = (\<lambda>w. so_error ops (snd w)),
      li_new_bind = (\<lambda>cof reuse backlog ip port (h, x). apsnd (Pair h) (li_new_bind ops cof reuse backlog ip port x)),
      li_free = (\<lambda>l. apsnd (li_free ops l)), li_socket_port = (\<lambda>l w. li_socket_port ops l (snd w))\<rparr>"

abbreviation lines_event ::
  "'x bev_ops \<Rightarrow> (linux_server \<times> 'x) tcp_ops \<Rightarrow> (linux_server \<times> 'x) line_handler \<Rightarrow> server_event
     \<Rightarrow> linux_server \<times> line_server \<times> 'x \<Rightarrow> (linux_server \<times> line_server \<times> 'x) option" where
  "lines_event ops dead h \<equiv> lt_event (lift_bev ops) (line_server_handler (linux_tcp ops dead) h)"

abbreviation lines_events ::
  "'x bev_ops \<Rightarrow> (linux_server \<times> 'x) tcp_ops \<Rightarrow> (linux_server \<times> 'x) line_handler \<Rightarrow> server_event list
     \<Rightarrow> linux_server \<times> line_server \<times> 'x \<Rightarrow> (linux_server \<times> line_server \<times> 'x) option" where
  "lines_events ops dead h \<equiv> lt_events (lift_bev ops) (line_server_handler (linux_tcp ops dead) h)"

section \<open>No dangling pointer\<close>

definition open_ids :: "linux_server \<Rightarrow> nat set" where
  "open_ids s = lx_id ` {c \<in> set (lt_connections s). lx_valid c}"

definition no_dangling :: "linux_server \<Rightarrow> line_server \<Rightarrow> bool" where
  "no_dangling s ls \<longleftrightarrow> ls_bound ls \<subseteq> open_ids s"

text \<open>
  Callbacks of the application that may use the connections in any way, but do not close them; only
  \<open>on_backpressure\<close> and \<open>on_too_many_connections\<close> may close the connection they are given.
\<close>

definition closes_at_most ::
  "'x bev_ops \<Rightarrow> nat \<Rightarrow> (linux_server \<times> 'x \<Rightarrow> linux_server \<times> 'x) \<Rightarrow> bool" where
  "closes_at_most ops i f \<longleftrightarrow> (\<forall>s x. lt_find i s \<noteq> None \<longrightarrow>
     fst (f (s, x)) = s \<or> (\<exists>x1 sx1. lt_close_connection ops i (s, x1) = Some sx1 \<and> fst (f (s, x)) = fst sx1))"

definition keeps_connections :: "'x bev_ops \<Rightarrow> (linux_server \<times> 'x) line_handler \<Rightarrow> bool" where
  "keeps_connections ops h \<longleftrightarrow> (\<forall>c peer line code sx.
       fst (lh_on_accept h c peer sx) = fst sx \<and> fst (lh_on_line h c line sx) = fst sx \<and> fst (lh_on_close h c sx) = fst sx
       \<and> fst (lh_on_error h c code sx) = fst sx \<and> fst (lh_on_listener_error h code sx) = fst sx)
     \<and> (\<forall>c info. closes_at_most ops c (lh_on_too_many_connections h c) \<and> closes_at_most ops c (lh_on_backpressure h c info))"

lemma open_found: "lt_inv s \<Longrightarrow> i \<in> open_ids s \<longleftrightarrow> (\<exists>c. lt_find i s = Some c \<and> lx_valid c)"
proof
  assume i: "lt_inv s" and "i \<in> open_ids s"
  then obtain c where c: "c \<in> set (lt_connections s)" "lx_valid c" "lx_id c = i" by (auto simp: open_ids_def)
  then obtain d where d: "lt_find i s = Some d" using lt_find_None [of i s] by fastforce
  then have "d \<in> set (lt_connections s)" "lx_id d = i" using lt_find_Some by auto
  then have "d = c" using c i by (auto simp: lt_inv_def distinct_map dest: inj_onD)
  with c d show "\<exists>c. lt_find i s = Some c \<and> lx_valid c" by blast
next
  assume "\<exists>c. lt_find i s = Some c \<and> lx_valid c"
  then show "i \<in> open_ids s" using lt_find_Some by (fastforce simp: open_ids_def)
qed

lemma linux_tcp_live:
  assumes "lt_find i s = Some c"
  shows "tc_valid (linux_tcp ops dead) i (s, x) = lx_valid c"
    "tc_input_size (linux_tcp ops dead) i (s, x) = lx_input_size ops c x"
    "tc_output_size (linux_tcp ops dead) i (s, x) = lx_output_size ops c x"
    "tc_read (linux_tcp ops dead) i n (s, x) = (case lx_read ops False n c x of (k, bytes, x1) \<Rightarrow> (k, bytes, (s, x1)))"
  using assms by (simp_all add: linux_tcp_def)

text \<open>What may have become of connection \<open>i\<close> of \<open>s\<close>: it is open as before, or it is closed but still there.\<close>

definition at_most_closed :: "nat \<Rightarrow> linux_server \<Rightarrow> linux_server \<Rightarrow> bool" where
  "at_most_closed i s s1 \<longleftrightarrow> lt_inv s1 \<and> open_ids s - {i} \<subseteq> open_ids s1
     \<and> (\<exists>c1. lt_find i s1 = Some c1 \<and> (lx_valid c1 \<longrightarrow> open_ids s \<subseteq> open_ids s1))"

lemma find_map_cong: "(\<And>c. P (f c) = P c) \<Longrightarrow> find P (map f cs) = map_option f (find P cs)"
  by (induction cs) auto

lemma lt_close_closed:
  assumes "lt_inv s" "lt_close_connection ops i (s, x) = Some sx1"
  shows "at_most_closed i s (fst sx1) \<and> (\<exists>c1. lt_find i (fst sx1) = Some c1 \<and> \<not> lx_valid c1)"
proof -
  obtain c where c: "lt_find i s = Some c" "fst sx1 = lt_set (fst (lx_close ops (c, x))) s"
    using assms(2) by (auto simp: lt_close_connection_def split: option.splits prod.splits)
  have ci: "lx_id c = i" using lt_find_Some [OF c(1)] by simp
  let ?c = "c\<lparr>lx_bev := None, lx_remove_requested := True\<rparr>"
  have s1: "fst sx1 = s\<lparr>lt_connections := map (\<lambda>d. if lx_id d = i then ?c else d) (lt_connections s)\<rparr>"
    using c(2) ci by (simp add: lt_set_def lx_close_simps)
  have f: "lt_find i (fst sx1) = Some ?c"
    using c(1) find_map_cong [of "\<lambda>d. lx_id d = i" "\<lambda>d. if lx_id d = i then ?c else d" "lt_connections s"] ci
    by (auto simp: s1 lt_find_def find_Some_iff)
  have "lt_inv (fst sx1)" using lt_inv_close_connection [OF assms(1), of ops i x "fst sx1" "snd sx1"] assms(2) by simp
  moreover have "open_ids s - {i} \<subseteq> open_ids (fst sx1)" by (auto simp: open_ids_def s1)
  ultimately show ?thesis using f by (simp add: at_most_closed_def lx_valid_def)
qed

lemma closes_at_most_closed:
  assumes "lt_inv s" "closes_at_most ops i f" "lt_find i s = Some c"
  shows "at_most_closed i s (fst (f (s, x)))"
proof -
  from assms(2,3) consider "fst (f (s, x)) = s"
    | x1 sx1 where "lt_close_connection ops i (s, x1) = Some sx1" "fst (f (s, x)) = fst sx1"
    unfolding closes_at_most_def by blast
  then show ?thesis
  proof cases
    case 1
    with assms(1,3) show ?thesis by (auto simp: at_most_closed_def)
  next
    case 2
    with lt_close_closed [OF assms(1) 2(1)] show ?thesis by simp
  qed
qed

lemma at_most_closed_trans:
  assumes "at_most_closed i s s1" "at_most_closed i s1 s2"
  shows "at_most_closed i s s2"
proof -
  from assms obtain c1 c2 where c: "lt_find i s1 = Some c1" "lx_valid c1 \<longrightarrow> open_ids s \<subseteq> open_ids s1"
    "lt_find i s2 = Some c2" "lx_valid c2 \<longrightarrow> open_ids s1 \<subseteq> open_ids s2" "lt_inv s1" "lt_inv s2"
    "open_ids s - {i} \<subseteq> open_ids s1" "open_ids s1 - {i} \<subseteq> open_ids s2"
    unfolding at_most_closed_def by blast
  show ?thesis
  proof (cases "lx_valid c2")
    case True
    with c have "i \<in> open_ids s2" by (auto simp: open_found)
    with c show ?thesis unfolding at_most_closed_def by blast
  next
    case False
    with c show ?thesis unfolding at_most_closed_def by blast
  qed
qed

section \<open>The handler's operations do not depend on \<open>dead\<close>\<close>

definition lines_ok :: "nat \<Rightarrow> linux_server \<Rightarrow> line_server \<Rightarrow> bool" where
  "lines_ok n s ls \<longleftrightarrow> lt_inv s \<and> ls_inv n ls \<and> no_dangling s ls"

lemma tc_close_live:
  assumes "lt_find i (fst sx) = Some c"
  shows "\<exists>sx1. lt_close_connection ops i sx = Some sx1 \<and> (\<forall>dead. tc_close (linux_tcp ops dead) i sx = sx1)"
  using assms by (cases sx) (auto simp: linux_tcp_def lt_close_connection_def split: prod.splits)

lemma bm_check_live:
  assumes "lt_find i s = Some c"
  shows "bm_check (linux_tcp ops dead) i (s, x) m = bm_check (linux_tcp ops dead') i (s, x) m"
  by (simp add: bm_check_def bm_fill_info_def linux_tcp_live [OF assms])

lemma bound_found:
  assumes "lines_ok n s ls" "i \<in> ls_bound ls"
  obtains c where "lt_find i s = Some c" "lx_valid c"
  using assms open_found [of s i] unfolding lines_ok_def no_dangling_def by blast

lemma lines_check_backpressure:
  assumes "lines_ok n s ls" "keeps_connections ops h" "i < length (ls_slots ls)"
    "ls_check_backpressure (linux_tcp ops dead) h i (ls, (s, x)) = (ls1, sx1)"
  shows "ls_check_backpressure (linux_tcp ops dead') h i (ls, (s, x)) = (ls1, sx1)
    \<and> lines_ok n (fst sx1) ls1 \<and> length (ls_slots ls1) = length (ls_slots ls)"
proof (cases "sl_connection (ls_slots ls ! i)")
  case None
  with assms(1,4) show ?thesis by (auto simp: ls_check_backpressure_def)
next
  case (Some c)
  let ?sl = "ls_slots ls ! i"
  from Some assms(3) have "c \<in> ls_bound ls" by (auto simp: ls_bound_iff)
  from bound_found [OF assms(1) this] obtain k where k: "lt_find c s = Some k" "lx_valid k" .
  have inv: "lt_inv s" "ls_inv n ls" "ls_bound ls \<subseteq> open_ids s"
    using assms(1) by (simp_all add: lines_ok_def no_dangling_def)
  obtain fires info m where chk: "bm_check (linux_tcp ops dead) c (s, x) (sl_backpressure ?sl) = (fires, info, m)"
    by (metis prod_cases3)
  note chk' = chk [unfolded bm_check_live [OF k(1), of ops dead x _ dead']]
  let ?sl1 = "?sl\<lparr>sl_backpressure := m\<rparr>"
  have ok1: "slot_ok n (ls_backpressure ls) ?sl1"
    using slot_ok_nth [OF inv(2) assms(3)] bm_check_options [OF chk] by (simp add: slot_ok_def)
  note keep = ls_set_slot_spec(1) [OF inv(2) assms(3) ok1, simplified]
  note go = ls_vacate_spec [OF inv(2) assms(3) Some ok1]
  show ?thesis
  proof (cases fires)
    case False
    have run: "ls_check_backpressure (linux_tcp ops d) h i (ls, (s, x)) = (ls_set_slot i ?sl1 ls, (s, x))"
      if "bm_check (linux_tcp ops d) c (s, x) (sl_backpressure ?sl) = (fires, info, m)" for d
      using that False Some k by (simp add: ls_check_backpressure_def linux_tcp_live Let_def)
    from run [OF chk] run [OF chk'] assms(4) have "ls1 = ls_set_slot i ?sl1 ls" "sx1 = (s, x)"
      "ls_check_backpressure (linux_tcp ops dead') h i (ls, (s, x)) = (ls1, sx1)" by simp_all
    with keep inv show ?thesis by (simp add: lines_ok_def no_dangling_def)
  next
    case True
    define w1 where "w1 = lh_on_backpressure h c info (s, x)"
    have "closes_at_most ops c (lh_on_backpressure h c info)" using assms(2) by (simp add: keeps_connections_def)
    from closes_at_most_closed [OF inv(1) this k(1)] have c1: "at_most_closed c s (fst w1)" by (simp add: w1_def)
    then obtain k1 where k1: "lt_find c (fst w1) = Some k1" unfolding at_most_closed_def by blast
    have v1: "tc_valid (linux_tcp ops d) c w1 = lx_valid k1" for d
      using linux_tcp_live(1) [OF k1, of ops d "snd w1"] by simp
    from tc_close_live [OF k1, of ops] obtain w2 where w2: "lt_close_connection ops c w1 = Some w2"
      "\<And>d. tc_close (linux_tcp ops d) c w1 = w2" by blast
    define w3 where "w3 = (if bo_close_on_limit (ls_backpressure ls) \<and> lx_valid k1 then w2 else w1)"
    have "lt_inv (fst w1)" using c1 by (simp add: at_most_closed_def)
    from lt_close_closed [OF this, of ops c "snd w1" w2] w2(1) have "at_most_closed c (fst w1) (fst w2)" by simp
    from at_most_closed_trans [OF c1 this] c1 have c3: "at_most_closed c s (fst w3)" by (simp add: w3_def)
    then obtain k3 where k3: "lt_find c (fst w3) = Some k3" "lx_valid k3 \<longrightarrow> open_ids s \<subseteq> open_ids (fst w3)"
      "lt_inv (fst w3)" "open_ids s - {c} \<subseteq> open_ids (fst w3)" unfolding at_most_closed_def by blast
    have v3: "tc_valid (linux_tcp ops d) c w3 = lx_valid k3" for d
      using linux_tcp_live(1) [OF k3(1), of ops d "snd w3"] by simp
    have run: "ls_check_backpressure (linux_tcp ops d) h i (ls, (s, x))
        = (ls_set_slot i (if \<not> lx_valid k3 then sl_vacate ?sl1 else ?sl1) ls, w3)"
      if "bm_check (linux_tcp ops d) c (s, x) (sl_backpressure ?sl) = (fires, info, m)" for d
    proof -
      have "(if bo_close_on_limit (ls_backpressure ls) \<and> tc_valid (linux_tcp ops d) c w1
        then tc_close (linux_tcp ops d) c w1 else w1) = w3" by (simp add: v1 w2 w3_def)
      then show ?thesis
        using that True Some k(2)
        by (simp only: ls_check_backpressure_def prod.case Let_def option.case linux_tcp_live(1) [OF k(1)]
            w1_def [symmetric] v3 if_True if_False simp_thms)
    qed
    from run [OF chk] run [OF chk'] assms(4) have r: "ls1 = ls_set_slot i (if \<not> lx_valid k3 then sl_vacate ?sl1 else ?sl1) ls"
      "sx1 = w3" "ls_check_backpressure (linux_tcp ops dead') h i (ls, (s, x)) = (ls1, sx1)" by simp_all
    show ?thesis
    proof (cases "lx_valid k3")
      case True
      with r keep k3 inv show ?thesis by (auto simp: lines_ok_def no_dangling_def)
    next
      case False
      with r go k3 inv show ?thesis by (auto simp: lines_ok_def no_dangling_def)
    qed
  qed
qed

lemma lines_check_fold:
  assumes "lines_ok n s ls" "keeps_connections ops h" "\<forall>i \<in> set is. i < length (ls_slots ls)"
    "fold (ls_check_backpressure (linux_tcp ops dead) h) is (ls, (s, x)) = (ls1, sx1)"
  shows "fold (ls_check_backpressure (linux_tcp ops dead') h) is (ls, (s, x)) = (ls1, sx1) \<and> lines_ok n (fst sx1) ls1"
  using assms(1,3,4)
proof (induction "is" arbitrary: ls s x)
  case Nil
  then show ?case by auto
next
  case (Cons i "is")
  obtain ls2 s2 x2 where c: "ls_check_backpressure (linux_tcp ops dead) h i (ls, (s, x)) = (ls2, (s2, x2))"
    by (metis prod_cases3)
  from Cons.prems(2) have i: "i < length (ls_slots ls)" by simp
  note one = lines_check_backpressure [OF Cons.prems(1) assms(2) i c, of dead']
  from Cons.prems(3) c have "fold (ls_check_backpressure (linux_tcp ops dead) h) is (ls2, (s2, x2)) = (ls1, sx1)" by simp
  from Cons.IH [OF _ _ this] one Cons.prems(2) show ?case by simp
qed

lemma lines_check_all:
  assumes "lines_ok n s ls" "keeps_connections ops h"
    "ls_check_all_backpressure (linux_tcp ops dead) h (ls, (s, x)) = (ls1, sx1)"
  shows "ls_check_all_backpressure (linux_tcp ops dead') h (ls, (s, x)) = (ls1, sx1) \<and> lines_ok n (fst sx1) ls1"
proof -
  have "fold (ls_check_backpressure (linux_tcp ops dead) h) [0..<length (ls_slots ls)] (ls, (s, x)) = (ls1, sx1)"
    using assms(3) by (simp add: ls_check_all_backpressure_def)
  from lines_check_fold [OF assms(1,2) _ this] show ?thesis by (simp add: ls_check_all_backpressure_def)
qed

lemma poll_loop_simulation:
  fixes st st' :: "'w byte_stream" and step step' :: "byte \<Rightarrow> 'r \<times> 'w \<Rightarrow> 'r \<times> 'w"
  assumes "poll_loop st step rw = Some rw'" "P (snd rw)"
    "\<And>w. P w \<Longrightarrow> bs_readable st' w = bs_readable st w \<and> bs_read st' 1 w = bs_read st 1 w \<and> P (snd (snd (bs_read st 1 w)))"
    "\<And>b r w. P w \<Longrightarrow> step' b (r, w) = step b (r, w) \<and> P (snd (step b (r, w)))"
  shows "poll_loop st' step' rw = Some rw' \<and> P (snd rw')"
proof -
  let ?H = "\<lambda>(st :: 'w byte_stream) (step :: byte \<Rightarrow> 'r \<times> 'w \<Rightarrow> 'r \<times> 'w).
      (\<forall>w. P w \<longrightarrow> bs_readable st' w = bs_readable st w \<and> bs_read st' 1 w = bs_read st 1 w \<and> P (snd (snd (bs_read st 1 w))))
      \<and> (\<forall>b r w. P w \<longrightarrow> step' b (r, w) = step b (r, w) \<and> P (snd (step b (r, w))))"
  let ?Q = "\<lambda>st step rw rw'. P (snd rw) \<longrightarrow> ?H st step \<longrightarrow> poll_loop st' step' rw = Some rw' \<and> P (snd rw')"
  have "?Q st step rw rw'"
  proof (rule poll_loop.raw_induct [where P = ?Q, OF _ assms(1)])
    fix loop :: "'w byte_stream \<Rightarrow> (byte \<Rightarrow> 'r \<times> 'w \<Rightarrow> 'r \<times> 'w) \<Rightarrow> 'r \<times> 'w \<Rightarrow> ('r \<times> 'w) option"
      and st step rw rw'
    assume IH: "\<And>st step rw rw'. loop st step rw = Some rw' \<Longrightarrow> ?Q st step rw rw'"
      and eq: "(case rw of (r, w) \<Rightarrow>
        if bs_readable st w
        then (case bs_read st 1 w of (n, bytes, w') \<Rightarrow>
                if n \<le> 0 then Some (r, w')
                else loop st step (step (case bytes of [] \<Rightarrow> 0 | b # _ \<Rightarrow> b) (r, w')))
        else Some (r, w)) = Some rw'"
    show "?Q st step rw rw'"
    proof (intro impI)
      assume P: "P (snd rw)" and H: "?H st step"
      obtain r w where rw: "rw = (r, w)" by fastforce
      obtain k bytes w1 where rd: "bs_read st 1 w = (k, bytes, w1)" by (metis prod_cases3)
      from P H rw rd have st': "bs_readable st' w = bs_readable st w" "bs_read st' 1 w = (k, bytes, w1)" "P w1"
        by auto
      let ?b = "case bytes of [] \<Rightarrow> 0 | b # _ \<Rightarrow> b"
      consider "\<not> bs_readable st w" | "bs_readable st w" "k \<le> 0" | "bs_readable st w" "\<not> k \<le> 0" by blast
      then show "poll_loop st' step' rw = Some rw' \<and> P (snd rw')"
      proof cases
        case 1
        with eq P rw rd st' show ?thesis by (auto simp: poll_loop.simps [of st' step' "(r, w)"])
      next
        case 2
        with eq P rw rd st' show ?thesis by (auto simp: poll_loop.simps [of st' step' "(r, w)"])
      next
        case 3
        with eq rw rd have "loop st step (step ?b (r, w1)) = Some rw'" by simp
        from IH [OF this] H st'(3) have "poll_loop st' step' (step ?b (r, w1)) = Some rw' \<and> P (snd rw')" by blast
        moreover have "step' ?b (r, w1) = step ?b (r, w1)" using H st'(3) by blast
        ultimately show ?thesis using 3 rw st' by (simp add: poll_loop.simps [of st' step' "(r, w)"])
      qed
    qed
  qed
  with assms(2-) show ?thesis by blast
qed

lemma lines_poll_slot:
  assumes "lines_ok n s ls" "keeps_connections ops h" "i < length (ls_slots ls)"
    "ls_poll_slot (linux_tcp ops dead) h i (ls, (s, x)) = Some (ls1, sx1)"
  shows "ls_poll_slot (linux_tcp ops dead') h i (ls, (s, x)) = Some (ls1, sx1)
    \<and> fst sx1 = s \<and> lines_ok n s ls1 \<and> length (ls_slots ls1) = length (ls_slots ls)"
proof -
  let ?sl = "ls_slots ls ! i"
  let ?st = "\<lambda>d. connection_stream (linux_tcp ops d) (sl_connection ?sl)"
  let ?cb = "\<lambda>d. handle_line (linux_tcp ops d) (lh_on_line h) (sl_connection ?sl)"
  let ?step = "\<lambda>d. reader_step (line_byte line_options_default) (?cb d)"
  let ?P = "\<lambda>w :: linux_server \<times> 'a. fst w = s"
  from assms(4) obtain r where p: "poll_loop (?st dead) (?step dead) (sl_reader ?sl, (s, x)) = Some (r, sx1)"
    and ls1: "ls1 = ls_set_slot i (?sl\<lparr>sl_reader := r\<rparr>) ls"
    by (auto simp: ls_poll_slot_def line_poll_def Let_def)
  have live: "bs_readable (?st d') w = bs_readable (?st d) w" "bs_read (?st d') 1 w = bs_read (?st d) 1 w"
    "?P (snd (snd (bs_read (?st d) 1 w)))" "?cb d' v w = ?cb d v w" "?P (?cb d v w)" if "?P w" for d d' v w
  proof -
    have w: "w = (s, snd w)" using that by (simp add: prod_eq_iff)
    let ?x = "snd w"
    have "bs_readable (?st d') w = bs_readable (?st d) w \<and> bs_read (?st d') 1 w = bs_read (?st d) 1 w
      \<and> ?P (snd (snd (bs_read (?st d) 1 w))) \<and> ?cb d' v w = ?cb d v w \<and> ?P (?cb d v w)"
    proof (cases "sl_connection ?sl")
      case None
      with that show ?thesis by (simp add: connection_stream_def cs_readable_def cs_read_def handle_line_def)
    next
      case (Some c)
      with assms(3) have "c \<in> ls_bound ls" by (auto simp: ls_bound_iff)
      from bound_found [OF assms(1) this] obtain k where k: "lt_find c s = Some k" .
      have "fst (lh_on_line h c v (s, ?x)) = s" using assms(2) by (simp add: keeps_connections_def)
      then show ?thesis
        by (subst (1 2 3 4 5 6 7 8) w)
          (simp add: Some connection_stream_def cs_readable_def cs_read_def handle_line_def tc_readable_def
            linux_tcp_live [OF k] split: prod.split)
    qed
    then show "bs_readable (?st d') w = bs_readable (?st d) w" "bs_read (?st d') 1 w = bs_read (?st d) 1 w"
      "?P (snd (snd (bs_read (?st d) 1 w)))" "?cb d' v w = ?cb d v w" "?P (?cb d v w)" by simp_all
  qed
  have del: "deliver (?cb d') vs w = deliver (?cb d) vs w \<and> ?P (deliver (?cb d) vs w)" if "?P w" for d d' vs w
    using that
  proof (induction vs arbitrary: w)
    case (Cons v vs)
    from live(4) [OF Cons.prems, of d' v d] live(5) [OF Cons.prems, of d v] Cons.IH [of "?cb d v w"]
    show ?case by simp
  qed simp
  have q: "poll_loop (?st dead') (?step dead') (sl_reader ?sl, (s, x)) = Some (r, sx1) \<and> ?P (snd (r, sx1))"
  proof (rule poll_loop_simulation [where P = ?P, OF p])
    fix b r0 and w assume "?P w"
    from del [OF this, of dead' _ dead] show "?step dead' b (r0, w) = ?step dead b (r0, w) \<and> ?P (snd (?step dead b (r0, w)))"
      by (simp add: reader_step_def split: prod.split)
  qed (use live in simp_all)
  from ls_poll_slot_spec [OF _ assms(3), of n "linux_tcp ops dead" h "(s, x)" ls1 sx1] assms(1,4)
  have "ls_inv n ls1 \<and> length (ls_slots ls1) = length (ls_slots ls) \<and> ls_bound ls1 = ls_bound ls"
    by (simp add: lines_ok_def)
  with q assms(1) ls1 show ?thesis
    by (simp add: ls_poll_slot_def line_poll_def Let_def lines_ok_def no_dangling_def)
qed

section \<open>Events\<close>

lemma keeps_connections_fst:
  assumes "keeps_connections ops h"
  shows "fst (lh_on_accept h c peer sx) = fst sx" "fst (lh_on_line h c line sx) = fst sx"
    "fst (lh_on_close h c sx) = fst sx" "fst (lh_on_error h c code sx) = fst sx"
    "fst (lh_on_listener_error h code sx) = fst sx"
  using assms unfolding keeps_connections_def by blast+

lemma too_many_keeps:
  assumes "lines_ok n s ls" "keeps_connections ops h" "c \<in> open_ids s" "c \<notin> ls_bound ls"
  shows "lines_ok n (fst (lh_on_too_many_connections h c (s, x))) ls"
proof -
  have s: "lt_inv s" using assms(1) by (simp add: lines_ok_def)
  then obtain k where k: "lt_find c s = Some k" using open_found assms(3) by blast
  have "closes_at_most ops c (lh_on_too_many_connections h c)" using assms(2) by (simp add: keeps_connections_def)
  from closes_at_most_closed [OF s this k, of x] assms(1,4) show ?thesis
    by (auto simp: at_most_closed_def lines_ok_def no_dangling_def)
qed

lemma lines_data:
  assumes "lines_ok n s ls" "keeps_connections ops h" "c \<in> open_ids s"
    "ls_on_data (linux_tcp ops dead) h c (ls, (s, x)) = Some (ls1, sx1)"
  shows "ls_on_data (linux_tcp ops dead') h c (ls, (s, x)) = Some (ls1, sx1) \<and> lines_ok n (fst sx1) ls1"
proof -
  obtain slot ls0 where a: "ls_acquire c ls = (slot, ls0)" by fastforce
  have "ls_inv n ls" using assms(1) by (simp add: lines_ok_def)
  note acq = ls_acquire_spec [OF this a]
  show ?thesis
  proof (cases slot)
    case None
    with acq a assms(4) have "ls1 = ls" "sx1 = lh_on_too_many_connections h c (s, x)" "c \<notin> ls_bound ls"
      by (simp_all add: ls_on_data_def)
    with too_many_keeps [OF assms(1-3)] None a acq show ?thesis by (simp add: ls_on_data_def)
  next
    case (Some i)
    with acq assms(1,3) have ok: "lines_ok n s ls0" "i < length (ls_slots ls0)"
      by (auto simp: lines_ok_def no_dangling_def)
    from assms(4) a Some obtain ls2 s2 x2 where p: "ls_poll_slot (linux_tcp ops dead) h i (ls0, (s, x)) = Some (ls2, (s2, x2))"
      and k: "ls_check_all_backpressure (linux_tcp ops dead) h (ls2, (s2, x2)) = (ls1, sx1)"
      by (auto simp: ls_on_data_def)
    note q = lines_poll_slot [OF ok(1) assms(2) ok(2) p, of dead']
    then have "lines_ok n s2 ls2" by simp
    from lines_check_all [OF this assms(2) k, of dead'] q a Some show ?thesis by (simp add: ls_on_data_def)
  qed
qed

lemma lines_write_ready:
  assumes "lines_ok n s ls" "keeps_connections ops h"
    "ls_on_write_ready (linux_tcp ops dead) h c (ls, (s, x)) = (ls1, sx1)"
  shows "ls_on_write_ready (linux_tcp ops dead') h c (ls, (s, x)) = (ls1, sx1) \<and> lines_ok n (fst sx1) ls1"
proof (cases "ls_find c ls")
  case None
  with assms(1,3) show ?thesis by (auto simp: ls_on_write_ready_def)
next
  case (Some i)
  note i = ls_find_spec(2) [OF this]
  from assms(3) Some have "ls_check_backpressure (linux_tcp ops dead) h i (ls, (s, x)) = (ls1, sx1)"
    by (simp add: ls_on_write_ready_def)
  from lines_check_backpressure [OF assms(1,2) _ this, of dead'] i Some show ?thesis
    by (simp add: ls_on_write_ready_def)
qed

lemma lines_handler_event:
  assumes "lines_ok n s ls" "keeps_connections ops h" "ev_opens ev \<subseteq> open_ids s"
    "ls_event (linux_tcp ops dead) h ev (ls, (s, x)) = Some (ls1, sx1)"
  shows "ls_event (linux_tcp ops dead') h ev (ls, (s, x)) = Some (ls1, sx1) \<and> lines_ok n (fst sx1) ls1
    \<and> (ev_closes ev \<noteq> {} \<longrightarrow> fst sx1 = s \<and> ls_bound ls1 \<inter> ev_closes ev = {})"
proof (cases ev)
  case (Ev_Accept c peer)
  have inv: "ls_inv n ls" using assms(1) by (simp add: lines_ok_def)
  from assms(4) Ev_Accept have e: "ls_on_accept (linux_tcp ops dead) h c peer (ls, (s, x)) = (ls1, sx1)" by simp
  obtain slot ls0 where a: "ls_acquire c ls = (slot, ls0)" by fastforce
  note acq = ls_acquire_spec [OF inv a]
  from ls_accept_spec [OF inv e] have b: "ls_inv n ls1" "ls_bound ls1 \<subseteq> insert c (ls_bound ls)" by auto
  have same: "ls_on_accept (linux_tcp ops dead') h c peer (ls, (s, x)) = (ls1, sx1)"
    using e by (simp add: ls_on_accept_def)
  have "lines_ok n (fst sx1) ls1"
  proof (cases slot)
    case None
    with acq a e have "ls1 = ls" "sx1 = lh_on_too_many_connections h c (s, x)" "c \<notin> ls_bound ls"
      by (simp_all add: ls_on_accept_def)
    with too_many_keeps [OF assms(1,2)] assms(3) Ev_Accept show ?thesis by simp
  next
    case (Some i)
    with a e have "sx1 = lh_on_accept h c peer (s, x)" by (simp add: ls_on_accept_def Let_def)
    with b assms(1,3) Ev_Accept keeps_connections_fst(1) [OF assms(2), of c peer "(s, x)"] show ?thesis
      by (auto simp: lines_ok_def no_dangling_def)
  qed
  with same Ev_Accept show ?thesis by simp
next
  case (Ev_Data c)
  with lines_data [OF assms(1,2), of c dead x ls1 sx1 dead'] assms(3,4) show ?thesis by simp
next
  case (Ev_Write_Ready c)
  with lines_write_ready [OF assms(1,2), of dead c x ls1 sx1 dead'] assms(4) show ?thesis by simp
next
  case (Ev_Close c)
  with assms ls_release_spec [of n ls c] keeps_connections_fst(3) [OF assms(2), of c "(s, x)"] show ?thesis
    by (auto simp: ls_on_close_def lines_ok_def no_dangling_def)
next
  case (Ev_Error c code)
  with assms ls_release_spec [of n ls c] keeps_connections_fst(4) [OF assms(2), of c code "(s, x)"] show ?thesis
    by (auto simp: ls_on_error_def lines_ok_def no_dangling_def)
next
  case (Ev_Listener_Error code)
  with assms keeps_connections_fst(5) [OF assms(2), of code "(s, x)"] show ?thesis
    by (auto simp: ls_on_listener_error_def lines_ok_def no_dangling_def)
qed

text \<open>The same for the handler as the server calls it.\<close>

lemma on_lines_event:
  assumes "lines_ok n s ls" "keeps_connections ops h" "ev_opens ev \<subseteq> open_ids s"
    "on_lines (ls_event (linux_tcp ops dead) h ev) (s, ls, x) = Some (s1, ls1, x1)"
  shows "on_lines (ls_event (linux_tcp ops dead') h ev) (s, ls, x) = Some (s1, ls1, x1) \<and> lines_ok n s1 ls1
    \<and> (ev_closes ev \<noteq> {} \<longrightarrow> s1 = s \<and> ls_bound ls1 \<inter> ev_closes ev = {})"
proof -
  from assms(4) have "ls_event (linux_tcp ops dead) h ev (ls, (s, x)) = Some (ls1, (s1, x1))"
    by (auto simp: on_lines_def)
  from lines_handler_event [OF assms(1-3) this, of dead'] show ?thesis by (simp add: on_lines_def)
qed

lemma sweep_lines_ok:
  assumes "lines_ok n s ls"
  shows "lines_ok n (fst (lt_sweep_closed ops (s, w))) ls"
proof -
  have i: "lt_inv s" using assms by (simp add: lines_ok_def)
  have "open_ids (fst (lt_sweep_closed ops (s, w))) = open_ids s"
    using swept_count(1) [OF i refl, of ops w] by (auto simp: open_ids_def)
  with lt_inv_sweep [OF i, of ops w] assms show ?thesis by (simp add: lines_ok_def no_dangling_def)
qed

text \<open>Sweeping closed connections touches nothing outside the server: their bufferevents are gone.\<close>

lemma sweep_world: "lt_inv s \<Longrightarrow> snd (lt_sweep_closed ops (s, w)) = w"
proof -
  assume s: "lt_inv s"
  have "\<forall>c \<in> set cs. lx_remove_requested c \<longrightarrow> \<not> lx_valid c \<Longrightarrow> snd (sweep_list ops cs w) = w" for cs
    by (induction ops cs w rule: sweep_list.induct)
      (auto simp: lx_destroy_def lx_close_bev_def lx_detach_def lx_valid_def split: prod.splits)
  from this [of "lt_connections s"] s have "snd (sweep_list ops (lt_connections s) w) = w" by (simp add: lt_inv_def)
  then show ?thesis by (auto simp: lt_sweep_closed_def split: prod.splits)
qed

lemma open_accepted:
  assumes "lx_valid c"
  shows "open_ids (s\<lparr>lt_next_id := k, lt_connections := cs @ [c]\<rparr>) = insert (lx_id c) (open_ids (s\<lparr>lt_connections := cs\<rparr>))"
  using assms by (auto simp: open_ids_def)

lemma lift_create:
  assumes "lx_create (lift_bev ops) i fd addr (ls, x) = (c, w)"
  shows "fst w = ls"
  using assms by (auto simp: lx_create_def lift_bev_def Let_def apsnd_def map_prod_def split: prod.splits option.splits)

lemma lift_close_connection:
  assumes "lt_close_connection (lift_bev ops) i (s, (ls, x)) = Some (s1, (ls1, x1))"
  shows "ls1 = ls"
  using assms
  by (auto simp: lt_close_connection_def lx_close_def lx_close_bev_def lift_bev_def apsnd_def map_prod_def
      split: prod.splits option.splits)

text \<open>What an event callback leaves is swept; the handler only sees connections that exist.\<close>

lemma lines_accept:
  assumes "lines_ok n s ls" "keeps_connections ops h"
    "lines_event ops dead h (Accepted fd addr) (s, ls, x) = Some (s', ls', x')"
  shows "lines_event ops dead' h (Accepted fd addr) (s, ls, x) = Some (s', ls', x') \<and> lines_ok n s' ls'"
proof (cases "lt_handler s")
  case False
  with assms show ?thesis by (auto simp: lt_accept_callback_def lift_bev_def)
next
  case True
  let ?ops = "lift_bev ops :: (line_server \<times> 'a) bev_ops"
  have i: "lt_inv s" using assms(1) by (simp add: lines_ok_def)
  obtain s1 w1 where sw: "lt_sweep_closed ?ops (s, (ls, x)) = (s1, w1)" by (metis prod.collapse)
  with sweep_world [OF i, of ?ops "(ls, x)"] have w1: "w1 = (ls, x)" by simp
  from sweep_lines_ok [OF assms(1), of ?ops "(ls, x)"] sw have ok1: "lines_ok n s1 ls" by simp
  obtain c w2 where c: "lx_create ?ops (lt_next_id s1) fd addr (ls, x) = (c, w2)" by (metis prod.collapse)
  from lift_create [OF this] obtain x2 where w2: "w2 = (ls, x2)" by (cases w2) auto
  let ?s2 = "s1\<lparr>lt_next_id := lt_next_id s1 + 1\<rparr>"
  consider "lt_connection_count s1 \<ge> lt_max_connections s1"
    | "lt_connection_count s1 < lt_max_connections s1" "\<not> lx_valid c"
    | "lt_connection_count s1 < lt_max_connections s1" "lx_valid c" by linarith
  then show ?thesis
  proof cases
    case 1
    with assms(3) True sw w1 ok1 show ?thesis by (auto simp: lt_accept_callback_def lift_bev_def)
  next
    case 2
    have "lines_ok n ?s2 ls"
      using ok1 by (auto simp: lines_ok_def no_dangling_def open_ids_def lt_inv_def lt_connection_count_def lt_valid_def less_Suc_eq)
    moreover have "lx_destroy ?ops c w2 = w2" using 2 by (simp add: lx_destroy_def lx_close_bev_def lx_valid_def)
    ultimately show ?thesis using assms(3) True sw w1 w2 c 2 by (auto simp: lt_accept_callback_def Let_def)
  next
    case 3
    let ?s3 = "?s2\<lparr>lt_connections := lt_connections s1 @ [c]\<rparr>"
    have s1: "s1 = fst (lt_sweep_closed ?ops (s, (ls, x)))" using sw by simp
    from lt_inv_accepted [OF i s1 3(1) c 3(2) True] have i3: "lt_inv ?s3" by simp
    have open3: "open_ids ?s3 = insert (lx_id c) (open_ids s1)" using 3(2) by (auto simp: open_ids_def)
    have ok3: "lines_ok n ?s3 ls" using i3 open3 ok1 by (auto simp: lines_ok_def no_dangling_def)
    have run: "lines_event ops d h (Accepted fd addr) (s, ls, x) = map_option (lt_sweep_closed ?ops)
        (on_lines (ls_event (linux_tcp ops d) h (Ev_Accept (lx_id c) (lx_peer c))) (?s3, ls, x2))" for d
      using True sw w1 w2 c 3 by (simp add: lt_accept_callback_def Let_def line_server_handler_def)
    from assms(3) [unfolded run] obtain s4 ls4 x4 where
      e: "on_lines (ls_event (linux_tcp ops dead) h (Ev_Accept (lx_id c) (lx_peer c))) (?s3, ls, x2) = Some (s4, ls4, x4)"
      and r: "(s', ls', x') = lt_sweep_closed ?ops (s4, ls4, x4)" by auto
    have "ev_opens (Ev_Accept (lx_id c) (lx_peer c)) \<subseteq> open_ids ?s3" using open3 by simp
    note q = on_lines_event [OF ok3 assms(2) this e, of dead']
    from q have ok4: "lines_ok n s4 ls4" by simp
    then have "lt_inv s4" by (simp add: lines_ok_def)
    from sweep_world [OF this, of ?ops "(ls4, x4)"] r [symmetric] have "ls' = ls4" by simp
    moreover from sweep_lines_ok [OF ok4, of ?ops "(ls4, x4)"] r [symmetric] have "lines_ok n s' ls4" by simp
    moreover from q r have "lines_event ops dead' h (Accepted fd addr) (s, ls, x) = Some (s', ls', x')"
      unfolding run by simp
    ultimately show ?thesis by simp
  qed
qed

lemma lines_callback:
  assumes "lines_ok n s ls" "lt_bev_callback (lift_bev ops) (F dead) i (s, ls, x) = Some (s', ls', x')"
    "\<And>c s1 ls1 x1. lt_find i s = Some c \<Longrightarrow> F dead c (s, ls, x) = Some (s1, ls1, x1)
       \<Longrightarrow> F dead' c (s, ls, x) = Some (s1, ls1, x1) \<and> lines_ok n s1 ls1"
  shows "lt_bev_callback (lift_bev ops) (F dead') i (s, ls, x) = Some (s', ls', x') \<and> lines_ok n s' ls'"
proof -
  let ?ops = "lift_bev ops :: (line_server \<times> 'a) bev_ops"
  from assms(2) obtain c where c: "lt_find i s = Some c"
    by (cases "lt_find i s") (simp_all add: lt_bev_callback_def)
  have "lx_owner c" using assms(1) lt_find_Some [OF c] by (auto simp: lines_ok_def lt_inv_def)
  then have run: "lt_bev_callback ?ops (F d) i (s, ls, x) = map_option (lt_sweep_closed ?ops) (F d c (s, ls, x))" for d
    using c by (simp add: lt_bev_callback_def)
  from assms(2) [unfolded run] obtain s1 ls1 x1 where f: "F dead c (s, ls, x) = Some (s1, ls1, x1)"
    and r: "lt_sweep_closed ?ops (s1, ls1, x1) = (s', ls', x')" by auto
  from assms(3) [OF c f] have q: "F dead' c (s, ls, x) = Some (s1, ls1, x1)" "lines_ok n s1 ls1" by simp_all
  then have "lt_inv s1" by (simp add: lines_ok_def)
  from sweep_world [OF this, of ?ops "(ls1, x1)"] r have "ls' = ls1" by simp
  moreover from sweep_lines_ok [OF q(2), of ?ops "(ls1, x1)"] r have "lines_ok n s' ls1" by simp
  ultimately show ?thesis using q(1) r by (simp add: run)
qed

lemma lines_notify:
  assumes "lines_ok n s ls" "keeps_connections ops h"
    "on_lines (ls_event (linux_tcp ops dead) h ev) (s, ls, x) = Some sw1" "ev_closes ev = {i}" "ev_opens ev = {}"
    "lt_close_connection (lift_bev ops) i sw1 = Some (s2, ls2, x2)"
  shows "on_lines (ls_event (linux_tcp ops dead') h ev) (s, ls, x) = Some sw1 \<and> lines_ok n s2 ls2"
proof -
  obtain s1 ls1 x1 where sw1: "sw1 = (s1, ls1, x1)" by (metis prod_cases3)
  from on_lines_event [OF assms(1,2) _ assms(3) [unfolded sw1], of dead'] assms(4,5)
  have q: "on_lines (ls_event (linux_tcp ops dead') h ev) (s, ls, x) = Some (s1, ls1, x1)" "lines_ok n s1 ls1"
    "s1 = s" "i \<notin> ls_bound ls1" by auto
  from lift_close_connection [OF assms(6) [unfolded sw1]] have "ls2 = ls1" .
  moreover have "lt_inv s1" using q(2) by (simp add: lines_ok_def)
  from lt_close_closed [OF this assms(6) [unfolded sw1]] have "at_most_closed i s1 s2" by simp
  ultimately show ?thesis using q by (auto simp: sw1 at_most_closed_def lines_ok_def no_dangling_def)
qed

lemma lines_server_event:
  assumes "lines_ok n s ls" "keeps_connections ops h" "lines_event ops dead h e (s, ls, x) = Some (s', ls', x')"
  shows "lines_event ops dead' h e (s, ls, x) = Some (s', ls', x') \<and> lines_ok n s' ls'"
proof (cases e)
  case (Accepted fd addr)
  with lines_accept [OF assms(1,2)] assms(3) show ?thesis by blast
next
  case (Read_Ready i)
  let ?F = "\<lambda>d c sw. if lx_valid c then sh_on_data (line_server_handler (linux_tcp ops d) h) i sw else Some sw"
  have "lt_bev_callback (lift_bev ops) (?F dead') i (s, ls, x) = Some (s', ls', x') \<and> lines_ok n s' ls'"
  proof (rule lines_callback [where F = ?F and dead = dead, OF assms(1)])
    show "lt_bev_callback (lift_bev ops) (?F dead) i (s, ls, x) = Some (s', ls', x')"
      using assms(3) Read_Ready by (simp add: lt_read_callback_def)
  next
    fix c s1 ls1 x1 assume c: "lt_find i s = Some c" and f: "?F dead c (s, ls, x) = Some (s1, ls1, x1)"
    show "?F dead' c (s, ls, x) = Some (s1, ls1, x1) \<and> lines_ok n s1 ls1"
    proof (cases "lx_valid c")
      case True
      with c assms(1) have "ev_opens (Ev_Data i) \<subseteq> open_ids s" by (auto simp: lines_ok_def open_found)
      from on_lines_event [OF assms(1,2) this, of dead x s1 ls1 x1 dead'] f True show ?thesis
        by (simp add: line_server_handler_def)
    qed (use f assms(1) in simp)
  qed
  with Read_Ready show ?thesis by (simp add: lt_read_callback_def)
next
  case (Write_Ready i)
  let ?F = "\<lambda>d c sw. if lx_valid c then sh_on_write_ready (line_server_handler (linux_tcp ops d) h) i sw else Some sw"
  have "lt_bev_callback (lift_bev ops) (?F dead') i (s, ls, x) = Some (s', ls', x') \<and> lines_ok n s' ls'"
  proof (rule lines_callback [where F = ?F and dead = dead, OF assms(1)])
    show "lt_bev_callback (lift_bev ops) (?F dead) i (s, ls, x) = Some (s', ls', x')"
      using assms(3) Write_Ready by (simp add: lt_write_callback_def)
  next
    fix c s1 ls1 x1 assume f: "?F dead c (s, ls, x) = Some (s1, ls1, x1)"
    have "ev_opens (Ev_Write_Ready i) \<subseteq> open_ids s" by simp
    from on_lines_event [OF assms(1,2) this, of dead x s1 ls1 x1 dead'] f assms(1)
    show "?F dead' c (s, ls, x) = Some (s1, ls1, x1) \<and> lines_ok n s1 ls1"
      by (cases "lx_valid c") (simp_all add: line_server_handler_def)
  qed
  with Write_Ready show ?thesis by (simp add: lt_write_callback_def)
next
  case (Reported events i)
  let ?h = "\<lambda>d. line_server_handler (linux_tcp ops d) h"
  let ?F = "\<lambda>d c. lt_notify_event (lift_bev ops) (?h d) events i"
  have "lt_bev_callback (lift_bev ops) (?F dead') i (s, ls, x) = Some (s', ls', x') \<and> lines_ok n s' ls'"
  proof (rule lines_callback [where F = ?F and dead = dead, OF assms(1)])
    show "lt_bev_callback (lift_bev ops) (?F dead) i (s, ls, x) = Some (s', ls', x')"
      using assms(3) Reported by (simp add: lt_event_callback_def)
  next
    fix c s1 ls1 x1 assume "?F dead c (s, ls, x) = Some (s1, ls1, x1)"
    moreover define code where "code = (if ev_timeout events then etimedout else so_error ops x)"
    moreover have so: "so_error (lift_bev ops) (ls, x) = so_error ops x" by (simp add: lift_bev_def)
    ultimately consider "\<not> ev_timeout events" "\<not> ev_error events" "\<not> ev_eof events" "s1 = s" "ls1 = ls" "x1 = x"
      | sw1 where "ev_timeout events \<or> ev_error events"
          "on_lines (ls_event (linux_tcp ops dead) h (Ev_Error i code)) (s, ls, x) = Some sw1"
          "lt_close_connection (lift_bev ops) i sw1 = Some (s1, ls1, x1)"
      | sw1 where "\<not> ev_timeout events" "\<not> ev_error events" "ev_eof events"
          "on_lines (ls_event (linux_tcp ops dead) h (Ev_Close i)) (s, ls, x) = Some sw1"
          "lt_close_connection (lift_bev ops) i sw1 = Some (s1, ls1, x1)"
      by (auto simp: lt_notify_event_def line_server_handler_def split: if_splits Option.bind_splits)
    then show "?F dead' c (s, ls, x) = Some (s1, ls1, x1) \<and> lines_ok n s1 ls1"
    proof cases
      case 1
      with assms(1) show ?thesis by (simp add: lt_notify_event_def)
    next
      case 2
      from lines_notify [OF assms(1,2) 2(2) _ _ 2(3), of dead'] 2 show ?thesis
        by (auto simp: lt_notify_event_def line_server_handler_def code_def so)
    next
      case 3
      from lines_notify [OF assms(1,2) 3(4) _ _ 3(5), of dead'] 3 show ?thesis
        by (auto simp: lt_notify_event_def line_server_handler_def)
    qed
  qed
  with Reported show ?thesis by (simp add: lt_event_callback_def)
next
  case Listener_Error
  have so: "so_error (lift_bev ops) (ls, x) = so_error ops x" by (simp add: lift_bev_def)
  have "ev_opens (Ev_Listener_Error (so_error ops x)) \<subseteq> open_ids s" by simp
  from on_lines_event [OF assms(1,2) this, of dead x s' ls' x' dead'] assms(1,3) Listener_Error show ?thesis
    by (cases "lt_handler s") (auto simp: lt_listener_error_callback_def line_server_handler_def so)
qed

text \<open>
  C11: the line handler on the Linux server never uses a connection that has been destroyed, if the
  callbacks of the application do not close connections (except the one they are given in
  \<open>on_backpressure\<close> or \<open>on_too_many_connections\<close>): through any sequence of events every connection a slot
  holds is an open connection of the server, and the run does not depend on what a use of a
  destroyed one would do.
\<close>

theorem linux_lines_no_dangling:
  assumes "lt_inv s" "ls_inv n ls" "no_dangling s ls" "keeps_connections ops h"
    "lines_events ops dead h es (s, ls, x) = Some (s', ls', x')"
  shows "lt_inv s' \<and> ls_inv n ls' \<and> no_dangling s' ls'
    \<and> (\<forall>dead'. lines_events ops dead' h es (s, ls, x) = Some (s', ls', x'))"
proof -
  have "lines_ok n s' ls' \<and> lines_events ops dead' h es (s, ls, x) = Some (s', ls', x')"
    if "lines_ok n s ls" "lines_events ops dead h es (s, ls, x) = Some (s', ls', x')" for dead' s ls x
    using that
  proof (induction es arbitrary: s ls x)
    case (Cons e es)
    from Cons.prems(2) obtain s1 ls1 x1 where e: "lines_event ops dead h e (s, ls, x) = Some (s1, ls1, x1)"
      and r: "lines_events ops dead h es (s1, ls1, x1) = Some (s', ls', x')"
      by (auto split: Option.bind_splits)
    note q = lines_server_event [OF Cons.prems(1) assms(4) e, of dead']
    with Cons.IH [OF _ r] show ?case by simp
  qed simp
  with assms(1-3,5) show ?thesis by (simp add: lines_ok_def)
qed

section \<open>Lines from a Linux socket to the application\<close>

text \<open>The input buffer of a bufferevent.\<close>

definition bev_source :: "'x bev_ops \<Rightarrow> nat \<Rightarrow> ('x \<Rightarrow> byte list) \<Rightarrow> ('x \<Rightarrow> 'o) \<Rightarrow> bool" where
  "bev_source ops b inbox rest \<longleftrightarrow>
     (\<forall>x. be_input_length ops b x = length (inbox x)
        \<and> (\<forall>y ys. inbox x = y # ys \<longrightarrow> (\<exists>x1. be_remove ops b 1 x = (1, [y], x1) \<and> inbox x1 = ys \<and> rest x1 = rest x)))"

lemma linux_serves:
  assumes "lt_find c s = Some k" "lx_bev k = Some b" "bev_source ops b inbox rest"
    "\<forall>v x. \<exists>x1. lh_on_line h c v (s, x) = (s, x1) \<and> inbox x1 = inbox x \<and> rest x1 = f v (rest x)"
  shows "serves (linux_tcp ops dead) (lh_on_line h) c (\<lambda>sx. inbox (snd sx)) (\<lambda>sx. rest (snd sx)) (\<lambda>sx. fst sx = s) f"
  unfolding serves_def
proof (intro conjI allI impI)
  have v: "lx_valid k" using assms(2) by (simp add: lx_valid_def)
  note live = linux_tcp_live [OF assms(1)]
  show "byte_source (connection_stream (linux_tcp ops dead) (Some c)) (\<lambda>sx. inbox (snd sx)) (\<lambda>sx. rest (snd sx)) (\<lambda>sx. fst sx = s)"
  proof (unfold_locales, goal_cases)
    case (1 w)
    then obtain x where w: "w = (s, x)" by (metis prod.collapse)
    with assms(2,3) v show ?case
      by (simp add: connection_stream_def cs_readable_def tc_readable_def live lx_input_size_def bev_source_def)
  next
    case (2 w y ys)
    then obtain x where w: "w = (s, x)" by (metis prod.collapse)
    with 2 have "inbox x = y # ys" by simp
    with assms(3) obtain x1 where "be_remove ops b 1 x = (1, [y], x1)" "inbox x1 = ys" "rest x1 = rest x"
      unfolding bev_source_def by blast
    with w assms(2) show ?case by (simp add: connection_stream_def cs_read_def live lx_read_def)
  qed
  fix w :: "linux_server \<times> 'a" assume "fst w = s"
  then obtain x where w: "w = (s, x)" by (metis prod.collapse)
  show "tc_valid (linux_tcp ops dead) c w" using v by (simp add: w live)
next
  fix v and w :: "linux_server \<times> 'a" assume "fst w = s"
  then obtain x where w: "w = (s, x)" by (metis prod.collapse)
  from assms(4) obtain x1 where "lh_on_line h c v (s, x) = (s, x1) \<and> inbox x1 = inbox x \<and> rest x1 = f v (rest x)" by blast
  then show "fst (lh_on_line h c v w) = s" "inbox (snd (lh_on_line h c v w)) = inbox (snd w)"
    "rest (snd (lh_on_line h c v w)) = f v (rest (snd w))" by (simp_all add: w)
qed

text \<open>
  C10: when libevent reports that a connection of the Linux server can be read, the application gets
  exactly the lines of what was pending on the connection followed by what has arrived, in order and
  without carriage returns, however the stream was cut into pieces. The rest stays pending, the input
  buffer is empty, and neither the server nor another connection's slot changes, except that
  connections closed before are destroyed. (Lines that fit the buffer; backpressure not enabled.)
\<close>

theorem linux_delivers_lines:
  assumes "lt_inv s" "ls_inv n ls" "\<not> bo_enabled (ls_backpressure ls)" "ls_find c ls = Some i"
    "lt_find c s = Some k" "lx_bev k = Some b" "bev_source ops b inbox rest"
    "\<forall>v x. \<exists>x1. lh_on_line h c v (s, x) = (s, x1) \<and> inbox x1 = inbox x \<and> rest x1 = f v (rest x)"
    "line_pending (sl_reader (ls_slots ls ! i)) @ inbox x = join_lines chr_lf lines lastl"
    "chr_lf \<notin> set (line_pending (sl_reader (ls_slots ls ! i)))"
    "\<forall>l \<in> set (lastl # lines). chr_lf \<notin> set l \<and> length l \<le> n"
  shows "\<exists>s' ls' x'. lt_read_callback (lift_bev ops) (line_server_handler (linux_tcp ops dead) h) c (s, ls, x) = Some (s', ls', x')
    \<and> rest x' = deliver f (map (strip_cr True) lines) (rest x) \<and> inbox x' = []
    \<and> line_pending (sl_reader (ls_slots ls' ! i)) = lastl \<and> (\<forall>j. j \<noteq> i \<longrightarrow> ls_slots ls' ! j = ls_slots ls ! j)
    \<and> s' = s\<lparr>lt_connections := filter lx_valid (lt_connections s)\<rparr>"
proof -
  let ?ops = "lift_bev ops :: (line_server \<times> 'a) bev_ops"
  have "fst (s, x) = s" by simp
  from ls_data_delivers [OF linux_serves [OF assms(5-8), of dead] this assms(2-4), of lines lastl] assms(9-11)
  obtain ls1 w1 where d: "ls_on_data (linux_tcp ops dead) h c (ls, (s, x)) = Some (ls1, w1)" "fst w1 = s"
    "inbox (snd w1) = []" "rest (snd w1) = deliver f (map (strip_cr True) lines) (rest x)"
    "line_pending (sl_reader (ls_slots ls1 ! i)) = lastl" "\<forall>j. j \<noteq> i \<longrightarrow> ls_slots ls1 ! j = ls_slots ls ! j" by auto
  from d(2) obtain x1 where w1: "w1 = (s, x1)" by (metis prod.collapse)
  have k: "lx_owner k" "lx_valid k" using assms(1,5,6) lt_find_Some [OF assms(5)] by (auto simp: lt_inv_def lx_valid_def)
  obtain s' y where sw: "lt_sweep_closed ?ops (s, (ls1, x1)) = (s', y)" by (metis prod.collapse)
  with sweep_world [OF assms(1), of ?ops "(ls1, x1)"] have "y = (ls1, x1)" by simp
  moreover have "s' = s\<lparr>lt_connections := filter lx_valid (lt_connections s)\<rparr>"
  proof -
    have "filter (\<lambda>c. \<not> lx_remove_requested c) (lt_connections s) = filter lx_valid (lt_connections s)"
      using assms(1) by (auto simp: lt_inv_def intro!: filter_cong)
    with lt_sweep_spec [of ?ops s "(ls1, x1)"] sw show ?thesis by simp
  qed
  moreover have "lt_read_callback ?ops (line_server_handler (linux_tcp ops dead) h) c (s, ls, x) = Some (s', y)"
    using assms(5) k d(1) sw by (simp add: lt_read_callback_def lt_bev_callback_def line_server_handler_def on_lines_def w1)
  ultimately show ?thesis using d by (simp add: w1)
qed

section \<open>Closing a connection in \<open>on_line\<close>\<close>

lemma line_byte_no_view:
  assumes "line_inv r" "y \<noteq> lo_delimiter opts"
  shows "\<exists>r1. line_byte opts y r = (r1, []) \<and> line_inv r1 \<and> line_capacity r1 = line_capacity r
    \<and> (lr_size r < line_capacity r \<longrightarrow> line_pending r1 = line_pending r @ [y])"
proof -
  from assms(1) consider "lr_size r < line_capacity r" | "lr_size r = line_capacity r"
    by (auto simp: line_inv_def le_less)
  then show ?thesis using line_byte_room [OF assms] line_byte_full [OF assms] by cases (metis, metis less_irrefl)
qed

text \<open>A poll reads up to the end of the first line and hands it to the application; then the loop goes on.\<close>

lemma poll_first_line:
  assumes "lt_find c s = Some k" "lx_bev k = Some b" "bev_source ops b inbox rest" "lo_delimiter opts = chr_lf"
    "inbox x = l @ chr_lf # later" "chr_lf \<notin> set l" "line_inv r"
  shows "\<exists>r1 v x1. line_poll (connection_stream (linux_tcp ops dead) (Some c)) opts
        (handle_line (linux_tcp ops dead) (lh_on_line h) (Some c)) (r, (s, x))
      = line_poll (connection_stream (linux_tcp ops dead) (Some c)) opts
        (handle_line (linux_tcp ops dead) (lh_on_line h) (Some c)) (r1, lh_on_line h c v (s, x1))
    \<and> line_inv r1 \<and> inbox x1 = later \<and> rest x1 = rest x
    \<and> (length (line_pending r) + length l \<le> line_capacity r \<longrightarrow> v = strip_cr (lo_strip_cr opts) (line_pending r @ l))"
  using assms(5-7)
proof (induction l arbitrary: r x)
  case Nil
  have v: "lx_valid k" using assms(2) by (simp add: lx_valid_def)
  have size: "be_input_length ops b x = length (inbox x)" using assms(3) unfolding bev_source_def by blast
  from Nil assms(3) obtain x1 where x1: "be_remove ops b 1 x = (1, [chr_lf], x1)" "inbox x1 = later" "rest x1 = rest x"
    unfolding bev_source_def by fastforce
  let ?v = "strip_cr (lo_strip_cr opts) (line_pending r)"
  obtain r1 where b: "line_byte opts chr_lf r = (r1, [?v])" "line_inv r1"
    using line_byte_delimiter [OF Nil(3), of opts] assms(4) by (simp add: line_inv_def)
  have "line_poll (connection_stream (linux_tcp ops dead) (Some c)) opts
        (handle_line (linux_tcp ops dead) (lh_on_line h) (Some c)) (r, (s, x))
      = line_poll (connection_stream (linux_tcp ops dead) (Some c)) opts
        (handle_line (linux_tcp ops dead) (lh_on_line h) (Some c)) (r1, lh_on_line h c ?v (s, x1))"
    using Nil size x1 b v assms(2)
    by (simp add: line_poll_def poll_loop.simps [of _ _ "(r, _)"] connection_stream_def cs_readable_def cs_read_def
        tc_readable_def linux_tcp_live [OF assms(1)] lx_input_size_def lx_read_def reader_step_def handle_line_def)
  with x1 b(2) show ?case by (metis append_Nil2)
next
  case (Cons y l)
  have v: "lx_valid k" using assms(2) by (simp add: lx_valid_def)
  have size: "be_input_length ops b x = length (inbox x)" using assms(3) unfolding bev_source_def by blast
  have "inbox x = y # (l @ chr_lf # later)" using Cons.prems(1) by simp
  with assms(3) obtain x1 where x1: "be_remove ops b 1 x = (1, [y], x1)" "inbox x1 = l @ chr_lf # later" "rest x1 = rest x"
    unfolding bev_source_def by blast
  from line_byte_no_view [OF Cons.prems(3), of y opts] Cons.prems(2) assms(4) obtain r1 where
    b: "line_byte opts y r = (r1, [])" "line_inv r1" "line_capacity r1 = line_capacity r"
      "lr_size r < line_capacity r \<longrightarrow> line_pending r1 = line_pending r @ [y]" by auto
  have "line_poll (connection_stream (linux_tcp ops dead) (Some c)) opts
      (handle_line (linux_tcp ops dead) (lh_on_line h) (Some c)) (r, (s, x))
    = line_poll (connection_stream (linux_tcp ops dead) (Some c)) opts
      (handle_line (linux_tcp ops dead) (lh_on_line h) (Some c)) (r1, (s, x1))"
    using Cons.prems(1) size x1(1) b(1) v assms(2)
    by (simp add: line_poll_def poll_loop.simps [of _ _ "(r, _)"] connection_stream_def cs_readable_def cs_read_def
        tc_readable_def linux_tcp_live [OF assms(1)] lx_input_size_def lx_read_def reader_step_def)
  note step = this
  have fit: "line_pending r1 @ l = line_pending r @ y # l \<and> length (line_pending r1) + length l \<le> line_capacity r1"
    if "length (line_pending r) + length (y # l) \<le> line_capacity r"
    using that b(3,4) length_line_pending [OF Cons.prems(3)] by simp
  have "chr_lf \<notin> set l" using Cons.prems(2) by simp
  from Cons.IH [OF x1(2) this b(2)] obtain r2 v2 x2 where IH:
    "line_poll (connection_stream (linux_tcp ops dead) (Some c)) opts
        (handle_line (linux_tcp ops dead) (lh_on_line h) (Some c)) (r1, (s, x1))
      = line_poll (connection_stream (linux_tcp ops dead) (Some c)) opts
        (handle_line (linux_tcp ops dead) (lh_on_line h) (Some c)) (r2, lh_on_line h c v2 (s, x2))"
    "line_inv r2" "inbox x2 = later" "rest x2 = rest x1"
    "length (line_pending r1) + length l \<le> line_capacity r1 \<longrightarrow> v2 = strip_cr (lo_strip_cr opts) (line_pending r1 @ l)" by blast
  have "v2 = strip_cr (lo_strip_cr opts) (line_pending r @ y # l)"
    if "length (line_pending r) + length (y # l) \<le> line_capacity r"
    using IH(5) fit [OF that] by simp
  with step IH(1-4) x1(3) show ?case by (intro exI [of _ r2] exI [of _ v2] exI [of _ x2]) simp
qed

lemma poll_closing:
  assumes "lt_inv s" "lt_find c s = Some k" "lx_bev k = Some b" "bev_source ops b inbox rest"
    "lh_on_line h c = (\<lambda>v. tc_close (linux_tcp ops dead) c)" "lo_delimiter opts = chr_lf"
    "inbox x = l @ chr_lf # later" "chr_lf \<notin> set l" "line_inv r"
  shows "\<exists>r' sx1 x0. line_poll (connection_stream (linux_tcp ops dead) (Some c)) opts
      (handle_line (linux_tcp ops dead) (lh_on_line h) (Some c)) (r, (s, x)) = Some (r', sx1)
    \<and> lt_close_connection ops c (s, x0) = Some sx1"
proof -
  from poll_first_line [OF assms(2-4,6-9), of dead h] obtain r1 x1 where
    p: "line_poll (connection_stream (linux_tcp ops dead) (Some c)) opts
        (handle_line (linux_tcp ops dead) (lh_on_line h) (Some c)) (r, (s, x))
      = line_poll (connection_stream (linux_tcp ops dead) (Some c)) opts
        (handle_line (linux_tcp ops dead) (lh_on_line h) (Some c)) (r1, tc_close (linux_tcp ops dead) c (s, x1))"
    unfolding assms(5) by blast
  have "lt_find c (fst (s, x1)) = Some k" using assms(2) by simp
  from tc_close_live [OF this, of ops] obtain sx1 where cl: "lt_close_connection ops c (s, x1) = Some sx1"
    "tc_close (linux_tcp ops dead) c (s, x1) = sx1" by blast
  from lt_close_closed [OF assms(1) cl(1)] obtain c1 where c1: "lt_find c (fst sx1) = Some c1" "\<not> lx_valid c1" by blast
  then have "\<not> cs_readable (linux_tcp ops dead) (Some c) sx1"
    using linux_tcp_live(1) [OF c1(1), of ops dead "snd sx1"] by (simp add: cs_readable_def tc_readable_def)
  with p cl show ?thesis
    by (cases sx1) (simp add: line_poll_def poll_loop.simps [of _ _ "(r1, _)"] connection_stream_def, blast)
qed

lemma check_fold_idle:
  assumes "\<forall>i \<in> set is. case sl_connection (ls_slots ls ! i) of None \<Rightarrow> True | Some c \<Rightarrow> \<not> tc_valid ops c w"
  shows "fold (ls_check_backpressure ops h) is (ls, w) = (ls, w)"
  using assms
proof (induction "is")
  case (Cons i "is")
  then have "ls_check_backpressure ops h i (ls, w) = (ls, w)"
    by (cases "sl_connection (ls_slots ls ! i)") (simp_all add: ls_check_backpressure_def)
  with Cons show ?case by simp
qed simp

text \<open>
  C34: an application that closes the connection in \<open>on_line\<close>, as a \<open>quit\<close> command does, leaves a dangling
  pointer on Linux: after the callback the server has destroyed the connection, the handler's slot
  still holds it, and from then on what the backpressure check of any event finds of the connection
  (whether it is valid, how much it has queued) is read from the destroyed object, which the check
  may then close once more.
\<close>

theorem close_in_on_line_dangles:
  assumes "lt_inv s" "ls_inv n ls" "ls_bound ls = {c}" "ls_find c ls = Some i"
    "lt_find c s = Some k" "lx_bev k = Some b" "bev_source ops b inbox rest"
    "lh_on_line h c = (\<lambda>v. tc_close (linux_tcp ops dead) c)" "inbox x = l @ chr_lf # later" "chr_lf \<notin> set l"
  shows "\<exists>s' ls' x'. lt_read_callback (lift_bev ops) (line_server_handler (linux_tcp ops dead) h) c (s, ls, x) = Some (s', ls', x')
    \<and> lt_find c s' = None \<and> ls_find c ls' = Some i \<and> ls_backpressure ls' = ls_backpressure ls
    \<and> (\<forall>dead' y m. bm_check (linux_tcp ops dead') c (s', y) m = bm_check dead' c (s', y) m)
    \<and> (\<forall>dead' y info m y1. bm_check dead' c (s', y) (sl_backpressure (ls_slots ls' ! i)) = (True, info, m)
          \<longrightarrow> lh_on_backpressure h c info (s', y) = (s', y1) \<longrightarrow> bo_close_on_limit (ls_backpressure ls)
          \<longrightarrow> tc_valid dead' c (s', y1)
          \<longrightarrow> snd (ls_check_backpressure (linux_tcp ops dead') h i (ls', (s', y))) = tc_close dead' c (s', y1))"
proof -
  let ?ops = "lift_bev ops :: (line_server \<times> 'a) bev_ops" and ?tcp = "linux_tcp ops dead"
  note i = ls_find_spec(2) [OF assms(4)]
  have o: "lo_delimiter line_options_default = chr_lf" by (simp add: line_options_default_def)
  have r: "line_inv (sl_reader (ls_slots ls ! i))" using slot_ok_nth [OF assms(2)] i by (simp add: slot_ok_def)
  from poll_closing [OF assms(1,5-7,8) o assms(9,10) r] obtain r' sx1 x0 where
    p: "line_poll (connection_stream ?tcp (Some c)) line_options_default (handle_line ?tcp (lh_on_line h) (Some c))
      (sl_reader (ls_slots ls ! i), (s, x)) = Some (r', sx1)"
    and cl: "lt_close_connection ops c (s, x0) = Some sx1" by blast
  obtain s1 x1 where sx1: "sx1 = (s1, x1)" by fastforce
  from lt_close_closed [OF assms(1) cl] obtain c1 where c1: "lt_inv s1" "lt_find c s1 = Some c1" "\<not> lx_valid c1"
    by (auto simp: sx1 at_most_closed_def)
  let ?ls = "ls_set_slot i ((ls_slots ls ! i)\<lparr>sl_reader := r'\<rparr>) ls"
  have poll: "ls_poll_slot ?tcp h i (ls, (s, x)) = Some (?ls, sx1)" using p i by (simp add: ls_poll_slot_def Let_def)
  from ls_poll_slot_spec [OF assms(2) _ this] i assms(3) have b: "ls_bound ?ls = {c}" "length (ls_slots ?ls) = length (ls_slots ls)"
    "ls_inv n ?ls" by auto
  have "case sl_connection (ls_slots ?ls ! j) of None \<Rightarrow> True | Some d \<Rightarrow> \<not> tc_valid ?tcp d sx1"
    if "j < length (ls_slots ?ls)" for j
  proof (cases "sl_connection (ls_slots ?ls ! j)")
    case (Some d)
    with that b(1) have "d = c" using ls_bound_iff [of d ?ls] by auto
    with Some c1 show ?thesis by (simp add: sx1 linux_tcp_live)
  qed simp
  then have all: "ls_check_all_backpressure ?tcp h (?ls, sx1) = (?ls, sx1)"
    unfolding ls_check_all_backpressure_def by (intro check_fold_idle) simp
  have "ls_acquire c ls = (Some i, ls)" using assms(4) by (simp add: ls_acquire_def)
  then have data: "ls_on_data ?tcp h c (ls, (s, x)) = Some (?ls, sx1)" using poll all by (simp add: ls_on_data_def)
  have k: "lx_owner k" "lx_valid k" using assms(1,5,6) lt_find_Some [OF assms(5)] by (auto simp: lt_inv_def lx_valid_def)
  obtain s' y where sw: "lt_sweep_closed ?ops (s1, (?ls, x1)) = (s', y)" by (metis prod.collapse)
  with sweep_world [OF c1(1), of ?ops "(?ls, x1)"] have y: "y = (?ls, x1)" by simp
  have run: "lt_read_callback ?ops (line_server_handler ?tcp h) c (s, ls, x) = Some (s', ?ls, x1)"
    using assms(5) k data sw y by (simp add: lt_read_callback_def lt_bev_callback_def line_server_handler_def on_lines_def sx1)
  have gone: "lt_find c s' = None"
  proof -
    have "lt_connections s' = filter lx_valid (lt_connections s1)"
      using swept_count(1) [OF c1(1) refl, of ?ops "(?ls, x1)"] sw by simp
    moreover have "\<not> lx_valid d" if "d \<in> set (lt_connections s1)" "lx_id d = c" for d
    proof -
      have "c1 \<in> set (lt_connections s1)" "lx_id c1 = c" using lt_find_Some [OF c1(2)] by simp_all
      with that c1(1) have "d = c1" by (auto simp: lt_inv_def distinct_map dest: inj_onD)
      with c1(3) show ?thesis by simp
    qed
    ultimately show ?thesis by (auto simp: lt_find_None)
  qed
  have dead: "tc_valid (linux_tcp ops d) c (s', z) = tc_valid d c (s', z)" "bm_check (linux_tcp ops d) c (s', z) m = bm_check d c (s', z) m"
    "tc_close (linux_tcp ops d) c (s', z) = tc_close d c (s', z)" for d z m
    using gone by (simp_all add: linux_tcp_def bm_check_def bm_fill_info_def lt_close_connection_def)
  obtain i' where i': "ls_find c ?ls = Some i'" using b(1) ls_find_spec(1) [of c ?ls] by auto
  from ls_bound_unique [OF b(3), of i' c i] ls_find_spec(2) [OF i'] i b(2) have "i' = i" by simp
  have "snd (ls_check_backpressure (linux_tcp ops dead') h i (?ls, (s', z))) = tc_close dead' c (s', z1)"
    if "bm_check dead' c (s', z) (sl_backpressure (ls_slots ?ls ! i)) = (True, info, m)"
      "lh_on_backpressure h c info (s', z) = (s', z1)" "bo_close_on_limit (ls_backpressure ls)" "tc_valid dead' c (s', z1)"
    for dead' z info m z1
  proof -
    have "tc_valid dead' c (s', z)" using that(1) by (auto simp: bm_check_def Let_def split: if_splits)
    with that i show ?thesis by (simp add: ls_check_backpressure_def dead Let_def)
  qed
  with run gone i' \<open>i' = i\<close> dead(2) show ?thesis by (intro exI [of _ s'] exI [of _ ?ls] exI [of _ x1]) simp
qed

section \<open>Examples\<close>

text \<open>A libevent with one input buffer; the application logs what it receives.\<close>

type_synonym demo_world = "byte list \<times> (nat \<times> byte list) list"

definition line_bev :: "demo_world bev_ops" where
  "line_bev = \<lparr>be_socket_new = (\<lambda>fd w. (Some (nat fd), w)), be_enable = (\<lambda>b w. w), be_free = (\<lambda>b w. w),
     be_input_length = (\<lambda>b w. length (fst w)), be_output_length = (\<lambda>b w. 0),
     be_remove = (\<lambda>b n w. (int (length (take n (fst w))), take n (fst w), apfst (drop n) w)),
     be_write = (\<lambda>b bytes w. (0, w)), be_copyout = (\<lambda>b n w. (0, [])), be_readln = (\<lambda>b w. (None, w)),
     be_set_timeouts = (\<lambda>b r wr w. w), be_set_watermarks = (\<lambda>b rl rh wl wh w. w),
     so_close_socket = (\<lambda>fd w. w), so_pton = (\<lambda>host. Some 0), so_ntop = (\<lambda>ip. []), so_error = (\<lambda>w. 104),
     li_new_bind = (\<lambda>cof reuse backlog ip port w. (Some 0, w)), li_free = (\<lambda>l w. w), li_socket_port = (\<lambda>l w. Some 2000)\<rparr>"

definition freed_memory :: "(linux_server \<times> demo_world) tcp_ops" where
  "freed_memory = \<lparr>tc_valid = (\<lambda>i w. False), tc_close = (\<lambda>i w. w), tc_input_size = (\<lambda>i w. 0), tc_output_size = (\<lambda>i w. 0),
     tc_read = (\<lambda>i n w. (0, [], w)), tc_write = (\<lambda>i bytes w. (0, w))\<rparr>"

definition linux_log :: "(linux_server \<times> demo_world) line_handler" where
  "linux_log = line_handler_default (linux_tcp line_bev freed_memory)
     (\<lambda>c line (s, inp, log). (s, inp, log @ [(c, line)]))"

definition linux_quit :: "(linux_server \<times> demo_world) line_handler" where
  "linux_quit = line_handler_default (linux_tcp line_bev freed_memory)
     (\<lambda>c line. tc_close (linux_tcp line_bev freed_memory) c)"

text \<open>A handler of one slot, with connection 0 bound and \<open>ab\<close> received from it.\<close>

definition demo_lines :: line_server where
  "demo_lines = \<lparr>ls_backpressure = bp_disabled, ls_slots =
     [\<lparr>sl_connection = Some 0, sl_backpressure = bm_init bp_disabled,
       sl_reader = \<lparr>lr_buffer = [97, 98, 0, 0], lr_size = 2, lr_stats = stats_init\<rparr>\<rparr>]\<rparr>"

lemma demo_lines_inv:
  "ls_inv 4 demo_lines" "\<not> bo_enabled (ls_backpressure demo_lines)" "ls_find 0 demo_lines = Some 0"
  "ls_bound demo_lines = {0}" "line_pending (sl_reader (ls_slots demo_lines ! 0)) = [97, 98]"
  by (simp_all add: demo_lines_def ls_inv_def slot_ok_def line_inv_def bm_init_def bp_disabled_def
      ls_find_def ls_bound_def line_pending_def)

lemma demo_serving_open:
  "no_dangling demo_serving demo_lines" "lt_find 0 demo_serving = Some (hd (lt_connections demo_serving))"
  "lx_bev (hd (lt_connections demo_serving)) = Some 5"
  by (simp_all add: no_dangling_def demo_lines_inv(4) open_found [OF demo_serving_inv])
    (simp_all add: demo_serving_def lx_valid_def lt_find_def)

lemma line_bev_source: "bev_source line_bev b fst snd"
  by (simp add: bev_source_def line_bev_def)

lemma linux_log_keeps: "keeps_connections line_bev linux_log"
  unfolding keeps_connections_def closes_at_most_def
proof (intro conjI allI impI)
  fix c s and x :: demo_world assume "lt_find c s \<noteq> None"
  then obtain k where "lt_find c (fst (s, x)) = Some k" by auto
  from tc_close_live [OF this, of line_bev] obtain sx1 where
    "lt_close_connection line_bev c (s, x) = Some sx1" "lh_on_too_many_connections linux_log c (s, x) = sx1"
    by (auto simp: linux_log_def line_handler_default_def)
  then show "fst (lh_on_too_many_connections linux_log c (s, x)) = s \<or> (\<exists>x1 sx1. lt_close_connection line_bev c (s, x1) = Some sx1
      \<and> fst (lh_on_too_many_connections linux_log c (s, x)) = fst sx1)" by blast
qed (auto simp: linux_log_def line_handler_default_def split: prod.split)

text \<open>The end of the connection that is bound.\<close>

lemma linux_lines_no_dangling_witness:
  "\<exists>s' ls' x'. (\<forall>dead. lines_events line_bev dead linux_log
       [Write_Ready 0, Reported \<lparr>ev_timeout = False, ev_error = False, ev_eof = True\<rparr> 0]
       (demo_serving, demo_lines, ([], [])) = Some (s', ls', x')) \<and> ls_bound ls' = {} \<and> no_dangling s' ls'"
proof -
  let ?es = "[Write_Ready 0, Reported \<lparr>ev_timeout = False, ev_error = False, ev_eof = True\<rparr> 0]"
  let ?run = "lines_events line_bev freed_memory linux_log ?es (demo_serving, demo_lines, ([], []))"
  have "\<exists>s' ls' x'. ?run = Some (s', ls', x') \<and> ls_active_connections ls' = 0"
    by (simp add: lt_write_callback_def lt_event_callback_def lt_bev_callback_def lt_notify_event_def line_server_handler_def
        on_lines_def ls_on_write_ready_def ls_on_close_def ls_release_def ls_find_def ls_check_backpressure_def
        bm_check_def ls_set_slot_def sl_vacate_def ls_active_connections_def linux_tcp_def lt_close_connection_def lx_close_def
        lx_close_bev_def lt_set_def lt_sweep_closed_def lx_destroy_def lx_detach_def lt_find_def lx_valid_def bm_init_def bp_disabled_def
        demo_serving_def demo_listening_def demo_lines_def linux_log_def line_handler_default_def line_bev_def lift_bev_def Let_def)
  then obtain s' ls' x' where r: "?run = Some (s', ls', x')" "ls_active_connections ls' = 0" by blast
  note q = linux_lines_no_dangling [OF demo_serving_inv demo_lines_inv(1) demo_serving_open(1) linux_log_keeps r(1)]
  then have "card (ls_bound ls') = 0" using ls_active_card [of 4 ls'] r(2) by simp
  then have "ls_bound ls' = {}" by (simp add: ls_bound_def)
  with q show ?thesis by blast
qed

lemma linux_delivers_lines_witness:
  "\<exists>s' ls' x'. lt_read_callback (lift_bev line_bev) (line_server_handler (linux_tcp line_bev freed_memory) linux_log) 0
      (demo_serving, demo_lines, ([99, chr_lf, 100, chr_cr, chr_lf, 101], [])) = Some (s', ls', x')
    \<and> snd x' = [(0, [97, 98, 99]), (0, [100])]"
proof -
  let ?x = "([99, chr_lf, 100, chr_cr, chr_lf, 101], []) :: demo_world"
  have h: "\<forall>v x. \<exists>x1. lh_on_line linux_log 0 v (demo_serving, x) = (demo_serving, x1) \<and> fst x1 = fst x \<and> snd x1 = snd x @ [(0, v)]"
    by (auto simp: linux_log_def line_handler_default_def)
  have "line_pending (sl_reader (ls_slots demo_lines ! 0)) @ fst ?x = join_lines chr_lf [[97, 98, 99], [100, chr_cr]] [101]"
    "chr_lf \<notin> set (line_pending (sl_reader (ls_slots demo_lines ! 0)))"
    "\<forall>l \<in> set [[101], [97, 98, 99], [100, chr_cr]]. chr_lf \<notin> set l \<and> length l \<le> 4"
    by (simp_all add: demo_lines_inv(5))
  from linux_delivers_lines [OF demo_serving_inv demo_lines_inv(1-3) demo_serving_open(2,3) line_bev_source h this, of freed_memory]
  show ?thesis by (auto simp: strip_cr_def)
qed

lemma close_in_on_line_dangles_witness:
  "\<exists>s' ls' x'. lt_read_callback (lift_bev line_bev) (line_server_handler (linux_tcp line_bev freed_memory) linux_quit) 0
      (demo_serving, demo_lines, ([99, chr_lf], [])) = Some (s', ls', x')
    \<and> lt_find 0 s' = None \<and> ls_find 0 ls' = Some 0"
proof -
  have "lh_on_line linux_quit 0 = (\<lambda>v. tc_close (linux_tcp line_bev freed_memory) 0)"
    by (simp add: linux_quit_def line_handler_default_def)
  moreover have "fst ([99, chr_lf], []) = [99] @ chr_lf # []" "chr_lf \<notin> set [99]" by simp_all
  ultimately show ?thesis
    using close_in_on_line_dangles [OF demo_serving_inv demo_lines_inv(1,4,3) demo_serving_open(2,3) line_bev_source] by blast
qed

end
