(* ===== verification/Pin_Sources.thy ===== *)
theory Pin_Sources
  imports Event_Loop "HOL-Library.Monad_Syntax"
begin

text \<open>
  The pin event sources of the Arduino backend: the polled one of
  \<^verbatim>\<open>src/async_event_loop_arduino/arduino_pin_event_source.hpp\<close> and the interrupt-driven one of
  \<^verbatim>\<open>arduino_interrupt_pin_event_source.hpp\<close>; and what \<open>EventLoop::on_pin_event\<close> makes of a source that
  reports levels.
\<close>

section \<open>\<open>ArduinoDigitalPinEventSource\<close>\<close>

text \<open>The Arduino functions used, on the outside state: \<open>digitalRead\<close> tells whether the pin is \<open>HIGH\<close>.\<close>

record 'w pin_ops =
  pi_pin_mode :: "byte \<Rightarrow> byte \<Rightarrow> 'w \<Rightarrow> 'w"
  pi_digital_read :: "byte \<Rightarrow> 'w \<Rightarrow> bool \<times> 'w"
  pi_micros :: "'w \<Rightarrow> u32"

record arduino_pin_source =
  ap_pin :: byte
  ap_event_type :: pin_event_type
  ap_mode :: byte
  ap_sequence :: u32
  ap_ready :: bool
  ap_has_last :: bool
  ap_last_level :: bool

definition ap_init :: "byte \<Rightarrow> pin_event_type \<Rightarrow> byte \<Rightarrow> arduino_pin_source" where
  "ap_init pin type mode = \<lparr>ap_pin = pin, ap_event_type = type, ap_mode = mode, ap_sequence = 0, ap_ready = False,
     ap_has_last = False, ap_last_level = False\<rparr>"

definition ap_begin :: "'w pin_ops \<Rightarrow> arduino_pin_source \<times> 'w \<Rightarrow> arduino_pin_source \<times> 'w" where
  "ap_begin ops pw = (case pw of (p, w) \<Rightarrow> (p\<lparr>ap_ready := True\<rparr>, pi_pin_mode ops (ap_pin p) (ap_mode p) w))"

definition ap_matches :: "pin_event_type \<Rightarrow> bool \<Rightarrow> bool \<Rightarrow> bool" where
  "ap_matches type previous current =
     (case type of
        RisingEdge \<Rightarrow> \<not> previous \<and> current
      | FallingEdge \<Rightarrow> previous \<and> \<not> current
      | Change \<Rightarrow> previous \<noteq> current
      | HighLevel \<Rightarrow> current
      | LowLevel \<Rightarrow> \<not> current)"

definition ap_edge_type :: "pin_event_type \<Rightarrow> bool \<Rightarrow> bool \<Rightarrow> pin_event_type" where
  "ap_edge_type type previous current =
     (if \<not> previous \<and> current then RisingEdge else if previous \<and> \<not> current then FallingEdge else type)"

text \<open>Filling in the event: \<^verbatim>\<open>event.sequence = ++sequence_\<close> and the rest.\<close>

definition ap_emit ::
  "pin_event_type \<Rightarrow> bool \<Rightarrow> u32 \<Rightarrow> arduino_pin_source \<Rightarrow> pin_event \<times> arduino_pin_source" where
  "ap_emit type current now p =
     (\<lparr>pe_type = type, pe_timestamp_us = ucast now, pe_source_id = ucast (ap_pin p),
       pe_sequence = ap_sequence p + 1, pe_level = current\<rparr>,
      p\<lparr>ap_sequence := ap_sequence p + 1\<rparr>)"

definition ap_level_event ::
  "bool \<Rightarrow> u32 \<Rightarrow> arduino_pin_source \<Rightarrow> pin_event option \<times> arduino_pin_source" where
  "ap_level_event current now p =
     (if (ap_event_type p = HighLevel \<and> current) \<or> (ap_event_type p = LowLevel \<and> \<not> current)
      then (case ap_emit (ap_event_type p) current now p of (ev, p1) \<Rightarrow> (Some ev, p1))
      else (None, p))"

definition ap_read_event ::
  "'w pin_ops \<Rightarrow> arduino_pin_source \<times> 'w \<Rightarrow> pin_event option \<times> arduino_pin_source \<times> 'w" where
  "ap_read_event ops pw =
     (case pw of (p, w) \<Rightarrow>
        if \<not> ap_ready p then (None, p, w)
        else (case pi_digital_read ops (ap_pin p) w of (current, w1) \<Rightarrow>
          if \<not> ap_has_last p
          then (case ap_level_event current (pi_micros ops w1) (p\<lparr>ap_last_level := current, ap_has_last := True\<rparr>) of
                  (ev, p1) \<Rightarrow> (ev, p1, w1))
          else let previous = ap_last_level p; p1 = p\<lparr>ap_last_level := current\<rparr>
               in if \<not> ap_matches (ap_event_type p) previous current then (None, p1, w1)
                  else (case ap_emit (ap_edge_type (ap_event_type p) previous current) current (pi_micros ops w1) p1 of
                          (ev, p2) \<Rightarrow> (Some ev, p2, w1))))"

text \<open>
  What a read does on a sampled level: the source remembers the level, and reports exactly if the level
  is the selected one, or differs from the remembered one in the selected way.
\<close>

lemma ap_read_event_spec:
  assumes "ap_ready p" "pi_digital_read ops (ap_pin p) w = (level, w1)" "ap_read_event ops (p, w) = (ev, p', w')"
  shows "w' = w1 \<and> ap_last_level p' = level \<and> ap_has_last p' \<and> ap_ready p' \<and> ap_pin p' = ap_pin p
    \<and> ap_event_type p' = ap_event_type p
    \<and> (ev = None \<longleftrightarrow> (if ap_has_last p then \<not> ap_matches (ap_event_type p) (ap_last_level p) level
         else \<not> (ap_event_type p = HighLevel \<and> level) \<and> \<not> (ap_event_type p = LowLevel \<and> \<not> level)))"
  using assms
  by (auto simp: ap_read_event_def ap_level_event_def ap_emit_def Let_def split: if_splits)

section \<open>\<open>ArduinoInterruptPinEventSource\<close>\<close>

record interrupt_info =
  ii_source_id :: u32
  ii_count :: u16
  ii_dropped :: u16
  ii_last_timestamp_us :: u32

text \<open>
  The fields the interrupt routine shares with the loop are the last five. \<open>read_event\<close> accesses them with
  interrupts disabled, so it and \<open>notify_from_isr\<close> are atomic with respect to each other.
\<close>

record interrupt_source =
  is_pin :: byte
  is_event_type :: pin_event_type
  is_source_id :: u32
  is_sequence :: u32
  is_last_info :: interrupt_info
  is_pending_count :: u16
  is_dropped_count :: u16
  is_last_timestamp_us :: u32
  is_last_level :: bool
  is_has_level :: bool

definition is_init :: "byte \<Rightarrow> pin_event_type \<Rightarrow> u32 \<Rightarrow> interrupt_source" where
  "is_init pin type source_id =
     \<lparr>is_pin = pin, is_event_type = type, is_source_id = (if source_id = 0 then ucast pin else source_id), is_sequence = 0,
      is_last_info = \<lparr>ii_source_id = 0, ii_count = 0, ii_dropped = 0, ii_last_timestamp_us = 0\<rparr>,
      is_pending_count = 0, is_dropped_count = 0, is_last_timestamp_us = 0, is_last_level = False, is_has_level = False\<rparr>"

definition is_notify_from_isr :: "bool \<Rightarrow> u32 \<Rightarrow> interrupt_source \<Rightarrow> interrupt_source" where
  "is_notify_from_isr level now s =
     (if is_pending_count s = 0xffff then s\<lparr>is_dropped_count := is_dropped_count s + 1\<rparr>
      else s\<lparr>is_pending_count := is_pending_count s + 1, is_last_timestamp_us := now, is_last_level := level,
             is_has_level := True\<rparr>)"

definition is_read_event :: "interrupt_source \<Rightarrow> pin_event option \<times> interrupt_source" where
  "is_read_event s =
     (if is_pending_count s = 0 then (None, s)
      else (Some \<lparr>pe_type = is_event_type s, pe_timestamp_us = ucast (is_last_timestamp_us s),
                  pe_source_id = is_source_id s, pe_sequence = is_sequence s + 1,
                  pe_level = (if is_has_level s then is_last_level s else False)\<rparr>,
            s\<lparr>is_pending_count := 0, is_dropped_count := 0, is_sequence := is_sequence s + 1,
              is_last_info := \<lparr>ii_source_id = is_source_id s, ii_count = is_pending_count s,
                ii_dropped = is_dropped_count s, ii_last_timestamp_us = is_last_timestamp_us s\<rparr>\<rparr>))"

text \<open>A burst of interrupts, as pairs of level and time.\<close>

definition is_notify_all :: "(bool \<times> u32) list \<Rightarrow> interrupt_source \<Rightarrow> interrupt_source" where
  "is_notify_all ns s = fold (\<lambda>(level, now). is_notify_from_isr level now) ns s"

lemma notify_all_snoc:
  "is_notify_all (ns @ [(level, now)]) s = is_notify_from_isr level now (is_notify_all ns s)"
  by (simp add: is_notify_all_def)

lemma notify_all_counts:
  assumes "is_pending_count s = 0" "is_dropped_count s = 0"
  shows "unat (is_pending_count (is_notify_all ns s)) = min (length ns) 65535
    \<and> is_dropped_count (is_notify_all ns s) = of_nat (length ns - 65535)
    \<and> is_source_id (is_notify_all ns s) = is_source_id s \<and> is_sequence (is_notify_all ns s) = is_sequence s
    \<and> is_event_type (is_notify_all ns s) = is_event_type s
    \<and> (ns \<noteq> [] \<longrightarrow> is_has_level (is_notify_all ns s)
        \<and> (is_last_level (is_notify_all ns s), is_last_timestamp_us (is_notify_all ns s)) = last (take 65535 ns))"
proof (induction ns rule: rev_induct)
  case Nil
  with assms show ?case by (simp add: is_notify_all_def)
next
  case (snoc n ns)
  obtain level now where n: "n = (level, now)" by fastforce
  let ?s = "is_notify_all ns s"
  have eq: "is_notify_all (ns @ [n]) s = is_notify_from_isr level now ?s" unfolding n by (rule notify_all_snoc)
  show ?case
  proof (cases "length ns < 65535")
    case True
    with snoc have u: "unat (is_pending_count ?s) = length ns" by simp
    then have "is_pending_count ?s \<noteq> 0xffff" using True by auto
    moreover have "unat (is_pending_count ?s + 1) = Suc (length ns)"
      using u True by (simp add: unat_plus_simple [THEN iffD1] no_olen_add_nat)
    ultimately show ?thesis using snoc True n unfolding eq by (simp add: is_notify_from_isr_def)
  next
    case False
    with snoc have "unat (is_pending_count ?s) = 65535" by simp
    then have "is_pending_count ?s = 0xffff" by (simp add: word_unat_eq_iff)
    moreover have "length (ns @ [n]) - 65535 = Suc (length ns - 65535)" using False by simp
    ultimately show ?thesis using snoc False unfolding eq by (auto simp: is_notify_from_isr_def)
  qed
qed

section \<open>Properties\<close>

text \<open>
  Every interrupt is accounted for. If \<open>ns\<close> are the interrupts since the last event was read (or since
  the start), the next read reports nothing exactly if there were none; otherwise it reports one event,
  with the next sequence number and the level and time of the last of the first 65535 interrupts, the
  count of interrupts up to 65535 and the number of further ones modulo \<open>2 ^ 16\<close>, and the counters
  start again; so the interrupts are counted exactly as long as fewer than 131071 arrive between reads.
\<close>

theorem interrupts_accounted:
  assumes "is_pending_count s = 0" "is_dropped_count s = 0"
    "is_read_event (is_notify_all ns s) = (ev, s')"
  shows "(if ns = [] then ev = None \<and> s' = s
    else \<exists>e. ev = Some e \<and> pe_sequence e = is_sequence s + 1 \<and> pe_type e = is_event_type s
      \<and> (pe_level e, pe_timestamp_us e) = (case last (take 65535 ns) of (level, now) \<Rightarrow> (level, ucast now))
      \<and> unat (ii_count (is_last_info s')) = min (length ns) 65535
      \<and> (length ns < 131071 \<longrightarrow>
           unat (ii_count (is_last_info s')) + unat (ii_dropped (is_last_info s')) = length ns))
    \<and> is_pending_count s' = 0 \<and> is_dropped_count s' = 0"
proof (cases "ns = []")
  case True
  with assms show ?thesis by (simp add: is_notify_all_def is_read_event_def)
next
  case False
  let ?s = "is_notify_all ns s"
  note c = notify_all_counts [OF assms(1,2), of ns]
  from c False have "unat (is_pending_count ?s) \<noteq> 0" by (cases ns) simp_all
  then have "is_pending_count ?s \<noteq> 0" by auto
  with assms(3) have r: "ev = Some \<lparr>pe_type = is_event_type ?s, pe_timestamp_us = ucast (is_last_timestamp_us ?s),
        pe_source_id = is_source_id ?s, pe_sequence = is_sequence ?s + 1,
        pe_level = (if is_has_level ?s then is_last_level ?s else False)\<rparr>"
    "is_pending_count s' = 0" "is_dropped_count s' = 0"
    "ii_count (is_last_info s') = is_pending_count ?s" "ii_dropped (is_last_info s') = is_dropped_count ?s"
    by (auto simp: is_read_event_def)
  have l: "last (take 65535 ns) = (is_last_level ?s, is_last_timestamp_us ?s)" "is_has_level ?s"
    using c False by simp_all
  have "unat (is_dropped_count ?s) = length ns - 65535" if "length ns < 131071"
    using c that by (simp add: unat_of_nat take_bit_nat_eq_self)
  with c False r l show ?thesis by auto
qed

text \<open>
  What \<open>EventLoop\<close> makes of a polled source. The world is the source together with everything else, \<open>'x\<close>;
  \<open>level\<close> is the level of the pin there, which neither the callback nor the reading changes.
\<close>

definition serves_pin ::
  "('p, 's, arduino_pin_source \<times> 'x) el_env \<Rightarrow> 'x pin_ops \<Rightarrow> nat \<Rightarrow> 'p \<Rightarrow> ('x \<Rightarrow> bool) \<Rightarrow> bool" where
  "serves_pin env ops k c level \<longleftrightarrow> en_read_event env k = Some \<circ> ap_read_event ops
     \<and> (\<forall>pin x. level (snd (pi_digital_read ops pin x)) = level x \<and> fst (pi_digital_read ops pin x) = level x)
     \<and> (\<forall>ev s l p x. \<exists>s' l' x'. en_run_pin env c ev (s, l, (p, x)) = Some (s', l', (p, x')) \<and> level x' = level x)"

definition level_selected :: "pin_event_type \<Rightarrow> bool \<Rightarrow> bool" where
  "level_selected type level \<longleftrightarrow> type = HighLevel \<and> level \<or> type = LowLevel \<and> \<not> level"

lemma serves_read:
  assumes "serves_pin env ops k c level" "ap_ready p" "ap_read_event ops (p, x) = (ev, (p', x'))"
  shows "level x' = level x \<and> ap_ready p' \<and> ap_has_last p' \<and> ap_last_level p' = level x \<and> ap_event_type p' = ap_event_type p
    \<and> (level_selected (ap_event_type p) (level x) \<longrightarrow> ev \<noteq> None)
    \<and> (\<not> level_selected (ap_event_type p) (level x) \<and> (\<not> ap_has_last p \<or> ap_last_level p = level x) \<longrightarrow> ev = None)"
proof -
  obtain lv w1 where d: "pi_digital_read ops (ap_pin p) x = (lv, w1)" by fastforce
  with assms(1) have lv: "lv = level x" "level w1 = level x" unfolding serves_pin_def by (metis fst_conv snd_conv)+
  from ap_read_event_spec [OF assms(2) d assms(3)] lv show ?thesis
    by (cases "ap_event_type p") (auto simp: level_selected_def ap_matches_def split: if_splits)
qed

text \<open>
  If every read reports an event and the callback keeps it so, the loop over the events never ends.
\<close>

lemma el_drain_never:
  fixes env :: "('p, 's, 'w) el_env"
  assumes step: "\<And>w ev w'. I w \<Longrightarrow> en_read_event env k w = Some (ev, w') \<Longrightarrow> \<exists>v. ev = Some v
      \<and> (\<forall>s l s' l' w2. en_run_pin env c v (s, l, w') = Some (s', l', w2) \<longrightarrow> I w2)"
  shows "I w \<Longrightarrow> el_drain_pins env k c (s, l, w) = None"
proof -
  have never: "I (snd (snd a)) \<longrightarrow> e = env \<longrightarrow> k' = k \<longrightarrow> c' = c \<longrightarrow> False" if "el_drain_pins e k' c' a = Some b" for e k' c' a b
  proof (rule el_drain_pins.raw_induct [OF _ that, where P = "\<lambda>e k' c' a b. I (snd (snd a)) \<longrightarrow> e = env \<longrightarrow> k' = k \<longrightarrow> c' = c \<longrightarrow> False"])
    fix f :: "('p, 's, 'w) el_env \<Rightarrow> nat \<Rightarrow> 'p \<Rightarrow> ('p, 's, 'w) el_state \<Rightarrow> ('p, 's, 'w) el_state option" and e k' c' a b
    assume IH: "\<And>e k' c' a b. f e k' c' a = Some b \<Longrightarrow> I (snd (snd a)) \<longrightarrow> e = env \<longrightarrow> k' = k \<longrightarrow> c' = c \<longrightarrow> False"
      and run: "(case a of (s, l, w) \<Rightarrow> case en_read_event e k' w of
          None \<Rightarrow> None
        | Some (None, w') \<Rightarrow> Some (s, l, w')
        | Some (Some ev, w') \<Rightarrow> (case en_run_pin e c' ev (s, l, w') of None \<Rightarrow> None | Some st' \<Rightarrow> f e k' c' st')) = Some b"
    show "I (snd (snd a)) \<longrightarrow> e = env \<longrightarrow> k' = k \<longrightarrow> c' = c \<longrightarrow> False"
    proof (intro impI)
      assume h: "I (snd (snd a))" "e = env" "k' = k" "c' = c"
      obtain s l w where a: "a = (s, l, w)" by (metis prod_cases3)
      from run a h obtain ev w' where r: "en_read_event env k w = Some (ev, w')" by (auto split: option.splits)
      from step [OF _ r] h(1) a obtain v where v: "ev = Some v"
        and keep: "\<forall>s l s' l' w2. en_run_pin env c v (s, l, w') = Some (s', l', w2) \<longrightarrow> I w2" by auto
      from run a h r v obtain s' l' w2 where cb: "en_run_pin env c v (s, l, w') = Some (s', l', w2)"
        "f env k c (s', l', w2) = Some b" by (auto split: option.splits)
      from IH [OF cb(2)] keep cb(1) show False by auto
    qed
  qed
  assume "I w"
  then show "el_drain_pins env k c (s, l, w) = None" using never [of env k c "(s, l, w)"] by (metis not_Some_eq snd_conv)
qed

lemma drain_level_never:
  fixes env :: "('p, 's, arduino_pin_source \<times> 'x) el_env"
  assumes serves: "serves_pin env ops k c level"
  shows "ap_ready p \<Longrightarrow> level_selected (ap_event_type p) (level x) \<Longrightarrow> el_drain_pins env k c (s, l, (p, x)) = None"
proof (rule el_drain_never [where I = "\<lambda>(p, x). ap_ready p \<and> level_selected (ap_event_type p) (level x)"])
  fix w :: "arduino_pin_source \<times> 'x" and ev w'
  assume w: "case w of (p, x) \<Rightarrow> ap_ready p \<and> level_selected (ap_event_type p) (level x)" "en_read_event env k w = Some (ev, w')"
  obtain p x p' x' where e: "w = (p, x)" "w' = (p', x')" by (metis prod.collapse)
  with w serves have r: "ap_ready p" "ap_read_event ops (p, x) = (ev, (p', x'))" by (simp_all add: serves_pin_def)
  note sp = serves_read [OF serves r]
  with w(1) e obtain v where v: "ev = Some v" by auto
  have keep: "ap_ready p2 \<and> level_selected (ap_event_type p2) (level x2)"
    if cb: "en_run_pin env c v (s, l, w') = Some (s', l', (p2, x2))" for s l s' l' p2 x2
  proof -
    from serves obtain s3 l3 x3 where "en_run_pin env c v (s, l, (p', x')) = Some (s3, l3, (p', x3))" "level x3 = level x'"
      unfolding serves_pin_def by blast
    with cb e have "p2 = p'" "level x2 = level x'" by simp_all
    with sp w(1) e show ?thesis by simp
  qed
  show "\<exists>v. ev = Some v \<and> (\<forall>s l s' l' w2. en_run_pin env c v (s, l, w') = Some (s', l', w2)
      \<longrightarrow> (case w2 of (p, x) \<Rightarrow> ap_ready p \<and> level_selected (ap_event_type p) (level x)))"
    using v keep by simp
qed simp

lemma drain_edge_returns:
  assumes serves: "serves_pin env ops k c level" and p: "ap_ready p" "\<not> level_selected (ap_event_type p) (level x)"
  shows "\<exists>st. el_drain_pins env k c (s, l, (p, x)) = Some st"
proof -
  have rd: "en_read_event env k w = Some (ap_read_event ops w)" for w using serves by (simp add: serves_pin_def)
  obtain ev p' x' where r: "ap_read_event ops (p, x) = (ev, (p', x'))" by (metis prod_cases3)
  note sp = serves_read [OF serves p(1) r]
  show ?thesis
  proof (cases ev)
    case None
    with r rd show ?thesis by (simp add: el_drain_pins.simps [of env k c "(s, l, (p, x))"])
  next
    case (Some v)
    from serves obtain s2 l2 x2 where cb: "en_run_pin env c v (s, l, (p', x')) = Some (s2, l2, (p', x2))" "level x2 = level x'"
      unfolding serves_pin_def by blast
    obtain ev2 p3 x3 where r2: "ap_read_event ops (p', x2) = (ev2, (p3, x3))" by (metis prod_cases3)
    from serves_read [OF serves _ r2] sp cb(2) p(2) have "ev2 = None" by auto
    with r2 rd have "el_drain_pins env k c (s2, l2, (p', x2)) = Some (s2, l2, (p3, x3))"
      by (simp add: el_drain_pins.simps [of env k c "(s2, l2, (p', x2))"])
    with r rd Some cb(1) show ?thesis by (simp add: el_drain_pins.simps [of env k c "(s, l, (p, x))"])
  qed
qed

text \<open>
  On a pin whose level does not change meanwhile, the poll of a pin-event callback returns if and only
  if the level is not one the source selects: a source for a level (\<open>HighLevel\<close> or \<open>LowLevel\<close>) reports an
  event on every read while the pin has it, and \<open>on_pin_event\<close> reads until there is none, so the loop
  hangs; sources for edges report at most one event.
\<close>

theorem level_pin_poll_hangs:
  assumes "serves_pin env ops k c level" "ap_ready p" "i < length (el_tasks l)"
    "ct_poll_begin (el_tasks l ! i) = Some (Pin_Events k c, t)"
  shows "el_poll env i now (s, l, (p, x)) = None \<longleftrightarrow> level_selected (ap_event_type p) (level x)"
proof -
  have e: "el_poll env i now (s, l, (p, x)) = map_option (\<lambda>(s', l', w'). (s', el_set_task i (ct_poll_end (el_tasks l' ! i)) l', w'))
      (el_drain_pins env k c (s, el_set_task i t l, (p, x)))"
    using assms(3,4) by (simp add: el_poll_def el_invoke_def)
  show ?thesis
  proof (cases "level_selected (ap_event_type p) (level x)")
    case True
    with drain_level_never [OF assms(1,2) True] e show ?thesis by simp
  next
    case False
    with drain_edge_returns [OF assms(1,2) False, of s "el_set_task i t l"] e show ?thesis by auto
  qed
qed

section \<open>Examples\<close>

definition high_pin :: "unit pin_ops" where
  "high_pin = \<lparr>pi_pin_mode = (\<lambda>pin mode w. w), pi_digital_read = (\<lambda>pin w. (True, w)), pi_micros = (\<lambda>w. 5)\<rparr>"

definition high_env :: "(nat, arduino_loop, arduino_pin_source \<times> unit) el_env" where
  "high_env = \<lparr>en_ops = al_ops, en_micros = (\<lambda>w. 0), en_readable = (\<lambda>k w. False), en_stream_fd = (\<lambda>k w. -1),
     en_source_fd = (\<lambda>k w. -1), en_read_event = (\<lambda>k w. Some (ap_read_event high_pin w)), en_run = (\<lambda>p. Some),
     en_run_pin = (\<lambda>p ev. Some), en_external = (\<lambda>t now. Some)\<rparr>"

definition pin_loop :: "nat event_loop" where
  "pin_loop = fst (snd (snd (el_on_pin_event high_env 0 3 0 (al_init 4, el_init 2, (ap_init 7 HighLevel 0, ())))))"

lemma level_pin_poll_hangs_witness:
  "el_poll high_env 0 9 (al_init 4, pin_loop, ((ap_init 7 HighLevel 0)\<lparr>ap_ready := True\<rparr>, ())) = None"
proof -
  have "case ct_poll_begin (el_tasks pin_loop ! 0) of None \<Rightarrow> False | Some (Pin_Events k c, _) \<Rightarrow> k = 0 \<and> c = 3 | Some _ \<Rightarrow> False"
    unfolding pin_loop_def by code_simp
  then obtain t where t: "ct_poll_begin (el_tasks pin_loop ! 0) = Some (Pin_Events 0 3, t)"
    by (auto split: option.splits el_callable.splits)
  have n: "0 < length (el_tasks pin_loop)" unfolding pin_loop_def by code_simp
  have "serves_pin high_env high_pin 0 3 (\<lambda>x. True)"
    by (simp add: serves_pin_def high_env_def high_pin_def fun_eq_iff)
  from level_pin_poll_hangs [OF this _ n t, of "(ap_init 7 HighLevel 0)\<lparr>ap_ready := True\<rparr>" 9] show ?thesis
    by (simp add: level_selected_def ap_init_def)
qed

lemma interrupts_accounted_witness:
  "fst (is_read_event (is_notify_all [(True, 10), (False, 12)] (is_init 2 Change 0)))
     = Some \<lparr>pe_type = Change, pe_timestamp_us = 12, pe_source_id = 2, pe_sequence = 1, pe_level = False\<rparr>
   \<and> is_pending_count (snd (is_read_event (is_notify_all [(True, 10), (False, 12)] (is_init 2 Change 0)))) = 0"
  using interrupts_accounted [of "is_init 2 Change 0" "[(True, 10), (False, 12)]"
      "fst (is_read_event (is_notify_all [(True, 10), (False, 12)] (is_init 2 Change 0)))"
      "snd (is_read_event (is_notify_all [(True, 10), (False, 12)] (is_init 2 Change 0)))"]
  by (simp add: is_init_def is_read_event_def is_notify_all_def is_notify_from_isr_def)

end
