(* ===== verification/File_Pins.thy ===== *)
theory File_Pins
  imports Pin_Events
begin

text \<open>
  Pins that are files: \<^verbatim>\<open>src/async_event_loop_linux/linux_file_pin_io.hpp\<close>. A C \<^verbatim>\<open>int\<close> is a 32-bit word
  read by \<open>sint\<close>. The system calls are a record of operations on the outside state \<open>'w\<close>; a path that is
  empty stands for a null or an empty one.
\<close>

section \<open>Numbers as text\<close>

text \<open>The loop that produces the digits, least significant first, at most \<open>k\<close> of them.\<close>

fun digit_loop :: "nat \<Rightarrow> nat \<Rightarrow> byte list" where
  "digit_loop 0 v = []"
| "digit_loop (Suc k) v = (if v > 0 then of_nat (48 + v mod 10) # digit_loop k (v div 10) else [])"

text \<open>\<^verbatim>\<open>-value\<close> wraps around for the smallest number; then the loop ends at once.\<close>

definition int_text :: "u32 \<Rightarrow> byte list" where
  "int_text value =
     (if value = 0 then [chr_0]
      else let v = (if sint value < 0 then - value else value)
           in (if sint value < 0 then [chr_minus] else []) @ rev (digit_loop 16 (nat (sint v)))) @ [chr_lf]"

text \<open>\<open>strtol\<close> with base 10 on a zero-terminated text, the result limited to a 64-bit \<^verbatim>\<open>long\<close>.\<close>

definition is_space :: "byte \<Rightarrow> bool" where
  "is_space b \<longleftrightarrow> b = chr_space \<or> (chr_tab \<le> b \<and> b \<le> chr_cr)"

fun digits_value :: "nat \<Rightarrow> byte list \<Rightarrow> nat" where
  "digits_value acc [] = acc"
| "digits_value acc (b # bs) =
     (if chr_0 \<le> b \<and> b \<le> chr_9 then digits_value (acc * 10 + (unat b - 48)) bs else acc)"

definition strtol :: "byte list \<Rightarrow> int" where
  "strtol bs =
     (case dropWhile is_space bs of
        [] \<Rightarrow> 0
      | b # r \<Rightarrow>
          let v = (if b = chr_minus then - int (digits_value 0 r)
                   else if b = chr_plus then int (digits_value 0 r) else int (digits_value 0 (b # r)))
          in max (- (2 ^ 63)) (min (2 ^ 63 - 1) v))"

section \<open>The pins\<close>

record 'w file_ops =
  fo_open_read :: "string \<Rightarrow> 'w \<Rightarrow> int \<times> 'w"
  fo_open_write :: "string \<Rightarrow> 'w \<Rightarrow> int \<times> 'w"
  fo_read :: "int \<Rightarrow> nat \<Rightarrow> 'w \<Rightarrow> int \<times> byte list \<times> 'w"
  fo_write :: "int \<Rightarrow> byte list \<Rightarrow> 'w \<Rightarrow> int \<times> 'w"
  fo_close :: "int \<Rightarrow> 'w \<Rightarrow> 'w"

definition fp_valid :: "string \<Rightarrow> bool" where
  "fp_valid path \<longleftrightarrow> path \<noteq> []"

definition fp_read_int :: "'w file_ops \<Rightarrow> string \<Rightarrow> u32 \<Rightarrow> 'w \<Rightarrow> u32 \<times> 'w" where
  "fp_read_int ops path fallback w =
     (if \<not> fp_valid path then (fallback, w)
      else (case fo_open_read ops path w of (fd, w1) \<Rightarrow>
        if fd < 0 then (fallback, w1)
        else (case fo_read ops fd 31 w1 of (n, bytes, w2) \<Rightarrow>
          let w3 = fo_close ops fd w2
          in if n \<le> 0 then (fallback, w3) else (word_of_int (strtol bytes), w3))))"

definition fp_write_int :: "'w file_ops \<Rightarrow> string \<Rightarrow> u32 \<Rightarrow> 'w \<Rightarrow> bool \<times> 'w" where
  "fp_write_int ops path value w =
     (if \<not> fp_valid path then (False, w)
      else let bytes = int_text value
           in case fo_open_write ops path w of (fd, w1) \<Rightarrow>
                if fd < 0 then (False, w1)
                else (case fo_write ops fd bytes w1 of (written, w2) \<Rightarrow> (written = int (length bytes), fo_close ops fd w2)))"

definition digital_input_read :: "'w file_ops \<Rightarrow> string \<Rightarrow> 'w \<Rightarrow> bool \<times> 'w" where
  "digital_input_read ops path w = (case fp_read_int ops path 0 w of (v, w1) \<Rightarrow> (v \<noteq> 0, w1))"

definition digital_output_write :: "'w file_ops \<Rightarrow> string \<Rightarrow> bool \<Rightarrow> 'w \<Rightarrow> bool \<times> 'w" where
  "digital_output_write ops path high w = fp_write_int ops path (if high then 1 else 0) w"

definition analog_input_read :: "'w file_ops \<Rightarrow> string \<Rightarrow> 'w \<Rightarrow> u32 \<times> 'w" where
  "analog_input_read ops path w = fp_read_int ops path 0 w"

definition analog_clamp :: "u32 \<Rightarrow> u32 \<Rightarrow> u32" where
  "analog_clamp max_value value =
     (let v = (if sint value < 0 then 0 else value) in if sint v > sint max_value then max_value else v)"

definition analog_output_write :: "'w file_ops \<Rightarrow> string \<Rightarrow> u32 \<Rightarrow> u32 \<Rightarrow> 'w \<Rightarrow> bool \<times> 'w" where
  "analog_output_write ops path max_value value w = fp_write_int ops path (analog_clamp max_value value) w"

section \<open>Reading back what was written\<close>

lemma digit_byte: "d < 10 \<Longrightarrow> chr_0 \<le> (of_nat (48 + d) :: byte) \<and> (of_nat (48 + d) :: byte) \<le> chr_9 \<and> unat (of_nat (48 + d) :: byte) = 48 + d"
proof -
  assume d: "d < 10"
  then have "unat (of_nat (48 + d) :: byte) = 48 + d" by (simp add: unat_of_nat take_bit_nat_eq_self del: of_nat_add)
  with d show ?thesis by (simp add: word_le_nat_alt del: of_nat_add)
qed

lemma digits_value_loop:
  "v < 10 ^ k \<Longrightarrow> digits_value acc (rev (digit_loop k v) @ rest)
     = digits_value (acc * 10 ^ length (digit_loop k v) + v) rest"
proof (induction k arbitrary: v rest)
  case (Suc k)
  show ?case
  proof (cases "v > 0")
    case True
    have "v div 10 < 10 ^ k" using Suc.prems by (simp add: less_mult_imp_div_less mult.commute)
    note IH = Suc.IH [OF this]
    note d = digit_byte [of "v mod 10", simplified]
    have v: "v div 10 * 10 + v mod 10 = v" by simp
    have "digits_value acc (rev (digit_loop (Suc k) v) @ rest)
        = digits_value acc (rev (digit_loop k (v div 10)) @ of_nat (48 + v mod 10) # rest)"
      using True by simp
    also have "\<dots> = digits_value ((acc * 10 ^ length (digit_loop k (v div 10)) + v div 10) * 10 + v mod 10) rest"
      using IH [of "of_nat (48 + v mod 10) # rest"] digit_byte [of "v mod 10"] by (simp del: of_nat_add)
    also have "(acc * 10 ^ length (digit_loop k (v div 10)) + v div 10) * 10 + v mod 10
        = acc * 10 ^ length (digit_loop (Suc k) v) + v"
      using True v by (simp add: algebra_simps)
    finally show ?thesis .
  qed simp
qed simp

lemma digit_loop_digits: "b \<in> set (digit_loop k v) \<Longrightarrow> chr_0 \<le> b \<and> b \<le> chr_9"
  by (induction k arbitrary: v) (use digit_byte in \<open>fastforce split: if_splits simp del: of_nat_add\<close>)+

lemma length_digit_loop: "v < 10 ^ m \<Longrightarrow> length (digit_loop k v) \<le> m"
proof (induction k arbitrary: v m)
  case (Suc k)
  show ?case
  proof (cases "v > 0")
    case True
    then obtain j where m: "m = Suc j" using Suc.prems by (cases m) auto
    with Suc.prems have "v div 10 < 10 ^ j" by (simp add: less_mult_imp_div_less mult.commute)
    with Suc.IH [OF this] True m show ?thesis by simp
  qed simp
qed simp

lemma sint_u32_range: "- (2 ^ 31) \<le> sint (v :: u32) \<and> sint v < 2 ^ 31"
  using sint_ge [of v] sint_lt [of v] by simp

lemma sint_neg_u32:
  assumes "sint (v :: u32) \<noteq> - (2 ^ 31)"
  shows "sint (- v) = - sint v"
proof -
  have "word_of_int (- sint v) = - v" by simp
  moreover have "signed_take_bit 31 (- sint v) = - sint v"
    using assms sint_u32_range [of v] by (intro signed_take_bit_int_eq_self) simp_all
  then have "sint (word_of_int (- sint v) :: u32) = - sint v"
    by (simp add: sint_sbintrunc' del: of_int_minus wi_hom_neg)
  ultimately show ?thesis by simp
qed

lemma digit_loop_head:
  assumes "v > 0" "v < 10 ^ k"
  shows "\<exists>b r. rev (digit_loop k v) = b # r \<and> chr_0 \<le> b \<and> b \<le> chr_9"
proof (cases k)
  case (Suc j)
  with assms have "digit_loop k v \<noteq> []" by simp
  then obtain b r where b: "rev (digit_loop k v) = b # r" by (cases "rev (digit_loop k v)") auto
  then have "b \<in> set (digit_loop k v)" by (metis list.set_intros(1) set_rev)
  with b digit_loop_digits show ?thesis by blast
qed (use assms in simp)

lemma digit_not_special: "chr_0 \<le> b \<Longrightarrow> \<not> is_space b \<and> b \<noteq> chr_minus \<and> b \<noteq> chr_plus" for b :: byte
  by (auto simp: is_space_def word_le_nat_alt)

lemma long_bounds: "- (2 ^ 31) \<le> v \<Longrightarrow> v < 2 ^ 31 \<Longrightarrow> max (- (2 ^ 63)) (min (2 ^ 63 - 1) v) = (v :: int)"
  by simp

lemma minus_not_space: "\<not> is_space chr_minus"
  by (simp add: is_space_def)

text \<open>The text of a number, followed by anything, is read as that number, whatever was left behind it.\<close>

lemma strtol_int_text:
  assumes "sint value \<noteq> - (2 ^ 31)"
  shows "strtol (int_text value @ rest) = sint value"
proof -
  define m where "m = nat \<bar>sint value\<bar>"
  note r = sint_u32_range [of "value"]
  have m: "m < 10 ^ 16" "int m = \<bar>sint value\<bar>" "int m < 2 ^ 31" using r assms by (auto simp: m_def)
  have val: "digits_value 0 (rev (digit_loop 16 m) @ chr_lf # rest) = m"
    using digits_value_loop [OF m(1), of 0 "chr_lf # rest"] by simp
  consider "value = 0" | "sint value < 0" | "sint value > 0" by (metis linorder_neqE sint_0 signed_eq_0_iff)
  then show ?thesis
  proof cases
    case 1
    then show ?thesis by (simp add: int_text_def strtol_def is_space_def Let_def)
  next
    case 2
    then have "int_text value @ rest = chr_minus # (rev (digit_loop 16 m) @ chr_lf # rest)"
      using sint_neg_u32 [OF assms] m(2) by (auto simp: int_text_def Let_def m_def)
    then have "strtol (int_text value @ rest) = max (- (2 ^ 63)) (min (2 ^ 63 - 1) (- int m))"
      using minus_not_space val by (simp add: strtol_def Let_def)
    with long_bounds [of "- int m"] m(2,3) 2 show ?thesis by simp
  next
    case 3
    then have m0: "m > 0" by (simp add: m_def)
    have "value \<noteq> 0" using 3 by auto
    then have t: "int_text value @ rest = rev (digit_loop 16 m) @ chr_lf # rest"
      using 3 by (simp add: int_text_def Let_def m_def)
    obtain b q where b: "rev (digit_loop 16 m) = b # q" "chr_0 \<le> b" "b \<le> chr_9"
      using digit_loop_head [OF m0 m(1)] by blast
    then have "strtol (int_text value @ rest) = max (- (2 ^ 63)) (min (2 ^ 63 - 1) (int (digits_value 0 (b # q @ chr_lf # rest))))"
      using t digit_not_special [OF b(2)] by (simp add: strtol_def Let_def)
    also have "digits_value 0 (b # q @ chr_lf # rest) = m" using val b(1) by simp
    finally show ?thesis using long_bounds [of "int m"] m(2,3) 3 by simp
  qed
qed

lemma length_int_text: "length (int_text value) \<le> 13"
proof -
  have len: "length (digit_loop 16 (nat (sint v))) \<le> 11" for v :: u32
    using sint_u32_range [of v] by (intro length_digit_loop) (simp add: nat_less_iff, linarith)
  show ?thesis using len [of "value"] len [of "- value"] by (simp add: int_text_def Let_def)
qed

text \<open>
  A file as the pins use it: opening succeeds, a write at the beginning replaces that many bytes and
  keeps the rest (the file is not truncated), a read returns what is there.
\<close>

definition file_at :: "'w file_ops \<Rightarrow> string \<Rightarrow> ('w \<Rightarrow> byte list) \<Rightarrow> bool" where
  "file_at ops path content \<longleftrightarrow>
     (\<forall>w. fst (fo_open_read ops path w) \<ge> 0 \<and> content (snd (fo_open_read ops path w)) = content w)
     \<and> (\<forall>w. fst (fo_open_write ops path w) \<ge> 0 \<and> content (snd (fo_open_write ops path w)) = content w)
     \<and> (\<forall>fd n w. fst (fo_read ops fd n w) = int (length (take n (content w)))
         \<and> fst (snd (fo_read ops fd n w)) = take n (content w) \<and> content (snd (snd (fo_read ops fd n w))) = content w)
     \<and> (\<forall>fd bytes w. fst (fo_write ops fd bytes w) = int (length bytes)
         \<and> content (snd (fo_write ops fd bytes w)) = bytes @ drop (length bytes) (content w))
     \<and> (\<forall>fd w. content (fo_close ops fd w) = content w)"

lemma fp_write_int_file:
  assumes "file_at ops path content" "path \<noteq> []"
  shows "\<exists>w'. fp_write_int ops path value w = (True, w')
    \<and> content w' = int_text value @ drop (length (int_text value)) (content w)"
proof -
  obtain fd w1 where o1: "fo_open_write ops path w = (fd, w1)" by fastforce
  obtain n w2 where o2: "fo_write ops fd (int_text value) w1 = (n, w2)" by fastforce
  have "fd \<ge> 0" "content w1 = content w" using assms(1) o1 unfolding file_at_def by (metis fst_conv snd_conv)+
  moreover have "n = int (length (int_text value))"
    "content w2 = int_text value @ drop (length (int_text value)) (content w1)"
    using assms(1) o2 unfolding file_at_def by (metis fst_conv snd_conv)+
  moreover have "content (fo_close ops fd w2) = content w2" using assms(1) unfolding file_at_def by blast
  ultimately show ?thesis using o1 o2 assms(2) by (simp add: fp_write_int_def fp_valid_def Let_def)
qed

lemma fp_read_int_file:
  assumes "file_at ops path content" "path \<noteq> []" "content w = int_text value @ rest" "sint value \<noteq> - (2 ^ 31)"
  shows "\<exists>w'. fp_read_int ops path fallback w = (value, w')"
proof -
  obtain fd w1 where o1: "fo_open_read ops path w = (fd, w1)" by fastforce
  obtain n bytes w2 where o2: "fo_read ops fd 31 w1 = (n, bytes, w2)" by (metis prod_cases3)
  have fd: "fd \<ge> 0" "content w1 = content w" using assms(1) o1 unfolding file_at_def by (metis fst_conv snd_conv)+
  have n: "n = int (length (take 31 (content w1)))" "bytes = take 31 (content w1)"
    using assms(1) o2 unfolding file_at_def by (metis fst_conv snd_conv)+
  have c: "take 31 (content w1) = int_text value @ take (31 - length (int_text value)) rest"
    using length_int_text [of "value"] fd(2) assms(3) by simp
  then have "strtol bytes = sint value" using strtol_int_text [OF assms(4)] n(2) by simp
  moreover have "\<not> n \<le> 0" using n(1) c by (simp add: int_text_def Let_def)
  ultimately show ?thesis
    using o1 o2 fd(1) assms(2) by (simp add: fp_read_int_def fp_valid_def Let_def)
qed

lemma clamp_range:
  assumes "sint max_value \<noteq> - (2 ^ 31)"
  shows "sint (analog_clamp max_value value) \<noteq> - (2 ^ 31)"
  using assms sint_u32_range [of "value"] by (simp add: analog_clamp_def Let_def)

text \<open>
  What is written to a file pin is read back: a digital output followed by a digital input of the same
  file gives the level that was written, and an analog output followed by an analog input gives the
  value, limited to the range from 0 to the maximum, whatever the file held before and although it is
  not truncated (the only exception is a maximum of \<open>-2 ^ 31\<close>, whose negation overflows).
\<close>

theorem file_pin_round_trip:
  assumes "file_at ops path content" "path \<noteq> []" "sint max_value \<noteq> - (2 ^ 31)"
  shows "\<exists>w1 w2 w3 w4. digital_output_write ops path high w = (True, w1) \<and> digital_input_read ops path w1 = (high, w2)
    \<and> analog_output_write ops path max_value value w = (True, w3)
    \<and> analog_input_read ops path w3 = (analog_clamp max_value value, w4)"
proof -
  let ?b = "if high then 1 else 0 :: u32" and ?v = "analog_clamp max_value value"
  obtain w1 where w1: "fp_write_int ops path ?b w = (True, w1)"
    "content w1 = int_text ?b @ drop (length (int_text ?b)) (content w)"
    using fp_write_int_file [OF assms(1,2), of ?b w] by metis
  obtain w2 where w2: "fp_read_int ops path 0 w1 = (?b, w2)"
    using fp_read_int_file [OF assms(1,2) w1(2), of 0] by (cases high) auto
  obtain w3 where w3: "fp_write_int ops path ?v w = (True, w3)"
    "content w3 = int_text ?v @ drop (length (int_text ?v)) (content w)"
    using fp_write_int_file [OF assms(1,2), of ?v w] by metis
  obtain w4 where w4: "fp_read_int ops path 0 w3 = (?v, w4)"
    using fp_read_int_file [OF assms(1,2) w3(2) clamp_range [OF assms(3)]] by auto
  from w1(1) w2 w3(1) w4 show ?thesis
    by (auto simp: digital_output_write_def digital_input_read_def analog_output_write_def analog_input_read_def)
qed

definition demo_file :: "byte list file_ops" where
  "demo_file = \<lparr>fo_open_read = (\<lambda>path w. (3, w)), fo_open_write = (\<lambda>path w. (3, w)),
     fo_read = (\<lambda>fd n w. (int (length (take n w)), take n w, w)),
     fo_write = (\<lambda>fd bytes w. (int (length bytes), bytes @ drop (length bytes) w)), fo_close = (\<lambda>fd w. w)\<rparr>"

lemma file_pin_round_trip_witness:
  "\<exists>w3 w4. analog_output_write demo_file ''pwm'' 255 300 (bytes_of ''123456789'') = (True, w3)
    \<and> analog_input_read demo_file ''pwm'' w3 = (255, w4)"
proof -
  have "file_at demo_file ''pwm'' (\<lambda>w. w)" by (simp add: file_at_def demo_file_def)
  from file_pin_round_trip [OF this, of 255 True "bytes_of ''123456789''" 300] show ?thesis
    by (simp add: analog_clamp_def) blast
qed

end
