(* ===== verification/Fd_Streams.thy ===== *)
theory Fd_Streams
  imports Tcp Line_Reader
begin

text \<open>
  The streams of the Linux backend that wrap a file descriptor:
  \<^verbatim>\<open>src/async_event_loop_linux/linux_fd_stream.hpp\<close>, \<^verbatim>\<open>linux_fifo_byte_stream.hpp\<close>,
  \<^verbatim>\<open>linux_serial_stream.hpp\<close> and \<^verbatim>\<open>linux_udp_datagram_stream.hpp\<close>. The system calls are a record of operations
  on the outside state \<open>'w\<close>.
\<close>

text \<open>A socket address is a pair of an IPv4 address and a port, in host byte order.\<close>

record termios =
  c_cflag :: u32
  c_vmin :: byte
  c_vtime :: byte
  c_ispeed :: u32
  c_ospeed :: u32

record 'w fd_ops =
  sys_read :: "int \<Rightarrow> nat \<Rightarrow> 'w \<Rightarrow> int \<times> byte list \<times> 'w"
  sys_write :: "int \<Rightarrow> byte list \<Rightarrow> 'w \<Rightarrow> int \<times> 'w"
  sys_errno :: "'w \<Rightarrow> int"
  sys_close :: "int \<Rightarrow> 'w \<Rightarrow> 'w"
  sys_getfl :: "int \<Rightarrow> 'w \<Rightarrow> int \<times> 'w"
  sys_setfl_nonblock :: "int \<Rightarrow> int \<Rightarrow> 'w \<Rightarrow> 'w"
  sys_mkfifo :: "string \<Rightarrow> u32 \<Rightarrow> 'w \<Rightarrow> int \<times> 'w"
  sys_open_fifo :: "string \<Rightarrow> bool \<Rightarrow> 'w \<Rightarrow> int \<times> 'w"
  sys_open_tty :: "string \<Rightarrow> 'w \<Rightarrow> int \<times> 'w"
  sys_tcgetattr :: "int \<Rightarrow> 'w \<Rightarrow> termios option"
  sys_cfmakeraw :: "termios \<Rightarrow> termios"
  sys_cfsetispeed :: "u32 \<Rightarrow> termios \<Rightarrow> termios option"
  sys_cfsetospeed :: "u32 \<Rightarrow> termios \<Rightarrow> termios option"
  sys_tcsetattr :: "int \<Rightarrow> termios \<Rightarrow> 'w \<Rightarrow> int \<times> 'w"
  sys_udp_socket :: "'w \<Rightarrow> int \<times> 'w"
  sys_set_reuse :: "int \<Rightarrow> 'w \<Rightarrow> 'w"
  sys_set_broadcast :: "int \<Rightarrow> 'w \<Rightarrow> 'w"
  sys_bind :: "int \<Rightarrow> u16 \<Rightarrow> 'w \<Rightarrow> int \<times> 'w"
  sys_sendto :: "int \<Rightarrow> byte list \<Rightarrow> u32 \<times> u16 \<Rightarrow> 'w \<Rightarrow> int \<times> 'w"
  sys_recvfrom :: "int \<Rightarrow> nat \<Rightarrow> 'w \<Rightarrow> int \<times> byte list \<times> (u32 \<times> u16) \<times> 'w"
  sys_pton :: "string \<Rightarrow> u32 option"
  sys_ntop :: "u32 \<Rightarrow> string"

text \<open>\<open>EAGAIN\<close>, \<open>EWOULDBLOCK\<close> and \<open>EINTR\<close>\<close>

definition try_again :: "int \<Rightarrow> bool" where
  "try_again e \<longleftrightarrow> e = 11 \<or> e = 11 \<or> e = 4"

text \<open>What \<open>read\<close> and \<open>write\<close> of every one of these classes make of the system call's result.\<close>

definition fd_result :: "'w fd_ops \<Rightarrow> int \<Rightarrow> 'w \<Rightarrow> int" where
  "fd_result ops n w = (if n < 0 then if try_again (sys_errno ops w) then 0 else - 1 else n)"

section \<open>\<open>LinuxFdStream\<close>\<close>

text \<open>The state of the stream is its descriptor.\<close>

definition fs_set_nonblocking :: "'w fd_ops \<Rightarrow> int \<Rightarrow> 'w \<Rightarrow> 'w" where
  "fs_set_nonblocking ops fd w =
     (if fd < 0 then w
      else (case sys_getfl ops fd w of (flags, w1) \<Rightarrow> if flags \<ge> 0 then sys_setfl_nonblock ops fd flags w1 else w1))"

definition fs_create :: "'w fd_ops \<Rightarrow> int \<Rightarrow> 'w \<Rightarrow> int \<times> 'w" where
  "fs_create ops fd w = (fd, fs_set_nonblocking ops fd w)"

definition fs_reset :: "'w fd_ops \<Rightarrow> int \<Rightarrow> int \<times> 'w \<Rightarrow> int \<times> 'w" where
  "fs_reset ops fd s = (fd, fs_set_nonblocking ops fd (snd s))"

definition fs_read :: "'w fd_ops \<Rightarrow> bool \<Rightarrow> nat \<Rightarrow> int \<Rightarrow> 'w \<Rightarrow> int \<times> byte list \<times> 'w" where
  "fs_read ops dst_null max_len fd w =
     (if fd < 0 \<or> dst_null \<or> max_len = 0 then (0, [], w)
      else (case sys_read ops fd max_len w of (n, bytes, w1) \<Rightarrow> (fd_result ops n w1, bytes, w1)))"

definition fs_write :: "'w fd_ops \<Rightarrow> byte list option \<Rightarrow> int \<Rightarrow> 'w \<Rightarrow> int \<times> 'w" where
  "fs_write ops src fd w =
     (case src of
        None \<Rightarrow> (0, w)
      | Some bytes \<Rightarrow>
          if fd < 0 \<or> bytes = [] then (0, w)
          else (case sys_write ops fd bytes w of (n, w1) \<Rightarrow> (fd_result ops n w1, w1)))"

definition fs_valid :: "int \<Rightarrow> bool" where
  "fs_valid fd \<longleftrightarrow> fd \<ge> 0"

section \<open>\<open>LinuxFifoByteStream\<close>\<close>

record fifo_options =
  fo_create_if_missing :: bool
  fo_create_mode :: u32
  fo_keep_fd_stable :: bool

definition fifo_default :: fifo_options where
  "fifo_default = \<lparr>fo_create_if_missing = True, fo_create_mode = 0x1b0, fo_keep_fd_stable = True\<rparr>"

record fifo_stats =
  fi_open_attempts :: u32
  fi_open_failures :: u32
  fi_eof_count :: u32
  fi_last_errno :: int

record fifo_stream =
  ff_path :: string
  ff_options :: fifo_options
  ff_fd :: int
  ff_stats :: fifo_stats

definition eexist :: int where
  "eexist = 17"

definition fifo_fail :: "'w fd_ops \<Rightarrow> 'w \<Rightarrow> fifo_stream \<Rightarrow> fifo_stream" where
  "fifo_fail ops w f =
     f\<lparr>ff_stats := (ff_stats f)\<lparr>fi_last_errno := sys_errno ops w, fi_open_failures := fi_open_failures (ff_stats f) + 1\<rparr>\<rparr>"

definition fifo_open :: "'w fd_ops \<Rightarrow> fifo_stream \<times> 'w \<Rightarrow> fifo_stream \<times> 'w" where
  "fifo_open ops fw =
     (case fw of (f0, w) \<Rightarrow>
        let f = f0\<lparr>ff_stats := (ff_stats f0)\<lparr>fi_open_attempts := fi_open_attempts (ff_stats f0) + 1\<rparr>\<rparr>;
            (rc, w1) = (if fo_create_if_missing (ff_options f)
                        then sys_mkfifo ops (ff_path f) (fo_create_mode (ff_options f)) w else (0, w))
        in if rc \<noteq> 0 \<and> sys_errno ops w1 \<noteq> eexist then (fifo_fail ops w1 f, w1)
           else (case sys_open_fifo ops (ff_path f) (fo_keep_fd_stable (ff_options f)) w1 of (fd, w2) \<Rightarrow>
                   if fd < 0 then (fifo_fail ops w2 (f\<lparr>ff_fd := fd\<rparr>), w2) else (f\<lparr>ff_fd := fd\<rparr>, w2)))"

definition fifo_create :: "'w fd_ops \<Rightarrow> string \<Rightarrow> fifo_options \<Rightarrow> 'w \<Rightarrow> fifo_stream \<times> 'w" where
  "fifo_create ops path opts w =
     fifo_open ops (\<lparr>ff_path = path, ff_options = opts, ff_fd = - 1,
       ff_stats = \<lparr>fi_open_attempts = 0, fi_open_failures = 0, fi_eof_count = 0, fi_last_errno = 0\<rparr>\<rparr>, w)"

definition fifo_destroy :: "'w fd_ops \<Rightarrow> fifo_stream \<times> 'w \<Rightarrow> 'w" where
  "fifo_destroy ops fw = (case fw of (f, w) \<Rightarrow> if ff_fd f \<ge> 0 then sys_close ops (ff_fd f) w else w)"

text \<open>An error that is not worth another try is recorded.\<close>

definition fifo_note_error :: "'w fd_ops \<Rightarrow> int \<Rightarrow> 'w \<Rightarrow> fifo_stream \<Rightarrow> fifo_stream" where
  "fifo_note_error ops n w f =
     (if n < 0 \<and> \<not> try_again (sys_errno ops w) then f\<lparr>ff_stats := (ff_stats f)\<lparr>fi_last_errno := sys_errno ops w\<rparr>\<rparr> else f)"

definition fifo_read ::
  "'w fd_ops \<Rightarrow> bool \<Rightarrow> nat \<Rightarrow> fifo_stream \<times> 'w \<Rightarrow> int \<times> byte list \<times> fifo_stream \<times> 'w" where
  "fifo_read ops dst_null max_len fw =
     (case fw of (f, w) \<Rightarrow>
        if ff_fd f < 0 \<or> dst_null \<or> max_len = 0 then (0, [], f, w)
        else (case sys_read ops (ff_fd f) max_len w of (n, bytes, w1) \<Rightarrow>
          if n = 0 then (0, bytes, f\<lparr>ff_stats := (ff_stats f)\<lparr>fi_eof_count := fi_eof_count (ff_stats f) + 1\<rparr>\<rparr>, w1)
          else (fd_result ops n w1, bytes, fifo_note_error ops n w1 f, w1)))"

definition fifo_write :: "'w fd_ops \<Rightarrow> byte list option \<Rightarrow> fifo_stream \<times> 'w \<Rightarrow> int \<times> fifo_stream \<times> 'w" where
  "fifo_write ops src fw =
     (case (src, fw) of
        (None, (f, w)) \<Rightarrow> (0, f, w)
      | (Some bytes, (f, w)) \<Rightarrow>
          if ff_fd f < 0 \<or> bytes = [] then (0, f, w)
          else (case sys_write ops (ff_fd f) bytes w of (n, w1) \<Rightarrow> (fd_result ops n w1, fifo_note_error ops n w1 f, w1)))"

section \<open>\<open>LinuxSerialStream\<close>\<close>

text \<open>The constants \<open>B1200\<close> to \<open>B921600\<close> of the Linux headers, which define all of them.\<close>

definition baud_to_speed :: "u64 \<Rightarrow> u32" where
  "baud_to_speed baud =
     (if baud = 1200 then 0x9 else if baud = 2400 then 0xb else if baud = 4800 then 0xc else if baud = 9600 then 0xd
      else if baud = 19200 then 0xe else if baud = 38400 then 0xf else if baud = 57600 then 0x1001
      else if baud = 115200 then 0x1002 else if baud = 230400 then 0x1003 else if baud = 460800 then 0x1004
      else if baud = 921600 then 0x1007 else 0)"

unbundle bit_operations_syntax

text \<open>The flags \<open>CLOCAL | CREAD\<close>, \<open>CSIZE\<close>, \<open>CS8\<close>, \<open>PARENB\<close>, \<open>CSTOPB\<close> and \<open>CRTSCTS\<close>.\<close>

definition serial_cflag :: "u32 \<Rightarrow> u32" where
  "serial_cflag f =
     (((((((f OR 0x880) AND NOT 0x30) OR 0x30) AND NOT 0x100) AND NOT 0x40) AND NOT 0x80000000))"

definition serial_configure :: "'w fd_ops \<Rightarrow> u32 \<Rightarrow> int \<Rightarrow> 'w \<Rightarrow> bool \<times> 'w" where
  "serial_configure ops speed fd w =
     (case sys_tcgetattr ops fd w of
        None \<Rightarrow> (False, w)
      | Some tio0 \<Rightarrow>
          let tio1 = sys_cfmakeraw ops tio0;
              tio2 = tio1\<lparr>c_cflag := serial_cflag (c_cflag tio1), c_vmin := 0, c_vtime := 0\<rparr>
          in case sys_cfsetispeed ops speed tio2 of
               None \<Rightarrow> (False, w)
             | Some tio3 \<Rightarrow>
                 (case sys_cfsetospeed ops speed tio3 of
                    None \<Rightarrow> (False, w)
                  | Some tio4 \<Rightarrow> (case sys_tcsetattr ops fd tio4 w of (rc, w1) \<Rightarrow> (rc = 0, w1))))"

definition serial_close :: "'w fd_ops \<Rightarrow> int \<times> 'w \<Rightarrow> int \<times> 'w" where
  "serial_close ops s = (case s of (fd, w) \<Rightarrow> if fd \<ge> 0 then (- 1, sys_close ops fd w) else (fd, w))"

definition serial_open :: "'w fd_ops \<Rightarrow> string option \<Rightarrow> u64 \<Rightarrow> int \<times> 'w \<Rightarrow> bool \<times> int \<times> 'w" where
  "serial_open ops path baud s =
     (case serial_close ops s of (fd0, w) \<Rightarrow>
        case path of
          None \<Rightarrow> (False, fd0, w)
        | Some p \<Rightarrow>
            if p = [] \<or> baud_to_speed baud = 0 then (False, fd0, w)
            else (case sys_open_tty ops p w of (fd, w1) \<Rightarrow>
              if fd < 0 then (False, fd, w1)
              else (case serial_configure ops (baud_to_speed baud) fd w1 of (ok, w2) \<Rightarrow>
                      if \<not> ok then (False, serial_close ops (fd, w2)) else (True, fd, w2))))"

definition serial_read :: "'w fd_ops \<Rightarrow> bool \<Rightarrow> nat \<Rightarrow> int \<Rightarrow> 'w \<Rightarrow> int \<times> byte list \<times> 'w" where
  "serial_read ops dst_null max_len fd w =
     (if fd < 0 \<or> dst_null \<or> max_len = 0 then (0, [], w)
      else (case sys_read ops fd max_len w of (n, bytes, w1) \<Rightarrow> (fd_result ops n w1, bytes, w1)))"

definition serial_write :: "'w fd_ops \<Rightarrow> byte list option \<Rightarrow> int \<Rightarrow> 'w \<Rightarrow> int \<times> 'w" where
  "serial_write ops src fd w =
     (case src of
        None \<Rightarrow> (0, w)
      | Some bytes \<Rightarrow>
          if fd < 0 \<or> bytes = [] then (0, w)
          else (case sys_write ops fd bytes w of (n, w1) \<Rightarrow> (fd_result ops n w1, w1)))"

section \<open>\<open>LinuxUdpDatagramStream\<close>\<close>

record udp_stream =
  ud_fd :: int
  ud_remote :: "u32 \<times> u16"
  ud_has_remote :: bool

definition udp_init :: udp_stream where
  "udp_init = \<lparr>ud_fd = - 1, ud_remote = (0, 0), ud_has_remote = False\<rparr>"

definition udp_close :: "'w fd_ops \<Rightarrow> udp_stream \<times> 'w \<Rightarrow> udp_stream \<times> 'w" where
  "udp_close ops uw =
     (case uw of (u, w) \<Rightarrow>
        if ud_fd u \<ge> 0 then (u\<lparr>ud_fd := - 1, ud_has_remote := False\<rparr>, sys_close ops (ud_fd u) w)
        else (u\<lparr>ud_has_remote := False\<rparr>, w))"

definition udp_bind :: "'w fd_ops \<Rightarrow> u16 \<Rightarrow> bool \<Rightarrow> udp_stream \<times> 'w \<Rightarrow> bool \<times> udp_stream \<times> 'w" where
  "udp_bind ops local_port reuse uw =
     (case udp_close ops uw of (u, w) \<Rightarrow>
        case sys_udp_socket ops w of (fd, w1) \<Rightarrow>
          let u1 = u\<lparr>ud_fd := fd\<rparr>
          in if fd < 0 then (False, u1, w1)
             else let w2 = (if reuse then sys_set_reuse ops fd w1 else w1);
                      w3 = sys_set_broadcast ops fd w2
                  in case sys_bind ops fd local_port w3 of (rc, w4) \<Rightarrow>
                       if rc \<noteq> 0 then (False, udp_close ops (u1, w4)) else (True, u1, fs_set_nonblocking ops fd w4))"

definition udp_set_remote :: "'w fd_ops \<Rightarrow> string option \<Rightarrow> u16 \<Rightarrow> udp_stream \<Rightarrow> bool \<times> udp_stream" where
  "udp_set_remote ops host port u =
     (case host of
        None \<Rightarrow> (False, u)
      | Some h \<Rightarrow>
          if port = 0 then (False, u)
          else (case sys_pton ops h of
                  None \<Rightarrow> (False, u)
                | Some ip \<Rightarrow> (True, u\<lparr>ud_remote := (ip, port), ud_has_remote := True\<rparr>)))"

definition udp_send_to_sockaddr :: "'w fd_ops \<Rightarrow> byte list option \<Rightarrow> u32 \<times> u16 \<Rightarrow> udp_stream \<Rightarrow> 'w \<Rightarrow> int \<times> 'w" where
  "udp_send_to_sockaddr ops src addr u w =
     (case src of
        None \<Rightarrow> (0, w)
      | Some bytes \<Rightarrow>
          if ud_fd u < 0 \<or> bytes = [] then (0, w)
          else (case sys_sendto ops (ud_fd u) bytes addr w of (n, w1) \<Rightarrow> (fd_result ops n w1, w1)))"

definition udp_write :: "'w fd_ops \<Rightarrow> byte list option \<Rightarrow> udp_stream \<Rightarrow> 'w \<Rightarrow> int \<times> 'w" where
  "udp_write ops src u w = (if \<not> ud_has_remote u then (0, w) else udp_send_to_sockaddr ops src (ud_remote u) u w)"

definition udp_send_to :: "'w fd_ops \<Rightarrow> byte list option \<Rightarrow> tcp_peer_info \<Rightarrow> udp_stream \<Rightarrow> 'w \<Rightarrow> int \<times> 'w" where
  "udp_send_to ops src endpoint u w =
     (case sys_pton ops (peer_host endpoint) of
        None \<Rightarrow> (- 1, w)
      | Some ip \<Rightarrow> udp_send_to_sockaddr ops src (ip, peer_port endpoint) u w)"

text \<open>The sender is returned when it was asked for and a datagram was received.\<close>

definition udp_recv_from ::
  "'w fd_ops \<Rightarrow> bool \<Rightarrow> nat \<Rightarrow> bool \<Rightarrow> udp_stream \<Rightarrow> 'w \<Rightarrow> int \<times> byte list \<times> tcp_peer_info option \<times> 'w" where
  "udp_recv_from ops dst_null max_len source u w =
     (if ud_fd u < 0 \<or> dst_null \<or> max_len = 0 then (0, [], None, w)
      else (case sys_recvfrom ops (ud_fd u) max_len w of (n, bytes, (ip, port), w1) \<Rightarrow>
        if n < 0 then (fd_result ops n w1, bytes, None, w1)
        else (n, bytes, if source then Some \<lparr>peer_host = sys_ntop ops ip, peer_port = port\<rparr> else None, w1)))"

definition udp_read :: "'w fd_ops \<Rightarrow> bool \<Rightarrow> nat \<Rightarrow> udp_stream \<Rightarrow> 'w \<Rightarrow> int \<times> byte list \<times> 'w" where
  "udp_read ops dst_null max_len u w =
     (case udp_recv_from ops dst_null max_len False u w of (n, bytes, _, w1) \<Rightarrow> (n, bytes, w1))"

definition udp_byte_stream :: "'w fd_ops \<Rightarrow> udp_stream \<Rightarrow> 'w byte_stream" where
  "udp_byte_stream ops u = \<lparr>bs_readable = (\<lambda>w. ud_fd u \<ge> 0), bs_read = (\<lambda>n. udp_read ops False n u)\<rparr>"

section \<open>Opening a serial line\<close>

text \<open>\<open>opn\<close> gives the descriptors that have been opened for the stream and not been closed.\<close>

definition tty_descriptors :: "'w fd_ops \<Rightarrow> ('w \<Rightarrow> int set) \<Rightarrow> bool" where
  "tty_descriptors ops opn \<longleftrightarrow>
     (\<forall>path w fd w'. sys_open_tty ops path w = (fd, w') \<longrightarrow>
        (if fd < 0 then opn w' = opn w else fd \<notin> opn w \<and> opn w' = insert fd (opn w)))
     \<and> (\<forall>fd w. opn (sys_close ops fd w) = opn w - {fd})
     \<and> (\<forall>fd tio w. opn (snd (sys_tcsetattr ops fd tio w)) = opn w)"

definition serial_holds :: "('w \<Rightarrow> int set) \<Rightarrow> int \<times> 'w \<Rightarrow> bool" where
  "serial_holds opn s \<longleftrightarrow> opn (snd s) = (if fst s \<ge> 0 then {fst s} else {})"

lemma serial_close_holds:
  assumes "tty_descriptors ops opn" "serial_holds opn s" "serial_close ops s = (fd, w)"
  shows "fd < 0 \<and> opn w = {}"
proof (cases "fst s \<ge> 0")
  case True
  have "opn (sys_close ops (fst s) (snd s)) = opn (snd s) - {fst s}" using assms(1) unfolding tty_descriptors_def by blast
  with True assms(2,3) show ?thesis by (cases s) (auto simp: serial_close_def serial_holds_def)
next
  case False
  with assms(2,3) show ?thesis by (cases s) (auto simp: serial_close_def serial_holds_def)
qed

lemma serial_configure_opn:
  assumes "tty_descriptors ops opn" "serial_configure ops speed fd w = (ok, w')"
  shows "opn w' = opn w"
proof -
  have "w' = w \<or> (\<exists>tio. w' = snd (sys_tcsetattr ops fd tio w))"
    using assms(2) by (simp add: serial_configure_def Let_def split: option.splits prod.splits) (metis snd_conv)
  with assms(1) show ?thesis unfolding tty_descriptors_def by metis
qed

text \<open>
  Opening a serial line never loses a descriptor: the stream holds exactly the descriptor it has
  opened, before and after; \<open>open\<close> reports success exactly if it then holds one, which has been
  configured for the speed; on failure it holds none, also if a line was open before; and a speed that
  is not among the supported ones always fails.
\<close>

theorem serial_open_no_leak:
  assumes "tty_descriptors ops opn" "serial_holds opn s" "serial_open ops path baud s = (ok, fd, w)"
  shows "serial_holds opn (fd, w) \<and> (ok \<longleftrightarrow> fs_valid fd) \<and> (baud_to_speed baud = 0 \<longrightarrow> \<not> ok)
    \<and> (ok \<longrightarrow> (\<exists>w1 p. path = Some p \<and> serial_configure ops (baud_to_speed baud) fd w1 = (True, w)))"
proof -
  obtain fd0 w0 where c: "serial_close ops s = (fd0, w0)" by fastforce
  note c0 = serial_close_holds [OF assms(1,2) c]
  show ?thesis
  proof (cases "path = None \<or> path = Some [] \<or> baud_to_speed baud = 0")
    case True
    have "serial_open ops path baud s = (False, fd0, w0)"
    proof (cases path)
      case None
      with c show ?thesis by (simp add: serial_open_def)
    next
      case (Some p)
      from True Some have "p = [] \<or> baud_to_speed baud = 0" by simp
      with Some c show ?thesis by (elim disjE) (simp_all add: serial_open_def)
    qed
    with assms(3) have "ok = False" "fd = fd0" "w = w0" by simp_all
    with c0 show ?thesis by (simp add: serial_holds_def fs_valid_def)
  next
    case False
    then obtain p where p: "path = Some p" "p \<noteq> []" "baud_to_speed baud \<noteq> 0" by auto
    obtain fd1 w1 where o1: "sys_open_tty ops p w0 = (fd1, w1)" by fastforce
    have op: "if fd1 < 0 then opn w1 = opn w0 else fd1 \<notin> opn w0 \<and> opn w1 = insert fd1 (opn w0)"
      using assms(1) [unfolded tty_descriptors_def, THEN conjunct1, rule_format, OF o1] .
    show ?thesis
    proof (cases "fd1 < 0")
      case True
      have "serial_open ops path baud s = (False, fd1, w1)" using True by (simp add: serial_open_def c p o1)
      with assms(3) have "ok = False" "fd = fd1" "w = w1" by simp_all
      with True op c0 show ?thesis by (simp add: serial_holds_def fs_valid_def)
    next
      case open1: False
      obtain cok w2 where cf: "serial_configure ops (baud_to_speed baud) fd1 w1 = (cok, w2)" by fastforce
      have w2: "opn w2 = {fd1}" using serial_configure_opn [OF assms(1) cf] op open1 c0 by simp
      show ?thesis
      proof (cases cok)
        case True
        have "serial_open ops path baud s = (True, fd1, w2)" using True open1 by (simp add: serial_open_def c p o1 cf)
        with assms(3) have "ok = True" "fd = fd1" "w = w2" by simp_all
        with True cf w2 open1 p show ?thesis by (auto simp: serial_holds_def fs_valid_def)
      next
        case False
        have "serial_open ops path baud s = (False, serial_close ops (fd1, w2))"
          using False open1 by (simp add: serial_open_def c p o1 cf)
        with assms(3) have r: "ok = False" "serial_close ops (fd1, w2) = (fd, w)" by simp_all
        have "serial_holds opn (fd1, w2)" using w2 open1 by (simp add: serial_holds_def)
        from serial_close_holds [OF assms(1) this r(2)] r(1) show ?thesis by (simp add: serial_holds_def fs_valid_def)
      qed
    qed
  qed
qed

section \<open>A protocol reader on a datagram socket\<close>

text \<open>
  The world holds the datagrams that have arrived, with their senders, and whatever the application
  has, \<open>'x\<close>: a receive takes a datagram off the queue and returns as much of it as fits.
\<close>

definition datagram_socket ::
  "(((u32 \<times> u16) \<times> byte list) list \<times> 'x) fd_ops \<Rightarrow> int \<Rightarrow> bool" where
  "datagram_socket ops fd \<longleftrightarrow> (\<forall>q x n.
     sys_recvfrom ops fd n (q, x) =
       (case q of [] \<Rightarrow> (- 1, [], (0, 0), ([], x)) | (src, d) # ds \<Rightarrow> (int (length (take n d)), take n d, src, (ds, x)))
     \<and> try_again (sys_errno ops ([], x)))"

lemma udp_read_one:
  assumes "datagram_socket ops (ud_fd u)" "ud_fd u \<ge> 0"
  shows "udp_read ops False 1 u ((src, b # d) # q, x) = (1, [b], (q, x))"
    "udp_read ops False 1 u ((src, []) # q, x) = (0, [], (q, x))"
    "udp_read ops False 1 u ([], x) = (0, [], ([], x))"
  using assms by (simp_all add: udp_read_def udp_recv_from_def datagram_socket_def fd_result_def)

text \<open>
  A line reader on a UDP stream sees only the first byte of every datagram. Its poll reads one byte at
  a time, and each read consumes a whole datagram: if no datagram is empty, the poll consumes them all
  and does to the reader and the application what the text of their first bytes would; an empty datagram
  ends the poll although more have arrived.
\<close>

theorem reader_sees_first_bytes_of_datagrams:
  assumes "datagram_socket ops (ud_fd u)" "ud_fd u \<ge> 0" "\<forall>d \<in> set ds. snd d \<noteq> []" "rest = [] \<or> snd (hd rest) = []"
    "feed (line_byte opts) (map (\<lambda>d. hd (snd d)) ds) r = (r', ls)"
  shows "line_poll (udp_byte_stream ops u) opts (\<lambda>v (q, x). (q, f v x)) (r, (ds @ rest, x))
    = Some (r', (tl rest, deliver f ls x))"
  using assms(3,5)
proof (induction ds arbitrary: r x ls)
  case Nil
  then have "udp_read ops False 1 u (rest, x) = (0, [], (tl rest, x))"
    using udp_read_one [OF assms(1,2)] assms(4) by (cases rest) auto
  with Nil assms(2) show ?case
    by (simp add: line_poll_def udp_byte_stream_def poll_loop.simps)
next
  case (Cons d ds)
  obtain src b bs where d: "d = (src, b # bs)" using Cons.prems(1) by (cases d; cases "snd d") auto
  obtain r1 ls1 where b: "line_byte opts b r = (r1, ls1)" by fastforce
  obtain ls2 where f2: "feed (line_byte opts) (map (\<lambda>d. hd (snd d)) ds) r1 = (r', ls2)" "ls = ls1 @ ls2"
    using Cons.prems(2) b d by (auto simp: Let_def split: prod.splits)
  have del: "deliver (\<lambda>v (q, x). (q, f v x)) vs (q, y) = (q, deliver f vs y)" for vs and q :: "((u32 \<times> u16) \<times> byte list) list" and y
    by (induction vs arbitrary: y) simp_all
  have "line_poll (udp_byte_stream ops u) opts (\<lambda>v (q, x). (q, f v x)) (r, ((d # ds) @ rest, x))
      = line_poll (udp_byte_stream ops u) opts (\<lambda>v (q, x). (q, f v x)) (r1, (ds @ rest, deliver f ls1 x))"
    using udp_read_one(1) [OF assms(1,2), of src b bs "ds @ rest" x] assms(2) b del
    by (simp add: line_poll_def udp_byte_stream_def poll_loop.simps [of _ _ "(r, _)"] reader_step_def d)
  also have "\<dots> = Some (r', (tl rest, deliver f ls2 (deliver f ls1 x)))"
    using Cons.IH [OF _ f2(1)] Cons.prems(1) by simp
  finally show ?case by (simp add: f2(2))
qed

section \<open>Examples\<close>

definition demo_fds :: "(((u32 \<times> u16) \<times> byte list) list \<times> byte list list) fd_ops" where
  "demo_fds = \<lparr>sys_read = (\<lambda>fd n w. (0, [], w)), sys_write = (\<lambda>fd bytes w. (0, w)), sys_errno = (\<lambda>w. 11),
     sys_close = (\<lambda>fd w. w), sys_getfl = (\<lambda>fd w. (0, w)), sys_setfl_nonblock = (\<lambda>fd flags w. w),
     sys_mkfifo = (\<lambda>path mode w. (0, w)), sys_open_fifo = (\<lambda>path rw w. (3, w)), sys_open_tty = (\<lambda>path w. (- 1, w)),
     sys_tcgetattr = (\<lambda>fd w. None), sys_cfmakeraw = (\<lambda>tio. tio), sys_cfsetispeed = (\<lambda>s tio. Some tio),
     sys_cfsetospeed = (\<lambda>s tio. Some tio), sys_tcsetattr = (\<lambda>fd tio w. (0, w)), sys_udp_socket = (\<lambda>w. (3, w)),
     sys_set_reuse = (\<lambda>fd w. w), sys_set_broadcast = (\<lambda>fd w. w), sys_bind = (\<lambda>fd port w. (0, w)),
     sys_sendto = (\<lambda>fd bytes addr w. (int (length bytes), w)),
     sys_recvfrom = (\<lambda>fd n (q, x). case q of [] \<Rightarrow> (- 1, [], (0, 0), ([], x))
       | (src, d) # ds \<Rightarrow> (int (length (take n d)), take n d, src, (ds, x))),
     sys_pton = (\<lambda>host. Some 0), sys_ntop = (\<lambda>ip. [])\<rparr>"

lemma demo_datagram_socket: "datagram_socket demo_fds fd"
  by (simp add: datagram_socket_def demo_fds_def try_again_def split: list.split)

text \<open>Two lines sent as two datagrams: nothing is delivered, the reader holds their first bytes.\<close>

lemma reader_sees_first_bytes_of_datagrams_witness:
  "\<exists>r'. line_poll (udp_byte_stream demo_fds (udp_init\<lparr>ud_fd := 3\<rparr>)) line_options_default (\<lambda>v (q, x). (q, x @ [v]))
      (line_init 16, ([((1, 2), [65, 66, 10]), ((1, 2), [67, 10])], [])) = Some (r', ([], []))
    \<and> line_pending r' = [65, 67]"
proof -
  obtain r' ls where f: "feed (line_byte line_options_default) [65, 67] (line_init 16) = (r', ls)" by fastforce
  have "line_pending (fst (feed (line_byte line_options_default) [65, 67] (line_init 16))) = [65, 67]
      \<and> snd (feed (line_byte line_options_default) [65, 67] (line_init 16)) = []" by code_simp
  with f have r': "line_pending r' = [65, 67]" "ls = []" by simp_all
  have "line_poll (udp_byte_stream demo_fds (udp_init\<lparr>ud_fd := 3\<rparr>)) line_options_default (\<lambda>v (q, x). (q, x @ [v]))
      (line_init 16, ([((1, 2), [65, 66, 10]), ((1, 2), [67, 10])] @ [], [])) = Some (r', (tl [], deliver (\<lambda>v x. x @ [v]) ls []))"
    by (rule reader_sees_first_bytes_of_datagrams [OF demo_datagram_socket]) (use f in \<open>simp_all add: o_def\<close>)
  with r' show ?thesis by simp
qed

definition demo_tty :: "(int set) fd_ops" where
  "demo_tty = \<lparr>sys_read = (\<lambda>fd n w. (0, [], w)), sys_write = (\<lambda>fd bytes w. (0, w)), sys_errno = (\<lambda>w. 0),
     sys_close = (\<lambda>fd w. w - {fd}), sys_getfl = (\<lambda>fd w. (0, w)), sys_setfl_nonblock = (\<lambda>fd flags w. w),
     sys_mkfifo = (\<lambda>path mode w. (0, w)), sys_open_fifo = (\<lambda>path rw w. (3, w)),
     sys_open_tty = (\<lambda>path w. if 4 \<in> w then (- 1, w) else (4, insert 4 w)),
     sys_tcgetattr = (\<lambda>fd w. Some \<lparr>c_cflag = 0, c_vmin = 1, c_vtime = 0, c_ispeed = 0, c_ospeed = 0\<rparr>),
     sys_cfmakeraw = (\<lambda>tio. tio), sys_cfsetispeed = (\<lambda>s tio. Some (tio\<lparr>c_ispeed := s\<rparr>)),
     sys_cfsetospeed = (\<lambda>s tio. Some (tio\<lparr>c_ospeed := s\<rparr>)), sys_tcsetattr = (\<lambda>fd tio w. (0, w)), sys_udp_socket = (\<lambda>w. (3, w)),
     sys_set_reuse = (\<lambda>fd w. w), sys_set_broadcast = (\<lambda>fd w. w), sys_bind = (\<lambda>fd port w. (0, w)),
     sys_sendto = (\<lambda>fd bytes addr w. (0, w)), sys_recvfrom = (\<lambda>fd n w. (0, [], (0, 0), w)),
     sys_pton = (\<lambda>host. Some 0), sys_ntop = (\<lambda>ip. [])\<rparr>"

lemma serial_open_no_leak_witness:
  "serial_holds (\<lambda>w. w) (snd (serial_open demo_tty (Some ''/dev/ttyUSB0'') 4800 (- 1, {})))
   \<and> fst (serial_open demo_tty (Some ''/dev/ttyUSB0'') 4800 (- 1, {}))"
proof -
  let ?r = "serial_open demo_tty (Some ''/dev/ttyUSB0'') 4800 (- 1, {})"
  have r: "?r = (True, 4, {4})"
    by (simp add: serial_open_def serial_close_def demo_tty_def baud_to_speed_def serial_configure_def Let_def)
  have "tty_descriptors demo_tty (\<lambda>w. w)" by (auto simp: tty_descriptors_def demo_tty_def)
  from serial_open_no_leak [OF this _ r] show ?thesis by (simp add: r serial_holds_def)
qed

end
