(* ===== verification/Gpiod.thy ===== *)
theory Gpiod
  imports Pin_Sources
begin

text \<open>
  Pins and pin event sources of the Linux backend over libgpiod:
  \<^verbatim>\<open>src/async_event_loop_linux/linux_gpiod_pin_io.hpp\<close> and \<^verbatim>\<open>linux_gpiod_pin_event_source.hpp\<close>, each for
  both versions of the library (a name that ends in 1 is the code for libgpiod 1.6, one that ends in
  2 that for version 2). The library is a record of operations on the outside state \<open>'w\<close>; chips,
  lines, requests and the like are named by numbers.
\<close>

text \<open>What a version 1 and a version 2 event tell.\<close>

record line_event =
  le_rising :: bool
  le_tv_sec :: u64
  le_tv_nsec :: u64

record edge_event =
  ee_rising :: bool
  ee_timestamp_ns :: u64
  ee_line_offset :: u32
  ee_global_seqno :: u64

datatype edge_mode = Rising_Edges | Falling_Edges | Both_Edges

text \<open>A read of events blocks while there is none: then it has no result.\<close>

record 'w gpiod_ops =
  gd_chip_open :: "string \<Rightarrow> 'w \<Rightarrow> nat option \<times> 'w"
  gd_chip_close :: "nat \<Rightarrow> 'w \<Rightarrow> 'w"
  g1_get_line :: "nat \<Rightarrow> u32 \<Rightarrow> 'w \<Rightarrow> nat option"
  g1_request_events :: "edge_mode \<Rightarrow> nat \<Rightarrow> string \<Rightarrow> 'w \<Rightarrow> int \<times> 'w"
  g1_request_input :: "nat \<Rightarrow> string \<Rightarrow> 'w \<Rightarrow> int \<times> 'w"
  g1_request_output :: "nat \<Rightarrow> string \<Rightarrow> int \<Rightarrow> 'w \<Rightarrow> int \<times> 'w"
  g1_release :: "nat \<Rightarrow> 'w \<Rightarrow> 'w"
  g1_get_value :: "nat \<Rightarrow> 'w \<Rightarrow> int"
  g1_set_value :: "nat \<Rightarrow> int \<Rightarrow> 'w \<Rightarrow> int \<times> 'w"
  g1_event_fd :: "nat \<Rightarrow> 'w \<Rightarrow> int"
  g1_event_read :: "nat \<Rightarrow> 'w \<Rightarrow> (int \<times> line_event \<times> 'w) option"
  g2_settings_new :: "'w \<Rightarrow> nat option \<times> 'w"
  g2_settings_free :: "nat \<Rightarrow> 'w \<Rightarrow> 'w"
  g2_line_config_new :: "'w \<Rightarrow> nat option \<times> 'w"
  g2_line_config_free :: "nat \<Rightarrow> 'w \<Rightarrow> 'w"
  g2_request_config_new :: "'w \<Rightarrow> nat option \<times> 'w"
  g2_request_config_free :: "nat \<Rightarrow> 'w \<Rightarrow> 'w"
  g2_set_direction :: "nat \<Rightarrow> bool \<Rightarrow> 'w \<Rightarrow> 'w"
  g2_set_edge_detection :: "nat \<Rightarrow> edge_mode \<Rightarrow> 'w \<Rightarrow> 'w"
  g2_set_debounce :: "nat \<Rightarrow> u64 \<Rightarrow> 'w \<Rightarrow> 'w"
  g2_set_output_value :: "nat \<Rightarrow> bool \<Rightarrow> 'w \<Rightarrow> 'w"
  g2_add_line_settings :: "nat \<Rightarrow> u32 \<Rightarrow> nat \<Rightarrow> 'w \<Rightarrow> int \<times> 'w"
  g2_set_consumer :: "nat \<Rightarrow> string \<Rightarrow> 'w \<Rightarrow> 'w"
  g2_request_lines :: "nat \<Rightarrow> nat \<Rightarrow> nat \<Rightarrow> 'w \<Rightarrow> nat option \<times> 'w"
  g2_release :: "nat \<Rightarrow> 'w \<Rightarrow> 'w"
  g2_get_value :: "nat \<Rightarrow> u32 \<Rightarrow> 'w \<Rightarrow> int"
  g2_set_value :: "nat \<Rightarrow> u32 \<Rightarrow> bool \<Rightarrow> 'w \<Rightarrow> int \<times> 'w"
  g2_get_fd :: "nat \<Rightarrow> 'w \<Rightarrow> int"
  g2_buffer_new :: "nat \<Rightarrow> 'w \<Rightarrow> nat option \<times> 'w"
  g2_buffer_free :: "nat \<Rightarrow> 'w \<Rightarrow> 'w"
  g2_read_edge_events :: "nat \<Rightarrow> nat \<Rightarrow> nat \<Rightarrow> 'w \<Rightarrow> (int \<times> 'w) option"
  g2_get_event :: "nat \<Rightarrow> nat \<Rightarrow> 'w \<Rightarrow> edge_event option"

text \<open>A destructor of a member that may be null.\<close>

definition free_opt :: "(nat \<Rightarrow> 'w \<Rightarrow> 'w) \<Rightarrow> nat option \<Rightarrow> 'w \<Rightarrow> 'w" where
  "free_opt f h w = (case h of None \<Rightarrow> w | Some i \<Rightarrow> f i w)"

lemma free_opt_simps [simp]: "free_opt f None w = w" "free_opt f (Some i) w = f i w"
  by (simp_all add: free_opt_def)

text \<open>A string argument, with the literal that stands for a null pointer.\<close>

definition consumer_or :: "string \<Rightarrow> string option \<Rightarrow> string" where
  "consumer_or def consumer = (case consumer of None \<Rightarrow> def | Some c \<Rightarrow> c)"

section \<open>Pins\<close>

text \<open>\<open>snprintf\<close> writes as much as fits with the terminating zero.\<close>

definition gpiod_chip_path :: "string option \<Rightarrow> nat \<Rightarrow> string option" where
  "gpiod_chip_path chip_name dst_size =
     (case chip_name of
        None \<Rightarrow> None
      | Some name \<Rightarrow>
          if name = [] \<or> dst_size = 0 then None
          else Some (take (dst_size - 1) (if hd name = CHR ''/'' then name else ''/dev/'' @ name)))"

text \<open>The cleanup at the end of \<open>request_one_gpiod_line_v2\<close>, and \<open>cleanup_setup\<close> of the event source.\<close>

definition gpiod_cleanup_setup :: "'w gpiod_ops \<Rightarrow> nat option \<Rightarrow> nat option \<Rightarrow> nat option \<Rightarrow> 'w \<Rightarrow> 'w" where
  "gpiod_cleanup_setup ops settings line_config request_config w =
     free_opt (g2_settings_free ops) settings
       (free_opt (g2_line_config_free ops) line_config
         (free_opt (g2_request_config_free ops) request_config w))"

definition request_one_gpiod_line_v2 ::
  "'w gpiod_ops \<Rightarrow> string option \<Rightarrow> u32 \<Rightarrow> bool \<Rightarrow> bool \<Rightarrow> string option \<Rightarrow> 'w \<Rightarrow> nat option \<times> 'w" where
  "request_one_gpiod_line_v2 ops chip_name offset output value consumer w =
     (case gpiod_chip_path chip_name 128 of
        None \<Rightarrow> (None, w)
      | Some path \<Rightarrow>
          (case gd_chip_open ops path w of
             (None, w1) \<Rightarrow> (None, w1)
           | (Some chip, w1) \<Rightarrow>
               let (settings, w2) = g2_settings_new ops w1;
                   (line_config, w3) = g2_line_config_new ops w2;
                   (request_config, w4) = g2_request_config_new ops w3;
                   (request, w5) = (case (settings, line_config, request_config) of
                       (Some s, Some l, Some r) \<Rightarrow>
                         let w5 = g2_set_direction ops s output w4;
                             w6 = (if output then g2_set_output_value ops s value w5 else w5);
                             (rc, w7) = g2_add_line_settings ops l offset s w6
                         in if rc \<noteq> 0 then (None, w7)
                            else g2_request_lines ops chip r l
                                   (g2_set_consumer ops r (consumer_or ''async_event_loop'' consumer) w7)
                     | _ \<Rightarrow> (None, w4))
               in (request, gd_chip_close ops chip (gpiod_cleanup_setup ops settings line_config request_config w5))))"

subsection \<open>Version 1\<close>

record gpiod_pin1 =
  gp1_line_offset :: u32
  gp1_chip :: "nat option"
  gp1_line :: "nat option"

definition gp1_close :: "'w gpiod_ops \<Rightarrow> gpiod_pin1 \<times> 'w \<Rightarrow> gpiod_pin1 \<times> 'w" where
  "gp1_close ops pw =
     (case pw of (p, w) \<Rightarrow>
        (p\<lparr>gp1_line := None, gp1_chip := None\<rparr>,
         free_opt (gd_chip_close ops) (gp1_chip p) (free_opt (g1_release ops) (gp1_line p) w)))"

text \<open>The constructors of the two pin classes differ in the request.\<close>

definition gp1_create ::
  "'w gpiod_ops \<Rightarrow> (nat \<Rightarrow> 'w \<Rightarrow> int \<times> 'w) \<Rightarrow> string option \<Rightarrow> u32 \<Rightarrow> 'w \<Rightarrow> gpiod_pin1 \<times> 'w" where
  "gp1_create ops request chip_name offset w =
     (let p = \<lparr>gp1_line_offset = offset, gp1_chip = None, gp1_line = None\<rparr>
      in case gpiod_chip_path chip_name 128 of
           None \<Rightarrow> (p, w)
         | Some path \<Rightarrow>
             (case gd_chip_open ops path w of
                (None, w1) \<Rightarrow> (p, w1)
              | (Some chip, w1) \<Rightarrow>
                  let p1 = p\<lparr>gp1_chip := Some chip\<rparr>
                  in case g1_get_line ops chip offset w1 of
                       None \<Rightarrow> gp1_close ops (p1, w1)
                     | Some line \<Rightarrow>
                         (case request line w1 of (rc, w2) \<Rightarrow>
                            let p2 = p1\<lparr>gp1_line := Some line\<rparr>
                            in if rc \<noteq> 0 then gp1_close ops (p2, w2) else (p2, w2))))"

definition gp1_input_create :: "'w gpiod_ops \<Rightarrow> string option \<Rightarrow> u32 \<Rightarrow> string option \<Rightarrow> 'w \<Rightarrow> gpiod_pin1 \<times> 'w" where
  "gp1_input_create ops chip_name offset consumer =
     gp1_create ops (\<lambda>line. g1_request_input ops line (consumer_or ''async_event_loop'' consumer)) chip_name offset"

definition gp1_output_create ::
  "'w gpiod_ops \<Rightarrow> string option \<Rightarrow> u32 \<Rightarrow> bool \<Rightarrow> string option \<Rightarrow> 'w \<Rightarrow> gpiod_pin1 \<times> 'w" where
  "gp1_output_create ops chip_name offset initial consumer =
     gp1_create ops (\<lambda>line. g1_request_output ops line (consumer_or ''async_event_loop'' consumer) (if initial then 1 else 0))
       chip_name offset"

definition gp1_valid :: "gpiod_pin1 \<Rightarrow> bool" where
  "gp1_valid p \<longleftrightarrow> gp1_chip p \<noteq> None \<and> gp1_line p \<noteq> None"

definition gp1_read :: "'w gpiod_ops \<Rightarrow> gpiod_pin1 \<Rightarrow> 'w \<Rightarrow> bool" where
  "gp1_read ops p w = (case gp1_line p of None \<Rightarrow> False | Some line \<Rightarrow> g1_get_value ops line w > 0)"

definition gp1_write :: "'w gpiod_ops \<Rightarrow> bool \<Rightarrow> gpiod_pin1 \<Rightarrow> 'w \<Rightarrow> bool \<times> 'w" where
  "gp1_write ops high p w =
     (case gp1_line p of
        None \<Rightarrow> (False, w)
      | Some line \<Rightarrow> (case g1_set_value ops line (if high then 1 else 0) w of (rc, w1) \<Rightarrow> (rc = 0, w1)))"

subsection \<open>Version 2\<close>

record gpiod_pin2 =
  gp2_line_offset :: u32
  gp2_request :: "nat option"

definition gp2_input_create :: "'w gpiod_ops \<Rightarrow> string option \<Rightarrow> u32 \<Rightarrow> string option \<Rightarrow> 'w \<Rightarrow> gpiod_pin2 \<times> 'w" where
  "gp2_input_create ops chip_name offset consumer w =
     (case request_one_gpiod_line_v2 ops chip_name offset False False consumer w of
        (request, w1) \<Rightarrow> (\<lparr>gp2_line_offset = offset, gp2_request = request\<rparr>, w1))"

definition gp2_output_create ::
  "'w gpiod_ops \<Rightarrow> string option \<Rightarrow> u32 \<Rightarrow> bool \<Rightarrow> string option \<Rightarrow> 'w \<Rightarrow> gpiod_pin2 \<times> 'w" where
  "gp2_output_create ops chip_name offset initial consumer w =
     (case request_one_gpiod_line_v2 ops chip_name offset True initial consumer w of
        (request, w1) \<Rightarrow> (\<lparr>gp2_line_offset = offset, gp2_request = request\<rparr>, w1))"

definition gp2_close :: "'w gpiod_ops \<Rightarrow> gpiod_pin2 \<times> 'w \<Rightarrow> gpiod_pin2 \<times> 'w" where
  "gp2_close ops pw = (case pw of (p, w) \<Rightarrow> (p\<lparr>gp2_request := None\<rparr>, free_opt (g2_release ops) (gp2_request p) w))"

definition gp2_valid :: "gpiod_pin2 \<Rightarrow> bool" where
  "gp2_valid p \<longleftrightarrow> gp2_request p \<noteq> None"

text \<open>\<open>GPIOD_LINE_VALUE_ACTIVE\<close> is 1; an error is -1.\<close>

definition gp2_read :: "'w gpiod_ops \<Rightarrow> gpiod_pin2 \<Rightarrow> 'w \<Rightarrow> bool" where
  "gp2_read ops p w = (case gp2_request p of None \<Rightarrow> False | Some r \<Rightarrow> g2_get_value ops r (gp2_line_offset p) w = 1)"

definition gp2_write :: "'w gpiod_ops \<Rightarrow> bool \<Rightarrow> gpiod_pin2 \<Rightarrow> 'w \<Rightarrow> bool \<times> 'w" where
  "gp2_write ops high p w =
     (case gp2_request p of
        None \<Rightarrow> (False, w)
      | Some r \<Rightarrow> (case g2_set_value ops r (gp2_line_offset p) high w of (rc, w1) \<Rightarrow> (rc = 0, w1)))"

section \<open>Pin event sources\<close>

definition to_gpiod_edge :: "pin_event_type \<Rightarrow> edge_mode" where
  "to_gpiod_edge type =
     (case type of
        RisingEdge \<Rightarrow> Rising_Edges
      | FallingEdge \<Rightarrow> Falling_Edges
      | Change \<Rightarrow> Both_Edges
      | HighLevel \<Rightarrow> Both_Edges
      | LowLevel \<Rightarrow> Both_Edges)"

subsection \<open>Version 1\<close>

record gpiod_source1 =
  gs1_chip :: "nat option"
  gs1_line :: "nat option"
  gs1_sequence :: u32
  gs1_line_offset :: u32
  gs1_requested_type :: pin_event_type

definition gs1_close :: "'w gpiod_ops \<Rightarrow> gpiod_source1 \<times> 'w \<Rightarrow> gpiod_source1 \<times> 'w" where
  "gs1_close ops pw =
     (case pw of (p, w) \<Rightarrow>
        (p\<lparr>gs1_line := None, gs1_chip := None\<rparr>,
         free_opt (gd_chip_close ops) (gs1_chip p) (free_opt (g1_release ops) (gs1_line p) w)))"

definition request_edge_events_v1 :: "'w gpiod_ops \<Rightarrow> nat \<Rightarrow> pin_event_type \<Rightarrow> string \<Rightarrow> 'w \<Rightarrow> int \<times> 'w" where
  "request_edge_events_v1 ops line type consumer = g1_request_events ops (to_gpiod_edge type) line consumer"

definition gs1_open :: "'w gpiod_ops \<Rightarrow> string \<Rightarrow> string option \<Rightarrow> gpiod_source1 \<times> 'w \<Rightarrow> gpiod_source1 \<times> 'w" where
  "gs1_open ops chip_path consumer pw =
     (case pw of (p, w) \<Rightarrow>
        case gd_chip_open ops chip_path w of
          (None, w1) \<Rightarrow> (p\<lparr>gs1_chip := None\<rparr>, w1)
        | (Some chip, w1) \<Rightarrow>
            let p1 = p\<lparr>gs1_chip := Some chip\<rparr>
            in case g1_get_line ops chip (gs1_line_offset p) w1 of
                 None \<Rightarrow> gs1_close ops (p1\<lparr>gs1_line := None\<rparr>, w1)
               | Some line \<Rightarrow>
                   let p2 = p1\<lparr>gs1_line := Some line\<rparr>
                   in case request_edge_events_v1 ops line (gs1_requested_type p)
                             (consumer_or ''pypilot-event-loop'' consumer) w1 of
                        (rc, w2) \<Rightarrow> if rc \<noteq> 0 then gs1_close ops (p2, w2) else (p2, w2))"

definition gs1_create ::
  "'w gpiod_ops \<Rightarrow> string \<Rightarrow> u32 \<Rightarrow> pin_event_type \<Rightarrow> string option \<Rightarrow> 'w \<Rightarrow> gpiod_source1 \<times> 'w" where
  "gs1_create ops chip_path offset type consumer w =
     gs1_open ops chip_path consumer
       (\<lparr>gs1_chip = None, gs1_line = None, gs1_sequence = 0, gs1_line_offset = offset, gs1_requested_type = type\<rparr>, w)"

definition gs1_valid :: "gpiod_source1 \<Rightarrow> bool" where
  "gs1_valid p \<longleftrightarrow> gs1_chip p \<noteq> None \<and> gs1_line p \<noteq> None"

definition gs1_native_fd :: "'w gpiod_ops \<Rightarrow> gpiod_source1 \<Rightarrow> 'w \<Rightarrow> int" where
  "gs1_native_fd ops p w = (case gs1_line p of None \<Rightarrow> - 1 | Some line \<Rightarrow> g1_event_fd ops line w)"

definition gs1_read_event ::
  "'w gpiod_ops \<Rightarrow> gpiod_source1 \<times> 'w \<Rightarrow> (pin_event option \<times> gpiod_source1 \<times> 'w) option" where
  "gs1_read_event ops pw =
     (case pw of (p, w) \<Rightarrow>
        if \<not> gs1_valid p then Some (None, p, w)
        else (case g1_event_read ops (the (gs1_line p)) w of
                None \<Rightarrow> None
              | Some (rc, ev, w1) \<Rightarrow>
                  if rc \<noteq> 0 then Some (None, p, w1)
                  else Some (Some \<lparr>pe_type = (if le_rising ev then RisingEdge else FallingEdge),
                               pe_timestamp_us = le_tv_sec ev * 1000000 + le_tv_nsec ev div 1000,
                               pe_source_id = gs1_line_offset p, pe_sequence = gs1_sequence p + 1,
                               pe_level = le_rising ev\<rparr>,
                             p\<lparr>gs1_sequence := gs1_sequence p + 1\<rparr>, w1)))"

subsection \<open>Version 2\<close>

record gpiod_source2 =
  gs2_chip :: "nat option"
  gs2_request :: "nat option"
  gs2_buffer :: "nat option"
  gs2_line_offset :: u32
  gs2_requested_type :: pin_event_type

definition gs2_close :: "'w gpiod_ops \<Rightarrow> gpiod_source2 \<times> 'w \<Rightarrow> gpiod_source2 \<times> 'w" where
  "gs2_close ops pw =
     (case pw of (p, w) \<Rightarrow>
        (p\<lparr>gs2_buffer := None, gs2_request := None, gs2_chip := None\<rparr>,
         free_opt (gd_chip_close ops) (gs2_chip p)
           (free_opt (g2_release ops) (gs2_request p) (free_opt (g2_buffer_free ops) (gs2_buffer p) w))))"

definition gs2_open ::
  "'w gpiod_ops \<Rightarrow> string \<Rightarrow> string option \<Rightarrow> u64 \<Rightarrow> nat \<Rightarrow> gpiod_source2 \<times> 'w \<Rightarrow> gpiod_source2 \<times> 'w" where
  "gs2_open ops chip_path consumer debounce_us capacity pw =
     (case pw of (p, w) \<Rightarrow>
        case gd_chip_open ops chip_path w of
          (None, w1) \<Rightarrow> (p\<lparr>gs2_chip := None\<rparr>, w1)
        | (Some chip, w1) \<Rightarrow>
            let p1 = p\<lparr>gs2_chip := Some chip\<rparr>;
                (settings, w2) = g2_settings_new ops w1;
                (line_config, w3) = g2_line_config_new ops w2;
                (request_config, w4) = g2_request_config_new ops w3
            in case (settings, line_config, request_config) of
                 (Some s, Some l, Some r) \<Rightarrow>
                   let w5 = g2_set_edge_detection ops s (to_gpiod_edge (gs2_requested_type p)) (g2_set_direction ops s False w4);
                       w6 = (if debounce_us \<noteq> 0 then g2_set_debounce ops s debounce_us w5 else w5);
                       (rc, w7) = g2_add_line_settings ops l (gs2_line_offset p) s w6
                   in if rc \<noteq> 0 then (p1, gpiod_cleanup_setup ops settings line_config request_config w7)
                      else let w8 = g2_set_consumer ops r (consumer_or ''pypilot-event-loop'' consumer) w7;
                               (request, w9) = g2_request_lines ops chip r l w8;
                               w10 = gpiod_cleanup_setup ops settings line_config request_config w9;
                               p2 = p1\<lparr>gs2_request := request\<rparr>
                           in if request = None then (p2, w10)
                              else (case g2_buffer_new ops capacity w10 of (buffer, w11) \<Rightarrow> (p2\<lparr>gs2_buffer := buffer\<rparr>, w11))
               | _ \<Rightarrow> (p1, gpiod_cleanup_setup ops settings line_config request_config w4))"

definition gs2_create ::
  "'w gpiod_ops \<Rightarrow> string \<Rightarrow> u32 \<Rightarrow> pin_event_type \<Rightarrow> string option \<Rightarrow> u64 \<Rightarrow> nat \<Rightarrow> 'w \<Rightarrow> gpiod_source2 \<times> 'w" where
  "gs2_create ops chip_path offset type consumer debounce_us capacity w =
     gs2_open ops chip_path consumer debounce_us capacity
       (\<lparr>gs2_chip = None, gs2_request = None, gs2_buffer = None, gs2_line_offset = offset, gs2_requested_type = type\<rparr>, w)"

definition gs2_valid :: "gpiod_source2 \<Rightarrow> bool" where
  "gs2_valid p \<longleftrightarrow> gs2_request p \<noteq> None \<and> gs2_buffer p \<noteq> None"

definition gs2_native_fd :: "'w gpiod_ops \<Rightarrow> gpiod_source2 \<Rightarrow> 'w \<Rightarrow> int" where
  "gs2_native_fd ops p w = (case gs2_request p of None \<Rightarrow> - 1 | Some r \<Rightarrow> g2_get_fd ops r w)"

definition gs2_read_event ::
  "'w gpiod_ops \<Rightarrow> gpiod_source2 \<times> 'w \<Rightarrow> (pin_event option \<times> gpiod_source2 \<times> 'w) option" where
  "gs2_read_event ops pw =
     (case pw of (p, w) \<Rightarrow>
        if \<not> gs2_valid p then Some (None, p, w)
        else (case g2_read_edge_events ops (the (gs2_request p)) (the (gs2_buffer p)) 1 w of
                None \<Rightarrow> None
              | Some (n, w1) \<Rightarrow>
                  if n \<le> 0 then Some (None, p, w1)
                  else (case g2_get_event ops (the (gs2_buffer p)) 0 w1 of
                          None \<Rightarrow> Some (None, p, w1)
                        | Some ev \<Rightarrow>
                            Some (Some \<lparr>pe_type = (if ee_rising ev then RisingEdge else FallingEdge),
                                    pe_timestamp_us = ee_timestamp_ns ev div 1000, pe_source_id = ee_line_offset ev,
                                    pe_sequence = ucast (ee_global_seqno ev), pe_level = ee_rising ev\<rparr>, p, w1))))"

section \<open>No handle is lost\<close>

text \<open>
  What is open of the library: chips, requested lines (of version 1), and the objects of version 2. The
  library's calls behave as documented: a constructor that succeeds opens something new, a failing one
  nothing; a destructor closes what it is given; releasing a line that is not requested does nothing;
  the line objects of a chip object that has just been opened are not requested.
\<close>

datatype gpiod_handle =
  Chip nat | Line nat | Settings nat | Line_Config nat | Request_Config nat | Request nat | Buffer nat

definition opens :: "('w \<Rightarrow> gpiod_handle set) \<Rightarrow> (nat \<Rightarrow> gpiod_handle) \<Rightarrow> ('w \<Rightarrow> nat option \<times> 'w) \<Rightarrow> bool" where
  "opens held C f \<longleftrightarrow> (\<forall>w. case f w of
       (None, w1) \<Rightarrow> held w1 = held w
     | (Some i, w1) \<Rightarrow> C i \<notin> held w \<and> held w1 = insert (C i) (held w))"

definition requests :: "('w \<Rightarrow> gpiod_handle set) \<Rightarrow> nat \<Rightarrow> ('w \<Rightarrow> int \<times> 'w) \<Rightarrow> bool" where
  "requests held i f \<longleftrightarrow> (\<forall>w. case f w of (rc, w1) \<Rightarrow>
       if rc = 0 then Line i \<notin> held w \<and> held w1 = insert (Line i) (held w) else held w1 = held w)"

definition gpiod_handles :: "'w gpiod_ops \<Rightarrow> ('w \<Rightarrow> gpiod_handle set) \<Rightarrow> bool" where
  "gpiod_handles ops held \<longleftrightarrow>
     (\<forall>path. opens held Chip (gd_chip_open ops path))
     \<and> opens held Settings (g2_settings_new ops) \<and> opens held Line_Config (g2_line_config_new ops)
     \<and> opens held Request_Config (g2_request_config_new ops) \<and> (\<forall>n. opens held Buffer (g2_buffer_new ops n))
     \<and> (\<forall>c r l. opens held Request (g2_request_lines ops c r l))
     \<and> (\<forall>i name m v. requests held i (g1_request_input ops i name) \<and> requests held i (g1_request_output ops i name v)
          \<and> requests held i (g1_request_events ops m i name))
     \<and> (\<forall>path w chip w1 off i. gd_chip_open ops path w = (Some chip, w1) \<longrightarrow> g1_get_line ops chip off w1 = Some i
          \<longrightarrow> Line i \<notin> held w1)
     \<and> (\<forall>i w. held (gd_chip_close ops i w) = held w - {Chip i} \<and> held (g1_release ops i w) = held w - {Line i}
          \<and> held (g2_settings_free ops i w) = held w - {Settings i} \<and> held (g2_line_config_free ops i w) = held w - {Line_Config i}
          \<and> held (g2_request_config_free ops i w) = held w - {Request_Config i} \<and> held (g2_release ops i w) = held w - {Request i}
          \<and> held (g2_buffer_free ops i w) = held w - {Buffer i})
     \<and> (\<forall>i j out v m d off name w. held (g2_set_direction ops i out w) = held w \<and> held (g2_set_edge_detection ops i m w) = held w
          \<and> held (g2_set_debounce ops i d w) = held w \<and> held (g2_set_output_value ops i v w) = held w
          \<and> held (snd (g2_add_line_settings ops i off j w)) = held w \<and> held (g2_set_consumer ops i name w) = held w)"

text \<open>What an object holds.\<close>

definition handle_set :: "(nat \<Rightarrow> gpiod_handle) \<Rightarrow> nat option \<Rightarrow> gpiod_handle set" where
  "handle_set C h = C ` set_option h"

lemma handle_set_simps [simp]: "handle_set C None = {}" "handle_set C (Some i) = {C i}"
  by (simp_all add: handle_set_def)

definition gp1_handles :: "gpiod_pin1 \<Rightarrow> gpiod_handle set" where
  "gp1_handles p = handle_set Chip (gp1_chip p) \<union> handle_set Line (gp1_line p)"

definition gp2_handles :: "gpiod_pin2 \<Rightarrow> gpiod_handle set" where
  "gp2_handles p = handle_set Request (gp2_request p)"

definition gs1_handles :: "gpiod_source1 \<Rightarrow> gpiod_handle set" where
  "gs1_handles p = handle_set Chip (gs1_chip p) \<union> handle_set Line (gs1_line p)"

definition gs2_handles :: "gpiod_source2 \<Rightarrow> gpiod_handle set" where
  "gs2_handles p = handle_set Chip (gs2_chip p) \<union> handle_set Request (gs2_request p) \<union> handle_set Buffer (gs2_buffer p)"

text \<open>Between \<open>w\<close> and \<open>w1\<close> exactly the handles \<open>H\<close> have been opened.\<close>

definition takes :: "('w \<Rightarrow> gpiod_handle set) \<Rightarrow> gpiod_handle set \<Rightarrow> 'w \<Rightarrow> 'w \<Rightarrow> bool" where
  "takes held H w w1 \<longleftrightarrow> H \<inter> held w = {} \<and> held w1 = held w \<union> H"

lemma gpiod_handlesD:
  assumes "gpiod_handles ops held"
  shows "opens held Chip (gd_chip_open ops path)" "opens held Settings (g2_settings_new ops)"
    "opens held Line_Config (g2_line_config_new ops)" "opens held Request_Config (g2_request_config_new ops)"
    "opens held Buffer (g2_buffer_new ops n)" "opens held Request (g2_request_lines ops c r l)"
    "requests held i (g1_request_input ops i name)" "requests held i (g1_request_output ops i name iv)"
    "requests held i (g1_request_events ops m i name)"
    "gd_chip_open ops path w = (Some chip, w1) \<Longrightarrow> g1_get_line ops chip off w1 = Some i \<Longrightarrow> Line i \<notin> held w1"
  using assms by (simp_all add: gpiod_handles_def)

lemma held_simps:
  assumes "gpiod_handles ops held"
  shows "held (gd_chip_close ops i w) = held w - {Chip i}" "held (g1_release ops i w) = held w - {Line i}"
    "held (g2_settings_free ops i w) = held w - {Settings i}" "held (g2_line_config_free ops i w) = held w - {Line_Config i}"
    "held (g2_request_config_free ops i w) = held w - {Request_Config i}" "held (g2_release ops i w) = held w - {Request i}"
    "held (g2_buffer_free ops i w) = held w - {Buffer i}"
    "held (g2_set_direction ops i out w) = held w" "held (g2_set_edge_detection ops i m w) = held w"
    "held (g2_set_debounce ops i d w) = held w" "held (g2_set_output_value ops i out w) = held w"
    "held (snd (g2_add_line_settings ops i off j w)) = held w" "held (g2_set_consumer ops i name w) = held w"
  using assms by (simp_all add: gpiod_handles_def)

lemma held_free_opt:
  "(\<And>i w. held (f i w) = held w - {C i}) \<Longrightarrow> held (free_opt f h w) = held w - handle_set C h"
  by (cases h) simp_all

lemma opensD:
  "opens held C f \<Longrightarrow> f w = (h, w1) \<Longrightarrow> takes held (handle_set C h) w w1"
  unfolding opens_def takes_def by (drule spec [of _ w]) (cases h; simp)

lemma requestsD:
  "requests held i f \<Longrightarrow> f w = (rc, w1) \<Longrightarrow> takes held (if rc = 0 then {Line i} else {}) w w1"
  unfolding requests_def takes_def by (drule spec [of _ w]) (cases "rc = 0"; simp)

lemma takes_trans: "takes held H w w1 \<Longrightarrow> takes held H' w1 w2 \<Longrightarrow> takes held (H \<union> H') w w2"
  by (auto simp: takes_def)

lemma takes_refl [simp]: "takes held {} w w"
  by (simp add: takes_def)

text \<open>What is opened and closed again is not taken.\<close>

lemma takes_drop:
  "takes held (H \<union> H') w w1 \<Longrightarrow> held w2 = held w1 - H' \<Longrightarrow> H \<inter> H' = {} \<Longrightarrow> takes held H w w2"
  by (auto simp: takes_def)

lemma gp1_close_held:
  assumes "gpiod_handles ops held"
  shows "held (snd (gp1_close ops (p, w))) = held w - gp1_handles p" "gp1_handles (fst (gp1_close ops (p, w))) = {}"
  by (simp_all add: gp1_close_def gp1_handles_def held_free_opt held_simps [OF assms] ) blast

lemma gp2_close_held:
  assumes "gpiod_handles ops held"
  shows "held (snd (gp2_close ops (p, w))) = held w - gp2_handles p" "gp2_handles (fst (gp2_close ops (p, w))) = {}"
  by (simp_all add: gp2_close_def gp2_handles_def held_free_opt held_simps [OF assms])

lemma gs1_close_held:
  assumes "gpiod_handles ops held"
  shows "held (snd (gs1_close ops (p, w))) = held w - gs1_handles p" "gs1_handles (fst (gs1_close ops (p, w))) = {}"
  by (simp_all add: gs1_close_def gs1_handles_def held_free_opt held_simps [OF assms]) blast

lemma gs2_close_held:
  assumes "gpiod_handles ops held"
  shows "held (snd (gs2_close ops (p, w))) = held w - gs2_handles p" "gs2_handles (fst (gs2_close ops (p, w))) = {}"
  by (simp_all add: gs2_close_def gs2_handles_def held_free_opt held_simps [OF assms]) blast

lemma gpiod_cleanup_held:
  assumes "gpiod_handles ops held"
  shows "held (gpiod_cleanup_setup ops s l r w) = held w - (handle_set Settings s \<union> handle_set Line_Config l \<union> handle_set Request_Config r)"
  by (simp add: gpiod_cleanup_setup_def held_free_opt held_simps [OF assms]) blast

lemma gp1_create_takes:
  assumes h: "gpiod_handles ops held" and req: "\<And>i. requests held i (request i)"
    and c: "gp1_create ops request chip_name offset w = (p, w')"
  shows "takes held (gp1_handles p) w w' \<and> (gp1_valid p \<or> gp1_handles p = {})"
proof (cases "gpiod_chip_path chip_name 128")
  case None
  with c show ?thesis by (auto simp: gp1_create_def gp1_handles_def)
next
  case (Some path)
  obtain chip w1 where o: "gd_chip_open ops path w = (chip, w1)" by fastforce
  note t1 = opensD [OF gpiod_handlesD(1) [OF h] o]
  show ?thesis
  proof (cases chip)
    case None
    with c Some o t1 show ?thesis by (auto simp: gp1_create_def gp1_handles_def)
  next
    case chip: (Some i)
    let ?p = "\<lparr>gp1_line_offset = offset, gp1_chip = Some i, gp1_line = None\<rparr>"
    show ?thesis
    proof (cases "g1_get_line ops i offset w1")
      case None
      with c Some o chip have "gp1_close ops (?p, w1) = (p, w')" by (simp add: gp1_create_def)
      then have "held w' = held w1 - gp1_handles ?p" "gp1_handles p = {}" using gp1_close_held [OF h, of ?p w1] by simp_all
      moreover have "gp1_handles ?p = {Chip i}" by (simp add: gp1_handles_def)
      ultimately show ?thesis using t1 chip by (simp add: takes_def)
    next
      case (Some j)
      obtain rc w2 where r: "request j w1 = (rc, w2)" by fastforce
      note t2 = takes_trans [OF t1 requestsD [OF req r]]
      let ?q = "?p\<lparr>gp1_line := Some j\<rparr>"
      show ?thesis
      proof (cases "rc = 0")
        case True
        with c \<open>gpiod_chip_path chip_name 128 = Some path\<close> o chip Some r have "p = ?q" "w' = w2"
          by (simp_all add: gp1_create_def)
        with t2 True chip show ?thesis by (simp add: gp1_handles_def gp1_valid_def)
      next
        case False
        with c \<open>gpiod_chip_path chip_name 128 = Some path\<close> o chip Some r have "gp1_close ops (?q, w2) = (p, w')"
          by (simp add: gp1_create_def)
        then have "held w' = held w2 - gp1_handles ?q" "gp1_handles p = {}" using gp1_close_held [OF h, of ?q w2] by simp_all
        moreover have "gp1_handles ?q = {Chip i, Line j}" by (auto simp: gp1_handles_def)
        moreover have "Line j \<notin> held w1" using gpiod_handlesD(10) [OF h] o chip Some by blast
        ultimately show ?thesis using t1 t2 False chip by (simp add: takes_def)
      qed
    qed
  qed
qed

lemma takes_same: "takes held H w w1 \<Longrightarrow> held w2 = held w1 \<Longrightarrow> takes held H w w2"
  by (simp add: takes_def)

text \<open>Opening a chip and making the three objects a request of version 2 needs; what is left when they are freed.\<close>

definition setup_handles :: "nat option \<Rightarrow> nat option \<Rightarrow> nat option \<Rightarrow> gpiod_handle set" where
  "setup_handles s l r = handle_set Settings s \<union> handle_set Line_Config l \<union> handle_set Request_Config r"

lemma setup_takes:
  assumes h: "gpiod_handles ops held" and "gd_chip_open ops path w = (Some chip, w1)" "g2_settings_new ops w1 = (s, w2)"
    "g2_line_config_new ops w2 = (l, w3)" "g2_request_config_new ops w3 = (r, w4)"
  shows "takes held ({Chip chip} \<union> setup_handles s l r) w w4"
proof -
  note t = opensD [OF gpiod_handlesD(1) [OF h] assms(2)] opensD [OF gpiod_handlesD(2) [OF h] assms(3)]
    opensD [OF gpiod_handlesD(3) [OF h] assms(4)] opensD [OF gpiod_handlesD(4) [OF h] assms(5)]
  from takes_trans [OF takes_trans [OF takes_trans [OF t(1,2)] t(3)] t(4)] show ?thesis
    by (simp add: setup_handles_def Un_assoc)
qed

lemma setup_freed:
  assumes h: "gpiod_handles ops held" and t: "takes held (H \<union> setup_handles s l r) w w1" and d: "H \<inter> setup_handles s l r = {}"
  shows "takes held H w (gpiod_cleanup_setup ops s l r w1)"
  using takes_drop [OF t _ d] gpiod_cleanup_held [OF h, of s l r w1] by (simp add: setup_handles_def)

lemma setup_disjoint:
  "{Chip chip} \<inter> setup_handles s l r = {}" "({Chip chip} \<union> handle_set Request q) \<inter> setup_handles s l r = {}"
  by (auto simp: setup_handles_def handle_set_def)

lemma request_one_takes:
  assumes h: "gpiod_handles ops held" and q: "request_one_gpiod_line_v2 ops chip_name offset output value consumer w = (request, w')"
  shows "takes held (handle_set Request request) w w'"
proof (cases "gpiod_chip_path chip_name 128")
  case None
  with q show ?thesis by (auto simp: request_one_gpiod_line_v2_def)
next
  case (Some path)
  obtain chip w1 where o: "gd_chip_open ops path w = (chip, w1)" by fastforce
  show ?thesis
  proof (cases chip)
    case None
    with q Some o opensD [OF gpiod_handlesD(1) [OF h] o] show ?thesis by (auto simp: request_one_gpiod_line_v2_def)
  next
    case chip: (Some c)
    obtain s w2 where s: "g2_settings_new ops w1 = (s, w2)" by fastforce
    obtain l w3 where l: "g2_line_config_new ops w2 = (l, w3)" by fastforce
    obtain r w4 where r: "g2_request_config_new ops w3 = (r, w4)" by fastforce
    note t4 = setup_takes [OF h o [unfolded chip] s l r]
    have fin: "takes held (handle_set Request req) w (gd_chip_close ops c (gpiod_cleanup_setup ops s l r w5))"
      if "takes held ({Chip c} \<union> setup_handles s l r \<union> handle_set Request req) w w5" for req w5
    proof -
      from that have "takes held (({Chip c} \<union> handle_set Request req) \<union> setup_handles s l r) w w5" by (simp add: Un_ac)
      from setup_freed [OF h this setup_disjoint(2)] have "takes held (handle_set Request req \<union> {Chip c}) w (gpiod_cleanup_setup ops s l r w5)"
        by (simp add: Un_commute)
      from takes_drop [OF this held_simps(1) [OF h]] show ?thesis by (auto simp: handle_set_def)
    qed
    consider (null) "s = None \<or> l = None \<or> r = None" | (all) i j k where "s = Some i" "l = Some j" "r = Some k" by (cases s; cases l; cases r) blast+
    then show ?thesis
    proof cases
      case null
      with q Some o chip s l r have "request = None" "w' = gd_chip_close ops c (gpiod_cleanup_setup ops s l r w4)"
        by (auto simp: request_one_gpiod_line_v2_def split: option.splits)
      with fin [of None w4] t4 show ?thesis by simp
    next
      case all
      define w5 where "w5 = (if output then g2_set_output_value ops i value (g2_set_direction ops i output w4) else g2_set_direction ops i output w4)"
      obtain rc w7 where a: "g2_add_line_settings ops j offset i w5 = (rc, w7)" by fastforce
      have "held w7 = held w5" using held_simps(12) [OF h, of j offset i w5] a by simp
      then have w7: "held w7 = held w4" by (simp add: w5_def held_simps [OF h])
      define w8 where "w8 = g2_set_consumer ops k (consumer_or ''async_event_loop'' consumer) w7"
      obtain req w9 where rq: "g2_request_lines ops c k j w8 = (req, w9)" by fastforce
      have e: "request_one_gpiod_line_v2 ops chip_name offset output value consumer w =
          (if rc \<noteq> 0 then (None, gd_chip_close ops c (gpiod_cleanup_setup ops s l r w7))
           else (req, gd_chip_close ops c (gpiod_cleanup_setup ops s l r w9)))"
        using Some o chip s l r all a rq by (simp add: request_one_gpiod_line_v2_def Let_def w5_def [symmetric] w8_def [symmetric])
      note t7 = takes_same [OF t4 w7]
      have "held w8 = held w7" by (simp add: w8_def held_simps [OF h])
      note t9 = takes_trans [OF takes_same [OF t7 this] opensD [OF gpiod_handlesD(6) [OF h] rq]]
      show ?thesis
      proof (cases "rc = 0")
        case True
        with q e fin [OF t9] show ?thesis by simp
      next
        case False
        with q e fin [of None w7] t7 show ?thesis by auto
      qed
    qed
  qed
qed

lemma gs1_create_takes:
  assumes h: "gpiod_handles ops held" and c: "gs1_create ops chip_path offset type consumer w = (p, w')"
  shows "takes held (gs1_handles p) w w' \<and> (gs1_valid p \<or> gs1_handles p = {})"
proof -
  let ?p0 = "\<lparr>gs1_chip = None, gs1_line = None, gs1_sequence = 0, gs1_line_offset = offset, gs1_requested_type = type\<rparr>"
  obtain chip w1 where o: "gd_chip_open ops chip_path w = (chip, w1)" by fastforce
  note t1 = opensD [OF gpiod_handlesD(1) [OF h] o]
  show ?thesis
  proof (cases chip)
    case None
    with c o t1 show ?thesis by (auto simp: gs1_create_def gs1_open_def gs1_handles_def)
  next
    case chip: (Some i)
    let ?p = "?p0\<lparr>gs1_chip := Some i\<rparr>"
    show ?thesis
    proof (cases "g1_get_line ops i offset w1")
      case None
      with c o chip have "gs1_close ops (?p, w1) = (p, w')" by (simp add: gs1_create_def gs1_open_def)
      then have "held w' = held w1 - gs1_handles ?p" "gs1_handles p = {}" using gs1_close_held [OF h, of ?p w1] by simp_all
      moreover have "gs1_handles ?p = {Chip i}" by (simp add: gs1_handles_def)
      ultimately show ?thesis using t1 chip by (simp add: takes_def)
    next
      case (Some j)
      obtain rc w2 where r: "request_edge_events_v1 ops j type (consumer_or ''pypilot-event-loop'' consumer) w1 = (rc, w2)" by fastforce
      note t2 = takes_trans [OF t1 requestsD [OF gpiod_handlesD(9) [OF h] r [unfolded request_edge_events_v1_def]]]
      let ?q = "?p\<lparr>gs1_line := Some j\<rparr>"
      have q: "gs1_handles ?q = {Chip i, Line j}" by (auto simp: gs1_handles_def)
      show ?thesis
      proof (cases "rc = 0")
        case True
        with c o chip Some r have "p = ?q" "w' = w2" by (simp_all add: gs1_create_def gs1_open_def)
        with t2 True chip q show ?thesis by (simp add: gs1_valid_def insert_commute)
      next
        case False
        with c o chip Some r have "gs1_close ops (?q, w2) = (p, w')" by (simp add: gs1_create_def gs1_open_def)
        then have "held w' = held w2 - gs1_handles ?q" "gs1_handles p = {}" using gs1_close_held [OF h, of ?q w2] by simp_all
        moreover have "Line j \<notin> held w1" using gpiod_handlesD(10) [OF h] o chip Some by blast
        ultimately show ?thesis using t1 t2 False chip q by (simp add: takes_def)
      qed
    qed
  qed
qed

lemma gs2_create_takes:
  assumes h: "gpiod_handles ops held" and c: "gs2_create ops chip_path offset type consumer debounce capacity w = (p, w')"
  shows "takes held (gs2_handles p) w w'"
proof -
  let ?p0 = "\<lparr>gs2_chip = None, gs2_request = None, gs2_buffer = None, gs2_line_offset = offset, gs2_requested_type = type\<rparr>"
  obtain chip w1 where o: "gd_chip_open ops chip_path w = (chip, w1)" by fastforce
  show ?thesis
  proof (cases chip)
    case None
    with c o opensD [OF gpiod_handlesD(1) [OF h] o] show ?thesis by (auto simp: gs2_create_def gs2_open_def gs2_handles_def)
  next
    case chip: (Some i0)
    let ?p = "?p0\<lparr>gs2_chip := Some i0\<rparr>"
    obtain s w2 where s: "g2_settings_new ops w1 = (s, w2)" by fastforce
    obtain l w3 where l: "g2_line_config_new ops w2 = (l, w3)" by fastforce
    obtain r w4 where r: "g2_request_config_new ops w3 = (r, w4)" by fastforce
    note t4 = setup_takes [OF h o [unfolded chip] s l r]
    consider (null) "s = None \<or> l = None \<or> r = None" | (all) i j k where "s = Some i" "l = Some j" "r = Some k"
      by (cases s; cases l; cases r) blast+
    then show ?thesis
    proof cases
      case null
      with c o chip s l r have "p = ?p" "w' = gpiod_cleanup_setup ops s l r w4"
        by (auto simp: gs2_create_def gs2_open_def Let_def split: option.splits)
      with setup_freed [OF h t4 setup_disjoint(1)] show ?thesis by (simp add: gs2_handles_def)
    next
      case all
      define w5 where "w5 = g2_set_edge_detection ops i (to_gpiod_edge type) (g2_set_direction ops i False w4)"
      define w6 where "w6 = (if debounce \<noteq> 0 then g2_set_debounce ops i debounce w5 else w5)"
      obtain rc w7 where a: "g2_add_line_settings ops j offset i w6 = (rc, w7)" by fastforce
      have "held w7 = held w6" using held_simps(12) [OF h, of j offset i w6] a by simp
      then have w7: "held w7 = held w4" by (simp add: w6_def w5_def held_simps [OF h])
      define w8 where "w8 = g2_set_consumer ops k (consumer_or ''pypilot-event-loop'' consumer) w7"
      obtain req w9 where rq: "g2_request_lines ops i0 k j w8 = (req, w9)" by fastforce
      define w10 where "w10 = gpiod_cleanup_setup ops s l r w9"
      obtain buf w11 where b: "g2_buffer_new ops capacity w10 = (buf, w11)" by fastforce
      have w10: "gpiod_cleanup_setup ops (Some i) (Some j) (Some k) w9 = w10" by (simp add: w10_def all)
      have e: "gs2_create ops chip_path offset type consumer debounce capacity w =
          (if rc \<noteq> 0 then (?p, gpiod_cleanup_setup ops s l r w7)
           else if req = None then (?p, w10) else (?p\<lparr>gs2_request := req, gs2_buffer := buf\<rparr>, w11))"
      proof (cases "debounce = 0")
        case True
        then have "w6 = w5" by (simp add: w6_def)
        with True show ?thesis using o chip s l r all a rq b w10
          by (simp add: gs2_create_def gs2_open_def Let_def w5_def [symmetric] w8_def [symmetric])
      next
        case False
        then have "w6 = g2_set_debounce ops i debounce w5" by (simp add: w6_def)
        with False show ?thesis using o chip s l r all a rq b w10
          by (simp add: gs2_create_def gs2_open_def Let_def w5_def [symmetric] w8_def [symmetric])
      qed
      note t7 = takes_same [OF t4 w7]
      have "held w8 = held w7" by (simp add: w8_def held_simps [OF h])
      from takes_trans [OF takes_same [OF t7 this] opensD [OF gpiod_handlesD(6) [OF h] rq]]
      have "takes held (({Chip i0} \<union> handle_set Request req) \<union> setup_handles s l r) w w9" by (simp add: Un_ac)
      from setup_freed [OF h this setup_disjoint(2)] have t10: "takes held ({Chip i0} \<union> handle_set Request req) w w10"
        by (simp add: w10_def)
      consider "rc \<noteq> 0" | "rc = 0" "req = None" | "rc = 0" "req \<noteq> None" by blast
      then show ?thesis
      proof cases
        case 1
        with c e setup_freed [OF h t7 setup_disjoint(1)] show ?thesis by (auto simp: gs2_handles_def)
      next
        case 2
        with c e t10 show ?thesis by (auto simp: gs2_handles_def)
      next
        case 3
        with c e have p: "p = ?p\<lparr>gs2_request := req, gs2_buffer := buf\<rparr>" "w' = w11" by simp_all
        with takes_trans [OF t10 opensD [OF gpiod_handlesD(5) [OF h] b]] show ?thesis by (simp add: gs2_handles_def Un_assoc)
      qed
    qed
  qed
qed

text \<open>
  C25: the libgpiod classes lose no handle, whatever call fails. A constructor leaves open exactly what
  the object refers to (a pin, and a source of version 1, that is not valid refers to nothing; an
  invalid source of version 2 may keep its chip or its request), and \<open>close\<close>, which the destructor calls,
  closes exactly this.
\<close>

theorem gpiod_no_leaks:
  assumes "gpiod_handles ops held"
  shows "(gp1_input_create ops name off cons w = (p1, w1) \<or> gp1_output_create ops name off init cons w = (p1, w1) \<longrightarrow>
      takes held (gp1_handles p1) w w1 \<and> (gp1_valid p1 \<or> gp1_handles p1 = {}))
    \<and> (gp2_input_create ops name off cons w = (p2, w2) \<or> gp2_output_create ops name off init cons w = (p2, w2) \<longrightarrow>
      takes held (gp2_handles p2) w w2 \<and> (gp2_valid p2 \<or> gp2_handles p2 = {}))
    \<and> (gs1_create ops path off type cons w = (s1, w3) \<longrightarrow> takes held (gs1_handles s1) w w3 \<and> (gs1_valid s1 \<or> gs1_handles s1 = {}))
    \<and> (gs2_create ops path off type cons debounce capacity w = (s2, w4) \<longrightarrow> takes held (gs2_handles s2) w w4)
    \<and> held (snd (gp1_close ops (p1, v))) = held v - gp1_handles p1 \<and> held (snd (gp2_close ops (p2, v))) = held v - gp2_handles p2
    \<and> held (snd (gs1_close ops (s1, v))) = held v - gs1_handles s1 \<and> held (snd (gs2_close ops (s2, v))) = held v - gs2_handles s2"
proof -
  note h = gpiod_handlesD [OF assms]
  have p1: "takes held (gp1_handles p1) w w1 \<and> (gp1_valid p1 \<or> gp1_handles p1 = {})"
    if "gp1_input_create ops name off cons w = (p1, w1) \<or> gp1_output_create ops name off init cons w = (p1, w1)"
    using that unfolding gp1_input_create_def gp1_output_create_def
    by (elim disjE) (erule gp1_create_takes [OF assms h(7)], erule gp1_create_takes [OF assms h(8)])
  have p2: "takes held (gp2_handles p2) w w2 \<and> (gp2_valid p2 \<or> gp2_handles p2 = {})"
    if "gp2_input_create ops name off cons w = (p2, w2) \<or> gp2_output_create ops name off init cons w = (p2, w2)"
    using that request_one_takes [OF assms]
    by (auto simp: gp2_input_create_def gp2_output_create_def gp2_handles_def gp2_valid_def split: prod.splits)
  show ?thesis
    by (intro conjI impI gp1_close_held(1) [OF assms] gp2_close_held(1) [OF assms] gs1_close_held(1) [OF assms]
        gs2_close_held(1) [OF assms] gs2_create_takes [OF assms] p1 [THEN conjunct1] p1 [THEN conjunct2]
        p2 [THEN conjunct1] p2 [THEN conjunct2] gs1_create_takes [OF assms, THEN conjunct1]
        gs1_create_takes [OF assms, THEN conjunct2]; assumption)
qed

text \<open>A library with one object of each kind, on the set of what is open, and a line that has no event.\<close>

definition single_open :: "gpiod_handle \<Rightarrow> gpiod_handle set \<Rightarrow> nat option \<times> gpiod_handle set" where
  "single_open h w = (if h \<in> w then (None, w) else (Some 0, insert h w))"

definition single_request :: "gpiod_handle \<Rightarrow> gpiod_handle set \<Rightarrow> int \<times> gpiod_handle set" where
  "single_request h w = (if h \<in> w then (- 1, w) else (0, insert h w))"

definition single_gpiod :: "gpiod_handle set gpiod_ops" where
  "single_gpiod =
     \<lparr>gd_chip_open = (\<lambda>path. single_open (Chip 0)), gd_chip_close = (\<lambda>i w. w - {Chip i}),
      g1_get_line = (\<lambda>chip off w. if Line 0 \<in> w then None else Some 0),
      g1_request_events = (\<lambda>m i name. single_request (Line i)), g1_request_input = (\<lambda>i name. single_request (Line i)),
      g1_request_output = (\<lambda>i name v. single_request (Line i)), g1_release = (\<lambda>i w. w - {Line i}),
      g1_get_value = (\<lambda>i w. 0), g1_set_value = (\<lambda>i v w. (0, w)), g1_event_fd = (\<lambda>i w. 5), g1_event_read = (\<lambda>i w. None),
      g2_settings_new = single_open (Settings 0), g2_settings_free = (\<lambda>i w. w - {Settings i}),
      g2_line_config_new = single_open (Line_Config 0), g2_line_config_free = (\<lambda>i w. w - {Line_Config i}),
      g2_request_config_new = single_open (Request_Config 0), g2_request_config_free = (\<lambda>i w. w - {Request_Config i}),
      g2_set_direction = (\<lambda>i out w. w), g2_set_edge_detection = (\<lambda>i m w. w), g2_set_debounce = (\<lambda>i d w. w),
      g2_set_output_value = (\<lambda>i v w. w), g2_add_line_settings = (\<lambda>l off s w. (0, w)), g2_set_consumer = (\<lambda>r name w. w),
      g2_request_lines = (\<lambda>c r l. single_open (Request 0)), g2_release = (\<lambda>i w. w - {Request i}),
      g2_get_value = (\<lambda>r off w. 1), g2_set_value = (\<lambda>r off v w. (0, w)), g2_get_fd = (\<lambda>r w. 6),
      g2_buffer_new = (\<lambda>n. single_open (Buffer 0)), g2_buffer_free = (\<lambda>i w. w - {Buffer i}),
      g2_read_edge_events = (\<lambda>r b n w. None), g2_get_event = (\<lambda>b i w. None)\<rparr>"

lemma single_gpiod_handles: "gpiod_handles single_gpiod (\<lambda>w. w)"
  by (simp add: gpiod_handles_def opens_def requests_def single_gpiod_def single_open_def single_request_def)

definition example_source2 :: "gpiod_source2 \<times> gpiod_handle set" where
  "example_source2 = gs2_create single_gpiod ''/dev/gpiochip0'' 17 Change None 0 16 {}"

lemma gpiod_no_leaks_witness:
  "gs2_valid (fst example_source2) \<and> takes (\<lambda>w. w) (gs2_handles (fst example_source2)) {} (snd example_source2)"
proof
  have e: "example_source2 = (\<lparr>gs2_chip = Some 0, gs2_request = Some 0, gs2_buffer = Some 0, gs2_line_offset = 17,
      gs2_requested_type = Change\<rparr>, {Chip 0, Request 0, Buffer 0})"
    by (auto simp: example_source2_def gs2_create_def gs2_open_def single_gpiod_def single_open_def gpiod_cleanup_setup_def)
  show "gs2_valid (fst example_source2)" unfolding e by (simp add: gs2_valid_def)
  show "takes (\<lambda>w. w) (gs2_handles (fst example_source2)) {} (snd example_source2)"
    using gpiod_no_leaks [OF single_gpiod_handles, where path = "''/dev/gpiochip0''" and off = 17 and type = Change
        and cons = None and debounce = 0 and capacity = 16 and w = "{}" and ?s2.0 = "fst example_source2" and ?w4.0 = "snd example_source2"]
    by (simp add: example_source2_def)
qed

section \<open>The loop over the events\<close>

text \<open>
  As documented, a read of events waits for an event, so a read that returns without an error reports one;
  here no read fails.
\<close>

definition gpiod_reads_wait :: "'w gpiod_ops \<Rightarrow> bool" where
  "gpiod_reads_wait ops \<longleftrightarrow>
     (\<forall>i w rc ev w'. g1_event_read ops i w = Some (rc, ev, w') \<longrightarrow> rc = 0)
     \<and> (\<forall>r b w n w'. g2_read_edge_events ops r b 1 w = Some (n, w') \<longrightarrow> n > 0 \<and> g2_get_event ops b 0 w' \<noteq> None)"

text \<open>
  Task \<open>i\<close> of the loop calls \<open>c\<close> for the events of source \<open>k\<close>, which are read with \<open>read\<close>; the callback does
  not touch the source.
\<close>

definition polls_source ::
  "('p, 's, 'q \<times> 'x) el_env \<Rightarrow> ('q \<times> 'x \<Rightarrow> (pin_event option \<times> 'q \<times> 'x) option) \<Rightarrow> nat \<Rightarrow> 'p event_loop \<Rightarrow> bool" where
  "polls_source env read i l \<longleftrightarrow> i < length (el_tasks l)
     \<and> (\<exists>k c t. ct_poll_begin (el_tasks l ! i) = Some (Pin_Events k c, t) \<and> en_read_event env k = read
          \<and> (\<forall>ev s l q x s' l' q' x'. en_run_pin env c ev (s, l, (q, x)) = Some (s', l', (q', x')) \<longrightarrow> q' = q))"

lemma gs1_read_waits:
  assumes "gpiod_reads_wait ops" "gs1_valid p" "gs1_read_event ops (p, x) = Some (ev, (p', x'))"
  shows "ev \<noteq> None \<and> gs1_valid p'"
proof -
  obtain rc e x1 where r: "g1_event_read ops (the (gs1_line p)) x = Some (rc, e, x1)"
    using assms(2,3) by (auto simp: gs1_read_event_def split: option.splits)
  with assms(1) have "rc = 0" unfolding gpiod_reads_wait_def by blast
  with assms(2,3) r show ?thesis by (auto simp: gs1_read_event_def gs1_valid_def)
qed

lemma gs2_read_waits:
  assumes "gpiod_reads_wait ops" "gs2_valid p" "gs2_read_event ops (p, x) = Some (ev, (p', x'))"
  shows "ev \<noteq> None \<and> gs2_valid p'"
proof -
  obtain n x1 where r: "g2_read_edge_events ops (the (gs2_request p)) (the (gs2_buffer p)) 1 x = Some (n, x1)"
    using assms(2,3) by (auto simp: gs2_read_event_def split: option.splits)
  with assms(1) have "n > 0" "g2_get_event ops (the (gs2_buffer p)) 0 x1 \<noteq> None" unfolding gpiod_reads_wait_def by blast+
  with assms(2,3) r show ?thesis by (auto simp: gs2_read_event_def)
qed

lemma waiting_source_never:
  fixes env :: "('p, 's, 'q \<times> 'x) el_env"
  assumes p: "polls_source env read i l" and v: "valid q"
    and waits: "\<And>q x ev q' x'. valid q \<Longrightarrow> read (q, x) = Some (ev, (q', x')) \<Longrightarrow> ev \<noteq> None \<and> valid q'"
  shows "el_poll env i now (s, l, (q, x)) = None"
proof -
  from p obtain k c t where i: "i < length (el_tasks l)" "ct_poll_begin (el_tasks l ! i) = Some (Pin_Events k c, t)"
    and rd: "en_read_event env k = read"
    and cb: "\<And>ev s l q x s' l' q' x'. en_run_pin env c ev (s, l, (q, x)) = Some (s', l', (q', x')) \<Longrightarrow> q' = q"
    unfolding polls_source_def by blast
  have "el_drain_pins env k c (s, el_set_task i t l, (q, x)) = None"
  proof (rule el_drain_never [where I = "\<lambda>(q, x). valid q"])
    fix w ev w'
    assume w: "case w of (q, x) \<Rightarrow> valid q" "en_read_event env k w = Some (ev, w')"
    obtain q x q' x' where e: "w = (q, x)" "w' = (q', x')" by (metis prod.collapse)
    with w rd waits [of q x ev q' x'] have "ev \<noteq> None" "valid q'" by simp_all
    then obtain v where "ev = Some v" by blast
    with \<open>valid q'\<close> e show "\<exists>v. ev = Some v \<and> (\<forall>s l s' l' w2. en_run_pin env c v (s, l, w') = Some (s', l', w2)
        \<longrightarrow> (case w2 of (q, x) \<Rightarrow> valid q))" by (auto dest: cb)
  qed (simp add: v)
  with i show ?thesis by (simp add: el_poll_def el_invoke_def)
qed

text \<open>
  C39: the poll of a pin-event callback on a libgpiod source does not return. \<open>on_pin_event\<close> reads until the
  source has no event, and the read of a valid source waits for the next event instead of reporting that
  there is none; so after the first event the loop runs nothing but this callback.
\<close>

theorem gpiod_poll_never_returns:
  assumes "gpiod_reads_wait ops"
  shows "(polls_source env1 (gs1_read_event ops) i l1 \<and> gs1_valid p1 \<longrightarrow> el_poll env1 i now (s1, l1, (p1, x)) = None)
    \<and> (polls_source env2 (gs2_read_event ops) i l2 \<and> gs2_valid p2 \<longrightarrow> el_poll env2 i now (s2, l2, (p2, x)) = None)"
  using waiting_source_never [of env1 "gs1_read_event ops" i l1 gs1_valid p1 now s1 x] gs1_read_waits [OF assms]
    waiting_source_never [of env2 "gs2_read_event ops" i l2 gs2_valid p2 now s2 x] gs2_read_waits [OF assms] by blast

text \<open>Three events are there on the line, then none.\<close>

definition three_edges :: "nat gpiod_ops" where
  "three_edges =
     \<lparr>gd_chip_open = (\<lambda>path w. (None, w)), gd_chip_close = (\<lambda>i w. w), g1_get_line = (\<lambda>chip off w. None),
      g1_request_events = (\<lambda>m i name w. (- 1, w)), g1_request_input = (\<lambda>i name w. (- 1, w)),
      g1_request_output = (\<lambda>i name v w. (- 1, w)), g1_release = (\<lambda>i w. w),
      g1_get_value = (\<lambda>i w. 0), g1_set_value = (\<lambda>i v w. (0, w)), g1_event_fd = (\<lambda>i w. 5),
      g1_event_read = (\<lambda>i w. if w < 3 then Some (0, \<lparr>le_rising = even w, le_tv_sec = 1, le_tv_nsec = of_nat w\<rparr>, w + 1) else None),
      g2_settings_new = Pair None, g2_settings_free = (\<lambda>i w. w),
      g2_line_config_new = Pair None, g2_line_config_free = (\<lambda>i w. w),
      g2_request_config_new = Pair None, g2_request_config_free = (\<lambda>i w. w),
      g2_set_direction = (\<lambda>i out w. w), g2_set_edge_detection = (\<lambda>i m w. w), g2_set_debounce = (\<lambda>i d w. w),
      g2_set_output_value = (\<lambda>i v w. w), g2_add_line_settings = (\<lambda>l off s w. (0, w)), g2_set_consumer = (\<lambda>r name w. w),
      g2_request_lines = (\<lambda>c r l. Pair None), g2_release = (\<lambda>i w. w),
      g2_get_value = (\<lambda>r off w. 1), g2_set_value = (\<lambda>r off v w. (0, w)), g2_get_fd = (\<lambda>r w. 6),
      g2_buffer_new = (\<lambda>n. Pair None), g2_buffer_free = (\<lambda>i w. w),
      g2_read_edge_events = (\<lambda>r b n w. if w < 3 then Some (1, w + 1) else None),
      g2_get_event = (\<lambda>b i w. Some \<lparr>ee_rising = even w, ee_timestamp_ns = of_nat w, ee_line_offset = 17, ee_global_seqno = of_nat w\<rparr>)\<rparr>"

definition edge_env :: "('q \<times> nat \<Rightarrow> (pin_event option \<times> 'q \<times> nat) option) \<Rightarrow> (nat, arduino_loop, 'q \<times> nat) el_env" where
  "edge_env read = \<lparr>en_ops = al_ops, en_micros = (\<lambda>w. 0), en_readable = (\<lambda>k w. False), en_stream_fd = (\<lambda>k w. -1),
     en_source_fd = (\<lambda>k w. -1), en_read_event = (\<lambda>k. read), en_run = (\<lambda>p. Some),
     en_run_pin = (\<lambda>p ev. Some), en_external = (\<lambda>t now. Some)\<rparr>"

definition edge_source2 :: gpiod_source2 where
  "edge_source2 = \<lparr>gs2_chip = Some 0, gs2_request = Some 0, gs2_buffer = Some 0, gs2_line_offset = 17, gs2_requested_type = Change\<rparr>"

lemma gpiod_poll_never_returns_witness:
  "el_poll (edge_env (gs2_read_event three_edges)) 0 9 (al_init 4, pin_loop, (edge_source2, 0)) = None"
proof -
  have "case ct_poll_begin (el_tasks pin_loop ! 0) of None \<Rightarrow> False | Some (Pin_Events k c, _) \<Rightarrow> k = 0 \<and> c = 3 | Some _ \<Rightarrow> False"
    unfolding pin_loop_def by code_simp
  then obtain t where t: "ct_poll_begin (el_tasks pin_loop ! 0) = Some (Pin_Events 0 3, t)"
    by (auto split: option.splits el_callable.splits)
  have n: "0 < length (el_tasks pin_loop)" unfolding pin_loop_def by code_simp
  have "polls_source (edge_env (gs2_read_event three_edges)) (gs2_read_event three_edges) 0 pin_loop"
    using t n by (simp add: polls_source_def edge_env_def)
  moreover have "gs2_valid edge_source2" by (simp add: edge_source2_def gs2_valid_def)
  moreover have "gpiod_reads_wait three_edges" by (simp add: gpiod_reads_wait_def three_edges_def)
  ultimately show ?thesis by (intro gpiod_poll_never_returns [THEN conjunct2, rule_format] conjI)
qed

end
