(* ===== verification/Tcp_Clients.thy ===== *)
theory Tcp_Clients
  imports Tcp_Line
begin

text \<open>
  Applications that keep the connections of a line handler in a registry, as the example servers do: a
  callback interface as a locale, and what follows from it for any events the server reports. The
  registry (\<open>TcpConnectionRegistry\<close>, \<^verbatim>\<open>src/async_event_loop/tcp.hpp\<close>) then always holds exactly the
  connections that the handler (\<open>TcpLineServerHandler\<close>, \<^verbatim>\<open>tcp_line_protocol.hpp\<close>) has bound to slots.
\<close>

text \<open>The connections as the handlers see them, beside their own state.\<close>

definition beside :: "'w tcp_ops \<Rightarrow> ('a \<times> 'w) tcp_ops" where
  "beside ops =
     \<lparr>tc_valid = (\<lambda>c aw. tc_valid ops c (snd aw)), tc_close = (\<lambda>c (a, w). (a, tc_close ops c w)),
      tc_input_size = (\<lambda>c aw. tc_input_size ops c (snd aw)), tc_output_size = (\<lambda>c aw. tc_output_size ops c (snd aw)),
      tc_read = (\<lambda>c n (a, w). case tc_read ops c n w of (m, bytes, w1) \<Rightarrow> (m, bytes, (a, w1))),
      tc_write = (\<lambda>c bytes (a, w). case tc_write ops c bytes w of (m, w1) \<Rightarrow> (m, (a, w1)))\<rparr>"

lemma beside_source:
  fixes ops :: "'w tcp_ops" and g :: "'a \<Rightarrow> 'b"
  assumes "byte_source (connection_stream ops (Some c)) inbox rest winv"
  shows "byte_source (connection_stream (beside ops) (Some c)) (\<lambda>(a, w). inbox w) (\<lambda>(a, w). (g a, rest w)) (\<lambda>(a, w). P a \<and> winv w)"
proof
  fix aw :: "'a \<times> 'w"
  obtain a w where aw: "aw = (a, w)" by fastforce
  assume "case aw of (a, w) \<Rightarrow> P a \<and> winv w"
  with aw have i: "P a" "winv w" by simp_all
  show "bs_readable (connection_stream (beside ops) (Some c)) aw \<longleftrightarrow> (case aw of (a, w) \<Rightarrow> inbox w) \<noteq> []"
    using byte_source.readable_iff [OF assms i(2)]
    by (simp add: aw connection_stream_def cs_readable_def tc_readable_def beside_def)
  fix b bs
  assume "(case aw of (a, w) \<Rightarrow> inbox w) = b # bs"
  with aw have "inbox w = b # bs" by simp
  from byte_source.read_one [OF assms i(2) this] obtain w1 where
    "bs_read (connection_stream ops (Some c)) 1 w = (1, [b], w1)" "inbox w1 = bs" "rest w1 = rest w" "winv w1" by blast
  then show "\<exists>w'. bs_read (connection_stream (beside ops) (Some c)) 1 aw = (1, [b], w')
      \<and> (case w' of (a, w) \<Rightarrow> inbox w) = bs
      \<and> (case w' of (a, w) \<Rightarrow> (g a, rest w)) = (case aw of (a, w) \<Rightarrow> (g a, rest w))
      \<and> (case w' of (a, w) \<Rightarrow> P a \<and> winv w)"
    using i(1) by (intro exI [of _ "(a, w1)"]) (simp add: aw connection_stream_def cs_read_def beside_def)
qed

text \<open>What lines and reads leave as it is, reading from a connection leaves as it is.\<close>

locale reading_handler =
  fixes ops :: "'w tcp_ops" and h :: "'w line_handler" and val :: "'w \<Rightarrow> 'v"
  assumes val_line: "val (lh_on_line h c line w) = val w"
    and val_tcp_read: "val (snd (snd (tc_read ops c n w))) = val w"
begin

lemma val_deliver: "val (deliver (handle_line ops (lh_on_line h) c) vs w) = val w"
  by (induction vs arbitrary: w) (auto simp: handle_line_def val_line split: option.splits)

lemma val_poll:
  assumes "ls_poll_slot ops h i (s, w) = Some (s', w')"
  shows "val w' = val w"
proof -
  let ?c = "sl_connection (ls_slots s ! i)"
  from assms obtain r where p: "poll_loop (connection_stream ops ?c)
      (reader_step (line_byte line_options_default) (handle_line ops (lh_on_line h) ?c)) (sl_reader (ls_slots s ! i), w) = Some (r, w')"
    by (auto simp: ls_poll_slot_def line_poll_def Let_def)
  have "val (snd (r, w')) = val w"
  proof (rule poll_loop_keeps [where P = "\<lambda>rw. val (snd rw) = val w", OF p])
    fix q x m bytes x1
    assume "val (snd (q :: line_reader, x)) = val w" "bs_read (connection_stream ops ?c) 1 x = (m, bytes, x1)"
    then show "val (snd (q, x1)) = val w"
      using val_tcp_read [of _ 1 x] by (auto simp: connection_stream_def cs_read_def split: option.splits) (metis snd_conv)
  next
    fix b q x
    assume "val (snd (q :: line_reader, x)) = val w"
    then show "val (snd (reader_step (line_byte line_options_default) (handle_line ops (lh_on_line h) ?c) b (q, x))) = val w"
      by (auto simp: reader_step_def val_deliver split: prod.splits)
  qed simp
  then show ?thesis by simp
qed

end

text \<open>What all callbacks and the connections leave as it is, every event leaves as it is.\<close>

locale preserving_handler = reading_handler +
  assumes val_accept: "val (lh_on_accept h c peer w) = val w"
    and val_close: "val (lh_on_close h c w) = val w"
    and val_error: "val (lh_on_error h c code w) = val w"
    and val_listener: "val (lh_on_listener_error h code w) = val w"
    and val_too_many: "val (lh_on_too_many_connections h c w) = val w"
    and val_backpressure: "val (lh_on_backpressure h c info w) = val w"
    and val_tcp_close: "val (tc_close ops c w) = val w"
begin

lemma val_check: "ls_check_backpressure ops h i (s, w) = (s', w') \<Longrightarrow> val w' = val w"
  by (auto simp: ls_check_backpressure_def Let_def val_backpressure val_tcp_close split: option.splits if_splits prod.splits)

lemma val_fold: "fold (ls_check_backpressure ops h) is (s, w) = (s', w') \<Longrightarrow> val w' = val w"
proof (induction "is" arbitrary: s w)
  case (Cons i "is")
  obtain s1 w1 where c: "ls_check_backpressure ops h i (s, w) = (s1, w1)" by fastforce
  with Cons.IH [of s1 w1] Cons.prems val_check [OF c] show ?case by simp
qed simp

lemma val_event:
  assumes "ls_event ops h ev (s, w) = Some (s', w')"
  shows "val w' = val w"
proof (cases ev)
  case (Ev_Accept c peer)
  with assms show ?thesis
    by (auto simp: ls_on_accept_def Let_def val_accept val_too_many split: prod.splits option.splits)
next
  case (Ev_Data c)
  obtain slot s1 where a: "ls_acquire c s = (slot, s1)" by fastforce
  show ?thesis
  proof (cases slot)
    case None
    with assms Ev_Data a show ?thesis by (auto simp: ls_on_data_def val_too_many)
  next
    case (Some i)
    with assms Ev_Data a obtain s2 w2 where "ls_poll_slot ops h i (s1, w) = Some (s2, w2)"
      "ls_check_all_backpressure ops h (s2, w2) = (s', w')"
      by (auto simp: ls_on_data_def)
    with val_poll val_fold show ?thesis by (auto simp: ls_check_all_backpressure_def)
  qed
next
  case (Ev_Write_Ready c)
  with assms val_check show ?thesis by (auto simp: ls_on_write_ready_def split: option.splits)
qed (use assms in \<open>auto simp: ls_on_close_def ls_on_error_def ls_on_listener_error_def val_close val_error val_listener\<close>)

end

text \<open>The registry and the slots hold the same connections; a slot whose monitor fires is given up.\<close>

definition tracks :: "('w \<Rightarrow> tcp_registry) \<Rightarrow> nat \<Rightarrow> line_server \<Rightarrow> 'w \<Rightarrow> bool" where
  "tracks reg n s w \<longleftrightarrow> ls_inv n s \<and> tr_inv (reg w) \<and> tr_capacity (reg w) = length (ls_slots s)
     \<and> set (tr_list (reg w)) = ls_bound s"

definition gives_up :: "'w tcp_ops \<Rightarrow> bool \<Rightarrow> line_server \<Rightarrow> bool" where
  "gives_up ops prunes s \<longleftrightarrow> (bo_enabled (ls_backpressure s) \<longrightarrow>
     prunes \<and> bo_close_on_limit (ls_backpressure s) \<and> (\<forall>c w. \<not> tc_valid ops c (tc_close ops c w)))"

text \<open>
  \<open>reg\<close> is the registry in the state of the program. The callbacks add an accepted connection and remove a
  closed or failed one, and if \<open>prunes\<close> one that has been reported for backpressure; nothing else
  touches the registry.
\<close>

locale registering_handler = reading_handler ops h reg
  for ops :: "'w tcp_ops" and h :: "'w line_handler" and reg :: "'w \<Rightarrow> tcp_registry" +
  fixes prunes :: bool
  assumes reg_accept: "reg (lh_on_accept h c peer w) = snd (tr_add c (reg w))"
    and reg_close: "reg (lh_on_close h c w) = snd (tr_remove c (reg w))"
    and reg_error: "reg (lh_on_error h c code w) = snd (tr_remove c (reg w))"
    and reg_listener: "reg (lh_on_listener_error h code w) = reg w"
    and reg_too_many: "reg (lh_on_too_many_connections h c w) = reg w"
    and reg_backpressure: "prunes \<Longrightarrow> reg (lh_on_backpressure h c info w) = snd (tr_remove c (reg w))"
    and reg_tcp_close: "reg (tc_close ops c w) = reg w"
begin

lemma tracks_remove:
  assumes "tracks reg n s w" "ls_inv n s'" "ls_bound s' = ls_bound s - {c}" "length (ls_slots s') = length (ls_slots s)"
    "reg w' = snd (tr_remove c (reg w))"
  shows "tracks reg n s' w'"
  using assms tr_remove_spec [of "reg w" c "fst (tr_remove c (reg w))" "snd (tr_remove c (reg w))"]
  by (simp add: tracks_def)

lemma tracks_same:
  assumes "tracks reg n s w" "ls_inv n s'" "ls_bound s' = ls_bound s" "length (ls_slots s') = length (ls_slots s)" "reg w' = reg w"
  shows "tracks reg n s' w'"
  using assms by (simp add: tracks_def)

text \<open>A connection that gets a slot gets a place in the registry.\<close>

lemma tracks_add:
  assumes "tracks reg n s w" "ls_inv n s'" "ls_bound s' = insert c (ls_bound s)" "length (ls_slots s') = length (ls_slots s)"
  shows "fst (tr_add c (reg w))" "reg w' = snd (tr_add c (reg w)) \<Longrightarrow> tracks reg n s' w'"
proof -
  obtain ok r where a: "tr_add c (reg w) = (ok, r)" by fastforce
  have t: "ls_inv n s" "tr_inv (reg w)" "tr_capacity (reg w) = length (ls_slots s)" "set (tr_list (reg w)) = ls_bound s"
    using assms(1) by (simp_all add: tracks_def)
  note sp = tr_add_spec [OF t(2) a]
  have "ok"
  proof (cases "c \<in> ls_bound s")
    case True
    with sp(3) t(4) show ?thesis by simp
  next
    case False
    have "card (ls_bound s') \<le> length (ls_slots s)" using ls_bound_le [OF assms(2)] assms(4) by simp
    then have "card (set (tr_list (reg w))) < length (ls_slots s)" using False assms(3) t(4) by (simp add: ls_bound_def)
    moreover have "card (set (tr_list (reg w))) = length (tr_list (reg w))"
      using t(2) by (simp add: tr_inv_def distinct_card)
    ultimately show ?thesis using sp(3) t(3) by simp
  qed
  with a show "fst (tr_add c (reg w))" by simp
  show "tracks reg n s' w'" if "reg w' = snd (tr_add c (reg w))"
    using that a sp t assms(2-4) \<open>ok\<close> by (simp add: tracks_def)
qed

lemma tracks_acquire:
  assumes "tracks reg n s w" "fst (ls_acquire c s) \<noteq> None"
  shows "fst (tr_add c (reg w))"
proof -
  obtain slot s1 where a: "ls_acquire c s = (slot, s1)" by fastforce
  with assms(2) obtain i where "slot = Some i" by auto
  with ls_acquire_spec [OF _ a, of n] assms(1) have "ls_inv n s1" "ls_bound s1 = insert c (ls_bound s)"
    "length (ls_slots s1) = length (ls_slots s)" by (simp_all add: tracks_def)
  then show ?thesis by (rule tracks_add(1) [OF assms(1)])
qed

lemma tracks_check:
  assumes "tracks reg n s w" "gives_up ops prunes s" "i < length (ls_slots s)" "ls_check_backpressure ops h i (s, w) = (s', w')"
  shows "tracks reg n s' w' \<and> length (ls_slots s') = length (ls_slots s) \<and> ls_backpressure s' = ls_backpressure s"
proof -
  let ?sl = "ls_slots s ! i"
  have inv: "ls_inv n s" using assms(1) by (simp add: tracks_def)
  note sp = ls_check_backpressure_spec [OF inv assms(3,4)]
  note ok = slot_ok_nth [OF inv assms(3)]
  have "tracks reg n s' w'"
  proof (cases "bo_enabled (ls_backpressure s)")
    case False
    with sp assms(1) show ?thesis by simp
  next
    case True
    with assms(2) have g: "prunes" "bo_close_on_limit (ls_backpressure s)" "\<And>c w. \<not> tc_valid ops c (tc_close ops c w)"
      by (simp_all add: gives_up_def)
    consider (idle) "s' = s" "w' = w"
      | (live) c where "sl_connection ?sl = Some c" "tc_valid ops c w"
      using assms(4) by (auto simp: ls_check_backpressure_def Let_def split: option.splits if_splits)
    then show ?thesis
    proof cases
      case idle
      with assms(1) show ?thesis by simp
    next
      case live
      obtain fires info m where chk: "bm_check ops c w (sl_backpressure ?sl) = (fires, info, m)" by (metis prod_cases3)
      let ?sl1 = "?sl\<lparr>sl_backpressure := m\<rparr>"
      have ok1: "slot_ok n (ls_backpressure s) ?sl1" using ok bm_check_options [OF chk] by (simp add: slot_ok_def)
      show ?thesis
      proof (cases fires)
        case False
        with assms(4) live chk have "s' = ls_set_slot i ?sl1 s" "w' = w" by (simp_all add: ls_check_backpressure_def)
        with ls_set_slot_spec(1) [OF inv assms(3) ok1] show ?thesis by (intro tracks_same [OF assms(1)]) simp_all
      next
        case True
        let ?w1 = "lh_on_backpressure h c info w"
        let ?w2 = "if tc_valid ops c ?w1 then tc_close ops c ?w1 else ?w1"
        have v: "\<not> tc_valid ops c ?w2" using g(3) by simp
        have "s' = ls_set_slot i (sl_vacate ?sl1) s" "w' = ?w2"
          using assms(4) live chk True g(2) v by (simp_all add: ls_check_backpressure_def Let_def)
        with ls_vacate_spec [OF inv assms(3) live(1) ok1] show ?thesis
          by (intro tracks_remove [OF assms(1)]) (simp_all add: reg_tcp_close reg_backpressure [OF g(1)])
      qed
    qed
  qed
  with sp show ?thesis by simp
qed

lemma tracks_check_fold:
  assumes "tracks reg n s w" "gives_up ops prunes s" "\<forall>i \<in> set is. i < length (ls_slots s)"
    "fold (ls_check_backpressure ops h) is (s, w) = (s', w')"
  shows "tracks reg n s' w' \<and> length (ls_slots s') = length (ls_slots s) \<and> ls_backpressure s' = ls_backpressure s"
  using assms
proof (induction "is" arbitrary: s w)
  case (Cons i "is")
  obtain s1 w1 where c: "ls_check_backpressure ops h i (s, w) = (s1, w1)" by fastforce
  with Cons.prems(3) tracks_check [OF Cons.prems(1,2) _ c] have t: "tracks reg n s1 w1"
    "length (ls_slots s1) = length (ls_slots s)" "ls_backpressure s1 = ls_backpressure s" by simp_all
  with Cons.prems(2) have g: "gives_up ops prunes s1" by (simp add: gives_up_def)
  from Cons.prems(3,4) c t(2) have "fold (ls_check_backpressure ops h) is (s1, w1) = (s', w')"
    "\<forall>i \<in> set is. i < length (ls_slots s1)" by simp_all
  from Cons.IH [OF t(1) g this(2,1)] t show ?case by simp
qed simp

lemma tracks_poll:
  assumes "tracks reg n s w" "i < length (ls_slots s)" "ls_poll_slot ops h i (s, w) = Some (s', w')"
  shows "tracks reg n s' w' \<and> length (ls_slots s') = length (ls_slots s) \<and> ls_backpressure s' = ls_backpressure s"
proof -
  have inv: "ls_inv n s" using assms(1) by (simp add: tracks_def)
  from ls_poll_slot_spec [OF inv assms(2,3)] val_poll [OF assms(3)] show ?thesis
    by (simp add: tracks_same [OF assms(1)])
qed

lemma tracks_event:
  assumes t: "tracks reg n s w" and g: "gives_up ops prunes s" and known: "\<And>c. ev = Ev_Data c \<Longrightarrow> c \<in> ls_bound s"
    and run: "ls_event ops h ev (s, w) = Some (s', w')"
  shows "tracks reg n s' w' \<and> ls_backpressure s' = ls_backpressure s"
proof -
  have inv: "ls_inv n s" using t by (simp add: tracks_def)
  note sp = ls_event_spec [OF inv run]
  have "tracks reg n s' w'"
  proof (cases ev)
    case (Ev_Accept c peer)
    obtain slot s1 where a: "ls_acquire c s = (slot, s1)" by fastforce
    note asp = ls_acquire_spec [OF inv a]
    show ?thesis
    proof (cases slot)
      case None
      with run Ev_Accept a asp have "s' = s" "w' = lh_on_too_many_connections h c w" by (simp_all add: ls_on_accept_def)
      with t inv show ?thesis by (intro tracks_same [OF t]) (simp_all add: reg_too_many)
    next
      case (Some i)
      let ?sl = "(ls_slots s1 ! i)\<lparr>sl_backpressure := bm_reset (sl_backpressure (ls_slots s1 ! i))\<rparr>"
      from asp Some have i: "ls_inv n s1" "i < length (ls_slots s1)" by simp_all
      have "slot_ok n (ls_backpressure s1) ?sl" using slot_ok_nth [OF i] by (simp add: slot_ok_def)
      from ls_set_slot_spec(1) [OF i this] have "ls_bound (ls_set_slot i ?sl s1) = ls_bound s1" by simp
      with run Ev_Accept a Some asp have "w' = lh_on_accept h c peer w" "ls_bound s' = insert c (ls_bound s)"
        by (auto simp: ls_on_accept_def Let_def)
      with sp show ?thesis by (intro tracks_add(2) [OF t]) (simp_all add: reg_accept)
    qed
  next
    case (Ev_Data c)
    with known have c: "c \<in> ls_bound s" by simp
    then obtain i where f: "ls_find c s = Some i" using ls_find_spec(1) [of c s] by auto
    then have i: "i < length (ls_slots s)" "ls_acquire c s = (Some i, s)"
      using ls_find_spec(2) [OF f] by (simp_all add: ls_acquire_def)
    with run Ev_Data obtain s1 w1 where p: "ls_poll_slot ops h i (s, w) = Some (s1, w1)"
      and k: "ls_check_all_backpressure ops h (s1, w1) = (s', w')"
      by (auto simp: ls_on_data_def)
    from tracks_poll [OF t i(1) p] g have q: "tracks reg n s1 w1" "gives_up ops prunes s1" by (simp_all add: gives_up_def)
    from k have "fold (ls_check_backpressure ops h) [0..<length (ls_slots s1)] (s1, w1) = (s', w')"
      by (simp add: ls_check_all_backpressure_def)
    from tracks_check_fold [OF q _ this] show ?thesis by simp
  next
    case (Ev_Write_Ready c)
    show ?thesis
    proof (cases "ls_find c s")
      case None
      with run Ev_Write_Ready t show ?thesis by (simp add: ls_on_write_ready_def)
    next
      case (Some i)
      with run Ev_Write_Ready have "ls_check_backpressure ops h i (s, w) = (s', w')" by (simp add: ls_on_write_ready_def)
      from tracks_check [OF t g _ this] ls_find_spec(2) [OF Some] show ?thesis by simp
    qed
  next
    case (Ev_Close c)
    with run have "s' = ls_release c s" "w' = lh_on_close h c w" by (simp_all add: ls_on_close_def)
    with ls_release_spec [OF inv, of c] show ?thesis
      by (intro tracks_remove [OF t, of _ c]) (simp_all add: reg_close)
  next
    case (Ev_Error c code)
    with run have "s' = ls_release c s" "w' = lh_on_error h c code w" by (simp_all add: ls_on_error_def)
    with ls_release_spec [OF inv, of c] show ?thesis
      by (intro tracks_remove [OF t, of _ c]) (simp_all add: reg_error)
  next
    case (Ev_Listener_Error code)
    with run have "s' = s" "w' = lh_on_listener_error h code w" by (simp_all add: ls_on_listener_error_def)
    with inv show ?thesis by (intro tracks_same [OF t]) (simp_all add: reg_listener)
  qed
  with sp show ?thesis by simp
qed

end

end
