(* ===== verification/Mini_Signalk.thy ===== *)
theory Mini_Signalk
  imports Tcp_Clients
begin

text \<open>
  The Signal K bridge, the repository's largest example program:
  \<^verbatim>\<open>examples/support/mini_signalk_support.hpp\<close> and
  \<^verbatim>\<open>examples/MiniSignalKServerExample/MiniSignalKServerExample.ino\<close>. Two TCP servers with line handlers;
  wind sentences received on one are converted and sent to all clients of the other. Floating-point
  numbers are an arbitrary type \<open>'r\<close> with the operations the program uses; the log output is left out.
\<close>

section \<open>The data model\<close>

record 'r data_value =
  dv_value :: 'r
  dv_last_update_us :: u64
  dv_valid :: bool

definition dv_set :: "'r \<Rightarrow> u64 \<Rightarrow> 'r data_value \<Rightarrow> 'r data_value" where
  "dv_set new_value now_us v = v\<lparr>dv_value := new_value, dv_last_update_us := now_us, dv_valid := True\<rparr>"

record 'r data_model =
  dm_direction :: "'r data_value"
  dm_speed :: "'r data_value"

definition dm_has_apparent_wind :: "'r data_model \<Rightarrow> bool" where
  "dm_has_apparent_wind m \<longleftrightarrow> dv_valid (dm_direction m) \<and> dv_valid (dm_speed m)"

text \<open>
  The floating-point arithmetic: \<open>strtod\<close> with the number of characters it uses (narrowed to \<open>float\<close>),
  literals, and the text that \<^verbatim>\<open>%.6f\<close> prints.
\<close>

record 'r real_ops =
  re_strtod :: "byte list \<Rightarrow> 'r \<times> nat"
  re_literal :: "string \<Rightarrow> 'r"
  re_mul :: "'r \<Rightarrow> 'r \<Rightarrow> 'r"
  re_div :: "'r \<Rightarrow> 'r \<Rightarrow> 'r"
  re_fixed6 :: "'r \<Rightarrow> byte list"

section \<open>\<open>NmeaTokenizer\<close>\<close>

text \<open>The text is the array the pointers point into, a pointer an index, the null pointer \<open>None\<close>.\<close>

record nmea_tokenizer =
  tk_text :: "byte list"
  tk_fields :: "nat option list"
  tk_field_count :: nat

definition tk_max_fields :: nat where
  "tk_max_fields = 8"

abbreviation chr_comma :: byte where "chr_comma \<equiv> 44"

definition strchr :: "byte list \<Rightarrow> nat \<Rightarrow> byte \<Rightarrow> nat option" where
  "strchr txt start c = map_option ((+) start) (first_slot (\<lambda>b. b = c) (c_string (drop start txt)))"

fun tk_loop :: "nat \<Rightarrow> nat \<Rightarrow> nmea_tokenizer \<Rightarrow> nmea_tokenizer" where
  "tk_loop 0 field_start t = t"
| "tk_loop (Suc n) field_start t =
     (let t1 = t\<lparr>tk_fields := (tk_fields t)[tk_field_count t := Some field_start], tk_field_count := tk_field_count t + 1\<rparr>
      in case strchr (tk_text t) field_start chr_comma of
           None \<Rightarrow> t1
         | Some comma \<Rightarrow> tk_loop n (comma + 1) (t1\<lparr>tk_text := (tk_text t)[comma := 0]\<rparr>))"

definition tk_reset :: "nmea_tokenizer \<Rightarrow> nmea_tokenizer" where
  "tk_reset t = t\<lparr>tk_fields := replicate tk_max_fields None, tk_field_count := 0\<rparr>"

definition tk_tokenize :: "byte list option \<Rightarrow> nmea_tokenizer \<Rightarrow> bool \<times> nmea_tokenizer" where
  "tk_tokenize text_opt t =
     (let t0 = tk_reset t
      in case text_opt of
           None \<Rightarrow> (False, t0)
         | Some txt \<Rightarrow> let t1 = tk_loop tk_max_fields 0 (t0\<lparr>tk_text := txt\<rparr>) in (tk_field_count t1 > 0, t1))"

definition tk_field :: "nmea_tokenizer \<Rightarrow> int \<Rightarrow> byte list" where
  "tk_field t index =
     (if index < 0 \<or> index \<ge> int (tk_field_count t) then []
      else case tk_fields t ! nat index of None \<Rightarrow> [] | Some p \<Rightarrow> c_string (drop p (tk_text t)))"

definition tk_init :: nmea_tokenizer where
  "tk_init = \<lparr>tk_text = [], tk_fields = replicate tk_max_fields None, tk_field_count = 0\<rparr>"

section \<open>\<open>parse_mwv\<close> and \<open>format_signalk_wind_update\<close>\<close>

definition speed_factor :: "'r real_ops \<Rightarrow> byte list \<Rightarrow> 'r option" where
  "speed_factor ro unit_field =
     (if unit_field = bytes_of ''N'' then Some (re_literal ro ''0.514444'')
      else if unit_field = bytes_of ''M'' then Some (re_literal ro ''1'')
      else if unit_field = bytes_of ''K'' then Some (re_div ro (re_literal ro ''1000'') (re_literal ro ''3600''))
      else None)"

definition parse_mwv :: "'r real_ops \<Rightarrow> nmea_tokenizer \<Rightarrow> u64 \<Rightarrow> 'r data_model \<Rightarrow> bool \<times> 'r data_model" where
  "parse_mwv ro t now_us model =
     (if tk_field_count t < 6 \<or> length (tk_field t 0) < 3 then (False, model)
      else let talker_sentence = tk_field t 0;
               sentence = drop (length talker_sentence - 3) talker_sentence
           in if sentence \<noteq> bytes_of ''MWV'' then (False, model)
              else if tk_field t 2 \<noteq> bytes_of ''R'' \<or> take 1 (tk_field t 5) \<noteq> bytes_of ''A'' then (False, model)
              else let (angle_deg, angle_used) = re_strtod ro (tk_field t 1);
                       (speed_value, speed_used) = re_strtod ro (tk_field t 3)
                   in if angle_used = 0 \<or> speed_used = 0 then (False, model)
                      else case speed_factor ro (tk_field t 4) of
                             None \<Rightarrow> (False, model)
                           | Some factor \<Rightarrow>
                               (True, model\<lparr>
                                  dm_direction := dv_set (re_div ro (re_mul ro angle_deg (re_literal ro ''3.14159265358979323846''))
                                      (re_literal ro ''180'')) now_us (dm_direction model),
                                  dm_speed := dv_set (re_mul ro speed_value factor) now_us (dm_speed model)\<rparr>))"

text \<open>The text that the format string produces, and the array \<open>dst\<close> after \<open>snprintf\<close> of it.\<close>

definition signalk_text :: "string \<Rightarrow> byte list \<Rightarrow> byte list \<Rightarrow> byte list" where
  "signalk_text label direction speed =
     bytes_of ''{\"updates\":[{\"source\":{\"label\":\"'' @ bytes_of label @ bytes_of ''\"},\"values\":[{\"path\":\"environment.wind.angleApparent\",\"value\":''
     @ direction @ bytes_of ''},{\"path\":\"environment.wind.speedApparent\",\"value\":''
     @ speed @ bytes_of ''}]}]}'' @ [chr_lf]"

definition snprintf :: "byte list \<Rightarrow> byte list \<Rightarrow> int \<times> byte list" where
  "snprintf txt dst =
     (int (length txt), let n = min (length txt) (length dst - 1) in take n txt @ 0 # drop (Suc n) dst)"

definition format_signalk_wind_update ::
  "'r real_ops \<Rightarrow> 'r data_model \<Rightarrow> byte list option \<Rightarrow> string option \<Rightarrow> int \<times> byte list option" where
  "format_signalk_wind_update ro model dst source_label =
     (case dst of
        None \<Rightarrow> (0, None)
      | Some d \<Rightarrow>
          if length d = 0 \<or> \<not> dm_has_apparent_wind model then (0, dst)
          else apsnd Some (snprintf
            (signalk_text (case source_label of None \<Rightarrow> ''mini-signalk'' | Some l \<Rightarrow> l)
               (re_fixed6 ro (dv_value (dm_direction model))) (re_fixed6 ro (dv_value (dm_speed model)))) d))"

section \<open>The Signal K side\<close>

record signalk_callbacks =
  sk_clients :: tcp_registry
  sk_accepted :: int
  sk_incoming_lines :: int
  sk_broadcasts :: int
  sk_backpressure_disconnects :: int

definition sk_init :: signalk_callbacks where
  "sk_init = \<lparr>sk_clients = tr_init 8, sk_accepted = 0, sk_incoming_lines = 0, sk_broadcasts = 0, sk_backpressure_disconnects = 0\<rparr>"

definition sk_on_accept :: "'w tcp_ops \<Rightarrow> nat \<Rightarrow> tcp_peer_info \<Rightarrow> signalk_callbacks \<times> 'w \<Rightarrow> signalk_callbacks \<times> 'w" where
  "sk_on_accept ops c peer kw =
     (case kw of (k, w) \<Rightarrow> case tr_add c (sk_clients k) of (ok, r) \<Rightarrow>
        if \<not> ok then (k\<lparr>sk_clients := r\<rparr>, tc_close ops c w)
        else (k\<lparr>sk_clients := r, sk_accepted := sk_accepted k + 1\<rparr>, w))"

definition sk_on_line :: "nat \<Rightarrow> byte list \<Rightarrow> signalk_callbacks \<times> 'w \<Rightarrow> signalk_callbacks \<times> 'w" where
  "sk_on_line c line kw = (case kw of (k, w) \<Rightarrow> (k\<lparr>sk_incoming_lines := sk_incoming_lines k + 1\<rparr>, w))"

definition sk_remove :: "nat \<Rightarrow> signalk_callbacks \<Rightarrow> signalk_callbacks" where
  "sk_remove c k = k\<lparr>sk_clients := snd (tr_remove c (sk_clients k))\<rparr>"

definition sk_on_backpressure :: "nat \<Rightarrow> bp_info \<Rightarrow> signalk_callbacks \<times> 'w \<Rightarrow> signalk_callbacks \<times> 'w" where
  "sk_on_backpressure c info kw =
     (case kw of (k, w) \<Rightarrow> (sk_remove c (k\<lparr>sk_backpressure_disconnects := sk_backpressure_disconnects k + 1\<rparr>), w))"

definition sk_handler :: "'w tcp_ops \<Rightarrow> (signalk_callbacks \<times> 'w) line_handler" where
  "sk_handler ops =
     \<lparr>lh_on_accept = sk_on_accept ops, lh_on_line = sk_on_line,
      lh_on_close = (\<lambda>c (k, w). (sk_remove c k, w)), lh_on_error = (\<lambda>c code (k, w). (sk_remove c k, w)),
      lh_on_listener_error = (\<lambda>code kw. kw), lh_on_too_many_connections = (\<lambda>c (k, w). (k, tc_close ops c w)),
      lh_on_backpressure = sk_on_backpressure\<rparr>"

text \<open>The array \<open>json\<close> is not initialized; only what has been printed into it is sent.\<close>

definition sk_broadcast_wind_update ::
  "'w tcp_ops \<Rightarrow> 'r real_ops \<Rightarrow> byte list \<Rightarrow> 'r data_model \<Rightarrow> signalk_callbacks \<times> 'w \<Rightarrow> signalk_callbacks \<times> 'w" where
  "sk_broadcast_wind_update ops ro json model kw =
     (case kw of (k, w) \<Rightarrow>
        case format_signalk_wind_update ro model (Some json) (Some ''mini-signalk'') of (len, dst) \<Rightarrow>
          if len \<le> 0 \<or> len \<ge> int (length json) then (k, w)
          else (k\<lparr>sk_broadcasts := sk_broadcasts k + 1\<rparr>,
                tr_for_each ops (\<lambda>peer w. snd (tc_write ops peer (take (nat len) (the dst)) w)) (sk_clients k) w))"

section \<open>The NMEA side\<close>

record 'r nmea_callbacks =
  nm_sources :: tcp_registry
  nm_data_model :: "'r data_model"
  nm_accepted :: int
  nm_updates :: int

definition nm_init :: "'r real_ops \<Rightarrow> 'r nmea_callbacks" where
  "nm_init ro =
     (let v = \<lparr>dv_value = re_literal ro ''0'', dv_last_update_us = 0, dv_valid = False\<rparr>
      in \<lparr>nm_sources = tr_init 4, nm_data_model = \<lparr>dm_direction = v, dm_speed = v\<rparr>, nm_accepted = 0, nm_updates = 0\<rparr>)"

definition nm_on_accept :: "'w tcp_ops \<Rightarrow> nat \<Rightarrow> tcp_peer_info \<Rightarrow> 'r nmea_callbacks \<times> 'w \<Rightarrow> 'r nmea_callbacks \<times> 'w" where
  "nm_on_accept ops c peer nw =
     (case nw of (n, w) \<Rightarrow> case tr_add c (nm_sources n) of (ok, r) \<Rightarrow>
        if \<not> ok then (n\<lparr>nm_sources := r\<rparr>, tc_close ops c w)
        else (n\<lparr>nm_sources := r, nm_accepted := nm_accepted n + 1\<rparr>, w))"

definition nm_remove :: "nat \<Rightarrow> 'r nmea_callbacks \<Rightarrow> 'r nmea_callbacks" where
  "nm_remove c n = n\<lparr>nm_sources := snd (tr_remove c (nm_sources n))\<rparr>"

text \<open>The local arrays \<open>text\<close> and \<open>json\<close> hold anything before they are written; \<open>clock\<close> is the loop's clock.\<close>

definition nm_on_line ::
  "'w tcp_ops \<Rightarrow> 'r real_ops \<Rightarrow> ('w \<Rightarrow> u64) \<Rightarrow> byte list \<Rightarrow> byte list \<Rightarrow> nat \<Rightarrow> byte list
     \<Rightarrow> 'r nmea_callbacks \<times> signalk_callbacks \<times> 'w \<Rightarrow> 'r nmea_callbacks \<times> signalk_callbacks \<times> 'w" where
  "nm_on_line sk_ops ro clock txt json c line nkw =
     (case nkw of (n, k, w) \<Rightarrow>
        case tk_tokenize (Some (line_to_cstr line txt)) tk_init of (tokenized, t) \<Rightarrow>
          if \<not> tokenized then (n, k, w)
          else case parse_mwv ro t (clock w) (nm_data_model n) of (parsed, model) \<Rightarrow>
            if \<not> parsed then (n\<lparr>nm_data_model := model\<rparr>, k, w)
            else (n\<lparr>nm_data_model := model, nm_updates := nm_updates n + 1\<rparr>,
                  sk_broadcast_wind_update sk_ops ro json model (k, w)))"

definition nm_handler ::
  "'w tcp_ops \<Rightarrow> 'w tcp_ops \<Rightarrow> 'r real_ops \<Rightarrow> ('w \<Rightarrow> u64) \<Rightarrow> byte list \<Rightarrow> byte list
     \<Rightarrow> ('r nmea_callbacks \<times> signalk_callbacks \<times> 'w) line_handler" where
  "nm_handler nm_ops sk_ops ro clock txt json =
     \<lparr>lh_on_accept = (\<lambda>c peer (n, k, w). case nm_on_accept nm_ops c peer (n, w) of (n1, w1) \<Rightarrow> (n1, k, w1)),
      lh_on_line = nm_on_line sk_ops ro clock txt json,
      lh_on_close = (\<lambda>c (n, kw). (nm_remove c n, kw)), lh_on_error = (\<lambda>c code (n, kw). (nm_remove c n, kw)),
      lh_on_listener_error = (\<lambda>code nkw. nkw), lh_on_too_many_connections = (\<lambda>c (n, k, w). (n, k, tc_close nm_ops c w)),
      lh_on_backpressure = (\<lambda>c info nkw. nkw)\<rparr>"

section \<open>The program\<close>

text \<open>\<open>make_signalk_options\<close>, on Arduino and on Linux, and the two handlers as they are constructed.\<close>

definition make_signalk_options :: "bool \<Rightarrow> bp_options" where
  "make_signalk_options arduino = (if arduino then bp_embedded_default else bp_server_default)"

definition signalk_lines_init :: "bool \<Rightarrow> line_server" where
  "signalk_lines_init arduino = ls_init 256 8 (make_signalk_options arduino)"

definition nmea_lines_init :: line_server where
  "nmea_lines_init = ls_init 192 4 bp_disabled"

datatype bridge_event = Signalk tcp_event | Nmea tcp_event

type_synonym ('r, 'w) bridge = "line_server \<times> line_server \<times> 'r nmea_callbacks \<times> signalk_callbacks \<times> 'w"

definition bridge_init :: "bool \<Rightarrow> 'r real_ops \<Rightarrow> 'w \<Rightarrow> ('r, 'w) bridge" where
  "bridge_init arduino ro w = (signalk_lines_init arduino, nmea_lines_init, nm_init ro, sk_init, w)"

text \<open>One event that one of the two servers reports.\<close>

fun bridge_step ::
  "'w tcp_ops \<Rightarrow> 'w tcp_ops \<Rightarrow> 'r real_ops \<Rightarrow> ('w \<Rightarrow> u64) \<Rightarrow> byte list \<Rightarrow> byte list
     \<Rightarrow> bridge_event \<Rightarrow> ('r, 'w) bridge \<Rightarrow> ('r, 'w) bridge option" where
  "bridge_step sk_ops nm_ops ro clock txt json (Signalk ev) (sl, nl, n, k, w) =
     map_option (\<lambda>(sl1, k1, w1). (sl1, nl, n, k1, w1)) (ls_event (beside sk_ops) (sk_handler sk_ops) ev (sl, k, w))"
| "bridge_step sk_ops nm_ops ro clock txt json (Nmea ev) (sl, nl, n, k, w) =
     map_option (\<lambda>(nl1, n1, k1, w1). (sl, nl1, n1, k1, w1))
       (ls_event (beside (beside nm_ops)) (nm_handler nm_ops sk_ops ro clock txt json) ev (nl, n, k, w))"

section \<open>The tokenizer splits at commas\<close>

text \<open>The parts of a text between the occurrences of \<open>c\<close>.\<close>

primrec split_on :: "'a \<Rightarrow> 'a list \<Rightarrow> 'a list list" where
  "split_on c [] = [[]]"
| "split_on c (x # xs) =
     (if x = c then [] # split_on c xs else case split_on c xs of [] \<Rightarrow> [[x]] | f # fs \<Rightarrow> (x # f) # fs)"

lemma split_on_none: "c \<notin> set s \<Longrightarrow> split_on c s = [s]"
  by (induction s) auto

lemma split_on_first: "c \<notin> set f \<Longrightarrow> split_on c (f @ c # s) = f # split_on c s"
  by (induction f) auto

lemma split_on_not_Nil [simp]: "split_on c s \<noteq> []"
  by (cases s) (auto split: list.split)

lemma c_string_simps [simp]:
  "c_string [] = []" "c_string (0 # s) = []" "b \<noteq> 0 \<Longrightarrow> c_string (b # s) = b # c_string s"
  by (simp_all add: c_string_def)

lemma c_string_no_zero: "0 \<notin> set (c_string s)"
  by (auto simp: c_string_def dest: set_takeWhileD)

lemma c_string_append: "0 \<notin> set f \<Longrightarrow> c_string (f @ s) = f @ c_string s"
  by (induction f) (auto simp: c_string_def)

lemma c_string_split: obtains z where "s = c_string s @ z" "c_string z = []"
proof
  show "s = c_string s @ dropWhile (\<lambda>b. b \<noteq> 0) s" by (simp add: c_string_def)
  show "c_string (dropWhile (\<lambda>b. b \<noteq> 0) s) = []"
    by (induction s) (auto simp: c_string_def)
qed

lemma first_slot_first: "\<forall>x \<in> set f. \<not> P x \<Longrightarrow> P c \<Longrightarrow> first_slot P (f @ c # s) = Some (length f)"
  by (induction f) auto

lemma tk_loop_spec:
  assumes "tk_text t = A @ B" "length A = start" "tk_field_count t + n \<le> length (tk_fields t)"
  shows "\<exists>B' ps. tk_loop n start t = t\<lparr>tk_text := A @ B',
        tk_fields := take (tk_field_count t) (tk_fields t) @ map Some ps @ drop (tk_field_count t + length ps) (tk_fields t),
        tk_field_count := tk_field_count t + length ps\<rparr>
      \<and> map (\<lambda>p. c_string (drop p (A @ B'))) ps = take n (split_on chr_comma (c_string B))"
  using assms
proof (induction n arbitrary: start t A B)
  case 0
  then show ?case by (intro exI [of _ B] exI [of _ "[]"]) simp
next
  case (Suc n)
  let ?k = "tk_field_count t"
  let ?t1 = "t\<lparr>tk_fields := (tk_fields t)[?k := Some start], tk_field_count := ?k + 1\<rparr>"
  have d: "drop start (tk_text t) = B" using Suc.prems by simp
  have k: "?k < length (tk_fields t)" using Suc.prems by simp
  then have upd: "(tk_fields t)[?k := Some start] = take ?k (tk_fields t) @ Some start # drop (Suc ?k) (tk_fields t)"
    by (rule upd_conv_take_nth_drop)
  show ?case
  proof (cases "chr_comma \<in> set (c_string B)")
    case False
    then have s: "strchr (tk_text t) start chr_comma = None"
      by (auto simp: strchr_def d first_slot_None in_set_conv_nth)
    with upd Suc.prems False show ?thesis
      by (intro exI [of _ B] exI [of _ "[start]"]) (simp add: split_on_none)
  next
    case True
    then obtain f s where fs: "c_string B = f @ chr_comma # s" "chr_comma \<notin> set f" by (meson split_list_first)
    obtain z where z: "B = c_string B @ z" "c_string z = []" by (rule c_string_split)
    have nz: "0 \<notin> set f" "0 \<notin> set s" using c_string_no_zero [of B] fs by auto
    have s: "strchr (tk_text t) start chr_comma = Some (start + length f)"
      using fs first_slot_first [of f "\<lambda>b. b = chr_comma" chr_comma s] by (auto simp: strchr_def d)
    let ?A = "A @ f @ [0]" and ?t2 = "?t1\<lparr>tk_text := (tk_text t)[start + length f := 0]\<rparr>"
    have B: "B = f @ chr_comma # s @ z" using z fs by simp
    then have t2: "tk_text ?t2 = ?A @ (s @ z)" "length ?A = start + length f + 1"
      using Suc.prems(1,2) by (auto simp: list_update_append)
    have "tk_field_count ?t2 + n \<le> length (tk_fields ?t2)" using Suc.prems(3) by simp
    from Suc.IH [OF t2 this] obtain B' ps where IH:
      "tk_loop n (start + length f + 1) ?t2 = ?t2\<lparr>tk_text := ?A @ B',
        tk_fields := take (?k + 1) (tk_fields ?t2) @ map Some ps @ drop (?k + 1 + length ps) (tk_fields ?t2),
        tk_field_count := ?k + 1 + length ps\<rparr>"
      "map (\<lambda>p. c_string (drop p (?A @ B'))) ps = take n (split_on chr_comma (c_string (s @ z)))" by auto
    have "c_string (s @ z) = s" using nz z(2) by (simp add: c_string_append)
    moreover have "c_string (drop start (?A @ B')) = f" using Suc.prems(2) nz by (simp add: c_string_append)
    ultimately have "map (\<lambda>p. c_string (drop p (A @ f @ 0 # B'))) (start # ps) = take (Suc n) (split_on chr_comma (c_string B))"
      using IH(2) fs by (simp add: split_on_first)
    moreover have "tk_loop (Suc n) start t = t\<lparr>tk_text := A @ f @ 0 # B',
        tk_fields := take ?k (tk_fields t) @ map Some (start # ps) @ drop (?k + length (start # ps)) (tk_fields t),
        tk_field_count := ?k + length (start # ps)\<rparr>"
      using s IH(1) k by (simp add: upd min_def drop_Cons' add.commute)
    ultimately show ?thesis by (intro exI [of _ "f @ 0 # B'"] exI [of _ "start # ps"]) simp
  qed
qed

text \<open>The fields of a tokenized text are its first eight parts between commas.\<close>

lemma tokenize_fields:
  assumes "tk_tokenize (Some txt) t = (ok, t')"
  shows "ok" "tk_field_count t' = min 8 (length (split_on chr_comma (c_string txt)))"
    "i < tk_field_count t' \<Longrightarrow> tk_field t' (int i) = split_on chr_comma (c_string txt) ! i"
proof -
  define t0 where "t0 = (tk_reset t)\<lparr>tk_text := txt\<rparr>"
  define s where "s = split_on chr_comma (c_string txt)"
  have t0: "tk_text t0 = [] @ txt" "tk_field_count t0 + 8 \<le> length (tk_fields t0)" "tk_field_count t0 = 0"
    by (simp_all add: t0_def tk_reset_def tk_max_fields_def)
  from tk_loop_spec [OF t0(1) _ t0(2), of 0] obtain B' ps where
    l: "tk_loop 8 0 t0 = t0\<lparr>tk_text := B', tk_fields := map Some ps @ drop (length ps) (tk_fields t0),
        tk_field_count := length ps\<rparr>"
      "map (\<lambda>p. c_string (drop p B')) ps = take 8 s"
    unfolding s_def by (simp only: t0(3) append_Nil list.size add_0 take_0 simp_thms) blast
  have "t' = tk_loop 8 0 t0 \<and> (ok \<longleftrightarrow> tk_field_count (tk_loop 8 0 t0) > 0)"
    using assms by (auto simp: tk_tokenize_def tk_max_fields_def Let_def t0_def)
  then have t': "t' = tk_loop 8 0 t0" "ok \<longleftrightarrow> length ps > 0" by (simp_all add: l(1))
  have n: "length ps = min 8 (length s)" using arg_cong [OF l(2), of length] by simp
  then show "tk_field_count t' = min 8 (length (split_on chr_comma (c_string txt)))" by (simp add: t'(1) l(1) s_def)
  show "ok" using t'(2) n by (cases s) (simp_all add: s_def)
  assume i: "i < tk_field_count t'"
  then have "i < length ps" by (simp add: t'(1) l(1))
  then have "tk_field t' (int i) = map (\<lambda>p. c_string (drop p B')) ps ! i"
    by (simp add: tk_field_def t'(1) l(1) nth_append)
  also have "\<dots> = s ! i" using i n by (simp add: l t'(1))
  finally show "tk_field t' (int i) = split_on chr_comma (c_string txt) ! i" by (simp add: s_def)
qed

section \<open>A line is converted and sent to all clients\<close>

text \<open>What a wind sentence says, on its fields: the angle in radians and the speed in meters per second.\<close>

definition mwv_values :: "'r real_ops \<Rightarrow> byte list list \<Rightarrow> ('r \<times> 'r) option" where
  "mwv_values ro fs =
     (if length fs < 6 then None
      else if length (fs ! 0) < 3 \<or> drop (length (fs ! 0) - 3) (fs ! 0) \<noteq> bytes_of ''MWV'' \<or> fs ! 2 \<noteq> bytes_of ''R''
        \<or> fs ! 5 = [] \<or> hd (fs ! 5) \<noteq> of_char CHR ''A'' then None
      else if snd (re_strtod ro (fs ! 1)) = 0 \<or> snd (re_strtod ro (fs ! 3)) = 0 then None
      else map_option (\<lambda>factor.
          (re_div ro (re_mul ro (fst (re_strtod ro (fs ! 1))) (re_literal ro ''3.14159265358979323846'')) (re_literal ro ''180''),
           re_mul ro (fst (re_strtod ro (fs ! 3))) factor)) (speed_factor ro (fs ! 4)))"

definition dm_update :: "'r \<times> 'r \<Rightarrow> u64 \<Rightarrow> 'r data_model \<Rightarrow> 'r data_model" where
  "dm_update ds now_us m = m\<lparr>dm_direction := dv_set (fst ds) now_us (dm_direction m), dm_speed := dv_set (snd ds) now_us (dm_speed m)\<rparr>"

lemma parse_mwv_values:
  assumes "tk_field_count t = min 8 (length fs)" "\<And>i. i < tk_field_count t \<Longrightarrow> tk_field t (int i) = fs ! i"
  shows "parse_mwv ro t now_us m = (case mwv_values ro fs of None \<Rightarrow> (False, m) | Some ds \<Rightarrow> (True, dm_update ds now_us m))"
proof (cases "length fs < 6")
  case True
  with assms(1) show ?thesis by (simp add: parse_mwv_def mwv_values_def)
next
  case False
  with assms(1) have c: "6 \<le> tk_field_count t" by simp
  then have f: "tk_field t 0 = fs ! 0" "tk_field t 1 = fs ! 1" "tk_field t 2 = fs ! 2" "tk_field t 3 = fs ! 3"
    "tk_field t 4 = fs ! 4" "tk_field t 5 = fs ! 5"
    using assms(2) [of 0] assms(2) [of 1] assms(2) [of 2] assms(2) [of 3] assms(2) [of 4] assms(2) [of 5] by simp_all
  have a: "take 1 (fs ! 5) \<noteq> bytes_of ''A'' \<longleftrightarrow> fs ! 5 = [] \<or> hd (fs ! 5) \<noteq> of_char CHR ''A''"
    by (cases "fs ! 5") (simp_all add: bytes_of_def)
  obtain av au where av: "re_strtod ro (fs ! 1) = (av, au)" by fastforce
  obtain sv su where sv: "re_strtod ro (fs ! 3) = (sv, su)" by fastforce
  show ?thesis
    unfolding parse_mwv_def mwv_values_def f a Let_def using c False
    by (simp add: av [simplified] sv dm_update_def split: option.split)
qed

text \<open>What a received line says, and what is sent for it.\<close>

definition line_wind :: "'r real_ops \<Rightarrow> byte list \<Rightarrow> ('r \<times> 'r) option" where
  "line_wind ro line = mwv_values ro (split_on chr_comma (c_string (take 159 line)))"

definition wind_update_text :: "'r real_ops \<Rightarrow> 'r \<times> 'r \<Rightarrow> byte list" where
  "wind_update_text ro ds = signalk_text ''mini-signalk'' (re_fixed6 ro (fst ds)) (re_fixed6 ro (snd ds))"

definition send_all :: "'w tcp_ops \<Rightarrow> byte list \<Rightarrow> nat list \<Rightarrow> 'w \<Rightarrow> 'w" where
  "send_all ops bytes cs w = fold (\<lambda>c w. if tc_valid ops c w then snd (tc_write ops c bytes w) else w) cs w"

lemma c_string_zero: "c_string (xs @ 0 # ys) = c_string xs"
  by (induction xs) (auto simp: c_string_def)

lemma c_string_line_to_cstr:
  assumes "0 < length dst"
  shows "c_string (line_to_cstr line dst) = c_string (take (length dst - 1) line)"
proof -
  let ?n = "if length line \<ge> length dst then length dst - 1 else length line"
  have n: "?n < length dst" "?n \<le> length line" "take ?n line = take (length dst - 1) line"
    using assms by (auto simp: take_all)
  have "(take ?n line @ drop ?n dst)[?n := 0] = take ?n line @ 0 # drop (Suc ?n) dst"
    using n(1,2) by (simp add: list_update_append Cons_nth_drop_Suc [symmetric])
  with assms n(3) show ?thesis by (simp add: line_to_cstr_def Let_def c_string_zero)
qed

lemma broadcast_spec:
  assumes "length json = 512" "dm_has_apparent_wind m"
    "x = signalk_text ''mini-signalk'' (re_fixed6 ro (dv_value (dm_direction m))) (re_fixed6 ro (dv_value (dm_speed m)))"
  shows "sk_broadcast_wind_update ops ro json m (k, w) =
    (if length x < 512 then (k\<lparr>sk_broadcasts := sk_broadcasts k + 1\<rparr>, send_all ops x (tr_list (sk_clients k)) w) else (k, w))"
proof -
  have e: "format_signalk_wind_update ro m (Some json) (Some ''mini-signalk'')
      = (int (length x), Some (take (min (length x) 511) x @ 0 # drop (Suc (min (length x) 511)) json))"
    using assms by (simp add: format_signalk_wind_update_def snprintf_def Let_def)
  have pos: "0 < length x" by (simp add: assms(3) signalk_text_def)
  show ?thesis
  proof (cases "length x < 512")
    case True
    then have "take (length x) (take (min (length x) 511) x @ 0 # drop (Suc (min (length x) 511)) json) = x" by simp
    with True pos show ?thesis
      by (simp add: sk_broadcast_wind_update_def e assms(1) send_all_def tr_for_each_eq cong: if_cong)
  next
    case False
    then show ?thesis by (simp add: sk_broadcast_wind_update_def e assms(1))
  qed
qed

text \<open>
  For every received line, the bridge does what the wind sentence in it says: it takes the part before
  the first zero byte of the first 159 bytes, splits it at commas, and if the fields are those of a valid
  relative \<open>MWV\<close> sentence it stores angle and speed with the time, counts an update, and writes one Signal K
  text with both, as long as it is shorter than 512 bytes, to every registered client that is still
  valid, in the order of the registry; otherwise nothing changes.
\<close>

theorem nmea_line_converted:
  assumes "length tx = 160" "length json = 512"
  shows "nm_on_line sk_ops ro clock tx json c line (n, k, w) =
    (case line_wind ro line of
       None \<Rightarrow> (n, k, w)
     | Some ds \<Rightarrow>
         (n\<lparr>nm_data_model := dm_update ds (clock w) (nm_data_model n), nm_updates := nm_updates n + 1\<rparr>,
          if length (wind_update_text ro ds) < 512
          then (k\<lparr>sk_broadcasts := sk_broadcasts k + 1\<rparr>,
                send_all sk_ops (wind_update_text ro ds) (tr_list (sk_clients k)) w)
          else (k, w)))"
proof -
  obtain ok t where t: "tk_tokenize (Some (line_to_cstr line tx)) tk_init = (ok, t)" by fastforce
  let ?fs = "split_on chr_comma (c_string (take 159 line))"
  have "c_string (line_to_cstr line tx) = c_string (take 159 line)"
    using c_string_line_to_cstr [of tx line] assms(1) by simp
  note f = tokenize_fields [OF t, unfolded this]
  have p: "parse_mwv ro t (clock w) (nm_data_model n) = (case line_wind ro line of
      None \<Rightarrow> (False, nm_data_model n) | Some ds \<Rightarrow> (True, dm_update ds (clock w) (nm_data_model n)))"
    using parse_mwv_values [of t ?fs ro "clock w" "nm_data_model n", OF f(2)] f(3) by (simp add: line_wind_def)
  show ?thesis
  proof (cases "line_wind ro line")
    case None
    with p t f(1) show ?thesis by (simp add: nm_on_line_def)
  next
    case (Some ds)
    let ?m = "dm_update ds (clock w) (nm_data_model n)"
    have "dm_has_apparent_wind ?m" by (simp add: dm_update_def dm_has_apparent_wind_def dv_set_def)
    from broadcast_spec [OF assms(2) this, of _ ro sk_ops k w]
    have "sk_broadcast_wind_update sk_ops ro json ?m (k, w) = (if length (wind_update_text ro ds) < 512
        then (k\<lparr>sk_broadcasts := sk_broadcasts k + 1\<rparr>, send_all sk_ops (wind_update_text ro ds) (tr_list (sk_clients k)) w)
        else (k, w))"
      by (simp add: wind_update_text_def dm_update_def dv_set_def)
    with p t f(1) Some show ?thesis by (simp add: nm_on_line_def)
  qed
qed

section \<open>From the network to the subscribers\<close>

text \<open>
  A network: what is to be read from the NMEA source \<open>c\<close> is \<open>inbox\<close>, what has been written to the Signal K
  client \<open>d\<close> is \<open>sent d\<close>; the clients that are valid are \<open>live\<close>, and a write to a client appends to what has
  been sent to it and does nothing else that matters here.
\<close>

definition bridge_network ::
  "'w tcp_ops \<Rightarrow> 'w tcp_ops \<Rightarrow> nat \<Rightarrow> ('w \<Rightarrow> byte list) \<Rightarrow> ('w \<Rightarrow> nat \<Rightarrow> byte list) \<Rightarrow> nat set \<Rightarrow> ('w \<Rightarrow> bool) \<Rightarrow> bool" where
  "bridge_network sk_ops nm_ops c inbox sent live winv \<longleftrightarrow>
     byte_source (connection_stream nm_ops (Some c)) inbox sent winv
     \<and> (\<forall>w. winv w \<longrightarrow> tc_valid nm_ops c w \<and> (\<forall>d. tc_valid sk_ops d w \<longleftrightarrow> d \<in> live))
     \<and> (\<forall>w d bytes. winv w \<longrightarrow> (let w1 = snd (tc_write sk_ops d bytes w) in
          winv w1 \<and> inbox w1 = inbox w \<and> sent w1 = (sent w)(d := sent w d @ bytes)))"

lemma send_all_network:
  assumes net: "bridge_network sk_ops nm_ops c inbox sent live winv"
  shows "distinct cs \<Longrightarrow> winv w \<Longrightarrow> winv (send_all sk_ops bytes cs w) \<and> inbox (send_all sk_ops bytes cs w) = inbox w
    \<and> sent (send_all sk_ops bytes cs w) = (\<lambda>d. sent w d @ (if d \<in> set cs \<inter> live then bytes else []))"
proof (induction cs arbitrary: w)
  case Nil
  then show ?case by (simp add: send_all_def)
next
  case (Cons d cs)
  let ?w = "if tc_valid sk_ops d w then snd (tc_write sk_ops d bytes w) else w"
  have v: "tc_valid sk_ops d w \<longleftrightarrow> d \<in> live" and
    wr: "winv (snd (tc_write sk_ops d bytes w))" "inbox (snd (tc_write sk_ops d bytes w)) = inbox w"
      "sent (snd (tc_write sk_ops d bytes w)) = (sent w)(d := sent w d @ bytes)"
    using net Cons.prems(2) unfolding bridge_network_def Let_def by blast+
  have "send_all sk_ops bytes (d # cs) w = send_all sk_ops bytes cs ?w" by (simp add: send_all_def)
  moreover have "winv ?w" "inbox ?w = inbox w" using wr Cons.prems(2) by simp_all
  ultimately show ?case using Cons.IH [of ?w] Cons.prems(1) wr v by (auto simp: fun_eq_iff)
qed

text \<open>What the lines of a stream make the bridge send.\<close>

definition wind_updates :: "'r real_ops \<Rightarrow> byte list list \<Rightarrow> byte list list" where
  "wind_updates ro ls = filter (\<lambda>tx. length tx < 512) (map (wind_update_text ro) (List.map_filter (line_wind ro) ls))"

definition line_effect :: "'r real_ops \<Rightarrow> nat set \<Rightarrow> byte list
    \<Rightarrow> int \<times> tcp_registry \<times> (nat \<Rightarrow> byte list) \<Rightarrow> int \<times> tcp_registry \<times> (nat \<Rightarrow> byte list)" where
  "line_effect ro live line st =
     (case st of (u, r, sent) \<Rightarrow>
        case line_wind ro line of
          None \<Rightarrow> st
        | Some ds \<Rightarrow> (u + 1, r, \<lambda>d. sent d @ (if d \<in> set (tr_list r) \<inter> live \<and> length (wind_update_text ro ds) < 512
                                   then wind_update_text ro ds else [])))"

lemma deliver_line_effect:
  "deliver (line_effect ro live) ls (u, r, sent) =
     (u + int (length (List.map_filter (line_wind ro) ls)), r,
      \<lambda>d. sent d @ (if d \<in> set (tr_list r) \<inter> live then concat (wind_updates ro ls) else []))"
proof (induction ls arbitrary: u sent)
  case Nil
  have "wind_updates ro [] = []" by (simp add: wind_updates_def List.map_filter_def)
  then show ?case by (simp add: List.map_filter_def cong: if_cong)
next
  case (Cons l ls)
  then show ?case
    by (cases "line_wind ro l") (auto simp: line_effect_def wind_updates_def List.map_filter_def fun_eq_iff)
qed

lemma nmea_serves:
  assumes net: "bridge_network sk_ops nm_ops c inbox sent live winv" and len: "length tx = 160" "length json = 512"
  shows "serves (beside (beside nm_ops)) (lh_on_line (nm_handler nm_ops sk_ops ro clock tx json)) c
    (\<lambda>(n, k, w). inbox w) (\<lambda>(n, k, w). (nm_updates n, sk_clients k, sent w)) (\<lambda>(n, k, w). tr_inv (sk_clients k) \<and> winv w)
    (line_effect ro live)"
  unfolding serves_def
proof (intro conjI allI impI)
  have s: "byte_source (connection_stream nm_ops (Some c)) inbox sent winv" using net by (simp add: bridge_network_def)
  from beside_source [OF beside_source [OF s, where g = sk_clients and P = "\<lambda>k. tr_inv (sk_clients k)"],
      where g = nm_updates and P = "\<lambda>n. True"]
  show "byte_source (connection_stream (beside (beside nm_ops)) (Some c)) (\<lambda>(n, k, w). inbox w)
     (\<lambda>(n, k, w). (nm_updates n, sk_clients k, sent w)) (\<lambda>(n, k, w). tr_inv (sk_clients k) \<and> winv w)"
    by (simp add: case_prod_unfold)
next
  fix nkw
  assume "case nkw of (n, k, w) \<Rightarrow> tr_inv (sk_clients k) \<and> winv w"
  then show "tc_valid (beside (beside nm_ops)) c nkw" using net by (auto simp: bridge_network_def beside_def)
next
  fix line and nkw :: "'b nmea_callbacks \<times> signalk_callbacks \<times> 'a"
  obtain n k w where e: "nkw = (n, k, w)" by (metis prod_cases3)
  let ?st = "lh_on_line (nm_handler nm_ops sk_ops ro clock tx json) c line nkw"
  assume "case nkw of (n, k, w) \<Rightarrow> tr_inv (sk_clients k) \<and> winv w"
  with e have i: "tr_inv (sk_clients k)" "winv w" by simp_all
  then have "distinct (tr_list (sk_clients k))" by (simp add: tr_inv_def)
  note snd = send_all_network [OF net this i(2)]
  have st: "?st = nm_on_line sk_ops ro clock tx json c line (n, k, w)" by (simp add: nm_handler_def e)
  have "(case ?st of (n, k, w) \<Rightarrow> tr_inv (sk_clients k) \<and> winv w) \<and> (case ?st of (n, k, w) \<Rightarrow> inbox w) = inbox w
    \<and> (case ?st of (n, k, w) \<Rightarrow> (nm_updates n, sk_clients k, sent w)) = line_effect ro live line (nm_updates n, sk_clients k, sent w)"
    unfolding st nmea_line_converted [OF len] using i snd
    by (cases "line_wind ro line") (auto simp: line_effect_def)
  then show "case ?st of (n, k, w) \<Rightarrow> tr_inv (sk_clients k) \<and> winv w"
    "(case ?st of (n, k, w) \<Rightarrow> inbox w) = (case nkw of (n, k, w) \<Rightarrow> inbox w)"
    "(case ?st of (n, k, w) \<Rightarrow> (nm_updates n, sk_clients k, sent w))
      = line_effect ro live line (case nkw of (n, k, w) \<Rightarrow> (nm_updates n, sk_clients k, sent w))"
    by (simp_all add: e)
qed

text \<open>
  C23: every wind sentence reaches every subscriber. When data of an NMEA source is reported, the bridge
  returns having read all of it, and every registered client that is valid has been written exactly the
  Signal K texts of the wind sentences among the complete lines received, in their order, however the
  stream was cut; no other connection has been written anything. (Lines that fit the buffer.)
\<close>

theorem wind_reaches_subscribers:
  assumes "bridge_network sk_ops nm_ops c inbox sent live winv" "winv w" "tr_inv (sk_clients k)"
    "length tx = 160" "length json = 512"
    "ls_inv 192 nl" "\<not> bo_enabled (ls_backpressure nl)" "ls_find c nl = Some i"
    "line_pending (sl_reader (ls_slots nl ! i)) @ inbox w = join_lines chr_lf ls lastl"
    "chr_lf \<notin> set (line_pending (sl_reader (ls_slots nl ! i)))"
    "\<forall>l \<in> set (lastl # ls). chr_lf \<notin> set l \<and> length l \<le> 192"
  shows "\<exists>nl1 n1 k1 w1. bridge_step sk_ops nm_ops ro clock tx json (Nmea (Ev_Data c)) (sl, nl, n, k, w) = Some (sl, nl1, n1, k1, w1)
    \<and> winv w1 \<and> inbox w1 = [] \<and> line_pending (sl_reader (ls_slots nl1 ! i)) = lastl \<and> sk_clients k1 = sk_clients k
    \<and> nm_updates n1 = nm_updates n + int (length (List.map_filter (line_wind ro) (map (strip_cr True) ls)))
    \<and> sent w1 = (\<lambda>d. sent w d @ (if d \<in> set (tr_list (sk_clients k)) \<inter> live
        then concat (wind_updates ro (map (strip_cr True) ls)) else []))"
proof -
  note s = nmea_serves [OF assms(1,4,5), of ro clock]
  from ls_data_delivers [OF s, of "(n, k, w)" 192 nl i ls lastl] assms obtain nl1 nkw where
    d: "ls_on_data (beside (beside nm_ops)) (nm_handler nm_ops sk_ops ro clock tx json) c (nl, n, k, w) = Some (nl1, nkw)"
      "case nkw of (n, k, w) \<Rightarrow> tr_inv (sk_clients k) \<and> winv w" "(case nkw of (n, k, w) \<Rightarrow> inbox w) = []"
      "(case nkw of (n, k, w) \<Rightarrow> (nm_updates n, sk_clients k, sent w))
        = deliver (line_effect ro live) (map (strip_cr True) ls) (nm_updates n, sk_clients k, sent w)"
      "line_pending (sl_reader (ls_slots nl1 ! i)) = lastl" by auto
  obtain n1 k1 w1 where "nkw = (n1, k1, w1)" by (metis prod_cases3)
  with d show ?thesis
    by (intro exI [of _ nl1] exI [of _ n1] exI [of _ k1] exI [of _ w1]) (simp add: deliver_line_effect)
qed

section \<open>The registries hold the bound connections\<close>

interpretation sk: registering_handler "beside sk_ops" "sk_handler sk_ops" "\<lambda>(k, w). sk_clients k" True
  for sk_ops :: "'w tcp_ops"
  by unfold_locales
    (auto simp: sk_handler_def sk_on_accept_def sk_on_line_def sk_on_backpressure_def sk_remove_def beside_def
      split: prod.splits)

lemma nm_on_line_sources: "nm_sources (fst (nm_on_line sk_ops ro clock tx json c line nkw)) = nm_sources (fst nkw)"
  by (auto simp: nm_on_line_def split: prod.splits)

interpretation nm: registering_handler "beside (beside nm_ops)" "nm_handler nm_ops sk_ops ro clock tx json"
    "\<lambda>(n, k, w). nm_sources n" False
  for nm_ops sk_ops :: "'w tcp_ops" and ro :: "'r real_ops" and clock and tx and json
proof unfold_locales
  fix c line and nkw :: "'r nmea_callbacks \<times> signalk_callbacks \<times> 'w"
  have "nm_sources (fst (nm_on_line sk_ops ro clock tx json c line nkw)) = nm_sources (fst nkw)" by (rule nm_on_line_sources)
  then show "(case lh_on_line (nm_handler nm_ops sk_ops ro clock tx json) c line nkw of (n, k, w) \<Rightarrow> nm_sources n)
      = (case nkw of (n, k, w) \<Rightarrow> nm_sources n)"
    by (simp add: nm_handler_def case_prod_unfold)
qed (auto simp: nm_handler_def nm_on_accept_def nm_remove_def beside_def split: prod.splits)

text \<open>The states the bridge can get into: data is reported only for connections that are bound.\<close>

fun known_event :: "bridge_event \<Rightarrow> ('r, 'w) bridge \<Rightarrow> bool" where
  "known_event (Signalk ev) (sl, nl, _) = (\<forall>c. ev = Ev_Data c \<longrightarrow> c \<in> ls_bound sl)"
| "known_event (Nmea ev) (sl, nl, _) = (\<forall>c. ev = Ev_Data c \<longrightarrow> c \<in> ls_bound nl)"

inductive bridge_reachable ::
  "'w tcp_ops \<Rightarrow> 'w tcp_ops \<Rightarrow> 'r real_ops \<Rightarrow> ('w \<Rightarrow> u64) \<Rightarrow> byte list \<Rightarrow> byte list \<Rightarrow> ('r, 'w) bridge \<Rightarrow> bool"
  for sk_ops nm_ops ro clock tx json where
  start: "bridge_reachable sk_ops nm_ops ro clock tx json (bridge_init arduino ro w)"
| event: "bridge_reachable sk_ops nm_ops ro clock tx json (sl, nl, n, k, w1) \<Longrightarrow> known_event ev (sl, nl, n, k, w) \<Longrightarrow>
    bridge_step sk_ops nm_ops ro clock tx json ev (sl, nl, n, k, w) = Some b \<Longrightarrow> bridge_reachable sk_ops nm_ops ro clock tx json b"

lemma broadcast_clients: "sk_clients (fst (sk_broadcast_wind_update ops ro json m (k, w))) = sk_clients k"
  by (auto simp: sk_broadcast_wind_update_def split: prod.splits)

text \<open>An event on the NMEA side does not touch the clients.\<close>

interpretation nmc: preserving_handler "beside (beside nm_ops)" "nm_handler nm_ops sk_ops ro clock tx json"
    "\<lambda>(n, k, w). sk_clients k"
  for nm_ops sk_ops :: "'w tcp_ops" and ro :: "'r real_ops" and clock and tx and json
proof unfold_locales
  fix c line and nkw :: "'r nmea_callbacks \<times> signalk_callbacks \<times> 'w"
  obtain n k w where e: "nkw = (n, k, w)" by (metis prod_cases3)
  show "(case lh_on_line (nm_handler nm_ops sk_ops ro clock tx json) c line nkw of (n, k, w) \<Rightarrow> sk_clients k)
      = (case nkw of (n, k, w) \<Rightarrow> sk_clients k)"
    using broadcast_clients [of sk_ops ro json _ k w]
    by (auto simp: e nm_handler_def nm_on_line_def split: prod.splits) (metis fst_conv)
qed (auto simp: nm_handler_def nm_on_accept_def beside_def split: prod.splits)

lemma registry_init_tracks:
  "ls_inv b (ls_init b m opts) \<and> tr_inv (tr_init m) \<and> tr_capacity (tr_init m) = length (ls_slots (ls_init b m opts))
    \<and> set (tr_list (tr_init m)) = ls_bound (ls_init b m opts)"
  using ls_inv_init [of b m opts] tr_inv_init [of m] by (simp add: tr_init_def tr_list_def ls_init_def)

definition bridge_inv :: "('r, 'w) bridge \<Rightarrow> bool" where
  "bridge_inv b \<longleftrightarrow> (case b of (sl, nl, n, k, w) \<Rightarrow>
     ls_inv 256 sl \<and> tr_inv (sk_clients k) \<and> length (ls_slots sl) = 8 \<and> tr_capacity (sk_clients k) = 8
     \<and> set (tr_list (sk_clients k)) = ls_bound sl \<and> bo_close_on_limit (ls_backpressure sl)
     \<and> ls_inv 192 nl \<and> tr_inv (nm_sources n) \<and> length (ls_slots nl) = 4 \<and> tr_capacity (nm_sources n) = 4
     \<and> set (tr_list (nm_sources n)) = ls_bound nl \<and> \<not> bo_enabled (ls_backpressure nl))"

lemma bridge_inv_init: "bridge_inv (bridge_init arduino ro w)"
  using registry_init_tracks [of 256 8 "make_signalk_options arduino"] registry_init_tracks [of 192 4 bp_disabled]
  by (simp add: bridge_inv_def bridge_init_def signalk_lines_init_def nmea_lines_init_def nm_init_def sk_init_def Let_def)
    (simp add: ls_init_def make_signalk_options_def bp_embedded_default_def bp_server_default_def bp_disabled_def tr_init_def)

lemma bridge_inv_step:
  fixes sk_ops :: "'w tcp_ops"
  assumes closes: "\<And>c w. \<not> tc_valid sk_ops c (tc_close sk_ops c w)"
    and inv: "bridge_inv (sl, nl, n, k, w1)" and known: "known_event ev (sl, nl, n, k, w)"
    and step: "bridge_step sk_ops nm_ops ro clock tx json ev (sl, nl, n, k, w) = Some b"
  shows "bridge_inv b"
proof (cases ev)
  case (Signalk e)
  with step obtain sl1 k1 w2 where e: "ls_event (beside sk_ops) (sk_handler sk_ops) e (sl, k, w) = Some (sl1, k1, w2)"
    and b: "b = (sl1, nl, n, k1, w2)" by auto
  have t: "tracks (\<lambda>(k, w). sk_clients k) 256 sl (k, w)" using inv by (simp add: tracks_def bridge_inv_def)
  have g: "gives_up (beside sk_ops) True sl" using inv closes by (auto simp: gives_up_def bridge_inv_def beside_def)
  have d: "c \<in> ls_bound sl" if "e = Ev_Data c" for c using known that Signalk by simp
  from sk.tracks_event [OF t g d e] ls_event_spec [OF _ e, of 256] inv show ?thesis
    by (auto simp: bridge_inv_def b tracks_def)
next
  case (Nmea e)
  with step obtain nl1 n1 k1 w2 where
    e: "ls_event (beside (beside nm_ops)) (nm_handler nm_ops sk_ops ro clock tx json) e (nl, n, k, w) = Some (nl1, n1, k1, w2)"
    and b: "b = (sl, nl1, n1, k1, w2)" by auto
  have t: "tracks (\<lambda>(n, k, w). nm_sources n) 192 nl (n, k, w)" using inv by (simp add: tracks_def bridge_inv_def)
  have g: "gives_up (beside (beside nm_ops)) False nl" using inv by (simp add: gives_up_def bridge_inv_def)
  have d: "c \<in> ls_bound nl" if "e = Ev_Data c" for c using known that Nmea by simp
  from nm.tracks_event [OF t g d e] ls_event_spec [OF _ e, of 192] nmc.val_event [OF e] inv show ?thesis
    by (auto simp: bridge_inv_def b tracks_def)
qed

lemma bridge_reachable_inv:
  assumes "\<And>c w. \<not> tc_valid sk_ops c (tc_close sk_ops c w)" "bridge_reachable sk_ops nm_ops ro clock tx json b"
  shows "bridge_inv b"
  using assms(2) by induction (rule bridge_inv_init, rule bridge_inv_step [OF assms(1)])

text \<open>
  C24: through any events on both servers the registry of Signal K clients holds exactly the connections that
  the line handler has bound, at most eight, and likewise the registry of NMEA sources, at most four; so a
  broadcast goes to every connected client and to no connection that has been closed, and the
  registry takes every connection that gets a slot. (Closing a connection makes it invalid; data is
  reported for bound connections only.)
\<close>

theorem bridge_clients_are_bound:
  assumes "\<And>c w. \<not> tc_valid sk_ops c (tc_close sk_ops c w)" "bridge_reachable sk_ops nm_ops ro clock tx json (sl, nl, n, k, w)"
  shows "set (tr_list (sk_clients k)) = ls_bound sl \<and> distinct (tr_list (sk_clients k)) \<and> card (ls_bound sl) \<le> 8
    \<and> set (tr_list (nm_sources n)) = ls_bound nl \<and> distinct (tr_list (nm_sources n)) \<and> card (ls_bound nl) \<le> 4
    \<and> (fst (ls_acquire c sl) \<noteq> None \<longrightarrow> fst (tr_add c (sk_clients k)))
    \<and> (fst (ls_acquire c nl) \<noteq> None \<longrightarrow> fst (tr_add c (nm_sources n)))"
proof -
  from bridge_reachable_inv [OF assms] have inv: "bridge_inv (sl, nl, n, k, w)" .
  have t: "tracks (\<lambda>(k, w). sk_clients k) 256 sl (k, w)" "tracks (\<lambda>(n, k, w). nm_sources n) 192 nl (n, k, w)"
    using inv by (simp_all add: tracks_def bridge_inv_def)
  from sk.tracks_acquire [OF t(1), of c] nm.tracks_acquire [OF t(2), of c]
    inv ls_bound_le [of 256 sl] ls_bound_le [of 192 nl] show ?thesis
    by (simp add: bridge_inv_def tr_inv_def)
qed

section \<open>Examples\<close>

text \<open>Numbers of one digit: a text is read up to the first character that is no digit, modulo 10.\<close>

definition digit_value :: "byte list \<Rightarrow> nat \<times> nat" where
  "digit_value s = (let ds = takeWhile (\<lambda>b. chr_0 \<le> b \<and> b \<le> chr_9) s
     in (if ds = [] then 0 else unat (last ds - chr_0), length ds))"

definition digit_reals :: "nat real_ops" where
  "digit_reals = \<lparr>re_strtod = digit_value, re_literal = (\<lambda>s. fst (digit_value (bytes_of s))),
     re_mul = (\<lambda>a b. a * b mod 10), re_div = (\<lambda>a b. a div b), re_fixed6 = (\<lambda>a. [chr_0 + of_nat (a mod 10)])\<rparr>"

text \<open>A network with one NMEA source, whose pending input is the first component, and any number of clients.\<close>

definition source_tcp :: "(byte list \<times> (nat \<Rightarrow> byte list)) tcp_ops" where
  "source_tcp = \<lparr>tc_valid = (\<lambda>c w. True), tc_close = (\<lambda>c w. w), tc_input_size = (\<lambda>c w. length (fst w)),
     tc_output_size = (\<lambda>c w. 0), tc_read = (\<lambda>c n w. (int (length (take n (fst w))), take n (fst w), (drop n (fst w), snd w))),
     tc_write = (\<lambda>c bytes w. (int (length bytes), w))\<rparr>"

definition client_tcp :: "(byte list \<times> (nat \<Rightarrow> byte list)) tcp_ops" where
  "client_tcp = source_tcp\<lparr>tc_write := (\<lambda>c bytes w. (int (length bytes), (fst w, (snd w)(c := snd w c @ bytes))))\<rparr>"

lemma example_network: "bridge_network client_tcp source_tcp 1 fst snd UNIV (\<lambda>w. True)"
  unfolding bridge_network_def
proof (intro conjI)
  show "byte_source (connection_stream source_tcp (Some 1)) fst snd (\<lambda>w. True)"
    by unfold_locales (auto simp: connection_stream_def cs_readable_def cs_read_def tc_readable_def source_tcp_def)
qed (simp_all add: source_tcp_def client_tcp_def Let_def)

definition example_line :: "byte list" where
  "example_line = bytes_of ''$IIMWV,045.0,R,12.3,M,A*00''"

lemma example_line_wind: "line_wind digit_reals example_line = Some (0, 2)"
  unfolding example_line_def by code_simp

lemma example_text_length: "length (wind_update_text digit_reals (0, 2)) < 512"
  by code_simp

text \<open>The NMEA handler with connection 1 accepted, and one Signal K client, connection 7.\<close>

definition example_lines :: line_server where
  "example_lines = fst (ls_on_accept source_tcp (line_handler_default source_tcp (\<lambda>c line w. w)) 1
     \<lparr>peer_host = ''10.0.0.2'', peer_port = 5000\<rparr> (nmea_lines_init, ([], \<lambda>d. [])))"

lemma example_lines:
  "ls_inv 192 example_lines" "\<not> bo_enabled (ls_backpressure example_lines)" "ls_find 1 example_lines = Some 0"
  "line_pending (sl_reader (ls_slots example_lines ! 0)) = []"
proof -
  have i: "ls_inv 192 nmea_lines_init" using ls_inv_init [of 192 4 bp_disabled] by (simp add: nmea_lines_init_def)
  obtain s w where a: "ls_on_accept source_tcp (line_handler_default source_tcp (\<lambda>c line w. w)) 1
     \<lparr>peer_host = ''10.0.0.2'', peer_port = 5000\<rparr> (nmea_lines_init, ([], \<lambda>d. [])) = (s, w)" by (metis prod.collapse)
  have b: "\<not> bo_enabled (ls_backpressure nmea_lines_init)" by (simp add: nmea_lines_init_def ls_init_def bp_disabled_def)
  have e: "example_lines = s" unfolding example_lines_def a by simp
  from ls_accept_spec [OF i a] b show "ls_inv 192 example_lines" "\<not> bo_enabled (ls_backpressure example_lines)"
    unfolding e by simp_all
  have r: "replicate 4 x = [x, x, x, x]" for x :: line_slot by (simp add: numeral_eq_Suc)
  show "ls_find 1 example_lines = Some 0" "line_pending (sl_reader (ls_slots example_lines ! 0)) = []"
    by (simp_all add: example_lines_def ls_on_accept_def ls_acquire_def ls_find_def nmea_lines_init_def ls_init_def r
        ls_set_slot_def Let_def line_pending_def line_init_def)
qed

definition example_clients :: signalk_callbacks where
  "example_clients = sk_init\<lparr>sk_clients := snd (tr_add 7 (sk_clients sk_init))\<rparr>"

lemma example_clients: "tr_inv (sk_clients example_clients)" "set (tr_list (sk_clients example_clients)) = {7}"
  unfolding example_clients_def sk_init_def tr_inv_def by code_simp+

lemma wind_reaches_subscribers_witness:
  "\<exists>nl1 n1 k1 w1. bridge_step client_tcp source_tcp digit_reals (\<lambda>w. 5) (replicate 160 0) (replicate 512 0) (Nmea (Ev_Data 1))
      (signalk_lines_init False, example_lines, nm_init digit_reals, example_clients, (example_line @ [chr_lf], \<lambda>d. []))
      = Some (signalk_lines_init False, nl1, n1, k1, w1)
    \<and> nm_updates n1 = 1 \<and> snd w1 7 = wind_update_text digit_reals (0, 2) \<and> snd w1 8 = []"
proof -
  have s: "strip_cr True example_line = example_line" "chr_lf \<notin> set example_line" "length example_line \<le> 192"
    unfolding example_line_def by (simp_all add: bytes_of_def strip_cr_def)
  have u: "List.map_filter (line_wind digit_reals) [example_line] = [(0, 2)]"
    "wind_updates digit_reals [example_line] = [wind_update_text digit_reals (0, 2)]"
    using example_line_wind example_text_length by (simp_all add: wind_updates_def List.map_filter_def)
  have p: "line_pending (sl_reader (ls_slots example_lines ! 0)) @ fst (example_line @ [chr_lf], \<lambda>d::nat. [] :: byte list)
      = join_lines chr_lf [example_line] []" by (simp add: example_lines)
  show ?thesis
    using wind_reaches_subscribers [OF example_network _ example_clients(1) _ _ example_lines(1-3) p, where ro = digit_reals
        and clock = "\<lambda>w. 5" and tx = "replicate 160 0" and json = "replicate 512 0" and sl = "signalk_lines_init False"
        and n = "nm_init digit_reals"] s u
    by (auto simp: example_lines example_clients(2) nm_init_def Let_def)
qed

lemma nmea_line_converted_witness:
  "nm_updates (fst (nm_on_line client_tcp digit_reals (\<lambda>w. 5) (replicate 160 0) (replicate 512 0) 1 example_line
      (nm_init digit_reals, example_clients, ([], \<lambda>d. [])))) = 1"
  by (subst nmea_line_converted) (simp_all add: example_line_wind nm_init_def Let_def)

lemma bridge_clients_are_bound_witness:
  "case bridge_step net_ops net_ops digit_reals (\<lambda>w. 5) (replicate 160 0) (replicate 512 0) (Signalk (Ev_Accept 7 demo_peer))
      (bridge_init False digit_reals (demo_net (\<lambda>c. []))) of
     None \<Rightarrow> False | Some (sl, nl, n, k, w) \<Rightarrow> 7 \<in> ls_bound sl \<and> set (tr_list (sk_clients k)) = ls_bound sl"
proof -
  let ?w = "demo_net (\<lambda>c. [])"
  let ?tx = "replicate 160 0 :: byte list" and ?js = "replicate 512 0 :: byte list"
  obtain sl k w where e: "ls_on_accept (beside net_ops) (sk_handler net_ops) 7 demo_peer (signalk_lines_init False, sk_init, ?w) = (sl, k, w)"
    by (metis prod_cases3)
  then have st: "bridge_step net_ops net_ops digit_reals (\<lambda>w. 5) ?tx ?js (Signalk (Ev_Accept 7 demo_peer)) (bridge_init False digit_reals ?w)
      = Some (sl, nmea_lines_init, nm_init digit_reals, k, w)" by (simp add: bridge_init_def)
  have "bridge_reachable net_ops net_ops digit_reals (\<lambda>w. 5) ?tx ?js (sl, nmea_lines_init, nm_init digit_reals, k, w)"
    by (rule bridge_reachable.event [OF bridge_reachable.start [of _ _ _ _ _ _ False ?w, unfolded bridge_init_def] _ st [unfolded bridge_init_def]])
      simp
  from bridge_clients_are_bound [OF _ this, of 7] have "set (tr_list (sk_clients k)) = ls_bound sl" by (simp add: net_ops_def)
  moreover have "7 \<in> ls_bound sl"
  proof -
    have "sl_connection (ls_slots sl ! 0) = Some 7 \<and> 0 < length (ls_slots sl)"
      using e by (auto simp: ls_on_accept_def ls_acquire_def ls_find_def signalk_lines_init_def ls_init_def
          numeral_eq_Suc ls_set_slot_def Let_def)
    then show ?thesis by (auto simp: ls_bound_iff)
  qed
  ultimately show ?thesis by (simp add: st)
qed

end
