(* ===== verification/Arduino_Io.thy ===== *)
theory Arduino_Io
  imports Fd_Streams Timers Pin_Events
begin

text \<open>
  The rest of the Arduino backend and the clocks: \<^verbatim>\<open>src/async_event_loop_arduino/arduino_wifi.hpp\<close>,
  \<^verbatim>\<open>arduino_wifi_udp.hpp\<close>, \<^verbatim>\<open>arduino_serial_stream.hpp\<close>, \<^verbatim>\<open>arduino_pin_io.hpp\<close>, \<^verbatim>\<open>arduino_clock.hpp\<close> and
  \<^verbatim>\<open>arduino_interrupt_guard.hpp\<close>, \<^verbatim>\<open>src/async_event_loop_linux/monotonic_clock.hpp\<close>, and the console stream
  of \<^verbatim>\<open>src/async_event_loop/native_stream.hpp\<close>. The Arduino functions are records of operations.
\<close>

section \<open>Connecting to WiFi\<close>

record wifi_options =
  wo_ssid :: "string option"
  wo_password :: "string option"
  wo_timeout_ms :: u32
  wo_poll_interval_ms :: u32
  wo_station_mode :: bool
  wo_reject_placeholder_credentials :: bool
  wo_placeholder_ssid :: "string option"

definition wifi_options_default :: wifi_options where
  "wifi_options_default = \<lparr>wo_ssid = None, wo_password = None, wo_timeout_ms = 15000, wo_poll_interval_ms = 250,
     wo_station_mode = True, wo_reject_placeholder_credentials = True, wo_placeholder_ssid = Some ''ssid''\<rparr>"

datatype wifi_connect_result = Connected | MissingCredentials | Timeout

definition wifi_credentials_configured :: "string option \<Rightarrow> string option \<Rightarrow> bool" where
  "wifi_credentials_configured ssid placeholder_ssid =
     (case ssid of
        None \<Rightarrow> False
      | Some s \<Rightarrow>
          if s = [] then False
          else case placeholder_ssid of
                 None \<Rightarrow> True
               | Some p \<Rightarrow> if p \<noteq> [] \<and> s = p then False else True)"

definition wifi_connect_result_text :: "wifi_connect_result \<Rightarrow> string" where
  "wifi_connect_result_text result =
     (case result of
        Connected \<Rightarrow> ''wifi connected''
      | MissingCredentials \<Rightarrow> ''wifi credentials are placeholders''
      | Timeout \<Rightarrow> ''wifi connect timeout'')"

text \<open>\<open>millis\<close> counts milliseconds modulo \<open>2 ^ 32\<close>.\<close>

record 'w wifi_core =
  wc_mode_sta :: "'w \<Rightarrow> 'w"
  wc_begin :: "string \<Rightarrow> string \<Rightarrow> 'w \<Rightarrow> 'w"
  wc_connected :: "'w \<Rightarrow> bool \<times> 'w"
  wc_millis :: "'w \<Rightarrow> u32"
  wc_delay :: "u32 \<Rightarrow> 'w \<Rightarrow> 'w"

partial_function (option) wifi_wait ::
  "'w wifi_core \<Rightarrow> wifi_options \<Rightarrow> u32 \<Rightarrow> 'w \<Rightarrow> (wifi_connect_result \<times> 'w) option" where
  "wifi_wait ops opts start_ms w =
     (case wc_connected ops w of (connected, w1) \<Rightarrow>
        if connected then Some (Connected, w1)
        else if wc_millis ops w1 - start_ms \<ge> wo_timeout_ms opts then Some (Timeout, w1)
        else wifi_wait ops opts start_ms (wc_delay ops (wo_poll_interval_ms opts) w1))"

definition wifi_begin :: "'w wifi_core \<Rightarrow> wifi_options \<Rightarrow> 'w \<Rightarrow> 'w" where
  "wifi_begin ops opts w =
     wc_begin ops (case wo_ssid opts of None \<Rightarrow> [] | Some s \<Rightarrow> s) (case wo_password opts of None \<Rightarrow> [] | Some p \<Rightarrow> p)
       (if wo_station_mode opts then wc_mode_sta ops w else w)"

definition connect_wifi_result :: "'w wifi_core \<Rightarrow> wifi_options \<Rightarrow> 'w \<Rightarrow> (wifi_connect_result \<times> 'w) option" where
  "connect_wifi_result ops opts w =
     (if wo_reject_placeholder_credentials opts \<and> \<not> wifi_credentials_configured (wo_ssid opts) (wo_placeholder_ssid opts)
      then Some (MissingCredentials, w)
      else let w1 = wifi_begin ops opts w in wifi_wait ops opts (wc_millis ops w1) w1)"

text \<open>The overload with the network's name and password, and the two that only tell success.\<close>

definition connect_wifi_named ::
  "'w wifi_core \<Rightarrow> string option \<Rightarrow> string option \<Rightarrow> u32 \<Rightarrow> u32 \<Rightarrow> 'w \<Rightarrow> (wifi_connect_result \<times> 'w) option" where
  "connect_wifi_named ops ssid password timeout_ms poll_interval_ms =
     connect_wifi_result ops (wifi_options_default\<lparr>wo_ssid := ssid, wo_password := password, wo_timeout_ms := timeout_ms,
       wo_poll_interval_ms := poll_interval_ms\<rparr>)"

definition connect_wifi :: "'w wifi_core \<Rightarrow> wifi_options \<Rightarrow> 'w \<Rightarrow> (bool \<times> 'w) option" where
  "connect_wifi ops opts w = map_option (apfst (\<lambda>r. r = Connected)) (connect_wifi_result ops opts w)"

section \<open>\<open>ArduinoWiFiUdpDatagramStream\<close>\<close>

type_synonym ip_address = "byte \<times> byte \<times> byte \<times> byte"

record 'w wifi_udp_ops =
  wu_begin :: "u16 \<Rightarrow> 'w \<Rightarrow> int \<times> 'w"
  wu_stop :: "'w \<Rightarrow> 'w"
  wu_parse_packet :: "'w \<Rightarrow> int \<times> 'w"
  wu_read :: "nat \<Rightarrow> 'w \<Rightarrow> int \<times> byte list \<times> 'w"
  wu_remote_ip :: "'w \<Rightarrow> ip_address"
  wu_remote_port :: "'w \<Rightarrow> u16"
  wu_begin_packet :: "ip_address \<Rightarrow> u16 \<Rightarrow> 'w \<Rightarrow> bool \<times> 'w"
  wu_write :: "byte list \<Rightarrow> 'w \<Rightarrow> nat \<times> 'w"
  wu_end_packet :: "'w \<Rightarrow> bool \<times> 'w"
  wu_from_string :: "string \<Rightarrow> ip_address option"

record wifi_udp =
  uw_packet_size :: int
  uw_bound :: bool
  uw_has_remote :: bool
  uw_remote_ip :: ip_address
  uw_remote_port :: u16

definition uw_init :: wifi_udp where
  "uw_init = \<lparr>uw_packet_size = 0, uw_bound = False, uw_has_remote = False, uw_remote_ip = (0, 0, 0, 0), uw_remote_port = 0\<rparr>"

definition uw_bind :: "'w wifi_udp_ops \<Rightarrow> u16 \<Rightarrow> wifi_udp \<times> 'w \<Rightarrow> bool \<times> wifi_udp \<times> 'w" where
  "uw_bind ops local_port uw =
     (case uw of (u, w) \<Rightarrow> case wu_begin ops local_port w of (rc, w1) \<Rightarrow> (rc = 1, u\<lparr>uw_bound := (rc = 1)\<rparr>, w1))"

definition uw_close :: "'w wifi_udp_ops \<Rightarrow> wifi_udp \<times> 'w \<Rightarrow> wifi_udp \<times> 'w" where
  "uw_close ops uw =
     (case uw of (u, w) \<Rightarrow>
        (u\<lparr>uw_packet_size := 0, uw_bound := False, uw_has_remote := False, uw_remote_port := 0\<rparr>, wu_stop ops w))"

definition uw_resolve :: "'w wifi_udp_ops \<Rightarrow> string \<Rightarrow> ip_address option" where
  "uw_resolve ops host = (if host = ''255.255.255.255'' then Some (255, 255, 255, 255) else wu_from_string ops host)"

definition uw_set_remote :: "'w wifi_udp_ops \<Rightarrow> string option \<Rightarrow> u16 \<Rightarrow> wifi_udp \<Rightarrow> bool \<times> wifi_udp" where
  "uw_set_remote ops host port u =
     (case host of
        None \<Rightarrow> (False, u)
      | Some h \<Rightarrow>
          if port = 0 then (False, u)
          else (case uw_resolve ops h of
                  None \<Rightarrow> (False, u)
                | Some ip \<Rightarrow> (True, u\<lparr>uw_remote_ip := ip, uw_remote_port := port, uw_has_remote := True\<rparr>)))"

definition uw_send_to_ip :: "'w wifi_udp_ops \<Rightarrow> byte list option \<Rightarrow> ip_address \<Rightarrow> u16 \<Rightarrow> wifi_udp \<Rightarrow> 'w \<Rightarrow> int \<times> 'w" where
  "uw_send_to_ip ops src ip port u w =
     (case src of
        None \<Rightarrow> (0, w)
      | Some bytes \<Rightarrow>
          if \<not> uw_bound u \<or> bytes = [] \<or> port = 0 then (0, w)
          else (case wu_begin_packet ops ip port w of (ok, w1) \<Rightarrow>
             if \<not> ok then (- 1, w1)
             else (case wu_write ops bytes w1 of (written, w2) \<Rightarrow>
                case wu_end_packet ops w2 of (sent, w3) \<Rightarrow> (if \<not> sent then - 1 else int_of_size written, w3))))"

definition uw_write :: "'w wifi_udp_ops \<Rightarrow> byte list option \<Rightarrow> wifi_udp \<Rightarrow> 'w \<Rightarrow> int \<times> 'w" where
  "uw_write ops src u w = (if \<not> uw_has_remote u then (0, w) else uw_send_to_ip ops src (uw_remote_ip u) (uw_remote_port u) u w)"

definition uw_send_to :: "'w wifi_udp_ops \<Rightarrow> byte list option \<Rightarrow> tcp_peer_info \<Rightarrow> wifi_udp \<Rightarrow> 'w \<Rightarrow> int \<times> 'w" where
  "uw_send_to ops src endpoint u w =
     (case uw_resolve ops (peer_host endpoint) of
        None \<Rightarrow> (- 1, w)
      | Some ip \<Rightarrow> uw_send_to_ip ops src ip (peer_port endpoint) u w)"

text \<open>\<^verbatim>\<open>%u\<close> of an octet, and the text of an address; it fits \<open>UdpEndpoint::host\<close>.\<close>

definition octet_text :: "byte \<Rightarrow> string" where
  "octet_text b =
     (let n = unat b; d = (\<lambda>k. char_of (48 + k mod 10 :: nat))
      in if n < 10 then [d n] else if n < 100 then [d (n div 10), d n] else [d (n div 100), d (n div 10), d n])"

definition ip_text :: "ip_address \<Rightarrow> string" where
  "ip_text ip = (case ip of (a, b, c, d) \<Rightarrow>
     octet_text a @ ''.'' @ octet_text b @ ''.'' @ octet_text c @ ''.'' @ octet_text d)"

definition uw_recv_from ::
  "'w wifi_udp_ops \<Rightarrow> bool \<Rightarrow> nat \<Rightarrow> bool \<Rightarrow> wifi_udp \<times> 'w \<Rightarrow> int \<times> byte list \<times> tcp_peer_info option \<times> wifi_udp \<times> 'w" where
  "uw_recv_from ops dst_null max_len source uw =
     (case uw of (u, w) \<Rightarrow>
        if \<not> uw_bound u \<or> dst_null \<or> max_len = 0 then (0, [], None, u, w)
        else (case (if uw_packet_size u \<le> 0 then wu_parse_packet ops w else (uw_packet_size u, w)) of (len, w1) \<Rightarrow>
           if len \<le> 0 then (0, [], None, u\<lparr>uw_packet_size := len\<rparr>, w1)
           else (case wu_read ops max_len w1 of (n, bytes, w2) \<Rightarrow>
              (n, bytes,
               if source \<and> n \<ge> 0 then Some \<lparr>peer_host = ip_text (wu_remote_ip ops w2), peer_port = wu_remote_port ops w2\<rparr> else None,
               u\<lparr>uw_packet_size := 0\<rparr>, w2))))"

definition uw_read :: "'w wifi_udp_ops \<Rightarrow> bool \<Rightarrow> nat \<Rightarrow> wifi_udp \<times> 'w \<Rightarrow> int \<times> byte list \<times> wifi_udp \<times> 'w" where
  "uw_read ops dst_null max_len uw =
     (case uw_recv_from ops dst_null max_len False uw of (n, bytes, _, uw1) \<Rightarrow> (n, bytes, uw1))"

text \<open>\<open>readable\<close> looks for a datagram: it changes the mutable members.\<close>

definition uw_readable :: "'w wifi_udp_ops \<Rightarrow> wifi_udp \<times> 'w \<Rightarrow> bool \<times> wifi_udp \<times> 'w" where
  "uw_readable ops uw =
     (case uw of (u, w) \<Rightarrow>
        if \<not> uw_bound u then (False, u, w)
        else (case (if uw_packet_size u \<le> 0 then wu_parse_packet ops w else (uw_packet_size u, w)) of (len, w1) \<Rightarrow>
           (len > 0, u\<lparr>uw_packet_size := len\<rparr>, w1)))"

section \<open>\<open>ArduinoSerialStream\<close>\<close>

record 'w serial_port =
  sp_available :: "'w \<Rightarrow> int"
  sp_read :: "'w \<Rightarrow> int \<times> 'w"
  sp_write :: "byte list \<Rightarrow> 'w \<Rightarrow> nat \<times> 'w"

text \<open>The loop for at most \<open>k\<close> more bytes: what is stored, in order.\<close>

fun as_read_loop :: "'w serial_port \<Rightarrow> nat \<Rightarrow> 'w \<Rightarrow> byte list \<times> 'w" where
  "as_read_loop ops 0 w = ([], w)"
| "as_read_loop ops (Suc k) w =
     (if sp_available ops w > 0
      then (case sp_read ops w of (c, w1) \<Rightarrow>
              if c < 0 then ([], w1) else apfst ((#) (word_of_int c)) (as_read_loop ops k w1))
      else ([], w))"

definition as_read :: "'w serial_port \<Rightarrow> bool \<Rightarrow> nat \<Rightarrow> 'w \<Rightarrow> int \<times> byte list \<times> 'w" where
  "as_read ops dst_null max_len w =
     (if dst_null \<or> max_len = 0 then (0, [], w)
      else (case as_read_loop ops max_len w of (bytes, w1) \<Rightarrow> (int_of_size (length bytes), bytes, w1)))"

definition as_write :: "'w serial_port \<Rightarrow> byte list option \<Rightarrow> 'w \<Rightarrow> int \<times> 'w" where
  "as_write ops src w =
     (case src of
        None \<Rightarrow> (0, w)
      | Some bytes \<Rightarrow> if bytes = [] then (0, w) else (case sp_write ops bytes w of (n, w1) \<Rightarrow> (int_of_size n, w1)))"

definition as_stream :: "'w serial_port \<Rightarrow> 'w byte_stream" where
  "as_stream ops = \<lparr>bs_readable = (\<lambda>w. sp_available ops w > 0), bs_read = as_read ops False\<rparr>"

section \<open>Pins\<close>

record 'w arduino_pins =
  dp_mode :: "byte \<Rightarrow> digital_pin_mode \<Rightarrow> 'w \<Rightarrow> 'w"
  dp_digital_read :: "byte \<Rightarrow> 'w \<Rightarrow> bool"
  dp_digital_write :: "byte \<Rightarrow> bool \<Rightarrow> 'w \<Rightarrow> 'w"
  dp_analog_read :: "byte \<Rightarrow> 'w \<Rightarrow> int"
  dp_analog_write :: "byte \<Rightarrow> int \<Rightarrow> 'w \<Rightarrow> 'w"

definition ard_digital_input_create :: "'w arduino_pins \<Rightarrow> byte \<Rightarrow> digital_pin_mode \<Rightarrow> 'w \<Rightarrow> 'w" where
  "ard_digital_input_create ops pin mode = dp_mode ops pin (if mode = InputPullup then InputPullup else Input)"

definition ard_digital_output_write :: "'w arduino_pins \<Rightarrow> byte \<Rightarrow> bool \<Rightarrow> 'w \<Rightarrow> bool \<times> 'w" where
  "ard_digital_output_write ops pin high w = (True, dp_digital_write ops pin high w)"

definition ard_digital_output_create :: "'w arduino_pins \<Rightarrow> byte \<Rightarrow> bool \<Rightarrow> 'w \<Rightarrow> 'w" where
  "ard_digital_output_create ops pin initial w = snd (ard_digital_output_write ops pin initial (dp_mode ops pin Output w))"

definition ard_analog_output_create :: "'w arduino_pins \<Rightarrow> byte \<Rightarrow> 'w \<Rightarrow> 'w" where
  "ard_analog_output_create ops pin = dp_mode ops pin Output"

definition ard_analog_output_write :: "'w arduino_pins \<Rightarrow> byte \<Rightarrow> int \<Rightarrow> int \<Rightarrow> 'w \<Rightarrow> bool \<times> 'w" where
  "ard_analog_output_write ops pin max_value value w =
     (let v = (if value < 0 then 0 else value); v = (if v > max_value then max_value else v)
      in (True, dp_analog_write ops pin v w))"

section \<open>Clocks\<close>

definition arduino_clock_micros :: "('w \<Rightarrow> u32) \<Rightarrow> micros_extender \<times> 'w \<Rightarrow> u64 \<times> micros_extender" where
  "arduino_clock_micros micros cw = (case cw of (m, w) \<Rightarrow> me_update (micros w) m)"

definition linux_clock_micros :: "u64 \<Rightarrow> u64 \<Rightarrow> u64" where
  "linux_clock_micros tv_sec tv_nsec = tv_sec * 1000000 + tv_nsec div 1000"

section \<open>\<open>ArduinoInterruptGuard\<close>\<close>

text \<open>Whether interrupts are enabled is the state of the processor; on AVR the guard remembers it.\<close>

definition guard_enter :: "bool \<Rightarrow> bool \<Rightarrow> bool \<times> bool" where
  "guard_enter avr enabled = (avr \<and> enabled, False)"

definition guard_leave :: "bool \<Rightarrow> bool \<Rightarrow> bool \<Rightarrow> bool" where
  "guard_leave avr sreg enabled = (if avr then sreg else True)"

section \<open>\<open>NativeConsoleStream\<close> on Linux\<close>

definition console_create :: "'w fd_ops \<Rightarrow> 'w \<Rightarrow> (int \<times> int) \<times> 'w" where
  "console_create ops w =
     (case fs_create ops 0 w of (input, w1) \<Rightarrow> case fs_create ops 1 w1 of (output, w2) \<Rightarrow> ((input, output), w2))"

definition console_read :: "'w fd_ops \<Rightarrow> bool \<Rightarrow> nat \<Rightarrow> int \<times> int \<Rightarrow> 'w \<Rightarrow> int \<times> byte list \<times> 'w" where
  "console_read ops dst_null max_len con = fs_read ops dst_null max_len (fst con)"

definition console_write :: "'w fd_ops \<Rightarrow> byte list option \<Rightarrow> int \<times> int \<Rightarrow> 'w \<Rightarrow> int \<times> 'w" where
  "console_write ops src con = fs_write ops src (snd con)"

definition console_valid :: "int \<times> int \<Rightarrow> bool" where
  "console_valid con \<longleftrightarrow> fs_valid (fst con) \<and> fs_valid (snd con)"

section \<open>Connecting returns\<close>

text \<open>
  A clock: \<open>now\<close> is the time in milliseconds without a bound; asking for the status takes at most \<open>slack\<close>,
  and a delay takes what was asked for and at most \<open>slack\<close> more.
\<close>

definition wifi_clock :: "'w wifi_core \<Rightarrow> ('w \<Rightarrow> nat) \<Rightarrow> nat \<Rightarrow> bool" where
  "wifi_clock ops now slack \<longleftrightarrow>
     (\<forall>w. wc_millis ops w = of_nat (now w))
     \<and> (\<forall>w. now w \<le> now (snd (wc_connected ops w)) \<and> now (snd (wc_connected ops w)) \<le> now w + slack)
     \<and> (\<forall>w d. now w + unat d \<le> now (wc_delay ops d w) \<and> now (wc_delay ops d w) \<le> now w + unat d + slack)"

lemma millis_elapsed:
  assumes "t \<le> u" "u - t < 2 ^ 32"
  shows "unat (of_nat u - of_nat t :: u32) = u - t"
proof -
  have "(of_nat u - of_nat t :: u32) = of_nat (u - t)" using assms(1) by (simp add: of_nat_diff)
  with assms(2) show ?thesis by (simp add: unat_of_nat take_bit_nat_eq_self)
qed

definition wifi_waited :: "'w wifi_core \<Rightarrow> wifi_options \<Rightarrow> ('w \<Rightarrow> nat) \<Rightarrow> nat \<Rightarrow> nat \<Rightarrow> wifi_connect_result \<Rightarrow> 'w \<Rightarrow> bool" where
  "wifi_waited ops opts now slack start r w' \<longleftrightarrow>
     (r = Connected \<and> (\<exists>v. wc_connected ops v = (True, w'))
      \<or> r = Timeout \<and> (\<exists>v. wc_connected ops v = (False, w')) \<and> unat (wo_timeout_ms opts) \<le> now w' - start)
     \<and> now w' - start < unat (wo_timeout_ms opts) + unat (wo_poll_interval_ms opts) + 2 * slack"

lemma wifi_wait_returns:
  assumes clock: "wifi_clock ops now slack" and poll: "0 < unat (wo_poll_interval_ms opts)"
    and fits: "unat (wo_timeout_ms opts) + unat (wo_poll_interval_ms opts) + 2 * slack \<le> 2 ^ 32"
  shows "start \<le> now w \<Longrightarrow> now w - start < unat (wo_timeout_ms opts) + unat (wo_poll_interval_ms opts) + slack \<Longrightarrow>
    \<exists>r w'. wifi_wait ops opts (of_nat start) w = Some (r, w') \<and> wifi_waited ops opts now slack start r w'"
proof (induction "unat (wo_timeout_ms opts) + unat (wo_poll_interval_ms opts) + slack - (now w - start)" arbitrary: w rule: less_induct)
  case less
  let ?T = "unat (wo_timeout_ms opts)" and ?P = "unat (wo_poll_interval_ms opts)"
  obtain c w1 where c: "wc_connected ops w = (c, w1)" by fastforce
  have t1: "now w \<le> now w1" "now w1 \<le> now w + slack" using clock c unfolding wifi_clock_def by (metis snd_conv)+
  have e1: "now w1 - start < ?T + ?P + 2 * slack" "start \<le> now w1" using less.prems t1 by linarith+
  have m: "wc_millis ops w1 - of_nat start \<ge> wo_timeout_ms opts \<longleftrightarrow> ?T \<le> now w1 - start"
    using clock millis_elapsed [of start "now w1"] e1 fits by (simp add: wifi_clock_def word_le_nat_alt)
  show ?case
  proof (cases "c \<or> ?T \<le> now w1 - start")
    case True
    with c m e1 show ?thesis
      by (cases c) (auto simp: wifi_wait.simps [of ops opts "of_nat start" w] wifi_waited_def)
  next
    case False
    let ?w2 = "wc_delay ops (wo_poll_interval_ms opts) w1"
    have t2: "now w1 + ?P \<le> now ?w2" "now ?w2 \<le> now w1 + ?P + slack" using clock unfolding wifi_clock_def by blast+
    have "now ?w2 - start < ?T + ?P + slack" "start \<le> now ?w2" using False t2 e1 by linarith+
    moreover from this have "?T + ?P + slack - (now ?w2 - start) < ?T + ?P + slack - (now w - start)"
      using t1(1) t2(1) poll less.prems by linarith
    ultimately have "\<exists>r w'. wifi_wait ops opts (of_nat start) ?w2 = Some (r, w') \<and> wifi_waited ops opts now slack start r w'"
      using less.hyps [of ?w2] by blast
    moreover have "wifi_wait ops opts (of_nat start) w = wifi_wait ops opts (of_nat start) ?w2"
      using c m False by (simp add: wifi_wait.simps [of ops opts "of_nat start" w])
    ultimately show ?thesis by simp
  qed
qed

text \<open>
  Connecting to WiFi always returns, also when \<open>millis\<close> wraps around meanwhile: it rejects credentials that
  are missing or still the placeholder, without touching the radio; otherwise it reports \<open>Connected\<close> only
  if the network is connected, \<open>Timeout\<close> only if it is not and the time has passed, and this in less than
  the timeout, one poll interval and what two calls may take longer. (The poll interval is not zero.)
\<close>

theorem wifi_connect_returns:
  assumes "wifi_clock ops now slack" "0 < unat (wo_poll_interval_ms opts)"
    "unat (wo_timeout_ms opts) + unat (wo_poll_interval_ms opts) + 2 * slack \<le> 2 ^ 32"
  shows "\<exists>r w'. connect_wifi_result ops opts w = Some (r, w')
    \<and> (if wo_reject_placeholder_credentials opts \<and> \<not> wifi_credentials_configured (wo_ssid opts) (wo_placeholder_ssid opts)
       then r = MissingCredentials \<and> w' = w
       else wifi_waited ops opts now slack (now (wifi_begin ops opts w)) r w')"
proof (cases "wo_reject_placeholder_credentials opts \<and> \<not> wifi_credentials_configured (wo_ssid opts) (wo_placeholder_ssid opts)")
  case False
  have "wc_millis ops (wifi_begin ops opts w) = of_nat (now (wifi_begin ops opts w))" using assms(1) by (simp add: wifi_clock_def)
  moreover have "0 < unat (wo_timeout_ms opts) + unat (wo_poll_interval_ms opts) + slack" using assms(2) by simp
  ultimately show ?thesis
    using wifi_wait_returns [OF assms, of "now (wifi_begin ops opts w)" "wifi_begin ops opts w"] False
    by (auto simp: connect_wifi_result_def Let_def)
qed (simp add: connect_wifi_result_def)

section \<open>Datagrams over WiFi\<close>

text \<open>
  A radio: \<open>read\<close> takes the next bytes of the current datagram; when that has been read to its end, or there is none,
  \<open>parsePacket\<close> goes on to the next in the queue and tells its length, or 0 if there is none. What \<open>parsePacket\<close> does while
  bytes of the current datagram are unread is not specified (some cores drop them, some stay with the datagram).
\<close>

type_synonym datagram = "(ip_address \<times> u16) \<times> byte list"

type_synonym 'x radio = "datagram option \<times> datagram list \<times> 'x"

definition radio_drained :: "datagram option \<Rightarrow> bool" where
  "radio_drained cur \<longleftrightarrow> (case cur of None \<Rightarrow> True | Some (src, bytes) \<Rightarrow> bytes = [])"

definition wifi_radio :: "'x radio wifi_udp_ops \<Rightarrow> bool" where
  "wifi_radio ops \<longleftrightarrow>
     (\<forall>cur x. radio_drained cur \<longrightarrow> (\<exists>cur'. radio_drained cur' \<and> wu_parse_packet ops (cur, [], x) = (0, (cur', [], x))))
     \<and> (\<forall>cur d q x. radio_drained cur \<longrightarrow> snd d \<noteq> [] \<longrightarrow>
          wu_parse_packet ops (cur, d # q, x) = (int (length (snd d)), (Some d, q, x)))
     \<and> (\<forall>n src bytes q x. bytes \<noteq> [] \<longrightarrow> wu_read ops n (Some (src, bytes), q, x)
          = (int (length (take n bytes)), take n bytes, (Some (src, drop n bytes), q, x)))
     \<and> (\<forall>src bytes q x. wu_remote_ip ops (Some (src, bytes), q, x) = fst src \<and> wu_remote_port ops (Some (src, bytes), q, x) = snd src)"

text \<open>The datagrams still to be received: one that has been looked at by \<open>readable\<close>, and the queue.\<close>

definition uw_pending :: "wifi_udp \<times> 'x radio \<Rightarrow> datagram list" where
  "uw_pending uw = (case uw of (u, cur, q, x) \<Rightarrow> if uw_packet_size u > 0 then the cur # q else q)"

definition uw_ok :: "wifi_udp \<times> 'x radio \<Rightarrow> bool" where
  "uw_ok uw \<longleftrightarrow> (case uw of (u, cur, q, x) \<Rightarrow> uw_bound u \<and> (\<forall>d \<in> set q. snd d \<noteq> [])
     \<and> (if uw_packet_size u > 0 then \<not> radio_drained cur else radio_drained cur))"

text \<open>
  C26: a bound UDP stream over WiFi, whose datagrams are not empty, is a queue of datagrams. \<open>readable\<close> tells whether
  there is one and loses none; \<open>recv_from\<close>, with a buffer that the first one fits, takes that one and
  returns its bytes and its sender, whether \<open>readable\<close> has been asked before or not.
\<close>

theorem wifi_udp_refines_queue:
  assumes "wifi_radio ops" "uw_ok uw" "0 < max_len" "\<forall>d ds. uw_pending uw = d # ds \<longrightarrow> length (snd d) \<le> max_len"
  shows "(\<exists>uw'. uw_readable ops uw = (uw_pending uw \<noteq> [], uw') \<and> uw_ok uw' \<and> uw_pending uw' = uw_pending uw)
    \<and> (\<exists>uw'. uw_recv_from ops False max_len True uw =
          (case uw_pending uw of
             [] \<Rightarrow> (0, [], None, uw')
           | (src, bytes) # q \<Rightarrow> (int (length bytes), bytes,
               Some \<lparr>peer_host = ip_text (fst src), peer_port = snd src\<rparr>, uw'))
        \<and> uw_ok uw' \<and> uw_pending uw' = tl (uw_pending uw))"
proof -
  obtain u cur q x where uw: "uw = (u, cur, q, x)" by (metis prod_cases4)
  from assms(2) uw have u: "uw_bound u" "\<forall>d \<in> set q. snd d \<noteq> []"
    "uw_packet_size u > 0 \<Longrightarrow> \<not> radio_drained cur" "uw_packet_size u \<le> 0 \<Longrightarrow> radio_drained cur"
    by (auto simp: uw_ok_def split: if_splits)
  have r: "\<And>cur x. radio_drained cur \<Longrightarrow> \<exists>cur'. radio_drained cur' \<and> wu_parse_packet ops (cur, [], x) = (0, (cur', [], x))"
    "\<And>cur d q x. radio_drained cur \<Longrightarrow> snd d \<noteq> [] \<Longrightarrow> wu_parse_packet ops (cur, d # q, x) = (int (length (snd d)), (Some d, q, x))"
    "\<And>n src bytes q x. bytes \<noteq> [] \<Longrightarrow>
        wu_read ops n (Some (src, bytes), q, x) = (int (length (take n bytes)), take n bytes, (Some (src, drop n bytes), q, x))"
    "\<And>src bytes q x. wu_remote_ip ops (Some (src, bytes), q, x) = fst src"
    "\<And>src bytes q x. wu_remote_port ops (Some (src, bytes), q, x) = snd src"
    using assms(1) unfolding wifi_radio_def by blast+
  have taken: "radio_drained (Some (src, []))" for src by (simp add: radio_drained_def)
  consider (looked) src bytes where "uw_packet_size u > 0" "cur = Some (src, bytes)" "bytes \<noteq> []"
    | (none) "uw_packet_size u \<le> 0" "q = []"
    | (next_one) src bytes ds where "uw_packet_size u \<le> 0" "q = (src, bytes) # ds" "bytes \<noteq> []"
    using u by (cases "uw_packet_size u > 0"; cases q; cases cur) (auto simp: radio_drained_def)
  then show ?thesis
  proof cases
    case looked
    have p: "uw_pending uw = (src, bytes) # q" using looked uw by (simp add: uw_pending_def)
    with assms(4) have fits: "length bytes \<le> max_len" by simp
    have "uw_readable ops uw = (True, uw)"
      "uw_recv_from ops False max_len True uw = (int (length bytes), bytes,
         Some \<lparr>peer_host = ip_text (fst src), peer_port = snd src\<rparr>, u\<lparr>uw_packet_size := 0\<rparr>, Some (src, []), q, x)"
      using looked u(1) r(3-5) assms(3) uw fits by (simp_all add: uw_readable_def uw_recv_from_def)
    moreover have "uw_ok (u\<lparr>uw_packet_size := 0\<rparr>, Some (src, []), q, x)
        \<and> uw_pending (u\<lparr>uw_packet_size := 0\<rparr>, Some (src, []), q, x) = q"
      using u(1,2) taken by (simp add: uw_pending_def uw_ok_def)
    ultimately show ?thesis using assms(2) p by (simp del: split_paired_Ex)
  next
    case none
    with r(1) [OF u(4), of x] obtain cur' where "radio_drained cur'" "wu_parse_packet ops (cur, [], x) = (0, (cur', [], x))" by blast
    with none show ?thesis using u(1) assms(3) uw
      by (auto simp: uw_readable_def uw_recv_from_def uw_pending_def uw_ok_def)
  next
    case next_one
    have p: "uw_pending uw = (src, bytes) # ds" using next_one uw by (simp add: uw_pending_def)
    with assms(4) have fits: "length bytes \<le> max_len" by simp
    from next_one r(2) [OF u(4), of "(src, bytes)" ds x]
    have parse: "wu_parse_packet ops (cur, q, x) = (int (length bytes), (Some (src, bytes), ds, x))" by simp
    have "uw_readable ops uw = (True, u\<lparr>uw_packet_size := int (length bytes)\<rparr>, Some (src, bytes), ds, x)"
      "uw_recv_from ops False max_len True uw = (int (length bytes), bytes,
         Some \<lparr>peer_host = ip_text (fst src), peer_port = snd src\<rparr>, u\<lparr>uw_packet_size := 0\<rparr>, Some (src, []), ds, x)"
      using next_one u(1) r(3-5) parse assms(3) uw fits by (simp_all add: uw_readable_def uw_recv_from_def)
    moreover have "uw_ok (u\<lparr>uw_packet_size := 0\<rparr>, Some (src, []), ds, x)
        \<and> uw_pending (u\<lparr>uw_packet_size := 0\<rparr>, Some (src, []), ds, x) = ds"
      "uw_ok (u\<lparr>uw_packet_size := int (length bytes)\<rparr>, Some (src, bytes), ds, x)
        \<and> uw_pending (u\<lparr>uw_packet_size := int (length bytes)\<rparr>, Some (src, bytes), ds, x) = (src, bytes) # ds"
      using u(1,2) next_one taken by (simp_all add: uw_pending_def uw_ok_def radio_drained_def)
    ultimately show ?thesis using p by (simp del: split_paired_Ex)
  qed
qed

section \<open>A serial port as a byte source\<close>

definition serial_source :: "'w serial_port \<Rightarrow> ('w \<Rightarrow> byte list) \<Rightarrow> ('w \<Rightarrow> 'o) \<Rightarrow> bool" where
  "serial_source ops content rest \<longleftrightarrow>
     (\<forall>w. sp_available ops w = int (length (content w)))
     \<and> (\<forall>w b bs. content w = b # bs \<longrightarrow> (case sp_read ops w of (c, w1) \<Rightarrow> c = uint b \<and> content w1 = bs \<and> rest w1 = rest w))"

lemma as_read_loop_source:
  assumes "serial_source ops content rest"
  shows "\<exists>w'. as_read_loop ops k w = (take k (content w), w') \<and> content w' = drop k (content w) \<and> rest w' = rest w"
proof (induction k arbitrary: w)
  case (Suc k)
  have av: "sp_available ops w = int (length (content w))" using assms by (simp add: serial_source_def)
  show ?case
  proof (cases "content w")
    case Nil
    with av show ?thesis by simp
  next
    case (Cons b bs)
    obtain c w1 where r: "sp_read ops w = (c, w1)" by fastforce
    with assms Cons have "c = uint b" "content w1 = bs" "rest w1 = rest w" unfolding serial_source_def by force+
    with Suc.IH [of w1] av Cons r show ?thesis by auto
  qed
qed simp

lemma as_stream_source:
  assumes "serial_source ops content rest"
  shows "byte_source (as_stream ops) content rest (\<lambda>w. True)"
proof
  fix w :: 'a
  show "bs_readable (as_stream ops) w \<longleftrightarrow> content w \<noteq> []"
    using assms by (simp add: as_stream_def serial_source_def)
  fix b bs
  assume c: "content w = b # bs"
  from as_read_loop_source [OF assms, of 1 w] c obtain w' where
    "as_read_loop ops 1 w = ([b], w')" "content w' = bs" "rest w' = rest w" by auto
  then show "\<exists>w'. bs_read (as_stream ops) 1 w = (1, [b], w') \<and> content w' = bs \<and> rest w' = rest w \<and> True"
    by (intro exI [of _ w']) (simp add: as_stream_def as_read_def int_of_size_small del: as_read_loop.simps One_nat_def)
qed

text \<open>
  A reader polled on an Arduino serial port delivers exactly the complete lines among what was pending
  in it and what has arrived, in order, and reads everything; and a direct read of the stream returns
  what fits of what has arrived.
\<close>

theorem serial_delivers_lines:
  assumes "serial_source ops content rest" "line_inv r" "lo_delimiter opts = chr_lf" "lo_strip_cr opts"
    "line_pending r @ content w = join_lines chr_lf ls lastl" "chr_lf \<notin> set (line_pending r)"
    "\<forall>l \<in> set (lastl # ls). chr_lf \<notin> set l \<and> length l \<le> line_capacity r" "0 < n" "n < 2 ^ 31"
    "\<And>v w. content (cb v w) = content w \<and> rest (cb v w) = f v (rest w)"
  shows "(\<exists>r' w'. line_poll (as_stream ops) opts cb (r, w) = Some (r', w') \<and> content w' = []
      \<and> rest w' = deliver f (map (strip_cr True) ls) (rest w) \<and> line_pending r' = lastl)
    \<and> (\<exists>w'. as_read ops False n w = (int (length (take n (content w))), take n (content w), w') \<and> content w' = drop n (content w))"
proof
  from line_feed_resume [OF assms(2), of opts "content w" ls lastl] assms(3-7) obtain r' where
    f: "feed (line_byte opts) (content w) r = (r', map (strip_cr True) ls)" "line_pending r' = lastl" by auto
  from byte_source.poll_reader [OF as_stream_source [OF assms(1)] TrueI _ f(1), of cb f] assms(10) f(2)
  show "\<exists>r' w'. line_poll (as_stream ops) opts cb (r, w) = Some (r', w') \<and> content w' = []
      \<and> rest w' = deliver f (map (strip_cr True) ls) (rest w) \<and> line_pending r' = lastl"
    by (auto simp: line_poll_def)
  from as_read_loop_source [OF assms(1), of n w] assms(8,9)
  show "\<exists>w'. as_read ops False n w = (int (length (take n (content w))), take n (content w), w') \<and> content w' = drop n (content w)"
    by (auto simp: as_read_def int_of_size_small)
qed

text \<open>The guard restores the interrupt state on AVR; elsewhere leaving an inner guard enables interrupts.\<close>

lemma guard_nests:
  "guard_enter avr enabled = (sreg, now) \<Longrightarrow> \<not> now \<and> (guard_leave avr sreg False = enabled \<or> \<not> avr \<and> \<not> enabled)"
  by (auto simp: guard_enter_def guard_leave_def)

section \<open>Examples\<close>

text \<open>A core whose network connects after one second; every call of \<open>status\<close> takes one millisecond.\<close>

definition demo_wifi :: "nat wifi_core" where
  "demo_wifi = \<lparr>wc_mode_sta = (\<lambda>w. w), wc_begin = (\<lambda>ssid pw w. w + 100), wc_connected = (\<lambda>w. (w mod 10000 \<ge> 1000, Suc w)),
     wc_millis = of_nat, wc_delay = (\<lambda>d w. w + unat d)\<rparr>"

lemma wifi_connect_returns_witness:
  "\<exists>r w'. connect_wifi_named demo_wifi (Some ''home'') (Some ''secret'') 15000 250 0 = Some (r, w')
     \<and> wifi_waited demo_wifi (wifi_options_default\<lparr>wo_ssid := Some ''home'', wo_password := Some ''secret''\<rparr>) (\<lambda>w. w) 1 100 r w'"
proof -
  let ?o = "wifi_options_default\<lparr>wo_ssid := Some ''home'', wo_password := Some ''secret''\<rparr>"
  have c: "wifi_clock demo_wifi (\<lambda>w. w) 1" by (simp add: wifi_clock_def demo_wifi_def)
  have o: "connect_wifi_named demo_wifi (Some ''home'') (Some ''secret'') 15000 250 0 = connect_wifi_result demo_wifi ?o 0"
    by (simp add: connect_wifi_named_def wifi_options_default_def)
  have b: "wifi_begin demo_wifi ?o 0 = 100" by (simp add: wifi_begin_def demo_wifi_def)
  have p: "wifi_credentials_configured (wo_ssid ?o) (wo_placeholder_ssid ?o)"
    by (simp add: wifi_options_default_def wifi_credentials_configured_def)
  have "0 < unat (wo_poll_interval_ms ?o)" "unat (wo_timeout_ms ?o) + unat (wo_poll_interval_ms ?o) + 2 * 1 \<le> 2 ^ 32"
    by (simp_all add: wifi_options_default_def)
  from wifi_connect_returns [OF c this, of 0] show ?thesis unfolding o b by (simp only: p not_True_eq_False simp_thms if_False)
qed

text \<open>A core that stays with a datagram until it has been read.\<close>

definition demo_radio :: "unit radio wifi_udp_ops" where
  "demo_radio = \<lparr>wu_begin = (\<lambda>port w. (1, w)), wu_stop = (\<lambda>w. w),
     wu_parse_packet = (\<lambda>(cur, q, x). if \<not> radio_drained cur then (0, (cur, q, x))
       else case q of [] \<Rightarrow> (0, (cur, [], x)) | d # ds \<Rightarrow> (int (length (snd d)), (Some d, ds, x))),
     wu_read = (\<lambda>n (cur, q, x). case cur of None \<Rightarrow> (0, [], (cur, q, x))
       | Some (src, bytes) \<Rightarrow> (int (length (take n bytes)), take n bytes, (Some (src, drop n bytes), q, x))),
     wu_remote_ip = (\<lambda>(cur, q, x). fst (fst (the cur))), wu_remote_port = (\<lambda>(cur, q, x). snd (fst (the cur))),
     wu_begin_packet = (\<lambda>ip port w. (True, w)), wu_write = (\<lambda>bytes w. (length bytes, w)), wu_end_packet = (\<lambda>w. (True, w)),
     wu_from_string = (\<lambda>s. None)\<rparr>"

lemma wifi_udp_refines_queue_witness:
  "\<exists>uw'. uw_recv_from demo_radio False 4 True (uw_init\<lparr>uw_bound := True\<rparr>, None,
        [(((10, 0, 0, 125), 7), [65, 66, 67]), (((10, 0, 0, 7), 7), [68])], ())
      = (3, [65, 66, 67], Some \<lparr>peer_host = ''10.0.0.125'', peer_port = 7\<rparr>, uw')
    \<and> uw_pending uw' = [(((10, 0, 0, 7), 7), [68])]"
proof -
  let ?uw = "(uw_init\<lparr>uw_bound := True\<rparr>, None, [(((10, 0, 0, 125), 7), [65, 66, 67]), (((10, 0, 0, 7), 7), [68])], ()) :: wifi_udp \<times> unit radio"
  have "wifi_radio demo_radio" by (simp add: wifi_radio_def demo_radio_def)
  moreover have "uw_ok ?uw" by (simp add: uw_ok_def uw_init_def radio_drained_def)
  moreover have "ip_text (10, 0, 0, 125) = ''10.0.0.125''" by code_simp
  moreover have "uw_pending ?uw = [(((10, 0, 0, 125), 7), [65, 66, 67]), (((10, 0, 0, 7), 7), [68])]"
    by (simp add: uw_pending_def uw_init_def)
  ultimately obtain uw' where "uw_recv_from demo_radio False 4 True ?uw
      = (3, [65, 66, 67], Some \<lparr>peer_host = ''10.0.0.125'', peer_port = 7\<rparr>, uw')"
    "uw_pending uw' = [(((10, 0, 0, 7), 7), [68])]"
    using wifi_udp_refines_queue [of demo_radio ?uw 4] by auto
  then show ?thesis by blast
qed

definition demo_serial :: "(byte list \<times> byte list list) serial_port" where
  "demo_serial = \<lparr>sp_available = (\<lambda>w. int (length (fst w))),
     sp_read = (\<lambda>w. case fst w of [] \<Rightarrow> (- 1, w) | b # bs \<Rightarrow> (uint b, (bs, snd w))), sp_write = (\<lambda>bytes w. (length bytes, w))\<rparr>"

lemma serial_delivers_lines_witness:
  "\<exists>r' w'. line_poll (as_stream demo_serial) line_options_default (\<lambda>v (q, x). (q, x @ [v]))
      (line_init 16, ([65, 66, 10, 67], [])) = Some (r', w') \<and> snd w' = [[65, 66]] \<and> line_pending r' = [67]"
proof -
  have s: "serial_source demo_serial fst snd" by (auto simp: serial_source_def demo_serial_def)
  have i: "line_inv (line_init 16)" "line_capacity (line_init 16) = 16" by (simp_all add: line_inv_def line_init_def)
  have j: "line_pending (line_init 16) @ fst ([65, 66, 10, 67], [] :: byte list list) = join_lines chr_lf [[65, 66]] [67]" by simp
  from serial_delivers_lines [OF s i(1) _ _ j, where opts = line_options_default and n = 1
      and cb = "\<lambda>v (q, x). (q, x @ [v])" and f = "\<lambda>v x. x @ [v]"] i
  show ?thesis by (auto simp: line_options_default_def strip_cr_def)
qed

end
