(* ===== verification/Example_Servers.thy ===== *)
theory Example_Servers
  imports Linux_Line_Server
begin

text \<open>
  The handlers of two example servers: \<^verbatim>\<open>examples/TcpFixedHeaderServerExample\<close> (frames with a length byte,
  sent back) and \<^verbatim>\<open>examples/TcpLineServerExample\<close> (lines sent back, and a \<open>shutdown\<close> command), the second on the
  Linux server. The log output is left out.
\<close>

section \<open>Frames with a length byte\<close>

text \<open>The two operations of an \<open>ITcpConnection\<close> that only this example uses.\<close>

record 'w tcp_frame_ops = "'w tcp_ops" +
  tc_peek :: "nat \<Rightarrow> nat \<Rightarrow> 'w \<Rightarrow> byte list option"
  tc_read_exact :: "nat \<Rightarrow> nat \<Rightarrow> 'w \<Rightarrow> byte list option \<times> 'w"

text \<open>The handlers' state is the registry of connections.\<close>

definition ex_on_accept ::
  "('w, 'z) tcp_ops_scheme \<Rightarrow> nat \<Rightarrow> tcp_registry \<times> 'w \<Rightarrow> bool \<times> tcp_registry \<times> 'w" where
  "ex_on_accept ops c rw =
     (case rw of (r, w) \<Rightarrow> case tr_add c r of (ok, r1) \<Rightarrow> if \<not> ok then (False, r1, tc_close ops c w) else (True, r1, w))"

definition ex_on_close :: "nat \<Rightarrow> tcp_registry \<times> 'w \<Rightarrow> tcp_registry \<times> 'w" where
  "ex_on_close c rw = (case rw of (r, w) \<Rightarrow> (snd (tr_remove c r), w))"

definition ex_on_error :: "nat \<Rightarrow> int \<Rightarrow> tcp_registry \<times> 'w \<Rightarrow> tcp_registry \<times> 'w" where
  "ex_on_error c error_code rw = (case rw of (r, w) \<Rightarrow> (snd (tr_remove c r), w))"

partial_function (option) fh_on_data ::
  "'w tcp_frame_ops \<Rightarrow> nat \<Rightarrow> tcp_registry \<times> 'w \<Rightarrow> (tcp_registry \<times> 'w) option" where
  "fh_on_data ops c rw =
     (case rw of (r, w) \<Rightarrow>
        if tc_input_size ops c w \<ge> 1
        then (case tc_peek ops c 1 w of
                None \<Rightarrow> Some (r, w)
              | Some bytes \<Rightarrow>
                  let len = unat (hd bytes)
                  in if len > 64 then Some (snd (tr_remove c r), tc_close ops c w)
                     else let frame_size = 1 + len
                          in if tc_input_size ops c w < frame_size then Some (r, w)
                             else (case tc_read_exact ops c frame_size w of
                                     (None, w1) \<Rightarrow> Some (r, w1)
                                   | (Some frame, w1) \<Rightarrow> fh_on_data ops c (r, snd (tc_write ops c frame w1))))
        else Some (r, w))"

text \<open>
  A connection: \<open>content\<close> is what can be read, \<open>sent\<close> what has been written, \<open>closed\<close> whether it has been
  closed.
\<close>

definition frame_connection ::
  "'w tcp_frame_ops \<Rightarrow> nat \<Rightarrow> ('w \<Rightarrow> byte list) \<Rightarrow> ('w \<Rightarrow> byte list) \<Rightarrow> ('w \<Rightarrow> bool) \<Rightarrow> bool" where
  "frame_connection ops c content sent closed \<longleftrightarrow>
     (\<forall>w. tc_input_size ops c w = length (content w))
     \<and> (\<forall>n w. n \<le> length (content w) \<longrightarrow> tc_peek ops c n w = Some (take n (content w)))
     \<and> (\<forall>n w. n \<le> length (content w) \<longrightarrow> (\<exists>w1. tc_read_exact ops c n w = (Some (take n (content w)), w1)
          \<and> content w1 = drop n (content w) \<and> sent w1 = sent w \<and> closed w1 = closed w))
     \<and> (\<forall>bytes w. let w1 = snd (tc_write ops c bytes w) in
          content w1 = content w \<and> sent w1 = sent w @ bytes \<and> closed w1 = closed w)
     \<and> (\<forall>w. closed (tc_close ops c w) \<and> sent (tc_close ops c w) = sent w)"

definition frame_of :: "byte list \<Rightarrow> byte list" where
  "frame_of payload = of_nat (length payload) # payload"

lemma fh_frame:
  assumes conn: "frame_connection ops c content sent closed" and p: "length p \<le> 64" "content w = frame_of p @ more_bytes"
  shows "\<exists>w1. fh_on_data ops c (r, w) = fh_on_data ops c (r, w1) \<and> content w1 = more_bytes
    \<and> sent w1 = sent w @ frame_of p \<and> closed w1 = closed w"
proof -
  have c: "tc_input_size ops c w = length (content w)" "tc_peek ops c 1 w = Some (take 1 (content w))"
    using conn p(2) unfolding frame_connection_def by (blast, simp add: frame_of_def)
  have n: "unat (of_nat (length p) :: byte) = length p" using p(1) by (simp add: unat_of_nat take_bit_nat_eq_self)
  have l: "1 + length p \<le> length (content w)" "take (1 + length p) (content w) = frame_of p"
    "drop (1 + length p) (content w) = more_bytes" by (simp_all add: p(2) frame_of_def)
  from conn l(1) obtain w1 where w1: "tc_read_exact ops c (1 + length p) w = (Some (frame_of p), w1)"
    "content w1 = more_bytes" "sent w1 = sent w" "closed w1 = closed w"
    unfolding frame_connection_def using l(2,3) by metis
  let ?w2 = "snd (tc_write ops c (frame_of p) w1)"
  have "content ?w2 = content w1 \<and> sent ?w2 = sent w1 @ frame_of p \<and> closed ?w2 = closed w1"
    using conn unfolding frame_connection_def Let_def by blast
  moreover have "fh_on_data ops c (r, w) = fh_on_data ops c (r, ?w2)"
    using c n p l(1) w1(1) by (simp add: fh_on_data.simps [of ops c "(r, w)"] frame_of_def Let_def)
  ultimately show ?thesis using w1 by (intro exI [of _ ?w2]) simp
qed

text \<open>
  The fixed-header server sends every complete frame back unchanged and in order, however the frames
  have been cut into pieces: when data is reported its loop returns, what has been written are exactly the
  complete frames that had arrived, and an incomplete frame stays unread; a length byte over 64 closes the
  connection and takes it out of the registry, after the frames before it have been sent back.
\<close>

theorem frames_echoed:
  assumes "frame_connection ops c content sent closed" "\<forall>p \<in> set ps. length p \<le> 64" "tr_inv r" "\<not> closed w"
    "content w = concat (map frame_of ps) @ later" "later = [] \<or> unat (hd later) > 64 \<or> length later \<le> unat (hd later)"
  shows "\<exists>r1 w1. fh_on_data ops c (r, w) = Some (r1, w1) \<and> sent w1 = sent w @ concat (map frame_of ps)
    \<and> (if later \<noteq> [] \<and> unat (hd later) > 64 then closed w1 \<and> set (tr_list r1) = set (tr_list r) - {c}
       else r1 = r \<and> \<not> closed w1 \<and> content w1 = later)"
  using assms(2,4,5)
proof (induction ps arbitrary: w)
  case Nil
  have c: "tc_input_size ops c w = length later" "content w = later"
    using assms(1) Nil(3) unfolding frame_connection_def by simp_all
  have pk: "tc_peek ops c 1 w = Some [hd later]" if "later \<noteq> []"
    using assms(1) that c(2) unfolding frame_connection_def by (cases later) auto
  have cl: "closed (tc_close ops c w)" "sent (tc_close ops c w) = sent w" using assms(1) unfolding frame_connection_def by blast+
  note unfold = fh_on_data.simps [of ops c "(r, w)"]
  consider "later = []" | "later \<noteq> []" "unat (hd later) > 64" | "later \<noteq> []" "unat (hd later) \<le> 64" "length later \<le> unat (hd later)"
    using assms(6) by linarith
  then show ?case
  proof cases
    case 1
    with c Nil show ?thesis by (simp add: unfold)
  next
    case 2
    then have "fh_on_data ops c (r, w) = Some (snd (tr_remove c r), tc_close ops c w)"
      using c pk by (cases later) (simp_all add: unfold Let_def)
    with 2 cl tr_remove_spec [OF assms(3), of c "fst (tr_remove c r)" "snd (tr_remove c r)"] show ?thesis by auto
  next
    case 3
    then have "fh_on_data ops c (r, w) = Some (r, w)" using c pk by (cases later) (simp_all add: unfold Let_def)
    with 3 c Nil show ?thesis by auto
  qed
next
  case (Cons p ps)
  then have p: "length p \<le> 64" "content w = frame_of p @ (concat (map frame_of ps) @ later)" by simp_all
  from fh_frame [OF assms(1) p, of r] obtain w1 where w1: "fh_on_data ops c (r, w) = fh_on_data ops c (r, w1)"
    "content w1 = concat (map frame_of ps) @ later" "sent w1 = sent w @ frame_of p" "closed w1 = closed w" by blast
  from Cons.IH [OF _ _ w1(2)] Cons.prems(1,2) w1(4) obtain r2 w2 where
    "fh_on_data ops c (r, w1) = Some (r2, w2)" "sent w2 = sent w1 @ concat (map frame_of ps)"
    "if later \<noteq> [] \<and> unat (hd later) > 64 then closed w2 \<and> set (tr_list r2) = set (tr_list r) - {c}
       else r2 = r \<and> \<not> closed w2 \<and> content w2 = later" by auto
  with w1 show ?case by (intro exI [of _ r2] exI [of _ w2]) simp
qed

section \<open>The line server\<close>

text \<open>The application: its registry, and whether it has asked the event loop to exit.\<close>

record line_example =
  le_connections :: tcp_registry
  le_exit_requested :: bool

definition le_on_accept ::
  "(linux_server \<times> line_example \<times> 'y) tcp_ops \<Rightarrow> nat \<Rightarrow> tcp_peer_info
     \<Rightarrow> linux_server \<times> line_example \<times> 'y \<Rightarrow> linux_server \<times> line_example \<times> 'y" where
  "le_on_accept tcp c peer sey =
     (case sey of (s, e, y) \<Rightarrow> case tr_add c (le_connections e) of (ok, r) \<Rightarrow>
        if \<not> ok then tc_close tcp c (s, e\<lparr>le_connections := r\<rparr>, y) else (s, e\<lparr>le_connections := r\<rparr>, y))"

definition le_on_line ::
  "'y bev_ops \<Rightarrow> (linux_server \<times> line_example \<times> 'y) tcp_ops \<Rightarrow> nat \<Rightarrow> byte list
     \<Rightarrow> linux_server \<times> line_example \<times> 'y \<Rightarrow> linux_server \<times> line_example \<times> 'y" where
  "le_on_line ops tcp c line sey =
     (if line_equals line (Some (bytes_of ''shutdown''))
      then (case lt_close (lift_bev ops) sey of (s, e, y) \<Rightarrow> (s, e\<lparr>le_exit_requested := True\<rparr>, y))
      else snd (tcp_write_line tcp c line sey))"

definition le_remove :: "nat \<Rightarrow> linux_server \<times> line_example \<times> 'y \<Rightarrow> linux_server \<times> line_example \<times> 'y" where
  "le_remove c sey = (case sey of (s, e, y) \<Rightarrow> (s, e\<lparr>le_connections := snd (tr_remove c (le_connections e))\<rparr>, y))"

definition le_handler ::
  "'y bev_ops \<Rightarrow> (linux_server \<times> line_example \<times> 'y) tcp_ops \<Rightarrow> (linux_server \<times> line_example \<times> 'y) line_handler" where
  "le_handler ops tcp =
     \<lparr>lh_on_accept = le_on_accept tcp, lh_on_line = le_on_line ops tcp, lh_on_close = le_remove,
      lh_on_error = (\<lambda>c code. le_remove c), lh_on_listener_error = (\<lambda>code sey. sey),
      lh_on_too_many_connections = tc_close tcp, lh_on_backpressure = (\<lambda>c info sey. sey)\<rparr>"

text \<open>The poll of the slot of connection \<open>c\<close>, with the application on the Linux server.\<close>

abbreviation le_poll ::
  "'y bev_ops \<Rightarrow> (linux_server \<times> line_example \<times> 'y) tcp_ops \<Rightarrow> nat
     \<Rightarrow> line_reader \<times> linux_server \<times> line_example \<times> 'y \<Rightarrow> (line_reader \<times> linux_server \<times> line_example \<times> 'y) option" where
  "le_poll ops dead c \<equiv> line_poll (connection_stream (linux_tcp (lift_bev ops) dead) (Some c)) line_options_default
     (handle_line (linux_tcp (lift_bev ops) dead) (lh_on_line (le_handler ops (linux_tcp (lift_bev ops) dead))) (Some c))"

text \<open>
  The \<open>shutdown\<close> command of the line server example uses a destroyed connection on Linux. When the line
  arrives, the poll of the line reader hands it to the application, which closes the server: this
  destroys every connection, also the one the reader is reading from; but the reader's loop goes on with
  it: whether it ends, and what it reads, depends on what is found in the destroyed object.
\<close>

theorem shutdown_reads_destroyed_connection:
  fixes ops :: "'y bev_ops" and dead :: "(linux_server \<times> line_example \<times> 'y) tcp_ops"
  assumes "lt_find c s = Some k" "lx_bev k = Some b" "bev_source (lift_bev ops) b inbox rest" "line_inv r"
    "line_pending r = []" "8 \<le> line_capacity r" "inbox (e, y) = bytes_of ''shutdown'' @ chr_lf # later"
  shows "\<exists>r1 w1. le_poll ops dead c (r, (s, e, y)) = le_poll ops dead c (r1, w1)
    \<and> lt_connections (fst w1) = [] \<and> le_exit_requested (fst (snd w1))
    \<and> (\<not> tc_readable dead c w1 \<longrightarrow> le_poll ops dead c (r1, w1) = Some (r1, w1))
    \<and> (\<forall>n bytes w2. tc_readable dead c w1 \<longrightarrow> tc_read dead c 1 w1 = (n, bytes, w2) \<longrightarrow> n \<le> 0
          \<longrightarrow> le_poll ops dead c (r1, w1) = Some (r1, w2))"
proof -
  let ?tcp = "linux_tcp (lift_bev ops) dead"
  let ?h = "le_handler ops ?tcp"
  have sd: "chr_lf \<notin> set (bytes_of ''shutdown'')" "length (bytes_of ''shutdown'') = 8" by (simp_all add: bytes_of_def)
  have o: "lo_delimiter line_options_default = chr_lf" by (simp add: line_options_default_def)
  from poll_first_line [OF assms(1-3) o assms(7) sd(1) assms(4), of dead ?h] assms(5,6) sd(2) obtain r1 x1 where
    p: "le_poll ops dead c (r, (s, e, y))
      = le_poll ops dead c (r1, lh_on_line ?h c (strip_cr (lo_strip_cr line_options_default) (bytes_of ''shutdown'')) (s, x1))"
    by auto
  have v: "strip_cr (lo_strip_cr line_options_default) (bytes_of ''shutdown'') = bytes_of ''shutdown''"
    by (simp add: strip_cr_def bytes_of_def)
  have q: "line_equals (bytes_of ''shutdown'') (Some (bytes_of ''shutdown''))"
    by (simp add: line_equals_def c_string_def bytes_of_def)
  obtain s1 e0 y1 where cl: "lt_close (lift_bev ops) (s, x1) = (s1, e0, y1)" by (metis prod_cases3)
  then have gone: "lt_connections s1 = []" by (cases x1) (auto simp: lt_close_def Let_def)
  define w1 where "w1 = (s1, e0\<lparr>le_exit_requested := True\<rparr>, y1)"
  have w1: "lh_on_line ?h c (bytes_of ''shutdown'') (s, x1) = w1"
    using q cl by (simp add: le_handler_def le_on_line_def w1_def)
  have d: "tc_valid ?tcp c w1 = tc_valid dead c w1" "tc_input_size ?tcp c w1 = tc_input_size dead c w1"
    "tc_read ?tcp c 1 w1 = tc_read dead c 1 w1"
    using gone by (simp_all add: linux_tcp_def lt_find_def w1_def)
  have "bs_readable (connection_stream ?tcp (Some c)) w1 = tc_readable dead c w1"
    "bs_read (connection_stream ?tcp (Some c)) 1 w1 = tc_read dead c 1 w1"
    using d by (simp_all add: connection_stream_def cs_readable_def cs_read_def tc_readable_def)
  then have "\<not> tc_readable dead c w1 \<Longrightarrow> le_poll ops dead c (r1, w1) = Some (r1, w1)"
    "tc_readable dead c w1 \<Longrightarrow> tc_read dead c 1 w1 = (n, bytes, w2) \<Longrightarrow> n \<le> 0 \<Longrightarrow> le_poll ops dead c (r1, w1) = Some (r1, w2)" for n bytes w2
    unfolding line_poll_def poll_loop.simps [of _ _ "(r1, w1)"] by simp_all
  moreover have "lt_connections (fst w1) = []" "le_exit_requested (fst (snd w1))" using gone by (simp_all add: w1_def)
  ultimately show ?thesis using p [unfolded v w1] by blast
qed

section \<open>Examples\<close>

definition freed_example :: "(linux_server \<times> line_example \<times> demo_world) tcp_ops" where
  "freed_example = \<lparr>tc_valid = (\<lambda>i w. False), tc_close = (\<lambda>i w. w), tc_input_size = (\<lambda>i w. 0), tc_output_size = (\<lambda>i w. 0),
     tc_read = (\<lambda>i n w. (0, [], w)), tc_write = (\<lambda>i bytes w. (0, w))\<rparr>"

lemma shutdown_reads_destroyed_connection_witness:
  "\<exists>r1 w1. le_poll line_bev freed_example 0
      (line_init 256, (demo_serving, \<lparr>le_connections = tr_init 8, le_exit_requested = False\<rparr>, (bytes_of ''shutdown'' @ [chr_lf], [])))
      = Some (r1, w1) \<and> lt_connections (fst w1) = [] \<and> le_exit_requested (fst (snd w1))"
proof -
  let ?e = "\<lparr>le_connections = tr_init 8, le_exit_requested = False\<rparr>"
  have b: "bev_source (lift_bev line_bev) 5 (\<lambda>(e :: line_example, y). fst y) (\<lambda>(e, y). snd y)"
    using line_bev_source [of 5] by (auto simp: bev_source_def lift_bev_def)
  have i: "line_inv (line_init 256)" "line_pending (line_init 256) = []" "8 \<le> line_capacity (line_init 256)"
    by (simp add: line_inv_def line_init_def, rule line_pending_init, simp add: line_init_def)
  have x: "(case (?e, (bytes_of ''shutdown'' @ [chr_lf], [] :: (nat \<times> byte list) list)) of (e, y) \<Rightarrow> fst y)
      = bytes_of ''shutdown'' @ chr_lf # []" by simp
  have f: "\<not> tc_readable freed_example 0 w" for w by (simp add: freed_example_def tc_readable_def)
  show ?thesis
    using shutdown_reads_destroyed_connection [OF demo_serving_open(2,3) b i x, of freed_example] f by metis
qed

text \<open>A connection as a pair of what can be read and what has been written, and whether it is closed.\<close>

definition pipe_ops :: "(byte list \<times> byte list \<times> bool) tcp_frame_ops" where
  "pipe_ops = \<lparr>tc_valid = (\<lambda>c (inp, out, cl). \<not> cl), tc_close = (\<lambda>c (inp, out, cl). (inp, out, True)),
     tc_input_size = (\<lambda>c (inp, out, cl). length inp), tc_output_size = (\<lambda>c w. 0),
     tc_read = (\<lambda>c n (inp, out, cl). (int (length (take n inp)), take n inp, (drop n inp, out, cl))),
     tc_write = (\<lambda>c bytes (inp, out, cl). (int (length bytes), (inp, out @ bytes, cl))),
     tc_peek = (\<lambda>c n (inp, out, cl). if n \<le> length inp then Some (take n inp) else None),
     tc_read_exact = (\<lambda>c n (inp, out, cl). if n \<le> length inp then (Some (take n inp), (drop n inp, out, cl)) else (None, (inp, out, cl)))\<rparr>"

lemma frames_echoed_witness:
  "\<exists>r1 w1. fh_on_data pipe_ops 3 (tr_init 8, ([2, 65, 66, 0, 1, 67, 5, 68], [], False)) = Some (r1, w1)
    \<and> w1 = ([5, 68], [2, 65, 66, 0, 1, 67], False)"
proof -
  have p: "frame_connection pipe_ops 3 fst (\<lambda>w. fst (snd w)) (\<lambda>w. snd (snd w))"
    by (simp add: frame_connection_def pipe_ops_def)
  have e: "fst ([2, 65, 66, 0, 1, 67, 5, 68], [] :: byte list, False) = concat (map frame_of [[65, 66], [], [67]]) @ [5, 68 :: byte]"
    by (simp add: frame_of_def)
  show ?thesis
    using frames_echoed [OF p _ tr_inv_init [of 8] _ e] by (auto simp: frame_of_def)
qed

end
