(* ===== verification/Event_Loop_Timers.thy ===== *)
theory Event_Loop_Timers
  imports Event_Loop_Arduino
begin

text \<open>
  What an application sees of an event loop on the cooperative scheduler: a list of callbacks, each with a
  period and a deadline, of which an iteration runs the due ones in the order of their registration; callbacks
  are removed, enabled and disabled under the number of their registration. The slots, generations, handles and
  task arrays of \<^verbatim>\<open>event_loop.hpp\<close>, \<^verbatim>\<open>scheduler.hpp\<close> and \<^verbatim>\<open>arduino_loop.hpp\<close> refine this list, for callbacks
  that change the world but do not call the loop themselves. Tasks that others (the TCP server and client)
  register with the loop's scheduler are part of the list.
\<close>

section \<open>The specification\<close>

text \<open>What runs: a callback (repeatedly, once, on bytes of a stream, on the events of a pin source), or the task of another object.\<close>

datatype 'p timed_call = Run 'p | Run_Once 'p | Run_Ready nat 'p | Run_Events nat 'p | Extern

text \<open>A callback with the number of its registration, or another object's task; both under a task number.\<close>

record 'p timed =
  tm_id :: "nat option"
  tm_task :: nat
  tm_call :: "'p timed_call"
  tm_enabled :: bool
  tm_period :: u64
  tm_due :: u64

fun once_call :: "'p timed_call \<Rightarrow> bool" where
  "once_call (Run_Once p) \<longleftrightarrow> True"
| "once_call _ \<longleftrightarrow> False"

abbreviation tm_once :: "'p timed \<Rightarrow> bool" where
  "tm_once c \<equiv> once_call (tm_call c)"

definition tm_ready :: "u64 \<Rightarrow> 'p timed \<Rightarrow> bool" where
  "tm_ready now c \<longleftrightarrow> \<not> now < tm_due c"

text \<open>The next deadline after \<open>now\<close> in the callback's own phase.\<close>

definition tm_next :: "u64 \<Rightarrow> 'p timed \<Rightarrow> 'p timed" where
  "tm_next now c =
     (if tm_ready now c
      then c\<lparr>tm_due := word_of_nat (unat (tm_due c)
        + Suc ((unat now - unat (tm_due c)) div unat (tm_period c)) * unat (tm_period c))\<rparr>
      else c)"

text \<open>What is due once leaves the list.\<close>

definition tm_advance :: "u64 \<Rightarrow> 'p timed list \<Rightarrow> 'p timed list" where
  "tm_advance now cs = map (tm_next now) (filter (\<lambda>c. tm_ready now c \<longrightarrow> \<not> tm_once c) cs)"

text \<open>The effects on the world: of a callback, of draining a pin source into one, of another object's task.\<close>

record ('p, 'w) effects =
  ef_run :: "'p \<Rightarrow> 'w \<Rightarrow> 'w"
  ef_drain :: "nat \<Rightarrow> 'p \<Rightarrow> 'w \<Rightarrow> 'w"
  ef_extern :: "nat \<Rightarrow> u64 \<Rightarrow> 'w \<Rightarrow> 'w"

definition tm_effect ::
  "('p, 's, 'w) el_env \<Rightarrow> ('p, 'w) effects \<Rightarrow> u64 \<Rightarrow> 'p timed \<Rightarrow> 'w \<Rightarrow> 'w" where
  "tm_effect env ef now c w =
     (if \<not> tm_enabled c then w
      else case tm_call c of
        Run p \<Rightarrow> ef_run ef p w
      | Run_Once p \<Rightarrow> ef_run ef p w
      | Run_Ready q p \<Rightarrow> if en_readable env q w then ef_run ef p w else w
      | Run_Events q p \<Rightarrow> ef_drain ef q p w
      | Extern \<Rightarrow> ef_extern ef (tm_task c) now w)"

text \<open>The calls of a program, and what happens outside of it between them.\<close>

datatype ('p, 'w) app_op =
    Repeat u64 'p
  | Delay u64 'p
  | On_Bytes nat 'p u64
  | On_Pins nat 'p u64
  | Remove nat
  | Enable nat
  | Disable nat
  | External_Repeat nat u64
  | Iterate
  | Outside "'w \<Rightarrow> 'w"

text \<open>The state of the specification: how many callbacks have been registered, the timed callbacks, the world.\<close>

type_synonym 'p tm_state = "nat \<times> 'p timed list"

definition tm_free :: "nat \<Rightarrow> 'p timed list \<Rightarrow> nat option" where
  "tm_free n cs = find (\<lambda>i. \<forall>c \<in> set cs. tm_task c \<noteq> i) [0..<n]"

definition tm_add :: "nat \<Rightarrow> 'p timed_call \<Rightarrow> u64 \<Rightarrow> u64 \<Rightarrow> 'p tm_state \<Rightarrow> bool \<times> 'p tm_state" where
  "tm_add n f period due mcs =
     (case mcs of (m, cs) \<Rightarrow>
        (case tm_free n cs of
           None \<Rightarrow> (False, m + 1, cs)
         | Some i \<Rightarrow>
             if (once_call f \<or> period \<noteq> 0) \<and> length cs < n
             then (True, m + 1, cs @ [\<lparr>tm_id = Some m, tm_task = i, tm_call = f, tm_enabled = True,
                                       tm_period = period, tm_due = due\<rparr>])
             else (False, m + 1, cs)))"

definition poll_period :: "u64 \<Rightarrow> u64" where
  "poll_period poll_us = (if poll_us = 0 then default_readiness_poll_us else poll_us)"

definition tm_known :: "nat \<Rightarrow> 'p timed list \<Rightarrow> bool" where
  "tm_known j cs \<longleftrightarrow> (\<exists>c \<in> set cs. tm_id c = Some j)"

definition tm_switch :: "nat \<Rightarrow> bool \<Rightarrow> 'p timed list \<Rightarrow> 'p timed list" where
  "tm_switch j on cs = map (\<lambda>c. if tm_id c = Some j then c\<lparr>tm_enabled := on\<rparr> else c) cs"

fun tm_step ::
  "('p, 's, 'w) el_env \<Rightarrow> ('p, 'w) effects \<Rightarrow> nat \<Rightarrow> ('p, 'w) app_op
     \<Rightarrow> 'p tm_state \<times> 'w \<Rightarrow> bool \<times> 'p tm_state \<times> 'w" where
  "tm_step env ef n (Repeat period p) (mcs, w) =
     (case tm_add n (Run p) period (en_micros env w) mcs of (ok, mcs1) \<Rightarrow> (ok, mcs1, w))"
| "tm_step env ef n (Delay delay p) (mcs, w) =
     (case tm_add n (Run_Once p) 0 (due_after (en_micros env w) delay) mcs of (ok, mcs1) \<Rightarrow> (ok, mcs1, w))"
| "tm_step env ef n (On_Bytes q p poll_us) (mcs, w) =
     (case tm_add n (Run_Ready q p) (poll_period poll_us) (en_micros env w) mcs of (ok, mcs1) \<Rightarrow> (ok, mcs1, w))"
| "tm_step env ef n (On_Pins q p poll_us) (mcs, w) =
     (case tm_add n (Run_Events q p) (poll_period poll_us) (en_micros env w) mcs of (ok, mcs1) \<Rightarrow> (ok, mcs1, w))"
| "tm_step env ef n (Remove j) ((m, cs), w) = (tm_known j cs, (m, filter (\<lambda>c. tm_id c \<noteq> Some j) cs), w)"
| "tm_step env ef n (Enable j) ((m, cs), w) = (tm_known j cs, (m, tm_switch j True cs), w)"
| "tm_step env ef n (Disable j) ((m, cs), w) = (tm_known j cs, (m, tm_switch j False cs), w)"
| "tm_step env ef n (External_Repeat t period) ((m, cs), w) =
     (if period \<noteq> 0 \<and> length cs < n
      then (True, (m, cs @ [\<lparr>tm_id = None, tm_task = t, tm_call = Extern, tm_enabled = True,
                            tm_period = period, tm_due = en_micros env w\<rparr>]), w)
      else (False, (m, cs), w))"
| "tm_step env ef n Iterate ((m, cs), w) =
     (let now = en_micros env w
      in (True, (m, tm_advance now cs), fold (tm_effect env ef now) (filter (tm_ready now) cs) w))"
| "tm_step env ef n (Outside f) (mcs, w) = (True, mcs, f w)"

primrec tm_run ::
  "('p, 's, 'w) el_env \<Rightarrow> ('p, 'w) effects \<Rightarrow> nat \<Rightarrow> ('p, 'w) app_op list
     \<Rightarrow> 'p tm_state \<times> 'w \<Rightarrow> bool list \<times> 'p tm_state \<times> 'w" where
  "tm_run env ef n [] mw = ([], mw)"
| "tm_run env ef n (op # ops) mw =
     (case tm_step env ef n op mw of (ok, mw1) \<Rightarrow>
        case tm_run env ef n ops mw1 of (oks, mw2) \<Rightarrow> (ok # oks, mw2))"

text \<open>
  What the program keeps to: fewer registrations than a generation counts, tasks of others with other numbers,
  no period that reaches the end of the clock from the present time, and no delayed callback that is
  disabled when its time comes (the loop loses the slot of such a callback).
\<close>

fun op_ok :: "('p, 's, 'w) el_env \<Rightarrow> nat \<Rightarrow> ('p, 'w) app_op \<Rightarrow> 'p tm_state \<times> 'w \<Rightarrow> bool" where
  "op_ok env n Iterate ((m, cs), w) \<longleftrightarrow> (\<forall>c \<in> set cs.
     if tm_once c then tm_ready (en_micros env w) c \<longrightarrow> tm_enabled c
     else unat (en_micros env w) + unat (tm_period c) < 2 ^ 64)"
| "op_ok env n (External_Repeat t period) mw \<longleftrightarrow> n \<le> t"
| "op_ok env n (Remove j) mw \<longleftrightarrow> True"
| "op_ok env n (Enable j) mw \<longleftrightarrow> True"
| "op_ok env n (Disable j) mw \<longleftrightarrow> True"
| "op_ok env n (Outside f) mw \<longleftrightarrow> True"
| "op_ok env n _ ((m, cs), w) \<longleftrightarrow> m < 2 ^ 16 - 1"

primrec ops_ok ::
  "('p, 's, 'w) el_env \<Rightarrow> ('p, 'w) effects \<Rightarrow> nat \<Rightarrow> ('p, 'w) app_op list \<Rightarrow> 'p tm_state \<times> 'w \<Rightarrow> bool" where
  "ops_ok env ef n [] mw \<longleftrightarrow> True"
| "ops_ok env ef n (op # ops) mw \<longleftrightarrow> op_ok env n op mw \<and> ops_ok env ef n ops (snd (tm_step env ef n op mw))"

section \<open>The event loop under the same calls\<close>

text \<open>The program's state has the handles it was given, in the order of the registrations.\<close>

type_synonym ('p, 'w) app_state = "event_handle list \<times> ('p, arduino_loop, 'w) el_state"

definition app_handle :: "event_handle list \<Rightarrow> nat \<Rightarrow> event_handle" where
  "app_handle hs j = (if j < length hs then hs ! j else eh_none)"

definition app_register ::
  "(('p, arduino_loop, 'w) el_state \<Rightarrow> event_handle \<times> ('p, arduino_loop, 'w) el_state)
     \<Rightarrow> ('p, 'w) app_state \<Rightarrow> bool \<times> ('p, 'w) app_state" where
  "app_register reg hst = (case hst of (hs, st) \<Rightarrow> case reg st of (h, st1) \<Rightarrow> (eh_assigned h, hs @ [h], st1))"

fun app_step ::
  "('p, arduino_loop, 'w) el_env \<Rightarrow> ('p, 'w) app_op \<Rightarrow> ('p, 'w) app_state \<Rightarrow> (bool \<times> ('p, 'w) app_state) option" where
  "app_step env (Repeat period p) hst = Some (app_register (el_on_repeat_us env period p) hst)"
| "app_step env (Delay delay p) hst = Some (app_register (el_on_delay_us env delay p) hst)"
| "app_step env (On_Bytes q p poll_us) hst = Some (app_register (el_on_bytes_ready env q p poll_us) hst)"
| "app_step env (On_Pins q p poll_us) hst = Some (app_register (el_on_pin_event env q p poll_us) hst)"
| "app_step env (Remove j) (hs, st) = (case el_remove env (app_handle hs j) st of (ok, st1) \<Rightarrow> Some (ok, hs, st1))"
| "app_step env (Enable j) (hs, s, l, w) = (case el_enable (app_handle hs j) l of (ok, l1) \<Rightarrow> Some (ok, hs, s, l1, w))"
| "app_step env (Disable j) (hs, s, l, w) = (case el_disable (app_handle hs j) l of (ok, l1) \<Rightarrow> Some (ok, hs, s, l1, w))"
| "app_step env (External_Repeat t period) (hs, st) =
     (case el_add_periodic env t period st of (ok, st1) \<Rightarrow> Some (ok, hs, st1))"
| "app_step env Iterate (hs, st) = map_option (\<lambda>st1. (True, hs, st1)) (el_run_once env st)"
| "app_step env (Outside f) (hs, s, l, w) = Some (True, hs, s, l, f w)"

primrec app_run ::
  "('p, arduino_loop, 'w) el_env \<Rightarrow> ('p, 'w) app_op list \<Rightarrow> ('p, 'w) app_state
     \<Rightarrow> (bool list \<times> ('p, 'w) app_state) option" where
  "app_run env [] hst = Some ([], hst)"
| "app_run env (op # ops) hst =
     (case app_step env op hst of None \<Rightarrow> None
      | Some (ok, hst1) \<Rightarrow> map_option (\<lambda>(oks, hst2). (ok # oks, hst2)) (app_run env ops hst1))"

text \<open>Callbacks and tasks of others that change the world only; every drain of a pin source ends.\<close>

definition world_only :: "('p, arduino_loop, 'w) el_env \<Rightarrow> ('p, 'w) effects \<Rightarrow> bool" where
  "world_only env ef \<longleftrightarrow> en_ops env = al_ops
     \<and> (\<forall>p s l w. en_run env p (s, l, w) = Some (s, l, ef_run ef p w))
     \<and> (\<forall>q p s l w. el_drain_pins env q p (s, l, w) = Some (s, l, ef_drain ef q p w))
     \<and> (\<forall>t now s l w. en_external env t now (s, l, w) = Some (s, l, ef_extern ef t now w))"

section \<open>The simulation\<close>

text \<open>The callable in the slot of a timed callback; \<open>h\<close> is the handle of its registration.\<close>

fun tm_callable :: "event_handle \<Rightarrow> 'p timed_call \<Rightarrow> 'p el_callable option" where
  "tm_callable h (Run p) = Some (Plain p)"
| "tm_callable h (Run_Once p) = Some (One_Shot h p)"
| "tm_callable h (Run_Ready q p) = Some (Bytes_Ready q p)"
| "tm_callable h (Run_Events q p) = Some (Pin_Events q p)"
| "tm_callable h Extern = None"

definition holds :: "'p el_callable option \<Rightarrow> bool \<Rightarrow> 'p el_callable callback_task \<Rightarrow> bool" where
  "holds f on t \<longleftrightarrow> ct_callable t = f \<and> f \<noteq> None \<and> ct_active t \<and> ct_enabled t = on
     \<and> \<not> ct_invoking t \<and> \<not> ct_clear_requested t"

abbreviation tm_slot :: "'p timed \<Rightarrow> task_slot" where
  "tm_slot c \<equiv> if tm_once c then one_shot_slot (tm_task c) (tm_due c)
     else periodic_slot (tm_task c) (tm_period c) (tm_due c)"

definition tm_held :: "nat \<Rightarrow> event_handle list \<Rightarrow> 'p event_loop \<Rightarrow> 'p timed \<Rightarrow> bool" where
  "tm_held n hs l c \<longleftrightarrow>
     (case tm_id c of
        None \<Rightarrow> tm_call c = Extern \<and> n \<le> tm_task c \<and> tm_enabled c
      | Some j \<Rightarrow> j < length hs \<and> tm_task c < n
          \<and> eh_assigned (hs ! j) \<and> eh_index (hs ! j) = tm_task c
          \<and> eh_generation (hs ! j) = el_generations l ! tm_task c
          \<and> holds (tm_callable (hs ! j) (tm_call c)) (tm_enabled c) (el_tasks l ! tm_task c))"

text \<open>A handle whose generation is over.\<close>

definition stale :: "nat \<Rightarrow> 'p event_loop \<Rightarrow> event_handle \<Rightarrow> bool" where
  "stale n l h \<longleftrightarrow> \<not> eh_assigned h \<or> (eh_index h < n \<and> eh_generation h < el_generations l ! eh_index h)"

text \<open>The loop's side of the relation: every callback is in its slot, every other handle is stale.\<close>

definition tm_slots :: "nat \<Rightarrow> event_handle list \<Rightarrow> 'p timed list \<Rightarrow> 'p event_loop \<Rightarrow> bool" where
  "tm_slots n hs cs l \<longleftrightarrow>
     n \<le> 0xfffe \<and> length (el_tasks l) = n \<and> length (el_generations l) = n \<and> length (el_used l) = n
     \<and> (\<forall>i < n. \<not> ct_invoking (el_tasks l ! i)
          \<and> (el_used l ! i \<longleftrightarrow> i \<in> tm_task ` set cs) \<and> (el_used l ! i \<longleftrightarrow> ct_active (el_tasks l ! i))
          \<and> unat (el_generations l ! i) + (if el_used l ! i then 1 else 0) \<le> length hs)
     \<and> distinct (map tm_task (filter (\<lambda>c. tm_id c \<noteq> None) cs))
     \<and> (\<forall>c \<in> set cs. tm_held n hs l c)
     \<and> (\<forall>j < length hs. \<not> tm_known j cs \<longrightarrow> stale n l (hs ! j))"

lemma tm_slotsI:
  assumes "n \<le> 0xfffe" "length (el_tasks l) = n" "length (el_generations l) = n" "length (el_used l) = n"
    "\<And>k. k < n \<Longrightarrow> \<not> ct_invoking (el_tasks l ! k) \<and> (el_used l ! k \<longleftrightarrow> k \<in> tm_task ` set cs)
      \<and> (el_used l ! k \<longleftrightarrow> ct_active (el_tasks l ! k)) \<and> unat (el_generations l ! k) + (if el_used l ! k then 1 else 0) \<le> length hs"
    "distinct (map tm_task (filter (\<lambda>c. tm_id c \<noteq> None) cs))" "\<And>c. c \<in> set cs \<Longrightarrow> tm_held n hs l c"
    "\<And>j. j < length hs \<Longrightarrow> \<not> tm_known j cs \<Longrightarrow> stale n l (hs ! j)"
  shows "tm_slots n hs cs l"
  unfolding tm_slots_def using assms by blast

definition simulates :: "nat \<Rightarrow> 'p tm_state \<Rightarrow> event_handle list \<Rightarrow> arduino_loop \<Rightarrow> 'p event_loop \<Rightarrow> bool" where
  "simulates n mcs hs s l \<longleftrightarrow> (case mcs of (m, cs) \<Rightarrow>
     length hs = m \<and> m < 2 ^ 16 \<and> al_inv s \<and> al_capacity s = n \<and> \<not> al_running s \<and> al_list s = map tm_slot cs
     \<and> (\<forall>c \<in> set cs. tm_once c \<or> tm_period c \<noteq> 0) \<and> tm_slots n hs cs l)"

lemma simulates_init: "n \<le> 0xfffe \<Longrightarrow> simulates n (0, []) [] (al_init n) (el_init n)"
  by (simp add: simulates_def tm_slots_def el_init_def ct_init_def) (simp add: al_init_def)

section \<open>Registration\<close>

lemma first_unused_find: "first_unused us = find (\<lambda>i. \<not> us ! i) [0..<length us]"
proof (induction us)
  case (Cons u us)
  have "find (\<lambda>i. \<not> (u # us) ! i) (map Suc xs) = map_option Suc (find (\<lambda>i. \<not> us ! i) xs)" for xs
    by (induction xs) simp_all
  with Cons.IH show ?case by (cases u) (simp_all add: upt_conv_Cons map_Suc_upt [symmetric] del: upt_Suc)
qed simp

lemma tm_slots_free: "tm_slots n hs cs l \<Longrightarrow> first_unused (el_used l) = tm_free n cs"
  unfolding first_unused_find tm_free_def tm_slots_def by (intro find_cong) auto

lemma tm_free_Some: "tm_free n cs = Some i \<Longrightarrow> i < n \<and> i \<notin> tm_task ` set cs"
  by (auto simp: tm_free_def find_Some_iff)

lemma tm_known_Nil_simps [simp]:
  "\<not> tm_known j []" "tm_known j (c # cs) \<longleftrightarrow> tm_id c = Some j \<or> tm_known j cs"
  "tm_known j (cs @ ds) \<longleftrightarrow> tm_known j cs \<or> tm_known j ds"
  by (auto simp: tm_known_def)

lemma tm_held_more: "tm_held n hs l c \<Longrightarrow> tm_held n (hs @ [h]) l c"
  by (auto simp: tm_held_def nth_append split: option.splits)

lemma tm_slots_more:
  assumes "tm_slots n hs cs l" "\<not> eh_assigned h"
  shows "tm_slots n (hs @ [h]) cs l"
  using assms tm_held_more [of n hs l _ h]
  by (auto simp: tm_slots_def nth_append stale_def less_Suc_eq le_SucI Suc_leI)

text \<open>Slots that no callback is in may change, with generations that only grow.\<close>

lemma tm_held_cong:
  assumes "tm_held n hs l c" "tm_id c = None \<or> tm_task c \<noteq> i" "\<And>j. j \<noteq> i \<Longrightarrow> el_tasks l' ! j = el_tasks l ! j"
    "\<And>j. j \<noteq> i \<Longrightarrow> el_generations l' ! j = el_generations l ! j"
  shows "tm_held n hs l' c"
  using assms by (auto simp: tm_held_def split: option.splits)

lemma tm_held_task: "tm_held n hs l c \<Longrightarrow> (tm_id c = None \<longleftrightarrow> n \<le> tm_task c)"
  by (auto simp: tm_held_def split: option.splits)

lemma handle_of_slot:
  assumes "i < n" "n \<le> 0xfffe"
  shows "eh_assigned \<lparr>eh_slot = word_of_nat i, eh_generation = g\<rparr>"
    "eh_index \<lparr>eh_slot = word_of_nat i, eh_generation = g\<rparr> = i"
proof -
  have i: "unat (word_of_nat i :: u16) = i" using assms by (simp add: unat_of_nat take_bit_nat_eq_self)
  then show "eh_index \<lparr>eh_slot = word_of_nat i, eh_generation = g\<rparr> = i" by simp
  have "word_of_nat i \<noteq> invalid_slot"
  proof
    assume "word_of_nat i = invalid_slot"
    with i have "i = 65535" by (simp add: invalid_slot_def)
    with assms show False by simp
  qed
  then show "eh_assigned \<lparr>eh_slot = word_of_nat i, eh_generation = g\<rparr>" by (simp add: eh_assigned_def)
qed

lemma stale_mono:
  assumes "stale n l h" "\<And>i. i < n \<Longrightarrow> el_generations l ! i \<le> el_generations l' ! i"
  shows "stale n l' h"
  using assms order.strict_trans2 by (fastforce simp: stale_def)

lemma holds_set: "\<not> ct_invoking t \<Longrightarrow> holds (Some f) True (snd (ct_set f t))"
  by (auto simp: holds_def ct_defs split: option.splits)

lemma tm_slots_allocate:
  assumes sl: "tm_slots n hs cs l" and i: "tm_free n cs = Some i" and f: "\<And>h. tm_callable h f = Some (callable h)"
    and m: "length hs < 2 ^ 16 - 1"
  obtains h l1 where "el_allocate callable l = (h, l1)" "eh_assigned h" "eh_index h = i"
    "length (el_tasks l1) = n"
    "\<And>period due. tm_slots n (hs @ [h]) (cs @ [\<lparr>tm_id = Some (length hs), tm_task = i, tm_call = f, tm_enabled = True,
        tm_period = period, tm_due = due\<rparr>]) l1"
    "tm_slots n (hs @ [eh_none]) cs (el_free_slot i l1)"
proof -
  let ?h = "\<lparr>eh_slot = word_of_nat i, eh_generation = el_generations l ! i\<rparr>"
  let ?t = "snd (ct_set (callable ?h) (el_tasks l ! i))"
  let ?l1 = "(el_set_task i ?t l)\<lparr>el_used := (el_used l)[i := True]\<rparr>"
  note free = tm_free_Some [OF i]
  from sl free have l: "n \<le> 0xfffe" "length (el_tasks l) = n" "length (el_generations l) = n" "length (el_used l) = n"
    "\<not> ct_invoking (el_tasks l ! i)" "\<not> el_used l ! i" "unat (el_generations l ! i) \<le> length hs"
    by (auto simp: tm_slots_def)
  have h: "eh_assigned ?h" "eh_index ?h = i" using handle_of_slot [of i n] free l by blast+
  have t: "ct_set (callable ?h) (el_tasks l ! i) = (True, ?t)" "holds (Some (callable ?h)) True ?t" "\<not> ct_invoking ?t"
    using l(5) ct_set_simps(1) [of "callable ?h" "el_tasks l ! i"] holds_set [of "el_tasks l ! i"]
    by (simp_all add: prod_eq_iff loop_simps)
  have a: "el_allocate callable l = (?h, ?l1)"
    using tm_slots_free [OF sl] i t(1) by (auto simp: el_allocate_def Let_def split: prod.splits)
  have held: "tm_held n (hs @ [h]) l' c"
    if "c \<in> set cs" "\<And>j. j \<noteq> i \<Longrightarrow> el_tasks l' ! j = el_tasks l ! j" "\<And>j. j \<noteq> i \<Longrightarrow> el_generations l' ! j = el_generations l ! j"
    for h l' c
  proof -
    have "tm_held n hs l c" "tm_task c \<noteq> i" using sl free that(1) by (auto simp: tm_slots_def)
    from tm_held_cong [OF this(1) disjI2 [OF this(2)] that(2,3)] show ?thesis by (rule tm_held_more)
  qed
  have 1: "tm_slots n (hs @ [?h]) (cs @ [\<lparr>tm_id = Some (length hs), tm_task = i, tm_call = f, tm_enabled = True,
        tm_period = period, tm_due = due\<rparr>]) ?l1" (is "tm_slots n _ (cs @ [?c]) _") for period due
  proof -
    have "tm_held n (hs @ [?h]) ?l1 ?c"
      using h f t free l by (simp add: tm_held_def el_set_task_def)
    moreover have "\<forall>c \<in> set cs. tm_held n (hs @ [?h]) ?l1 c" by (auto intro!: held simp: el_set_task_def)
    moreover have "stale n ?l1 ((hs @ [?h]) ! j)" if "j < length (hs @ [?h])" "\<not> tm_known j (cs @ [?c])" for j
      using that sl by (auto simp: tm_slots_def nth_append stale_def el_set_task_def less_Suc_eq)
    moreover have "distinct (map tm_task (filter (\<lambda>c. tm_id c \<noteq> None) (cs @ [?c])))"
      using sl free by (auto simp: tm_slots_def)
    moreover have "\<forall>j < n. \<not> ct_invoking (el_tasks ?l1 ! j)
          \<and> (el_used ?l1 ! j \<longleftrightarrow> j \<in> tm_task ` set (cs @ [?c])) \<and> (el_used ?l1 ! j \<longleftrightarrow> ct_active (el_tasks ?l1 ! j))
          \<and> unat (el_generations ?l1 ! j) + (if el_used ?l1 ! j then 1 else 0) \<le> length (hs @ [?h])"
      using sl l t free by (auto simp: tm_slots_def el_set_task_def nth_list_update holds_def le_SucI)
    ultimately show ?thesis using l unfolding tm_slots_def by (auto simp: el_set_task_def)
  qed
  let ?l2 = "el_free_slot i ?l1"
  have t2: "\<not> ct_active (ct_clear ?t)" "\<not> ct_invoking (ct_clear ?t)" using t(3) by (simp_all add: loop_simps)
  have g: "unat (el_generations l ! i + 1) = unat (el_generations l ! i) + 1"
    using l(7) m by (subst unat_add_no_wrap) simp_all
  have 2: "tm_slots n (hs @ [eh_none]) cs ?l2"
  proof -
    have "\<forall>c \<in> set cs. tm_held n (hs @ [eh_none]) ?l2 c"
      by (auto intro!: held simp: el_set_task_def el_free_slot_def)
    moreover have "stale n ?l2 ((hs @ [eh_none]) ! j)" if "j < length (hs @ [eh_none])" "\<not> tm_known j cs" for j
    proof (cases "j < length hs")
      case True
      with sl that have "stale n l (hs ! j)" by (simp add: tm_slots_def)
      moreover have "el_generations l ! i \<le> el_generations l ! i + 1" using g by (simp add: word_le_nat_alt)
      then have "el_generations l ! k \<le> el_generations ?l2 ! k" if "k < n" for k
        using that l(3) free by (auto simp: el_free_slot_def el_set_task_def nth_list_update)
      ultimately have "stale n ?l2 (hs ! j)" by (rule stale_mono)
      with True show ?thesis by (simp add: nth_append)
    next
      case False
      with that show ?thesis by (simp add: nth_append less_Suc_eq stale_def eh_none_def eh_assigned_def)
    qed
    moreover have "\<forall>j < n. \<not> ct_invoking (el_tasks ?l2 ! j)
          \<and> (el_used ?l2 ! j \<longleftrightarrow> j \<in> tm_task ` set cs) \<and> (el_used ?l2 ! j \<longleftrightarrow> ct_active (el_tasks ?l2 ! j))
          \<and> unat (el_generations ?l2 ! j) + (if el_used ?l2 ! j then 1 else 0) \<le> length (hs @ [eh_none])"
      using sl l t2 g free by (auto simp: tm_slots_def el_free_slot_def el_set_task_def nth_list_update le_SucI)
    ultimately show ?thesis using l sl unfolding tm_slots_def by (auto simp: el_set_task_def el_free_slot_def)
  qed
  have "length (el_tasks ?l1) = n" using l(2) by (simp add: el_set_task_def)
  from that [OF a h this 1 2] show thesis .
qed

text \<open>Adding to the scheduler.\<close>

lemma live_slots: "al_list s = map tm_slot cs \<Longrightarrow> al_live s = map tm_slot cs"
  by (auto simp: filter_id_conv ts_live_def periodic_slot_def one_shot_slot_def)

lemma add_slots:
  assumes "al_inv s" "al_list s = map tm_slot cs"
  shows "al_add_periodic t period now s = (ok, s') \<Longrightarrow> al_frame s s' \<and> (ok \<longleftrightarrow> period \<noteq> 0 \<and> length cs < al_capacity s)
      \<and> al_list s' = map tm_slot cs @ (if ok then [periodic_slot t period now] else [])"
    and "al_add_one_shot t due s = (ok, s') \<Longrightarrow> al_frame s s' \<and> (ok \<longleftrightarrow> length cs < al_capacity s)
      \<and> al_list s' = map tm_slot cs @ (if ok then [one_shot_slot t due] else [])"
  using al_add_spec [OF assms(1), unfolded live_slots [OF assms(2)] length_map] by blast+

text \<open>A registration: \<open>add\<close> is the call of the scheduler.\<close>

lemma el_register_refines:
  assumes sim: "simulates n (m, cs) hs s l" and m: "m < 2 ^ 16 - 1" and f: "\<And>h. tm_callable h f = Some (callable h)"
    and add: "\<And>i l. \<exists>ok s'. add i (s, l, w) = (ok, s', l, w) \<and> al_frame s s'
      \<and> (ok \<longleftrightarrow> (once_call f \<or> period \<noteq> 0) \<and> length cs < n)
      \<and> al_list s' = map tm_slot cs @ (if ok then [if once_call f then one_shot_slot i due else periodic_slot i period due] else [])"
    and reg: "el_register callable add (s, l, w) = (h, s', l', w')"
  shows "w' = w \<and> fst (tm_add n f period due (m, cs)) = eh_assigned h
    \<and> simulates n (snd (tm_add n f period due (m, cs))) (hs @ [h]) s' l'"
proof -
  from sim have s: "length hs = m" "al_inv s" "al_capacity s = n" "\<not> al_running s" "al_list s = map tm_slot cs"
    "\<forall>c \<in> set cs. tm_once c \<or> tm_period c \<noteq> 0" and sl: "tm_slots n hs cs l" by (simp_all add: simulates_def)
  have none: "\<not> eh_assigned eh_none" by (simp add: eh_none_def eh_assigned_def)
  show ?thesis
  proof (cases "tm_free n cs")
    case None
    with tm_slots_free [OF sl] have "el_allocate callable l = (eh_none, l)" by (simp add: el_allocate_def)
    with reg none have "h = eh_none \<and> s' = s \<and> l' = l \<and> w' = w" by (simp add: el_register_def)
    with None s none m tm_slots_more [OF sl none] show ?thesis by (simp add: tm_add_def simulates_def)
  next
    case (Some i)
    have "length hs < 2 ^ 16 - 1" using s(1) m by simp
    from tm_slots_allocate [OF sl Some f this] obtain h1 l1 where a: "el_allocate callable l = (h1, l1)" "eh_assigned h1"
      "eh_index h1 = i" "length (el_tasks l1) = n"
      and new: "\<And>period due. tm_slots n (hs @ [h1]) (cs @ [\<lparr>tm_id = Some (length hs), tm_task = i, tm_call = f, tm_enabled = True,
        tm_period = period, tm_due = due\<rparr>]) l1"
      and undo: "tm_slots n (hs @ [eh_none]) cs (el_free_slot i l1)" by blast
    from add [of i l1] obtain ok s1 where r: "add i (s, l1, w) = (ok, s1, l1, w)" and ad: "al_frame s s1" "ok \<longleftrightarrow> (once_call f \<or> period \<noteq> 0) \<and> length cs < n"
      "al_list s1 = map tm_slot cs @ (if ok then [if once_call f then one_shot_slot i due else periodic_slot i period due] else [])"
      by blast
    note fr = ad(1) [unfolded al_frame_def]
    show ?thesis
    proof (cases ok)
      case True
      with reg a r have "h = h1 \<and> s' = s1 \<and> l' = l1 \<and> w' = w" by (simp add: el_register_def)
      with True Some a(2) ad(2,3) fr s m new [of period due] show ?thesis
        by (auto simp: tm_add_def simulates_def)
    next
      case False
      have "i < n" using tm_free_Some [OF Some] by simp
      with False reg a r have "h = eh_none \<and> s' = s1 \<and> l' = el_free_slot i l1 \<and> w' = w"
        by (simp add: el_register_def el_release_unregistered_def)
      with False Some ad(2,3) fr s m none undo show ?thesis
        by (auto simp: tm_add_def simulates_def)
    qed
  qed
qed

lemma external_refines:
  assumes sim: "simulates n (m, cs) hs s l" and env: "en_ops env = al_ops" and t: "n \<le> t"
    and add: "el_add_periodic env t period (s, l, w) = (ok, s', l', w')"
  shows "\<exists>mcs. tm_step env ef n (External_Repeat t period) ((m, cs), w) = (ok, mcs, w') \<and> simulates n mcs hs s' l'"
proof -
  from env add have a: "al_add_periodic t period (en_micros env w) s = (ok, s')" "l' = l" "w' = w"
    by (auto simp: el_add_periodic_def al_ops_def split: prod.splits)
  let ?c = "\<lparr>tm_id = None, tm_task = t, tm_call = Extern, tm_enabled = True, tm_period = period, tm_due = en_micros env w\<rparr>"
  from sim have s: "al_inv s" "al_list s = map tm_slot cs" "al_capacity s = n" and sl: "tm_slots n hs cs l"
    by (simp_all add: simulates_def)
  note ad = add_slots(1) [OF s(1,2) a(1), unfolded s(3)]
  have "tm_slots n hs (cs @ [?c]) l" using sl t by (auto simp: tm_slots_def tm_held_def)
  with sim ad a(2,3) show ?thesis by (cases ok) (auto simp: simulates_def al_frame_def)
qed

section \<open>Removal\<close>

lemma tm_slots_id:
  assumes "tm_slots n hs cs l" "c \<in> set cs" "d \<in> set cs" "tm_id c = Some j"
  shows "tm_id d = Some j \<longleftrightarrow> tm_task d = tm_task c" "tm_id d = Some j \<Longrightarrow> d = c"
proof -
  have h: "tm_held n hs l c" "tm_held n hs l d" and dist: "distinct (map tm_task (filter (\<lambda>c. tm_id c \<noteq> None) cs))"
    using assms by (auto simp: tm_slots_def)
  have c: "tm_task c < n" "tm_task c = eh_index (hs ! j)" using h(1) assms(4) by (simp_all add: tm_held_def)
  have inj: "d = c" if "tm_task d = tm_task c" "tm_id d \<noteq> None"
    using dist that assms(2-4) by (auto simp: distinct_map inj_on_def)
  show a: "tm_id d = Some j \<longleftrightarrow> tm_task d = tm_task c"
  proof
    assume "tm_id d = Some j"
    with h(2) c show "tm_task d = tm_task c" by (simp add: tm_held_def)
  next
    assume e: "tm_task d = tm_task c"
    with tm_held_task [OF h(2)] c(1) have "tm_id d \<noteq> None" by simp
    with inj e assms(4) show "tm_id d = Some j" by simp
  qed
  show "tm_id d = Some j \<Longrightarrow> d = c" using a inj by simp
qed

text \<open>Whether a handle is valid.\<close>

lemma tm_held_valid:
  assumes "tm_slots n hs cs l" "c \<in> set cs" "tm_id c = Some j"
  shows "j < length hs" "el_valid (hs ! j) l" "eh_index (hs ! j) = tm_task c" "tm_task c < n"
    "holds (tm_callable (hs ! j) (tm_call c)) (tm_enabled c) (el_tasks l ! tm_task c)"
proof -
  have "tm_held n hs l c" using assms(1,2) by (simp add: tm_slots_def)
  then show h: "j < length hs" "eh_index (hs ! j) = tm_task c" "tm_task c < n"
    "holds (tm_callable (hs ! j) (tm_call c)) (tm_enabled c) (el_tasks l ! tm_task c)"
    and "el_valid (hs ! j) l"
    using assms by (auto simp: tm_held_def el_valid_def tm_slots_def holds_def)
qed

lemma tm_unknown_invalid:
  assumes "tm_slots n hs cs l" "\<not> tm_known j cs"
  shows "\<not> el_valid (app_handle hs j) l"
proof (cases "j < length hs")
  case True
  with assms have "stale n l (hs ! j)" by (simp add: tm_slots_def)
  with True show ?thesis by (auto simp: app_handle_def stale_def el_valid_def)
qed (simp add: app_handle_def el_valid_def eh_none_def eh_assigned_def)

lemma slot_facts:
  assumes "tm_slots n hs cs l" "k < n"
  shows "\<not> ct_invoking (el_tasks l ! k) \<and> (el_used l ! k \<longleftrightarrow> k \<in> tm_task ` set cs)
    \<and> (el_used l ! k \<longleftrightarrow> ct_active (el_tasks l ! k)) \<and> unat (el_generations l ! k) + (if el_used l ! k then 1 else 0) \<le> length hs"
  using assms unfolding tm_slots_def by blast

text \<open>Freeing the slot of a callback.\<close>

lemma tm_slots_release:
  assumes sl: "tm_slots n hs cs l" and c: "c \<in> set cs" "tm_id c = Some j" and m: "length hs < 2 ^ 16"
    and l': "el_tasks l' = (el_tasks l)[tm_task c := t]" "\<not> ct_active t" "\<not> ct_invoking t"
      "el_used l' = (el_used l)[tm_task c := False]"
      "el_generations l' = (el_generations l)[tm_task c := el_generations l ! tm_task c + 1]"
  shows "tm_slots n hs (filter (\<lambda>d. tm_id d \<noteq> Some j) cs) l'"
proof -
  let ?i = "tm_task c" and ?ds = "filter (\<lambda>d. tm_id d \<noteq> Some j) cs"
  note v = tm_held_valid [OF sl c] and ids = tm_slots_id(1) [OF sl c(1) _ c(2)]
  have len: "length (el_tasks l) = n" "length (el_generations l) = n" "length (el_used l) = n" using sl by (simp_all add: tm_slots_def)
  have used: "el_used l ! ?i" using sl c v(4) by (auto simp: tm_slots_def)
  then have b: "unat (el_generations l ! ?i) + 1 \<le> length hs" using sl v(4) by (auto simp: tm_slots_def)
  then have g: "unat (el_generations l ! ?i + 1) = unat (el_generations l ! ?i) + 1"
    using m by (subst unat_add_no_wrap) simp_all
  then have up: "el_generations l ! ?i < el_generations l ! ?i + 1" by (simp add: word_less_nat_alt)
  then have mono: "el_generations l ! k \<le> el_generations l' ! k" if "k < n" for k
    using that len v(4) by (auto simp: l' nth_list_update order.strict_implies_order)
  have tasks: "tm_task ` set ?ds = tm_task ` set cs - {?i}" using ids by auto
  have "\<not> ct_invoking (el_tasks l' ! k)
      \<and> (el_used l' ! k \<longleftrightarrow> k \<in> tm_task ` set ?ds) \<and> (el_used l' ! k \<longleftrightarrow> ct_active (el_tasks l' ! k))
      \<and> unat (el_generations l' ! k) + (if el_used l' ! k then 1 else 0) \<le> length hs" if "k < n" for k
  proof (cases "k = ?i")
    case True
    with that b g len l'(2,3) show ?thesis unfolding tasks by (simp add: l')
  next
    case False
    then have e: "el_tasks l' ! k = el_tasks l ! k" "el_used l' ! k = el_used l ! k" "el_generations l' ! k = el_generations l ! k"
      by (simp_all add: l')
    from slot_facts [OF sl that] False show ?thesis unfolding e tasks by blast
  qed
  moreover have "tm_held n hs l' d" if "d \<in> set ?ds" for d
  proof -
    have "tm_held n hs l d" "tm_task d \<noteq> ?i" using sl ids that by (auto simp: tm_slots_def)
    from tm_held_cong [OF this(1) disjI2 [OF this(2)]] show ?thesis by (simp add: l')
  qed
  moreover have "stale n l' (hs ! k)" if "k < length hs" "\<not> tm_known k ?ds" for k
  proof (cases "k = j")
    case True
    have "eh_generation (hs ! j) = el_generations l ! ?i" using sl c by (auto simp: tm_slots_def tm_held_def)
    with v up len True show ?thesis by (simp add: stale_def l')
  next
    case False
    with that(2) have "\<not> tm_known k cs" by (auto simp: tm_known_def)
    with sl that(1) have "stale n l (hs ! k)" by (simp add: tm_slots_def)
    then show ?thesis by (rule stale_mono) (rule mono)
  qed
  moreover have "distinct (map tm_task (filter (\<lambda>d. tm_id d \<noteq> None) ?ds))"
  proof -
    have "filter (\<lambda>d. tm_id d \<noteq> None) ?ds = filter (\<lambda>d. tm_id d \<noteq> Some j) (filter (\<lambda>d. tm_id d \<noteq> None) cs)"
      by (induction cs) auto
    moreover have "distinct (map tm_task (filter (\<lambda>d. tm_id d \<noteq> None) cs))" using sl by (simp add: tm_slots_def)
    ultimately show ?thesis by (simp add: distinct_map_filter del: filter_filter)
  qed
  moreover have "n \<le> 0xfffe" "length (el_tasks l') = n" "length (el_generations l') = n" "length (el_used l') = n"
    using sl len by (simp_all add: l' tm_slots_def)
  ultimately show ?thesis by (intro tm_slotsI)
qed

lemma slots_removed:
  "filter ts_live (map (ts_kill t) (map tm_slot cs)) = map tm_slot (filter (\<lambda>c. tm_task c \<noteq> t) cs)"
  by (induction cs) (simp_all add: ts_kill_def ts_live_def periodic_slot_def one_shot_slot_def)

lemma remove_refines:
  assumes sim: "simulates n (m, cs) hs s l" and env: "en_ops env = al_ops"
    and rem: "el_remove env (app_handle hs j) (s, l, w) = (ok, s', l', w')"
  shows "w' = w \<and> ok = tm_known j cs \<and> simulates n (m, filter (\<lambda>c. tm_id c \<noteq> Some j) cs) hs s' l'"
proof -
  from sim have s: "length hs = m" "m < 2 ^ 16" "al_inv s" "al_capacity s = n" "\<not> al_running s" "al_list s = map tm_slot cs"
    "\<forall>c \<in> set cs. tm_once c \<or> tm_period c \<noteq> 0" and sl: "tm_slots n hs cs l" by (simp_all add: simulates_def)
  show ?thesis
  proof (cases "tm_known j cs")
    case False
    then have "filter (\<lambda>c. tm_id c \<noteq> Some j) cs = cs" by (auto simp: tm_known_def filter_id_conv)
    with False tm_unknown_invalid [OF sl False] rem sim show ?thesis by (simp add: el_remove_def)
  next
    case True
    then obtain c where c: "c \<in> set cs" "tm_id c = Some j" by (auto simp: tm_known_def)
    note v = tm_held_valid [OF sl c]
    let ?ds = "filter (\<lambda>c. tm_id c \<noteq> Some j) cs"
    obtain removed s1 where r: "al_remove (tm_task c) s = (removed, s1)" by fastforce
    note a = al_remove_spec [OF s(3) r, unfolded s(6)]
    have "\<exists>x \<in> set (map tm_slot cs). ts_task x = Some (tm_task c)"
      using c(1) by (intro bexI [of _ "tm_slot c"]) (simp_all add: periodic_slot_def one_shot_slot_def)
    then have removed using a by simp
    have ds: "filter (\<lambda>d. tm_task d \<noteq> tm_task c) cs = ?ds" using tm_slots_id(1) [OF sl c(1) _ c(2)] by (intro filter_cong) auto
    have list: "al_list s1 = map tm_slot ?ds" "al_frame s s1"
      using a s(5) slots_removed [of "tm_task c" cs] by (simp_all add: Let_def ds)
    have h: "app_handle hs j = hs ! j" using v(1) by (simp add: app_handle_def)
    have len: "length (el_tasks l) = n" using sl by (simp add: tm_slots_def)
    have rel: "el_release_registered (hs ! j) l = el_free_slot (tm_task c) l"
      using v by (simp add: el_release_registered_def el_valid_def)
    with rem v \<open>removed\<close> r env have e: "ok" "s' = s1" "l' = el_free_slot (tm_task c) l" "w' = w"
      by (simp_all add: el_remove_def h al_ops_def)
    have m: "length hs < 2 ^ 16" using s(1,2) by simp
    have "\<not> ct_invoking (el_tasks l ! tm_task c)" using v(5) by (simp add: holds_def)
    then have "tm_slots n hs ?ds l'"
      by (intro tm_slots_release [OF sl c m, where t = "ct_clear (el_tasks l ! tm_task c)"])
        (simp_all add: e(3) el_free_slot_def el_set_task_def loop_simps)
    with s list e True show ?thesis by (simp add: simulates_def al_frame_def)
  qed
qed

text \<open>Enabling and disabling.\<close>

lemma switch_slots:
  assumes sl: "tm_slots n hs cs l" and c: "c \<in> set cs" "tm_id c = Some j"
  shows "tm_slots n hs (tm_switch j on cs) (el_set_task (tm_task c) (ct_set_enabled on (el_tasks l ! tm_task c)) l)"
proof -
  let ?i = "tm_task c" and ?l = "el_set_task (tm_task c) (ct_set_enabled on (el_tasks l ! tm_task c)) l"
  note v = tm_held_valid [OF sl c]
  have len: "length (el_tasks l) = n" "length (el_generations l) = n" "length (el_used l) = n" using sl by (simp_all add: tm_slots_def)
  let ?f = "\<lambda>c. if tm_id c = Some j then c\<lparr>tm_enabled := on\<rparr> else c"
  have f: "tm_task (?f d) = tm_task d" "tm_id (?f d) = tm_id d" for d by simp_all
  have held: "tm_held n hs ?l (?f d)" if "d \<in> set cs" for d
  proof (cases "tm_id d = Some j")
    case True
    with tm_slots_id(2) [OF sl c(1) that c(2)] have "d = c" by simp
    have "tm_held n hs l c" using sl c(1) by (simp add: tm_slots_def)
    with \<open>d = c\<close> c(2) len show ?thesis
      by (simp add: tm_held_def el_set_task_def holds_def loop_simps) (simp add: ct_set_enabled_def)
  next
    case False
    with tm_slots_id(1) [OF sl c(1) that c(2)] have "tm_task d \<noteq> ?i" by simp
    moreover have "tm_held n hs l d" using sl that by (simp add: tm_slots_def)
    ultimately have "tm_held n hs ?l d"
      by (rule_tac tm_held_cong [where i = "?i"]) (simp_all add: el_set_task_def)
    with False show ?thesis by simp
  qed
  have ds: "map tm_task (filter (\<lambda>c. tm_id c \<noteq> None) (map ?f cs)) = map tm_task (filter (\<lambda>c. tm_id c \<noteq> None) cs)"
    by (induction cs) auto
  moreover have known: "tm_known k (map ?f cs) = tm_known k cs" for k by (induction cs) auto
  moreover have "stale n ?l (hs ! k)" if "k < length hs" "\<not> tm_known k (map ?f cs)" for k
    using sl that unfolding known by (simp add: tm_slots_def stale_def el_set_task_def)
  moreover have "\<not> ct_invoking (el_tasks ?l ! k) \<and> (el_used ?l ! k \<longleftrightarrow> k \<in> tm_task ` set (map ?f cs))
      \<and> (el_used ?l ! k \<longleftrightarrow> ct_active (el_tasks ?l ! k)) \<and> unat (el_generations ?l ! k) + (if el_used ?l ! k then 1 else 0) \<le> length hs"
    if "k < n" for k
  proof -
    have e: "ct_invoking (el_tasks ?l ! k) = ct_invoking (el_tasks l ! k)" "ct_active (el_tasks ?l ! k) = ct_active (el_tasks l ! k)"
      "el_used ?l = el_used l" "el_generations ?l = el_generations l"
      using that len v(4) by (auto simp: el_set_task_def nth_list_update loop_simps)
    have ts: "tm_task ` set (map ?f cs) = tm_task ` set cs" by (simp add: image_image f del: if_image_distrib)
    show ?thesis unfolding e ts by (rule slot_facts [OF sl that])
  qed
  moreover have "distinct (map tm_task (filter (\<lambda>c. tm_id c \<noteq> None) (map ?f cs)))" "n \<le> 0xfffe"
    "length (el_tasks ?l) = n" "length (el_generations ?l) = n" "length (el_used ?l) = n"
    unfolding ds using sl len by (simp_all add: tm_slots_def el_set_task_def)
  moreover have "tm_held n hs ?l d" if "d \<in> set (map ?f cs)" for d
  proof -
    from that obtain d0 where "d0 \<in> set cs" "d = ?f d0" by auto
    then show ?thesis using held by blast
  qed
  ultimately show ?thesis unfolding tm_switch_def by (intro tm_slotsI)
qed

lemma switch_refines:
  assumes sim: "simulates n (m, cs) hs s l"
    and sw: "(if \<not> el_valid (app_handle hs j) l then (False, l)
      else (True, el_set_task (eh_index (app_handle hs j)) (ct_set_enabled on (el_tasks l ! eh_index (app_handle hs j))) l)) = (ok, l')"
  shows "ok = tm_known j cs \<and> simulates n (m, tm_switch j on cs) hs s l'"
proof -
  from sim have sl: "tm_slots n hs cs l" by (simp add: simulates_def)
  have same: "map tm_slot (tm_switch j on cs) = map tm_slot cs" "\<forall>c \<in> set (tm_switch j on cs). tm_once c \<or> tm_period c \<noteq> 0"
    using sim by (auto simp: tm_switch_def simulates_def)
  show ?thesis
  proof (cases "tm_known j cs")
    case False
    then have "tm_switch j on cs = cs" by (auto simp: tm_known_def tm_switch_def intro!: map_idI)
    with False tm_unknown_invalid [OF sl False] sw sim show ?thesis by simp
  next
    case True
    then obtain c where c: "c \<in> set cs" "tm_id c = Some j" by (auto simp: tm_known_def)
    note v = tm_held_valid [OF sl c]
    with sw True switch_slots [OF sl c, of on] sim same show ?thesis
      by (auto simp: app_handle_def simulates_def)
  qed
qed

section \<open>Iterations\<close>

lemma el_set_task_twice: "el_set_task i t (el_set_task i u l) = el_set_task i t l"
  by (simp add: el_set_task_def)

lemma holds_poll:
  assumes "holds (Some f) True t"
  shows "ct_poll_begin t = Some (f, t\<lparr>ct_invoking := True\<rparr>)" "ct_poll_end (t\<lparr>ct_invoking := True\<rparr>) = t"
    "\<not> ct_active (ct_poll_end (ct_clear (t\<lparr>ct_invoking := True\<rparr>)))"
    "\<not> ct_invoking (ct_poll_end (ct_clear (t\<lparr>ct_invoking := True\<rparr>)))"
  using assms by (cases t; simp add: holds_def ct_poll_begin_def ct_poll_end_def ct_clear_def ct_destroy_now_def)+

text \<open>The callbacks that an iteration has run once are no longer in a slot.\<close>

abbreviation tm_rest :: "'p timed list \<Rightarrow> 'p timed list \<Rightarrow> 'p timed list" where
  "tm_rest cs rs \<equiv> filter (\<lambda>c. tm_once c \<longrightarrow> c \<notin> set rs) cs"

lemma poll_extern:
  assumes "tm_slots n hs ds l" "c \<in> set ds" "tm_id c = None" "world_only env ef"
  shows "el_poll env (tm_task c) now (s, l, w) = Some (s, l, tm_effect env ef now c w)"
proof -
  have "tm_held n hs l c" "length (el_tasks l) = n" using assms(1,2) by (simp_all add: tm_slots_def)
  with assms(3,4) show ?thesis by (simp add: el_poll_def tm_held_def tm_effect_def world_only_def)
qed

lemma poll_disabled:
  assumes "i < length (el_tasks l)" "\<not> (ct_active (el_tasks l ! i) \<and> ct_enabled (el_tasks l ! i))"
  shows "el_poll env i now (s, l, w) = Some (s, l, w)"
  using assms by (auto simp: el_poll_def ct_poll_begin_def split: option.split)

lemma poll_repeat:
  assumes sl: "tm_slots n hs ds l" and c: "c \<in> set ds" "tm_id c = Some j" "tm_enabled c" "\<not> tm_once c" and env: "world_only env ef"
  shows "el_poll env (tm_task c) now (s, l, w) = Some (s, l, tm_effect env ef now c w)"
proof -
  let ?i = "tm_task c" and ?t = "el_tasks l ! tm_task c"
  note v = tm_held_valid [OF sl c(1,2)]
  from sl v(4) have i: "?i < length (el_tasks l)" by (simp add: tm_slots_def)
  obtain f where f: "tm_callable (hs ! j) (tm_call c) = Some f" using v(5) by (auto simp: holds_def)
  note poll = holds_poll [of f ?t]
  have h: "holds (Some f) True ?t" using v(5) f c(3) by simp
  have bk: "el_set_task ?i (ct_poll_end (el_tasks (el_set_task ?i (?t\<lparr>ct_invoking := True\<rparr>) l) ! ?i))
      (el_set_task ?i (?t\<lparr>ct_invoking := True\<rparr>) l) = l"
    using i poll(2) [OF h] by (simp add: el_set_task_twice) (simp add: el_set_task_def)
  from env have run: "\<And>p s l w. en_run env p (s, l, w) = Some (s, l, ef_run ef p w)"
    "\<And>q p s l w. el_drain_pins env q p (s, l, w) = Some (s, l, ef_drain ef q p w)" by (simp_all add: world_only_def)
  show ?thesis
    using i poll(1) [OF h] bk run c(3,4) f by (cases "tm_call c") (auto simp: el_poll_def el_invoke_def tm_effect_def)
qed

lemma poll_once:
  assumes sl: "tm_slots n hs ds l" and c: "c \<in> set ds" "tm_id c = Some j" "tm_enabled c" "tm_once c"
    and m: "length hs < 2 ^ 16" and env: "world_only env ef"
  shows "\<exists>l'. (\<forall>s. el_poll env (tm_task c) now (s, l, w) = Some (s, l', tm_effect env ef now c w))
    \<and> tm_slots n hs (filter (\<lambda>d. tm_id d \<noteq> Some j) ds) l'"
proof -
  let ?i = "tm_task c" and ?t = "el_tasks l ! tm_task c"
  note v = tm_held_valid [OF sl c(1,2)]
  from sl v(4) have i: "?i < length (el_tasks l)" by (simp add: tm_slots_def)
  obtain p where p: "tm_call c = Run_Once p" using c(4) by (cases "tm_call c") auto
  then have h: "holds (Some (One_Shot (hs ! j) p)) True ?t" using v(5) c(3) by simp
  let ?l1 = "el_set_task ?i (?t\<lparr>ct_invoking := True\<rparr>) l"
  let ?t2 = "ct_clear (?t\<lparr>ct_invoking := True\<rparr>)"
  let ?l3 = "el_set_task ?i (ct_poll_end ?t2) (el_free_slot ?i ?l1)"
  have "el_release_registered (hs ! j) ?l1 = el_free_slot ?i ?l1"
    using v i by (simp add: el_release_registered_def el_valid_def el_set_task_def)
  moreover have "el_tasks (el_free_slot ?i ?l1) ! ?i = ?t2" using i by (simp add: el_free_slot_def el_set_task_def)
  ultimately have "el_poll env ?i now (s, l, w) = Some (s, ?l3, ef_run ef p w)" for s
    using holds_poll(1) [OF h] i env by (simp add: el_poll_def el_invoke_def world_only_def el_complete_one_shot_def)
  moreover have "tm_slots n hs (filter (\<lambda>d. tm_id d \<noteq> Some j) ds) ?l3"
    by (rule tm_slots_release [OF sl c(1,2) m, where t = "ct_poll_end ?t2"])
      (use holds_poll(3,4) [OF h] in \<open>simp_all add: el_free_slot_def el_set_task_def\<close>)
  ultimately show ?thesis using c(3) p by (auto simp: tm_effect_def)
qed

text \<open>One poll: a callback that has already run once is no longer there.\<close>

lemma poll_refines:
  assumes sl0: "tm_slots n hs cs l0" and sl: "tm_slots n hs (tm_rest cs rs) l" and c: "c \<in> set cs" "tm_once c \<longrightarrow> tm_enabled c"
    and m: "length hs < 2 ^ 16" and env: "world_only env ef"
  shows "\<exists>l'. (\<forall>s. el_poll env (tm_task c) now (s, l, w)
      = Some (s, l', if tm_once c \<and> c \<in> set rs then w else tm_effect env ef now c w))
    \<and> tm_slots n hs (tm_rest cs (c # rs)) l'"
proof (cases "tm_id c")
  case None
  then have "\<not> tm_once c" using sl0 c(1) by (auto simp: tm_slots_def tm_held_def split: option.splits)
  moreover from this have "tm_rest cs (c # rs) = tm_rest cs rs" by (intro filter_cong) auto
  ultimately show ?thesis using poll_extern [OF sl _ None env] c(1) sl by auto
next
  case (Some j)
  note v = tm_held_valid [OF sl0 c(1) Some]
  have i: "tm_task c < length (el_tasks l)" using v(4) sl by (simp add: tm_slots_def)
  show ?thesis
  proof (cases "tm_once c")
    case once: True
    show ?thesis
    proof (cases "c \<in> set rs")
      case True
      have "tm_task c \<notin> tm_task ` set (tm_rest cs rs)"
      proof
        assume "tm_task c \<in> tm_task ` set (tm_rest cs rs)"
        then obtain d where d: "d \<in> set cs" "tm_once d \<longrightarrow> d \<notin> set rs" "tm_task d = tm_task c" by auto
        with tm_slots_id [OF sl0 c(1) d(1) Some] have "d = c" by simp
        with d(2) once True show False by simp
      qed
      with slot_facts [OF sl v(4)] have "\<not> ct_active (el_tasks l ! tm_task c)" by blast
      moreover have "tm_rest cs (c # rs) = tm_rest cs rs" using True by (intro filter_cong) auto
      ultimately show ?thesis using poll_disabled [OF i, where env = env] True once sl by (intro exI [of _ l]) simp
    next
      case False
      then have "c \<in> set (tm_rest cs rs)" using c(1) by simp
      from poll_once [OF sl this Some _ once m env] c(2) once obtain l' where
        "\<forall>s. el_poll env (tm_task c) now (s, l, w) = Some (s, l', tm_effect env ef now c w)"
        "tm_slots n hs (filter (\<lambda>d. tm_id d \<noteq> Some j) (tm_rest cs rs)) l'" by blast
      moreover have "filter (\<lambda>d. tm_id d \<noteq> Some j) (tm_rest cs rs) = tm_rest cs (c # rs)"
        unfolding filter_filter using tm_slots_id(2) [OF sl0 c(1) _ Some] once Some by (intro filter_cong) auto
      ultimately show ?thesis using False by auto
    qed
  next
    case False
    then have rest: "tm_rest cs (c # rs) = tm_rest cs rs" "c \<in> set (tm_rest cs rs)" using c(1) by (auto intro!: filter_cong)
    show ?thesis
    proof (cases "tm_enabled c")
      case True
      from poll_repeat [OF sl rest(2) Some True False env] sl rest False show ?thesis by auto
    next
      case disabled: False
      have "\<not> ct_enabled (el_tasks l ! tm_task c)"
        using tm_held_valid(5) [OF sl rest(2) Some] disabled by (simp add: holds_def)
      with poll_disabled [OF i, where env = env] sl rest False disabled show ?thesis
        by (intro exI [of _ l]) (simp add: tm_effect_def)
    qed
  qed
qed

lemma fold_refines:
  assumes step: "\<And>rs l w c. tm_slots n hs (tm_rest cs rs) l \<Longrightarrow> c \<in> set xs \<Longrightarrow> \<exists>l'.
      e (tm_task c) (l, w) = (l', if tm_once c \<and> c \<in> set rs then w else g c w) \<and> tm_slots n hs (tm_rest cs (c # rs)) l'"
    and sl: "tm_slots n hs (tm_rest cs rs) l" and xs: "distinct (filter tm_once xs)" "\<forall>c \<in> set xs. tm_once c \<longrightarrow> c \<notin> set rs"
  shows "\<exists>l'. fold (\<lambda>x. e (the (ts_task x))) (map tm_slot xs) (l, w) = (l', fold g xs w)
    \<and> tm_slots n hs (tm_rest cs (rev xs @ rs)) l'"
  using assms
proof (induction xs arbitrary: rs l w)
  case (Cons c xs)
  have t: "the (ts_task (tm_slot c)) = tm_task c" by (simp add: periodic_slot_def one_shot_slot_def)
  from Cons.prems(1) [OF Cons.prems(2), of c w] Cons.prems(4) obtain l1 where
    1: "e (tm_task c) (l, w) = (l1, g c w)" "tm_slots n hs (tm_rest cs (c # rs)) l1" by auto
  have "\<forall>d \<in> set xs. tm_once d \<longrightarrow> d \<notin> set (c # rs)" "distinct (filter tm_once xs)"
    using Cons.prems(3,4) by (auto split: if_splits)
  from Cons.IH [OF _ 1(2) this(2,1), of "g c w"] Cons.prems(1) 1(1) t show ?case by auto
qed simp

lemma tm_slot_ready: "al_due now (tm_slot c) \<longleftrightarrow> tm_ready now c"
  by (simp add: tm_ready_def al_due_def ts_live_def periodic_slot_def one_shot_slot_def not_less)

lemma tm_slot_next:
  assumes "\<not> tm_once c" "tm_period c \<noteq> 0" "unat now + unat (tm_period c) < 2 ^ 64"
  shows "ts_returns now (tm_slot c)" "ts_visited now (tm_slot c) = tm_slot (tm_next now c)"
proof -
  show r: "ts_returns now (tm_slot c)" using assms by (simp add: ts_returns_def periodic_slot_def word_gt_0)
  show "ts_visited now (tm_slot c) = tm_slot (tm_next now c)"
  proof (cases "tm_ready now c")
    case True
    then have "al_due now (tm_slot c)" "ts_periodic (tm_slot c)"
      using tm_slot_ready [of now c] assms(1) by (simp_all add: periodic_slot_def)
    from al_due_returns [OF this(1) r this(2)] assms(1) obtain d where
      d: "advance_due now (tm_period c) (tm_due c) = Some d" "unat d = unat (tm_due c)
        + Suc ((unat now - unat (tm_due c)) div unat (tm_period c)) * unat (tm_period c)"
      by (auto simp: periodic_slot_def)
    have "word_of_nat (unat d) = d" by simp
    then have "d = word_of_nat (unat (tm_due c)
        + Suc ((unat now - unat (tm_due c)) div unat (tm_period c)) * unat (tm_period c))" by (simp only: d(2))
    with True d(1) assms(1) show ?thesis
      unfolding ts_visited_def tm_slot_ready tm_next_def by (simp add: periodic_slot_def)
  next
    case False
    then show ?thesis unfolding ts_visited_def tm_slot_ready tm_next_def by simp
  qed
qed

lemma tm_slot_once:
  assumes "tm_once c"
  shows "ts_returns now (tm_slot c)" "\<not> tm_ready now c \<Longrightarrow> ts_visited now (tm_slot c) = tm_slot (tm_next now c)"
  using assms tm_slot_ready [of now c] by (simp_all add: ts_returns_def ts_visited_def tm_next_def) (simp add: one_shot_slot_def)

lemma tm_next_simps:
  "tm_id (tm_next now c) = tm_id c" "tm_task (tm_next now c) = tm_task c" "tm_call (tm_next now c) = tm_call c"
  "tm_enabled (tm_next now c) = tm_enabled c" "tm_period (tm_next now c) = tm_period c"
  by (simp_all add: tm_next_def)

lemma tm_slots_next: "tm_slots n hs (map (tm_next now) cs) l = tm_slots n hs cs l"
proof -
  have "map tm_task (filter (\<lambda>c. tm_id c \<noteq> None) (map (tm_next now) cs)) = map tm_task (filter (\<lambda>c. tm_id c \<noteq> None) cs)"
    by (simp add: filter_map o_def tm_next_simps)
  moreover have "tm_task ` set (map (tm_next now) cs) = tm_task ` set cs" by (simp add: image_image tm_next_simps)
  moreover have "tm_known j (map (tm_next now) cs) = tm_known j cs" for j by (simp add: tm_known_def tm_next_simps)
  moreover have "tm_held n hs l (tm_next now c) = tm_held n hs l c" for c by (simp add: tm_held_def tm_next_simps split: option.split)
  ultimately show ?thesis unfolding tm_slots_def by (simp only: set_map ball_simps)
qed

lemma iteration_refines:
  assumes sim: "simulates n (m, cs) hs s l" and env: "world_only env ef"
    and ok: "op_ok env n Iterate ((m, cs), w)" and step: "tm_step env ef n Iterate ((m, cs), w) = (r, mcs, w')"
  shows "r \<and> (\<exists>s' l'. el_run_once env (s, l, w) = Some (s', l', w') \<and> simulates n mcs hs s' l')"
proof -
  let ?now = "en_micros env w"
  let ?g = "tm_effect env ef ?now" and ?due = "filter (tm_ready (en_micros env w)) cs"
  from sim have s: "length hs = m" "m < 2 ^ 16" "al_inv s" "al_capacity s = n" "al_list s = map tm_slot cs"
    "\<forall>c \<in> set cs. tm_once c \<or> tm_period c \<noteq> 0" and sl: "tm_slots n hs cs l" by (simp_all add: simulates_def)
  have m: "length hs < 2 ^ 16" using s(1,2) by simp
  define e where "e t lw = snd (the (el_poll env t ?now (s, lw)))" for t and lw :: "'a event_loop \<times> 'b"
  have en: "tm_once c \<longrightarrow> tm_enabled c" if "c \<in> set ?due" for c using ok that by auto
  have pr: "\<exists>l'. (\<forall>s. el_poll env (tm_task c) ?now (s, l, w) = Some (s, l', if tm_once c \<and> c \<in> set rs then w else ?g c w))
      \<and> tm_slots n hs (tm_rest cs (c # rs)) l'"
    if "tm_slots n hs (tm_rest cs rs) l" "c \<in> set ?due" for rs l w c
    using poll_refines [OF sl that(1) _ en [OF that(2)] m env] that(2) by simp
  have ep: "\<exists>l'. e (tm_task c) (l, w) = (l', if tm_once c \<and> c \<in> set rs then w else ?g c w)
      \<and> tm_slots n hs (tm_rest cs (c # rs)) l'"
    if "tm_slots n hs (tm_rest cs rs) l" "c \<in> set ?due" for rs l w c
    using pr [OF that, of w] by (auto simp: e_def)
  have q: "quiet_on (\<lambda>lw. \<exists>rs. tm_slots n hs (tm_rest cs rs) (fst lw)) (tm_task ` set ?due) ?now e (el_poll env)"
    unfolding quiet_on_def
  proof (intro ballI allI impI)
    fix t s1 lw
    assume "t \<in> tm_task ` set ?due" and P: "\<exists>rs. tm_slots n hs (tm_rest cs rs) (fst (lw :: 'a event_loop \<times> 'b))"
    then obtain c rs where c: "c \<in> set ?due" "t = tm_task c" and rs: "tm_slots n hs (tm_rest cs rs) (fst lw)" by blast
    obtain l1 w1 where lw: "lw = (l1, w1)" by fastforce
    with pr [OF _ c(1), of rs l1 w1] rs c(2) show "el_poll env t ?now (s1, lw) = Some (s1, e t lw)
        \<and> (\<exists>rs. tm_slots n hs (tm_rest cs rs) (fst (e t lw)))"
      by (auto simp: e_def simp del: set_simps)
  qed
  note live = live_slots [OF s(5)]
  have fine: "\<forall>x \<in> set (al_live s). ts_fine (tm_task ` set ?due) ?now x"
  proof
    fix x
    assume "x \<in> set (al_live s)"
    then obtain c where c: "c \<in> set cs" "x = tm_slot c" unfolding live by auto
    have "ts_returns ?now (tm_slot c)"
    proof (cases "tm_once c")
      case False
      with ok s(6) c(1) show ?thesis by (intro tm_slot_next(1)) auto
    qed (rule tm_slot_once)
    moreover have "the (ts_task (tm_slot c)) = tm_task c" by (simp add: periodic_slot_def one_shot_slot_def)
    ultimately show "ts_fine (tm_task ` set ?due) ?now x" using c tm_slot_ready [of ?now c] by auto
  qed
  let ?clk = "\<lambda>(l :: 'a event_loop, w). (en_micros env w, (l, w))"
  have start: "tm_slots n hs (tm_rest cs []) l" using sl by simp
  then have P: "\<exists>rs. tm_slots n hs (tm_rest cs rs) (fst (l, w))" by (intro exI [of _ "[]"]) simp
  from al_run_once_quiet [where P = "\<lambda>lw. \<exists>rs. tm_slots n hs (tm_rest cs rs) (fst lw)" and w = "(l, w)",
    OF q s(3) fine, of ?clk "(l, w)", OF _ P] obtain s' where
    run: "al_run_once ?clk (el_poll env) (s, l, w)
        = Some (s', fold (\<lambda>x. e (the (ts_task x))) (filter (al_due ?now) (al_live s)) (l, w))"
      "al_inv s'" "al_capacity s' = n" "\<not> al_running s'"
      "al_list s' = map (ts_visited ?now) (filter (\<lambda>x. al_due ?now x \<longrightarrow> ts_periodic x) (al_live s))"
    using s(4) by auto
  have due: "filter (al_due ?now) (al_live s) = map tm_slot ?due"
    unfolding live filter_map comp_def tm_slot_ready ..
  have "distinct (filter tm_once ?due)"
  proof -
    have "tm_id c \<noteq> None" if "c \<in> set cs" "tm_once c" for c
      using sl that by (auto simp: tm_slots_def tm_held_def split: option.splits)
    then have "filter tm_once ?due = filter (\<lambda>c. tm_once c \<and> tm_ready ?now c) (filter (\<lambda>c. tm_id c \<noteq> None) cs)"
      unfolding filter_filter by (intro filter_cong) auto
    moreover have "distinct (filter (\<lambda>c. tm_id c \<noteq> None) cs)" using sl by (simp add: tm_slots_def distinct_map)
    ultimately show ?thesis by (simp only: distinct_filter)
  qed
  from fold_refines [where xs = ?due and e = e and g = ?g, OF ep start this] obtain l' where
    f: "fold (\<lambda>x. e (the (ts_task x))) (map tm_slot ?due) (l, w) = (l', fold ?g ?due w)"
      "tm_slots n hs (tm_rest cs (rev ?due)) l'" by auto
  have rest: "tm_rest cs (rev ?due) = filter (\<lambda>c. tm_ready ?now c \<longrightarrow> \<not> tm_once c) cs" by (intro filter_cong) auto
  have keep: "filter (\<lambda>x. al_due ?now x \<longrightarrow> ts_periodic x) (al_live s) = map tm_slot (tm_rest cs (rev ?due))"
    unfolding live rest filter_map comp_def tm_slot_ready
    by (intro arg_cong [of _ _ "map tm_slot"] filter_cong) (auto simp: periodic_slot_def one_shot_slot_def)
  have vis: "ts_visited ?now (tm_slot c) = tm_slot (tm_next ?now c)" if "c \<in> set (tm_rest cs (rev ?due))" for c
  proof (cases "tm_once c")
    case True
    with that show ?thesis unfolding rest by (intro tm_slot_once(2)) auto
  next
    case False
    with that ok s(6) show ?thesis unfolding rest by (intro tm_slot_next(2)) auto
  qed
  then have "al_list s' = map tm_slot (tm_advance ?now cs)"
    unfolding run(5) keep tm_advance_def rest [symmetric] map_map comp_def by (intro map_cong) auto
  moreover have "tm_slots n hs (tm_advance ?now cs) l'"
    using f(2) unfolding tm_advance_def rest by (simp only: tm_slots_next)
  ultimately have "simulates n (m, tm_advance ?now cs) hs s' l'"
    using s run(2-4) by (auto simp: simulates_def tm_advance_def tm_next_simps)
  with step run(1) f(1) show ?thesis unfolding due el_run_once_def by (simp add: Let_def)
qed

section \<open>Programs\<close>

lemma al_add_periodic_env:
  assumes "en_ops env = al_ops"
  shows "el_add_periodic env i period (s, l, w) = (case al_add_periodic i period (en_micros env w) s of (ok, s') \<Rightarrow> (ok, s', l, w))"
    and "el_add_one_shot env i due (s, l, w) = (case al_add_one_shot i due s of (ok, s') \<Rightarrow> (ok, s', l, w))"
    and "el_readiness_or_poll env fd i poll_us (s, l, w) = el_add_periodic env i (poll_period poll_us) (s, l, w)"
  using assms by (simp_all add: el_add_periodic_def el_add_one_shot_def el_readiness_or_poll_def poll_period_def al_ops_def)

lemma periodic_refines:
  assumes sim: "simulates n (m, cs) hs s l" and ops: "en_ops env = al_ops" and m: "m < 2 ^ 16 - 1"
    and f: "\<And>h. tm_callable h f = Some (callable h)" "\<not> once_call f"
    and add: "\<And>i l. add i (s, l, w) = el_add_periodic env i period (s, l, w)"
  shows "\<exists>hs' s' l'. app_register (el_register callable add) (hs, s, l, w)
      = (fst (tm_add n f period (en_micros env w) (m, cs)), hs', s', l', w)
    \<and> simulates n (snd (tm_add n f period (en_micros env w) (m, cs))) hs' s' l'"
proof -
  obtain h s' l' w' where r: "el_register callable add (s, l, w) = (h, s', l', w')" by (metis prod_cases4)
  have slots: "al_inv s" "al_list s = map tm_slot cs" "al_capacity s = n" using sim by (simp_all add: simulates_def)
  have "\<exists>ok s'. add i (s, l, w) = (ok, s', l, w) \<and> al_frame s s'
      \<and> (ok \<longleftrightarrow> (once_call f \<or> period \<noteq> 0) \<and> length cs < n) \<and> al_list s' = map tm_slot cs
        @ (if ok then [if once_call f then one_shot_slot i (en_micros env w) else periodic_slot i period (en_micros env w)] else [])" for i l
    using add_slots(1) [OF slots(1,2), of i period "en_micros env w"] f(2) slots(3)
    by (cases "al_add_periodic i period (en_micros env w) s") (simp add: add al_add_periodic_env [OF ops])
  from el_register_refines [OF sim m f(1) this r] r show ?thesis by (auto simp: app_register_def)
qed

lemma delay_refines:
  assumes sim: "simulates n (m, cs) hs s l" and ops: "en_ops env = al_ops" and m: "m < 2 ^ 16 - 1"
  shows "\<exists>hs' s' l'. app_register (el_on_delay_us env delay p) (hs, s, l, w)
      = (fst (tm_add n (Run_Once p) 0 (due_after (en_micros env w) delay) (m, cs)), hs', s', l', w)
    \<and> simulates n (snd (tm_add n (Run_Once p) 0 (due_after (en_micros env w) delay) (m, cs))) hs' s' l'"
proof -
  let ?due = "due_after (en_micros env w) delay"
  obtain h s' l' w' where r: "el_on_delay_us env delay p (s, l, w) = (h, s', l', w')" by (metis prod_cases4)
  have slots: "al_inv s" "al_list s = map tm_slot cs" "al_capacity s = n" using sim by (simp_all add: simulates_def)
  have add: "\<exists>ok s'. el_add_one_shot env i ?due (s, l, w) = (ok, s', l, w)
      \<and> al_frame s s' \<and> (ok \<longleftrightarrow> (once_call (Run_Once p) \<or> (0 :: u64) \<noteq> 0) \<and> length cs < n) \<and> al_list s' = map tm_slot cs
        @ (if ok then [if once_call (Run_Once p) then one_shot_slot i ?due else periodic_slot i 0 ?due] else [])" for i l
    using add_slots(2) [OF slots(1,2), of i ?due] slots(3)
    by (cases "al_add_one_shot i ?due s") (simp add: al_add_periodic_env [OF ops])
  have f: "tm_callable h (Run_Once p) = Some ((\<lambda>h. One_Shot h p) h)" for h by simp
  have "w' = w \<and> fst (tm_add n (Run_Once p) 0 ?due (m, cs)) = eh_assigned h
      \<and> simulates n (snd (tm_add n (Run_Once p) 0 ?due (m, cs))) (hs @ [h]) s' l'"
    using add by (intro el_register_refines [OF sim m f _ r [unfolded el_on_delay_us_def]]) simp
  with r show ?thesis by (auto simp: app_register_def)
qed

lemma app_step_refines:
  assumes sim: "simulates n mcs hs s l" and env: "world_only env ef" and ok: "op_ok env n op (mcs, w)"
  shows "\<exists>r mcs' w' hs' s' l'. tm_step env ef n op (mcs, w) = (r, mcs', w')
    \<and> app_step env op (hs, s, l, w) = Some (r, hs', s', l', w') \<and> simulates n mcs' hs' s' l'"
proof -
  obtain m cs where mcs: "mcs = (m, cs)" by fastforce
  note sim = sim [unfolded mcs]
  have ops: "en_ops env = al_ops" using env by (simp add: world_only_def)
  note reg = periodic_refines [OF sim ops]
  show ?thesis
  proof (cases op)
    case (Repeat period p)
    from reg [of "Run p" "\<lambda>h. Plain p" "\<lambda>i. el_add_periodic env i period" w period] ok Repeat show ?thesis
      by (auto simp: mcs el_on_repeat_us_def split: prod.splits)
  next
    case (Delay delay p)
    with delay_refines [OF sim ops, of delay p w] ok show ?thesis by (auto simp: mcs split: prod.splits)
  next
    case (On_Bytes q p poll_us)
    from reg [of "Run_Ready q p" "\<lambda>h. Bytes_Ready q p"
        "\<lambda>i st. case st of (s, l, w) \<Rightarrow> el_readiness_or_poll env (en_stream_fd env q w) i poll_us st" w "poll_period poll_us"]
      ok On_Bytes show ?thesis
      by (auto simp: mcs el_on_bytes_ready_def al_add_periodic_env(3) [OF ops] split: prod.splits)
  next
    case (On_Pins q p poll_us)
    from reg [of "Run_Events q p" "\<lambda>h. Pin_Events q p"
        "\<lambda>i st. case st of (s, l, w) \<Rightarrow> el_readiness_or_poll env (en_source_fd env q w) i poll_us st" w "poll_period poll_us"]
      ok On_Pins show ?thesis
      by (auto simp: mcs el_on_pin_event_def al_add_periodic_env(3) [OF ops] split: prod.splits)
  next
    case (Remove j)
    obtain r s' l' w' where "el_remove env (app_handle hs j) (s, l, w) = (r, s', l', w')" by (metis prod_cases4)
    with remove_refines [OF sim ops this] Remove show ?thesis by (auto simp: mcs)
  next
    case (Enable j)
    obtain r l' where "el_enable (app_handle hs j) l = (r, l')" by fastforce
    with switch_refines [OF sim this [unfolded el_enable_def]] Enable show ?thesis by (auto simp: mcs)
  next
    case (Disable j)
    obtain r l' where "el_disable (app_handle hs j) l = (r, l')" by fastforce
    with switch_refines [OF sim this [unfolded el_disable_def]] Disable show ?thesis by (auto simp: mcs)
  next
    case (External_Repeat t period)
    obtain r s' l' w' where a: "el_add_periodic env t period (s, l, w) = (r, s', l', w')" by (metis prod_cases4)
    from a have "l' = l" "w' = w" by (auto simp: el_add_periodic_def split: prod.splits)
    with external_refines [OF sim ops _ a, of ef] External_Repeat ok a show ?thesis by (auto simp: mcs)
  next
    case Iterate
    obtain r mcs' w' where t: "tm_step env ef n Iterate ((m, cs), w) = (r, mcs', w')" by (metis prod_cases3)
    from iteration_refines [OF sim env _ t] ok Iterate t show ?thesis by (auto simp: mcs simp del: tm_step.simps op_ok.simps)
  next
    case (Outside f)
    with sim show ?thesis by (simp add: mcs) blast
  qed
qed

lemma app_run_refines:
  assumes "simulates n mcs hs s l" "world_only env ef" "ops_ok env ef n ops (mcs, w)"
  shows "\<exists>oks mcs' w' hs' s' l'. tm_run env ef n ops (mcs, w) = (oks, mcs', w')
    \<and> app_run env ops (hs, s, l, w) = Some (oks, hs', s', l', w') \<and> simulates n mcs' hs' s' l'"
  using assms(1,3)
proof (induction ops arbitrary: mcs hs s l w)
  case (Cons op ops)
  from app_step_refines [OF Cons.prems(1) assms(2), of op w] Cons.prems(2) obtain r mcs1 w1 hs1 s1 l1 where
    1: "tm_step env ef n op (mcs, w) = (r, mcs1, w1)" "app_step env op (hs, s, l, w) = Some (r, hs1, s1, l1, w1)"
      "simulates n mcs1 hs1 s1 l1" by auto
  from Cons.IH [OF 1(3), of w1] Cons.prems(2) 1(1) obtain oks mcs2 w2 hs2 s2 l2 where
    "tm_run env ef n ops (mcs1, w1) = (oks, mcs2, w2)" "app_run env ops (hs1, s1, l1, w1) = Some (oks, hs2, s2, l2, w2)"
      "simulates n mcs2 hs2 s2 l2" by auto
  with 1 show ?case by simp
qed simp

text \<open>What every callback, every task of others and everything outside keeps, a program keeps.\<close>

lemma tm_effects_keep:
  assumes "P w" "\<And>p w. P w \<Longrightarrow> P (ef_run ef p w)" "\<And>q p w. P w \<Longrightarrow> P (ef_drain ef q p w)"
    "\<And>t now w. P w \<Longrightarrow> P (ef_extern ef t now w)"
  shows "P (fold (tm_effect env ef now) cs w)"
  using assms(1)
proof (induction cs arbitrary: w)
  case (Cons c cs)
  have "P (tm_effect env ef now c w)"
    using Cons.prems assms(2-4) by (auto simp: tm_effect_def split: timed_call.split)
  with Cons.IH show ?case by simp
qed simp

lemma tm_run_keeps:
  assumes "tm_run env ef n ops (mcs, w) = (oks, mcs', w')" "P w"
    "\<And>p w. P w \<Longrightarrow> P (ef_run ef p w)" "\<And>q p w. P w \<Longrightarrow> P (ef_drain ef q p w)"
    "\<And>t now w. P w \<Longrightarrow> P (ef_extern ef t now w)" "\<And>f w. Outside f \<in> set ops \<Longrightarrow> P w \<Longrightarrow> P (f w)"
  shows "P w'"
  using assms(1,2,6)
proof (induction ops arbitrary: mcs w oks)
  case (Cons op ops)
  obtain ok mcs1 w1 where st: "tm_step env ef n op (mcs, w) = (ok, mcs1, w1)" by (metis prod_cases3)
  have "P w1"
  proof (cases op)
    case Iterate
    with st tm_effects_keep [of P w ef, OF Cons.prems(2) assms(3-5)] show ?thesis by (cases mcs) (auto simp: Let_def)
  next
    case (Outside f)
    with Cons.prems(3) [of f w] Cons.prems(2) st show ?thesis by simp
  qed (use st Cons.prems(2) in \<open>cases mcs; auto split: prod.splits if_splits\<close>)+
  moreover obtain oks1 where "tm_run env ef n ops (mcs1, w1) = (oks1, mcs', w')"
    using Cons.prems(1) st by (auto split: prod.splits)
  ultimately show ?case using Cons.IH Cons.prems(3) by simp
qed simp

lemma tm_run_append:
  "tm_run env ef n (xs @ ys) mw =
     (case tm_run env ef n xs mw of (oks, mw1) \<Rightarrow> case tm_run env ef n ys mw1 of (oks', mw2) \<Rightarrow> (oks @ oks', mw2))"
  by (induction xs arbitrary: mw) (auto split: prod.split)

lemma ops_ok_append:
  "ops_ok env ef n (xs @ ys) mw \<longleftrightarrow> ops_ok env ef n xs mw \<and> ops_ok env ef n ys (snd (tm_run env ef n xs mw))"
  by (induction xs arbitrary: mw) (auto split: prod.split)

text \<open>A program that sets up and then goes on, with an invariant of the world.\<close>

lemma app_run_keeps:
  assumes "world_only env ef" "n \<le> 0xfffe" "ops_ok env ef n sops ((0, []), w)"
    "tm_run env ef n sops ((0, []), w) = (oks, mcs, w1)" "app_run env sops ([], al_init n, el_init n, w) = Some (oks', hs, st)"
    "ops_ok env ef n ops (mcs, w1)" "P w1"
    "\<And>p w. P w \<Longrightarrow> P (ef_run ef p w)" "\<And>q p w. P w \<Longrightarrow> P (ef_drain ef q p w)"
    "\<And>t now w. P w \<Longrightarrow> P (ef_extern ef t now w)" "\<And>f w. Outside f \<in> set ops \<Longrightarrow> P w \<Longrightarrow> P (f w)"
  shows "\<exists>oks hs' s l w2. app_run env ops (hs, st) = Some (oks, hs', s, l, w2) \<and> P w2"
proof -
  from app_run_refines [OF simulates_init [OF assms(2)] assms(1,3)] assms(4,5) obtain s l where
    st: "st = (s, l, w1)" and sim: "simulates n mcs hs s l" by auto
  from app_run_refines [OF sim assms(1,6)] obtain oks2 mcs2 w2 hs2 s2 l2 where
    "tm_run env ef n ops (mcs, w1) = (oks2, mcs2, w2)" and run: "app_run env ops (hs, s, l, w1) = Some (oks2, hs2, s2, l2, w2)" by blast
  note tm = this(1)
  have "P w2" by (rule tm_run_keeps [where P = P, OF tm]) (use assms(7-11) in blast)+
  with run st show ?thesis by blast
qed

section \<open>How often a callback runs\<close>

text \<open>How often a program's calls of the loop run the callback \<open>p\<close>.\<close>

definition runs_call :: "'p \<Rightarrow> 'p timed \<Rightarrow> bool" where
  "runs_call p c \<longleftrightarrow> tm_enabled c \<and> (case tm_call c of Run q \<Rightarrow> q = p | Run_Once q \<Rightarrow> q = p | _ \<Rightarrow> False)"

fun step_runs :: "('p, 's, 'w) el_env \<Rightarrow> 'p \<Rightarrow> ('p, 'w) app_op \<Rightarrow> 'p tm_state \<times> 'w \<Rightarrow> nat" where
  "step_runs env p Iterate ((m, cs), w) = length (filter (runs_call p) (filter (tm_ready (en_micros env w)) cs))"
| "step_runs env p _ mw = 0"

primrec task_runs ::
  "('p, 's, 'w) el_env \<Rightarrow> ('p, 'w) effects \<Rightarrow> nat \<Rightarrow> 'p \<Rightarrow> ('p, 'w) app_op list \<Rightarrow> 'p tm_state \<times> 'w \<Rightarrow> nat" where
  "task_runs env ef n p [] mw = 0"
| "task_runs env ef n p (op # ops) mw =
     step_runs env p op mw + task_runs env ef n p ops (snd (tm_step env ef n op mw))"

text \<open>Nothing runs the callback when bytes are ready.\<close>

definition no_ready :: "'p \<Rightarrow> 'p timed list \<Rightarrow> bool" where
  "no_ready p cs \<longleftrightarrow> (\<forall>c \<in> set cs. \<forall>q. tm_call c \<noteq> Run_Ready q p)"

lemma no_ready_add:
  "no_ready p cs \<Longrightarrow> (\<And>q. f \<noteq> Run_Ready q p) \<Longrightarrow> no_ready p (snd (snd (tm_add n f period due (m, cs))))"
  by (auto simp: tm_add_def no_ready_def split: option.splits)

lemma effects_count:
  assumes "\<And>k w. P k w \<Longrightarrow> P (Suc k) (ef_run ef p w)" "\<And>k q w. q \<noteq> p \<Longrightarrow> P k w \<Longrightarrow> P k (ef_run ef q w)"
    "\<And>k i q w. P k w \<Longrightarrow> P k (ef_drain ef i q w)" "\<And>k t now w. P k w \<Longrightarrow> P k (ef_extern ef t now w)"
    "P k w" "no_ready p cs"
  shows "P (k + length (filter (runs_call p) cs)) (fold (tm_effect env ef now) cs w)"
  using assms(5,6)
proof (induction cs arbitrary: w k)
  case (Cons c cs)
  have n: "\<And>q. tm_call c \<noteq> Run_Ready q p" "no_ready p cs" using Cons.prems(2) by (simp_all add: no_ready_def)
  then have "P (if runs_call p c then Suc k else k) (tm_effect env ef now c w)"
    using Cons.prems(1) assms(1-4) by (cases "tm_call c") (auto simp: tm_effect_def runs_call_def)
  from Cons.IH [OF this n(2)] show ?case by (simp split: if_splits)
qed simp

text \<open>A relation between the number of runs of one callback and the world, which nothing else disturbs.\<close>

lemma tm_run_counts:
  assumes "\<And>k w. P k w \<Longrightarrow> P (Suc k) (ef_run ef p w)" "\<And>k q w. q \<noteq> p \<Longrightarrow> P k w \<Longrightarrow> P k (ef_run ef q w)"
    "\<And>k i q w. P k w \<Longrightarrow> P k (ef_drain ef i q w)" "\<And>k t now w. P k w \<Longrightarrow> P k (ef_extern ef t now w)"
    "\<And>k f w. Outside f \<in> set ops \<Longrightarrow> P k w \<Longrightarrow> P k (f w)" "\<And>q poll_us. On_Bytes q p poll_us \<notin> set ops"
    "tm_run env ef n ops ((i, cs), w) = (oks, mcs', w')" "P k w" "no_ready p cs"
  shows "P (k + task_runs env ef n p ops ((i, cs), w)) w'"
  using assms(5-9)
proof (induction ops arbitrary: w k i cs oks)
  case (Cons op ops)
  obtain ok i1 cs1 w1 where st: "tm_step env ef n op ((i, cs), w) = (ok, (i1, cs1), w1)"
    by (metis prod.collapse)
  let ?k = "k + step_runs env p op ((i, cs), w)"
  note add = no_ready_add [OF Cons.prems(5), of _ n _ _ i]
  have "P ?k w1 \<and> no_ready p cs1"
  proof (cases op)
    case Iterate
    have f: "no_ready p (filter (tm_ready (en_micros env w)) cs)" using Cons.prems(5) by (simp add: no_ready_def)
    have "no_ready p (tm_advance now cs)" for now
      using Cons.prems(5) by (auto simp: no_ready_def tm_advance_def tm_next_simps)
    with effects_count [of P ef p k w, OF assms(1-4) Cons.prems(4) f, where env = env and now = "en_micros env w"] st Iterate
    show ?thesis by (auto simp: Let_def)
  next
    case (Repeat period q)
    with st Cons.prems(4) add [of "Run q"] show ?thesis by (auto split: prod.splits) (metis snd_conv)
  next
    case (Delay delay q)
    with st Cons.prems(4) add [of "Run_Once q"] show ?thesis by (auto split: prod.splits) (metis snd_conv)
  next
    case (On_Bytes s q poll_us)
    with Cons.prems(2) [of s poll_us] have "q \<noteq> p" by auto
    with On_Bytes st Cons.prems(4) add [of "Run_Ready s q"] show ?thesis by (auto split: prod.splits) (metis snd_conv)
  next
    case (On_Pins s q poll_us)
    with st Cons.prems(4) add [of "Run_Events s q"] show ?thesis by (auto split: prod.splits) (metis snd_conv)
  next
    case (Outside f)
    with Cons.prems(1) [of f k w] st Cons.prems(4,5) show ?thesis by auto
  qed (use st Cons.prems(4,5) in \<open>auto simp: no_ready_def tm_switch_def split: if_splits\<close>)
  moreover obtain oks1 where "tm_run env ef n ops ((i1, cs1), w1) = (oks1, mcs', w')"
    using Cons.prems(3) st by (auto split: prod.splits)
  ultimately show ?case using Cons.IH [of i1 cs1 w1 oks1 ?k] Cons.prems(1,2) st by (simp add: add.assoc)
qed simp

text \<open>
  C4: for callbacks that act on the world only and leave the loop alone, the event loop on the cooperative scheduler
  is a list of timed callbacks. From any state that holds such a list (in particular the initial one), any
  sequence of registrations, removals, enablings and disablings, tasks of other objects and iterations, with anything happening in between, has exactly the effect it has on the
  list, and returns the same answers: callbacks are added while there is room, an iteration runs those that
  are due and enabled in the order of their registration, a repeated callback gets the next deadline of its own
  phase, a delayed one leaves the list, and a handle is answered for exactly as long as its callback is there.
\<close>

theorem event_loop_refines_timers:
  assumes "simulates n mcs hs s l" "world_only env ef" "ops_ok env ef n ops (mcs, w)"
  shows "\<exists>oks mcs' w' hs' s' l'. tm_run env ef n ops (mcs, w) = (oks, mcs', w')
    \<and> app_run env ops (hs, s, l, w) = Some (oks, hs', s', l', w') \<and> simulates n mcs' hs' s' l'"
  using assms by (rule app_run_refines)

text \<open>The world of the example: the clock, and the callbacks that have run.\<close>

definition ticking_env :: "(nat, arduino_loop, u64 \<times> nat list) el_env" where
  "ticking_env = \<lparr>en_ops = al_ops, en_micros = fst, en_readable = (\<lambda>q w. q = 0), en_stream_fd = (\<lambda>q w. - 1),
     en_source_fd = (\<lambda>q w. - 1), en_read_event = (\<lambda>q w. Some (None, w)),
     en_run = (\<lambda>p (s, l, t, log). Some (s, l, t, log @ [p])), en_run_pin = (\<lambda>p ev st. Some st),
     en_external = (\<lambda>t now (s, l, u, log). Some (s, l, u, log @ [t]))\<rparr>"

definition ticking_effects :: "(nat, u64 \<times> nat list) effects" where
  "ticking_effects = \<lparr>ef_run = (\<lambda>p (t, log). (t, log @ [p])), ef_drain = (\<lambda>q p w. w),
     ef_extern = (\<lambda>t now (u, log). (u, log @ [t]))\<rparr>"

lemma ticking_world: "world_only ticking_env ticking_effects"
  by (simp add: world_only_def ticking_env_def ticking_effects_def el_drain_pins.simps)

text \<open>Three slots: a delayed callback gives its slot back, a removed one too, and old handles stay invalid.\<close>

abbreviation ticking_ops :: "(nat, u64 \<times> nat list) app_op list" where
  "ticking_ops \<equiv> [Repeat 1500 7, Delay 100 8, On_Bytes 0 9 0, Repeat 5 6, Iterate, Outside (\<lambda>(t, log). (t + 200, log)),
     Iterate, Remove 1, Disable 0, Remove 2, Delay 0 4, Remove 2, Outside (\<lambda>(t, log). (t + 2000, log)), Iterate, Enable 0]"

lemma event_loop_refines_timers_witness:
  "\<exists>hs s' l'. app_run ticking_env ticking_ops ([], al_init 3, el_init 3, 5, [])
      = Some ([True, True, True, False, True, True, True, False, True, True, True, False, True, True, True],
          hs, s', l', 2205, [7, 9, 8, 4])
    \<and> map ts_next_due_us (al_list s') = [3005]"
proof -
  note env = ticking_env_def ticking_effects_def tm_ready_def tm_next_def tm_effect_def tm_add_def tm_free_def tm_advance_def
    default_readiness_poll_us_def poll_period_def tm_known_def tm_switch_def due_after_def Let_def upt_rec
  have run: "tm_run ticking_env ticking_effects 3 ticking_ops ((0, []), 5, [])
    = ([True, True, True, False, True, True, True, False, True, True, True, False, True, True, True],
       (5, [\<lparr>tm_id = Some 0, tm_task = 0, tm_call = Run 7, tm_enabled = True, tm_period = 1500, tm_due = 3005\<rparr>]), 2205, [7, 9, 8, 4])"
    by (simp add: env)
  have ok: "ops_ok ticking_env ticking_effects 3 ticking_ops ((0, []), 5, [])"
    by (simp add: env)
  from event_loop_refines_timers [OF simulates_init ticking_world ok] run obtain hs s' l' where
    "app_run ticking_env ticking_ops ([], al_init 3, el_init 3, 5, [])
      = Some ([True, True, True, False, True, True, True, False, True, True, True, False, True, True, True],
          hs, s', l', 2205, [7, 9, 8, 4])"
    "map ts_next_due_us (al_list s') = [3005]"
    by (auto simp: simulates_def periodic_slot_def simp del: tm_run.simps app_run.simps)
  then show ?thesis by (intro exI conjI)
qed

end
