(* ===== verification/Integrated_Example.thy ===== *)
theory Integrated_Example
  imports Event_Loop_Timers Tcp_Clients File_Pins
begin

text \<open>
  The integrated example, \<^verbatim>\<open>src/examples/IntegratedEventLoopExample/IntegratedEventLoopExample.ino\<close>: an
  application with all parts of the library, serial lines, a TCP server and client, UDP, and pins. The global
  variables are the record \<open>integrated\<close>, the devices are operations on the world, a parameter; what the
  callbacks registered in \<open>setup_tasks\<close> and the two line handlers do is translated here;
  the setup is in \<open>Example_Setups\<close>.
\<close>

section \<open>Devices and variables\<close>

record 'w in_pin =
  ip_valid :: "'w \<Rightarrow> bool"
  ip_read :: "'w \<Rightarrow> bool \<times> 'w"

record 'w out_pin =
  op_valid :: "'w \<Rightarrow> bool"
  op_write :: "bool \<Rightarrow> 'w \<Rightarrow> bool \<times> 'w"

text \<open>An \<open>int\<close> is a word of 32 bits.\<close>

record 'w analog_in_pin =
  ai_valid :: "'w \<Rightarrow> bool"
  ai_read :: "'w \<Rightarrow> u32 \<times> 'w"

record 'w analog_out_pin =
  ao_valid :: "'w \<Rightarrow> bool"
  ao_write :: "u32 \<Rightarrow> 'w \<Rightarrow> bool \<times> 'w"
  ao_max_value :: u32

text \<open>The devices; a pin pointer may be null.\<close>

record 'w devices =
  dv_serial_write :: "byte list \<Rightarrow> 'w \<Rightarrow> int \<times> 'w"
  dv_udp_write :: "byte list \<Rightarrow> 'w \<Rightarrow> int \<times> 'w"
  dv_tcp :: "'w tcp_ops"
  dv_serial_in :: "'w byte_stream"
  dv_digital_in :: "'w in_pin option"
  dv_digital_out :: "'w out_pin option"
  dv_analog_in :: "'w analog_in_pin option"
  dv_analog_out :: "'w analog_out_pin option"

record integrated =
  ig_client_connection :: "nat option"
  ig_client_tx_count :: u32
  ig_udp_tx_count :: u32
  ig_serial_tx_count :: u32
  ig_output_level :: bool
  ig_last_input_level :: bool
  ig_analog_value :: u32
  ig_analog_step :: u32
  ig_serial_lines :: line_reader

definition ig_init :: integrated where
  "ig_init = \<lparr>ig_client_connection = None, ig_client_tx_count = 0, ig_udp_tx_count = 0, ig_serial_tx_count = 0,
     ig_output_level = False, ig_last_input_level = False, ig_analog_value = 0, ig_analog_step = 32,
     ig_serial_lines = line_init 128\<rparr>"

section \<open>Writing text and numbers\<close>

definition text_len :: "byte list option \<Rightarrow> nat" where
  "text_len text_opt = (case text_opt of None \<Rightarrow> 0 | Some t \<Rightarrow> length (c_string t))"

definition serial_write_text :: "'w devices \<Rightarrow> byte list \<Rightarrow> 'w \<Rightarrow> 'w" where
  "serial_write_text dv t w = snd (dv_serial_write dv (take (text_len (Some t)) t) w)"

definition serial_write_line :: "'w devices \<Rightarrow> byte list \<Rightarrow> 'w \<Rightarrow> 'w" where
  "serial_write_line dv line w =
     serial_write_text dv [chr_lf] (if length line > 0 then snd (dv_serial_write dv line w) else w)"

text \<open>The digits of a number, the lowest first: \<^verbatim>\<open>do ... while (value > 0 && n < sizeof(digits))\<close>, with room for \<open>k\<close> more.\<close>

fun uint_digits :: "nat \<Rightarrow> u32 \<Rightarrow> byte list" where
  "uint_digits 0 v = []"
| "uint_digits (Suc k) v = ucast (48 + v mod 10) # (if v div 10 > 0 then uint_digits k (v div 10) else [])"

text \<open>\<^verbatim>\<open>while (n > 0) { const char c = digits[--n]; write(&c, 1); }\<close>\<close>

definition write_each :: "(byte list \<Rightarrow> 'w \<Rightarrow> int \<times> 'w) \<Rightarrow> byte list \<Rightarrow> 'w \<Rightarrow> 'w" where
  "write_each wr ds w = fold (\<lambda>d w. snd (wr [d] w)) (rev ds) w"

definition serial_write_uint32 :: "'w devices \<Rightarrow> u32 \<Rightarrow> 'w \<Rightarrow> 'w" where
  "serial_write_uint32 dv v w = write_each (dv_serial_write dv) (uint_digits 10 v) w"

definition serial_write_int :: "'w devices \<Rightarrow> u32 \<Rightarrow> 'w \<Rightarrow> 'w" where
  "serial_write_int dv v w =
     (if sint v < 0 then serial_write_uint32 dv (- v) (snd (dv_serial_write dv [chr_minus] w))
      else serial_write_uint32 dv v w)"

definition tcp_write_uint32 :: "'w devices \<Rightarrow> nat \<Rightarrow> u32 \<Rightarrow> 'w \<Rightarrow> 'w" where
  "tcp_write_uint32 dv c v w = write_each (tc_write (dv_tcp dv) c) (uint_digits 10 v) w"

section \<open>Pins\<close>

definition read_digital_input_pin :: "'w devices \<Rightarrow> 'w \<Rightarrow> bool \<times> 'w" where
  "read_digital_input_pin dv w =
     (case dv_digital_in dv of None \<Rightarrow> (False, w) | Some p \<Rightarrow> if \<not> ip_valid p w then (False, w) else ip_read p w)"

definition write_digital_output_pin :: "'w devices \<Rightarrow> bool \<Rightarrow> 'w \<Rightarrow> 'w" where
  "write_digital_output_pin dv high w =
     (case dv_digital_out dv of None \<Rightarrow> w | Some p \<Rightarrow> if op_valid p w then snd (op_write p high w) else w)"

definition read_analog_input_pin :: "'w devices \<Rightarrow> 'w \<Rightarrow> u32 \<times> 'w" where
  "read_analog_input_pin dv w =
     (case dv_analog_in dv of None \<Rightarrow> (0, w) | Some p \<Rightarrow> if \<not> ai_valid p w then (0, w) else ai_read p w)"

definition write_analog_output_pin :: "'w devices \<Rightarrow> u32 \<Rightarrow> 'w \<Rightarrow> 'w" where
  "write_analog_output_pin dv v w =
     (case dv_analog_out dv of None \<Rightarrow> w | Some p \<Rightarrow> if ao_valid p w then snd (ao_write p v w) else w)"

section \<open>The callbacks of \<open>setup_tasks\<close>\<close>

datatype ig_task =
  Serial_Lines | Serial_Tx | Client_Tx | Udp_Tx | Digital_In | Digital_Out | Analog_In | Analog_Out

definition serial_tx_task :: "'w devices \<Rightarrow> integrated \<times> 'w \<Rightarrow> integrated \<times> 'w" where
  "serial_tx_task dv gw =
     (case gw of (g, w) \<Rightarrow>
        (g\<lparr>ig_serial_tx_count := ig_serial_tx_count g + 1\<rparr>,
         serial_write_text dv [chr_lf]
           (serial_write_uint32 dv (ig_serial_tx_count g) (serial_write_text dv (bytes_of ''serial tx: '') w))))"

definition client_tx_task :: "'w devices \<Rightarrow> integrated \<times> 'w \<Rightarrow> integrated \<times> 'w" where
  "client_tx_task dv gw =
     (case gw of (g, w) \<Rightarrow>
        (case ig_client_connection g of
           None \<Rightarrow> (g, w)
         | Some c \<Rightarrow>
             if \<not> tc_valid (dv_tcp dv) c w then (g, w)
             else let w1 = snd (tcp_write_text (dv_tcp dv) c (Some (bytes_of ''client tx: '')) w);
                      w2 = tcp_write_uint32 dv c (ig_client_tx_count g) w1
                  in (g\<lparr>ig_client_tx_count := ig_client_tx_count g + 1\<rparr>, snd (tcp_write_newline (dv_tcp dv) c w2))))"

definition udp_tx_task :: "'w devices \<Rightarrow> integrated \<times> 'w \<Rightarrow> integrated \<times> 'w" where
  "udp_tx_task dv gw =
     (case gw of (g, w) \<Rightarrow>
        (g\<lparr>ig_udp_tx_count := ig_udp_tx_count g + 1\<rparr>,
         snd (dv_udp_write dv (bytes_of ''integrated udp broadcast'' @ [chr_lf]) w)))"

definition level_text :: "bool \<Rightarrow> byte list" where
  "level_text level = (if level then [chr_1, chr_lf] else [chr_0, chr_lf])"

definition digital_in_task :: "'w devices \<Rightarrow> integrated \<times> 'w \<Rightarrow> integrated \<times> 'w" where
  "digital_in_task dv gw =
     (case gw of (g, w) \<Rightarrow>
        case read_digital_input_pin dv w of (level, w1) \<Rightarrow>
          if level \<noteq> ig_last_input_level g
          then (g\<lparr>ig_last_input_level := level\<rparr>,
                serial_write_text dv (level_text level) (serial_write_text dv (bytes_of ''digital read: '') w1))
          else (g, w1))"

definition digital_out_task :: "'w devices \<Rightarrow> integrated \<times> 'w \<Rightarrow> integrated \<times> 'w" where
  "digital_out_task dv gw =
     (case gw of (g, w) \<Rightarrow>
        let level = (\<not> ig_output_level g)
        in (g\<lparr>ig_output_level := level\<rparr>,
            serial_write_text dv (level_text level)
              (serial_write_text dv (bytes_of ''digital write: '') (write_digital_output_pin dv level w))))"

definition analog_in_task :: "'w devices \<Rightarrow> integrated \<times> 'w \<Rightarrow> integrated \<times> 'w" where
  "analog_in_task dv gw =
     (case gw of (g, w) \<Rightarrow>
        let w1 = serial_write_text dv (bytes_of ''analog read: '') w
        in case read_analog_input_pin dv w1 of (v, w2) \<Rightarrow> (g, serial_write_text dv [chr_lf] (serial_write_int dv v w2)))"

text \<open>The value and step of the next write to the analog pin.\<close>

definition ramp_next :: "u32 \<Rightarrow> u32 \<times> u32 \<Rightarrow> u32 \<times> u32" where
  "ramp_next max_value vs =
     (case vs of (v, step) \<Rightarrow>
        let v1 = v + step
        in if sint v1 \<ge> sint max_value then (max_value, - step)
           else if sint v1 \<le> 0 then (0, - step)
           else (v1, step))"

definition analog_out_task :: "'w devices \<Rightarrow> integrated \<times> 'w \<Rightarrow> integrated \<times> 'w" where
  "analog_out_task dv gw =
     (case gw of (g, w) \<Rightarrow>
        let w1 = write_analog_output_pin dv (ig_analog_value g) w;
            w2 = serial_write_text dv [chr_lf]
              (serial_write_int dv (ig_analog_value g) (serial_write_text dv (bytes_of ''analog write: '') w1));
            max_value = (case dv_analog_out dv of None \<Rightarrow> 255 | Some p \<Rightarrow> ao_max_value p)
        in case ramp_next max_value (ig_analog_value g, ig_analog_step g) of (v, step) \<Rightarrow>
             (g\<lparr>ig_analog_value := v, ig_analog_step := step\<rparr>, w2))"

text \<open>The poll of \<open>serial_lines\<close>, whose callback prints the line; a poll of an endless input does not return.\<close>

definition serial_lines_callback :: "'w devices \<Rightarrow> byte list \<Rightarrow> 'w \<Rightarrow> 'w" where
  "serial_lines_callback dv line w = serial_write_line dv line (serial_write_text dv (bytes_of ''serial rx: '') w)"

definition serial_lines_task :: "'w devices \<Rightarrow> integrated \<times> 'w \<Rightarrow> (integrated \<times> 'w) option" where
  "serial_lines_task dv gw =
     (case gw of (g, w) \<Rightarrow>
        map_option (\<lambda>(r, w'). (g\<lparr>ig_serial_lines := r\<rparr>, w'))
          (line_poll (dv_serial_in dv) line_options_default (serial_lines_callback dv) (ig_serial_lines g, w)))"

fun ig_run :: "'w devices \<Rightarrow> ig_task \<Rightarrow> integrated \<times> 'w \<Rightarrow> (integrated \<times> 'w) option" where
  "ig_run dv Serial_Lines gw = serial_lines_task dv gw"
| "ig_run dv Serial_Tx gw = Some (serial_tx_task dv gw)"
| "ig_run dv Client_Tx gw = Some (client_tx_task dv gw)"
| "ig_run dv Udp_Tx gw = Some (udp_tx_task dv gw)"
| "ig_run dv Digital_In gw = Some (digital_in_task dv gw)"
| "ig_run dv Digital_Out gw = Some (digital_out_task dv gw)"
| "ig_run dv Analog_In gw = Some (analog_in_task dv gw)"
| "ig_run dv Analog_Out gw = Some (analog_out_task dv gw)"

text \<open>\<open>setup_tasks\<close>: the serial input is stream 0.\<close>

definition setup_tasks ::
  "(ig_task, 's, 'w) el_env \<Rightarrow> (ig_task, 's, 'w) el_state \<Rightarrow> (ig_task, 's, 'w) el_state" where
  "setup_tasks env st =
     (let st1 = snd (el_on_bytes_ready env 0 Serial_Lines default_readiness_poll_us st);
          st2 = snd (el_on_repeat env 1000 Serial_Tx st1);
          st3 = snd (el_on_repeat env 1000 Client_Tx st2);
          st4 = snd (el_on_repeat env 1000 Udp_Tx st3);
          st5 = snd (el_on_repeat env 500 Digital_In st4);
          st6 = snd (el_on_repeat env 1000 Digital_Out st5);
          st7 = snd (el_on_repeat env 1000 Analog_In st6)
      in snd (el_on_repeat env 1000 Analog_Out st7))"

section \<open>The line handlers\<close>

definition ig_server_on_accept :: "'w devices \<Rightarrow> nat \<Rightarrow> tcp_peer_info \<Rightarrow> integrated \<times> 'w \<Rightarrow> integrated \<times> 'w" where
  "ig_server_on_accept dv c peer gw =
     (case gw of (g, w) \<Rightarrow> (g, snd (tcp_write_line_text (dv_tcp dv) c (Some (bytes_of ''server: accepted'')) w)))"

definition ig_server_on_line :: "'w devices \<Rightarrow> nat \<Rightarrow> byte list \<Rightarrow> integrated \<times> 'w \<Rightarrow> integrated \<times> 'w" where
  "ig_server_on_line dv c line gw =
     (case gw of (g, w) \<Rightarrow>
        let w1 = serial_write_line dv line (serial_write_text dv (bytes_of ''tcp server rx: '') w);
            w2 = snd (tcp_write_text (dv_tcp dv) c (Some (bytes_of ''server rx: '')) w1)
        in (g, snd (tcp_write_line (dv_tcp dv) c line w2)))"

definition ig_server_handler :: "'w devices \<Rightarrow> (integrated \<times> 'w) line_handler" where
  "ig_server_handler dv =
     (line_handler_default (beside (dv_tcp dv)) (ig_server_on_line dv))
       \<lparr>lh_on_accept := ig_server_on_accept dv,
        lh_on_close := (\<lambda>c (g, w). (g, serial_write_text dv (bytes_of ''tcp server connection closed'' @ [chr_lf]) w)),
        lh_on_error := (\<lambda>c code (g, w). (g, serial_write_text dv (bytes_of ''tcp server connection error'' @ [chr_lf]) w)),
        lh_on_listener_error := (\<lambda>code (g, w). (g, serial_write_text dv (bytes_of ''tcp server listener error'' @ [chr_lf]) w))\<rparr>"

definition ig_client_on_connect :: "'w devices \<Rightarrow> nat \<Rightarrow> tcp_peer_info \<Rightarrow> integrated \<times> 'w \<Rightarrow> integrated \<times> 'w" where
  "ig_client_on_connect dv c peer gw =
     (case gw of (g, w) \<Rightarrow>
        (g\<lparr>ig_client_connection := Some c\<rparr>,
         serial_write_text dv (bytes_of ''tcp client connected'' @ [chr_lf])
           (snd (tcp_write_line_text (dv_tcp dv) c (Some (bytes_of ''client: connected'')) w))))"

definition ig_client_on_line :: "'w devices \<Rightarrow> nat \<Rightarrow> byte list \<Rightarrow> integrated \<times> 'w \<Rightarrow> integrated \<times> 'w" where
  "ig_client_on_line dv c line gw =
     (case gw of (g, w) \<Rightarrow> (g, serial_write_line dv line (serial_write_text dv (bytes_of ''tcp client rx: '') w)))"

definition ig_client_lost :: "'w devices \<Rightarrow> byte list \<Rightarrow> integrated \<times> 'w \<Rightarrow> integrated \<times> 'w" where
  "ig_client_lost dv t gw = (case gw of (g, w) \<Rightarrow> (g\<lparr>ig_client_connection := None\<rparr>, serial_write_text dv t w))"

definition ig_client_handler :: "'w devices \<Rightarrow> (integrated \<times> 'w) line_client_handler" where
  "ig_client_handler dv =
     \<lparr>ch_on_connect = ig_client_on_connect dv, ch_on_line = ig_client_on_line dv,
      ch_on_close = (\<lambda>c. ig_client_lost dv (bytes_of ''tcp client closed'' @ [chr_lf])),
      ch_on_error = (\<lambda>code. ig_client_lost dv (bytes_of ''tcp client error'' @ [chr_lf]))\<rparr>"

section \<open>Numbers as text\<close>

lemma digit_cast: "ucast (48 + v mod 10 :: u32) = (of_nat (48 + unat v mod 10) :: byte)"
proof -
  have "unat (48 + v mod 10) = 48 + unat v mod 10"
    by (subst unat_add_no_wrap) (simp_all add: unat_mod)
  then show ?thesis by (metis of_nat_unat)
qed

text \<open>The digits are those of the routine of the file pins, except that zero has one here.\<close>

lemma uint_digits_loop: "v > 0 \<Longrightarrow> uint_digits k v = digit_loop k (unat v)"
proof (induction k arbitrary: v)
  case (Suc k)
  have "unat (v div 10) = unat v div 10" by (simp add: unat_div)
  moreover have "v div 10 > 0 \<longleftrightarrow> unat v div 10 > 0" by (simp add: word_less_nat_alt unat_div)
  ultimately show ?case using Suc.IH [of "v div 10"] Suc.prems
    by (cases k) (auto simp: digit_cast word_less_nat_alt)
qed simp

lemma digit_loop_zero: "digit_loop k 0 = []"
  by (cases k) simp_all

lemma digit_loop_enough: "v < 10 ^ k \<Longrightarrow> k \<le> j \<Longrightarrow> digit_loop j v = digit_loop k v"
proof (induction k arbitrary: j v)
  case (Suc k)
  then obtain i where i: "j = Suc i" "k \<le> i" by (cases j) auto
  have "v div 10 < 10 ^ k" using Suc.prems(1) by (simp add: less_mult_imp_div_less mult.commute)
  from Suc.IH [OF this i(2)] show ?case unfolding i(1) by simp
qed (simp add: digit_loop_zero)

lemma uint_digits_zero: "uint_digits 10 0 = [chr_0]"
  using uint_digits.simps(2) [of 9 0] by simp

definition int_decimal :: "u32 \<Rightarrow> byte list" where
  "int_decimal v = (if sint v < 0 then [chr_minus] else []) @ rev (uint_digits 10 (if sint v < 0 then - v else v))"

lemma unat_sint: "0 \<le> sint v \<Longrightarrow> unat v = nat (sint v)" for v :: u32
proof -
  assume "0 \<le> sint v"
  moreover have "uint v = take_bit 32 (sint v)" by (simp add: uint_sint)
  ultimately have "uint v = sint v" using sint_u32_range [of v] by (simp add: take_bit_int_eq_self)
  then show ?thesis by (simp add: unat_eq_nat_uint)
qed

lemma int_decimal_text:
  assumes "sint v \<noteq> - (2 ^ 31)"
  shows "int_decimal v @ [chr_lf] = int_text v"
proof -
  let ?u = "if sint v < 0 then - v else v"
  have u: "sint ?u = \<bar>sint v\<bar>" using sint_neg_u32 [OF assms] by simp
  then have n: "unat ?u = nat (sint ?u)" by (intro unat_sint) simp
  show ?thesis
  proof (cases "v = 0")
    case False
    have "?u > 0" using False by (simp add: word_gt_0)
    then have "uint_digits 10 ?u = digit_loop 10 (nat (sint ?u))" using uint_digits_loop n by metis
    also have "\<dots> = digit_loop 16 (nat (sint ?u))"
      using u sint_u32_range [of v] by (intro digit_loop_enough [symmetric]) (simp_all add: nat_less_iff, linarith)
    finally show ?thesis using False by (simp add: int_decimal_def int_text_def Let_def)
  qed (simp add: int_decimal_def int_text_def uint_digits_zero)
qed

text \<open>A writer that takes everything: \<open>out\<close> is what it has been given.\<close>

definition appends :: "(byte list \<Rightarrow> 'w \<Rightarrow> int \<times> 'w) \<Rightarrow> ('w \<Rightarrow> byte list) \<Rightarrow> bool" where
  "appends wr out \<longleftrightarrow> (\<forall>bytes w. out (snd (wr bytes w)) = out w @ bytes)"

lemma write_each_appends: "appends wr out \<Longrightarrow> out (write_each wr ds w) = out w @ rev ds"
proof -
  assume a: "appends wr out"
  have "out (fold (\<lambda>d w. snd (wr [d] w)) es w) = out w @ es" for es w
    using a by (induction es arbitrary: w) (simp_all add: appends_def)
  then show ?thesis by (simp add: write_each_def)
qed

text \<open>
  The decimal numbers the example prints. What \<open>serial_write_int\<close> sends for any \<^verbatim>\<open>int\<close>, the smallest
  included, is read back by \<^verbatim>\<open>strtol\<close> as that number; it is the text the file pins write for it,
  without their newline, except for the smallest number, which only this routine gets right.
\<close>

theorem printed_numbers_read_back:
  assumes "appends (dv_serial_write dv) out"
  shows "\<exists>t. out (serial_write_int dv v w) = out w @ t \<and> length t \<le> 12 \<and> strtol (t @ chr_lf # rest) = sint v
    \<and> (if sint v = - (2 ^ 31) then strtol (int_text v) = 0 else t @ [chr_lf] = int_text v)"
proof -
  have "out (serial_write_int dv v w) = out w @ int_decimal v"
    using assms write_each_appends [OF assms]
    by (simp add: serial_write_int_def serial_write_uint32_def int_decimal_def appends_def)
  moreover have "length (int_decimal v) \<le> 12 \<and> strtol (int_decimal v @ chr_lf # rest) = sint v
    \<and> (if sint v = - (2 ^ 31) then strtol (int_text v) = 0 else int_decimal v @ [chr_lf] = int_text v)"
  proof (cases "sint v = - (2 ^ 31)")
    case True
    have "v = word_of_int (sint v)" by simp
    then have v: "v = 0x80000000" using True by simp
    have "unat v = 2147483648" "v > 0" unfolding v by simp_all
    then have u: "uint_digits 10 v = digit_loop 10 2147483648" using uint_digits_loop [of v 10] by simp
    have "- v = v" unfolding v by simp
    have d: "int_decimal v = chr_minus # rev (digit_loop 10 2147483648)"
      unfolding int_decimal_def \<open>- v = v\<close> using True u by simp
    have "digits_value 0 (rev (digit_loop 10 2147483648) @ chr_lf # rest) = 2147483648"
      using digits_value_loop [of 2147483648 10 0 "chr_lf # rest"] by simp
    then have s: "strtol (int_decimal v @ chr_lf # rest) = - 2147483648"
      using minus_not_space by (simp add: d strtol_def Let_def)
    have "length (digit_loop 10 2147483648) \<le> 10" by (intro length_digit_loop) simp
    moreover have "int_text v = [chr_minus, chr_lf]"
      unfolding int_text_def \<open>- v = v\<close> using True \<open>v > 0\<close> by (auto simp: digit_loop_zero)
    then have "strtol (int_text v) = 0" using minus_not_space by (simp add: strtol_def)
    ultimately show ?thesis using True s by (simp add: d)
  next
    case False
    note eq = int_decimal_text [OF False]
    have "length (int_decimal v @ [chr_lf]) \<le> 13" unfolding eq by (rule length_int_text)
    moreover have "strtol ((int_decimal v @ [chr_lf]) @ rest) = sint v" unfolding eq by (rule strtol_int_text [OF False])
    moreover have "length (int_decimal v @ [chr_lf]) = length (int_decimal v) + 1"
      "(int_decimal v @ [chr_lf]) @ rest = int_decimal v @ chr_lf # rest" by simp_all
    ultimately show ?thesis using False eq by (simp only:) simp
  qed
  ultimately show ?thesis by blast
qed

section \<open>The ramp on the analog output\<close>

text \<open>Half a period in steps, and the triangle wave: up in steps of 32 to the maximum, and down again.\<close>

definition ramp_half :: "nat \<Rightarrow> nat" where
  "ramp_half m = (m + 31) div 32"

definition ramp_value :: "nat \<Rightarrow> nat \<Rightarrow> nat" where
  "ramp_value m n =
     (let j = n mod (2 * ramp_half m) in if j \<le> ramp_half m then min (32 * j) m else m - 32 * (j - ramp_half m))"

definition ramp_state :: "nat \<Rightarrow> nat \<Rightarrow> u32 \<times> u32" where
  "ramp_state m n = (of_nat (ramp_value m n), if n mod (2 * ramp_half m) < ramp_half m then 32 else - 32)"

lemma sint_of_int_u32: "- (2 ^ 31) \<le> x \<Longrightarrow> x < 2 ^ 31 \<Longrightarrow> sint (of_int x :: u32) = x"
  by (simp add: sint_sbintrunc' signed_take_bit_int_eq_self)

lemma ramp_value_le: "ramp_value m n \<le> m"
  by (simp add: ramp_value_def Let_def)

lemma ramp_next_up:
  assumes "v < m" "m + 32 < 2 ^ 31"
  shows "ramp_next (of_nat m) (of_nat v, 32) = (if m \<le> v + 32 then (of_nat m, - 32) else (of_nat (v + 32), 32))"
proof -
  have "sint (of_nat v + 32 :: u32) = int v + 32" using sint_of_int_u32 [of "int v + 32"] assms by simp
  moreover have "sint (of_nat m :: u32) = int m" using sint_of_int_u32 [of "int m"] assms by simp
  ultimately show ?thesis by (simp add: ramp_next_def Let_def)
qed

lemma ramp_next_down:
  assumes "v \<le> m" "0 < m" "m + 32 < 2 ^ 31"
  shows "ramp_next (of_nat m) (of_nat v, - 32) = (if v \<le> 32 then (0, 32) else (of_nat (v - 32), - 32))"
proof -
  have "sint (of_nat v + (- 32) :: u32) = int v - 32" using sint_of_int_u32 [of "int v - 32"] assms by simp
  moreover have "sint (of_nat m :: u32) = int m" using sint_of_int_u32 [of "int m"] assms by simp
  ultimately show ?thesis using assms(1) by (simp add: ramp_next_def Let_def of_nat_diff)
qed

lemma ramp_next_state:
  assumes "0 < m" "m + 32 < 2 ^ 31"
  shows "ramp_next (of_nat m) (ramp_state m n) = ramp_state m (Suc n)"
proof -
  define h where "h = ramp_half m"
  define j where "j = n mod (2 * h)"
  have h: "0 < h" "m \<le> 32 * h" "32 * (h - 1) < m" using assms(1) by (auto simp: h_def ramp_half_def)
  then have j: "j < 2 * h" by (simp add: j_def)
  have s: "Suc n mod (2 * h) = (if Suc j = 2 * h then 0 else Suc j)" by (simp add: j_def mod_Suc)
  have v: "ramp_value m n = (if j \<le> h then min (32 * j) m else m - 32 * (j - h))"
    "ramp_value m (Suc n) = (if Suc j = 2 * h then 0 else if Suc j \<le> h then min (32 * Suc j) m else m - 32 * (Suc j - h))"
    by (simp_all add: ramp_value_def Let_def s flip: h_def j_def)
  show ?thesis
  proof (cases "j < h")
    case True
    then have "32 * j < m" using h by linarith
    moreover have e: "m \<le> 32 * j + 32 \<longleftrightarrow> Suc j = h" using True h by linarith
    moreover have "Suc j \<noteq> 2 * h" using True by simp
    moreover have "ramp_value m (Suc n) = (if Suc j = h then m else 32 * j + 32)"
      using True h v(2) e by (auto simp: min_def)
    ultimately show ?thesis using ramp_next_up [of "32 * j" m] assms(2) True v(1)
      by (auto simp: ramp_state_def s simp flip: h_def j_def)
  next
    case False
    let ?v = "m - 32 * (j - h)"
    have v1: "ramp_value m n = ?v"
    proof (cases "j = h")
      case True
      with v(1) h(2) show ?thesis by (simp add: min_absorb2)
    qed (use False v(1) in simp)
    have v2: "ramp_value m (Suc n) = (if Suc j = 2 * h then 0 else ?v - 32)"
      using False v(2) by (simp add: Suc_diff_le add.commute)
    have e: "?v \<le> 32 \<longleftrightarrow> Suc j = 2 * h" using False j h by linarith
    have "?v \<le> m" by simp
    from ramp_next_down [OF this assms] e False j v1 v2 h(1) show ?thesis
      by (cases "Suc j = 2 * h") (simp_all add: ramp_state_def s flip: h_def j_def)
  qed
qed

section \<open>The example on the event loop\<close>

text \<open>
  The event loop of the example on the cooperative scheduler, for devices \<open>dv\<close>, a clock and what the polls
  of the TCP server and client do to the variables and the world.
\<close>

definition ig_env ::
  "'w devices \<Rightarrow> ('w \<Rightarrow> u64) \<Rightarrow> (nat \<Rightarrow> u64 \<Rightarrow> integrated \<times> 'w \<Rightarrow> integrated \<times> 'w)
     \<Rightarrow> (ig_task, arduino_loop, integrated \<times> 'w) el_env" where
  "ig_env dv clock ext =
     \<lparr>en_ops = al_ops, en_micros = (\<lambda>(g, w). clock w), en_readable = (\<lambda>q (g, w). bs_readable (dv_serial_in dv) w),
      en_stream_fd = (\<lambda>q gw. - 1), en_source_fd = (\<lambda>q gw. - 1), en_read_event = (\<lambda>q gw. Some (None, gw)),
      en_run = (\<lambda>p (s, l, gw). map_option (\<lambda>gw1. (s, l, gw1)) (ig_run dv p gw)), en_run_pin = (\<lambda>p ev st. Some st),
      en_external = (\<lambda>t now (s, l, gw). Some (s, l, ext t now gw))\<rparr>"

definition ig_act :: "'w devices \<Rightarrow> ig_task \<Rightarrow> integrated \<times> 'w \<Rightarrow> integrated \<times> 'w" where
  "ig_act dv p gw = the (ig_run dv p gw)"

lemma ig_run_act:
  assumes "\<forall>gw. serial_lines_task dv gw \<noteq> None"
  shows "ig_run dv p gw = Some (ig_act dv p gw)"
  using assms [rule_format, of gw] by (cases p) (auto simp: ig_act_def)

definition ig_effects ::
  "'w devices \<Rightarrow> (nat \<Rightarrow> u64 \<Rightarrow> integrated \<times> 'w \<Rightarrow> integrated \<times> 'w) \<Rightarrow> (ig_task, integrated \<times> 'w) effects" where
  "ig_effects dv ext = \<lparr>ef_run = ig_act dv, ef_drain = (\<lambda>q p gw. gw), ef_extern = ext\<rparr>"

lemma ig_world_only: "\<forall>gw. serial_lines_task dv gw \<noteq> None \<Longrightarrow> world_only (ig_env dv clock ext) (ig_effects dv ext)"
  unfolding world_only_def ig_env_def ig_effects_def
  by (simp add: ig_run_act el_drain_pins.simps del: split_paired_All not_None_eq)

text \<open>What \<open>setup_tasks\<close> registers, as calls and as timed callbacks.\<close>

definition setup_ops :: "(ig_task, 'w) app_op list" where
  "setup_ops = On_Bytes 0 Serial_Lines 1000 # map (\<lambda>(ms, p). Repeat (ms * 1000) p)
     [(1000, Serial_Tx), (1000, Client_Tx), (1000, Udp_Tx), (500, Digital_In), (1000, Digital_Out),
      (1000, Analog_In), (1000, Analog_Out)]"

definition ig_timer :: "u64 \<Rightarrow> nat \<Rightarrow> ig_task timed_call \<Rightarrow> u64 \<Rightarrow> ig_task timed" where
  "ig_timer now i f ms = \<lparr>tm_id = Some i, tm_task = i, tm_call = f, tm_enabled = True, tm_period = ms * 1000, tm_due = now\<rparr>"

definition ig_timers :: "u64 \<Rightarrow> ig_task timed list" where
  "ig_timers now =
     [ig_timer now 0 (Run_Ready 0 Serial_Lines) 1, ig_timer now 1 (Run Serial_Tx) 1000,
      ig_timer now 2 (Run Client_Tx) 1000, ig_timer now 3 (Run Udp_Tx) 1000, ig_timer now 4 (Run Digital_In) 500,
      ig_timer now 5 (Run Digital_Out) 1000, ig_timer now 6 (Run Analog_In) 1000, ig_timer now 7 (Run Analog_Out) 1000]"

lemma setup_run: "\<exists>oks hs. app_run env setup_ops ([], st) = Some (oks, hs, setup_tasks env st)"
  by (simp add: setup_ops_def setup_tasks_def Let_def el_on_repeat_def default_readiness_poll_us_def app_register_def
      split: prod.split)

lemma setup_timers:
  "\<exists>oks. tm_run (ig_env dv clock ext) ef 48 setup_ops ((0, []), g, w) = (oks, (8, ig_timers (clock w)), g, w)"
  by (simp add: setup_ops_def ig_timers_def ig_timer_def tm_add_def tm_free_def poll_period_def upt_rec ig_env_def)

lemma setup_ops_ok: "ops_ok (ig_env dv clock ext) ef 48 setup_ops ((0, []), g, w)"
  by (simp add: setup_ops_def tm_add_def tm_free_def poll_period_def upt_rec)

section \<open>What reaches the analog pin\<close>

text \<open>\<open>log\<close> is what has been written to the pin; no other device touches it.\<close>

definition analog_log :: "'w devices \<Rightarrow> nat \<Rightarrow> ('w \<Rightarrow> u32 list) \<Rightarrow> bool" where
  "analog_log dv m log \<longleftrightarrow>
     (\<exists>p. dv_analog_out dv = Some p \<and> ao_max_value p = of_nat m \<and> (\<forall>w. ao_valid p w)
        \<and> (\<forall>v w. log (snd (ao_write p v w)) = log w @ [v]))
     \<and> (\<forall>bytes w. log (snd (dv_serial_write dv bytes w)) = log w)
     \<and> (\<forall>bytes w. log (snd (dv_udp_write dv bytes w)) = log w)
     \<and> (\<forall>c bytes w. log (snd (tc_write (dv_tcp dv) c bytes w)) = log w)
     \<and> (\<forall>n w. log (snd (snd (bs_read (dv_serial_in dv) n w))) = log w)
     \<and> (\<forall>p w. dv_digital_in dv = Some p \<longrightarrow> log (snd (ip_read p w)) = log w)
     \<and> (\<forall>p b w. dv_digital_out dv = Some p \<longrightarrow> log (snd (op_write p b w)) = log w)
     \<and> (\<forall>p w. dv_analog_in dv = Some p \<longrightarrow> log (snd (ai_read p w)) = log w)"

text \<open>What the ramp depends on: the two variables and the log.\<close>

definition ramp_view :: "('w \<Rightarrow> u32 list) \<Rightarrow> integrated \<times> 'w \<Rightarrow> (u32 \<times> u32) \<times> u32 list" where
  "ramp_view log gw = (case gw of (g, w) \<Rightarrow> ((ig_analog_value g, ig_analog_step g), log w))"

definition ramp_written :: "nat \<Rightarrow> nat \<Rightarrow> u32 list" where
  "ramp_written m k = map (\<lambda>i. of_nat (ramp_value m i)) [0..<k]"

definition ramp_after :: "nat \<Rightarrow> nat \<Rightarrow> (u32 \<times> u32) \<times> u32 list" where
  "ramp_after m k = (ramp_state m k, ramp_written m k)"

lemma log_text:
  assumes "analog_log dv m log"
  shows "log (serial_write_text dv t w) = log w" "log (serial_write_line dv line w) = log w"
    and "log (serial_write_uint32 dv v w) = log w" "log (serial_write_int dv v w) = log w"
    and "log (tcp_write_uint32 dv c v w) = log w"
proof -
  have a: "\<And>bytes w. log (snd (dv_serial_write dv bytes w)) = log w"
    "\<And>c bytes w. log (snd (tc_write (dv_tcp dv) c bytes w)) = log w"
    using assms by (simp_all add: analog_log_def)
  have f: "log (write_each wr ds w) = log w" if "\<And>bytes w. log (snd (wr bytes w)) = log w" for wr ds w
  proof -
    have "log (fold (\<lambda>d w. snd (wr [d] w)) es w) = log w" for es
      by (induction es arbitrary: w) (simp_all add: that)
    then show ?thesis by (simp add: write_each_def)
  qed
  show t: "log (serial_write_text dv t w) = log w" for t w by (simp add: serial_write_text_def a)
  show "log (serial_write_line dv line w) = log w" by (simp add: serial_write_line_def a t)
  show u: "log (serial_write_uint32 dv v w) = log w" for v w unfolding serial_write_uint32_def by (rule f) (rule a)
  show "log (serial_write_int dv v w) = log w" by (simp add: serial_write_int_def a u)
  show "log (tcp_write_uint32 dv c v w) = log w" unfolding tcp_write_uint32_def by (rule f) (rule a)
qed

lemma serial_lines_view:
  assumes "analog_log dv m log" "serial_lines_task dv (g, w) = Some gw"
  shows "ramp_view log gw = ramp_view log (g, w)"
proof -
  from assms(2) obtain r w1 where p: "poll_loop (dv_serial_in dv)
      (reader_step (line_byte line_options_default) (serial_lines_callback dv)) (ig_serial_lines g, w) = Some (r, w1)"
    and gw: "gw = (g\<lparr>ig_serial_lines := r\<rparr>, w1)"
    by (auto simp: serial_lines_task_def line_poll_def)
  have d: "log (deliver (serial_lines_callback dv) vs x) = log x" for vs x
    by (induction vs arbitrary: x) (simp_all add: serial_lines_callback_def log_text [OF assms(1)])
  have "log (snd (r, w1)) = log w"
  proof (rule poll_loop_keeps [where P = "\<lambda>rw. log (snd rw) = log w", OF p])
    fix q x k bytes x1
    assume "log (snd (q :: line_reader, x)) = log w" "bs_read (dv_serial_in dv) 1 x = (k, bytes, x1)"
    moreover have "log (snd (snd (bs_read (dv_serial_in dv) 1 x))) = log x" using assms(1) by (simp add: analog_log_def)
    ultimately show "log (snd (q, x1)) = log w" by simp
  next
    fix b q x
    assume "log (snd (q :: line_reader, x)) = log w"
    then show "log (snd (reader_step (line_byte line_options_default) (serial_lines_callback dv) b (q, x))) = log w"
      by (auto simp: reader_step_def d split: prod.splits)
  qed simp
  then show ?thesis by (simp add: gw ramp_view_def)
qed

text \<open>Only the analog task moves the ramp, by one step.\<close>

lemma ig_act_view:
  assumes log: "analog_log dv m log" and m: "0 < m" "m + 32 < 2 ^ 31" and ret: "\<forall>gw. serial_lines_task dv gw \<noteq> None"
    and view: "ramp_view log gw = ramp_after m k"
  shows "ramp_view log (ig_act dv p gw) = ramp_after m (if p = Analog_Out then Suc k else k)"
proof -
  obtain g w where gw: "gw = (g, w)" by fastforce
  note lg = log_text [OF log]
  have a: "\<And>bytes w. log (snd (dv_serial_write dv bytes w)) = log w" "\<And>bytes w. log (snd (dv_udp_write dv bytes w)) = log w"
    "\<And>c bytes w. log (snd (tc_write (dv_tcp dv) c bytes w)) = log w"
    using log by (simp_all add: analog_log_def)
  have keep: "ramp_view log gw' = ramp_view log gw \<Longrightarrow> ramp_view log gw' = ramp_after m k" for gw' using view by simp
  show ?thesis
  proof (cases p)
    case Serial_Lines
    obtain gw' where "serial_lines_task dv (g, w) = Some gw'" using ret [rule_format, of "(g, w)"] by auto
    with serial_lines_view [OF log this] Serial_Lines keep show ?thesis by (simp add: ig_act_def gw)
  next
    case Client_Tx
    then show ?thesis using keep [of "client_tx_task dv gw"]
      by (auto simp: ig_act_def gw client_tx_task_def ramp_view_def tcp_write_text_def tcp_write_newline_def Let_def a lg split: option.splits)
  next
    case Digital_In
    have "log (snd (read_digital_input_pin dv w)) = log w"
      using log by (auto simp: read_digital_input_pin_def analog_log_def split: option.split)
    with Digital_In keep [of "digital_in_task dv gw"] show ?thesis
      by (auto simp: ig_act_def gw digital_in_task_def ramp_view_def lg split: prod.splits)
  next
    case Digital_Out
    have "log (write_digital_output_pin dv b w) = log w" for b
      using log by (auto simp: write_digital_output_pin_def analog_log_def split: option.split)
    with Digital_Out keep [of "digital_out_task dv gw"] show ?thesis
      by (simp add: ig_act_def gw digital_out_task_def ramp_view_def lg Let_def)
  next
    case Analog_In
    have "log (snd (read_analog_input_pin dv x)) = log x" for x
      using log by (auto simp: read_analog_input_pin_def analog_log_def split: option.split)
    then have "log (snd (read_analog_input_pin dv (serial_write_text dv t w))) = log w" for t by (simp add: lg)
    with Analog_In keep [of "analog_in_task dv gw"] show ?thesis
      by (auto simp: ig_act_def gw analog_in_task_def ramp_view_def lg Let_def split: prod.splits) (metis snd_conv)
  next
    case Analog_Out
    from log obtain pin where pin: "dv_analog_out dv = Some pin" "ao_max_value pin = of_nat m" "\<And>w. ao_valid pin w"
      "\<And>v w. log (snd (ao_write pin v w)) = log w @ [v]" by (auto simp: analog_log_def)
    from view have v: "(ig_analog_value g, ig_analog_step g) = ramp_state m k" "log w = ramp_written m k"
      by (simp_all add: gw ramp_view_def ramp_after_def)
    then have val: "ig_analog_value g = of_nat (ramp_value m k)" by (simp add: ramp_state_def)
    note nx = ramp_next_state [OF m, of k, folded v(1)]
    obtain v1 s1 where st: "ramp_state m (Suc k) = (v1, s1)" by fastforce
    have "ramp_written m (Suc k) = ramp_written m k @ [of_nat (ramp_value m k)]" by (simp add: ramp_written_def)
    with Analog_Out pin nx st v(2) val show ?thesis
      by (simp add: ig_act_def gw analog_out_task_def write_analog_output_pin_def ramp_view_def ramp_after_def lg Let_def)
  qed (use view in \<open>simp_all add: ig_act_def gw serial_tx_task_def udp_tx_task_def ramp_view_def a lg\<close>)
qed

text \<open>No callback for bytes runs the analog task; what others and the outside do leaves the ramp alone.\<close>

definition ramp_ops :: "('w \<Rightarrow> u32 list) \<Rightarrow> (ig_task, integrated \<times> 'w) app_op list \<Rightarrow> bool" where
  "ramp_ops log ops \<longleftrightarrow>
     (\<forall>f. Outside f \<in> set ops \<longrightarrow> (\<forall>gw. ramp_view log (f gw) = ramp_view log gw))
     \<and> (\<forall>q poll_us. On_Bytes q Analog_Out poll_us \<notin> set ops)"

lemma program_view:
  assumes "analog_log dv m log" "0 < m" "m + 32 < 2 ^ 31" "\<forall>gw. serial_lines_task dv gw \<noteq> None"
    "\<And>t now gw. ramp_view log (ext t now gw) = ramp_view log gw"
    "ramp_ops log ops" "ramp_view log gw = ramp_after m k" "no_ready Analog_Out cs"
    "tm_run env (ig_effects dv ext) n ops ((i, cs), gw) = (oks, mcs', gw')"
  shows "ramp_view log gw' = ramp_after m (k + task_runs env (ig_effects dv ext) n Analog_Out ops ((i, cs), gw))"
proof (rule tm_run_counts [where P = "\<lambda>k gw. ramp_view log gw = ramp_after m k" and ef = "ig_effects dv ext" and p = Analog_Out])
  show "tm_run env (ig_effects dv ext) n ops ((i, cs), gw) = (oks, mcs', gw')" by (rule assms(9))
qed (use assms(5-8) ig_act_view [OF assms(1-4)] in \<open>auto simp: ig_effects_def ramp_ops_def simp del: split_paired_All\<close>)

text \<open>
  C27: what the integrated example writes to its analog output. After \<open>setup_tasks\<close>, under any sequence of
  iterations of the event loop, polls of other tasks, further registrations, removals and outside events that
  leave the pin alone, the values written are, in order, those of the triangle wave that rises from 0 in steps of
  32 to the maximum of the pin and falls to 0 again, one for each time the callback was due; the values stay
  within the range of the pin, and nothing in the program hangs.
\<close>

theorem integrated_analog_output:
  assumes "analog_log dv m log" "0 < m" "m + 32 < 2 ^ 31" "\<forall>gw. serial_lines_task dv gw \<noteq> None"
    "\<And>t now gw. ramp_view log (ext t now gw) = ramp_view log gw" "ramp_ops log ops" "log w = []"
    "ops_ok (ig_env dv clock ext) (ig_effects dv ext) 48 ops ((8, ig_timers (clock w)), ig_init, w)"
  shows "\<exists>oks hs. app_run (ig_env dv clock ext) setup_ops ([], al_init 48, el_init 48, ig_init, w)
      = Some (oks, hs, setup_tasks (ig_env dv clock ext) (al_init 48, el_init 48, ig_init, w))
    \<and> (\<exists>oks' hs' s' l' g' w'.
        app_run (ig_env dv clock ext) ops (hs, setup_tasks (ig_env dv clock ext) (al_init 48, el_init 48, ig_init, w))
          = Some (oks', hs', s', l', g', w')
        \<and> log w' = map (\<lambda>i. of_nat (ramp_value m i))
            [0..<task_runs (ig_env dv clock ext) (ig_effects dv ext) 48 Analog_Out ops ((8, ig_timers (clock w)), ig_init, w)])"
proof -
  let ?env = "ig_env dv clock ext" and ?ef = "ig_effects dv ext" and ?w0 = "((8, ig_timers (clock w)), ig_init, w)"
  let ?st = "setup_tasks ?env (al_init 48, el_init 48, ig_init, w)"
  note wo = ig_world_only [OF assms(4), where clock = clock and ext = ext]
  obtain oks hs where su: "app_run ?env setup_ops ([], al_init 48, el_init 48, ig_init, w) = Some (oks, hs, ?st)"
    using setup_run by blast
  have ok: "ops_ok ?env ?ef 48 setup_ops ((0, []), ig_init, w)" by (rule setup_ops_ok)
  obtain oks0 where "tm_run ?env ?ef 48 setup_ops ((0, []), ig_init, w) = (oks0, (8, ig_timers (clock w)), ig_init, w)"
    using setup_timers [of dv clock ext ?ef ig_init w] by blast
  with app_run_refines [OF simulates_init wo ok] obtain hs' s l where
    "app_run ?env setup_ops ([], al_init 48, el_init 48, ig_init, w) = Some (oks0, hs', s, l, ig_init, w)"
    "simulates 48 (8, ig_timers (clock w)) hs' s l" by auto
  with su have st: "?st = (s, l, ig_init, w)" and sim: "simulates 48 (8, ig_timers (clock w)) hs s l" by simp_all
  from app_run_refines [OF sim wo assms(8)] obtain oks' mcs' g' w' hs' s' l' where
    t: "tm_run ?env ?ef 48 ops ?w0 = (oks', mcs', g', w')" and
    run: "app_run ?env ops (hs, ?st) = Some (oks', hs', s', l', g', w')"
    unfolding st by auto
  have "ramp_view log (ig_init, w) = ramp_after m 0"
    using assms(2,7) by (simp add: ramp_view_def ramp_after_def ig_init_def ramp_state_def ramp_written_def ramp_value_def ramp_half_def Let_def)
  moreover have "no_ready Analog_Out (ig_timers (clock w))" by (simp add: no_ready_def ig_timers_def ig_timer_def)
  ultimately have "ramp_view log (g', w') = ramp_after m (0 + task_runs ?env ?ef 48 Analog_Out ops ?w0)"
    using t by (rule program_view [OF assms(1-6)])
  then have "log w' = map (\<lambda>i. of_nat (ramp_value m i)) [0..<task_runs ?env ?ef 48 Analog_Out ops ?w0]"
    by (simp add: ramp_view_def ramp_after_def ramp_written_def)
  with su run show ?thesis by blast
qed

text \<open>A board with an analog output of range 0 to 100 and nothing else: the clock and the values written.\<close>

definition board_tcp :: "'w tcp_ops" where
  "board_tcp = \<lparr>tc_valid = (\<lambda>c w. False), tc_close = (\<lambda>c w. w), tc_input_size = (\<lambda>c w. 0), tc_output_size = (\<lambda>c w. 0),
     tc_read = (\<lambda>c n w. (0, [], w)), tc_write = (\<lambda>c bytes w. (0, w))\<rparr>"

definition board :: "(u64 \<times> u32 list) devices" where
  "board = \<lparr>dv_serial_write = (\<lambda>bytes w. (int (length bytes), w)), dv_udp_write = (\<lambda>bytes w. (0, w)), dv_tcp = board_tcp,
     dv_serial_in = \<lparr>bs_readable = (\<lambda>w. False), bs_read = (\<lambda>n w. (0, [], w))\<rparr>,
     dv_digital_in = None, dv_digital_out = None, dv_analog_in = None,
     dv_analog_out = Some \<lparr>ao_valid = (\<lambda>w. True), ao_write = (\<lambda>v (t, log). (True, t, log @ [v])), ao_max_value = 100\<rparr>\<rparr>"

lemma board_serial: "serial_lines_task board gw \<noteq> None"
  by (simp add: serial_lines_task_def board_def line_poll_def poll_loop.simps split: prod.split)

lemma board_log: "analog_log board 100 snd"
  by (simp add: analog_log_def board_def board_tcp_def split: prod.split)

abbreviation board_ops :: "(ig_task, integrated \<times> u64 \<times> u32 list) app_op list" where
  "board_ops \<equiv> [Iterate, External_Repeat 48 5000, Outside (\<lambda>(g, t, log). (g, t + 1000000, log)), Iterate,
     Outside (\<lambda>(g, t, log). (g, t + 300000, log)), Iterate]"

lemma board_sel [simp]:
  "dv_serial_write board bytes w = (int (length bytes), w)" "dv_udp_write board bytes w = (0, w)" "dv_tcp board = board_tcp"
  "dv_serial_in board = \<lparr>bs_readable = (\<lambda>w. False), bs_read = (\<lambda>n w. (0, [], w))\<rparr>"
  "dv_digital_in board = None" "dv_digital_out board = None" "dv_analog_in board = None"
  "dv_analog_out board = Some \<lparr>ao_valid = (\<lambda>w. True), ao_write = (\<lambda>v (t, log). (True, t, log @ [v])), ao_max_value = 100\<rparr>"
  by (simp_all add: board_def)

lemma board_text [simp]:
  "serial_write_text board t w = w" "serial_write_line board line w = w" "serial_write_uint32 board v w = w"
  "serial_write_int board v w = w"
proof -
  have "fold (\<lambda>d w. w) es w = w" for es :: "byte list" and w :: "u64 \<times> u32 list" by (induction es) simp_all
  then have e: "write_each (dv_serial_write board) ds w = w" for ds w by (simp add: write_each_def)
  show t: "serial_write_text board t w = w" for t w by (simp add: serial_write_text_def)
  show "serial_write_line board line w = w" by (simp add: serial_write_line_def t)
  show u: "serial_write_uint32 board v w = w" for v w by (simp add: serial_write_uint32_def e)
  show "serial_write_int board v w = w" by (simp add: serial_write_int_def u)
qed

text \<open>The callbacks do not change the clock.\<close>

lemma board_clock: "fst (snd (ig_act board p gtl)) = fst (snd gtl)"
proof -
  obtain g t log where gtl: "gtl = (g, t, log)" by (metis prod_cases3)
  show ?thesis
  proof (cases p)
    case Serial_Lines
    then show ?thesis
      by (simp add: ig_act_def gtl serial_lines_task_def line_poll_def poll_loop.simps)
  next
    case Client_Tx
    then show ?thesis
      by (simp add: ig_act_def gtl client_tx_task_def board_tcp_def split: option.split)
  next
    case Analog_Out
    then show ?thesis
      by (simp add: ig_act_def gtl analog_out_task_def Let_def write_analog_output_pin_def split: prod.split)
  qed (simp_all add: ig_act_def gtl serial_tx_task_def udp_tx_task_def digital_in_task_def digital_out_task_def
      analog_in_task_def read_digital_input_pin_def write_digital_output_pin_def read_analog_input_pin_def Let_def)
qed

abbreviation board_env :: "(ig_task, arduino_loop, integrated \<times> u64 \<times> u32 list) el_env" where
  "board_env \<equiv> ig_env board fst (\<lambda>t now gw. gw)"

abbreviation board_effects :: "(ig_task, integrated \<times> u64 \<times> u32 list) effects" where
  "board_effects \<equiv> ig_effects board (\<lambda>t now gw. gw)"

lemma board_iterate:
  "\<exists>g' log'. tm_step board_env board_effects n Iterate ((k, cs), g, t, log) = (True, (k, tm_advance t cs), g', t, log')"
proof -
  have e: "fst (snd (tm_effect board_env board_effects now c gtl)) = fst (snd gtl)" for now c gtl
    by (simp add: tm_effect_def ig_effects_def board_clock split: timed_call.split)
  have "fst (snd (fold (tm_effect board_env board_effects now) ds gtl)) = fst (snd gtl)" for now ds gtl
    by (induction ds arbitrary: gtl) (simp_all add: e)
  then have "fst (snd (fold (tm_effect board_env board_effects t) (filter (tm_ready t) cs) (g, t, log))) = t"
    by simp
  moreover have "en_micros board_env (g, t, log) = t" by (simp add: ig_env_def)
  ultimately show ?thesis by (simp add: Let_def) (metis prod.collapse)
qed

lemma board_runs:
  "task_runs board_env board_effects 48 Analog_Out board_ops ((8, ig_timers 0), ig_init, 0, []) = 2"
  "ops_ok board_env board_effects 48 board_ops ((8, ig_timers 0), ig_init, 0, [])"
proof -
  note env = ig_env_def tm_ready_def tm_next_def tm_advance_def ig_timers_def ig_timer_def runs_call_def
  note it = board_iterate [where n = 48 and k = 8]
  from it [of "ig_timers 0" ig_init 0 "[]"] obtain g1 log1 where
    1: "tm_step board_env board_effects 48 Iterate ((8, ig_timers 0), ig_init, 0, [])
      = (True, (8, tm_advance 0 (ig_timers 0)), g1, 0, log1)" by blast
  let ?cs = "tm_advance 0 (ig_timers 0) @ [\<lparr>tm_id = None, tm_task = 48, tm_call = Extern, tm_enabled = True, tm_period = 5000, tm_due = 0\<rparr>]"
  from it [of ?cs g1 1000000 log1] obtain g2 log2 where
    2: "tm_step board_env board_effects 48 Iterate ((8, ?cs), g1, 1000000, log1)
      = (True, (8, tm_advance 1000000 ?cs), g2, 1000000, log2)" by blast
  have m: "en_micros board_env (g, t, log) = t" for g t log by (simp add: ig_env_def)
  have len: "length (tm_advance 0 (ig_timers 0)) = 8" by (simp add: env)
  have 3: "tm_step board_env board_effects 48 (External_Repeat 48 5000) ((8, tm_advance 0 (ig_timers 0)), g1, 0, log1)
    = (True, (8, ?cs), g1, 0, log1)" by (simp add: m len)
  have r: "length (filter (runs_call Analog_Out) (filter (tm_ready 0) (ig_timers 0))) = 1"
    "length (filter (runs_call Analog_Out) (filter (tm_ready 1000000) ?cs)) = 1"
    "length (filter (runs_call Analog_Out) (filter (tm_ready (1000000 + 300000)) (tm_advance 1000000 ?cs))) = 0"
    by (simp_all add: env)
  show "task_runs board_env board_effects 48 Analog_Out board_ops ((8, ig_timers 0), ig_init, 0, []) = 2"
    by (simp only: task_runs.simps step_runs.simps 1 3 2 m r tm_step.simps(10) prod.case add_0 snd_conv)
  show "ops_ok board_env board_effects 48 board_ops ((8, ig_timers 0), ig_init, 0, [])"
    by (simp only: ops_ok.simps op_ok.simps 1 3 2 m tm_step.simps(10) prod.case add_0 snd_conv) (simp add: env)
qed

lemma integrated_analog_output_witness:
  "\<exists>oks hs hs' s' l' g' w'. app_run board_env board_ops
      (hs, setup_tasks board_env (al_init 48, el_init 48, ig_init, 0, [])) = Some (oks, hs', s', l', g', w')
    \<and> snd w' = [0, 32]"
proof -
  have o: "ramp_ops snd board_ops" by (auto simp: ramp_ops_def ramp_view_def)
  have r: "[0, 32] = map (\<lambda>i. word_of_nat (ramp_value 100 i)) [0..<2]"
    by (simp add: ramp_value_def ramp_half_def Let_def numeral_2_eq_2)
  show ?thesis
    unfolding r
    using integrated_analog_output [OF board_log _ _ _ _ o, of "\<lambda>t now gw. gw" "(0, [])" fst] board_serial board_runs
    by simp blast
qed

section \<open>The TCP server of the example\<close>

text \<open>
  A network and a serial line: \<open>inbox\<close> is what is to be read from connection \<open>c\<close>, \<open>sent\<close> what has been
  written to it and \<open>printed\<close> what has been written to the serial line; writes take everything.
\<close>

definition ig_network ::
  "'w devices \<Rightarrow> nat \<Rightarrow> ('w \<Rightarrow> byte list) \<Rightarrow> ('w \<Rightarrow> byte list) \<Rightarrow> ('w \<Rightarrow> byte list) \<Rightarrow> ('w \<Rightarrow> bool) \<Rightarrow> bool" where
  "ig_network dv c inbox sent printed winv \<longleftrightarrow>
     byte_source (connection_stream (dv_tcp dv) (Some c)) inbox (\<lambda>w. (printed w, sent w)) winv
     \<and> (\<forall>w. winv w \<longrightarrow> tc_valid (dv_tcp dv) c w)
     \<and> (\<forall>w bytes. winv w \<longrightarrow> (case tc_write (dv_tcp dv) c bytes w of (n, w1) \<Rightarrow>
          n = int (length bytes) \<and> winv w1 \<and> inbox w1 = inbox w \<and> printed w1 = printed w \<and> sent w1 = sent w @ bytes))
     \<and> (\<forall>w bytes. winv w \<longrightarrow> (case dv_serial_write dv bytes w of (n, w1) \<Rightarrow>
          winv w1 \<and> inbox w1 = inbox w \<and> printed w1 = printed w @ bytes \<and> sent w1 = sent w))"

definition echo_line :: "byte list \<Rightarrow> integrated \<times> byte list \<times> byte list \<Rightarrow> integrated \<times> byte list \<times> byte list" where
  "echo_line line gps = (case gps of (g, p, s) \<Rightarrow>
     (g, p @ bytes_of ''tcp server rx: '' @ line @ [chr_lf], s @ bytes_of ''server rx: '' @ line @ [chr_lf]))"

lemma deliver_echo:
  "deliver echo_line ls (g, p, s) =
     (g, p @ concat (map (\<lambda>l. bytes_of ''tcp server rx: '' @ l @ [chr_lf]) ls),
      s @ concat (map (\<lambda>l. bytes_of ''server rx: '' @ l @ [chr_lf]) ls))"
  by (induction ls arbitrary: p s) (simp_all add: echo_line_def)

lemma literal_texts:
  "c_string (bytes_of ''tcp server rx: '') = bytes_of ''tcp server rx: ''"
  "c_string (bytes_of ''server rx: '') = bytes_of ''server rx: ''" "c_string [chr_lf] = [chr_lf]"
  by (simp_all add: c_string_def bytes_of_def)

lemma ig_serial_network:
  assumes net: "ig_network dv c inbox sent printed winv" and w: "winv w"
  shows "winv (serial_write_text dv t w) \<and> inbox (serial_write_text dv t w) = inbox w
    \<and> printed (serial_write_text dv t w) = printed w @ c_string t \<and> sent (serial_write_text dv t w) = sent w"
    and "winv (serial_write_line dv line w) \<and> inbox (serial_write_line dv line w) = inbox w
    \<and> printed (serial_write_line dv line w) = printed w @ line @ [chr_lf] \<and> sent (serial_write_line dv line w) = sent w"
proof -
  have s: "winv (snd (dv_serial_write dv bytes x)) \<and> inbox (snd (dv_serial_write dv bytes x)) = inbox x
      \<and> printed (snd (dv_serial_write dv bytes x)) = printed x @ bytes \<and> sent (snd (dv_serial_write dv bytes x)) = sent x"
    if "winv x" for bytes x
    using net that unfolding ig_network_def by (auto simp: case_prod_unfold)
  have c: "take (length (c_string t)) t = c_string t" for t unfolding c_string_def by (rule takeWhile_eq_take [symmetric])
  have t: "winv (serial_write_text dv t x) \<and> inbox (serial_write_text dv t x) = inbox x
      \<and> printed (serial_write_text dv t x) = printed x @ c_string t \<and> sent (serial_write_text dv t x) = sent x"
    if "winv x" for t x
    using s [OF that, of "c_string t"] by (simp add: serial_write_text_def text_len_def c)
  then show "winv (serial_write_text dv t w) \<and> inbox (serial_write_text dv t w) = inbox w
    \<and> printed (serial_write_text dv t w) = printed w @ c_string t \<and> sent (serial_write_text dv t w) = sent w" using w by simp
  show "winv (serial_write_line dv line w) \<and> inbox (serial_write_line dv line w) = inbox w
    \<and> printed (serial_write_line dv line w) = printed w @ line @ [chr_lf] \<and> sent (serial_write_line dv line w) = sent w"
    using s [OF w, of line] t [of w "[chr_lf]"] t [of "snd (dv_serial_write dv line w)" "[chr_lf]"] w
    by (simp add: serial_write_line_def literal_texts)
qed

lemma ig_server_line:
  assumes net: "ig_network dv c inbox sent printed winv" and w: "winv w"
  shows "\<exists>w1. ig_server_on_line dv c line (g, w) = (g, w1) \<and> winv w1 \<and> inbox w1 = inbox w
    \<and> (g, printed w1, sent w1) = echo_line line (g, printed w, sent w)"
proof -
  have tc: "fst (tc_write (dv_tcp dv) c bytes x) = int (length bytes) \<and> winv (snd (tc_write (dv_tcp dv) c bytes x))
      \<and> inbox (snd (tc_write (dv_tcp dv) c bytes x)) = inbox x \<and> printed (snd (tc_write (dv_tcp dv) c bytes x)) = printed x
      \<and> sent (snd (tc_write (dv_tcp dv) c bytes x)) = sent x @ bytes" if "winv x" for bytes x
    using net that unfolding ig_network_def by (auto simp: case_prod_unfold)
  let ?w1 = "serial_write_line dv line (serial_write_text dv (bytes_of ''tcp server rx: '') w)"
  have 1: "winv ?w1" "inbox ?w1 = inbox w" "printed ?w1 = printed w @ bytes_of ''tcp server rx: '' @ line @ [chr_lf]" "sent ?w1 = sent w"
    using ig_serial_network(1) [OF net w, of "bytes_of ''tcp server rx: ''"]
      ig_serial_network(2) [OF net, of "serial_write_text dv (bytes_of ''tcp server rx: '') w" line]
    by (simp_all add: literal_texts)
  let ?w2 = "snd (tc_write (dv_tcp dv) c (bytes_of ''server rx: '') ?w1)"
  let ?w3 = "if line = [] then ?w2 else snd (tc_write (dv_tcp dv) c line ?w2)"
  have 3: "winv ?w3" "inbox ?w3 = inbox w" "printed ?w3 = printed ?w1" "sent ?w3 = sent w @ bytes_of ''server rx: '' @ line"
    using tc [OF 1(1), of "bytes_of ''server rx: ''"] tc [of ?w2 line] 1 by auto
  have "fst (tc_write (dv_tcp dv) c line ?w2) = int (length line)" using tc [OF 1(1)] tc [of ?w2] by blast
  then have "ig_server_on_line dv c line (g, w) = (g, snd (tc_write (dv_tcp dv) c [chr_lf] ?w3))"
    by (auto simp: ig_server_on_line_def tcp_write_text_def tcp_write_line_def tcp_write_newline_def literal_texts Let_def case_prod_unfold)
  with tc [OF 3(1), of "[chr_lf]"] 1 3 show ?thesis by (simp add: echo_line_def)
qed

lemma ig_server_serves:
  assumes net: "ig_network dv c inbox sent printed winv"
  shows "serves (beside (dv_tcp dv)) (lh_on_line (ig_server_handler dv)) c (\<lambda>(g, w). inbox w)
    (\<lambda>(g, w). (g, printed w, sent w)) (\<lambda>(g, w). winv w) echo_line"
  unfolding serves_def
proof (intro conjI allI impI)
  have "byte_source (connection_stream (dv_tcp dv) (Some c)) inbox (\<lambda>w. (printed w, sent w)) winv"
    using net by (simp add: ig_network_def)
  from beside_source [OF this, where g = "\<lambda>g. g" and P = "\<lambda>g. True"]
  show "byte_source (connection_stream (beside (dv_tcp dv)) (Some c)) (\<lambda>(g, w). inbox w)
     (\<lambda>(g, w). (g, printed w, sent w)) (\<lambda>(g, w). winv w)"
    by simp
next
  fix gw :: "integrated \<times> 'a"
  assume "case gw of (g, w) \<Rightarrow> winv w"
  then show "tc_valid (beside (dv_tcp dv)) c gw" using net by (auto simp: ig_network_def beside_def)
next
  fix line and gw :: "integrated \<times> 'a"
  obtain g w where gw: "gw = (g, w)" by fastforce
  have l: "lh_on_line (ig_server_handler dv) = ig_server_on_line dv"
    by (simp add: ig_server_handler_def line_handler_default_def)
  assume "case gw of (g, w) \<Rightarrow> winv w"
  then have "winv w" by (simp add: gw)
  from ig_server_line [OF net this, of line g] gw
  show "case lh_on_line (ig_server_handler dv) c line gw of (g, w) \<Rightarrow> winv w"
    "(case lh_on_line (ig_server_handler dv) c line gw of (g, w) \<Rightarrow> inbox w) = (case gw of (g, w) \<Rightarrow> inbox w)"
    "(case lh_on_line (ig_server_handler dv) c line gw of (g, w) \<Rightarrow> (g, printed w, sent w))
      = echo_line line (case gw of (g, w) \<Rightarrow> (g, printed w, sent w))"
    unfolding l by auto
qed

text \<open>
  The TCP server of the example echoes lines. When data of a connection is reported, every complete line
  that has arrived is printed on the serial line and sent back on the connection, each with its prefix and in
  order, however the stream was cut; the rest of the input waits for its end. (Lines that fit the buffer.)
\<close>

theorem server_lines_echoed:
  assumes "ig_network dv c inbox sent printed winv" "winv w" "ls_inv 160 s" "\<not> bo_enabled (ls_backpressure s)"
    "ls_find c s = Some i" "line_pending (sl_reader (ls_slots s ! i)) @ inbox w = join_lines chr_lf ls lastl"
    "chr_lf \<notin> set (line_pending (sl_reader (ls_slots s ! i)))"
    "\<forall>l \<in> set (lastl # ls). chr_lf \<notin> set l \<and> length l \<le> 160"
  shows "\<exists>s' w'. ls_on_data (beside (dv_tcp dv)) (ig_server_handler dv) c (s, g, w) = Some (s', g, w')
    \<and> inbox w' = [] \<and> line_pending (sl_reader (ls_slots s' ! i)) = lastl
    \<and> printed w' = printed w @ concat (map (\<lambda>l. bytes_of ''tcp server rx: '' @ strip_cr True l @ [chr_lf]) ls)
    \<and> sent w' = sent w @ concat (map (\<lambda>l. bytes_of ''server rx: '' @ strip_cr True l @ [chr_lf]) ls)"
proof -
  from ls_data_delivers [OF ig_server_serves [OF assms(1)], of "(g, w)" 160 s i ls lastl] assms obtain s' gw where
    d: "ls_on_data (beside (dv_tcp dv)) (ig_server_handler dv) c (s, g, w) = Some (s', gw)"
      "(case gw of (g, w) \<Rightarrow> inbox w) = []" "line_pending (sl_reader (ls_slots s' ! i)) = lastl"
      "(case gw of (g, w) \<Rightarrow> (g, printed w, sent w)) = deliver echo_line (map (strip_cr True) ls) (g, printed w, sent w)"
    by auto
  obtain g1 w1 where "gw = (g1, w1)" by fastforce
  with d show ?thesis by (intro exI [of _ s'] exI [of _ w1]) (simp add: deliver_echo o_def)
qed

section \<open>Examples of the server and the printing\<close>

text \<open>A board with one connection and a serial line: what is to be read, what has been printed and sent.\<close>

definition echo_tcp :: "(byte list \<times> byte list \<times> byte list) tcp_ops" where
  "echo_tcp = \<lparr>tc_valid = (\<lambda>c w. True), tc_close = (\<lambda>c w. w), tc_input_size = (\<lambda>c (i, p, s). length i),
     tc_output_size = (\<lambda>c w. 0), tc_read = (\<lambda>c n (i, p, s). (int (length (take n i)), take n i, (drop n i, p, s))),
     tc_write = (\<lambda>c bytes (i, p, s). (int (length bytes), (i, p, s @ bytes)))\<rparr>"

definition echo_board :: "(byte list \<times> byte list \<times> byte list) devices" where
  "echo_board = \<lparr>dv_serial_write = (\<lambda>bytes (i, p, s). (int (length bytes), (i, p @ bytes, s))), dv_udp_write = (\<lambda>bytes w. (0, w)),
     dv_tcp = echo_tcp, dv_serial_in = \<lparr>bs_readable = (\<lambda>w. False), bs_read = (\<lambda>n w. (0, [], w))\<rparr>,
     dv_digital_in = None, dv_digital_out = None, dv_analog_in = None, dv_analog_out = None\<rparr>"

lemma printed_numbers_read_back_witness:
  "\<exists>t. fst (snd (serial_write_int echo_board (- 17) ([], [65], []))) = 65 # t \<and> strtol (t @ [chr_lf, 49]) = - 17"
proof -
  have "appends (dv_serial_write echo_board) (\<lambda>w. fst (snd w))" by (simp add: appends_def echo_board_def)
  from printed_numbers_read_back [OF this, of "- 17" "([], [65], [])" "[49]"] show ?thesis by auto
qed

lemma echo_network: "ig_network echo_board 7 fst (\<lambda>w. snd (snd w)) (\<lambda>w. fst (snd w)) (\<lambda>w. True)"
proof -
  have "byte_source (connection_stream echo_tcp (Some 7)) fst (\<lambda>w. (fst (snd w), snd (snd w))) (\<lambda>w. True)"
    by unfold_locales (auto simp: connection_stream_def cs_readable_def cs_read_def tc_readable_def echo_tcp_def)
  moreover have "dv_tcp echo_board = echo_tcp" by (simp add: echo_board_def)
  ultimately show ?thesis by (simp add: ig_network_def) (simp add: echo_board_def echo_tcp_def)
qed

definition echo_lines :: line_server where
  "echo_lines = snd (ls_acquire 7 (ls_init 160 4 bp_disabled))"

lemma echo_lines:
  "ls_inv 160 echo_lines" "\<not> bo_enabled (ls_backpressure echo_lines)" "ls_find 7 echo_lines = Some 0"
  "line_pending (sl_reader (ls_slots echo_lines ! 0)) = []"
proof -
  obtain slot s where a: "ls_acquire 7 (ls_init 160 4 bp_disabled) = (slot, s)" by fastforce
  with ls_acquire_spec [OF conjunct1 [OF ls_inv_init] a] show "ls_inv 160 echo_lines" "\<not> bo_enabled (ls_backpressure echo_lines)"
    by (simp_all add: echo_lines_def ls_init_def bp_disabled_def)
  have r: "replicate 4 x = [x, x, x, x]" for x :: line_slot by (simp add: numeral_eq_Suc)
  show "ls_find 7 echo_lines = Some 0" "line_pending (sl_reader (ls_slots echo_lines ! 0)) = []"
    by (simp_all add: echo_lines_def ls_acquire_def ls_find_def ls_init_def r ls_set_slot_def Let_def line_pending_def line_init_def)
qed

lemma server_lines_echoed_witness:
  "\<exists>s' w'. ls_on_data (beside (dv_tcp echo_board)) (ig_server_handler echo_board) 7
      (echo_lines, ig_init, [72, 105, chr_cr, chr_lf, 33], [], []) = Some (s', ig_init, w')
    \<and> snd (snd w') = bytes_of ''server rx: Hi'' @ [chr_lf]"
proof -
  have p: "line_pending (sl_reader (ls_slots echo_lines ! 0)) @ fst ([72, 105, chr_cr, chr_lf, 33], [] :: byte list, [] :: byte list)
      = join_lines chr_lf [[72, 105, chr_cr]] [33]" by (simp add: echo_lines)
  have t: "bytes_of ''server rx: Hi'' = bytes_of ''server rx: '' @ [72, 105]" by (simp add: bytes_of_def)
  show ?thesis
    unfolding t using server_lines_echoed [OF echo_network _ echo_lines(1-3) p, of ig_init]
    by (auto simp: echo_lines strip_cr_def)
qed

end
