(* ===== verification/Memory_Examples.thy ===== *)
theory Memory_Examples
  imports Event_Loop_Timers Line_Reader Frame_Readers Json_Reader
begin

text \<open>
  The example programs that need no device, under \<^verbatim>\<open>src/examples/\<close>: \<^verbatim>\<open>LineProtocolExample\<close>, \<^verbatim>\<open>JsonProtocolExample\<close>
  and \<^verbatim>\<open>FixedHeaderProtocolExample\<close> write a message to a memory stream in a delayed callback and count what the
  reader, polled when bytes are ready, delivers; \<^verbatim>\<open>PinEventExample\<close> does the same with a pin event; \<^verbatim>\<open>EventLoopTimerExample\<close>
  counts a delayed callback. Modelled are the Arduino programs, \<open>setup()\<close> and the calls of \<open>loop()\<close>, each composed of the
  models of its parts on the cooperative scheduler; \<open>main()\<close>, which exists only on Linux and turns the counts into an
  exit code after a thousand iterations on libevent, is not.
\<close>

section \<open>Programs with a memory stream\<close>

record ('r, 'x) stream_program =
  mx_clock :: u64
  mx_stream :: memory_stream
  mx_reader :: 'r
  mx_app :: 'x

datatype stream_task = Poll_Reader | Send_Message

text \<open>The reader's \<open>poll\<close> and the message are the example's own.\<close>

type_synonym ('r, 'x) stream_poll = "'r \<times> memory_stream \<times> 'x \<Rightarrow> ('r \<times> memory_stream \<times> 'x) option"

definition mx_run ::
  "('r, 'x) stream_poll \<Rightarrow> byte list \<Rightarrow> stream_task \<Rightarrow> ('r, 'x) stream_program \<Rightarrow> ('r, 'x) stream_program option" where
  "mx_run poll msg p w =
     (case p of
        Poll_Reader \<Rightarrow> map_option (\<lambda>(r, s, x). w\<lparr>mx_reader := r, mx_stream := s, mx_app := x\<rparr>)
          (poll (mx_reader w, (mx_stream w, mx_app w)))
      | Send_Message \<Rightarrow> Some (w\<lparr>mx_stream := snd (ms_write (Some msg) (mx_stream w))\<rparr>))"

definition mx_env ::
  "('r, 'x) stream_poll \<Rightarrow> byte list \<Rightarrow> (stream_task, arduino_loop, ('r, 'x) stream_program) el_env" where
  "mx_env poll msg =
     \<lparr>en_ops = al_ops, en_micros = mx_clock, en_readable = (\<lambda>q w. ms_readable (mx_stream w)), en_stream_fd = (\<lambda>q w. - 1),
      en_source_fd = (\<lambda>q w. - 1), en_read_event = (\<lambda>q w. Some (None, w)),
      en_run = (\<lambda>p (s, l, w). map_option (\<lambda>w1. (s, l, w1)) (mx_run poll msg p w)),
      en_run_pin = (\<lambda>p ev st. Some st), en_external = (\<lambda>t now st. Some st)\<rparr>"

text \<open>\<open>setup_example\<close>: the stream is stream 0.\<close>

definition mx_setup :: "('p, 's, 'w) el_env \<Rightarrow> 'p \<Rightarrow> 'p \<Rightarrow> ('p, 's, 'w) el_state \<Rightarrow> ('p, 's, 'w) el_state" where
  "mx_setup env receive send st =
     (let st1 = snd (el_on_bytes_ready env 0 receive default_readiness_poll_us st)
      in snd (el_on_delay env 0 send st1))"

text \<open>
  \<open>setup()\<close> is over, and \<open>loop()\<close> is called again and again; \<open>ts\<close> are the readings of the clock in these calls, and
  \<open>at\<close> moves the clock of the world.
\<close>

fun loop_calls ::
  "(u64 \<Rightarrow> 'w \<Rightarrow> 'w) \<Rightarrow> ('p, arduino_loop, 'w) el_env \<Rightarrow> u64 list \<Rightarrow> ('p, arduino_loop, 'w) el_state
     \<Rightarrow> ('p, arduino_loop, 'w) el_state option" where
  "loop_calls at env [] st = Some st"
| "loop_calls at env (t # ts) (s, l, w) =
     (case el_run_once env (s, l, at t w) of None \<Rightarrow> None | Some st1 \<Rightarrow> loop_calls at env ts st1)"

definition mx_program ::
  "('r, 'x) stream_poll \<Rightarrow> byte list \<Rightarrow> nat \<Rightarrow> u64 list \<Rightarrow> ('r, 'x) stream_program \<Rightarrow> ('r, 'x) stream_program option" where
  "mx_program poll msg n ts w =
     map_option (\<lambda>(s, l, w). w)
       (loop_calls (\<lambda>t w. w\<lparr>mx_clock := t\<rparr>) (mx_env poll msg) ts
         (mx_setup (mx_env poll msg) Poll_Reader Send_Message (al_init n, el_init n, w)))"

section \<open>The three examples\<close>

definition line_example_poll :: "(line_reader, u32) stream_poll" where
  "line_example_poll = line_poll mem_stream line_options_default (app_callback (\<lambda>line line_count. line_count + 1))"

definition line_example_message :: "byte list" where
  "line_example_message = bytes_of ''one'' @ [chr_lf] @ bytes_of ''two'' @ [chr_cr, chr_lf]"

definition line_example_start :: "u64 \<Rightarrow> (line_reader, u32) stream_program" where
  "line_example_start now = \<lparr>mx_clock = now, mx_stream = ring_init (replicate 256 0), mx_reader = line_init 128, mx_app = 0\<rparr>"

text \<open>The counters \<open>json_count\<close> and \<open>json_bytes\<close>.\<close>

definition json_example_poll :: "(json_reader, u32 \<times> nat) stream_poll" where
  "json_example_poll = json_poll mem_stream
     (app_callback (\<lambda>json (json_count, json_bytes). (json_count + 1, json_bytes + length json)))"

definition json_example_message :: "byte list" where
  "json_example_message =
     bytes_of '' {'' @ [chr_quote] @ bytes_of ''ap'' @ [chr_quote] @ bytes_of '':{'' @ [chr_quote] @ bytes_of ''enabled''
     @ [chr_quote] @ bytes_of '':true}}'' @ bytes_of '' [1,2,{'' @ [chr_quote] @ bytes_of ''mode'' @ [chr_quote] @ bytes_of '':''
     @ [chr_quote] @ bytes_of ''compass'' @ [chr_quote] @ bytes_of ''}]'' @ bytes_of '' '' @ [chr_quote] @ bytes_of ''ready''
     @ [chr_quote] @ bytes_of '' null''"

definition json_example_start :: "u64 \<Rightarrow> (json_reader, u32 \<times> nat) stream_program" where
  "json_example_start now =
     \<lparr>mx_clock = now, mx_stream = ring_init (replicate 256 0), mx_reader = json_init True 128, mx_app = (0, 0)\<rparr>"

definition frame_example_options :: hp_options where
  "frame_example_options = \<lparr>ho_header_size = 1, ho_max_payload_size = 16, ho_payload_size = Some (\<lambda>header. unat (hd header))\<rparr>"

definition frame_example_poll :: "(hp_reader, u32) stream_poll" where
  "frame_example_poll = hp_poll mem_stream frame_example_options (app_callback (\<lambda>frame frame_count. frame_count + 1))"

definition frame_example_message :: "byte list" where
  "frame_example_message = [2] @ bytes_of ''ok'' @ [3] @ bytes_of ''yes''"

definition frame_example_start :: "u64 \<Rightarrow> (hp_reader, u32) stream_program" where
  "frame_example_start now = \<lparr>mx_clock = now, mx_stream = ring_init (replicate 256 0), mx_reader = hp_init 64, mx_app = 0\<rparr>"


section \<open>The calls as steps of the timer list\<close>

definition loop_ops :: "(u64 \<Rightarrow> 'w \<Rightarrow> 'w) \<Rightarrow> u64 list \<Rightarrow> ('p, 'w) app_op list" where
  "loop_ops at ts = concat (map (\<lambda>t. [Outside (at t), Iterate]) ts)"

lemma loop_calls_run:
  "app_run env (loop_ops at ts) (hs, st)
     = map_option (\<lambda>st1. (replicate (2 * length ts) True, hs, st1)) (loop_calls at env ts st)"
proof (induction ts arbitrary: st)
  case (Cons t ts)
  obtain s l w where st: "st = (s, l, w)" by (metis prod_cases3)
  from Cons.IH show ?case
    by (cases "el_run_once env (s, l, at t w)") (simp_all add: loop_ops_def st option.map_comp o_def split: option.split)
qed (simp add: loop_ops_def)

text \<open>A program that sets up and then loops does what the timers do.\<close>

lemma loop_calls_refine:
  assumes env: "world_only env ef" and n: "n \<le> 0xfffe"
    and su: "\<exists>oks hs. app_run env sops ([], al_init n, el_init n, w) = Some (oks, hs, st)"
    and steps: "\<exists>oks. tm_run env ef n sops ((0, []), w) = (oks, mcs, w1)" and ok: "ops_ok env ef n sops ((0, []), w)"
    and run: "tm_run env ef n (loop_ops at ts) (mcs, w1) = (oks2, mcs2, w2)" "ops_ok env ef n (loop_ops at ts) (mcs, w1)"
  shows "\<exists>s l. loop_calls at env ts st = Some (s, l, w2)"
proof -
  from su obtain oks hs where s: "app_run env sops ([], al_init n, el_init n, w) = Some (oks, hs, st)" by blast
  from app_run_refines [OF simulates_init [OF n] env ok] s steps obtain s1 l1 where
    st: "st = (s1, l1, w1)" and sim: "simulates n mcs hs s1 l1" by auto
  from app_run_refines [OF sim env run(2)] run(1) obtain hs' s' l' where
    "app_run env (loop_ops at ts) (hs, st) = Some (oks2, hs', s', l', w2)" unfolding st by auto
  then show ?thesis unfolding loop_calls_run by auto
qed

section \<open>What the reader does\<close>

text \<open>A poll always returns: a memory stream holds finitely many bytes.\<close>

lemma mem_poll_total: "\<exists>r'. poll_loop mem_stream (reader_step consume (app_callback f)) (r, (s, x)) = Some r'"
proof (induction "rb_count s" arbitrary: r s x)
  case 0
  then show ?case by (simp add: poll_loop.simps mem_stream_def ms_readable_def)
next
  case (Suc k)
  let ?s = "snd (ring_get s)"
  have c: "rb_count ?s = k" using Suc.hyps(2) by (simp add: ring_get_def)
  have rd: "bs_read mem_stream 1 (s, x) = (1, [fst (ring_get s)], (?s, x))"
    using Suc.hyps(2) by (simp add: mem_stream_def ms_read_def int_of_size_small split: prod.split)
  obtain r1 s1 x1 where st: "reader_step consume (app_callback f) (fst (ring_get s)) (r, ?s, x) = (r1, s1, x1)"
    by (metis prod_cases3)
  have "fst (deliver (app_callback f) vs (?s, y)) = ?s" for vs and y :: 'b
    by (induction vs arbitrary: y) (simp_all add: app_callback_def)
  with st have "s1 = ?s" by (auto simp: reader_step_def split: prod.splits) (metis fst_conv)
  have "bs_readable mem_stream (s, x)" using Suc.hyps(2) by (simp add: mem_stream_def ms_readable_def)
  then have "poll_loop mem_stream (reader_step consume (app_callback f)) (r, (s, x))
      = poll_loop mem_stream (reader_step consume (app_callback f)) (r1, s1, x1)"
    using rd st by (simp add: poll_loop.simps [of _ _ "(r, s, x)"])
  with Suc.hyps(1) [of ?s r1 x1] c \<open>s1 = ?s\<close> show ?case by simp
qed

text \<open>What an example needs of its reader: the poll returns, and the message that has arrived is delivered.\<close>

definition reads_message :: "('r, 'x) stream_poll \<Rightarrow> byte list \<Rightarrow> 'r \<Rightarrow> 'x \<Rightarrow> 'x \<Rightarrow> bool" where
  "reads_message poll msg r0 x0 x1 \<longleftrightarrow> (\<forall>rsx. poll rsx \<noteq> None)
     \<and> (\<forall>s. ring_inv s \<longrightarrow> ring_list s = msg \<longrightarrow>
          (\<exists>r' s'. poll (r0, (s, x0)) = Some (r', (s', x1)) \<and> ring_inv s' \<and> ring_list s' = []))"

lemma reads_messageI:
  assumes "\<And>r s x. poll (r, (s, x)) = poll_loop mem_stream (reader_step consume (app_callback f)) (r, (s, x))
      \<or> poll (r, (s, x)) \<noteq> None"
    and "\<And>s x. poll (r0, (s, x)) = poll_loop mem_stream (reader_step consume (app_callback f)) (r0, (s, x))"
    and "x1 = deliver f (snd (feed consume msg r0)) x0"
  shows "reads_message poll msg r0 x0 x1"
  unfolding reads_message_def
proof (intro conjI allI impI)
  fix rsx :: "'a \<times> memory_stream \<times> 'b"
  obtain r s x where "rsx = (r, (s, x))" by (metis prod_cases3)
  with assms(1) [of r s x] mem_poll_total [of consume f r s x] show "poll rsx \<noteq> None" by auto
next
  fix s :: memory_stream
  assume s: "ring_inv s" "ring_list s = msg"
  obtain r' vs where f: "feed consume msg r0 = (r', vs)" by fastforce
  from mem_poll_reader [OF s(1) f [folded s(2)], of f x0] assms(2) [of s x0] f assms(3)
  show "\<exists>r' s'. poll (r0, (s, x0)) = Some (r', (s', x1)) \<and> ring_inv s' \<and> ring_list s' = []" by auto
qed

lemma line_example_reads: "reads_message line_example_poll line_example_message (line_init 128) 0 2"
proof (rule reads_messageI)
  have "length (snd (feed (line_byte line_options_default) line_example_message (line_init 128))) = 2" by code_simp
  moreover have "deliver (\<lambda>line line_count. line_count + 1) vs x = x + of_nat (length vs)" for vs :: "byte list list" and x :: u32
    by (induction vs arbitrary: x) simp_all
  ultimately show "2 = deliver (\<lambda>line line_count. line_count + (1 :: u32))
      (snd (feed (line_byte line_options_default) line_example_message (line_init 128))) 0" by simp
qed (simp_all add: line_example_poll_def line_poll_def)

lemma json_example_reads: "reads_message json_example_poll json_example_message (json_init True 128) (0, 0) (4, 58)"
proof (rule reads_messageI)
  let ?f = "\<lambda>json (json_count :: u32, json_bytes). (json_count + 1, json_bytes + length json)"
  have v: "map length (snd (feed json_byte json_example_message (json_init True 128))) = [23, 24, 7, 4]" by code_simp
  have "deliver ?f vs (n, k) = (n + of_nat (length (map length vs)), k + sum_list (map length vs))" for vs :: "byte list list" and n k
    by (induction vs arbitrary: n k) simp_all
  from this [of "snd (feed json_byte json_example_message (json_init True 128))" 0 0, unfolded v]
  show "(4, 58) = deliver ?f (snd (feed json_byte json_example_message (json_init True 128))) (0, 0)" by simp
qed (simp_all add: json_example_poll_def json_poll_def)

lemma frame_example_reads: "reads_message frame_example_poll frame_example_message (hp_init 64) 0 2"
proof (rule reads_messageI)
  have "length (snd (feed (hp_byte frame_example_options) frame_example_message (hp_init 64))) = 2" by code_simp
  moreover have "deliver (\<lambda>frame frame_count. frame_count + 1) vs x = x + of_nat (length vs)" for vs :: "byte list list" and x :: u32
    by (induction vs arbitrary: x) simp_all
  ultimately show "2 = deliver (\<lambda>frame frame_count. frame_count + (1 :: u32))
      (snd (feed (hp_byte frame_example_options) frame_example_message (hp_init 64))) 0" by simp
  show "frame_example_poll (hp_init 64, (s, x))
      = poll_loop mem_stream (reader_step (hp_byte frame_example_options) (app_callback (\<lambda>frame frame_count. frame_count + 1))) (hp_init 64, (s, x))" for s x
    by (simp add: frame_example_poll_def hp_poll_def hp_valid_options_def frame_example_options_def hp_init_def)
qed (simp add: frame_example_poll_def hp_poll_def)

section \<open>The stream programs\<close>

definition mx_effects :: "('r, 'x) stream_poll \<Rightarrow> byte list \<Rightarrow> (stream_task, ('r, 'x) stream_program) effects" where
  "mx_effects poll msg = \<lparr>ef_run = (\<lambda>p w. the (mx_run poll msg p w)), ef_drain = (\<lambda>q p w. w), ef_extern = (\<lambda>t now w. w)\<rparr>"

lemma mx_world:
  assumes "reads_message poll msg r0 x0 x1"
  shows "world_only (mx_env poll msg) (mx_effects poll msg)"
proof -
  have "mx_run poll msg p w \<noteq> None" for p w
    using assms by (cases p) (auto simp: mx_run_def reads_message_def)
  then show ?thesis by (auto simp: world_only_def mx_env_def mx_effects_def el_drain_pins.simps)
qed

text \<open>The callback of the stream, next due at \<open>d\<close>, and the deadline after a poll at \<open>t\<close>.\<close>

definition stream_timer :: "u64 \<Rightarrow> stream_task timed" where
  "stream_timer d = \<lparr>tm_id = Some 0, tm_task = 0, tm_call = Run_Ready 0 Poll_Reader, tm_enabled = True,
     tm_period = 1000, tm_due = d\<rparr>"

definition next_poll :: "u64 \<Rightarrow> u64 \<Rightarrow> nat" where
  "next_poll d t = unat d + Suc ((unat t - unat d) div 1000) * 1000"

lemma mx_setup_run: "\<exists>oks hs. app_run env [On_Bytes 0 p default_readiness_poll_us, Delay 0 q] ([], st) = Some (oks, hs, mx_setup env p q st)"
  by (simp add: mx_setup_def Let_def el_on_delay_def app_register_def split: prod.split)

lemma stream_timer_next:
  "tm_advance t [stream_timer d] = [stream_timer (if t < d then d else word_of_nat (next_poll d t))]"
  by (simp add: tm_advance_def stream_timer_def tm_next_def tm_ready_def next_poll_def)

lemma stream_timer_ok:
  "unat t + 1000 < 2 ^ 64 \<Longrightarrow> mx_clock w = t \<Longrightarrow> op_ok (mx_env poll msg) n Iterate ((m, [stream_timer d]), w)"
  by (simp add: stream_timer_def mx_env_def)

text \<open>With an empty stream nothing happens.\<close>

lemma mx_idle:
  assumes "rb_count (mx_stream w) = 0" "\<forall>t \<in> set ts. unat t + 1000 < 2 ^ 64"
  shows "\<exists>oks mcs w'. tm_run (mx_env poll msg) (mx_effects poll msg) n (loop_ops (\<lambda>t w. w\<lparr>mx_clock := t\<rparr>) ts) ((m, [stream_timer d]), w)
      = (oks, mcs, w') \<and> mx_app w' = mx_app w
    \<and> ops_ok (mx_env poll msg) (mx_effects poll msg) n (loop_ops (\<lambda>t w. w\<lparr>mx_clock := t\<rparr>) ts) ((m, [stream_timer d]), w)"
  using assms
proof (induction ts arbitrary: w d)
  case (Cons t ts)
  let ?w = "w\<lparr>mx_clock := t\<rparr>" and ?d = "if t < d then d else word_of_nat (next_poll d t)"
  have e: "fold (tm_effect (mx_env poll msg) (mx_effects poll msg) t) (filter (tm_ready t) [stream_timer d]) ?w = ?w"
    using Cons.prems(1) by (simp add: tm_effect_def stream_timer_def mx_env_def ms_readable_def)
  have st: "tm_step (mx_env poll msg) (mx_effects poll msg) n Iterate ((m, [stream_timer d]), ?w) = (True, (m, [stream_timer ?d]), ?w)"
    using e unfolding tm_step.simps stream_timer_next Let_def by (simp add: mx_env_def)
  from Cons.IH [of ?w ?d] Cons.prems st stream_timer_ok [of t ?w poll msg n m d] show ?case
    by (auto simp: loop_ops_def simp del: tm_step.simps(9) op_ok.simps(1))
qed (simp add: loop_ops_def)

text \<open>With the message in the stream, the first poll that is due delivers it.\<close>

lemma mx_waiting:
  assumes rm: "reads_message poll msg r0 x0 x1"
    and w: "ring_inv (mx_stream w)" "ring_list (mx_stream w) = msg" "mx_reader w = r0" "mx_app w = x0"
    and ts: "\<forall>t \<in> set ts. unat t + 1000 < 2 ^ 64" and msg: "msg \<noteq> []"
  shows "\<exists>oks mcs w'. tm_run (mx_env poll msg) (mx_effects poll msg) n (loop_ops (\<lambda>t w. w\<lparr>mx_clock := t\<rparr>) ts) ((m, [stream_timer d]), w)
      = (oks, mcs, w') \<and> mx_app w' = (if \<exists>t \<in> set ts. d \<le> t then x1 else x0)
    \<and> ops_ok (mx_env poll msg) (mx_effects poll msg) n (loop_ops (\<lambda>t w. w\<lparr>mx_clock := t\<rparr>) ts) ((m, [stream_timer d]), w)"
  using w ts
proof (induction ts arbitrary: w)
  case Nil
  then show ?case by (simp add: loop_ops_def)
next
  case (Cons t ts)
  let ?w = "w\<lparr>mx_clock := t\<rparr>"
  show ?case
  proof (cases "t < d")
    case True
    then have "tm_step (mx_env poll msg) (mx_effects poll msg) n Iterate ((m, [stream_timer d]), ?w) = (True, (m, [stream_timer d]), ?w)"
      unfolding tm_step.simps Let_def using stream_timer_next [of t d] by (simp add: mx_env_def tm_ready_def stream_timer_def)
    moreover have late: "(\<exists>x \<in> set (t # ts). d \<le> x) \<longleftrightarrow> (\<exists>x \<in> set ts. d \<le> x)" using True by auto
    ultimately show ?thesis
      using Cons.IH [of ?w] Cons.prems stream_timer_ok [of t ?w poll msg n m d] unfolding late
      by (auto simp: loop_ops_def simp del: tm_step.simps(9) op_ok.simps(1))
  next
    case False
    from rm Cons.prems(1-4) obtain r' s' where p: "poll (r0, (mx_stream w, x0)) = Some (r', (s', x1))" "ring_list s' = []"
      by (auto simp: reads_message_def)
    let ?w1 = "?w\<lparr>mx_reader := r', mx_stream := s', mx_app := x1\<rparr>" and ?d = "word_of_nat (next_poll d t)"
    have "rb_count (mx_stream w) > 0" using Cons.prems(2) msg by (metis length_ring_list length_greater_0_conv)
    then have e: "fold (tm_effect (mx_env poll msg) (mx_effects poll msg) t) (filter (tm_ready t) [stream_timer d]) ?w = ?w1"
      using p(1) Cons.prems(3,4) False
      by (simp add: tm_effect_def stream_timer_def tm_ready_def mx_effects_def mx_run_def) (simp add: mx_env_def ms_readable_def)
    have st: "tm_step (mx_env poll msg) (mx_effects poll msg) n Iterate ((m, [stream_timer d]), ?w) = (True, (m, [stream_timer ?d]), ?w1)"
      using e False unfolding tm_step.simps stream_timer_next Let_def by (simp add: mx_env_def)
    have "rb_count (mx_stream ?w1) = 0" using p(2) by simp
    from mx_idle [OF this, of ts poll msg n m ?d] Cons.prems(5) st False stream_timer_ok [of t ?w poll msg n m d] show ?thesis
      by (auto simp: loop_ops_def not_less simp del: tm_step.simps(9) op_ok.simps(1))
  qed
qed

text \<open>A whole program: set up at time \<open>a\<close>, with calls of \<open>loop()\<close> at \<open>t\<close> and later at \<open>ts\<close>.\<close>

lemma mx_program_runs:
  assumes rm: "reads_message poll msg r0 x0 x1" and msg: "msg \<noteq> []" "length msg \<le> length buf" and n: "2 \<le> n" "n \<le> 0xfffe"
    and at: "a \<le> t" "\<forall>x \<in> set (t # ts). unat x + 1000 < 2 ^ 64"
  shows "\<exists>w. mx_program poll msg n (t # ts) \<lparr>mx_clock = a, mx_stream = ring_init buf, mx_reader = r0, mx_app = x0\<rparr> = Some w
    \<and> mx_app w = (if \<exists>x \<in> set ts. next_poll a t \<le> unat x then x1 else x0)"
proof -
  let ?env = "mx_env poll msg" and ?ef = "mx_effects poll msg" and ?at = "\<lambda>t w. w\<lparr>mx_clock := t\<rparr>"
  let ?w0 = "\<lparr>mx_clock = a, mx_stream = ring_init buf, mx_reader = r0, mx_app = x0\<rparr>"
  let ?sops = "[On_Bytes 0 Poll_Reader default_readiness_poll_us, Delay 0 Send_Message]"
  let ?send = "\<lparr>tm_id = Some 1, tm_task = 1, tm_call = Run_Once Send_Message, tm_enabled = True, tm_period = 0, tm_due = a\<rparr>"
  have free: "tm_free n ([] :: stream_task timed list) = Some 0" "tm_free n [stream_timer a] = Some 1"
    using n(1) by (simp_all add: tm_free_def upt_conv_Cons stream_timer_def)
  have clk: "en_micros ?env w = mx_clock w" for w by (simp add: mx_env_def)
  have a: "due_after a 0 = a" by (simp add: due_after_def)
  have steps: "tm_run ?env ?ef n ?sops ((0, []), ?w0) = ([True, True], (2, [stream_timer a, ?send]), ?w0)"
    using n(1) free a by (simp add: tm_add_def clk poll_period_def default_readiness_poll_us_def) (simp add: stream_timer_def)
  have ok: "ops_ok ?env ?ef n ?sops ((0, []), ?w0)"
    using n(1) free a by (simp add: tm_add_def clk poll_period_def default_readiness_poll_us_def)
  obtain k s1 where wr: "ms_write (Some msg) (ring_init buf) = (k, s1)" by fastforce
  have "ring_list (ring_init buf) = []" "ms_available_for_write (ring_init buf) = length buf"
    by (simp_all add: ms_available_for_write_def ring_init_def ring_capacity_def)
  with ms_write_spec [OF ring_init_inv wr] msg(2) have s1: "ring_inv s1" "ring_list s1 = msg" by simp_all
  let ?w1 = "\<lparr>mx_clock = t, mx_stream = s1, mx_reader = r0, mx_app = x0\<rparr>" and ?d = "word_of_nat (next_poll a t)"
  have due: "\<not> t < a" using at(1) by simp
  have adv: "tm_advance t [stream_timer a, ?send] = [stream_timer ?d]"
  proof -
    have "tm_advance t [stream_timer a, ?send] = tm_advance t [stream_timer a] @ tm_advance t [?send]"
      by (simp add: tm_advance_def)
    moreover have "tm_advance t [?send] = []" using due by (simp add: tm_advance_def tm_ready_def)
    ultimately show ?thesis using stream_timer_next [of t a] due by simp
  qed
  have eff: "fold (tm_effect ?env ?ef t) (filter (tm_ready t) [stream_timer a, ?send]) (?w0\<lparr>mx_clock := t\<rparr>) = ?w1"
    using due wr by (simp add: tm_ready_def tm_effect_def stream_timer_def mx_effects_def mx_run_def)
      (simp add: mx_env_def ms_readable_def ring_init_def)
  have first: "tm_step ?env ?ef n Iterate ((2, [stream_timer a, ?send]), ?w0\<lparr>mx_clock := t\<rparr>) = (True, (2, [stream_timer ?d]), ?w1)"
    using eff adv unfolding tm_step.simps Let_def by (simp add: clk)
  have okf: "op_ok ?env n Iterate ((2, [stream_timer a, ?send]), ?w0\<lparr>mx_clock := t\<rparr>)"
    using at(2) by (simp add: clk) (simp add: stream_timer_def)
  have ts: "\<forall>x \<in> set ts. unat x + 1000 < 2 ^ 64" using at(2) by simp
  from mx_waiting [OF rm, of ?w1 ts n 2 ?d] s1 ts msg(1) obtain oks mcs w2 where
    rest: "tm_run ?env ?ef n (loop_ops ?at ts) ((2, [stream_timer ?d]), ?w1) = (oks, mcs, w2)"
      "mx_app w2 = (if \<exists>x \<in> set ts. ?d \<le> x then x1 else x0)" "ops_ok ?env ?ef n (loop_ops ?at ts) ((2, [stream_timer ?d]), ?w1)"
    by auto
  have run: "tm_run ?env ?ef n (loop_ops ?at (t # ts)) ((2, [stream_timer a, ?send]), ?w0) = (True # True # oks, mcs, w2)"
    "ops_ok ?env ?ef n (loop_ops ?at (t # ts)) ((2, [stream_timer a, ?send]), ?w0)"
    using first okf rest by (simp_all add: loop_ops_def del: tm_step.simps(9) op_ok.simps(1))
  have "\<exists>s l. loop_calls ?at ?env (t # ts) (mx_setup ?env Poll_Reader Send_Message (al_init n, el_init n, ?w0)) = Some (s, l, w2)"
    by (rule loop_calls_refine [OF mx_world [OF rm] n(2) mx_setup_run _ ok run]) (use steps in blast)
  moreover have "?d \<le> x \<longleftrightarrow> next_poll a t \<le> unat x" for x :: u64
  proof -
    have "next_poll a t \<le> unat t + 1000"
    proof -
      have "(unat t - unat a) div 1000 * 1000 \<le> unat t - unat a" by simp
      moreover have "unat a \<le> unat t" using at(1) by (simp add: word_le_nat_alt)
      ultimately show ?thesis by (simp add: next_poll_def)
    qed
    with at(2) have "unat (word_of_nat (next_poll a t) :: u64) = next_poll a t" by (simp add: unat_of_nat take_bit_nat_eq_self)
    then show ?thesis by (simp add: word_le_nat_alt)
  qed
  ultimately show ?thesis using rest(2) by (auto simp: mx_program_def)
qed

text \<open>
  C28: the line, JSON and frame examples on Arduino. With \<open>setup()\<close> at time \<open>a\<close>, the first call of \<open>loop()\<close> at \<open>t\<close> and
  later ones at the times \<open>ts\<close>, they count exactly their two lines, four JSON texts of 58 bytes in all, and two frames,
  if a later call comes when the callback of the stream is due again, and nothing until then: the first call never
  delivers, because the stream is polled before the delayed callback writes to it, and then only once a millisecond.
  (What the JSON example prints is left out.)
\<close>

theorem memory_examples_deliver:
  assumes "2 \<le> n" "n \<le> 0xfffe" "a \<le> t" "\<forall>x \<in> set (t # ts). unat x + 1000 < 2 ^ 64"
  shows "\<exists>w w' w''.
      mx_program line_example_poll line_example_message n (t # ts) (line_example_start a) = Some w
    \<and> mx_program json_example_poll json_example_message n (t # ts) (json_example_start a) = Some w'
    \<and> mx_program frame_example_poll frame_example_message n (t # ts) (frame_example_start a) = Some w''
    \<and> (if \<exists>x \<in> set ts. unat a + Suc ((unat t - unat a) div 1000) * 1000 \<le> unat x
       then mx_app w = 2 \<and> mx_app w' = (4, 58) \<and> mx_app w'' = 2
       else mx_app w = 0 \<and> mx_app w' = (0, 0) \<and> mx_app w'' = 0)"
proof -
  have len: "length line_example_message \<le> 256" "length json_example_message \<le> 256" "length frame_example_message \<le> 256"
    "line_example_message \<noteq> []" "json_example_message \<noteq> []" "frame_example_message \<noteq> []"
    by (simp_all add: line_example_message_def json_example_message_def frame_example_message_def)
  let ?buf = "replicate 256 (0 :: byte)" and ?late = "\<exists>x \<in> set ts. next_poll a t \<le> unat x"
  note run = mx_program_runs [where buf = ?buf, OF _ _ _ assms]
  from run [OF line_example_reads] len obtain w where
    w: "mx_program line_example_poll line_example_message n (t # ts) (line_example_start a) = Some w" "mx_app w = (if ?late then 2 else 0)"
    unfolding line_example_start_def by auto
  from run [OF json_example_reads] len obtain w' where
    w': "mx_program json_example_poll json_example_message n (t # ts) (json_example_start a) = Some w'" "mx_app w' = (if ?late then (4, 58) else (0, 0))"
    unfolding json_example_start_def by auto
  from run [OF frame_example_reads] len obtain w'' where
    w'': "mx_program frame_example_poll frame_example_message n (t # ts) (frame_example_start a) = Some w''" "mx_app w'' = (if ?late then 2 else 0)"
    unfolding frame_example_start_def by auto
  from w w' w'' show ?thesis
    unfolding next_poll_def [symmetric]
    by (intro exI [of _ w] exI [of _ w'] exI [of _ w'']) (cases ?late; simp del: bex_simps)
qed

lemma memory_examples_deliver_witness:
  "\<exists>w. mx_program json_example_poll json_example_message 32 [7, 900, 1400] (json_example_start 5) = Some w \<and> mx_app w = (4, 58)"
proof -
  have "\<exists>x \<in> set [900, 1400 :: u64]. unat (5 :: u64) + Suc ((unat (7 :: u64) - unat (5 :: u64)) div 1000) * 1000 \<le> unat x" by simp
  with memory_examples_deliver [of 32 5 7 "[900, 1400]"] show ?thesis by auto
qed

section \<open>The pin event and the timer\<close>

record pin_program =
  pp_clock :: u64
  pp_source :: memory_pin_source
  pp_events :: u32

datatype pin_task = Count_Event | Push_Event

definition pin_example_event :: "u64 \<Rightarrow> pin_event" where
  "pin_example_event now = pin_event_default\<lparr>pe_type := RisingEdge, pe_timestamp_us := now, pe_source_id := 7, pe_level := True\<rparr>"

definition pin_example_env :: "(pin_task, arduino_loop, pin_program) el_env" where
  "pin_example_env =
     \<lparr>en_ops = al_ops, en_micros = pp_clock, en_readable = (\<lambda>q w. False), en_stream_fd = (\<lambda>q w. - 1), en_source_fd = (\<lambda>q w. - 1),
      en_read_event = (\<lambda>q w. case mp_read_event (pp_source w) of (e, s) \<Rightarrow> Some (e, w\<lparr>pp_source := s\<rparr>)),
      en_run = (\<lambda>p (s, l, w). Some (s, l, case p of
          Push_Event \<Rightarrow> w\<lparr>pp_source := snd (mp_push (pin_example_event (pp_clock w)) (pp_source w))\<rparr> | Count_Event \<Rightarrow> w)),
      en_run_pin = (\<lambda>p ev (s, l, w). Some (s, l, w\<lparr>pp_events := pp_events w + 1\<rparr>)), en_external = (\<lambda>t now st. Some st)\<rparr>"

definition pin_example_setup :: "('p, 's, 'w) el_env \<Rightarrow> 'p \<Rightarrow> 'p \<Rightarrow> ('p, 's, 'w) el_state \<Rightarrow> ('p, 's, 'w) el_state" where
  "pin_example_setup env receive send st =
     (let st1 = snd (el_on_pin_event env 0 receive 1 st)
      in snd (el_on_delay env 0 send st1))"

definition pin_example_program :: "nat \<Rightarrow> u64 list \<Rightarrow> pin_program \<Rightarrow> pin_program option" where
  "pin_example_program n ts w =
     map_option (\<lambda>(s, l, w). w)
       (loop_calls (\<lambda>t w. w\<lparr>pp_clock := t\<rparr>) pin_example_env ts
         (pin_example_setup pin_example_env Count_Event Push_Event (al_init n, el_init n, w)))"

definition pin_example_start :: "u64 \<Rightarrow> pin_program" where
  "pin_example_start now = \<lparr>pp_clock = now, pp_source = ring_init (replicate 4 pin_event_default), pp_events = 0\<rparr>"

definition pin_example_effects :: "(pin_task, pin_program) effects" where
  "pin_example_effects =
     \<lparr>ef_run = (\<lambda>p w. case p of
        Push_Event \<Rightarrow> w\<lparr>pp_source := snd (mp_push (pin_example_event (pp_clock w)) (pp_source w))\<rparr> | Count_Event \<Rightarrow> w),
      ef_drain = (\<lambda>q p w. w\<lparr>pp_source := ((\<lambda>s. snd (ring_get s)) ^^ rb_count (pp_source w)) (pp_source w),
        pp_events := pp_events w + of_nat (rb_count (pp_source w))\<rparr>),
      ef_extern = (\<lambda>t now w. w)\<rparr>"

text \<open>The drain loop reads the events that are there, and ends.\<close>

lemma pin_example_drain: "el_drain_pins pin_example_env q p (s, l, w) = Some (s, l, ef_drain pin_example_effects q p w)"
proof (induction "rb_count (pp_source w)" arbitrary: w)
  case 0
  then show ?case
    by (simp add: el_drain_pins.simps [of _ _ _ "(s, l, w)"]) (simp add: pin_example_env_def pin_example_effects_def mp_read_event_def)
next
  case (Suc k)
  let ?w = "w\<lparr>pp_source := snd (ring_get (pp_source w)), pp_events := pp_events w + 1\<rparr>"
  have k: "rb_count (snd (ring_get (pp_source w))) = k" using Suc.hyps(2) by (simp add: ring_get_def)
  have "el_drain_pins pin_example_env q p (s, l, w) = el_drain_pins pin_example_env q p (s, l, ?w)"
    using Suc.hyps(2) by (simp add: el_drain_pins.simps [of _ _ _ "(s, l, w)"])
      (simp add: pin_example_env_def mp_read_event_def split: prod.split)
  also have "\<dots> = Some (s, l, ef_drain pin_example_effects q p ?w)" using Suc.hyps(1) [of ?w] k by simp
  also have "ef_drain pin_example_effects q p ?w = ef_drain pin_example_effects q p w"
    using k Suc.hyps(2) [symmetric]
    by (simp add: pin_example_effects_def funpow_Suc_right add.assoc del: funpow.simps)
  finally show ?case .
qed

lemma pin_example_world: "world_only pin_example_env pin_example_effects"
  unfolding world_only_def using pin_example_drain
  by (simp add: pin_example_env_def pin_example_effects_def)

abbreviation pin_timer :: "u64 \<Rightarrow> pin_task timed" where
  "pin_timer d \<equiv> \<lparr>tm_id = Some 0, tm_task = 0, tm_call = Run_Events 0 Count_Event, tm_enabled = True, tm_period = 1, tm_due = d\<rparr>"

lemma pin_timer_next:
  assumes "unat t + 1 < 2 ^ 64"
  shows "tm_advance t [pin_timer d] = [pin_timer (if t < d then d else t + 1)]"
proof (cases "t < d")
  case False
  then have "unat d \<le> unat t" by (simp add: word_less_nat_alt)
  then have "unat d + Suc (unat t - unat d) = unat t + 1" by simp
  then have "word_of_nat (unat d + Suc (unat t - unat d)) = t + (1 :: u64)" by (simp only: of_nat_add) simp
  with False show ?thesis by (simp add: tm_advance_def tm_next_def tm_ready_def)
qed (simp add: tm_advance_def tm_next_def tm_ready_def)

text \<open>From the first poll at \<open>t\<close> on: the event is counted at the next later time.\<close>

lemma pin_example_later:
  assumes "\<forall>t \<in> set ts. unat t + 1 < 2 ^ 64"
  shows "\<exists>oks mcs w'. tm_run pin_example_env pin_example_effects n (loop_ops (\<lambda>t w. w\<lparr>pp_clock := t\<rparr>) ts) ((m, [pin_timer d]), w)
      = (oks, mcs, w') \<and> pp_events w' = pp_events w + (if \<exists>t \<in> set ts. d \<le> t then of_nat (rb_count (pp_source w)) else 0)
    \<and> ops_ok pin_example_env pin_example_effects n (loop_ops (\<lambda>t w. w\<lparr>pp_clock := t\<rparr>) ts) ((m, [pin_timer d]), w)"
  using assms
proof (induction ts arbitrary: w d)
  case (Cons t ts)
  let ?w = "w\<lparr>pp_clock := t\<rparr>" and ?d = "if t < d then d else t + 1"
  let ?w1 = "if t < d then ?w else ef_drain pin_example_effects 0 Count_Event ?w"
  have t: "unat t + 1 < 2 ^ 64" using Cons.prems by simp
  have clk: "en_micros pin_example_env ?w = t" by (simp add: pin_example_env_def)
  have step: "tm_step pin_example_env pin_example_effects n Iterate ((m, [pin_timer d]), ?w) = (True, (m, [pin_timer ?d]), ?w1)"
    unfolding tm_step.simps Let_def clk pin_timer_next [OF t] by (simp add: tm_ready_def tm_effect_def)
  have ok: "op_ok pin_example_env n Iterate ((m, [pin_timer d]), ?w)" using t by (simp add: clk)
  have empty: "rb_count (pp_source (ef_drain pin_example_effects 0 Count_Event ?w)) = 0"
  proof -
    have "rb_count (((\<lambda>s. snd (ring_get s)) ^^ k) s) = rb_count s - k" for k and s :: memory_pin_source
      by (induction k arbitrary: s) (simp_all add: ring_get_def)
    then show ?thesis by (simp add: pin_example_effects_def)
  qed
  have events: "pp_events ?w1 = pp_events w + (if d \<le> t then of_nat (rb_count (pp_source w)) else 0)"
    by (auto simp: pin_example_effects_def)
  have pending: "rb_count (pp_source ?w1) = (if d \<le> t then 0 else rb_count (pp_source w))" using empty by auto
  from Cons.IH [of ?d ?w1] Cons.prems obtain oks mcs w' where
    r: "tm_run pin_example_env pin_example_effects n (loop_ops (\<lambda>t w. w\<lparr>pp_clock := t\<rparr>) ts) ((m, [pin_timer ?d]), ?w1) = (oks, mcs, w')"
      "pp_events w' = pp_events ?w1 + (if \<exists>t \<in> set ts. ?d \<le> t then of_nat (rb_count (pp_source ?w1)) else 0)"
      "ops_ok pin_example_env pin_example_effects n (loop_ops (\<lambda>t w. w\<lparr>pp_clock := t\<rparr>) ts) ((m, [pin_timer ?d]), ?w1)"
    by auto
  have "pp_events w' = pp_events w + (if \<exists>x \<in> set (t # ts). d \<le> x then of_nat (rb_count (pp_source w)) else 0)"
    unfolding r(2) events pending by (cases "d \<le> t") auto
  then show ?case using step ok r(1,3)
    by (simp add: loop_ops_def del: tm_step.simps(9) op_ok.simps(1) set_simps)
qed (simp add: loop_ops_def)

text \<open>
  The pin example on Arduino counts its event exactly if a call of \<open>loop()\<close> comes at a later time than the first.
\<close>

theorem pin_example_counts:
  assumes n: "2 \<le> n" "n \<le> 0xfffe" and at: "a \<le> t" "\<forall>x \<in> set (t # ts). unat x + 1 < 2 ^ 64"
  shows "\<exists>w. pin_example_program n (t # ts) (pin_example_start a) = Some w
    \<and> pp_events w = (if \<exists>x \<in> set ts. t < x then 1 else 0)"
proof -
  let ?env = pin_example_env and ?ef = pin_example_effects and ?at = "\<lambda>t w. w\<lparr>pp_clock := t\<rparr>" and ?w0 = "pin_example_start a"
  let ?sops = "[On_Pins 0 Count_Event 1, Delay 0 Push_Event]"
  let ?send = "\<lparr>tm_id = Some 1, tm_task = 1, tm_call = Run_Once Push_Event, tm_enabled = True, tm_period = 0, tm_due = a\<rparr>"
  have free: "tm_free n ([] :: pin_task timed list) = Some 0" "tm_free n [pin_timer a] = Some 1"
    using n(1) by (simp_all add: tm_free_def upt_conv_Cons)
  have clk: "en_micros ?env w = pp_clock w" for w by (simp add: pin_example_env_def)
  have c0: "pp_clock ?w0 = a" by (simp add: pin_example_start_def)
  have da: "due_after a 0 = a" by (simp add: due_after_def)
  have steps: "tm_run ?env ?ef n ?sops ((0, []), ?w0) = ([True, True], (2, [pin_timer a, ?send]), ?w0)"
    and ok: "ops_ok ?env ?ef n ?sops ((0, []), ?w0)"
    using n(1) free da by (simp_all add: tm_add_def clk c0 poll_period_def)
  have su: "\<exists>oks hs. app_run ?env ?sops ([], st) = Some (oks, hs, pin_example_setup ?env Count_Event Push_Event st)" for st
    by (simp add: pin_example_setup_def Let_def el_on_delay_def app_register_def split: prod.split)
  let ?w1 = "?w0\<lparr>pp_clock := t, pp_source := snd (mp_push (pin_example_event t) (pp_source ?w0))\<rparr>"
  have due: "\<not> t < a" "unat t + 1 < 2 ^ 64" using at by simp_all
  have adv: "tm_advance t [pin_timer a, ?send] = [pin_timer (t + 1)]"
  proof -
    have "tm_advance t [pin_timer a, ?send] = tm_advance t [pin_timer a] @ tm_advance t [?send]"
      by (simp add: tm_advance_def)
    moreover have "tm_advance t [?send] = []" using due(1) by (simp add: tm_advance_def tm_ready_def)
    ultimately show ?thesis using pin_timer_next [OF due(2), of a] due(1) by simp
  qed
  have eff: "fold (tm_effect ?env ?ef t) (filter (tm_ready t) [pin_timer a, ?send]) (?at t ?w0) = ?w1"
    using due(1) by (simp add: tm_ready_def tm_effect_def) (simp add: pin_example_effects_def pin_example_start_def ring_init_def)
  have first: "tm_step ?env ?ef n Iterate ((2, [pin_timer a, ?send]), ?at t ?w0) = (True, (2, [pin_timer (t + 1)]), ?w1)"
    using eff adv unfolding tm_step.simps Let_def by (simp add: clk)
  have okf: "op_ok ?env n Iterate ((2, [pin_timer a, ?send]), ?at t ?w0)" using due(2) by (simp add: clk)
  have src: "rb_count (pp_source ?w1) = 1" "pp_events ?w1 = 0"
    by (simp_all add: pin_example_start_def mp_push_def ring_init_def ring_capacity_def ring_put_def)
  from pin_example_later [of ts n 2 "t + 1" ?w1] at(2) src obtain oks mcs w2 where
    rest: "tm_run ?env ?ef n (loop_ops ?at ts) ((2, [pin_timer (t + 1)]), ?w1) = (oks, mcs, w2)"
      "pp_events w2 = (if \<exists>x \<in> set ts. t + 1 \<le> x then 1 else 0)" "ops_ok ?env ?ef n (loop_ops ?at ts) ((2, [pin_timer (t + 1)]), ?w1)"
    by auto
  have run: "tm_run ?env ?ef n (loop_ops ?at (t # ts)) ((2, [pin_timer a, ?send]), ?w0) = (True # True # oks, mcs, w2)"
    "ops_ok ?env ?ef n (loop_ops ?at (t # ts)) ((2, [pin_timer a, ?send]), ?w0)"
    using first okf rest by (simp_all add: loop_ops_def del: tm_step.simps(9) op_ok.simps(1))
  have "\<exists>s l. loop_calls ?at ?env (t # ts) (pin_example_setup ?env Count_Event Push_Event (al_init n, el_init n, ?w0)) = Some (s, l, w2)"
    by (rule loop_calls_refine [OF pin_example_world n(2) su _ ok run]) (use steps in blast)
  moreover have "t + 1 \<le> x \<longleftrightarrow> t < x" for x using due(2) by (simp add: word_le_nat_alt word_less_nat_alt unat_add_no_wrap Suc_le_eq)
  ultimately show ?thesis using rest(2)
    by (intro exI [of _ w2]) (auto simp: pin_example_program_def)
qed

section \<open>The timer\<close>

definition timer_example_env :: "(unit, arduino_loop, u64 \<times> u32) el_env" where
  "timer_example_env =
     \<lparr>en_ops = al_ops, en_micros = fst, en_readable = (\<lambda>q w. False), en_stream_fd = (\<lambda>q w. - 1), en_source_fd = (\<lambda>q w. - 1),
      en_read_event = (\<lambda>q w. Some (None, w)), en_run = (\<lambda>p (s, l, now, timer_count). Some (s, l, now, timer_count + 1)),
      en_run_pin = (\<lambda>p ev st. Some st), en_external = (\<lambda>t now st. Some st)\<rparr>"

definition timer_example_program :: "nat \<Rightarrow> u64 list \<Rightarrow> u64 \<times> u32 \<Rightarrow> (u64 \<times> u32) option" where
  "timer_example_program n ts w =
     map_option (\<lambda>(s, l, w). w)
       (loop_calls (\<lambda>t (now, timer_count). (t, timer_count)) timer_example_env ts
         (snd (el_on_delay timer_example_env 0 () (al_init n, el_init n, w))))"

text \<open>However often \<open>loop()\<close> is called on Arduino, the delayed callback has run once; its slot is free again.\<close>

theorem timer_example_counts:
  assumes n: "1 \<le> n" "n \<le> 0xfffe" and at: "a \<le> t"
  shows "\<exists>w. timer_example_program n (t # ts) (a, 0) = Some w \<and> snd w = 1"
proof -
  let ?env = timer_example_env and ?at = "\<lambda>t (now :: u64, timer_count :: u32). (t, timer_count)"
  let ?ef = "\<lparr>ef_run = (\<lambda>p (now, timer_count). (now, timer_count + 1)), ef_drain = (\<lambda>q p w. w), ef_extern = (\<lambda>t now w. w)\<rparr>"
  let ?c = "\<lparr>tm_id = Some 0, tm_task = 0, tm_call = Run_Once (), tm_enabled = True, tm_period = 0, tm_due = a\<rparr>"
  have world: "world_only ?env ?ef" by (simp add: world_only_def timer_example_env_def el_drain_pins.simps)
  have free: "tm_free n ([] :: unit timed list) = Some 0" using n(1) by (simp add: tm_free_def upt_conv_Cons)
  have clk: "en_micros ?env w = fst w" for w by (simp add: timer_example_env_def)
  have steps: "tm_run ?env ?ef n [Delay 0 ()] ((0, []), a, 0) = ([True], (1, [?c]), a, 0)"
    and ok: "ops_ok ?env ?ef n [Delay 0 ()] ((0, []), a, 0)"
    using n(1) free by (simp_all add: tm_add_def clk due_after_def)
  have su: "\<exists>oks hs. app_run ?env [Delay 0 ()] ([], st) = Some (oks, hs, snd (el_on_delay ?env 0 () st))" for st
    by (simp add: el_on_delay_def app_register_def split: prod.split)
  have first: "tm_step ?env ?ef n Iterate ((1, [?c]), ?at t (a, 0)) = (True, (1, []), t, 1)"
    using at by (simp add: clk tm_ready_def tm_advance_def tm_effect_def)
  have rest: "\<exists>oks t1. tm_run ?env ?ef n (loop_ops ?at ts) ((1, []), t0, 1) = (oks, (1, []), t1, 1)
      \<and> ops_ok ?env ?ef n (loop_ops ?at ts) ((1, []), t0, 1)" for t0
  proof (induction ts arbitrary: t0)
    case (Cons x ts)
    from Cons.IH [of x] obtain oks t1 where
      "tm_run ?env ?ef n (loop_ops ?at ts) ((1, []), x, 1) = (oks, (1, []), t1, 1)" "ops_ok ?env ?ef n (loop_ops ?at ts) ((1, []), x, 1)"
      by blast
    then show ?case by (simp add: loop_ops_def tm_advance_def)
  qed (simp add: loop_ops_def)
  from rest [of t] obtain oks t1 where r: "tm_run ?env ?ef n (loop_ops ?at ts) ((1, []), t, 1) = (oks, (1, []), t1, 1)"
    "ops_ok ?env ?ef n (loop_ops ?at ts) ((1, []), t, 1)" by blast
  have run: "tm_run ?env ?ef n (loop_ops ?at (t # ts)) ((1, [?c]), a, 0) = (True # True # oks, (1, []), t1, 1)"
    "ops_ok ?env ?ef n (loop_ops ?at (t # ts)) ((1, [?c]), a, 0)"
    using first r by (simp_all add: loop_ops_def del: tm_step.simps(9))
  have "\<exists>s l. loop_calls ?at ?env (t # ts) (snd (el_on_delay ?env 0 () (al_init n, el_init n, a, 0))) = Some (s, l, t1, 1)"
    by (rule loop_calls_refine [OF world n(2) su _ ok run]) (use steps in blast)
  then show ?thesis by (auto simp: timer_example_program_def)
qed

end
