(* ===== verification/Line_Examples.thy ===== *)
theory Line_Examples
  imports Integrated_Example Memory_Examples Arduino_Io
begin

text \<open>
  The examples that answer lines: \<^verbatim>\<open>SerialLineProtocolExample\<close> on a serial line and \<^verbatim>\<open>LinuxFifoIpcExample\<close> on a
  pair of FIFOs (\<^verbatim>\<open>src/examples/\<close>). Each line is sent back with a prefix, and a numbered line is sent every
  second. The tasks are written once over the port, a stream to read from and an operation to write.
\<close>

section \<open>Streams that are always readable\<close>

text \<open>
  The streams on descriptors say that they are readable as long as they are open. What a reader can rely on:
  a read of an empty stream returns no byte and takes nothing.
\<close>

locale open_source =
  fixes st :: "'w byte_stream" and content :: "'w \<Rightarrow> byte list" and rest :: "'w \<Rightarrow> 'o" and winv :: "'w \<Rightarrow> bool"
  assumes read_empty: "winv w \<Longrightarrow> content w = [] \<Longrightarrow> bs_readable st w \<Longrightarrow>
      \<exists>n bytes w'. bs_read st 1 w = (n, bytes, w') \<and> n \<le> 0 \<and> content w' = [] \<and> rest w' = rest w \<and> winv w'"
    and read_next: "winv w \<Longrightarrow> content w = b # bs \<Longrightarrow> bs_readable st w
      \<and> (\<exists>w'. bs_read st 1 w = (1, [b], w') \<and> content w' = bs \<and> rest w' = rest w \<and> winv w')"
begin

lemma deliver_open:
  assumes "\<And>v w. winv w \<Longrightarrow> winv (cb v w) \<and> content (cb v w) = content w \<and> rest (cb v w) = f v (rest w)" "winv w"
  shows "winv (deliver cb vs w) \<and> content (deliver cb vs w) = content w \<and> rest (deliver cb vs w) = deliver f vs (rest w)"
  using assms(2) by (induction vs arbitrary: w) (simp_all add: assms(1))

text \<open>A reader that is polled returns, has read everything and delivered what was complete.\<close>

lemma poll_open:
  assumes cb: "\<And>v w. winv w \<Longrightarrow> winv (cb v w) \<and> content (cb v w) = content w \<and> rest (cb v w) = f v (rest w)"
    and "winv w" "feed consume (content w) r = (r', vs)"
  shows "\<exists>w'. poll_loop st (reader_step consume cb) (r, w) = Some (r', w') \<and> winv w' \<and> content w' = []
    \<and> rest w' = deliver f vs (rest w)"
  using assms(2,3)
proof (induction "content w" arbitrary: r w vs)
  case Nil
  show ?case
  proof (cases "bs_readable st w")
    case True
    with read_empty [of w] Nil obtain n bytes w' where
      "bs_read st 1 w = (n, bytes, w')" "n \<le> 0" "content w' = []" "rest w' = rest w" "winv w'" by metis
    moreover from this True have "poll_loop st (reader_step consume cb) (r, w) = Some (r, w')"
      by (simp add: poll_loop.simps [of _ _ "(r, w)"])
    ultimately show ?thesis using Nil by auto
  qed (use Nil in \<open>simp add: poll_loop.simps\<close>)
next
  case (Cons b bs)
  from read_next [OF Cons.prems(1) Cons.hyps(2) [symmetric]] obtain w1 where
    w1: "bs_readable st w" "bs_read st 1 w = (1, [b], w1)" "content w1 = bs" "rest w1 = rest w" "winv w1" by blast
  obtain r1 us where c: "consume b r = (r1, us)" by fastforce
  obtain vs1 where f: "feed consume bs r1 = (r', vs1)" "vs = us @ vs1"
    using Cons.prems(2) c unfolding Cons.hyps(2) [symmetric] by (auto split: prod.splits)
  let ?w2 = "deliver cb us w1"
  have d: "winv ?w2 \<and> content ?w2 = content w1 \<and> rest ?w2 = deliver f us (rest w1)"
    by (rule deliver_open [where cb = cb and f = f, OF _ w1(5)]) (rule cb)
  have "poll_loop st (reader_step consume cb) (r, w) = poll_loop st (reader_step consume cb) (r1, ?w2)"
    using w1 c by (simp add: poll_loop.simps [of _ _ "(r, w)"] reader_step_def)
  with Cons.hyps(1) [of ?w2 r1 vs1] d w1 f show ?case by auto
qed

end

text \<open>A stream that is readable while it has bytes keeps this contract too.\<close>

sublocale byte_source < open_source
  using readable_iff read_one by unfold_locales auto

context byte_source
begin

lemma always_open: "open_source st content rest winv"
  by unfold_locales

end

section \<open>The port and the tasks\<close>

record 'w line_port =
  lp_in :: "'w byte_stream"
  lp_write :: "byte list \<Rightarrow> 'w \<Rightarrow> int \<times> 'w"

text \<open>The serial line on Arduino, and on Linux when it is open.\<close>

definition arduino_port :: "'w serial_port \<Rightarrow> 'w line_port" where
  "arduino_port ops = \<lparr>lp_in = as_stream ops, lp_write = (\<lambda>bytes. as_write ops (Some bytes))\<rparr>"

definition tty_port :: "'w fd_ops \<Rightarrow> int \<Rightarrow> 'w line_port" where
  "tty_port fds fd =
     \<lparr>lp_in = \<lparr>bs_readable = (\<lambda>w. fd \<ge> 0), bs_read = (\<lambda>n. serial_read fds False n fd)\<rparr>,
      lp_write = (\<lambda>bytes. serial_write fds (Some bytes) fd)\<rparr>"

record line_app =
  la_tx_count :: u32
  la_lines :: line_reader

definition line_app_init :: "nat \<Rightarrow> line_app" where
  "line_app_init n = \<lparr>la_tx_count = 0, la_lines = line_init n\<rparr>"

definition port_write_text :: "'w line_port \<Rightarrow> byte list \<Rightarrow> 'w \<Rightarrow> 'w" where
  "port_write_text pt s w = snd (lp_write pt (take (text_len (Some s)) s) w)"

definition port_write_uint32 :: "'w line_port \<Rightarrow> u32 \<Rightarrow> 'w \<Rightarrow> 'w" where
  "port_write_uint32 pt v w = write_each (lp_write pt) (uint_digits 10 v) w"

definition write_outbound_line :: "'w line_port \<Rightarrow> line_app \<times> 'w \<Rightarrow> line_app \<times> 'w" where
  "write_outbound_line pt aw =
     (case aw of (a, w) \<Rightarrow>
        (a\<lparr>la_tx_count := la_tx_count a + 1\<rparr>,
         port_write_text pt [chr_lf] (port_write_uint32 pt (la_tx_count a) (port_write_text pt (bytes_of ''tx: '') w))))"

definition answer_line :: "'w line_port \<Rightarrow> byte list \<Rightarrow> 'w \<Rightarrow> 'w" where
  "answer_line pt line w =
     (let w1 = port_write_text pt (bytes_of ''rx: '') w;
          w2 = (if length line > 0 then snd (lp_write pt line w1) else w1)
      in port_write_text pt [chr_lf] w2)"

definition poll_lines :: "'w line_port \<Rightarrow> line_app \<times> 'w \<Rightarrow> (line_app \<times> 'w) option" where
  "poll_lines pt aw =
     (case aw of (a, w) \<Rightarrow>
        map_option (\<lambda>(r, w'). (a\<lparr>la_lines := r\<rparr>, w')) (line_poll (lp_in pt) line_options_default (answer_line pt) (la_lines a, w)))"

datatype port_task = Poll_Lines | Send_Line

fun port_run :: "'w line_port \<Rightarrow> port_task \<Rightarrow> line_app \<times> 'w \<Rightarrow> (line_app \<times> 'w) option" where
  "port_run pt Poll_Lines aw = poll_lines pt aw"
| "port_run pt Send_Line aw = Some (write_outbound_line pt aw)"

section \<open>The messages\<close>

text \<open>What goes out on the port: the answer to a line, or a numbered line.\<close>

datatype message = Rx "byte list" | Tx u32

primrec message_text :: "message \<Rightarrow> byte list" where
  "message_text (Rx line) = bytes_of ''rx: '' @ line @ [chr_lf]"
| "message_text (Tx n) = bytes_of ''tx: '' @ rev (uint_digits 10 n) @ [chr_lf]"

definition answered :: "message list \<Rightarrow> byte list list" where
  "answered msgs = concat (map (\<lambda>m. case m of Rx line \<Rightarrow> [line] | Tx n \<Rightarrow> []) msgs)"

definition numbered :: "message list \<Rightarrow> u32 list" where
  "numbered msgs = concat (map (\<lambda>m. case m of Rx line \<Rightarrow> [] | Tx n \<Rightarrow> [n]) msgs)"

lemma message_lists [simp]:
  "answered [] = []" "numbered [] = []" "answered (xs @ ys) = answered xs @ answered ys" "numbered (xs @ ys) = numbered xs @ numbered ys"
  "answered [Tx n] = []" "numbered [Tx n] = [n]" "answered (map Rx ls) = ls" "numbered (map Rx ls) = []"
  by (simp_all add: answered_def numbered_def o_def)

text \<open>A line peer: what has come, what is still to be read of it, and what has been sent.\<close>

definition line_peer ::
  "'w line_port \<Rightarrow> ('w \<Rightarrow> byte list) \<Rightarrow> ('w \<Rightarrow> byte list) \<Rightarrow> ('w \<Rightarrow> byte list) \<Rightarrow> ('w \<Rightarrow> bool) \<Rightarrow> bool" where
  "line_peer pt content arrived out winv \<longleftrightarrow>
     open_source (lp_in pt) content (\<lambda>w. (arrived w, out w)) winv
     \<and> (\<forall>bytes w. winv w \<longrightarrow> (case lp_write pt bytes w of (n, w1) \<Rightarrow>
          winv w1 \<and> content w1 = content w \<and> arrived w1 = arrived w \<and> out w1 = out w @ bytes))"

text \<open>Between the two: the messages sent so far, \<open>k\<close> of them numbered lines, and the bytes consumed.\<close>

definition port_inv ::
  "('w \<Rightarrow> byte list) \<Rightarrow> ('w \<Rightarrow> byte list) \<Rightarrow> ('w \<Rightarrow> byte list) \<Rightarrow> ('w \<Rightarrow> bool) \<Rightarrow> nat \<Rightarrow> byte list \<Rightarrow> nat \<Rightarrow> line_app \<times> 'w \<Rightarrow> bool" where
  "port_inv content arrived out winv n start k aw \<longleftrightarrow> (case aw of (a, w) \<Rightarrow>
     winv w \<and> (\<exists>msgs consumed. arrived w = consumed @ content w
       \<and> feed (line_byte line_options_default) consumed (line_init n) = (la_lines a, answered msgs)
       \<and> out w = start @ concat (map message_text msgs) \<and> numbered msgs = map of_nat [0..<k] \<and> la_tx_count a = of_nat k))"

lemma port_write:
  assumes "line_peer pt content arrived out winv" "winv w"
  shows "winv (snd (lp_write pt bytes w)) \<and> content (snd (lp_write pt bytes w)) = content w
    \<and> arrived (snd (lp_write pt bytes w)) = arrived w \<and> out (snd (lp_write pt bytes w)) = out w @ bytes"
  using assms by (auto simp: line_peer_def case_prod_unfold)

lemma port_text:
  assumes "line_peer pt content arrived out winv" "winv w"
  shows "winv (port_write_text pt s w) \<and> content (port_write_text pt s w) = content w
    \<and> arrived (port_write_text pt s w) = arrived w \<and> out (port_write_text pt s w) = out w @ c_string s"
proof -
  have "take (length (c_string s)) s = c_string s" unfolding c_string_def by (rule takeWhile_eq_take [symmetric])
  with port_write [OF assms, of "c_string s"] show ?thesis by (simp add: port_write_text_def text_len_def)
qed

lemma port_uint32:
  assumes peer: "line_peer pt content arrived out winv" and "winv w"
  shows "winv (port_write_uint32 pt v w) \<and> content (port_write_uint32 pt v w) = content w
    \<and> arrived (port_write_uint32 pt v w) = arrived w \<and> out (port_write_uint32 pt v w) = out w @ rev (uint_digits 10 v)"
proof -
  have "winv x \<and> content x = content w \<and> arrived x = arrived w \<and> out x = out w @ ds"
    if "x = fold (\<lambda>d w. snd (lp_write pt [d] w)) ds w" "winv w" for ds x w
    using that
  proof (induction ds arbitrary: w)
    case (Cons d ds)
    with port_write [OF peer Cons.prems(2), of "[d]"] Cons.IH [of "snd (lp_write pt [d] w)"] show ?case by simp
  qed simp
  from this [OF refl assms(2)] show ?thesis by (simp add: port_write_uint32_def write_each_def)
qed

text \<open>What the two tasks keep, and that a poll returns and reads everything.\<close>

lemma answer_line_peer:
  assumes peer: "line_peer pt content arrived out winv" and w: "winv w"
  shows "winv (answer_line pt line w) \<and> content (answer_line pt line w) = content w
    \<and> (arrived (answer_line pt line w), out (answer_line pt line w)) = (arrived w, out w @ message_text (Rx line))"
proof -
  have c: "c_string (bytes_of ''rx: '') = bytes_of ''rx: ''" by (simp add: c_string_def bytes_of_def)
  let ?w1 = "port_write_text pt (bytes_of ''rx: '') w"
  let ?w2 = "if length line > 0 then snd (lp_write pt line ?w1) else ?w1"
  note 1 = port_text [OF peer w, of "bytes_of ''rx: ''", unfolded c]
  have 2: "winv ?w2 \<and> content ?w2 = content w \<and> arrived ?w2 = arrived w \<and> out ?w2 = out w @ bytes_of ''rx: '' @ line"
    using 1 port_write [OF peer, of ?w1 line] by auto
  with port_text [OF peer, of ?w2 "[chr_lf]"] show ?thesis by (simp add: answer_line_def Let_def literal_texts)
qed

lemma poll_lines_keeps:
  assumes peer: "line_peer pt content arrived out winv" and inv: "port_inv content arrived out winv n start k (a, w)"
  shows "\<exists>a' w'. poll_lines pt (a, w) = Some (a', w') \<and> port_inv content arrived out winv n start k (a', w') \<and> content w' = []
    \<and> arrived w' = arrived w"
proof -
  from inv obtain msgs consumed where w: "winv w" and i: "arrived w = consumed @ content w"
    "feed (line_byte line_options_default) consumed (line_init n) = (la_lines a, answered msgs)"
    "out w = start @ concat (map message_text msgs)" "numbered msgs = map of_nat [0..<k]" "la_tx_count a = of_nat k"
    by (auto simp: port_inv_def)
  obtain r vs where f: "feed (line_byte line_options_default) (content w) (la_lines a) = (r, vs)" by fastforce
  have "open_source (lp_in pt) content (\<lambda>w. (arrived w, out w)) winv" using peer by (simp add: line_peer_def)
  from open_source.poll_open [OF this, of "answer_line pt" "\<lambda>l (b, t). (b, t @ message_text (Rx l))", OF _ w f]
    answer_line_peer [OF peer] obtain w' where
    p: "poll_loop (lp_in pt) (reader_step (line_byte line_options_default) (answer_line pt)) (la_lines a, w) = Some (r, w')"
      "winv w'" "content w' = []" "(arrived w', out w') = deliver (\<lambda>l (b, t). (b, t @ message_text (Rx l))) vs (arrived w, out w)"
    by auto
  have "deliver (\<lambda>l (b, t). (b, t @ message_text (Rx l))) vs (b, t) = (b, t @ concat (map message_text (map Rx vs)))" for b t :: "byte list"
    by (induction vs arbitrary: t) simp_all
  with p(4) have o: "arrived w' = arrived w" "out w' = out w @ concat (map message_text (map Rx vs))" by simp_all
  have "port_inv content arrived out winv n start k (a\<lparr>la_lines := r\<rparr>, w')"
    unfolding port_inv_def prod.case
    by (intro conjI exI [of _ "msgs @ map Rx vs"] exI [of _ "consumed @ content w"])
      (use i o p(2,3) feed_append_eq [OF i(2) f] in simp_all)
  with p o(1) show ?thesis by (auto simp: poll_lines_def line_poll_def)
qed

lemma poll_lines_returns:
  assumes peer: "line_peer pt content arrived out winv" and w: "winv w"
  shows "poll_lines pt (a, w) \<noteq> None"
proof -
  obtain r vs where f: "feed (line_byte line_options_default) (content w) (la_lines a) = (r, vs)" by fastforce
  have "open_source (lp_in pt) content (\<lambda>w. (arrived w, out w)) winv" using peer by (simp add: line_peer_def)
  from open_source.poll_open [OF this, of "answer_line pt" "\<lambda>l (b, t). (b, t @ message_text (Rx l))", OF _ w f]
    answer_line_peer [OF peer] show ?thesis by (auto simp: poll_lines_def line_poll_def)
qed

lemma write_outbound_keeps:
  assumes peer: "line_peer pt content arrived out winv" and inv: "port_inv content arrived out winv n start k (a, w)"
  shows "port_inv content arrived out winv n start (Suc k) (write_outbound_line pt (a, w))"
proof -
  from inv obtain msgs consumed where w: "winv w" and i: "arrived w = consumed @ content w"
    "feed (line_byte line_options_default) consumed (line_init n) = (la_lines a, answered msgs)"
    "out w = start @ concat (map message_text msgs)" "numbered msgs = map of_nat [0..<k]" "la_tx_count a = of_nat k"
    by (auto simp: port_inv_def)
  have c: "c_string (bytes_of ''tx: '') = bytes_of ''tx: ''" by (simp add: c_string_def bytes_of_def)
  let ?w1 = "port_write_text pt (bytes_of ''tx: '') w"
  let ?w2 = "port_write_uint32 pt (la_tx_count a) ?w1"
  let ?w3 = "port_write_text pt [chr_lf] ?w2"
  have "winv ?w3 \<and> content ?w3 = content w \<and> arrived ?w3 = arrived w \<and> out ?w3 = out w @ message_text (Tx (la_tx_count a))"
    using port_text [OF peer w, of "bytes_of ''tx: ''", unfolded c] port_uint32 [OF peer, of ?w1 "la_tx_count a"]
      port_text [OF peer, of ?w2 "[chr_lf]"] by (simp add: literal_texts)
  then show ?thesis
    unfolding port_inv_def write_outbound_line_def prod.case
    by (intro conjI exI [of _ "msgs @ [Tx (la_tx_count a)]"] exI [of _ consumed]) (use i in simp_all)
qed

text \<open>When everything has been read, the answers are those to the lines that have come.\<close>

lemma port_inv_lines:
  assumes "port_inv content arrived out winv n start k (a, w)" "content w = []" "arrived w = join_lines chr_lf ls rest"
    "\<forall>l \<in> set ls. chr_lf \<notin> set l" "chr_lf \<notin> set rest"
  shows "\<exists>msgs. out w = start @ concat (map message_text msgs) \<and> answered msgs = map (emitted_line line_options_default n) ls
    \<and> numbered msgs = map of_nat [0..<k]"
proof -
  from assms(1,2) obtain msgs where i:
    "feed (line_byte line_options_default) (arrived w) (line_init n) = (la_lines a, answered msgs)"
    "out w = start @ concat (map message_text msgs)" "numbered msgs = map of_nat [0..<k]"
    by (auto simp: port_inv_def)
  have d: "lo_delimiter line_options_default = chr_lf" by (simp add: line_options_default_def)
  from line_feed_lines [OF line_inv_init line_pending_init, of ls line_options_default rest n] assms(3-5) i(1)
  have "answered msgs = map (emitted_line line_options_default n) ls" by (auto simp: d)
  with i show ?thesis by blast
qed

section \<open>The serial example on Arduino\<close>

definition port_env ::
  "'w line_port \<Rightarrow> ('w \<Rightarrow> u64) \<Rightarrow> (port_task, arduino_loop, line_app \<times> 'w) el_env" where
  "port_env pt clock =
     \<lparr>en_ops = al_ops, en_micros = (\<lambda>(a, w). clock w), en_readable = (\<lambda>q (a, w). bs_readable (lp_in pt) w),
      en_stream_fd = (\<lambda>q aw. - 1), en_source_fd = (\<lambda>q aw. - 1), en_read_event = (\<lambda>q aw. Some (None, aw)),
      en_run = (\<lambda>p (s, l, aw). map_option (\<lambda>aw1. (s, l, aw1)) (port_run pt p aw)), en_run_pin = (\<lambda>p ev st. Some st),
      en_external = (\<lambda>t now st. Some st)\<rparr>"

definition port_setup :: "(port_task, 's, 'w) el_env \<Rightarrow> (port_task, 's, 'w) el_state \<Rightarrow> (port_task, 's, 'w) el_state" where
  "port_setup env st =
     (let st1 = snd (el_on_bytes_ready env 0 Poll_Lines default_readiness_poll_us st)
      in snd (el_on_repeat env 1000 Send_Line st1))"

definition ready_text :: "byte list" where
  "ready_text = bytes_of ''serial line protocol read/write ready'' @ [chr_lf]"

definition serial_setup ::
  "'w line_port \<Rightarrow> (port_task, 's, line_app \<times> 'w) el_env \<Rightarrow> (port_task, 's, line_app \<times> 'w) el_state
     \<Rightarrow> (port_task, 's, line_app \<times> 'w) el_state" where
  "serial_setup pt env st = (case port_setup env st of (s, l, a, w) \<Rightarrow> (s, l, a, port_write_text pt ready_text w))"

text \<open>On Linux \<open>setup_example\<close> opens the device first.\<close>

definition serial_setup_linux ::
  "'w fd_ops \<Rightarrow> (int \<Rightarrow> (port_task, 's, line_app \<times> 'w) el_env) \<Rightarrow> string option \<Rightarrow> u64
     \<Rightarrow> (port_task, 's, line_app \<times> 'w) el_state \<Rightarrow> bool \<times> int \<times> (port_task, 's, line_app \<times> 'w) el_state" where
  "serial_setup_linux fds env device baud st =
     (case st of (s, l, a, w) \<Rightarrow>
        case serial_open fds device baud (- 1, w) of (ok, fd, w1) \<Rightarrow>
          if ok then (True, fd, serial_setup (tty_port fds fd) (env fd) (s, l, a, w1)) else (False, fd, s, l, a, w1))"

definition port_act :: "'w line_port \<Rightarrow> port_task \<Rightarrow> line_app \<times> 'w \<Rightarrow> line_app \<times> 'w" where
  "port_act pt p aw = the (port_run pt p aw)"

definition port_effects :: "'w line_port \<Rightarrow> (port_task, line_app \<times> 'w) effects" where
  "port_effects pt = \<lparr>ef_run = port_act pt, ef_drain = (\<lambda>q p aw. aw), ef_extern = (\<lambda>t now aw. aw)\<rparr>"

text \<open>What \<open>serial_setup\<close> does, as calls and as timed callbacks.\<close>

definition serial_ops :: "'w line_port \<Rightarrow> (port_task, line_app \<times> 'w) app_op list" where
  "serial_ops pt = [On_Bytes 0 Poll_Lines 1000, Repeat 1000000 Send_Line, Outside (\<lambda>(a, w). (a, port_write_text pt ready_text w))]"

definition port_timers :: "u64 \<Rightarrow> u64 \<Rightarrow> port_task timed list" where
  "port_timers d e =
     [\<lparr>tm_id = Some 0, tm_task = 0, tm_call = Run_Ready 0 Poll_Lines, tm_enabled = True, tm_period = 1000, tm_due = d\<rparr>,
      \<lparr>tm_id = Some 1, tm_task = 1, tm_call = Run Send_Line, tm_enabled = True, tm_period = 1000000, tm_due = e\<rparr>]"

lemma serial_setup_run:
  "\<exists>oks hs. app_run env (serial_ops pt) ([], st) = Some (oks, hs, serial_setup pt env st)"
  by (simp add: serial_ops_def serial_setup_def port_setup_def Let_def el_on_repeat_def default_readiness_poll_us_def
      app_register_def split: prod.split)

lemma serial_setup_timers:
  assumes "2 \<le> n"
  shows "tm_run (port_env pt clock) ef n (serial_ops pt) ((0, []), a, w)
      = ([True, True, True], (2, port_timers (clock w) (clock w)), a, port_write_text pt ready_text w)"
    and "ops_ok (port_env pt clock) ef n (serial_ops pt) ((0, []), a, w)"
proof -
  have f: "tm_free n ([] :: port_task timed list) = Some 0" "tm_free n [hd (port_timers d e)] = Some 1" for d e
    using assms by (simp_all add: tm_free_def upt_conv_Cons port_timers_def)
  show "tm_run (port_env pt clock) ef n (serial_ops pt) ((0, []), a, w)
      = ([True, True, True], (2, port_timers (clock w) (clock w)), a, port_write_text pt ready_text w)"
    using assms f(1) f(2) [of "clock w" "clock w"] by (simp add: serial_ops_def port_timers_def tm_add_def poll_period_def port_env_def)
  show "ops_ok (port_env pt clock) ef n (serial_ops pt) ((0, []), a, w)"
    using assms f(1) by (simp add: serial_ops_def tm_add_def poll_period_def)
qed

text \<open>Calls of \<open>loop()\<close>; between them bytes arrive and time passes.\<close>

definition port_calls ::
  "('w \<Rightarrow> byte list) \<Rightarrow> ('w \<Rightarrow> byte list) \<Rightarrow> ('w \<Rightarrow> byte list) \<Rightarrow> ('w \<Rightarrow> bool) \<Rightarrow> ('w \<Rightarrow> u64)
     \<Rightarrow> (port_task, line_app \<times> 'w) app_op list \<Rightarrow> bool" where
  "port_calls content arrived out winv clock ops \<longleftrightarrow> (\<forall>op \<in> set ops. op = Iterate \<or>
     (\<exists>f. op = Outside f \<and> (\<forall>a w. winv w \<longrightarrow> (\<exists>w' bs. f (a, w) = (a, w') \<and> winv w' \<and> content w' = content w @ bs
        \<and> arrived w' = arrived w @ bs \<and> out w' = out w \<and> clock w \<le> clock w'))))"

lemma port_calls_append:
  "port_calls content arrived out winv clock (xs @ ys)
     \<longleftrightarrow> port_calls content arrived out winv clock xs \<and> port_calls content arrived out winv clock ys"
  by (auto simp: port_calls_def ball_Un)

lemma port_world:
  assumes "\<And>aw. poll_lines pt aw \<noteq> None"
  shows "world_only (port_env pt clock) (port_effects pt)"
proof -
  have "port_run pt p aw = Some (port_act pt p aw)" for p aw
    using assms [of aw] by (cases p) (auto simp: port_act_def)
  then show ?thesis
    unfolding world_only_def port_env_def port_effects_def
    by (simp add: el_drain_pins.simps del: split_paired_All)
qed

text \<open>The Arduino serial line as a line peer.\<close>

definition serial_peer :: "'w serial_port \<Rightarrow> ('w \<Rightarrow> byte list) \<Rightarrow> ('w \<Rightarrow> byte list) \<Rightarrow> ('w \<Rightarrow> byte list) \<Rightarrow> bool" where
  "serial_peer ops content arrived out \<longleftrightarrow>
     serial_source ops content (\<lambda>w. (arrived w, out w))
     \<and> (\<forall>bytes w. case sp_write ops bytes w of (n, w1) \<Rightarrow>
          content w1 = content w \<and> arrived w1 = arrived w \<and> out w1 = out w @ bytes)"

lemma serial_peer_line:
  assumes "serial_peer ops content arrived out"
  shows "line_peer (arduino_port ops) content arrived out (\<lambda>w. True)"
proof -
  have "byte_source (as_stream ops) content (\<lambda>w. (arrived w, out w)) (\<lambda>w. True)"
    using assms by (simp add: serial_peer_def as_stream_source)
  then have "open_source (as_stream ops) content (\<lambda>w. (arrived w, out w)) (\<lambda>w. True)"
    by (rule byte_source.always_open)
  with assms show ?thesis by (simp add: line_peer_def arduino_port_def as_write_def serial_peer_def case_prod_unfold)
qed

text \<open>A clock that reading and writing may move forward only.\<close>

definition port_clock :: "'w line_port \<Rightarrow> ('w \<Rightarrow> u64) \<Rightarrow> bool" where
  "port_clock pt clock \<longleftrightarrow> (\<forall>bytes w. clock w \<le> clock (snd (lp_write pt bytes w)))
     \<and> (\<forall>m w. clock w \<le> clock (snd (snd (bs_read (lp_in pt) m w))))"

lemma port_clock_text:
  assumes "port_clock pt clock"
  shows "clock w \<le> clock (port_write_text pt s w)" "clock w \<le> clock (port_write_uint32 pt v w)" "clock w \<le> clock (answer_line pt line w)"
proof -
  have wr: "clock w \<le> clock (snd (lp_write pt bytes w))" for bytes w using assms by (simp add: port_clock_def)
  have fo: "clock w \<le> clock (fold (\<lambda>d w. snd (lp_write pt [d] w)) ds w)" for ds
    by (induction ds arbitrary: w) (auto intro: order_trans [OF wr])
  show t: "clock w \<le> clock (port_write_text pt s w)" for s w by (simp add: port_write_text_def wr)
  show "clock w \<le> clock (port_write_uint32 pt v w)" by (simp add: port_write_uint32_def write_each_def fo)
  show "clock w \<le> clock (answer_line pt line w)"
    unfolding answer_line_def Let_def
    by (rule order_trans [OF _ t]) (auto intro: order_trans [OF _ wr] t)
qed

lemma port_act_clock:
  assumes clk: "port_clock pt clock" and ret: "\<And>aw. poll_lines pt aw \<noteq> None"
  shows "clock w \<le> clock (snd (port_act pt p (a, w)))"
proof (cases p)
  case Poll_Lines
  obtain aw where aw: "poll_lines pt (a, w) = Some aw" using ret [of "(a, w)"] by auto
  then obtain r w1 where p: "poll_loop (lp_in pt) (reader_step (line_byte line_options_default) (answer_line pt)) (la_lines a, w) = Some (r, w1)"
    and w1: "snd aw = w1" by (auto simp: poll_lines_def line_poll_def)
  have d: "clock x \<le> clock (deliver (answer_line pt) vs x)" for vs x
    by (induction vs arbitrary: x) (auto intro: order_trans [OF port_clock_text(3) [OF clk]])
  have "clock w \<le> clock (snd (r, w1))"
  proof (rule poll_loop_keeps [where P = "\<lambda>rw. clock w \<le> clock (snd rw)", OF p])
    fix q x k bytes x1
    assume "clock w \<le> clock (snd (q :: line_reader, x))" "bs_read (lp_in pt) 1 x = (k, bytes, x1)"
    moreover have "clock x \<le> clock (snd (snd (bs_read (lp_in pt) 1 x)))" using clk by (simp add: port_clock_def)
    ultimately show "clock w \<le> clock (snd (q, x1))" by (simp add: order_trans)
  next
    fix b q x
    assume "clock w \<le> clock (snd (q :: line_reader, x))"
    then show "clock w \<le> clock (snd (reader_step (line_byte line_options_default) (answer_line pt) b (q, x)))"
      by (auto simp: reader_step_def split: prod.splits intro: order_trans [OF _ d])
  qed simp
  with Poll_Lines aw w1 show ?thesis by (simp add: port_act_def)
next
  case Send_Line
  then show ?thesis using port_clock_text(1,2) [OF clk]
    by (simp add: port_act_def write_outbound_line_def) (meson order_trans)
qed

text \<open>The loop's two callbacks, the first of them due within a millisecond; what an iteration does.\<close>

definition port_running ::
  "('w \<Rightarrow> byte list) \<Rightarrow> ('w \<Rightarrow> byte list) \<Rightarrow> ('w \<Rightarrow> byte list) \<Rightarrow> ('w \<Rightarrow> bool) \<Rightarrow> ('w \<Rightarrow> u64) \<Rightarrow> byte list
     \<Rightarrow> port_task tm_state \<times> line_app \<times> 'w \<Rightarrow> bool" where
  "port_running content arrived out winv clock start mw \<longleftrightarrow> (case mw of (mcs, a, w) \<Rightarrow>
     (\<exists>k. port_inv content arrived out winv 128 start k (a, w))
     \<and> (\<exists>d e. mcs = (2, port_timers d e) \<and> unat d \<le> unat (clock w) + 1000))"

lemma port_act_keeps:
  assumes "line_peer pt content arrived out winv" "port_inv content arrived out winv n start k aw"
  shows "port_inv content arrived out winv n start (if p = Send_Line then Suc k else k) (port_act pt p aw)" "p = Poll_Lines \<Longrightarrow> content (snd (port_act pt p aw)) = []"
    "p = Send_Line \<Longrightarrow> content (snd (port_act pt p aw)) = content (snd aw)" "arrived (snd (port_act pt p aw)) = arrived (snd aw)"
proof -
  obtain a w where aw: "aw = (a, w)" by fastforce
  from poll_lines_keeps [OF assms(1), of n start k a w] assms(2) write_outbound_keeps [OF assms(1), of n start k a w]
  show "port_inv content arrived out winv n start (if p = Send_Line then Suc k else k) (port_act pt p aw)" "p = Poll_Lines \<Longrightarrow> content (snd (port_act pt p aw)) = []"
    by (cases p; auto simp: aw port_act_def)+
  have "winv w" using assms(2) by (simp add: aw port_inv_def)
  note t = port_text [OF assms(1)] and u = port_uint32 [OF assms(1)]
  show "arrived (snd (port_act pt p aw)) = arrived (snd aw)"
    using poll_lines_keeps [OF assms(1), of n start k a w] assms(2) \<open>winv w\<close>
    by (cases p) (auto simp: aw port_act_def write_outbound_line_def t u)
  show "p = Send_Line \<Longrightarrow> content (snd (port_act pt p aw)) = content (snd aw)"
    using \<open>winv w\<close> by (simp add: aw port_act_def write_outbound_line_def t u)
qed

lemma port_iterate:
  assumes peer: "line_peer pt content arrived out winv" and clk: "port_clock pt clock" and ret: "\<And>aw. poll_lines pt aw \<noteq> None"
    and run: "port_running content arrived out winv clock start (mcs, a, w)"
    and ok: "op_ok (port_env pt clock) n Iterate (mcs, a, w)"
  shows "\<exists>mcs' a' w'. tm_step (port_env pt clock) (port_effects pt) n Iterate (mcs, a, w) = (True, mcs', a', w')
    \<and> port_running content arrived out winv clock start (mcs', a', w')
    \<and> ((\<forall>d e. mcs = (2, port_timers d e) \<longrightarrow> d \<le> clock w) \<longrightarrow> content w' = []) \<and> arrived w' = arrived w"
proof -
  let ?env = "port_env pt clock" and ?ef = "port_effects pt" and ?t = "clock w"
  from run obtain k d e where inv: "port_inv content arrived out winv 128 start k (a, w)" and mcs: "mcs = (2, port_timers d e)"
    and d: "unat d \<le> unat (clock w) + 1000" by (auto simp: port_running_def)
  define d' where d': "d' = (if ?t < d then d else word_of_nat (unat d + Suc ((unat ?t - unat d) div 1000) * 1000))"
  define e' where e': "e' = (if ?t < e then e else word_of_nat (unat e + Suc ((unat ?t - unat e) div 1000000) * 1000000))"
  have adv: "tm_advance ?t (port_timers d e) = port_timers d' e'"
    unfolding d' e' by (cases "?t < d"; cases "?t < e") (simp_all add: tm_advance_def port_timers_def tm_next_def tm_ready_def)
  have due: "unat d' \<le> unat ?t + 1000"
  proof (cases "?t < d")
    case False
    then have "unat d \<le> unat ?t" by (simp add: word_less_nat_alt)
    moreover have "(unat ?t - unat d) div 1000 * 1000 \<le> unat ?t - unat d" by simp
    ultimately have "unat d + Suc ((unat ?t - unat d) div 1000) * 1000 \<le> unat ?t + 1000" by simp
    moreover have "unat ?t + 1000 < 2 ^ 64" using ok unfolding mcs by (simp add: port_timers_def port_env_def)
    ultimately have "unat (word_of_nat (unat d + Suc ((unat ?t - unat d) div 1000) * 1000) :: u64) \<le> unat ?t + 1000"
      by (simp only: unat_of_nat take_bit_nat_eq_self) (simp add: take_bit_nat_eq_self)
    then show ?thesis using False unfolding d' by (simp only: if_False)
  qed (use d d' in simp)
  let ?p = "\<lambda>x. if \<not> ?t < d \<and> bs_readable (lp_in pt) (snd x) then port_act pt Poll_Lines x else x"
  let ?s = "\<lambda>x. if \<not> ?t < e then port_act pt Send_Line x else x"
  have eff: "fold (tm_effect ?env ?ef ?t) (filter (tm_ready ?t) (port_timers d e)) (a, w) = ?s (?p (a, w))"
    by (simp add: port_timers_def tm_ready_def tm_effect_def port_env_def port_effects_def)
  obtain a' w' where w': "?s (?p (a, w)) = (a', w')" by fastforce
  have polled: "port_inv content arrived out winv 128 start k (?p (a, w))"
    using inv port_act_keeps(1) [OF peer inv, of Poll_Lines] by simp
  then have "\<exists>k. port_inv content arrived out winv 128 start k (a', w')"
    unfolding w' [symmetric] using port_act_keeps(1) [OF peer polled, of Send_Line] by auto
  moreover have "arrived w' = arrived w"
  proof -
    from port_act_keeps(4) [OF peer polled, of Send_Line] have "arrived (snd (?s (?p (a, w)))) = arrived (snd (?p (a, w)))"
      by (auto split: if_splits)
    also have "\<dots> = arrived w" using port_act_keeps(4) [OF peer inv, of Poll_Lines] by simp
    finally show ?thesis unfolding w' by simp
  qed
  moreover have "clock w \<le> clock w'"
  proof -
    have 1: "clock w \<le> clock (snd (?p (a, w)))" using port_act_clock [OF clk ret] by simp
    have 2: "clock (snd x) \<le> clock (snd (?s x))" for x using port_act_clock [OF clk ret, of "snd x" Send_Line "fst x"] by simp
    from order_trans [OF 1 2 [of "?p (a, w)"]] show ?thesis unfolding w' by simp
  qed
  moreover have "content w' = []" if "d \<le> ?t"
  proof -
    have "open_source (lp_in pt) content (\<lambda>w. (arrived w, out w)) winv" using peer by (simp add: line_peer_def)
    from open_source.read_next [OF this, of w] inv have "\<not> bs_readable (lp_in pt) w \<Longrightarrow> content w = []"
      by (cases "content w") (auto simp: port_inv_def)
    then have "content (snd (?p (a, w))) = []" using that port_act_keeps(2) [OF peer inv] by auto
    then have "content (snd (?s (?p (a, w)))) = []" using port_act_keeps(3) [OF peer polled, of Send_Line] by simp
    then show ?thesis unfolding w' by simp
  qed
  moreover have "tm_step ?env ?ef n Iterate (mcs, a, w) = (True, (2, port_timers d' e'), a', w')"
    unfolding mcs tm_step.simps Let_def using adv eff w' by (simp add: port_env_def)
  moreover have "d \<le> ?t" if "\<forall>x y. mcs = (2, port_timers x y) \<longrightarrow> x \<le> ?t" using that mcs by blast
  ultimately show ?thesis
    using due by (intro exI [of _ "(2, port_timers d' e')"] exI [of _ a'] exI [of _ w'])
      (auto simp: port_running_def word_le_nat_alt)
qed

lemma port_outside:
  assumes "port_calls content arrived out winv clock [Outside f]"
    "port_running content arrived out winv clock start (mcs, a, w)"
  shows "port_running content arrived out winv clock start (mcs, f (a, w)) \<and> fst (f (a, w)) = a"
proof -
  have "winv w" using assms(2) by (simp add: port_running_def port_inv_def)
  with assms(1) obtain w' bs where f: "f (a, w) = (a, w')" "winv w'" "content w' = content w @ bs"
    "arrived w' = arrived w @ bs" "out w' = out w" "clock w \<le> clock w'" unfolding port_calls_def by fastforce
  then have "unat (clock w) \<le> unat (clock w')" by (simp add: word_le_nat_alt)
  with assms(2) show ?thesis unfolding f(1) by (auto simp: port_running_def port_inv_def f(2-5))
qed

lemma port_run_keeps:
  assumes peer: "line_peer pt content arrived out winv" "port_clock pt clock" "\<And>aw. poll_lines pt aw \<noteq> None"
    and "port_running content arrived out winv clock start mw" "port_calls content arrived out winv clock ops"
    "ops_ok (port_env pt clock) (port_effects pt) n ops mw"
  shows "\<exists>oks mw'. tm_run (port_env pt clock) (port_effects pt) n ops mw = (oks, mw')
    \<and> port_running content arrived out winv clock start mw'"
  using assms(4-6)
proof (induction ops arbitrary: mw)
  case (Cons op ops)
  obtain mcs a w where mw: "mw = (mcs, a, w)" by (metis prod_cases3)
  have c: "port_calls content arrived out winv clock [op]" "port_calls content arrived out winv clock ops"
    using Cons.prems(2) by (simp_all add: port_calls_def)
  have "\<exists>ok mw1. tm_step (port_env pt clock) (port_effects pt) n op mw = (ok, mw1) \<and> port_running content arrived out winv clock start mw1"
  proof (cases "op = Iterate")
    case True
    with port_iterate [OF peer, of start mcs a w n] Cons.prems(1,3) show ?thesis by (simp add: mw del: tm_step.simps) blast
  next
    case False
    with c(1) obtain f where f: "op = Outside f" by (auto simp: port_calls_def)
    with port_outside [OF c(1) [unfolded f]] Cons.prems(1) show ?thesis by (auto simp: mw)
  qed
  then obtain ok mw1 where "tm_step (port_env pt clock) (port_effects pt) n op mw = (ok, mw1)"
    "port_running content arrived out winv clock start mw1" by blast
  with Cons.IH [of mw1] c(2) Cons.prems(3) show ?case by auto
qed simp

text \<open>The numbered lines are as many as the repeated callback has run.\<close>

lemma port_runs_count:
  assumes peer: "line_peer pt content arrived out winv" and inv: "port_inv content arrived out winv 128 start 0 aw"
    and calls: "port_calls content arrived out winv clock prog"
    and run: "tm_run (port_env pt clock) (port_effects pt) n prog ((i, port_timers d e), aw) = (oks, mcs', aw')"
  shows "port_inv content arrived out winv 128 start
    (task_runs (port_env pt clock) (port_effects pt) n Send_Line prog ((i, port_timers d e), aw)) aw'"
proof -
  let ?P = "port_inv content arrived out winv 128 start"
  have "?P (0 + task_runs (port_env pt clock) (port_effects pt) n Send_Line prog ((i, port_timers d e), aw)) aw'"
  proof (rule tm_run_counts [where P = ?P and ef = "port_effects pt" and p = Send_Line and ops = prog, OF _ _ _ _ _ _ run inv])
    show "?P (Suc k) (ef_run (port_effects pt) Send_Line aw)" if "?P k aw" for k aw
      using port_act_keeps(1) [OF peer that, of Send_Line] by (simp add: port_effects_def)
    show "?P k (ef_run (port_effects pt) q aw)" if "q \<noteq> Send_Line" "?P k aw" for k q aw
      using port_act_keeps(1) [OF peer that(2), of q] that(1) by (simp add: port_effects_def)
    show "?P k (f aw)" if f: "Outside f \<in> set prog" and inv: "?P k aw" for k f aw
    proof -
      obtain a w where aw: "aw = (a, w)" by fastforce
      with inv have "winv w" by (simp add: port_inv_def)
      with calls f obtain w' bs where "f (a, w) = (a, w')" "winv w'" "content w' = content w @ bs"
        "arrived w' = arrived w @ bs" "out w' = out w" unfolding port_calls_def by fastforce
      with inv show ?thesis by (auto simp: aw port_inv_def)
    qed
    show "On_Bytes q Send_Line poll_us \<notin> set prog" for q poll_us using calls by (auto simp: port_calls_def)
    show "no_ready Send_Line (port_timers d e)" by (simp add: no_ready_def port_timers_def)
  qed (simp_all add: port_effects_def)
  then show ?thesis by simp
qed

text \<open>
  C29: the serial line example on Arduino. After \<open>setup\<close>, through any number of calls of \<open>loop()\<close> between
  which bytes arrive and time passes, and a last one a millisecond or more after what went before: everything that
  has arrived has been read, and what has been sent after the greeting is a sequence of messages in which the
  answers, each \<^verbatim>\<open>rx: \<close> and the line, are to the lines received, in order (without a carriage return, and with the
  policy for lines over 128 bytes applied), and the numbered lines count up from 0, one for each time the
  repeated callback has been due. (\<^verbatim>\<open>README.md\<close> says the answers begin with \<^verbatim>\<open>line: \<close>.)
\<close>

theorem serial_example_answers:
  assumes peer: "serial_peer ops content arrived out" and clk: "port_clock (arduino_port ops) clock"
    and n: "2 \<le> n" "n \<le> 0xfffe" and w: "arrived w = content w"
    and calls: "port_calls content arrived out (\<lambda>w. True) clock (prog @ [Outside f])"
    and late: "snd (snd (tm_run (port_env (arduino_port ops) clock) (port_effects (arduino_port ops)) n prog
        ((2, port_timers (clock w) (clock w)), line_app_init 128, port_write_text (arduino_port ops) ready_text w))) = (a1, w1)"
      "unat (clock w1) + 1000 \<le> unat (clock (snd (f (a1, w1))))"
    and lines: "arrived (snd (f (a1, w1))) = join_lines chr_lf ls rest" "\<forall>l \<in> set ls. chr_lf \<notin> set l" "chr_lf \<notin> set rest"
    and ok: "ops_ok (port_env (arduino_port ops) clock) (port_effects (arduino_port ops)) n (prog @ [Outside f, Iterate])
        ((2, port_timers (clock w) (clock w)), line_app_init 128, port_write_text (arduino_port ops) ready_text w)"
  shows "\<exists>oks hs oks' hs' s l a w' msgs.
      app_run (port_env (arduino_port ops) clock) (serial_ops (arduino_port ops)) ([], al_init n, el_init n, line_app_init 128, w)
        = Some (oks, hs, serial_setup (arduino_port ops) (port_env (arduino_port ops) clock) (al_init n, el_init n, line_app_init 128, w))
    \<and> app_run (port_env (arduino_port ops) clock) (prog @ [Outside f, Iterate])
        (hs, serial_setup (arduino_port ops) (port_env (arduino_port ops) clock) (al_init n, el_init n, line_app_init 128, w))
        = Some (oks', hs', s, l, a, w')
    \<and> out w' = out w @ ready_text @ concat (map message_text msgs)
    \<and> answered msgs = map (emitted_line line_options_default 128) ls
    \<and> numbered msgs = map of_nat [0..<task_runs (port_env (arduino_port ops) clock) (port_effects (arduino_port ops)) n Send_Line
        (prog @ [Outside f, Iterate])
        ((2, port_timers (clock w) (clock w)), line_app_init 128, port_write_text (arduino_port ops) ready_text w)]"
proof -
  let ?pt = "arduino_port ops"
  let ?env = "port_env ?pt clock" and ?ef = "port_effects ?pt" and ?a = "line_app_init 128" and ?w = "port_write_text ?pt ready_text w"
  let ?mw = "((2, port_timers (clock w) (clock w)), ?a, ?w)" and ?st = "(al_init n, el_init n, ?a, w)"
  note peer' = serial_peer_line [OF peer]
  have wr: "content ?w = content w \<and> arrived ?w = arrived w \<and> out ?w = out w @ ready_text"
    using port_text [OF peer' TrueI, where s = ready_text and w = w] by (simp add: ready_text_def c_string_def bytes_of_def)
  have ret: "poll_lines ?pt aw \<noteq> None" for aw using poll_lines_returns [OF peer' TrueI] by (cases aw) simp
  note world = port_world [OF ret, where clock = clock]
  obtain oks hs where su: "app_run ?env (serial_ops ?pt) ([], ?st) = Some (oks, hs, serial_setup ?pt ?env ?st)"
    using serial_setup_run by blast
  from app_run_refines [OF simulates_init [OF n(2)] world serial_setup_timers(2) [OF n(1), where a = ?a and w = w]] su
    serial_setup_timers(1) [OF n(1), of ?pt clock ?ef ?a w] obtain s l where
    st: "serial_setup ?pt ?env ?st = (s, l, ?a, ?w)" and sim: "simulates n (2, port_timers (clock w) (clock w)) hs s l" by auto
  have "clock w \<le> clock ?w" by (rule port_clock_text(1) [OF clk])
  moreover have start: "port_inv content arrived out (\<lambda>w. True) 128 (out w @ ready_text) 0 (?a, ?w)"
    using wr w by (auto simp: port_inv_def line_app_init_def intro!: exI [of _ "[]"])
  ultimately have "port_running content arrived out (\<lambda>w. True) clock (out w @ ready_text) ?mw"
    by (auto simp: port_running_def word_le_nat_alt intro: exI [of _ 0])
  note keeps = port_run_keeps [OF peer' clk ret this]
  from keeps [of prog n] calls ok obtain oks1 mcs1 where
    1: "tm_run ?env ?ef n prog ?mw = (oks1, mcs1, a1, w1)"
      "port_running content arrived out (\<lambda>w. True) clock (out w @ ready_text) (mcs1, a1, w1)"
    using late(1) by (auto simp: port_calls_append ops_ok_append)
  obtain a2 w2 where f: "f (a1, w1) = (a2, w2)" by fastforce
  have 2: "port_running content arrived out (\<lambda>w. True) clock (out w @ ready_text) (mcs1, a2, w2)"
    using port_outside [OF _ 1(2), where f = f] calls f by (auto simp: port_calls_append)
  have "op_ok ?env n Iterate (mcs1, a2, w2)" using ok 1(1) f by (simp add: ops_ok_append)
  from port_iterate [OF peer' clk ret 2 this] obtain mcs3 a3 w3 where
    3: "tm_step ?env ?ef n Iterate (mcs1, a2, w2) = (True, mcs3, a3, w3)"
      "port_running content arrived out (\<lambda>w. True) clock (out w @ ready_text) (mcs3, a3, w3)"
      "(\<forall>d e. mcs1 = (2, port_timers d e) \<longrightarrow> d \<le> clock w2) \<longrightarrow> content w3 = []" "arrived w3 = arrived w2" by blast
  have "d \<le> clock w2" if "mcs1 = (2, port_timers d e)" for d e
    using 1(2) late(2) that f by (auto simp: port_running_def port_timers_def word_le_nat_alt)
  with 3(3) have e: "content w3 = []" by blast
  have tm: "tm_run ?env ?ef n (prog @ [Outside f, Iterate]) ?mw = (oks1 @ [True, True], mcs3, a3, w3)"
    using 1(1) 3(1) f by (simp add: tm_run_append del: tm_step.simps(9))
  from app_run_refines [OF sim world ok] tm st obtain oks' hs' s' l' where
    run: "app_run ?env (prog @ [Outside f, Iterate]) (hs, serial_setup ?pt ?env ?st) = Some (oks', hs', s', l', a3, w3)" by auto
  let ?k = "task_runs ?env ?ef n Send_Line (prog @ [Outside f, Iterate]) ?mw"
  have "port_calls content arrived out (\<lambda>w. True) clock (prog @ [Outside f, Iterate])"
    using calls by (auto simp: port_calls_def)
  note port_runs_count [OF peer' start this tm]
  from port_inv_lines [OF this e _ lines(2,3)] 3(4) lines(1) f obtain msgs where
    "out w3 = out w @ ready_text @ concat (map message_text msgs)" "answered msgs = map (emitted_line line_options_default 128) ls"
    "numbered msgs = map of_nat [0..<?k]" by auto
  with su run show ?thesis by (intro exI conjI) assumption+
qed

text \<open>A serial line with a clock: the time, what is to be read, what has arrived and what has been sent.\<close>

definition looped_serial :: "(u64 \<times> byte list \<times> byte list \<times> byte list) serial_port" where
  "looped_serial =
     \<lparr>sp_available = (\<lambda>(t, c, a, out). int (length c)),
      sp_read = (\<lambda>(t, c, a, out). case c of [] \<Rightarrow> (- 1, (t, c, a, out)) | b # bs \<Rightarrow> (uint b, (t, bs, a, out))),
      sp_write = (\<lambda>bytes (t, c, a, out). (length bytes, (t, c, a, out @ bytes)))\<rparr>"

lemma looped_serial_peer:
  "serial_peer looped_serial (\<lambda>(t, c, a, out). c) (\<lambda>(t, c, a, out). a) (\<lambda>(t, c, a, out). out)"
  by (auto simp: serial_peer_def serial_source_def looped_serial_def)

lemma looped_serial_clock: "port_clock (arduino_port looped_serial) fst"
proof -
  have r: "fst (snd (as_read_loop looped_serial k w)) = fst w" for k w
    by (induction looped_serial k w rule: as_read_loop.induct)
      (auto simp: looped_serial_def apfst_def map_prod_def split: prod.splits list.splits)
  show ?thesis
    by (simp add: port_clock_def arduino_port_def as_stream_def as_read_def as_write_def case_prod_unfold r)
      (simp add: looped_serial_def case_prod_unfold)
qed

definition hello_arrives :: "line_app \<times> u64 \<times> byte list \<times> byte list \<times> byte list \<Rightarrow> line_app \<times> u64 \<times> byte list \<times> byte list \<times> byte list" where
  "hello_arrives aw = (case aw of (a, t, c, ar, out) \<Rightarrow>
     (a, max t 1000, c @ [72, 105, chr_cr, chr_lf, 33], ar @ [72, 105, chr_cr, chr_lf, 33], out))"

lemma serial_example_answers_witness:
  "let pt = arduino_port looped_serial; env = port_env pt fst;
       st = serial_setup pt env (al_init 32, el_init 32, line_app_init 128, 0, [], [], [])
   in \<exists>oks hs oks' hs' s l a w msgs. app_run env (serial_ops pt) ([], al_init 32, el_init 32, line_app_init 128, 0, [], [], []) = Some (oks, hs, st)
    \<and> app_run env [Outside hello_arrives, Iterate] (hs, st) = Some (oks', hs', s, l, a, w)
    \<and> snd (snd (snd w)) = ready_text @ concat (map message_text msgs) \<and> answered msgs = [[72, 105]] \<and> numbered msgs = [0]"
proof -
  let ?pt = "arduino_port looped_serial" and ?w = "(0 :: u64, [] :: byte list, [] :: byte list, [] :: byte list)"
  let ?w1 = "port_write_text (arduino_port looped_serial) ready_text (0, [], [], [])"
  note w1 = port_text [OF serial_peer_line [OF looped_serial_peer] TrueI, where s = ready_text and w = ?w]
  have t1: "fst ?w1 = 0" by (simp add: port_write_text_def arduino_port_def as_write_def looped_serial_def ready_text_def text_len_def c_string_def bytes_of_def)
  have calls: "port_calls (\<lambda>(t, c, a, out). c) (\<lambda>(t, c, a, out). a) (\<lambda>(t, c, a, out). out) (\<lambda>w. True) fst ([] @ [Outside hello_arrives])"
    by (auto simp: port_calls_def hello_arrives_def)
  have late: "snd (snd (tm_run (port_env ?pt fst) (port_effects ?pt) 32 [] ((2, port_timers (fst ?w) (fst ?w)), line_app_init 128, ?w1)))
      = (line_app_init 128, ?w1)" by simp
  have "unat (fst ?w1) + 1000 \<le> unat (fst (snd (hello_arrives (line_app_init 128, ?w1))))"
    using t1 by (simp add: hello_arrives_def case_prod_unfold)
  moreover have "ops_ok (port_env ?pt fst) (port_effects ?pt) 32 ([] @ [Outside hello_arrives, Iterate])
      ((2, port_timers (fst ?w) (fst ?w)), line_app_init 128, ?w1)"
    using t1 by (simp add: hello_arrives_def case_prod_unfold port_timers_def port_env_def)
  moreover have "(case snd (hello_arrives (line_app_init 128, ?w1)) of (t, c, a, out) \<Rightarrow> a) = join_lines chr_lf [[72, 105, chr_cr]] [33]"
    using w1 by (simp add: hello_arrives_def case_prod_unfold)
  moreover have "emitted_line line_options_default 128 [72, 105, chr_cr] = [72, 105]" by code_simp
  moreover have "task_runs (port_env ?pt fst) (port_effects ?pt) 32 Send_Line ([] @ [Outside hello_arrives, Iterate])
      ((2, port_timers (fst ?w) (fst ?w)), line_app_init 128, ?w1) = 1"
    by (simp add: port_timers_def tm_ready_def runs_call_def)
  ultimately show ?thesis
    using serial_example_answers [OF looped_serial_peer looped_serial_clock _ _ _ calls late, of "[[72, 105, chr_cr]]" "[33]"]
    by (simp add: Let_def)
qed

section \<open>The FIFO example\<close>

text \<open>The FIFO that is read and the FIFO that is written, with their descriptors, beside the system.\<close>

definition fifo_port :: "'w fd_ops \<Rightarrow> (fifo_stream \<times> fifo_stream \<times> 'w) line_port" where
  "fifo_port fds =
     \<lparr>lp_in = \<lparr>bs_readable = (\<lambda>(rx, tx, w). ff_fd rx \<ge> 0),
               bs_read = (\<lambda>m (rx, tx, w). case fifo_read fds False m (rx, w) of (n, bytes, rx1, w1) \<Rightarrow> (n, bytes, rx1, tx, w1))\<rparr>,
      lp_write = (\<lambda>bytes (rx, tx, w). case fifo_write fds (Some bytes) (tx, w) of (n, tx1, w1) \<Rightarrow> (n, rx, tx1, w1))\<rparr>"

definition fifo_write_text :: "'w fd_ops \<Rightarrow> byte list \<Rightarrow> fifo_stream \<times> fifo_stream \<times> 'w \<Rightarrow> fifo_stream \<times> fifo_stream \<times> 'w" where
  "fifo_write_text fds t st = snd (lp_write (fifo_port fds) (c_string t) st)"

definition fifo_write_uint32 :: "'w fd_ops \<Rightarrow> u32 \<Rightarrow> fifo_stream \<times> fifo_stream \<times> 'w \<Rightarrow> fifo_stream \<times> fifo_stream \<times> 'w" where
  "fifo_write_uint32 fds v st = write_each (lp_write (fifo_port fds)) (uint_digits 10 v) st"

definition fifo_answer_line :: "'w fd_ops \<Rightarrow> byte list \<Rightarrow> fifo_stream \<times> fifo_stream \<times> 'w \<Rightarrow> fifo_stream \<times> fifo_stream \<times> 'w" where
  "fifo_answer_line fds line st =
     (let st1 = fifo_write_text fds (bytes_of ''rx: '') st;
          st2 = (if length line > 0 then snd (lp_write (fifo_port fds) line st1) else st1)
      in fifo_write_text fds [chr_lf] st2)"

definition fifo_poll_lines ::
  "'w fd_ops \<Rightarrow> line_app \<times> fifo_stream \<times> fifo_stream \<times> 'w \<Rightarrow> (line_app \<times> fifo_stream \<times> fifo_stream \<times> 'w) option" where
  "fifo_poll_lines fds ast =
     (case ast of (a, st) \<Rightarrow>
        map_option (\<lambda>(r, st'). (a\<lparr>la_lines := r\<rparr>, st'))
          (line_poll (lp_in (fifo_port fds)) line_options_default (fifo_answer_line fds) (la_lines a, st)))"

definition fifo_send_line ::
  "'w fd_ops \<Rightarrow> line_app \<times> fifo_stream \<times> fifo_stream \<times> 'w \<Rightarrow> line_app \<times> fifo_stream \<times> fifo_stream \<times> 'w" where
  "fifo_send_line fds ast =
     (case ast of (a, st) \<Rightarrow>
        (a\<lparr>la_tx_count := la_tx_count a + 1\<rparr>,
         fifo_write_text fds [chr_lf] (fifo_write_uint32 fds (la_tx_count a) (fifo_write_text fds (bytes_of ''tx: '') st))))"

text \<open>\<open>main\<close> up to the registrations: the exit code after a failure, with both streams destroyed, or the streams.\<close>

definition fifo_example_open ::
  "'w fd_ops \<Rightarrow> string \<Rightarrow> string \<Rightarrow> 'w \<Rightarrow> (int \<times> 'w) + (fifo_stream \<times> fifo_stream \<times> 'w)" where
  "fifo_example_open fds rx_path tx_path w =
     (case fifo_create fds rx_path fifo_default w of (rx, w1) \<Rightarrow>
        case fifo_create fds tx_path fifo_default w1 of (tx, w2) \<Rightarrow>
          if \<not> ff_fd rx \<ge> 0 \<or> \<not> ff_fd tx \<ge> 0 then Inl (1, fifo_destroy fds (rx, fifo_destroy fds (tx, w2)))
          else Inr (rx, tx, w2))"

lemma fifo_tasks:
  "fifo_poll_lines fds = poll_lines (fifo_port fds)" "fifo_send_line fds = write_outbound_line (fifo_port fds)"
proof -
  have t: "fifo_write_text fds = port_write_text (fifo_port fds)"
    by (simp add: fun_eq_iff fifo_write_text_def port_write_text_def text_len_def c_string_def takeWhile_eq_take [symmetric])
  have u: "fifo_write_uint32 fds = port_write_uint32 (fifo_port fds)"
    by (simp add: fun_eq_iff fifo_write_uint32_def port_write_uint32_def)
  have l: "fifo_answer_line fds = answer_line (fifo_port fds)"
    by (simp add: fun_eq_iff fifo_answer_line_def answer_line_def t)
  show "fifo_poll_lines fds = poll_lines (fifo_port fds)"
    by (simp add: fun_eq_iff fifo_poll_lines_def poll_lines_def l)
  show "fifo_send_line fds = write_outbound_line (fifo_port fds)"
    by (simp add: fun_eq_iff fifo_send_line_def write_outbound_line_def t u)
qed

text \<open>
  Two descriptors: a read of the first takes a byte of what has come, or fails for now; a write to the second
  takes everything.
\<close>

definition fifo_pair :: "'w fd_ops \<Rightarrow> int \<Rightarrow> int \<Rightarrow> ('w \<Rightarrow> byte list) \<Rightarrow> ('w \<Rightarrow> byte list) \<Rightarrow> ('w \<Rightarrow> byte list) \<Rightarrow> bool" where
  "fifo_pair fds r t content arrived out \<longleftrightarrow> r \<ge> 0 \<and> t \<ge> 0
     \<and> (\<forall>w. case sys_read fds r 1 w of (n, bytes, w1) \<Rightarrow> arrived w1 = arrived w \<and> out w1 = out w
          \<and> (case content w of [] \<Rightarrow> n \<le> 0 \<and> content w1 = [] | b # bs \<Rightarrow> n = 1 \<and> bytes = [b] \<and> content w1 = bs))
     \<and> (\<forall>bytes w. case sys_write fds t bytes w of (n, w1) \<Rightarrow>
          content w1 = content w \<and> arrived w1 = arrived w \<and> out w1 = out w @ bytes)"

lemma fifo_note_error_fd [simp]: "ff_fd (fifo_note_error fds n w f) = ff_fd f"
  by (simp add: fifo_note_error_def)

lemma fifo_line_peer:
  assumes "fifo_pair fds r t content arrived out"
  shows "line_peer (fifo_port fds) (\<lambda>(rx, tx, w). content w) (\<lambda>(rx, tx, w). arrived w) (\<lambda>(rx, tx, w). out w)
    (\<lambda>(rx, tx, w). ff_fd rx = r \<and> ff_fd tx = t)"
proof -
  have rd: "arrived (snd (snd (sys_read fds r 1 w))) = arrived w" "out (snd (snd (sys_read fds r 1 w))) = out w"
    "content w = [] \<Longrightarrow> fst (sys_read fds r 1 w) \<le> 0 \<and> content (snd (snd (sys_read fds r 1 w))) = []"
    "content w = b # bs \<Longrightarrow> sys_read fds r 1 w = (1, [b], snd (snd (sys_read fds r 1 w))) \<and> content (snd (snd (sys_read fds r 1 w))) = bs"
    for w b bs
    using assms unfolding fifo_pair_def by (auto simp: case_prod_unfold split: list.splits) (metis prod.collapse)+
  have wr: "content (snd (sys_write fds t bytes w)) = content w \<and> arrived (snd (sys_write fds t bytes w)) = arrived w
      \<and> out (snd (sys_write fds t bytes w)) = out w @ bytes" for bytes w
    using assms unfolding fifo_pair_def by (auto simp: case_prod_unfold)
  have fd: "r \<ge> 0" "t \<ge> 0" using assms by (simp_all add: fifo_pair_def)
  have "open_source (lp_in (fifo_port fds)) (\<lambda>(rx, tx, w). content w) (\<lambda>st. (case st of (rx, tx, w) \<Rightarrow> arrived w, case st of (rx, tx, w) \<Rightarrow> out w))
    (\<lambda>(rx, tx, w). ff_fd rx = r \<and> ff_fd tx = t)"
  proof (unfold_locales, goal_cases)
    case (1 st)
    obtain rx tx w where st: "st = (rx, tx, w)" by (metis prod_cases3)
    obtain n bytes w1 where s: "sys_read fds r 1 w = (n, bytes, w1)" by (metis prod_cases3)
    have "\<exists>n' rx1. fifo_read fds False 1 (rx, w) = (n', bytes, rx1, w1) \<and> n' \<le> 0 \<and> ff_fd rx1 = r"
      using 1 fd s rd(3) [of w] by (auto simp: st fifo_read_def fd_result_def)
    with 1 rd(1-3) [of w] s show ?case by (auto simp: st fifo_port_def)
  next
    case (2 st b bs)
    obtain rx tx w where st: "st = (rx, tx, w)" by (metis prod_cases3)
    obtain n bytes w1 where s: "sys_read fds r 1 w = (n, bytes, w1)" by (metis prod_cases3)
    with 2 rd(4) [of w b bs] have "n = 1" "bytes = [b]" "content w1 = bs" by (simp_all add: st)
    moreover have "fifo_read fds False 1 (rx, w) = (1, [b], rx, w1)"
      using 2 fd s \<open>n = 1\<close> \<open>bytes = [b]\<close> by (simp add: st fifo_read_def fd_result_def fifo_note_error_def)
    ultimately show ?case using 2 fd rd(1,2) [of w] s by (simp add: st fifo_port_def)
  qed
  moreover have "\<forall>bytes st. (case st of (rx, tx, w) \<Rightarrow> ff_fd rx = r \<and> ff_fd tx = t) \<longrightarrow>
      (case lp_write (fifo_port fds) bytes st of (n, st1) \<Rightarrow>
        (case st1 of (rx, tx, w) \<Rightarrow> ff_fd rx = r \<and> ff_fd tx = t) \<and> (case st1 of (rx, tx, w) \<Rightarrow> content w) = (case st of (rx, tx, w) \<Rightarrow> content w)
        \<and> (case st1 of (rx, tx, w) \<Rightarrow> arrived w) = (case st of (rx, tx, w) \<Rightarrow> arrived w)
        \<and> (case st1 of (rx, tx, w) \<Rightarrow> out w) = (case st of (rx, tx, w) \<Rightarrow> out w) @ bytes)"
    using fd wr by (auto simp: fifo_port_def fifo_write_def case_prod_unfold)
  ultimately show ?thesis unfolding line_peer_def by blast
qed

text \<open>The tasks in any order, with arrivals in between, whatever scheduler runs them; how often a line is sent.\<close>

datatype 'w port_step = Task port_task | Arrive "'w \<Rightarrow> 'w"

fun port_steps :: "'w line_port \<Rightarrow> 'w port_step list \<Rightarrow> line_app \<times> 'w \<Rightarrow> (line_app \<times> 'w) option" where
  "port_steps pt [] aw = Some aw"
| "port_steps pt (Task p # xs) aw = (case port_run pt p aw of None \<Rightarrow> None | Some aw1 \<Rightarrow> port_steps pt xs aw1)"
| "port_steps pt (Arrive f # xs) (a, w) = port_steps pt xs (a, f w)"

definition lines_sent :: "'w port_step list \<Rightarrow> nat" where
  "lines_sent xs = length (filter (\<lambda>x. case x of Task p \<Rightarrow> p = Send_Line | Arrive f \<Rightarrow> False) xs)"

lemma port_steps_keep:
  assumes peer: "line_peer pt content arrived out winv" and "port_inv content arrived out winv n start k aw"
    and "\<And>f w. Arrive f \<in> set xs \<Longrightarrow> winv w \<Longrightarrow>
      winv (f w) \<and> (\<exists>bs. content (f w) = content w @ bs \<and> arrived (f w) = arrived w @ bs) \<and> out (f w) = out w"
  shows "\<exists>aw'. port_steps pt xs aw = Some aw' \<and> port_inv content arrived out winv n start (k + lines_sent xs) aw'"
  using assms(2,3)
proof (induction xs arbitrary: aw k)
  case (Cons x xs)
  obtain a w where aw: "aw = (a, w)" by fastforce
  with Cons.prems(1) have w: "winv w" by (simp add: port_inv_def)
  show ?case
  proof (cases x)
    case (Task p)
    have "port_run pt p aw = Some (port_act pt p aw)"
      using poll_lines_returns [OF peer w, of a] by (cases p) (auto simp: port_act_def aw)
    with Cons.IH [OF port_act_keeps(1) [OF peer Cons.prems(1)], of p] Cons.prems(2) Task show ?thesis
      by (simp add: lines_sent_def split: if_splits)
  next
    case (Arrive f)
    with Cons.prems(2) [of f w] w obtain bs where "winv (f w)" "content (f w) = content w @ bs" "arrived (f w) = arrived w @ bs"
      "out (f w) = out w" by auto
    with Cons.prems(1) have "port_inv content arrived out winv n start k (a, f w)" by (auto simp: aw port_inv_def)
    with Cons.IH [OF this] Cons.prems(2) Arrive show ?thesis by (simp add: aw lines_sent_def)
  qed
qed (simp add: lines_sent_def)

text \<open>
  The FIFO example on Linux: after any tasks and arrivals, and a poll, the output FIFO holds a sequence of
  messages in which the answers are the lines that have come and the numbered lines count up from 0, one for each run of
  the task that sends them. (The descriptor is always readable; the poll ends when a read returns nothing.)
\<close>

theorem fifo_example_answers:
  assumes pair: "fifo_pair fds (ff_fd rx) (ff_fd tx) content arrived out" and start: "arrived w = content w" "out w = []"
    and ext: "\<And>f rx tx w. Arrive f \<in> set xs \<Longrightarrow> \<exists>w1 bs. f (rx, tx, w) = (rx, tx, w1)
      \<and> content w1 = content w @ bs \<and> arrived w1 = arrived w @ bs \<and> out w1 = out w"
  shows "\<exists>a' rx' tx' w' msgs. port_steps (fifo_port fds) (xs @ [Task Poll_Lines]) (line_app_init 160, rx, tx, w) = Some (a', rx', tx', w')
    \<and> content w' = [] \<and> out w' = concat (map message_text msgs) \<and> numbered msgs = map of_nat [0..<lines_sent xs]
    \<and> answered msgs = snd (feed (line_byte line_options_default) (arrived w') (line_init 160))"
proof -
  note peer = fifo_line_peer [OF pair]
  have inv0: "port_inv (\<lambda>(rx, tx, w). content w) (\<lambda>(rx, tx, w). arrived w) (\<lambda>(rx, tx, w). out w)
      (\<lambda>(rx', tx', w). ff_fd rx' = ff_fd rx \<and> ff_fd tx' = ff_fd tx) 160 [] 0 (line_app_init 160, rx, tx, w)"
    using start by (auto simp: port_inv_def line_app_init_def intro!: exI [of _ "[]"])
  have app: "port_steps pt (xs @ ys) aw = (case port_steps pt xs aw of None \<Rightarrow> None | Some aw1 \<Rightarrow> port_steps pt ys aw1)"
    for pt :: "(fifo_stream \<times> fifo_stream \<times> 'a) line_port" and xs ys aw
    by (induction pt xs aw rule: port_steps.induct) (simp_all split: option.split)
  have "\<exists>aw'. port_steps (fifo_port fds) xs (line_app_init 160, rx, tx, w) = Some aw'
      \<and> port_inv (\<lambda>(rx, tx, w). content w) (\<lambda>(rx, tx, w). arrived w) (\<lambda>(rx, tx, w). out w)
        (\<lambda>(rx', tx', w). ff_fd rx' = ff_fd rx \<and> ff_fd tx' = ff_fd tx) 160 [] (lines_sent xs) aw'"
  proof (rule port_steps_keep [OF peer inv0, unfolded add_0], goal_cases)
    case (1 f st)
    obtain r t x where st: "st = (r, t, x)" by (metis prod_cases3)
    from ext [OF 1(1), of r t x] 1(2) show ?case by (auto simp: st)
  qed
  then obtain a1 st1 where 1: "port_steps (fifo_port fds) xs (line_app_init 160, rx, tx, w) = Some (a1, st1)"
    "port_inv (\<lambda>(rx, tx, w). content w) (\<lambda>(rx, tx, w). arrived w) (\<lambda>(rx, tx, w). out w)
      (\<lambda>(rx', tx', w). ff_fd rx' = ff_fd rx \<and> ff_fd tx' = ff_fd tx) 160 [] (lines_sent xs) (a1, st1)" by auto
  from poll_lines_keeps [OF peer 1(2)] obtain a2 rx2 tx2 w2 where
    2: "poll_lines (fifo_port fds) (a1, st1) = Some (a2, rx2, tx2, w2)" "content w2 = []"
      "port_inv (\<lambda>(rx, tx, w). content w) (\<lambda>(rx, tx, w). arrived w) (\<lambda>(rx, tx, w). out w)
        (\<lambda>(rx', tx', w). ff_fd rx' = ff_fd rx \<and> ff_fd tx' = ff_fd tx) 160 [] (lines_sent xs) (a2, rx2, tx2, w2)" by auto
  with 1(1) have "port_steps (fifo_port fds) (xs @ [Task Poll_Lines]) (line_app_init 160, rx, tx, w) = Some (a2, rx2, tx2, w2)"
    by (simp add: app)
  with 2(2,3) show ?thesis by (fastforce simp: port_inv_def)
qed

end
