(* ===== verification/Pin_Examples.thy ===== *)
theory Pin_Examples
  imports Integrated_Example "HOL-Library.Signed_Division"
begin

text \<open>
  \<^verbatim>\<open>src/examples/PinIoExample\<close>, which reads and writes digital and analog pins twice a second and every second, and the
  pin event source of \<^verbatim>\<open>src/examples/support/example_pin_event_source.hpp\<close>, a queue that numbers its events.
\<close>

section \<open>\<open>ExamplePinEventSource\<close>\<close>

record example_source =
  xs_queue :: "pin_event ring"
  xs_sequence :: u32

definition xs_init :: "pin_event list \<Rightarrow> example_source" where
  "xs_init buf = \<lparr>xs_queue = ring_init buf, xs_sequence = 0\<rparr>"

definition xs_push :: "pin_event \<Rightarrow> example_source \<Rightarrow> bool \<times> example_source" where
  "xs_push ev s =
     (if rb_count (xs_queue s) \<ge> ring_capacity (xs_queue s) then (False, s)
      else let sequence = xs_sequence s + 1
           in (True, \<lparr>xs_queue = ring_put (ev\<lparr>pe_sequence := sequence\<rparr>) (xs_queue s), xs_sequence = sequence\<rparr>))"

definition xs_read_event :: "example_source \<Rightarrow> pin_event option \<times> example_source" where
  "xs_read_event s =
     (if rb_count (xs_queue s) = 0 then (None, s)
      else case ring_get (xs_queue s) of (ev, q) \<Rightarrow> (Some ev, s\<lparr>xs_queue := q\<rparr>))"

fun xs_run :: "pin_op list \<Rightarrow> example_source \<Rightarrow> pin_event list \<times> pin_event list \<times> example_source" where
  "xs_run [] s = ([], [], s)"
| "xs_run (Push ev # ops) s =
     (let (ok, s1) = xs_push ev s; (ins, outs, s2) = xs_run ops s1
      in ((if ok then [ev] else []) @ ins, outs, s2))"
| "xs_run (Read_Event # ops) s =
     (let (e, s1) = xs_read_event s; (ins, outs, s2) = xs_run ops s1
      in (ins, (case e of None \<Rightarrow> [] | Some ev \<Rightarrow> [ev]) @ outs, s2))"

fun numbered_events :: "u32 \<Rightarrow> pin_event list \<Rightarrow> pin_event list" where
  "numbered_events n [] = []"
| "numbered_events n (ev # evs) = ev\<lparr>pe_sequence := n + 1\<rparr> # numbered_events (n + 1) evs"

text \<open>
  The events read, followed by the ones pending, are those the pushes accepted, numbered without a gap:
  a push that is refused uses up no number.
\<close>

theorem example_source_numbers:
  assumes "ring_inv (xs_queue s)" "xs_run ops s = (ins, outs, s')"
  shows "ring_inv (xs_queue s')
    \<and> ring_list (xs_queue s) @ numbered_events (xs_sequence s) ins = outs @ ring_list (xs_queue s')
    \<and> xs_sequence s' = xs_sequence s + of_nat (length ins)"
  using assms
proof (induction ops s arbitrary: ins outs s' rule: xs_run.induct)
  case (2 ev ops s)
  obtain ok s1 where w: "xs_push ev s = (ok, s1)" by fastforce
  obtain ins1 outs1 s2 where r: "xs_run ops s1 = (ins1, outs1, s2)" by (metis prod_cases3)
  show ?case
  proof (cases ok)
    case True
    with w have c: "rb_count (xs_queue s) < ring_capacity (xs_queue s)" and s1: "xs_sequence s1 = xs_sequence s + 1"
      "xs_queue s1 = ring_put (ev\<lparr>pe_sequence := xs_sequence s + 1\<rparr>) (xs_queue s)"
      by (auto simp: xs_push_def Let_def split: if_splits)
    from "2.IH" [OF w [symmetric] refl _ r] ring_put_spec [OF "2.prems"(1) c] "2.prems"(2) w r s1 True show ?thesis
      by (auto simp: add.assoc)
  next
    case False
    with w have "s1 = s" by (auto simp: xs_push_def Let_def split: if_splits)
    with "2.IH" [OF w [symmetric] refl _ r] "2.prems" w r False show ?thesis by auto
  qed
next
  case (3 ops s)
  obtain e s1 where w: "xs_read_event s = (e, s1)" by fastforce
  obtain ins1 outs1 s2 where r: "xs_run ops s1 = (ins1, outs1, s2)" by (metis prod_cases3)
  show ?case
  proof (cases "rb_count (xs_queue s) = 0")
    case True
    with w have "e = None" "s1 = s" by (simp_all add: xs_read_event_def)
    with "3.IH" [OF w [symmetric] refl _ r] "3.prems" w r show ?thesis by auto
  next
    case False
    with w have "e = Some (fst (ring_get (xs_queue s)))" "s1 = s\<lparr>xs_queue := snd (ring_get (xs_queue s))\<rparr>"
      by (auto simp: xs_read_event_def split: prod.splits)
    with "3.IH" [OF w [symmetric] refl _ r] ring_get_spec [OF "3.prems"(1)] "3.prems"(2) w r False show ?thesis by auto
  qed
qed simp

section \<open>\<open>PinIoExample\<close>\<close>

text \<open>The pins, which are null before the setup; \<^verbatim>\<open>std::cout\<close> or \<^verbatim>\<open>Serial\<close>, and \<^verbatim>\<open>delay\<close>.\<close>

record 'w io_board =
  io_digital_in :: "'w in_pin option"
  io_digital_out :: "'w out_pin option"
  io_analog_in :: "'w analog_in_pin option"
  io_analog_out :: "'w analog_out_pin option"
  io_print :: "byte list \<Rightarrow> 'w \<Rightarrow> 'w"
  io_delay :: "u32 \<Rightarrow> 'w \<Rightarrow> 'w"

record pin_io =
  pi_digital_out_level :: bool
  pi_analog_out_value :: u32
  pi_setup_failed :: bool

definition pi_init :: pin_io where
  "pi_init = \<lparr>pi_digital_out_level = False, pi_analog_out_value = 0, pi_setup_failed = False\<rparr>"

definition print_number :: "'w io_board \<Rightarrow> u32 \<Rightarrow> 'w \<Rightarrow> 'w" where
  "print_number io v w = io_print io (int_decimal v) w"

text \<open>The lines both tasks print.\<close>

definition print_pins :: "'w io_board \<Rightarrow> byte list \<Rightarrow> bool \<Rightarrow> byte list \<Rightarrow> u32 \<Rightarrow> 'w \<Rightarrow> 'w" where
  "print_pins io t1 d t2 a w =
     io_print io [chr_lf] (print_number io a (io_print io t2 (io_print io (if d then [chr_1] else [chr_0]) (io_print io t1 w))))"

definition setup_pins :: "'w io_board \<Rightarrow> 'w \<Rightarrow> bool" where
  "setup_pins io w \<longleftrightarrow>
     (case (io_digital_in io, io_digital_out io, io_analog_in io, io_analog_out io) of
        (Some d, Some e, Some a, Some b) \<Rightarrow> ip_valid d w \<and> op_valid e w \<and> ai_valid a w \<and> ao_valid b w
      | _ \<Rightarrow> False)"

definition read_pins :: "'w io_board \<Rightarrow> pin_io \<times> 'w \<Rightarrow> pin_io \<times> 'w" where
  "read_pins io gw =
     (case gw of (g, w) \<Rightarrow>
        case (case io_digital_in io of None \<Rightarrow> (False, w) | Some p \<Rightarrow> ip_read p w) of (d, w1) \<Rightarrow>
        case (case io_analog_in io of None \<Rightarrow> (0, w1) | Some p \<Rightarrow> ai_read p w1) of (a, w2) \<Rightarrow>
          (g, print_pins io (bytes_of ''digital in: '') d (bytes_of '' analog in: '') a w2))"

text \<open>The division of two \<^verbatim>\<open>int\<close>s rounds towards zero.\<close>

definition analog_next :: "u32 \<Rightarrow> u32 \<Rightarrow> u32" where
  "analog_next analog_max v =
     (let v1 = v + word_of_int (sint analog_max sdiv 8) in if sint v1 > sint analog_max then 0 else v1)"

definition write_pins :: "'w io_board \<Rightarrow> pin_io \<times> 'w \<Rightarrow> pin_io \<times> 'w" where
  "write_pins io gw =
     (case gw of (g, w) \<Rightarrow>
        let level = (\<not> pi_digital_out_level g); v = pi_analog_out_value g;
            w1 = (case io_digital_out io of None \<Rightarrow> w | Some p \<Rightarrow> snd (op_write p level w));
            w2 = (case io_analog_out io of None \<Rightarrow> w1 | Some p \<Rightarrow> snd (ao_write p v w1));
            analog_max = (case io_analog_out io of None \<Rightarrow> 255 | Some p \<Rightarrow> ao_max_value p)
        in (g\<lparr>pi_digital_out_level := level, pi_analog_out_value := analog_next analog_max v\<rparr>,
            print_pins io (bytes_of ''digital out: '') level (bytes_of '' analog out: '') v w2))"

datatype pi_task = Read_Pins | Write_Pins

fun pi_act :: "'w io_board \<Rightarrow> pi_task \<Rightarrow> pin_io \<times> 'w \<Rightarrow> pin_io \<times> 'w" where
  "pi_act io Read_Pins gw = read_pins io gw"
| "pi_act io Write_Pins gw = write_pins io gw"

definition pi_setup_tasks :: "(pi_task, 's, 'w) el_env \<Rightarrow> (pi_task, 's, 'w) el_state \<Rightarrow> (pi_task, 's, 'w) el_state" where
  "pi_setup_tasks env st =
     (let st1 = snd (el_on_repeat env 500 Read_Pins st) in snd (el_on_repeat env 1000 Write_Pins st1))"

definition failed_text :: "byte list" where
  "failed_text = bytes_of ''pin io setup failed'' @ [chr_lf]"

text \<open>\<open>setup()\<close> and \<open>loop()\<close> on Arduino.\<close>

definition pi_setup ::
  "'w io_board \<Rightarrow> (pi_task, 's, pin_io \<times> 'w) el_env \<Rightarrow> (pi_task, 's, pin_io \<times> 'w) el_state \<Rightarrow> (pi_task, 's, pin_io \<times> 'w) el_state" where
  "pi_setup io env st =
     (case st of (s, l, g, w) \<Rightarrow>
        if \<not> setup_pins io w then (s, l, g\<lparr>pi_setup_failed := True\<rparr>, io_print io failed_text w)
        else pi_setup_tasks env st)"

definition pi_loop ::
  "'w io_board \<Rightarrow> (pi_task, arduino_loop, pin_io \<times> 'w) el_env \<Rightarrow> (pi_task, arduino_loop, pin_io \<times> 'w) el_state
     \<Rightarrow> (pi_task, arduino_loop, pin_io \<times> 'w) el_state option" where
  "pi_loop io env st =
     (case st of (s, l, g, w) \<Rightarrow>
        if pi_setup_failed g then Some (s, l, g, io_delay io 1000 (io_print io failed_text w)) else el_run_once env st)"

text \<open>\<open>main\<close> on Linux: the exit code, or nothing when it goes on to run the loop for ever.\<close>

definition pi_main_exit :: "'w io_board \<Rightarrow> nat \<Rightarrow> 'w \<Rightarrow> int option" where
  "pi_main_exit io argc w = (if argc < 5 then Some 2 else if \<not> setup_pins io w then Some 1 else None)"

section \<open>The values on the output pins\<close>

text \<open>The sawtooth: in steps of an eighth of the maximum up to the last step that fits, then from 0 again.\<close>

definition sawtooth :: "nat \<Rightarrow> nat \<Rightarrow> nat" where
  "sawtooth m k = k mod (m div (m div 8) + 1) * (m div 8)"

lemma sawtooth_le: "sawtooth m k \<le> m"
proof -
  have "k mod (m div (m div 8) + 1) \<le> m div (m div 8)" by (simp add: less_Suc_eq_le [symmetric])
  then have "sawtooth m k \<le> m div (m div 8) * (m div 8)" unfolding sawtooth_def by (rule mult_le_mono1)
  also have "\<dots> \<le> m" by simp
  finally show ?thesis .
qed

lemma sawtooth_Suc: "sawtooth m (Suc k) = (if sawtooth m k + m div 8 > m then 0 else sawtooth m k + m div 8)"
proof -
  define s where "s = m div 8"
  define j where "j = k mod (m div s + 1)"
  have j: "j \<le> m div s" by (simp add: j_def less_Suc_eq_le [symmetric])
  have e: "Suc k mod (m div s + 1) = (if j = m div s then 0 else Suc j)" by (simp add: j_def mod_Suc)
  show ?thesis
  proof (cases "s = 0")
    case False
    have "m < Suc (m div s) * s" using False by (metis dividend_less_div_times mult.commute mult_Suc_right neq0_conv add.commute)
    moreover have "Suc j * s \<le> m" if "j < m div s"
    proof -
      have "Suc j * s \<le> m div s * s" using that by (intro mult_le_mono1) simp
      then show ?thesis by (rule order_trans) simp
    qed
    ultimately have "j * s + s > m \<longleftrightarrow> j = m div s" using j by (cases "j < m div s") auto
    moreover have "sawtooth m k = j * s" "sawtooth m (Suc k) = (if j = m div s then 0 else Suc j * s)"
      unfolding sawtooth_def s_def [symmetric] j_def [symmetric] e by simp_all
    ultimately show ?thesis by (auto simp flip: s_def)
  qed (simp add: sawtooth_def flip: s_def)
qed

lemma analog_next_sawtooth:
  assumes "m + m div 8 < 2 ^ 31"
  shows "analog_next (of_nat m) (of_nat (sawtooth m k)) = of_nat (sawtooth m (Suc k))"
proof -
  have m: "sint (of_nat m :: u32) = int m" using sint_of_int_u32 [of "int m"] assms by simp
  have d: "int m sdiv 8 = int (m div 8)" by (auto simp: signed_divide_int_def zdiv_int sgn_if)
  have "sint (of_nat (sawtooth m k) + of_nat (m div 8) :: u32) = int (sawtooth m k + m div 8)"
    using sint_of_int_u32 [of "int (sawtooth m k + m div 8)"] sawtooth_le [of m k] assms by simp
  then show ?thesis by (simp add: analog_next_def m d sawtooth_Suc Let_def)
qed

text \<open>The two output pins: \<open>dlog\<close> and \<open>alog\<close> are what has been written to them; nothing else touches them.\<close>

definition pin_logs :: "'w io_board \<Rightarrow> nat \<Rightarrow> ('w \<Rightarrow> bool list) \<Rightarrow> ('w \<Rightarrow> u32 list) \<Rightarrow> bool" where
  "pin_logs io m dlog alog \<longleftrightarrow>
     (\<exists>p. io_digital_out io = Some p \<and> (\<forall>b w. dlog (snd (op_write p b w)) = dlog w @ [b] \<and> alog (snd (op_write p b w)) = alog w))
     \<and> (\<exists>p. io_analog_out io = Some p \<and> ao_max_value p = of_nat m
          \<and> (\<forall>v w. alog (snd (ao_write p v w)) = alog w @ [v] \<and> dlog (snd (ao_write p v w)) = dlog w))
     \<and> (\<forall>p w. io_digital_in io = Some p \<longrightarrow> dlog (snd (ip_read p w)) = dlog w \<and> alog (snd (ip_read p w)) = alog w)
     \<and> (\<forall>p w. io_analog_in io = Some p \<longrightarrow> dlog (snd (ai_read p w)) = dlog w \<and> alog (snd (ai_read p w)) = alog w)
     \<and> (\<forall>t w. dlog (io_print io t w) = dlog w \<and> alog (io_print io t w) = alog w)"

definition pins_after :: "nat \<Rightarrow> ('w \<Rightarrow> bool list) \<Rightarrow> ('w \<Rightarrow> u32 list) \<Rightarrow> nat \<Rightarrow> pin_io \<times> 'w \<Rightarrow> bool" where
  "pins_after m dlog alog k gw \<longleftrightarrow> (case gw of (g, w) \<Rightarrow>
     pi_digital_out_level g = odd k \<and> pi_analog_out_value g = of_nat (sawtooth m k)
     \<and> dlog w = map even [0..<k] \<and> alog w = map (\<lambda>i. of_nat (sawtooth m i)) [0..<k])"

lemma pi_act_pins:
  assumes "pin_logs io m dlog alog" "m + m div 8 < 2 ^ 31" "pins_after m dlog alog k gw"
  shows "pins_after m dlog alog (if p = Write_Pins then Suc k else k) (pi_act io p gw)"
proof -
  obtain g w where gw: "gw = (g, w)" by fastforce
  from assms(1) obtain dp ap where p: "io_digital_out io = Some dp" "io_analog_out io = Some ap" "ao_max_value ap = of_nat m"
    "\<And>b w. dlog (snd (op_write dp b w)) = dlog w @ [b]" "\<And>b w. alog (snd (op_write dp b w)) = alog w"
    "\<And>v w. alog (snd (ao_write ap v w)) = alog w @ [v]" "\<And>v w. dlog (snd (ao_write ap v w)) = dlog w"
    by (auto simp: pin_logs_def)
  have pr: "dlog (io_print io t w) = dlog w" "alog (io_print io t w) = alog w" for t w using assms(1) by (simp_all add: pin_logs_def)
  then have pp: "dlog (print_pins io t1 d t2 a w) = dlog w" "alog (print_pins io t1 d t2 a w) = alog w" for t1 d t2 a w
    by (simp_all add: print_pins_def print_number_def)
  show ?thesis
  proof (cases p)
    case Write_Pins
    have "pi_analog_out_value g = of_nat (sawtooth m k)" using assms(3) by (simp add: gw pins_after_def)
    then have "analog_next (of_nat m) (pi_analog_out_value g) = of_nat (sawtooth m (Suc k))"
      using analog_next_sawtooth [OF assms(2), of k] by simp
    with assms(3) Write_Pins p pp show ?thesis
      by (simp add: gw pins_after_def write_pins_def Let_def)
  next
    case Read_Pins
    have r: "dlog (snd (ip_read q x)) = dlog x" "alog (snd (ip_read q x)) = alog x" if "io_digital_in io = Some q" for q x
      using assms(1) that by (simp_all add: pin_logs_def)
    have a: "dlog (snd (ai_read q x)) = dlog x" "alog (snd (ai_read q x)) = alog x" if "io_analog_in io = Some q" for q x
      using assms(1) that by (simp_all add: pin_logs_def)
    have "fst (read_pins io (g, w)) = g" "dlog (snd (read_pins io (g, w))) = dlog w" "alog (snd (read_pins io (g, w))) = alog w"
      by (cases "io_digital_in io"; cases "io_analog_in io"; simp add: read_pins_def case_prod_unfold pp r a)+
    with assms(3) Read_Pins show ?thesis by (cases "read_pins io (g, w)") (simp add: gw pins_after_def)
  qed
qed

definition pi_env :: "'w io_board \<Rightarrow> ('w \<Rightarrow> u64) \<Rightarrow> (pi_task, arduino_loop, pin_io \<times> 'w) el_env" where
  "pi_env io clock =
     \<lparr>en_ops = al_ops, en_micros = (\<lambda>(g, w). clock w), en_readable = (\<lambda>q gw. False), en_stream_fd = (\<lambda>q gw. - 1),
      en_source_fd = (\<lambda>q gw. - 1), en_read_event = (\<lambda>q gw. Some (None, gw)), en_run = (\<lambda>p (s, l, gw). Some (s, l, pi_act io p gw)),
      en_run_pin = (\<lambda>p ev st. Some st), en_external = (\<lambda>t now st. Some st)\<rparr>"

definition pi_effects :: "'w io_board \<Rightarrow> (pi_task, pin_io \<times> 'w) effects" where
  "pi_effects io = \<lparr>ef_run = pi_act io, ef_drain = (\<lambda>q p gw. gw), ef_extern = (\<lambda>t now gw. gw)\<rparr>"

definition pi_timers :: "u64 \<Rightarrow> pi_task timed list" where
  "pi_timers now =
     [\<lparr>tm_id = Some 0, tm_task = 0, tm_call = Run Read_Pins, tm_enabled = True, tm_period = 500000, tm_due = now\<rparr>,
      \<lparr>tm_id = Some 1, tm_task = 1, tm_call = Run Write_Pins, tm_enabled = True, tm_period = 1000000, tm_due = now\<rparr>]"

definition pi_ops :: "(pi_task, pin_io \<times> 'w) app_op list" where
  "pi_ops = [Repeat 500000 Read_Pins, Repeat 1000000 Write_Pins]"

lemma pi_setup_run: "\<exists>oks hs. app_run env pi_ops ([], st) = Some (oks, hs, pi_setup_tasks env st)"
  by (simp add: pi_ops_def pi_setup_tasks_def Let_def el_on_repeat_def app_register_def split: prod.split)

lemma pi_setup_timers:
  assumes "2 \<le> n"
  shows "tm_run (pi_env io clock) ef n pi_ops ((0, []), g, w) = ([True, True], (2, pi_timers (clock w)), g, w)"
    and "ops_ok (pi_env io clock) ef n pi_ops ((0, []), g, w)"
proof -
  have f: "tm_free n ([] :: pi_task timed list) = Some 0" "tm_free n [hd (pi_timers now)] = Some 1" for now
    using assms by (simp_all add: tm_free_def upt_conv_Cons pi_timers_def)
  show "tm_run (pi_env io clock) ef n pi_ops ((0, []), g, w) = ([True, True], (2, pi_timers (clock w)), g, w)"
    using assms f(1) f(2) [of "clock w"] by (simp add: pi_ops_def pi_timers_def tm_add_def pi_env_def)
  show "ops_ok (pi_env io clock) ef n pi_ops ((0, []), g, w)"
    using assms f(1) by (simp add: pi_ops_def tm_add_def)
qed

text \<open>Calls of \<open>loop()\<close>, with anything in between that leaves the output pins and the variables alone.\<close>

definition pi_calls :: "('w \<Rightarrow> bool list) \<Rightarrow> ('w \<Rightarrow> u32 list) \<Rightarrow> (pi_task, pin_io \<times> 'w) app_op list \<Rightarrow> bool" where
  "pi_calls dlog alog prog \<longleftrightarrow> (\<forall>op \<in> set prog. op = Iterate \<or>
     (\<exists>f. op = Outside (\<lambda>(g, w). (g, f w)) \<and> (\<forall>w. dlog (f w) = dlog w \<and> alog (f w) = alog w)))"

text \<open>
  The pin example, from \<open>setup()\<close> with working pins on through any calls of \<open>loop()\<close>. With \<open>k\<close> the number of times
  the second callback has been due, the digital output has been switched on and off in turn, starting with
  on, and the analog output has been given the sawtooth that rises in eighths of the pin's maximum \<open>m\<close>, and never
  exceeds it; no addition overflows.
\<close>

theorem pin_io_waveforms:
  assumes "pin_logs io m dlog alog" "m + m div 8 < 2 ^ 31" "setup_pins io w" "dlog w = []" "alog w = []" "2 \<le> n" "n \<le> 0xfffe"
    "pi_calls dlog alog prog" "ops_ok (pi_env io clock) (pi_effects io) n prog ((2, pi_timers (clock w)), pi_init, w)"
  shows "\<exists>oks hs oks' hs' s l g w' k.
      app_run (pi_env io clock) pi_ops ([], al_init n, el_init n, pi_init, w)
        = Some (oks, hs, pi_setup io (pi_env io clock) (al_init n, el_init n, pi_init, w))
    \<and> app_run (pi_env io clock) prog (hs, pi_setup io (pi_env io clock) (al_init n, el_init n, pi_init, w)) = Some (oks', hs', s, l, g, w')
    \<and> k = task_runs (pi_env io clock) (pi_effects io) n Write_Pins prog ((2, pi_timers (clock w)), pi_init, w)
    \<and> dlog w' = map even [0..<k] \<and> alog w' = map (\<lambda>i. of_nat (sawtooth m i)) [0..<k] \<and> (\<forall>i < k. sawtooth m i \<le> m)"
proof -
  let ?env = "pi_env io clock" and ?ef = "pi_effects io" and ?mw = "((2, pi_timers (clock w)), pi_init, w)"
  let ?st = "(al_init n, el_init n, pi_init, w)" and ?P = "pins_after m dlog alog"
  have world: "world_only ?env ?ef"
    unfolding world_only_def pi_env_def pi_effects_def by (simp add: el_drain_pins.simps del: split_paired_All)
  have tasks: "pi_setup io ?env ?st = pi_setup_tasks ?env ?st" using assms(3) by (simp add: pi_setup_def)
  obtain oks hs where su: "app_run ?env pi_ops ([], ?st) = Some (oks, hs, pi_setup io ?env ?st)"
    unfolding tasks using pi_setup_run by blast
  from app_run_refines [OF simulates_init [OF assms(7)] world pi_setup_timers(2) [OF assms(6), where g = pi_init and w = w]] su
    pi_setup_timers(1) [OF assms(6), of io clock ?ef pi_init w] obtain s l where
    st: "pi_setup io ?env ?st = (s, l, pi_init, w)" and sim: "simulates n (2, pi_timers (clock w)) hs s l" by auto
  from app_run_refines [OF sim world assms(9)] obtain oks' mcs' g' w' hs' s' l' where
    tm: "tm_run ?env ?ef n prog ?mw = (oks', mcs', g', w')" and
    run: "app_run ?env prog (hs, pi_setup io ?env ?st) = Some (oks', hs', s', l', g', w')"
    unfolding st by auto
  have "?P (0 + task_runs ?env ?ef n Write_Pins prog ?mw) (g', w')"
  proof (rule tm_run_counts [where P = ?P and ef = ?ef and p = Write_Pins and ops = prog])
    show "tm_run ?env ?ef n prog ?mw = (oks', mcs', g', w')" by (rule tm)
    show "?P 0 (pi_init, w)" using assms(4,5) by (simp add: pins_after_def pi_init_def sawtooth_def)
    show "no_ready Write_Pins (pi_timers (clock w))" by (simp add: no_ready_def pi_timers_def)
    show "On_Bytes q Write_Pins poll_us \<notin> set prog" for q poll_us using assms(8) by (auto simp: pi_calls_def)
    show "?P (Suc k) (ef_run ?ef Write_Pins gw)" if "?P k gw" for k gw
      using pi_act_pins [OF assms(1,2) that, of Write_Pins] by (simp add: pi_effects_def)
    show "?P k (ef_run ?ef q gw)" if "q \<noteq> Write_Pins" "?P k gw" for k q gw
      using pi_act_pins [OF assms(1,2) that(2), of q] that(1) by (simp add: pi_effects_def)
    show "?P k (f gw)" if "Outside f \<in> set prog" "?P k gw" for k f gw
      using assms(8) that by (fastforce simp: pi_calls_def pins_after_def)
  qed (simp_all add: pi_effects_def)
  with su run sawtooth_le show ?thesis unfolding pins_after_def by (intro exI conjI allI impI) auto
qed

text \<open>A board whose world is the clock and what has been written to the two pins.\<close>

definition plain_board :: "(u64 \<times> bool list \<times> u32 list) io_board" where
  "plain_board =
     \<lparr>io_digital_in = Some \<lparr>ip_valid = (\<lambda>w. True), ip_read = (\<lambda>w. (True, w))\<rparr>,
      io_digital_out = Some \<lparr>op_valid = (\<lambda>w. True), op_write = (\<lambda>b (t, ds, vs). (True, (t, ds @ [b], vs)))\<rparr>,
      io_analog_in = Some \<lparr>ai_valid = (\<lambda>w. True), ai_read = (\<lambda>w. (7, w))\<rparr>,
      io_analog_out = Some \<lparr>ao_valid = (\<lambda>w. True), ao_write = (\<lambda>v (t, ds, vs). (True, (t, ds, vs @ [v]))), ao_max_value = 255\<rparr>,
      io_print = (\<lambda>t w. w), io_delay = (\<lambda>ms w. w)\<rparr>"

definition second_later :: "(pi_task, pin_io \<times> u64 \<times> bool list \<times> u32 list) app_op" where
  "second_later = Outside (\<lambda>(g, w). (g, case w of (t, log) \<Rightarrow> (1000000, log)))"

lemma plain_board_logs: "pin_logs plain_board 255 (\<lambda>w. fst (snd w)) (\<lambda>w. snd (snd w))"
  by (auto simp: pin_logs_def plain_board_def)

lemma plain_board_act:
  "read_pins plain_board gw = gw"
  "write_pins plain_board (g, t, ds, vs) =
     (g\<lparr>pi_digital_out_level := \<not> pi_digital_out_level g, pi_analog_out_value := analog_next 255 (pi_analog_out_value g)\<rparr>,
      t, ds @ [\<not> pi_digital_out_level g], vs @ [pi_analog_out_value g])"
  by (simp_all add: read_pins_def write_pins_def plain_board_def print_pins_def print_number_def Let_def split: prod.split)

text \<open>Two calls of \<open>loop()\<close>, a second apart.\<close>

lemma plain_board_runs:
  "task_runs (pi_env plain_board fst) (pi_effects plain_board) 32 Write_Pins [Iterate, second_later, Iterate]
     ((2, pi_timers 0), pi_init, 0, [], []) = 2"
  "ops_ok (pi_env plain_board fst) (pi_effects plain_board) 32 [Iterate, second_later, Iterate] ((2, pi_timers 0), pi_init, 0, [], [])"
proof -
  let ?env = "pi_env plain_board fst" and ?ef = "pi_effects plain_board"
  let ?d = "500000" and ?e = "1000000"
  let ?cs = "[(hd (pi_timers 0))\<lparr>tm_due := ?d\<rparr>, (last (pi_timers 0))\<lparr>tm_due := ?e\<rparr>]"
  obtain g where f: "fold (tm_effect ?env ?ef 0) (filter (tm_ready 0) (pi_timers 0)) (pi_init, 0, [], []) = (g, 0, [True], [0])"
    by (simp add: pi_timers_def tm_ready_def tm_effect_def pi_effects_def plain_board_act pi_init_def)
  have "tm_advance 0 (pi_timers 0) = ?cs" by (simp add: pi_timers_def tm_advance_def tm_next_def tm_ready_def)
  then have 1: "tm_step ?env ?ef 32 Iterate ((2, pi_timers 0), pi_init, 0, [], []) = (True, (2, ?cs), g, 0, [True], [0])"
    unfolding tm_step.simps Let_def using f by (simp add: pi_env_def)
  have 2: "tm_step ?env ?ef 32 second_later ((2, ?cs), g, 0, [True], [0]) = (True, (2, ?cs), g, ?e, [True], [0])"
    by (simp add: second_later_def)
  have m: "en_micros ?env (g, t, w) = t" for g t w by (simp add: pi_env_def)
  have r: "length (filter (runs_call Write_Pins) (filter (tm_ready 0) (pi_timers 0))) = 1"
    "length (filter (runs_call Write_Pins) (filter (tm_ready ?e) ?cs)) = 1"
    by (simp_all add: pi_timers_def tm_ready_def runs_call_def)
  have s: "step_runs ?env Write_Pins second_later ((2, ?cs), g, 0, [True], [0]) = 0" by (simp add: second_later_def)
  show "task_runs ?env ?ef 32 Write_Pins [Iterate, second_later, Iterate] ((2, pi_timers 0), pi_init, 0, [], []) = 2"
    by (simp only: task_runs.simps 1 2 s step_runs.simps(1) m r snd_conv)
  have "op_ok ?env 32 second_later ((2, ?cs), g, 0, [True], [0])" by (simp add: second_later_def)
  then show "ops_ok ?env ?ef 32 [Iterate, second_later, Iterate] ((2, pi_timers 0), pi_init, 0, [], [])"
    by (simp only: ops_ok.simps 1 2 snd_conv) (simp add: m pi_timers_def)
qed

lemma pin_io_waveforms_witness:
  "\<exists>hs oks' hs' s l g w. app_run (pi_env plain_board fst) [Iterate, second_later, Iterate]
      (hs, pi_setup plain_board (pi_env plain_board fst) (al_init 32, el_init 32, pi_init, 0, [], [])) = Some (oks', hs', s, l, g, w)
    \<and> snd w = ([True, False], [0, 31])"
proof -
  have calls: "pi_calls (\<lambda>w. fst (snd w)) (\<lambda>w. snd (snd w)) [Iterate, second_later, Iterate]"
    by (auto simp: pi_calls_def second_later_def)
  have s: "setup_pins plain_board (0, [], [])" by (simp add: setup_pins_def plain_board_def)
  have "[True, False] = map even [0..<2]" "[0, 31] = map (\<lambda>i. of_nat (sawtooth 255 i) :: u32) [0..<2]"
    by (simp_all add: sawtooth_def numeral_2_eq_2)
  then show ?thesis
    using pin_io_waveforms [OF plain_board_logs _ s _ _ _ _ calls, of 32 fst] plain_board_runs
    by (fastforce simp: prod_eq_iff)
qed

end
