(* ===== verification/Network_Examples.thy ===== *)
theory Network_Examples
  imports Integrated_Example Arduino_Io
begin

text \<open>
  The datagram examples \<^verbatim>\<open>src/examples/UdpBroadcastSenderExample\<close> and \<^verbatim>\<open>src/examples/UdpReceiverExample\<close>, written
  once over the datagram streams of Linux and of Arduino. Text printed on \<^verbatim>\<open>std::cout\<close> or \<^verbatim>\<open>Serial\<close> is an
  operation on the world, the parameter \<open>pr\<close>.
\<close>

section \<open>Datagram streams\<close>

record 'w udp_device =
  dg_bind :: "u16 \<Rightarrow> 'w \<Rightarrow> bool \<times> 'w"
  dg_set_remote :: "string \<Rightarrow> u16 \<Rightarrow> 'w \<Rightarrow> bool \<times> 'w"
  dg_write :: "byte list \<Rightarrow> 'w \<Rightarrow> int \<times> 'w"
  dg_readable :: "'w \<Rightarrow> bool \<times> 'w"
  dg_recv_from :: "nat \<Rightarrow> 'w \<Rightarrow> int \<times> byte list \<times> tcp_peer_info option \<times> 'w"

text \<open>\<open>NativeUdpDatagramStream\<close> on Linux and on Arduino; \<open>bind\<close> allows the address to be used again.\<close>

definition linux_udp :: "'w fd_ops \<Rightarrow> (udp_stream \<times> 'w) udp_device" where
  "linux_udp fds =
     \<lparr>dg_bind = (\<lambda>port. udp_bind fds port True),
      dg_set_remote = (\<lambda>host port (u, w). case udp_set_remote fds (Some host) port u of (ok, u1) \<Rightarrow> (ok, u1, w)),
      dg_write = (\<lambda>bytes (u, w). case udp_write fds (Some bytes) u w of (n, w1) \<Rightarrow> (n, u, w1)),
      dg_readable = (\<lambda>(u, w). (ud_fd u \<ge> 0, u, w)),
      dg_recv_from = (\<lambda>m (u, w). case udp_recv_from fds False m True u w of (n, bytes, src, w1) \<Rightarrow> (n, bytes, src, u, w1))\<rparr>"

definition arduino_udp :: "'w wifi_udp_ops \<Rightarrow> (wifi_udp \<times> 'w) udp_device" where
  "arduino_udp ops =
     \<lparr>dg_bind = uw_bind ops,
      dg_set_remote = (\<lambda>host port (u, w). case uw_set_remote ops (Some host) port u of (ok, u1) \<Rightarrow> (ok, u1, w)),
      dg_write = (\<lambda>bytes (u, w). case uw_write ops (Some bytes) u w of (n, w1) \<Rightarrow> (n, u, w1)),
      dg_readable = uw_readable ops, dg_recv_from = (\<lambda>m. uw_recv_from ops False m True)\<rparr>"

text \<open>The first part of \<open>setup_example\<close> on Arduino; it does not return if the clock stands still.\<close>

definition example_wifi ::
  "'w wifi_core \<Rightarrow> (byte list \<Rightarrow> 'w \<Rightarrow> 'w) \<Rightarrow> string \<Rightarrow> string \<Rightarrow> u32 \<Rightarrow> 'w \<Rightarrow> (bool \<times> 'w) option" where
  "example_wifi core pr ssid password timeout_ms w =
     map_option (\<lambda>(result, w1).
         if result \<noteq> Connected then (False, pr [chr_lf] (pr (bytes_of (wifi_connect_result_text result)) w1)) else (True, w1))
       (connect_wifi_named core (Some ssid) (Some password) timeout_ms 250 w)"

section \<open>\<open>UdpReceiverExample\<close>\<close>

definition print_datagram :: "(byte list \<Rightarrow> 'w \<Rightarrow> 'w) \<Rightarrow> tcp_peer_info \<Rightarrow> byte list \<Rightarrow> 'w \<Rightarrow> 'w" where
  "print_datagram pr source buffer w =
     pr (c_string buffer) (pr [chr_space] (pr (int_decimal (ucast (peer_port source))) (pr (bytes_of '':'')
       (pr (bytes_of (peer_host source)) (pr (bytes_of ''from '') w)))))"

text \<open>The callback; the buffer is as large as a read may be and a zero.\<close>

partial_function (option) receive_loop ::
  "'w udp_device \<Rightarrow> (byte list \<Rightarrow> 'w \<Rightarrow> 'w) \<Rightarrow> tcp_peer_info \<times> 'w \<Rightarrow> 'w option" where
  "receive_loop dg pr sw =
     (case sw of (source, w) \<Rightarrow>
        case dg_readable dg w of (ready, w1) \<Rightarrow>
          if \<not> ready then Some w1
          else case dg_recv_from dg 255 w1 of (n, bytes, from, w2) \<Rightarrow>
            if n \<le> 0 then Some w2
            else let source1 = (case from of None \<Rightarrow> source | Some e \<Rightarrow> e)
                 in receive_loop dg pr (source1, print_datagram pr source1 (bytes @ [0]) w2))"

declare receive_loop.simps [code]

definition receive_datagrams :: "'w udp_device \<Rightarrow> (byte list \<Rightarrow> 'w \<Rightarrow> 'w) \<Rightarrow> 'w \<Rightarrow> 'w option" where
  "receive_datagrams dg pr w = receive_loop dg pr (\<lparr>peer_host = [], peer_port = 0\<rparr>, w)"

definition receiver_setup ::
  "'w udp_device \<Rightarrow> (unit, 's, 'w) el_env \<Rightarrow> u16 \<Rightarrow> (unit, 's, 'w) el_state \<Rightarrow> bool \<times> (unit, 's, 'w) el_state" where
  "receiver_setup dg env port st =
     (case st of (s, l, w) \<Rightarrow>
        case dg_bind dg port w of (ok, w1) \<Rightarrow>
          if \<not> ok then (False, s, l, w1) else (True, snd (el_on_bytes_ready env 0 () default_readiness_poll_us (s, l, w1))))"

section \<open>\<open>UdpBroadcastSenderExample\<close>\<close>

definition broadcast_message :: "byte list" where
  "broadcast_message = bytes_of ''pypilot udp broadcast'' @ [chr_lf]"

definition send_broadcast :: "'w udp_device \<Rightarrow> (byte list \<Rightarrow> 'w \<Rightarrow> 'w) \<Rightarrow> u32 \<times> 'w \<Rightarrow> u32 \<times> 'w" where
  "send_broadcast dg pr qw =
     (case qw of (sequence, w) \<Rightarrow>
        let w1 = snd (dg_write dg (c_string broadcast_message) w)
        in (sequence + 1,
            pr [chr_lf] (pr (rev (uint_digits 10 (sequence + 1))) (pr (bytes_of ''sent udp datagram '') w1))))"

definition sender_setup ::
  "'w udp_device \<Rightarrow> (unit, 's, u32 \<times> 'w) el_env \<Rightarrow> string \<Rightarrow> u16 \<Rightarrow> u16 \<Rightarrow> (unit, 's, u32 \<times> 'w) el_state
     \<Rightarrow> bool \<times> (unit, 's, u32 \<times> 'w) el_state" where
  "sender_setup dg env host port local_port st =
     (case st of (s, l, q, w) \<Rightarrow>
        case dg_bind dg local_port w of (ok, w1) \<Rightarrow>
          if \<not> ok then (False, s, l, q, w1)
          else case dg_set_remote dg host port w1 of (ok2, w2) \<Rightarrow>
            if \<not> ok2 then (False, s, l, q, w2) else (True, snd (el_on_repeat env 1000 () (s, l, q, w2))))"

section \<open>What is received\<close>

lemma c_string_end: "c_string (bytes @ [0]) = c_string bytes"
  by (induction bytes) (simp_all add: c_string_def)

text \<open>What is printed of a datagram, cut to the room in the buffer.\<close>

definition datagram_text :: "tcp_peer_info \<Rightarrow> byte list \<Rightarrow> byte list" where
  "datagram_text source d =
     bytes_of ''from '' @ bytes_of (peer_host source) @ bytes_of '':'' @ int_decimal (ucast (peer_port source)) @ [chr_space]
       @ c_string (take 255 d)"

text \<open>
  The receiver on Linux, when the socket is reported to be ready: it prints every datagram that has come with
  its sender, each cut to 255 bytes and at its first zero. An empty datagram makes it stop early; the rest
  waits for the next time.
\<close>

theorem receiver_prints_datagrams:
  assumes "datagram_socket fds (ud_fd u)" "ud_fd u \<ge> 0" "\<forall>d \<in> set ds. snd d \<noteq> []" "rest = [] \<or> snd (hd rest) = []"
    "\<And>t u q x. pr t (u, q, x) = (u, q, p t x)" "\<And>t x. out (p t x) = out x @ t"
  shows "\<exists>x'. receive_datagrams (linux_udp fds) pr (u, ds @ rest, x) = Some (u, tl rest, x')
    \<and> out x' = out x @ concat (map (\<lambda>((ip, port), d). datagram_text \<lparr>peer_host = sys_ntop fds ip, peer_port = port\<rparr> d) ds)"
proof -
  have "\<exists>x'. receive_loop (linux_udp fds) pr (source, u, ds @ rest, x) = Some (u, tl rest, x')
    \<and> out x' = out x @ concat (map (\<lambda>((ip, port), d). datagram_text \<lparr>peer_host = sys_ntop fds ip, peer_port = port\<rparr> d) ds)"
    for source
    using assms(3)
  proof (induction ds arbitrary: source x)
    case Nil
    have "udp_recv_from fds False 255 True u (rest, x) = (0, [], None, (tl rest, x)) \<or> (\<exists>src. udp_recv_from fds False 255 True u (rest, x)
        = (0, [], Some src, (tl rest, x)))"
      using assms(1,2,4) by (cases rest) (auto simp: udp_recv_from_def datagram_socket_def fd_result_def)
    then show ?case using assms(2) by (auto simp: receive_loop.simps [of _ _ "(source, _)"] linux_udp_def)
  next
    case (Cons d ds)
    obtain ip port bs where d: "d = ((ip, port), bs)" by (metis prod_cases3 prod.collapse)
    let ?src = "\<lparr>peer_host = sys_ntop fds ip, peer_port = port\<rparr>"
    have "bs \<noteq> []" using Cons.prems d by simp
    have r: "udp_recv_from fds False 255 True u ((d # ds) @ rest, x) = (int (length (take 255 bs)), take 255 bs, Some ?src, (ds @ rest, x))"
      using assms(1,2) by (simp_all add: d udp_recv_from_def datagram_socket_def)
    let ?p = "print_datagram p ?src (take 255 bs @ [0]) x"
    have pd: "print_datagram pr ?src (take 255 bs @ [0]) (u, ds @ rest, x) = (u, ds @ rest, ?p)"
      by (simp add: print_datagram_def assms(5))
    have "receive_loop (linux_udp fds) pr (source, u, (d # ds) @ rest, x) = receive_loop (linux_udp fds) pr (?src, u, ds @ rest, ?p)"
    proof -
      let ?n = "int (length (take 255 bs))"
      have "\<not> ?n \<le> 0" using \<open>bs \<noteq> []\<close> by (cases bs) simp_all
      moreover have "dg_readable (linux_udp fds) (u, (d # ds) @ rest, x) = (True, u, (d # ds) @ rest, x)"
        "dg_recv_from (linux_udp fds) 255 (u, (d # ds) @ rest, x) = (?n, take 255 bs, Some ?src, u, ds @ rest, x)"
        using r assms(2) by (simp_all add: linux_udp_def)
      ultimately show ?thesis using pd by (simp only: receive_loop.simps [of _ _ "(source, _)"] prod.case Let_def option.case if_False simp_thms)
    qed
    moreover have "out ?p = out x @ datagram_text ?src bs"
      by (simp add: print_datagram_def assms(6) datagram_text_def c_string_end)
    ultimately show ?case using Cons.IH [of ?src ?p] Cons.prems by (simp add: d)
  qed
  then show ?thesis by (simp add: receive_datagrams_def)
qed

section \<open>From the sender to the receiver\<close>

text \<open>A socket that sends: \<open>sent\<close> is what has been sent, and to whom.\<close>

definition sending_socket :: "'w fd_ops \<Rightarrow> int \<Rightarrow> ('w \<Rightarrow> ((u32 \<times> u16) \<times> byte list) list) \<Rightarrow> bool" where
  "sending_socket fds fd sent \<longleftrightarrow>
     (\<forall>bytes addr w. sent (snd (sys_sendto fds fd bytes addr w)) = sent w @ [(addr, bytes)])"

lemma broadcast_text: "c_string broadcast_message = broadcast_message" "take 255 broadcast_message = broadcast_message" "broadcast_message \<noteq> []"
  by (simp_all add: broadcast_message_def c_string_def bytes_of_def)

lemma send_broadcasts:
  assumes "sending_socket fds (ud_fd u) sent" "ud_fd u \<ge> 0" "ud_has_remote u" "\<And>t u w. \<exists>w'. pr t (u, w) = (u, w') \<and> sent w' = sent w"
  shows "\<exists>w'. ((send_broadcast (linux_udp fds) pr) ^^ k) (q, u, w) = (q + of_nat k, u, w')
    \<and> sent w' = sent w @ replicate k (ud_remote u, broadcast_message)"
proof (induction k)
  case (Suc k)
  then obtain w' where i: "((send_broadcast (linux_udp fds) pr) ^^ k) (q, u, w) = (q + of_nat k, u, w')"
    "sent w' = sent w @ replicate k (ud_remote u, broadcast_message)" by blast
  let ?w1 = "snd (udp_write fds (Some broadcast_message) u w')"
  have s: "sent ?w1 = sent w' @ [(ud_remote u, broadcast_message)]"
    using assms(1-3) broadcast_text(3) by (simp add: udp_write_def udp_send_to_sockaddr_def sending_socket_def case_prod_unfold del: split_paired_All)
  let ?n = "q + of_nat k + 1"
  obtain w2 where p2: "pr (bytes_of ''sent udp datagram '') (u, ?w1) = (u, w2)" "sent w2 = sent ?w1" using assms(4) by blast
  obtain w3 where p3: "pr (rev (uint_digits 10 ?n)) (u, w2) = (u, w3)" "sent w3 = sent w2" using assms(4) by blast
  obtain w4 where p4: "pr [chr_lf] (u, w3) = (u, w4)" "sent w4 = sent w3" using assms(4) by blast
  have "send_broadcast (linux_udp fds) pr (q + of_nat k, u, w') = (?n, u, w4)"
    using p2(1) p3(1) p4(1) by (simp add: send_broadcast_def linux_udp_def broadcast_text Let_def case_prod_unfold)
  with i(1) s p2(2) p3(2) p4(2) i(2) show ?case
    by (intro exI [of _ w4]) (simp add: add.commute add.left_commute replicate_append_same [symmetric])
qed simp

text \<open>
  C31: what the broadcast sender sends, the receiver prints. After the sender's callback has run \<open>k\<close> times its
  counter is \<open>k\<close> and \<open>k\<close> datagrams have been sent to the address it was given; when these reach a receiver, it
  prints the message \<open>k\<close> times, each time with the address of the sender, and its queue is empty.
\<close>

theorem udp_broadcasts_received:
  assumes "sending_socket fds (ud_fd u) sent" "ud_fd u \<ge> 0" "ud_has_remote u" "sent w = []"
    "\<And>t u w. \<exists>w'. pr t (u, w) = (u, w') \<and> sent w' = sent w"
    and "datagram_socket fds' (ud_fd u')" "ud_fd u' \<ge> 0"
    "\<And>t u q x. pr' t (u, q, x) = (u, q, p t x)" "\<And>t x. out (p t x) = out x @ t"
  shows "\<exists>w' x'. ((send_broadcast (linux_udp fds) pr) ^^ k) (0, u, w) = (of_nat k, u, w')
    \<and> (\<forall>m \<in> set (sent w'). fst m = ud_remote u)
    \<and> receive_datagrams (linux_udp fds') pr' (u', map (\<lambda>m. ((ip, port), snd m)) (sent w'), x) = Some (u', [], x')
    \<and> out x' = out x @ concat (replicate k (bytes_of ''from '' @ bytes_of (sys_ntop fds' ip) @ bytes_of '':''
        @ int_decimal (ucast port) @ [chr_space] @ broadcast_message))"
proof -
  from send_broadcasts [OF assms(1-3), where pr = pr and k = k and q = 0 and w = w] assms(5) assms(4) obtain w' where
    w': "((send_broadcast (linux_udp fds) pr) ^^ k) (0, u, w) = (of_nat k, u, w')" "sent w' = replicate k (ud_remote u, broadcast_message)"
    by auto
  let ?ds = "replicate k ((ip, port), broadcast_message)"
  have "\<forall>d \<in> set ?ds. snd d \<noteq> []" using broadcast_text(3) by auto
  from receiver_prints_datagrams [OF assms(6,7) this, where rest = "[]" and pr = pr' and p = p and out = out and x = x] assms(8,9) obtain x' where
    r: "receive_datagrams (linux_udp fds') pr' (u', ?ds, x) = Some (u', [], x')"
      "out x' = out x @ concat (map (\<lambda>((ip, port), d). datagram_text \<lparr>peer_host = sys_ntop fds' ip, peer_port = port\<rparr> d) ?ds)" by auto
  have "datagram_text \<lparr>peer_host = sys_ntop fds' ip, peer_port = port\<rparr> broadcast_message
      = bytes_of ''from '' @ bytes_of (sys_ntop fds' ip) @ bytes_of '':'' @ int_decimal (ucast port) @ [chr_space] @ broadcast_message"
    by (simp add: datagram_text_def broadcast_text)
  with w' r show ?thesis by (intro exI [of _ w'] exI [of _ x']) (simp add: map_replicate_const)
qed

text \<open>Three broadcasts of a sender with an address, and a receiver in memory.\<close>

definition demo_sender_fds :: "(((u32 \<times> u16) \<times> byte list) list \<times> byte list list) fd_ops" where
  "demo_sender_fds = demo_fds\<lparr>sys_sendto := (\<lambda>fd bytes addr (q, x). (int (length bytes), (q @ [(addr, bytes)], x)))\<rparr>"

lemma udp_broadcasts_received_witness:
  "\<exists>w' x'. ((send_broadcast (linux_udp demo_sender_fds) (\<lambda>t uw. uw)) ^^ 3)
      (0, \<lparr>ud_fd = 3, ud_remote = (1, 2), ud_has_remote = True\<rparr>, [], []) = (3, \<lparr>ud_fd = 3, ud_remote = (1, 2), ud_has_remote = True\<rparr>, w')
    \<and> receive_datagrams (linux_udp demo_fds) (\<lambda>t (u, q, x). (u, q, x @ [t])) (udp_init\<lparr>ud_fd := 3\<rparr>,
        map (\<lambda>m. ((5, 6), snd m)) (fst w'), []) = Some (udp_init\<lparr>ud_fd := 3\<rparr>, [], x')"
proof -
  let ?u = "\<lparr>ud_fd = 3, ud_remote = (1, 2), ud_has_remote = True\<rparr>" and ?u' = "udp_init\<lparr>ud_fd := 3\<rparr>"
  have s: "sending_socket demo_sender_fds (ud_fd ?u) fst"
    by (simp add: sending_socket_def demo_sender_fds_def)
  have "\<exists>w' x'. ((send_broadcast (linux_udp demo_sender_fds) (\<lambda>t uw. uw)) ^^ 3) (0, ?u, [], []) = (of_nat 3, ?u, w')
    \<and> (\<forall>m \<in> set (fst w'). fst m = ud_remote ?u)
    \<and> receive_datagrams (linux_udp demo_fds) (\<lambda>t (u, q, x). (u, q, x @ [t])) (?u', map (\<lambda>m. ((5, 6), snd m)) (fst w'), []) = Some (?u', [], x')
    \<and> concat x' = concat [] @ concat (replicate 3 (bytes_of ''from '' @ bytes_of (sys_ntop demo_fds 5) @ bytes_of '':''
        @ int_decimal (ucast (6 :: u16)) @ [chr_space] @ broadcast_message))"
    by (rule udp_broadcasts_received [OF s _ _ _ _ demo_datagram_socket, where p = "\<lambda>t x. x @ [t]"]) simp_all
  then show ?thesis by auto
qed

end
