(* ===== verification/Client_Example.thy ===== *)
theory Client_Example
  imports Line_Examples Network_Examples Mini_Signalk
begin

text \<open>
  The client example \<^verbatim>\<open>src/examples/TcpLineClientExample\<close>: it prints each line the server sends, sends it back
  with a prefix, and sends a numbered line every second. The TCP client itself is the parameter \<open>connect\<close>; its
  implementations are in \<^verbatim>\<open>Linux_Tcp_Client\<close> and \<^verbatim>\<open>Tcp_Clients\<close>.
\<close>

section \<open>The program\<close>

definition client_write_uint32 :: "'w tcp_ops \<Rightarrow> nat \<Rightarrow> u32 \<Rightarrow> 'w \<Rightarrow> 'w" where
  "client_write_uint32 ops c v w = write_each (tc_write ops c) (uint_digits 10 v) w"

definition client_on_connect ::
  "'w tcp_ops \<Rightarrow> (byte list \<Rightarrow> 'w \<Rightarrow> 'w) \<Rightarrow> nat \<Rightarrow> tcp_peer_info \<Rightarrow> 'w \<Rightarrow> 'w" where
  "client_on_connect ops pr c peer w =
     snd (tcp_write_line_text ops c (Some (bytes_of ''tx: connected'')) (pr (bytes_of ''connected'' @ [chr_lf]) w))"

text \<open>The array \<open>text\<close>, whatever is in it before, has 161 bytes.\<close>

definition client_on_line ::
  "'w tcp_ops \<Rightarrow> (byte list \<Rightarrow> 'w \<Rightarrow> 'w) \<Rightarrow> nat \<Rightarrow> byte list \<Rightarrow> 'w \<Rightarrow> 'w" where
  "client_on_line ops pr c line w =
     (let w1 = pr [chr_lf] (pr (c_string (line_to_cstr line (replicate 161 0))) (pr (bytes_of ''rx: '') w));
          w2 = snd (tcp_write_text ops c (Some (bytes_of ''rx: '')) w1);
          w3 = snd (tc_write ops c line w2)
      in snd (tcp_write_newline ops c w3))"

definition client_line_handler :: "'w tcp_ops \<Rightarrow> (byte list \<Rightarrow> 'w \<Rightarrow> 'w) \<Rightarrow> 'w line_client_handler" where
  "client_line_handler ops pr =
     \<lparr>ch_on_connect = client_on_connect ops pr, ch_on_line = client_on_line ops pr,
      ch_on_close = (\<lambda>c. pr (bytes_of ''closed'' @ [chr_lf])),
      ch_on_error = (\<lambda>code. pr (bytes_of ''tcp client error'' @ [chr_lf]))\<rparr>"

text \<open>The state is \<open>tx_count\<close>, the line handler and the world.\<close>

definition write_periodic_tcp_line ::
  "'w tcp_ops \<Rightarrow> u32 \<times> line_client \<times> 'w \<Rightarrow> u32 \<times> line_client \<times> 'w" where
  "write_periodic_tcp_line ops nsw =
     (case nsw of (n, s, w) \<Rightarrow>
        (case lc_connection s of
           None \<Rightarrow> (n, s, w)
         | Some c \<Rightarrow>
             if \<not> tc_valid ops c w then (n, s, w)
             else let w1 = snd (tcp_write_text ops c (Some (bytes_of ''tx: '')) w);
                      w2 = client_write_uint32 ops c n w1
                  in (n + 1, s, snd (tcp_write_newline ops c w2))))"

definition client_setup ::
  "(string \<Rightarrow> u16 \<Rightarrow> 'w \<Rightarrow> bool \<times> 'w) \<Rightarrow> (unit, 's, 'n \<times> 'w) el_env \<Rightarrow> string \<Rightarrow> u16
     \<Rightarrow> (unit, 's, 'n \<times> 'w) el_state \<Rightarrow> bool \<times> (unit, 's, 'n \<times> 'w) el_state" where
  "client_setup connect env host port st =
     (case st of (s, l, n, w) \<Rightarrow>
        case connect host port w of (ok, w1) \<Rightarrow>
          if \<not> ok then (False, s, l, n, w1) else (True, snd (el_on_repeat env 1000 () (s, l, n, w1))))"

text \<open>The setup on Arduino first joins the network, and reports what fails.\<close>

definition client_setup_arduino ::
  "'w wifi_core \<Rightarrow> (byte list \<Rightarrow> 'w \<Rightarrow> 'w) \<Rightarrow> string \<Rightarrow> string \<Rightarrow> u32 \<Rightarrow> (string \<Rightarrow> u16 \<Rightarrow> 'w \<Rightarrow> bool \<times> 'w)
     \<Rightarrow> (unit, 's, 'n \<times> 'w) el_env \<Rightarrow> string \<Rightarrow> u16 \<Rightarrow> (unit, 's, 'n \<times> 'w) el_state
     \<Rightarrow> (bool \<times> (unit, 's, 'n \<times> 'w) el_state) option" where
  "client_setup_arduino core pr ssid password timeout_ms connect env host port st =
     (case st of (s, l, n, w) \<Rightarrow>
        map_option (\<lambda>(joined, w1).
            if \<not> joined then (False, s, l, n, pr (bytes_of ''tcp client setup failed'' @ [chr_lf]) w1)
            else case client_setup connect env host port (s, l, n, w1) of (ok, s2, l2, n2, w2) \<Rightarrow>
              if ok then (True, s2, l2, n2, w2)
              else (False, s2, l2, n2, pr (bytes_of ''tcp client connect start failed'' @ [chr_lf]) w2))
          (example_wifi core pr ssid password timeout_ms w))"

definition client_loop ::
  "(byte list \<Rightarrow> 'w \<Rightarrow> 'w) \<Rightarrow> (u32 \<Rightarrow> 'w \<Rightarrow> 'w) \<Rightarrow> bool \<Rightarrow> (unit, arduino_loop, 'n \<times> 'w) el_env
     \<Rightarrow> (unit, arduino_loop, 'n \<times> 'w) el_state \<Rightarrow> (unit, arduino_loop, 'n \<times> 'w) el_state option" where
  "client_loop pr delay setup_failed env st =
     (case st of (s, l, n, w) \<Rightarrow>
        if setup_failed then Some (s, l, n, delay 1000 (pr (bytes_of ''tcp client setup failed'' @ [chr_lf]) w)) else el_run_once env st)"

section \<open>A session\<close>

text \<open>
  A connection \<open>c\<close> and the console: \<open>inbox\<close> is what is to be read, \<open>sent\<close> and \<open>printed\<close> what has been written.
\<close>

definition client_network ::
  "'w tcp_ops \<Rightarrow> (byte list \<Rightarrow> 'w \<Rightarrow> 'w) \<Rightarrow> (byte list \<Rightarrow> 'w \<Rightarrow> 'w) \<Rightarrow> nat \<Rightarrow> ('w \<Rightarrow> byte list) \<Rightarrow> ('w \<Rightarrow> byte list)
     \<Rightarrow> ('w \<Rightarrow> byte list) \<Rightarrow> ('w \<Rightarrow> bool) \<Rightarrow> bool" where
  "client_network ops pr recv c inbox sent printed winv \<longleftrightarrow>
     byte_source (connection_stream ops (Some c)) inbox (\<lambda>w. (printed w, sent w)) winv
     \<and> (\<forall>w. winv w \<longrightarrow> tc_valid ops c w)
     \<and> (\<forall>w bytes. winv w \<longrightarrow> (case tc_write ops c bytes w of (n, w1) \<Rightarrow>
          n = int (length bytes) \<and> winv w1 \<and> inbox w1 = inbox w \<and> printed w1 = printed w \<and> sent w1 = sent w @ bytes))
     \<and> (\<forall>w t. winv w \<longrightarrow> winv (pr t w) \<and> inbox (pr t w) = inbox w \<and> printed (pr t w) = printed w @ t \<and> sent (pr t w) = sent w)
     \<and> (\<forall>w bytes. winv w \<longrightarrow> winv (recv bytes w) \<and> inbox (recv bytes w) = inbox w @ bytes \<and> printed (recv bytes w) = printed w
          \<and> sent (recv bytes w) = sent w)"

text \<open>What happens in a session: data arrives and is reported, or a second has passed.\<close>

datatype client_event = Data_Arrives "byte list" | Second_Passes

primrec client_happens ::
  "'w tcp_ops \<Rightarrow> (byte list \<Rightarrow> 'w \<Rightarrow> 'w) \<Rightarrow> (byte list \<Rightarrow> 'w \<Rightarrow> 'w) \<Rightarrow> nat \<Rightarrow> client_event
     \<Rightarrow> u32 \<times> line_client \<times> 'w \<Rightarrow> (u32 \<times> line_client \<times> 'w) option" where
  "client_happens ops pr recv c (Data_Arrives bytes) nsw =
     (case nsw of (n, s, w) \<Rightarrow>
        map_option (\<lambda>sw. (n, sw)) (lc_on_data ops (client_line_handler ops pr) c (s, recv bytes w)))"
| "client_happens ops pr recv c Second_Passes nsw = Some (write_periodic_tcp_line ops nsw)"

primrec client_session ::
  "'w tcp_ops \<Rightarrow> (byte list \<Rightarrow> 'w \<Rightarrow> 'w) \<Rightarrow> (byte list \<Rightarrow> 'w \<Rightarrow> 'w) \<Rightarrow> nat \<Rightarrow> client_event list
     \<Rightarrow> u32 \<times> line_client \<times> 'w \<Rightarrow> (u32 \<times> line_client \<times> 'w) option" where
  "client_session ops pr recv c [] nsw = Some nsw"
| "client_session ops pr recv c (e # es) nsw = Option.bind (client_happens ops pr recv c e nsw) (client_session ops pr recv c es)"

definition event_data :: "client_event \<Rightarrow> byte list" where
  "event_data e = (case e of Data_Arrives bytes \<Rightarrow> bytes | Second_Passes \<Rightarrow> [])"

definition seconds :: "client_event list \<Rightarrow> nat" where
  "seconds es = length (filter (\<lambda>e. e = Second_Passes) es)"

lemma seconds_simps [simp]: "seconds [] = 0" "seconds (Second_Passes # es) = Suc (seconds es)" "seconds (Data_Arrives bs # es) = seconds es"
  by (simp_all add: seconds_def)

text \<open>What is printed of a line.\<close>

definition printed_line :: "byte list \<Rightarrow> byte list" where
  "printed_line line = bytes_of ''rx: '' @ c_string (take 160 line) @ [chr_lf]"

section \<open>What a session sends\<close>

lemma client_texts:
  "c_string (bytes_of ''rx: '') = bytes_of ''rx: ''" "c_string (bytes_of ''tx: '') = bytes_of ''tx: ''"
  "c_string (bytes_of ''tx: connected'') = bytes_of ''tx: connected''"
  by (simp_all add: c_string_def bytes_of_def)

lemma client_write:
  assumes "client_network ops pr recv c inbox sent printed winv" "winv w"
  shows "fst (tc_write ops c bytes w) = int (length bytes)" "winv (snd (tc_write ops c bytes w))"
    "inbox (snd (tc_write ops c bytes w)) = inbox w" "printed (snd (tc_write ops c bytes w)) = printed w"
    "sent (snd (tc_write ops c bytes w)) = sent w @ bytes"
  using assms unfolding client_network_def by (auto simp: case_prod_unfold)

lemma client_print:
  assumes "client_network ops pr recv c inbox sent printed winv" "winv w"
  shows "winv (pr t w)" "inbox (pr t w) = inbox w" "printed (pr t w) = printed w @ t" "sent (pr t w) = sent w"
  using assms unfolding client_network_def by auto

lemma client_uint32:
  assumes net: "client_network ops pr recv c inbox sent printed winv" and "winv w"
  shows "winv (client_write_uint32 ops c v w) \<and> inbox (client_write_uint32 ops c v w) = inbox w
    \<and> printed (client_write_uint32 ops c v w) = printed w \<and> sent (client_write_uint32 ops c v w) = sent w @ rev (uint_digits 10 v)"
proof -
  have "winv x \<and> inbox x = inbox w \<and> printed x = printed w \<and> sent x = sent w @ ds"
    if "x = fold (\<lambda>d w. snd (tc_write ops c [d] w)) ds w" "winv w" for ds x w
    using that
  proof (induction ds arbitrary: w)
    case (Cons d ds)
    with client_write [OF net Cons.prems(2), of "[d]"] Cons.IH [of "snd (tc_write ops c [d] w)"] show ?case by simp
  qed simp
  from this [OF refl assms(2)] show ?thesis by (simp add: client_write_uint32_def write_each_def)
qed

lemma client_serves:
  assumes net: "client_network ops pr recv c inbox sent printed winv"
  shows "serves ops (ch_on_line (client_line_handler ops pr)) c inbox (\<lambda>w. (printed w, sent w)) winv
    (\<lambda>line (p, t). (p @ printed_line line, t @ message_text (Rx line)))"
  unfolding serves_def
proof (intro conjI allI impI)
  show "byte_source (connection_stream ops (Some c)) inbox (\<lambda>w. (printed w, sent w)) winv"
    using net by (simp add: client_network_def)
next
  fix w assume "winv w"
  then show "tc_valid ops c w" using net by (simp add: client_network_def)
next
  fix line w assume w: "winv w"
  have l: "c_string (line_to_cstr line (replicate 161 0)) = c_string (take 160 line)"
    using c_string_line_to_cstr [of "replicate 161 0" line] by simp
  note p = client_print [OF net] and wr = client_write [OF net]
  let ?p1 = "pr (bytes_of ''rx: '') w"
  let ?p2 = "pr (c_string (take 160 line)) ?p1"
  let ?w1 = "pr [chr_lf] ?p2"
  have 1: "winv ?w1" "inbox ?w1 = inbox w" "printed ?w1 = printed w @ printed_line line" "sent ?w1 = sent w"
    by (simp_all add: p w printed_line_def)
  let ?w2 = "snd (tc_write ops c (bytes_of ''rx: '') ?w1)"
  let ?w3 = "snd (tc_write ops c line ?w2)"
  let ?w4 = "snd (tc_write ops c [chr_lf] ?w3)"
  have "ch_on_line (client_line_handler ops pr) c line w = ?w4"
    by (simp add: client_line_handler_def client_on_line_def tcp_write_text_def tcp_write_newline_def client_texts l Let_def)
  moreover have "winv ?w4" "inbox ?w4 = inbox w" "printed ?w4 = printed w @ printed_line line"
    "sent ?w4 = sent w @ message_text (Rx line)"
    by (simp_all add: wr 1)
  ultimately show "winv (ch_on_line (client_line_handler ops pr) c line w)" "inbox (ch_on_line (client_line_handler ops pr) c line w) = inbox w"
    "(printed (ch_on_line (client_line_handler ops pr) c line w), sent (ch_on_line (client_line_handler ops pr) c line w))
      = (case (printed w, sent w) of (p, t) \<Rightarrow> (p @ printed_line line, t @ message_text (Rx line)))"
    by simp_all
qed

lemma deliver_client:
  "deliver (\<lambda>line (p, t). (p @ printed_line line, t @ message_text (Rx line))) ls (p, t)
     = (p @ concat (map printed_line ls), t @ concat (map message_text (map Rx ls)))"
  by (induction ls arbitrary: p t) simp_all

text \<open>After some events: the data has been read, what was printed and sent are the lines in it and the numbers.\<close>

definition client_inv ::
  "('w \<Rightarrow> byte list) \<Rightarrow> ('w \<Rightarrow> byte list) \<Rightarrow> ('w \<Rightarrow> byte list) \<Rightarrow> ('w \<Rightarrow> bool) \<Rightarrow> nat \<Rightarrow> byte list \<Rightarrow> byte list \<Rightarrow> byte list \<Rightarrow> nat
     \<Rightarrow> u32 \<times> line_client \<times> 'w \<Rightarrow> bool" where
  "client_inv inbox sent printed winv c p0 t0 seen k nsw \<longleftrightarrow> (case nsw of (n, s, w) \<Rightarrow>
     winv w \<and> inbox w = [] \<and> lc_connection s = Some c \<and> n = of_nat k
     \<and> (\<exists>msgs. feed (line_byte line_options_default) seen (line_init 160) = (lc_reader s, answered msgs)
          \<and> numbered msgs = map of_nat [0..<k] \<and> sent w = t0 @ concat (map message_text msgs)
          \<and> printed w = p0 @ concat (map printed_line (answered msgs))))"

lemma client_data_keeps:
  assumes net: "client_network ops pr recv c inbox sent printed winv"
    and inv: "client_inv inbox sent printed winv c p0 t0 seen k nsw"
  shows "\<exists>nsw'. client_happens ops pr recv c (Data_Arrives bytes) nsw = Some nsw'
    \<and> client_inv inbox sent printed winv c p0 t0 (seen @ bytes) k nsw'"
proof -
  obtain n s w where nsw: "nsw = (n, s, w)" using prod_cases3 by blast
  from inv obtain msgs where i: "winv w" "inbox w = []" "lc_connection s = Some c" "n = of_nat k"
    "feed (line_byte line_options_default) seen (line_init 160) = (lc_reader s, answered msgs)"
    "numbered msgs = map of_nat [0..<k]" "sent w = t0 @ concat (map message_text msgs)"
    "printed w = p0 @ concat (map printed_line (answered msgs))"
    by (auto simp: client_inv_def nsw)
  let ?w = "recv bytes w"
  have r: "winv ?w" "inbox ?w = bytes" "printed ?w = printed w" "sent ?w = sent w"
    using net i(1,2) by (simp_all add: client_network_def)
  obtain r' vs where f: "feed (line_byte line_options_default) bytes (lc_reader s) = (r', vs)" by fastforce
  from f r(2) have "feed (line_byte line_options_default) (inbox ?w) (lc_reader s) = (r', vs)" by simp
  from serves_poll [OF client_serves [OF net] r(1) this] obtain w' where
    p: "line_poll (connection_stream ops (Some c)) line_options_default
        (handle_line ops (ch_on_line (client_line_handler ops pr)) (Some c)) (lc_reader s, ?w) = Some (r', w')"
      "winv w'" "inbox w' = []"
      "(printed w', sent w') = (printed ?w @ concat (map printed_line vs), sent ?w @ concat (map message_text (map Rx vs)))"
    by (auto simp: deliver_client simp del: message_text.simps)
  have "client_happens ops pr recv c (Data_Arrives bytes) nsw = Some (n, s\<lparr>lc_reader := r'\<rparr>, w')"
    using p(1) i(3) by (simp add: nsw lc_on_data_def)
  moreover have "client_inv inbox sent printed winv c p0 t0 (seen @ bytes) k (n, s\<lparr>lc_reader := r'\<rparr>, w')"
    unfolding client_inv_def prod.case
    by (intro conjI exI [of _ "msgs @ map Rx vs"]) (use i p r feed_append_eq [OF i(5) f] in simp_all)
  ultimately show ?thesis by blast
qed

lemma client_second_keeps:
  assumes net: "client_network ops pr recv c inbox sent printed winv"
    and inv: "client_inv inbox sent printed winv c p0 t0 seen k nsw"
  shows "client_inv inbox sent printed winv c p0 t0 seen (Suc k) (write_periodic_tcp_line ops nsw)"
proof -
  obtain n s w where nsw: "nsw = (n, s, w)" using prod_cases3 by blast
  from inv obtain msgs where i: "winv w" "inbox w = []" "lc_connection s = Some c" "n = of_nat k"
    "feed (line_byte line_options_default) seen (line_init 160) = (lc_reader s, answered msgs)"
    "numbered msgs = map of_nat [0..<k]" "sent w = t0 @ concat (map message_text msgs)"
    "printed w = p0 @ concat (map printed_line (answered msgs))"
    by (auto simp: client_inv_def nsw)
  note wr = client_write [OF net] and u = client_uint32 [OF net]
  have v: "tc_valid ops c w" using net i(1) by (simp add: client_network_def)
  let ?w1 = "snd (tc_write ops c (bytes_of ''tx: '') w)"
  let ?w2 = "client_write_uint32 ops c n ?w1"
  let ?w3 = "snd (tc_write ops c [chr_lf] ?w2)"
  have e: "write_periodic_tcp_line ops nsw = (n + 1, s, ?w3)"
    using i(3) v by (simp add: write_periodic_tcp_line_def nsw tcp_write_text_def tcp_write_newline_def client_texts Let_def)
  have w3: "winv ?w3" "inbox ?w3 = inbox w" "printed ?w3 = printed w" "sent ?w3 = sent w @ message_text (Tx n)"
    using u [of ?w1 n] by (simp_all add: wr i(1))
  show ?thesis
    unfolding e client_inv_def prod.case
    by (intro conjI exI [of _ "msgs @ [Tx n]"]) (use i w3 in simp_all)
qed

lemma client_session_keeps:
  assumes net: "client_network ops pr recv c inbox sent printed winv"
    and "client_inv inbox sent printed winv c p0 t0 seen k nsw"
  shows "\<exists>nsw'. client_session ops pr recv c es nsw = Some nsw'
    \<and> client_inv inbox sent printed winv c p0 t0 (seen @ concat (map event_data es)) (k + seconds es) nsw'"
  using assms(2)
proof (induction es arbitrary: seen k nsw)
  case (Cons e es)
  show ?case
  proof (cases e)
    case (Data_Arrives bytes)
    from client_data_keeps [OF net Cons.prems, of bytes] obtain nsw1 where
      "client_happens ops pr recv c e nsw = Some nsw1" "client_inv inbox sent printed winv c p0 t0 (seen @ bytes) k nsw1"
      by (auto simp: Data_Arrives)
    with Cons.IH [of "seen @ bytes" k nsw1] show ?thesis by (simp add: Data_Arrives event_data_def)
  next
    case Second_Passes
    with client_second_keeps [OF net Cons.prems] Cons.IH [of seen "Suc k"] show ?thesis by (simp add: event_data_def)
  qed
qed simp

text \<open>
  C30: a session of the client example. From the connection on, whatever data arrives, in whatever pieces, and
  however many seconds pass between them, the client sends first its greeting and then a sequence of
  messages: the lines of the data (what a buffer of 160 bytes keeps of them), each sent back once and in order, and, between them,
  the numbered lines, one for every second that has passed, counting from zero. The console shows every line
  once.
\<close>

theorem client_session_answers:
  assumes "client_network ops pr recv c inbox sent printed winv" "winv w" "inbox w = []"
    "concat (map event_data es) = join_lines chr_lf ls rest" "\<forall>l \<in> set ls. chr_lf \<notin> set l" "chr_lf \<notin> set rest"
  shows "\<exists>s w' msgs. client_session ops pr recv c es (0, lc_on_connect (client_line_handler ops pr) c peer (lc_init 160, w))
      = Some (of_nat (seconds es), s, w')
    \<and> sent w' = sent w @ bytes_of ''tx: connected'' @ [chr_lf] @ concat (map message_text msgs)
    \<and> answered msgs = map (emitted_line line_options_default 160) ls \<and> numbered msgs = map of_nat [0..<seconds es]
    \<and> printed w' = printed w @ bytes_of ''connected'' @ [chr_lf] @ concat (map printed_line (answered msgs))"
proof -
  note net = assms(1)
  let ?w1 = "client_on_connect ops pr c peer w"
  let ?p = "pr (bytes_of ''connected'' @ [chr_lf]) w"
  have "?w1 = snd (tc_write ops c [chr_lf] (snd (tc_write ops c (bytes_of ''tx: connected'') ?p)))"
    using client_write(1) [OF net, of ?p "bytes_of ''tx: connected''"] client_print(1) [OF net assms(2)]
    by (simp add: client_on_connect_def tcp_write_line_text_def tcp_write_text_def tcp_write_newline_def client_texts Let_def case_prod_unfold)
  then have 1: "winv ?w1" "inbox ?w1 = []" "sent ?w1 = sent w @ bytes_of ''tx: connected'' @ [chr_lf]"
    "printed ?w1 = printed w @ bytes_of ''connected'' @ [chr_lf]"
    using assms(2,3) by (simp_all add: client_write [OF net] client_print [OF net])
  let ?s = "(lc_init 160)\<lparr>lc_connection := Some c\<rparr>"
  have s0: "lc_on_connect (client_line_handler ops pr) c peer (lc_init 160, w) = (?s, ?w1)"
    by (simp add: lc_on_connect_def client_line_handler_def)
  have "client_inv inbox sent printed winv c (printed ?w1) (sent ?w1) [] 0 (0, ?s, ?w1)"
    unfolding client_inv_def prod.case by (intro conjI exI [of _ "[]"]) (simp_all add: 1 lc_init_def)
  from client_session_keeps [OF net this, of es] obtain n s w' msgs where
    r: "client_session ops pr recv c es (0, ?s, ?w1) = Some (n, s, w')" "n = of_nat (seconds es)"
      "feed (line_byte line_options_default) (concat (map event_data es)) (line_init 160) = (lc_reader s, answered msgs)"
      "numbered msgs = map of_nat [0..<seconds es]" "sent w' = sent ?w1 @ concat (map message_text msgs)"
      "printed w' = printed ?w1 @ concat (map printed_line (answered msgs))"
    by (auto simp: client_inv_def)
  have d: "lo_delimiter line_options_default = chr_lf" by (simp add: line_options_default_def)
  from line_feed_lines [OF line_inv_init line_pending_init, of ls line_options_default rest 160] assms(4-6) r(3)
  have "answered msgs = map (emitted_line line_options_default 160) ls" by (auto simp: d)
  with r show ?thesis
    by (intro exI [of _ s] exI [of _ w'] exI [of _ msgs]) (simp add: s0 1)
qed

text \<open>A session on a connection in memory: a line arrives in two pieces, with a second between them.\<close>

lemma client_session_answers_witness:
  "\<exists>s w'. client_session echo_tcp (\<lambda>t (i, p, s). (i, p @ t, s)) (\<lambda>bs (i, p, s). (i @ bs, p, s)) 7
      [Data_Arrives [72], Second_Passes, Data_Arrives [105, chr_lf]]
      (0, lc_on_connect (client_line_handler echo_tcp (\<lambda>t (i, p, s). (i, p @ t, s))) 7 demo_peer (lc_init 160, [], [], [])) = Some (1, s, w')
    \<and> fst (snd w') = bytes_of ''connected'' @ [chr_lf] @ bytes_of ''rx: Hi'' @ [chr_lf]"
proof -
  let ?pr = "\<lambda>t (i, p, s). (i :: byte list, p @ t :: byte list, s :: byte list)"
  let ?recv = "\<lambda>bs (i, p, s). (i @ bs :: byte list, p :: byte list, s :: byte list)"
  let ?es = "[Data_Arrives [72], Second_Passes, Data_Arrives [105, chr_lf]]"
  have "byte_source (connection_stream echo_tcp (Some 7)) fst (\<lambda>w. (fst (snd w), snd (snd w))) (\<lambda>w. True)"
    by unfold_locales (auto simp: connection_stream_def cs_readable_def cs_read_def tc_readable_def echo_tcp_def)
  then have net: "client_network echo_tcp ?pr ?recv 7 fst (\<lambda>w. snd (snd w)) (\<lambda>w. fst (snd w)) (\<lambda>w. True)"
    by (simp add: client_network_def) (simp add: echo_tcp_def)
  have e: "concat (map event_data ?es) = join_lines chr_lf [[72, 105]] []" by (simp add: event_data_def)
  have s: "seconds ?es = 1" by simp
  have l: "map (emitted_line line_options_default 160) [[72, 105]] = [[72, 105]]"
    by (simp add: emitted_line_def line_options_default_def strip_cr_def line_kept_def)
  have t: "bytes_of ''rx: Hi'' = bytes_of ''rx: '' @ [72, 105]" "c_string [72, 105] = [72, 105]"
    by (simp_all add: bytes_of_def c_string_def)
  from client_session_answers [OF net _ _ e, of "([], [], [])" demo_peer] show ?thesis
    unfolding s l by (auto simp: printed_line_def t)
qed

end
