(* ===== verification/Disconnect_Server.thy ===== *)
theory Disconnect_Server
  imports Example_Servers Network_Examples
begin

text \<open>
  The example \<^verbatim>\<open>src/examples/TcpDisconnectServerExample\<close>, a server that reports which clients connect and
  disconnect, with its log, on the Linux server. The text it prints goes to the operation \<open>pr\<close>.
\<close>

section \<open>The program\<close>

text \<open>A sequence of calls of \<open>print_text\<close>.\<close>

definition print_all :: "(byte list \<Rightarrow> 'w \<Rightarrow> 'w) \<Rightarrow> byte list list \<Rightarrow> 'w \<Rightarrow> 'w" where
  "print_all pr ts w = fold pr ts w"

text \<open>\<open>print_number\<close>, and \<open>print_size\<close> for sizes below \<open>2 ^ 32\<close>.\<close>

definition number_text :: "u32 \<Rightarrow> byte list" where
  "number_text v = rev (uint_digits 10 v)"

definition active_texts :: "tcp_registry \<Rightarrow> byte list list" where
  "active_texts r = [bytes_of '' active='', number_text (of_nat (tr_count r)), [chr_lf]]"

definition peer_texts :: "tcp_peer_info \<Rightarrow> byte list list" where
  "peer_texts peer = [bytes_of (peer_host peer), bytes_of '':'', number_text (ucast (peer_port peer))]"

definition greeting :: "byte list" where
  "greeting = bytes_of ''connected; close the client to test disconnect detection'' @ [chr_lf]"

type_synonym 'y disconnect = "linux_server \<times> tcp_registry \<times> 'y"

definition dc_on_accept ::
  "'y disconnect tcp_ops \<Rightarrow> (byte list \<Rightarrow> 'y \<Rightarrow> 'y) \<Rightarrow> nat \<Rightarrow> tcp_peer_info \<Rightarrow> 'y disconnect \<Rightarrow> 'y disconnect" where
  "dc_on_accept tcp pr c peer sry =
     (case sry of (s, r, y) \<Rightarrow> case tr_add c r of (ok, r1) \<Rightarrow>
        if \<not> ok then tc_close tcp c (s, r1, print_all pr [bytes_of ''too many clients'' @ [chr_lf]] y)
        else snd (tc_write tcp c greeting
          (s, r1, print_all pr (bytes_of ''accepted '' # peer_texts peer @ active_texts r1) y)))"

partial_function (option) dc_on_data ::
  "'y disconnect tcp_ops \<Rightarrow> (byte list \<Rightarrow> 'y \<Rightarrow> 'y) \<Rightarrow> nat \<Rightarrow> 'y disconnect \<Rightarrow> 'y disconnect option" where
  "dc_on_data tcp pr c sry =
     (if tc_input_size tcp c sry > 0
      then (case tc_read tcp c 128 sry of (n, bytes, s, r, y) \<Rightarrow>
              if n \<le> 0 then Some (s, r, y)
              else dc_on_data tcp pr c (s, r, print_all pr [bytes_of ''received bytes'' @ [chr_lf]] y))
      else Some sry)"

declare dc_on_data.simps [code]

text \<open>The connection that has been closed is still there, and knows its peer.\<close>

definition dc_on_close :: "(byte list \<Rightarrow> 'y \<Rightarrow> 'y) \<Rightarrow> nat \<Rightarrow> 'y disconnect \<Rightarrow> 'y disconnect option" where
  "dc_on_close pr c sry =
     (case sry of (s, r, y) \<Rightarrow>
        let r1 = snd (tr_remove c r)
        in case lt_find c s of
             None \<Rightarrow> None
           | Some k \<Rightarrow> Some (s, r1, print_all pr (bytes_of ''peer disconnected '' # peer_texts (lx_peer k) @ active_texts r1) y))"

definition dc_on_error :: "(byte list \<Rightarrow> 'y \<Rightarrow> 'y) \<Rightarrow> nat \<Rightarrow> int \<Rightarrow> 'y disconnect \<Rightarrow> 'y disconnect" where
  "dc_on_error pr c error_code sry =
     (case sry of (s, r, y) \<Rightarrow>
        let r1 = snd (tr_remove c r)
        in (s, r1, print_all pr (bytes_of ''connection error'' # active_texts r1) y))"

definition dc_on_listener_error :: "(byte list \<Rightarrow> 'y \<Rightarrow> 'y) \<Rightarrow> int \<Rightarrow> 'y disconnect \<Rightarrow> 'y disconnect" where
  "dc_on_listener_error pr error_code sry = (case sry of (s, r, y) \<Rightarrow> (s, r, print_all pr [bytes_of ''listener error'' @ [chr_lf]] y))"

definition dc_handler :: "'y disconnect tcp_ops \<Rightarrow> (byte list \<Rightarrow> 'y \<Rightarrow> 'y) \<Rightarrow> 'y disconnect tcp_server_handler" where
  "dc_handler tcp pr =
     \<lparr>sh_on_accept = (\<lambda>c peer sry. Some (dc_on_accept tcp pr c peer sry)), sh_on_data = dc_on_data tcp pr,
      sh_on_write_ready = (\<lambda>c sry. Some sry), sh_on_close = dc_on_close pr,
      sh_on_error = (\<lambda>c code sry. Some (dc_on_error pr c code sry)),
      sh_on_listener_error = (\<lambda>code sry. Some (dc_on_listener_error pr code sry))\<rparr>"

text \<open>The program on Linux; \<open>dead\<close> is what a use of a destroyed connection does.\<close>

abbreviation dc_event ::
  "'y bev_ops \<Rightarrow> 'y disconnect tcp_ops \<Rightarrow> (byte list \<Rightarrow> 'y \<Rightarrow> 'y) \<Rightarrow> server_event \<Rightarrow> 'y disconnect \<Rightarrow> 'y disconnect option" where
  "dc_event ops dead pr \<equiv> lt_event (lift_bev ops) (dc_handler (linux_tcp (lift_bev ops) dead) pr)"

abbreviation dc_events ::
  "'y bev_ops \<Rightarrow> 'y disconnect tcp_ops \<Rightarrow> (byte list \<Rightarrow> 'y \<Rightarrow> 'y) \<Rightarrow> server_event list \<Rightarrow> 'y disconnect \<Rightarrow> 'y disconnect option" where
  "dc_events ops dead pr \<equiv> lt_events (lift_bev ops) (dc_handler (linux_tcp (lift_bev ops) dead) pr)"

section \<open>Setup\<close>

definition listen_on :: "u16 \<Rightarrow> tcp_listen_options" where
  "listen_on port = listen_default\<lparr>lo_host := Some ''0.0.0.0'', lo_port := port, lo_reuse_address := True\<rparr>"

definition dc_setup :: "'y bev_ops \<Rightarrow> (byte list \<Rightarrow> 'y \<Rightarrow> 'y) \<Rightarrow> 'y disconnect \<Rightarrow> bool \<times> 'y disconnect" where
  "dc_setup ops pr sry =
     (case lt_listen (lift_bev ops) (listen_on 20222) sry of (ok, s, r, y) \<Rightarrow>
        if \<not> ok then (False, s, r, y)
        else (True, s, r, print_all pr [bytes_of ''TCP disconnect detection server listening on port '',
            number_text (ucast (lt_bound_port s)), [chr_lf]] y))"

text \<open>
  \<open>main\<close>: the exit code, or the state in which the loop runs. The server takes 16 connections by default, the
  registry 8.
\<close>

definition dc_main :: "bool \<Rightarrow> 'y bev_ops \<Rightarrow> (byte list \<Rightarrow> 'y \<Rightarrow> 'y) \<Rightarrow> 'y \<Rightarrow> int + 'y disconnect" where
  "dc_main loop_valid ops pr y =
     (if \<not> loop_valid then Inl 1
      else case dc_setup ops pr (lt_init 16, tr_init 8, y) of (ok, sry) \<Rightarrow> if \<not> ok then Inl 2 else Inr sry)"

section \<open>The registry holds the open connections\<close>

definition dc_ok :: "'y disconnect \<Rightarrow> bool" where
  "dc_ok sry \<longleftrightarrow> (case sry of (s, r, y) \<Rightarrow> lt_inv s \<and> tr_inv r \<and> tr_capacity r = 8 \<and> set (tr_list r) = open_ids s)"

lemma dc_ok_count: "dc_ok (s, r, y) \<Longrightarrow> tr_count r = card (open_ids s)"
  by (auto simp: dc_ok_def tr_inv_def distinct_card [symmetric])

lemma dc_ok_room: "dc_ok (s, r, y) \<Longrightarrow> card (open_ids s) \<le> 8"
proof -
  assume ok: "dc_ok (s, r, y)"
  then have "tr_count r = length (occupied (tr_connections r))" "tr_capacity r = 8"
    unfolding dc_ok_def prod.case tr_inv_def tr_list_def by blast+
  with occupied_length [of "tr_connections r"] dc_ok_count [OF ok] show ?thesis by simp
qed

lemma open_swept: "lt_inv s \<Longrightarrow> open_ids (fst (lt_sweep_closed ops (s, w))) = open_ids s"
  using swept_count(1) [OF _ refl, of s ops w] by (auto simp: open_ids_def)

lemma dc_swept:
  assumes "dc_ok (s, r, y)"
  shows "\<exists>s1. lt_sweep_closed ops (s, r, y) = (s1, r, y) \<and> dc_ok (s1, r, y) \<and> open_ids s1 = open_ids s"
proof -
  have i: "lt_inv s" using assms by (simp add: dc_ok_def)
  obtain s1 w where sw: "lt_sweep_closed ops (s, r, y) = (s1, w)" by (rule prod.exhaust)
  with sweep_world [OF i, of ops "(r, y)"] open_swept [OF i, of ops "(r, y)"] lt_inv_sweep [OF i, of ops "(r, y)"] assms
  show ?thesis by (simp add: dc_ok_def)
qed

text \<open>Closing a connection through the server.\<close>

lemma open_closed:
  assumes i: "lt_inv s" and c: "lt_close_connection (lift_bev ops) i (s, r, y) = Some (s1, r1, y1)"
  shows "r1 = r \<and> lt_inv s1 \<and> open_ids s1 = open_ids s - {i} \<and> (\<exists>k. lt_find i s = Some k)"
proof -
  from c obtain k where k: "lt_find i s = Some k" "s1 = lt_set (fst (lx_close (lift_bev ops) (k, r, y))) s"
    by (auto simp: lt_close_connection_def split: option.splits prod.splits)
  have ki: "lx_id k = i" using lt_find_Some [OF k(1)] by simp
  have "open_ids s1 = open_ids s - {i}"
    unfolding k(2) lx_close_simps by (auto simp: lt_set_def open_ids_def ki lx_valid_def)
  with lift_close_connection [OF c] lt_inv_close_connection [OF i c] k(1) show ?thesis by simp
qed

text \<open>A callback that has removed a connection from the registry, and the closing that follows.\<close>

lemma dc_closed:
  assumes "lt_inv s" "tr_inv r" "tr_capacity r = 8" "set (tr_list r) = open_ids s - {i}" "lt_close_connection (lift_bev ops) i (s, r, y) = Some (s1, r1, y1)"
  shows "r1 = r \<and> dc_ok (s1, r1, y1) \<and> open_ids s1 = open_ids s - {i}"
  using open_closed [OF assms(1,5)] assms(2-4) by (simp add: dc_ok_def)

lemma dc_remove:
  assumes "dc_ok (s, r, y)"
  shows "tr_inv (snd (tr_remove i r)) \<and> tr_capacity (snd (tr_remove i r)) = 8 \<and> set (tr_list (snd (tr_remove i r))) = open_ids s - {i}"
  using tr_remove_spec [of r i "fst (tr_remove i r)" "snd (tr_remove i r)"] assms by (simp add: dc_ok_def)

lemma dc_data_keeps:
  assumes "dc_on_data (linux_tcp (lift_bev ops) dead) pr c (s, r, y) = Some (s1, r1, y1)" "lt_find c s = Some k"
  shows "s1 = s \<and> r1 = r"
proof -
  let ?tcp = "linux_tcp (lift_bev ops) dead"
  let ?P = "\<lambda>t p c' a b. t = ?tcp \<longrightarrow> c' = c \<longrightarrow> fst a = s \<longrightarrow> fst (snd a) = r \<longrightarrow> fst b = s \<and> fst (snd b) = r"
  have "?P ?tcp pr c (s, r, y) (s1, r1, y1)"
  proof (rule dc_on_data.raw_induct [where P = ?P, OF _ assms(1)], intro impI, goal_cases)
    case (1 rec tcp pr c' a b)
    obtain y where a: "a = (s, r, y)" using 1(5,6) by (metis prod.collapse)
    obtain n bytes s2 r2 y2 where rd: "tc_read ?tcp c 128 a = (n, bytes, s2, r2, y2)" by (metis prod_cases3)
    then have "s2 = s" "r2 = r" using assms(2)
      by (auto simp: a linux_tcp_live lx_read_def lift_bev_def apsnd_def map_prod_def split: prod.splits option.splits if_splits)
    with 1 rd a show ?case by (auto split: if_splits)
  qed
  then show ?thesis by simp
qed

text \<open>A new connection is entered in the registry or closed at once.\<close>

lemma dc_accept_keeps:
  assumes "lt_inv s" "tr_inv r" "lt_find c s = Some k" "lx_valid k" "tr_capacity r = 8" "set (tr_list r) = open_ids s - {c}"
  shows "dc_ok (dc_on_accept (linux_tcp (lift_bev ops) dead) pr c peer (s, r, y))"
proof -
  let ?tcp = "linux_tcp (lift_bev ops) dead"
  obtain ok r1 where a: "tr_add c r = (ok, r1)" by fastforce
  note sp = tr_add_spec [OF assms(2) a]
  have c: "c \<in> open_ids s" using assms(1,3,4) open_found by blast
  show ?thesis
  proof (cases ok)
    case True
    let ?y = "print_all pr (bytes_of ''accepted '' # peer_texts peer @ active_texts r1) y"
    have "\<exists>y1. snd (tc_write ?tcp c greeting (s, r1, ?y)) = (s, r1, y1)"
      using assms(3,4)
      by (auto simp: linux_tcp_def lx_write_def lx_valid_def lift_bev_def apsnd_def map_prod_def split: prod.splits if_splits)
    with True a sp c assms show ?thesis by (auto simp: dc_on_accept_def dc_ok_def)
  next
    case False
    let ?y = "print_all pr [bytes_of ''too many clients'' @ [chr_lf]] y"
    obtain s1 r2 y1 where cl: "lt_close_connection (lift_bev ops) c (s, r1, ?y) = Some (s1, r2, y1)"
      using assms(3) by (cases "lx_close (lift_bev ops) (k, r1, ?y)") (auto simp: lt_close_connection_def)
    from dc_closed [OF assms(1) _ _ _ this] sp False assms(5,6) have "dc_ok (s1, r2, y1)" by auto
    then show ?thesis using False a cl by (simp add: dc_on_accept_def linux_tcp_def)
  qed
qed

lemma dc_ok_sweep: "dc_ok sry \<Longrightarrow> dc_ok (lt_sweep_closed ops sry)"
proof -
  assume ok: "dc_ok sry"
  obtain s r y where "sry = (s, r, y)" by (metis prod_cases3)
  with ok dc_swept [of s r y ops] show ?thesis by auto
qed

lemma dc_handler_calls [simp]:
  "sh_on_accept (dc_handler tcp pr) c peer sry = Some (dc_on_accept tcp pr c peer sry)"
  "sh_on_data (dc_handler tcp pr) = dc_on_data tcp pr" "sh_on_write_ready (dc_handler tcp pr) c sry = Some sry"
  "sh_on_close (dc_handler tcp pr) = dc_on_close pr" "sh_on_error (dc_handler tcp pr) c code sry = Some (dc_on_error pr c code sry)"
  "sh_on_listener_error (dc_handler tcp pr) code sry = Some (dc_on_listener_error pr code sry)"
  by (simp_all add: dc_handler_def)

lemma dc_accept_event:
  assumes ok: "dc_ok (s, r, y)" and run: "dc_event ops dead pr (Accepted fd addr) (s, r, y) = Some sry'"
  shows "dc_ok sry'"
proof (cases "lt_handler s")
  case False
  with assms show ?thesis by (auto simp: lt_accept_callback_def dc_ok_def lift_bev_def)
next
  case True
  let ?ops = "lift_bev ops :: (tcp_registry \<times> 'a) bev_ops"
  have i: "lt_inv s" using ok by (simp add: dc_ok_def)
  from dc_swept [OF ok, of ?ops] obtain s1 where sw: "lt_sweep_closed ?ops (s, r, y) = (s1, r, y)" "dc_ok (s1, r, y)" by blast
  obtain c w2 where c: "lx_create ?ops (lt_next_id s1) fd addr (r, y) = (c, w2)" by (metis prod.collapse)
  from lift_create [OF this] obtain y2 where w2: "w2 = (r, y2)" by (cases w2) auto
  let ?s2 = "s1\<lparr>lt_next_id := lt_next_id s1 + 1\<rparr>"
  consider "lt_connection_count s1 \<ge> lt_max_connections s1"
    | "lt_connection_count s1 < lt_max_connections s1" "\<not> lx_valid c"
    | "lt_connection_count s1 < lt_max_connections s1" "lx_valid c" by linarith
  then show ?thesis
  proof cases
    case 1
    with run True sw show ?thesis by (auto simp: lt_accept_callback_def lift_bev_def dc_ok_def)
  next
    case 2
    have "dc_ok (?s2, r, y2)"
      using sw(2) by (auto simp: dc_ok_def open_ids_def lt_inv_def lt_connection_count_def lt_valid_def less_Suc_eq)
    moreover have "lx_destroy ?ops c w2 = w2" using 2 by (simp add: lx_destroy_def lx_close_bev_def lx_valid_def)
    ultimately show ?thesis using run True sw(1) w2 c 2 by (auto simp: lt_accept_callback_def Let_def)
  next
    case 3
    let ?s3 = "?s2\<lparr>lt_connections := lt_connections s1 @ [c]\<rparr>"
    have s1: "s1 = fst (lt_sweep_closed ?ops (s, r, y))" using sw by simp
    from lt_inv_accepted [OF i s1 3(1) c 3(2) True] have i3: "lt_inv ?s3" by simp
    have o3: "open_ids ?s3 = insert (lx_id c) (open_ids s1)" using 3(2) by (auto simp: open_ids_def)
    have new: "lx_id c \<notin> open_ids s1"
      using sw(2) lx_create_simps(1) [OF c] by (auto simp: dc_ok_def open_ids_def lt_inv_def)
    have "lx_id c \<in> open_ids ?s3" using o3 by simp
    then obtain k where k: "lt_find (lx_id c) ?s3 = Some k" "lx_valid k" using open_found [OF i3] by blast
    have "dc_ok (dc_on_accept (linux_tcp ?ops dead) pr (lx_id c) (lx_peer c) (?s3, r, y2))"
      by (rule dc_accept_keeps [OF i3 _ k]) (use sw(2) o3 new in \<open>auto simp: dc_ok_def\<close>)
    moreover have "sry' = lt_sweep_closed ?ops (dc_on_accept (linux_tcp ?ops dead) pr (lx_id c) (lx_peer c) (?s3, r, y2))"
      using run True sw(1) w2 c 3 by (simp add: lt_accept_callback_def Let_def)
    ultimately show ?thesis using dc_ok_sweep by blast
  qed
qed

text \<open>A callback of a connection: what it leaves is swept.\<close>

lemma dc_bev_keeps:
  assumes "dc_ok (s, r, y)" "lt_bev_callback (lift_bev ops) f i (s, r, y) = Some sry'"
    "\<And>k sry1. lt_find i s = Some k \<Longrightarrow> f k (s, r, y) = Some sry1 \<Longrightarrow> dc_ok sry1"
  shows "dc_ok sry'"
  using assms(2,3) dc_ok_sweep by (fastforce simp: lt_bev_callback_def split: option.splits if_splits)

lemma dc_notify_keeps:
  assumes ok: "dc_ok (s, r, y)"
    and run: "lt_notify_event (lift_bev ops) (dc_handler (linux_tcp (lift_bev ops) dead) pr) ev i (s, r, y) = Some sry'"
  shows "dc_ok sry'"
proof -
  have i: "lt_inv s" using ok by (simp add: dc_ok_def)
  have closed: "dc_ok sry1" if c: "lt_close_connection (lift_bev ops) i (s, snd (tr_remove i r), y1) = Some sry1" for y1 sry1
  proof -
    obtain s2 r2 y2 where sry1: "sry1 = (s2, r2, y2)" by (metis prod_cases3)
    from dc_remove [OF ok, of i] dc_closed [OF i _ _ _ c [unfolded sry1]] show ?thesis by (auto simp: sry1)
  qed
  have err: "dc_on_error pr i code (s, r, y) = (s, snd (tr_remove i r), print_all pr (bytes_of ''connection error'' # active_texts (snd (tr_remove i r))) y)" for code
    by (simp add: dc_on_error_def Let_def)
  have cls: "\<exists>y1. sry1 = (s, snd (tr_remove i r), y1)" if "dc_on_close pr i (s, r, y) = Some sry1" for sry1
    using that by (auto simp: dc_on_close_def Let_def split: option.splits)
  show ?thesis
  proof (cases "ev_timeout ev \<or> ev_error ev")
    case True
    with run closed show ?thesis by (auto simp: lt_notify_event_def err split: if_splits)
  next
    case False
    show ?thesis
    proof (cases "ev_eof ev")
      case True
      with False run obtain sry1 where "dc_on_close pr i (s, r, y) = Some sry1" "lt_close_connection (lift_bev ops) i sry1 = Some sry'"
        by (auto simp: lt_notify_event_def split: Option.bind_splits)
      with cls closed show ?thesis by blast
    qed (use False run ok in \<open>simp add: lt_notify_event_def\<close>)
  qed
qed

lemma dc_event_keeps:
  assumes ok: "dc_ok sry" and run: "dc_event ops dead pr e sry = Some sry'"
  shows "dc_ok sry'"
proof -
  obtain s r y where sry: "sry = (s, r, y)" by (metis prod_cases3)
  note ok = ok [unfolded sry] and run = run [unfolded sry]
  show ?thesis
  proof (cases e)
    case (Accepted fd addr)
    with dc_accept_event [OF ok] run show ?thesis by blast
  next
    case (Read_Ready i)
    with run have "lt_bev_callback (lift_bev ops) (\<lambda>k sw. if lx_valid k then dc_on_data (linux_tcp (lift_bev ops) dead) pr i sw else Some sw) i (s, r, y)
        = Some sry'" by (simp add: lt_read_callback_def cong: if_cong)
    then show ?thesis
    proof (rule dc_bev_keeps [OF ok], goal_cases)
      case (1 k sry1)
      with dc_data_keeps [of ops dead pr i s r y "fst sry1" "fst (snd sry1)" "snd (snd sry1)" k] ok show ?case
        by (auto simp: dc_ok_def split: if_splits)
    qed
  next
    case (Write_Ready i)
    with run have "lt_bev_callback (lift_bev ops) (\<lambda>k sw. if lx_valid k then Some sw else Some sw) i (s, r, y) = Some sry'"
      by (simp add: lt_write_callback_def cong: if_cong)
    then show ?thesis by (rule dc_bev_keeps [OF ok]) (use ok in \<open>auto split: if_splits\<close>)
  next
    case (Reported ev i)
    with run have "lt_bev_callback (lift_bev ops) (\<lambda>k. lt_notify_event (lift_bev ops) (dc_handler (linux_tcp (lift_bev ops) dead) pr) ev i) i
        (s, r, y) = Some sry'" by (simp add: lt_event_callback_def)
    then show ?thesis by (rule dc_bev_keeps [OF ok]) (rule dc_notify_keeps [OF ok])
  next
    case Listener_Error
    with run ok show ?thesis
      by (auto simp: lt_listener_error_callback_def dc_on_listener_error_def dc_ok_def split: if_splits)
  qed
qed

lemma dc_events_keep: "dc_ok sry \<Longrightarrow> dc_events ops dead pr es sry = Some sry' \<Longrightarrow> dc_ok sry'"
  by (induction es arbitrary: sry) (auto dest: dc_event_keeps split: Option.bind_splits)

section \<open>Disconnects are reported\<close>

lemma print_all_log:
  assumes "\<And>t y. log (pr t y) = log y @ t"
  shows "log (print_all pr ts y) = log y @ concat ts"
  by (induction ts arbitrary: y) (simp_all add: print_all_def assms)

text \<open>The line that is printed.\<close>

definition disconnected_line :: "tcp_peer_info \<Rightarrow> nat \<Rightarrow> byte list" where
  "disconnected_line peer n = bytes_of ''peer disconnected '' @ bytes_of (peer_host peer) @ bytes_of '':''
     @ number_text (ucast (peer_port peer)) @ bytes_of '' active='' @ number_text (of_nat n) @ [chr_lf]"

lemma dc_started:
  assumes "dc_main loop_valid ops pr y = Inr sry"
  shows "dc_ok sry \<and> lt_valid (fst sry) \<and> lt_max_connections (fst sry) = 16"
proof -
  obtain ok s r y1 where l: "lt_listen (lift_bev ops) (listen_on 20222) (lt_init 16, tr_init 8, y) = (ok, s, r, y1)" by (metis prod_cases4)
  from assms l have ok: "ok" "fst sry = s" "fst (snd sry) = r" by (auto simp: dc_main_def dc_setup_def split: if_splits)
  have "lt_inv s \<and> lt_max_connections s = 16" using lt_inv_listen [OF lt_inv_init l] by (simp add: lt_init_def)
  moreover have "r = tr_init 8 \<and> lt_connections s = [] \<and> lt_valid s"
    using l ok(1) by (auto simp: lt_listen_def lt_close_def lt_init_def lt_valid_def lt_update_bound_port_def listen_on_def listen_default_def
        lift_bev_def apsnd_def map_prod_def Let_def split: option.splits prod.splits)
  ultimately show ?thesis using ok tr_inv_init [of 8] by (cases sry) (auto simp: dc_ok_def open_ids_def tr_init_def tr_list_def)
qed

text \<open>
  C32: the disconnect example on Linux. Started and having handled any events since, when libevent reports
  that the peer of an open connection has closed it, then the program prints one line with the peer's address and the number of
  connections that are still open, the connection is destroyed, and the registry holds exactly the
  connections that are still open.
\<close>

theorem disconnect_detected:
  assumes start: "dc_main loop_valid ops pr y0 = Inr sry0" and run: "dc_events ops dead pr es sry0 = Some (s, r, y)"
    and k: "lt_find i s = Some k" "lx_valid k" and ev: "ev_eof ev" "\<not> ev_timeout ev" "\<not> ev_error ev"
    and log: "\<And>t y. log (pr t y) = log y @ t" "\<And>b y. log (be_free ops b y) = log y"
  shows "\<exists>s' r' y'. dc_event ops dead pr (Reported ev i) (s, r, y) = Some (s', r', y') \<and> lt_find i s' = None
    \<and> open_ids s' = open_ids s - {i} \<and> set (tr_list r') = open_ids s' \<and> card (open_ids s') < 8
    \<and> log y' = log y @ disconnected_line (lx_peer k) (card (open_ids s'))"
proof -
  let ?ops = "lift_bev ops :: (tcp_registry \<times> 'a) bev_ops" and ?r = "snd (tr_remove i r)"
  have ok0: "dc_ok sry0" using dc_started [OF start] by simp
  have ok: "dc_ok (s, r, y)" by (rule dc_events_keep [OF ok0 run])
  have inv: "lt_inv s" using ok by (simp add: dc_ok_def)
  note rm = dc_remove [OF ok, of i]
  define y1 where "y1 = print_all pr (bytes_of ''peer disconnected '' # peer_texts (lx_peer k) @ active_texts ?r) y"
  have cl: "dc_on_close pr i (s, r, y) = Some (s, ?r, y1)" using k(1) by (simp add: dc_on_close_def y1_def Let_def)
  obtain s2 r2 y2 where c: "lt_close_connection ?ops i (s, ?r, y1) = Some (s2, r2, y2)"
    using k(1) by (cases "lx_close ?ops (k, ?r, y1)") (auto simp: lt_close_connection_def)
  from dc_closed [OF inv _ _ _ c] rm have c2: "r2 = ?r" "dc_ok (s2, ?r, y2)" "open_ids s2 = open_ids s - {i}" by auto
  have y2: "log y2 = log y1"
    using c k by (auto simp: lt_close_connection_def lx_close_def lx_close_bev_def lift_bev_def lx_valid_def log(2) split: option.splits)
  from dc_swept [OF c2(2), of ?ops] obtain s3 where s3: "lt_sweep_closed ?ops (s2, ?r, y2) = (s3, ?r, y2)" "dc_ok (s3, ?r, y2)"
    "open_ids s3 = open_ids s2" by blast
  have "lx_owner k" using inv lt_find_Some [OF k(1)] by (simp add: lt_inv_def)
  then have e: "dc_event ops dead pr (Reported ev i) (s, r, y) = Some (s3, ?r, y2)"
    using k(1) ev cl c c2(1) s3(1) by (simp add: lt_event_callback_def lt_bev_callback_def lt_notify_event_def)
  have "lt_find i s3 = None"
  proof -
    obtain k2 where "lt_find i s2 = Some k2" "\<not> lx_valid k2" using lt_close_closed [OF inv c] by auto
    have "\<forall>d \<in> set (lt_connections s3). lx_valid d"
      using swept_count(1) [of s2 s3 ?ops "(?r, y2)"] c2(2) s3(1) by (simp add: dc_ok_def)
    moreover have "i \<notin> open_ids s3" using s3(3) c2(3) by simp
    ultimately show ?thesis by (auto simp: lt_find_None open_ids_def)
  qed
  moreover have "tr_count ?r = card (open_ids s3)" by (rule dc_ok_count [OF s3(2)])
  then have "log y2 = log y @ disconnected_line (lx_peer k) (card (open_ids s3))"
    by (simp add: y2 y1_def print_all_log [where log = log, OF log(1)] peer_texts_def active_texts_def disconnected_line_def)
  moreover have "card (open_ids s3) < 8"
  proof -
    have "i \<in> open_ids s" using open_found [OF inv] k by blast
    moreover have "finite (open_ids s)" by (simp add: open_ids_def)
    ultimately have "card (open_ids s3) < card (open_ids s)" using s3(3) c2(3) by (metis card_Diff1_less)
    with dc_ok_room [OF ok] show ?thesis by simp
  qed
  ultimately show ?thesis using e s3(2,3) c2(3) by (auto simp: dc_ok_def)
qed

text \<open>Two clients connect, and the first one leaves.\<close>

definition logging_bev :: "byte list bev_ops" where
  "logging_bev = \<lparr>be_socket_new = (\<lambda>fd y. (Some (nat fd), y)), be_enable = (\<lambda>b y. y), be_free = (\<lambda>b y. y),
     be_input_length = (\<lambda>b y. 0), be_output_length = (\<lambda>b y. 0), be_remove = (\<lambda>b n y. (0, [], y)),
     be_write = (\<lambda>b bytes y. (0, y)), be_copyout = (\<lambda>b n y. (0, [])), be_readln = (\<lambda>b y. (None, y)),
     be_set_timeouts = (\<lambda>b rd wr y. y), be_set_watermarks = (\<lambda>b rl rh wl wh y. y),
     so_close_socket = (\<lambda>fd y. y), so_pton = (\<lambda>host. Some 0), so_ntop = (\<lambda>ip. ''10.0.0.9''), so_error = (\<lambda>y. 104),
     li_new_bind = (\<lambda>cof reuse backlog ip port y. (Some 0, y)), li_free = (\<lambda>l y. y), li_socket_port = (\<lambda>l y. Some 20222)\<rparr>"

definition no_ops :: "byte list disconnect tcp_ops" where
  "no_ops = \<lparr>tc_valid = (\<lambda>i w. False), tc_close = (\<lambda>i w. w), tc_input_size = (\<lambda>i w. 0), tc_output_size = (\<lambda>i w. 0),
     tc_read = (\<lambda>i n w. (0, [], w)), tc_write = (\<lambda>i bytes w. (0, w))\<rparr>"

definition two_clients :: "byte list disconnect option" where
  "two_clients = (case dc_main True logging_bev (\<lambda>t y. y @ t) [] of
     Inl code \<Rightarrow> None
   | Inr sry \<Rightarrow> dc_events logging_bev no_ops (\<lambda>t y. y @ t) [Accepted 5 (Some (1, 4001)), Accepted 6 (Some (1, 4002))] sry)"

lemma two_clients:
  "\<exists>s r y. two_clients = Some (s, r, y) \<and> (\<exists>k. lt_find 0 s = Some k \<and> lx_valid k \<and> lx_peer k = \<lparr>peer_host = ''10.0.0.9'', peer_port = 4001\<rparr>)
     \<and> card (open_ids s) = 2"
proof -
  have "case two_clients of None \<Rightarrow> False | Some (s, r, y) \<Rightarrow> (case lt_find 0 s of None \<Rightarrow> False
      | Some k \<Rightarrow> lx_valid k \<and> lx_peer k = \<lparr>peer_host = ''10.0.0.9'', peer_port = 4001\<rparr>)
      \<and> map lx_id (lt_connections s) = [0, 1] \<and> filter lx_valid (lt_connections s) = lt_connections s"
    by code_simp
  then obtain s r y k where t: "two_clients = Some (s, r, y)" "lt_find 0 s = Some k" "lx_valid k"
    "lx_peer k = \<lparr>peer_host = ''10.0.0.9'', peer_port = 4001\<rparr>"
    "map lx_id (lt_connections s) = [0, 1]" "filter lx_valid (lt_connections s) = lt_connections s"
    by (auto split: option.splits prod.splits)
  have "open_ids s = lx_id ` set (filter lx_valid (lt_connections s))" by (simp add: open_ids_def Int_def conj_commute)
  then have "open_ids s = set [0, 1]" unfolding t(6) t(5) [symmetric] by simp
  with t(1-4) show ?thesis by (intro exI [of _ s] exI [of _ r] exI [of _ y]) simp
qed

lemma disconnect_detected_witness:
  "\<exists>s r y s' r' y'. two_clients = Some (s, r, y)
     \<and> dc_event logging_bev no_ops (\<lambda>t y. y @ t) (Reported \<lparr>ev_timeout = False, ev_error = False, ev_eof = True\<rparr> 0) (s, r, y) = Some (s', r', y')
     \<and> y' = y @ bytes_of ''peer disconnected 10.0.0.9:4001 active=1'' @ [chr_lf]"
proof -
  from two_clients obtain s r y k where t: "two_clients = Some (s, r, y)" "lt_find 0 s = Some k" "lx_valid k"
    "lx_peer k = \<lparr>peer_host = ''10.0.0.9'', peer_port = 4001\<rparr>" "card (open_ids s) = 2" by blast
  from t(1) obtain sry where m: "dc_main True logging_bev (\<lambda>t y. y @ t) [] = Inr sry"
    "dc_events logging_bev no_ops (\<lambda>t y. y @ t) [Accepted 5 (Some (1, 4001)), Accepted 6 (Some (1, 4002))] sry = Some (s, r, y)"
    unfolding two_clients_def by (cases "dc_main True logging_bev (\<lambda>t y. y @ t) []") auto
  have "lt_inv s" using dc_events_keep [OF _ m(2)] dc_started [OF m(1)] by (simp add: dc_ok_def)
  then have "0 \<in> open_ids s" using open_found t(2,3) by blast
  then have n: "card (open_ids s - {0}) = 1" using t(5) by simp
  have l: "disconnected_line \<lparr>peer_host = ''10.0.0.9'', peer_port = 4001\<rparr> 1 = bytes_of ''peer disconnected 10.0.0.9:4001 active=1'' @ [chr_lf]"
    by code_simp
  have "\<exists>s' r' y'. dc_event logging_bev no_ops (\<lambda>t y. y @ t) (Reported \<lparr>ev_timeout = False, ev_error = False, ev_eof = True\<rparr> 0) (s, r, y) = Some (s', r', y')
    \<and> lt_find 0 s' = None \<and> open_ids s' = open_ids s - {0} \<and> set (tr_list r') = open_ids s' \<and> card (open_ids s') < 8
    \<and> y' = y @ disconnected_line (lx_peer k) (card (open_ids s'))"
    by (rule disconnect_detected [where log = "\<lambda>y. y", OF m t(2,3)]) (simp_all add: logging_bev_def)
  then show ?thesis using t(1) unfolding t(4) by (metis n l)
qed

end
