(* ===== verification/Example_Setups.thy ===== *)
theory Example_Setups
  imports Disconnect_Server Client_Example
begin

text \<open>
  How the examples with a TCP server start: \<^verbatim>\<open>src/examples/TcpFixedHeaderServerExample\<close>,
  \<^verbatim>\<open>TcpLineServerExample\<close>, \<^verbatim>\<open>TcpDisconnectServerExample\<close>, \<^verbatim>\<open>IntegratedEventLoopExample\<close> and the two listeners of
  \<^verbatim>\<open>MiniSignalKServerExample\<close>. A server is a record of operations; on Linux they are those of \<open>Linux_Tcp_Server\<close>.
\<close>

section \<open>Servers and setup on Arduino\<close>

record 'w server_ops =
  srv_listen :: "tcp_listen_options \<Rightarrow> 'w \<Rightarrow> bool \<times> 'w"
  srv_port :: "'w \<Rightarrow> u16"
  srv_close :: "'w \<Rightarrow> 'w"

text \<open>What comes before \<open>listen\<close> on Arduino, with \<open>setup_rest\<close> the part after it.\<close>

definition wifi_setup ::
  "'w wifi_core \<Rightarrow> (byte list \<Rightarrow> 'w \<Rightarrow> 'w) \<Rightarrow> string \<Rightarrow> string \<Rightarrow> u32 \<Rightarrow> ('w \<Rightarrow> bool \<times> 'w) \<Rightarrow> 'w \<Rightarrow> (bool \<times> 'w) option" where
  "wifi_setup core pr ssid password timeout_ms setup_rest w =
     map_option (\<lambda>(joined, w1). if \<not> joined then (False, w1) else setup_rest w1)
       (example_wifi core pr ssid password timeout_ms w)"

text \<open>\<open>setup()\<close>, with the flag \<open>setup_failed\<close>, and \<open>loop()\<close>; \<open>t\<close> is what the example prints after a failure.\<close>

definition sketch_setup ::
  "(byte list \<Rightarrow> 'w \<Rightarrow> 'w) \<Rightarrow> byte list \<Rightarrow> ('w \<Rightarrow> (bool \<times> 'w) option) \<Rightarrow> 'w \<Rightarrow> (bool \<times> 'w) option" where
  "sketch_setup pr t setup_example w =
     map_option (\<lambda>(ok, w1). if \<not> ok then (True, pr t w1) else (False, w1)) (setup_example w)"

definition sketch_loop ::
  "(byte list \<Rightarrow> 'w \<Rightarrow> 'w) \<Rightarrow> (u32 \<Rightarrow> 'w \<Rightarrow> 'w) \<Rightarrow> byte list \<Rightarrow> bool \<Rightarrow> ('p, arduino_loop, 'w) el_env
     \<Rightarrow> ('p, arduino_loop, 'w) el_state \<Rightarrow> ('p, arduino_loop, 'w) el_state option" where
  "sketch_loop pr delay t setup_failed env st =
     (case st of (s, l, w) \<Rightarrow> if setup_failed then Some (s, l, delay 1000 (pr t w)) else el_run_once env st)"

text \<open>\<open>main\<close> on Linux: the exit code, or the state in which the loop runs.\<close>

definition server_main :: "bool \<Rightarrow> ('w \<Rightarrow> bool \<times> 'w) \<Rightarrow> 'w \<Rightarrow> int + 'w" where
  "server_main loop_valid setup_example w =
     (if \<not> loop_valid then Inl 1 else case setup_example w of (ok, w1) \<Rightarrow> if \<not> ok then Inl 2 else Inr w1)"

section \<open>The frame server and the line server\<close>

definition fh_setup :: "'w server_ops \<Rightarrow> (byte list \<Rightarrow> 'w \<Rightarrow> 'w) \<Rightarrow> 'w \<Rightarrow> bool \<times> 'w" where
  "fh_setup srv pr w =
     (case srv_listen srv (listen_on 20221) w of (ok, w1) \<Rightarrow>
        if \<not> ok then (False, w1)
        else (True, print_all pr [bytes_of ''TCP fixed-header server listening on port '', number_text (ucast (srv_port srv w1)), [chr_lf],
            bytes_of ''message format: one length byte followed by payload'' @ [chr_lf]] w1))"

definition le_setup :: "'w server_ops \<Rightarrow> (byte list \<Rightarrow> 'w \<Rightarrow> 'w) \<Rightarrow> 'w \<Rightarrow> bool \<times> 'w" where
  "le_setup srv pr w =
     (case srv_listen srv (listen_on 20220) w of (ok, w1) \<Rightarrow>
        if \<not> ok then (False, w1)
        else (True, print_all pr [bytes_of ''TCP line server listening on port '', number_text (ucast (srv_port srv w1)), [chr_lf],
            bytes_of ''send 'shutdown' to stop'' @ [chr_lf]] w1))"

section \<open>The integrated example\<close>

text \<open>The network beside \<open>devices\<close>: the server, the client, and the datagram stream.\<close>

record 'w ig_net =
  in_listen :: "tcp_listen_options \<Rightarrow> 'w \<Rightarrow> bool \<times> 'w"
  in_connect :: "string \<Rightarrow> u16 \<Rightarrow> 'w \<Rightarrow> bool \<times> 'w"
  in_udp_bind :: "u16 \<Rightarrow> 'w \<Rightarrow> bool \<times> 'w"
  in_udp_remote :: "string \<Rightarrow> u16 \<Rightarrow> 'w \<Rightarrow> bool \<times> 'w"

text \<open>The pointers have been set to the pins.\<close>

definition ig_pins_valid :: "'w devices \<Rightarrow> 'w \<Rightarrow> bool" where
  "ig_pins_valid dv w \<longleftrightarrow>
     (case (dv_digital_in dv, dv_digital_out dv, dv_analog_in dv, dv_analog_out dv) of
        (Some d, Some e, Some a, Some b) \<Rightarrow> ip_valid d w \<and> op_valid e w \<and> ai_valid a w \<and> ao_valid b w
      | _ \<Rightarrow> False)"

text \<open>Here \<open>reuse_address\<close> has its default, which is true.\<close>

definition ig_setup_network ::
  "'w ig_net \<Rightarrow> 'w devices \<Rightarrow> string \<Rightarrow> u16 \<Rightarrow> u16 \<Rightarrow> string \<Rightarrow> u16 \<Rightarrow> 'w \<Rightarrow> bool \<times> 'w" where
  "ig_setup_network net dv client_host client_port server_port udp_host udp_port w =
     (let fail = (\<lambda>t w. (False, serial_write_text dv (bytes_of t @ [chr_lf]) w))
      in case in_listen net (listen_default\<lparr>lo_host := Some ''0.0.0.0'', lo_port := server_port\<rparr>) w of (ok, w1) \<Rightarrow>
           if \<not> ok then fail ''tcp server listen failed'' w1
           else case in_connect net client_host client_port w1 of (ok2, w2) \<Rightarrow>
             if \<not> ok2 then fail ''tcp client connect start failed'' w2
             else case in_udp_bind net 0 w2 of (ok3, w3) \<Rightarrow>
               if \<not> ok3 then fail ''udp bind failed'' w3
               else case in_udp_remote net udp_host udp_port w3 of (ok4, w4) \<Rightarrow>
                 if \<not> ok4 then fail ''udp remote failed'' w4 else (True, w4))"

text \<open>
  \<open>setup()\<close> after the WiFi has been joined, and \<open>main\<close>: whether the program is ready, or the exit code, and the
  state. \<open>network\<close> is \<open>setup_network\<close> with its arguments.
\<close>

definition ig_setup_sketch ::
  "'w devices \<Rightarrow> ('w \<Rightarrow> bool \<times> 'w) \<Rightarrow> (ig_task, 's, integrated \<times> 'w) el_env \<Rightarrow> (ig_task, 's, integrated \<times> 'w) el_state
     \<Rightarrow> bool \<times> (ig_task, 's, integrated \<times> 'w) el_state" where
  "ig_setup_sketch dv network env st =
     (case st of (s, l, g, w) \<Rightarrow>
        let say = (\<lambda>t w. serial_write_text dv (bytes_of t @ [chr_lf]) w)
        in if \<not> ig_pins_valid dv w then (False, s, l, g, say ''integrated event loop pin setup failed'' w)
           else case setup_tasks env st of (s1, l1, g1, w1) \<Rightarrow>
             case network w1 of (ok, w2) \<Rightarrow>
               if \<not> ok then (False, s1, l1, g1, say ''integrated event loop network setup failed'' w2)
               else (True, s1, l1, g1, say ''integrated event loop ready'' w2))"

definition ig_main ::
  "'w fd_ops \<Rightarrow> (int \<Rightarrow> int \<Rightarrow> 'w devices) \<Rightarrow> ('w \<Rightarrow> bool \<times> 'w) \<Rightarrow> (int \<Rightarrow> int \<Rightarrow> (ig_task, 's, integrated \<times> 'w) el_env) \<Rightarrow> nat \<Rightarrow> string option \<Rightarrow> string option
     \<Rightarrow> (ig_task, 's, integrated \<times> 'w) el_state \<Rightarrow> int + (ig_task, 's, integrated \<times> 'w) el_state" where
  "ig_main fds dv network env argc rx_device tx_device st =
     (if argc < 7 then Inl 2
      else case st of (s, l, g, w) \<Rightarrow>
        case serial_open fds rx_device 115200 (- 1, w) of (ok, fd_in, w1) \<Rightarrow>
          if \<not> ok then Inl 1
          else case serial_open fds tx_device 115200 (- 1, w1) of (ok2, fd_out, w2) \<Rightarrow>
            if \<not> ok2 then Inl 1
            else if \<not> ig_pins_valid (dv fd_in fd_out) w2 then Inl 1
            else case setup_tasks (env fd_in fd_out) (s, l, g, w2) of (s1, l1, g1, w3) \<Rightarrow>
              case network w3 of (ok3, w4) \<Rightarrow>
                if \<not> ok3 then Inl 1
                else Inr (s1, l1, g1, serial_write_text (dv fd_in fd_out) (bytes_of ''integrated event loop ready'' @ [chr_lf]) w4))"

text \<open>\<open>setup()\<close> and \<open>loop()\<close> on Arduino.\<close>

definition ig_setup ::
  "'w wifi_core \<Rightarrow> 'w devices \<Rightarrow> string \<Rightarrow> string \<Rightarrow> u32 \<Rightarrow> ('w \<Rightarrow> bool \<times> 'w) \<Rightarrow> (ig_task, 's, integrated \<times> 'w) el_env
     \<Rightarrow> (ig_task, 's, integrated \<times> 'w) el_state \<Rightarrow> (bool \<times> (ig_task, 's, integrated \<times> 'w) el_state) option" where
  "ig_setup core dv ssid password timeout_ms network env st =
     (case st of (s, l, g, w) \<Rightarrow>
        map_option (\<lambda>(joined, w1).
            if \<not> joined then (False, s, l, g, serial_write_text dv (bytes_of ''integrated event loop wifi setup failed'' @ [chr_lf]) w1)
            else ig_setup_sketch dv network env (s, l, g, w1))
          (example_wifi core (serial_write_text dv) ssid password timeout_ms w))"

definition ig_loop ::
  "'w devices \<Rightarrow> (u32 \<Rightarrow> 'w \<Rightarrow> 'w) \<Rightarrow> bool \<Rightarrow> (ig_task, arduino_loop, integrated \<times> 'w) el_env
     \<Rightarrow> (ig_task, arduino_loop, integrated \<times> 'w) el_state \<Rightarrow> (ig_task, arduino_loop, integrated \<times> 'w) el_state option" where
  "ig_loop dv delay setup_failed env st =
     (case st of (s, l, g, w) \<Rightarrow>
        if setup_failed
        then Some (s, l, g, delay 1000 (serial_write_text dv (bytes_of ''integrated event loop setup failed'' @ [chr_lf]) w))
        else el_run_once env st)"

section \<open>The two listeners of the bridge\<close>

text \<open>A format string without a conversion or with \<open>%s\<close> and \<open>%u\<close>; the texts are shorter than the buffer of 192 bytes.\<close>

definition print_a_line :: "(byte list \<Rightarrow> 'w \<Rightarrow> 'w) \<Rightarrow> byte list \<Rightarrow> 'w \<Rightarrow> 'w" where
  "print_a_line pr t w = pr [chr_lf] (pr t w)"

definition listen_server :: "'w server_ops \<Rightarrow> (byte list \<Rightarrow> 'w \<Rightarrow> 'w) \<Rightarrow> u16 \<Rightarrow> string \<Rightarrow> 'w \<Rightarrow> bool \<times> 'w" where
  "listen_server srv pr port label w =
     (case srv_listen srv (listen_on port) w of (ok, w1) \<Rightarrow>
        if \<not> ok then (False, print_a_line pr (bytes_of label @ bytes_of '' listen failed'') w1)
        else (True, print_a_line pr (bytes_of label @ bytes_of '' listening on port '' @ number_text (ucast (srv_port srv w1))) w1))"

definition bridge_setup :: "'w server_ops \<Rightarrow> 'w server_ops \<Rightarrow> (byte list \<Rightarrow> 'w \<Rightarrow> 'w) \<Rightarrow> 'w \<Rightarrow> bool \<times> 'w" where
  "bridge_setup signalk nmea pr w =
     (case listen_server signalk pr 20223 ''Signal K'' w of (ok, w1) \<Rightarrow>
        if \<not> ok then (False, w1)
        else case listen_server nmea pr 20224 ''NMEA 0183'' w1 of (ok2, w2) \<Rightarrow>
          if \<not> ok2 then (False, srv_close signalk w2)
          else (True,
            print_a_line pr (bytes_of ''send NMEA MWV to port 20224, for example: $IIMWV,045.0,R,12.3,N,A*00'')
              (print_a_line pr (bytes_of ''connect Signal K clients to port 20223'')
                (print_a_line pr (bytes_of ''MiniSignalK bridge ready'') w2))))"

section \<open>Both listeners or none\<close>

text \<open>The two servers on Linux, beside the system.\<close>

definition first_server :: "'x bev_ops \<Rightarrow> (linux_server \<times> linux_server \<times> 'x) server_ops" where
  "first_server ops =
     \<lparr>srv_listen = lt_listen (lift_bev ops), srv_port = (\<lambda>w. lt_bound_port (fst w)), srv_close = lt_close (lift_bev ops)\<rparr>"

definition second_server :: "'x bev_ops \<Rightarrow> (linux_server \<times> linux_server \<times> 'x) server_ops" where
  "second_server ops =
     \<lparr>srv_listen = (\<lambda>opts (s, t, x). case lt_listen ops opts (t, x) of (ok, t1, x1) \<Rightarrow> (ok, s, t1, x1)),
      srv_port = (\<lambda>(s, t, x). lt_bound_port t), srv_close = (\<lambda>(s, t, x). (s, lt_close ops (t, x)))\<rparr>"

text \<open>The listeners of the system: which there are, and how \<open>evconnlistener_new_bind\<close> and \<open>evconnlistener_free\<close> change that.\<close>

definition counts_listeners :: "'x bev_ops \<Rightarrow> (byte list \<Rightarrow> 'x \<Rightarrow> 'x) \<Rightarrow> ('x \<Rightarrow> nat set) \<Rightarrow> bool" where
  "counts_listeners ops pr listeners \<longleftrightarrow>
     (\<forall>cof reuse backlog ip port x. case li_new_bind ops cof reuse backlog ip port x of
          (None, x1) \<Rightarrow> listeners x1 = listeners x
        | (Some l, x1) \<Rightarrow> l \<notin> listeners x \<and> listeners x1 = insert l (listeners x))
     \<and> (\<forall>l x. listeners (li_free ops l x) = listeners x - {l}) \<and> (\<forall>t x. listeners (pr t x) = listeners x)"

lemma lt_listen_fresh:
  assumes sys: "counts_listeners ops pr listeners" and s: "lt_connections s = []" "lt_listener s = None"
    and run: "lt_listen ops (listen_on port) (s, x) = (ok, s1, x1)"
  shows "lt_connections s1 = [] \<and> (if ok then \<exists>l. lt_listener s1 = Some l \<and> l \<notin> listeners x \<and> listeners x1 = insert l (listeners x)
     else lt_listener s1 = None \<and> listeners x1 = listeners x)"
proof -
  obtain lo x2 where b: "li_new_bind ops True True (- 1) 0 port x = (lo, x2)" by fastforce
  have "case lo of None \<Rightarrow> listeners x2 = listeners x | Some l \<Rightarrow> l \<notin> listeners x \<and> listeners x2 = insert l (listeners x)"
    using sys b unfolding counts_listeners_def by (metis (mono_tags, lifting) prod.case)
  with run b s show ?thesis
    by (auto simp: lt_listen_def lt_close_def listen_on_def listen_default_def lt_update_bound_port_def Let_def split: option.splits)
qed

lemma counts_lifted:
  assumes "counts_listeners ops pr listeners"
  shows "counts_listeners (lift_bev ops) (\<lambda>t (h, x). (h, pr t x)) (\<lambda>(h, x). listeners x)"
proof -
  have b: "case li_new_bind ops cof reuse backlog ip port x of
          (None, x1) \<Rightarrow> listeners x1 = listeners x
        | (Some l, x1) \<Rightarrow> l \<notin> listeners x \<and> listeners x1 = insert l (listeners x)" for cof reuse and backlog :: int and ip and port and x
    by (rule assms [unfolded counts_listeners_def, THEN conjunct1, rule_format])
  have "case li_new_bind (lift_bev ops) cof reuse backlog ip port (h, x) of
          (None, w) \<Rightarrow> (case w of (h, x) \<Rightarrow> listeners x) = listeners x
        | (Some l, w) \<Rightarrow> l \<notin> listeners x \<and> (case w of (h, x) \<Rightarrow> listeners x) = insert l (listeners x)" for cof reuse and backlog :: int and ip and port and h :: 'b and x
  proof -
    obtain lo x1 where lo: "li_new_bind ops cof reuse backlog ip port x = (lo, x1)" by fastforce
    then have "li_new_bind (lift_bev ops) cof reuse backlog ip port (h, x) = (lo, (h, x1))" by (simp add: lift_bev_def)
    with b [where cof = cof and reuse = reuse and backlog = backlog and ip = ip and port = port and x = x] lo show ?thesis by (cases lo) simp_all
  qed
  moreover have "listeners (li_free ops l x) = listeners x - {l}" "listeners (pr t x) = listeners x" for l t x
    using assms unfolding counts_listeners_def by blast+
  moreover have "li_free (lift_bev ops) l (h, x) = (h, li_free ops l x)" for l and h :: 'b and x by (simp add: lift_bev_def)
  ultimately show ?thesis unfolding counts_listeners_def by (simp only: split_paired_All prod.case simp_thms)
qed

lemma lt_close_fresh:
  assumes "counts_listeners ops pr listeners" "lt_connections s = []" "lt_listener s = Some l" "lt_close ops (s, x) = (s1, x1)"
  shows "lt_listener s1 = None \<and> listeners x1 = listeners x - {l}"
  using assms unfolding counts_listeners_def by (auto simp: lt_close_def Let_def)

text \<open>
  C33: the bridge on Linux never runs with one of its two servers only. From servers that have not listened
  yet, the setup either reports success, and both listen, with two listeners that the system did not have before, or
  it reports failure, and neither listens and the system has the listeners it had: when the second server
  cannot listen the first is closed again.
\<close>

theorem bridge_listens_twice_or_never:
  assumes sys: "counts_listeners ops pr listeners"
    and run: "bridge_setup (first_server ops) (second_server ops) (\<lambda>t (s, u, x). (s, u, pr t x)) (lt_init n, lt_init m, x) = (ok, s, u, x')"
  shows "if ok then \<exists>k l. lt_listener s = Some k \<and> lt_listener u = Some l \<and> k \<noteq> l \<and> k \<notin> listeners x \<and> l \<notin> listeners x
      \<and> listeners x' = {k, l} \<union> listeners x
    else lt_listener s = None \<and> lt_listener u = None \<and> listeners x' = listeners x"
proof -
  let ?pr = "\<lambda>t (s, u, x). (s :: linux_server, u :: linux_server, pr t x)"
  have pr: "listeners (pr t x) = listeners x" for t x using sys by (simp add: counts_listeners_def)
  note sys1 = counts_lifted [OF sys, where 'b = linux_server]
  obtain ok1 s1 u1 x1 where l1: "lt_listen (lift_bev ops) (listen_on 20223) (lt_init n, lt_init m, x) = (ok1, s1, u1, x1)"
    by (metis prod_cases4)
  have u1: "u1 = lt_init m"
    using l1 by (auto simp: lt_listen_def lt_close_def lt_init_def listen_on_def listen_default_def lift_bev_def apsnd_def map_prod_def Let_def
        split: option.splits prod.splits)
  from lt_listen_fresh [OF sys1 _ _ l1] have f1: "lt_connections s1 = []" "if ok1 then \<exists>k. lt_listener s1 = Some k \<and> k \<notin> listeners x
      \<and> listeners x1 = insert k (listeners x) else lt_listener s1 = None \<and> listeners x1 = listeners x"
    by (simp_all add: lt_init_def split: if_splits)
  have p: "print_a_line ?pr t (a, b, c) = (a, b, pr [chr_lf] (pr t c))" for t a b c by (simp add: print_a_line_def)
  show ?thesis
  proof (cases ok1)
    case False
    with l1 have "\<exists>y1. bridge_setup (first_server ops) (second_server ops) ?pr (lt_init n, lt_init m, x) = (False, s1, u1, y1)
      \<and> listeners y1 = listeners x1"
      by (simp add: bridge_setup_def listen_server_def first_server_def p pr)
    moreover have "lt_listener u1 = None" by (simp add: u1 lt_init_def)
    ultimately show ?thesis using run f1(2) False by auto
  next
    case True
    with f1 obtain k where k: "lt_listener s1 = Some k" "k \<notin> listeners x" "listeners x1 = insert k (listeners x)" by auto
    obtain y1 where y1: "listen_server (first_server ops) ?pr 20223 ''Signal K'' (lt_init n, lt_init m, x) = (True, s1, u1, y1)"
      "listeners y1 = listeners x1"
      using l1 True by (simp add: listen_server_def first_server_def p pr)
    obtain ok2 u2 x2 where l2: "lt_listen ops (listen_on 20224) (u1, y1) = (ok2, u2, x2)" by (metis prod_cases3)
    from lt_listen_fresh [OF sys _ _ l2] u1 y1(2) have f2: "if ok2 then \<exists>l. lt_listener u2 = Some l \<and> l \<notin> listeners x1
      \<and> listeners x2 = insert l (listeners x1) else lt_listener u2 = None \<and> listeners x2 = listeners x1"
      by (simp add: lt_init_def split: if_splits)
    obtain y2 where y2: "listen_server (second_server ops) ?pr 20224 ''NMEA 0183'' (s1, u1, y1) = (ok2, s1, u2, y2)" "listeners y2 = listeners x2"
      using l2 by (cases ok2) (simp_all add: listen_server_def second_server_def p pr)
    show ?thesis
    proof (cases ok2)
      case True
      with run y1(1) y2 f2 k show ?thesis by (auto simp: bridge_setup_def p pr)
    next
      case False
      obtain s3 u3 x3 where c: "lt_close (lift_bev ops) (s1, u2, y2) = (s3, u3, x3)" by (metis prod_cases3)
      then have "u3 = u2" using f1(1) by (auto simp: lt_close_def lift_bev_def apsnd_def map_prod_def Let_def split: option.splits)
      with lt_close_fresh [OF sys1 f1(1) k(1) c] False run y1(1) y2 f2 k c show ?thesis
        by (auto simp: bridge_setup_def first_server_def)
    qed
  qed
qed

text \<open>A system in which a port can be bound once, and the second port is taken.\<close>

definition port_bev :: "nat set bev_ops" where
  "port_bev = \<lparr>be_socket_new = (\<lambda>fd y. (Some (nat fd), y)), be_enable = (\<lambda>b y. y), be_free = (\<lambda>b y. y),
     be_input_length = (\<lambda>b y. 0), be_output_length = (\<lambda>b y. 0), be_remove = (\<lambda>b n y. (0, [], y)),
     be_write = (\<lambda>b bytes y. (0, y)), be_copyout = (\<lambda>b n y. (0, [])), be_readln = (\<lambda>b y. (None, y)),
     be_set_timeouts = (\<lambda>b rd wr y. y), be_set_watermarks = (\<lambda>b rl rh wl wh y. y),
     so_close_socket = (\<lambda>fd y. y), so_pton = (\<lambda>host. Some 0), so_ntop = (\<lambda>ip. []), so_error = (\<lambda>y. 98),
     li_new_bind = (\<lambda>cof reuse backlog ip port y. if unat port \<in> y then (None, y) else (Some (unat port), insert (unat port) y)),
     li_free = (\<lambda>l y. y - {l}), li_socket_port = (\<lambda>l y. Some (of_nat l))\<rparr>"

lemma bridge_listens_twice_or_never_witness:
  "\<exists>s u. bridge_setup (first_server port_bev) (second_server port_bev) (\<lambda>t (s, u, x). (s, u, x)) (lt_init 16, lt_init 16, {20224}) = (False, s, u, {20224})
     \<and> lt_listener s = None \<and> lt_listener u = None"
proof -
  have sys: "counts_listeners port_bev (\<lambda>t x. x) (\<lambda>x. x)" by (simp add: counts_listeners_def port_bev_def)
  obtain ok s u x' where b: "bridge_setup (first_server port_bev) (second_server port_bev) (\<lambda>t (s, u, x). (s, u, x)) (lt_init 16, lt_init 16, {20224})
    = (ok, s, u, x')" by (metis prod_cases4)
  have "\<not> ok"
    using b by (auto simp: bridge_setup_def listen_server_def first_server_def second_server_def lt_listen_def lt_close_def lt_init_def port_bev_def
        listen_on_def listen_default_def lift_bev_def print_a_line_def lt_update_bound_port_def)
  with bridge_listens_twice_or_never [OF sys b] b show ?thesis by auto
qed

end
