(* ===== verification/Spec2Isabelle.thy ===== *)
theory Spec2Isabelle
  imports Fixed_Vector Byte_Stream Pin_Events Timers Line_Reader Frame_Readers Json_Grammar
    Json_Soundness Callback_Task Arduino_Run Event_Loop_Arduino Event_Loop_Linux
    Tcp_Line Wifi_Server Linux_Tcp_Server Linux_Tcp_Client Linux_Line_Server
    Pin_Sources File_Pins Fd_Streams Gpiod Mini_Signalk Arduino_Io Example_Servers
    Integrated_Example Memory_Examples Line_Examples Pin_Examples Network_Examples Client_Example Disconnect_Server Example_Setups
begin

text \<open>
  A model of \<^verbatim>\<open>pypilot-event-loop\<close>, a header-only C++ event loop for Arduino and Linux, and its
  verification. All paths are below \<^verbatim>\<open>src/\<close> of the repository.

  \<^bold>\<open>The program.\<close> An application makes an \<open>EventLoop\<close> (\<^verbatim>\<open>async_event_loop/event_loop.hpp\<close>) over a
  scheduler and registers callbacks: periodic, delayed, on bytes of a stream, on events of a pin. The loop
  stores the callable in a slot, registers the slot's task with the scheduler, and hands out a handle of
  slot and generation. The schedulers are the cooperative \<open>ArduinoLoopImpl\<close> and \<open>LinuxLibeventLoop\<close>. On
  top of the streams are protocol readers (lines, JSON, fixed frames, frames with a length in the header),
  and on top of TCP connections (Linux sockets, Arduino WiFi) a line protocol for servers and clients.

  \<^bold>\<open>Theories and sources.\<close> Each theory models one header or part of one, and its definitions follow the
  methods of the classes in their order; a prefix names the class.

    \<^item> \<open>Prelude\<close>: machine types and shared lemmas; it models no code.
    \<^item> \<open>Fixed_Vector\<close> (\<open>fv_\<close>): \<^verbatim>\<open>async_event_loop/fixed_vector.hpp\<close>.
    \<^item> \<open>Ring_Buffer\<close>, \<open>Byte_Stream\<close> (\<open>ring_\<close>, \<open>ms_\<close>): \<^verbatim>\<open>memory_stream.hpp\<close>, and \<open>IByteStream\<close> as the locale
      \<open>byte_source\<close>, interpreted on the memory stream.
    \<^item> \<open>Pin_Events\<close> (\<open>mp_\<close>): \<^verbatim>\<open>pin_io.hpp\<close>, \<^verbatim>\<open>memory_pin_event_source.hpp\<close>.
    \<^item> \<open>Timers\<close> (\<open>me_\<close>, \<open>pt_\<close>, \<open>ot_\<close>): \<^verbatim>\<open>micros32_extender.hpp\<close> and the timers of \<^verbatim>\<open>scheduler.hpp\<close>.
    \<^item> \<open>Callback_Task\<close> (\<open>ct_\<close>): \<open>CallbackTask\<close> of \<^verbatim>\<open>scheduler.hpp\<close>.
    \<^item> \<open>Arduino_Loop\<close>, \<open>Arduino_Run\<close> (\<open>al_\<close>): \<^verbatim>\<open>async_event_loop_arduino/arduino_loop.hpp\<close>.
    \<^item> \<open>Scheduler\<close>: \<open>IScheduler\<close>, what the event loop relies on, as the locale \<open>scheduler\<close>; interpreted on
      the cooperative scheduler there and on the libevent scheduler in \<open>Libevent_Loop\<close>.
    \<^item> \<open>Event_Loop\<close> (\<open>eh_\<close>, \<open>el_\<close>): \<^verbatim>\<open>event_loop.hpp\<close>, over any scheduler. \<open>Event_Loop_Inv\<close>,
      \<open>Event_Loop_Steps\<close> and \<open>Event_Loop_Exec\<close> hold its invariant, its calls as a step relation, and whole
      executions; \<open>Event_Loop_Arduino\<close> and \<open>Event_Loop_Linux\<close> the composition with each scheduler.
      \<open>Event_Loop_Timers\<close> (\<open>tm_\<close>, \<open>app_\<close>) specifies what an application sees as a list of timed callbacks that
      are registered, removed, enabled and disabled by handle, and shows that the loop on the Arduino scheduler
      implements it.
    \<^item> \<open>Libevent_Loop\<close> (\<open>ll_\<close>): \<^verbatim>\<open>async_event_loop_linux/libevent_loop.hpp\<close>.
    \<^item> \<open>Protocol_Common\<close>, \<open>Line_Reader\<close> (\<open>line_\<close>), \<open>Frame_Readers\<close> (\<open>fixed_\<close>, \<open>hp_\<close>), \<open>Json_Number\<close>,
      \<open>Json_Reader\<close> (\<open>json_\<close>): \<^verbatim>\<open>async_event_loop/protocol_reader.hpp\<close>. \<open>Json_Framing\<close>, \<open>Json_Values\<close>,
      \<open>Json_Grammar\<close> and \<open>Json_Soundness\<close> relate the JSON reader to the grammar of RFC 8259.
    \<^item> \<open>Tcp\<close> (\<open>tc_\<close>, \<open>bm_\<close>, \<open>tr_\<close>, \<open>cs_\<close>): \<^verbatim>\<open>tcp.hpp\<close>. \<open>Tcp_Line\<close> (\<open>ls_\<close>, \<open>lc_\<close>): \<^verbatim>\<open>tcp_line_protocol.hpp\<close>.
    \<^item> \<open>Wifi_Tcp\<close>, \<open>Wifi_Server\<close> (\<open>wt_\<close>, \<open>sv_\<close>, \<open>cl_\<close>): \<^verbatim>\<open>async_event_loop_arduino/arduino_wifi_tcp.hpp\<close>.
    \<^item> \<open>Linux_Tcp_Server\<close> (\<open>lx_\<close>, \<open>lt_\<close>) and \<open>Linux_Tcp_Client\<close> (\<open>cc_\<close>, \<open>lk_\<close>):
      \<^verbatim>\<open>async_event_loop_linux/linux_tcp_server.hpp\<close> and \<^verbatim>\<open>linux_tcp_client.hpp\<close>. \<open>Linux_Line_Server\<close> composes the
      line handler with the Linux server; its parameter \<open>dead\<close> is what a use of a destroyed connection does.
    \<^item> \<open>Pin_Sources\<close> (\<open>ap_\<close>, \<open>is_\<close>): the two Arduino pin event sources. \<open>File_Pins\<close> (\<open>fp_\<close>):
      \<^verbatim>\<open>linux_file_pin_io.hpp\<close>. \<open>Fd_Streams\<close> (\<open>fs_\<close>, \<open>fifo_\<close>, \<open>serial_\<close>, \<open>udp_\<close>): the Linux streams on file
      descriptors. \<open>Gpiod\<close> (\<open>gp1_\<close>, \<open>gp2_\<close>, \<open>gs1_\<close>, \<open>gs2_\<close>): \<^verbatim>\<open>linux_gpiod_pin_io.hpp\<close> and
      \<^verbatim>\<open>linux_gpiod_pin_event_source.hpp\<close>, with the number of the libgpiod API.
    \<^item> \<open>Arduino_Io\<close> (\<open>wifi_\<close>, \<open>uw_\<close>, \<open>as_\<close>, \<open>ard_\<close>, \<open>guard_\<close>, \<open>console_\<close>): \<^verbatim>\<open>arduino_wifi.hpp\<close>, \<^verbatim>\<open>arduino_wifi_udp.hpp\<close>,
      \<^verbatim>\<open>arduino_serial_stream.hpp\<close>, \<^verbatim>\<open>arduino_pin_io.hpp\<close>, the interrupt guard, both clocks, and the Linux console
      of \<^verbatim>\<open>native_stream.hpp\<close>.
    \<^item> Applications: \<open>Tcp_Clients\<close> has, as locales, what an application handler that reads, or keeps a registry
      of connections, can rely on. \<open>Mini_Signalk\<close> (\<open>tk_\<close>, \<open>sk_\<close>, \<open>nm_\<close>, \<open>bridge_\<close>) is the bridge of
      \<^verbatim>\<open>examples/MiniSignalKServerExample\<close> with \<^verbatim>\<open>examples/support/mini_signalk_support.hpp\<close>; \<open>Example_Servers\<close> (\<open>ex_\<close>, \<open>fh_\<close>,
      \<open>le_\<close>) and \<open>Disconnect_Server\<close> (\<open>dc_\<close>) the handlers of three more TCP servers under \<^verbatim>\<open>examples/\<close>, \<open>Example_Setups\<close> how these, the bridge and the integrated example start; \<open>Integrated_Example\<close> (\<open>ig_\<close>) the tasks and the
      line handlers of \<^verbatim>\<open>examples/IntegratedEventLoopExample\<close>; \<open>Memory_Examples\<close> (\<open>mx_\<close>, \<open>line_example_\<close>, \<open>json_example_\<close>,
      \<open>frame_example_\<close>, \<open>pin_example_\<close>, \<open>timer_example_\<close>) the five example programs without a device, as they run on Arduino; \<open>Line_Examples\<close>
      (\<open>port_\<close>, \<open>serial_setup\<close>, \<open>fifo_example_\<close>) \<^verbatim>\<open>examples/SerialLineProtocolExample\<close> and \<^verbatim>\<open>examples/LinuxFifoIpcExample\<close>, with the locale
      \<open>open_source\<close> for streams that are always readable; \<open>Pin_Examples\<close> (\<open>xs_\<close>, \<open>pi_\<close>) \<^verbatim>\<open>examples/PinIoExample\<close> and
      \<^verbatim>\<open>examples/support/example_pin_event_source.hpp\<close>; \<open>Network_Examples\<close> the two UDP examples, and \<open>Client_Example\<close> (\<open>client_\<close>)
      \<^verbatim>\<open>examples/TcpLineClientExample\<close>.

  \<^bold>\<open>How state corresponds.\<close> An object is a record with the members as fields, a method a function from the
  record to the result and the new record. Machine integers are words of their width, a \<^verbatim>\<open>size_t\<close> that only
  indexes memory is a natural number, an \<^verbatim>\<open>int\<close> result that cannot overflow an integer. An array is a list of
  fixed length; what lies past the part in use is kept, so that stale contents are in the model. A null
  pointer, an invalid access (a null callback called, a destroyed connection used) and a loop that does not
  return are the value \<open>None\<close>. Outside code (the Arduino core, libevent, sockets, the file system) is a
  record of operations on an arbitrary state of the world, a parameter of the functions that call it; what a
  theorem assumes of it is a named predicate (\<open>serves\<close>, \<open>bev_source\<close>, \<open>tty_descriptors\<close>, \<open>datagram_socket\<close>, \<open>file_at\<close>,
  \<open>sockets_ok\<close>, \<open>gpiod_handles\<close>, \<open>gpiod_reads_wait\<close>, \<open>wifi_clock\<close>, \<open>wifi_radio\<close>, \<open>serial_source\<close>, \<open>frame_connection\<close>,
  \<open>bridge_network\<close>, \<open>world_only\<close>, \<open>analog_log\<close>, \<open>ig_network\<close>, \<open>appends\<close>, \<open>line_peer\<close>, \<open>serial_peer\<close>, \<open>port_clock\<close>, \<open>fifo_pair\<close>, \<open>pin_logs\<close>, \<open>sending_socket\<close>, \<open>client_network\<close>, \<open>counts_listeners\<close>). An application callback is an arbitrary function or, where it may
  call the loop, an arbitrary sequence of calls (\<open>el_api\<close>) or steps (\<open>el_step\<close>).

  \<^bold>\<open>What is shown.\<close>

    \<^item> Event loop: one invariant covers slots, tasks, generations and the scheduler, kept by every call,
      every callback and every iteration, on both schedulers; handles cannot come to life again before the
      generation wraps; registering, removing, enabling and disabling never destroy the executing callable, and an
      iteration ends with nothing executing and everything removed destroyed, but a callback that itself runs the
      loop can have its callable destroyed while it executes; and for callbacks that leave the loop alone
      every sequence of calls and iterations does what the list of timers of \<open>Event_Loop_Timers\<close> does.
    \<^item> Schedulers: which tasks an iteration polls and in which order, that it returns, what it does when
      tasks are added and removed meanwhile; the phase of periodic timers; two ways to lose a one-shot.
    \<^item> Readers: what each delivers for a whole stream, however it is cut into reads, the counters, and
      bounds of the buffers; for JSON both directions, values are delivered and what is delivered is framed.
    \<^item> TCP: the slots of the line handler, delivery of lines, backpressure, the registry as a set, the
      server and client lifecycles with their descriptors; several errors at reconnects and closes.
    \<^item> Pins and streams: interrupts are accounted for, level-triggered sources hang the drain loop, values
      written to file pins read back, no descriptor and no GPIO handle is lost, a reader on datagrams loses data,
      a blocking read of GPIO events never lets the loop go on, the WiFi datagrams are a queue, for
      buffers they fit.
    \<^item> Applications: what the bridge sends for each wind sentence, who its clients are, that both of its servers listen or neither, that a client that leaves is reported, that frames and
      lines are echoed, that the integrated example's analog output is a triangle wave, what the memory stream examples deliver, how its numbers are written, what the line, pin and network examples write through whole runs, and that the line server's \<^verbatim>\<open>shutdown\<close> uses a destroyed connection.

  \<^bold>\<open>Loops and bounds.\<close> A loop over an array is structural recursion on the index or the list. Loops whose end
  depends on the outside (\<open>poll_loop\<close>, the line loops of the connections, the drain of a pin source, the
  catch-up of a periodic timer, \<open>al_run_loop\<close>) are \<^theory_text>\<open>partial_function (option)\<close>; that they return is proved under
  conditions on the outside (a stream holds finitely many bytes, the tasks return). Only
  \<open>hp_try_emit\<close> has fuel, the buffered size plus one: every frame it emits is not empty (\<open>hp_try_emit_fuel\<close>).

  \<^bold>\<open>Not modelled.\<close> \<^verbatim>\<open>native*.hpp\<close> (but for the console) and \<^verbatim>\<open>udp.hpp\<close> only choose types and declare interfaces;
  \<^verbatim>\<open>linux_fd_datagram_stream.hpp\<close> includes a header that does not exist. Of the examples the usage messages, the parsing of arguments and
  what the handlers of the bridge and of two servers log are left out; floating-point arithmetic,
  \<^verbatim>\<open>strtod\<close> and \<^verbatim>\<open>printf\<close> are parameters; of the examples of \<open>Memory_Examples\<close> the \<open>main()\<close> for Linux, which turns
  their counts into an exit code, is left out too. The tests are left out. Concurrency is that of the program: one thread, and
  interrupts, which are calls between other steps. Application handlers of the line protocol do not call the
  handler again. Virtual dispatch is a record of operations.
\<close>

section \<open>Protocol readers on a memory stream\<close>

text \<open>
  C7: a JSON reader polled on a memory stream that holds a sequence of JSON values (RFC 8259), each
  no longer than the reader's buffer and followed by white space (which may be absent except after
  a number), returns, leaves the stream empty, and hands exactly these values, byte for byte and in
  order, to the callback; every value is counted as a message, and no error or overflow is counted.
\<close>

theorem json_poll_delivers_values:
  assumes "ring_inv s" "ring_list s = json_stream items" "json_idle B True st r"
    "\<forall>(v, w) \<in> set items. json_value v \<and> length v \<le> B \<and> ws_text w \<and> (json_number v \<longrightarrow> w \<noteq> [])"
  shows "\<exists>r' s'. json_poll mem_stream (app_callback f) (r, (s, x))
      = Some (r', (s', deliver f (map fst items) x))
    \<and> ring_list s' = [] \<and> json_idle B True (json_counted (length (json_stream items)) (length items) st) r'"
proof -
  have "\<forall>i \<in> set items. json_item B i"
    using assms(4) by (auto simp: json_item_def json_value_text)
  from feed_json_stream [OF assms(3) this] obtain r' where
    r': "feed json_byte (json_stream items) r = (r', map fst items)"
    "json_idle B True (json_counted (length (json_stream items)) (length items) st) r'" by blast
  from mem_poll_reader [OF assms(1), of json_byte r r' "map fst items" f x] r' assms(2) show ?thesis
    by (auto simp: json_poll_def)
qed

lemma json_poll_delivers_values_witness:
  "\<exists>r' s'. json_poll mem_stream (app_callback (\<lambda>v log. log @ [v])) (json_init True 8,
        (ring_full [91, 32, 93, 49, 50, chr_lf, 116, 114, 117, 101, chr_space], []))
      = Some (r', (s', [[91, 32, 93], [49, 50], lit_true]))"
proof -
  let ?items = "[([91, 32, 93], []), ([49, 50], [chr_lf]), (lit_true, [chr_space])]"
  have s: "ring_inv (ring_full (json_stream ?items))"
    "ring_list (ring_full (json_stream ?items)) = json_stream ?items" by simp_all
  have n: "valid_number [49, 50]"
    by (simp add: valid_number_def valid_fraction_def valid_exponent_def skip_digits.simps
        is_digit_def is_nonzero_digit_def Let_def)
  have "\<forall>(v, w) \<in> set ?items. json_value v \<and> length v \<le> 8 \<and> ws_text w \<and> (json_number v \<longrightarrow> w \<noteq> [])"
    using value_array_empty [of "[32]"] value_number [of "[49, 50]"] n value_literal [of lit_true]
    by (auto simp: ws_text_def is_ws_def json_literals_def lit_true_def
        valid_number_grammar [symmetric] valid_number_def is_nonzero_digit_def Let_def)
  from json_poll_delivers_values [OF s json_idle_init this, of "\<lambda>v log. log @ [v]" "[]"]
  show ?thesis by (auto simp: json_stream_def lit_true_def)
qed

text \<open>
  C8: whatever bytes a JSON reader is fed, in whatever pieces, every view it hands to the callback
  is a complete text (a container whose brackets pair up and whose quotes are closed, a quoted
  string ended by its first unescaped quote, a literal, or a number of the JSON grammar), is not
  empty, and fits the buffer; and the reader's stack is always the list of brackets left open.
\<close>

theorem json_views_complete:
  "case feed json_byte bs (json_init sk B) of (r, vs) \<Rightarrow>
     json_inv B r \<and> list_all (\<lambda>v. json_text v \<and> v \<noteq> [] \<and> length v \<le> B) vs"
  using json_feed_good [where bs = bs, OF json_idle_inv [OF json_idle_init [of B sk]]]
  by (auto simp: json_good_def list_all_iff split: prod.splits)

text \<open>
  C9: the byte-by-byte number check of the JSON reader accepts exactly the numbers of the JSON
  grammar: an optional minus sign, an integer part without leading zeros, an optional fraction and
  an optional exponent, each with at least one digit.
\<close>

theorem valid_number_iff_grammar: "valid_number t \<longleftrightarrow> json_number t"
  by (rule valid_number_grammar)

text \<open>
  C15: a line reader polled on a memory stream delivers the lines of its content in order, each with
  what the overflow policy leaves of it and, if asked for, without a trailing carriage return;
  the bytes after the last delimiter stay pending; the counters count every byte, line and overflow.
\<close>

theorem line_poll_delivers_lines:
  assumes "ring_inv s" "ring_list s = join_lines (lo_delimiter opts) ls rest"
    "\<forall>l \<in> set ls. lo_delimiter opts \<notin> set l" "lo_delimiter opts \<notin> set rest"
  shows "\<exists>r' s'. line_poll mem_stream opts (app_callback f) (line_init n, (s, x))
      = Some (r', (s', deliver f (map (emitted_line opts n) ls) x))
    \<and> ring_list s' = [] \<and> line_pending r' = line_kept (lo_drop_overflow opts) n rest
    \<and> lr_stats r' = count_bytes (rb_count s) (length ls)
        (sum_list (map (line_lost (lo_drop_overflow opts) n) (ls @ [rest]))) stats_init"
proof -
  have st: "lr_stats (line_init n) = stats_init" by (simp add: line_init_def)
  from line_feed_lines [OF line_inv_init line_pending_init assms(3,4), of n] obtain r' where
    r': "feed (line_byte opts) (ring_list s) (line_init n) = (r', map (emitted_line opts n) ls)"
    "line_pending r' = line_kept (lo_drop_overflow opts) n rest"
    "lr_stats r' = count_bytes (length (ring_list s)) (length ls)
         (sum_list (map (line_lost (lo_drop_overflow opts) n) (ls @ [rest]))) stats_init"
    unfolding assms(2) st line_capacity_init by blast
  from mem_poll_reader [OF assms(1) r'(1), of f x] r'(2,3) show ?thesis
    by (auto simp: line_poll_def)
qed

lemma line_poll_delivers_lines_witness:
  "\<exists>r' s'. line_poll mem_stream line_options_default (app_callback (\<lambda>v log. log @ [v]))
      (line_init 3, (ring_full [65, chr_cr, chr_lf, 66, 67, 68, 69, 70, chr_lf, 71], []))
    = Some (r', (s', [[65], [70]]))"
proof -
  let ?o = line_options_default and ?ls = "[[65, chr_cr], [66, 67, 68, 69, 70]]"
  have s: "ring_inv (ring_full (join_lines (lo_delimiter ?o) ?ls [71]))"
    "ring_list (ring_full (join_lines (lo_delimiter ?o) ?ls [71])) = join_lines (lo_delimiter ?o) ?ls [71]"
    by simp_all
  have d: "\<forall>l \<in> set ?ls. lo_delimiter ?o \<notin> set l" "lo_delimiter ?o \<notin> set [71]"
    by (simp_all add: line_options_default_def)
  from line_poll_delivers_lines [OF s d, of "\<lambda>v log. log @ [v]" 3 "[]"] show ?thesis
    by (auto simp: line_options_default_def emitted_line_def strip_cr_def line_kept_def)
qed

text \<open>
  C16: frames with a header and a payload, each announcing its own length within the options' limit,
  arrive from a memory stream as they were sent, in order, and an unfinished last frame stays pending.
\<close>

theorem hp_poll_delivers_frames:
  assumes "ring_inv s" "ring_list s = concat fs @ p" "hp_valid_options n opts"
    "\<forall>f \<in> set fs. hp_frame opts f" "hp_frame opts (p @ q)" "q \<noteq> []"
  shows "\<exists>r' s'. hp_poll mem_stream opts (app_callback g) (hp_init n, (s, x))
      = Some (r', (s', deliver g fs x)) \<and> ring_list s' = [] \<and> hp_pending r' = p"
proof -
  have "hp_ready opts (hp_init n)" "hp_pending (hp_init n) = []" and len: "length (hr_buffer (hp_init n)) = n"
    using assms(3) hp_inv_init [of opts n]
    by (auto simp: hp_ready_def hp_init_def hp_valid_options_def hp_pending_def)
  from hp_feed_frames [OF this(1,2) assms(4-6)] obtain r' where
    "feed (hp_byte opts) (concat fs @ p) (hp_init n) = (r', fs)" "hp_pending r' = p" by blast
  with mem_poll_reader [OF assms(1), of "hp_byte opts" "hp_init n" r' fs g x] assms(2,3) len
  show ?thesis by (auto simp: hp_poll_def)
qed

definition demo_options :: hp_options where
  "demo_options = \<lparr>ho_header_size = 1, ho_max_payload_size = 3,
     ho_payload_size = Some (\<lambda>header. unat (hd header))\<rparr>"

lemma hp_poll_delivers_frames_witness:
  "\<exists>r' s'. hp_poll mem_stream demo_options (app_callback (\<lambda>v log. log @ [v]))
      (hp_init 4, (ring_full [2, 7, 8, 0, 1], [])) = Some (r', (s', [[2, 7, 8], [0]]))"
proof -
  have s: "ring_inv (ring_full [2, 7, 8, 0, 1 :: byte])"
    "ring_list (ring_full [2, 7, 8, 0, 1]) = concat [[2, 7, 8], [0]] @ [1 :: byte]" by simp_all
  have o: "hp_valid_options 4 demo_options" "\<forall>f \<in> set [[2, 7, 8], [0]]. hp_frame demo_options f"
    "hp_frame demo_options ([1] @ [9])"
    by (simp_all add: hp_valid_options_def demo_options_def hp_frame_def hp_frame_size_def)
  from hp_poll_delivers_frames [OF s o, of "\<lambda>v log. log @ [v]" "[]"] show ?thesis by auto
qed

text \<open>
  C17: with valid options, no input of any kind makes the header-payload reader overflow its buffer,
  and everything it delivers is a frame whose length is the one its header announces.
\<close>

theorem hp_never_overflows:
  assumes "hp_valid_options n opts" "feed (hp_byte opts) bs (hp_init n) = (r', vs)"
  shows "ps_overflows (hr_stats r') = 0 \<and> hr_size r' < n
    \<and> (\<forall>v \<in> set vs. hp_frame opts v \<and> length v \<le> n)"
proof -
  have "hp_ready opts (hp_init n)" and len: "length (hr_buffer (hp_init n)) = n"
    using assms(1) hp_inv_init [of opts n]
    by (auto simp: hp_ready_def hp_init_def hp_valid_options_def hp_pending_def)
  from hp_feed_no_overflow [OF this(1) assms(2)] have *: "hp_ready opts r'"
    "ps_overflows (hr_stats r') = ps_overflows (hr_stats (hp_init n))" "length (hr_buffer r') = n"
    "\<forall>v \<in> set vs. hp_frame opts v \<and> length v \<le> n" using len by simp_all
  from *(1,3) have "hr_size r' < n"
    using hp_inv_room [of opts r'] by (auto simp: hp_ready_def hp_valid_options_def)
  with * show ?thesis by (simp add: hp_init_def stats_init_def)
qed

lemma hp_never_overflows_witness:
  "case feed (hp_byte demo_options) [2, 7, 8, 9, 5, 5, 0] (hp_init 4) of (r', vs) \<Rightarrow>
     ps_overflows (hr_stats r') = 0 \<and> hr_size r' < 4"
proof -
  obtain r' vs where f: "feed (hp_byte demo_options) [2, 7, 8, 9, 5, 5, 0] (hp_init 4) = (r', vs)"
    by fastforce
  have "hp_valid_options 4 demo_options" by (simp add: hp_valid_options_def demo_options_def)
  from hp_never_overflows [OF this f] f show ?thesis by simp
qed

text \<open>
  A fixed-frame reader cuts the content of a memory stream into frames of the configured size,
  delivers them in order and keeps the remainder; a frame size that is zero or exceeds the buffer
  consumes nothing and is counted as an error.
\<close>

theorem fixed_poll_chunks:
  assumes "ring_inv s"
  shows "\<exists>r' s'. fixed_poll mem_stream n (app_callback f) (fixed_init B, (s, x)) = Some (r', (s',
      if n = 0 \<or> n > B then x else deliver f (chunks (rb_count s div n) n (ring_list s)) x))
    \<and> (if n = 0 \<or> n > B then s' = s \<and> ps_protocol_errors (fr_stats r') = 1
       else ring_list s' = [] \<and> fixed_pending r' = drop (rb_count s div n * n) (ring_list s))"
proof (cases "n = 0 \<or> n > B")
  case True
  then show ?thesis by (auto simp: fixed_poll_def fixed_init_def stats_init_def)
next
  case False
  then have inv: "fixed_inv n (fixed_init B)" by (simp add: fixed_inv_def fixed_init_def)
  obtain r' vs where f: "feed (fixed_byte n) (ring_list s) (fixed_init B) = (r', vs)" by fastforce
  have "fixed_pending (fixed_init B) = []" by (simp add: fixed_pending_def fixed_init_def)
  with fixed_feed [OF inv f] have vs: "vs = chunks (rb_count s div n) n (ring_list s)"
    "fixed_pending r' = drop (rb_count s div n * n) (ring_list s)" by simp_all
  have "fixed_poll mem_stream n (app_callback f) (fixed_init B, (s, x))
      = poll_loop mem_stream (reader_step (fixed_byte n) (app_callback f)) (fixed_init B, (s, x))"
    using False by (simp add: fixed_poll_def fixed_init_def)
  with mem_poll_reader [OF assms f, of f x] vs False show ?thesis by auto
qed

lemma fixed_poll_chunks_witness:
  "\<exists>r' s'. fixed_poll mem_stream 2 (app_callback (\<lambda>v log. log @ [v])) (fixed_init 4,
      (ring_full [1, 2, 3], [])) = Some (r', (s', [[1, 2]]))"
proof -
  have "rb_count (ring_full [1, 2, 3 :: byte]) div 2 = Suc 0" by simp
  then have c: "chunks (rb_count (ring_full [1, 2, 3 :: byte]) div 2) 2 (ring_list (ring_full [1, 2, 3])) = [[1, 2]]"
    by (simp add: numeral_2_eq_2)
  have "ring_inv (ring_full [1, 2, 3 :: byte])" by simp
  from fixed_poll_chunks [OF this, of 2 "\<lambda>v log. log @ [v]" 4 "[]"] show ?thesis
    unfolding c by auto
qed

end
